(* ===== verification/Prelude.thy ===== *)
theory Prelude
  imports Main "HOL-Library.Word"
begin

unbundle bit_operations_syntax

text \<open>
  Shared vocabulary of the development: Rust's result type, its integer
  helpers (checked, saturating and wrapping arithmetic at 64 bits, alignment,
  powers of two), the lemma collections of the components, and facts on lists
  that several components use.

  Conventions. An unsigned machine integer of the source (\<open>usize\<close>, \<open>u64\<close>) is
  a \<^typ>\<open>nat\<close> together with the bound \<open>2 ^ 64\<close> wherever the source can reach
  it: \<open>checked_add\<close> and its relatives are the standard library's operations.
  Bytes and values that are combined bitwise are words. A Rust \<open>panic\<close> is
  the value \<^term>\<open>None\<close> of an \<open>option\<close>; a \<open>Result\<close> is a \<open>result\<close> value.
\<close>

section \<open>Types\<close>

type_synonym usize = nat
type_synonym u64 = nat
type_synonym byte = "8 word"

datatype ('a, 'e) result = Ok 'a | Err 'e

fun is_ok :: "('a, 'e) result \<Rightarrow> bool" where
  "is_ok (Ok _) = True"
| "is_ok (Err _) = False"

fun bind_result :: "('a, 'e) result \<Rightarrow> ('a \<Rightarrow> ('b, 'e) result) \<Rightarrow> ('b, 'e) result" where
  "bind_result (Ok a) f = f a"
| "bind_result (Err e) f = Err e"

fun ok_or :: "'a option \<Rightarrow> 'e \<Rightarrow> ('a, 'e) result" where
  "ok_or (Some a) e = Ok a"
| "ok_or None e = Err e"

lemma bind_result_Ok_iff [simp]:
  "bind_result r f = Ok b \<longleftrightarrow> (\<exists>a. r = Ok a \<and> f a = Ok b)"
  by (cases r) auto

lemma ok_or_Ok_iff [simp]: "ok_or r e = Ok a \<longleftrightarrow> r = Some a"
  by (cases r) auto

lemma ok_or_Err_iff [simp]: "ok_or r e = Err e' \<longleftrightarrow> r = None \<and> e' = e"
  by (cases r) auto

section \<open>Machine arithmetic\<close>

definition u64_limit :: nat where
  "u64_limit = 2 ^ 64"

text \<open>\<open>usize::MAX\<close> and \<open>u64::MAX\<close>.\<close>

definition u64_max :: nat where
  "u64_max = 2 ^ 64 - 1"

definition checked_add :: "nat \<Rightarrow> nat \<Rightarrow> nat option" where
  "checked_add a b = (if a + b < 2 ^ 64 then Some (a + b) else None)"

definition checked_sub :: "nat \<Rightarrow> nat \<Rightarrow> nat option" where
  "checked_sub a b = (if b \<le> a then Some (a - b) else None)"

definition checked_mul :: "nat \<Rightarrow> nat \<Rightarrow> nat option" where
  "checked_mul a b = (if a * b < 2 ^ 64 then Some (a * b) else None)"

definition saturating_add :: "nat \<Rightarrow> nat \<Rightarrow> nat" where
  "saturating_add a b = min (a + b) (2 ^ 64 - 1)"

definition wrapping_add :: "nat \<Rightarrow> nat \<Rightarrow> nat" where
  "wrapping_add a b = (a + b) mod 2 ^ 64"

definition wrapping_sub :: "nat \<Rightarrow> nat \<Rightarrow> nat" where
  "wrapping_sub a b = (a + 2 ^ 64 - b) mod 2 ^ 64"

definition is_multiple_of :: "nat \<Rightarrow> nat \<Rightarrow> bool" where
  "is_multiple_of a b = (if b = 0 then a = 0 else a mod b = 0)"

definition div_ceil :: "nat \<Rightarrow> nat \<Rightarrow> nat" where
  "div_ceil a b = a div b + (if a mod b = 0 then 0 else 1)"

definition next_multiple_of :: "nat \<Rightarrow> nat \<Rightarrow> nat" where
  "next_multiple_of a b = (if a mod b = 0 then a else a + (b - a mod b))"

definition checked_next_multiple_of :: "nat \<Rightarrow> nat \<Rightarrow> nat option" where
  "checked_next_multiple_of a b =
     (if b = 0 then None
      else if next_multiple_of a b < 2 ^ 64 then Some (next_multiple_of a b) else None)"

text \<open>\<open>next_power_of_two\<close>: the least power of two that is not below \<open>n\<close>.\<close>

function npow2_from :: "nat \<Rightarrow> nat \<Rightarrow> nat" where
  "npow2_from p n = (if p < n \<and> 0 < p then npow2_from (2 * p) n else p)"
  by pat_completeness auto
termination
  by (relation "measure (\<lambda>(p, n). n - p)") auto

declare npow2_from.simps [simp del]

definition next_power_of_two :: "nat \<Rightarrow> nat" where
  "next_power_of_two n = npow2_from 1 n"

text \<open>\<open>trailing_zeros\<close> of a 64-bit value; 64 for zero.\<close>

function tz_from :: "nat \<Rightarrow> nat" where
  "tz_from n = (if n = 0 then 0 else if n mod 2 = 0 then Suc (tz_from (n div 2)) else 0)"
  by pat_completeness auto
termination
  by (relation "measure id") auto

declare tz_from.simps [simp del]

definition trailing_zeros :: "nat \<Rightarrow> nat" where
  "trailing_zeros n = (if n = 0 then 64 else tz_from n)"

named_theorems arith_defs \<open>definitions of the integer helpers\<close>

declare checked_add_def [arith_defs] checked_sub_def [arith_defs] checked_mul_def [arith_defs]
  saturating_add_def [arith_defs] is_multiple_of_def [arith_defs] div_ceil_def [arith_defs]
  u64_limit_def [arith_defs] u64_max_def [arith_defs]

lemma checked_add_Some_iff: "checked_add a b = Some c \<longleftrightarrow> c = a + b \<and> a + b < 2 ^ 64"
  by (auto simp: checked_add_def)

lemma checked_add_None_iff: "checked_add a b = None \<longleftrightarrow> 2 ^ 64 \<le> a + b"
  by (auto simp: checked_add_def)

lemma is_multiple_of_dvd: "is_multiple_of a b \<longleftrightarrow> b dvd a"
  by (auto simp: is_multiple_of_def dvd_eq_mod_eq_0)

lemma next_multiple_of_dvd [simp]:
  assumes "0 < b"
  shows "b dvd next_multiple_of a b"
proof (cases "a mod b = 0")
  case True
  then show ?thesis by (simp add: next_multiple_of_def dvd_eq_mod_eq_0)
next
  case False
  from assms have "a mod b < b" by simp
  have "a + (b - a mod b) = a div b * b + b"
    using \<open>a mod b < b\<close> by (metis add.assoc div_mult_mod_eq le_add_diff_inverse less_imp_le_nat)
  with False show ?thesis by (simp add: next_multiple_of_def)
qed

lemma next_multiple_of_ge: "a \<le> next_multiple_of a b"
  by (simp add: next_multiple_of_def)

lemma next_multiple_of_less: "0 < b \<Longrightarrow> next_multiple_of a b < a + b"
  by (auto simp: next_multiple_of_def intro: diff_less)

lemma next_multiple_of_le:
  assumes "b dvd c" "a \<le> c"
  shows "next_multiple_of a b \<le> c"
proof (cases "b = 0")
  case True
  with assms show ?thesis by (auto simp: next_multiple_of_def)
next
  case False
  show ?thesis
  proof (rule ccontr)
    assume "\<not> ?thesis"
    then have "c < next_multiple_of a b" by simp
    moreover have "b dvd next_multiple_of a b - c"
      using assms(1) False by (simp add: dvd_diff_nat)
    ultimately have "b \<le> next_multiple_of a b - c"
      by (intro dvd_imp_le) auto
    then show False using next_multiple_of_less [of b a] False assms(2) by linarith
  qed
qed

lemma npow2_from_power: "\<exists>k. npow2_from (2 ^ j) n = 2 ^ k \<and> j \<le> k"
proof (induction "2 ^ j :: nat" n arbitrary: j rule: npow2_from.induct)
  case (1 n)
  show ?case
  proof (cases "2 ^ j < n")
    case True
    have "\<exists>k. npow2_from (2 ^ Suc j) n = 2 ^ k \<and> Suc j \<le> k"
      using 1 True by (metis power_Suc zero_less_numeral zero_less_power)
    then show ?thesis
      using True by (subst npow2_from.simps) (auto dest: Suc_leD)
  next
    case False
    then show ?thesis by (subst npow2_from.simps) auto
  qed
qed

lemma npow2_from_ge: "0 < p \<Longrightarrow> n \<le> npow2_from p n"
proof (induction p n rule: npow2_from.induct)
  case (1 p n)
  then show ?case by (subst npow2_from.simps) auto
qed

lemma next_power_of_two_power: "\<exists>k. next_power_of_two n = 2 ^ k"
  using npow2_from_power [of 0 n] by (auto simp: next_power_of_two_def)

lemma next_power_of_two_ge: "n \<le> next_power_of_two n"
  by (simp add: next_power_of_two_def npow2_from_ge)

lemma tz_from_dvd: "2 ^ tz_from n dvd n"
proof (induction n rule: tz_from.induct)
  case (1 n)
  show ?case
  proof (cases "n \<noteq> 0 \<and> n mod 2 = 0")
    case True
    then have "2 ^ tz_from (n div 2) dvd n div 2" using 1 by simp
    then have "2 * 2 ^ tz_from (n div 2) dvd 2 * (n div 2)" by (rule mult_dvd_mono [OF dvd_refl])
    moreover have "2 * (n div 2) = n" using True by presburger
    ultimately show ?thesis using True by (subst tz_from.simps) simp
  next
    case False
    then show ?thesis by (subst tz_from.simps) auto
  qed
qed

lemma dvd_tz_from: "0 < n \<Longrightarrow> 2 ^ k dvd n \<Longrightarrow> k \<le> tz_from n"
proof (induction n arbitrary: k rule: tz_from.induct)
  case (1 n)
  show ?case
  proof (cases k)
    case (Suc j)
    then have "2 * 2 ^ j dvd n" using 1(3) by simp
    then have ev: "n mod 2 = 0" and "2 ^ j dvd n div 2"
      by (auto simp: dvd_def)
    moreover have "0 < n div 2" using 1(2) ev by presburger
    ultimately have "j \<le> tz_from (n div 2)" using 1 by simp
    with ev 1(2) Suc show ?thesis by (subst tz_from.simps) simp
  qed simp
qed

text \<open>Masking with a power of two minus one is taking the remainder.\<close>

lemma and_mask_mod: "n = 2 ^ p \<Longrightarrow> x AND (n - 1) = x mod n" for x n :: nat
  by (metis take_bit_eq_mask mask_eq_exp_minus_1 take_bit_eq_mod)

section \<open>Lists\<close>

lemma nth_list_update_if:
  "i < length xs \<Longrightarrow> xs[i := x] ! j = (if i = j then x else xs ! j)"
  by auto

lemma set_update_subset: "set (xs[i := x]) \<subseteq> insert x (set xs)"
  by (rule set_update_subset_insert)

lemma find_Some_split:
  assumes "List.find P xs = Some x"
  shows "\<exists>i < length xs. xs ! i = x \<and> P x \<and> (\<forall>j < i. \<not> P (xs ! j))"
  using assms by (auto simp: find_Some_iff)

lemma find_Some_mem: "List.find P xs = Some x \<Longrightarrow> x \<in> set xs \<and> P x"
  by (induction xs) (auto split: if_splits)

lemma find_None_mem: "List.find P xs = None \<longleftrightarrow> (\<forall>x \<in> set xs. \<not> P x)"
  by (induction xs) auto

lemma fold_invariant_set:
  assumes "\<And>x s. x \<in> set xs \<Longrightarrow> I s \<Longrightarrow> I (f x s)" "I s"
  shows "I (fold f xs s)"
  using assms by (induction xs arbitrary: s) auto

lemma length_filter_update:
  assumes "i < length xs"
  shows "length (filter P (xs[i := x])) + (if P (xs ! i) then 1 else 0)
       = length (filter P xs) + (if P x then 1 else 0)"
proof -
  have xs: "xs = take i xs @ xs ! i # drop (Suc i) xs" using assms by (rule id_take_nth_drop)
  have up: "xs[i := x] = take i xs @ x # drop (Suc i) xs" using assms by (rule upd_conv_take_nth_drop)
  have "length (filter P xs) = length (filter P (take i xs @ xs ! i # drop (Suc i) xs))"
    by (subst xs) (rule refl)
  then show ?thesis by (simp add: up)
qed

text \<open>\<open>Vec::swap_remove\<close>: the last element takes the place of the removed one.\<close>

definition swap_remove :: "'a list \<Rightarrow> nat \<Rightarrow> 'a list" where
  "swap_remove xs i = butlast (xs[i := last xs])"

lemma swap_remove_ok:
  assumes "distinct xs" "i < length xs"
  shows "distinct (swap_remove xs i)" "set (swap_remove xs i) = set xs - {xs ! i}"
proof -
  obtain ys z where xs: "xs = ys @ [z]" using assms(2) by (cases xs rule: rev_cases) auto
  have d: "distinct ys" "z \<notin> set ys" using assms(1) xs by auto
  have "distinct (swap_remove xs i) \<and> set (swap_remove xs i) = set xs - {xs ! i}"
  proof (cases "i < length ys")
    case True
    then have "swap_remove xs i = ys[i := z]" by (simp add: swap_remove_def xs list_update_append)
    moreover have "z \<noteq> ys ! i" using True d(2) nth_mem by blast
    ultimately show ?thesis
      using True d by (auto simp: xs nth_append set_update_distinct distinct_list_update)
  next
    case False
    then have "i = length ys" using assms(2) xs by simp
    then show ?thesis using d by (auto simp: swap_remove_def xs)
  qed
  then show "distinct (swap_remove xs i)" "set (swap_remove xs i) = set xs - {xs ! i}" by auto
qed

lemma map_swap_remove: "i < length xs \<Longrightarrow> map f (swap_remove xs i) = swap_remove (map f xs) i"
  by (cases xs) (simp_all add: swap_remove_def map_butlast map_update last_map del: list_update.simps)

section \<open>Transition systems\<close>

text \<open>
  The contract between a state machine and its safety proof: an invariant
  that every initial state has and every step keeps holds in every state a
  run reaches.
\<close>

inductive reaches :: "('s \<Rightarrow> bool) \<Rightarrow> ('s \<Rightarrow> 's \<Rightarrow> bool) \<Rightarrow> 's \<Rightarrow> bool"
  for init :: "'s \<Rightarrow> bool" and step :: "'s \<Rightarrow> 's \<Rightarrow> bool" where
  start: "init s \<Longrightarrow> reaches init step s"
| step: "reaches init step s \<Longrightarrow> step s t \<Longrightarrow> reaches init step t"

locale safe_system =
  fixes init :: "'s \<Rightarrow> bool" and step :: "'s \<Rightarrow> 's \<Rightarrow> bool" and inv :: "'s \<Rightarrow> bool"
  assumes inv_init: "init s \<Longrightarrow> inv s"
    and inv_step: "inv s \<Longrightarrow> step s t \<Longrightarrow> inv t"
begin

lemma reaches_inv: "reaches init step s \<Longrightarrow> inv s"
  by (induction rule: reaches.induct) (auto intro: inv_init inv_step)

lemma steps_inv: "step\<^sup>*\<^sup>* s t \<Longrightarrow> inv s \<Longrightarrow> inv t"
  by (induction rule: rtranclp_induct) (auto intro: inv_step)

end

end
