(* ===== verification/KlogRing.thy ===== *)
theory KlogRing
  imports Prelude
begin

text \<open>
  The kernel log's byte ring (\<open>kernel/src/klog_ring.rs\<close>): a fixed buffer
  that keeps the newest \<open>CAPACITY\<close> bytes. The const generic \<open>CAPACITY\<close> is the
  argument \<open>cap\<close> of every operation. The contract is the specification
  \<open>newest\<close>: what the ring stores after a run of pushes is the longest suffix
  of everything written that fits.
\<close>

section \<open>The ring\<close>

record klog_ring =
  kr_bytes :: "byte list"
  kr_head :: usize
  kr_len :: usize

definition klog_new :: "nat \<Rightarrow> klog_ring" where
  "klog_new cap = \<lparr>kr_bytes = replicate cap 0, kr_head = 0, kr_len = 0\<rparr>"

definition klog_is_empty :: "klog_ring \<Rightarrow> bool" where
  "klog_is_empty r \<longleftrightarrow> kr_len r = 0"

text \<open>\<open>dst[at..at + src.len()].copy_from_slice(src)\<close>.\<close>

definition copy_into :: "'a list \<Rightarrow> nat \<Rightarrow> 'a list \<Rightarrow> 'a list" where
  "copy_into dst at src = take at dst @ src @ drop (at + length src) dst"

definition klog_push :: "nat \<Rightarrow> klog_ring \<Rightarrow> byte list \<Rightarrow> klog_ring" where
  "klog_push cap r data0 =
     (let data = drop (length data0 - cap) data0;
          first = min (length data) (cap - kr_head r);
          b1 = copy_into (kr_bytes r) (kr_head r) (take first data);
          b2 = copy_into b1 0 (drop first data)
      in \<lparr>kr_bytes = b2,
          kr_head = (kr_head r + length data) mod cap,
          kr_len = min (kr_len r + length data) cap\<rparr>)"

definition klog_as_slices :: "nat \<Rightarrow> klog_ring \<Rightarrow> byte list \<times> byte list" where
  "klog_as_slices cap r =
     (let start = (kr_head r + cap - kr_len r) mod cap
      in if start + kr_len r \<le> cap
         then (take (kr_len r) (drop start (kr_bytes r)), [])
         else (drop start (kr_bytes r), take (kr_head r) (kr_bytes r)))"

definition klog_at :: "byte list \<times> byte list \<Rightarrow> nat \<Rightarrow> byte" where
  "klog_at s index =
     (if index < length (fst s) then fst s ! index else snd s ! (index - length (fst s)))"

definition klog_contains :: "nat \<Rightarrow> klog_ring \<Rightarrow> byte list \<Rightarrow> bool" where
  "klog_contains cap r needle =
     (let s = klog_as_slices cap r
      in if length needle > kr_len r then False
         else list_ex (\<lambda>start. list_all (\<lambda>offset. klog_at s (start + offset) = needle ! offset)
                [0..<length needle]) [0..<Suc (kr_len r - length needle)])"

section \<open>The abstract contents\<close>

definition klog_inv :: "nat \<Rightarrow> klog_ring \<Rightarrow> bool" where
  "klog_inv cap r \<longleftrightarrow> 0 < cap \<and> length (kr_bytes r) = cap \<and> kr_head r < cap \<and> kr_len r \<le> cap"

definition klog_contents :: "nat \<Rightarrow> klog_ring \<Rightarrow> byte list" where
  "klog_contents cap r = fst (klog_as_slices cap r) @ snd (klog_as_slices cap r)"

definition newest :: "nat \<Rightarrow> 'a list \<Rightarrow> 'a list" where
  "newest cap xs = drop (length xs - cap) xs"

lemma length_copy_into:
  "at + length src \<le> length dst \<Longrightarrow> length (copy_into dst at src) = length dst"
  by (simp add: copy_into_def)

lemma nth_copy_into:
  assumes "at + length src \<le> length dst" "i < length dst"
  shows "copy_into dst at src ! i
       = (if at \<le> i \<and> i < at + length src then src ! (i - at) else dst ! i)"
  using assms by (auto simp: copy_into_def nth_append min_def)

lemma length_newest [simp]: "length (newest cap xs) = min cap (length xs)"
  by (auto simp: newest_def)

lemma nth_newest:
  "i < min cap (length xs) \<Longrightarrow> newest cap xs ! i = xs ! (length xs - min cap (length xs) + i)"
  by (auto simp: newest_def min_def)

lemma newest_idem: "length xs \<le> cap \<Longrightarrow> newest cap xs = xs"
  by (simp add: newest_def)

lemma newest_append_drop: "newest cap (xs @ newest cap ys) = newest cap (xs @ ys)"
  by (cases "length ys \<le> cap") (auto simp: newest_def)

lemma klog_inv_new: "0 < cap \<Longrightarrow> klog_inv cap (klog_new cap)"
  by (simp add: klog_inv_def klog_new_def)

lemma mod_add_wrap: "a < cap \<Longrightarrow> b < cap \<Longrightarrow> (a + b) mod cap = (if a + b < cap then a + b else a + b - cap)"
  for a b cap :: nat
  by (auto simp: mod_if)

lemma klog_start_cases:
  assumes "klog_inv cap r"
  shows "(kr_head r + cap - kr_len r) mod cap
       = (if kr_len r \<le> kr_head r then (if kr_len r = 0 then kr_head r else kr_head r - kr_len r)
          else kr_head r + cap - kr_len r)"
  using assms by (auto simp: klog_inv_def mod_if)

text \<open>The bytes the ring stores, as one indexing function.\<close>

lemma klog_contents_cases:
  assumes inv: "klog_inv cap r"
  shows "klog_contents cap r
       = (if kr_len r \<le> kr_head r then take (kr_len r) (drop (kr_head r - kr_len r) (kr_bytes r))
          else drop (kr_head r + cap - kr_len r) (kr_bytes r) @ take (kr_head r) (kr_bytes r))"
proof -
  have b: "kr_head r < cap" "kr_len r \<le> cap" "length (kr_bytes r) = cap"
    using inv by (auto simp: klog_inv_def)
  show ?thesis
    unfolding klog_contents_def klog_as_slices_def klog_start_cases [OF inv] Let_def
    using b by (cases "kr_head r = 0") auto
qed

lemma klog_contents_nth:
  assumes inv: "klog_inv cap r"
  shows "length (klog_contents cap r) = kr_len r"
    and "i < kr_len r \<Longrightarrow> klog_contents cap r ! i
           = kr_bytes r ! ((kr_head r + cap - kr_len r + i) mod cap)"
proof -
  have b: "kr_head r < cap" "kr_len r \<le> cap" "length (kr_bytes r) = cap"
    using inv by (auto simp: klog_inv_def)
  show "length (klog_contents cap r) = kr_len r"
    using b by (auto simp: klog_contents_cases [OF inv])
  assume i: "i < kr_len r"
  show "klog_contents cap r ! i = kr_bytes r ! ((kr_head r + cap - kr_len r + i) mod cap)"
  proof (cases "kr_len r \<le> kr_head r")
    case True
    then have eq: "kr_head r + cap - kr_len r + i = (kr_head r - kr_len r + i) + cap" by simp
    have "kr_head r - kr_len r + i < cap" using True i b by linarith
    then have "(kr_head r + cap - kr_len r + i) mod cap = kr_head r - kr_len r + i"
      by (simp only: eq mod_add_self2 mod_less)
    then show ?thesis using True i b by (simp add: klog_contents_cases [OF inv])
  next
    case False
    define s where "s = kr_head r + cap - kr_len r"
    have s: "s < cap" "i < cap - s + kr_head r" using False i b by (auto simp: s_def)
    have "klog_contents cap r ! i = (drop s (kr_bytes r) @ take (kr_head r) (kr_bytes r)) ! i"
      using False by (simp add: klog_contents_cases [OF inv] s_def)
    also have "\<dots> = kr_bytes r ! (if s + i < cap then s + i else s + i - cap)"
      using s b by (auto simp: nth_append add.commute)
    also have "(if s + i < cap then s + i else s + i - cap) = (s + i) mod cap"
      using s b by (auto simp: mod_if)
    finally show ?thesis by (simp add: s_def)
  qed
qed

lemma klog_push_inv:
  assumes "klog_inv cap r"
  shows "klog_inv cap (klog_push cap r data)"
  using assms by (auto simp: klog_inv_def klog_push_def Let_def length_copy_into)

text \<open>After a push of at most \<open>cap\<close> bytes, position \<open>head + k\<close> holds byte \<open>k\<close>.\<close>

lemma klog_push_bytes:
  assumes inv: "klog_inv cap r" and j: "j < cap" and len: "length data \<le> cap"
  shows "kr_bytes (klog_push cap r data) ! j
       = (let k = (j + cap - kr_head r) mod cap
          in if k < length data then data ! k else kr_bytes r ! j)"
proof -
  have hd: "kr_head r < cap" and lb: "length (kr_bytes r) = cap"
    using inv by (auto simp: klog_inv_def)
  have k: "(j + cap - kr_head r) mod cap
         = (if kr_head r \<le> j then j - kr_head r else j + cap - kr_head r)"
    using hd j by (auto simp: mod_if)
  show ?thesis
    unfolding klog_push_def Let_def k
    using hd lb j len
    by (auto simp: nth_copy_into length_copy_into min_def add.commute)
qed

lemma klog_push_contents_short:
  assumes inv: "klog_inv cap r" and len: "length data \<le> cap"
  shows "klog_contents cap (klog_push cap r data) = newest cap (klog_contents cap r @ data)"
proof (rule nth_equalityI)
  let ?r' = "klog_push cap r data"
  have inv': "klog_inv cap ?r'" using inv by (rule klog_push_inv)
  have hd: "kr_head r < cap" and lr: "kr_len r \<le> cap" and cap: "0 < cap"
    using inv by (auto simp: klog_inv_def)
  have l': "kr_len ?r' = min (kr_len r + length data) cap"
    and h': "kr_head ?r' = (kr_head r + length data) mod cap"
    using len by (simp_all add: klog_push_def Let_def)
  note ct = klog_contents_nth [OF inv] and ct' = klog_contents_nth [OF inv']
  show "length (klog_contents cap ?r') = length (newest cap (klog_contents cap r @ data))"
    by (simp add: ct ct' l' min.commute)
  fix i assume "i < length (klog_contents cap ?r')"
  then have i: "i < kr_len ?r'" by (simp add: ct')
  let ?q = "kr_len r + length data - kr_len ?r' + i"
  let ?p = "(kr_head ?r' + cap - kr_len ?r' + i) mod cap"
  have q: "newest cap (klog_contents cap r @ data) ! i = (klog_contents cap r @ data) ! ?q"
    using i l' by (subst nth_newest) (auto simp: ct min.commute)
  have p: "?p = (kr_head r + cap - kr_len r + ?q) mod cap"
  proof -
    have "?p = (kr_head ?r' + (cap - kr_len ?r' + i)) mod cap"
      using l' by (intro arg_cong [where f = "\<lambda>x. x mod cap"]) auto
    also have "\<dots> = (kr_head r + length data + (cap - kr_len ?r' + i)) mod cap"
      unfolding h' by (simp add: mod_add_left_eq)
    also have "kr_head r + length data + (cap - kr_len ?r' + i)
        = kr_head r + cap - kr_len r + ?q"
      using l' lr by auto
    finally show ?thesis .
  qed
  have "?p < cap" using cap by simp
  have k: "(?p + cap - kr_head r) mod cap = (cap - kr_len r + ?q) mod cap"
  proof -
    have "(?p + cap - kr_head r) mod cap = (?p + (cap - kr_head r)) mod cap" using hd by simp
    also have "\<dots> = (kr_head r + cap - kr_len r + ?q + (cap - kr_head r)) mod cap"
      unfolding p by (simp add: mod_add_left_eq)
    also have "kr_head r + cap - kr_len r + ?q + (cap - kr_head r) = (cap - kr_len r + ?q) + cap"
      using hd lr by simp
    finally show ?thesis by simp
  qed
  have lhs: "klog_contents cap ?r' ! i
      = (let k = (cap - kr_len r + ?q) mod cap in if k < length data then data ! k else kr_bytes r ! ?p)"
    using ct'(2) [OF i] klog_push_bytes [OF inv \<open>?p < cap\<close> len] k by simp
  have qlt: "?q < kr_len r + length data" using i l' by auto
  show "klog_contents cap ?r' ! i = newest cap (klog_contents cap r @ data) ! i"
  proof (cases "?q < kr_len r")
    case True
    have "cap - kr_len r + ?q < cap" using True lr by linarith
    moreover have "\<not> cap - kr_len r + ?q < length data" using i l' len lr True by auto
    ultimately have "klog_contents cap ?r' ! i = kr_bytes r ! ?p"
      unfolding lhs Let_def by simp
    also have "\<dots> = klog_contents cap r ! ?q" using ct(2) [OF True] p by simp
    finally show ?thesis using True by (simp add: q nth_append ct)
  next
    case False
    then have "cap - kr_len r + ?q = cap + (?q - kr_len r)" using lr by linarith
    moreover have "?q - kr_len r < length data" "?q - kr_len r < cap" using qlt len False by linarith+
    ultimately have "klog_contents cap ?r' ! i = data ! (?q - kr_len r)"
      unfolding lhs Let_def by simp
    then show ?thesis using False by (simp add: q nth_append ct)
  qed
qed

lemma klog_push_truncates: "klog_push cap r data = klog_push cap r (newest cap data)"
  by (simp add: klog_push_def newest_def)

text \<open>
  What the log ring holds after a push is the newest \<open>CAPACITY\<close> bytes of
  what it held followed by the data, whatever the wrap position and however
  long the data.
\<close>

theorem klog_push_contents:
  assumes "klog_inv cap r"
  shows "klog_inv cap (klog_push cap r data)
       \<and> klog_contents cap (klog_push cap r data) = newest cap (klog_contents cap r @ data)"
proof -
  have "klog_contents cap (klog_push cap r (newest cap data))
      = newest cap (klog_contents cap r @ newest cap data)"
    using assms by (intro klog_push_contents_short) auto
  then show ?thesis
    using assms klog_push_inv newest_append_drop klog_push_truncates by metis
qed

theorem klog_push_contents_witness:
  "klog_inv 4 (klog_push 4 (klog_new 4) [1]) \<and>
   klog_contents 4 (klog_push 4 (klog_push 4 (klog_new 4) [1]) [2, 3, 4, 5, 6])
     = newest 4 (klog_contents 4 (klog_push 4 (klog_new 4) [1]) @ [2, 3, 4, 5, 6])"
proof -
  have i0: "klog_inv 4 (klog_new 4)" by (simp add: klog_inv_new)
  have i1: "klog_inv 4 (klog_push 4 (klog_new 4) [1])"
    using klog_push_contents [OF i0] by blast
  then show ?thesis using klog_push_contents [OF i1] by blast
qed

lemma klog_at_contents:
  assumes "klog_inv cap r" "i < kr_len r"
  shows "klog_at (klog_as_slices cap r) i = klog_contents cap r ! i"
  using assms by (simp add: klog_at_def klog_contents_def nth_append)

text \<open>
  \<open>contains\<close> reports exactly the occurrences of the needle in the stored
  bytes, across the wrap point too.
\<close>

theorem klog_contains_iff:
  assumes inv: "klog_inv cap r"
  shows "klog_contains cap r needle
     \<longleftrightarrow> (\<exists>pre post. klog_contents cap r = pre @ needle @ post)"
proof -
  let ?c = "klog_contents cap r" and ?s = "klog_as_slices cap r"
  have len: "length ?c = kr_len r" using inv by (rule klog_contents_nth)
  have at: "start \<le> kr_len r - length needle \<Longrightarrow> length needle \<le> kr_len r \<Longrightarrow>
      list_all (\<lambda>offset. klog_at ?s (start + offset) = needle ! offset) [0..<length needle]
        \<longleftrightarrow> take (length needle) (drop start ?c) = needle" for start
  proof -
    assume s: "start \<le> kr_len r - length needle" "length needle \<le> kr_len r"
    have "klog_at ?s (start + off) = take (length needle) (drop start ?c) ! off"
      if "off < length needle" for off
      using s that len by (subst klog_at_contents [OF inv]) auto
    moreover have "length (take (length needle) (drop start ?c)) = length needle"
      using s len by simp
    ultimately show ?thesis
      by (simp add: list_all_iff Ball_def list_eq_iff_nth_eq [of _ needle] del: nth_take nth_drop length_take)
  qed
  have "klog_contains cap r needle \<longleftrightarrow> length needle \<le> kr_len r \<and>
     (\<exists>start \<le> kr_len r - length needle. take (length needle) (drop start ?c) = needle)"
  proof (cases "length needle \<le> kr_len r")
    case True
    then have "klog_contains cap r needle \<longleftrightarrow> (\<exists>start \<in> {0..<Suc (kr_len r - length needle)}.
        list_all (\<lambda>offset. klog_at ?s (start + offset) = needle ! offset) [0..<length needle])"
      by (simp add: klog_contains_def Let_def list_ex_iff del: upt_Suc)
    also have "\<dots> \<longleftrightarrow> (\<exists>start \<in> {0..<Suc (kr_len r - length needle)}.
        take (length needle) (drop start ?c) = needle)"
      using at True by (intro bex_cong) auto
    finally show ?thesis using True by (auto simp: less_Suc_eq_le)
  qed (simp add: klog_contains_def Let_def)
  also have "\<dots> \<longleftrightarrow> (\<exists>pre post. ?c = pre @ needle @ post)"
  proof
    assume "length needle \<le> kr_len r \<and>
      (\<exists>start \<le> kr_len r - length needle. take (length needle) (drop start ?c) = needle)"
    then obtain start where "take (length needle) (drop start ?c) = needle" by blast
    then have "?c = take start ?c @ needle @ drop (length needle) (drop start ?c)"
      by (metis append_take_drop_id)
    then show "\<exists>pre post. ?c = pre @ needle @ post" by blast
  next
    assume "\<exists>pre post. ?c = pre @ needle @ post"
    then obtain pre post where c: "?c = pre @ needle @ post" by blast
    then have "length pre + length needle + length post = kr_len r" using len by simp
    moreover have "take (length needle) (drop (length pre) ?c) = needle" using c by simp
    ultimately show "length needle \<le> kr_len r \<and>
      (\<exists>start \<le> kr_len r - length needle. take (length needle) (drop start ?c) = needle)"
      by (intro conjI exI [of _ "length pre"]) auto
  qed
  finally show ?thesis .
qed

theorem klog_contains_iff_witness:
  "klog_contains 4 (klog_push 4 (klog_new 4) [1, 2, 3, 4, 5, 6]) [4, 5]
     \<longleftrightarrow> (\<exists>pre post. klog_contents 4 (klog_push 4 (klog_new 4) [1, 2, 3, 4, 5, 6]) = pre @ [4, 5] @ post)"
  by (rule klog_contains_iff) (simp add: klog_push_inv klog_inv_new)

end
