(* ===== verification/SoundRing.thy ===== *)
theory SoundRing
  imports Prelude
begin

text \<open>
  The playback ring (\<open>kernel/src/sound/ring.rs\<close>): the bookkeeping that hands
  periods of one DMA buffer to a sound card. The card is outside the model; it
  appears as the \<open>Status\<close> values it reports. The steps of the driver form a
  transition system whose invariant makes the writer and the card use disjoint
  parts of the buffer.
\<close>

section \<open>Constants and data\<close>

definition PERIODS :: nat where "PERIODS = 32"
definition PERIOD_BYTES :: nat where "PERIOD_BYTES = 2048"
definition RING_BYTES :: nat where "RING_BYTES = PERIODS * PERIOD_BYTES"
definition MAX_QUEUED :: nat where "MAX_QUEUED = PERIODS - 1"
definition START_PERIODS :: nat where "START_PERIODS = 4"

lemmas ring_consts = PERIODS_def PERIOD_BYTES_def RING_BYTES_def MAX_QUEUED_def START_PERIODS_def

record status =
  st_current :: usize
  st_halted :: bool

datatype action = NoAction | Start usize | Submit usize

record update =
  up_halted :: bool
  up_finished :: "(usize \<times> usize) option"

record sring =
  fill_period :: usize
  fill_bytes :: usize
  first_queued :: usize
  queued :: usize
  running :: bool
  played :: u64

definition ring_new :: sring where
  "ring_new = \<lparr>fill_period = 0, fill_bytes = 0, first_queued = 0, queued = 0,
               running = False, played = 0\<rparr>"

section \<open>Operations\<close>

definition ring_update :: "sring \<Rightarrow> status \<Rightarrow> sring \<times> update" where
  "ring_update r status =
     (if \<not> running r then (r, \<lparr>up_halted = False, up_finished = None\<rparr>)
      else if st_halted status then
        (let finished = (if queued r > 0 then Some (first_queued r, queued r) else None)
         in (r\<lparr>played := played r + queued r, queued := 0, running := False,
               first_queued := 0, fill_period := 0\<rparr>,
             \<lparr>up_halted = True, up_finished = finished\<rparr>))
      else
        (let done0 = (st_current status + PERIODS - first_queued r) mod PERIODS;
             d = min done0 (queued r - 1);
             finished = (if d > 0 then Some (first_queued r, d) else None)
         in (r\<lparr>played := played r + d, queued := queued r - d,
               first_queued := (first_queued r + d) mod PERIODS\<rparr>,
             \<lparr>up_halted = False, up_finished = finished\<rparr>)))"

definition ring_space :: "sring \<Rightarrow> (usize \<times> usize) option" where
  "ring_space r =
     (if queued r < MAX_QUEUED
      then Some (fill_period r * PERIOD_BYTES + fill_bytes r, PERIOD_BYTES - fill_bytes r)
      else None)"

definition ring_start :: "sring \<Rightarrow> sring \<times> action" where
  "ring_start r =
     (if running r \<or> queued r = 0 then (r, NoAction)
      else (r\<lparr>running := True\<rparr>, Start (queued r - 1)))"

text \<open>\<open>commit\<close> panics (\<^term>\<open>None\<close>) on a write past the space the ring offered.\<close>

definition ring_commit :: "sring \<Rightarrow> usize \<Rightarrow> (sring \<times> action) option" where
  "ring_commit r count =
     (if \<not> (queued r < MAX_QUEUED \<and> fill_bytes r + count \<le> PERIOD_BYTES) then None
      else if fill_bytes r + count < PERIOD_BYTES
      then Some (r\<lparr>fill_bytes := fill_bytes r + count\<rparr>, NoAction)
      else
        (let period = fill_period r;
             r' = r\<lparr>fill_period := (period + 1) mod PERIODS, fill_bytes := 0,
                    queued := queued r + 1\<rparr>
         in if running r' then Some (r', Submit period)
            else if queued r' \<ge> START_PERIODS then Some (ring_start r')
            else Some (r', NoAction)))"

definition ring_padding :: "sring \<Rightarrow> (usize \<times> usize) option" where
  "ring_padding r = (if fill_bytes r > 0 then ring_space r else None)"

definition ring_reset :: "sring \<Rightarrow> sring" where
  "ring_reset r = ring_new\<lparr>played := played r\<rparr>"

lemmas ring_op_defs = ring_update_def ring_space_def ring_start_def ring_commit_def
  ring_padding_def ring_reset_def ring_new_def

section \<open>Arithmetic of a window that wraps round the ring\<close>

lemma mod_window_step:
  assumes "d \<le> q"
  shows "((f + d) mod n + (q - d)) mod n = (f + q) mod (n::nat)"
proof -
  have "((f + d) mod n + (q - d)) mod n = (f + d + (q - d)) mod n" by (rule mod_add_left_eq)
  also have "f + d + (q - d) = f + q" using assms by simp
  finally show ?thesis .
qed

lemma mod_window_le:
  assumes "k < n" "j \<le> k" "(f + j) mod n = (f + k) mod n"
  shows "j = (k::nat)"
proof -
  have "n dvd (f + k) - (f + j)" using assms mod_eq_dvd_iff_nat [of "f + j" "f + k" n] by simp
  then show ?thesis using assms by (cases "k = j") (auto dest!: dvd_imp_le)
qed

lemma mod_window_inj:
  "j < n \<Longrightarrow> k < n \<Longrightarrow> (f + j) mod n = (f + k) mod n \<Longrightarrow> j = (k::nat)"
  by (metis mod_window_le linear)

section \<open>The invariant and the driver's transition system\<close>

definition ring_inv :: "sring \<Rightarrow> bool" where
  "ring_inv r \<longleftrightarrow>
     fill_bytes r < PERIOD_BYTES \<and> first_queued r < PERIODS \<and> queued r \<le> MAX_QUEUED \<and>
     fill_period r = (first_queued r + queued r) mod PERIODS \<and>
     (running r \<longrightarrow> 0 < queued r) \<and>
     (\<not> running r \<longrightarrow> first_queued r = 0 \<and> queued r < START_PERIODS)"

inductive ring_step :: "sring \<Rightarrow> sring \<Rightarrow> bool" where
  step_update: "ring_step r (fst (ring_update r s))"
| step_commit: "ring_commit r n = Some (r', a) \<Longrightarrow> ring_step r r'"
| step_start: "ring_step r (fst (ring_start r))"
| step_reset: "ring_step r (ring_reset r)"

inductive_cases ring_stepE: "ring_step r r'"

lemma ring_inv_new: "ring_inv ring_new"
  by (simp add: ring_inv_def ring_new_def ring_consts)

lemma ring_update_inv:
  assumes "ring_inv r"
  shows "ring_inv (fst (ring_update r s))"
proof -
  consider "\<not> running r" | "running r" "st_halted s" | "running r" "\<not> st_halted s" by blast
  then show ?thesis
  proof cases
    case 3
    define d where "d = min ((st_current s + PERIODS - first_queued r) mod PERIODS) (queued r - 1)"
    have q: "0 < queued r" using assms 3 by (simp add: ring_inv_def)
    then have d: "d < queued r" by (auto simp: d_def)
    have "((first_queued r + d) mod PERIODS + (queued r - d)) mod PERIODS
        = (first_queued r + queued r) mod PERIODS"
      using mod_window_step [of d "queued r" "first_queued r" PERIODS] d by simp
    moreover have "(first_queued r + d) mod PERIODS < PERIODS" by (simp add: PERIODS_def)
    moreover have "queued r - d \<le> MAX_QUEUED" using assms by (auto simp: ring_inv_def)
    ultimately show ?thesis
      using assms 3 d unfolding ring_inv_def ring_update_def Let_def d_def [symmetric] by auto
  qed (use assms in \<open>auto simp: ring_inv_def ring_update_def ring_consts Let_def\<close>)
qed

lemma ring_start_inv: "ring_inv r \<Longrightarrow> ring_inv (fst (ring_start r))"
  by (auto simp: ring_inv_def ring_start_def)

lemma ring_commit_inv:
  assumes "ring_inv r" "ring_commit r n = Some (r', a)"
  shows "ring_inv r'"
proof -
  have suc: "((first_queued r + queued r) mod 32 + 1) mod 32 = (first_queued r + (queued r + 1)) mod 32"
    by presburger
  show ?thesis
    using assms suc
    by (auto simp: ring_inv_def ring_commit_def ring_start_def ring_consts Let_def split: if_splits)
qed

lemma ring_reset_inv: "ring_inv (ring_reset r)"
  by (simp add: ring_reset_def ring_inv_def ring_new_def ring_consts)

lemma ring_step_inv: "ring_inv r \<Longrightarrow> ring_step r r' \<Longrightarrow> ring_inv r'"
  by (erule ring_stepE) (auto intro: ring_update_inv ring_start_inv ring_commit_inv ring_reset_inv)

interpretation sring: safe_system "\<lambda>r. r = ring_new" ring_step ring_inv
  by unfold_locales (auto intro: ring_inv_new ring_step_inv)

text \<open>
  Every state the driver can bring the ring into, by any sequence of card
  reports, writes, starts and resets, satisfies the ring's invariant.
\<close>

theorem ring_reachable_inv:
  "reaches (\<lambda>r. r = ring_new) ring_step r \<Longrightarrow> ring_inv r"
  by (rule sring.reaches_inv)

theorem ring_reachable_inv_witness: "ring_inv (fst (ring_start ring_new))"
  by (rule ring_reachable_inv, rule reaches.step, rule reaches.start, rule refl, rule step_start)

section \<open>What the card is playing is never written\<close>

text \<open>The periods handed to the card, as a set of ring positions.\<close>

definition queued_periods :: "sring \<Rightarrow> nat set" where
  "queued_periods r = (\<lambda>k. (first_queued r + k) mod PERIODS) ` {0..<queued r}"

definition period_bytes :: "nat \<Rightarrow> nat set" where
  "period_bytes p = {p * PERIOD_BYTES..<(p + 1) * PERIOD_BYTES}"

definition finished_periods :: "update \<Rightarrow> nat set" where
  "finished_periods u = (case up_finished u of None \<Rightarrow> {}
     | Some (f, n) \<Rightarrow> (\<lambda>k. (f + k) mod PERIODS) ` {0..<n})"

definition ring_bytes :: "sring \<Rightarrow> nat" where
  "ring_bytes r = (played r + queued r) * PERIOD_BYTES + fill_bytes r"

lemma period_bytes_disjoint: "p \<noteq> q \<Longrightarrow> period_bytes p \<inter> period_bytes q = {}"
  by (auto simp: period_bytes_def PERIOD_BYTES_def)

text \<open>
  The bytes the ring offers to the writer lie inside the buffer and inside
  the fill period, and no period handed to the card shares a byte with them:
  the writer can never overwrite what the card plays.
\<close>

theorem ring_space_disjoint:
  assumes inv: "ring_inv r" and space: "ring_space r = Some (off, room)"
  shows "0 < room \<and> off + room \<le> RING_BYTES \<and> {off..<off + room} \<subseteq> period_bytes (fill_period r)
       \<and> {off..<off + room} \<inter> (\<Union>p \<in> queued_periods r. period_bytes p) = {}"
proof -
  have fb: "fill_bytes r < PERIOD_BYTES" and q: "queued r < MAX_QUEUED"
    and fp: "fill_period r = (first_queued r + queued r) mod PERIODS"
    and off: "off = fill_period r * PERIOD_BYTES + fill_bytes r"
    and room: "room = PERIOD_BYTES - fill_bytes r"
    using inv space by (auto simp: ring_inv_def ring_space_def split: if_splits)
  have sub: "{off..<off + room} \<subseteq> period_bytes (fill_period r)"
    using fb by (auto simp: off room period_bytes_def)
  have "fill_period r < PERIODS" using fp by (simp add: PERIODS_def)
  then have bound: "off + room \<le> RING_BYTES"
    using fb by (auto simp: off room ring_consts)
  have "fill_period r \<notin> queued_periods r"
  proof
    assume "fill_period r \<in> queued_periods r"
    then obtain k where "k < queued r" "(first_queued r + queued r) mod PERIODS = (first_queued r + k) mod PERIODS"
      using fp by (auto simp: queued_periods_def)
    then show False using q mod_window_inj [of "queued r" PERIODS k] by (auto simp: MAX_QUEUED_def PERIODS_def)
  qed
  then have "period_bytes (fill_period r) \<inter> period_bytes p = {}" if "p \<in> queued_periods r" for p
    using that by (intro period_bytes_disjoint) auto
  then have "period_bytes (fill_period r) \<inter> (\<Union>p \<in> queued_periods r. period_bytes p) = {}"
    by blast
  then have "{off..<off + room} \<inter> (\<Union>p \<in> queued_periods r. period_bytes p) = {}"
    using sub by (meson disjoint_iff subset_iff)
  moreover have "0 < room" using fb by (simp add: room)
  ultimately show ?thesis using bound sub by simp
qed

theorem ring_space_disjoint_witness:
  "ring_inv (ring_new\<lparr>fill_bytes := 48\<rparr>) \<and> ring_space (ring_new\<lparr>fill_bytes := 48\<rparr>) = Some (48, 2000)
   \<and> 48 + 2000 \<le> RING_BYTES"
proof -
  have i: "ring_inv (ring_new\<lparr>fill_bytes := 48\<rparr>)"
    by (simp add: ring_inv_def ring_new_def ring_consts)
  have s: "ring_space (ring_new\<lparr>fill_bytes := 48\<rparr>) = Some (48, 2000)"
    by (simp add: ring_space_def ring_new_def ring_consts)
  show ?thesis using i s ring_space_disjoint [OF i s] by blast
qed

text \<open>
  Nothing written is lost or played twice: the bytes accounted for (played,
  queued and pending) grow by exactly the committed count, and card reports and
  starts only move them between the three.
\<close>

theorem ring_bytes_conserved:
  assumes "ring_inv r"
  shows "ring_bytes (fst (ring_update r s)) = ring_bytes r
       \<and> ring_bytes (fst (ring_start r)) = ring_bytes r
       \<and> (\<forall>n r' a. ring_commit r n = Some (r', a) \<longrightarrow> ring_bytes r' = ring_bytes r + n)"
proof -
  have "played (fst (ring_update r s)) + queued (fst (ring_update r s)) = played r + queued r"
    by (auto simp: ring_update_def Let_def)
  then have "ring_bytes (fst (ring_update r s)) = ring_bytes r"
    by (simp add: ring_bytes_def) (simp add: ring_update_def Let_def)
  moreover have "ring_bytes r' = ring_bytes r + n" if "ring_commit r n = Some (r', a)" for n r' a
    using that by (auto simp: ring_commit_def ring_start_def ring_bytes_def ring_consts Let_def
        split: if_splits)
  ultimately show ?thesis by (simp add: ring_bytes_def ring_start_def)
qed

theorem ring_bytes_conserved_witness:
  "ring_bytes (fst (ring_update ring_new \<lparr>st_current = 0, st_halted = True\<rparr>)) = ring_bytes ring_new"
  using ring_bytes_conserved [OF ring_inv_new] by blast

text \<open>
  What the driver is told to do matches the queue: a submitted period is
  the last one queued, and a start plays exactly the queued periods from
  period 0.
\<close>

theorem ring_commit_action:
  assumes inv: "ring_inv r" and commit: "ring_commit r n = Some (r', a)"
  shows "(\<forall>p. a = Submit p \<longrightarrow> running r \<and> queued r' = queued r + 1
              \<and> p = (first_queued r' + queued r' - 1) mod PERIODS)
       \<and> (\<forall>p. a = Start p \<longrightarrow> \<not> running r \<and> running r' \<and> queued r' = START_PERIODS
              \<and> queued_periods r' = {0..p})"
proof -
  have sub: "running r \<and> queued r' = queued r + 1 \<and> p = (first_queued r' + queued r' - 1) mod PERIODS"
    if "a = Submit p" for p
  proof -
    have "running r" "p = fill_period r" "queued r' = queued r + 1" "first_queued r' = first_queued r"
      using that commit by (auto simp: ring_commit_def ring_start_def Let_def split: if_splits)
    then show ?thesis using inv by (simp add: ring_inv_def)
  qed
  have st: "\<not> running r \<and> running r' \<and> queued r' = START_PERIODS \<and> p = 3 \<and> first_queued r' = 0"
    if "a = Start p" for p
  proof -
    have "START_PERIODS \<le> queued r + 1" "\<not> running r" "p = queued r" "running r'"
      "queued r' = queued r + 1" "first_queued r' = first_queued r"
      using that commit by (auto simp: ring_commit_def ring_start_def Let_def split: if_splits)
    then show ?thesis using inv by (auto simp: ring_inv_def START_PERIODS_def)
  qed
  have qp: "queued_periods r' = {0..3}" if "first_queued r' = 0" "queued r' = START_PERIODS"
  proof -
    have "queued_periods r' = (\<lambda>k. k) ` {0..<4}"
      unfolding queued_periods_def using that by (intro image_cong) (auto simp: ring_consts)
    also have "\<dots> = {0..<4}" by simp
    also have "{0..<4} = {0..3::nat}" by auto
    finally show ?thesis .
  qed
  show ?thesis
  proof (rule conjI; intro allI impI)
    fix p
    show "running r \<and> queued r' = queued r + 1 \<and> p = (first_queued r' + queued r' - 1) mod PERIODS"
      if "a = Submit p" using sub [OF that] .
    show "\<not> running r \<and> running r' \<and> queued r' = START_PERIODS \<and> queued_periods r' = {0..p}"
      if "a = Start p" using st [OF that] qp by simp
  qed
qed

theorem ring_commit_action_witness:
  "ring_inv (ring_new\<lparr>fill_period := 3, queued := 3\<rparr>)
   \<and> ring_commit (ring_new\<lparr>fill_period := 3, queued := 3\<rparr>) 2048
      = Some (ring_new\<lparr>fill_period := 4, queued := 4, running := True\<rparr>, Start 3)
   \<and> queued_periods (ring_new\<lparr>fill_period := 4, queued := 4, running := True\<rparr>) = {0..3}"
proof -
  have i: "ring_inv (ring_new\<lparr>fill_period := 3, queued := 3\<rparr>)"
    by (simp add: ring_inv_def ring_new_def ring_consts)
  have c: "ring_commit (ring_new\<lparr>fill_period := 3, queued := 3\<rparr>) 2048
      = Some (ring_new\<lparr>fill_period := 4, queued := 4, running := True\<rparr>, Start 3)"
    by (simp add: ring_commit_def ring_start_def ring_new_def ring_consts Let_def)
  show ?thesis using i c ring_commit_action [OF i c] by blast
qed

text \<open>
  The periods \<open>update\<close> reports as finished, which the caller overwrites with
  silence, are exactly those that leave the queue: none of them is still queued.
\<close>

theorem ring_update_finished:
  assumes inv: "ring_inv r" and up: "ring_update r s = (r', u)"
  shows "queued_periods r' \<union> finished_periods u = queued_periods r
       \<and> queued_periods r' \<inter> finished_periods u = {}"
proof (cases "running r \<and> \<not> st_halted s")
  case False
  then show ?thesis
    using up by (auto simp: ring_update_def queued_periods_def finished_periods_def Let_def
        split: if_splits)
next
  case True
  define d where "d = min ((st_current s + PERIODS - first_queued r) mod PERIODS) (queued r - 1)"
  have d: "d < queued r" using inv True by (auto simp: d_def ring_inv_def)
  have q: "queued r \<le> PERIODS" using inv by (auto simp: ring_inv_def MAX_QUEUED_def)
  have fin: "finished_periods u = (\<lambda>k. (first_queued r + k) mod PERIODS) ` {0..<d}"
  proof -
    have "up_finished u = (if 0 < d then Some (first_queued r, d) else None)"
      using up True by (auto simp: ring_update_def Let_def d_def)
    then show ?thesis by (simp add: finished_periods_def)
  qed
  have rest: "queued_periods r' = (\<lambda>k. (first_queued r + k) mod PERIODS) ` {d..<queued r}"
  proof -
    have "first_queued r' = (first_queued r + d) mod PERIODS" "queued r' = queued r - d"
      using up True by (auto simp: ring_update_def Let_def d_def)
    then have "queued_periods r' = (\<lambda>k. (first_queued r + (k + d)) mod PERIODS) ` {0..<queued r - d}"
      by (simp add: queued_periods_def mod_add_left_eq add.assoc add.commute [of d])
    also have "\<dots> = (\<lambda>k. (first_queued r + k) mod PERIODS) ` ((\<lambda>k. k + d) ` {0..<queued r - d})"
      by (simp only: image_image)
    also have "(\<lambda>k. k + d) ` {0..<queued r - d} = {d..<queued r}"
      using d by simp
    finally show ?thesis .
  qed
  have "{d..<queued r} \<union> {0..<d} = {0..<queued r}" using d by auto
  then have "queued_periods r' \<union> finished_periods u = queued_periods r"
    unfolding fin rest unfolding queued_periods_def [of r] by (simp only: image_Un [symmetric])
  moreover have "queued_periods r' \<inter> finished_periods u = {}"
    unfolding fin rest using q d by (auto dest!: mod_window_inj [rotated 2])
  ultimately show ?thesis ..
qed

theorem ring_update_finished_witness:
  "queued_periods (fst (ring_update ring_new \<lparr>st_current = 0, st_halted = False\<rparr>))
     \<inter> finished_periods (snd (ring_update ring_new \<lparr>st_current = 0, st_halted = False\<rparr>)) = {}"
  using ring_update_finished [OF ring_inv_new] by (metis prod.collapse)

end
