(* ===== verification/Holds.thy ===== *)
theory Holds
  imports Prelude
begin

text \<open>
  Temporary boot-time frame holds (\<open>kernel/src/mm/holds.rs\<close>): a fixed table of
  frame ranges, each owned by a hold. The abstraction is the set of frames each
  hold still owns; releasing a hold may only ever free frames in that set.
\<close>

section \<open>The table\<close>

definition MAX_HOLD_RANGES :: nat where "MAX_HOLD_RANGES = 32"

type_synonym hold_id = nat

record hrange =
  hr_id :: hold_id
  hr_first :: usize
  hr_last :: usize

record hold_table =
  ht_ranges :: "hrange option list"
  ht_next_id :: nat

definition holds_new :: hold_table where
  "holds_new = \<lparr>ht_ranges = replicate MAX_HOLD_RANGES None, ht_next_id = 0\<rparr>"

definition holds_new_id :: "hold_table \<Rightarrow> hold_table \<times> hold_id" where
  "holds_new_id t = (t\<lparr>ht_next_id := ht_next_id t + 1\<rparr>, ht_next_id t + 1)"

text \<open>The first free slot of the table.\<close>

fun first_none :: "'a option list \<Rightarrow> nat option" where
  "first_none [] = None"
| "first_none (None # xs) = Some 0"
| "first_none (Some _ # xs) = map_option Suc (first_none xs)"

definition holds_add :: "hold_table \<Rightarrow> hold_id \<Rightarrow> usize \<Rightarrow> usize \<Rightarrow> hold_table \<times> bool" where
  "holds_add t hid lo hi =
     (if lo \<ge> hi then (t, True)
      else case first_none (ht_ranges t) of
        Some slot \<Rightarrow>
          (t\<lparr>ht_ranges := (ht_ranges t)[slot := Some \<lparr>hr_id = hid, hr_first = lo, hr_last = hi\<rparr>]\<rparr>, True)
      | None \<Rightarrow> (t, False))"

text \<open>One iteration of \<open>punch\<close>'s loop, at table index \<open>i\<close>.\<close>

definition punch_at :: "usize \<Rightarrow> usize \<Rightarrow> nat \<Rightarrow> hold_table \<times> bool \<Rightarrow> hold_table \<times> bool" where
  "punch_at lo hi i tc =
     (let (t, complete) = tc in
      case ht_ranges t ! i of
        None \<Rightarrow> (t, complete)
      | Some rg \<Rightarrow>
          if hr_last rg \<le> lo \<or> hi \<le> hr_first rg then (t, complete)
          else
            let left = (if hr_first rg < lo then Some (hr_first rg, lo) else None);
                right = (if hi < hr_last rg then Some (hi, hr_last rg) else None);
                keep = (case left of Some p \<Rightarrow> Some p | None \<Rightarrow> right);
                t' = t\<lparr>ht_ranges := (ht_ranges t)[i :=
                       map_option (\<lambda>(f, l). \<lparr>hr_id = hr_id rg, hr_first = f, hr_last = l\<rparr>) keep]\<rparr>
            in case (left, right) of
                 (Some _, Some (f, l)) \<Rightarrow>
                   (let (t'', ok) = holds_add t' (hr_id rg) f l in (t'', complete \<and> ok))
               | _ \<Rightarrow> (t', complete))"

definition holds_punch :: "hold_table \<Rightarrow> usize \<Rightarrow> usize \<Rightarrow> hold_table \<times> bool" where
  "holds_punch t lo hi = fold (punch_at lo hi) [0..<MAX_HOLD_RANGES] (t, True)"

text \<open>
  \<open>release\<close> passes each range of the hold to its callback, in table order; the
  model returns the list of those ranges.
\<close>

definition holds_release :: "hold_table \<Rightarrow> hold_id \<Rightarrow> hold_table \<times> (usize \<times> usize) list" where
  "holds_release t hid =
     (t\<lparr>ht_ranges := map (\<lambda>s. case s of Some r \<Rightarrow> if hr_id r = hid then None else Some r | None \<Rightarrow> None)
          (ht_ranges t)\<rparr>,
      concat (map (\<lambda>s. case s of Some r \<Rightarrow> if hr_id r = hid then [(hr_first r, hr_last r)] else [] | None \<Rightarrow> [])
          (ht_ranges t)))"

definition held_frames :: "hold_table \<Rightarrow> nat" where
  "held_frames t = sum_list (map (\<lambda>s. case s of Some r \<Rightarrow> hr_last r - hr_first r | None \<Rightarrow> 0) (ht_ranges t))"

section \<open>The frames a hold owns\<close>

definition slot_frames :: "hold_id \<Rightarrow> hrange option \<Rightarrow> nat set" where
  "slot_frames hid s = (case s of Some r \<Rightarrow> if hr_id r = hid then {hr_first r..<hr_last r} else {} | None \<Rightarrow> {})"

definition held :: "hold_table \<Rightarrow> hold_id \<Rightarrow> nat set" where
  "held t hid = (\<Union>s \<in> set (ht_ranges t). slot_frames hid s)"

definition holds_wf :: "hold_table \<Rightarrow> bool" where
  "holds_wf t \<longleftrightarrow> length (ht_ranges t) = MAX_HOLD_RANGES"

lemma slot_frames_simps [simp]:
  "slot_frames hid None = {}"
  "slot_frames hid (Some r) = (if hr_id r = hid then {hr_first r..<hr_last r} else {})"
  by (simp_all add: slot_frames_def)

lemma held_nth: "held t hid = (\<Union>i < length (ht_ranges t). slot_frames hid (ht_ranges t ! i))"
  by (auto simp: held_def set_conv_nth)

lemma first_none_Some:
  "first_none xs = Some i \<Longrightarrow> i < length xs \<and> xs ! i = None"
  by (induction xs arbitrary: i rule: first_none.induct) auto

lemma held_update:
  assumes "i < length (ht_ranges t)"
  shows "held (t\<lparr>ht_ranges := (ht_ranges t)[i := s]\<rparr>) hid
       = slot_frames hid s \<union> (\<Union>j \<in> {..<length (ht_ranges t)} - {i}. slot_frames hid (ht_ranges t ! j))"
  using assms by (auto simp: held_nth nth_list_update split: if_splits)

lemma held_split:
  assumes "i < length (ht_ranges t)"
  shows "held t hid = slot_frames hid (ht_ranges t ! i)
       \<union> (\<Union>j \<in> {..<length (ht_ranges t)} - {i}. slot_frames hid (ht_ranges t ! j))"
  using assms by (auto simp: held_nth)

lemma held_add:
  assumes "holds_add t hid lo hi = (t', ok)"
  shows "held t' hid' = held t hid' \<union> (if ok \<and> hid' = hid then {lo..<hi} else {})"
    and "holds_wf t \<Longrightarrow> holds_wf t'"
proof -
  show "held t' hid' = held t hid' \<union> (if ok \<and> hid' = hid then {lo..<hi} else {})"
  proof (cases "lo < hi \<and> first_none (ht_ranges t) \<noteq> None")
    case True
    then obtain i where i: "first_none (ht_ranges t) = Some i" by blast
    note ii = first_none_Some [OF i]
    have t': "t' = t\<lparr>ht_ranges := (ht_ranges t)[i := Some \<lparr>hr_id = hid, hr_first = lo, hr_last = hi\<rparr>]\<rparr>"
      and ok: "ok" using assms True i by (auto simp: holds_add_def)
    show ?thesis
      unfolding t' held_update [OF conjunct1 [OF ii]] held_split [OF conjunct1 [OF ii], of hid']
      using ii ok by auto
  qed (use assms in \<open>auto simp: holds_add_def split: option.splits if_splits\<close>)
  show "holds_wf t \<Longrightarrow> holds_wf t'"
    using assms by (auto simp: holds_add_def holds_wf_def split: option.splits if_splits)
qed


section \<open>Punching\<close>

text \<open>A slot is clean of \<open>lo..<hi\<close> when it holds none of those frames.\<close>

definition clean :: "usize \<Rightarrow> usize \<Rightarrow> hrange option \<Rightarrow> bool" where
  "clean lo hi s \<longleftrightarrow> (\<forall>hid. slot_frames hid s \<inter> {lo..<hi} = {})"

lemma clean_None [simp]: "clean lo hi None"
  by (simp add: clean_def)

lemma clean_Some [simp]:
  "clean lo hi (Some r) \<longleftrightarrow> {hr_first r..<hr_last r} \<inter> {lo..<hi} = {}"
  by (auto simp: clean_def)

lemma holds_add_clean:
  assumes "holds_add t hid f l = (t', ok)" "{f..<l} \<inter> {lo..<hi} = {}"
    "j < length (ht_ranges t)" "clean lo hi (ht_ranges t ! j)"
  shows "clean lo hi (ht_ranges t' ! j)"
  using assms
  by (auto simp: holds_add_def nth_list_update split: option.splits if_splits dest: first_none_Some)

text \<open>
  One iteration: the frames of \<open>lo..<hi\<close> leave slot \<open>i\<close>, no other frame is lost
  unless the iteration reports an incomplete split, and clean slots stay clean.
\<close>

lemma punch_at_step:
  assumes le: "lo \<le> hi" and i: "i < length (ht_ranges t)"
    and p: "punch_at lo hi i (t, c) = (t', c')"
  shows "length (ht_ranges t') = length (ht_ranges t)"
    and "clean lo hi (ht_ranges t' ! i)"
    and "j < length (ht_ranges t) \<Longrightarrow> clean lo hi (ht_ranges t ! j) \<Longrightarrow> clean lo hi (ht_ranges t' ! j)"
    and "held t' hid \<subseteq> held t hid"
    and "c' \<Longrightarrow> c \<and> held t hid \<subseteq> held t' hid \<union> {lo..<hi}"
proof -
  have "length (ht_ranges t') = length (ht_ranges t) \<and> clean lo hi (ht_ranges t' ! i)
    \<and> (j < length (ht_ranges t) \<longrightarrow> clean lo hi (ht_ranges t ! j) \<longrightarrow> clean lo hi (ht_ranges t' ! j))
    \<and> held t' hid \<subseteq> held t hid \<and> (c' \<longrightarrow> c \<and> held t hid \<subseteq> held t' hid \<union> {lo..<hi})"
  proof (cases "ht_ranges t ! i")
    case None
    then show ?thesis using p by (auto simp: punch_at_def)
  next
    case (Some r)
    show ?thesis
    proof (cases "hr_last r \<le> lo \<or> hi \<le> hr_first r")
      case True
      then have "t' = t \<and> c' = c" using p Some by (simp add: punch_at_def)
      then show ?thesis using True Some by auto
    next
      case False
      define u where "u s = t\<lparr>ht_ranges := (ht_ranges t)[i := s]\<rparr>" for s
      have hu: "held (u s) hid = slot_frames hid s
          \<union> (\<Union>j \<in> {..<length (ht_ranges t)} - {i}. slot_frames hid (ht_ranges t ! j))" for s
        unfolding u_def by (rule held_update [OF i])
      have ht: "held t hid = slot_frames hid (Some r)
          \<union> (\<Union>j \<in> {..<length (ht_ranges t)} - {i}. slot_frames hid (ht_ranges t ! j))"
        using held_split [OF i, of hid] Some by simp
      have lu: "length (ht_ranges (u s)) = length (ht_ranges t)"
        and nu: "j < length (ht_ranges t) \<Longrightarrow> ht_ranges (u s) ! j = (if j = i then s else ht_ranges t ! j)"
        for s j by (auto simp: u_def)
      let ?mk = "\<lambda>f l. \<lparr>hr_id = hr_id r, hr_first = f, hr_last = l\<rparr>"
      consider (both) "hr_first r < lo" "hi < hr_last r" | (left) "hr_first r < lo" "\<not> hi < hr_last r"
        | (right) "\<not> hr_first r < lo" "hi < hr_last r" | (gone) "\<not> hr_first r < lo" "\<not> hi < hr_last r"
        by blast
      then show ?thesis
      proof cases
        case both
        obtain ok where add: "holds_add (u (Some (?mk (hr_first r) lo))) (hr_id r) hi (hr_last r) = (t', ok)"
          and c': "c' = (c \<and> ok)"
          using p Some False both by (auto simp: punch_at_def u_def Let_def split: prod.splits)
        have len: "length (ht_ranges t') = length (ht_ranges t)"
          using add lu by (auto simp: holds_add_def split: option.splits if_splits)
        have cl: "clean lo hi (ht_ranges t' ! j)"
          if "j < length (ht_ranges t)" "j = i \<or> clean lo hi (ht_ranges t ! j)" for j
          using that by (intro holds_add_clean [OF add]) (auto simp: lu nu)
        show ?thesis
          using len cl i held_add(1) [OF add, of hid] both False c'
          by (auto simp: hu ht)
      next
        case left
        then have "t' = u (Some (?mk (hr_first r) lo))" "c' = c"
          using p Some False by (auto simp: punch_at_def u_def)
        then show ?thesis using i left le False by (auto simp: hu ht lu nu)
      next
        case right
        then have "t' = u (Some (?mk hi (hr_last r)))" "c' = c"
          using p Some False by (auto simp: punch_at_def u_def)
        then show ?thesis using i right le False by (auto simp: hu ht lu nu)
      next
        case gone
        then have "t' = u None" "c' = c"
          using p Some False by (auto simp: punch_at_def u_def)
        then show ?thesis using i gone by (auto simp: hu ht lu nu)
      qed
    qed
  qed
  then show "length (ht_ranges t') = length (ht_ranges t)"
    and "clean lo hi (ht_ranges t' ! i)"
    and "j < length (ht_ranges t) \<Longrightarrow> clean lo hi (ht_ranges t ! j) \<Longrightarrow> clean lo hi (ht_ranges t' ! j)"
    and "held t' hid \<subseteq> held t hid"
    and "c' \<Longrightarrow> c \<and> held t hid \<subseteq> held t' hid \<union> {lo..<hi}"
    by blast+
qed

lemma punch_loop:
  assumes "lo \<le> hi" "n \<le> length (ht_ranges t)"
    "fold (punch_at lo hi) [0..<n] (t, True) = (t', c')"
  shows "length (ht_ranges t') = length (ht_ranges t) \<and> (\<forall>j < n. clean lo hi (ht_ranges t' ! j))
       \<and> held t' hid \<subseteq> held t hid \<and> (c' \<longrightarrow> held t hid \<subseteq> held t' hid \<union> {lo..<hi})"
  using assms(2,3)
proof (induction n arbitrary: t' c')
  case 0
  then show ?case by auto
next
  case (Suc n)
  obtain t1 c1 where f: "fold (punch_at lo hi) [0..<n] (t, True) = (t1, c1)" by fastforce
  from Suc.IH [OF _ f] Suc.prems have IH: "length (ht_ranges t1) = length (ht_ranges t)"
    "\<forall>j < n. clean lo hi (ht_ranges t1 ! j)" "held t1 hid \<subseteq> held t hid"
    "c1 \<longrightarrow> held t hid \<subseteq> held t1 hid \<union> {lo..<hi}" by auto
  have n: "n < length (ht_ranges t1)" using IH(1) Suc.prems(1) by simp
  have p: "punch_at lo hi n (t1, c1) = (t', c')" using Suc.prems(2) f by simp
  note st = punch_at_step [OF assms(1) n p]
  have "clean lo hi (ht_ranges t' ! j)" if "j < Suc n" for j
    using that st(2) st(3) [of j] IH(2) n by (cases "j = n") auto
  moreover have "c' \<longrightarrow> held t hid \<subseteq> held t' hid \<union> {lo..<hi}"
    using st(5) [of hid] IH(4) by blast
  ultimately show ?case using st(1) st(4) [of hid] IH by simp
qed

text \<open>
  A permanent reservation of \<open>lo..<hi\<close> takes those frames out of every hold,
  adds nothing to any hold, and, when it reports success, takes nothing else:
  each hold keeps exactly its frames outside the reservation.
\<close>

theorem holds_punch_frames:
  assumes wf: "holds_wf t" and le: "lo \<le> hi" and p: "holds_punch t lo hi = (t', complete)"
  shows "holds_wf t' \<and> held t' hid \<subseteq> held t hid - {lo..<hi}
       \<and> (complete \<longrightarrow> held t' hid = held t hid - {lo..<hi})"
proof -
  have loop: "length (ht_ranges t') = length (ht_ranges t)"
    "\<forall>j < MAX_HOLD_RANGES. clean lo hi (ht_ranges t' ! j)" "held t' hid \<subseteq> held t hid"
    "complete \<longrightarrow> held t hid \<subseteq> held t' hid \<union> {lo..<hi}"
    using punch_loop [OF le, of MAX_HOLD_RANGES t t' complete hid] wf p
    by (auto simp: holds_punch_def holds_wf_def)
  have "held t' hid \<inter> {lo..<hi} = {}"
    using loop(1,2) wf by (fastforce simp: held_nth holds_wf_def clean_def)
  then show ?thesis using loop wf by (auto simp: holds_wf_def)
qed

theorem holds_punch_frames_witness:
  "holds_wf (fst (holds_add holds_new 1 0 10))
   \<and> held (fst (holds_punch (fst (holds_add holds_new 1 0 10)) 3 5)) 1 \<subseteq> held (fst (holds_add holds_new 1 0 10)) 1 - {3..<5}"
proof -
  have w: "holds_wf (fst (holds_add holds_new 1 0 10))"
    by (metis held_add(2) holds_new_def holds_wf_def hold_table.simps(1) length_replicate prod.collapse)
  show ?thesis
    using w holds_punch_frames [OF w _ surjective_pairing [of "holds_punch (fst (holds_add holds_new 1 0 10)) 3 5"]]
    by simp
qed

lemma release_ranges:
  "(\<Union>(f, l) \<in> set (snd (holds_release t hid)). {f..<l}) = held t hid"
  "held (fst (holds_release t hid)) hid = {}"
  "hid' \<noteq> hid \<Longrightarrow> held (fst (holds_release t hid)) hid' = held t hid'"
  by (force simp: holds_release_def held_def slot_frames_def split: option.splits if_splits)+

end
