(* ===== verification/MapSpec.thy ===== *)
theory MapSpec
  imports Prelude
begin

text \<open>
  The contract of the kernel's \<open>Map\<close> and \<open>Set\<close> traits
  (\<open>kernel/src/collections/traits.rs\<close>), stated once for every implementation.

  \<open>\<alpha>\<close> abstracts an implementation to a partial function. Every operation of
  the contract may fail to return (\<^term>\<open>None\<close>), since open addressing
  probes in an unbounded loop: the laws say that it does return. \<open>room\<close> tells
  when a key may be stored, which only a fixed-capacity map restricts.
\<close>

section \<open>Operations and their reference semantics\<close>

datatype ('k, 'v) map_op = Insert 'k 'v | Get 'k | Remove 'k | Clear

fun spec_op :: "('k \<rightharpoonup> 'v) \<Rightarrow> ('k, 'v) map_op \<Rightarrow> ('k \<rightharpoonup> 'v) \<times> 'v option" where
  "spec_op m (Insert k v) = (m(k \<mapsto> v), m k)"
| "spec_op m (Get k) = (m, m k)"
| "spec_op m (Remove k) = (m(k := None), m k)"
| "spec_op m Clear = (Map.empty, None)"

fun spec_run :: "('k \<rightharpoonup> 'v) \<Rightarrow> ('k, 'v) map_op list \<Rightarrow> ('k \<rightharpoonup> 'v) \<times> 'v option list" where
  "spec_run m [] = (m, [])"
| "spec_run m (x # xs) =
     (let (m1, r) = spec_op m x; (m2, rs) = spec_run m1 xs in (m2, r # rs))"

text \<open>The same sequence on an implementation, given by its four operations.\<close>

fun impl_op :: "('m \<Rightarrow> 'k \<Rightarrow> 'v \<Rightarrow> ('m \<times> 'v option) option) \<Rightarrow> ('m \<Rightarrow> 'k \<Rightarrow> 'v option option)
    \<Rightarrow> ('m \<Rightarrow> 'k \<Rightarrow> ('m \<times> 'v option) option) \<Rightarrow> ('m \<Rightarrow> 'm)
    \<Rightarrow> 'm \<Rightarrow> ('k, 'v) map_op \<Rightarrow> ('m \<times> 'v option) option" where
  "impl_op ins get rem clr m (Insert k v) = ins m k v"
| "impl_op ins get rem clr m (Get k) = map_option (Pair m) (get m k)"
| "impl_op ins get rem clr m (Remove k) = rem m k"
| "impl_op ins get rem clr m Clear = Some (clr m, None)"

fun impl_run :: "('m \<Rightarrow> 'k \<Rightarrow> 'v \<Rightarrow> ('m \<times> 'v option) option) \<Rightarrow> ('m \<Rightarrow> 'k \<Rightarrow> 'v option option)
    \<Rightarrow> ('m \<Rightarrow> 'k \<Rightarrow> ('m \<times> 'v option) option) \<Rightarrow> ('m \<Rightarrow> 'm)
    \<Rightarrow> 'm \<Rightarrow> ('k, 'v) map_op list \<Rightarrow> ('m \<times> 'v option list) option" where
  "impl_run ins get rem clr m [] = Some (m, [])"
| "impl_run ins get rem clr m (x # xs) =
     (case impl_op ins get rem clr m x of None \<Rightarrow> None
      | Some (m1, r) \<Rightarrow>
          (case impl_run ins get rem clr m1 xs of None \<Rightarrow> None
           | Some (m2, rs) \<Rightarrow> Some (m2, r # rs)))"

section \<open>The contract\<close>

locale kernel_map =
  fixes invar :: "'m \<Rightarrow> bool" and \<alpha> :: "'m \<Rightarrow> 'k \<rightharpoonup> 'v" and room :: "'m \<Rightarrow> 'k \<Rightarrow> bool"
    and ins :: "'m \<Rightarrow> 'k \<Rightarrow> 'v \<Rightarrow> ('m \<times> 'v option) option"
    and get :: "'m \<Rightarrow> 'k \<Rightarrow> 'v option option"
    and rem :: "'m \<Rightarrow> 'k \<Rightarrow> ('m \<times> 'v option) option"
    and len :: "'m \<Rightarrow> nat" and clr :: "'m \<Rightarrow> 'm"
  assumes ins: "invar m \<Longrightarrow> room m k \<Longrightarrow>
      \<exists>m'. ins m k v = Some (m', \<alpha> m k) \<and> invar m' \<and> \<alpha> m' = (\<alpha> m)(k \<mapsto> v)"
    and get: "invar m \<Longrightarrow> get m k = Some (\<alpha> m k)"
    and rem: "invar m \<Longrightarrow>
      \<exists>m'. rem m k = Some (m', \<alpha> m k) \<and> invar m' \<and> \<alpha> m' = (\<alpha> m)(k := None)"
    and fin: "invar m \<Longrightarrow> finite (dom (\<alpha> m))"
    and len: "invar m \<Longrightarrow> len m = card (dom (\<alpha> m))"
    and clr: "invar m \<Longrightarrow> invar (clr m) \<and> \<alpha> (clr m) = Map.empty"
begin

lemma len_insert:
  assumes "invar m" "room m k" "ins m k v = Some (m', old)"
  shows "len m' = len m + (if old = None then 1 else 0)"
proof -
  have m': "invar m'" "\<alpha> m' = (\<alpha> m)(k \<mapsto> v)" and old: "old = \<alpha> m k"
    using ins [OF assms(1,2), of v] assms(3) by auto
  have "card (insert k (dom (\<alpha> m))) = card (dom (\<alpha> m)) + (if k \<in> dom (\<alpha> m) then 0 else 1)"
    using fin [OF assms(1)] by (simp add: card_insert_if)
  then show ?thesis using m' old len [OF assms(1)] len [OF m'(1)] by (auto simp: domIff)
qed

lemma len_remove:
  assumes "invar m" "rem m k = Some (m', old)"
  shows "len m' + (if old = None then 0 else 1) = len m"
proof -
  have m': "invar m'" "\<alpha> m' = (\<alpha> m)(k := None)" and old: "old = \<alpha> m k"
    using rem [OF assms(1), of k] assms(2) by auto
  have d: "dom (\<alpha> m') = dom (\<alpha> m) - {k}" using m' by auto
  show ?thesis
  proof (cases "\<alpha> m k")
    case None
    then show ?thesis using d old len [OF assms(1)] len [OF m'(1)] by (simp add: domIff)
  next
    case (Some v)
    then have "Suc (card (dom (\<alpha> m) - {k})) = card (dom (\<alpha> m))"
      using fin [OF assms(1)] by (intro card_Suc_Diff1) auto
    then show ?thesis using Some d old len [OF assms(1)] len [OF m'(1)] by simp
  qed
qed

end

locale unbounded_map = kernel_map +
  assumes room: "invar m \<Longrightarrow> room m k"
begin

lemma op_refines:
  "invar m \<Longrightarrow> \<exists>m'. impl_op ins get rem clr m x = Some (m', snd (spec_op (\<alpha> m) x))
     \<and> invar m' \<and> \<alpha> m' = fst (spec_op (\<alpha> m) x)"
  by (cases x) (auto simp: get clr dest: ins [OF _ room] rem)

lemma run_refines:
  "invar m \<Longrightarrow> \<exists>m'. impl_run ins get rem clr m xs = Some (m', snd (spec_run (\<alpha> m) xs))
     \<and> invar m' \<and> \<alpha> m' = fst (spec_run (\<alpha> m) xs)"
proof (induction xs arbitrary: m)
  case Nil
  then show ?case by simp
next
  case (Cons x xs)
  obtain m1 where m1: "impl_op ins get rem clr m x = Some (m1, snd (spec_op (\<alpha> m) x))"
    "invar m1" "\<alpha> m1 = fst (spec_op (\<alpha> m) x)"
    using op_refines [OF Cons.prems] by blast
  obtain m2 where "impl_run ins get rem clr m1 xs = Some (m2, snd (spec_run (\<alpha> m1) xs))"
    "invar m2" "\<alpha> m2 = fst (spec_run (\<alpha> m1) xs)"
    using Cons.IH [OF m1(2)] by blast
  with m1 show ?case by (simp add: case_prod_beta Let_def)
qed

end

text \<open>The \<open>Set\<close> trait.\<close>

locale kernel_set =
  fixes invar :: "'s \<Rightarrow> bool" and elems :: "'s \<Rightarrow> 'a set"
    and add :: "'s \<Rightarrow> 'a \<Rightarrow> ('s \<times> bool) option"
    and contains :: "'s \<Rightarrow> 'a \<Rightarrow> bool option"
    and del :: "'s \<Rightarrow> 'a \<Rightarrow> ('s \<times> bool) option"
    and size :: "'s \<Rightarrow> nat" and clr :: "'s \<Rightarrow> 's"
  assumes add: "invar s \<Longrightarrow> \<exists>s'. add s x = Some (s', x \<notin> elems s) \<and> invar s' \<and> elems s' = insert x (elems s)"
    and contains: "invar s \<Longrightarrow> contains s x = Some (x \<in> elems s)"
    and del: "invar s \<Longrightarrow> \<exists>s'. del s x = Some (s', x \<in> elems s) \<and> invar s' \<and> elems s' = elems s - {x}"
    and size: "invar s \<Longrightarrow> size s = card (elems s)"
    and clr: "invar s \<Longrightarrow> invar (clr s) \<and> elems (clr s) = {}"
begin

lemma add_contains:
  assumes "invar s" "add s x = Some (s', fresh)"
  shows "contains s' y = Some (y = x \<or> y \<in> elems s)"
  using add [OF assms(1), of x] assms(2) contains [of s' y] by auto

lemma add_twice:
  assumes "invar s" "add s x = Some (s', fresh)"
  shows "\<exists>s''. add s' x = Some (s'', False) \<and> elems s'' = elems s'"
  using add [OF assms(1), of x] assms(2) add [of s' x] by auto

end

end
