(* ===== verification/StaticMap.thy ===== *)
theory StaticMap
  imports MapSpec
begin

text \<open>
  \<open>StaticMap\<close> (\<open>kernel/src/collections/map/static_map.rs\<close>): a map in an inline
  array of \<open>CAPACITY\<close> entries. It implements the \<open>Map\<close> contract as long as a
  free entry is left; an insertion of a new key into a full map is dropped.
\<close>

record ('k, 'v) static_map =
  sm_entries :: "('k \<times> 'v) option list"
  sm_len :: usize

definition sm_new :: "nat \<Rightarrow> ('k, 'v) static_map" where
  "sm_new cap = \<lparr>sm_entries = replicate cap None, sm_len = 0\<rparr>"

definition sm_capacity :: "('k, 'v) static_map \<Rightarrow> nat" where
  "sm_capacity m = length (sm_entries m)"

definition sm_iter :: "('k, 'v) static_map \<Rightarrow> ('k \<times> 'v) list" where
  "sm_iter m = List.map_filter id (sm_entries m)"

text \<open>The loops of \<open>get\<close>, \<open>insert\<close> and \<open>remove\<close> over the entries.\<close>

fun sm_find :: "('k \<times> 'v) option list \<Rightarrow> 'k \<Rightarrow> (nat \<times> 'v) option" where
  "sm_find [] key = None"
| "sm_find (e # es) key =
     (case e of Some (k, v) \<Rightarrow> if k = key then Some (0, v)
                               else map_option (\<lambda>(i, v). (Suc i, v)) (sm_find es key)
      | None \<Rightarrow> map_option (\<lambda>(i, v). (Suc i, v)) (sm_find es key))"

fun sm_free :: "('k \<times> 'v) option list \<Rightarrow> nat option" where
  "sm_free [] = None"
| "sm_free (e # es) = (if e = None then Some 0 else map_option Suc (sm_free es))"

definition sm_insert :: "('k, 'v) static_map \<Rightarrow> 'k \<Rightarrow> 'v \<Rightarrow> ('k, 'v) static_map \<times> 'v option" where
  "sm_insert m key value =
     (case sm_find (sm_entries m) key of
        Some (i, old) \<Rightarrow> (m\<lparr>sm_entries := (sm_entries m)[i := Some (key, value)]\<rparr>, Some old)
      | None \<Rightarrow>
          (case sm_free (sm_entries m) of
             Some i \<Rightarrow> (m\<lparr>sm_entries := (sm_entries m)[i := Some (key, value)], sm_len := sm_len m + 1\<rparr>, None)
           | None \<Rightarrow> (m, None)))"

definition sm_get :: "('k, 'v) static_map \<Rightarrow> 'k \<Rightarrow> 'v option" where
  "sm_get m key = map_option snd (sm_find (sm_entries m) key)"

definition sm_remove :: "('k, 'v) static_map \<Rightarrow> 'k \<Rightarrow> ('k, 'v) static_map \<times> 'v option" where
  "sm_remove m key =
     (case sm_find (sm_entries m) key of
        Some (i, old) \<Rightarrow> (m\<lparr>sm_entries := (sm_entries m)[i := None], sm_len := sm_len m - 1\<rparr>, Some old)
      | None \<Rightarrow> (m, None))"

definition sm_clear :: "('k, 'v) static_map \<Rightarrow> ('k, 'v) static_map" where
  "sm_clear m = m\<lparr>sm_entries := map (\<lambda>_. None) (sm_entries m), sm_len := 0\<rparr>"

section \<open>Invariant and abstraction\<close>

definition keys_distinct :: "('k \<times> 'v) option list \<Rightarrow> bool" where
  "keys_distinct es \<longleftrightarrow> (\<forall>i j k v w. i < length es \<longrightarrow> j < length es \<longrightarrow>
     es ! i = Some (k, v) \<longrightarrow> es ! j = Some (k, w) \<longrightarrow> i = j)"

definition sm_inv :: "('k, 'v) static_map \<Rightarrow> bool" where
  "sm_inv m \<longleftrightarrow> keys_distinct (sm_entries m) \<and>
     sm_len m = length (filter (\<lambda>e. e \<noteq> None) (sm_entries m))"

definition sm_room :: "('k, 'v) static_map \<Rightarrow> 'k \<Rightarrow> bool" where
  "sm_room m key \<longleftrightarrow> sm_get m key \<noteq> None \<or> sm_len m < sm_capacity m"

lemma sm_find_Some:
  "sm_find es key = Some (i, v) \<Longrightarrow> i < length es \<and> es ! i = Some (key, v)"
  by (induction es arbitrary: i) (auto split: option.splits if_splits)

lemma sm_find_None: "sm_find es key = None \<longleftrightarrow> (\<forall>v. Some (key, v) \<notin> set es)"
  by (induction es) (auto split: option.splits)

lemma sm_find_iff:
  assumes "keys_distinct es"
  shows "map_option snd (sm_find es key) = Some v \<longleftrightarrow> Some (key, v) \<in> set es"
proof (cases "sm_find es key")
  case None
  then have "Some (key, v) \<notin> set es" using sm_find_None by metis
  then show ?thesis using None by simp
next
  case (Some p)
  then obtain i w where p: "sm_find es key = Some (i, w)" by (cases p) auto
  note iw = sm_find_Some [OF p]
  show ?thesis
  proof
    assume "Some (key, v) \<in> set es"
    then obtain j where "j < length es" "es ! j = Some (key, v)" by (auto simp: in_set_conv_nth)
    then show "map_option snd (sm_find es key) = Some v"
      using assms iw p unfolding keys_distinct_def by (metis option.inject option.map(2) prod.inject snd_conv)
  next
    assume "map_option snd (sm_find es key) = Some v"
    then show "Some (key, v) \<in> set es" using p iw by (auto simp: in_set_conv_nth)
  qed
qed

lemma sm_free_Some: "sm_free es = Some i \<Longrightarrow> i < length es \<and> es ! i = None"
  by (induction es arbitrary: i) (auto split: if_splits)

lemma sm_free_None: "sm_free es = None \<longleftrightarrow> None \<notin> set es"
  by (induction es) auto

lemma keys_distinct_insert:
  assumes "keys_distinct es" "i < length es"
    "\<And>j w. j < length es \<Longrightarrow> j \<noteq> i \<Longrightarrow> es ! j \<noteq> Some (key, w)"
  shows "keys_distinct (es[i := Some (key, v)])"
  using assms unfolding keys_distinct_def by (auto simp: nth_list_update)

lemma keys_distinct_erase:
  assumes "keys_distinct es" "i < length es"
  shows "keys_distinct (es[i := None])"
  using assms unfolding keys_distinct_def by (auto simp: nth_list_update split: if_splits)

text \<open>What an update of one entry does to the abstraction.\<close>

lemma sm_get_update:
  assumes d: "keys_distinct es" and d': "keys_distinct (es[i := e])" and i: "i < length es"
    and old: "\<And>k v. es ! i = Some (k, v) \<Longrightarrow> k = key" and new: "\<And>k v. e = Some (k, v) \<Longrightarrow> k = key"
    and none: "\<And>j w. j < length es \<Longrightarrow> j \<noteq> i \<Longrightarrow> es ! j \<noteq> Some (key, w)"
  shows "map_option snd (sm_find (es[i := e]) k)
       = (if k = key then map_option snd e else map_option snd (sm_find es k))"
proof -
  have mem: "Some (k, v) \<in> set (es[i := e]) \<longleftrightarrow> (if k = key then e = Some (k, v) else Some (k, v) \<in> set es)" for v
    using i old new none by (auto simp: in_set_conv_nth nth_list_update split: if_splits) metis+
  have ek: "e = Some (key, v) \<longleftrightarrow> map_option snd e = Some v" for v
    using new by (cases e) auto
  have "map_option snd (sm_find (es[i := e]) k) = Some v
      \<longleftrightarrow> (if k = key then map_option snd e else map_option snd (sm_find es k)) = Some v" for v
    using sm_find_iff [OF d'] sm_find_iff [OF d] mem ek by simp
  then show ?thesis by (metis not_Some_eq)
qed

lemma sm_fresh:
  assumes "sm_find es key = None" "j < length es"
  shows "es ! j \<noteq> Some (key, w)"
  using assms by (auto simp: sm_find_None in_set_conv_nth)

lemma sm_other:
  assumes "keys_distinct es" "sm_find es key = Some (i, v)" "j < length es" "j \<noteq> i"
  shows "es ! j \<noteq> Some (key, w)"
  using assms sm_find_Some [OF assms(2)] unfolding keys_distinct_def by blast

lemma sm_full:
  assumes "sm_inv m"
  shows "sm_len m < sm_capacity m \<longleftrightarrow> sm_free (sm_entries m) \<noteq> None"
proof (cases "None \<in> set (sm_entries m)")
  case True
  then have "length (filter (\<lambda>e. e \<noteq> None) (sm_entries m)) < length (sm_entries m)"
    by (rule length_filter_less) simp
  then show ?thesis using True assms by (simp add: sm_inv_def sm_capacity_def sm_free_None)
next
  case False
  then have "filter (\<lambda>e. e \<noteq> None) (sm_entries m) = sm_entries m"
    by (intro filter_True ballI notI) simp
  then show ?thesis using False assms by (simp add: sm_inv_def sm_capacity_def sm_free_None)
qed

lemma sm_insert_spec:
  assumes inv: "sm_inv m" and room: "sm_room m key"
  shows "sm_inv (fst (sm_insert m key v)) \<and> snd (sm_insert m key v) = sm_get m key
    \<and> sm_get (fst (sm_insert m key v)) = (sm_get m)(key \<mapsto> v)"
proof (cases "sm_find (sm_entries m) key")
  case None
  then obtain i where i: "sm_free (sm_entries m) = Some i"
    using room inv sm_full by (auto simp: sm_room_def sm_get_def)
  note ii = sm_free_Some [OF i]
  have d: "keys_distinct (sm_entries m)" using inv by (simp add: sm_inv_def)
  have d': "keys_distinct ((sm_entries m)[i := Some (key, v)])"
    using d ii sm_fresh [OF None] by (intro keys_distinct_insert) auto
  have g: "map_option snd (sm_find ((sm_entries m)[i := Some (key, v)]) k)
      = (if k = key then Some v else map_option snd (sm_find (sm_entries m) k))" for k
    using sm_get_update [OF d d'] ii sm_fresh [OF None] by auto
  show ?thesis
    using None i g d' inv length_filter_update [of i "sm_entries m" "\<lambda>e. e \<noteq> None" "Some (key, v)"] ii
    by (auto simp: sm_insert_def sm_get_def sm_inv_def fun_eq_iff)
next
  case (Some p)
  then obtain i w where f: "sm_find (sm_entries m) key = Some (i, w)" by (cases p) auto
  note ii = sm_find_Some [OF f]
  have d: "keys_distinct (sm_entries m)" using inv by (simp add: sm_inv_def)
  have d': "keys_distinct ((sm_entries m)[i := Some (key, v)])"
    using d ii sm_other [OF d f] by (intro keys_distinct_insert) auto
  have g: "map_option snd (sm_find ((sm_entries m)[i := Some (key, v)]) k)
      = (if k = key then Some v else map_option snd (sm_find (sm_entries m) k))" for k
    using sm_get_update [OF d d'] ii sm_other [OF d f] by auto
  show ?thesis
    using f g d' inv length_filter_update [of i "sm_entries m" "\<lambda>e. e \<noteq> None" "Some (key, v)"] ii
    by (auto simp: sm_insert_def sm_get_def sm_inv_def fun_eq_iff)
qed

lemma sm_remove_spec:
  assumes inv: "sm_inv m"
  shows "sm_inv (fst (sm_remove m key)) \<and> snd (sm_remove m key) = sm_get m key
    \<and> sm_get (fst (sm_remove m key)) = (sm_get m)(key := None)"
proof (cases "sm_find (sm_entries m) key")
  case None
  then show ?thesis using inv by (auto simp: sm_remove_def sm_get_def fun_eq_iff)
next
  case (Some p)
  then obtain i w where f: "sm_find (sm_entries m) key = Some (i, w)" by (cases p) auto
  note ii = sm_find_Some [OF f]
  have d: "keys_distinct (sm_entries m)" using inv by (simp add: sm_inv_def)
  have d': "keys_distinct ((sm_entries m)[i := None])" using d ii by (simp add: keys_distinct_erase)
  have g: "map_option snd (sm_find ((sm_entries m)[i := None]) k)
      = (if k = key then None else map_option snd (sm_find (sm_entries m) k))" for k
    using sm_get_update [OF d d'] ii sm_other [OF d f] by auto
  show ?thesis
    using f g d' inv length_filter_update [of i "sm_entries m" "\<lambda>e. e \<noteq> None" None] ii
    by (auto simp: sm_remove_def sm_get_def sm_inv_def fun_eq_iff)
qed

text \<open>The stored entries and the domain of the abstraction have the same size.\<close>

lemma card_dom_entries:
  assumes d: "keys_distinct es"
  shows "finite (dom (\<lambda>k. map_option snd (sm_find es k)))
    \<and> card (dom (\<lambda>k. map_option snd (sm_find es k))) = length (filter (\<lambda>e. e \<noteq> None) es)"
proof -
  define I where "I = {i. i < length es \<and> es ! i \<noteq> None}"
  define key where "key i = fst (the (es ! i))" for i
  have dom: "dom (\<lambda>k. map_option snd (sm_find es k)) = key ` I"
  proof -
    have "k \<in> dom (\<lambda>k. map_option snd (sm_find es k)) \<longleftrightarrow> (\<exists>v. Some (k, v) \<in> set es)" for k
      unfolding domIff not_None_eq sm_find_iff [OF d] ..
    moreover have "(\<exists>v. Some (k, v) \<in> set es) \<longleftrightarrow> k \<in> key ` I" for k
    proof
      assume "\<exists>v. Some (k, v) \<in> set es"
      then obtain i v where "i < length es" "es ! i = Some (k, v)" by (auto simp: in_set_conv_nth)
      then show "k \<in> key ` I" by (intro image_eqI [of _ _ i]) (auto simp: key_def I_def)
    next
      assume "k \<in> key ` I"
      then obtain i where i: "i < length es" "es ! i \<noteq> None" "k = key i" by (auto simp: I_def)
      then have "es ! i = Some (k, snd (the (es ! i)))" by (cases "es ! i") (simp_all add: key_def)
      then show "\<exists>v. Some (k, v) \<in> set es" using i(1) by (metis nth_mem)
    qed
    ultimately show ?thesis by blast
  qed
  have inj: "inj_on key I"
  proof (rule inj_onI)
    fix i j assume ij: "i \<in> I" "j \<in> I" "key i = key j"
    have at: "es ! n = Some (key n, snd (the (es ! n)))" if "n \<in> I" for n
      using that by (cases "es ! n") (simp_all add: I_def key_def)
    have "es ! i = Some (key i, snd (the (es ! i)))" "es ! j = Some (key i, snd (the (es ! j)))"
      using at [OF ij(1)] at [OF ij(2)] ij(3) by (simp_all only:)
    then show "i = j" using d ij unfolding I_def keys_distinct_def by blast
  qed
  have "finite I" by (simp add: I_def)
  moreover have "card I = length (filter (\<lambda>e. e \<noteq> None) es)"
    by (simp add: I_def length_filter_conv_card)
  ultimately show ?thesis using dom inj by (simp add: card_image)
qed

interpretation sm: kernel_map sm_inv sm_get sm_room
  "\<lambda>m k v. Some (sm_insert m k v)" "\<lambda>m k. Some (sm_get m k)" "\<lambda>m k. Some (sm_remove m k)"
  sm_len sm_clear
proof (unfold_locales, goal_cases)
  case (1 m k v)
  then show ?case using sm_insert_spec [of m k v] by (metis prod.collapse)
next
  case (3 m k)
  then show ?case using sm_remove_spec [of m k] by (metis prod.collapse)
next
  case (4 m)
  then show ?case using card_dom_entries [of "sm_entries m"] by (simp add: sm_inv_def sm_get_def [abs_def])
next
  case (5 m)
  then show ?case using card_dom_entries [of "sm_entries m"] by (simp add: sm_inv_def sm_get_def [abs_def])
next
  case (6 m)
  have "sm_find (map (\<lambda>_. None) xs) k = None" for xs :: "('a \<times> 'b) option list" and k :: 'a
    by (induction xs) auto
  then show ?case
    by (auto simp: sm_inv_def sm_clear_def sm_get_def keys_distinct_def fun_eq_iff)
qed simp

text \<open>
  Inserting into a \<open>StaticMap\<close>, both branches: with a free entry or the key
  present, the map becomes the old one updated at the key and the previous value
  is returned; when full, a new key is dropped, and the map and the result
  (\<^term>\<open>None\<close>) look the same as a successful first insertion's result.
\<close>

theorem sm_insert_branches:
  assumes "sm_inv m"
  shows "(sm_room m key \<longrightarrow> snd (sm_insert m key v) = sm_get m key
            \<and> sm_get (fst (sm_insert m key v)) = (sm_get m)(key \<mapsto> v)
            \<and> sm_inv (fst (sm_insert m key v)))
       \<and> (\<not> sm_room m key \<longrightarrow> sm_insert m key v = (m, None))"
proof -
  have "sm_insert m key v = (m, None)" if "\<not> sm_room m key"
  proof -
    have "sm_find (sm_entries m) key = None" "sm_free (sm_entries m) = None"
      using that sm_full [OF assms] by (simp_all add: sm_room_def sm_get_def del: not_None_eq)
    then show ?thesis by (simp add: sm_insert_def)
  qed
  then show ?thesis using sm_insert_spec [OF assms] by simp
qed

theorem sm_insert_branches_witness:
  "sm_insert (sm_new 0 :: (nat, nat) static_map) 1 2 = (sm_new 0, None)"
proof -
  have "sm_inv (sm_new 0 :: (nat, nat) static_map)" by (simp add: sm_inv_def sm_new_def keys_distinct_def)
  moreover have "\<not> sm_room (sm_new 0 :: (nat, nat) static_map) 1"
    by (simp add: sm_room_def sm_new_def sm_get_def sm_capacity_def)
  ultimately show ?thesis
    using sm_insert_branches [of "sm_new 0 :: (nat, nat) static_map" 1 2] by simp
qed

end
