(* ===== verification/ChainedMap.thy ===== *)
theory ChainedMap
  imports MapSpec
begin

text \<open>
  \<open>ChainedMap\<close> (\<open>kernel/src/collections/map/chained.rs\<close>): a hash table of singly
  linked collision chains. A chain \<open>Option<Box<Node>>\<close> is the list of its nodes.
  The hash function (the type parameters \<open>K: Hash\<close> and \<open>S: BuildHasher\<close>) is the
  argument \<open>h\<close> of every operation; nothing is assumed of it.
\<close>

record ('k, 'v) node =
  nd_key :: 'k
  nd_value :: 'v

record ('k, 'v) chained_map =
  cm_buckets :: "('k, 'v) node list list"
  cm_len :: usize

definition DEFAULT_NUM_BUCKETS :: nat where "DEFAULT_NUM_BUCKETS = 32"

definition cm_with_buckets :: "nat \<Rightarrow> ('k, 'v) chained_map" where
  "cm_with_buckets n = \<lparr>cm_buckets = replicate (next_power_of_two (max n 4)) [], cm_len = 0\<rparr>"

definition cm_new :: "('k, 'v) chained_map" where
  "cm_new = cm_with_buckets DEFAULT_NUM_BUCKETS"

definition cm_hash_key :: "('k \<Rightarrow> nat) \<Rightarrow> ('k, 'v) chained_map \<Rightarrow> 'k \<Rightarrow> nat" where
  "cm_hash_key h m key = h key AND (length (cm_buckets m) - 1)"

definition cm_iter :: "('k, 'v) chained_map \<Rightarrow> ('k \<times> 'v) list" where
  "cm_iter m = concat (map (map (\<lambda>n. (nd_key n, nd_value n))) (cm_buckets m))"

text \<open>The chain walk of \<open>insert\<close>: replace the value of a matching node.\<close>

fun chain_replace :: "('k, 'v) node list \<Rightarrow> 'k \<Rightarrow> 'v \<Rightarrow> (('k, 'v) node list \<times> 'v) option" where
  "chain_replace [] key value = None"
| "chain_replace (n # ns) key value =
     (if nd_key n = key then Some (n\<lparr>nd_value := value\<rparr> # ns, nd_value n)
      else map_option (\<lambda>(ns', old). (n # ns', old)) (chain_replace ns key value))"

definition cm_insert :: "('k \<Rightarrow> nat) \<Rightarrow> ('k, 'v) chained_map \<Rightarrow> 'k \<Rightarrow> 'v
    \<Rightarrow> ('k, 'v) chained_map \<times> 'v option" where
  "cm_insert h m key value =
     (let idx = cm_hash_key h m key; chain = cm_buckets m ! idx in
      case chain_replace chain key value of
        Some (chain', old) \<Rightarrow> (m\<lparr>cm_buckets := (cm_buckets m)[idx := chain']\<rparr>, Some old)
      | None \<Rightarrow>
          (m\<lparr>cm_buckets := (cm_buckets m)[idx := \<lparr>nd_key = key, nd_value = value\<rparr> # chain],
             cm_len := cm_len m + 1\<rparr>, None))"

fun chain_get :: "('k, 'v) node list \<Rightarrow> 'k \<Rightarrow> 'v option" where
  "chain_get [] key = None"
| "chain_get (n # ns) key = (if nd_key n = key then Some (nd_value n) else chain_get ns key)"

definition cm_get :: "('k \<Rightarrow> nat) \<Rightarrow> ('k, 'v) chained_map \<Rightarrow> 'k \<Rightarrow> 'v option" where
  "cm_get h m key = chain_get (cm_buckets m ! cm_hash_key h m key) key"

fun chain_remove :: "('k, 'v) node list \<Rightarrow> 'k \<Rightarrow> (('k, 'v) node list \<times> 'v) option" where
  "chain_remove [] key = None"
| "chain_remove (n # ns) key =
     (if nd_key n = key then Some (ns, nd_value n)
      else map_option (\<lambda>(ns', old). (n # ns', old)) (chain_remove ns key))"

definition cm_remove :: "('k \<Rightarrow> nat) \<Rightarrow> ('k, 'v) chained_map \<Rightarrow> 'k
    \<Rightarrow> ('k, 'v) chained_map \<times> 'v option" where
  "cm_remove h m key =
     (let idx = cm_hash_key h m key in
      case chain_remove (cm_buckets m ! idx) key of
        Some (chain', old) \<Rightarrow> (m\<lparr>cm_buckets := (cm_buckets m)[idx := chain'], cm_len := cm_len m - 1\<rparr>, Some old)
      | None \<Rightarrow> (m, None))"

definition cm_clear :: "('k, 'v) chained_map \<Rightarrow> ('k, 'v) chained_map" where
  "cm_clear m = m\<lparr>cm_buckets := map (\<lambda>_. []) (cm_buckets m), cm_len := 0\<rparr>"

section \<open>Chains\<close>

abbreviation chain_keys :: "('k, 'v) node list \<Rightarrow> 'k list" where
  "chain_keys ns \<equiv> map nd_key ns"

lemma chain_replace_spec:
  "case chain_replace ns key v of
     None \<Rightarrow> chain_get ns key = None
   | Some (ns', old) \<Rightarrow> chain_keys ns' = chain_keys ns \<and> chain_get ns key = Some old
       \<and> (\<forall>k. chain_get ns' k = (if k = key then Some v else chain_get ns k))"
  by (induction ns) (auto split: option.splits)

lemma chain_get_dom: "chain_get ns k \<noteq> None \<longleftrightarrow> k \<in> set (chain_keys ns)"
  by (induction ns) auto

lemma chain_remove_spec:
  "distinct (chain_keys ns) \<Longrightarrow>
   case chain_remove ns key of
     None \<Rightarrow> chain_get ns key = None
   | Some (ns', old) \<Rightarrow> chain_get ns key = Some old \<and> length ns = Suc (length ns')
       \<and> distinct (chain_keys ns') \<and> set (chain_keys ns') = set (chain_keys ns) - {key}
       \<and> (\<forall>k. chain_get ns' k = (if k = key then None else chain_get ns k))"
proof (induction ns)
  case (Cons n ns)
  show ?case
  proof (cases "nd_key n = key")
    case True
    then show ?thesis using Cons.prems chain_get_dom [of ns key] by auto
  next
    case False
    show ?thesis
    proof (cases "chain_remove ns key")
      case None
      then show ?thesis using Cons False by simp
    next
      case (Some p)
      then obtain ns' old where p: "chain_remove ns key = Some (ns', old)" by (cases p) auto
      then have IH: "chain_get ns key = Some old" "length ns = Suc (length ns')" "distinct (chain_keys ns')"
        "set (chain_keys ns') = set (chain_keys ns) - {key}"
        "\<And>k. chain_get ns' k = (if k = key then None else chain_get ns k)"
        using Cons by simp_all
      have "nd_key n \<notin> set (chain_keys ns')" using IH(4) Cons.prems by simp
      moreover have "set (chain_keys (n # ns')) = set (chain_keys (n # ns)) - {key}"
        using IH(4) False by auto
      ultimately show ?thesis using p IH(1,2,3,5) False by simp
    qed
  qed
qed simp

section \<open>Invariant\<close>

definition cm_inv :: "('k \<Rightarrow> nat) \<Rightarrow> ('k, 'v) chained_map \<Rightarrow> bool" where
  "cm_inv h m \<longleftrightarrow> (\<exists>p. length (cm_buckets m) = 2 ^ p) \<and>
     (\<forall>i < length (cm_buckets m). distinct (chain_keys (cm_buckets m ! i)) \<and>
        (\<forall>k \<in> set (chain_keys (cm_buckets m ! i)). h k mod length (cm_buckets m) = i)) \<and>
     cm_len m = sum_list (map length (cm_buckets m))"

lemma cm_hash_key_mod:
  assumes "cm_inv h m"
  shows "cm_hash_key h m key = h key mod length (cm_buckets m)"
    and "cm_hash_key h m key < length (cm_buckets m)"
proof -
  obtain p where p: "length (cm_buckets m) = 2 ^ p" using assms by (auto simp: cm_inv_def)
  then show "cm_hash_key h m key = h key mod length (cm_buckets m)"
    unfolding cm_hash_key_def by (rule and_mask_mod)
  then show "cm_hash_key h m key < length (cm_buckets m)" using p by simp
qed

lemma cm_inv_new: "cm_inv h (cm_with_buckets n)"
  using next_power_of_two_power [of "max n 4"]
  by (auto simp: cm_inv_def cm_with_buckets_def sum_list_replicate)

text \<open>Replacing one chain by one for the same keys, up to the key the bucket is for.\<close>

lemma cm_update_chain:
  assumes inv: "cm_inv h m" and idx: "idx = cm_hash_key h m key"
    and d: "distinct (chain_keys ns)"
    and ks: "set (chain_keys ns) \<subseteq> insert key (set (chain_keys (cm_buckets m ! idx)))"
    and l: "l + length (cm_buckets m ! idx) = cm_len m + length ns"
  shows "cm_inv h (m\<lparr>cm_buckets := (cm_buckets m)[idx := ns], cm_len := l\<rparr>)"
    and "cm_get h (m\<lparr>cm_buckets := (cm_buckets m)[idx := ns], cm_len := l\<rparr>) k
       = (if cm_hash_key h m k = idx then chain_get ns k else cm_get h m k)"
proof -
  have i: "idx < length (cm_buckets m)" "idx = h key mod length (cm_buckets m)"
    using cm_hash_key_mod [OF inv] idx by auto
  have "sum_list (map length ((cm_buckets m)[idx := ns])) + length (cm_buckets m ! idx)
      = sum_list (map length (cm_buckets m)) + length ns"
  proof -
    have "sum_list ((map length (cm_buckets m))[idx := length ns])
        = sum_list (map length (cm_buckets m)) + length ns - map length (cm_buckets m) ! idx"
      using i(1) by (intro sum_list_update) simp
    moreover have "length (cm_buckets m ! idx) \<le> sum_list (map length (cm_buckets m))"
      using i(1) by (metis elem_le_sum_list length_map nth_map)
    ultimately show ?thesis using i(1) by (simp add: map_update)
  qed
  then show "cm_inv h (m\<lparr>cm_buckets := (cm_buckets m)[idx := ns], cm_len := l\<rparr>)"
    using inv i d ks l by (auto simp: cm_inv_def nth_list_update)
  show "cm_get h (m\<lparr>cm_buckets := (cm_buckets m)[idx := ns], cm_len := l\<rparr>) k
      = (if cm_hash_key h m k = idx then chain_get ns k else cm_get h m k)"
    using i by (auto simp: cm_get_def cm_hash_key_def)
qed

lemma cm_insert_spec:
  assumes inv: "cm_inv h m"
  shows "cm_inv h (fst (cm_insert h m key v)) \<and> snd (cm_insert h m key v) = cm_get h m key
    \<and> cm_get h (fst (cm_insert h m key v)) = (cm_get h m)(key \<mapsto> v)"
proof -
  define idx where "idx = cm_hash_key h m key"
  define chain where "chain = cm_buckets m ! idx"
  have dc: "distinct (chain_keys chain)"
    using inv cm_hash_key_mod(2) [OF inv, of key] by (simp add: cm_inv_def chain_def idx_def)
  note upd = cm_update_chain [OF inv idx_def]
  show ?thesis
  proof (cases "chain_replace chain key v")
    case None
    then have g: "chain_get chain key = None" using chain_replace_spec [of chain key v] by simp
    then have "key \<notin> set (chain_keys chain)" using chain_get_dom [of chain key] by simp
    then have d: "distinct (chain_keys (\<lparr>nd_key = key, nd_value = v\<rparr> # chain))" using dc by simp
    note u = upd [OF d, of "cm_len m + 1"]
    show ?thesis
      using None u g by (auto simp: cm_insert_def Let_def idx_def [symmetric] chain_def [symmetric]
          cm_get_def fun_eq_iff)
  next
    case (Some p)
    then obtain ns old where r: "chain_replace chain key v = Some (ns, old)" by (cases p) auto
    then have s: "chain_keys ns = chain_keys chain" "chain_get chain key = Some old"
      "\<And>k. chain_get ns k = (if k = key then Some v else chain_get chain k)"
      using chain_replace_spec [of chain key v] by simp_all
    have ln: "length ns = length chain" using s(1) by (metis length_map)
    have d: "distinct (chain_keys ns)" using dc s(1) by simp
    have u: "cm_inv h (m\<lparr>cm_buckets := (cm_buckets m)[idx := ns]\<rparr>)"
      "cm_get h (m\<lparr>cm_buckets := (cm_buckets m)[idx := ns]\<rparr>) k
        = (if cm_hash_key h m k = idx then chain_get ns k else cm_get h m k)" for k
      using upd [OF d, of "cm_len m"] s(1) ln by (simp_all add: chain_def subset_insertI)
    show ?thesis
      using r u s by (auto simp: cm_insert_def Let_def idx_def [symmetric] chain_def [symmetric]
          cm_get_def fun_eq_iff)
  qed
qed

lemma cm_remove_spec:
  assumes inv: "cm_inv h m"
  shows "cm_inv h (fst (cm_remove h m key)) \<and> snd (cm_remove h m key) = cm_get h m key
    \<and> cm_get h (fst (cm_remove h m key)) = (cm_get h m)(key := None)"
proof -
  define idx where "idx = cm_hash_key h m key"
  define chain where "chain = cm_buckets m ! idx"
  have i: "idx < length (cm_buckets m)" using cm_hash_key_mod(2) [OF inv] by (simp add: idx_def)
  have dc: "distinct (chain_keys chain)" using inv i by (simp add: cm_inv_def chain_def)
  note spec = chain_remove_spec [OF dc, of key]
  show ?thesis
  proof (cases "chain_remove chain key")
    case None
    then show ?thesis
      using inv spec by (auto simp: cm_remove_def Let_def idx_def [symmetric] chain_def [symmetric]
          cm_get_def fun_eq_iff)
  next
    case (Some p)
    then obtain ns old where r: "chain_remove chain key = Some (ns, old)" by (cases p) auto
    then have s: "chain_get chain key = Some old" "length chain = Suc (length ns)"
      "distinct (chain_keys ns)" "set (chain_keys ns) = set (chain_keys chain) - {key}"
      "\<And>k. chain_get ns k = (if k = key then None else chain_get chain k)"
      using spec by simp_all
    have "length chain \<le> cm_len m"
      using inv i unfolding cm_inv_def chain_def by (metis elem_le_sum_list length_map nth_map)
    then have u: "cm_inv h (m\<lparr>cm_buckets := (cm_buckets m)[idx := ns], cm_len := cm_len m - 1\<rparr>)"
      "cm_get h (m\<lparr>cm_buckets := (cm_buckets m)[idx := ns], cm_len := cm_len m - 1\<rparr>) k
        = (if cm_hash_key h m k = idx then chain_get ns k else cm_get h m k)" for k
      using cm_update_chain [OF inv idx_def s(3), of "cm_len m - 1"] s(2,4)
      by (simp_all add: chain_def Diff_subset_conv subset_insertI2)
    show ?thesis
      using r u s by (auto simp: cm_remove_def Let_def idx_def [symmetric] chain_def [symmetric]
          cm_get_def fun_eq_iff)
  qed
qed

lemma cm_dom:
  assumes inv: "cm_inv h m"
  shows "dom (cm_get h m) = (\<Union>i < length (cm_buckets m). set (chain_keys (cm_buckets m ! i)))"
proof -
  have "k \<in> dom (cm_get h m) \<longleftrightarrow> k \<in> set (chain_keys (cm_buckets m ! (h k mod length (cm_buckets m))))" for k
    unfolding cm_get_def domIff using chain_get_dom cm_hash_key_mod(1) [OF inv] by metis
  moreover have "k \<in> set (chain_keys (cm_buckets m ! i)) \<Longrightarrow> i < length (cm_buckets m)
      \<Longrightarrow> h k mod length (cm_buckets m) = i" for k i
    using inv unfolding cm_inv_def by blast
  moreover have "h k mod length (cm_buckets m) < length (cm_buckets m)" for k
    using cm_hash_key_mod [OF inv, of k] by simp
  ultimately show ?thesis by blast
qed

lemma cm_len_card:
  assumes inv: "cm_inv h m"
  shows "finite (dom (cm_get h m)) \<and> cm_len m = card (dom (cm_get h m))"
proof -
  let ?b = "cm_buckets m"
  have "card (\<Union>i \<in> {..<length ?b}. set (chain_keys (?b ! i)))
      = (\<Sum>i \<in> {..<length ?b}. card (set (chain_keys (?b ! i))))"
  proof (rule card_UN_disjoint)
    show "\<forall>i \<in> {..<length ?b}. \<forall>j \<in> {..<length ?b}. i \<noteq> j \<longrightarrow>
        set (chain_keys (?b ! i)) \<inter> set (chain_keys (?b ! j)) = {}"
    proof (intro ballI impI)
      fix i j assume ij: "i \<in> {..<length ?b}" "j \<in> {..<length ?b}" "i \<noteq> j"
      have "\<forall>k \<in> set (chain_keys (?b ! i)). h k mod length ?b = i"
        "\<forall>k \<in> set (chain_keys (?b ! j)). h k mod length ?b = j"
        using inv ij unfolding cm_inv_def by simp_all
      then show "set (chain_keys (?b ! i)) \<inter> set (chain_keys (?b ! j)) = {}" using ij(3) by fast
    qed
  qed simp_all
  also have "\<dots> = (\<Sum>i \<in> {..<length ?b}. length (?b ! i))"
  proof (rule sum.cong [OF refl])
    fix i assume "i \<in> {..<length ?b}"
    then have "distinct (chain_keys (?b ! i))" using inv by (simp add: cm_inv_def)
    then have "card (set (chain_keys (?b ! i))) = length (chain_keys (?b ! i))" by (rule distinct_card)
    then show "card (set (chain_keys (?b ! i))) = length (?b ! i)" by simp
  qed
  also have "\<dots> = sum_list (map length ?b)"
    by (simp add: sum_list_sum_nth atLeast0LessThan)
  finally show ?thesis using inv by (simp add: cm_dom [OF inv] cm_inv_def)
qed

interpretation cm: unbounded_map "cm_inv h" "cm_get h" "\<lambda>_ _. True"
  "\<lambda>m k v. Some (cm_insert h m k v)" "\<lambda>m k. Some (cm_get h m k)" "\<lambda>m k. Some (cm_remove h m k)"
  cm_len cm_clear for h
proof (unfold_locales, goal_cases)
  case (1 m k v)
  then show ?case using cm_insert_spec [of h m k v] by (metis prod.collapse)
next
  case (3 m k)
  then show ?case using cm_remove_spec [of h m k] by (metis prod.collapse)
next
  case (6 m)
  then have "cm_inv h (cm_clear m)" by (auto simp: cm_inv_def cm_clear_def comp_def)
  moreover have "cm_get h (cm_clear m) k = None" for k
    using cm_hash_key_mod(2) [OF 6, of k] by (simp add: cm_get_def cm_clear_def cm_hash_key_def)
  ultimately show ?case by (simp add: fun_eq_iff)
qed (simp_all add: cm_len_card)

text \<open>
  A \<open>ChainedMap\<close> behaves as a finite map under every sequence of insertions,
  lookups, removals and clears, for every hash function and bucket count: the
  results and the final contents are those of the reference map.
\<close>

theorem cm_refines_map:
  "\<exists>m'. impl_run (\<lambda>m k v. Some (cm_insert h m k v)) (\<lambda>m k. Some (cm_get h m k))
       (\<lambda>m k. Some (cm_remove h m k)) cm_clear (cm_with_buckets n) ops
     = Some (m', snd (spec_run Map.empty ops))
   \<and> cm_get h m' = fst (spec_run Map.empty ops)
   \<and> cm_len m' = card (dom (fst (spec_run Map.empty ops)))"
proof -
  have inv: "cm_inv h (cm_with_buckets n :: ('a, 'b) chained_map)" by (rule cm_inv_new)
  have "cm_get h (cm_with_buckets n :: ('a, 'b) chained_map) k = None" for k
    using cm_hash_key_mod(2) [OF inv, of k] by (simp add: cm_get_def cm_with_buckets_def cm_hash_key_def)
  then have "cm_get h (cm_with_buckets n :: ('a, 'b) chained_map) = Map.empty" by (simp add: fun_eq_iff)
  then show ?thesis using cm.run_refines [OF inv, of ops] cm_len_card by fastforce
qed

end
