(* ===== verification/OpenAddressMap.thy ===== *)
theory OpenAddressMap
  imports StaticMap
begin

text \<open>
  \<open>OpenAddressMap\<close> (\<open>kernel/src/collections/map/open_address.rs\<close>): a hash table
  with linear probing, tombstones and growth at 70 percent load. The probe
  loops of the source have no bound of their own, so they are
  \<^theory_text>\<open>partial_function (option)\<close>: \<^term>\<open>None\<close> means that the loop does
  not return. The hash function is the argument \<open>h\<close>; nothing is assumed of it.

  The array lemmas of \<open>StaticMap\<close> (entries with distinct keys) are used here
  for the occupied buckets.
\<close>

section \<open>Data\<close>

datatype ('k, 'v) bucket = Empty | Occupied 'k 'v | Tombstone

record ('k, 'v) open_map =
  oa_buckets :: "('k, 'v) bucket list"
  oa_len :: usize
  oa_occupied :: usize

definition INITIAL_CAPACITY :: nat where "INITIAL_CAPACITY = 16"
definition MAX_LOAD_FACTOR_PERCENT :: nat where "MAX_LOAD_FACTOR_PERCENT = 70"

definition oa_with_capacity :: "nat \<Rightarrow> ('k, 'v) open_map" where
  "oa_with_capacity capacity =
     \<lparr>oa_buckets = replicate (next_power_of_two (max capacity 4)) Empty, oa_len = 0, oa_occupied = 0\<rparr>"

definition oa_new :: "('k, 'v) open_map" where
  "oa_new = oa_with_capacity INITIAL_CAPACITY"

section \<open>Probe loops\<close>

text \<open>\<open>x & mask\<close> with \<open>mask = self.buckets.len() - 1\<close>.\<close>

definition masked :: "'b list \<Rightarrow> nat \<Rightarrow> nat" where
  "masked bs x = x AND (length bs - 1)"

text \<open>The loop of \<open>get\<close>, \<open>get_mut\<close> and \<open>remove\<close>: the index and value of the key.\<close>

partial_function (option) oa_find :: "('k, 'v) bucket list \<Rightarrow> 'k \<Rightarrow> nat \<Rightarrow> (nat \<times> 'v) option option" where
  "oa_find bs key idx =
     (case bs ! idx of
        Empty \<Rightarrow> Some None
      | Occupied k v \<Rightarrow>
          if k = key then Some (Some (idx, v))
          else oa_find bs key (masked bs (idx + 1))
      | Tombstone \<Rightarrow> oa_find bs key (masked bs (idx + 1)))"

text \<open>The loop of \<open>insert\<close>: where the key is, or where it goes.\<close>

datatype 'v slot = Present nat 'v | Vacant nat bool

partial_function (option) oa_slot :: "('k, 'v) bucket list \<Rightarrow> 'k \<Rightarrow> nat \<Rightarrow> nat option \<Rightarrow> 'v slot option" where
  "oa_slot bs key idx first_tombstone =
     (case bs ! idx of
        Empty \<Rightarrow>
          Some (Vacant (case first_tombstone of Some t \<Rightarrow> t | None \<Rightarrow> idx) (first_tombstone = None))
      | Tombstone \<Rightarrow>
          oa_slot bs key (masked bs (idx + 1))
            (if first_tombstone = None then Some idx else first_tombstone)
      | Occupied k v \<Rightarrow>
          if k = key then Some (Present idx v)
          else oa_slot bs key (masked bs (idx + 1)) first_tombstone)"

text \<open>The inner loop of \<open>resize\<close>.\<close>

partial_function (option) oa_free_from :: "('k, 'v) bucket list \<Rightarrow> nat \<Rightarrow> nat option" where
  "oa_free_from bs idx =
     (case bs ! idx of
        Occupied k v \<Rightarrow> oa_free_from bs (masked bs (idx + 1))
      | Empty \<Rightarrow> Some idx
      | Tombstone \<Rightarrow> Some idx)"

section \<open>Operations\<close>

fun oa_rehash :: "('k \<Rightarrow> nat) \<Rightarrow> ('k, 'v) bucket list \<Rightarrow> ('k, 'v) bucket list \<times> nat
    \<Rightarrow> (('k, 'v) bucket list \<times> nat) option" where
  "oa_rehash h [] st = Some st"
| "oa_rehash h (b # old) (bs, count) =
     (case b of
        Occupied key value \<Rightarrow>
          (case oa_free_from bs (masked bs (h key)) of
             None \<Rightarrow> None
           | Some idx \<Rightarrow> oa_rehash h old (bs[idx := Occupied key value], count + 1))
      | _ \<Rightarrow> oa_rehash h old (bs, count))"

definition oa_resize :: "('k \<Rightarrow> nat) \<Rightarrow> ('k, 'v) open_map \<Rightarrow> ('k, 'v) open_map option" where
  "oa_resize h m =
     (let new_capacity = max (length (oa_buckets m) * 2) INITIAL_CAPACITY
      in map_option (\<lambda>(bs, count). m\<lparr>oa_buckets := bs, oa_occupied := count\<rparr>)
           (oa_rehash h (oa_buckets m) (replicate new_capacity Empty, 0)))"

definition oa_insert_at :: "('k, 'v) open_map \<Rightarrow> 'k \<Rightarrow> 'v \<Rightarrow> 'v slot \<Rightarrow> ('k, 'v) open_map \<times> 'v option" where
  "oa_insert_at m key value s =
     (case s of
        Present idx old \<Rightarrow> (m\<lparr>oa_buckets := (oa_buckets m)[idx := Occupied key value]\<rparr>, Some old)
      | Vacant idx fresh \<Rightarrow>
          (m\<lparr>oa_buckets := (oa_buckets m)[idx := Occupied key value], oa_len := oa_len m + 1,
             oa_occupied := (if fresh then oa_occupied m + 1 else oa_occupied m)\<rparr>, None))"

definition oa_insert :: "('k \<Rightarrow> nat) \<Rightarrow> ('k, 'v) open_map \<Rightarrow> 'k \<Rightarrow> 'v
    \<Rightarrow> (('k, 'v) open_map \<times> 'v option) option" where
  "oa_insert h m0 key value =
     (case (if (oa_occupied m0 + 1) * 100 div length (oa_buckets m0) \<ge> MAX_LOAD_FACTOR_PERCENT
            then oa_resize h m0 else Some m0) of
        None \<Rightarrow> None
      | Some m \<Rightarrow>
          map_option (oa_insert_at m key value)
            (oa_slot (oa_buckets m) key (masked (oa_buckets m) (h key)) None))"

definition oa_get :: "('k \<Rightarrow> nat) \<Rightarrow> ('k, 'v) open_map \<Rightarrow> 'k \<Rightarrow> 'v option option" where
  "oa_get h m key =
     map_option (map_option snd) (oa_find (oa_buckets m) key (masked (oa_buckets m) (h key)))"

definition oa_remove :: "('k \<Rightarrow> nat) \<Rightarrow> ('k, 'v) open_map \<Rightarrow> 'k
    \<Rightarrow> (('k, 'v) open_map \<times> 'v option) option" where
  "oa_remove h m key =
     map_option (\<lambda>r. case r of
         None \<Rightarrow> (m, None)
       | Some (idx, v) \<Rightarrow>
           (m\<lparr>oa_buckets := (oa_buckets m)[idx := Tombstone], oa_len := oa_len m - 1\<rparr>, Some v))
       (oa_find (oa_buckets m) key (masked (oa_buckets m) (h key)))"

definition oa_clear :: "('k, 'v) open_map \<Rightarrow> ('k, 'v) open_map" where
  "oa_clear m = m\<lparr>oa_buckets := map (\<lambda>_. Empty) (oa_buckets m), oa_len := 0, oa_occupied := 0\<rparr>"

section \<open>Tables\<close>

fun entry_of :: "('k, 'v) bucket \<Rightarrow> ('k \<times> 'v) option" where
  "entry_of (Occupied k v) = Some (k, v)"
| "entry_of _ = None"

definition oa_iter :: "('k, 'v) open_map \<Rightarrow> ('k \<times> 'v) list" where
  "oa_iter m = List.map_filter entry_of (oa_buckets m)"

abbreviation entries :: "('k, 'v) bucket list \<Rightarrow> ('k \<times> 'v) option list" where
  "entries bs \<equiv> map entry_of bs"

definition tbl_map :: "('k, 'v) bucket list \<Rightarrow> 'k \<rightharpoonup> 'v" where
  "tbl_map bs = (\<lambda>k. map_option snd (sm_find (entries bs) k))"

text \<open>Every key is reachable: no empty bucket between its home and its place.\<close>

definition reachable_keys :: "('k \<Rightarrow> nat) \<Rightarrow> ('k, 'v) bucket list \<Rightarrow> bool" where
  "reachable_keys h bs \<longleftrightarrow> (\<forall>i k v. i < length bs \<longrightarrow> bs ! i = Occupied k v \<longrightarrow>
     (\<exists>d. i = (h k + d) mod length bs \<and> (\<forall>e < d. bs ! ((h k + e) mod length bs) \<noteq> Empty)))"

definition table_ok :: "('k \<Rightarrow> nat) \<Rightarrow> ('k, 'v) bucket list \<Rightarrow> bool" where
  "table_ok h bs \<longleftrightarrow> (\<exists>p. length bs = 2 ^ p) \<and> keys_distinct (entries bs) \<and> reachable_keys h bs"

definition occ :: "('k, 'v) bucket list \<Rightarrow> nat" where
  "occ bs = length (filter (\<lambda>b. b \<noteq> Empty) bs)"

definition live :: "('k, 'v) bucket list \<Rightarrow> nat" where
  "live bs = length (filter (\<lambda>b. entry_of b \<noteq> None) bs)"

definition oa_inv :: "('k \<Rightarrow> nat) \<Rightarrow> ('k, 'v) open_map \<Rightarrow> bool" where
  "oa_inv h m \<longleftrightarrow> table_ok h (oa_buckets m) \<and> 4 \<le> length (oa_buckets m)
     \<and> oa_occupied m = occ (oa_buckets m) \<and> oa_len m = live (oa_buckets m)
     \<and> oa_occupied m * 100 div length (oa_buckets m) < MAX_LOAD_FACTOR_PERCENT"

definition oa_map :: "('k, 'v) open_map \<Rightarrow> 'k \<rightharpoonup> 'v" where
  "oa_map m = tbl_map (oa_buckets m)"

lemma entry_of_Some [simp]: "entry_of b = Some (k, v) \<longleftrightarrow> b = Occupied k v"
  by (cases b) auto

lemma table_pos:
  assumes "table_ok h bs"
  shows "0 < length bs" "masked bs x = x mod length bs"
    "masked bs (i mod length bs + 1) = Suc i mod length bs"
proof -
  obtain p where p: "length bs = 2 ^ p" using assms by (auto simp: table_ok_def)
  show "0 < length bs" using p by simp
  show m: "masked bs x = x mod length bs" for x
    unfolding masked_def by (rule and_mask_mod [OF p])
  show "masked bs (i mod length bs + 1) = Suc i mod length bs"
    by (simp add: m mod_Suc_eq)
qed

lemma tbl_map_Some:
  assumes "table_ok h bs"
  shows "tbl_map bs k = Some v \<longleftrightarrow> (\<exists>i < length bs. bs ! i = Occupied k v)"
proof -
  have "tbl_map bs k = Some v \<longleftrightarrow> Some (k, v) \<in> set (entries bs)"
    using assms unfolding tbl_map_def table_ok_def by (intro sm_find_iff) blast
  also have "\<dots> \<longleftrightarrow> (\<exists>i < length bs. bs ! i = Occupied k v)"
    by (auto simp: in_set_conv_nth simp del: set_map)
  finally show ?thesis .
qed

lemma tbl_map_None:
  assumes "table_ok h bs"
  shows "tbl_map bs k = None \<longleftrightarrow> (\<forall>i < length bs. \<forall>v. bs ! i \<noteq> Occupied k v)"
  using tbl_map_Some [OF assms, of k] by (metis not_Some_eq)

section \<open>The loops return\<close>

lemma mod_reach: "z < n \<Longrightarrow> \<exists>d. (s + d) mod n = (z::nat)"
proof -
  assume z: "z < n"
  have "(s + (z + n - s mod n)) mod n = (s mod n + (z + n - s mod n)) mod n"
    by (metis mod_add_left_eq)
  also have "s mod n + (z + n - s mod n) = z + n"
    using z by (metis add.commute le_add_diff_inverse less_imp_le_nat mod_less_divisor
        order.trans le_add2 less_nat_zero_code not_gr_zero)
  finally show ?thesis using z by auto
qed

definition stops :: "('k, 'v) bucket list \<Rightarrow> 'k \<Rightarrow> nat \<Rightarrow> bool" where
  "stops bs key i \<longleftrightarrow> bs ! (i mod length bs) = Empty \<or> (\<exists>v. bs ! (i mod length bs) = Occupied key v)"

lemma oa_find_stop:
  assumes ok: "table_ok h bs" and "stops bs key (i + d)" "\<forall>e < d. \<not> stops bs key (i + e)"
  shows "oa_find bs key (i mod length bs) = Some (case bs ! ((i + d) mod length bs) of
      Occupied k v \<Rightarrow> Some ((i + d) mod length bs, v) | _ \<Rightarrow> None)"
  using assms(2,3)
proof (induction d arbitrary: i)
  case 0
  then show ?case by (subst oa_find.simps) (auto simp: stops_def)
next
  case (Suc d)
  have "stops bs key (Suc i + d)" "\<forall>e < d. \<not> stops bs key (Suc i + e)"
    using Suc.prems by (auto dest: spec [of _ "Suc _"])
  from Suc.IH [OF this]
  have IH: "oa_find bs key (Suc i mod length bs) = Some (case bs ! ((i + Suc d) mod length bs) of
      Occupied k v \<Rightarrow> Some ((i + Suc d) mod length bs, v) | _ \<Rightarrow> None)"
    by (simp only: add_Suc_shift)
  have "\<not> stops bs key i" using Suc.prems by (auto dest: spec [of _ 0])
  then have "oa_find bs key (i mod length bs) = oa_find bs key (masked bs (i mod length bs + 1))"
    by (subst oa_find.simps) (auto simp: stops_def split: bucket.splits)
  then show ?case using IH by (simp only: table_pos(3) [OF ok])
qed

lemma has_empty: "occ bs < length bs \<Longrightarrow> \<exists>z < length bs. bs ! z = Empty"
proof (rule ccontr)
  assume "occ bs < length bs" "\<not> (\<exists>z < length bs. bs ! z = Empty)"
  moreover from this(2) have "filter (\<lambda>b. b \<noteq> Empty) bs = bs"
    by (intro filter_True) (auto simp: in_set_conv_nth)
  ultimately show False by (simp add: occ_def)
qed

lemma occ_live: "occ bs = live bs + length (filter (\<lambda>b. b = Tombstone) bs)"
proof (induction bs)
  case (Cons b bs)
  then show ?case by (cases b) (simp_all add: occ_def live_def)
qed (simp add: occ_def live_def)

lemma no_tombstones:
  assumes "occ bs = live bs" "t < length bs" "entry_of (bs ! t) = None"
  shows "bs ! t = Empty"
proof -
  have "filter (\<lambda>b. b = Tombstone) bs = []" using occ_live [of bs] assms(1) by simp
  then have "bs ! t \<noteq> Tombstone" using assms(2) by (metis (full_types) filter_empty_conv nth_mem)
  then show ?thesis using assms(3) by (cases "bs ! t") auto
qed

lemma first_stop:
  assumes "table_ok h bs" "occ bs < length bs"
  shows "\<exists>d. stops bs key (s + d) \<and> (\<forall>e < d. \<not> stops bs key (s + e))"
proof -
  obtain z where z: "z < length bs" "bs ! z = Empty" using has_empty [OF assms(2)] by blast
  then obtain d where "(s + d) mod length bs = z" using mod_reach by blast
  then have "stops bs key (s + d)" using z by (simp add: stops_def)
  then show ?thesis using exists_least_iff [of "\<lambda>d. stops bs key (s + d)"] by blast
qed

text \<open>Where the probe for a key stops, the table holds it or has it nowhere.\<close>

lemma stop_decides:
  assumes ok: "table_ok h bs" and st: "stops bs key (h key + d)"
    and before: "\<forall>e < d. \<not> stops bs key (h key + e)"
  shows "bs ! ((h key + d) mod length bs) = Empty \<Longrightarrow> tbl_map bs key = None"
    and "bs ! ((h key + d) mod length bs) = Occupied k v \<Longrightarrow> k = key \<and> tbl_map bs key = Some v"
proof -
  show "tbl_map bs key = None" if E: "bs ! ((h key + d) mod length bs) = Empty"
  proof (rule ccontr)
    assume "tbl_map bs key \<noteq> None"
    then obtain i v where i: "i < length bs" "bs ! i = Occupied key v"
      using tbl_map_None [OF ok, of key] by auto
    then obtain d' where d': "i = (h key + d') mod length bs"
      "\<forall>e < d'. bs ! ((h key + e) mod length bs) \<noteq> Empty"
      using ok unfolding table_ok_def reachable_keys_def by blast
    then have "stops bs key (h key + d')" using i by (simp add: stops_def)
    then have "d \<le> d'" using before by (meson not_le)
    moreover have "d \<noteq> d'" using E i d' by auto
    ultimately show False using d'(2) E by simp
  qed
  assume O: "bs ! ((h key + d) mod length bs) = Occupied k v"
  then have "k = key" using st by (auto simp: stops_def)
  moreover have "(h key + d) mod length bs < length bs" using table_pos(1) [OF ok] by simp
  ultimately show "k = key \<and> tbl_map bs key = Some v" using O tbl_map_Some [OF ok] by blast
qed

lemma oa_find_spec:
  assumes ok: "table_ok h bs" and room: "occ bs < length bs"
  shows "\<exists>r. oa_find bs key (masked bs (h key)) = Some r \<and> tbl_map bs key = map_option snd r
    \<and> (\<forall>i v. r = Some (i, v) \<longrightarrow> i < length bs \<and> bs ! i = Occupied key v)"
proof -
  obtain d where d: "stops bs key (h key + d)" "\<forall>e < d. \<not> stops bs key (h key + e)"
    using first_stop [OF ok room] by blast
  note f = oa_find_stop [OF ok d] and dec = stop_decides [OF ok d]
  have lt: "(h key + d) mod length bs < length bs" using table_pos(1) [OF ok] by simp
  show ?thesis
  proof (cases "bs ! ((h key + d) mod length bs)")
    case (Occupied k v)
    with dec(2) [OF this] f lt show ?thesis by (auto simp: table_pos(2) [OF ok])
  qed (use d(1) dec(1) f in \<open>auto simp: table_pos(2) [OF ok] stops_def\<close>)
qed


text \<open>A bucket a new key may take, on the probe path of its hash.\<close>

definition vacant_at :: "('k \<Rightarrow> nat) \<Rightarrow> ('k, 'v) bucket list \<Rightarrow> 'k \<Rightarrow> nat \<Rightarrow> bool" where
  "vacant_at h bs key t \<longleftrightarrow> entry_of (bs ! t) = None \<and>
     (\<exists>d. t = (h key + d) mod length bs \<and> (\<forall>e < d. bs ! ((h key + e) mod length bs) \<noteq> Empty))"

lemma oa_slot_stop:
  assumes ok: "table_ok h bs"
    and "stops bs key (h key + j + d)" "\<forall>e < d. \<not> stops bs key (h key + j + e)"
    and "\<forall>e < j. bs ! ((h key + e) mod length bs) \<noteq> Empty"
    and "case tomb of None \<Rightarrow> True | Some t \<Rightarrow> vacant_at h bs key t \<and> bs ! t = Tombstone"
  shows "\<exists>s. oa_slot bs key ((h key + j) mod length bs) tomb = Some s \<and>
     (case bs ! ((h key + j + d) mod length bs) of
        Occupied k v \<Rightarrow> s = Present ((h key + j + d) mod length bs) v
      | _ \<Rightarrow> \<exists>t. vacant_at h bs key t \<and> s = Vacant t (bs ! t = Empty))"
  using assms(2-5)
proof (induction d arbitrary: j tomb)
  case 0
  let ?p = "(h key + j) mod length bs"
  show ?case
  proof (cases "bs ! ?p")
    case Empty
    then have "vacant_at h bs key ?p" using 0(3) by (auto simp: vacant_at_def)
    then show ?thesis using 0 Empty by (subst oa_slot.simps) (auto split: option.splits)
  qed (use 0(1) in \<open>(subst oa_slot.simps, auto simp: stops_def)+\<close>)
next
  case (Suc d)
  let ?p = "(h key + j) mod length bs"
  have ns: "\<not> stops bs key (h key + j)" using Suc.prems(2) by (auto dest: spec [of _ 0])
  have nE: "\<forall>e < Suc j. bs ! ((h key + e) mod length bs) \<noteq> Empty"
    using Suc.prems(3) ns by (auto simp: less_Suc_eq stops_def)
  have step: "stops bs key (h key + Suc j + d)" "\<forall>e < d. \<not> stops bs key (h key + Suc j + e)"
    using Suc.prems(1,2) by (auto dest: spec [of _ "Suc _"])
  note IH = Suc.IH [OF step nE]
  have eq: "h key + Suc j + d = h key + j + Suc d" by simp
  show ?case
  proof (cases "bs ! ?p")
    case Empty
    with ns show ?thesis by (simp add: stops_def)
  next
    case (Occupied k v)
    with ns have "k \<noteq> key" by (auto simp: stops_def)
    with Occupied have "oa_slot bs key ?p tomb = oa_slot bs key ((h key + Suc j) mod length bs) tomb"
      by (subst oa_slot.simps) (simp add: table_pos(3) [OF ok, simplified])
    then show ?thesis using IH [OF Suc.prems(4)] unfolding eq by simp
  next
    case Tombstone
    let ?t = "if tomb = None then Some ?p else tomb"
    from Tombstone have "oa_slot bs key ?p tomb = oa_slot bs key ((h key + Suc j) mod length bs) ?t"
      by (subst oa_slot.simps) (simp add: table_pos(3) [OF ok, simplified])
    moreover have "vacant_at h bs key ?p" using Tombstone Suc.prems(3) by (auto simp: vacant_at_def)
    ultimately show ?thesis
      using IH [of ?t] Tombstone Suc.prems(4) unfolding eq by (auto split: option.splits)
  qed
qed

lemma oa_slot_spec:
  assumes ok: "table_ok h bs" and room: "occ bs < length bs"
  shows "\<exists>s. oa_slot bs key (masked bs (h key)) None = Some s \<and>
    (case tbl_map bs key of
       Some v \<Rightarrow> \<exists>i < length bs. bs ! i = Occupied key v \<and> s = Present i v
     | None \<Rightarrow> \<exists>t. vacant_at h bs key t \<and> s = Vacant t (bs ! t = Empty))"
proof -
  obtain d where d: "stops bs key (h key + d)" "\<forall>e < d. \<not> stops bs key (h key + e)"
    using first_stop [OF ok room] by blast
  note dec = stop_decides [OF ok d]
  have lt: "(h key + d) mod length bs < length bs" using table_pos(1) [OF ok] by simp
  obtain s where s: "oa_slot bs key (h key mod length bs) None = Some s"
    "case bs ! ((h key + d) mod length bs) of
        Occupied k v \<Rightarrow> s = Present ((h key + d) mod length bs) v
      | _ \<Rightarrow> \<exists>t. vacant_at h bs key t \<and> s = Vacant t (bs ! t = Empty)"
    using oa_slot_stop [OF ok, of key 0 d None, unfolded add_0_right] d by auto
  show ?thesis
  proof (cases "bs ! ((h key + d) mod length bs)")
    case (Occupied k v)
    with dec(2) [OF this] s lt show ?thesis by (auto simp: table_pos(2) [OF ok])
  qed (use d(1) dec(1) s in \<open>auto simp: table_pos(2) [OF ok] stops_def\<close>)
qed

section \<open>Storing a new key\<close>

lemma keys_distinct_put:
  assumes ok: "table_ok h bs" and t: "t < length bs" and fresh: "tbl_map bs key = None"
  shows "keys_distinct ((entries bs)[t := Some (key, v)])"
proof (rule keys_distinct_insert)
  show "keys_distinct (entries bs)" using ok by (simp add: table_ok_def)
  show "t < length (entries bs)" using t by simp
  show "entries bs ! j \<noteq> Some (key, w)" if "j < length (entries bs)" for j w
    using that fresh tbl_map_None [OF ok, of key] by simp
qed

lemma reachable_grow:
  assumes "reachable_keys h bs" "t < length bs" "b \<noteq> Empty"
    "\<And>k v. b = Occupied k v \<Longrightarrow> \<exists>d. t = (h k + d) mod length bs
       \<and> (\<forall>e < d. bs ! ((h k + e) mod length bs) \<noteq> Empty)"
  shows "reachable_keys h (bs[t := b])"
proof -
  have ne: "bs ! i \<noteq> Empty \<Longrightarrow> bs[t := b] ! i \<noteq> Empty" for i
    using assms(2,3) by (cases "i = t") auto
  have "\<exists>d. i = (h k + d) mod length bs \<and> (\<forall>e < d. bs ! ((h k + e) mod length bs) \<noteq> Empty)"
    if "i < length bs" "bs[t := b] ! i = Occupied k v" for i k v
  proof (cases "i = t")
    case True
    then show ?thesis using that assms(2,4) by simp
  next
    case False
    then have "bs ! i = Occupied k v" using that by simp
    then show ?thesis using assms(1) that(1) unfolding reachable_keys_def by blast
  qed
  then show ?thesis using ne unfolding reachable_keys_def length_list_update by meson
qed

lemma vacant_at_less: "table_ok h bs \<Longrightarrow> vacant_at h bs key t \<Longrightarrow> t < length bs"
  using table_pos(1) by (fastforce simp: vacant_at_def)

lemma table_put:
  assumes ok: "table_ok h bs" and vac: "vacant_at h bs key t" and fresh: "tbl_map bs key = None"
  shows "table_ok h (bs[t := Occupied key v])"
    and "tbl_map (bs[t := Occupied key v]) = (tbl_map bs)(key \<mapsto> v)"
    and "occ (bs[t := Occupied key v]) = occ bs + (if bs ! t = Empty then 1 else 0)"
    and "live (bs[t := Occupied key v]) = live bs + 1"
proof -
  have t: "t < length bs" using vacant_at_less [OF ok vac] .
  have e: "entries (bs[t := Occupied key v]) = (entries bs)[t := Some (key, v)]"
    by (simp add: map_update)
  have d: "keys_distinct (entries bs)" using ok by (simp add: table_ok_def)
  note d' = keys_distinct_put [OF ok t fresh, of v]
  have r: "reachable_keys h (bs[t := Occupied key v])"
    using ok t vac by (intro reachable_grow) (auto simp: table_ok_def vacant_at_def)
  show "table_ok h (bs[t := Occupied key v])"
    using ok d' r unfolding table_ok_def e by simp
  have "map_option snd (sm_find ((entries bs)[t := Some (key, v)]) k)
      = (if k = key then map_option snd (Some (key, v)) else map_option snd (sm_find (entries bs) k))" for k
    by (rule sm_get_update [OF d d'])
      (use t vac fresh tbl_map_None [OF ok, of key] in \<open>auto simp: vacant_at_def\<close>)
  then show "tbl_map (bs[t := Occupied key v]) = (tbl_map bs)(key \<mapsto> v)"
    unfolding tbl_map_def e by (auto simp: fun_eq_iff)
  show "occ (bs[t := Occupied key v]) = occ bs + (if bs ! t = Empty then 1 else 0)"
    using length_filter_update [OF t, of "\<lambda>b. b \<noteq> Empty" "Occupied key v"] by (simp add: occ_def split: if_splits)
  show "live (bs[t := Occupied key v]) = live bs + 1"
    using length_filter_update [OF t, of "\<lambda>b. entry_of b \<noteq> None" "Occupied key v"] vac
    by (simp add: live_def vacant_at_def del: not_None_eq)
qed

lemma table_set:
  assumes ok: "table_ok h bs" and i: "i < length bs" and at: "bs ! i = Occupied key w"
  shows "table_ok h (bs[i := Occupied key v])"
    and "tbl_map (bs[i := Occupied key v]) = (tbl_map bs)(key \<mapsto> v)"
    and "occ (bs[i := Occupied key v]) = occ bs" and "live (bs[i := Occupied key v]) = live bs"
    and "table_ok h (bs[i := Tombstone])" and "tbl_map (bs[i := Tombstone]) = (tbl_map bs)(key := None)"
    and "occ (bs[i := Tombstone]) = occ bs" and "live (bs[i := Tombstone]) + 1 = live bs"
proof -
  have e: "entries (bs[i := b]) = (entries bs)[i := entry_of b]" for b by (simp add: map_update)
  have d: "keys_distinct (entries bs)" using ok by (simp add: table_ok_def)
  have other: "entries bs ! j \<noteq> Some (key, u)" if "j < length (entries bs)" "j \<noteq> i" for j u
    using that d at i unfolding keys_distinct_def by (metis entry_of.simps(1) length_map nth_map)
  have d1: "keys_distinct ((entries bs)[i := Some (key, v)])"
    using d i other by (intro keys_distinct_insert) auto
  have d2: "keys_distinct ((entries bs)[i := None])"
    using d i by (intro keys_distinct_erase) auto
  have reach: "\<exists>d. i = (h key + d) mod length bs \<and> (\<forall>e < d. bs ! ((h key + e) mod length bs) \<noteq> Empty)"
    using ok i at unfolding table_ok_def reachable_keys_def by blast
  have r: "reachable_keys h (bs[i := Occupied key v])" "reachable_keys h (bs[i := Tombstone])"
    using ok i reach by (intro reachable_grow; auto simp: table_ok_def)+
  show "table_ok h (bs[i := Occupied key v])" "table_ok h (bs[i := Tombstone])"
    using ok d1 d2 r unfolding table_ok_def e by auto
  have "map_option snd (sm_find ((entries bs)[i := Some (key, v)]) k)
      = (if k = key then Some v else map_option snd (sm_find (entries bs) k))" for k
    using sm_get_update [OF d d1] i at other by simp
  then show "tbl_map (bs[i := Occupied key v]) = (tbl_map bs)(key \<mapsto> v)"
    unfolding tbl_map_def e by (auto simp: fun_eq_iff)
  have "map_option snd (sm_find ((entries bs)[i := None]) k)
      = (if k = key then None else map_option snd (sm_find (entries bs) k))" for k
    using sm_get_update [OF d d2] i at other by simp
  then show "tbl_map (bs[i := Tombstone]) = (tbl_map bs)(key := None)"
    unfolding tbl_map_def e by (auto simp: fun_eq_iff)
  show "occ (bs[i := Occupied key v]) = occ bs" "occ (bs[i := Tombstone]) = occ bs"
    using length_filter_update [OF i, of "\<lambda>b. b \<noteq> Empty" "Occupied key v"]
      length_filter_update [OF i, of "\<lambda>b. b \<noteq> Empty" Tombstone] at by (simp_all add: occ_def)
  show "live (bs[i := Occupied key v]) = live bs" "live (bs[i := Tombstone]) + 1 = live bs"
    using length_filter_update [OF i, of "\<lambda>b. entry_of b \<noteq> None" "Occupied key v"]
      length_filter_update [OF i, of "\<lambda>b. entry_of b \<noteq> None" Tombstone] at
    by (simp_all add: live_def)
qed


section \<open>Growing\<close>

lemma free_from_ok:
  assumes ok: "table_ok h bs" and "entry_of (bs ! ((h key + j + d) mod length bs)) = None"
    "\<forall>e < d. entry_of (bs ! ((h key + j + e) mod length bs)) \<noteq> None"
    "\<forall>e < j. bs ! ((h key + e) mod length bs) \<noteq> Empty"
  shows "\<exists>t. oa_free_from bs ((h key + j) mod length bs) = Some t \<and> vacant_at h bs key t"
  using assms(2-4)
proof (induction d arbitrary: j)
  case 0
  then have "oa_free_from bs ((h key + j) mod length bs) = Some ((h key + j) mod length bs)"
    by (subst oa_free_from.simps) (auto split: bucket.splits)
  then show ?case using 0 by (auto simp: vacant_at_def)
next
  case (Suc d)
  obtain k v where kv: "bs ! ((h key + j) mod length bs) = Occupied k v"
    using Suc.prems(2) by (cases "bs ! ((h key + j) mod length bs)") (auto dest: spec [of _ 0])
  then have "oa_free_from bs ((h key + j) mod length bs) = oa_free_from bs ((h key + Suc j) mod length bs)"
    by (subst oa_free_from.simps) (simp add: table_pos(3) [OF ok, simplified])
  moreover have "\<exists>t. oa_free_from bs ((h key + Suc j) mod length bs) = Some t \<and> vacant_at h bs key t"
  proof (rule Suc.IH)
    show "entry_of (bs ! ((h key + Suc j + d) mod length bs)) = None" using Suc.prems(1) by simp
    show "\<forall>e < d. entry_of (bs ! ((h key + Suc j + e) mod length bs)) \<noteq> None"
      using Suc.prems(2) by (auto dest: spec [of _ "Suc _"])
    show "\<forall>e < Suc j. bs ! ((h key + e) mod length bs) \<noteq> Empty"
      using Suc.prems(3) kv by (auto simp: less_Suc_eq)
  qed
  ultimately show ?case by simp
qed

lemma free_from_spec:
  assumes ok: "table_ok h bs" and room: "occ bs < length bs"
  shows "\<exists>t. oa_free_from bs (masked bs (h key)) = Some t \<and> vacant_at h bs key t"
proof -
  obtain z where z: "z < length bs" "bs ! z = Empty" using has_empty [OF room] by blast
  obtain c where "(h key + c) mod length bs = z" using mod_reach [OF z(1)] by blast
  then have "entry_of (bs ! ((h key + c) mod length bs)) = None" using z by simp
  then obtain d where "entry_of (bs ! ((h key + d) mod length bs)) = None"
    "\<forall>e < d. entry_of (bs ! ((h key + e) mod length bs)) \<noteq> None"
    using exists_least_iff [of "\<lambda>d. entry_of (bs ! ((h key + d) mod length bs)) = None"] by blast
  then show ?thesis
    using free_from_ok [OF ok, of key 0 d] by (simp add: table_pos(2) [OF ok])
qed

lemma keys_distinct_Cons:
  assumes "keys_distinct (e # es)"
  shows "keys_distinct es" and "e = Some (k, v) \<Longrightarrow> i < length es \<Longrightarrow> es ! i \<noteq> Some (k, w)"
proof -
  have d: "m = n" if "m < length (e # es)" "n < length (e # es)" "(e # es) ! m = Some (k, v)"
      "(e # es) ! n = Some (k, w)" for m n k v w
    using assms that unfolding keys_distinct_def by blast
  show "keys_distinct es"
    unfolding keys_distinct_def using d [of "Suc _" "Suc _"] by simp
  show "es ! i \<noteq> Some (k, w)" if "e = Some (k, v)" "i < length es"
    using d [of 0 "Suc i" k v w] that by auto
qed

text \<open>Reinserting the entries of \<open>old\<close>, all of them new to the table.\<close>

lemma rehash_spec:
  assumes "table_ok h bs" "keys_distinct (entries old)"
    "\<forall>i < length old. \<forall>k v. old ! i = Occupied k v \<longrightarrow> tbl_map bs k = None"
    "occ bs + live old < length bs"
  shows "\<exists>bs'. oa_rehash h old (bs, count) = Some (bs', count + live old) \<and> table_ok h bs'
    \<and> length bs' = length bs \<and> tbl_map bs' = tbl_map bs ++ tbl_map old
    \<and> occ bs' \<le> occ bs + live old \<and> live bs' = live bs + live old
    \<and> (occ bs = live bs \<longrightarrow> occ bs' = live bs')"
  using assms
proof (induction old arbitrary: bs count)
  case Nil
  then show ?case by (simp add: live_def tbl_map_def)
next
  case (Cons b old)
  have dold: "keys_distinct (entries old)"
    using Cons.prems(2) keys_distinct_Cons(1) by fastforce
  have fr: "\<forall>i < length old. \<forall>k v. old ! i = Occupied k v \<longrightarrow> tbl_map bs k = None"
    using Cons.prems(3) by (auto dest: spec [of _ "Suc _"])
  show ?case
  proof (cases b)
    case (Occupied key val)
    have fresh: "tbl_map bs key = None" using Cons.prems(3) Occupied by (auto dest: spec [of _ 0])
    have lv: "live (b # old) = Suc (live old)" using Occupied by (simp add: live_def)
    obtain t where t: "oa_free_from bs (masked bs (h key)) = Some t" and vac: "vacant_at h bs key t"
      using free_from_spec [OF Cons.prems(1)] Cons.prems(4) by (meson add_lessD1)
    note put = table_put [OF Cons.prems(1) vac fresh, of val]
    have key_new: "old ! i \<noteq> Occupied key w" if "i < length old" for i w
      using keys_distinct_Cons(2) [of "entry_of b" "entries old" key val i w] Cons.prems(2) that Occupied
      by simp
    have fr': "\<forall>i < length old. \<forall>k v. old ! i = Occupied k v \<longrightarrow> tbl_map (bs[t := Occupied key val]) k = None"
      using fr key_new put(2) by auto
    have room: "occ (bs[t := Occupied key val]) + live old < length (bs[t := Occupied key val])"
      using put(3) Cons.prems(4) lv by (simp split: if_splits)
    obtain bs' where bs': "oa_rehash h old (bs[t := Occupied key val], count + 1)
        = Some (bs', count + 1 + live old)" "table_ok h bs'"
      "length bs' = length bs" "tbl_map bs' = tbl_map (bs[t := Occupied key val]) ++ tbl_map old"
      "occ bs' \<le> occ (bs[t := Occupied key val]) + live old"
      "live bs' = live (bs[t := Occupied key val]) + live old"
      "occ (bs[t := Occupied key val]) = live (bs[t := Occupied key val]) \<longrightarrow> occ bs' = live bs'"
      using Cons.IH [OF put(1) dold fr' room, of "count + 1"] by auto
    have mp: "tbl_map (b # old) = (tbl_map old)(key \<mapsto> val)"
      using Occupied by (auto simp: tbl_map_def fun_eq_iff option.map_comp comp_def case_prod_beta)
    have "tbl_map old key = None"
    proof -
      have "sm_find (entries old) key = None"
        using key_new by (auto simp: sm_find_None in_set_conv_nth simp del: set_map)
      then show ?thesis by (simp add: tbl_map_def)
    qed
    then have "tbl_map bs' = tbl_map bs ++ tbl_map (b # old)"
      unfolding bs'(4) put(2) mp by (auto simp: map_add_def fun_eq_iff split: option.splits)
    moreover have "occ bs = live bs \<longrightarrow> bs ! t = Empty"
      using vac Cons.prems(1) by (metis no_tombstones vacant_at_less vacant_at_def)
    ultimately show ?thesis
      using bs' put(3,4) t Occupied lv by (auto split: if_splits)
  qed (use Cons.IH [OF Cons.prems(1) dold fr] Cons.prems(4) in \<open>auto simp: live_def tbl_map_def
      option.map_comp comp_def case_prod_beta\<close>)
qed


lemma table_ok_replicate: "(\<exists>p. n = 2 ^ p) \<Longrightarrow> table_ok h (replicate n Empty)"
  by (simp add: table_ok_def keys_distinct_def reachable_keys_def)

lemma tbl_map_empty [simp]: "tbl_map (replicate n Empty :: ('k, 'v) bucket list) = Map.empty"
proof -
  have "sm_find (replicate n (None :: ('k \<times> 'v) option)) k = None" for k
    by (induction n) auto
  then show ?thesis by (simp add: tbl_map_def fun_eq_iff map_replicate)
qed

lemma occ_empty [simp]: "occ (replicate n Empty) = 0" "live (replicate n Empty) = 0"
  by (simp_all add: occ_def live_def)

text \<open>The load after the growth check leaves room for one more key.\<close>

lemma load_less: "4 \<le> n \<Longrightarrow> x * 100 div n < MAX_LOAD_FACTOR_PERCENT \<longleftrightarrow> x * 100 < 70 * n"
  by (simp add: MAX_LOAD_FACTOR_PERCENT_def div_less_iff_less_mult mult.commute)

lemma power_max: "n = 2 ^ p \<Longrightarrow> \<exists>q. max (n * 2) INITIAL_CAPACITY = (2 ^ q :: nat)"
proof (cases "p \<le> 3")
  case True
  assume "n = 2 ^ p"
  then have "n \<le> 2 ^ 3" using True by (metis one_le_numeral power_increasing)
  then have "max (n * 2) INITIAL_CAPACITY = 2 ^ 4" by (simp add: INITIAL_CAPACITY_def)
  then show ?thesis by blast
next
  case False
  assume n: "n = 2 ^ p"
  then have "2 ^ 4 \<le> n" using False by (metis not_less_eq_eq numeral_3_eq_3 power_increasing
        one_le_numeral eval_nat_numeral(2) Suc_leI not_le semiring_norm(26,27,28) numeral_eq_Suc pred_numeral_simps(2))
  then have "max (n * 2) INITIAL_CAPACITY = 2 ^ Suc p" using n by (simp add: INITIAL_CAPACITY_def)
  then show ?thesis by blast
qed

lemma oa_resize_spec:
  assumes inv: "oa_inv h m"
  shows "\<exists>m'. oa_resize h m = Some m' \<and> oa_inv h m' \<and> oa_map m' = oa_map m
    \<and> (oa_occupied m' + 1) * 100 < 70 * length (oa_buckets m')"
proof -
  let ?bs = "oa_buckets m" and ?c = "max (length (oa_buckets m) * 2) INITIAL_CAPACITY"
  have ok: "table_ok h ?bs" and four: "4 \<le> length ?bs" and load: "occ ?bs * 100 < 70 * length ?bs"
    and len: "oa_len m = live ?bs"
    using inv load_less [of "length ?bs"] by (auto simp: oa_inv_def)
  have lv: "live ?bs \<le> occ ?bs" using occ_live [of ?bs] by simp
  obtain p where "length ?bs = 2 ^ p" using ok by (auto simp: table_ok_def)
  then have tok: "table_ok h (replicate ?c Empty :: ('a, 'b) bucket list)"
    using power_max by (intro table_ok_replicate) blast
  have c: "2 * length ?bs \<le> ?c" by simp
  have room: "occ (replicate ?c Empty :: ('a, 'b) bucket list) + live ?bs < length (replicate ?c (Empty :: ('a, 'b) bucket))"
    using lv load c four by simp
  obtain bs' where bs': "oa_rehash h ?bs (replicate ?c Empty, 0) = Some (bs', live ?bs)"
    "table_ok h bs'" "length bs' = ?c" "tbl_map bs' = tbl_map ?bs" "live bs' = live ?bs" "occ bs' = live bs'"
    using rehash_spec [OF tok _ _ room, of 0] ok by (auto simp: table_ok_def)
  let ?m' = "m\<lparr>oa_buckets := bs', oa_occupied := live ?bs\<rparr>"
  have l: "(live ?bs + 1) * 100 < 70 * ?c" using lv load c four by simp
  then have "live ?bs * 100 div ?c < MAX_LOAD_FACTOR_PERCENT"
    using load_less [of ?c "live ?bs"] c four by simp
  then have "oa_inv h ?m'"
    using bs' len four c by (simp add: oa_inv_def)
  moreover have "oa_resize h m = Some ?m'" using bs'(1) by (simp add: oa_resize_def Let_def)
  ultimately show ?thesis using l bs' by (simp add: oa_map_def)
qed

section \<open>The operations meet the contract\<close>

lemma oa_insert_room:
  assumes inv: "oa_inv h m" and load: "(oa_occupied m + 1) * 100 < 70 * length (oa_buckets m)"
  shows "\<exists>s m'. oa_slot (oa_buckets m) key (masked (oa_buckets m) (h key)) None = Some s
    \<and> oa_insert_at m key v s = (m', oa_map m key) \<and> oa_inv h m' \<and> oa_map m' = (oa_map m)(key \<mapsto> v)"
proof -
  let ?bs = "oa_buckets m"
  have ok: "table_ok h ?bs" and occ: "oa_occupied m = occ ?bs" and four: "4 \<le> length ?bs"
    and len: "oa_len m = live ?bs"
    using inv by (auto simp: oa_inv_def)
  have room: "occ ?bs < length ?bs" using load occ by simp
  have small: "x * 100 div length ?bs < MAX_LOAD_FACTOR_PERCENT" if "x \<le> oa_occupied m + 1" for x
    using that load four load_less [of "length ?bs" x] by simp
  obtain s where s: "oa_slot ?bs key (masked ?bs (h key)) None = Some s"
    "case tbl_map ?bs key of
       Some v \<Rightarrow> \<exists>i < length ?bs. ?bs ! i = Occupied key v \<and> s = Present i v
     | None \<Rightarrow> \<exists>t. vacant_at h ?bs key t \<and> s = Vacant t (?bs ! t = Empty)"
    using oa_slot_spec [OF ok room] by blast
  show ?thesis
  proof (cases "tbl_map ?bs key")
    case None
    then obtain t where t: "vacant_at h ?bs key t" "s = Vacant t (?bs ! t = Empty)" using s by auto
    note put = table_put [OF ok t(1) None, of v]
    show ?thesis
      using s(1) t(2) put None occ len four small by (auto simp: oa_insert_at_def oa_inv_def oa_map_def)
  next
    case (Some w)
    then obtain i where i: "i < length ?bs" "?bs ! i = Occupied key w" "s = Present i w" using s by auto
    note st = table_set [OF ok i(1,2)]
    show ?thesis
      using s(1) i(3) st Some inv by (auto simp: oa_insert_at_def oa_inv_def oa_map_def)
  qed
qed

lemma oa_insert_spec:
  assumes inv: "oa_inv h m"
  shows "\<exists>m'. oa_insert h m key v = Some (m', oa_map m key) \<and> oa_inv h m' \<and> oa_map m' = (oa_map m)(key \<mapsto> v)"
proof -
  have four: "4 \<le> length (oa_buckets m)" using inv by (auto simp: oa_inv_def)
  obtain m1 where m1: "(if (oa_occupied m + 1) * 100 div length (oa_buckets m) \<ge> MAX_LOAD_FACTOR_PERCENT
      then oa_resize h m else Some m) = Some m1" "oa_inv h m1" "oa_map m1 = oa_map m"
    "(oa_occupied m1 + 1) * 100 < 70 * length (oa_buckets m1)"
    using oa_resize_spec [OF inv] inv load_less [OF four, of "oa_occupied m + 1"]
    by (cases "(oa_occupied m + 1) * 100 div length (oa_buckets m) \<ge> MAX_LOAD_FACTOR_PERCENT") auto
  show ?thesis
    using oa_insert_room [OF m1(2,4), of key v] m1(1,3) by (auto simp: oa_insert_def)
qed

lemma oa_room:
  assumes "oa_inv h m"
  shows "table_ok h (oa_buckets m)" "occ (oa_buckets m) < length (oa_buckets m)"
  using assms load_less [of "length (oa_buckets m)" "oa_occupied m"] by (auto simp: oa_inv_def)

lemma oa_get_spec:
  assumes "oa_inv h m"
  shows "oa_get h m key = Some (oa_map m key)"
  using oa_find_spec [OF oa_room [OF assms], of key] by (auto simp: oa_get_def oa_map_def)

lemma oa_remove_spec:
  assumes inv: "oa_inv h m"
  shows "\<exists>m'. oa_remove h m key = Some (m', oa_map m key) \<and> oa_inv h m' \<and> oa_map m' = (oa_map m)(key := None)"
proof -
  let ?bs = "oa_buckets m"
  obtain r where r: "oa_find ?bs key (masked ?bs (h key)) = Some r" "tbl_map ?bs key = map_option snd r"
    "\<forall>i v. r = Some (i, v) \<longrightarrow> i < length ?bs \<and> ?bs ! i = Occupied key v"
    using oa_find_spec [OF oa_room [OF inv], of key] by blast
  show ?thesis
  proof (cases r)
    case None
    then show ?thesis using r inv by (auto simp: oa_remove_def oa_map_def fun_eq_iff)
  next
    case (Some p)
    then obtain i w where iw: "r = Some (i, w)" "i < length ?bs" "?bs ! i = Occupied key w"
      using r(3) by (cases p) auto
    note st = table_set [OF oa_room(1) [OF inv] iw(2,3)]
    have "oa_len m = live ?bs" using inv by (simp add: oa_inv_def)
    then have "oa_len m - 1 = live (?bs[i := Tombstone])" using st(8) by simp
    then show ?thesis
      using r(1,2) iw(1) st inv by (auto simp: oa_remove_def oa_inv_def oa_map_def)
  qed
qed

lemma oa_card:
  assumes "oa_inv h m"
  shows "finite (dom (oa_map m)) \<and> oa_len m = card (dom (oa_map m))"
proof -
  have d: "keys_distinct (entries (oa_buckets m))" and l: "oa_len m = live (oa_buckets m)"
    using assms by (simp_all add: oa_inv_def table_ok_def)
  have "length (filter (\<lambda>e. e \<noteq> None) (entries (oa_buckets m))) = live (oa_buckets m)"
    by (simp add: live_def filter_map comp_def del: not_None_eq)
  then show ?thesis using card_dom_entries [OF d] l by (simp add: oa_map_def tbl_map_def)
qed

lemma oa_inv_new: "oa_inv h (oa_with_capacity n)" "oa_map (oa_with_capacity n) = Map.empty"
proof -
  have "4 \<le> next_power_of_two (max n 4)" using next_power_of_two_ge [of "max n 4"] by simp
  then show "oa_inv h (oa_with_capacity n)"
    using next_power_of_two_power
    by (auto simp: oa_inv_def oa_with_capacity_def MAX_LOAD_FACTOR_PERCENT_def intro!: table_ok_replicate)
  show "oa_map (oa_with_capacity n) = Map.empty" by (simp add: oa_map_def oa_with_capacity_def)
qed

interpretation oa: unbounded_map "oa_inv h" oa_map "\<lambda>_ _. True" "oa_insert h" "oa_get h" "oa_remove h"
  oa_len oa_clear for h
proof (unfold_locales, goal_cases)
  case (6 m)
  have cl: "oa_clear m = \<lparr>oa_buckets = replicate (length (oa_buckets m)) Empty, oa_len = 0, oa_occupied = 0\<rparr>"
    by (simp add: oa_clear_def map_replicate_const)
  have "table_ok h (replicate (length (oa_buckets m)) Empty :: ('a, 'b) bucket list)"
    using 6 by (intro table_ok_replicate) (simp add: oa_inv_def table_ok_def)
  then show ?case
    using 6 unfolding cl by (simp add: oa_inv_def oa_map_def MAX_LOAD_FACTOR_PERCENT_def)
next
  case (4 m)
  then show ?case by (rule conjunct1 [OF oa_card])
next
  case (5 m)
  then show ?case by (rule conjunct2 [OF oa_card])
qed (simp_all add: oa_insert_spec oa_get_spec oa_remove_spec)

text \<open>
  C39. An \<open>OpenAddressMap\<close> behaves as a finite map under every sequence of
  insertions, lookups, removals and clears, for every hash function and initial
  capacity. In particular every probe loop of the sequence returns, through
  growth and tombstone reuse.
\<close>

theorem oa_refines_map:
  "\<exists>m'. impl_run (oa_insert h) (oa_get h) (oa_remove h) oa_clear (oa_with_capacity n) ops
       = Some (m', snd (spec_run Map.empty ops))
   \<and> oa_map m' = fst (spec_run Map.empty ops)
   \<and> oa_len m' = card (dom (fst (spec_run Map.empty ops)))"
  using oa.run_refines [OF oa_inv_new(1), of h n ops] oa_card
  by (fastforce simp: oa_inv_new(2))

end
