(* ===== verification/HashSet.thy ===== *)
theory HashSet
  imports OpenAddressMap
begin

text \<open>
  \<open>HashSet\<close> (\<open>kernel/src/collections/set.rs\<close>), a set as an \<open>OpenAddressMap\<close> to
  unit, and the two hashers of \<open>kernel/src/collections/hasher\<close>: 64-bit FNV-1a
  and the identity hasher for integer keys. The set meets the contract
  \<open>kernel_set\<close> because the map meets \<open>unbounded_map\<close>.
\<close>

section \<open>Hashers\<close>

definition FNV_OFFSET_BASIS :: "64 word" where "FNV_OFFSET_BASIS = 0xcbf29ce484222325"
definition FNV_PRIME :: "64 word" where "FNV_PRIME = 0x100000001b3"

text \<open>\<open>FnvHasher::write\<close>, from the state \<open>s\<close>.\<close>

definition fnv_write :: "64 word \<Rightarrow> byte list \<Rightarrow> 64 word" where
  "fnv_write s bytes = foldl (\<lambda>s b. (s XOR ucast b) * FNV_PRIME) s bytes"

definition fnv_hash :: "byte list \<Rightarrow> nat" where
  "fnv_hash bytes = unat (fnv_write FNV_OFFSET_BASIS bytes)"

text \<open>\<open>IdentityHasher::write\<close>: the first eight bytes, little endian.\<close>

definition identity_write :: "byte list \<Rightarrow> 64 word" where
  "identity_write bytes =
     foldl (\<lambda>acc (i, b). acc OR push_bit (i * 8) (ucast b)) 0 (enumerate 0 (take 8 bytes))"

definition identity_write_u64 :: "64 word \<Rightarrow> 64 word" where
  "identity_write_u64 i = i"

definition to_le_bytes :: "64 word \<Rightarrow> byte list" where
  "to_le_bytes w = map (\<lambda>i. ucast (drop_bit (i * 8) w)) [0..<8]"

lemma fnv_write_append: "fnv_write s (xs @ ys) = fnv_write (fnv_write s xs) ys"
  by (simp add: fnv_write_def)

lemma bit_ucast_byte: "bit (ucast (drop_bit k w :: 64 word) :: byte) i \<longleftrightarrow> i < 8 \<and> bit w (k + i)"
  by (simp add: bit_simps)

lemma bit_lane:
  "bit (push_bit k (ucast (ucast (drop_bit k w :: 64 word) :: byte)) :: 64 word) n
     \<longleftrightarrow> k \<le> n \<and> n < k + 8 \<and> bit w n"
  by (auto simp: bit_simps bit_ucast_byte dest: bit_imp_le_length)

text \<open>
  The identity hasher does not depend on how an integer key is fed to it:
  hashing the eight little-endian bytes of a key and hashing the key as a
  \<open>u64\<close> give the key itself.
\<close>

theorem identity_write_roundtrip: "identity_write (to_le_bytes w) = identity_write_u64 w"
proof (rule bit_word_eqI)
  fix n assume n: "n < LENGTH(64)"
  have e: "enumerate 0 (take 8 (to_le_bytes w)) = map (\<lambda>i. (i, ucast (drop_bit (i * 8) w))) [0..<8]"
    by (simp add: to_le_bytes_def enumerate_eq_zip zip_map2 zip_same_conv_map)
  have "foldl (\<lambda>acc (i, b). acc OR push_bit (i * 8) (ucast b)) a
      (map (\<lambda>i. (i, ucast (drop_bit (i * 8) w) :: byte)) js)
    = foldl (\<lambda>acc i. acc OR push_bit (i * 8) (ucast (ucast (drop_bit (i * 8) w) :: byte))) a js"
    for a :: "64 word" and js
    by (induction js arbitrary: a) simp_all
  then have iw: "identity_write (to_le_bytes w) =
      foldl (\<lambda>acc i. acc OR push_bit (i * 8) (ucast (ucast (drop_bit (i * 8) w) :: byte))) 0 [0..<8]"
    unfolding identity_write_def e by simp
  have "bit (foldl (\<lambda>acc i. acc OR push_bit (i * 8) (ucast (ucast (drop_bit (i * 8) w) :: byte))) a js) n
     \<longleftrightarrow> bit a n \<or> (\<exists>i \<in> set js. i * 8 \<le> n \<and> n < i * 8 + 8 \<and> bit w n)" for a :: "64 word" and js
    by (induction js arbitrary: a) (auto simp: bit_or_iff bit_lane)
  then have "bit (identity_write (to_le_bytes w)) n
     \<longleftrightarrow> (\<exists>i \<in> set [0..<8]. i * 8 \<le> n \<and> n < i * 8 + 8 \<and> bit w n)"
    unfolding iw by simp
  also have "\<dots> \<longleftrightarrow> bit w n"
    using n by (auto intro!: bexI [of _ "n div 8"] simp: less_mult_imp_div_less)
  finally show "bit (identity_write (to_le_bytes w)) n = bit (identity_write_u64 w) n"
    by (simp add: identity_write_u64_def)
qed

section \<open>The set\<close>

type_synonym 'a hash_set = "('a, unit) open_map"

definition hs_with_capacity :: "nat \<Rightarrow> 'a hash_set" where
  "hs_with_capacity n = oa_with_capacity n"

definition hs_new :: "'a hash_set" where
  "hs_new = oa_new"

definition hs_insert :: "('a \<Rightarrow> nat) \<Rightarrow> 'a hash_set \<Rightarrow> 'a \<Rightarrow> ('a hash_set \<times> bool) option" where
  "hs_insert h s x = map_option (\<lambda>(m, old). (m, old = None)) (oa_insert h s x ())"

definition hs_contains :: "('a \<Rightarrow> nat) \<Rightarrow> 'a hash_set \<Rightarrow> 'a \<Rightarrow> bool option" where
  "hs_contains h s x = map_option (\<lambda>r. r \<noteq> None) (oa_get h s x)"

definition hs_remove :: "('a \<Rightarrow> nat) \<Rightarrow> 'a hash_set \<Rightarrow> 'a \<Rightarrow> ('a hash_set \<times> bool) option" where
  "hs_remove h s x = map_option (\<lambda>(m, old). (m, old \<noteq> None)) (oa_remove h s x)"

definition hs_len :: "'a hash_set \<Rightarrow> nat" where
  "hs_len s = oa_len s"

definition hs_clear :: "'a hash_set \<Rightarrow> 'a hash_set" where
  "hs_clear s = oa_clear s"

definition hs_iter :: "'a hash_set \<Rightarrow> 'a list" where
  "hs_iter s = map fst (oa_iter s)"

interpretation hs: kernel_set "oa_inv h" "\<lambda>s. dom (oa_map s)" "hs_insert h" "hs_contains h" "hs_remove h"
  hs_len hs_clear for h
proof (unfold_locales, goal_cases)
  case (1 s x)
  then show ?case
    using oa_insert_spec [of h s x "()"] by (auto simp: hs_insert_def domIff simp del: not_None_eq)
next
  case (3 s x)
  then show ?case
    using oa_remove_spec [of h s x] by (auto simp: hs_remove_def domIff)
next
  case (5 s)
  then show ?case using oa.clr [of h s] by (simp add: hs_clear_def)
qed (simp_all add: hs_contains_def oa_get_spec domIff hs_len_def oa_card)

text \<open>
  \<open>HashSet\<close> keeps the promises of the \<open>Set\<close> trait: after an insertion the
  set contains exactly the old elements and the new one, a second insertion of
  the same element reports that it was present, and removal undoes it.
\<close>

theorem hs_set_laws:
  assumes "oa_inv h s"
  shows "\<exists>s1. hs_insert h s x = Some (s1, x \<notin> dom (oa_map s))
     \<and> hs_contains h s1 y = Some (y = x \<or> y \<in> dom (oa_map s))
     \<and> (\<exists>s2. hs_insert h s1 x = Some (s2, False))
     \<and> (\<exists>s3. hs_remove h s1 x = Some (s3, True) \<and> dom (oa_map s3) = dom (oa_map s) - {x})"
proof -
  obtain s1 where s1: "hs_insert h s x = Some (s1, x \<notin> dom (oa_map s))" "oa_inv h s1"
    "dom (oa_map s1) = insert x (dom (oa_map s))"
    using hs.add [OF assms] by blast
  have "hs_contains h s1 y = Some (y = x \<or> y \<in> dom (oa_map s))" using hs.add_contains [OF assms s1(1)] .
  moreover have "\<exists>s2. hs_insert h s1 x = Some (s2, False)" using hs.add_twice [OF assms s1(1)] by blast
  moreover have "\<exists>s3. hs_remove h s1 x = Some (s3, True) \<and> dom (oa_map s3) = dom (oa_map s) - {x}"
    using hs.del [OF s1(2), of x] s1(3) by auto
  ultimately show ?thesis using s1(1) by blast
qed

theorem hs_set_laws_witness:
  "\<exists>s1. hs_insert fnv_hash (hs_with_capacity 0) [1, 2] = Some (s1, True)
     \<and> hs_contains fnv_hash s1 [3] = Some False"
proof -
  have i: "oa_inv fnv_hash (hs_with_capacity 0 :: byte list hash_set)"
    and e: "oa_map (hs_with_capacity 0 :: byte list hash_set) = Map.empty"
    unfolding hs_with_capacity_def by (rule oa_inv_new)+
  show ?thesis using hs_set_laws [OF i, of "[1, 2]" "[3]"] e by auto
qed

end
