(* ===== verification/BootInfo.thy ===== *)
theory BootInfo
  imports Prelude
begin

text \<open>
  The physical memory map the boot code hands to the kernel
  (\<open>kernel/src/boot/boot_info.rs\<close>). The fixed array of regions is a list of
  \<open>MAX_MEMORY_REGIONS\<close> entries with a count, as in the source.
\<close>

datatype PhysicalMemoryKind = Usable | Reserved | AcpiReclaimable | AcpiNvs | Runtime | Mmio

record PhysicalMemoryRegion =
  pr_start :: u64
  pr_length :: u64
  pr_kind :: PhysicalMemoryKind

definition region_EMPTY :: PhysicalMemoryRegion where
  "region_EMPTY = \<lparr>pr_start = 0, pr_length = 0, pr_kind = Reserved\<rparr>"

definition region_end :: "PhysicalMemoryRegion \<Rightarrow> u64" where
  "region_end r = saturating_add (pr_start r) (pr_length r)"

definition MAX_MEMORY_REGIONS :: nat where "MAX_MEMORY_REGIONS = 256"

record PhysicalMemoryMap =
  pm_regions :: "PhysicalMemoryRegion list"
  pm_count :: usize

definition map_empty :: PhysicalMemoryMap where
  "map_empty = \<lparr>pm_regions = replicate MAX_MEMORY_REGIONS region_EMPTY, pm_count = 0\<rparr>"

definition map_push :: "PhysicalMemoryMap \<Rightarrow> PhysicalMemoryRegion \<Rightarrow> PhysicalMemoryMap" where
  "map_push m r =
     (if pr_length r \<noteq> 0 \<and> pm_count m < MAX_MEMORY_REGIONS
      then m\<lparr>pm_regions := (pm_regions m)[pm_count m := r], pm_count := pm_count m + 1\<rparr>
      else m)"

definition map_push_merged :: "PhysicalMemoryMap \<Rightarrow> PhysicalMemoryRegion \<Rightarrow> PhysicalMemoryMap" where
  "map_push_merged m r =
     (if pr_length r = 0 then m
      else if pm_count m \<noteq> 0 \<and> pr_kind (pm_regions m ! (pm_count m - 1)) = pr_kind r
              \<and> region_end (pm_regions m ! (pm_count m - 1)) = pr_start r
      then (let previous = pm_regions m ! (pm_count m - 1)
            in m\<lparr>pm_regions := (pm_regions m)[pm_count m - 1 :=
                 previous\<lparr>pr_length := saturating_add (pr_length previous) (pr_length r)\<rparr>]\<rparr>)
      else map_push m r)"

definition regions_of :: "PhysicalMemoryMap \<Rightarrow> PhysicalMemoryRegion list" where
  "regions_of m = take (pm_count m) (pm_regions m)"

definition map_usable :: "PhysicalMemoryMap \<Rightarrow> PhysicalMemoryRegion list" where
  "map_usable m = filter (\<lambda>r. pr_kind r = Usable) (regions_of m)"

definition total_memory_mb :: "PhysicalMemoryMap \<Rightarrow> u64" where
  "total_memory_mb m = sum_list (map pr_length (map_usable m)) div (1024 * 1024)"

section \<open>What the map describes\<close>

definition map_wf :: "PhysicalMemoryMap \<Rightarrow> bool" where
  "map_wf m \<longleftrightarrow> length (pm_regions m) = MAX_MEMORY_REGIONS \<and> pm_count m \<le> MAX_MEMORY_REGIONS"

definition region_bytes :: "PhysicalMemoryRegion \<Rightarrow> nat set" where
  "region_bytes r = {pr_start r..<region_end r}"

definition kind_bytes :: "PhysicalMemoryMap \<Rightarrow> PhysicalMemoryKind \<Rightarrow> nat set" where
  "kind_bytes m k = (\<Union>r \<in> set (filter (\<lambda>r. pr_kind r = k) (regions_of m)). region_bytes r)"

lemma regions_of_push:
  assumes "map_wf m"
  shows "regions_of (map_push m r)
       = (if pr_length r \<noteq> 0 \<and> pm_count m < MAX_MEMORY_REGIONS then regions_of m @ [r] else regions_of m)"
  using assms by (auto simp: regions_of_def map_push_def map_wf_def take_Suc_conv_app_nth)

lemma map_wf_empty: "map_wf map_empty"
  by (simp add: map_wf_def map_empty_def)

lemma map_push_wf: "map_wf m \<Longrightarrow> map_wf (map_push m r)"
  by (simp add: map_wf_def map_push_def)

lemma map_push_merged_wf: "map_wf m \<Longrightarrow> map_wf (map_push_merged m r)"
  by (simp add: map_push_wf map_push_merged_def Let_def) (simp add: map_wf_def)

text \<open>Merging extends the last region by exactly the bytes of the new one.\<close>

lemma merge_bytes:
  assumes "region_end p = pr_start r" "pr_length r \<noteq> 0" "pr_start r < 2 ^ 64" "pr_start p < 2 ^ 64"
  shows "region_bytes (p\<lparr>pr_length := saturating_add (pr_length p) (pr_length r)\<rparr>)
       = region_bytes p \<union> region_bytes r"
proof -
  have "region_end (p\<lparr>pr_length := saturating_add (pr_length p) (pr_length r)\<rparr>) = region_end r"
    using assms by (auto simp: region_end_def saturating_add_def)
  moreover have "pr_start p \<le> region_end p" "pr_start r \<le> region_end r"
    using assms by (auto simp: region_end_def saturating_add_def)
  ultimately show ?thesis using assms(1) by (auto simp: region_bytes_def)
qed

text \<open>
  \<open>push_merged\<close> records a region exactly: unless the table is full, the
  bytes recorded under the region's kind grow by the region's bytes and the
  bytes under every other kind stay the same, whether the region was merged with
  its predecessor or appended.
\<close>

theorem push_merged_bytes:
  assumes wf: "map_wf m" and room: "pm_count m < MAX_MEMORY_REGIONS" and len: "pr_length r \<noteq> 0"
    and addr: "pr_start r < 2 ^ 64" "\<forall>p \<in> set (regions_of m). pr_start p < 2 ^ 64"
  shows "kind_bytes (map_push_merged m r) k
       = kind_bytes m k \<union> (if k = pr_kind r then region_bytes r else {})"
proof (cases "pm_count m \<noteq> 0 \<and> pr_kind (pm_regions m ! (pm_count m - 1)) = pr_kind r
              \<and> region_end (pm_regions m ! (pm_count m - 1)) = pr_start r")
  case False
  then have "map_push_merged m r = map_push m r" using len by (auto simp: map_push_merged_def)
  then show ?thesis using regions_of_push [OF wf, of r] room len by (auto simp: kind_bytes_def)
next
  case True
  define n where "n = pm_count m - 1"
  define p where "p = pm_regions m ! n"
  define p' where "p' = p\<lparr>pr_length := saturating_add (pr_length p) (pr_length r)\<rparr>"
  have n: "pm_count m = Suc n" "n < length (pm_regions m)"
    using True wf room by (auto simp: n_def map_wf_def)
  have split: "regions_of m = take n (pm_regions m) @ [p]"
    using n by (simp add: regions_of_def p_def take_Suc_conv_app_nth)
  have "regions_of (map_push_merged m r) = take n (pm_regions m) @ [p']"
    using True len n by (auto simp: regions_of_def map_push_merged_def Let_def p_def p'_def
        take_Suc_conv_app_nth)
  moreover have "region_bytes p' = region_bytes p \<union> region_bytes r"
    unfolding p'_def using True addr len split by (intro merge_bytes) (auto simp: p_def n_def)
  moreover have "pr_kind p' = pr_kind r" "pr_kind p = pr_kind r" using True by (simp_all add: p'_def p_def n_def)
  ultimately show ?thesis by (auto simp: kind_bytes_def split)
qed

theorem push_merged_bytes_witness:
  "kind_bytes (map_push_merged (map_push map_empty \<lparr>pr_start = 0, pr_length = 4096, pr_kind = Usable\<rparr>)
      \<lparr>pr_start = 4096, pr_length = 4096, pr_kind = Usable\<rparr>) Usable
   = kind_bytes (map_push map_empty \<lparr>pr_start = 0, pr_length = 4096, pr_kind = Usable\<rparr>) Usable
     \<union> region_bytes \<lparr>pr_start = 4096, pr_length = 4096, pr_kind = Usable\<rparr>"
proof -
  let ?m = "map_push map_empty \<lparr>pr_start = 0, pr_length = 4096, pr_kind = Usable\<rparr>"
  have wf: "map_wf ?m" by (rule map_push_wf [OF map_wf_empty])
  have "regions_of ?m = [\<lparr>pr_start = 0, pr_length = 4096, pr_kind = Usable\<rparr>]"
    by (subst regions_of_push [OF map_wf_empty]) (simp add: map_empty_def regions_of_def MAX_MEMORY_REGIONS_def)
  moreover have "pm_count ?m < MAX_MEMORY_REGIONS"
    by (simp add: map_push_def map_empty_def MAX_MEMORY_REGIONS_def)
  ultimately show ?thesis
    by (subst push_merged_bytes [OF wf]) simp_all
qed

end
