(* ===== verification/MappingModel.thy ===== *)
theory MappingModel
  imports BootInfo
begin

text \<open>
  The mapping policy (\<open>kernel/src/mm/mapping_model.rs\<close>): how a physical range
  is cut into 1 GiB, 2 MiB and 4 KiB leaf pages. A \<open>MappingPlan\<close>, an array of
  \<open>MAX_CHUNKS\<close> with a count, is the list of its first \<open>count\<close> chunks. The
  closure argument of \<open>walk_range\<close> is a function on its captured state.
\<close>

section \<open>Constants and data\<close>

definition PAGE_SIZE :: u64 where "PAGE_SIZE = 4096"
definition TWO_MIB :: u64 where "TWO_MIB = 2 ^ 21"
definition GIGABYTE :: u64 where "GIGABYTE = 2 ^ 30"
definition FOUR_LEVEL_LIMIT :: u64 where "FOUR_LEVEL_LIMIT = 2 ^ 47"
definition KERNEL_VIRT_BASE :: u64 where "KERNEL_VIRT_BASE = 0xffff800000000000"
definition MAX_CHUNKS :: usize where "MAX_CHUNKS = 4096"

lemmas page_consts = PAGE_SIZE_def TWO_MIB_def GIGABYTE_def

datatype MappingError = EmptyRange | NonCanonicalRange | TooManyChunks

datatype PageSize = OneGiB | TwoMiB | FourKiB

record MappingChunk =
  mc_physical :: u64
  mc_virtual :: u64
  mc_size :: u64
  mc_page :: PageSize

type_synonym MappingPlan = "MappingChunk list"

section \<open>Operations\<close>

definition direct_virtual_address :: "u64 \<Rightarrow> u64 option" where
  "direct_virtual_address physical =
     (if physical < FOUR_LEVEL_LIMIT then Some (KERNEL_VIRT_BASE + physical) else None)"

definition identity_virtual_address :: "u64 \<Rightarrow> u64 option" where
  "identity_virtual_address physical = (if physical < FOUR_LEVEL_LIMIT then Some physical else None)"

definition leaf_page :: "u64 \<Rightarrow> u64 \<Rightarrow> PhysicalMemoryKind \<Rightarrow> bool \<Rightarrow> u64 \<times> PageSize" where
  "leaf_page physical remaining kind gigabyte_pages =
     (if kind \<noteq> Mmio \<and> gigabyte_pages \<and> is_multiple_of physical GIGABYTE \<and> remaining \<ge> GIGABYTE
      then (GIGABYTE, OneGiB)
      else if kind \<noteq> Mmio \<and> is_multiple_of physical TWO_MIB \<and> remaining \<ge> TWO_MIB
      then (TWO_MIB, TwoMiB)
      else (PAGE_SIZE, FourKiB))"

lemma leaf_page_pos: "0 < fst (leaf_page p r k g)"
  by (simp add: leaf_page_def page_consts)

definition virtual_start :: "bool \<Rightarrow> u64 \<Rightarrow> u64 option" where
  "virtual_start direct physical =
     (if direct then direct_virtual_address physical else identity_virtual_address physical)"

definition make_chunk :: "bool \<Rightarrow> PhysicalMemoryKind \<Rightarrow> bool \<Rightarrow> u64 \<Rightarrow> u64 \<Rightarrow> u64 \<Rightarrow> MappingChunk" where
  "make_chunk direct kind gigabyte_pages fin physical v =
     \<lparr>mc_physical = physical, mc_virtual = v,
      mc_size = fst (leaf_page physical (fin - physical) kind gigabyte_pages),
      mc_page = snd (leaf_page physical (fin - physical) kind gigabyte_pages)\<rparr>"

text \<open>The \<open>while\<close> loop of \<open>walk_range\<close>.\<close>

function walk_loop :: "bool \<Rightarrow> PhysicalMemoryKind \<Rightarrow> bool \<Rightarrow> (MappingChunk \<Rightarrow> 's \<Rightarrow> ('s, MappingError) result)
    \<Rightarrow> u64 \<Rightarrow> u64 \<Rightarrow> 's \<Rightarrow> ('s, MappingError) result" where
  "walk_loop direct kind gigabyte_pages visit fin physical s =
     (if physical < fin then
        (case virtual_start direct physical of
           None \<Rightarrow> Err NonCanonicalRange
         | Some v \<Rightarrow>
             (let chunk = make_chunk direct kind gigabyte_pages fin physical v in
              case visit chunk s of
                Err e \<Rightarrow> Err e
              | Ok s' \<Rightarrow> walk_loop direct kind gigabyte_pages visit fin (physical + mc_size chunk) s'))
      else Ok s)"
  by pat_completeness auto
termination
  by (relation "measure (\<lambda>(d, k, g, vis, fin, physical, s). fin - physical)")
    (auto simp: make_chunk_def leaf_page_pos intro!: diff_less_mono2)

declare walk_loop.simps [simp del]

definition walk_range :: "u64 \<Rightarrow> u64 \<Rightarrow> bool \<Rightarrow> PhysicalMemoryKind \<Rightarrow> bool
    \<Rightarrow> (MappingChunk \<Rightarrow> 's \<Rightarrow> ('s, MappingError) result) \<Rightarrow> 's \<Rightarrow> ('s, MappingError) result" where
  "walk_range start fin direct kind gigabyte_pages visit s =
     (if start \<ge> fin then Err EmptyRange
      else if fin > FOUR_LEVEL_LIMIT then Err NonCanonicalRange
      else walk_loop direct kind gigabyte_pages visit fin start s)"

definition push_chunk :: "MappingChunk \<Rightarrow> MappingPlan \<Rightarrow> (MappingPlan, MappingError) result" where
  "push_chunk chunk plan = (if length plan = MAX_CHUNKS then Err TooManyChunks else Ok (plan @ [chunk]))"

definition plan_range :: "u64 \<Rightarrow> u64 \<Rightarrow> bool \<Rightarrow> PhysicalMemoryKind \<Rightarrow> bool \<Rightarrow> (MappingPlan, MappingError) result" where
  "plan_range start fin direct kind gigabyte_pages =
     walk_range start fin direct kind gigabyte_pages push_chunk []"

definition mapped_kind :: "PhysicalMemoryKind \<Rightarrow> bool" where
  "mapped_kind k \<longleftrightarrow> k = Usable \<or> k = AcpiReclaimable \<or> k = AcpiNvs \<or> k = Runtime \<or> k = Mmio"

fun walk_regions :: "bool \<Rightarrow> bool \<Rightarrow> (MappingChunk \<Rightarrow> 's \<Rightarrow> ('s, MappingError) result)
    \<Rightarrow> PhysicalMemoryRegion list \<Rightarrow> 's \<Rightarrow> ('s, MappingError) result" where
  "walk_regions direct gigabyte_pages visit [] s = Ok s"
| "walk_regions direct gigabyte_pages visit (r # rs) s =
     bind_result (walk_range (pr_start r) (region_end r) direct (pr_kind r) gigabyte_pages visit s)
       (walk_regions direct gigabyte_pages visit rs)"

definition count_chunk :: "MappingChunk \<Rightarrow> usize \<Rightarrow> (usize, MappingError) result" where
  "count_chunk chunk count = (if count + 1 > MAX_CHUNKS then Err TooManyChunks else Ok (count + 1))"

definition check_memory_map :: "PhysicalMemoryMap \<Rightarrow> bool \<Rightarrow> bool \<Rightarrow> (unit, MappingError) result" where
  "check_memory_map m direct gigabyte_pages =
     bind_result (walk_regions direct gigabyte_pages count_chunk
         (filter (\<lambda>r. mapped_kind (pr_kind r)) (regions_of m)) 0) (\<lambda>_. Ok ())"

definition plan_memory_map :: "PhysicalMemoryMap \<Rightarrow> bool \<Rightarrow> bool \<Rightarrow> (MappingPlan, MappingError) result" where
  "plan_memory_map m direct gigabyte_pages =
     walk_regions direct gigabyte_pages push_chunk
       (filter (\<lambda>r. mapped_kind (pr_kind r)) (regions_of m)) []"

definition usable_region_contains :: "PhysicalMemoryMap \<Rightarrow> u64 \<Rightarrow> bool" where
  "usable_region_contains m frame =
     list_ex (\<lambda>r. frame \<ge> pr_start r \<and> saturating_add frame PAGE_SIZE \<le> region_end r) (map_usable m)"

section \<open>Specification: chunks that tile a range\<close>

fun page_bytes :: "PageSize \<Rightarrow> u64" where
  "page_bytes OneGiB = GIGABYTE"
| "page_bytes TwoMiB = TWO_MIB"
| "page_bytes FourKiB = PAGE_SIZE"

text \<open>A chunk the page tables can hold.\<close>

definition chunk_ok :: "bool \<Rightarrow> PhysicalMemoryKind \<Rightarrow> bool \<Rightarrow> MappingChunk \<Rightarrow> bool" where
  "chunk_ok direct kind giga c \<longleftrightarrow>
     mc_size c = page_bytes (mc_page c)
     \<and> mc_virtual c = (if direct then KERNEL_VIRT_BASE + mc_physical c else mc_physical c)
     \<and> (mc_page c \<noteq> FourKiB \<longrightarrow> page_bytes (mc_page c) dvd mc_physical c \<and> kind \<noteq> Mmio)
     \<and> (mc_page c = OneGiB \<longrightarrow> giga)"

fun tiles :: "u64 \<Rightarrow> u64 \<Rightarrow> MappingChunk list \<Rightarrow> bool" where
  "tiles start fin [] \<longleftrightarrow> start = fin"
| "tiles start fin (c # cs) \<longleftrightarrow> mc_physical c = start \<and> 0 < mc_size c \<and> tiles (start + mc_size c) fin cs"

lemma tiles_snoc: "tiles a b cs \<Longrightarrow> mc_physical c = b \<Longrightarrow> 0 < mc_size c \<Longrightarrow> tiles a (b + mc_size c) (cs @ [c])"
  by (induction cs arbitrary: a) auto

text \<open>The reference: the chunks of a range with no limit on their number.\<close>

function chunks_of :: "bool \<Rightarrow> PhysicalMemoryKind \<Rightarrow> bool \<Rightarrow> u64 \<Rightarrow> u64 \<Rightarrow> MappingChunk list" where
  "chunks_of direct kind giga fin physical =
     (if physical < fin then
        let c = make_chunk direct kind giga fin physical
                  (if direct then KERNEL_VIRT_BASE + physical else physical)
        in c # chunks_of direct kind giga fin (physical + mc_size c)
      else [])"
  by pat_completeness auto
termination
  by (relation "measure (\<lambda>(d, k, g, fin, physical). fin - physical)")
    (auto simp: make_chunk_def leaf_page_pos intro!: diff_less_mono2)

declare chunks_of.simps [simp del]

lemma leaf_page_cases:
  "leaf_page p r k g = (GIGABYTE, OneGiB) \<and> k \<noteq> Mmio \<and> g \<and> GIGABYTE dvd p \<and> GIGABYTE \<le> r
   \<or> leaf_page p r k g = (TWO_MIB, TwoMiB) \<and> k \<noteq> Mmio \<and> TWO_MIB dvd p \<and> TWO_MIB \<le> r
   \<or> leaf_page p r k g = (PAGE_SIZE, FourKiB)"
  by (auto simp: leaf_page_def is_multiple_of_dvd)

lemma make_chunk_ok:
  "chunk_ok d k g (make_chunk d k g fin p (if d then KERNEL_VIRT_BASE + p else p))"
  using leaf_page_cases [of p "fin - p" k g] by (auto simp: chunk_ok_def make_chunk_def)

lemma make_chunk_size:
  assumes "p < fin"
  shows "p + mc_size (make_chunk d k g fin p v) < fin + PAGE_SIZE"
    and "PAGE_SIZE dvd fin - p \<Longrightarrow> p + mc_size (make_chunk d k g fin p v) \<le> fin"
    and "PAGE_SIZE dvd mc_size (make_chunk d k g fin p v)"
proof -
  have "PAGE_SIZE dvd GIGABYTE" "PAGE_SIZE dvd TWO_MIB" by (auto simp: page_consts dvd_def)
  then show "PAGE_SIZE dvd mc_size (make_chunk d k g fin p v)"
    using leaf_page_cases [of p "fin - p" k g] by (auto simp: make_chunk_def)
  show "p + mc_size (make_chunk d k g fin p v) < fin + PAGE_SIZE"
    using assms leaf_page_cases [of p "fin - p" k g] by (auto simp: make_chunk_def PAGE_SIZE_def)
  assume "PAGE_SIZE dvd fin - p"
  then have "PAGE_SIZE \<le> fin - p" using assms by (intro dvd_imp_le) auto
  then show "p + mc_size (make_chunk d k g fin p v) \<le> fin"
    using assms leaf_page_cases [of p "fin - p" k g] by (auto simp: make_chunk_def)
qed

lemma chunks_of_spec:
  assumes "p \<le> fin"
  shows "(\<forall>c \<in> set (chunks_of d k g fin p). chunk_ok d k g c)
    \<and> (\<exists>e. tiles p e (chunks_of d k g fin p) \<and> fin \<le> e \<and> e < fin + PAGE_SIZE
         \<and> (PAGE_SIZE dvd fin - p \<longrightarrow> e = fin))"
  using assms
proof (induction d k g fin p rule: chunks_of.induct)
  case (1 d k g fin p)
  show ?case
  proof (cases "p < fin")
    case False
    then show ?thesis using 1(2) by (subst (1 2) chunks_of.simps) (auto simp: PAGE_SIZE_def)
  next
    case True
    define c where "c = make_chunk d k g fin p (if d then KERNEL_VIRT_BASE + p else p)"
    have eq: "chunks_of d k g fin p = c # chunks_of d k g fin (p + mc_size c)"
      using True by (subst chunks_of.simps) (simp add: c_def Let_def)
    have pos: "0 < mc_size c" "mc_physical c = p" by (simp_all add: c_def make_chunk_def leaf_page_pos)
    note sz = make_chunk_size [OF True, of d k g "if d then KERNEL_VIRT_BASE + p else p", folded c_def]
    have ok: "chunk_ok d k g c" unfolding c_def by (rule make_chunk_ok)
    show ?thesis
    proof (cases "p + mc_size c \<le> fin")
      case le: True
      have "PAGE_SIZE dvd fin - (p + mc_size c)" if "PAGE_SIZE dvd fin - p"
        using that sz(3) le by (metis dvd_diff_nat diff_diff_left)
      then show ?thesis
        using 1(1) [OF True c_def le] ok pos unfolding eq by auto
    next
      case False
      then have "chunks_of d k g fin (p + mc_size c) = []" by (subst chunks_of.simps) simp
      then show ?thesis using eq ok pos sz False by auto
    qed
  qed
qed

section \<open>The planner against its specification\<close>

lemma virtual_start_below:
  "physical < FOUR_LEVEL_LIMIT \<Longrightarrow>
     virtual_start d physical = Some (if d then KERNEL_VIRT_BASE + physical else physical)"
  by (simp add: virtual_start_def direct_virtual_address_def identity_virtual_address_def)

lemma walk_loop_push:
  assumes "fin \<le> FOUR_LEVEL_LIMIT" "length plan \<le> MAX_CHUNKS"
  shows "walk_loop d k g push_chunk fin p plan =
     (if length plan + length (chunks_of d k g fin p) \<le> MAX_CHUNKS
      then Ok (plan @ chunks_of d k g fin p) else Err TooManyChunks)"
  using assms
proof (induction d k g fin p arbitrary: plan rule: chunks_of.induct)
  case (1 d k g fin p)
  show ?case
  proof (cases "p < fin")
    case False
    then show ?thesis using 1(3) by (subst walk_loop.simps, subst (1 2) chunks_of.simps) simp
  next
    case True
    define v where "v = (if d then KERNEL_VIRT_BASE + p else p)"
    define c where "c = make_chunk d k g fin p v"
    have vs: "virtual_start d p = Some v"
      using True 1(2) virtual_start_below [of p d] by (simp add: v_def)
    have eq: "chunks_of d k g fin p = c # chunks_of d k g fin (p + mc_size c)"
      using True by (subst chunks_of.simps) (simp add: c_def v_def Let_def)
    have w: "walk_loop d k g push_chunk fin p plan =
        (case push_chunk c plan of Err e \<Rightarrow> Err e
         | Ok s' \<Rightarrow> walk_loop d k g push_chunk fin (p + mc_size c) s')"
      using True vs by (subst walk_loop.simps) (simp add: c_def [symmetric] Let_def)
    show ?thesis
    proof (cases "length plan = MAX_CHUNKS")
      case full: True
      then have "push_chunk c plan = Err TooManyChunks" by (simp add: push_chunk_def)
      with full show ?thesis using w eq by simp
    next
      case False
      then have pc: "push_chunk c plan = Ok (plan @ [c])" by (simp add: push_chunk_def)
      from False have "length (plan @ [c]) \<le> MAX_CHUNKS" using 1(3) by simp
      from 1(1) [OF True c_def [unfolded v_def] 1(2) this]
      show ?thesis using w eq pc by simp
    qed
  qed
qed

text \<open>Counting the chunks and storing them are the same walk up to the length of the plan.\<close>

lemma count_push: "count_chunk c (length plan) = map_result length id (push_chunk c plan)"
  if "length plan \<le> MAX_CHUNKS"
  using that by (auto simp: count_chunk_def push_chunk_def)

lemma push_chunk_bound: "push_chunk c plan = Ok plan' \<Longrightarrow> length plan \<le> MAX_CHUNKS \<Longrightarrow> length plan' \<le> MAX_CHUNKS"
  by (auto simp: push_chunk_def split: if_splits)

lemma walk_loop_sim:
  assumes sim: "\<forall>c s. I s \<longrightarrow> vc c (f s) = map_result f id (va c s)"
    and keep: "\<forall>c s s'. I s \<longrightarrow> va c s = Ok s' \<longrightarrow> I s'" and "I s"
  shows "walk_loop d k g vc fin p (f s) = map_result f id (walk_loop d k g va fin p s)
    \<and> (\<forall>s'. walk_loop d k g va fin p s = Ok s' \<longrightarrow> I s')"
  using assms(3)
proof (induction "fin - p" arbitrary: p s rule: less_induct)
  case less
  note un = walk_loop.simps [of d k g vc fin p "f s"] walk_loop.simps [of d k g va fin p s]
  show ?case
  proof (cases "p < fin")
    case False
    then show ?thesis using less(2) by (simp add: un)
  next
    case True
    show ?thesis
    proof (cases "virtual_start d p")
      case None
      then show ?thesis using True by (simp add: un)
    next
      case (Some v)
      define c where "c = make_chunk d k g fin p v"
      have "0 < mc_size c" by (simp add: c_def make_chunk_def leaf_page_pos)
      then have dec: "fin - (p + mc_size c) < fin - p" using True by simp
      show ?thesis
      proof (cases "va c s")
        case (Ok s')
        then have "I s'" using keep less(2) by blast
        from less(1) [OF dec this] show ?thesis
          using True Some Ok sim less(2) by (simp add: un Let_def c_def [symmetric])
      next
        case (Err e)
        then show ?thesis using True Some sim less(2) by (simp add: un Let_def c_def [symmetric])
      qed
    qed
  qed
qed

lemma walk_regions_sim:
  assumes sim: "\<forall>c s. I s \<longrightarrow> vc c (f s) = map_result f id (va c s)"
    and keep: "\<forall>c s s'. I s \<longrightarrow> va c s = Ok s' \<longrightarrow> I s'" and "I s"
  shows "walk_regions d g vc rs (f s) = map_result f id (walk_regions d g va rs s)"
  using assms(3)
proof (induction rs arbitrary: s)
  case (Cons r rs)
  note loop = walk_loop_sim [OF sim keep Cons(2), of d "pr_kind r" g "region_end r" "pr_start r"]
  have "walk_range (pr_start r) (region_end r) d (pr_kind r) g vc (f s)
      = map_result f id (walk_range (pr_start r) (region_end r) d (pr_kind r) g va s)"
    using loop by (simp add: walk_range_def)
  moreover have "I s'" if "walk_range (pr_start r) (region_end r) d (pr_kind r) g va s = Ok s'" for s'
    using that loop by (simp add: walk_range_def split: if_splits)
  ultimately show ?case using Cons(1)
    by (cases "walk_range (pr_start r) (region_end r) d (pr_kind r) g va s") auto
qed simp

lemma plan_range_cases:
  assumes "start < fin" "fin \<le> FOUR_LEVEL_LIMIT"
  shows "plan_range start fin d k g =
     (if length (chunks_of d k g fin start) \<le> MAX_CHUNKS
      then Ok (chunks_of d k g fin start) else Err TooManyChunks)"
  using assms walk_loop_push [of fin "[]"] by (simp add: plan_range_def walk_range_def)

section \<open>Properties\<close>

text \<open>No larger page would have fitted: the choice \<open>leaf_page\<close> makes.\<close>

definition chunk_largest :: "PhysicalMemoryKind \<Rightarrow> bool \<Rightarrow> u64 \<Rightarrow> MappingChunk \<Rightarrow> bool" where
  "chunk_largest kind giga fin c \<longleftrightarrow>
     (mc_page c \<noteq> OneGiB \<and> giga \<and> kind \<noteq> Mmio \<and> GIGABYTE dvd mc_physical c \<longrightarrow> fin < mc_physical c + GIGABYTE)
     \<and> (mc_page c = FourKiB \<and> kind \<noteq> Mmio \<and> TWO_MIB dvd mc_physical c \<longrightarrow> fin < mc_physical c + TWO_MIB)"

lemma chunks_of_largest: "c \<in> set (chunks_of d k g fin p) \<Longrightarrow> chunk_largest k g fin c"
proof (induction d k g fin p rule: chunks_of.induct)
  case (1 d k g fin p)
  have "chunk_largest k g fin (make_chunk d k g fin p v)" if "p < fin" for v
    using that by (auto simp: chunk_largest_def make_chunk_def leaf_page_def is_multiple_of_dvd split: if_splits)
  then show ?case using 1 by (subst (asm) chunks_of.simps) (auto simp: Let_def split: if_splits)
qed

lemma tiles_count: "tiles a e cs \<Longrightarrow> \<forall>c \<in> set cs. chunk_ok d k g c \<Longrightarrow> a + length cs * PAGE_SIZE \<le> e"
proof (induction cs arbitrary: a)
  case (Cons c cs)
  have "PAGE_SIZE \<le> mc_size c" using Cons.prems(2) by (cases "mc_page c") (auto simp: chunk_ok_def page_consts)
  then show ?case using Cons.IH [of "a + mc_size c"] Cons.prems by simp
qed simp

text \<open>
  \<open>plan_range\<close> on every input. The chunks of a plan tile the range from its
  first byte in ascending order with no gap and no overlap, past its end by
  less than one page and exactly up to its end when the range is a whole number
  of pages; every chunk is a page the tables can hold (its size is its page
  size, a large page starts on its own alignment, device memory has only 4 KiB
  pages, 1 GiB pages only where the CPU has them) at the virtual address of the
  chosen window, and the largest such page that fits. An empty range and a range
  past the canonical limit are refused as such, and no plan is found too long
  for its table unless the range is longer than that many 4 KiB pages.
\<close>

theorem plan_range_tiles:
  "case plan_range start fin direct kind giga of
     Ok plan \<Rightarrow> start < fin \<and> fin \<le> FOUR_LEVEL_LIMIT \<and> length plan \<le> MAX_CHUNKS
       \<and> (\<exists>e. tiles start e plan \<and> fin \<le> e \<and> e < fin + PAGE_SIZE \<and> (PAGE_SIZE dvd fin - start \<longrightarrow> e = fin))
       \<and> (\<forall>c \<in> set plan. chunk_ok direct kind giga c \<and> chunk_largest kind giga fin c)
   | Err EmptyRange \<Rightarrow> fin \<le> start
   | Err NonCanonicalRange \<Rightarrow> start < fin \<and> FOUR_LEVEL_LIMIT < fin
   | Err TooManyChunks \<Rightarrow> start < fin \<and> fin \<le> FOUR_LEVEL_LIMIT \<and> MAX_CHUNKS * PAGE_SIZE < fin - start"
proof (cases "start < fin \<and> fin \<le> FOUR_LEVEL_LIMIT")
  case True
  let ?cs = "chunks_of direct kind giga fin start"
  have sp: "\<forall>c \<in> set ?cs. chunk_ok direct kind giga c" using chunks_of_spec [of start fin direct kind giga] True by simp
  obtain e where e: "tiles start e ?cs" "fin \<le> e" "e < fin + PAGE_SIZE" "PAGE_SIZE dvd fin - start \<longrightarrow> e = fin"
    using chunks_of_spec [of start fin direct kind giga] True by auto
  have "MAX_CHUNKS * PAGE_SIZE < fin - start" if "MAX_CHUNKS < length ?cs"
  proof -
    have "(MAX_CHUNKS + 1) * PAGE_SIZE \<le> length ?cs * PAGE_SIZE" using that by (intro mult_le_mono1) simp
    then show ?thesis using tiles_count [OF e(1) sp] e(3) by (simp add: algebra_simps)
  qed
  then show ?thesis using plan_range_cases [of start fin direct kind giga] True e sp chunks_of_largest by auto
next
  case False
  then show ?thesis by (auto simp: plan_range_def walk_range_def)
qed

lemma plan_range_example:
  "plan_range 0x1ff000 0x401000 True Usable True = Ok
     [\<lparr>mc_physical = 0x1ff000, mc_virtual = KERNEL_VIRT_BASE + 0x1ff000, mc_size = PAGE_SIZE, mc_page = FourKiB\<rparr>,
      \<lparr>mc_physical = 0x200000, mc_virtual = KERNEL_VIRT_BASE + 0x200000, mc_size = TWO_MIB, mc_page = TwoMiB\<rparr>,
      \<lparr>mc_physical = 0x400000, mc_virtual = KERNEL_VIRT_BASE + 0x400000, mc_size = PAGE_SIZE, mc_page = FourKiB\<rparr>]"
  by (simp add: plan_range_def walk_range_def walk_loop.simps virtual_start_def direct_virtual_address_def
      FOUR_LEVEL_LIMIT_def make_chunk_def leaf_page_def page_consts is_multiple_of_def push_chunk_def MAX_CHUNKS_def Let_def)

theorem plan_range_tiles_witness:
  "\<exists>plan. plan_range 0x1ff000 0x401000 True Usable True = Ok plan
     \<and> tiles 0x1ff000 0x401000 plan \<and> (\<forall>c \<in> set plan. chunk_largest Usable True 0x401000 c)"
proof -
  have "PAGE_SIZE dvd 0x401000 - 0x1ff000" by (simp add: PAGE_SIZE_def)
  then show ?thesis
    using plan_range_tiles [of "0x1ff000" "0x401000" True Usable True] unfolding plan_range_example result.case by blast
qed

text \<open>
  The policy check that keeps no table gives the planner's verdict: it
  accepts exactly the maps for which \<open>plan_memory_map\<close> builds a plan, and
  refuses every other map with the planner's error.
\<close>

theorem check_memory_map_equiv:
  "check_memory_map m direct giga = map_result (\<lambda>_. ()) id (plan_memory_map m direct giga)"
proof -
  have "walk_regions direct giga count_chunk rs (length ([] :: MappingPlan))
      = map_result length id (walk_regions direct giga push_chunk rs [])" for rs
    by (rule walk_regions_sim [where I = "\<lambda>plan. length plan \<le> MAX_CHUNKS"])
      (auto simp: count_push dest: push_chunk_bound)
  then show ?thesis
    by (cases "plan_memory_map m direct giga") (simp_all add: check_memory_map_def plan_memory_map_def)
qed

end
