(* ===== verification/Errno.thy ===== *)
theory Errno
  imports Prelude
begin

text \<open>
  Error numbers (\<open>kernel/src/fs/errno.rs\<close>), with Linux's values. The names
  \<open>Errno::name\<close> gives are the constructors and are not a separate function.
\<close>

datatype Errno =
    EPERM | ENOENT | EIO | E2BIG | ENOEXEC | EBADF | ECHILD | ENOMEM | EACCES | EFAULT | EBUSY
  | EEXIST | EXDEV | ENODEV | ENOTDIR | EISDIR | EINVAL | EMFILE | ENOTTY | ENOSPC | ESPIPE
  | EROFS | ERANGE | ENAMETOOLONG | ENOSYS | ENOTEMPTY

fun errno_code :: "Errno \<Rightarrow> int" where
  "errno_code EPERM = 1"
| "errno_code ENOENT = 2"
| "errno_code EIO = 5"
| "errno_code E2BIG = 7"
| "errno_code ENOEXEC = 8"
| "errno_code EBADF = 9"
| "errno_code ECHILD = 10"
| "errno_code ENOMEM = 12"
| "errno_code EACCES = 13"
| "errno_code EFAULT = 14"
| "errno_code EBUSY = 16"
| "errno_code EEXIST = 17"
| "errno_code EXDEV = 18"
| "errno_code ENODEV = 19"
| "errno_code ENOTDIR = 20"
| "errno_code EISDIR = 21"
| "errno_code EINVAL = 22"
| "errno_code EMFILE = 24"
| "errno_code ENOTTY = 25"
| "errno_code ENOSPC = 28"
| "errno_code ESPIPE = 29"
| "errno_code EROFS = 30"
| "errno_code ERANGE = 34"
| "errno_code ENAMETOOLONG = 36"
| "errno_code ENOSYS = 38"
| "errno_code ENOTEMPTY = 39"

text \<open>Every code is in the range Linux reserves for errors, so \<open>-(code)\<close> is never a valid result.\<close>

lemma errno_code_range: "0 < errno_code e" "errno_code e < 4096"
  by (cases e; simp)+

type_synonym 'a fs_result = "('a, Errno) result"

end
