(* ===== verification/Vma.thy ===== *)
theory Vma
  imports Errno MappingModel
begin

text \<open>
  A process's memory map (\<open>kernel/src/mm/vma.rs\<close>): the user address ranges
  and their protection, the bookkeeping of \<open>brk\<close>, \<open>mmap\<close>, \<open>munmap\<close> and
  \<open>mprotect\<close>. An operation on \<open>&mut self\<close> returns the map it leaves behind
  beside its result, on its error paths too. \<open>PAGE_SIZE\<close> is the constant of
  the same value in \<open>mapping_model.rs\<close>.
\<close>

section \<open>Data\<close>

definition MIN_ADDRESS :: u64 where "MIN_ADDRESS = 0x10000"

record Protection =
  p_read :: bool
  p_write :: bool
  p_execute :: bool

definition prot_NONE :: Protection where
  "prot_NONE = \<lparr>p_read = False, p_write = False, p_execute = False\<rparr>"

definition prot_READ :: Protection where
  "prot_READ = \<lparr>p_read = True, p_write = False, p_execute = False\<rparr>"

definition prot_READ_WRITE :: Protection where
  "prot_READ_WRITE = \<lparr>p_read = True, p_write = True, p_execute = False\<rparr>"

definition prot_READ_EXECUTE :: Protection where
  "prot_READ_EXECUTE = \<lparr>p_read = True, p_write = False, p_execute = True\<rparr>"

definition from_linux :: "64 word \<Rightarrow> Protection fs_result" where
  "from_linux bits =
     (if bits AND NOT (1 OR 2 OR 4) \<noteq> 0 then Err EINVAL
      else
        let protection = \<lparr>p_read = (bits \<noteq> 0), p_write = (bits AND 2 \<noteq> 0), p_execute = (bits AND 4 \<noteq> 0)\<rparr> in
        if p_write protection \<and> p_execute protection then Err EACCES else Ok protection)"

datatype RegionKind = Image | Heap | Stack | Anonymous | Device u64

record Region =
  rg_start :: u64
  rg_end :: u64
  rg_protection :: Protection
  rg_kind :: RegionKind

text \<open>
  The kind of the piece of a region that starts at an address: a device region's
  physical address moves along. Physical addresses have at most 52 bits, so the
  sum is not wrapped.
\<close>

definition piece_kind :: "Region \<Rightarrow> u64 \<Rightarrow> RegionKind" where
  "piece_kind r start = (case rg_kind r of Device physical \<Rightarrow> Device (physical + (start - rg_start r)) | k \<Rightarrow> k)"

definition piece :: "Region \<Rightarrow> u64 \<Rightarrow> u64 \<Rightarrow> Region" where
  "piece r start fin =
     \<lparr>rg_start = start, rg_end = fin, rg_protection = rg_protection r, rg_kind = piece_kind r start\<rparr>"

definition device_address :: "Region \<Rightarrow> u64 \<Rightarrow> u64 option" where
  "device_address r address =
     (case rg_kind r of Device physical \<Rightarrow> Some (physical + (address - rg_start r)) | _ \<Rightarrow> None)"

record Span =
  sp_start :: u64
  sp_end :: u64
  sp_protection :: Protection

datatype BrkChange = Unchanged | BrkMap Span | BrkUnmap Span

record MmapChange =
  ch_address :: u64
  ch_replaced :: "Span list"
  ch_new :: Span

record MemoryMap =
  mm_regions :: "Region list"
  mm_brk_start :: u64
  mm_brk :: u64
  mm_mmap_top :: u64

definition page_up :: "u64 \<Rightarrow> u64 option" where
  "page_up address = checked_next_multiple_of address PAGE_SIZE"

definition aligned :: "u64 \<Rightarrow> bool" where
  "aligned address = is_multiple_of address PAGE_SIZE"

section \<open>Operations\<close>

definition covers :: "Region \<Rightarrow> u64 \<Rightarrow> bool" where
  "covers r address \<longleftrightarrow> rg_start r \<le> address \<and> address < rg_end r"

definition region_at :: "Region list \<Rightarrow> u64 \<Rightarrow> Region option" where
  "region_at rs address = List.find (\<lambda>r. covers r address) rs"

definition overlaps :: "Region list \<Rightarrow> u64 \<Rightarrow> u64 \<Rightarrow> bool" where
  "overlaps rs start fin = list_ex (\<lambda>r. start < rg_end r \<and> rg_start r < fin) rs"

text \<open>\<open>partition_point\<close> of the sorted regions is the length of the prefix that starts below.\<close>

definition insert_sorted :: "Region list \<Rightarrow> Region \<Rightarrow> Region list" where
  "insert_sorted rs r =
     (let index = length (takeWhile (\<lambda>other. rg_start other < rg_start r) rs)
      in take index rs @ r # drop index rs)"

definition vma_insert :: "Region list \<Rightarrow> Region \<Rightarrow> Region list \<times> unit fs_result" where
  "vma_insert rs r =
     (if rg_start r \<ge> rg_end r \<or> \<not> aligned (rg_start r) \<or> \<not> aligned (rg_end r) then (rs, Err EINVAL)
      else if overlaps rs (rg_start r) (rg_end r) then (rs, Err ENOMEM)
      else (insert_sorted rs r, Ok ()))"

fun insert_all :: "Region list \<Rightarrow> Region list \<Rightarrow> Region list fs_result" where
  "insert_all rs [] = Ok rs"
| "insert_all rs (r # todo) =
     (case vma_insert rs r of (rs', Ok _) \<Rightarrow> insert_all rs' todo | (_, Err e) \<Rightarrow> Err e)"

definition vma_new :: "Region list \<Rightarrow> u64 \<Rightarrow> u64 \<Rightarrow> MemoryMap fs_result" where
  "vma_new regions brk_start mmap_top =
     bind_result (insert_all [] regions) (\<lambda>rs.
       Ok \<lparr>mm_regions = rs, mm_brk_start = brk_start, mm_brk = brk_start, mm_mmap_top = mmap_top\<rparr>)"

fun vma_remove :: "u64 \<Rightarrow> u64 \<Rightarrow> Region list \<Rightarrow> Region list \<times> Span list" where
  "vma_remove start fin [] = ([], [])"
| "vma_remove start fin (r # rs) =
     (let (kept, removed) = vma_remove start fin rs in
      if rg_end r \<le> start \<or> fin \<le> rg_start r then (r # kept, removed)
      else
        ((if rg_start r < start then [piece r (rg_start r) start] else [])
           @ (if fin < rg_end r then [piece r fin (rg_end r)] else []) @ kept,
         \<lparr>sp_start = max (rg_start r) start, sp_end = min (rg_end r) fin, sp_protection = rg_protection r\<rparr>
           # removed))"

text \<open>The loop of \<open>find_free\<close> over the regions from the highest.\<close>

fun find_free_loop :: "u64 \<Rightarrow> u64 \<Rightarrow> u64 \<Rightarrow> Region list \<Rightarrow> u64 option" where
  "find_free_loop lo bytes hi [] =
     (case checked_sub hi bytes of Some start \<Rightarrow> if start \<ge> lo then Some start else None | None \<Rightarrow> None)"
| "find_free_loop lo bytes hi (r # rs) =
     (if rg_start r \<ge> hi then find_free_loop lo bytes hi rs
      else if rg_end r \<le> hi \<and> hi - rg_end r \<ge> bytes
      then (if hi - bytes \<ge> lo then Some (hi - bytes) else None)
      else find_free_loop lo bytes (min hi (rg_start r)) rs)"

definition find_free :: "MemoryMap \<Rightarrow> u64 \<Rightarrow> u64 option" where
  "find_free m bytes =
     (case page_up (mm_brk m) of None \<Rightarrow> None
      | Some up \<Rightarrow> find_free_loop (max up MIN_ADDRESS) bytes (mm_mmap_top m) (rev (mm_regions m)))"

definition usable :: "MemoryMap \<Rightarrow> u64 \<Rightarrow> u64 \<Rightarrow> bool" where
  "usable m bytes start \<longleftrightarrow>
     start \<ge> MIN_ADDRESS \<and> aligned start
     \<and> (case checked_add start bytes of Some fin \<Rightarrow> fin \<le> mm_mmap_top m | None \<Rightarrow> False)"

text \<open>The tail of \<open>place\<close>: record the region at the chosen address.\<close>

definition place_at :: "MemoryMap \<Rightarrow> u64 \<Rightarrow> Span list \<Rightarrow> u64 \<Rightarrow> Protection \<Rightarrow> RegionKind
    \<Rightarrow> MemoryMap \<times> MmapChange fs_result" where
  "place_at m address replaced bytes protection kind =
     (let new = \<lparr>sp_start = address, sp_end = address + bytes, sp_protection = protection\<rparr> in
      case vma_insert (mm_regions m)
             \<lparr>rg_start = address, rg_end = address + bytes, rg_protection = protection, rg_kind = kind\<rparr> of
        (rs, Ok _) \<Rightarrow> (m\<lparr>mm_regions := rs\<rparr>, Ok \<lparr>ch_address = address, ch_replaced = replaced, ch_new = new\<rparr>)
      | (rs, Err e) \<Rightarrow> (m\<lparr>mm_regions := rs\<rparr>, Err e))"

definition place :: "MemoryMap \<Rightarrow> u64 \<Rightarrow> u64 \<Rightarrow> Protection \<Rightarrow> bool \<Rightarrow> RegionKind
    \<Rightarrow> MemoryMap \<times> MmapChange fs_result" where
  "place m hint len protection fixed kind =
     (if len = 0 then (m, Err EINVAL)
      else case page_up len of None \<Rightarrow> (m, Err ENOMEM)
      | Some bytes \<Rightarrow>
        if fixed \<and> \<not> aligned hint then (m, Err EINVAL)
        else if fixed then
          (if \<not> usable m bytes hint then (m, Err ENOMEM)
           else
             let (kept, replaced) = vma_remove hint (hint + bytes) (mm_regions m)
             in place_at (m\<lparr>mm_regions := kept\<rparr>) hint replaced bytes protection kind)
        else if hint \<noteq> 0 \<and> usable m bytes hint \<and> \<not> overlaps (mm_regions m) hint (hint + bytes)
        then place_at m hint [] bytes protection kind
        else (case find_free m bytes of
                None \<Rightarrow> (m, Err ENOMEM)
              | Some address \<Rightarrow> place_at m address [] bytes protection kind))"

definition vma_mmap :: "MemoryMap \<Rightarrow> u64 \<Rightarrow> u64 \<Rightarrow> Protection \<Rightarrow> bool \<Rightarrow> MemoryMap \<times> MmapChange fs_result" where
  "vma_mmap m hint len protection fixed = place m hint len protection fixed Anonymous"

definition vma_mmap_device :: "MemoryMap \<Rightarrow> u64 \<Rightarrow> u64 \<Rightarrow> Protection \<Rightarrow> u64 \<Rightarrow> bool
    \<Rightarrow> MemoryMap \<times> MmapChange fs_result" where
  "vma_mmap_device m hint len protection physical fixed =
     (if \<not> aligned physical \<or> p_execute protection then (m, Err EINVAL)
      else place m hint len protection fixed (Device physical))"

definition vma_munmap :: "MemoryMap \<Rightarrow> u64 \<Rightarrow> u64 \<Rightarrow> MemoryMap \<times> Span list fs_result" where
  "vma_munmap m start len =
     (if \<not> aligned start \<or> len = 0 then (m, Err EINVAL)
      else case page_up len of None \<Rightarrow> (m, Err EINVAL)
      | Some bytes \<Rightarrow>
        (case checked_add start bytes of None \<Rightarrow> (m, Err EINVAL)
         | Some fin \<Rightarrow>
             let (kept, removed) = vma_remove start fin (mm_regions m)
             in (m\<lparr>mm_regions := kept\<rparr>, Ok removed)))"

text \<open>The coverage scan of \<open>mprotect\<close>: the cursor it ends with, or \<open>None\<close> at a gap.\<close>

fun cover_scan :: "u64 \<Rightarrow> u64 \<Rightarrow> Region list \<Rightarrow> u64 option" where
  "cover_scan cursor fin [] = Some cursor"
| "cover_scan cursor fin (r # rs) =
     (if rg_end r \<le> cursor \<or> rg_start r \<ge> fin then cover_scan cursor fin rs
      else if rg_start r > cursor then None
      else if rg_end r \<ge> fin then Some (rg_end r)
      else cover_scan (rg_end r) fin rs)"

text \<open>The loop of \<open>mprotect\<close> that puts the changed pieces back.\<close>

fun reinsert :: "u64 \<Rightarrow> u64 \<Rightarrow> Protection \<Rightarrow> Region list \<Rightarrow> Region list \<Rightarrow> Region list \<times> Span list fs_result" where
  "reinsert start fin protection rs [] = (rs, Ok [])"
| "reinsert start fin protection rs (r # todo) =
     (let p = (piece r (max (rg_start r) start) (min (rg_end r) fin))\<lparr>rg_protection := protection\<rparr> in
      case vma_insert rs p of
        (rs', Err e) \<Rightarrow> (rs', Err e)
      | (rs', Ok _) \<Rightarrow>
          (case reinsert start fin protection rs' todo of
             (rs'', Ok changed) \<Rightarrow>
               (rs'', Ok (\<lparr>sp_start = rg_start p, sp_end = rg_end p, sp_protection = protection\<rparr> # changed))
           | (rs'', Err e) \<Rightarrow> (rs'', Err e)))"

definition is_device :: "Region \<Rightarrow> bool" where
  "is_device r \<longleftrightarrow> (case rg_kind r of Device _ \<Rightarrow> True | _ \<Rightarrow> False)"

definition vma_mprotect :: "MemoryMap \<Rightarrow> u64 \<Rightarrow> u64 \<Rightarrow> Protection \<Rightarrow> MemoryMap \<times> Span list fs_result" where
  "vma_mprotect m start len protection =
     (if \<not> aligned start then (m, Err EINVAL)
      else case page_up len of None \<Rightarrow> (m, Err ENOMEM)
      | Some bytes \<Rightarrow>
        (case checked_add start bytes of None \<Rightarrow> (m, Err ENOMEM)
         | Some fin \<Rightarrow>
           if start = fin then (m, Ok [])
           else
             case cover_scan start fin (mm_regions m) of None \<Rightarrow> (m, Err ENOMEM)
             | Some cursor \<Rightarrow>
               if cursor < fin then (m, Err ENOMEM)
               else
                 let inside = filter (\<lambda>r. rg_start r < fin \<and> start < rg_end r) (mm_regions m) in
                 if p_execute protection \<and> list_ex is_device inside then (m, Err EACCES)
                 else
                   let (rs, res) = reinsert start fin protection (fst (vma_remove start fin (mm_regions m))) inside
                   in (m\<lparr>mm_regions := rs\<rparr>, res)))"

definition brk_blocked :: "MemoryMap \<Rightarrow> u64 \<Rightarrow> bool" where
  "brk_blocked m heap_limit =
     list_ex (\<lambda>r. rg_kind r \<noteq> Heap \<and> rg_start r < heap_limit \<and> mm_brk_start m < rg_end r) (mm_regions m)"

definition brk_change :: "u64 \<Rightarrow> u64 \<Rightarrow> BrkChange" where
  "brk_change old_end new_end =
     (if new_end > old_end then BrkMap \<lparr>sp_start = old_end, sp_end = new_end, sp_protection = prot_READ_WRITE\<rparr>
      else if new_end < old_end then BrkUnmap \<lparr>sp_start = new_end, sp_end = old_end, sp_protection = prot_READ_WRITE\<rparr>
      else Unchanged)"

definition vma_set_brk :: "MemoryMap \<Rightarrow> u64 \<Rightarrow> MemoryMap \<times> BrkChange fs_result" where
  "vma_set_brk m address =
     (if address < mm_brk_start m then (m, Err ENOMEM)
      else case page_up (mm_brk m) of None \<Rightarrow> (m, Err ENOMEM)
      | Some old_end \<Rightarrow>
        (case page_up address of None \<Rightarrow> (m, Err ENOMEM)
         | Some new_end \<Rightarrow>
           if new_end > mm_mmap_top m \<or> brk_blocked m (max old_end new_end) then (m, Err ENOMEM)
           else
             let rest = filter (\<lambda>r. rg_kind r \<noteq> Heap) (mm_regions m) in
             if new_end > mm_brk_start m then
               (case vma_insert rest \<lparr>rg_start = mm_brk_start m, rg_end = new_end,
                       rg_protection = prot_READ_WRITE, rg_kind = Heap\<rparr> of
                  (rs, Ok _) \<Rightarrow> (m\<lparr>mm_regions := rs, mm_brk := address\<rparr>, Ok (brk_change old_end new_end))
                | (rs, Err e) \<Rightarrow> (m\<lparr>mm_regions := rs\<rparr>, Err e))
             else (m\<lparr>mm_regions := rest, mm_brk := address\<rparr>, Ok (brk_change old_end new_end))))"

section \<open>Abstraction and invariant\<close>

text \<open>What a process sees at an address: its protection, and the kind of memory with the
  physical address behind it for device memory.\<close>

definition page_view :: "Region \<Rightarrow> u64 \<Rightarrow> Protection \<times> RegionKind" where
  "page_view r a = (rg_protection r, piece_kind r a)"

definition view :: "Region list \<Rightarrow> u64 \<Rightarrow> (Protection \<times> RegionKind) option" where
  "view rs a = map_option (\<lambda>r. page_view r a) (region_at rs a)"

definition in_span :: "u64 \<Rightarrow> Span \<Rightarrow> bool" where
  "in_span a sp \<longleftrightarrow> sp_start sp \<le> a \<and> a < sp_end sp"

text \<open>Regions are sorted, disjoint, nonempty and page aligned, from a lower bound on.\<close>

fun regions_from :: "u64 \<Rightarrow> Region list \<Rightarrow> bool" where
  "regions_from lo [] \<longleftrightarrow> True"
| "regions_from lo (r # rs) \<longleftrightarrow>
     lo \<le> rg_start r \<and> rg_start r < rg_end r \<and> aligned (rg_start r) \<and> aligned (rg_end r)
     \<and> regions_from (rg_end r) rs"

text \<open>No region is writable and executable, and device memory is never executable.\<close>

definition region_safe :: "Region \<Rightarrow> bool" where
  "region_safe r \<longleftrightarrow> \<not> (p_write (rg_protection r) \<and> p_execute (rg_protection r))
     \<and> (is_device r \<longrightarrow> \<not> p_execute (rg_protection r))"

definition vma_inv :: "MemoryMap \<Rightarrow> bool" where
  "vma_inv m \<longleftrightarrow> regions_from 0 (mm_regions m) \<and> aligned (mm_brk_start m) \<and> mm_brk_start m \<le> mm_brk m
     \<and> list_all region_safe (mm_regions m)"

lemma aligned_dvd: "aligned a \<longleftrightarrow> PAGE_SIZE dvd a"
  by (simp add: aligned_def is_multiple_of_dvd)

lemma aligned_add [intro]: "aligned a \<Longrightarrow> aligned b \<Longrightarrow> aligned (a + b)"
  by (simp add: aligned_dvd)

lemma page_up_Some:
  assumes "page_up n = Some k"
  shows "aligned k" "n \<le> k" "k < n + PAGE_SIZE" "k < 2 ^ 64" "k = next_multiple_of n PAGE_SIZE"
  using assms next_multiple_of_less [of PAGE_SIZE n] next_multiple_of_ge [of n PAGE_SIZE]
  by (auto simp: page_up_def checked_next_multiple_of_def aligned_dvd PAGE_SIZE_def split: if_splits)

lemma page_up_le: "page_up n = Some k \<Longrightarrow> n \<le> b \<Longrightarrow> aligned b \<Longrightarrow> k \<le> b"
  using page_up_Some(5) [of n k] next_multiple_of_le [of PAGE_SIZE b n] by (simp add: aligned_dvd)

section \<open>Sorted regions\<close>

lemma region_at_Nil [simp]: "region_at [] a = None"
  by (simp add: region_at_def)

lemma region_at_Cons [simp]: "region_at (r # rs) a = (if covers r a then Some r else region_at rs a)"
  by (simp add: region_at_def)

lemma region_at_append:
  "region_at (xs @ ys) a = (case region_at xs a of None \<Rightarrow> region_at ys a | Some r \<Rightarrow> Some r)"
  by (induction xs) auto

lemma region_at_SomeD: "region_at rs a = Some r \<Longrightarrow> r \<in> set rs \<and> covers r a"
  by (induction rs) (auto split: if_splits)

lemma region_at_None_iff: "region_at rs a = None \<longleftrightarrow> (\<forall>r \<in> set rs. \<not> covers r a)"
  by (induction rs) auto

lemma overlaps_Nil [simp]: "\<not> overlaps [] s e"
  by (simp add: overlaps_def)

lemma overlaps_Cons [simp]:
  "overlaps (r # rs) s e \<longleftrightarrow> s < rg_end r \<and> rg_start r < e \<or> overlaps rs s e"
  by (simp add: overlaps_def)

lemma overlaps_append [simp]: "overlaps (xs @ ys) s e \<longleftrightarrow> overlaps xs s e \<or> overlaps ys s e"
  by (auto simp: overlaps_def)

lemma regions_from_mono: "regions_from lo rs \<Longrightarrow> lo' \<le> lo \<Longrightarrow> regions_from lo' rs"
  by (cases rs) auto

lemma regions_from_mem:
  "regions_from lo rs \<Longrightarrow> r \<in> set rs \<Longrightarrow>
     lo \<le> rg_start r \<and> rg_start r < rg_end r \<and> aligned (rg_start r) \<and> aligned (rg_end r)"
proof (induction rs arbitrary: lo)
  case (Cons x xs)
  show ?case
  proof (cases "r = x")
    case False
    then have "rg_end x \<le> rg_start r \<and> rg_start r < rg_end r \<and> aligned (rg_start r) \<and> aligned (rg_end r)"
      using Cons by (intro Cons.IH) auto
    then show ?thesis using Cons(2) by auto
  qed (use Cons in auto)
qed simp

lemma region_at_below: "regions_from lo rs \<Longrightarrow> a < lo \<Longrightarrow> region_at rs a = None"
  using regions_from_mem by (fastforce simp: region_at_None_iff covers_def)

lemma regions_from_append:
  "regions_from lo (xs @ ys) \<longleftrightarrow>
     regions_from lo xs \<and> regions_from (if xs = [] then lo else rg_end (last xs)) ys"
  by (induction xs arbitrary: lo) auto

lemma regions_from_filter: "regions_from lo rs \<Longrightarrow> regions_from lo (filter P rs)"
proof (induction rs arbitrary: lo)
  case (Cons r rs)
  have "regions_from (rg_end r) (filter P rs)" using Cons by simp
  then show ?case using Cons regions_from_mono [of "rg_end r" "filter P rs" lo] by auto
qed simp

lemma not_overlaps_view:
  assumes "regions_from lo rs" "s < e"
  shows "overlaps rs s e \<longleftrightarrow> (\<exists>a. s \<le> a \<and> a < e \<and> region_at rs a \<noteq> None)"
proof
  assume "overlaps rs s e"
  then obtain r where r: "r \<in> set rs" "s < rg_end r" "rg_start r < e"
    by (auto simp: overlaps_def list_ex_iff)
  moreover have "rg_start r < rg_end r" using regions_from_mem [OF assms(1) r(1)] by simp
  ultimately have "covers r (max s (rg_start r))" "s \<le> max s (rg_start r)" "max s (rg_start r) < e"
    using assms(2) by (auto simp: covers_def)
  then show "\<exists>a. s \<le> a \<and> a < e \<and> region_at rs a \<noteq> None"
    using r(1) by (meson region_at_None_iff)
next
  assume "\<exists>a. s \<le> a \<and> a < e \<and> region_at rs a \<noteq> None"
  then obtain a r where "s \<le> a" "a < e" "region_at rs a = Some r" by auto
  then show "overlaps rs s e"
    using region_at_SomeD [of rs a r] unfolding overlaps_def list_ex_iff covers_def
    by (meson le_less_trans)
qed

subsection \<open>Insertion\<close>

lemma insert_sorted_Nil [simp]: "insert_sorted [] r = [r]"
  by (simp add: insert_sorted_def)

lemma insert_sorted_Cons [simp]:
  "insert_sorted (x # xs) r = (if rg_start x < rg_start r then x # insert_sorted xs r else r # x # xs)"
  by (simp add: insert_sorted_def Let_def)

lemma insert_sorted_set: "set (insert_sorted rs r) = insert r (set rs)"
  by (induction rs) auto

lemma insert_sorted_from:
  assumes "regions_from lo rs" "lo \<le> rg_start r" "rg_start r < rg_end r"
    "aligned (rg_start r)" "aligned (rg_end r)" "\<not> overlaps rs (rg_start r) (rg_end r)"
  shows "regions_from lo (insert_sorted rs r)"
  using assms
proof (induction rs arbitrary: lo)
  case (Cons x xs)
  show ?case
  proof (cases "rg_start x < rg_start r")
    case True
    then have "rg_end x \<le> rg_start r" using Cons by auto
    then show ?thesis using Cons True by auto
  next
    case False
    then have "rg_end r \<le> rg_start x" using Cons by auto
    then show ?thesis using Cons False by auto
  qed
qed simp

lemma insert_sorted_at:
  assumes "regions_from lo rs" "\<not> overlaps rs (rg_start r) (rg_end r)"
  shows "region_at (insert_sorted rs r) a = (if covers r a then Some r else region_at rs a)"
  using assms
proof (induction rs arbitrary: lo)
  case (Cons x xs)
  have "\<not> (covers x a \<and> covers r a)" using Cons(3) by (auto simp: covers_def)
  then show ?case using Cons by auto
qed simp

lemma vma_insert_ok:
  assumes "regions_from 0 rs" "rg_start r < rg_end r" "aligned (rg_start r)" "aligned (rg_end r)"
    "\<not> overlaps rs (rg_start r) (rg_end r)"
  shows "vma_insert rs r = (insert_sorted rs r, Ok ())"
    and "regions_from 0 (insert_sorted rs r)"
    and "region_at (insert_sorted rs r) a = (if covers r a then Some r else region_at rs a)"
  using assms insert_sorted_from [of 0 rs r] insert_sorted_at [of 0 rs r] by (auto simp: vma_insert_def)

lemma vma_insert_cases:
  assumes "regions_from 0 rs" "vma_insert rs r = (rs', res)"
  shows "(\<exists>e. res = Err e \<and> rs' = rs) \<or>
    (res = Ok () \<and> rs' = insert_sorted rs r \<and> rg_start r < rg_end r \<and> aligned (rg_start r)
      \<and> aligned (rg_end r) \<and> \<not> overlaps rs (rg_start r) (rg_end r) \<and> regions_from 0 rs')"
  using assms insert_sorted_from [of 0 rs r] by (auto simp: vma_insert_def split: if_splits)

subsection \<open>Removal\<close>

lemma piece_simps [simp]:
  "rg_start (piece r s e) = s" "rg_end (piece r s e) = e" "rg_protection (piece r s e) = rg_protection r"
  "rg_kind (piece r s e) = piece_kind r s"
  by (simp_all add: piece_def)

lemma piece_kind_piece: "rg_start r \<le> s \<Longrightarrow> s \<le> a \<Longrightarrow> piece_kind (piece r s e) a = piece_kind r a"
  by (simp add: piece_kind_def split: RegionKind.split)

lemma page_view_piece: "rg_start r \<le> s \<Longrightarrow> s \<le> a \<Longrightarrow> page_view (piece r s e) a = page_view r a"
  by (simp add: page_view_def piece_kind_piece)

lemma view_Nil [simp]: "view [] a = None"
  by (simp add: view_def)

lemma view_Cons [simp]: "view (r # rs) a = (if covers r a then Some (page_view r a) else view rs a)"
  by (simp add: view_def)

lemma view_append: "view (xs @ ys) a = (case view xs a of None \<Rightarrow> view ys a | Some v \<Rightarrow> Some v)"
  by (induction xs) auto

lemma vma_remove_Cons:
  "fst (vma_remove s e (r # rs)) =
     (if rg_end r \<le> s \<or> e \<le> rg_start r then [r]
      else (if rg_start r < s then [piece r (rg_start r) s] else [])
        @ (if e < rg_end r then [piece r e (rg_end r)] else [])) @ fst (vma_remove s e rs)"
  "snd (vma_remove s e (r # rs)) =
     (if rg_end r \<le> s \<or> e \<le> rg_start r then []
      else [\<lparr>sp_start = max (rg_start r) s, sp_end = min (rg_end r) e, sp_protection = rg_protection r\<rparr>])
     @ snd (vma_remove s e rs)"
  by (auto split: prod.split)

declare vma_remove.simps(2) [simp del]

lemma vma_remove_from:
  "regions_from lo rs \<Longrightarrow> aligned s \<Longrightarrow> aligned e \<Longrightarrow> s < e \<Longrightarrow> regions_from lo (fst (vma_remove s e rs))"
proof (induction rs arbitrary: lo)
  case (Cons r rs)
  have ih: "regions_from (rg_end r) (fst (vma_remove s e rs))" using Cons by simp
  then have "regions_from lo' (fst (vma_remove s e rs))" if "lo' \<le> rg_end r" for lo'
    using that regions_from_mono by blast
  then show ?case using Cons ih by (auto simp: vma_remove_Cons)
qed simp

lemma vma_remove_view:
  assumes "regions_from lo rs" "s < e"
  shows "view (fst (vma_remove s e rs)) a = (if s \<le> a \<and> a < e then None else view rs a)"
  using assms
proof (induction rs arbitrary: lo)
  case (Cons r rs)
  then show ?case
    by (auto simp: vma_remove_Cons view_append covers_def page_view_piece split: option.split)
qed simp

lemma vma_remove_spans:
  assumes "regions_from lo rs"
  shows "(\<exists>sp \<in> set (snd (vma_remove s e rs)). in_span a sp \<and> sp_protection sp = p)
     \<longleftrightarrow> s \<le> a \<and> a < e \<and> map_option fst (view rs a) = Some p"
  using assms
proof (induction rs arbitrary: lo)
  case (Cons r rs)
  note ih = Cons.IH [of "rg_end r"]
  show ?case
  proof (cases "covers r a")
    case True
    then have "view rs a = None"
      using Cons(2) region_at_below [of "rg_end r" rs a] by (auto simp: view_def covers_def)
    then show ?thesis using True ih Cons(2)
      by (auto simp: vma_remove_Cons covers_def page_view_def in_span_def)
  next
    case False
    then show ?thesis using ih Cons(2)
      by (auto simp: vma_remove_Cons covers_def in_span_def)
  qed
qed simp

lemma is_device_piece: "is_device (piece r s e) = is_device r"
  by (simp add: is_device_def piece_kind_def split: RegionKind.split)

lemma region_safe_piece [simp]: "region_safe (piece r s e) = region_safe r"
  by (simp add: region_safe_def is_device_piece)

lemma vma_remove_safe: "list_all region_safe rs \<Longrightarrow> list_all region_safe (fst (vma_remove s e rs))"
  by (induction rs) (auto simp: vma_remove_Cons)

lemma vma_remove_not_overlaps:
  assumes "regions_from 0 rs" "s < e" "aligned s" "aligned e"
  shows "\<not> overlaps (fst (vma_remove s e rs)) s e"
proof -
  have "view (fst (vma_remove s e rs)) a = None" if "s \<le> a" "a < e" for a
    using vma_remove_view [OF assms(1,2), of a] that by simp
  then show ?thesis
    using not_overlaps_view [OF vma_remove_from [OF assms(1,3,4,2)] assms(2)] by (simp add: view_def)
qed

section \<open>The search for a free gap\<close>

definition gap_at :: "Region list \<Rightarrow> u64 \<Rightarrow> u64 \<Rightarrow> u64 \<Rightarrow> u64 \<Rightarrow> bool" where
  "gap_at rs lo hi n b \<longleftrightarrow> lo \<le> b \<and> b + n \<le> hi \<and> \<not> overlaps rs b (b + n)"

definition highest_gap :: "(u64 \<Rightarrow> bool) \<Rightarrow> u64 option \<Rightarrow> bool" where
  "highest_gap gap res \<longleftrightarrow> (case res of Some a \<Rightarrow> gap a \<and> (\<forall>b. gap b \<longrightarrow> b \<le> a) | None \<Rightarrow> \<forall>b. \<not> gap b)"

lemma not_overlaps_before:
  assumes "regions_from l rs" "\<forall>r \<in> set rs. rg_end r \<le> s"
  shows "\<not> overlaps rs s e"
  using assms(2) by (fastforce simp: overlaps_def list_ex_iff)

lemma regions_from_last:
  "regions_from l (rs @ [r]) \<Longrightarrow> \<forall>x \<in> set rs. rg_end x \<le> rg_start r"
proof (induction rs arbitrary: l)
  case (Cons x xs)
  have "regions_from (rg_end x) (xs @ [r])" using Cons by simp
  then have "rg_end x \<le> rg_start r" using regions_from_mem [of "rg_end x" "xs @ [r]" r] by simp
  then show ?case using Cons by auto
qed simp

lemma find_free_loop_highest:
  assumes "regions_from l rs" "0 < n"
  shows "highest_gap (gap_at rs lo hi n) (find_free_loop lo n hi (rev rs))"
  using assms
proof (induction rs arbitrary: hi rule: rev_induct)
  case Nil
  then show ?case by (auto simp: highest_gap_def gap_at_def checked_sub_def)
next
  case (snoc r rs)
  have rs: "regions_from l rs" using snoc(2) by (simp add: regions_from_append)
  have r: "rg_start r < rg_end r" using regions_from_mem [OF snoc(2), of r] by simp
  note before = regions_from_last [OF snoc(2)]
  note ih = snoc.IH [OF rs snoc(3)]
  show ?case
  proof (cases "rg_start r \<ge> hi")
    case True
    then have "gap_at (rs @ [r]) lo hi n = gap_at rs lo hi n" by (auto simp: gap_at_def fun_eq_iff)
    then show ?thesis using True ih [of hi] by simp
  next
    case below: False
    show ?thesis
    proof (cases "rg_end r \<le> hi \<and> hi - rg_end r \<ge> n")
      case True
      have "\<not> overlaps rs (hi - n) hi"
        using before r True by (intro not_overlaps_before [OF rs]) fastforce
      then have "gap_at (rs @ [r]) lo hi n (hi - n) \<longleftrightarrow> lo \<le> hi - n"
        using True snoc(3) by (auto simp: gap_at_def)
      moreover have "b \<le> hi - n" if "gap_at (rs @ [r]) lo hi n b" for b
        using that by (auto simp: gap_at_def)
      moreover have "lo \<le> b" if "gap_at (rs @ [r]) lo hi n b" for b
        using that by (auto simp: gap_at_def)
      ultimately show ?thesis using True below by (fastforce simp: highest_gap_def)
    next
      case False
      have "gap_at (rs @ [r]) lo hi n = gap_at rs lo (min hi (rg_start r)) n"
        using False below r snoc(3) by (auto simp: gap_at_def fun_eq_iff)
      then show ?thesis using False below ih [of "min hi (rg_start r)"] by auto
    qed
  qed
qed

section \<open>Placing a mapping\<close>

lemma place_at_cases:
  assumes "regions_from 0 (mm_regions m)" "place_at m a rep n p k = (m', res)"
  shows "(\<exists>e. res = Err e \<and> m' = m) \<or>
    (res = Ok \<lparr>ch_address = a, ch_replaced = rep, ch_new = \<lparr>sp_start = a, sp_end = a + n, sp_protection = p\<rparr>\<rparr>
     \<and> m' = m\<lparr>mm_regions := insert_sorted (mm_regions m) \<lparr>rg_start = a, rg_end = a + n, rg_protection = p, rg_kind = k\<rparr>\<rparr>
     \<and> 0 < n \<and> aligned a \<and> aligned (a + n) \<and> \<not> overlaps (mm_regions m) a (a + n)
     \<and> regions_from 0 (mm_regions m'))"
proof -
  let ?r = "\<lparr>rg_start = a, rg_end = a + n, rg_protection = p, rg_kind = k\<rparr>"
  obtain rs' ir where i: "vma_insert (mm_regions m) ?r = (rs', ir)" by fastforce
  show ?thesis
    using vma_insert_cases [OF assms(1) i] assms(2) i
    by (auto simp: place_at_def Let_def)
qed

text \<open>The address a mapping goes to: where it must go, where it may go, or the highest free gap.\<close>

definition chosen :: "MemoryMap \<Rightarrow> u64 \<Rightarrow> u64 \<Rightarrow> bool \<Rightarrow> u64 \<Rightarrow> bool" where
  "chosen m hint n fixed a \<longleftrightarrow>
     (if fixed then a = hint \<and> usable m n hint
      else if hint \<noteq> 0 \<and> usable m n hint \<and> \<not> overlaps (mm_regions m) hint (hint + n) then a = hint
      else find_free m n = Some a)"

lemma chosen_bounds:
  assumes "vma_inv m" "chosen m hint n fixed a" "0 < n"
  shows "MIN_ADDRESS \<le> a" "a + n \<le> mm_mmap_top m" "\<not> fixed \<Longrightarrow> \<not> overlaps (mm_regions m) a (a + n)"
proof -
  have rs: "regions_from 0 (mm_regions m)" using assms(1) by (simp add: vma_inv_def)
  have ff: "MIN_ADDRESS \<le> a \<and> a + n \<le> mm_mmap_top m \<and> \<not> overlaps (mm_regions m) a (a + n)"
    if "find_free m n = Some a"
  proof -
    from that obtain up where up: "page_up (mm_brk m) = Some up"
      by (auto simp: find_free_def split: option.splits)
    show ?thesis
      using find_free_loop_highest [OF rs assms(3), of "max up MIN_ADDRESS" "mm_mmap_top m"] that up
      by (simp add: find_free_def highest_gap_def gap_at_def)
  qed
  show "MIN_ADDRESS \<le> a" "a + n \<le> mm_mmap_top m" "\<not> fixed \<Longrightarrow> \<not> overlaps (mm_regions m) a (a + n)"
    using assms(2) ff
    by (auto simp: chosen_def usable_def checked_add_def split: if_splits)
qed

lemma insert_view:
  assumes "regions_from 0 rs" "\<not> overlaps rs (rg_start r) (rg_end r)"
  shows "view (insert_sorted rs r) a = (if covers r a then Some (page_view r a) else view rs a)"
  using insert_sorted_at [OF assms, of a] by (simp add: view_def)

definition new_region :: "u64 \<Rightarrow> u64 \<Rightarrow> Protection \<Rightarrow> RegionKind \<Rightarrow> Region" where
  "new_region a n p k = \<lparr>rg_start = a, rg_end = a + n, rg_protection = p, rg_kind = k\<rparr>"

lemma new_region_simps [simp]:
  "rg_start (new_region a n p k) = a" "rg_end (new_region a n p k) = a + n"
  "rg_protection (new_region a n p k) = p" "rg_kind (new_region a n p k) = k"
  by (simp_all add: new_region_def)

text \<open>The break and the limits of a map.\<close>

definition same_limits :: "MemoryMap \<Rightarrow> MemoryMap \<Rightarrow> bool" where
  "same_limits m m' \<longleftrightarrow> mm_brk_start m' = mm_brk_start m \<and> mm_brk m' = mm_brk m \<and> mm_mmap_top m' = mm_mmap_top m"

lemma same_limits_update [simp]: "same_limits m (m\<lparr>mm_regions := rs\<rparr>)"
  by (simp add: same_limits_def)

text \<open>What a successful \<open>place\<close> leaves: the new region at the chosen address, everything
  outside it as before, and the spans it reports.\<close>

definition placed :: "MemoryMap \<Rightarrow> u64 \<Rightarrow> u64 \<Rightarrow> Protection \<Rightarrow> bool \<Rightarrow> RegionKind \<Rightarrow> MemoryMap \<Rightarrow> MmapChange \<Rightarrow> bool" where
  "placed m a n p fixed k m' ch \<longleftrightarrow>
     ch = \<lparr>ch_address = a, ch_replaced = (if fixed then snd (vma_remove a (a + n) (mm_regions m)) else []),
           ch_new = \<lparr>sp_start = a, sp_end = a + n, sp_protection = p\<rparr>\<rparr>
     \<and> same_limits m m' \<and> regions_from 0 (mm_regions m')
     \<and> (list_all region_safe (mm_regions m) \<longrightarrow> region_safe (new_region a n p k)
          \<longrightarrow> list_all region_safe (mm_regions m'))
     \<and> (\<forall>b. view (mm_regions m') b = (if a \<le> b \<and> b < a + n then Some (page_view (new_region a n p k) b)
              else view (mm_regions m) b))"

lemma place_at_placed:
  assumes rs: "regions_from 0 base" "\<not> overlaps base a (a + n)"
    and al: "aligned a" "aligned (a + n)" "0 < n"
    and v: "\<forall>b. \<not> (a \<le> b \<and> b < a + n) \<longrightarrow> view base b = view (mm_regions m) b"
    and safe: "list_all region_safe (mm_regions m) \<longrightarrow> list_all region_safe base"
    and rep: "rep = (if fixed then snd (vma_remove a (a + n) (mm_regions m)) else [])"
  shows "\<exists>m' ch. place_at (m\<lparr>mm_regions := base\<rparr>) a rep n p k = (m', Ok ch) \<and> placed m a n p fixed k m' ch"
proof -
  let ?r = "new_region a n p k"
  have ins: "vma_insert base ?r = (insert_sorted base ?r, Ok ())" "regions_from 0 (insert_sorted base ?r)"
    using vma_insert_ok [of base ?r] assms by simp_all
  have pv: "view (insert_sorted base ?r) b = (if a \<le> b \<and> b < a + n then Some (page_view ?r b)
      else view (mm_regions m) b)" for b
    using insert_view [OF rs(1), of ?r b] rs(2) v by (simp add: covers_def)
  have "list_all region_safe (insert_sorted base ?r)" if "list_all region_safe base" "region_safe ?r"
    using that insert_sorted_set [of base ?r] by (simp add: list_all_iff)
  then show ?thesis
    using ins pv safe rep by (simp add: place_at_def placed_def new_region_def [symmetric])
qed

lemma place_fixed:
  assumes inv: "vma_inv m" and n: "page_up len = Some n" "len \<noteq> 0" and us: "usable m n hint"
  shows "\<exists>m' ch. place m hint len p True k = (m', Ok ch) \<and> placed m hint n p True k m' ch"
proof -
  have npos: "0 < n" and nal: "aligned n" using page_up_Some [OF n(1)] n(2) by auto
  have al: "aligned hint" "aligned (hint + n)" using us nal by (auto simp: usable_def)
  have rs: "regions_from 0 (mm_regions m)" using inv by (simp add: vma_inv_def)
  let ?kept = "fst (vma_remove hint (hint + n) (mm_regions m))"
  have "\<exists>m' ch. place_at (m\<lparr>mm_regions := ?kept\<rparr>) hint (snd (vma_remove hint (hint + n) (mm_regions m))) n p k
        = (m', Ok ch) \<and> placed m hint n p True k m' ch"
    using vma_remove_from [OF rs al] vma_remove_not_overlaps [OF rs _ al] npos al
      vma_remove_view [OF rs, of hint "hint + n"] vma_remove_safe [of "mm_regions m" hint "hint + n"]
    by (intro place_at_placed) auto
  then show ?thesis using n us al by (simp add: place_def split_beta)
qed

lemma place_cases:
  assumes inv: "vma_inv m" and pl: "place m hint len p fixed k = (m', res)"
  shows "(\<exists>e. res = Err e \<and> m' = m) \<or>
    (\<exists>n a ch. page_up len = Some n \<and> 0 < n \<and> chosen m hint n fixed a \<and> res = Ok ch
       \<and> aligned a \<and> placed m a n p fixed k m' ch)"
proof (cases "len = 0 \<or> page_up len = None \<or> fixed \<and> \<not> aligned hint")
  case True
  then show ?thesis using pl by (cases "page_up len") (auto simp: place_def split: if_splits)
next
  case False
  then obtain n where n: "page_up len = Some n" "len \<noteq> 0" "fixed \<Longrightarrow> aligned hint" by auto
  have npos: "0 < n" and nal: "aligned n" using page_up_Some [OF n(1)] n(2) by auto
  have rs: "regions_from 0 (mm_regions m)" using inv by (simp add: vma_inv_def)
  consider (unusable) "fixed" "\<not> usable m n hint" | (at_hint) "fixed" "usable m n hint"
    | (no_gap) "\<not> fixed" "\<not> (\<exists>a. chosen m hint n fixed a)" | (found) a where "\<not> fixed" "chosen m hint n fixed a"
    by blast
  then show ?thesis
  proof cases
    case unusable
    then show ?thesis using pl n by (auto simp: place_def)
  next
    case at_hint
    then show ?thesis using place_fixed [OF inv n(1,2) at_hint(2), of p k] pl n npos
      by (auto simp: chosen_def)
  next
    case no_gap
    then have nh: "\<not> (hint \<noteq> 0 \<and> usable m n hint \<and> \<not> overlaps (mm_regions m) hint (hint + n))"
      using chosen_def [of m hint n fixed hint] by (auto split: if_splits)
    with no_gap have "find_free m n \<noteq> Some a" for a
      using chosen_def [of m hint n fixed a] by (simp only: if_False) blast
    then have "find_free m n = None" by (cases "find_free m n") auto
    with nh show ?thesis using pl n no_gap(1) by (auto simp: place_def)
  next
    case found
    have pa: "place_at m a [] n p k = (m', res)"
      using pl found n by (auto simp: place_def chosen_def split: if_splits)
    from place_at_cases [OF rs pa] show ?thesis
    proof (elim disjE)
      assume ok: "res = Ok \<lparr>ch_address = a, ch_replaced = [],
          ch_new = \<lparr>sp_start = a, sp_end = a + n, sp_protection = p\<rparr>\<rparr> \<and>
        m' = m\<lparr>mm_regions := insert_sorted (mm_regions m)
            \<lparr>rg_start = a, rg_end = a + n, rg_protection = p, rg_kind = k\<rparr>\<rparr> \<and>
        0 < n \<and> aligned a \<and> aligned (a + n) \<and> \<not> overlaps (mm_regions m) a (a + n) \<and>
        regions_from 0 (mm_regions m')"
      have "m\<lparr>mm_regions := mm_regions m\<rparr> = m" by simp
      then show ?thesis
        using place_at_placed [of "mm_regions m" a n m "[]" fixed p k] ok rs found pa n by auto
    qed simp
  qed
qed

section \<open>Changing the protection\<close>

lemma reinsert_ok:
  assumes "regions_from 0 rs" "regions_from l todo"
    "\<forall>r \<in> set todo. rg_start r < e \<and> s < rg_end r" "\<forall>a. s \<le> a \<and> a < e \<longrightarrow> region_at todo a \<noteq> None \<longrightarrow> region_at rs a = None"
    "aligned s" "aligned e" "s < e"
  shows "\<exists>rs' changed. reinsert s e p rs todo = (rs', Ok changed) \<and> regions_from 0 rs'
    \<and> (\<forall>a. view rs' a = (if s \<le> a \<and> a < e \<and> region_at todo a \<noteq> None
          then map_option (\<lambda>(_, k). (p, k)) (view todo a) else view rs a))
    \<and> (\<forall>a. (\<exists>sp \<in> set changed. in_span a sp) \<longleftrightarrow> s \<le> a \<and> a < e \<and> region_at todo a \<noteq> None)
    \<and> (\<forall>sp \<in> set changed. sp_protection sp = p)
    \<and> (\<forall>r' \<in> set rs'. r' \<in> set rs \<or> (\<exists>r \<in> set todo. rg_protection r' = p \<and> is_device r' = is_device r))"
  using assms
proof (induction todo arbitrary: rs l)
  case Nil
  then show ?case by (auto simp: view_def)
next
  case (Cons r todo)
  define q where "q = (piece r (max (rg_start r) s) (min (rg_end r) e))\<lparr>rg_protection := p\<rparr>"
  have r: "rg_start r < rg_end r" "aligned (rg_start r)" "aligned (rg_end r)" "rg_start r < e" "s < rg_end r"
    using Cons by auto
  have q: "rg_start q < rg_end q" "aligned (rg_start q)" "aligned (rg_end q)"
    "rg_start q = max (rg_start r) s" "rg_end q = min (rg_end r) e" "rg_protection q = p"
    using r Cons(6-8) by (auto simp: q_def max_def min_def)
  have qa: "covers q a \<longleftrightarrow> s \<le> a \<and> a < e \<and> covers r a" for a using q by (auto simp: covers_def)
  have qv: "page_view q a = (p, piece_kind r a)" if "covers q a" for a
    using that piece_kind_piece [of r "max (rg_start r) s" a] q
    by (simp add: page_view_def q_def covers_def piece_kind_def is_device_def split: RegionKind.split)
  have "\<not> overlaps rs (rg_start q) (rg_end q)"
  proof -
    have "region_at rs a = None" if "rg_start q \<le> a" "a < rg_end q" for a
      using Cons(5) qa [of a] that by (simp add: covers_def)
    then show ?thesis using not_overlaps_view [OF Cons(2) q(1)] by auto
  qed
  note ins = vma_insert_ok [OF Cons(2) q(1-3) this] and iv = insert_view [OF Cons(2) this]
  define rs1 where "rs1 = insert_sorted rs q"
  have after: "regions_from (rg_end r) todo" using Cons by simp
  have disj: "region_at todo a = None" if "covers r a" for a
    using region_at_below [OF after, of a] that by (simp add: covers_def)
  have "\<forall>a. s \<le> a \<and> a < e \<longrightarrow> region_at todo a \<noteq> None \<longrightarrow> region_at rs1 a = None"
    using Cons(5) disj qa ins(3) unfolding rs1_def by (auto split: if_splits)
  from Cons.IH [OF ins(2) [folded rs1_def] after _ this Cons(6-8)] Cons(4)
  obtain rs' changed where ih: "reinsert s e p rs1 todo = (rs', Ok changed)" "regions_from 0 rs'"
    "\<forall>a. view rs' a = (if s \<le> a \<and> a < e \<and> region_at todo a \<noteq> None
          then map_option (\<lambda>(_, k). (p, k)) (view todo a) else view rs1 a)"
    "\<forall>a. (\<exists>sp \<in> set changed. in_span a sp) \<longleftrightarrow> s \<le> a \<and> a < e \<and> region_at todo a \<noteq> None"
    "\<forall>sp \<in> set changed. sp_protection sp = p"
    "\<forall>r' \<in> set rs'. r' \<in> set rs1 \<or> (\<exists>r \<in> set todo. rg_protection r' = p \<and> is_device r' = is_device r)"
    by auto
  have eq: "reinsert s e p rs (r # todo) =
      (rs', Ok (\<lparr>sp_start = rg_start q, sp_end = rg_end q, sp_protection = p\<rparr> # changed))"
    using ih(1) ins(1) by (simp add: q_def rs1_def Let_def)
  have vw: "view rs' a = (if s \<le> a \<and> a < e \<and> region_at (r # todo) a \<noteq> None
          then map_option (\<lambda>(_, k). (p, k)) (view (r # todo) a) else view rs a)" for a
  proof (cases "covers r a")
    case True
    then have "view rs' a = view rs1 a" using ih(3) disj by simp
    also have "\<dots> = (if s \<le> a \<and> a < e then Some (p, piece_kind r a) else view rs a)"
      using iv [of a] qa [of a] qv [of a] True by (auto simp: rs1_def)
    finally show ?thesis using True by (simp add: page_view_def)
  next
    case False
    then have "view rs1 a = view rs a" using iv [of a] qa [of a] by (simp add: rs1_def)
    then show ?thesis using False ih(3) by (cases "region_at todo a") auto
  qed
  have sp: "(\<exists>sp \<in> set (\<lparr>sp_start = rg_start q, sp_end = rg_end q, sp_protection = p\<rparr> # changed). in_span a sp)
      \<longleftrightarrow> s \<le> a \<and> a < e \<and> region_at (r # todo) a \<noteq> None" for a
    using ih(4) qa [of a] by (auto simp: in_span_def covers_def)
  have dev: "is_device q = is_device r"
    using is_device_piece [of r "max (rg_start r) s" "min (rg_end r) e"] by (simp add: q_def is_device_def)
  have mem: "\<forall>r' \<in> set rs'. r' \<in> set rs
      \<or> (\<exists>x \<in> set (r # todo). rg_protection r' = p \<and> is_device r' = is_device x)"
    using ih(6) dev q(6) by (auto simp: rs1_def insert_sorted_set)
  show ?case using eq ih(2,5) vw sp mem by auto
qed

lemma cover_scan_iff:
  assumes "regions_from l rs" "cursor < fin"
  shows "(\<exists>c. cover_scan cursor fin rs = Some c \<and> fin \<le> c)
    \<longleftrightarrow> (\<forall>a. cursor \<le> a \<and> a < fin \<longrightarrow> region_at rs a \<noteq> None)"
  using assms
proof (induction rs arbitrary: cursor l)
  case Nil
  then show ?case by auto
next
  case (Cons r rs)
  have after: "regions_from (rg_end r) rs" using Cons by simp
  consider (skip) "rg_end r \<le> cursor \<or> rg_start r \<ge> fin" | (hole) "\<not> (rg_end r \<le> cursor \<or> rg_start r \<ge> fin)" "rg_start r > cursor"
    | (covered) "rg_start r \<le> cursor" "rg_end r \<ge> fin" | (partial) "rg_start r \<le> cursor" "cursor < rg_end r" "rg_end r < fin"
    by linarith
  then show ?case
  proof cases
    case skip
    then have "region_at (r # rs) a = region_at rs a" if "cursor \<le> a" "a < fin" for a
      using that by (auto simp: covers_def)
    then show ?thesis using skip Cons.IH [OF after Cons(3)] by auto
  next
    case hole
    have "region_at (r # rs) cursor = None"
      using hole region_at_below [OF after, of cursor] by (simp add: covers_def)
    then have "\<not> (\<forall>a. cursor \<le> a \<and> a < fin \<longrightarrow> region_at (r # rs) a \<noteq> None)"
      using Cons(3) by (meson order_refl)
    moreover have "cover_scan cursor fin (r # rs) = None" using hole by simp
    ultimately show ?thesis by simp
  next
    case covered
    then show ?thesis using Cons(3) by (auto simp: covers_def)
  next
    case partial
    then have "(\<forall>a. cursor \<le> a \<and> a < fin \<longrightarrow> region_at (r # rs) a \<noteq> None)
        \<longleftrightarrow> (\<forall>a. rg_end r \<le> a \<and> a < fin \<longrightarrow> region_at rs a \<noteq> None)"
      by (auto simp: covers_def)
    then show ?thesis using partial Cons.IH [OF after partial(3)] by simp
  qed
qed

lemma region_at_inside:
  assumes "s \<le> a" "a < e"
  shows "region_at (filter (\<lambda>r. rg_start r < e \<and> s < rg_end r) rs) a = region_at rs a"
  using assms by (induction rs) (auto simp: covers_def)

text \<open>What \<open>mprotect\<close> does: nothing on an error; otherwise the range was mapped throughout and
  only its protection changes.\<close>

definition reprotected :: "MemoryMap \<Rightarrow> u64 \<Rightarrow> u64 \<Rightarrow> Protection \<Rightarrow> MemoryMap \<Rightarrow> Span list \<Rightarrow> bool" where
  "reprotected m s e p m' changed \<longleftrightarrow>
     same_limits m m' \<and> regions_from 0 (mm_regions m')
     \<and> (\<forall>a. view (mm_regions m') a =
          (if s \<le> a \<and> a < e then map_option (\<lambda>(_, k). (p, k)) (view (mm_regions m) a) else view (mm_regions m) a))
     \<and> (\<forall>a. (\<exists>sp \<in> set changed. in_span a sp) \<longleftrightarrow> s \<le> a \<and> a < e)
     \<and> (\<forall>sp \<in> set changed. sp_protection sp = p)
     \<and> (list_all region_safe (mm_regions m) \<longrightarrow> \<not> (p_write p \<and> p_execute p)
          \<longrightarrow> list_all region_safe (mm_regions m'))"

lemma reinsert_reprotected:
  assumes rs: "regions_from 0 (mm_regions m)" and al: "aligned s" "aligned e" "s < e"
    and cov: "\<forall>a. s \<le> a \<and> a < e \<longrightarrow> region_at (mm_regions m) a \<noteq> None"
    and dev: "\<not> (p_execute p \<and> list_ex is_device (filter (\<lambda>r. rg_start r < e \<and> s < rg_end r) (mm_regions m)))"
  shows "\<exists>rs' changed. reinsert s e p (fst (vma_remove s e (mm_regions m)))
       (filter (\<lambda>r. rg_start r < e \<and> s < rg_end r) (mm_regions m)) = (rs', Ok changed)
     \<and> reprotected m s e p (m\<lparr>mm_regions := rs'\<rparr>) changed"
proof -
  let ?in = "filter (\<lambda>r. rg_start r < e \<and> s < rg_end r) (mm_regions m)"
  let ?kept = "fst (vma_remove s e (mm_regions m))"
  have kv: "view ?kept a = (if s \<le> a \<and> a < e then None else view (mm_regions m) a)" for a
    using vma_remove_view [OF rs al(3)] by simp
  have none: "\<forall>a. s \<le> a \<and> a < e \<longrightarrow> region_at ?in a \<noteq> None \<longrightarrow> region_at ?kept a = None"
    using kv by (simp add: view_def) (metis option.distinct(1) option.map_disc_iff)
  have iv: "view ?in a = view (mm_regions m) a" if "s \<le> a" "a < e" for a
    using region_at_inside [OF that, of "mm_regions m"] by (simp add: view_def)
  obtain rs' changed where r: "reinsert s e p ?kept ?in = (rs', Ok changed)" "regions_from 0 rs'"
    "\<forall>a. view rs' a = (if s \<le> a \<and> a < e \<and> region_at ?in a \<noteq> None
          then map_option (\<lambda>(_, k). (p, k)) (view ?in a) else view ?kept a)"
    "\<forall>a. (\<exists>sp \<in> set changed. in_span a sp) \<longleftrightarrow> s \<le> a \<and> a < e \<and> region_at ?in a \<noteq> None"
    "\<forall>sp \<in> set changed. sp_protection sp = p"
    "\<forall>r' \<in> set rs'. r' \<in> set ?kept \<or> (\<exists>r \<in> set ?in. rg_protection r' = p \<and> is_device r' = is_device r)"
    using reinsert_ok [OF vma_remove_from [OF rs al] regions_from_filter [OF rs] _ none al, of p] by auto
  have rin: "region_at ?in a \<noteq> None" if "s \<le> a" "a < e" for a
    using region_at_inside [OF that, of "mm_regions m"] cov that by simp
  have vw: "view rs' a = (if s \<le> a \<and> a < e then map_option (\<lambda>(_, k). (p, k)) (view (mm_regions m) a)
      else view (mm_regions m) a)" for a
  proof (cases "s \<le> a \<and> a < e")
    case True
    then show ?thesis using r(3) rin iv by simp
  next
    case False
    then show ?thesis using r(3) kv [of a] by auto
  qed
  have "list_all region_safe rs'" if "list_all region_safe (mm_regions m)" "\<not> (p_write p \<and> p_execute p)"
  proof -
    have kept: "list_all region_safe ?kept" by (rule vma_remove_safe [OF that(1)])
    have "region_safe r'" if r': "r' \<in> set rs'" for r'
    proof (cases "r' \<in> set ?kept")
      case True
      then show ?thesis using kept by (simp add: list_all_iff)
    next
      case False
      then obtain x where x: "x \<in> set ?in" "rg_protection r' = p" "is_device r' = is_device x"
        using bspec [OF r(6) r'] by blast
      have "\<not> (p_execute p \<and> is_device x)" using dev x(1) unfolding list_ex_iff by blast
      then show ?thesis using x \<open>\<not> (p_write p \<and> p_execute p)\<close> by (auto simp: region_safe_def)
    qed
    then show ?thesis by (simp add: list_all_iff)
  qed
  moreover have "(\<exists>sp \<in> set changed. in_span a sp) \<longleftrightarrow> s \<le> a \<and> a < e" for a
    using spec [OF r(4), of a] rin [of a] by metis
  ultimately have "reprotected m s e p (m\<lparr>mm_regions := rs'\<rparr>) changed"
    using r(2,5) vw by (simp add: reprotected_def)
  then show ?thesis using r(1) by blast
qed

lemma mprotect_cases:
  assumes inv: "vma_inv m" and mp: "vma_mprotect m s len p = (m', res)"
  shows "(\<exists>err. res = Err err \<and> m' = m) \<or> (res = Ok [] \<and> m' = m \<and> page_up len = Some 0) \<or>
    (\<exists>n changed. page_up len = Some n \<and> aligned s \<and> s < s + n \<and> res = Ok changed
      \<and> (\<forall>a. s \<le> a \<and> a < s + n \<longrightarrow> region_at (mm_regions m) a \<noteq> None)
      \<and> reprotected m s (s + n) p m' changed)"
proof (cases "\<not> aligned s \<or> page_up len = None")
  case True
  then show ?thesis using mp by (auto simp: vma_mprotect_def split: if_splits)
next
  case False
  then obtain n where n: "page_up len = Some n" and s: "aligned s" by auto
  show ?thesis
  proof (cases "checked_add s n")
    case None
    then show ?thesis using mp n s by (auto simp: vma_mprotect_def)
  next
    case (Some fin)
    then have fin: "fin = s + n" by (simp add: checked_add_Some_iff)
    show ?thesis
    proof (cases "n = 0")
      case True
      then show ?thesis using mp n s Some fin by (auto simp: vma_mprotect_def)
    next
      case npos: False
      have rs: "regions_from 0 (mm_regions m)" using inv by (simp add: vma_inv_def)
      have al: "aligned (s + n)" using page_up_Some(1) [OF n] s by auto
      let ?in = "filter (\<lambda>r. rg_start r < s + n \<and> s < rg_end r) (mm_regions m)"
      show ?thesis
      proof (cases "\<exists>c. cover_scan s (s + n) (mm_regions m) = Some c \<and> s + n \<le> c")
        case False
        then have "m' = m \<and> res = Err ENOMEM"
          using mp n s Some fin npos
          by (cases "cover_scan s (s + n) (mm_regions m)") (auto simp: vma_mprotect_def split: if_splits)
        then show ?thesis by simp
      next
        case True
        then obtain c where c: "cover_scan s (s + n) (mm_regions m) = Some c" "\<not> c < s + n" by auto
        have cov: "\<forall>a. s \<le> a \<and> a < s + n \<longrightarrow> region_at (mm_regions m) a \<noteq> None"
          using cover_scan_iff [OF rs, of s "s + n"] True npos by simp
        have eq: "vma_mprotect m s len p = (if p_execute p \<and> list_ex is_device ?in then (m, Err EACCES)
            else let (rs, res) = reinsert s (s + n) p (fst (vma_remove s (s + n) (mm_regions m))) ?in
              in (m\<lparr>mm_regions := rs\<rparr>, res))"
          using n s Some fin npos c by (simp add: vma_mprotect_def Let_def)
        show ?thesis
        proof (cases "p_execute p \<and> list_ex is_device ?in")
          case True
          then show ?thesis using eq mp by simp
        next
          case False
          from reinsert_reprotected [OF rs s al _ cov False] npos
          obtain rs' changed where r: "reinsert s (s + n) p (fst (vma_remove s (s + n) (mm_regions m))) ?in = (rs', Ok changed)"
            "reprotected m s (s + n) p (m\<lparr>mm_regions := rs'\<rparr>) changed" by auto
          then have "m' = m\<lparr>mm_regions := rs'\<rparr>" "res = Ok changed"
            using eq mp False by auto
          then show ?thesis using r(2) n s npos cov by auto
        qed
      qed
    qed
  qed
qed

lemma munmap_cases:
  assumes inv: "vma_inv m" and mu: "vma_munmap m s len = (m', res)"
  shows "(\<exists>err. res = Err err \<and> m' = m) \<or>
    (\<exists>n. page_up len = Some n \<and> 0 < n \<and> aligned s \<and> aligned (s + n)
      \<and> res = Ok (snd (vma_remove s (s + n) (mm_regions m)))
      \<and> m' = m\<lparr>mm_regions := fst (vma_remove s (s + n) (mm_regions m))\<rparr>)"
proof (cases "\<not> aligned s \<or> len = 0 \<or> page_up len = None")
  case True
  then show ?thesis using mu by (auto simp: vma_munmap_def split: if_splits)
next
  case False
  then obtain n where n: "page_up len = Some n" "aligned s" "0 < len" by auto
  have "0 < n" "aligned (s + n)" using page_up_Some [OF n(1)] n(2,3) by auto
  then show ?thesis using mu n
    by (cases "checked_add s n") (auto simp: vma_munmap_def checked_add_Some_iff split_beta)
qed

section \<open>The break\<close>

definition heap_region :: "MemoryMap \<Rightarrow> u64 \<Rightarrow> Region" where
  "heap_region m new_end =
     \<lparr>rg_start = mm_brk_start m, rg_end = new_end, rg_protection = prot_READ_WRITE, rg_kind = Heap\<rparr>"

lemma heap_region_simps [simp]:
  "rg_start (heap_region m e) = mm_brk_start m" "rg_end (heap_region m e) = e"
  "rg_protection (heap_region m e) = prot_READ_WRITE" "rg_kind (heap_region m e) = Heap"
  by (simp_all add: heap_region_def)

lemma set_brk_cases:
  assumes inv: "vma_inv m" and sb: "vma_set_brk m address = (m', res)"
  shows "(\<exists>err. res = Err err \<and> m' = m) \<or>
    (\<exists>old_end new_end. page_up (mm_brk m) = Some old_end \<and> page_up address = Some new_end
      \<and> mm_brk_start m \<le> address \<and> new_end \<le> mm_mmap_top m
      \<and> \<not> brk_blocked m (max old_end new_end) \<and> res = Ok (brk_change old_end new_end)
      \<and> m' = m\<lparr>mm_brk := address, mm_regions :=
          (let rest = filter (\<lambda>r. rg_kind r \<noteq> Heap) (mm_regions m) in
           if new_end > mm_brk_start m then insert_sorted rest (heap_region m new_end) else rest)\<rparr>
      \<and> \<not> overlaps (filter (\<lambda>r. rg_kind r \<noteq> Heap) (mm_regions m)) (mm_brk_start m) new_end
      \<and> regions_from 0 (mm_regions m'))"
proof (cases "address < mm_brk_start m \<or> page_up (mm_brk m) = None \<or> page_up address = None")
  case True
  then show ?thesis using sb by (auto simp: vma_set_brk_def split: if_splits option.splits)
next
  case False
  then obtain old_end new_end where e: "page_up (mm_brk m) = Some old_end" "page_up address = Some new_end"
    "mm_brk_start m \<le> address" by auto
  let ?rest = "filter (\<lambda>r. rg_kind r \<noteq> Heap) (mm_regions m)"
  show ?thesis
  proof (cases "new_end > mm_mmap_top m \<or> brk_blocked m (max old_end new_end)")
    case True
    then show ?thesis using sb e by (auto simp: vma_set_brk_def)
  next
    case False
    have rest: "regions_from 0 ?rest" using inv regions_from_filter by (simp add: vma_inv_def)
    have no: "\<not> overlaps ?rest (mm_brk_start m) new_end"
      using False by (auto simp: brk_blocked_def overlaps_def list_ex_iff)
    have al: "aligned (mm_brk_start m)" "aligned new_end"
      using inv page_up_Some(1) [OF e(2)] by (simp_all add: vma_inv_def)
    show ?thesis
    proof (cases "new_end > mm_brk_start m")
      case True
      note ins = vma_insert_ok [OF rest, of "heap_region m new_end", simplified, OF True al no]
      have "m' = m\<lparr>mm_regions := insert_sorted ?rest (heap_region m new_end), mm_brk := address\<rparr>"
        "res = Ok (brk_change old_end new_end)"
        using sb e False True ins(1) by (auto simp: vma_set_brk_def heap_region_def)
      then show ?thesis using e False True no ins(2) by auto
    next
      case le: False
      then have "m' = m\<lparr>mm_regions := ?rest, mm_brk := address\<rparr>" "res = Ok (brk_change old_end new_end)"
        using sb e False by (auto simp: vma_set_brk_def)
      then show ?thesis using e False le no rest by auto
    qed
  qed
qed

section \<open>The state machine of a process's memory map\<close>

definition prot_ok :: "Protection \<Rightarrow> bool" where
  "prot_ok p \<longleftrightarrow> \<not> (p_write p \<and> p_execute p)"

lemma from_linux_prot_ok: "from_linux bits = Ok p \<Longrightarrow> prot_ok p"
  by (auto simp: from_linux_def prot_ok_def Let_def split: if_splits)

text \<open>A map as \<open>exec\<close> makes it, and the system calls on it with a protection that
  \<open>from_linux\<close> accepted.\<close>

definition vma_init :: "MemoryMap \<Rightarrow> bool" where
  "vma_init m \<longleftrightarrow> (\<exists>regions brk_start mmap_top. vma_new regions brk_start mmap_top = Ok m
     \<and> aligned brk_start \<and> list_all region_safe regions)"

inductive vma_step :: "MemoryMap \<Rightarrow> MemoryMap \<Rightarrow> bool" where
  mmap: "from_linux bits = Ok p \<Longrightarrow> vma_step m (fst (vma_mmap m hint len p fixed))"
| mmap_device: "from_linux bits = Ok p \<Longrightarrow> vma_step m (fst (vma_mmap_device m hint len p physical fixed))"
| munmap: "vma_step m (fst (vma_munmap m start len))"
| mprotect: "from_linux bits = Ok p \<Longrightarrow> vma_step m (fst (vma_mprotect m start len p))"
| set_brk: "vma_step m (fst (vma_set_brk m address))"

inductive_cases vma_stepE: "vma_step m m'"

lemma insert_all_inv:
  "insert_all rs regions = Ok rs' \<Longrightarrow> regions_from 0 rs \<Longrightarrow> list_all region_safe rs \<Longrightarrow> list_all region_safe regions
     \<Longrightarrow> regions_from 0 rs' \<and> list_all region_safe rs'"
proof (induction regions arbitrary: rs)
  case (Cons r regions)
  obtain rs1 res where i: "vma_insert rs r = (rs1, res)" by fastforce
  with Cons(2) obtain u where "res = Ok u" by (cases res) auto
  then have "regions_from 0 rs1" "list_all region_safe rs1" "insert_all rs1 regions = Ok rs'"
    using vma_insert_cases [OF Cons(3) i] Cons(2,4,5) i insert_sorted_set [of rs r]
    by (auto simp: list_all_iff)
  then show ?case using Cons by simp
qed simp

lemma place_inv:
  assumes "vma_inv m" "prot_ok p" "(\<exists>x. k = Device x) \<longrightarrow> \<not> p_execute p"
  shows "vma_inv (fst (place m hint len p fixed k))"
proof -
  obtain m' res where pl: "place m hint len p fixed k = (m', res)" by fastforce
  have safe: "region_safe (new_region a n p k)" for a n
    using assms(2,3) by (auto simp: region_safe_def prot_ok_def is_device_def split: RegionKind.splits)
  have "vma_inv m'" if "placed m a n p fixed k m' ch" for a n ch
    using that assms(1) safe [of a n] by (simp add: placed_def vma_inv_def same_limits_def)
  then show ?thesis using place_cases [OF assms(1) pl] assms(1) pl by auto
qed

lemma vma_step_inv: "vma_step m m' \<Longrightarrow> vma_inv m \<Longrightarrow> vma_inv m'"
proof (induction rule: vma_step.induct)
  case (mmap bits p m hint len fixed)
  then show ?case by (simp add: vma_mmap_def place_inv from_linux_prot_ok)
next
  case (mmap_device bits p m hint len physical fixed)
  then show ?case by (auto simp: vma_mmap_device_def intro!: place_inv from_linux_prot_ok)
next
  case (munmap m start len)
  obtain m' res where mu: "vma_munmap m start len = (m', res)" by fastforce
  show ?case using munmap_cases [OF munmap mu] munmap mu
    by (auto simp: vma_inv_def vma_remove_from vma_remove_safe)
next
  case (mprotect bits p m start len)
  obtain m' res where mp: "vma_mprotect m start len p = (m', res)" by fastforce
  have "vma_inv m'" if "reprotected m s e p m' ch" for s e ch
    using that mprotect(2) from_linux_prot_ok [OF mprotect(1)]
    by (simp add: reprotected_def vma_inv_def same_limits_def prot_ok_def)
  then show ?case using mprotect_cases [OF mprotect(2) mp] mprotect mp by auto
next
  case (set_brk m address)
  obtain m' res where sb: "vma_set_brk m address = (m', res)" by fastforce
  have "region_safe (heap_region m e)" for e by (simp add: region_safe_def prot_READ_WRITE_def is_device_def)
  then have "list_all region_safe (insert_sorted (filter (\<lambda>r. rg_kind r \<noteq> Heap) (mm_regions m)) (heap_region m e))" for e
    using set_brk by (auto simp: vma_inv_def list_all_iff insert_sorted_set)
  then show ?case using set_brk_cases [OF set_brk sb] set_brk sb
    by (auto simp: vma_inv_def Let_def list_all_iff split: if_splits)
qed

interpretation vma: safe_system vma_init vma_step vma_inv
proof
  show "vma_inv m" if "vma_init m" for m
    using that insert_all_inv [of "[]"] by (auto simp: vma_init_def vma_new_def vma_inv_def)
  show "vma_inv m'" if "vma_inv m" "vma_step m m'" for m m'
    using vma_step_inv that by blast
qed

section \<open>Properties\<close>

text \<open>The page tables the kernel keeps beside the map, and what it does to them with a change.\<close>

definition prots :: "MemoryMap \<Rightarrow> u64 \<Rightarrow> Protection option" where
  "prots m a = map_option fst (view (mm_regions m) a)"

definition unmap_spans :: "Span list \<Rightarrow> (u64 \<Rightarrow> Protection option) \<Rightarrow> u64 \<Rightarrow> Protection option" where
  "unmap_spans sps t a = (if list_ex (in_span a) sps then None else t a)"

definition map_spans :: "Span list \<Rightarrow> (u64 \<Rightarrow> Protection option) \<Rightarrow> u64 \<Rightarrow> Protection option" where
  "map_spans sps t a = (case List.find (in_span a) sps of Some sp \<Rightarrow> Some (sp_protection sp) | None \<Rightarrow> t a)"

fun apply_brk :: "BrkChange \<Rightarrow> (u64 \<Rightarrow> Protection option) \<Rightarrow> u64 \<Rightarrow> Protection option" where
  "apply_brk Unchanged t = t"
| "apply_brk (BrkMap sp) t = map_spans [sp] t"
| "apply_brk (BrkUnmap sp) t = unmap_spans [sp] t"

lemma unmap_removed:
  assumes "regions_from 0 rs"
  shows "unmap_spans (snd (vma_remove s e rs)) (\<lambda>a. map_option fst (view rs a)) a
    = (if s \<le> a \<and> a < e then None else map_option fst (view rs a))"
proof -
  have "list_ex (in_span a) (snd (vma_remove s e rs)) \<longleftrightarrow> s \<le> a \<and> a < e \<and> view rs a \<noteq> None"
    using vma_remove_spans [OF assms, where s = s and e = e and a = a]
    unfolding list_ex_iff by (metis map_option_is_None not_Some_eq)
  then show ?thesis by (cases "view rs a") (auto simp: unmap_spans_def)
qed

lemma prots_def': "prots m = (\<lambda>a. map_option fst (view (mm_regions m) a))"
  by (simp add: prots_def fun_eq_iff)

text \<open>
  C10. in every state of a process's memory map that the memory system calls
  reach from a fresh program, the regions are sorted, disjoint, nonempty and
  page aligned, no region is writable and executable, device memory is never
  executable, and the break is not below the start of the heap.
\<close>

theorem vma_reachable_inv: "reaches vma_init vma_step m \<Longrightarrow> vma_inv m"
  by (rule vma.reaches_inv)

theorem vma_reachable_inv_witness:
  "vma_inv (fst (vma_mmap \<lparr>mm_regions = [], mm_brk_start = 0x400000, mm_brk = 0x400000, mm_mmap_top = 0x800000\<rparr>
     0 1 \<lparr>p_read = True, p_write = True, p_execute = False\<rparr> False))"
proof -
  have "vma_init \<lparr>mm_regions = [], mm_brk_start = 0x400000, mm_brk = 0x400000, mm_mmap_top = 0x800000\<rparr>"
    unfolding vma_init_def
    by (rule exI [of _ "[]"], rule exI [of _ "0x400000"], rule exI [of _ "0x800000"])
      (simp add: vma_new_def aligned_def is_multiple_of_def PAGE_SIZE_def)
  moreover have "from_linux 3 = Ok \<lparr>p_read = True, p_write = True, p_execute = False\<rparr>"
    by (simp add: from_linux_def Let_def)
  ultimately show ?thesis
    by (intro vma_reachable_inv) (rule reaches.step, erule reaches.start, rule vma_step.mmap)
qed

text \<open>
  \<open>find_free\<close> gives the highest free gap: the address it returns starts a
  gap of the wanted length, above the heap and the lowest address, below the
  stack guard and clear of every region, and no gap starts higher; when it
  returns nothing there is no such gap.
\<close>

theorem find_free_highest:
  assumes "vma_inv m" "0 < len" "page_up (mm_brk m) = Some up"
  shows "highest_gap (\<lambda>b. max up MIN_ADDRESS \<le> b \<and> b + len \<le> mm_mmap_top m
           \<and> \<not> overlaps (mm_regions m) b (b + len)) (find_free m len)"
  using find_free_loop_highest [of 0 "mm_regions m" len "max up MIN_ADDRESS" "mm_mmap_top m"] assms
  by (simp add: find_free_def vma_inv_def gap_at_def [abs_def])

theorem find_free_highest_witness:
  "highest_gap (\<lambda>b. 0x400000 \<le> b \<and> b + 0x2000 \<le> 0x800000
       \<and> \<not> overlaps [\<lparr>rg_start = 0x7ff000, rg_end = 0x800000, rg_protection = prot_READ, rg_kind = Anonymous\<rparr>] b (b + 0x2000))
     (Some 0x7fd000)"
proof -
  let ?r = "\<lparr>rg_start = 0x7ff000, rg_end = 0x800000, rg_protection = prot_READ, rg_kind = Anonymous\<rparr>"
  let ?m = "\<lparr>mm_regions = [?r], mm_brk_start = 0x400000, mm_brk = 0x400000, mm_mmap_top = 0x800000\<rparr>"
  have "vma_inv ?m"
    by (simp add: vma_inv_def aligned_def is_multiple_of_def PAGE_SIZE_def region_safe_def prot_READ_def is_device_def)
  moreover have up: "page_up (mm_brk ?m) = Some 0x400000"
    by (simp add: page_up_def checked_next_multiple_of_def next_multiple_of_def PAGE_SIZE_def)
  moreover have "find_free ?m 0x2000 = Some 0x7fd000"
    using up by (simp add: find_free_def MIN_ADDRESS_def checked_sub_def)
  ultimately show ?thesis using find_free_highest [of ?m "0x2000" "0x400000"] by (simp add: MIN_ADDRESS_def)
qed

lemma placed_prots:
  assumes "vma_inv m" "placed m a n p fixed k m' ch"
  shows "prots m' = map_spans [ch_new ch] (unmap_spans (ch_replaced ch) (prots m))"
proof
  fix b
  have rs: "regions_from 0 (mm_regions m)" using assms(1) by (simp add: vma_inv_def)
  have "prots m' b = (if a \<le> b \<and> b < a + n then Some p else prots m b)"
    using assms(2) by (simp add: placed_def prots_def page_view_def)
  moreover have "unmap_spans (ch_replaced ch) (prots m) b = prots m b" if "\<not> (a \<le> b \<and> b < a + n)"
    using that assms(2) unmap_removed [OF rs, of a "a + n" b]
    by (auto simp: placed_def prots_def' unmap_spans_def)
  ultimately show "prots m' b = map_spans [ch_new ch] (unmap_spans (ch_replaced ch) (prots m)) b"
    using assms(2) by (auto simp: map_spans_def in_span_def placed_def)
qed

text \<open>
  C27. a successful \<open>mmap\<close>, of anonymous or of device memory: unmapping the
  replaced spans and mapping the new one takes the old page tables to the
  tables the new map describes; the new span is the page-rounded length at a
  page-aligned address between the lowest address and the stack guard; a
  fixed request is placed at its hint, any other one only where nothing was
  mapped; and every address of a device mapping has its physical address
  behind it. A failed \<open>mmap\<close> leaves the map as it was.
\<close>

theorem vma_mmap_contract:
  assumes inv: "vma_inv m"
    and op: "(m', res) = vma_mmap m hint len p fixed \<and> k = Anonymous
      \<or> (m', res) = vma_mmap_device m hint len p physical fixed \<and> k = Device physical"
  shows "case res of
      Err e \<Rightarrow> m' = m
    | Ok ch \<Rightarrow>
        prots m' = map_spans [ch_new ch] (unmap_spans (ch_replaced ch) (prots m))
        \<and> aligned (ch_address ch) \<and> sp_start (ch_new ch) = ch_address ch
        \<and> sp_end (ch_new ch) = ch_address ch + next_multiple_of len PAGE_SIZE
        \<and> MIN_ADDRESS \<le> ch_address ch \<and> sp_end (ch_new ch) \<le> mm_mmap_top m
        \<and> (fixed \<longrightarrow> ch_address ch = hint)
        \<and> (\<not> fixed \<longrightarrow> ch_replaced ch = [] \<and> (\<forall>a. in_span a (ch_new ch) \<longrightarrow> prots m a = None))
        \<and> (\<forall>a. in_span a (ch_new ch) \<longrightarrow> view (mm_regions m') a = Some (p,
              (case k of Device x \<Rightarrow> Device (x + (a - ch_address ch)) | _ \<Rightarrow> Anonymous)))"
proof -
  have "place m hint len p fixed k = (m', res) \<or> (\<exists>e. res = Err e \<and> m' = m)"
    using op by (auto simp: vma_mmap_def vma_mmap_device_def split: if_splits)
  then consider "\<exists>e. res = Err e \<and> m' = m"
    | (ok) n a ch where "page_up len = Some n" "0 < n" "chosen m hint n fixed a" "res = Ok ch" "aligned a"
      "placed m a n p fixed k m' ch"
    using place_cases [OF inv, of hint len p fixed k m' res] by blast
  then show ?thesis
  proof cases
    case ok
    have rs: "regions_from 0 (mm_regions m)" using inv by (simp add: vma_inv_def)
    note b = chosen_bounds [OF inv ok(3,2)]
    have ch: "ch_new ch = \<lparr>sp_start = a, sp_end = a + n, sp_protection = p\<rparr>" "ch_address ch = a"
      "\<not> fixed \<Longrightarrow> ch_replaced ch = []" using ok(6) by (simp_all add: placed_def)
    have free: "prots m x = None" if "\<not> fixed" "in_span x (ch_new ch)" for x
      using not_overlaps_view [OF rs, of a "a + n"] b(3) that ok(2) ch(1)
      by (auto simp: prots_def view_def in_span_def)
    have k: "k = Anonymous \<or> k = Device physical" using op by auto
    have vw: "view (mm_regions m') x = Some (p, (case k of Device y \<Rightarrow> Device (y + (x - ch_address ch)) | _ \<Rightarrow> Anonymous))"
      if "in_span x (ch_new ch)" for x
      using that ok(6) k ch(1,2) by (auto simp: placed_def page_view_def piece_kind_def in_span_def)
    have hint: "fixed \<Longrightarrow> a = hint" using ok(3) by (simp add: chosen_def)
    have n: "n = next_multiple_of len PAGE_SIZE" by (rule page_up_Some(5) [OF ok(1)])
    show ?thesis using placed_prots [OF inv ok(6)] ok(4,5) b(1,2) ch hint n free vw by simp
  qed auto
qed

theorem vma_mmap_contract_witness:
  "let m = \<lparr>mm_regions = [], mm_brk_start = 0x400000, mm_brk = 0x400000, mm_mmap_top = 0x800000\<rparr> in
     prots (fst (vma_mmap m 0 1 prot_READ_WRITE False))
     = map_spans [\<lparr>sp_start = 0x7ff000, sp_end = 0x800000, sp_protection = prot_READ_WRITE\<rparr>] (unmap_spans [] (prots m))"
proof -
  let ?m = "\<lparr>mm_regions = [], mm_brk_start = 0x400000, mm_brk = 0x400000, mm_mmap_top = 0x800000\<rparr>"
  have inv: "vma_inv ?m" by (simp add: vma_inv_def aligned_def is_multiple_of_def PAGE_SIZE_def)
  have run: "vma_mmap ?m 0 1 prot_READ_WRITE False =
      (?m\<lparr>mm_regions := [\<lparr>rg_start = 0x7ff000, rg_end = 0x800000, rg_protection = prot_READ_WRITE, rg_kind = Anonymous\<rparr>]\<rparr>,
       Ok \<lparr>ch_address = 0x7ff000, ch_replaced = [],
          ch_new = \<lparr>sp_start = 0x7ff000, sp_end = 0x800000, sp_protection = prot_READ_WRITE\<rparr>\<rparr>)"
    by (simp add: vma_mmap_def place_def page_up_def checked_next_multiple_of_def next_multiple_of_def
        PAGE_SIZE_def find_free_def checked_sub_def MIN_ADDRESS_def place_at_def vma_insert_def
        aligned_def is_multiple_of_def)
  show ?thesis using vma_mmap_contract [OF inv disjI1, of _ _ 0 1 prot_READ_WRITE False Anonymous, OF conjI, OF run [symmetric] refl]
    run by simp
qed

text \<open>
  C28. a successful \<open>munmap\<close> leaves nothing mapped in the page-rounded range
  and everything outside it as it was, device addresses included; the spans
  it returns are exactly what was mapped there, so unmapping them takes the
  old page tables to the new ones. A failed one leaves the map as it was.
\<close>

theorem vma_munmap_contract:
  assumes inv: "vma_inv m" and op: "vma_munmap m start len = (m', res)"
  shows "case res of
      Err e \<Rightarrow> m' = m
    | Ok removed \<Rightarrow>
        prots m' = unmap_spans removed (prots m)
        \<and> (\<forall>a. view (mm_regions m') a =
             (if start \<le> a \<and> a < start + next_multiple_of len PAGE_SIZE then None else view (mm_regions m) a))
        \<and> (\<forall>a p. (\<exists>sp \<in> set removed. in_span a sp \<and> sp_protection sp = p)
             \<longleftrightarrow> start \<le> a \<and> a < start + next_multiple_of len PAGE_SIZE \<and> prots m a = Some p)"
  using munmap_cases [OF inv op]
proof (elim disjE exE conjE)
  fix n
  assume n: "page_up len = Some n" "0 < n" and res: "res = Ok (snd (vma_remove start (start + n) (mm_regions m)))"
    and m': "m' = m\<lparr>mm_regions := fst (vma_remove start (start + n) (mm_regions m))\<rparr>"
  have rs: "regions_from 0 (mm_regions m)" using inv by (simp add: vma_inv_def)
  have nn: "next_multiple_of len PAGE_SIZE = n" using page_up_Some(5) [OF n(1)] by simp
  have vw: "view (mm_regions m') a = (if start \<le> a \<and> a < start + n then None else view (mm_regions m) a)" for a
    using vma_remove_view [OF rs, of start "start + n" a] n(2) m' by simp
  have "prots m' a = unmap_spans (snd (vma_remove start (start + n) (mm_regions m))) (prots m) a" for a
    using vw [of a] unmap_removed [OF rs, of start "start + n" a] by (simp add: prots_def')
  then show ?thesis
    using vw vma_remove_spans [OF rs, of start "start + n"] res by (simp add: nn prots_def' fun_eq_iff)
qed simp

theorem vma_munmap_contract_witness:
  "let r = \<lparr>rg_start = 0x10000, rg_end = 0x13000, rg_protection = prot_READ, rg_kind = Device 0xe0000000\<rparr>;
       m = \<lparr>mm_regions = [r], mm_brk_start = 0x400000, mm_brk = 0x400000, mm_mmap_top = 0x800000\<rparr> in
     view (mm_regions (fst (vma_munmap m 0x11000 1))) 0x12000 = Some (prot_READ, Device 0xe0002000)
     \<and> view (mm_regions (fst (vma_munmap m 0x11000 1))) 0x11fff = None"
proof -
  let ?r = "\<lparr>rg_start = 0x10000, rg_end = 0x13000, rg_protection = prot_READ, rg_kind = Device 0xe0000000\<rparr>"
  let ?m = "\<lparr>mm_regions = [?r], mm_brk_start = 0x400000, mm_brk = 0x400000, mm_mmap_top = 0x800000\<rparr>"
  have inv: "vma_inv ?m"
    by (simp add: vma_inv_def aligned_def is_multiple_of_def PAGE_SIZE_def region_safe_def prot_READ_def)
  obtain m' removed where run: "vma_munmap ?m 0x11000 1 = (m', Ok removed)"
    by (simp add: vma_munmap_def aligned_def is_multiple_of_def PAGE_SIZE_def page_up_def
        checked_next_multiple_of_def next_multiple_of_def checked_add_def split_beta)
  from vma_munmap_contract [OF inv run]
  have "view (mm_regions m') 0x12000 = view [?r] 0x12000" "view (mm_regions m') 0x11fff = None"
    by (simp_all add: next_multiple_of_def PAGE_SIZE_def)
  then show ?thesis using run by (simp add: page_view_def piece_kind_def covers_def)
qed

text \<open>
  C29. \<open>mprotect\<close> of a nonempty range succeeds only when every address of it is
  mapped; then the spans it returns cover exactly the range, re-protecting
  them takes the old page tables to the new ones, and the memory behind every
  address stays what it was. A failed one leaves the map as it was.
\<close>

theorem vma_mprotect_contract:
  assumes inv: "vma_inv m" and op: "vma_mprotect m start len p = (m', res)"
  shows "case res of
      Err e \<Rightarrow> m' = m
    | Ok changed \<Rightarrow>
        prots m' = map_spans changed (prots m)
        \<and> (\<forall>a. list_ex (in_span a) changed \<longleftrightarrow> start \<le> a \<and> a < start + next_multiple_of len PAGE_SIZE)
        \<and> (\<forall>a. start \<le> a \<and> a < start + next_multiple_of len PAGE_SIZE \<longrightarrow> prots m a \<noteq> None)
        \<and> (\<forall>a. map_option snd (view (mm_regions m') a) = map_option snd (view (mm_regions m) a))"
  using mprotect_cases [OF inv op]
proof (elim disjE exE conjE)
  assume "res = Ok []" "m' = m" and n: "page_up len = Some 0"
  moreover have "next_multiple_of len PAGE_SIZE = 0" using page_up_Some(5) [OF n] by simp
  ultimately show ?thesis by (auto simp: map_spans_def fun_eq_iff)
next
  fix n changed
  assume n: "page_up len = Some n" and res: "res = Ok changed"
    and cov: "\<forall>a. start \<le> a \<and> a < start + n \<longrightarrow> region_at (mm_regions m) a \<noteq> None"
    and rp: "reprotected m start (start + n) p m' changed"
  have nn: "next_multiple_of len PAGE_SIZE = n" using page_up_Some(5) [OF n] by simp
  have vw: "view (mm_regions m') a = (if start \<le> a \<and> a < start + n
      then map_option (\<lambda>(_, k). (p, k)) (view (mm_regions m) a) else view (mm_regions m) a)" for a
    using rp by (simp add: reprotected_def)
  have ex: "list_ex (in_span a) changed \<longleftrightarrow> start \<le> a \<and> a < start + n" for a
    using rp by (simp add: reprotected_def list_ex_iff)
  have mapped: "prots m a \<noteq> None" if "start \<le> a \<and> a < start + n" for a
    using cov that by (simp add: prots_def view_def)
  have "prots m' a = map_spans changed (prots m) a" for a
  proof (cases "List.find (in_span a) changed")
    case None
    then have "\<not> list_ex (in_span a) changed" by (auto simp: find_None_iff list_ex_iff)
    then show ?thesis using vw [of a] ex [of a] None by (auto simp: prots_def map_spans_def)
  next
    case (Some sp)
    then have sp: "sp \<in> set changed" "in_span a sp" using find_Some_split [OF Some] by auto
    then have "start \<le> a \<and> a < start + n" using ex [of a] by (auto simp: list_ex_iff)
    moreover have "sp_protection sp = p" using rp sp(1) by (simp add: reprotected_def)
    ultimately show ?thesis using vw [of a] mapped [of a] Some
      by (cases "view (mm_regions m) a") (auto simp: prots_def map_spans_def)
  qed
  moreover have "map_option snd (view (mm_regions m') a) = map_option snd (view (mm_regions m) a)" for a
    using vw [of a] by (cases "view (mm_regions m) a") auto
  ultimately show ?thesis using res ex mapped by (simp add: nn fun_eq_iff)
qed simp

theorem vma_mprotect_contract_witness:
  "let r = \<lparr>rg_start = 0x10000, rg_end = 0x13000, rg_protection = prot_READ_WRITE, rg_kind = Anonymous\<rparr>;
       m = \<lparr>mm_regions = [r], mm_brk_start = 0x400000, mm_brk = 0x400000, mm_mmap_top = 0x800000\<rparr> in
     prots (fst (vma_mprotect m 0x11000 1 prot_READ)) =
       map_spans [\<lparr>sp_start = 0x11000, sp_end = 0x12000, sp_protection = prot_READ\<rparr>] (prots m)"
proof -
  let ?r = "\<lparr>rg_start = 0x10000, rg_end = 0x13000, rg_protection = prot_READ_WRITE, rg_kind = Anonymous\<rparr>"
  let ?m = "\<lparr>mm_regions = [?r], mm_brk_start = 0x400000, mm_brk = 0x400000, mm_mmap_top = 0x800000\<rparr>"
  have inv: "vma_inv ?m"
    by (simp add: vma_inv_def aligned_def is_multiple_of_def PAGE_SIZE_def region_safe_def
        prot_READ_WRITE_def is_device_def)
  obtain m' where run: "vma_mprotect ?m 0x11000 1 prot_READ =
      (m', Ok [\<lparr>sp_start = 0x11000, sp_end = 0x12000, sp_protection = prot_READ\<rparr>])"
    by (simp add: vma_mprotect_def aligned_def is_multiple_of_def PAGE_SIZE_def page_up_def
        checked_next_multiple_of_def next_multiple_of_def checked_add_def prot_READ_def
        vma_remove_Cons vma_insert_def piece_def piece_kind_def)
  from vma_mprotect_contract [OF inv run] show ?thesis using run by simp
qed

text \<open>
  The heap region is one piece, from its start to the page-rounded break, and
  all of it has the protection \<open>READ_WRITE\<close> it got when it grew.
\<close>

definition heap_intact :: "MemoryMap \<Rightarrow> bool" where
  "heap_intact m \<longleftrightarrow> (case page_up (mm_brk m) of None \<Rightarrow> False
     | Some old_end \<Rightarrow> filter (\<lambda>r. rg_kind r = Heap) (mm_regions m)
          = (if old_end > mm_brk_start m then [heap_region m old_end] else []))"

lemma region_at_filter_cases:
  assumes "regions_from lo rs"
  shows "region_at rs a = (case region_at (filter P rs) a of Some r \<Rightarrow> Some r
      | None \<Rightarrow> region_at (filter (\<lambda>r. \<not> P r) rs) a)"
  using assms
proof (induction rs arbitrary: lo)
  case (Cons r rs)
  show ?case
  proof (cases "covers r a")
    case True
    then have "region_at rs a = None"
      using Cons(2) region_at_below [of "rg_end r" rs a] by (simp add: covers_def)
    then have "region_at (filter Q rs) a = None" for Q by (auto simp: region_at_None_iff)
    then show ?thesis using True by simp
  next
    case False
    then show ?thesis using Cons by (auto split: option.split)
  qed
qed simp

lemma heap_view:
  assumes "regions_from 0 (mm_regions m)"
    "filter (\<lambda>r. rg_kind r = Heap) (mm_regions m) = (if e > mm_brk_start m then [heap_region m e] else [])"
  shows "prots m a = (if mm_brk_start m \<le> a \<and> a < e then Some prot_READ_WRITE
     else map_option fst (view (filter (\<lambda>r. rg_kind r \<noteq> Heap) (mm_regions m)) a))"
  using region_at_filter_cases [OF assms(1), of a "\<lambda>r. rg_kind r = Heap"] assms(2)
  by (auto simp: prots_def view_def covers_def page_view_def split: option.splits if_splits)

lemma filter_insert_sorted_heap:
  "filter (\<lambda>r. rg_kind r = Heap) (insert_sorted (filter (\<lambda>r. rg_kind r \<noteq> Heap) rs) h)
     = (if rg_kind h = Heap then [h] else [])"
  "filter (\<lambda>r. rg_kind r \<noteq> Heap) (insert_sorted (filter (\<lambda>r. rg_kind r \<noteq> Heap) rs) h)
     = (if rg_kind h = Heap then filter (\<lambda>r. rg_kind r \<noteq> Heap) rs
        else insert_sorted (filter (\<lambda>r. rg_kind r \<noteq> Heap) rs) h)"
  by (induction rs) auto

lemma not_blocked_rest:
  assumes "\<not> brk_blocked m limit" "mm_brk_start m \<le> a" "a < limit"
  shows "view (filter (\<lambda>r. rg_kind r \<noteq> Heap) (mm_regions m)) a = None"
proof -
  have "\<not> covers r a" if "r \<in> set (filter (\<lambda>r. rg_kind r \<noteq> Heap) (mm_regions m))" for r
    using assms that by (force simp: brk_blocked_def list_ex_iff covers_def)
  then show ?thesis by (simp add: view_def region_at_None_iff)
qed

text \<open>
  C35. when the heap region is in one piece and readable and writable
  throughout, as it is before a program unmaps or re-protects part of it, a
  successful \<open>set_brk\<close> moves the break to the address, the change it returns takes
  the old page tables to the new ones, and the heap region stays in one
  readable and writable piece below the stack guard. A failed one leaves the
  map as it was. The two theorems that follow show both conditions needed.
\<close>

theorem vma_set_brk_contract:
  assumes inv: "vma_inv m" and heap: "heap_intact m" and op: "vma_set_brk m address = (m', res)"
  shows "case res of
      Err e \<Rightarrow> m' = m
    | Ok change \<Rightarrow> prots m' = apply_brk change (prots m) \<and> mm_brk m' = address \<and> heap_intact m'
        \<and> address \<le> mm_mmap_top m"
  using set_brk_cases [OF inv op]
proof (elim disjE exE conjE)
  fix old_end new_end
  assume e: "page_up (mm_brk m) = Some old_end" "page_up address = Some new_end"
    and lo: "mm_brk_start m \<le> address" and hi: "new_end \<le> mm_mmap_top m"
    and nb: "\<not> brk_blocked m (max old_end new_end)" and res: "res = Ok (brk_change old_end new_end)"
    and m': "m' = m\<lparr>mm_brk := address, mm_regions :=
          (let rest = filter (\<lambda>r. rg_kind r \<noteq> Heap) (mm_regions m) in
           if new_end > mm_brk_start m then insert_sorted rest (heap_region m new_end) else rest)\<rparr>"
    and rs': "regions_from 0 (mm_regions m')"
  let ?rest = "filter (\<lambda>r. rg_kind r \<noteq> Heap) (mm_regions m)"
  have rs: "regions_from 0 (mm_regions m)" and bs: "mm_brk_start m \<le> mm_brk m" using inv by (simp_all add: vma_inv_def)
  have b: "mm_brk_start m \<le> old_end" "mm_brk_start m \<le> new_end" "address \<le> new_end"
    using page_up_Some(2) [OF e(1)] page_up_Some(2) [OF e(2)] bs lo by auto
  have hr: "heap_region m' x = heap_region m x" for x by (simp add: m' heap_region_def)
  have f': "filter (\<lambda>r. rg_kind r = Heap) (mm_regions m') = (if new_end > mm_brk_start m' then [heap_region m' new_end] else [])"
    "filter (\<lambda>r. rg_kind r \<noteq> Heap) (mm_regions m') = ?rest"
    using filter_insert_sorted_heap [of "mm_regions m" "heap_region m new_end"] unfolding hr
    by (simp_all add: m' Let_def)
  have p': "prots m' a = (if mm_brk_start m \<le> a \<and> a < new_end then Some prot_READ_WRITE else map_option fst (view ?rest a))" for a
    using heap_view [OF rs' f'(1), of a] f'(2) by (simp add: m')
  have p: "prots m a = (if mm_brk_start m \<le> a \<and> a < old_end then Some prot_READ_WRITE else map_option fst (view ?rest a))" for a
    using heap_view [OF rs, of old_end a] heap e(1) by (simp add: heap_intact_def)
  have none: "view ?rest a = None" if "mm_brk_start m \<le> a" "a < old_end \<or> a < new_end" for a
  proof (rule not_blocked_rest [OF nb that(1)])
    show "a < max old_end new_end" using that(2) by linarith
  qed
  have "prots m' a = apply_brk (brk_change old_end new_end) (prots m) a" for a
    using p [of a] p' [of a] none [of a] b
    by (auto simp: brk_change_def map_spans_def unmap_spans_def in_span_def)
  moreover have "heap_intact m'" using f'(1) e(2) by (simp add: heap_intact_def m')
  ultimately show ?thesis using res b(3) hi by (auto simp: m' fun_eq_iff)
qed simp

theorem vma_set_brk_contract_witness:
  "let m = \<lparr>mm_regions = [], mm_brk_start = 0x400000, mm_brk = 0x400000, mm_mmap_top = 0x800000\<rparr> in
     prots (fst (vma_set_brk m 0x400001)) =
       apply_brk (BrkMap \<lparr>sp_start = 0x400000, sp_end = 0x401000, sp_protection = prot_READ_WRITE\<rparr>) (prots m)"
proof -
  let ?m = "\<lparr>mm_regions = [], mm_brk_start = 0x400000, mm_brk = 0x400000, mm_mmap_top = 0x800000\<rparr>"
  have inv: "vma_inv ?m" "heap_intact ?m"
    by (simp_all add: vma_inv_def heap_intact_def aligned_def is_multiple_of_def PAGE_SIZE_def page_up_def
        checked_next_multiple_of_def next_multiple_of_def)
  obtain m' where run: "vma_set_brk ?m 0x400001 =
      (m', Ok (BrkMap \<lparr>sp_start = 0x400000, sp_end = 0x401000, sp_protection = prot_READ_WRITE\<rparr>))"
    by (simp add: vma_set_brk_def PAGE_SIZE_def page_up_def checked_next_multiple_of_def next_multiple_of_def
        brk_blocked_def vma_insert_def aligned_def is_multiple_of_def brk_change_def)
  from vma_set_brk_contract [OF inv run] show ?thesis using run by simp
qed

text \<open>
  C36. with a hole in the heap the change \<open>set_brk\<close> returns is not enough: a
  program that unmaps the first page of its heap and then grows the heap by a
  page is told to map the new page only, while the map it is left with has
  the heap in one piece again, so the map says the first page is mapped and
  the page tables do not have it.
\<close>

theorem set_brk_reclaims_hole:
  "let m0 = \<lparr>mm_regions = [], mm_brk_start = 0x400000, mm_brk = 0x400000, mm_mmap_top = 0x800000\<rparr>;
       m1 = fst (vma_set_brk m0 0x402000);
       m2 = fst (vma_munmap m1 0x400000 0x1000);
       (m3, res) = vma_set_brk m2 0x403000
   in vma_inv m2 \<and> prots m2 0x400000 = None \<and> prots m3 0x400000 = Some prot_READ_WRITE
      \<and> res = Ok (BrkMap \<lparr>sp_start = 0x402000, sp_end = 0x403000, sp_protection = prot_READ_WRITE\<rparr>)"
proof -
  define m0 where "m0 = \<lparr>mm_regions = [], mm_brk_start = 0x400000, mm_brk = 0x400000, mm_mmap_top = 0x800000\<rparr>"
  have ev: "page_up 0x400000 = Some 0x400000" "page_up 0x402000 = Some 0x402000" "page_up 0x403000 = Some 0x403000"
    "page_up 0x1000 = Some 0x1000" "aligned 0x400000" "aligned 0x402000" "aligned 0x403000" "aligned 0x401000"
    by (simp_all add: page_up_def checked_next_multiple_of_def next_multiple_of_def PAGE_SIZE_def aligned_def
        is_multiple_of_def)
  have s1: "fst (vma_set_brk m0 0x402000) = m0\<lparr>mm_regions := [\<lparr>rg_start = 0x400000, rg_end = 0x402000,
      rg_protection = prot_READ_WRITE, rg_kind = Heap\<rparr>], mm_brk := 0x402000\<rparr>"
    by (simp add: vma_set_brk_def m0_def ev brk_blocked_def vma_insert_def)
  have s2: "fst (vma_munmap (fst (vma_set_brk m0 0x402000)) 0x400000 0x1000) =
      m0\<lparr>mm_regions := [\<lparr>rg_start = 0x401000, rg_end = 0x402000,
      rg_protection = prot_READ_WRITE, rg_kind = Heap\<rparr>], mm_brk := 0x402000\<rparr>"
    unfolding s1
    by (simp add: vma_munmap_def m0_def ev checked_add_def vma_remove_Cons piece_def piece_kind_def split_beta)
  have s3: "vma_set_brk (m0\<lparr>mm_regions := [\<lparr>rg_start = 0x401000, rg_end = 0x402000,
      rg_protection = prot_READ_WRITE, rg_kind = Heap\<rparr>], mm_brk := 0x402000\<rparr>) 0x403000 =
      (m0\<lparr>mm_regions := [\<lparr>rg_start = 0x400000, rg_end = 0x403000,
      rg_protection = prot_READ_WRITE, rg_kind = Heap\<rparr>], mm_brk := 0x403000\<rparr>,
      Ok (BrkMap \<lparr>sp_start = 0x402000, sp_end = 0x403000, sp_protection = prot_READ_WRITE\<rparr>))"
    by (simp add: vma_set_brk_def m0_def ev brk_blocked_def vma_insert_def brk_change_def)
  show ?thesis
    unfolding m0_def [symmetric] Let_def s2 s3
    by (simp add: vma_inv_def m0_def ev region_safe_def prot_READ_WRITE_def is_device_def prots_def covers_def page_view_def)
qed

text \<open>
  a protection the program gave its heap is not kept: a program that makes
  its heap read-only and then grows it by a page is told to map the new page
  only, while the map it is left with says the whole heap is readable and
  writable, so the map and the page tables disagree about the old pages.
\<close>

theorem set_brk_forgets_mprotect:
  "let m0 = \<lparr>mm_regions = [], mm_brk_start = 0x400000, mm_brk = 0x400000, mm_mmap_top = 0x800000\<rparr>;
       m1 = fst (vma_set_brk m0 0x402000);
       m2 = fst (vma_mprotect m1 0x400000 0x2000 prot_READ);
       (m3, res) = vma_set_brk m2 0x403000
   in vma_inv m2 \<and> prots m2 0x400000 = Some prot_READ \<and> prots m3 0x400000 = Some prot_READ_WRITE
      \<and> res = Ok (BrkMap \<lparr>sp_start = 0x402000, sp_end = 0x403000, sp_protection = prot_READ_WRITE\<rparr>)"
proof -
  define m0 where "m0 = \<lparr>mm_regions = [], mm_brk_start = 0x400000, mm_brk = 0x400000, mm_mmap_top = 0x800000\<rparr>"
  have ev: "page_up 0x400000 = Some 0x400000" "page_up 0x402000 = Some 0x402000" "page_up 0x403000 = Some 0x403000"
    "page_up 0x2000 = Some 0x2000" "aligned 0x400000" "aligned 0x402000" "aligned 0x403000"
    by (simp_all add: page_up_def checked_next_multiple_of_def next_multiple_of_def PAGE_SIZE_def aligned_def
        is_multiple_of_def)
  have s1: "fst (vma_set_brk m0 0x402000) = m0\<lparr>mm_regions := [\<lparr>rg_start = 0x400000, rg_end = 0x402000,
      rg_protection = prot_READ_WRITE, rg_kind = Heap\<rparr>], mm_brk := 0x402000\<rparr>"
    by (simp add: vma_set_brk_def m0_def ev brk_blocked_def vma_insert_def)
  have s2: "fst (vma_mprotect (fst (vma_set_brk m0 0x402000)) 0x400000 0x2000 prot_READ) =
      m0\<lparr>mm_regions := [\<lparr>rg_start = 0x400000, rg_end = 0x402000,
      rg_protection = prot_READ, rg_kind = Heap\<rparr>], mm_brk := 0x402000\<rparr>"
    unfolding s1
    by (simp add: vma_mprotect_def m0_def ev checked_add_def is_device_def vma_remove_Cons vma_insert_def piece_def
        piece_kind_def split_beta prot_READ_def)
  have s3: "vma_set_brk (m0\<lparr>mm_regions := [\<lparr>rg_start = 0x400000, rg_end = 0x402000,
      rg_protection = prot_READ, rg_kind = Heap\<rparr>], mm_brk := 0x402000\<rparr>) 0x403000 =
      (m0\<lparr>mm_regions := [\<lparr>rg_start = 0x400000, rg_end = 0x403000,
      rg_protection = prot_READ_WRITE, rg_kind = Heap\<rparr>], mm_brk := 0x403000\<rparr>,
      Ok (BrkMap \<lparr>sp_start = 0x402000, sp_end = 0x403000, sp_protection = prot_READ_WRITE\<rparr>))"
    by (simp add: vma_set_brk_def m0_def ev brk_blocked_def vma_insert_def brk_change_def)
  show ?thesis
    unfolding m0_def [symmetric] Let_def s2 s3
    by (simp add: vma_inv_def m0_def ev region_safe_def prot_READ_def is_device_def prots_def covers_def page_view_def)
qed

end
