(* ===== verification/Buddy.thy ===== *)
theory Buddy
  imports Prelude
begin

text \<open>
  Buddy free lists (\<open>kernel/src/mm/buddy.rs\<close>): doubly linked lists of free
  blocks, their nodes stored in the first bytes of the blocks, over a bitmap
  of frame states. The memory that nodes live in is a function from frames to
  nodes: a frame that is not the head of a listed block holds whatever its
  last owner left there. A \<open>FrameStore\<close> is the bitmap with this memory.
\<close>

section \<open>Data\<close>

definition MAX_ORDER :: nat where "MAX_ORDER = 18"
definition DMA32_FRAMES :: nat where "DMA32_FRAMES = 2 ^ 20"

definition NONE :: nat where "NONE = 2 ^ 64 - 1"

definition FREE_MAGIC :: "64 word" where "FREE_MAGIC = 0x5341454f42554459"

definition head_tag :: "nat \<Rightarrow> 64 word" where
  "head_tag frame = FREE_MAGIC XOR of_nat frame"

datatype State = Reserved | Free | Allocated

datatype Zone = Dma32 | Normal

definition Zone_of :: "nat \<Rightarrow> Zone" where
  "Zone_of frame = (if frame < DMA32_FRAMES then Dma32 else Normal)"

datatype ReleaseError = OutOfRange | Unaligned | DuplicateRelease | DoubleFree | InvalidRange

record FreeNode =
  fn_magic :: "64 word"
  fn_order :: nat
  fn_prev :: nat
  fn_next :: nat

record FrameStore =
  fs_count :: nat
  fs_state :: "nat \<Rightarrow> State"
  fs_node :: "nat \<Rightarrow> FreeNode"

definition set_state :: "nat \<Rightarrow> State \<Rightarrow> FrameStore \<Rightarrow> FrameStore" where
  "set_state frame st s = s\<lparr>fs_state := (fs_state s)(frame := st)\<rparr>"

text \<open>\<open>for index in frame..end { store.set_state(index, state) }\<close>\<close>

definition set_states :: "nat \<Rightarrow> nat \<Rightarrow> State \<Rightarrow> FrameStore \<Rightarrow> FrameStore" where
  "set_states frame fin st s = fold (\<lambda>index. set_state index st) [frame..<fin] s"

record BuddyLists =
  bl_heads :: "Zone \<Rightarrow> nat \<Rightarrow> nat"
  bl_counts :: "Zone \<Rightarrow> nat \<Rightarrow> nat"

type_synonym buddy_sys = "BuddyLists \<times> FrameStore"

definition set_head :: "Zone \<Rightarrow> nat \<Rightarrow> nat \<Rightarrow> BuddyLists \<Rightarrow> BuddyLists" where
  "set_head z order h b = b\<lparr>bl_heads := (bl_heads b)(z := (bl_heads b z)(order := h))\<rparr>"

definition set_counter :: "Zone \<Rightarrow> nat \<Rightarrow> nat \<Rightarrow> BuddyLists \<Rightarrow> BuddyLists" where
  "set_counter z order n b = b\<lparr>bl_counts := (bl_counts b)(z := (bl_counts b z)(order := n))\<rparr>"

definition set_node :: "nat \<Rightarrow> FreeNode \<Rightarrow> FrameStore \<Rightarrow> FrameStore" where
  "set_node frame nd s = s\<lparr>fs_node := (fs_node s)(frame := nd)\<rparr>"

section \<open>Operations\<close>

definition lists_new :: BuddyLists where
  "lists_new = \<lparr>bl_heads = (\<lambda>_ _. NONE), bl_counts = (\<lambda>_ _. 0)\<rparr>"

definition free_frames :: "BuddyLists \<Rightarrow> nat" where
  "free_frames b = sum_list (map (\<lambda>(zone, order). bl_counts b zone order * 2 ^ order)
     (List.product [Dma32, Normal] [0..<Suc MAX_ORDER]))"

definition largest_order :: "BuddyLists \<Rightarrow> nat option" where
  "largest_order b = List.find (\<lambda>order. list_ex (\<lambda>zone. bl_counts b zone order \<noteq> 0) [Dma32, Normal])
     (rev [0..<Suc MAX_ORDER])"

definition range_is :: "FrameStore \<Rightarrow> nat \<Rightarrow> nat \<Rightarrow> State \<Rightarrow> bool" where
  "range_is s frame count st = list_all (\<lambda>index. fs_state s index = st) [frame..<frame + count]"

definition push :: "nat \<Rightarrow> nat \<Rightarrow> buddy_sys \<Rightarrow> buddy_sys" where
  "push frame order = (\<lambda>(b, s).
     let zone = Zone_of frame; head = bl_heads b zone order;
         s1 = set_node frame \<lparr>fn_magic = head_tag frame, fn_order = order, fn_prev = NONE, fn_next = head\<rparr> s;
         s2 = (if head \<noteq> NONE then set_node head (fs_node s1 head\<lparr>fn_prev := frame\<rparr>) s1 else s1);
         b1 = set_head zone order frame b
     in (set_counter zone order (bl_counts b1 zone order + 1) b1, s2))"

definition unlink :: "nat \<Rightarrow> Zone \<Rightarrow> nat \<Rightarrow> buddy_sys \<Rightarrow> buddy_sys" where
  "unlink frame zone order = (\<lambda>(b, s).
     let prev = fn_prev (fs_node s frame); next = fn_next (fs_node s frame);
         b1 = (if prev = NONE then set_head zone order next b else b);
         s1 = (if prev = NONE then s else set_node prev (fs_node s prev\<lparr>fn_next := next\<rparr>) s);
         s2 = (if next \<noteq> NONE then set_node next (fs_node s1 next\<lparr>fn_prev := prev\<rparr>) s1 else s1);
         s3 = set_node frame (fs_node s2 frame\<lparr>fn_magic := 0\<rparr>) s2
     in (set_counter zone order (bl_counts b1 zone order - 1) b1, s3))"

definition is_free_head :: "FrameStore \<Rightarrow> nat \<Rightarrow> nat \<Rightarrow> bool" where
  "is_free_head s frame order \<longleftrightarrow>
     (case checked_add frame (2 ^ order) of None \<Rightarrow> False | Some fin \<Rightarrow> fin \<le> fs_count s)
     \<and> fs_state s frame = Free
     \<and> fn_magic (fs_node s frame) = head_tag frame \<and> fn_order (fs_node s frame) = order"

function coalesce_and_push :: "nat \<Rightarrow> nat \<Rightarrow> buddy_sys \<Rightarrow> buddy_sys" where
  "coalesce_and_push frame order bs =
     (if order < MAX_ORDER then
        let buddy = frame XOR 2 ^ order in
        if \<not> is_free_head (snd bs) buddy order then push frame order bs
        else coalesce_and_push (min frame buddy) (order + 1) (unlink buddy (Zone_of buddy) order bs)
      else push frame order bs)"
  by pat_completeness auto
termination
  by (relation "measure (\<lambda>(frame, order, bs). MAX_ORDER - order)") auto

declare coalesce_and_push.simps [simp del]

text \<open>The loop of \<open>block_order\<close> that lowers the order; it stops at order zero at the latest for a
  nonempty range.\<close>

fun lower_order :: "nat \<Rightarrow> nat \<Rightarrow> nat \<Rightarrow> nat" where
  "lower_order frame fin 0 = 0"
| "lower_order frame fin (Suc order) =
     (if frame + 2 ^ Suc order > fin then lower_order frame fin order else Suc order)"

definition block_order :: "nat \<Rightarrow> nat \<Rightarrow> nat" where
  "block_order frame fin =
     lower_order frame fin (if frame = 0 then MAX_ORDER else min MAX_ORDER (trailing_zeros frame))"

function insert_run :: "nat \<Rightarrow> nat \<Rightarrow> buddy_sys \<Rightarrow> buddy_sys" where
  "insert_run frame fin bs =
     (if frame < fin then
        let order = block_order frame fin in insert_run (frame + 2 ^ order) fin (push frame order bs)
      else bs)"
  by pat_completeness auto
termination
  by (relation "measure (\<lambda>(frame, fin, bs). fin - frame)") (auto intro!: diff_less_mono2)

declare insert_run.simps [simp del]

text \<open>The end of the run of frames in a state that starts at a frame.\<close>

function run_end :: "(nat \<Rightarrow> bool) \<Rightarrow> nat \<Rightarrow> nat \<Rightarrow> nat" where
  "run_end P count fin = (if fin < count \<and> P fin then run_end P count (fin + 1) else fin)"
  by pat_completeness auto
termination
  by (relation "measure (\<lambda>(P, count, fin). count - fin)") auto

declare run_end.simps [simp del]

lemma run_end_ge: "fin \<le> run_end P count fin"
proof (induction P count fin rule: run_end.induct)
  case (1 P count fin)
  then show ?case by (subst run_end.simps) auto
qed

lemma run_end_gt: "fin < count \<Longrightarrow> P fin \<Longrightarrow> fin < run_end P count fin"
  using run_end_ge [of "fin + 1" P count] by (subst run_end.simps) simp

function build_from :: "nat \<Rightarrow> buddy_sys \<Rightarrow> buddy_sys" where
  "build_from frame bs =
     (if frame < fs_count (snd bs) then
        if fs_state (snd bs) frame \<noteq> Free then build_from (frame + 1) bs
        else
          let fin = run_end (\<lambda>f. fs_state (snd bs) f = Free) (fs_count (snd bs)) frame
          in build_from fin (insert_run frame fin bs)
      else bs)"
  by pat_completeness auto

lemma push_states [simp]:
  "fs_count (snd (push frame order bs)) = fs_count (snd bs)"
  "fs_state (snd (push frame order bs)) = fs_state (snd bs)"
  by (auto simp: push_def Let_def set_node_def split: prod.split)

lemma unlink_states [simp]:
  "fs_count (snd (unlink frame zone order bs)) = fs_count (snd bs)"
  "fs_state (snd (unlink frame zone order bs)) = fs_state (snd bs)"
  by (auto simp: unlink_def Let_def set_node_def split: prod.split)

lemma insert_run_states [simp]:
  "fs_count (snd (insert_run frame fin bs)) = fs_count (snd bs)"
  "fs_state (snd (insert_run frame fin bs)) = fs_state (snd bs)"
proof (induction frame fin bs rule: insert_run.induct)
  case (1 frame fin bs)
  { case 1 then show ?case using "1.IH" by (subst insert_run.simps) (simp add: Let_def) }
  { case 2 then show ?case using "1.IH" by (subst insert_run.simps) (simp add: Let_def) }
qed

termination build_from
  by (relation "measure (\<lambda>(frame, bs). fs_count (snd bs) - frame)")
    (auto intro!: diff_less_mono2 run_end_gt)

declare build_from.simps [simp del]

definition build :: "buddy_sys \<Rightarrow> buddy_sys" where
  "build = (\<lambda>(b, s). build_from 0 (lists_new, s))"

text \<open>The splitting loop of \<open>allocate\<close>.\<close>

fun split_down :: "nat \<Rightarrow> nat \<Rightarrow> nat \<Rightarrow> buddy_sys \<Rightarrow> buddy_sys" where
  "split_down head order 0 bs = bs"
| "split_down head order (Suc current) bs =
     (if Suc current > order then split_down head order current (push (head + 2 ^ current) current bs) else bs)"

definition take_block :: "nat \<Rightarrow> Zone \<Rightarrow> nat \<Rightarrow> nat \<Rightarrow> buddy_sys \<Rightarrow> buddy_sys" where
  "take_block head zone source order bs =
     (let (b, s) = split_down head order source (unlink head zone source bs)
      in (b, set_states head (head + 2 ^ order) Allocated s))"

definition allocate_in :: "nat \<Rightarrow> Zone \<Rightarrow> buddy_sys \<Rightarrow> (buddy_sys \<times> nat) option" where
  "allocate_in order zone bs =
     (case List.find (\<lambda>source. bl_heads (fst bs) zone source \<noteq> NONE) [order..<Suc MAX_ORDER] of
        None \<Rightarrow> None
      | Some source \<Rightarrow>
          let head = bl_heads (fst bs) zone source in Some (take_block head zone source order bs, head))"

fun allocate_zones :: "nat \<Rightarrow> Zone list \<Rightarrow> buddy_sys \<Rightarrow> buddy_sys \<times> nat option" where
  "allocate_zones order [] bs = (bs, None)"
| "allocate_zones order (zone # zones) bs =
     (case allocate_in order zone bs of Some (bs', head) \<Rightarrow> (bs', Some head) | None \<Rightarrow> allocate_zones order zones bs)"

definition allocate :: "nat \<Rightarrow> Zone list \<Rightarrow> buddy_sys \<Rightarrow> buddy_sys \<times> nat option" where
  "allocate order zones bs = (if order > MAX_ORDER then (bs, None) else allocate_zones order zones bs)"

definition release :: "nat \<Rightarrow> nat \<Rightarrow> buddy_sys \<Rightarrow> buddy_sys \<times> (unit, ReleaseError) result" where
  "release frame order bs =
     (let s = snd bs; count = 2 ^ order in
      if order > MAX_ORDER then (bs, Err InvalidRange)
      else if (case checked_add frame count of None \<Rightarrow> True | Some fin \<Rightarrow> fin > fs_count s) then (bs, Err OutOfRange)
      else if \<not> is_multiple_of frame count then (bs, Err Unaligned)
      else if range_is s frame count Reserved then (bs, Err DuplicateRelease)
      else if range_is s frame count Free then (bs, Err DoubleFree)
      else if \<not> range_is s frame count Allocated then (bs, Err InvalidRange)
      else (coalesce_and_push frame order (fst bs, set_states frame (frame + count) Free s), Ok ()))"

text \<open>The inner loop of \<open>insert_reserved_range\<close> over one run of reserved frames.\<close>

function insert_pieces :: "nat \<Rightarrow> nat \<Rightarrow> buddy_sys \<Rightarrow> buddy_sys" where
  "insert_pieces cursor index bs =
     (if cursor < index then
        let order = block_order cursor index in
        insert_pieces (cursor + 2 ^ order) index
          (coalesce_and_push cursor order (fst bs, set_states cursor (cursor + 2 ^ order) Free (snd bs)))
      else bs)"
  by pat_completeness auto
termination
  by (relation "measure (\<lambda>(cursor, index, bs). index - cursor)") (auto intro!: diff_less_mono2)

declare insert_pieces.simps [simp del]

function insert_reserved_from :: "nat \<Rightarrow> nat \<Rightarrow> buddy_sys \<Rightarrow> buddy_sys" where
  "insert_reserved_from index fin bs =
     (if index < fin then
        if fs_state (snd bs) index = Reserved then
          let stop = run_end (\<lambda>f. fs_state (snd bs) f = Reserved) fin index
          in insert_reserved_from stop fin (insert_pieces index stop bs)
        else insert_reserved_from (index + 1) fin bs
      else bs)"
  by pat_completeness auto
termination
  by (relation "measure (\<lambda>(index, fin, bs). fin - index)") (auto intro!: diff_less_mono2 run_end_gt)

declare insert_reserved_from.simps [simp del]

definition insert_reserved_range :: "nat \<Rightarrow> nat \<Rightarrow> buddy_sys \<Rightarrow> buddy_sys" where
  "insert_reserved_range frame fin bs = insert_reserved_from frame (min fin (fs_count (snd bs))) bs"

text \<open>The splitting loop of \<open>isolate\<close>.\<close>

fun isolate_split :: "nat \<Rightarrow> nat \<Rightarrow> nat \<Rightarrow> buddy_sys \<Rightarrow> buddy_sys" where
  "isolate_split frame head 0 bs = bs"
| "isolate_split frame head (Suc current) bs =
     (let upper = head + 2 ^ current in
      if frame \<ge> upper then isolate_split frame upper current (push head current bs)
      else isolate_split frame head current (push upper current bs))"

text \<open>\<open>frame & !((1 << order) - 1)\<close>: the start of the aligned block of an order.\<close>

definition align_down :: "nat \<Rightarrow> nat \<Rightarrow> nat" where
  "align_down frame order = frame div 2 ^ order * 2 ^ order"

text \<open>\<open>None\<close> is the panic of a free frame that no listed block covers.\<close>

definition isolate :: "nat \<Rightarrow> buddy_sys \<Rightarrow> (buddy_sys \<times> bool) option" where
  "isolate frame bs =
     (if frame \<ge> fs_count (snd bs) \<or> fs_state (snd bs) frame \<noteq> Free then Some (bs, False)
      else
        case List.find (\<lambda>order. is_free_head (snd bs) (align_down frame order) order) [0..<Suc MAX_ORDER] of
          None \<Rightarrow> None
        | Some order \<Rightarrow>
            let head = align_down frame order
            in Some (isolate_split frame head order (unlink head (Zone_of head) order bs), True))"

section \<open>Linked lists in the frames\<close>

text \<open>A list of frames linked through their nodes, from a previous frame and a current one.\<close>

fun chain :: "(nat \<Rightarrow> FreeNode) \<Rightarrow> nat \<Rightarrow> nat \<Rightarrow> nat \<Rightarrow> nat list \<Rightarrow> bool" where
  "chain nd order prev cur [] \<longleftrightarrow> cur = NONE"
| "chain nd order prev cur (x # xs) \<longleftrightarrow>
     cur = x \<and> x \<noteq> NONE \<and> fn_magic (nd x) = head_tag x \<and> fn_order (nd x) = order \<and> fn_prev (nd x) = prev
     \<and> chain nd order x (fn_next (nd x)) xs"

lemma chain_cong: "\<forall>x \<in> set xs. nd x = nd' x \<Longrightarrow> chain nd order prev cur xs = chain nd' order prev cur xs"
  by (induction xs arbitrary: prev cur) auto

lemma chain_not_NONE: "chain nd order prev cur xs \<Longrightarrow> NONE \<notin> set xs"
  by (induction xs arbitrary: prev cur) auto

lemma chain_tags:
  "chain nd order prev cur xs \<Longrightarrow> x \<in> set xs \<Longrightarrow> fn_magic (nd x) = head_tag x \<and> fn_order (nd x) = order"
  by (induction xs arbitrary: prev cur) auto

lemma chain_push:
  assumes "chain nd order NONE h xs" "x \<notin> set xs" "x \<noteq> NONE" "distinct xs"
    and nd': "nd' = (let nd1 = nd(x := \<lparr>fn_magic = head_tag x, fn_order = order, fn_prev = NONE, fn_next = h\<rparr>)
        in if h \<noteq> NONE then nd1(h := nd1 h\<lparr>fn_prev := x\<rparr>) else nd1)"
  shows "chain nd' order NONE x (x # xs)"
proof (cases xs)
  case Nil
  then show ?thesis using assms by simp
next
  case (Cons y ys)
  then have y: "h = y" "y \<noteq> NONE" "x \<noteq> y" using assms by auto
  have "chain nd order y (fn_next (nd y)) ys" using assms(1) Cons by simp
  moreover have "\<forall>z \<in> set ys. nd z = nd' z" using assms Cons y by (auto simp: Let_def)
  ultimately have "chain nd' order y (fn_next (nd y)) ys" using chain_cong by metis
  then show ?thesis using assms Cons y by (simp add: Let_def)
qed

text \<open>Taking a node out of a list.\<close>

definition unlink_nodes :: "(nat \<Rightarrow> FreeNode) \<Rightarrow> nat \<Rightarrow> (nat \<Rightarrow> FreeNode)" where
  "unlink_nodes nd x =
     (let prev = fn_prev (nd x); next = fn_next (nd x);
          nd1 = (if prev = NONE then nd else nd(prev := nd prev\<lparr>fn_next := next\<rparr>));
          nd2 = (if next \<noteq> NONE then nd1(next := nd1 next\<lparr>fn_prev := prev\<rparr>) else nd1)
      in nd2(x := nd2 x\<lparr>fn_magic := 0\<rparr>))"

lemma unlink_nodes_other:
  "y \<noteq> x \<Longrightarrow> y \<noteq> fn_prev (nd x) \<Longrightarrow> y \<noteq> fn_next (nd x) \<Longrightarrow> unlink_nodes nd x y = nd y"
  by (simp add: unlink_nodes_def Let_def)

lemma chain_split:
  "chain nd order p c (ys @ x # zs) \<Longrightarrow>
     fn_prev (nd x) = last (p # ys) \<and> fn_next (nd x) = (case zs of [] \<Rightarrow> NONE | z # _ \<Rightarrow> z)
     \<and> c = hd (ys @ [x])"
proof (induction ys arbitrary: p c)
  case Nil
  then show ?case by (cases zs) auto
next
  case (Cons y ys)
  then have "chain nd order y (fn_next (nd y)) (ys @ x # zs)" "c = y" by simp_all
  from Cons.IH [OF this(1)] this(2) show ?case by simp
qed

lemma chain_unlink:
  assumes "chain nd order p c (ys @ x # zs)" "distinct (ys @ x # zs)" "p \<notin> set (ys @ x # zs)"
    "NONE \<notin> set (ys @ x # zs)"
  shows "chain (unlink_nodes nd x) order p (if ys = [] then fn_next (nd x) else c) (ys @ zs)"
  using assms
proof (induction ys arbitrary: p c)
  case Nil
  then have prev: "fn_prev (nd x) = p" and rest: "chain nd order x (fn_next (nd x)) zs" by auto
  show ?case
  proof (cases zs)
    case (Cons z zs')
    then have n: "fn_next (nd x) = z" "z \<noteq> NONE" "z \<noteq> x" "z \<noteq> p" using rest Nil by auto
    have other: "unlink_nodes nd x y = nd y" if "y \<in> set zs'" for y
    proof (rule unlink_nodes_other)
      show "y \<noteq> x" "y \<noteq> fn_prev (nd x)" "y \<noteq> fn_next (nd x)" using that Nil Cons prev n by auto
    qed
    have "chain (unlink_nodes nd x) order z (fn_next (nd z)) zs'"
      using rest Cons n chain_cong [of zs' "unlink_nodes nd x" nd] other by auto
    moreover have "unlink_nodes nd x z = nd z\<lparr>fn_prev := p\<rparr>"
      using n prev by (simp add: unlink_nodes_def Let_def)
    ultimately show ?thesis using rest Cons n by simp
  qed (use rest in simp)
next
  case (Cons y ys)
  have y: "c = y" "y \<noteq> NONE" "fn_magic (nd y) = head_tag y" "fn_order (nd y) = order" "fn_prev (nd y) = p"
    "chain nd order y (fn_next (nd y)) (ys @ x # zs)" using Cons(2) by auto
  note ih = Cons.IH [OF y(6)]
  have yx: "y \<noteq> x" and ynz: "y \<notin> set zs" using Cons(3) by auto
  have sp: "fn_prev (nd x) = last (y # ys)" "fn_next (nd x) = (case zs of [] \<Rightarrow> NONE | z # _ \<Rightarrow> z)"
    "fn_next (nd y) = hd (ys @ [x])"
    using chain_split [OF y(6)] by auto
  have ynn: "y \<noteq> fn_next (nd x)" using sp(2) y(2) ynz by (auto split: list.splits)
  have fields: "fn_magic (unlink_nodes nd x y) = fn_magic (nd y)" "fn_order (unlink_nodes nd x y) = fn_order (nd y)"
    "fn_prev (unlink_nodes nd x y) = fn_prev (nd y)"
    using yx ynn by (simp_all add: unlink_nodes_def Let_def)
  have nxt: "fn_next (unlink_nodes nd x y) = (if ys = [] then fn_next (nd x) else fn_next (nd y))"
  proof (cases "ys = []")
    case True
    then show ?thesis using sp(1) y(2) yx ynn by (simp add: unlink_nodes_def Let_def)
  next
    case False
    then have "y \<noteq> fn_prev (nd x)" using sp(1) Cons(3) by auto
    then show ?thesis using False unlink_nodes_other [of y x nd] yx ynn by simp
  qed
  have "chain (unlink_nodes nd x) order y (if ys = [] then fn_next (nd x) else fn_next (nd y)) (ys @ zs)"
    using ih Cons by auto
  then show ?case using y fields nxt by simp
qed

section \<open>Free blocks\<close>

type_synonym block = "nat \<times> nat"

definition block_frames :: "block \<Rightarrow> nat set" where
  "block_frames b = {fst b ..< fst b + 2 ^ snd b}"

definition covered :: "block set \<Rightarrow> nat set" where
  "covered B = \<Union> (block_frames ` B)"

definition free_set :: "FrameStore \<Rightarrow> nat set" where
  "free_set s = {f. f < fs_count s \<and> fs_state s f = Free}"

text \<open>A block that may be listed: aligned, of a legal order, inside the frames.\<close>

definition block_ok :: "nat \<Rightarrow> block \<Rightarrow> bool" where
  "block_ok count b \<longleftrightarrow> snd b \<le> MAX_ORDER \<and> 2 ^ snd b dvd fst b \<and> fst b + 2 ^ snd b \<le> count"

definition disjoint_blocks :: "block set \<Rightarrow> bool" where
  "disjoint_blocks B \<longleftrightarrow> (\<forall>b \<in> B. \<forall>b' \<in> B. b \<noteq> b' \<longrightarrow> block_frames b \<inter> block_frames b' = {})"

text \<open>The lists hold exactly a set of blocks.\<close>

definition lists_hold :: "(Zone \<Rightarrow> nat \<Rightarrow> nat list) \<Rightarrow> block set \<Rightarrow> buddy_sys \<Rightarrow> bool" where
  "lists_hold L B bs \<longleftrightarrow>
     (\<forall>z order. chain (fs_node (snd bs)) order NONE (bl_heads (fst bs) z order) (L z order)
        \<and> distinct (L z order) \<and> bl_counts (fst bs) z order = length (L z order)
        \<and> set (L z order) = {x. (x, order) \<in> B \<and> Zone_of x = z})"

text \<open>The allocator tracks at most 64 GiB of memory (\<open>MAX_TRACKED_PHYS\<close> of \<open>frame.rs\<close>).\<close>

definition MAX_FRAMES :: nat where "MAX_FRAMES = 2 ^ 24"

definition buddy_wf :: "block set \<Rightarrow> buddy_sys \<Rightarrow> bool" where
  "buddy_wf B bs \<longleftrightarrow> (\<forall>b \<in> B. block_ok (fs_count (snd bs)) b) \<and> disjoint_blocks B
     \<and> fs_count (snd bs) \<le> MAX_FRAMES \<and> (\<exists>L. lists_hold L B bs)"

lemma block_frames_nonempty: "x \<in> block_frames (x, order)"
  by (simp add: block_frames_def)

lemma block_frames_last: "x + 2 ^ k - 1 \<in> block_frames (x, k)"
proof -
  have "(1 :: nat) \<le> 2 ^ k" by simp
  then have "x \<le> x + 2 ^ k - 1" "x + 2 ^ k - 1 < x + 2 ^ k" by linarith+
  then show ?thesis unfolding block_frames_def by simp
qed

lemma covered_insert [simp]: "covered (insert b B) = block_frames b \<union> covered B"
  by (simp add: covered_def)

lemma covered_empty [simp]: "covered {} = {}"
  by (simp add: covered_def)

lemma covered_remove:
  assumes "disjoint_blocks B" "b \<in> B"
  shows "covered (B - {b}) = covered B - block_frames b"
  using assms unfolding covered_def disjoint_blocks_def by fastforce

lemma disjoint_same_start:
  "disjoint_blocks B \<Longrightarrow> (x, o1) \<in> B \<Longrightarrow> (x, o2) \<in> B \<Longrightarrow> o1 = o2"
  using block_frames_nonempty unfolding disjoint_blocks_def by (metis IntI emptyE prod.inject)

lemma disjoint_blocks_insert:
  "disjoint_blocks B \<Longrightarrow> block_frames b \<inter> covered B = {} \<Longrightarrow> disjoint_blocks (insert b B)"
  unfolding disjoint_blocks_def covered_def by blast

lemma disjoint_blocks_subset: "disjoint_blocks B \<Longrightarrow> B' \<subseteq> B \<Longrightarrow> disjoint_blocks B'"
  unfolding disjoint_blocks_def by blast

lemma block_ok_lt: "block_ok count (x, order) \<Longrightarrow> x < count"
  using less_le_trans [of x "x + 2 ^ order" count] unfolding block_ok_def by simp

lemma push_eq:
  "push x order (b, s) =
     (let z = Zone_of x; h = bl_heads b z order in
      (b\<lparr>bl_heads := (bl_heads b)(z := (bl_heads b z)(order := x)),
         bl_counts := (bl_counts b)(z := (bl_counts b z)(order := bl_counts b z order + 1))\<rparr>,
       s\<lparr>fs_node := (let nd1 = (fs_node s)(x := \<lparr>fn_magic = head_tag x, fn_order = order, fn_prev = NONE, fn_next = h\<rparr>)
          in if h \<noteq> NONE then nd1(h := nd1 h\<lparr>fn_prev := x\<rparr>) else nd1)\<rparr>))"
  by (simp add: push_def Let_def set_node_def set_head_def set_counter_def)

lemma unlink_eq:
  "unlink x z order (b, s) =
     (b\<lparr>bl_heads := (if fn_prev (fs_node s x) = NONE
          then (bl_heads b)(z := (bl_heads b z)(order := fn_next (fs_node s x))) else bl_heads b),
        bl_counts := (bl_counts b)(z := (bl_counts b z)(order := bl_counts b z order - 1))\<rparr>,
      s\<lparr>fs_node := unlink_nodes (fs_node s) x\<rparr>)"
  by (simp add: unlink_def Let_def set_node_def set_head_def set_counter_def unlink_nodes_def)

lemma lists_holdD:
  assumes "lists_hold L B bs"
  shows "chain (fs_node (snd bs)) order NONE (bl_heads (fst bs) z order) (L z order)"
    and "distinct (L z order)" and "bl_counts (fst bs) z order = length (L z order)"
    and "x \<in> set (L z order) \<longleftrightarrow> (x, order) \<in> B \<and> Zone_of x = z"
  using assms unfolding lists_hold_def by auto

text \<open>The nodes of two lists are apart.\<close>

lemma lists_hold_apart:
  assumes "lists_hold L B bs" "disjoint_blocks B" "x \<in> set (L z order)" "x \<in> set (L z' order')"
  shows "z' = z \<and> order' = order"
  using assms disjoint_same_start [OF assms(2), of x order order'] by (simp add: lists_holdD(4) [OF assms(1)])

lemma buddy_wf_push:
  assumes wf: "buddy_wf B bs" and ok: "block_ok (fs_count (snd bs)) (x, order)"
    and free: "block_frames (x, order) \<inter> covered B = {}"
  shows "buddy_wf (insert (x, order) B) (push x order bs)"
proof -
  obtain b s where bs: "bs = (b, s)" by fastforce
  obtain L where L: "lists_hold L B bs" using wf by (auto simp: buddy_wf_def)
  have dj: "disjoint_blocks B" and cnt: "fs_count s < NONE"
    using wf bs by (auto simp: buddy_wf_def MAX_FRAMES_def NONE_def)
  define z h where "z = Zone_of x" and "h = bl_heads b z order"
  define nd where "nd = (let nd1 = (fs_node s)(x := \<lparr>fn_magic = head_tag x, fn_order = order, fn_prev = NONE, fn_next = h\<rparr>)
      in if h \<noteq> NONE then nd1(h := nd1 h\<lparr>fn_prev := x\<rparr>) else nd1)"
  define L' where "L' = L(z := (L z)(order := x # L z order))"
  have new: "x \<notin> set (L z' order')" for z' order'
  proof
    assume "x \<in> set (L z' order')"
    then have "(x, order') \<in> B" using lists_holdD(4) [OF L] by blast
    then have "x \<in> covered B" unfolding covered_def using block_frames_nonempty by blast
    then show False using free block_frames_nonempty [of x order] by blast
  qed
  have xN: "x \<noteq> NONE" using block_ok_lt [OF ok] cnt bs by simp
  have ch: "chain (fs_node s) order' NONE (bl_heads b z' order') (L z' order')" for z' order'
    using lists_holdD(1) [OF L] bs by simp
  have nd_other: "nd y = fs_node s y" if "y \<in> set (L z' order')" "\<not> (z' = z \<and> order' = order)" for y z' order'
  proof -
    have "y \<noteq> x" using new that(1) by blast
    moreover have "y \<noteq> h"
    proof
      assume "y = h"
      then have "h \<noteq> NONE" using chain_not_NONE [OF ch] that(1) by blast
      then have "h \<in> set (L z order)" using ch [of order z] h_def by (cases "L z order") auto
      then show False using lists_hold_apart [OF L dj] that \<open>y = h\<close> by blast
    qed
    ultimately show ?thesis by (simp add: nd_def Let_def)
  qed
  have p: "push x order bs = (b\<lparr>bl_heads := (bl_heads b)(z := (bl_heads b z)(order := x)),
         bl_counts := (bl_counts b)(z := (bl_counts b z)(order := bl_counts b z order + 1))\<rparr>, s\<lparr>fs_node := nd\<rparr>)"
    unfolding bs push_eq nd_def z_def h_def Let_def by simp
  have "lists_hold L' (insert (x, order) B) (push x order bs)"
    unfolding lists_hold_def
  proof (intro allI)
    fix z' order'
    show "chain (fs_node (snd (push x order bs))) order' NONE (bl_heads (fst (push x order bs)) z' order') (L' z' order')
        \<and> distinct (L' z' order') \<and> bl_counts (fst (push x order bs)) z' order' = length (L' z' order')
        \<and> set (L' z' order') = {xa. (xa, order') \<in> insert (x, order) B \<and> Zone_of xa = z'}"
    proof (cases "z' = z \<and> order' = order")
      case True
      have "chain nd order NONE x (x # L z order)"
        using chain_push [OF ch [of order z, folded h_def] new xN lists_holdD(2) [OF L] nd_def] .
      then show ?thesis
        using True p new lists_holdD [OF L, where order = order and z = z] bs by (auto simp: L'_def z_def)
    next
      case False
      have "chain nd order' NONE (bl_heads b z' order') (L z' order')"
        using ch [of order' z'] chain_cong [of "L z' order'" nd "fs_node s"] nd_other [OF _ False] by auto
      then show ?thesis
        using False p lists_holdD [OF L, where order = order' and z = z'] bs by (auto simp: L'_def z_def)
    qed
  qed
  then show ?thesis
    using wf ok dj disjoint_blocks_insert [OF dj free] by (auto simp: buddy_wf_def)
qed

lemma buddy_wf_unlink:
  assumes wf: "buddy_wf B bs" and x: "(x, order) \<in> B"
  shows "buddy_wf (B - {(x, order)}) (unlink x (Zone_of x) order bs)"
proof -
  obtain b s where bs: "bs = (b, s)" by fastforce
  obtain L where L: "lists_hold L B bs" using wf by (auto simp: buddy_wf_def)
  have dj: "disjoint_blocks B" using wf by (simp add: buddy_wf_def)
  define z where "z = Zone_of x"
  define nd where "nd = unlink_nodes (fs_node s) x"
  have ch: "chain (fs_node s) order' NONE (bl_heads b z' order') (L z' order')" for z' order'
    using lists_holdD(1) [OF L] bs by simp
  have xL: "x \<in> set (L z order)" using lists_holdD(4) [OF L] x z_def by simp
  then obtain ys zs where yz: "L z order = ys @ x # zs" by (auto simp: in_set_conv_decomp)
  have dist: "distinct (ys @ x # zs)" using lists_holdD(2) [OF L, of z order] yz by simp
  have nN: "NONE \<notin> set (ys @ x # zs)" using chain_not_NONE [OF ch [of order z]] yz by simp
  have sp: "fn_prev (fs_node s x) = last (NONE # ys)" "fn_next (fs_node s x) = (case zs of [] \<Rightarrow> NONE | u # _ \<Rightarrow> u)"
    using chain_split [of "fs_node s" order NONE _ ys x zs] ch [of order z] yz by auto
  have prevN: "fn_prev (fs_node s x) = NONE \<longleftrightarrow> ys = []"
    using sp(1) nN by (auto dest: last_in_set)
  have head: "chain nd order NONE (if ys = [] then fn_next (fs_node s x) else bl_heads b z order) (ys @ zs)"
    unfolding nd_def using chain_unlink [OF ch [of order z, unfolded yz] dist nN nN] .
  define L' where "L' = L(z := (L z)(order := ys @ zs))"
  have nd_other: "nd y = fs_node s y" if "y \<in> set (L z' order')" "\<not> (z' = z \<and> order' = order)" for y z' order'
  proof -
    have "y \<notin> set (L z order)" using lists_hold_apart [OF L dj] that by blast
    moreover have "y \<noteq> NONE" using chain_not_NONE [OF ch] that(1) by blast
    ultimately have "y \<noteq> x" "y \<noteq> fn_prev (fs_node s x)" "y \<noteq> fn_next (fs_node s x)"
      using sp yz by (auto split: list.splits if_splits)
    then show ?thesis unfolding nd_def by (rule unlink_nodes_other)
  qed
  have u: "unlink x z order bs = (b\<lparr>bl_heads := (if ys = []
          then (bl_heads b)(z := (bl_heads b z)(order := fn_next (fs_node s x))) else bl_heads b),
        bl_counts := (bl_counts b)(z := (bl_counts b z)(order := bl_counts b z order - 1))\<rparr>, s\<lparr>fs_node := nd\<rparr>)"
    unfolding bs unlink_eq prevN nd_def by simp
  have "lists_hold L' (B - {(x, order)}) (unlink x z order bs)"
    unfolding lists_hold_def
  proof (intro allI)
    fix z' order'
    show "chain (fs_node (snd (unlink x z order bs))) order' NONE (bl_heads (fst (unlink x z order bs)) z' order') (L' z' order')
        \<and> distinct (L' z' order') \<and> bl_counts (fst (unlink x z order bs)) z' order' = length (L' z' order')
        \<and> set (L' z' order') = {xa. (xa, order') \<in> B - {(x, order)} \<and> Zone_of xa = z'}"
    proof (cases "z' = z \<and> order' = order")
      case True
      have "set (ys @ zs) = {xa. (xa, order) \<in> B \<and> Zone_of xa = z} - {x}"
        using lists_holdD(4) [OF L, of _ z order] yz dist by auto
      then show ?thesis using True u head dist lists_holdD(3) [OF L, of z order] yz bs by (auto simp: L'_def)
    next
      case False
      have "chain nd order' NONE (bl_heads b z' order') (L z' order')"
        using ch [of order' z'] chain_cong [of "L z' order'" nd "fs_node s"] nd_other [OF _ False] by auto
      then show ?thesis
        using False u lists_holdD [OF L, where order = order' and z = z'] bs by (auto simp: L'_def z_def)
    qed
  qed
  then show ?thesis
    using wf dj disjoint_blocks_subset [OF dj, of "B - {(x, order)}"] by (auto simp: buddy_wf_def z_def)
qed

lemma buddy_wf_head:
  assumes "buddy_wf B bs"
  shows "bl_heads (fst bs) z order = NONE \<longleftrightarrow> (\<forall>x. (x, order) \<in> B \<longrightarrow> Zone_of x \<noteq> z)"
    and "bl_heads (fst bs) z order \<noteq> NONE \<Longrightarrow>
      (bl_heads (fst bs) z order, order) \<in> B \<and> Zone_of (bl_heads (fst bs) z order) = z"
proof -
  obtain L where L: "lists_hold L B bs" using assms by (auto simp: buddy_wf_def)
  note ch = lists_holdD(1) [OF L, of order z] and set = lists_holdD(4) [OF L, of _ z order]
  show "bl_heads (fst bs) z order = NONE \<longleftrightarrow> (\<forall>x. (x, order) \<in> B \<longrightarrow> Zone_of x \<noteq> z)"
    using ch set by (cases "L z order") auto
  show "bl_heads (fst bs) z order \<noteq> NONE \<Longrightarrow>
      (bl_heads (fst bs) z order, order) \<in> B \<and> Zone_of (bl_heads (fst bs) z order) = z"
    using ch set by (cases "L z order") auto
qed

lemma buddy_wf_tag:
  assumes "buddy_wf B bs" "(x, order) \<in> B"
  shows "fn_magic (fs_node (snd bs) x) = head_tag x" "fn_order (fs_node (snd bs) x) = order"
proof -
  obtain L where L: "lists_hold L B bs" using assms by (auto simp: buddy_wf_def)
  have "x \<in> set (L (Zone_of x) order)" using lists_holdD(4) [OF L] assms(2) by simp
  then show "fn_magic (fs_node (snd bs) x) = head_tag x" "fn_order (fs_node (snd bs) x) = order"
    using chain_tags [OF lists_holdD(1) [OF L]] by blast+
qed

section \<open>Geometry of aligned blocks\<close>

lemma xor_pow2:
  fixes x :: nat
  assumes "2 ^ k dvd x"
  shows "x XOR 2 ^ k = (if even (x div 2 ^ k) then x + 2 ^ k else x - 2 ^ k)"
proof -
  obtain q where q: "x = 2 ^ k * q" using assms by blast
  have "x XOR 2 ^ k = push_bit k q XOR push_bit k 1" by (simp add: q push_bit_eq_mult mult.commute)
  also have "\<dots> = push_bit k (q XOR 1)" by (rule push_bit_xor [symmetric])
  also have "\<dots> = 2 ^ k * (q XOR Suc 0)" by (simp add: push_bit_eq_mult)
  also have "q XOR Suc 0 = q + of_bool (even q) - of_bool (odd q)" by (rule xor_Suc_0_eq)
  finally show ?thesis using q by (auto simp: algebra_simps)
qed

lemma buddy_cases:
  fixes x :: nat
  assumes "2 ^ k dvd x"
  shows "(2 ^ Suc k dvd x \<and> x XOR 2 ^ k = x + 2 ^ k) \<or>
    (\<exists>y. x = y + 2 ^ k \<and> x XOR 2 ^ k = y \<and> 2 ^ Suc k dvd y)"
proof -
  obtain q where q: "x = 2 ^ k * q" using assms by blast
  show ?thesis
  proof (cases "even q")
    case True
    then have "2 ^ Suc k dvd x" using q by (auto elim!: evenE)
    then show ?thesis using xor_pow2 [OF assms] q True by simp
  next
    case False
    then obtain r where r: "q = 2 * r + 1" by (rule oddE)
    then have "x = 2 ^ Suc k * r + 2 ^ k" using q by (simp add: algebra_simps)
    moreover have "x XOR 2 ^ k = x - 2 ^ k" using xor_pow2 [OF assms] q False by simp
    ultimately show ?thesis by (intro disjI2 exI [of _ "2 ^ Suc k * r"]) simp
  qed
qed

lemma buddy_block:
  assumes "2 ^ k dvd x"
  shows "2 ^ Suc k dvd min x (x XOR 2 ^ k)"
    and "block_frames (min x (x XOR 2 ^ k), Suc k) = block_frames (x, k) \<union> block_frames (x XOR 2 ^ k, k)"
    and "block_frames (x, k) \<inter> block_frames (x XOR 2 ^ k, k) = {}"
    and "2 ^ k dvd x XOR 2 ^ k" and "(x XOR 2 ^ k) XOR 2 ^ k = x"
    and "min x (x XOR 2 ^ k) + 2 ^ Suc k = max x (x XOR 2 ^ k) + 2 ^ k"
proof -
  have d: "2 ^ Suc k dvd y \<Longrightarrow> 2 ^ k dvd y" for y :: nat
    using power_le_dvd [of 2 "Suc k" y k] by simp
  from buddy_cases [OF assms]
  have "2 ^ Suc k dvd min x (x XOR 2 ^ k)
    \<and> block_frames (min x (x XOR 2 ^ k), Suc k) = block_frames (x, k) \<union> block_frames (x XOR 2 ^ k, k)
    \<and> block_frames (x, k) \<inter> block_frames (x XOR 2 ^ k, k) = {} \<and> 2 ^ k dvd x XOR 2 ^ k
    \<and> min x (x XOR 2 ^ k) + 2 ^ Suc k = max x (x XOR 2 ^ k) + 2 ^ k"
  proof (elim disjE exE conjE)
    assume x: "2 ^ Suc k dvd x" "x XOR 2 ^ k = x + 2 ^ k"
    have "block_frames (x, Suc k) = block_frames (x, k) \<union> block_frames (x + 2 ^ k, k)"
      by (auto simp: block_frames_def)
    moreover have "block_frames (x, k) \<inter> block_frames (x + 2 ^ k, k) = {}" by (auto simp: block_frames_def)
    moreover have "2 ^ k dvd x + 2 ^ k" using d [OF x(1)] by simp
    ultimately show ?thesis using x by simp
  next
    fix y
    assume y: "x = y + 2 ^ k" "x XOR 2 ^ k = y" "2 ^ Suc k dvd y"
    have "block_frames (y, Suc k) = block_frames (y + 2 ^ k, k) \<union> block_frames (y, k)"
      by (auto simp: block_frames_def)
    moreover have "block_frames (y + 2 ^ k, k) \<inter> block_frames (y, k) = {}" by (auto simp: block_frames_def)
    ultimately show ?thesis unfolding y(2) using y(1,3) d [OF y(3)] by simp
  qed
  then show "2 ^ Suc k dvd min x (x XOR 2 ^ k)"
    "block_frames (min x (x XOR 2 ^ k), Suc k) = block_frames (x, k) \<union> block_frames (x XOR 2 ^ k, k)"
    "block_frames (x, k) \<inter> block_frames (x XOR 2 ^ k, k) = {}" "2 ^ k dvd x XOR 2 ^ k"
    "min x (x XOR 2 ^ k) + 2 ^ Suc k = max x (x XOR 2 ^ k) + 2 ^ k" by auto
  show "(x XOR 2 ^ k) XOR 2 ^ k = x" by (simp add: xor.assoc)
qed

lemma xor_lower:
  fixes x :: nat
  assumes "2 ^ Suc k dvd x"
  shows "x XOR 2 ^ k = x + 2 ^ k" "(x + 2 ^ k) XOR 2 ^ k = x"
proof -
  obtain r where r: "x = 2 ^ Suc k * r" using assms by blast
  have "even (x div 2 ^ k)" using r by (simp add: mult.assoc)
  moreover have "2 ^ k dvd x" using r by simp
  ultimately show eq: "x XOR 2 ^ k = x + 2 ^ k" using xor_pow2 by simp
  have "(x XOR 2 ^ k) XOR 2 ^ k = x" by (simp add: xor.assoc)
  then show "(x + 2 ^ k) XOR 2 ^ k = x" using eq by simp
qed

text \<open>Of two aligned blocks that meet, the smaller lies in the larger.\<close>

lemma aligned_nested:
  assumes "2 ^ i dvd x" "2 ^ j dvd y" "i \<le> j" "block_frames (x, i) \<inter> block_frames (y, j) \<noteq> {}"
  shows "block_frames (x, i) \<subseteq> block_frames (y, j)"
proof -
  obtain q r where q: "x = 2 ^ i * q" "y = 2 ^ j * r" using assms(1,2) by blast
  have p: "(2 :: nat) ^ j = 2 ^ i * 2 ^ (j - i)" using assms(3) by (simp flip: power_add)
  from assms(4) obtain f where "f \<in> block_frames (x, i)" "f \<in> block_frames (y, j)" by blast
  then have f: "x \<le> f" "f < x + 2 ^ i" "y \<le> f" "f < y + 2 ^ j" by (auto simp: block_frames_def)
  have "2 ^ i * q < 2 ^ i * (2 ^ (j - i) * r + 2 ^ (j - i))" using f q p by (simp add: algebra_simps)
  then have a: "q < 2 ^ (j - i) * r + 2 ^ (j - i)" by simp
  have "2 ^ i * (2 ^ (j - i) * r) < 2 ^ i * (q + 1)" using f q p by (simp add: algebra_simps)
  then have b: "2 ^ (j - i) * r < q + 1" by (metis nat_mult_less_cancel_disj)
  have "2 ^ i * (2 ^ (j - i) * r) \<le> 2 ^ i * q" using b by (intro mult_le_mono) auto
  moreover have "2 ^ i * (q + 1) \<le> 2 ^ i * (2 ^ (j - i) * r + 2 ^ (j - i))" using a by (intro mult_le_mono) auto
  ultimately have "y \<le> x" "x + 2 ^ i \<le> y + 2 ^ j" using q p by (simp_all add: algebra_simps)
  then show ?thesis by (auto simp: block_frames_def)
qed

lemma aligned_start:
  assumes "2 ^ j dvd f" "2 ^ i dvd x" "i \<le> j" "f \<in> block_frames (x, i)"
  shows "x = f"
proof -
  have "2 ^ i dvd f" using power_le_dvd [OF assms(1,3)] .
  then have "2 ^ i dvd f - x" using assms(2) by (rule dvd_diff_nat)
  moreover have "f - x < 2 ^ i" "x \<le> f" using assms(4) by (auto simp: block_frames_def)
  ultimately show ?thesis using nat_dvd_not_less [of "f - x" "2 ^ i"] by (cases "f - x = 0") auto
qed

section \<open>Head tags\<close>

text \<open>Only heads of listed blocks carry a head tag.\<close>

definition tags_ok :: "block set \<Rightarrow> FrameStore \<Rightarrow> bool" where
  "tags_ok B s \<longleftrightarrow> (\<forall>f order. is_free_head s f order \<longrightarrow> (f, order) \<in> B)"

text \<open>A frame that would not look like a head if it were free.\<close>

definition untagged :: "FrameStore \<Rightarrow> nat \<Rightarrow> bool" where
  "untagged s f \<longleftrightarrow>
     \<not> (fn_magic (fs_node s f) = head_tag f \<and> f + 2 ^ fn_order (fs_node s f) \<le> fs_count s)"

lemma is_free_head_iff:
  "fs_count s \<le> MAX_FRAMES \<Longrightarrow> is_free_head s f order \<longleftrightarrow>
     f + 2 ^ order \<le> fs_count s \<and> fs_state s f = Free
     \<and> fn_magic (fs_node s f) = head_tag f \<and> fn_order (fs_node s f) = order"
  by (auto simp: is_free_head_def checked_add_def MAX_FRAMES_def split: if_splits)

lemma untagged_iff:
  assumes "fs_count s \<le> MAX_FRAMES" "fs_state s f = Free"
  shows "untagged s f \<longleftrightarrow> (\<forall>k. \<not> is_free_head s f k)"
  using assms by (auto simp: untagged_def is_free_head_iff)

lemma is_free_head_listed:
  assumes "buddy_wf B bs" "(x, order) \<in> B" "fs_state (snd bs) x = Free"
  shows "is_free_head (snd bs) x order"
proof -
  have "fs_count (snd bs) \<le> MAX_FRAMES" "block_ok (fs_count (snd bs)) (x, order)"
    using assms(1,2) by (auto simp: buddy_wf_def)
  then show ?thesis using buddy_wf_tag [OF assms(1,2)] assms(3) by (simp add: is_free_head_iff block_ok_def)
qed

lemma head_tag_nonzero: "x \<le> MAX_FRAMES \<Longrightarrow> head_tag x \<noteq> 0"
proof
  assume x: "x \<le> MAX_FRAMES" and "head_tag x = 0"
  then have "(FREE_MAGIC XOR of_nat x) XOR of_nat x = (of_nat x :: 64 word)" by (simp add: head_tag_def)
  then have "FREE_MAGIC = (of_nat x :: 64 word)" by (simp add: xor.assoc)
  then have "unat FREE_MAGIC = unat (of_nat x :: 64 word)" by simp
  also have "\<dots> = x" using x by (simp add: MAX_FRAMES_def unat_of_nat take_bit_nat_eq_self_iff)
  finally show False using x by (simp add: FREE_MAGIC_def MAX_FRAMES_def)
qed

lemma push_node_tags:
  "f \<noteq> x \<Longrightarrow> fn_magic (fs_node (snd (push x order bs)) f) = fn_magic (fs_node (snd bs) f)"
  "f \<noteq> x \<Longrightarrow> fn_order (fs_node (snd (push x order bs)) f) = fn_order (fs_node (snd bs) f)"
  "fn_order (fs_node (snd (push x order bs)) x) = order"
  by (cases bs, simp add: push_eq Let_def)+

lemma push_head_free:
  assumes "is_free_head (snd (push x order bs)) f k"
  shows "(f, k) = (x, order) \<or> is_free_head (snd bs) f k"
  using assms by (cases "f = x") (auto simp: is_free_head_def push_node_tags split: option.splits)

lemma tags_ok_push: "tags_ok B (snd bs) \<Longrightarrow> tags_ok (insert (x, order) B) (snd (push x order bs))"
  using push_head_free unfolding tags_ok_def by blast

lemma unlink_nodes_tags:
  "y \<noteq> x \<Longrightarrow> fn_magic (unlink_nodes nd x y) = fn_magic (nd y) \<and> fn_order (unlink_nodes nd x y) = fn_order (nd y)"
  "fn_magic (unlink_nodes nd x x) = 0"
  by (simp_all add: unlink_nodes_def Let_def)

lemma tags_ok_unlink:
  assumes "tags_ok B (snd bs)" "fs_count (snd bs) \<le> MAX_FRAMES"
  shows "tags_ok (B - {(x, order)}) (snd (unlink x z order bs))"
  unfolding tags_ok_def
proof (intro allI impI)
  fix f k
  obtain b s where bs: "bs = (b, s)" by fastforce
  assume h: "is_free_head (snd (unlink x z order bs)) f k"
  have cnt: "fs_count s \<le> MAX_FRAMES" using assms(2) bs by simp
  have h': "f + 2 ^ k \<le> fs_count s" "fs_state s f = Free"
    "fn_magic (unlink_nodes (fs_node s) x f) = head_tag f" "fn_order (unlink_nodes (fs_node s) x f) = k"
    using h cnt by (simp_all add: bs unlink_eq is_free_head_iff)
  have "f \<noteq> x"
  proof
    assume "f = x"
    then have "head_tag f = 0" using h'(3) unlink_nodes_tags(2) by simp
    then show False using head_tag_nonzero [of f] h'(1) cnt by simp
  qed
  then have "is_free_head s f k" using h' unlink_nodes_tags(1) cnt by (simp add: is_free_head_iff)
  then show "(f, k) \<in> B - {(x, order)}" using assms(1) \<open>f \<noteq> x\<close> bs by (auto simp: tags_ok_def)
qed

section \<open>Merging\<close>

text \<open>No two buddies are both listed: every block is as large as it can be.\<close>

definition merged :: "block set \<Rightarrow> bool" where
  "merged B \<longleftrightarrow> (\<forall>x order. (x, order) \<in> B \<and> order < MAX_ORDER \<longrightarrow> (x XOR 2 ^ order, order) \<notin> B)"

lemma merged_subset: "merged B \<Longrightarrow> B' \<subseteq> B \<Longrightarrow> merged B'"
  unfolding merged_def by blast

lemma merged_insert:
  assumes "merged B" "2 ^ order dvd x" "order < MAX_ORDER \<Longrightarrow> (x XOR 2 ^ order, order) \<notin> B"
  shows "merged (insert (x, order) B)"
proof -
  have ne: "x XOR 2 ^ k \<noteq> x" if "2 ^ k dvd x" for x k :: nat
    using buddy_block(3) [OF that] block_frames_nonempty [of x k] by auto
  have "(y XOR 2 ^ k, k) \<noteq> (x, order)" if "(y, k) \<in> B" "k < MAX_ORDER" for y k
  proof
    assume eq: "(y XOR 2 ^ k, k) = (x, order)"
    then have "y = x XOR 2 ^ order" by (auto simp: xor.assoc)
    then show False using assms(3) that eq by simp
  qed
  note nb = this
  show ?thesis
    unfolding merged_def
  proof (intro allI impI, elim conjE)
    fix y k
    assume y: "(y, k) \<in> insert (x, order) B" "k < MAX_ORDER"
    show "(y XOR 2 ^ k, k) \<notin> insert (x, order) B"
    proof (cases "(y, k) = (x, order)")
      case True
      then show ?thesis using assms(3) ne [OF assms(2)] y(2) by auto
    next
      case False
      then have "(y, k) \<in> B" using y(1) by blast
      then show ?thesis using nb y(2) assms(1) unfolding merged_def by blast
    qed
  qed
qed

text \<open>A buddy that looks like a listed head is one, whatever its bytes say: frames inside larger or
  smaller blocks are told apart by alignment and by the order in the head's node.\<close>

lemma buddy_head_listed:
  assumes wf: "buddy_wf B bs" and ok: "block_ok (fs_count (snd bs)) (x, order)"
    and free: "block_frames (x, order) \<inter> covered B = {}"
    and cov: "free_set (snd bs) \<subseteq> covered B \<union> block_frames (x, order)"
    and head: "is_free_head (snd bs) (x XOR 2 ^ order) order"
  shows "(x XOR 2 ^ order, order) \<in> B"
proof -
  let ?y = "x XOR 2 ^ order"
  have al: "2 ^ order dvd x" using ok by (simp add: block_ok_def)
  have cnt: "fs_count (snd bs) \<le> MAX_FRAMES" using wf by (simp add: buddy_wf_def)
  note bb = buddy_block [OF al]
  have h: "?y + 2 ^ order \<le> fs_count (snd bs)" "fs_state (snd bs) ?y = Free"
    "fn_order (fs_node (snd bs) ?y) = order"
    using head is_free_head_iff [OF cnt] by auto
  have "?y < fs_count (snd bs)" using h(1) less_le_trans [of ?y "?y + 2 ^ order"] by simp
  then have "?y \<in> free_set (snd bs)" using h(2) by (simp add: free_set_def)
  moreover have "?y \<notin> block_frames (x, order)" using bb(3) block_frames_nonempty [of ?y order] by blast
  ultimately obtain u k where uk: "(u, k) \<in> B" "?y \<in> block_frames (u, k)"
    using cov unfolding covered_def by fastforce
  have uok: "2 ^ k dvd u" "k \<le> MAX_ORDER" using wf uk(1) by (auto simp: buddy_wf_def block_ok_def)
  have "k \<le> order"
  proof (rule ccontr)
    assume "\<not> k \<le> order"
    then have le: "Suc order \<le> k" by simp
    have "block_frames (min x ?y, Suc order) \<inter> block_frames (u, k) \<noteq> {}"
      using bb(2) uk(2) block_frames_nonempty [of ?y order] by blast
    then have "block_frames (min x ?y, Suc order) \<subseteq> block_frames (u, k)"
      using aligned_nested [OF bb(1) uok(1) le] by blast
    then have "x \<in> block_frames (u, k)" using bb(2) block_frames_nonempty [of x order] by blast
    then show False using free uk(1) block_frames_nonempty [of x order] unfolding covered_def by blast
  qed
  then have "u = ?y" using aligned_start [OF bb(4) uok(1) _ uk(2)] by simp
  then show ?thesis using buddy_wf_tag(2) [OF wf uk(1)] h(3) uk(1) by simp
qed

lemma coalesce_ok:
  assumes "buddy_wf B bs" "block_ok (fs_count (snd bs)) (x, order)"
    "block_frames (x, order) \<inter> covered B = {}"
    "free_set (snd bs) = covered B \<union> block_frames (x, order)"
  shows "\<exists>B'. buddy_wf B' (coalesce_and_push x order bs) \<and> covered B' = free_set (snd bs)
    \<and> fs_state (snd (coalesce_and_push x order bs)) = fs_state (snd bs)
    \<and> fs_count (snd (coalesce_and_push x order bs)) = fs_count (snd bs)
    \<and> (merged B \<longrightarrow> merged B') \<and> (tags_ok B (snd bs) \<longrightarrow> tags_ok B' (snd (coalesce_and_push x order bs)))"
  using assms
proof (induction x order bs arbitrary: B rule: coalesce_and_push.induct)
  case (1 x order bs)
  let ?y = "x XOR 2 ^ order"
  have al: "2 ^ order dvd x" using 1(3) by (simp add: block_ok_def)
  note bb = buddy_block [OF al]
  show ?case
  proof (cases "order < MAX_ORDER \<and> is_free_head (snd bs) ?y order")
    case True
    then have yB: "(?y, order) \<in> B" using buddy_head_listed [OF 1(2-4)] 1(5) by simp
    have dj: "disjoint_blocks B" using 1(2) by (simp add: buddy_wf_def)
    have yok: "block_ok (fs_count (snd bs)) (?y, order)" using 1(2) yB by (auto simp: buddy_wf_def)
    define bs' where "bs' = unlink ?y (Zone_of ?y) order bs"
    have eq: "coalesce_and_push x order bs = coalesce_and_push (min x ?y) (order + 1) bs'"
      using True by (subst coalesce_and_push.simps) (simp add: bs'_def Let_def)
    have same: "fs_state (snd bs') = fs_state (snd bs)" "fs_count (snd bs') = fs_count (snd bs)"
      by (simp_all add: bs'_def)
    have wf': "buddy_wf (B - {(?y, order)}) bs'" using buddy_wf_unlink [OF 1(2) yB] by (simp add: bs'_def)
    have cov': "covered (B - {(?y, order)}) = covered B - block_frames (?y, order)"
      by (rule covered_remove [OF dj yB])
    have ok': "block_ok (fs_count (snd bs')) (min x ?y, order + 1)"
      using bb(1,6) 1(3) yok True unfolding same block_ok_def by (auto simp: max_def split: if_splits)
    have ysub: "block_frames (?y, order) \<subseteq> covered B" using yB by (auto simp: covered_def)
    have d': "block_frames (min x ?y, order + 1) \<inter> covered (B - {(?y, order)}) = {}"
      using bb(2) cov' 1(4) by auto
    have f': "free_set (snd bs') = covered (B - {(?y, order)}) \<union> block_frames (min x ?y, order + 1)"
      using bb(2) cov' 1(5) ysub same by (auto simp: free_set_def)
    from True have t1: "order < MAX_ORDER" and t2: "\<not> \<not> is_free_head (snd bs) ?y order" by auto
    from 1(1) [OF t1 refl t2, folded bs'_def, OF wf' ok' d' f'] obtain B' where
      B': "buddy_wf B' (coalesce_and_push (min x ?y) (order + 1) bs')" "covered B' = free_set (snd bs')"
        "fs_state (snd (coalesce_and_push (min x ?y) (order + 1) bs')) = fs_state (snd bs')"
        "fs_count (snd (coalesce_and_push (min x ?y) (order + 1) bs')) = fs_count (snd bs')"
        "merged (B - {(?y, order)}) \<longrightarrow> merged B'"
        "tags_ok (B - {(?y, order)}) (snd bs') \<longrightarrow> tags_ok B' (snd (coalesce_and_push (min x ?y) (order + 1) bs'))"
      by blast
    have cnt: "fs_count (snd bs) \<le> MAX_FRAMES" using 1(2) by (simp add: buddy_wf_def)
    have "tags_ok B (snd bs) \<Longrightarrow> tags_ok (B - {(?y, order)}) (snd bs')"
      using tags_ok_unlink [OF _ cnt] by (simp add: bs'_def)
    moreover have "merged B \<Longrightarrow> merged (B - {(?y, order)})" by (rule merged_subset) auto
    moreover have "free_set (snd bs') = free_set (snd bs)" using same by (simp add: free_set_def)
    ultimately show ?thesis using B' same unfolding eq by (intro exI [of _ B']) simp
  next
    case False
    then have eq: "coalesce_and_push x order bs = push x order bs"
      by (subst coalesce_and_push.simps) (auto simp: Let_def)
    have "order < MAX_ORDER \<Longrightarrow> (?y, order) \<notin> B"
    proof
      assume "order < MAX_ORDER" "(?y, order) \<in> B"
      then have "?y \<in> free_set (snd bs)"
        using 1(5) block_frames_nonempty [of ?y order] by (auto simp: covered_def)
      then show False
        using is_free_head_listed [OF 1(2)] \<open>(?y, order) \<in> B\<close> \<open>order < MAX_ORDER\<close> False
        by (simp add: free_set_def)
    qed
    then have "merged B \<Longrightarrow> merged (insert (x, order) B)" using merged_insert al by blast
    moreover have "covered (insert (x, order) B) = free_set (snd bs)" using 1(5) by auto
    ultimately show ?thesis
      using buddy_wf_push [OF 1(2-4)] tags_ok_push [of B bs x order] unfolding eq
      by (intro exI [of _ "insert (x, order) B"]) simp
  qed
qed

section \<open>Invariant of the allocator\<close>

definition buddy_inv :: "block set \<Rightarrow> buddy_sys \<Rightarrow> bool" where
  "buddy_inv B bs \<longleftrightarrow> buddy_wf B bs \<and> covered B = free_set (snd bs) \<and> merged B"

lemma set_states_simps [simp]:
  "fs_count (set_states a b st s) = fs_count s" "fs_node (set_states a b st s) = fs_node s"
  "fs_state (set_states a b st s) = (\<lambda>f. if a \<le> f \<and> f < b then st else fs_state s f)"
proof -
  have *: "fs_count (fold (\<lambda>i. set_state i st) xs s) = fs_count s
    \<and> fs_node (fold (\<lambda>i. set_state i st) xs s) = fs_node s
    \<and> fs_state (fold (\<lambda>i. set_state i st) xs s) = (\<lambda>f. if f \<in> set xs then st else fs_state s f)" for xs
    by (induction xs arbitrary: s) (auto simp: set_state_def)
  show "fs_count (set_states a b st s) = fs_count s" "fs_node (set_states a b st s) = fs_node s"
    "fs_state (set_states a b st s) = (\<lambda>f. if a \<le> f \<and> f < b then st else fs_state s f)"
    unfolding set_states_def using * [of "[a..<b]"] by auto
qed

lemma range_is_iff: "range_is s f n st \<longleftrightarrow> (\<forall>i. f \<le> i \<and> i < f + n \<longrightarrow> fs_state s i = st)"
  by (auto simp: range_is_def list_all_iff)

text \<open>The lists do not look at frame states.\<close>

lemma buddy_wf_states:
  assumes "buddy_wf B bs"
  shows "buddy_wf B (fst bs, set_states a b st (snd bs))"
proof -
  obtain L where "lists_hold L B bs" using assms by (auto simp: buddy_wf_def)
  then have "lists_hold L B (fst bs, set_states a b st (snd bs))" by (simp add: lists_hold_def)
  then show ?thesis using assms by (auto simp: buddy_wf_def)
qed

lemma covered_below: "buddy_wf B bs \<Longrightarrow> f \<in> covered B \<Longrightarrow> f < fs_count (snd bs)"
  unfolding buddy_wf_def covered_def block_frames_def block_ok_def by fastforce

subsection \<open>Allocation\<close>

lemma split_down_ok:
  assumes "buddy_wf B bs" "block_ok (fs_count (snd bs)) (head, source)" "order \<le> source"
    "block_frames (head, source) \<inter> covered B = {}"
  shows "\<exists>B'. buddy_wf B' (split_down head order source bs)
    \<and> covered B' = covered B \<union> (block_frames (head, source) - block_frames (head, order))
    \<and> fs_state (snd (split_down head order source bs)) = fs_state (snd bs)
    \<and> fs_count (snd (split_down head order source bs)) = fs_count (snd bs)
    \<and> (merged B \<longrightarrow> merged B') \<and> (tags_ok B (snd bs) \<longrightarrow> tags_ok B' (snd (split_down head order source bs)))"
  using assms
proof (induction source arbitrary: bs B)
  case 0
  then show ?case by (intro exI [of _ B]) (auto simp: block_frames_def)
next
  case (Suc current)
  show ?case
  proof (cases "Suc current > order")
    case False
    then have "order = Suc current" using Suc by simp
    then show ?thesis by (intro exI [of _ B]) (use Suc in auto)
  next
    case True
    let ?up = "head + 2 ^ current"
    have al: "2 ^ Suc current dvd head" using Suc(3) by (simp add: block_ok_def)
    then have al': "2 ^ current dvd head" using power_le_dvd [OF al, of current] by simp
    have ok_up: "block_ok (fs_count (snd bs)) (?up, current)" and ok_lo: "block_ok (fs_count (snd bs)) (head, current)"
      using Suc(3) al' by (auto simp: block_ok_def)
    have halves: "block_frames (head, Suc current) = block_frames (head, current) \<union> block_frames (?up, current)"
      "block_frames (head, current) \<inter> block_frames (?up, current) = {}"
      by (auto simp: block_frames_def)
    have free_up: "block_frames (?up, current) \<inter> covered B = {}" using Suc(5) halves by blast
    define bs' where "bs' = push ?up current bs"
    have wf': "buddy_wf (insert (?up, current) B) bs'"
      unfolding bs'_def by (rule buddy_wf_push [OF Suc(2) ok_up free_up])
    have cnt': "fs_count (snd bs') = fs_count (snd bs)" "fs_state (snd bs') = fs_state (snd bs)"
      by (simp_all add: bs'_def)
    have d': "block_frames (head, current) \<inter> covered (insert (?up, current) B) = {}"
      using Suc(5) halves by auto
    have "order \<le> current" using True by simp
    from Suc.IH [OF wf' _ this d'] ok_lo cnt' obtain B' where
      B': "buddy_wf B' (split_down head order current bs')"
        "covered B' = covered (insert (?up, current) B) \<union> (block_frames (head, current) - block_frames (head, order))"
        "fs_state (snd (split_down head order current bs')) = fs_state (snd bs')"
        "fs_count (snd (split_down head order current bs')) = fs_count (snd bs')"
        "merged (insert (?up, current) B) \<longrightarrow> merged B'"
        "tags_ok (insert (?up, current) B) (snd bs') \<longrightarrow> tags_ok B' (snd (split_down head order current bs'))"
      by auto
    have sub: "block_frames (head, order) \<subseteq> block_frames (head, current)"
      using \<open>order \<le> current\<close> power_increasing [of order current "2 :: nat"]
      by (auto simp: block_frames_def)
    have cov: "covered B' = covered B \<union> (block_frames (head, Suc current) - block_frames (head, order))"
      using B'(2) halves sub by auto
    have "merged (insert (?up, current) B)" if "merged B"
    proof (rule merged_insert [OF that])
      show "2 ^ current dvd ?up" using al' by simp
      have "?up XOR 2 ^ current = head"
        by (rule xor_lower(2) [OF al])
      moreover have "(head, current) \<notin> B"
        using Suc(5) halves block_frames_nonempty [of head current] by (auto simp: covered_def)
      ultimately show "(?up XOR 2 ^ current, current) \<notin> B" by simp
    qed
    then show ?thesis
      using True B' cov cnt' tags_ok_push [of B bs ?up current] unfolding bs'_def
      by (intro exI [of _ B']) auto
  qed
qed

lemma take_block_ok:
  assumes inv: "buddy_inv B bs" and blk: "(head, source) \<in> B" and le: "order \<le> source"
  shows "\<exists>B'. buddy_inv B' (take_block head (Zone_of head) source order bs)
    \<and> fs_state (snd (take_block head (Zone_of head) source order bs))
        = (\<lambda>f. if f \<in> block_frames (head, order) then Allocated else fs_state (snd bs) f)
    \<and> fs_count (snd (take_block head (Zone_of head) source order bs)) = fs_count (snd bs)
    \<and> (tags_ok B (snd bs) \<longrightarrow> tags_ok B' (snd (take_block head (Zone_of head) source order bs))
         \<and> (\<forall>f \<in> block_frames (head, order). untagged (snd (take_block head (Zone_of head) source order bs)) f))"
proof -
  have wf: "buddy_wf B bs" and cov: "covered B = free_set (snd bs)" and mg: "merged B"
    using inv by (auto simp: buddy_inv_def)
  have dj: "disjoint_blocks B" and ok: "block_ok (fs_count (snd bs)) (head, source)"
    and cnt: "fs_count (snd bs) \<le> MAX_FRAMES" using wf blk by (auto simp: buddy_wf_def)
  define bs1 where "bs1 = unlink head (Zone_of head) source bs"
  have s1: "fs_state (snd bs1) = fs_state (snd bs)" "fs_count (snd bs1) = fs_count (snd bs)" by (simp_all add: bs1_def)
  have wf1: "buddy_wf (B - {(head, source)}) bs1" unfolding bs1_def by (rule buddy_wf_unlink [OF wf blk])
  have cov1: "covered (B - {(head, source)}) = covered B - block_frames (head, source)" by (rule covered_remove [OF dj blk])
  have ok1: "block_ok (fs_count (snd bs1)) (head, source)" using ok s1 by simp
  have d1: "block_frames (head, source) \<inter> covered (B - {(head, source)}) = {}" using cov1 by blast
  from split_down_ok [OF wf1 ok1 le d1, unfolded s1] obtain B' where
    B': "buddy_wf B' (split_down head order source bs1)"
      "covered B' = covered (B - {(head, source)}) \<union> (block_frames (head, source) - block_frames (head, order))"
      "fs_state (snd (split_down head order source bs1)) = fs_state (snd bs)"
      "fs_count (snd (split_down head order source bs1)) = fs_count (snd bs)"
      "merged (B - {(head, source)}) \<longrightarrow> merged B'"
      "tags_ok (B - {(head, source)}) (snd bs1) \<longrightarrow> tags_ok B' (snd (split_down head order source bs1))"
    by blast
  define bs2 where "bs2 = split_down head order source bs1"
  have eq: "take_block head (Zone_of head) source order bs = (fst bs2, set_states head (head + 2 ^ order) Allocated (snd bs2))"
    by (simp add: take_block_def bs2_def bs1_def split_beta)
  have sub: "block_frames (head, order) \<subseteq> block_frames (head, source)"
    using le power_increasing [of order source "2 :: nat"] by (auto simp: block_frames_def)
  have bsub: "block_frames (head, source) \<subseteq> covered B" using blk by (auto simp: covered_def)
  have cov': "covered B' = free_set (snd bs) - block_frames (head, order)"
    using B'(2) cov1 cov sub bsub by blast
  moreover have st: "fs_state (snd (take_block head (Zone_of head) source order bs))
      = (\<lambda>f. if f \<in> block_frames (head, order) then Allocated else fs_state (snd bs) f)"
    using B'(3) unfolding eq bs2_def [symmetric] by (auto simp: block_frames_def)
  ultimately have "covered B' = free_set (snd (take_block head (Zone_of head) source order bs))"
    using B'(4) unfolding eq by (auto simp: free_set_def bs2_def)
  moreover have "merged B'" using B'(5) merged_subset [OF mg] by blast
  moreover have "buddy_wf B' (take_block head (Zone_of head) source order bs)"
    unfolding eq using buddy_wf_states B'(1) bs2_def by blast
  moreover have "tags_ok B' (snd (take_block head (Zone_of head) source order bs))
      \<and> (\<forall>f \<in> block_frames (head, order). untagged (snd (take_block head (Zone_of head) source order bs)) f)"
    if "tags_ok B (snd bs)"
  proof -
    have t2: "tags_ok B' (snd bs2)" using B'(6) tags_ok_unlink [OF that cnt] by (simp add: bs1_def bs2_def)
    have cnt2: "fs_count (snd bs2) \<le> MAX_FRAMES" using B'(4) cnt by (simp add: bs2_def)
    have "untagged (snd bs2) f" if f: "f \<in> block_frames (head, order)" for f
    proof -
      have "f \<in> free_set (snd bs)" using f sub bsub cov by (simp add: subset_iff)
      then have "fs_state (snd bs2) f = Free" using B'(3) by (simp add: bs2_def free_set_def)
      moreover have "\<not> is_free_head (snd bs2) f k" for k
      proof
        assume "is_free_head (snd bs2) f k"
        then have "(f, k) \<in> B'" using t2 by (simp add: tags_ok_def)
        then have "f \<in> covered B'" using block_frames_nonempty unfolding covered_def by blast
        then show False using cov' f by blast
      qed
      ultimately show ?thesis using untagged_iff [OF cnt2] by blast
    qed
    then have "\<forall>f \<in> block_frames (head, order). untagged (snd (take_block head (Zone_of head) source order bs)) f"
      unfolding eq by (simp add: untagged_def)
    moreover note t2
    moreover have "is_free_head (snd bs2) f k" if "is_free_head (set_states a b Allocated (snd bs2)) f k" for a b f k
      using that by (auto simp: is_free_head_def split: if_splits option.splits)
    ultimately show ?thesis unfolding eq tags_ok_def by auto
  qed
  ultimately show ?thesis using st B'(4) unfolding buddy_inv_def eq
    by (intro exI [of _ B']) (simp add: bs2_def)
qed

lemma Zone_of_block:
  assumes "j \<le> MAX_ORDER" "2 ^ j dvd u" "f \<in> block_frames (u, j)"
  shows "Zone_of f = Zone_of u"
proof -
  have f: "u \<le> f" "f < u + 2 ^ j" using assms(3) by (auto simp: block_frames_def)
  have "2 ^ j dvd DMA32_FRAMES"
    unfolding DMA32_FRAMES_def using assms(1) by (intro le_imp_power_dvd) (simp add: MAX_ORDER_def)
  then have "u + 2 ^ j \<le> DMA32_FRAMES" if "u < DMA32_FRAMES"
  proof -
    have "2 ^ j dvd DMA32_FRAMES - u" using \<open>2 ^ j dvd DMA32_FRAMES\<close> assms(2) by (rule dvd_diff_nat)
    then have "2 ^ j \<le> DMA32_FRAMES - u" using that by (intro dvd_imp_le) auto
    then show ?thesis using that by simp
  qed
  then show ?thesis using f by (auto simp: Zone_of_def)
qed

text \<open>In merged lists every aligned free range lies in one listed block.\<close>

lemma free_range_listed:
  assumes wf: "buddy_wf B bs" and mg: "merged B"
    and "k \<le> MAX_ORDER" "2 ^ k dvd x" "block_frames (x, k) \<subseteq> covered B"
  shows "\<exists>u j. (u, j) \<in> B \<and> k \<le> j \<and> block_frames (x, k) \<subseteq> block_frames (u, j)"
  using assms(3-5)
proof (induction k arbitrary: x)
  case 0
  then obtain u j where "(u, j) \<in> B" "x \<in> block_frames (u, j)" by (force simp: covered_def block_frames_def)
  then show ?case by (intro exI [of _ u] exI [of _ j]) (auto simp: block_frames_def)
next
  case (Suc k)
  have al: "2 ^ k dvd x" using power_le_dvd [OF Suc(3), of k] by simp
  let ?y = "x + 2 ^ k"
  have halves: "block_frames (x, Suc k) = block_frames (x, k) \<union> block_frames (?y, k)"
    by (auto simp: block_frames_def)
  have "\<exists>u j. (u, j) \<in> B \<and> k \<le> j \<and> block_frames (x, k) \<subseteq> block_frames (u, j)"
    using Suc al halves by (intro Suc.IH) auto
  then obtain u i where u: "(u, i) \<in> B" "k \<le> i" "block_frames (x, k) \<subseteq> block_frames (u, i)" by blast
  have "\<exists>u j. (u, j) \<in> B \<and> k \<le> j \<and> block_frames (?y, k) \<subseteq> block_frames (u, j)"
    using Suc al halves by (intro Suc.IH) auto
  then obtain v j where v: "(v, j) \<in> B" "k \<le> j" "block_frames (?y, k) \<subseteq> block_frames (v, j)" by blast
  have big: "\<exists>u j. (u, j) \<in> B \<and> Suc k \<le> j \<and> block_frames (x, Suc k) \<subseteq> block_frames (u, j)"
    if "(w, m) \<in> B" "Suc k \<le> m" "f \<in> block_frames (x, Suc k)" "f \<in> block_frames (w, m)" for w m f
  proof -
    have "2 ^ m dvd w" using wf that(1) by (auto simp: buddy_wf_def block_ok_def)
    then have "block_frames (x, Suc k) \<subseteq> block_frames (w, m)"
      using aligned_nested [OF Suc(3), of m w] that by blast
    then show ?thesis using that by blast
  qed
  show ?case
  proof (cases "Suc k \<le> i \<or> Suc k \<le> j")
    case True
    have fx: "x \<in> block_frames (x, k)" "?y \<in> block_frames (?y, k)" by (rule block_frames_nonempty)+
    then show ?thesis using True big [OF u(1), of x] big [OF v(1), of ?y] u(3) v(3) halves by blast
  next
    case False
    then have ij: "i = k" "j = k" using u(2) v(2) by auto
    have "2 ^ k dvd u" "2 ^ k dvd v" using wf u(1) v(1) ij by (auto simp: buddy_wf_def block_ok_def)
    then have "u = x" "v = ?y"
      using aligned_start [of k x k u] aligned_start [of k ?y k v] al u(3) v(3) ij
        block_frames_nonempty [of x k] block_frames_nonempty [of ?y k] by auto
    then show ?thesis
      using mg u(1) v(1) ij xor_lower(1) [OF Suc(3)] Suc(2) unfolding merged_def by fastforce
  qed
qed

text \<open>The outcome of \<open>allocate\<close>.\<close>

lemma allocate_in_cases:
  assumes inv: "buddy_inv B bs" and le: "order \<le> MAX_ORDER"
  shows "(allocate_in order z bs = None \<and> (\<forall>x k. (x, k) \<in> B \<longrightarrow> order \<le> k \<longrightarrow> Zone_of x \<noteq> z)) \<or>
    (\<exists>head source. (head, source) \<in> B \<and> order \<le> source \<and> Zone_of head = z
       \<and> allocate_in order z bs = Some (take_block head (Zone_of head) source order bs, head))"
proof -
  have wf: "buddy_wf B bs" using inv by (simp add: buddy_inv_def)
  note hd = buddy_wf_head [OF wf]
  show ?thesis
  proof (cases "List.find (\<lambda>source. bl_heads (fst bs) z source \<noteq> NONE) [order..<Suc MAX_ORDER]")
    case None
    have "Zone_of x \<noteq> z" if "(x, k) \<in> B" "order \<le> k" for x k
    proof -
      have "k \<le> MAX_ORDER" using wf that(1) by (auto simp: buddy_wf_def block_ok_def)
      then have "k \<in> set [order..<Suc MAX_ORDER]" using that(2) by auto
      then have "bl_heads (fst bs) z k = NONE" using None unfolding find_None_mem by blast
      then show ?thesis using hd(1) that(1) by blast
    qed
    then show ?thesis using None by (simp add: allocate_in_def)
  next
    case (Some source)
    then have src: "bl_heads (fst bs) z source \<noteq> NONE" "order \<le> source"
      using find_Some_mem [OF Some] by auto
    from hd(2) [OF src(1)] show ?thesis using src(2) Some
      by (auto simp: allocate_in_def Let_def simp del: upt_Suc)
  qed
qed

lemma allocate_zones_cases:
  assumes inv: "buddy_inv B bs" and le: "order \<le> MAX_ORDER"
  shows "(allocate_zones order zones bs = (bs, None)
      \<and> (\<forall>x k. (x, k) \<in> B \<longrightarrow> order \<le> k \<longrightarrow> Zone_of x \<notin> set zones)) \<or>
    (\<exists>head source. (head, source) \<in> B \<and> order \<le> source \<and> Zone_of head \<in> set zones
       \<and> allocate_zones order zones bs = (take_block head (Zone_of head) source order bs, Some head))"
proof (induction zones)
  case (Cons z zones)
  from allocate_in_cases [OF inv le, of z] Cons show ?case by auto
qed simp

subsection \<open>Release\<close>

lemma release_ok:
  assumes inv: "buddy_inv B bs" and ok: "block_ok (fs_count (snd bs)) (x, order)"
    and al: "\<forall>f \<in> block_frames (x, order). fs_state (snd bs) f \<noteq> Free"
  defines "bs' \<equiv> coalesce_and_push x order (fst bs, set_states x (x + 2 ^ order) Free (snd bs))"
  shows "\<exists>B'. buddy_inv B' bs'
    \<and> fs_state (snd bs') = (\<lambda>f. if f \<in> block_frames (x, order) then Free else fs_state (snd bs) f)
    \<and> fs_count (snd bs') = fs_count (snd bs)
    \<and> (tags_ok B (snd bs) \<and> (\<forall>f \<in> block_frames (x, order). untagged (snd bs) f) \<longrightarrow> tags_ok B' (snd bs'))"
proof -
  let ?s = "set_states x (x + 2 ^ order) Free (snd bs)"
  have wf: "buddy_wf B bs" and cov: "covered B = free_set (snd bs)" and mg: "merged B"
    using inv by (auto simp: buddy_inv_def)
  have wf1: "buddy_wf B (fst bs, ?s)" by (rule buddy_wf_states [OF wf])
  have ok1: "block_ok (fs_count (snd (fst bs, ?s))) (x, order)" using ok by simp
  have d: "block_frames (x, order) \<inter> covered B = {}" using al cov by (auto simp: free_set_def)
  have sub: "f < fs_count (snd bs)" if "f \<in> block_frames (x, order)" for f
    using ok that by (auto simp: block_ok_def block_frames_def)
  have st: "fs_state ?s = (\<lambda>f. if f \<in> block_frames (x, order) then Free else fs_state (snd bs) f)"
    by (auto simp: block_frames_def)
  have f1: "free_set (snd (fst bs, ?s)) = covered B \<union> block_frames (x, order)"
    using cov sub by (auto simp: free_set_def block_frames_def)
  from coalesce_ok [OF wf1 ok1 d f1, folded bs'_def] obtain B' where
    B': "buddy_wf B' bs'" "covered B' = free_set ?s" "fs_state (snd bs') = fs_state ?s"
      "fs_count (snd bs') = fs_count ?s" "merged B'" "tags_ok B ?s \<longrightarrow> tags_ok B' (snd bs')"
    using mg by auto
  have cnt: "fs_count (snd bs) \<le> MAX_FRAMES" using wf by (simp add: buddy_wf_def)
  have "tags_ok B ?s" if "tags_ok B (snd bs)" "\<forall>f \<in> block_frames (x, order). untagged (snd bs) f"
  proof -
    have "is_free_head (snd bs) f k" if h: "is_free_head ?s f k" for f k
    proof (cases "f \<in> block_frames (x, order)")
      case True
      have "fn_magic (fs_node (snd bs) f) = head_tag f \<and> f + 2 ^ fn_order (fs_node (snd bs) f) \<le> fs_count (snd bs)"
        using h cnt is_free_head_iff [of ?s f k] by auto
      then show ?thesis
        using True \<open>\<forall>f \<in> block_frames (x, order). untagged (snd bs) f\<close> unfolding untagged_def by blast
    next
      case False
      then show ?thesis using h
        by (auto simp: is_free_head_def block_frames_def split: if_splits option.splits)
    qed
    then show ?thesis using that(1) unfolding tags_ok_def by blast
  qed
  moreover have "covered B' = free_set (snd bs')" using B'(2-4) by (simp add: free_set_def)
  ultimately show ?thesis using B' st by (intro exI [of _ B']) (auto simp: buddy_inv_def)
qed

subsection \<open>Isolating a frame\<close>

lemma isolate_split_ok:
  assumes "buddy_wf B bs" "block_ok (fs_count (snd bs)) (head, k)" "frame \<in> block_frames (head, k)"
    "block_frames (head, k) \<inter> covered B = {}"
  shows "\<exists>B'. buddy_wf B' (isolate_split frame head k bs)
    \<and> covered B' = covered B \<union> (block_frames (head, k) - {frame})
    \<and> fs_state (snd (isolate_split frame head k bs)) = fs_state (snd bs)
    \<and> fs_count (snd (isolate_split frame head k bs)) = fs_count (snd bs)
    \<and> (merged B \<longrightarrow> merged B') \<and> (tags_ok B (snd bs) \<longrightarrow> tags_ok B' (snd (isolate_split frame head k bs)))"
  using assms
proof (induction k arbitrary: head bs B)
  case 0
  then have "block_frames (head, 0) = {frame}" by (auto simp: block_frames_def)
  then show ?case using 0 by (intro exI [of _ B]) auto
next
  case (Suc k)
  let ?up = "head + 2 ^ k"
  have al: "2 ^ Suc k dvd head" using Suc(3) by (simp add: block_ok_def)
  then have al': "2 ^ k dvd head" "2 ^ k dvd ?up" using power_le_dvd [OF al, of k] by simp_all
  have ok: "block_ok (fs_count (snd bs)) (head, k)" "block_ok (fs_count (snd bs)) (?up, k)"
    using Suc(3) al' by (auto simp: block_ok_def)
  have halves: "block_frames (head, Suc k) = block_frames (head, k) \<union> block_frames (?up, k)"
    "block_frames (head, k) \<inter> block_frames (?up, k) = {}" by (auto simp: block_frames_def)
  text \<open>One half is listed, the other one, with the frame in it, is split further.\<close>
  have step: "\<exists>B'. buddy_wf B' (isolate_split frame rest k (push half k bs))
    \<and> covered B' = covered B \<union> (block_frames (head, Suc k) - {frame})
    \<and> fs_state (snd (isolate_split frame rest k (push half k bs))) = fs_state (snd bs)
    \<and> fs_count (snd (isolate_split frame rest k (push half k bs))) = fs_count (snd bs)
    \<and> (merged B \<longrightarrow> merged B') \<and> (tags_ok B (snd bs) \<longrightarrow> tags_ok B' (snd (isolate_split frame rest k (push half k bs))))"
    if h: "{half, rest} = {head, ?up}" "half \<noteq> rest" "frame \<in> block_frames (rest, k)" for half rest
  proof -
    have hr: "half = head \<and> rest = ?up \<or> half = ?up \<and> rest = head" using h(1,2) by (auto simp: doubleton_eq_iff)
    have hok: "block_ok (fs_count (snd bs)) (half, k)" "block_ok (fs_count (snd bs)) (rest, k)" using hr ok by auto
    have hf: "block_frames (head, Suc k) = block_frames (rest, k) \<union> block_frames (half, k)"
      "block_frames (rest, k) \<inter> block_frames (half, k) = {}" using hr halves by auto
    have hd: "block_frames (half, k) \<inter> covered B = {}" using Suc(5) hf by blast
    have xor: "half XOR 2 ^ k = rest" using hr xor_lower [OF al] by auto
    have "merged (insert (half, k) B)" if "merged B"
    proof (rule merged_insert [OF that])
      show "2 ^ k dvd half" using hok(1) by (simp add: block_ok_def)
      show "(half XOR 2 ^ k, k) \<notin> B"
        using Suc(5) hf(1) block_frames_nonempty [of rest k] xor by (auto simp: covered_def)
    qed
    moreover have "tags_ok (insert (half, k) B) (snd (push half k bs))" if "tags_ok B (snd bs)"
      by (rule tags_ok_push [OF that])
    moreover have wf': "buddy_wf (insert (half, k) B) (push half k bs)" by (rule buddy_wf_push [OF Suc(2) hok(1) hd])
    moreover have "block_frames (rest, k) \<inter> covered (insert (half, k) B) = {}" using Suc(5) hf by auto
    moreover have "block_ok (fs_count (snd (push half k bs))) (rest, k)" using hok(2) by simp
    ultimately obtain B' where B': "buddy_wf B' (isolate_split frame rest k (push half k bs))"
      "covered B' = covered (insert (half, k) B) \<union> (block_frames (rest, k) - {frame})"
      "fs_state (snd (isolate_split frame rest k (push half k bs))) = fs_state (snd bs)"
      "fs_count (snd (isolate_split frame rest k (push half k bs))) = fs_count (snd bs)"
      "merged B \<longrightarrow> merged B'" "tags_ok B (snd bs) \<longrightarrow> tags_ok B' (snd (isolate_split frame rest k (push half k bs)))"
      using Suc.IH [of "insert (half, k) B" "push half k bs" rest] h(3) by auto
    have "covered B' = covered B \<union> (block_frames (head, Suc k) - {frame})" using B'(2) hf h(3) by auto
    then show ?thesis using B' by blast
  qed
  have up: "?up \<noteq> head" by simp
  show ?case
  proof (cases "frame \<ge> ?up")
    case True
    then have "frame \<in> block_frames (?up, k)" using Suc(4) by (auto simp: block_frames_def)
    then show ?thesis using True step [of head ?up] up by (simp add: Let_def)
  next
    case False
    then have "frame \<in> block_frames (head, k)" using Suc(4) by (auto simp: block_frames_def)
    then show ?thesis using False step [of ?up head] up by (auto simp: Let_def insert_commute)
  qed
qed

lemma align_down_block:
  assumes "2 ^ k dvd u" "f \<in> block_frames (u, k)"
  shows "align_down f k = u"
proof -
  obtain q where q: "u = 2 ^ k * q" using assms(1) by blast
  have "f div 2 ^ k = q" using assms(2) q by (intro div_nat_eqI) (auto simp: block_frames_def algebra_simps)
  then show ?thesis using q by (simp add: align_down_def mult.commute)
qed

lemma align_down_in: "f \<in> block_frames (align_down f k, k)"
proof -
  have "f mod 2 ^ k < 2 ^ k" by simp
  moreover have "f div 2 ^ k * 2 ^ k + f mod 2 ^ k = f" by (rule div_mult_mod_eq)
  ultimately show ?thesis unfolding align_down_def block_frames_def atLeastLessThan_iff fst_conv snd_conv by linarith
qed

lemma isolate_ok:
  assumes inv: "buddy_inv B bs" and tags: "tags_ok B (snd bs)" and f: "frame \<in> free_set (snd bs)"
  shows "\<exists>bs' B'. isolate frame bs = Some (bs', True) \<and> buddy_wf B' bs'
    \<and> covered B' = free_set (snd bs) - {frame} \<and> merged B' \<and> tags_ok B' (snd bs')
    \<and> fs_state (snd bs') = fs_state (snd bs) \<and> fs_count (snd bs') = fs_count (snd bs)"
proof -
  have wf: "buddy_wf B bs" and cov: "covered B = free_set (snd bs)" and mg: "merged B"
    using inv by (auto simp: buddy_inv_def)
  have dj: "disjoint_blocks B" and cnt: "fs_count (snd bs) \<le> MAX_FRAMES" using wf by (auto simp: buddy_wf_def)
  have okB: "block_ok (fs_count (snd bs)) (x, j)" if "(x, j) \<in> B" for x j
    using wf that by (auto simp: buddy_wf_def)
  have freeB: "fs_state (snd bs) x = Free" if "(x, j) \<in> B" for x j
    using cov that block_frames_nonempty [of x j] unfolding covered_def free_set_def by blast
  obtain u k where uk: "(u, k) \<in> B" "frame \<in> block_frames (u, k)" using f cov unfolding covered_def by force
  have k: "2 ^ k dvd u" "k \<le> MAX_ORDER" using okB [OF uk(1)] by (auto simp: block_ok_def)
  let ?P = "\<lambda>order. is_free_head (snd bs) (align_down frame order) order"
  have "?P k" using is_free_head_listed [OF wf uk(1) freeB [OF uk(1)]] align_down_block [OF k(1) uk(2)] by simp
  then have "\<exists>order \<in> set [0..<Suc MAX_ORDER]. ?P order" using k(2) by (intro bexI [of _ k]) auto
  then obtain order where fnd: "List.find ?P [0..<Suc MAX_ORDER] = Some order"
    unfolding find_None_mem [symmetric] by (cases "List.find ?P [0..<Suc MAX_ORDER]") (auto simp: find_None_mem simp del: upt_Suc)
  then have "?P order" using find_Some_mem [OF fnd] by simp
  then have "(align_down frame order, order) \<in> B" using tags by (simp add: tags_ok_def)
  then have eq: "align_down frame order = u" "order = k"
    using dj uk align_down_in [of frame order] unfolding disjoint_blocks_def by fastforce+
  define bs1 where "bs1 = unlink u (Zone_of u) k bs"
  have s1: "fs_state (snd bs1) = fs_state (snd bs)" "fs_count (snd bs1) = fs_count (snd bs)" by (simp_all add: bs1_def)
  have wf1: "buddy_wf (B - {(u, k)}) bs1" unfolding bs1_def by (rule buddy_wf_unlink [OF wf uk(1)])
  have cov1: "covered (B - {(u, k)}) = covered B - block_frames (u, k)" by (rule covered_remove [OF dj uk(1)])
  have ok1: "block_ok (fs_count (snd bs1)) (u, k)" using okB [OF uk(1)] s1 by simp
  have "block_frames (u, k) \<inter> covered (B - {(u, k)}) = {}" using cov1 by blast
  from isolate_split_ok [OF wf1 ok1 uk(2) this] obtain B' where
    B': "buddy_wf B' (isolate_split frame u k bs1)"
      "covered B' = covered (B - {(u, k)}) \<union> (block_frames (u, k) - {frame})"
      "fs_state (snd (isolate_split frame u k bs1)) = fs_state (snd bs)"
      "fs_count (snd (isolate_split frame u k bs1)) = fs_count (snd bs)"
      "merged (B - {(u, k)}) \<longrightarrow> merged B'"
      "tags_ok (B - {(u, k)}) (snd bs1) \<longrightarrow> tags_ok B' (snd (isolate_split frame u k bs1))"
    unfolding s1 by blast
  have "isolate frame bs = Some (isolate_split frame u k bs1, True)"
    using f fnd eq by (simp add: isolate_def free_set_def bs1_def Let_def del: upt_Suc)
  moreover have "block_frames (u, k) \<subseteq> covered B" using uk(1) by (auto simp: covered_def)
  then have "covered B' = free_set (snd bs) - {frame}" using B'(2) cov1 cov uk(2) by blast
  moreover have "merged B'" using B'(5) merged_subset [OF mg] by blast
  moreover have "tags_ok B' (snd (isolate_split frame u k bs1))"
    using B'(6) tags_ok_unlink [OF tags cnt] by (simp add: bs1_def)
  ultimately show ?thesis using B' by blast
qed

subsection \<open>Building the lists\<close>

lemma lower_order_props:
  shows "lower_order f fin k \<le> k"
    and "f < fin \<Longrightarrow> f + 2 ^ lower_order f fin k \<le> fin"
    and "j \<le> k \<Longrightarrow> f + 2 ^ j \<le> fin \<Longrightarrow> j \<le> lower_order f fin k"
  by (induction k) (auto simp: le_Suc_eq)

lemma block_order_props:
  assumes "f < fin"
  shows "block_order f fin \<le> MAX_ORDER" "2 ^ block_order f fin dvd f" "f + 2 ^ block_order f fin \<le> fin"
    and "j \<le> MAX_ORDER \<Longrightarrow> 2 ^ j dvd f \<Longrightarrow> f + 2 ^ j \<le> fin \<Longrightarrow> j \<le> block_order f fin"
proof -
  let ?m = "if f = 0 then MAX_ORDER else min MAX_ORDER (trailing_zeros f)"
  note lo = lower_order_props [of f fin ?m]
  show "block_order f fin \<le> MAX_ORDER" using lo(1) by (auto simp: block_order_def split: if_splits)
  show "f + 2 ^ block_order f fin \<le> fin" using lo(2) assms by (simp add: block_order_def)
  have "2 ^ ?m dvd f"
    using power_le_dvd [OF tz_from_dvd [of f], of "min MAX_ORDER (tz_from f)"] by (simp add: trailing_zeros_def)
  from power_le_dvd [OF this lo(1)] show "2 ^ block_order f fin dvd f" unfolding block_order_def .
  assume j: "j \<le> MAX_ORDER" "2 ^ j dvd f" "f + 2 ^ j \<le> fin"
  have "j \<le> ?m" using j dvd_tz_from [of f j] by (auto simp: trailing_zeros_def)
  then show "j \<le> block_order f fin" using lower_order_props(3) [OF _ j(3)] by (simp add: block_order_def)
qed

text \<open>The lists while a run from \<open>r\<close> to \<open>fin\<close> is carved up to \<open>frame\<close>.\<close>

definition carved :: "nat \<Rightarrow> nat \<Rightarrow> nat \<Rightarrow> block set \<Rightarrow> bool" where
  "carved r fin frame B \<longleftrightarrow> covered B \<subseteq> {..<frame} \<and> r \<le> frame
     \<and> (\<forall>y k. (y, k) \<in> B \<longrightarrow> y + 2 ^ k < r \<or> r \<le> y \<and> k = block_order y fin)"

lemma carved_push:
  assumes cv: "carved r fin frame B" and mg: "merged B" and f: "frame < fin"
  defines "k \<equiv> block_order frame fin"
  shows "carved r fin (frame + 2 ^ k) (insert (frame, k) B)" "merged (insert (frame, k) B)"
proof -
  note bo = block_order_props [OF f, folded k_def]
  have fr: "block_frames (frame, k) \<subseteq> {..<frame + 2 ^ k}" by (auto simp: block_frames_def)
  have "covered B \<subseteq> {..<frame}" using cv by (simp add: carved_def)
  then have "covered B \<subseteq> {..<frame + 2 ^ k}" using lessThan_subset_iff [of frame "frame + 2 ^ k"] by (meson le_add1 subset_trans)
  then show "carved r fin (frame + 2 ^ k) (insert (frame, k) B)"
    using cv fr unfolding carved_def by (auto simp: k_def)
  show "merged (insert (frame, k) B)"
  proof (rule merged_insert [OF mg bo(2)])
    assume kM: "k < MAX_ORDER"
    show "(frame XOR 2 ^ k, k) \<notin> B"
    proof
      assume y: "(frame XOR 2 ^ k, k) \<in> B"
      then have "frame XOR 2 ^ k \<in> covered B" using block_frames_nonempty unfolding covered_def by blast
      then have lt: "frame XOR 2 ^ k < frame" using cv by (auto simp: carved_def)
      from buddy_cases [OF bo(2)] lt obtain u where u: "frame = u + 2 ^ k" "frame XOR 2 ^ k = u" "2 ^ Suc k dvd u"
        by auto
      have "r \<le> frame" using cv by (simp add: carved_def)
      moreover have "u + 2 ^ k < r \<or> r \<le> u \<and> k = block_order u fin"
        using cv y u(2) unfolding carved_def by metis
      ultimately have "k = block_order u fin" using u(1) by linarith
      moreover have "Suc k \<le> block_order u fin"
      proof (rule block_order_props(4))
        show "u < fin" using u(1) f by simp
        show "Suc k \<le> MAX_ORDER" using kM by simp
        show "2 ^ Suc k dvd u" by (rule u(3))
        show "u + 2 ^ Suc k \<le> fin" using bo(3) u(1) by simp
      qed
      ultimately show False by simp
    qed
  qed
qed

lemma insert_run_ok:
  assumes "buddy_wf B bs" "merged B" "carved r fin frame B" "frame \<le> fin" "fin \<le> fs_count (snd bs)"
  shows "\<exists>B'. buddy_wf B' (insert_run frame fin bs) \<and> merged B' \<and> carved r fin fin B'
    \<and> covered B' = covered B \<union> {frame..<fin}
    \<and> (tags_ok B (snd bs) \<longrightarrow> tags_ok B' (snd (insert_run frame fin bs)))"
  using assms
proof (induction frame fin bs arbitrary: B rule: insert_run.induct)
  case (1 frame fin bs)
  show ?case
  proof (cases "frame < fin")
    case False
    then have "insert_run frame fin bs = bs" "frame = fin" using 1(5) by (auto simp: insert_run.simps)
    then show ?thesis using 1(2-4) by (intro exI [of _ B]) auto
  next
    case True
    define k where "k = block_order frame fin"
    note bo = block_order_props [OF True, folded k_def]
    have eq: "insert_run frame fin bs = insert_run (frame + 2 ^ k) fin (push frame k bs)"
      using True by (subst insert_run.simps) (simp add: k_def Let_def)
    have below: "covered B \<subseteq> {..<frame}" using 1(4) by (simp add: carved_def)
    have d: "block_frames (frame, k) \<inter> covered B = {}" using below by (auto simp: block_frames_def)
    have ok: "block_ok (fs_count (snd bs)) (frame, k)" using bo 1(6) by (simp add: block_ok_def)
    note cp = carved_push [OF 1(4,3) True, folded k_def]
    have "buddy_wf (insert (frame, k) B) (push frame k bs)" by (rule buddy_wf_push [OF 1(2) ok d])
    from 1(1) [OF True k_def this cp(2,1) bo(3)] 1(6) obtain B' where
      B': "buddy_wf B' (insert_run (frame + 2 ^ k) fin (push frame k bs))" "merged B'" "carved r fin fin B'"
        "covered B' = covered (insert (frame, k) B) \<union> {frame + 2 ^ k..<fin}"
        "tags_ok (insert (frame, k) B) (snd (push frame k bs)) \<longrightarrow> tags_ok B' (snd (insert_run (frame + 2 ^ k) fin (push frame k bs)))"
      by auto
    have "block_frames (frame, k) \<union> {frame + 2 ^ k..<fin} = {frame..<fin}"
      using bo(3) by (auto simp: block_frames_def)
    then have "covered B' = covered B \<union> {frame..<fin}" using B'(4) by auto
    then show ?thesis using B' tags_ok_push unfolding eq by blast
  qed
qed

lemma run_end_props:
  shows "fin \<le> count \<Longrightarrow> run_end P count fin \<le> count"
    and "fin \<le> f \<Longrightarrow> f < run_end P count fin \<Longrightarrow> P f"
    and "run_end P count fin < count \<Longrightarrow> \<not> P (run_end P count fin)"
proof (induction P count fin rule: run_end.induct)
  case (1 P count fin)
  { case 1 then show ?case using "1.IH" by (subst run_end.simps) auto }
  { case 2 then show ?case using "1.IH"(2) by (cases "f = fin") (auto simp: run_end.simps [of P count fin] split: if_splits) }
  { case 3 then show ?case using "1.IH"(3) by (auto simp: run_end.simps [of P count fin] split: if_splits) }
qed

lemma build_from_ok:
  assumes "buddy_wf B bs" "merged B" "covered B = {f. f < frame \<and> fs_state (snd bs) f = Free}"
    "frame \<le> fs_count (snd bs)" "0 < frame \<and> frame < fs_count (snd bs) \<and> fs_state (snd bs) frame = Free \<longrightarrow> fs_state (snd bs) (frame - 1) \<noteq> Free"
  shows "\<exists>B'. buddy_inv B' (build_from frame bs) \<and> fs_state (snd (build_from frame bs)) = fs_state (snd bs)
    \<and> fs_count (snd (build_from frame bs)) = fs_count (snd bs)
    \<and> (tags_ok B (snd bs) \<longrightarrow> tags_ok B' (snd (build_from frame bs)))"
  using assms
proof (induction frame bs arbitrary: B rule: build_from.induct)
  case (1 frame bs)
  consider (past) "\<not> frame < fs_count (snd bs)" | (skip) "frame < fs_count (snd bs)" "fs_state (snd bs) frame \<noteq> Free"
    | (run) "frame < fs_count (snd bs)" "fs_state (snd bs) frame = Free" by blast
  then show ?case
  proof cases
    case past
    then have "build_from frame bs = bs" "frame = fs_count (snd bs)" using 1(6) by (auto simp: build_from.simps)
    then show ?thesis using 1(3-5) by (intro exI [of _ B]) (auto simp: buddy_inv_def free_set_def)
  next
    case skip
    have "covered B = {f. f < frame + 1 \<and> fs_state (snd bs) f = Free}"
      using 1(5) skip(2) by (auto simp: less_Suc_eq)
    from 1(1) [OF skip 1(3,4) this] skip show ?thesis by (simp add: build_from.simps [of frame bs])
  next
    case run
    define fin where "fin = run_end (\<lambda>f. fs_state (snd bs) f = Free) (fs_count (snd bs)) frame"
    have lt: "frame < fin" unfolding fin_def using run by (intro run_end_gt) auto
    have le: "fin \<le> fs_count (snd bs)" unfolding fin_def using run by (intro run_end_props(1)) simp
    have free: "fs_state (snd bs) f = Free" if "frame \<le> f" "f < fin" for f
      using run_end_props(2) [of frame f "\<lambda>f. fs_state (snd bs) f = Free" "fs_count (snd bs)"] that by (simp add: fin_def)
    have stop: "fin = fs_count (snd bs) \<or> fs_state (snd bs) fin \<noteq> Free"
      using run_end_props(3) [of "\<lambda>f. fs_state (snd bs) f = Free" "fs_count (snd bs)" frame] le by (auto simp: fin_def)
    have cv: "carved frame fin frame B"
      unfolding carved_def
    proof (intro conjI allI impI)
      show "covered B \<subseteq> {..<frame}" using 1(5) by auto
      fix y k
      assume yk: "(y, k) \<in> B"
      have "y + 2 ^ k - 1 \<in> block_frames (y, k)" by (rule block_frames_last)
      then have "y + 2 ^ k - 1 \<in> covered B" using yk by (auto simp: covered_def)
      then have f: "y + 2 ^ k - 1 < frame" "fs_state (snd bs) (y + 2 ^ k - 1) = Free" using 1(5) by auto
      then have "y + 2 ^ k - 1 \<noteq> frame - 1" using 1(7) run by auto
      moreover have "0 < y + 2 ^ k" by simp
      ultimately have "y + 2 ^ k < frame" using f(1) by linarith
      then show "y + 2 ^ k < frame \<or> frame \<le> y \<and> k = block_order y fin" by simp
    qed simp
    from insert_run_ok [OF 1(3,4) cv] lt le obtain B1 where
      B1: "buddy_wf B1 (insert_run frame fin bs)" "merged B1" "covered B1 = covered B \<union> {frame..<fin}"
        "tags_ok B (snd bs) \<longrightarrow> tags_ok B1 (snd (insert_run frame fin bs))" by auto
    have eq: "build_from frame bs = build_from fin (insert_run frame fin bs)"
      using run by (subst build_from.simps) (simp add: fin_def Let_def)
    have c1: "covered B1 = {f. f < fin \<and> fs_state (snd (insert_run frame fin bs)) f = Free}"
      using B1(3) 1(5) free lt by auto
    have "fs_state (snd bs) frame = Free" by (rule run(2))
    from 1(2) [OF run(1) _ fin_def B1(1,2) c1] this le stop B1(4) show ?thesis unfolding eq by auto
  qed
qed

lemma buddy_wf_empty:
  assumes "fs_count s \<le> MAX_FRAMES"
  shows "buddy_wf {} (lists_new, s)"
proof -
  have "lists_hold (\<lambda>_ _. []) {} (lists_new, s)" by (simp add: lists_hold_def lists_new_def)
  then show ?thesis using assms by (auto simp: buddy_wf_def disjoint_blocks_def)
qed

lemma build_ok:
  assumes "fs_count s \<le> MAX_FRAMES"
  shows "\<exists>B. buddy_inv B (build (b, s)) \<and> fs_state (snd (build (b, s))) = fs_state s
    \<and> fs_count (snd (build (b, s))) = fs_count s
    \<and> ((\<forall>f \<in> free_set s. fn_magic (fs_node s f) \<noteq> head_tag f) \<longrightarrow> tags_ok B (snd (build (b, s))))"
proof -
  have "merged {}" by (simp add: merged_def)
  moreover have "tags_ok {} s" if "\<forall>f \<in> free_set s. fn_magic (fs_node s f) \<noteq> head_tag f"
    unfolding tags_ok_def
  proof (intro allI impI)
    fix f k
    assume h: "is_free_head s f k"
    then have "f + 2 ^ k \<le> fs_count s" "fs_state s f = Free" "fn_magic (fs_node s f) = head_tag f"
      using is_free_head_iff [OF assms] by auto
    then show "(f, k) \<in> {}" using that less_le_trans [of f "f + 2 ^ k" "fs_count s"] by (auto simp: free_set_def)
  qed
  ultimately show ?thesis
    using build_from_ok [of "{}" "(lists_new, s)" 0] buddy_wf_empty [OF assms] by (auto simp: build_def)
qed

subsection \<open>Handing reserved frames back\<close>

lemma insert_pieces_ok:
  assumes "buddy_inv B bs" "cursor \<le> index" "index \<le> fs_count (snd bs)"
    "\<forall>f. cursor \<le> f \<and> f < index \<longrightarrow> fs_state (snd bs) f \<noteq> Free"
  shows "\<exists>B'. buddy_inv B' (insert_pieces cursor index bs)
    \<and> fs_state (snd (insert_pieces cursor index bs)) = (\<lambda>f. if cursor \<le> f \<and> f < index then Free else fs_state (snd bs) f)
    \<and> fs_count (snd (insert_pieces cursor index bs)) = fs_count (snd bs)"
  using assms
proof (induction cursor index bs arbitrary: B rule: insert_pieces.induct)
  case (1 cursor index bs)
  show ?case
  proof (cases "cursor < index")
    case False
    then have "insert_pieces cursor index bs = bs" by (simp add: insert_pieces.simps)
    then show ?thesis using 1(2) False by (intro exI [of _ B]) (auto simp: fun_eq_iff)
  next
    case True
    define k where "k = block_order cursor index"
    note bo = block_order_props [OF True, folded k_def]
    define bs1 where "bs1 = coalesce_and_push cursor k (fst bs, set_states cursor (cursor + 2 ^ k) Free (snd bs))"
    have eq: "insert_pieces cursor index bs = insert_pieces (cursor + 2 ^ k) index bs1"
      using True by (subst insert_pieces.simps) (simp add: k_def bs1_def Let_def)
    have ok: "block_ok (fs_count (snd bs)) (cursor, k)" using bo 1(4) by (simp add: block_ok_def)
    have "\<forall>f \<in> block_frames (cursor, k). fs_state (snd bs) f \<noteq> Free"
      using 1(5) bo(3) by (auto simp: block_frames_def)
    from release_ok [OF 1(2) ok this, folded bs1_def] obtain B1 where
      B1: "buddy_inv B1 bs1" "fs_state (snd bs1) = (\<lambda>f. if f \<in> block_frames (cursor, k) then Free else fs_state (snd bs) f)"
        "fs_count (snd bs1) = fs_count (snd bs)" by blast
    have "\<forall>f. cursor + 2 ^ k \<le> f \<and> f < index \<longrightarrow> fs_state (snd bs1) f \<noteq> Free"
      using 1(5) B1(2) by (auto simp: block_frames_def)
    from 1(1) [OF True k_def, folded bs1_def, OF B1(1) bo(3) _ this] B1(3) 1(4)
    obtain B' where B': "buddy_inv B' (insert_pieces (cursor + 2 ^ k) index bs1)"
      "fs_state (snd (insert_pieces (cursor + 2 ^ k) index bs1))
        = (\<lambda>f. if cursor + 2 ^ k \<le> f \<and> f < index then Free else fs_state (snd bs1) f)"
      "fs_count (snd (insert_pieces (cursor + 2 ^ k) index bs1)) = fs_count (snd bs1)" by auto
    have "(\<lambda>f. if cursor + 2 ^ k \<le> f \<and> f < index then Free else fs_state (snd bs1) f)
      = (\<lambda>f. if cursor \<le> f \<and> f < index then Free else fs_state (snd bs) f)"
      using bo(3) B1(2) by (auto simp: block_frames_def fun_eq_iff)
    then show ?thesis using B' B1(3) unfolding eq by auto
  qed
qed

lemma insert_reserved_from_ok:
  assumes "buddy_inv B bs" "fin \<le> fs_count (snd bs)"
  shows "\<exists>B'. buddy_inv B' (insert_reserved_from index fin bs)
    \<and> fs_state (snd (insert_reserved_from index fin bs))
        = (\<lambda>f. if index \<le> f \<and> f < fin \<and> fs_state (snd bs) f = Reserved then Free else fs_state (snd bs) f)
    \<and> fs_count (snd (insert_reserved_from index fin bs)) = fs_count (snd bs)"
  using assms
proof (induction index fin bs arbitrary: B rule: insert_reserved_from.induct)
  case (1 index fin bs)
  consider (past) "\<not> index < fin" | (skip) "index < fin" "fs_state (snd bs) index \<noteq> Reserved"
    | (run) "index < fin" "fs_state (snd bs) index = Reserved" by blast
  then show ?case
  proof cases
    case past
    then have "insert_reserved_from index fin bs = bs" by (simp add: insert_reserved_from.simps)
    then show ?thesis using 1(3) past by (intro exI [of _ B]) (auto simp: fun_eq_iff)
  next
    case skip
    then have eq: "insert_reserved_from index fin bs = insert_reserved_from (index + 1) fin bs"
      by (subst insert_reserved_from.simps) simp
    have "(\<lambda>f. if index + 1 \<le> f \<and> f < fin \<and> fs_state (snd bs) f = Reserved then Free else fs_state (snd bs) f)
      = (\<lambda>f. if index \<le> f \<and> f < fin \<and> fs_state (snd bs) f = Reserved then Free else fs_state (snd bs) f)"
      using skip(2) by (auto simp: fun_eq_iff Suc_le_eq nat_less_le)
    then show ?thesis using 1(2) [OF skip 1(3,4)] unfolding eq by simp
  next
    case run
    let ?P = "\<lambda>f. fs_state (snd bs) f = Reserved"
    define stop where "stop = run_end ?P fin index"
    have st: "index < stop" "stop \<le> fin" unfolding stop_def using run run_end_gt [of index fin ?P] run_end_props(1) [of index fin ?P] by auto
    have res: "fs_state (snd bs) f = Reserved" if "index \<le> f" "f < stop" for f
      using run_end_props(2) [of index f ?P fin] that by (simp add: stop_def)
    define bs1 where "bs1 = insert_pieces index stop bs"
    have eq: "insert_reserved_from index fin bs = insert_reserved_from stop fin bs1"
      using run by (subst insert_reserved_from.simps) (simp add: stop_def bs1_def Let_def)
    from insert_pieces_ok [OF 1(3), of index stop, folded bs1_def] st 1(4) res obtain B1 where
      B1: "buddy_inv B1 bs1" "fs_state (snd bs1) = (\<lambda>f. if index \<le> f \<and> f < stop then Free else fs_state (snd bs) f)"
        "fs_count (snd bs1) = fs_count (snd bs)" by auto
    from 1(1) [OF run stop_def, folded bs1_def, OF B1(1)] 1(4) B1(3) obtain B' where
      B': "buddy_inv B' (insert_reserved_from stop fin bs1)"
        "fs_state (snd (insert_reserved_from stop fin bs1))
          = (\<lambda>f. if stop \<le> f \<and> f < fin \<and> fs_state (snd bs1) f = Reserved then Free else fs_state (snd bs1) f)"
        "fs_count (snd (insert_reserved_from stop fin bs1)) = fs_count (snd bs)" by auto
    have "(\<lambda>f. if stop \<le> f \<and> f < fin \<and> fs_state (snd bs1) f = Reserved then Free else fs_state (snd bs1) f)
      = (\<lambda>f. if index \<le> f \<and> f < fin \<and> fs_state (snd bs) f = Reserved then Free else fs_state (snd bs) f)"
      using res st B1(2) by (auto simp: fun_eq_iff)
    then show ?thesis using B' unfolding eq by auto
  qed
qed

section \<open>Counting\<close>

lemma buddy_wf_finite: "buddy_wf B bs \<Longrightarrow> finite B"
proof (rule finite_subset)
  assume wf: "buddy_wf B bs"
  show "B \<subseteq> {..<fs_count (snd bs)} \<times> {..MAX_ORDER}"
  proof
    fix b assume b: "b \<in> B"
    obtain x k where xk: "b = (x, k)" by fastforce
    have ok: "block_ok (fs_count (snd bs)) (x, k)" using wf b xk unfolding buddy_wf_def by blast
    have "k \<le> MAX_ORDER" using ok by (simp add: block_ok_def)
    then show "b \<in> {..<fs_count (snd bs)} \<times> {..MAX_ORDER}" using block_ok_lt [OF ok] xk by simp
  qed
qed simp

lemma card_covered:
  assumes "finite B" "disjoint_blocks B"
  shows "card (covered B) = (\<Sum>b \<in> B. 2 ^ snd b)"
proof -
  have "card (\<Union> (block_frames ` B)) = (\<Sum>b \<in> B. card (block_frames b))"
    using assms by (intro card_UN_disjoint) (auto simp: block_frames_def disjoint_blocks_def)
  then show ?thesis by (simp add: covered_def block_frames_def)
qed

text \<open>The number of frames the lists claim is the number of frames they cover.\<close>

lemma free_frames_card:
  assumes wf: "buddy_wf B bs"
  shows "free_frames (fst bs) = card (covered B)"
proof -
  obtain L where L: "lists_hold L B bs" using wf by (auto simp: buddy_wf_def)
  have fin: "finite B" by (rule buddy_wf_finite [OF wf])
  define S where "S = (\<lambda>(z, k). (\<lambda>x. (x, k)) ` set (L z k))"
  let ?I = "set (List.product [Dma32, Normal] [0..<Suc MAX_ORDER])"
  have B: "B = (\<Union>i \<in> ?I. S i)"
  proof (intro equalityI subsetI)
    fix b assume b: "b \<in> B"
    obtain x k where xk: "b = (x, k)" by fastforce
    have "k \<le> MAX_ORDER" using wf b xk by (auto simp: buddy_wf_def block_ok_def)
    moreover have "x \<in> set (L (Zone_of x) k)" using lists_holdD(4) [OF L] b xk by simp
    ultimately show "b \<in> (\<Union>i \<in> ?I. S i)"
      using xk by (intro UN_I [of "(Zone_of x, k)"]) (auto simp: S_def Zone_of_def simp del: upt_Suc)
  next
    fix b assume "b \<in> (\<Union>i \<in> ?I. S i)"
    then show "b \<in> B" using lists_holdD(4) [OF L] by (auto simp: S_def)
  qed
  have dj: "\<forall>i \<in> ?I. \<forall>j \<in> ?I. i \<noteq> j \<longrightarrow> S i \<inter> S j = {}"
    using lists_holdD(4) [OF L] by (fastforce simp: S_def)
  have "card (covered B) = (\<Sum>b \<in> B. 2 ^ snd b)"
    using wf by (intro card_covered fin) (simp add: buddy_wf_def)
  also have "\<dots> = (\<Sum>i \<in> ?I. \<Sum>b \<in> S i. 2 ^ snd b)"
    unfolding B by (intro sum.UNION_disjoint dj) (auto simp: S_def)
  also have "\<dots> = (\<Sum>(z, k) \<in> ?I. bl_counts (fst bs) z k * 2 ^ k)"
  proof (rule sum.cong [OF refl])
    fix i assume "i \<in> ?I"
    obtain z k where i: "i = (z, k)" by fastforce
    have "(\<Sum>b \<in> S i. 2 ^ snd b) = (\<Sum>x \<in> set (L z k). 2 ^ k :: nat)"
      unfolding S_def i by (simp add: sum.reindex inj_on_def)
    also have "\<dots> = length (L z k) * 2 ^ k"
      using distinct_card [OF lists_holdD(2) [OF L, of z k]] by simp
    finally show "(\<Sum>b \<in> S i. 2 ^ snd b) = (case i of (z, k) \<Rightarrow> bl_counts (fst bs) z k * 2 ^ k)"
      using lists_holdD(3) [OF L, of z k] i by simp
  qed
  also have "\<dots> = free_frames (fst bs)"
    unfolding free_frames_def by (subst sum_list_distinct_conv_sum_set) (auto intro!: distinct_product simp: distinct_map inj_on_def simp del: upt_Suc)
  finally show ?thesis by simp
qed

end
