(* ===== verification/BuddySpec.thy ===== *)
theory BuddySpec
  imports Buddy
begin

text \<open>
  What the buddy lists promise their callers, the self-check \<open>validate\<close>, and
  the state machine of the allocator with clients that write what they like
  into the frames they own.
\<close>

section \<open>The self-check\<close>

text \<open>The walk over one list, with its counter.\<close>

function validate_list :: "FrameStore \<Rightarrow> Zone \<Rightarrow> nat \<Rightarrow> nat \<Rightarrow> nat \<Rightarrow> nat \<Rightarrow> (nat, string) result" where
  "validate_list s zone order previous current seen =
     (if current = NONE then Ok seen
      else if seen + 1 > fs_count s then Err ''free list is cyclic''
      else if \<not> is_multiple_of current (2 ^ order) \<or> Zone_of current \<noteq> zone
        then Err ''free block misaligned or in the wrong zone''
      else if \<not> range_is s current (2 ^ order) Free then Err ''listed block not free in the bitmap''
      else if fn_magic (fs_node s current) \<noteq> head_tag current \<or> fn_order (fs_node s current) \<noteq> order
        then Err ''free block header corrupted''
      else if fn_prev (fs_node s current) \<noteq> previous then Err ''free list back link broken''
      else validate_list s zone order current (fn_next (fs_node s current)) (seen + 1))"
  by pat_completeness auto
termination
  by (relation "measure (\<lambda>(s, zone, order, previous, current, seen). fs_count s - seen)") auto

declare validate_list.simps [simp del]

fun validate_lists :: "FrameStore \<Rightarrow> BuddyLists \<Rightarrow> (Zone \<times> nat) list \<Rightarrow> nat \<Rightarrow> (nat, string) result" where
  "validate_lists s b [] listed = Ok listed"
| "validate_lists s b ((zone, order) # todo) listed =
     bind_result (validate_list s zone order NONE (bl_heads b zone order) 0) (\<lambda>seen.
       if seen \<noteq> bl_counts b zone order then Err ''free list count mismatch''
       else validate_lists s b todo (listed + seen * 2 ^ order))"

definition validate :: "buddy_sys \<Rightarrow> (unit, string) result" where
  "validate = (\<lambda>(b, s).
     bind_result (validate_lists s b (List.product [Dma32, Normal] [0..<Suc MAX_ORDER]) 0) (\<lambda>listed.
       if listed \<noteq> length (filter (\<lambda>frame. fs_state s frame = Free) [0..<fs_count s])
       then Err ''free lists do not cover every free frame'' else Ok ()))"

lemma validate_list_ok:
  assumes "chain (fs_node s) order prev cur xs" "distinct xs" "seen + length xs \<le> fs_count s"
    "\<forall>x \<in> set xs. 2 ^ order dvd x \<and> Zone_of x = zone \<and> block_frames (x, order) \<subseteq> free_set s"
  shows "validate_list s zone order prev cur seen = Ok (seen + length xs)"
  using assms
proof (induction xs arbitrary: prev cur seen)
  case Nil
  then show ?case by (simp add: validate_list.simps)
next
  case (Cons x xs)
  have r: "range_is s x (2 ^ order) Free" using Cons(5)
    by (auto simp: range_is_iff block_frames_def free_set_def)
  have "validate_list s zone order prev cur seen =
      validate_list s zone order x (fn_next (fs_node s x)) (seen + 1)"
    using Cons(2,4,5) r by (subst validate_list.simps) (simp add: is_multiple_of_dvd)
  also have "\<dots> = Ok (seen + 1 + length xs)" using Cons(2-5) by (intro Cons.IH) auto
  finally show ?case by simp
qed

lemma buddy_list_ok:
  assumes inv: "buddy_inv B bs"
  shows "validate_list (snd bs) zone order NONE (bl_heads (fst bs) zone order) 0
    = Ok (bl_counts (fst bs) zone order)"
proof -
  have wf: "buddy_wf B bs" and cov: "covered B = free_set (snd bs)" using inv by (auto simp: buddy_inv_def)
  obtain L where L: "lists_hold L B bs" using wf by (auto simp: buddy_wf_def)
  note ld = lists_holdD [OF L, where order = order and z = zone]
  have "set (L zone order) \<subseteq> {..<fs_count (snd bs)}"
    using ld(4) wf block_ok_lt unfolding buddy_wf_def by blast
  then have "card (set (L zone order)) \<le> fs_count (snd bs)"
    using card_mono [of "{..<fs_count (snd bs)}" "set (L zone order)"] by simp
  then have "length (L zone order) \<le> fs_count (snd bs)" using distinct_card [OF ld(2)] by simp
  moreover have "2 ^ order dvd x \<and> Zone_of x = zone \<and> block_frames (x, order) \<subseteq> free_set (snd bs)"
    if "x \<in> set (L zone order)" for x
  proof -
    have x: "(x, order) \<in> B" "Zone_of x = zone" using ld(4) that by auto
    then have "2 ^ order dvd x" using wf by (auto simp: buddy_wf_def block_ok_def)
    moreover have "block_frames (x, order) \<subseteq> covered B" using x(1) by (auto simp: covered_def)
    ultimately show ?thesis using x(2) cov by simp
  qed
  ultimately show ?thesis using validate_list_ok [OF ld(1,2), of 0] ld(3) by simp
qed

lemma validate_lists_ok:
  assumes "buddy_inv B bs"
  shows "validate_lists (snd bs) (fst bs) zs listed =
     Ok (listed + sum_list (map (\<lambda>(z, k). bl_counts (fst bs) z k * 2 ^ k) zs))"
proof (induction zs arbitrary: listed)
  case (Cons i zs)
  obtain z k where "i = (z, k)" by fastforce
  then show ?case using Cons buddy_list_ok [OF assms, of z k] by simp
qed simp

lemma free_count: "length (filter (\<lambda>frame. fs_state s frame = Free) [0..<fs_count s]) = card (free_set s)"
proof -
  have "set (filter (\<lambda>frame. fs_state s frame = Free) [0..<fs_count s]) = free_set s"
    by (auto simp: free_set_def)
  then show ?thesis using distinct_card [of "filter (\<lambda>frame. fs_state s frame = Free) [0..<fs_count s]"] by simp
qed

lemma buddy_inv_validate:
  assumes "buddy_inv B bs"
  shows "validate bs = Ok ()" "free_frames (fst bs) = card (free_set (snd bs))"
proof -
  show ff: "free_frames (fst bs) = card (free_set (snd bs))"
    using free_frames_card assms by (metis buddy_inv_def)
  have "validate_lists (snd bs) (fst bs) (List.product [Dma32, Normal] [0..<Suc MAX_ORDER]) 0
      = Ok (free_frames (fst bs))"
    unfolding validate_lists_ok [OF assms] free_frames_def by simp
  then show "validate bs = Ok ()" using ff free_count [of "snd bs"]
    by (simp add: validate_def split_beta del: upt_Suc List.product.simps)
qed

section \<open>The state machine\<close>

text \<open>
  No frame but the heads of the listed blocks carries a head tag: the state of
  the lists in which \<open>isolate\<close> can tell the block that holds a frame.
\<close>

definition no_stale_tags :: "buddy_sys \<Rightarrow> bool" where
  "no_stale_tags bs \<longleftrightarrow> (\<exists>B. buddy_inv B bs \<and> tags_ok B (snd bs))"

lemma buddy_wf_set_state:
  assumes "buddy_wf B (b, s)"
  shows "buddy_wf B (b, set_state f st s)"
proof -
  have "set_states f (f + 1) st s = set_state f st s" by (simp add: set_states_def)
  then show ?thesis using buddy_wf_states [OF assms, of f "f + 1" st] by simp
qed

text \<open>
  When no frame but the listed heads carries a head tag, \<open>isolate\<close> takes
  any free frame out of the lists: it does not panic, and once the caller has
  given the frame another state the lists again hold exactly the free frames,
  merged as far as possible, with no stray tags; no other frame changes.
\<close>

lemma isolate_free_frame:
  assumes "buddy_inv B bs" "tags_ok B (snd bs)" "frame \<in> free_set (snd bs)" "st \<noteq> Free"
  shows "\<exists>b' s' B'. isolate frame bs = Some ((b', s'), True)
    \<and> buddy_inv B' (b', set_state frame st s') \<and> tags_ok B' (set_state frame st s')
    \<and> fs_state (set_state frame st s') = (fs_state (snd bs))(frame := st)"
proof -
  obtain bs' B' where iso: "isolate frame bs = Some (bs', True)" "buddy_wf B' bs'"
    "covered B' = free_set (snd bs) - {frame}" "merged B'" "tags_ok B' (snd bs')"
    "fs_state (snd bs') = fs_state (snd bs)" "fs_count (snd bs') = fs_count (snd bs)"
    using isolate_ok [OF assms(1-3)] by blast
  obtain b' s' where bs': "bs' = (b', s')" by fastforce
  have "buddy_wf B' (b', set_state frame st s')" using buddy_wf_set_state iso(2) bs' by simp
  moreover have "covered B' = free_set (set_state frame st s')"
    using iso(3,6,7) assms(4) bs' by (auto simp: free_set_def set_state_def)
  moreover have "is_free_head s' f k" if "is_free_head (set_state frame st s') f k" for f k
    using that assms(4) by (auto simp: is_free_head_def set_state_def split: if_splits option.splits)
  then have "tags_ok B' (set_state frame st s')" using iso(5) bs' by (auto simp: tags_ok_def)
  moreover have "fs_state (set_state frame st s') = (fs_state (snd bs))(frame := st)"
    using iso(6) bs' by (simp add: set_state_def)
  ultimately show ?thesis using iso(1,4) bs' by (auto simp: buddy_inv_def)
qed

text \<open>A client may write anything into any frame that is not free.\<close>

definition client_write :: "FrameStore \<Rightarrow> FrameStore \<Rightarrow> bool" where
  "client_write s s' \<longleftrightarrow> fs_count s' = fs_count s \<and> fs_state s' = fs_state s
     \<and> (\<forall>f \<in> free_set s. fs_node s' f = fs_node s f)"

definition buddy_init :: "buddy_sys \<Rightarrow> bool" where
  "buddy_init bs \<longleftrightarrow> (\<exists>b s. fs_count s \<le> MAX_FRAMES \<and> bs = build (b, s))"

inductive buddy_step :: "buddy_sys \<Rightarrow> buddy_sys \<Rightarrow> bool" where
  allocate: "buddy_step bs (fst (allocate order zones bs))"
| release: "buddy_step bs (fst (release frame order bs))"
| unreserve: "buddy_step bs (insert_reserved_range frame fin bs)"
| isolate: "no_stale_tags bs \<Longrightarrow> isolate frame bs = Some (bs', taken) \<Longrightarrow> st \<noteq> Free
    \<Longrightarrow> buddy_step bs (fst bs', if taken then set_state frame st (snd bs') else snd bs')"
| client: "client_write s s' \<Longrightarrow> buddy_step (b, s) (b, s')"

inductive_cases buddy_stepE: "buddy_step bs bs'"

lemma release_cases:
  assumes inv: "buddy_inv B bs"
  shows "(\<exists>e. release frame order bs = (bs, Err e)
      \<and> \<not> (block_ok (fs_count (snd bs)) (frame, order) \<and> (\<forall>f \<in> block_frames (frame, order). fs_state (snd bs) f = Allocated)))
    \<or> (block_ok (fs_count (snd bs)) (frame, order) \<and> (\<forall>f \<in> block_frames (frame, order). fs_state (snd bs) f = Allocated)
       \<and> release frame order bs = (coalesce_and_push frame order
           (fst bs, set_states frame (frame + 2 ^ order) Free (snd bs)), Ok ()))"
proof -
  have cnt: "fs_count (snd bs) < 2 ^ 64" using inv by (auto simp: buddy_inv_def buddy_wf_def MAX_FRAMES_def)
  then have oor: "(case checked_add frame (2 ^ order) of None \<Rightarrow> True | Some fin \<Rightarrow> fin > fs_count (snd bs))
      \<longleftrightarrow> frame + 2 ^ order > fs_count (snd bs)"
    by (auto simp: checked_add_def)
  have al: "range_is (snd bs) frame (2 ^ order) st \<longleftrightarrow> (\<forall>f \<in> block_frames (frame, order). fs_state (snd bs) f = st)" for st
    by (auto simp: range_is_iff block_frames_def)
  have "frame \<in> block_frames (frame, order)" by (rule block_frames_nonempty)
  then show ?thesis
    unfolding release_def Let_def oor al block_ok_def fst_conv snd_conv is_multiple_of_dvd by auto
qed

lemma client_write_inv:
  assumes inv: "buddy_inv B (b, s)" and w: "client_write s s'"
  shows "buddy_inv B (b, s')"
proof -
  have wf: "buddy_wf B (b, s)" and cov: "covered B = free_set s" and mg: "merged B"
    using inv by (auto simp: buddy_inv_def)
  obtain L where L: "lists_hold L B (b, s)" using wf by (auto simp: buddy_wf_def)
  have same: "fs_node s' x = fs_node s x" if "x \<in> set (L z k)" for x z k
  proof -
    have "(x, k) \<in> B" using lists_holdD(4) [OF L] that by blast
    then have "x \<in> covered B" using block_frames_nonempty unfolding covered_def by blast
    then show ?thesis using cov w by (simp add: client_write_def)
  qed
  have "chain (fs_node s') k NONE (bl_heads b z k) (L z k)" for z k
    using lists_holdD(1) [OF L, of k z] chain_cong [of "L z k" "fs_node s'" "fs_node s"] same by simp
  then have "lists_hold L B (b, s')" using L by (simp add: lists_hold_def)
  then show ?thesis using wf cov mg w by (auto simp: buddy_inv_def buddy_wf_def client_write_def free_set_def)
qed

lemma allocate_inv:
  assumes inv: "buddy_inv B bs"
  shows "\<exists>B'. buddy_inv B' (fst (allocate order zones bs))"
proof (cases "order \<le> MAX_ORDER")
  case True
  from allocate_zones_cases [OF inv True, of zones] show ?thesis
  proof (elim disjE exE conjE)
    fix head source
    assume "(head, source) \<in> B" "order \<le> source"
      "allocate_zones order zones bs = (take_block head (Zone_of head) source order bs, Some head)"
    then show ?thesis using take_block_ok [OF inv, of head source order] True by (auto simp: allocate_def)
  qed (use inv True in \<open>auto simp: allocate_def\<close>)
qed (use inv in \<open>auto simp: allocate_def\<close>)

lemma buddy_step_inv: "buddy_step bs bs' \<Longrightarrow> \<exists>B. buddy_inv B bs \<Longrightarrow> \<exists>B. buddy_inv B bs'"
proof (induction rule: buddy_step.induct)
  case (allocate bs order zones)
  then show ?case using allocate_inv by blast
next
  case (release bs frame order)
  then obtain B where B: "buddy_inv B bs" by blast
  from release_cases [OF B, of frame order] show ?case
  proof (elim disjE exE conjE)
    assume ok: "block_ok (fs_count (snd bs)) (frame, order)"
      "\<forall>f \<in> block_frames (frame, order). fs_state (snd bs) f = Allocated"
      "release frame order bs = (coalesce_and_push frame order
         (fst bs, set_states frame (frame + 2 ^ order) Free (snd bs)), Ok ())"
    then show ?thesis using release_ok [OF B ok(1)] by auto
  qed (use B in auto)
next
  case (unreserve bs frame fin)
  then obtain B where "buddy_inv B bs" by blast
  then show ?case using insert_reserved_from_ok [of B bs "min fin (fs_count (snd bs))" frame]
    by (auto simp: insert_reserved_range_def)
next
  case (isolate bs frame bs' taken st)
  then obtain B where B: "buddy_inv B bs" "tags_ok B (snd bs)" by (auto simp: no_stale_tags_def)
  show ?case
  proof (cases "frame \<in> free_set (snd bs)")
    case True
    then show ?thesis using isolate_free_frame [OF B True isolate.hyps(3)] isolate.hyps(2) by auto
  next
    case False
    then have "bs' = bs \<and> \<not> taken" using isolate.hyps(2) by (auto simp: isolate_def free_set_def)
    then show ?thesis using B(1) by auto
  qed
next
  case (client s s' b)
  then show ?case using client_write_inv by blast
qed

interpretation buddy: safe_system buddy_init buddy_step "\<lambda>bs. \<exists>B. buddy_inv B bs"
proof
  show "\<exists>B. buddy_inv B bs" if "buddy_init bs" for bs
    using that build_ok unfolding buddy_init_def by blast
  show "\<exists>B. buddy_inv B bs'" if "\<exists>B. buddy_inv B bs" "buddy_step bs bs'" for bs bs'
    using buddy_step_inv that by blast
qed

lemma buddy_allocate_cases:
  assumes inv: "buddy_inv B bs" and le: "order \<le> MAX_ORDER" and op: "allocate order zones bs = (bs', r)"
  shows "case r of
      None \<Rightarrow> bs' = bs \<and> (\<forall>x. 2 ^ order dvd x \<and> Zone_of x \<in> set zones \<longrightarrow> \<not> block_frames (x, order) \<subseteq> free_set (snd bs))
    | Some head \<Rightarrow>
        2 ^ order dvd head \<and> Zone_of head \<in> set zones \<and> block_frames (head, order) \<subseteq> free_set (snd bs)
        \<and> fs_count (snd bs') = fs_count (snd bs)
        \<and> fs_state (snd bs') = (\<lambda>f. if f \<in> block_frames (head, order) then Allocated else fs_state (snd bs) f)"
proof -
  have wf: "buddy_wf B bs" and cov: "covered B = free_set (snd bs)" and mg: "merged B"
    using inv by (auto simp: buddy_inv_def)
  have op': "allocate_zones order zones bs = (bs', r)" using op le by (simp add: allocate_def)
  from allocate_zones_cases [OF inv le, of zones] show ?thesis
  proof (elim disjE exE conjE)
    assume none: "allocate_zones order zones bs = (bs, None)"
      "\<forall>x k. (x, k) \<in> B \<longrightarrow> order \<le> k \<longrightarrow> Zone_of x \<notin> set zones"
    have "\<not> block_frames (x, order) \<subseteq> free_set (snd bs)" if x: "2 ^ order dvd x" "Zone_of x \<in> set zones" for x
    proof
      assume "block_frames (x, order) \<subseteq> free_set (snd bs)"
      then obtain u j where u: "(u, j) \<in> B" "order \<le> j" "block_frames (x, order) \<subseteq> block_frames (u, j)"
        using free_range_listed [OF wf mg le x(1)] cov by auto
      have "j \<le> MAX_ORDER" "2 ^ j dvd u" using wf u(1) by (auto simp: buddy_wf_def block_ok_def)
      then have "Zone_of x = Zone_of u"
        using Zone_of_block [of j u x] u(3) block_frames_nonempty [of x order] by blast
      then show False using none(2) u x(2) by auto
    qed
    then show ?thesis using none(1) op' by auto
  next
    fix head source
    assume h: "(head, source) \<in> B" "order \<le> source" "Zone_of head \<in> set zones"
      "allocate_zones order zones bs = (take_block head (Zone_of head) source order bs, Some head)"
    have "2 ^ source dvd head" using wf h(1) by (auto simp: buddy_wf_def block_ok_def)
    then have "2 ^ order dvd head" using power_le_dvd h(2) by blast
    moreover have "block_frames (head, order) \<subseteq> block_frames (head, source)"
      using h(2) power_increasing [of order source "2 :: nat"] by (auto simp: block_frames_def)
    moreover have "block_frames (head, source) \<subseteq> free_set (snd bs)" using h(1) cov by (auto simp: covered_def)
    ultimately show ?thesis using h op' take_block_ok [OF inv h(1,2)] by auto
  qed
qed

section \<open>Properties\<close>

text \<open>
  C14. in every state that building the lists, allocating, releasing, handing
  reserved frames back, taking single frames out and writing into owned frames
  can reach, in any order and with any contents of the frames, the allocator's
  self-check passes, the listed blocks are aligned, disjoint and cover exactly the free frames, no
  two free buddies are left unmerged, and the number of free frames the lists
  report is the number of free frames of the bitmap. One call is restricted:
  a single frame is taken out (\<open>isolate\<close>) only while no frame but the listed
  heads carries a head tag. \<open>build\<close> and \<open>release\<close> do not see to that, and
  the last property of this theory shows what \<open>isolate\<close> does otherwise.
\<close>

theorem buddy_reachable:
  assumes "reaches buddy_init buddy_step bs"
  shows "validate bs = Ok () \<and> (\<exists>B. buddy_inv B bs) \<and> free_frames (fst bs) = card (free_set (snd bs))"
  using buddy.reaches_inv [OF assms] buddy_inv_validate by blast

definition clean_store :: "nat \<Rightarrow> FrameStore" where
  "clean_store n = \<lparr>fs_count = n, fs_state = (\<lambda>_. Free),
     fs_node = (\<lambda>_. \<lparr>fn_magic = 0, fn_order = 0, fn_prev = 0, fn_next = 0\<rparr>)\<rparr>"

lemma clean_reachable: "n \<le> MAX_FRAMES \<Longrightarrow> reaches buddy_init buddy_step (build (b, clean_store n))"
  by (rule reaches.start, unfold buddy_init_def, rule exI [of _ b], rule exI [of _ "clean_store n"])
    (simp add: clean_store_def)

lemma clean_build:
  obtains B where "buddy_inv B (build (lists_new, clean_store 5))" "tags_ok B (snd (build (lists_new, clean_store 5)))"
    "fs_state (snd (build (lists_new, clean_store 5))) = (\<lambda>_. Free)" "fs_count (snd (build (lists_new, clean_store 5))) = 5"
proof -
  have "fn_magic (fs_node (clean_store 5) f) \<noteq> head_tag f" if "f \<in> free_set (clean_store 5)" for f
    using that head_tag_nonzero [of f] by (auto simp: clean_store_def free_set_def MAX_FRAMES_def)
  then show thesis using that build_ok [of "clean_store 5" lists_new] by (auto simp: clean_store_def MAX_FRAMES_def)
qed

theorem buddy_reachable_witness:
  "\<exists>b' s'. isolate 3 (build (lists_new, clean_store 5)) = Some ((b', s'), True)
     \<and> validate (fst (allocate 1 [Normal, Dma32] (b', set_state 3 Reserved s'))) = Ok ()"
proof -
  let ?bs = "build (lists_new, clean_store 5)"
  obtain B where B: "buddy_inv B ?bs" "tags_ok B (snd ?bs)" "fs_state (snd ?bs) = (\<lambda>_. Free)" "fs_count (snd ?bs) = 5"
    by (rule clean_build)
  have "3 \<in> free_set (snd ?bs)" using B(3,4) by (simp add: free_set_def)
  then obtain b' s' where iso: "isolate 3 ?bs = Some ((b', s'), True)" using isolate_free_frame [OF B(1,2), of 3 Reserved] by blast
  have "reaches buddy_init buddy_step ?bs" by (rule clean_reachable) (simp add: MAX_FRAMES_def)
  moreover have "buddy_step ?bs (b', set_state 3 Reserved s')"
    using buddy_step.isolate [of ?bs 3 "(b', s')" True Reserved] B(1,2) iso by (auto simp: no_stale_tags_def)
  ultimately have "reaches buddy_init buddy_step (b', set_state 3 Reserved s')" by (rule reaches.step)
  then have "reaches buddy_init buddy_step (fst (allocate 1 [Normal, Dma32] (b', set_state 3 Reserved s')))"
    by (rule reaches.step) (rule buddy_step.allocate)
  then show ?thesis using buddy_reachable iso by blast
qed

text \<open>
  C30. \<open>allocate\<close> in a reachable state. A block it returns is aligned to its
  size, lies in one of the wanted zones and was free throughout; exactly its
  frames become allocated. It returns nothing only when no aligned range of
  that size in the wanted zones is free, and then changes nothing: the lists
  never hide free memory. Reachable is as above: no frame was taken out with
  \<open>isolate\<close> over a stale head tag.
\<close>

theorem buddy_allocate_spec:
  assumes "reaches buddy_init buddy_step bs" "order \<le> MAX_ORDER" "allocate order zones bs = (bs', r)"
  shows "case r of
      None \<Rightarrow> bs' = bs \<and> (\<forall>x. 2 ^ order dvd x \<and> Zone_of x \<in> set zones \<longrightarrow> \<not> {x..<x + 2 ^ order} \<subseteq> free_set (snd bs))
    | Some head \<Rightarrow>
        2 ^ order dvd head \<and> Zone_of head \<in> set zones \<and> {head..<head + 2 ^ order} \<subseteq> free_set (snd bs)
        \<and> fs_state (snd bs') = (\<lambda>f. if head \<le> f \<and> f < head + 2 ^ order then Allocated else fs_state (snd bs) f)"
proof -
  obtain B where "buddy_inv B bs" using buddy.reaches_inv [OF assms(1)] by blast
  from buddy_allocate_cases [OF this assms(2,3)] show ?thesis
    by (cases r) (auto simp: block_frames_def)
qed

lemma insert_run_past: "fin \<le> frame \<Longrightarrow> insert_run frame fin bs = bs"
  by (simp add: insert_run.simps)

theorem buddy_allocate_spec_witness:
  "\<exists>bs' head. allocate 1 [Normal, Dma32] (build (lists_new, clean_store 5)) = (bs', Some head)
     \<and> {head..<head + 2} \<subseteq> free_set (clean_store 5) \<and> even head"
proof -
  let ?bs = "build (lists_new, clean_store 5)"
  obtain bs' r where op: "allocate 1 [Normal, Dma32] ?bs = (bs', r)" by fastforce
  have reach: "reaches buddy_init buddy_step ?bs" by (rule clean_reachable) (simp add: MAX_FRAMES_def)
  have free: "free_set (snd ?bs) = {..<5}" "free_set (clean_store 5) = {..<5}"
    using build_ok [of "clean_store 5" lists_new] by (auto simp: free_set_def clean_store_def MAX_FRAMES_def)
  note sp = buddy_allocate_spec [OF reach _ op]
  show ?thesis
  proof (cases r)
    case None
    have "\<not> {0..<0 + 2 ^ 1} \<subseteq> free_set (snd ?bs)"
      using sp None by (auto simp: MAX_ORDER_def Zone_of_def DMA32_FRAMES_def)
    moreover have "{0..<0 + 2 ^ 1} \<subseteq> {..<5 :: nat}" by auto
    ultimately show ?thesis using free(1) by blast
  next
    case (Some head)
    then show ?thesis using sp op free by (auto simp: MAX_ORDER_def)
  qed
qed

text \<open>
  C31. \<open>release\<close> in a reachable state succeeds exactly for a block of a legal
  order that is aligned, inside the tracked frames and allocated throughout.
  Then exactly its frames become free; on every error nothing changes.
\<close>

theorem buddy_release_spec:
  assumes "reaches buddy_init buddy_step bs" "release frame order bs = (bs', r)"
  shows "(is_ok r \<longleftrightarrow> order \<le> MAX_ORDER \<and> 2 ^ order dvd frame \<and> frame + 2 ^ order \<le> fs_count (snd bs)
            \<and> (\<forall>f. frame \<le> f \<and> f < frame + 2 ^ order \<longrightarrow> fs_state (snd bs) f = Allocated))
    \<and> (\<not> is_ok r \<longrightarrow> bs' = bs)
    \<and> (is_ok r \<longrightarrow> fs_state (snd bs') = (\<lambda>f. if frame \<le> f \<and> f < frame + 2 ^ order then Free else fs_state (snd bs) f))"
proof -
  obtain B where B: "buddy_inv B bs" using buddy.reaches_inv [OF assms(1)] by blast
  have all: "(\<forall>f \<in> block_frames (frame, order). fs_state (snd bs) f = Allocated)
      \<longleftrightarrow> (\<forall>f. frame \<le> f \<and> f < frame + 2 ^ order \<longrightarrow> fs_state (snd bs) f = Allocated)"
    by (auto simp: block_frames_def)
  from release_cases [OF B, of frame order] show ?thesis
  proof (elim disjE exE conjE)
    fix e
    assume "release frame order bs = (bs, Err e)"
      "\<not> (block_ok (fs_count (snd bs)) (frame, order) \<and> (\<forall>f \<in> block_frames (frame, order). fs_state (snd bs) f = Allocated))"
    then show ?thesis using assms(2) all by (auto simp: block_ok_def)
  next
    assume ok: "block_ok (fs_count (snd bs)) (frame, order)"
      "\<forall>f \<in> block_frames (frame, order). fs_state (snd bs) f = Allocated"
      "release frame order bs = (coalesce_and_push frame order
         (fst bs, set_states frame (frame + 2 ^ order) Free (snd bs)), Ok ())"
    then have "fs_state (snd bs') = (\<lambda>f. if f \<in> block_frames (frame, order) then Free else fs_state (snd bs) f)"
      using release_ok [OF B ok(1)] assms(2) by auto
    then have "fs_state (snd bs') = (\<lambda>f. if frame \<le> f \<and> f < frame + 2 ^ order then Free else fs_state (snd bs) f)"
      by (simp add: block_frames_def)
    moreover have "r = Ok ()" using ok(3) assms(2) by simp
    ultimately show ?thesis using ok(1,2) all by (auto simp: block_ok_def)
  qed
qed

theorem buddy_release_spec_witness:
  "\<exists>bs' head. allocate 1 [Normal, Dma32] (build (lists_new, clean_store 5)) = (bs', Some head)
     \<and> is_ok (snd (release head 1 bs')) \<and> \<not> is_ok (snd (release head 2 bs'))
     \<and> fs_state (snd (fst (release head 1 bs'))) = (\<lambda>_. Free)"
proof -
  let ?bs = "build (lists_new, clean_store 5)"
  obtain B where B: "buddy_inv B ?bs" "fs_state (snd ?bs) = (\<lambda>_. Free)" "fs_count (snd ?bs) = 5" by (rule clean_build)
  obtain bs' r where op: "allocate 1 [Normal, Dma32] ?bs = (bs', r)" by fastforce
  have le: "(1 :: nat) \<le> MAX_ORDER" "(2 :: nat) \<le> MAX_ORDER" by (simp_all add: MAX_ORDER_def)
  note al = buddy_allocate_cases [OF B(1) le(1) op]
  have "block_frames (0, 1) \<subseteq> free_set (snd ?bs)" using B(2,3) by (auto simp: block_frames_def free_set_def)
  then obtain head where h: "r = Some head" using al by (cases r) (auto simp: Zone_of_def DMA32_FRAMES_def)
  note st = al [unfolded h option.case]
  have reach: "reaches buddy_init buddy_step bs'"
    using reaches.step [OF clean_reachable [of 5 lists_new] buddy_step.allocate, of 1 "[Normal, Dma32]"] op by (simp add: MAX_FRAMES_def)
  have rel: "release head k bs' = (fst (release head k bs'), snd (release head k bs'))" for k by simp
  have "head + 1 \<in> free_set (snd ?bs)" using st by (auto simp: block_frames_def)
  then have in5: "head + 2 \<le> 5" using B(3) by (simp add: free_set_def)
  have "fs_state (snd bs') (head + 2) \<noteq> Allocated" using st B(2) by (simp add: block_frames_def)
  then have "\<not> (\<forall>f. head \<le> f \<and> f < head + 2 ^ 2 \<longrightarrow> fs_state (snd bs') f = Allocated)" by (auto intro!: exI [of _ "head + 2"])
  moreover have "\<forall>f. head \<le> f \<and> f < head + 2 ^ 1 \<longrightarrow> fs_state (snd bs') f = Allocated" using st by (simp add: block_frames_def)
  ultimately show ?thesis
    using buddy_release_spec [OF reach rel, of 1] buddy_release_spec [OF reach rel, of 2] op h st B(2,3) in5 le
    by (auto simp: block_frames_def fun_eq_iff)
qed

text \<open>Memory in which frame 1 still holds a list node of an earlier run of the kernel.\<close>

definition stale_store :: FrameStore where
  "stale_store = set_node 1 \<lparr>fn_magic = head_tag 1, fn_order = 0, fn_prev = NONE, fn_next = NONE\<rparr> (clean_store 3)"

lemma stale_build:
  "build (lists_new, stale_store) = push 2 0 (push 0 1 (lists_new, stale_store))"
proof -
  have o1: "block_order 0 3 = 1"
  proof (rule antisym)
    have "2 ^ block_order 0 3 \<le> (3 :: nat)" using block_order_props(3) [of 0 3] by simp
    then show "block_order 0 3 \<le> 1" using power_increasing [of 2 "block_order 0 3" "2 :: nat"] by fastforce
    show "1 \<le> block_order 0 3" by (rule block_order_props(4)) (simp_all add: MAX_ORDER_def)
  qed
  have o2: "block_order 2 3 = 0"
  proof (rule ccontr)
    assume "block_order 2 3 \<noteq> 0"
    then have "(2 :: nat) ^ 1 \<le> 2 ^ block_order 2 3" by (intro power_increasing) auto
    then show False using block_order_props(3) [of 2 3] by simp
  qed
  have st: "fs_count stale_store = 3" "fs_state stale_store = (\<lambda>_. Free)"
    by (simp_all add: stale_store_def set_node_def clean_store_def)
  have re: "run_end (\<lambda>f. True) 3 0 = 3" by (simp add: run_end.simps)
  have "build (lists_new, stale_store) = build_from 3 (insert_run 0 3 (lists_new, stale_store))"
    unfolding build_def by (simp add: build_from.simps [of 0] st re)
  also have "\<dots> = insert_run 0 3 (lists_new, stale_store)" by (simp add: build_from.simps st)
  also have "\<dots> = push 2 0 (push 0 1 (lists_new, stale_store))"
    by (simp add: insert_run.simps [of 0] insert_run.simps [of 2] insert_run_past o1 o2 Let_def)
  finally show ?thesis .
qed

lemma stale_isolate:
  "\<exists>b' s'. isolate 1 (build (lists_new, stale_store)) = Some ((b', s'), True)
     \<and> fs_state (set_state 1 Reserved s') 1 = Reserved
     \<and> snd (allocate 1 [Dma32] (b', set_state 1 Reserved s')) = Some 0"
proof -
  let ?bs = "push 2 0 (push 0 1 (lists_new, stale_store))"
  have z: "Zone_of 0 = Dma32" "Zone_of 1 = Dma32" "Zone_of 2 = Dma32" by (simp_all add: Zone_of_def DMA32_FRAMES_def)
  have node: "fs_node (snd ?bs) 1 = \<lparr>fn_magic = head_tag 1, fn_order = 0, fn_prev = NONE, fn_next = NONE\<rparr>"
    by (simp add: push_eq z Let_def stale_store_def set_node_def lists_new_def NONE_def)
  have st: "fs_count (snd ?bs) = 3" "fs_state (snd ?bs) = (\<lambda>_. Free)"
    by (simp_all add: stale_store_def set_node_def clean_store_def)
  have head: "is_free_head (snd ?bs) (align_down 1 0) 0"
    unfolding is_free_head_def st align_down_def using node by (simp add: checked_add_def)
  have "[0..<Suc MAX_ORDER] = 0 # [1..<Suc MAX_ORDER]" using upt_conv_Cons [of 0 "Suc MAX_ORDER"] by simp
  then have iso: "isolate 1 ?bs = Some (unlink 1 Dma32 0 ?bs, True)"
    using head st z(2) by (simp add: isolate_def align_down_def del: upt_Suc)
  have h1: "bl_heads (fst (unlink 1 Dma32 0 ?bs)) Dma32 1 = 0"
    by (cases ?bs) (simp add: unlink_eq push_eq Let_def z)
  have "[1..<Suc MAX_ORDER] = 1 # [Suc 1..<Suc MAX_ORDER]" by (rule upt_conv_Cons) (simp add: MAX_ORDER_def)
  then have "snd (allocate 1 [Dma32] (fst (unlink 1 Dma32 0 ?bs), s)) = Some 0" for s
    using h1 by (simp add: allocate_def allocate_in_def MAX_ORDER_def NONE_def del: upt_Suc)
  then show ?thesis using iso stale_build by (cases "unlink 1 Dma32 0 ?bs") (auto simp: set_state_def)
qed

text \<open>
  C37. \<open>build\<close> does not clear tags inside the blocks it lists, and \<open>isolate\<close>
  trusts them: over memory that still holds a list node in frame 1, reserving
  frame 1 right after \<open>build\<close> takes the wrong block out of the lists, and the
  next allocation of two frames hands out the reserved frame 1.
\<close>

theorem buddy_stale_tag:
  "\<exists>b' s'. reaches buddy_init buddy_step (build (lists_new, stale_store))
     \<and> isolate 1 (build (lists_new, stale_store)) = Some ((b', s'), True)
     \<and> fs_state (set_state 1 Reserved s') 1 = Reserved
     \<and> snd (allocate 1 [Dma32] (b', set_state 1 Reserved s')) = Some 0"
proof -
  have "fs_count stale_store \<le> MAX_FRAMES"
    by (simp add: stale_store_def set_node_def clean_store_def MAX_FRAMES_def)
  then have "buddy_init (build (lists_new, stale_store))" unfolding buddy_init_def by blast
  then have "reaches buddy_init buddy_step (build (lists_new, stale_store))" by (rule reaches.start)
  then show ?thesis using stale_isolate by blast
qed

end
