(* ===== verification/Frame.thy ===== *)
theory Frame
  imports MappingModel Holds BuddySpec
begin

text \<open>
  Physical frame ownership (\<open>kernel/src/mm/frame.rs\<close>): the two-bit-per-frame
  bitmap, the allocator that scans it before the buddy lists exist and uses
  the lists afterwards, boot-time holds and reference counts. The statics of
  the module (the allocator, the reference counts) are one state record. A
  result \<^term>\<open>None\<close> is a panic.
\<close>

section \<open>The bitmap\<close>

text \<open>What a store of frame states promises: a write changes the state of one frame.\<close>

locale frame_states =
  fixes get :: "'m \<Rightarrow> nat \<Rightarrow> State" and put :: "'m \<Rightarrow> nat \<Rightarrow> State \<Rightarrow> 'm" and room :: "'m \<Rightarrow> nat"
  assumes get_put: "f < room m \<Longrightarrow> get (put m f st) g = (if g = f then st else get m g)"
    and room_put: "room (put m f st) = room m"
begin

lemma get_puts:
  "\<forall>f \<in> set fs. f < room m \<Longrightarrow>
     get (fold (\<lambda>f m. put m f st) fs m) g = (if g \<in> set fs then st else get m g)"
  by (induction fs arbitrary: m) (auto simp: get_put room_put)

end

fun state_code :: "State \<Rightarrow> byte" where
  "state_code Reserved = 0"
| "state_code Free = 1"
| "state_code Allocated = 2"

definition meta_state :: "byte list \<Rightarrow> nat \<Rightarrow> State" where
  "meta_state bytes frame =
     (let shift = (frame AND 3) * 2; bits = drop_bit shift (bytes ! (frame div 4)) AND 3 in
      if bits = 1 then Free else if bits = 2 then Allocated else Reserved)"

definition meta_set_state :: "byte list \<Rightarrow> nat \<Rightarrow> State \<Rightarrow> byte list" where
  "meta_set_state bytes frame st =
     (let shift = (frame AND 3) * 2; b = bytes ! (frame div 4) in
      bytes[frame div 4 := (b AND NOT (push_bit shift 3)) OR push_bit shift (state_code st)])"

text \<open>A pair of bits of a byte.\<close>

definition crumb :: "byte \<Rightarrow> nat \<Rightarrow> byte" where
  "crumb b i = drop_bit (i * 2) b AND 3"

lemma mask_three: "(3 :: byte) = mask 2"
  by (simp add: mask_eq_exp_minus_1)

lemma crumb_set:
  assumes "i < 4" "j < 4" "c AND 3 = c"
  shows "crumb ((b AND NOT (push_bit (i * 2) 3)) OR push_bit (i * 2) c) j = (if j = i then c else crumb b j)"
proof -
  have cb: "bit c n \<Longrightarrow> n < 2" for n
    using assms(3) by (metis bit_and_iff bit_mask_iff mask_three)
  show ?thesis
  proof (cases "j = i")
    case True
    have "bit (crumb ((b AND NOT (push_bit (i * 2) 3)) OR push_bit (i * 2) c) i) n = bit c n" if "n < 8" for n
    proof (cases "n < 2")
      case True
      then show ?thesis using assms(1) by (auto simp: crumb_def bit_simps mask_three)
    next
      case False
      then show ?thesis using cb [of n] by (auto simp: crumb_def bit_simps mask_three)
    qed
    then show ?thesis using True by (intro bit_eqI) (simp add: True)
  next
    case False
    then show ?thesis
      by (intro bit_eqI) (use assms(1,2) in \<open>auto simp: crumb_def bit_simps mask_three dest!: cb\<close>)
  qed
qed

lemma meta_state_crumb:
  "meta_state bytes f =
     (let c = crumb (bytes ! (f div 4)) (f mod 4) in if c = 1 then Free else if c = 2 then Allocated else Reserved)"
proof -
  have "f AND 3 = f mod 4" using and_mask_mod [of 4 2 f] by simp
  then show ?thesis by (simp add: meta_state_def crumb_def Let_def)
qed

lemma meta_set_state_crumb:
  assumes "f div 4 < length bytes" "g div 4 < length bytes"
  shows "crumb (meta_set_state bytes f st ! (g div 4)) (g mod 4) =
    (if g = f then state_code st else crumb (bytes ! (g div 4)) (g mod 4))"
proof -
  have m: "f AND 3 = f mod 4" using and_mask_mod [of 4 2 f] by simp
  have sc: "state_code st AND 3 = state_code st" by (cases st) simp_all
  have eq: "g = f \<longleftrightarrow> g div 4 = f div 4 \<and> g mod 4 = f mod 4" by (metis div_mult_mod_eq)
  show ?thesis
  proof (cases "g div 4 = f div 4")
    case True
    then show ?thesis
      using crumb_set [of "f mod 4" "g mod 4" "state_code st" "bytes ! (f div 4)"] sc assms eq
      by (simp add: meta_set_state_def Let_def m)
  next
    case False
    then have "meta_set_state bytes f st ! (g div 4) = bytes ! (g div 4)"
      by (simp add: meta_set_state_def Let_def)
    then show ?thesis using False by auto
  qed
qed

text \<open>Beyond the bitmap the model reads whatever \<^term>\<open>(!)\<close> gives; the room of a bitmap bounds the
  frames that exist.\<close>

definition bitmap_get :: "byte list \<Rightarrow> nat \<Rightarrow> State" where
  "bitmap_get bytes f = (if f < 4 * length bytes then meta_state bytes f else Reserved)"

interpretation bitmap: frame_states bitmap_get meta_set_state "\<lambda>bytes. 4 * length bytes"
proof
  show "4 * length (meta_set_state bytes f st) = 4 * length bytes" for bytes f st
    by (simp add: meta_set_state_def Let_def)
  fix bytes :: "byte list" and f g :: nat and st
  assume f: "f < 4 * length bytes"
  have len: "length (meta_set_state bytes f st) = length bytes" by (simp add: meta_set_state_def Let_def)
  have fl: "f div 4 < length bytes" using f by (simp add: less_mult_imp_div_less mult.commute)
  show "bitmap_get (meta_set_state bytes f st) g = (if g = f then st else bitmap_get bytes g)"
  proof (cases "g < 4 * length bytes")
    case True
    then have "g div 4 < length bytes" by (simp add: less_mult_imp_div_less mult.commute)
    then have "bitmap_get (meta_set_state bytes f st) g =
        (let c = (if g = f then state_code st else crumb (bytes ! (g div 4)) (g mod 4))
         in if c = 1 then Free else if c = 2 then Allocated else Reserved)"
      unfolding bitmap_get_def len meta_state_crumb using True by (simp add: meta_set_state_crumb [OF fl])
    then show ?thesis using True by (cases "g = f", cases st) (simp_all add: bitmap_get_def meta_state_crumb)
  next
    case False
    then show ?thesis using f by (auto simp: bitmap_get_def len)
  qed
qed

text \<open>The store the buddy lists work on keeps the same contract.\<close>

interpretation store: frame_states fs_state "\<lambda>s f st. set_state f st s" fs_count
  by unfold_locales (simp_all add: set_state_def)

section \<open>The allocator\<close>

definition MAX_TRACKED_PHYS :: u64 where "MAX_TRACKED_PHYS = 64 * 2 ^ 30"

datatype FrameError =
    FE_Unaligned | FE_Overflow | FE_InvalidRange | FE_Overlap | FE_DuplicateRelease | FE_DoubleFree
  | FE_OutOfMemory | FE_InvalidOrder | FE_UnsupportedAddress | FE_NotShareable

fun from_ReleaseError :: "ReleaseError \<Rightarrow> FrameError" where
  "from_ReleaseError OutOfRange = FE_UnsupportedAddress"
| "from_ReleaseError Unaligned = FE_Unaligned"
| "from_ReleaseError DuplicateRelease = FE_DuplicateRelease"
| "from_ReleaseError DoubleFree = FE_DoubleFree"
| "from_ReleaseError InvalidRange = FE_InvalidRange"

text \<open>The allocator with the reference counts (\<^term>\<open>None\<close> until \<open>init_refcounts\<close>).\<close>

record Allocator =
  al_lists :: BuddyLists
  al_store :: FrameStore
  al_cursor :: usize
  al_active :: bool
  al_holds :: hold_table
  al_refs :: "nat list option"

definition with_sys :: "Allocator \<Rightarrow> buddy_sys \<Rightarrow> Allocator" where
  "with_sys al bs = al\<lparr>al_lists := fst bs, al_store := snd bs\<rparr>"

abbreviation sys :: "Allocator \<Rightarrow> buddy_sys" where
  "sys al \<equiv> (al_lists al, al_store al)"

definition pages :: "nat \<Rightarrow> u64" where
  "pages order = 2 ^ order"

definition order_bytes :: "nat \<Rightarrow> u64" where
  "order_bytes order = pages order * PAGE_SIZE"

definition frame_index :: "Allocator \<Rightarrow> u64 \<Rightarrow> (usize, FrameError) result" where
  "frame_index al address =
     (if \<not> is_multiple_of address PAGE_SIZE then Err FE_Unaligned
      else if address div PAGE_SIZE < fs_count (al_store al) then Ok (address div PAGE_SIZE)
      else Err FE_UnsupportedAddress)"

definition frame_endpoint :: "Allocator \<Rightarrow> u64 \<Rightarrow> (usize, FrameError) result" where
  "frame_endpoint al address =
     (if \<not> is_multiple_of address PAGE_SIZE then Err FE_Unaligned
      else if address div PAGE_SIZE \<le> fs_count (al_store al) then Ok (address div PAGE_SIZE)
      else Err FE_UnsupportedAddress)"

definition range_state :: "FrameStore \<Rightarrow> nat \<Rightarrow> nat \<Rightarrow> State \<Rightarrow> bool" where
  "range_state s start count expected \<longleftrightarrow>
     (case checked_add start count of Some fin \<Rightarrow> fin \<le> fs_count s | None \<Rightarrow> False)
     \<and> list_all (\<lambda>frame. fs_state s frame = expected) [start..<start + count]"

text \<open>One step of the loops of \<open>reserve\<close> and \<open>allocate_scan\<close>: take a frame out of the lists and give
  it a state.\<close>

definition take_frame :: "bool \<Rightarrow> State \<Rightarrow> nat \<Rightarrow> buddy_sys \<Rightarrow> buddy_sys option" where
  "take_frame active st frame bs =
     (if active then
        (case isolate frame bs of None \<Rightarrow> None | Some ((b, s), _) \<Rightarrow> Some (b, set_state frame st s))
      else Some (fst bs, set_state frame st (snd bs)))"

fun reserve_frames :: "bool \<Rightarrow> nat list \<Rightarrow> buddy_sys \<Rightarrow> buddy_sys option" where
  "reserve_frames active [] bs = Some bs"
| "reserve_frames active (frame # frames) bs =
     (if fs_state (snd bs) frame = Free then
        (case take_frame active Reserved frame bs of None \<Rightarrow> None | Some bs' \<Rightarrow> reserve_frames active frames bs')
      else reserve_frames active frames bs)"

fun take_frames :: "bool \<Rightarrow> nat list \<Rightarrow> buddy_sys \<Rightarrow> buddy_sys option" where
  "take_frames active [] bs = Some bs"
| "take_frames active (frame # frames) bs =
     (case take_frame active Allocated frame bs of None \<Rightarrow> None | Some bs' \<Rightarrow> take_frames active frames bs')"

definition al_reserve :: "Allocator \<Rightarrow> u64 \<Rightarrow> u64 \<Rightarrow> (Allocator \<times> (unit, FrameError) result) option" where
  "al_reserve al start fin =
     (if start \<ge> fin \<or> \<not> is_multiple_of start PAGE_SIZE \<or> \<not> is_multiple_of fin PAGE_SIZE
      then Some (al, Err FE_InvalidRange)
      else
        case frame_index al start of Err e \<Rightarrow> Some (al, Err e)
        | Ok lo \<Rightarrow>
          (case frame_endpoint al fin of Err e \<Rightarrow> Some (al, Err e)
           | Ok hi \<Rightarrow>
             if lo \<ge> hi then Some (al, Err FE_InvalidRange)
             else if list_ex (\<lambda>frame. fs_state (al_store al) frame = Allocated) [lo..<hi]
             then Some (al, Err FE_Overlap)
             else map_option (\<lambda>bs. (with_sys al bs, Ok ()))
               (reserve_frames (al_active al) [lo..<hi] (sys al))))"

definition zones_for :: "u64 \<Rightarrow> u64 \<Rightarrow> Zone list" where
  "zones_for mn mx =
     (let boundary = DMA32_FRAMES * PAGE_SIZE in
      if mx \<le> boundary then [Dma32] else if mn \<ge> boundary then [Normal] else [Normal, Dma32])"

text \<open>\<open>(a..b).step_by(n)\<close>\<close>

definition step_by :: "nat \<Rightarrow> nat \<Rightarrow> nat \<Rightarrow> nat list" where
  "step_by a b n = map (\<lambda>i. a + i * n) [0..<div_ceil (b - a) n]"

definition clamp :: "nat \<Rightarrow> nat \<Rightarrow> nat \<Rightarrow> nat" where
  "clamp x lo hi = (if x < lo then lo else if hi < x then hi else x)"

definition allocate_scan :: "Allocator \<Rightarrow> nat \<Rightarrow> u64 \<Rightarrow> u64 \<Rightarrow> (Allocator \<times> (usize, FrameError) result) option" where
  "allocate_scan al order mn mx =
     (let count = 2 ^ order;
          low = next_multiple_of (div_ceil mn PAGE_SIZE) count;
          high = min (mx div PAGE_SIZE) (fs_count (al_store al))
      in if low \<ge> high \<or> high - low < count then Some (al, Err FE_OutOfMemory)
         else
           let start = next_multiple_of (clamp (al_cursor al) low high) count in
           case List.find (\<lambda>frame. frame + count \<le> high \<and> range_state (al_store al) frame count Free)
                  (step_by start high count @ step_by low start count) of
             None \<Rightarrow> Some (al, Err FE_OutOfMemory)
           | Some found \<Rightarrow>
               map_option (\<lambda>bs. ((with_sys al bs)\<lparr>al_cursor := found + count\<rparr>, Ok found))
                 (take_frames (al_active al) [found..<found + count] (sys al)))"

definition set_refcounts :: "nat \<Rightarrow> nat \<Rightarrow> nat \<Rightarrow> nat list option \<Rightarrow> nat list option" where
  "set_refcounts lo count v refs = map_option (\<lambda>rs.
     fold (\<lambda>index rs. if index < length rs then rs[index := v] else rs) [lo..<lo + count] rs) refs"

definition fits :: "nat \<Rightarrow> u64 \<Rightarrow> u64 \<Rightarrow> usize \<Rightarrow> bool" where
  "fits order mn mx frame \<longleftrightarrow>
     (let address = frame * PAGE_SIZE in
      address \<ge> mn \<and> (case checked_add address (order_bytes order) of Some fin \<Rightarrow> fin \<le> mx | None \<Rightarrow> False))"

text \<open>The part of \<open>allocate\<close> that finds a frame.\<close>

definition find_frame :: "Allocator \<Rightarrow> nat \<Rightarrow> u64 \<Rightarrow> u64 \<Rightarrow> (Allocator \<times> (usize, FrameError) result) option" where
  "find_frame al order mn mx =
     (if al_active al then
        (case allocate order (zones_for mn mx) (sys al) of
           (bs, None) \<Rightarrow> Some (with_sys al bs, Err FE_OutOfMemory)
         | (bs, Some frame) \<Rightarrow>
             if fits order mn mx frame then Some (with_sys al bs, Ok frame)
             else (case release frame order bs of
                     (bs', Ok _) \<Rightarrow> allocate_scan (with_sys al bs') order mn mx
                   | (_, Err _) \<Rightarrow> None))
      else allocate_scan al order mn mx)"

definition al_allocate :: "Allocator \<Rightarrow> nat \<Rightarrow> u64 \<Rightarrow> u64 \<Rightarrow> (Allocator \<times> (u64, FrameError) result) option" where
  "al_allocate al order mn mx =
     (if order > MAX_ORDER then Some (al, Err FE_InvalidOrder)
      else
        case find_frame al order mn mx of
          None \<Rightarrow> None
        | Some (al', Err e) \<Rightarrow> Some (al', Err e)
        | Some (al', Ok frame) \<Rightarrow>
            Some (al'\<lparr>al_refs := set_refcounts frame (2 ^ order) 1 (al_refs al')\<rparr>, Ok (frame * PAGE_SIZE)))"

definition al_release :: "Allocator \<Rightarrow> u64 \<Rightarrow> nat \<Rightarrow> Allocator \<times> (unit, FrameError) result" where
  "al_release al frame order =
     (if order > MAX_ORDER then (al, Err FE_InvalidOrder)
      else case frame_index al frame of Err e \<Rightarrow> (al, Err e)
      | Ok start \<Rightarrow>
        if al_active al then
          (case release start order (sys al) of
             (bs, Ok _) \<Rightarrow> (with_sys al bs, Ok ())
           | (bs, Err e) \<Rightarrow> (with_sys al bs, Err (from_ReleaseError e)))
        else
          let count = 2 ^ order; s = al_store al in
          if \<not> is_multiple_of start count then (al, Err FE_Unaligned)
          else if range_state s start count Reserved then (al, Err FE_DuplicateRelease)
          else if range_state s start count Free then (al, Err FE_DoubleFree)
          else if \<not> range_state s start count Allocated then (al, Err FE_InvalidRange)
          else (al\<lparr>al_store := set_states start (start + count) Free s\<rparr>, Ok ()))"

definition al_unreserve :: "Allocator \<Rightarrow> nat \<Rightarrow> nat \<Rightarrow> Allocator" where
  "al_unreserve al lo hi =
     (if al_active al then with_sys al (insert_reserved_range lo hi (sys al))
      else al\<lparr>al_store := fold (\<lambda>frame s. if fs_state s frame = Reserved then set_state frame Free s else s)
                 [lo..<min hi (fs_count (al_store al))] (al_store al)\<rparr>)"

text \<open>\<open>refcount_slot\<close>: the index of a frame's counter, once the counters exist.\<close>

definition refcount_slot :: "Allocator \<Rightarrow> u64 \<Rightarrow> (nat list \<times> nat) option" where
  "refcount_slot al frame =
     (case al_refs al of None \<Rightarrow> None
      | Some rs \<Rightarrow> if frame div PAGE_SIZE \<ge> length rs then None else Some (rs, frame div PAGE_SIZE))"

definition drop_frame :: "Allocator \<Rightarrow> u64 \<Rightarrow> Allocator option" where
  "drop_frame al frame =
     (case al_release al frame 0 of (al', Ok _) \<Rightarrow> Some al' | (_, Err _) \<Rightarrow> None)"

definition free_frame :: "Allocator \<Rightarrow> u64 \<Rightarrow> Allocator option" where
  "free_frame al frame =
     (case refcount_slot al frame of
        None \<Rightarrow> drop_frame al frame
      | Some (rs, i) \<Rightarrow>
          if rs ! i = 0 then None
          else if rs ! i = 1 then drop_frame (al\<lparr>al_refs := Some (rs[i := 0])\<rparr>) frame
          else Some (al\<lparr>al_refs := Some (rs[i := rs ! i - 1])\<rparr>))"

definition frame_get :: "Allocator \<Rightarrow> u64 \<Rightarrow> Allocator \<times> (unit, FrameError) result" where
  "frame_get al frame =
     (case refcount_slot al frame of
        None \<Rightarrow> (al, Err FE_NotShareable)
      | Some (rs, i) \<Rightarrow>
          if rs ! i \<noteq> 0 \<and> rs ! i \<noteq> 2 ^ 16 - 1 then (al\<lparr>al_refs := Some (rs[i := rs ! i + 1])\<rparr>, Ok ())
          else (al, Err FE_NotShareable))"

definition frame_refcount :: "Allocator \<Rightarrow> u64 \<Rightarrow> nat option" where
  "frame_refcount al frame = map_option (\<lambda>(rs, i). rs ! i) (refcount_slot al frame)"

subsection \<open>Holds\<close>

text \<open>The loop of \<open>hold_range\<close>.\<close>

function hold_from :: "hold_id \<Rightarrow> nat \<Rightarrow> nat \<Rightarrow> Allocator \<Rightarrow> Allocator option" where
  "hold_from hid frame hi al =
     (if frame < hi then
        if fs_state (al_store al) frame \<noteq> Free then hold_from hid (frame + 1) hi al
        else
          let stop = run_end (\<lambda>f. fs_state (al_store al) f = Free) hi frame in
          case al_reserve al (frame * PAGE_SIZE) (stop * PAGE_SIZE) of
            None \<Rightarrow> None
          | Some (al', r) \<Rightarrow>
              hold_from hid stop hi
                (if is_ok r then al'\<lparr>al_holds := fst (holds_add (al_holds al') hid frame stop)\<rparr> else al')
      else Some al)"
  by pat_completeness auto
termination
  by (relation "measure (\<lambda>(hid, frame, hi, al). hi - frame)") (auto intro!: diff_less_mono2 run_end_gt)

declare hold_from.simps [simp del]

definition hold_range :: "Allocator \<Rightarrow> u64 \<Rightarrow> u64 \<Rightarrow> (Allocator \<times> hold_id option) option" where
  "hold_range al start fin =
     (let lo = start div PAGE_SIZE; hi = min (div_ceil fin PAGE_SIZE) (fs_count (al_store al)) in
      if lo \<ge> hi then Some (al, None)
      else
        let (holds, hid) = holds_new_id (al_holds al)
        in map_option (\<lambda>al'. (al', Some hid)) (hold_from hid lo hi (al\<lparr>al_holds := holds\<rparr>)))"

definition release_hold :: "Allocator \<Rightarrow> hold_id \<Rightarrow> Allocator" where
  "release_hold al hid =
     (let (holds, ranges) = holds_release (al_holds al) hid
      in (fold (\<lambda>(lo, hi) al. al_unreserve al lo hi) ranges al)\<lparr>al_holds := holds\<rparr>)"

definition reserve_range :: "Allocator \<Rightarrow> u64 \<Rightarrow> u64 \<Rightarrow> Allocator option" where
  "reserve_range al start fin =
     (case al_reserve al start fin of
        None \<Rightarrow> None
      | Some (al', Err _) \<Rightarrow> Some al'
      | Some (al', Ok _) \<Rightarrow>
          Some (al'\<lparr>al_holds := fst (holds_punch (al_holds al') (start div PAGE_SIZE) (fin div PAGE_SIZE))\<rparr>))"

section \<open>Invariant\<close>

text \<open>
  Once the lists are live they hold exactly the free frames, and no frame but
  their heads carries a head tag. The second half is an assumption on what the
  memory holds, not something the code maintains: \<open>build\<close> and
  \<open>coalesce_and_push\<close> leave the contents of the frames inside a block alone.
\<close>

definition sys_inv :: "bool \<Rightarrow> buddy_sys \<Rightarrow> bool" where
  "sys_inv active bs \<longleftrightarrow> fs_count (snd bs) \<le> MAX_FRAMES
     \<and> (active \<longrightarrow> no_stale_tags bs)"

lemma take_frame_ok:
  assumes "sys_inv active bs" "f \<in> free_set (snd bs)" "st \<noteq> Free"
  shows "\<exists>bs'. take_frame active st f bs = Some bs' \<and> sys_inv active bs'
    \<and> fs_state (snd bs') = (fs_state (snd bs))(f := st) \<and> fs_count (snd bs') = fs_count (snd bs)"
proof (cases active)
  case True
  then obtain B where B: "buddy_inv B bs" "tags_ok B (snd bs)" using assms(1) by (auto simp: sys_inv_def no_stale_tags_def)
  obtain bs1 B1 where iso: "isolate f bs = Some (bs1, True)" "buddy_wf B1 bs1" "covered B1 = free_set (snd bs) - {f}"
    "merged B1" "tags_ok B1 (snd bs1)" "fs_state (snd bs1) = fs_state (snd bs)" "fs_count (snd bs1) = fs_count (snd bs)"
    using isolate_ok [OF B assms(2)] by blast
  obtain b1 s1 where bs1: "bs1 = (b1, s1)" by fastforce
  have "buddy_inv B1 (b1, set_state f st s1)"
    using iso(2-4,6,7) assms(3) bs1 buddy_wf_set_state [of B1 b1 s1]
    by (auto simp: buddy_inv_def free_set_def set_state_def)
  moreover have "is_free_head s1 g k" if "is_free_head (set_state f st s1) g k" for g k
    using that assms(3) by (auto simp: is_free_head_def set_state_def split: if_splits option.splits)
  then have "tags_ok B1 (set_state f st s1)" using iso(5) bs1 by (auto simp: tags_ok_def)
  ultimately show ?thesis using True iso bs1 assms(1)
    by (auto simp: take_frame_def sys_inv_def no_stale_tags_def set_state_def)
next
  case False
  then show ?thesis using assms(1) by (simp add: take_frame_def sys_inv_def no_stale_tags_def set_state_def)
qed

lemma take_frames_ok:
  assumes "sys_inv active bs" "set fs \<subseteq> free_set (snd bs)" "distinct fs"
  shows "\<exists>bs'. take_frames active fs bs = Some bs' \<and> sys_inv active bs'
    \<and> fs_state (snd bs') = (\<lambda>f. if f \<in> set fs then Allocated else fs_state (snd bs) f)
    \<and> fs_count (snd bs') = fs_count (snd bs)"
  using assms
proof (induction fs arbitrary: bs)
  case (Cons f fs)
  from take_frame_ok [OF Cons(2), of f Allocated] Cons(3) obtain bs1 where
    b1: "take_frame active Allocated f bs = Some bs1" "sys_inv active bs1"
      "fs_state (snd bs1) = (fs_state (snd bs))(f := Allocated)" "fs_count (snd bs1) = fs_count (snd bs)" by auto
  have "set fs \<subseteq> free_set (snd bs1)" using Cons(3,4) b1(3,4) by (auto simp: free_set_def)
  from Cons.IH [OF b1(2) this] Cons(4) obtain bs2 where
    b2: "take_frames active fs bs1 = Some bs2" "sys_inv active bs2"
      "fs_state (snd bs2) = (\<lambda>g. if g \<in> set fs then Allocated else fs_state (snd bs1) g)"
      "fs_count (snd bs2) = fs_count (snd bs1)" by auto
  then show ?case using b1 by (auto simp: fun_eq_iff)
qed simp

lemma reserve_frames_ok:
  assumes "sys_inv active bs" "\<forall>f \<in> set fs. f < fs_count (snd bs)"
  shows "\<exists>bs'. reserve_frames active fs bs = Some bs' \<and> sys_inv active bs'
    \<and> fs_state (snd bs') = (\<lambda>f. if f \<in> set fs \<and> fs_state (snd bs) f = Free then Reserved else fs_state (snd bs) f)
    \<and> fs_count (snd bs') = fs_count (snd bs)"
  using assms
proof (induction fs arbitrary: bs)
  case (Cons f fs)
  show ?case
  proof (cases "fs_state (snd bs) f = Free")
    case True
    then have "f \<in> free_set (snd bs)" using Cons(3) by (simp add: free_set_def)
    from take_frame_ok [OF Cons(2) this, of Reserved] obtain bs1 where
      b1: "take_frame active Reserved f bs = Some bs1" "sys_inv active bs1"
        "fs_state (snd bs1) = (fs_state (snd bs))(f := Reserved)" "fs_count (snd bs1) = fs_count (snd bs)" by auto
    from Cons.IH [OF b1(2)] Cons(3) b1(4) obtain bs2 where
      b2: "reserve_frames active fs bs1 = Some bs2" "sys_inv active bs2"
        "fs_state (snd bs2) = (\<lambda>g. if g \<in> set fs \<and> fs_state (snd bs1) g = Free then Reserved else fs_state (snd bs1) g)"
        "fs_count (snd bs2) = fs_count (snd bs1)" by auto
    then show ?thesis using b1 True by (auto simp: fun_eq_iff)
  next
    case False
    from Cons.IH [OF Cons(2)] Cons(3) obtain bs2 where
      b2: "reserve_frames active fs bs = Some bs2" "sys_inv active bs2"
        "fs_state (snd bs2) = (\<lambda>g. if g \<in> set fs \<and> fs_state (snd bs) g = Free then Reserved else fs_state (snd bs) g)"
        "fs_count (snd bs2) = fs_count (snd bs)" by auto
    then show ?thesis using False by (auto simp: fun_eq_iff)
  qed
qed simp

section \<open>The scan\<close>

lemma div_ceil_le_iff: "0 < n \<Longrightarrow> div_ceil a n \<le> k \<longleftrightarrow> a \<le> k * n"
proof -
  assume n: "0 < n"
  have d: "a = a div n * n + a mod n" "a mod n < n" using n by simp_all
  show ?thesis
  proof (cases "a mod n = 0")
    case True
    then have "a = a div n * n" using d(1) by linarith
    then have "a \<le> k * n \<longleftrightarrow> a div n * n \<le> k * n" by metis
    then show ?thesis using True n by (simp add: div_ceil_def)
  next
    case False
    have "a div n + 1 \<le> k \<longleftrightarrow> a \<le> k * n"
    proof
      assume "a div n + 1 \<le> k"
      then have "(a div n + 1) * n \<le> k * n" by (intro mult_le_mono1)
      moreover have "(a div n + 1) * n = a div n * n + n" by simp
      ultimately show "a \<le> k * n" using d by linarith
    next
      assume le: "a \<le> k * n"
      show "a div n + 1 \<le> k"
      proof (rule ccontr)
        assume "\<not> a div n + 1 \<le> k"
        then have "k * n \<le> a div n * n" by (intro mult_le_mono1) simp
        then show False using le d(1) False by linarith
      qed
    qed
    then show ?thesis using False by (simp add: div_ceil_def)
  qed
qed

lemma step_by_set:
  assumes "0 < n"
  shows "x \<in> set (step_by a b n) \<longleftrightarrow> a \<le> x \<and> x < b \<and> n dvd x - a"
proof -
  have dc: "i < div_ceil d n \<longleftrightarrow> i * n < d" for i d
    using div_ceil_le_iff [OF assms, of d i] by linarith
  have "x \<in> set (step_by a b n) \<longleftrightarrow> (\<exists>i. x = a + i * n \<and> i * n < b - a)"
    by (auto simp: step_by_def dc)
  also have "\<dots> \<longleftrightarrow> a \<le> x \<and> x < b \<and> n dvd x - a"
  proof
    assume "\<exists>i. x = a + i * n \<and> i * n < b - a"
    then show "a \<le> x \<and> x < b \<and> n dvd x - a" by auto
  next
    assume x: "a \<le> x \<and> x < b \<and> n dvd x - a"
    then obtain i where "x - a = i * n" by (metis dvdE mult.commute)
    then show "\<exists>i. x = a + i * n \<and> i * n < b - a" using x by (intro exI [of _ i]) linarith
  qed
  finally show ?thesis .
qed

text \<open>A block that a request with bounds may be given.\<close>

definition candidate :: "FrameStore \<Rightarrow> nat \<Rightarrow> u64 \<Rightarrow> u64 \<Rightarrow> nat \<Rightarrow> bool" where
  "candidate s order mn mx f \<longleftrightarrow> 2 ^ order dvd f \<and> mn \<le> f * PAGE_SIZE
     \<and> (f + 2 ^ order) * PAGE_SIZE \<le> mx \<and> block_frames (f, order) \<subseteq> free_set s"

lemma candidate_bounds:
  assumes "candidate s order mn mx f"
  shows "next_multiple_of (div_ceil mn PAGE_SIZE) (2 ^ order) \<le> f"
    and "f + 2 ^ order \<le> min (mx div PAGE_SIZE) (fs_count s)"
proof -
  have P: "0 < PAGE_SIZE" by (simp add: PAGE_SIZE_def)
  have c: "2 ^ order dvd f" "mn \<le> f * PAGE_SIZE" "(f + 2 ^ order) * PAGE_SIZE \<le> mx"
    "block_frames (f, order) \<subseteq> free_set s" using assms by (auto simp: candidate_def)
  show "next_multiple_of (div_ceil mn PAGE_SIZE) (2 ^ order) \<le> f"
    using div_ceil_le_iff [OF P, of mn f] c(1,2) by (intro next_multiple_of_le) auto
  have "f + 2 ^ order - 1 \<in> block_frames (f, order)" by (rule block_frames_last)
  then have "f + 2 ^ order - 1 < fs_count s" using c(4) by (auto simp: free_set_def)
  moreover have "f + 2 ^ order \<le> mx div PAGE_SIZE" using c(3) P by (simp add: less_eq_div_iff_mult_less_eq)
  ultimately show "f + 2 ^ order \<le> min (mx div PAGE_SIZE) (fs_count s)" by linarith
qed

lemma candidate_intro:
  assumes "2 ^ order dvd f" "next_multiple_of (div_ceil mn PAGE_SIZE) (2 ^ order) \<le> f"
    "f + 2 ^ order \<le> mx div PAGE_SIZE" "block_frames (f, order) \<subseteq> free_set s"
  shows "candidate s order mn mx f"
proof -
  have P: "0 < PAGE_SIZE" by (simp add: PAGE_SIZE_def)
  have "div_ceil mn PAGE_SIZE \<le> f" using next_multiple_of_ge [of "div_ceil mn PAGE_SIZE" "2 ^ order"] assms(2) by linarith
  then have "mn \<le> f * PAGE_SIZE" using div_ceil_le_iff [OF P] by blast
  moreover have "(f + 2 ^ order) * PAGE_SIZE \<le> mx" using assms(3) P by (simp add: less_eq_div_iff_mult_less_eq)
  ultimately show ?thesis using assms by (simp add: candidate_def)
qed

lemma range_state_free:
  assumes "fs_count s \<le> MAX_FRAMES"
  shows "range_state s f (2 ^ order) Free \<longleftrightarrow> f + 2 ^ order \<le> fs_count s \<and> block_frames (f, order) \<subseteq> free_set s"
  using assms by (auto simp: range_state_def checked_add_def list_all_iff block_frames_def free_set_def MAX_FRAMES_def split: if_splits)

text \<open>The result of a search: a candidate that is now allocated, or out of memory and no candidate.\<close>

definition found_frame :: "Allocator \<Rightarrow> nat \<Rightarrow> u64 \<Rightarrow> u64 \<Rightarrow> Allocator \<Rightarrow> nat \<Rightarrow> bool" where
  "found_frame al order mn mx al' f \<longleftrightarrow> candidate (al_store al) order mn mx f
     \<and> sys_inv (al_active al) (sys al') \<and> al_active al' = al_active al \<and> al_holds al' = al_holds al \<and> al_refs al' = al_refs al
     \<and> fs_count (al_store al') = fs_count (al_store al)
     \<and> fs_state (al_store al') = (\<lambda>g. if g \<in> block_frames (f, order) then Allocated else fs_state (al_store al) g)"

lemma allocate_scan_ok:
  assumes inv: "sys_inv (al_active al) (sys al)"
  shows "(allocate_scan al order mn mx = Some (al, Err FE_OutOfMemory) \<and> (\<forall>f. \<not> candidate (al_store al) order mn mx f))
    \<or> (\<exists>al' f. allocate_scan al order mn mx = Some (al', Ok f) \<and> found_frame al order mn mx al' f)"
proof -
  define count low high where "count = (2 :: nat) ^ order" and "low = next_multiple_of (div_ceil mn PAGE_SIZE) count"
    and "high = min (mx div PAGE_SIZE) (fs_count (al_store al))"
  define start where "start = next_multiple_of (clamp (al_cursor al) low high) count"
  let ?P = "\<lambda>frame. frame + count \<le> high \<and> range_state (al_store al) frame count Free"
  let ?L = "step_by start high count @ step_by low start count"
  have cpos: "0 < count" by (simp add: count_def)
  have cnt: "fs_count (al_store al) \<le> MAX_FRAMES" using inv by (simp add: sys_inv_def no_stale_tags_def)
  have dv: "count dvd low" "count dvd start" using cpos by (simp_all add: low_def start_def)
  have lowstart: "low \<le> start" if "low < high"
    using that next_multiple_of_ge [of "clamp (al_cursor al) low high" count]
    by (auto simp: start_def clamp_def split: if_splits)
  have cand: "f \<in> set ?L \<and> ?P f" if "candidate (al_store al) order mn mx f" "low < high" for f
  proof -
    have b: "low \<le> f" "f + count \<le> high" using candidate_bounds [OF that(1)] by (simp_all add: low_def high_def count_def)
    have fd: "count dvd f" using that(1) by (simp add: candidate_def count_def)
    have "f < high" using b(2) cpos by linarith
    then have "f \<in> set ?L" using step_by_set [OF cpos, of f start high] step_by_set [OF cpos, of f low start] b fd dv
      by (cases "start \<le> f") (auto simp: dvd_diff_nat)
    moreover have "range_state (al_store al) f count Free"
      unfolding count_def range_state_free [OF cnt] using that(1) b by (simp add: candidate_def high_def count_def)
    ultimately show ?thesis using b(2) by simp
  qed
  show ?thesis
  proof (cases "low \<ge> high \<or> high - low < count")
    case True
    then have "allocate_scan al order mn mx = Some (al, Err FE_OutOfMemory)"
      unfolding allocate_scan_def Let_def count_def [symmetric] low_def [symmetric] high_def [symmetric] by simp
    moreover have "\<not> candidate (al_store al) order mn mx f" for f
      using candidate_bounds [of "al_store al" order mn mx f] True cpos
      unfolding count_def [symmetric] low_def [symmetric] high_def [symmetric] by linarith
    ultimately show ?thesis by blast
  next
    case False
    then have lh: "low < high" by simp
    have un: "allocate_scan al order mn mx = (case List.find ?P ?L of None \<Rightarrow> Some (al, Err FE_OutOfMemory)
        | Some found \<Rightarrow> map_option (\<lambda>bs. ((with_sys al bs)\<lparr>al_cursor := found + count\<rparr>, Ok found))
            (take_frames (al_active al) [found..<found + count] (sys al)))"
      unfolding allocate_scan_def Let_def count_def [symmetric] low_def [symmetric] high_def [symmetric] start_def [symmetric]
      using False by simp
    show ?thesis
    proof (cases "List.find ?P ?L")
      case None
      then have "\<not> candidate (al_store al) order mn mx f" for f using cand [of f] lh unfolding find_None_mem by blast
      then show ?thesis using un None by simp
    next
      case (Some f)
      then have f: "f \<in> set ?L" "f + count \<le> high" "range_state (al_store al) f count Free"
        using find_Some_mem [OF Some] by auto
      have blk: "block_frames (f, order) \<subseteq> free_set (al_store al)"
        using f(3) unfolding count_def range_state_free [OF cnt] by simp
      have "low \<le> f" "count dvd f"
      proof -
        from f(1) consider "start \<le> f" "count dvd f - start" | "low \<le> f" "count dvd f - low"
          unfolding set_append Un_iff step_by_set [OF cpos] by blast
        then have "low \<le> f \<and> count dvd f"
        proof cases
          case 1
          then show ?thesis using lowstart [OF lh] dvd_diffD [OF 1(2) dv(2) 1(1)] by simp
        next
          case 2
          then show ?thesis using dvd_diffD [OF 2(2) dv(1) 2(1)] by simp
        qed
        then show "low \<le> f" "count dvd f" by simp_all
      qed
      then have c: "candidate (al_store al) order mn mx f"
        using f(2) blk by (intro candidate_intro) (simp_all add: count_def low_def high_def)
      have sub: "set [f..<f + count] \<subseteq> free_set (snd (sys al))"
        using blk by (simp add: block_frames_def count_def)
      from take_frames_ok [OF inv sub distinct_upt, unfolded snd_conv] obtain bs' where
        b: "take_frames (al_active al) [f..<f + count] (sys al) = Some bs'" "sys_inv (al_active al) bs'"
          "fs_state (snd bs') = (\<lambda>g. if g \<in> set [f..<f + count] then Allocated else fs_state (al_store al) g)"
          "fs_count (snd bs') = fs_count (al_store al)" by blast
      have "found_frame al order mn mx ((with_sys al bs')\<lparr>al_cursor := f + count\<rparr>) f"
        using c b by (simp add: found_frame_def with_sys_def block_frames_def count_def)
      then show ?thesis using un Some b(1) by auto
    qed
  qed
qed

section \<open>Allocation\<close>

lemma candidate_zone:
  assumes "candidate s order mn mx f"
  shows "Zone_of f \<in> set (zones_for mn mx)"
proof -
  have P: "0 < PAGE_SIZE" by (simp add: PAGE_SIZE_def)
  have c: "mn \<le> f * PAGE_SIZE" "(f + 2 ^ order) * PAGE_SIZE \<le> mx" using assms by (auto simp: candidate_def)
  have "f < DMA32_FRAMES" if "mx \<le> DMA32_FRAMES * PAGE_SIZE"
  proof -
    have "(f + 2 ^ order) * PAGE_SIZE \<le> DMA32_FRAMES * PAGE_SIZE" using c(2) that by (rule le_trans)
    then have "f + 2 ^ order \<le> DMA32_FRAMES" using P by simp
    moreover have "(0 :: nat) < 2 ^ order" by simp
    ultimately show ?thesis by linarith
  qed
  moreover have "DMA32_FRAMES \<le> f" if "DMA32_FRAMES * PAGE_SIZE \<le> mn"
    using c(1) that P by (meson le_trans mult_le_cancel2 not_less)
  ultimately show ?thesis by (auto simp: zones_for_def Zone_of_def Let_def)
qed

lemma fits_iff:
  assumes "mx < 2 ^ 64"
  shows "fits order mn mx f \<longleftrightarrow> mn \<le> f * PAGE_SIZE \<and> (f + 2 ^ order) * PAGE_SIZE \<le> mx"
  using assms by (auto simp: fits_def Let_def order_bytes_def pages_def checked_add_def algebra_simps split: if_splits)

text \<open>The lists' allocation with what is needed to use it again: the tags.\<close>

lemma allocate_tags:
  assumes inv: "buddy_inv B bs" "tags_ok B (snd bs)" and le: "order \<le> MAX_ORDER" and op: "allocate order zones bs = (bs', r)"
  shows "\<exists>B'. buddy_inv B' bs' \<and> tags_ok B' (snd bs')
    \<and> (\<forall>head. r = Some head \<longrightarrow> (\<forall>f \<in> block_frames (head, order). untagged (snd bs') f))"
proof -
  have op': "allocate_zones order zones bs = (bs', r)" using op le by (simp add: allocate_def)
  from allocate_zones_cases [OF inv(1) le, of zones] show ?thesis
  proof (elim disjE exE conjE)
    fix head source
    assume h: "(head, source) \<in> B" "order \<le> source"
      "allocate_zones order zones bs = (take_block head (Zone_of head) source order bs, Some head)"
    then show ?thesis using take_block_ok [OF inv(1) h(1,2)] inv(2) op' by auto
  qed (use inv op' in auto)
qed

text \<open>A block that was just allocated can be given back, and nothing has changed then.\<close>

lemma allocate_release:
  assumes inv: "buddy_inv B bs" "tags_ok B (snd bs)" and le: "order \<le> MAX_ORDER"
    and op: "allocate order zones bs = (bs', Some f)"
  shows "\<exists>bs''. release f order bs' = (bs'', Ok ()) \<and> sys_inv True bs''
    \<and> fs_state (snd bs'') = fs_state (snd bs) \<and> fs_count (snd bs'') = fs_count (snd bs)"
proof -
  from buddy_allocate_cases [OF inv(1) le op] have a: "2 ^ order dvd f" "block_frames (f, order) \<subseteq> free_set (snd bs)"
    "fs_count (snd bs') = fs_count (snd bs)"
    "fs_state (snd bs') = (\<lambda>g. if g \<in> block_frames (f, order) then Allocated else fs_state (snd bs) g)" by auto
  obtain B' where B': "buddy_inv B' bs'" "tags_ok B' (snd bs')" "\<forall>g \<in> block_frames (f, order). untagged (snd bs') g"
    using allocate_tags [OF inv le op] by blast
  have "f + 2 ^ order - 1 < fs_count (snd bs)" using a(2) block_frames_last [of f order] by (auto simp: free_set_def)
  then have ok: "block_ok (fs_count (snd bs')) (f, order)" using a le by (simp add: block_ok_def)
  have all: "\<forall>g \<in> block_frames (f, order). fs_state (snd bs') g = Allocated" using a(4) by simp
  let ?bs = "coalesce_and_push f order (fst bs', set_states f (f + 2 ^ order) Free (snd bs'))"
  have rel: "release f order bs' = (?bs, Ok ())" using release_cases [OF B'(1), of f order] ok all by auto
  have "\<forall>g \<in> block_frames (f, order). fs_state (snd bs') g \<noteq> Free" using all by simp
  from release_ok [OF B'(1) ok this] B'(2,3) obtain B'' where B'': "buddy_inv B'' ?bs" "tags_ok B'' (snd ?bs)"
    "fs_state (snd ?bs) = (\<lambda>g. if g \<in> block_frames (f, order) then Free else fs_state (snd bs') g)"
    "fs_count (snd ?bs) = fs_count (snd bs')" by blast
  have "fs_state (snd ?bs) = fs_state (snd bs)"
    using B''(3) a(2,4) by (auto simp: fun_eq_iff free_set_def)
  moreover have "sys_inv True ?bs"
    using B''(1,2) by (auto simp: sys_inv_def no_stale_tags_def buddy_inv_def buddy_wf_def)
  ultimately show ?thesis using rel B''(4) a(3) by auto
qed

lemma candidate_cong:
  "fs_state s = fs_state s' \<Longrightarrow> fs_count s = fs_count s' \<Longrightarrow> candidate s order mn mx f = candidate s' order mn mx f"
  by (simp add: candidate_def free_set_def)

lemma find_frame_ok:
  assumes inv: "sys_inv (al_active al) (sys al)" and le: "order \<le> MAX_ORDER" and mx: "mx < 2 ^ 64"
  shows "(\<exists>al'. find_frame al order mn mx = Some (al', Err FE_OutOfMemory)
      \<and> al_active al' = al_active al \<and> sys_inv (al_active al) (sys al') \<and> fs_state (al_store al') = fs_state (al_store al)
      \<and> (\<forall>f. \<not> candidate (al_store al) order mn mx f))
    \<or> (\<exists>al' f. find_frame al order mn mx = Some (al', Ok f) \<and> found_frame al order mn mx al' f)"
proof (cases "al_active al")
  case False
  then show ?thesis using allocate_scan_ok [OF inv, of order mn mx] inv by (auto simp: find_frame_def)
next
  case act: True
  then obtain B where B: "buddy_inv B (sys al)" "tags_ok B (al_store al)" using inv by (auto simp: sys_inv_def no_stale_tags_def)
  obtain bs r where op: "allocate order (zones_for mn mx) (sys al) = (bs, r)" by fastforce
  note ac = buddy_allocate_cases [OF B(1) le op]
  show ?thesis
  proof (cases r)
    case None
    then have bs: "bs = sys al"
      and none: "\<forall>x. 2 ^ order dvd x \<and> Zone_of x \<in> set (zones_for mn mx) \<longrightarrow> \<not> block_frames (x, order) \<subseteq> free_set (al_store al)"
      using ac by auto
    have "\<not> candidate (al_store al) order mn mx f" for f
      using none candidate_zone [of "al_store al" order mn mx f] unfolding candidate_def by blast
    then show ?thesis using act op None bs inv by (simp add: find_frame_def with_sys_def)
  next
    case (Some f)
    then have a: "2 ^ order dvd f" "block_frames (f, order) \<subseteq> free_set (al_store al)"
      "fs_count (snd bs) = fs_count (al_store al)"
      "fs_state (snd bs) = (\<lambda>g. if g \<in> block_frames (f, order) then Allocated else fs_state (al_store al) g)"
      using ac by auto
    obtain B' where B': "buddy_inv B' bs" "tags_ok B' (snd bs)" using allocate_tags [OF B(1) _ le op] B(2) by auto
    then have inv': "sys_inv True bs" by (auto simp: sys_inv_def no_stale_tags_def buddy_inv_def buddy_wf_def)
    show ?thesis
    proof (cases "fits order mn mx f")
      case True
      then have "candidate (al_store al) order mn mx f" using a fits_iff [OF mx] by (simp add: candidate_def)
      then have "found_frame al order mn mx (with_sys al bs) f"
        using inv' act a by (simp add: found_frame_def with_sys_def)
      then show ?thesis using act op Some True by (auto simp: find_frame_def)
    next
      case False
      have op': "allocate order (zones_for mn mx) (sys al) = (bs, Some f)" using op Some by simp
      from allocate_release [OF B(1) _ le op'] B(2) obtain bs2 where
        r2: "release f order bs = (bs2, Ok ())" "sys_inv True bs2" "fs_state (snd bs2) = fs_state (al_store al)"
          "fs_count (snd bs2) = fs_count (al_store al)" by auto
      define al2 where "al2 = with_sys al bs2"
      have al2: "al_active al2" "al_store al2 = snd bs2" "sys al2 = bs2" "al_holds al2 = al_holds al" "al_refs al2 = al_refs al"
        using act by (simp_all add: al2_def with_sys_def)
      have eq: "find_frame al order mn mx = allocate_scan al2 order mn mx"
        using act op' False r2(1) by (simp add: find_frame_def al2_def)
      have cc: "candidate (al_store al2) order mn mx g = candidate (al_store al) order mn mx g" for g
        using r2(3,4) al2(2) by (intro candidate_cong) simp_all
      have "sys_inv (al_active al2) (sys al2)" using r2(2) al2 by simp
      note scan = allocate_scan_ok [OF this, of order mn mx]
      have same: "fs_state (al_store al2) = fs_state (al_store al)" "fs_count (al_store al2) = fs_count (al_store al)"
        using r2(3,4) al2(2) by simp_all
      have ff: "found_frame al order mn mx al' g" if "found_frame al2 order mn mx al' g" for al' g
        using that act al2(1,4,5) unfolding found_frame_def cc same by simp
      show ?thesis using scan
      proof (elim disjE exE conjE)
        assume "allocate_scan al2 order mn mx = Some (al2, Err FE_OutOfMemory)"
          "\<forall>f. \<not> candidate (al_store al2) order mn mx f"
        then show ?thesis using r2(2) al2(1,3) same(1) act cc unfolding eq by auto
      next
        fix al' g
        assume "allocate_scan al2 order mn mx = Some (al', Ok g)" "found_frame al2 order mn mx al' g"
        then show ?thesis using ff unfolding eq by blast
      qed
    qed
  qed
qed

section \<open>Properties\<close>

text \<open>
  the two-bit bitmap implements the frame states the allocator works on:
  after any list of writes to frames the bitmap has room for, each written
  frame has the written state and every other frame, the three that share its
  byte included, has kept its own.
\<close>

theorem bitmap_states:
  assumes "\<forall>f \<in> set fs. f < 4 * length bytes"
  shows "bitmap_get (fold (\<lambda>f m. meta_set_state m f st) fs bytes) g = (if g \<in> set fs then st else bitmap_get bytes g)"
  by (rule bitmap.get_puts [OF assms])

theorem bitmap_states_witness:
  "bitmap_get (fold (\<lambda>f m. meta_set_state m f Allocated) [1, 6] [0x55, 0]) 2 = Free
   \<and> bitmap_get (fold (\<lambda>f m. meta_set_state m f Allocated) [1, 6] [0x55, 0]) 6 = Allocated"
proof -
  have "bitmap_get [0x55, 0] 2 = Free"
    by (simp add: bitmap_get_def meta_state_def Let_def)
  then show ?thesis using bitmap_states [of "[1, 6]" "[0x55, 0]" Allocated] by simp
qed

text \<open>
  C38. the frame allocator, before and after the lists are live: a request
  with address bounds never panics; when it succeeds, the block is page and
  size aligned, inside the bounds, was free throughout, and exactly its frames
  become allocated, with one reference each where frames are counted; it
  reports out of memory only when no aligned free block lies inside the
  bounds, and then no frame changes state. The allocator's invariant is kept.
  All this is under that invariant, which for live lists has an assumption in
  it: no free frame but the listed heads carries a head tag (\<open>no_stale_tags\<close>),
  so that \<open>isolate\<close>, which takes the block out frame by frame, finds the right
  blocks. The code does not establish it; the stale-tag run of the buddy lists
  shows what goes wrong without it.
\<close>

theorem al_allocate_spec:
  assumes "sys_inv (al_active al) (sys al)" "order \<le> MAX_ORDER" "mx < 2 ^ 64"
  shows "\<exists>al' r. al_allocate al order mn mx = Some (al', r) \<and> sys_inv (al_active al') (sys al')
    \<and> (case r of
         Err e \<Rightarrow> e = FE_OutOfMemory \<and> fs_state (al_store al') = fs_state (al_store al)
           \<and> (\<forall>f. \<not> candidate (al_store al) order mn mx f)
       | Ok address \<Rightarrow> \<exists>f. address = f * PAGE_SIZE \<and> candidate (al_store al) order mn mx f
           \<and> fs_state (al_store al') = (\<lambda>g. if f \<le> g \<and> g < f + 2 ^ order then Allocated else fs_state (al_store al) g)
           \<and> al_refs al' = set_refcounts f (2 ^ order) 1 (al_refs al))"
  using find_frame_ok [OF assms, of mn]
proof (elim disjE exE conjE)
  fix al'
  assume oom: "find_frame al order mn mx = Some (al', Err FE_OutOfMemory)" "al_active al' = al_active al"
    "sys_inv (al_active al) (sys al')"
    "fs_state (al_store al') = fs_state (al_store al)" "\<forall>f. \<not> candidate (al_store al) order mn mx f"
  then show ?thesis using assms(2) by (simp add: al_allocate_def)
next
  fix al' f
  assume ok: "find_frame al order mn mx = Some (al', Ok f)" "found_frame al order mn mx al' f"
  then show ?thesis using assms(2) by (auto simp: al_allocate_def found_frame_def block_frames_def)
qed

text \<open>An allocator over \<open>n\<close> free frames that hold zeros, with its lists and its counters.\<close>

definition clean_allocator :: "nat \<Rightarrow> Allocator" where
  "clean_allocator n = \<lparr>al_lists = fst (build (lists_new, clean_store n)), al_store = snd (build (lists_new, clean_store n)),
     al_cursor = 0, al_active = True, al_holds = holds_new, al_refs = Some (replicate n 0)\<rparr>"

abbreviation boot_allocator :: Allocator where
  "boot_allocator \<equiv> clean_allocator 8"

lemma clean_allocator_inv:
  assumes "n \<le> MAX_FRAMES"
  shows "sys_inv True (sys (clean_allocator n))" "fs_state (al_store (clean_allocator n)) = (\<lambda>_. Free)"
    "fs_count (al_store (clean_allocator n)) = n"
proof -
  have nz: "fn_magic (fs_node (clean_store n) f) \<noteq> head_tag f" if "f \<in> free_set (clean_store n)" for f
    using that assms head_tag_nonzero [of f] by (auto simp: clean_store_def free_set_def MAX_FRAMES_def)
  obtain B where B: "buddy_inv B (build (lists_new, clean_store n))" "tags_ok B (snd (build (lists_new, clean_store n)))"
    "fs_state (snd (build (lists_new, clean_store n))) = (\<lambda>_. Free)" "fs_count (snd (build (lists_new, clean_store n))) = n"
    using build_ok [of "clean_store n" lists_new] nz assms by (auto simp: clean_store_def)
  then show "sys_inv True (sys (clean_allocator n))" "fs_state (al_store (clean_allocator n)) = (\<lambda>_. Free)"
    "fs_count (al_store (clean_allocator n)) = n"
    using assms by (auto simp: clean_allocator_def sys_inv_def no_stale_tags_def)
qed

lemma boot_allocator_inv:
  "sys_inv True (sys boot_allocator)" "fs_state (al_store boot_allocator) = (\<lambda>_. Free)" "fs_count (al_store boot_allocator) = 8"
  using clean_allocator_inv [of 8] by (simp_all add: MAX_FRAMES_def)

theorem al_allocate_spec_witness:
  "\<exists>al' f. al_allocate boot_allocator 1 0x2000 0x8000 = Some (al', Ok (f * PAGE_SIZE))
     \<and> 2 \<le> f \<and> f \<le> 6 \<and> fs_state (al_store al') f = Allocated"
proof -
  note inv = boot_allocator_inv
  have act: "al_active boot_allocator" by (simp add: clean_allocator_def)
  have c: "candidate (al_store boot_allocator) 1 0x2000 0x8000 2"
    by (auto simp: candidate_def PAGE_SIZE_def block_frames_def free_set_def inv)
  obtain al' r where r: "al_allocate boot_allocator 1 0x2000 0x8000 = Some (al', r)"
    and rs: "case r of Err e \<Rightarrow> e = FE_OutOfMemory \<and> fs_state (al_store al') = fs_state (al_store boot_allocator)
           \<and> (\<forall>f. \<not> candidate (al_store boot_allocator) 1 0x2000 0x8000 f)
       | Ok address \<Rightarrow> \<exists>f. address = f * PAGE_SIZE \<and> candidate (al_store boot_allocator) 1 0x2000 0x8000 f
           \<and> fs_state (al_store al') = (\<lambda>g. if f \<le> g \<and> g < f + 2 ^ 1 then Allocated else fs_state (al_store boot_allocator) g)
           \<and> al_refs al' = set_refcounts f (2 ^ 1) 1 (al_refs boot_allocator)"
    using al_allocate_spec [of boot_allocator 1 "0x8000" "0x2000"] inv(1) act by (auto simp: MAX_ORDER_def)
  show ?thesis
  proof (cases r)
    case (Ok address)
    then show ?thesis using r rs by (auto simp: candidate_def PAGE_SIZE_def)
  next
    case (Err e)
    then show ?thesis using rs c by auto
  qed
qed

text \<open>The counters agree with the bitmap: a frame is referenced exactly when it is allocated.\<close>

definition refs_inv :: "Allocator \<Rightarrow> bool" where
  "refs_inv al \<longleftrightarrow> al_active al \<and> (\<exists>B. buddy_inv B (sys al))
     \<and> (case al_refs al of None \<Rightarrow> False
        | Some rs \<Rightarrow> length rs = fs_count (al_store al)
            \<and> (\<forall>f < length rs. 0 < rs ! f \<longleftrightarrow> fs_state (al_store al) f = Allocated)
            \<and> (\<forall>f < length rs. rs ! f < 2 ^ 16))"

lemma frame_address: "f * PAGE_SIZE div PAGE_SIZE = f" "is_multiple_of (f * PAGE_SIZE) PAGE_SIZE"
  by (simp_all add: PAGE_SIZE_def is_multiple_of_def)

lemma refs_inv_slot:
  assumes "refs_inv al" "f < fs_count (al_store al)"
  obtains rs where "al_refs al = Some rs" "length rs = fs_count (al_store al)"
    "\<forall>f < length rs. 0 < rs ! f \<longleftrightarrow> fs_state (al_store al) f = Allocated" "\<forall>f < length rs. rs ! f < 2 ^ 16"
    "refcount_slot al (f * PAGE_SIZE) = Some (rs, f)"
  using assms frame_address by (auto simp: refs_inv_def refcount_slot_def split: option.splits)

lemma refs_inv_update:
  assumes "refs_inv al" "al_refs al = Some rs" "0 < n" "n < 2 ^ 16" "f < length rs" "0 < rs ! f"
  shows "refs_inv (al\<lparr>al_refs := Some (rs[f := n])\<rparr>)"
  using assms by (auto simp: refs_inv_def nth_list_update)

lemma drop_last:
  assumes inv: "refs_inv al" and rs: "al_refs al = Some rs" and f: "f < fs_count (al_store al)"
    and al: "fs_state (al_store al) f = Allocated"
  shows "\<exists>al'. drop_frame (al\<lparr>al_refs := Some (rs[f := 0])\<rparr>) (f * PAGE_SIZE) = Some al' \<and> refs_inv al'
    \<and> al_refs al' = Some (rs[f := 0]) \<and> fs_state (al_store al') = (fs_state (al_store al))(f := Free)"
proof -
  obtain B where B: "buddy_inv B (sys al)" and act: "al_active al" using inv by (auto simp: refs_inv_def)
  have ok: "block_ok (fs_count (snd (sys al))) (f, 0)" using f by (simp add: block_ok_def)
  have bf: "block_frames (f, 0) = {f}" by (auto simp: block_frames_def)
  define bs1 where "bs1 = coalesce_and_push f 0 (fst (sys al), set_states f (f + 2 ^ 0) Free (snd (sys al)))"
  have rel: "release f 0 (sys al) = (bs1, Ok ())" using release_cases [OF B, of f 0] ok bf al by (auto simp: bs1_def)
  have "\<forall>g \<in> block_frames (f, 0). fs_state (snd (sys al)) g \<noteq> Free" using al bf by simp
  from release_ok [OF B ok this, folded bs1_def, unfolded snd_conv] obtain B' where B': "buddy_inv B' bs1"
    "fs_state (snd bs1) = (\<lambda>g. if g \<in> block_frames (f, 0) then Free else fs_state (al_store al) g)"
    "fs_count (snd bs1) = fs_count (al_store al)" by blast
  define al' where "al' = with_sys (al\<lparr>al_refs := Some (rs[f := 0])\<rparr>) bs1"
  have st: "fs_state (al_store al') = (fs_state (al_store al))(f := Free)"
    using B'(2) bf by (auto simp: al'_def with_sys_def fun_eq_iff)
  have "drop_frame (al\<lparr>al_refs := Some (rs[f := 0])\<rparr>) (f * PAGE_SIZE) = Some al'"
    using act f rel frame_address [of f] by (simp add: drop_frame_def al_release_def frame_index_def al'_def)
  moreover have "refs_inv al'"
    using inv rs B'(1,3) st act f by (auto simp: refs_inv_def al'_def with_sys_def nth_list_update)
  moreover have "al_refs al' = Some (rs[f := 0])" by (simp add: al'_def with_sys_def)
  ultimately show ?thesis using st by blast
qed

text \<open>
  C32. dropping a reference to a frame panics exactly when nobody holds one,
  frees the frame exactly when it was the last one, and otherwise only lowers
  the count; afterwards a frame is still referenced exactly when it is
  allocated.
\<close>

theorem free_frame_spec:
  assumes "refs_inv al" "f < fs_count (al_store al)" "frame_refcount al (f * PAGE_SIZE) = Some n"
  shows "case free_frame al (f * PAGE_SIZE) of
      None \<Rightarrow> n = 0
    | Some al' \<Rightarrow> 0 < n \<and> refs_inv al' \<and> frame_refcount al' (f * PAGE_SIZE) = Some (n - 1)
        \<and> fs_state (al_store al') = (if n = 1 then (fs_state (al_store al))(f := Free) else fs_state (al_store al))"
proof -
  obtain rs where rs: "al_refs al = Some rs" "length rs = fs_count (al_store al)"
    "\<forall>f < length rs. 0 < rs ! f \<longleftrightarrow> fs_state (al_store al) f = Allocated" "\<forall>f < length rs. rs ! f < 2 ^ 16"
    "refcount_slot al (f * PAGE_SIZE) = Some (rs, f)" using refs_inv_slot [OF assms(1,2)] .
  have n: "n = rs ! f" using assms(3) rs(5) by (simp add: frame_refcount_def)
  have fl: "f < length rs" using rs(2) assms(2) by simp
  consider "n = 0" | (one) "n = 1" | (more) "1 < n" by linarith
  then show ?thesis
  proof cases
    case 1
    then show ?thesis using n rs(5) by (simp add: free_frame_def)
  next
    case one
    then have "0 < rs ! f" using n by simp
    then have "fs_state (al_store al) f = Allocated" using rs(3) fl by blast
    from drop_last [OF assms(1) rs(1) assms(2) this] obtain al' where
      "drop_frame (al\<lparr>al_refs := Some (rs[f := 0])\<rparr>) (f * PAGE_SIZE) = Some al'" "refs_inv al'"
      "al_refs al' = Some (rs[f := 0])" "fs_state (al_store al') = (fs_state (al_store al))(f := Free)" by blast
    then show ?thesis using one n rs(5) fl frame_address(1) [of f]
      by (simp add: free_frame_def frame_refcount_def refcount_slot_def)
  next
    case more
    have "refs_inv (al\<lparr>al_refs := Some (rs[f := rs ! f - 1])\<rparr>)"
      using more n rs(4) fl by (intro refs_inv_update [OF assms(1) rs(1)]) (auto intro: less_imp_diff_less)
    then show ?thesis using more n rs(5) fl frame_address(1) [of f]
      by (simp add: free_frame_def frame_refcount_def refcount_slot_def)
  qed
qed

text \<open>
  taking a reference succeeds exactly for a frame that somebody references
  already and whose count is not saturated, raises the count by one, never
  wraps it, and changes nothing when it is refused.
\<close>

theorem frame_get_spec:
  assumes "refs_inv al" "f < fs_count (al_store al)" "frame_refcount al (f * PAGE_SIZE) = Some n"
    "frame_get al (f * PAGE_SIZE) = (al', r)"
  shows "case r of
      Ok _ \<Rightarrow> 0 < n \<and> n < 2 ^ 16 - 1 \<and> refs_inv al' \<and> frame_refcount al' (f * PAGE_SIZE) = Some (n + 1)
        \<and> al_store al' = al_store al
    | Err e \<Rightarrow> (n = 0 \<or> n = 2 ^ 16 - 1) \<and> al' = al \<and> e = FE_NotShareable"
proof -
  obtain rs where rs: "al_refs al = Some rs" "length rs = fs_count (al_store al)"
    "\<forall>f < length rs. 0 < rs ! f \<longleftrightarrow> fs_state (al_store al) f = Allocated" "\<forall>f < length rs. rs ! f < 2 ^ 16"
    "refcount_slot al (f * PAGE_SIZE) = Some (rs, f)" using refs_inv_slot [OF assms(1,2)] .
  have n: "n = rs ! f" using assms(3) rs(5) by (simp add: frame_refcount_def)
  have fl: "f < length rs" using rs(2) assms(2) by simp
  have lt: "n < 2 ^ 16" using rs(4) fl n by blast
  show ?thesis
  proof (cases "n \<noteq> 0 \<and> n \<noteq> 2 ^ 16 - 1")
    case True
    have "refs_inv (al\<lparr>al_refs := Some (rs[f := rs ! f + 1])\<rparr>)"
      using True n lt fl by (intro refs_inv_update [OF assms(1) rs(1)]) auto
    then show ?thesis using assms(4) True n lt rs(5) fl frame_address(1) [of f]
      by (auto simp: frame_get_def frame_refcount_def refcount_slot_def)
  next
    case False
    then show ?thesis using assms(4) n rs(5) by (auto simp: frame_get_def)
  qed
qed

lemma clean_refs:
  assumes "n \<le> MAX_FRAMES"
  shows "refs_inv (clean_allocator n)"
  using clean_allocator_inv [OF assms] by (auto simp: refs_inv_def sys_inv_def no_stale_tags_def clean_allocator_def)

lemma boot_refs: "refs_inv boot_allocator" "frame_refcount boot_allocator (3 * PAGE_SIZE) = Some 0"
proof -
  show "refs_inv boot_allocator"
    by (rule clean_refs) (simp add: MAX_FRAMES_def)
  show "frame_refcount boot_allocator (3 * PAGE_SIZE) = Some 0"
    by (simp add: frame_refcount_def refcount_slot_def clean_allocator_def PAGE_SIZE_def)
qed

theorem free_frame_spec_witness: "free_frame boot_allocator (3 * PAGE_SIZE) = None"
  using free_frame_spec [OF boot_refs(1) _ boot_refs(2)] boot_allocator_inv(3)
  by (cases "free_frame boot_allocator (3 * PAGE_SIZE)") auto

theorem frame_get_spec_witness:
  "fst (frame_get boot_allocator (3 * PAGE_SIZE)) = boot_allocator
   \<and> snd (frame_get boot_allocator (3 * PAGE_SIZE)) = Err FE_NotShareable"
proof -
  obtain al' r where g: "frame_get boot_allocator (3 * PAGE_SIZE) = (al', r)" by fastforce
  show ?thesis
    using frame_get_spec [OF boot_refs(1) _ boot_refs(2) g] boot_allocator_inv(3) g by (cases r) auto
qed

section \<open>Holds\<close>

text \<open>Held frames are reserved, and no frame is held twice.\<close>

definition holds_inv :: "Allocator \<Rightarrow> bool" where
  "holds_inv al \<longleftrightarrow> (\<forall>hid. \<forall>f \<in> held (al_holds al) hid. f < fs_count (al_store al) \<and> fs_state (al_store al) f = Reserved)
     \<and> (\<forall>hid hid'. hid \<noteq> hid' \<longrightarrow> held (al_holds al) hid \<inter> held (al_holds al) hid' = {})"

definition lists_inv :: "Allocator \<Rightarrow> bool" where
  "lists_inv al \<longleftrightarrow> (al_active al \<longrightarrow> (\<exists>B. buddy_inv B (sys al)))"

lemma al_unreserve_ok:
  assumes "lists_inv al"
  shows "lists_inv (al_unreserve al lo hi)" "al_active (al_unreserve al lo hi) = al_active al"
    "al_holds (al_unreserve al lo hi) = al_holds al"
    "fs_count (al_store (al_unreserve al lo hi)) = fs_count (al_store al)"
    "fs_state (al_store (al_unreserve al lo hi)) = (\<lambda>f. if lo \<le> f \<and> f < hi \<and> f < fs_count (al_store al)
        \<and> fs_state (al_store al) f = Reserved then Free else fs_state (al_store al) f)"
proof -
  have "lists_inv (al_unreserve al lo hi) \<and> al_active (al_unreserve al lo hi) = al_active al
    \<and> al_holds (al_unreserve al lo hi) = al_holds al
    \<and> fs_count (al_store (al_unreserve al lo hi)) = fs_count (al_store al)
    \<and> fs_state (al_store (al_unreserve al lo hi)) = (\<lambda>f. if lo \<le> f \<and> f < hi \<and> f < fs_count (al_store al)
        \<and> fs_state (al_store al) f = Reserved then Free else fs_state (al_store al) f)"
  proof (cases "al_active al")
    case True
    then obtain B where B: "buddy_inv B (sys al)" using assms by (auto simp: lists_inv_def)
    define bs where "bs = insert_reserved_from lo (min hi (fs_count (al_store al))) (sys al)"
    from insert_reserved_from_ok [OF B, of "min hi (fs_count (al_store al))" lo, folded bs_def, unfolded snd_conv]
    obtain B' where B': "buddy_inv B' bs"
      "fs_state (snd bs) = (\<lambda>f. if lo \<le> f \<and> f < min hi (fs_count (al_store al)) \<and> fs_state (al_store al) f = Reserved
         then Free else fs_state (al_store al) f)"
      "fs_count (snd bs) = fs_count (al_store al)" by auto
    have eq: "al_unreserve al lo hi = with_sys al bs"
      using True by (simp add: al_unreserve_def insert_reserved_range_def bs_def)
    have "buddy_inv B' (sys (with_sys al bs))" using B'(1) by (simp add: with_sys_def)
    then show ?thesis using B'(2,3) True unfolding eq
      by (auto simp: lists_inv_def with_sys_def fun_eq_iff)
  next
    case False
    have fold: "fs_count (fold (\<lambda>f s. if fs_state s f = Reserved then set_state f Free s else s) fs s) = fs_count s
      \<and> fs_state (fold (\<lambda>f s. if fs_state s f = Reserved then set_state f Free s else s) fs s)
        = (\<lambda>f. if f \<in> set fs \<and> fs_state s f = Reserved then Free else fs_state s f)" for fs s
      by (induction fs arbitrary: s) (auto simp: set_state_def fun_eq_iff)
    show ?thesis using False fold [of "[lo..<min hi (fs_count (al_store al))]" "al_store al"]
      by (auto simp: al_unreserve_def lists_inv_def fun_eq_iff)
  qed
  then show "lists_inv (al_unreserve al lo hi)" "al_active (al_unreserve al lo hi) = al_active al"
    "al_holds (al_unreserve al lo hi) = al_holds al"
    "fs_count (al_store (al_unreserve al lo hi)) = fs_count (al_store al)"
    "fs_state (al_store (al_unreserve al lo hi)) = (\<lambda>f. if lo \<le> f \<and> f < hi \<and> f < fs_count (al_store al)
        \<and> fs_state (al_store al) f = Reserved then Free else fs_state (al_store al) f)" by auto
qed

lemma unreserve_ranges_ok:
  assumes "lists_inv al"
  shows "let al' = fold (\<lambda>(lo, hi) al. al_unreserve al lo hi) ranges al in
      lists_inv al' \<and> al_active al' = al_active al \<and> fs_count (al_store al') = fs_count (al_store al)
      \<and> fs_state (al_store al') = (\<lambda>f. if f \<in> (\<Union>(lo, hi) \<in> set ranges. {lo..<hi}) \<and> f < fs_count (al_store al)
          \<and> fs_state (al_store al) f = Reserved then Free else fs_state (al_store al) f)"
  using assms
proof (induction ranges arbitrary: al)
  case (Cons p ranges)
  obtain lo hi where p: "p = (lo, hi)" by fastforce
  note u = al_unreserve_ok [OF Cons(2), of lo hi]
  from Cons.IH [OF u(1)] show ?case unfolding Let_def using u by (auto simp: p fun_eq_iff)
qed simp

text \<open>
  releasing a hold frees exactly the frames the hold still owns, and no
  other frame changes state; the hold owns nothing afterwards, every other
  hold keeps its frames, and held frames stay reserved.
\<close>

theorem release_hold_spec:
  assumes "holds_inv al" "lists_inv al"
  shows "fs_state (al_store (release_hold al hid))
      = (\<lambda>f. if f \<in> held (al_holds al) hid then Free else fs_state (al_store al) f)
    \<and> held (al_holds (release_hold al hid)) hid = {}
    \<and> (\<forall>hid'. hid' \<noteq> hid \<longrightarrow> held (al_holds (release_hold al hid)) hid' = held (al_holds al) hid')
    \<and> holds_inv (release_hold al hid) \<and> lists_inv (release_hold al hid)"
proof -
  obtain holds ranges where r: "holds_release (al_holds al) hid = (holds, ranges)" by fastforce
  have h: "(\<Union>(f, l) \<in> set ranges. {f..<l}) = held (al_holds al) hid" "held holds hid = {}"
    "\<And>hid'. hid' \<noteq> hid \<Longrightarrow> held holds hid' = held (al_holds al) hid'"
    using release_ranges [where t = "al_holds al" and hid = hid] r by auto
  define al1 where "al1 = fold (\<lambda>(lo, hi) al. al_unreserve al lo hi) ranges al"
  have eq: "release_hold al hid = al1\<lparr>al_holds := holds\<rparr>" by (simp add: release_hold_def r al1_def)
  have u: "lists_inv al1" "fs_count (al_store al1) = fs_count (al_store al)"
    "fs_state (al_store al1) = (\<lambda>f. if f \<in> held (al_holds al) hid \<and> f < fs_count (al_store al)
          \<and> fs_state (al_store al) f = Reserved then Free else fs_state (al_store al) f)"
    using unreserve_ranges_ok [OF assms(2), of ranges, folded al1_def] h(1) by (simp_all add: Let_def)
  have hr: "f < fs_count (al_store al) \<and> fs_state (al_store al) f = Reserved" if "f \<in> held (al_holds al) i" for f i
    using assms(1) that by (auto simp: holds_inv_def)
  have st: "fs_state (al_store al1) = (\<lambda>f. if f \<in> held (al_holds al) hid then Free else fs_state (al_store al) f)"
    unfolding u(3) using hr [of _ hid] by (auto simp: fun_eq_iff)
  have dj: "i \<noteq> j \<Longrightarrow> held (al_holds al) i \<inter> held (al_holds al) j = {}" for i j
    using assms(1) by (simp add: holds_inv_def)
  have hold': "held holds i = (if i = hid then {} else held (al_holds al) i)" for i using h(2,3) by auto
  have "f < fs_count (al_store al1) \<and> fs_state (al_store al1) f = Reserved" if "f \<in> held holds i" for f i
    using that hr [of f i] dj [of i hid] hold' [of i] st u(2) by (auto split: if_splits)
  moreover have "held holds i \<inter> held holds j = {}" if "i \<noteq> j" for i j
    using dj [OF that] hold' by auto
  ultimately have "holds_inv (release_hold al hid)" by (simp add: holds_inv_def eq)
  moreover have "lists_inv (release_hold al hid)" using u(1) by (simp add: lists_inv_def eq)
  ultimately show ?thesis using st h(2,3) by (simp add: eq)
qed

theorem release_hold_spec_witness:
  "fs_state (al_store (release_hold boot_allocator 1)) = (\<lambda>_. Free)"
proof -
  have e: "held (al_holds boot_allocator) i = {}" for i
    by (simp add: clean_allocator_def held_def holds_new_def)
  have "holds_inv boot_allocator" "lists_inv boot_allocator"
    using e boot_allocator_inv(1) by (auto simp: holds_inv_def lists_inv_def sys_inv_def no_stale_tags_def)
  from release_hold_spec [OF this, of 1] show ?thesis using e boot_allocator_inv(2) by simp
qed

end
