(* ===== verification/PageTable.thy ===== *)
theory PageTable
  imports Frame "HOL-Library.Monad_Syntax"
begin

text \<open>
  Page tables (\<open>kernel/src/mm/paging.rs\<close>): the bits of an entry, table frames,
  and the walks that map, unmap and free below a root. Physical memory is a map
  from frame addresses to 512 words of 64 bits; \<open>table_ptr\<close>, the kernel's pointer to a
  frame (through the identity map before paging is active, through the direct
  map afterwards), reaches that memory in both cases and is the frame address
  here. The frame allocator is a record of operations (\<open>frame.rs\<close>), so that a
  locale can state what the page tables rely on. Translation lookaside buffers
  are not modelled. An outer \<^term>\<open>None\<close> is a panic.
\<close>

section \<open>Entries\<close>

type_synonym w64 = "64 word"

definition PRESENT :: w64 where "PRESENT = push_bit 0 1"
definition WRITABLE :: w64 where "WRITABLE = push_bit 1 1"
definition USER :: w64 where "USER = push_bit 2 1"
definition PWT :: w64 where "PWT = push_bit 3 1"
definition PCD :: w64 where "PCD = push_bit 4 1"
definition HUGE :: w64 where "HUGE = push_bit 7 1"
definition PAT_4K :: w64 where "PAT_4K = push_bit 7 1"
definition COPY_ON_WRITE :: w64 where "COPY_ON_WRITE = push_bit 9 1"
definition PAT :: w64 where "PAT = push_bit 12 1"
definition NO_EXECUTE :: w64 where "NO_EXECUTE = push_bit 63 1"
definition PHYS_MASK_4K :: w64 where "PHYS_MASK_4K = 0x000ffffffffff000"
definition PHYS_MASK_2M :: w64 where "PHYS_MASK_2M = 0x000fffffffe00000"
definition PHYS_MASK_1G :: w64 where "PHYS_MASK_1G = 0x000fffffc0000000"
definition ADDRESS_MASK :: w64 where "ADDRESS_MASK = PHYS_MASK_4K"
definition LEAF_ATTRIBUTES :: w64 where
  "LEAF_ATTRIBUTES = PRESENT OR WRITABLE OR USER OR PWT OR PCD OR NO_EXECUTE"
definition USER_TABLE :: w64 where "USER_TABLE = PRESENT OR WRITABLE OR USER"

text \<open>A test of a flag, \<open>entry & FLAG != 0\<close>, and the frame an entry names, \<open>entry & ADDRESS_MASK\<close>.\<close>

definition has :: "w64 \<Rightarrow> w64 \<Rightarrow> bool" where
  "has entry flag \<longleftrightarrow> entry AND flag \<noteq> 0"

definition entry_frame :: "w64 \<Rightarrow> w64" where
  "entry_frame entry = entry AND ADDRESS_MASK"

definition extract_1g_address :: "w64 \<Rightarrow> w64" where
  "extract_1g_address entry = entry AND PHYS_MASK_1G"

definition extract_2m_address :: "w64 \<Rightarrow> w64" where
  "extract_2m_address entry = entry AND PHYS_MASK_2M"

definition extract_4k_address :: "w64 \<Rightarrow> w64" where
  "extract_4k_address entry = entry AND PHYS_MASK_4K"

definition pat_1g_to_2m :: "w64 \<Rightarrow> w64" where
  "pat_1g_to_2m entry = entry AND PAT"

definition pat_2m_to_4k :: "w64 \<Rightarrow> w64" where
  "pat_2m_to_4k entry = (if has entry PAT then PAT_4K else 0)"

definition inherited_leaf_flags :: "w64 \<Rightarrow> bool \<Rightarrow> w64" where
  "inherited_leaf_flags entry to_4k =
     (entry AND LEAF_ATTRIBUTES) OR (if to_4k then pat_2m_to_4k entry else pat_1g_to_2m entry)"

definition valid_wx :: "w64 \<Rightarrow> bool" where
  "valid_wx flags \<longleftrightarrow> \<not> (has flags WRITABLE \<and> \<not> has flags NO_EXECUTE)"

subsection \<open>Permissions\<close>

text \<open>\<open>PageFlags\<close>, a wrapper of the bits.\<close>

definition PF_KERNEL_TEXT :: w64 where "PF_KERNEL_TEXT = PRESENT"
definition PF_READ_ONLY :: w64 where "PF_READ_ONLY = PRESENT OR NO_EXECUTE"
definition PF_WRITABLE :: w64 where "PF_WRITABLE = PRESENT OR WRITABLE OR NO_EXECUTE"
definition PF_MMIO :: w64 where "PF_MMIO = PRESENT OR WRITABLE OR NO_EXECUTE OR PCD OR PWT"
definition PF_FRAMEBUFFER :: w64 where "PF_FRAMEBUFFER = PRESENT OR WRITABLE OR NO_EXECUTE OR PWT"
definition PF_USER_READ :: w64 where "PF_USER_READ = PRESENT OR USER OR NO_EXECUTE"
definition PF_USER_READ_WRITE :: w64 where "PF_USER_READ_WRITE = PRESENT OR USER OR WRITABLE OR NO_EXECUTE"
definition PF_USER_READ_EXECUTE :: w64 where "PF_USER_READ_EXECUTE = PRESENT OR USER"

definition with_cache :: "w64 \<Rightarrow> bool \<Rightarrow> bool \<Rightarrow> w64" where
  "with_cache flags write_through cache_disable =
     flags OR (if write_through then PWT else 0) OR (if cache_disable then PCD else 0)"

definition is_writable :: "w64 \<Rightarrow> bool" where "is_writable flags = has flags WRITABLE"
definition is_user :: "w64 \<Rightarrow> bool" where "is_user flags = has flags USER"
definition is_executable :: "w64 \<Rightarrow> bool" where "is_executable flags \<longleftrightarrow> \<not> has flags NO_EXECUTE"

text \<open>\<open>UserPageFlags\<close>.\<close>

definition UPF_READ :: byte where "UPF_READ = push_bit 0 1"
definition UPF_WRITE :: byte where "UPF_WRITE = push_bit 1 1"
definition UPF_EXECUTE :: byte where "UPF_EXECUTE = push_bit 2 1"
definition UPF_NO_EXECUTE :: byte where "UPF_NO_EXECUTE = push_bit 3 1"

definition upf_contains :: "byte \<Rightarrow> byte \<Rightarrow> bool" where
  "upf_contains flags other \<longleftrightarrow> flags AND other \<noteq> 0"

definition upf_is_valid :: "byte \<Rightarrow> bool" where
  "upf_is_valid flags \<longleftrightarrow> upf_contains flags UPF_READ
     \<and> \<not> (upf_contains flags UPF_EXECUTE \<and> upf_contains flags UPF_NO_EXECUTE)"

definition upf_hardware :: "byte \<Rightarrow> w64" where
  "upf_hardware flags =
     PRESENT OR USER OR (if upf_contains flags UPF_WRITE then WRITABLE else 0)
     OR (if upf_contains flags UPF_NO_EXECUTE \<or> \<not> upf_contains flags UPF_EXECUTE then NO_EXECUTE else 0)"

subsection \<open>Cache types\<close>

datatype CacheType = WriteBack | WriteCombining | UncachedMinus | Uncached

definition cache_type :: "w64 \<Rightarrow> CacheType" where
  "cache_type entry =
     (case (has entry PCD, has entry PWT) of
        (False, False) \<Rightarrow> WriteBack
      | (False, True) \<Rightarrow> WriteCombining
      | (True, False) \<Rightarrow> UncachedMinus
      | (True, True) \<Rightarrow> Uncached)"

definition PAT_LAYOUT :: w64 where
  "PAT_LAYOUT = (let low = 0x06 OR push_bit 8 0x01 OR push_bit 16 0x07 OR push_bit 24 0x00 in low OR push_bit 32 low)"

subsection \<open>Addresses\<close>

definition table_indices :: "w64 \<Rightarrow> nat \<times> nat \<times> nat \<times> nat" where
  "table_indices va =
     (unat (drop_bit 39 va AND 0x1ff), unat (drop_bit 30 va AND 0x1ff),
      unat (drop_bit 21 va AND 0x1ff), unat (drop_bit 12 va AND 0x1ff))"

definition KERNEL_BASE :: w64 where "KERNEL_BASE = 0xffff800000000000"

definition is_canonical :: "w64 \<Rightarrow> bool" where
  "is_canonical va \<longleftrightarrow> va < 2 ^ 47 \<or> va \<ge> KERNEL_BASE"

definition page_aligned :: "w64 \<Rightarrow> bool" where
  "page_aligned a \<longleftrightarrow> a AND (of_nat PAGE_SIZE - 1) = 0"

definition phys_to_virt :: "w64 \<Rightarrow> w64" where
  "phys_to_virt p = KERNEL_BASE + p"

definition virt_to_phys :: "w64 \<Rightarrow> w64 option" where
  "virt_to_phys v =
     (if v \<ge> KERNEL_BASE \<and> v - KERNEL_BASE < 2 ^ 47 then Some (v - KERNEL_BASE)
      else if v < 2 ^ 47 then Some v
      else None)"

datatype AddressSpaceError =
  AS_OutOfFrames | AS_Unaligned | AS_Noncanonical | AS_KernelAddress | AS_InvalidFlags
| AS_AlreadyMapped | AS_NotMapped | AS_HugePage | AS_InvalidPhysicalAddress

text \<open>The checks of \<open>page_entry_inner\<close> on an address; \<open>validate_user_mapping\<close> has the same ones.\<close>

definition validate_range :: "w64 \<Rightarrow> (unit, AddressSpaceError) result" where
  "validate_range va =
     (if va \<ge> 2 ^ 47 then (if va \<ge> KERNEL_BASE then Err AS_KernelAddress else Err AS_Noncanonical)
      else Ok ())"

definition validate_user_mapping :: "w64 \<Rightarrow> w64 \<Rightarrow> w64 \<Rightarrow> (unit, AddressSpaceError) result" where
  "validate_user_mapping va physical flags =
     (if \<not> page_aligned va \<or> \<not> page_aligned physical then Err AS_Unaligned
      else bind_result (validate_range va) (\<lambda>_.
        if \<not> is_user flags then Err AS_InvalidFlags
        else if is_writable flags \<and> is_executable flags then Err AS_InvalidFlags
        else Ok ()))"

section \<open>State\<close>

text \<open>The operations of the frame allocator the page tables call.\<close>

record 'a frame_ops =
  fo_alloc :: "'a \<Rightarrow> ('a \<times> w64 option) option"
  fo_alloc_below :: "w64 \<Rightarrow> 'a \<Rightarrow> ('a \<times> w64 option) option"
  fo_free :: "w64 \<Rightarrow> 'a \<Rightarrow> 'a option"
  fo_get :: "w64 \<Rightarrow> 'a \<Rightarrow> 'a \<times> bool"
  fo_refcount :: "w64 \<Rightarrow> 'a \<Rightarrow> nat option"

text \<open>
  The statics: physical memory, the allocator, \<open>ACTIVE\<close>, \<open>KERNEL_SLOTS_FROZEN\<close>,
  \<open>LOWER_HALF_DROPPED\<close>, and the frames the static \<open>PML4\<close> and the static heap lie at.
\<close>

record 'a pt_state =
  pt_mem :: "w64 \<Rightarrow> nat \<Rightarrow> w64"
  pt_fr :: 'a
  pt_active :: bool
  pt_frozen :: bool
  pt_dropped :: bool
  pt_pml4 :: w64
  pt_heap :: w64

definition HEAP_SIZE :: nat where "HEAP_SIZE = 10 * 1024 * 1024"

definition set_entry :: "w64 \<Rightarrow> nat \<Rightarrow> w64 \<Rightarrow> 'a pt_state \<Rightarrow> 'a pt_state" where
  "set_entry t i e s = s\<lparr>pt_mem := (pt_mem s)(t := (pt_mem s t)(i := e))\<rparr>"

definition pt_free_frame :: "'a frame_ops \<Rightarrow> w64 \<Rightarrow> 'a pt_state \<Rightarrow> 'a pt_state option" where
  "pt_free_frame F f s = map_option (\<lambda>a. s\<lparr>pt_fr := a\<rparr>) (fo_free F f (pt_fr s))"

definition overlaps_heap :: "'a pt_state \<Rightarrow> w64 \<Rightarrow> bool" where
  "overlaps_heap s frame =
     (let heap_start = unat (pt_heap s); heap_end = saturating_add heap_start HEAP_SIZE;
          frame_start = unat frame; frame_end = frame_start + PAGE_SIZE in
      frame_start < heap_end \<and> frame_end > heap_start)"

definition alloc_table :: "'a frame_ops \<Rightarrow> 'a pt_state \<Rightarrow> ('a pt_state \<times> w64 option) option" where
  "alloc_table F s =
     do { (a, r) \<leftarrow> (if pt_active s then fo_alloc F (pt_fr s)
                     else fo_alloc_below F (16 * of_nat GIGABYTE) (pt_fr s));
          case r of
            None \<Rightarrow> Some (s\<lparr>pt_fr := a\<rparr>, None)
          | Some frame \<Rightarrow>
              if overlaps_heap s frame then None
              else Some (s\<lparr>pt_fr := a, pt_mem := (pt_mem s)(frame := (\<lambda>_. 0))\<rparr>, Some frame) }"

section \<open>Walks below a root\<close>

definition table_from_entry :: "w64 \<Rightarrow> (w64, AddressSpaceError) result" where
  "table_from_entry entry =
     (if \<not> has entry PRESENT then Err AS_NotMapped
      else if has entry HUGE then Err AS_HugePage
      else Ok (entry_frame entry))"

definition table_empty :: "(nat \<Rightarrow> w64) \<Rightarrow> bool" where
  "table_empty table = list_all (\<lambda>i. \<not> has (table i) PRESENT) [0..<512]"

text \<open>
  One level of \<open>map_page_in_root\<close>: the entry gets a table when it has none;
  \<open>Some created\<close> or \<open>None\<close> when there is no frame for it.
\<close>

definition ensure_table :: "'a frame_ops \<Rightarrow> w64 \<Rightarrow> nat \<Rightarrow> 'a pt_state \<Rightarrow> ('a pt_state \<times> bool option) option" where
  "ensure_table F t i s =
     (if has (pt_mem s t i) PRESENT then Some (s, Some False)
      else do { (s, r) \<leftarrow> alloc_table F s;
                case r of
                  None \<Rightarrow> Some (s, None)
                | Some frame \<Rightarrow> Some (set_entry t i (frame OR USER_TABLE) s, Some True) })"

definition rollback_tables ::
    "'a frame_ops \<Rightarrow> w64 \<Rightarrow> w64 \<Rightarrow> bool \<Rightarrow> bool \<Rightarrow> bool \<Rightarrow> 'a pt_state \<Rightarrow> 'a pt_state option" where
  "rollback_tables F root va pml4_created pdpt_created pd_created s =
     (case table_indices va of (i4, i3, i2, i1) \<Rightarrow>
      do { s \<leftarrow> (if pd_created then
                    let pdpt = entry_frame (pt_mem s root i4); pd = entry_frame (pt_mem s pdpt i3);
                        frame = entry_frame (pt_mem s pd i2) in
                    pt_free_frame F frame (set_entry pd i2 0 s)
                  else Some s);
           s \<leftarrow> (if pdpt_created then
                    let pdpt = entry_frame (pt_mem s root i4); frame = entry_frame (pt_mem s pdpt i3) in
                    pt_free_frame F frame (set_entry pdpt i3 0 s)
                  else Some s);
           s \<leftarrow> (if pml4_created then pt_free_frame F (entry_frame (pt_mem s root i4)) s else Some s);
           Some (if pml4_created then set_entry root i4 0 s else s) })"

definition map_page_in_root ::
    "'a frame_ops \<Rightarrow> w64 \<Rightarrow> w64 \<Rightarrow> w64 \<Rightarrow> w64 \<Rightarrow> 'a pt_state \<Rightarrow> ('a pt_state \<times> (unit, AddressSpaceError) result) option" where
  "map_page_in_root F root va physical flags s =
     (case table_indices va of (i4, i3, i2, i1) \<Rightarrow>
      do { (s, r) \<leftarrow> ensure_table F root i4 s;
           case r of None \<Rightarrow> Some (s, Err AS_OutOfFrames)
           | Some pml4_created \<Rightarrow>
             (let pdpt = entry_frame (pt_mem s root i4) in
              if has (pt_mem s pdpt i3) HUGE then
                do { s \<leftarrow> rollback_tables F root va pml4_created False False s; Some (s, Err AS_HugePage) }
              else
              do { (s, r) \<leftarrow> ensure_table F pdpt i3 s;
                   case r of None \<Rightarrow>
                     do { s \<leftarrow> rollback_tables F root va pml4_created False False s; Some (s, Err AS_OutOfFrames) }
                   | Some pdpt_created \<Rightarrow>
                     (let pd = entry_frame (pt_mem s pdpt i3) in
                      if has (pt_mem s pd i2) HUGE then
                        do { s \<leftarrow> rollback_tables F root va pml4_created pdpt_created False s; Some (s, Err AS_HugePage) }
                      else
                      do { (s, r) \<leftarrow> ensure_table F pd i2 s;
                           case r of None \<Rightarrow>
                             do { s \<leftarrow> rollback_tables F root va pml4_created pdpt_created False s;
                                  Some (s, Err AS_OutOfFrames) }
                           | Some pd_created \<Rightarrow>
                             (let pt = entry_frame (pt_mem s pd i2) in
                              if has (pt_mem s pt i1) PRESENT then
                                do { s \<leftarrow> rollback_tables F root va pml4_created pdpt_created pd_created s;
                                     Some (s, Err AS_AlreadyMapped) }
                              else Some (set_entry pt i1 (physical OR flags) s, Ok ())) }) }) })"

text \<open>The tables of a page: \<open>table_from_entry\<close> on three levels.\<close>

definition walk_tables :: "w64 \<Rightarrow> w64 \<Rightarrow> 'a pt_state \<Rightarrow> (w64 \<times> w64 \<times> w64, AddressSpaceError) result" where
  "walk_tables root va s =
     (case table_indices va of (i4, i3, i2, i1) \<Rightarrow>
      bind_result (table_from_entry (pt_mem s root i4)) (\<lambda>pdpt.
      bind_result (table_from_entry (pt_mem s pdpt i3)) (\<lambda>pd.
      bind_result (table_from_entry (pt_mem s pd i2)) (\<lambda>pt. Ok (pdpt, pd, pt)))))"

definition unmap_page_in_root ::
    "'a frame_ops \<Rightarrow> w64 \<Rightarrow> w64 \<Rightarrow> 'a pt_state \<Rightarrow> ('a pt_state \<times> (w64, AddressSpaceError) result) option" where
  "unmap_page_in_root F root va s =
     (case validate_user_mapping va 0 PF_USER_READ of Err e \<Rightarrow> Some (s, Err e)
      | Ok _ \<Rightarrow>
      (case table_indices va of (i4, i3, i2, i1) \<Rightarrow>
       (case walk_tables root va s of Err e \<Rightarrow> Some (s, Err e)
        | Ok (pdpt, pd, pt) \<Rightarrow>
          if \<not> has (pt_mem s pt i1) PRESENT then Some (s, Err AS_NotMapped)
          else
            let physical = entry_frame (pt_mem s pt i1); s = set_entry pt i1 0 s in
            do { s \<leftarrow> (if table_empty (pt_mem s pt) then
                          do { s \<leftarrow> pt_free_frame F pt s;
                               let s = set_entry pd i2 0 s in
                               if table_empty (pt_mem s pd) then
                                 do { s \<leftarrow> pt_free_frame F pd s;
                                      let s = set_entry pdpt i3 0 s in
                                      if table_empty (pt_mem s pdpt) then
                                        do { s \<leftarrow> pt_free_frame F pdpt s; Some (set_entry root i4 0 s) }
                                      else Some s }
                               else Some s }
                        else Some s);
                 Some (s, Ok physical) })))"

text \<open>A loop that may panic.\<close>

primrec fold_opt :: "('b \<Rightarrow> 's \<Rightarrow> 's option) \<Rightarrow> 'b list \<Rightarrow> 's \<Rightarrow> 's option" where
  "fold_opt g [] s = Some s"
| "fold_opt g (x # xs) s = do { s \<leftarrow> g x s; fold_opt g xs s }"

primrec free_table_tree :: "nat \<Rightarrow> 'a frame_ops \<Rightarrow> w64 \<Rightarrow> 'a pt_state \<Rightarrow> 'a pt_state option" where
  "free_table_tree 0 F frame s = pt_free_frame F frame s"
| "free_table_tree (Suc below) F frame s =
     do { s \<leftarrow> fold_opt (\<lambda>i s.
            do { s \<leftarrow> (if below > 0 \<and> has (pt_mem s frame i) PRESENT \<and> \<not> has (pt_mem s frame i) HUGE
                       then free_table_tree below F (entry_frame (pt_mem s frame i)) s else Some s);
                 Some (set_entry frame i 0 s) }) [0..<512] s;
          pt_free_frame F frame s }"

end
