(* ===== verification/PageTree.thy ===== *)
theory PageTree
  imports PageTable
begin

text \<open>
  The tree of tables below a root. A table is named by the path of indices
  that leads to it, the deepest first; the tables of the lower half are those
  of paths that start below 256. A write to one entry adds one table to the
  tree, takes one out or leaves it alone: three lemmas that carry every walk.
\<close>

section \<open>Bits of entries\<close>

lemma has_push_bit: "has e (push_bit n 1) \<longleftrightarrow> bit e n"
  by (simp add: has_def bit_iff_and_push_bit_not_eq_0)

lemma has_bits [simp]:
  "has e PRESENT \<longleftrightarrow> bit e 0" "has e WRITABLE \<longleftrightarrow> bit e 1" "has e USER \<longleftrightarrow> bit e 2" "has e PWT \<longleftrightarrow> bit e 3"
  "has e PCD \<longleftrightarrow> bit e 4" "has e HUGE \<longleftrightarrow> bit e 7" "has e PAT_4K \<longleftrightarrow> bit e 7" "has e COPY_ON_WRITE \<longleftrightarrow> bit e 9"
  "has e PAT \<longleftrightarrow> bit e 12" "has e NO_EXECUTE \<longleftrightarrow> bit e 63"
  unfolding PRESENT_def WRITABLE_def USER_def PWT_def PCD_def HUGE_def PAT_4K_def COPY_ON_WRITE_def PAT_def NO_EXECUTE_def
  by (rule has_push_bit)+

lemma mask_bits: "PHYS_MASK_4K = push_bit 12 (mask 40)" "PHYS_MASK_2M = push_bit 21 (mask 31)" "PHYS_MASK_1G = push_bit 30 (mask 22)"
  by (simp_all add: PHYS_MASK_4K_def PHYS_MASK_2M_def PHYS_MASK_1G_def push_bit_eq_mult mask_eq_exp_minus_1)

lemma bit_ADDRESS_MASK: "bit ADDRESS_MASK n \<longleftrightarrow> 12 \<le> n \<and> n < 52"
  by (auto simp: ADDRESS_MASK_def mask_bits bit_simps)

lemma bit_flag: "k < 64 \<Longrightarrow> bit (push_bit k (1 :: w64)) n \<longleftrightarrow> n = k"
  by (simp add: push_bit_eq_mult bit_exp_iff) auto

lemma bit_flags:
  "bit PRESENT n \<longleftrightarrow> n = 0" "bit WRITABLE n \<longleftrightarrow> n = 1" "bit USER n \<longleftrightarrow> n = 2" "bit PWT n \<longleftrightarrow> n = 3" "bit PCD n \<longleftrightarrow> n = 4"
  "bit HUGE n \<longleftrightarrow> n = 7" "bit PAT_4K n \<longleftrightarrow> n = 7" "bit COPY_ON_WRITE n \<longleftrightarrow> n = 9" "bit PAT n \<longleftrightarrow> n = 12" "bit NO_EXECUTE n \<longleftrightarrow> n = 63"
  unfolding PRESENT_def WRITABLE_def USER_def PWT_def PCD_def HUGE_def PAT_4K_def COPY_ON_WRITE_def PAT_def NO_EXECUTE_def
  by (subst bit_flag; simp)+

lemma bit_USER_TABLE: "bit USER_TABLE n \<longleftrightarrow> n < 3"
  unfolding USER_TABLE_def by (simp add: bit_or_iff bit_flags) linarith

lemma bit_entry_frame: "bit (entry_frame e) n \<longleftrightarrow> bit e n \<and> 12 \<le> n \<and> n < 52"
  by (simp add: entry_frame_def bit_and_iff bit_ADDRESS_MASK)

definition frame_ok :: "w64 \<Rightarrow> bool" where
  "frame_ok f \<longleftrightarrow> entry_frame f = f"

lemma frame_ok_bits: "frame_ok f \<Longrightarrow> bit f n \<Longrightarrow> 12 \<le> n \<and> n < 52"
  by (metis bit_entry_frame frame_ok_def)

lemma frame_ok_entry [simp]: "frame_ok (entry_frame e)"
  by (simp add: frame_ok_def entry_frame_def and.assoc)

lemma entry_frame_zero [simp]: "entry_frame 0 = 0"
  by (simp add: entry_frame_def)

text \<open>An entry made of a frame and of flags outside the address.\<close>

definition flags_ok :: "w64 \<Rightarrow> bool" where
  "flags_ok flags \<longleftrightarrow> flags AND ADDRESS_MASK = 0"

lemma flags_ok_bits: "flags_ok flags \<Longrightarrow> bit flags n \<Longrightarrow> \<not> (12 \<le> n \<and> n < 52)"
  by (metis bit_ADDRESS_MASK bit_and_iff bit_0_eq bot_apply bot_bool_def flags_ok_def)

lemma entry_frame_or: "frame_ok f \<Longrightarrow> flags_ok flags \<Longrightarrow> entry_frame (f OR flags) = f"
  by (rule bit_eqI) (auto simp: bit_entry_frame bit_or_iff dest: frame_ok_bits flags_ok_bits)

lemma flags_ok_USER_TABLE [simp]: "flags_ok USER_TABLE"
  unfolding flags_ok_def by (rule bit_eqI) (auto simp: bit_and_iff bit_USER_TABLE bit_ADDRESS_MASK)

definition is_table :: "w64 \<Rightarrow> bool" where
  "is_table e \<longleftrightarrow> bit e 0 \<and> \<not> bit e 7"

lemma not_table_zero [simp]: "\<not> is_table 0"
  by (simp add: is_table_def)

lemma user_entry:
  assumes "frame_ok f"
  shows "is_table (f OR USER_TABLE)" "entry_frame (f OR USER_TABLE) = f" "bit (f OR USER_TABLE) 0" "\<not> bit (f OR USER_TABLE) 7"
proof -
  show b: "bit (f OR USER_TABLE) 0" "\<not> bit (f OR USER_TABLE) 7"
    using frame_ok_bits [OF assms, of 7] by (auto simp: bit_or_iff bit_USER_TABLE)
  then show "is_table (f OR USER_TABLE)" by (simp add: is_table_def)
  show "entry_frame (f OR USER_TABLE) = f" by (rule entry_frame_or [OF assms flags_ok_USER_TABLE])
qed

section \<open>The tree\<close>

type_synonym pmem = "w64 \<Rightarrow> nat \<Rightarrow> w64"

fun tbl :: "pmem \<Rightarrow> w64 \<Rightarrow> nat list \<Rightarrow> w64 option" where
  "tbl M r [] = Some r"
| "tbl M r (i # p) =
     (case tbl M r p of None \<Rightarrow> None
      | Some t \<Rightarrow> if is_table (M t i) then Some (entry_frame (M t i)) else None)"

definition vpath :: "nat \<Rightarrow> nat list \<Rightarrow> bool" where
  "vpath lim p \<longleftrightarrow> length p \<le> 3 \<and> (\<forall>i \<in> set p. i < 512) \<and> (p \<noteq> [] \<longrightarrow> last p < lim)"

definition tm :: "nat \<Rightarrow> pmem \<Rightarrow> w64 \<Rightarrow> nat list \<Rightarrow> w64 option" where
  "tm lim M r p = (if vpath lim p then tbl M r p else None)"

lemma vpath_Nil [simp]: "vpath lim []"
  by (simp add: vpath_def)

lemma vpath_tl: "vpath lim (i # p) \<Longrightarrow> vpath lim p"
  by (auto simp: vpath_def)

lemma tm_Nil [simp]: "tm lim M r [] = Some r"
  by (simp add: tm_def)

lemma tm_Cons:
  "tm lim M r (i # p) =
     (if vpath lim (i # p)
      then (case tm lim M r p of None \<Rightarrow> None | Some t \<Rightarrow> if is_table (M t i) then Some (entry_frame (M t i)) else None)
      else None)"
  using vpath_tl [of lim i p] by (auto simp: tm_def)

lemma tm_Cons_Some:
  "tm lim M r (i # p) = Some f \<longleftrightarrow>
     vpath lim (i # p) \<and> (\<exists>t. tm lim M r p = Some t \<and> is_table (M t i) \<and> f = entry_frame (M t i))"
  by (auto simp: tm_Cons split: option.splits if_splits)

lemma tm_vpath: "tm lim M r p = Some t \<Longrightarrow> vpath lim p"
  by (auto simp: tm_def split: if_splits)

lemma tm_frame_ok: "tm lim M r (i # p) = Some t \<Longrightarrow> frame_ok t"
  by (auto simp: tm_Cons_Some)

definition tree :: "nat \<Rightarrow> pmem \<Rightarrow> w64 \<Rightarrow> bool" where
  "tree lim M r \<longleftrightarrow> (\<forall>p q t. tm lim M r p = Some t \<longrightarrow> tm lim M r q = Some t \<longrightarrow> p = q)"

lemma treeD: "tree lim M r \<Longrightarrow> tm lim M r p = Some t \<Longrightarrow> tm lim M r q = Some t \<Longrightarrow> p = q"
  unfolding tree_def by blast

text \<open>The tree depends on the entries of its tables alone.\<close>

lemma tm_cong:
  assumes "\<And>p t i. tm lim M r p = Some t \<Longrightarrow> vpath lim (i # p) \<Longrightarrow> is_table (M t i) \<or> is_table (M' t i) \<Longrightarrow> M' t i = M t i"
  shows "tm lim M' r p = tm lim M r p"
proof (induction p)
  case (Cons i p)
  show ?case
  proof (cases "vpath lim (i # p)")
    case True
    show ?thesis
    proof (cases "tm lim M r p")
      case None
      then show ?thesis using Cons.IH by (simp add: tm_Cons)
    next
      case (Some t)
      then show ?thesis using Cons.IH assms [OF Some True] True by (auto simp: tm_Cons)
    qed
  qed (simp add: tm_Cons)
qed simp

lemma tm_same:
  assumes "\<And>p t. tm lim M r p = Some t \<Longrightarrow> M' t = M t"
  shows "tm lim M' r = tm lim M r"
  by (rule ext, rule tm_cong) (simp add: assms)

text \<open>A write to one entry.\<close>

definition put :: "w64 \<Rightarrow> nat \<Rightarrow> w64 \<Rightarrow> pmem \<Rightarrow> pmem" where
  "put t i e M = M(t := (M t)(i := e))"

lemma put_apply: "put t i e M u j = (if u = t \<and> j = i then e else M u j)"
  by (simp add: put_def)

lemma put_other: "u \<noteq> t \<Longrightarrow> put t i e M u = M u"
  by (simp add: put_def)

lemma set_entry_mem [simp]: "pt_mem (set_entry t i e s) = put t i e (pt_mem s)"
  by (simp add: set_entry_def put_def)

lemma set_entry_fr [simp]: "pt_fr (set_entry t i e s) = pt_fr s"
  by (simp add: set_entry_def)

lemma tm_put_other:
  assumes tr: "tree lim M r" and t: "tm lim M r p = Some t" and nq: "\<forall>k. drop k q \<noteq> i # p"
  shows "tm lim (put t i e M) r q = tm lim M r q"
  using nq
proof (induction q)
  case (Cons j q)
  have nq: "\<forall>k. drop k q \<noteq> i # p"
  proof
    fix k show "drop k q \<noteq> i # p" using Cons.prems by (metis drop_Suc_Cons)
  qed
  have ne: "j # q \<noteq> i # p" using Cons.prems by (metis drop_0)
  note IH = Cons.IH [OF nq]
  show ?case
  proof (cases "tm lim M r q")
    case None
    then show ?thesis using IH by (simp add: tm_Cons)
  next
    case (Some u)
    have "put t i e M u j = M u j"
      using ne treeD [OF tr Some, of p] t by (auto simp: put_apply)
    then show ?thesis using IH Some by (simp add: tm_Cons)
  qed
qed simp

lemma tm_drop_None: "tm lim M r q = None \<Longrightarrow> tm lim M r (xs @ q) = None"
  by (induction xs) (auto simp: tm_Cons)

lemma tm_put_keep:
  assumes "tree lim M r" "tm lim M r p = Some t"
    "vpath lim (i # p) \<Longrightarrow> is_table e = is_table (M t i) \<and> (is_table e \<longrightarrow> entry_frame e = entry_frame (M t i))"
  shows "tm lim (put t i e M) r = tm lim M r"
proof
  fix q
  show "tm lim (put t i e M) r q = tm lim M r q"
  proof (induction q)
    case (Cons j q)
    show ?case
    proof (cases "tm lim M r q")
      case None
      then show ?thesis using Cons.IH by (simp add: tm_Cons)
    next
      case (Some u)
      show ?thesis
      proof (cases "u = t \<and> j = i")
        case True
        then have "q = p" using treeD [OF assms(1) Some, of p] assms(2) by simp
        then show ?thesis using Cons.IH Some True assms(3) by (auto simp: tm_Cons put_apply)
      next
        case False
        then have "put t i e M u j = M u j" by (auto simp: put_apply)
        then show ?thesis using Cons.IH Some by (simp add: tm_Cons)
      qed
    qed
  qed simp
qed

lemma drop_no_self: "drop k p \<noteq> i # p"
proof
  assume "drop k p = i # p"
  then have "length (drop k p) = Suc (length p)" by simp
  then show False by simp
qed

lemma path_through:
  assumes "drop k q = i # p"
  shows "q = take k q @ i # p"
  by (metis append_take_drop_id assms)

lemma tm_put_link:
  assumes tr: "tree lim M r" and t: "tm lim M r p = Some t" and v: "vpath lim (i # p)"
    and no: "\<not> is_table (M t i)" and e: "is_table e" and new: "\<forall>q. tm lim M r q \<noteq> Some (entry_frame e)"
    and empty: "\<forall>j < 512. vpath lim (j # i # p) \<longrightarrow> \<not> is_table (M (entry_frame e) j)"
  shows "tm lim (put t i e M) r = (tm lim M r)(i # p \<mapsto> entry_frame e)"
proof
  fix q
  let ?f = "entry_frame e" and ?M = "put t i e M"
  have old: "tm lim M r (i # p) = None" using t no by (simp add: tm_Cons)
  have tp: "tm lim ?M r p = Some t" by (subst tm_put_other [OF tr t]) (simp_all add: t drop_no_self)
  have here: "tm lim ?M r (i # p) = Some ?f" using tp v e by (simp add: tm_Cons put_apply)
  have ft: "?f \<noteq> t" using new t by auto
  have below: "tm lim ?M r (xs @ j # i # p) = None" for xs j
  proof (rule tm_drop_None)
    show "tm lim ?M r (j # i # p) = None"
    proof (cases "vpath lim (j # i # p)")
      case True
      then have "j < 512" by (simp add: vpath_def)
      then show ?thesis using True here empty ft by (simp add: tm_Cons [of _ _ _ j] put_apply)
    qed (simp add: tm_Cons)
  qed
  show "tm lim ?M r q = ((tm lim M r)(i # p \<mapsto> ?f)) q"
  proof (cases "\<exists>k. drop k q = i # p")
    case False
    then have "q \<noteq> i # p" by (metis drop_0)
    then show ?thesis using tm_put_other [OF tr t, of q i e] False by auto
  next
    case True
    then obtain k where q: "q = take k q @ i # p" using path_through by metis
    show ?thesis
    proof (cases "take k q = []")
      case True
      then have "q = i # p" using q by (metis append_Nil)
      then show ?thesis using here by simp
    next
      case False
      then obtain xs j where x: "take k q = xs @ [j]" by (cases "take k q" rule: rev_cases) auto
      then have q': "q = xs @ j # i # p" using q by simp
      then have "q \<noteq> i # p" by simp
      moreover have "tm lim M r q = None" using tm_drop_None [OF old, of "xs @ [j]"] q' by simp
      ultimately show ?thesis using below [of xs j] q' by simp
    qed
  qed
qed

lemma tm_put_unlink:
  assumes tr: "tree lim M r" and t: "tm lim M r p = Some t" and f: "tm lim M r (i # p) = Some f"
    and e: "\<not> is_table e" and empty: "\<forall>j < 512. vpath lim (j # i # p) \<longrightarrow> \<not> is_table (M f j)"
  shows "tm lim (put t i e M) r = (tm lim M r)(i # p := None)"
proof
  fix q
  let ?M = "put t i e M"
  have tp: "tm lim ?M r p = Some t" by (subst tm_put_other [OF tr t]) (simp_all add: t drop_no_self)
  have here: "tm lim ?M r (i # p) = None" using tp e by (simp add: tm_Cons put_apply)
  have below: "tm lim M r (j # i # p) = None" for j
  proof (cases "vpath lim (j # i # p)")
    case True
    then have "j < 512" by (simp add: vpath_def)
    then show ?thesis using True f empty by (simp add: tm_Cons [of _ _ _ j])
  qed (simp add: tm_Cons)
  show "tm lim ?M r q = ((tm lim M r)(i # p := None)) q"
  proof (cases "\<exists>k. drop k q = i # p")
    case False
    then have "q \<noteq> i # p" by (metis drop_0)
    then show ?thesis using tm_put_other [OF tr t, of q i e] False by auto
  next
    case True
    then obtain k where q: "q = take k q @ i # p" using path_through by metis
    have n: "tm lim ?M r q = None" using tm_drop_None [OF here, of "take k q"] q by simp
    show ?thesis
    proof (cases "take k q = []")
      case True
      then have "q = i # p" using q by (metis append_Nil)
      then show ?thesis using n by simp
    next
      case False
      then obtain xs j where x: "take k q = xs @ [j]" by (cases "take k q" rule: rev_cases) auto
      then have q': "q = xs @ j # i # p" using q by simp
      then have "tm lim M r q = None" using tm_drop_None [OF below [of j], of xs] by simp
      then show ?thesis using n q' by simp
    qed
  qed
qed

lemma tree_map_update:
  assumes "tree lim M r" "tm lim M' r = (tm lim M r)(q \<mapsto> f)" "\<forall>p. tm lim M r p \<noteq> Some f"
  shows "tree lim M' r"
  unfolding tree_def assms(2) using treeD [OF assms(1)] assms(3) by (auto split: if_splits)

lemma tree_map_delete:
  assumes "tree lim M r" "tm lim M' r = (tm lim M r)(q := None)"
  shows "tree lim M' r"
  unfolding tree_def assms(2) using treeD [OF assms(1)] by (auto split: if_splits)

section \<open>Entries by path\<close>

definition ent :: "nat \<Rightarrow> pmem \<Rightarrow> w64 \<Rightarrow> nat list \<Rightarrow> w64" where
  "ent lim M r q = (case q of [] \<Rightarrow> 0 | i # p \<Rightarrow> (case tm lim M r p of None \<Rightarrow> 0 | Some t \<Rightarrow> M t i))"

lemma ent_Cons: "ent lim M r (i # p) = (case tm lim M r p of None \<Rightarrow> 0 | Some t \<Rightarrow> M t i)"
  by (simp add: ent_def)

lemma ent_Some: "tm lim M r p = Some t \<Longrightarrow> ent lim M r (i # p) = M t i"
  by (simp add: ent_Cons)

lemma ent_None: "tm lim M r p = None \<Longrightarrow> ent lim M r (i # p) = 0"
  by (simp add: ent_Cons)

lemma ent_put:
  assumes "tree lim M r" "tm lim M r p = Some t" "tm lim (put t i e M) r = tm lim M r"
  shows "ent lim (put t i e M) r = (ent lim M r)(i # p := e)"
proof
  fix q
  show "ent lim (put t i e M) r q = ((ent lim M r)(i # p := e)) q"
  proof (cases q)
    case (Cons j q')
    show ?thesis
    proof (cases "tm lim M r q'")
      case None
      then have "q' \<noteq> p" using assms(2) by auto
      then show ?thesis using Cons None by (simp add: ent_Cons assms(3))
    next
      case (Some u)
      have "put t i e M u j = (if q = i # p then e else M u j)"
        using treeD [OF assms(1) Some, of p] assms(2) Some Cons by (auto simp: put_apply)
      then show ?thesis using Cons Some by (simp add: ent_Cons assms(3))
    qed
  qed (simp add: ent_def)
qed

end
