(* ===== verification/FrameSource.thy ===== *)
theory FrameSource
  imports PageTree
begin

text \<open>
  What the page tables rely on from the frame allocator, as two locales: frames
  can be taken (before and after paging is active), and once they are counted
  they are given back, shared and counted. Both are interpreted on the allocator
  of \<open>Frame\<close>.
\<close>

section \<open>The interface\<close>

text \<open>
  The static heap lies outside the frames that can be handed out or are
  referenced; the statics other than memory and allocator.
\<close>

definition supplied :: "bool \<Rightarrow> ('a \<Rightarrow> bool) \<Rightarrow> ('a \<Rightarrow> w64 set) \<Rightarrow> 'a pt_state \<Rightarrow> bool" where
  "supplied act good avail s \<longleftrightarrow> good (pt_fr s) \<and> pt_active s = act \<and> (\<forall>f \<in> avail (pt_fr s). \<not> overlaps_heap s f)"

definition sourced :: "('a \<Rightarrow> bool) \<Rightarrow> ('a \<Rightarrow> w64 set) \<Rightarrow> ('a \<Rightarrow> w64 \<Rightarrow> nat) \<Rightarrow> 'a pt_state \<Rightarrow> bool" where
  "sourced good avail refs s \<longleftrightarrow> supplied True good avail s \<and> (\<forall>f. 0 < refs (pt_fr s) f \<longrightarrow> \<not> overlaps_heap s f)"

definition statics_same :: "'a pt_state \<Rightarrow> 'a pt_state \<Rightarrow> bool" where
  "statics_same s s' \<longleftrightarrow> pt_active s' = pt_active s \<and> pt_frozen s' = pt_frozen s \<and> pt_dropped s' = pt_dropped s
     \<and> pt_pml4 s' = pt_pml4 s \<and> pt_heap s' = pt_heap s"

lemma statics_refl [simp]: "statics_same s s"
  by (simp add: statics_same_def)

lemma statics_trans: "statics_same s s' \<Longrightarrow> statics_same s' s'' \<Longrightarrow> statics_same s s''"
  by (simp add: statics_same_def)

lemma statics_updates [simp]:
  "statics_same s (set_entry t i e s')= statics_same s s'" "statics_same s (s'\<lparr>pt_fr := a\<rparr>) = statics_same s s'"
  "statics_same s (s'\<lparr>pt_mem := M\<rparr>) = statics_same s s'"
  by (simp_all add: statics_same_def set_entry_def)

lemma overlaps_heap_cong: "pt_heap s' = pt_heap s \<Longrightarrow> overlaps_heap s' f = overlaps_heap s f"
  by (simp add: overlaps_heap_def)

locale frame_supply =
  fixes F :: "'a frame_ops" and act :: bool and good :: "'a \<Rightarrow> bool" and avail :: "'a \<Rightarrow> w64 set"
  assumes avail_ok: "good a \<Longrightarrow> f \<in> avail a \<Longrightarrow> frame_ok f"
    and takes: "good a \<Longrightarrow>
      \<exists>a' r. (if act then fo_alloc F a else fo_alloc_below F (16 * of_nat GIGABYTE) a) = Some (a', r) \<and> good a'
        \<and> (case r of None \<Rightarrow> avail a' = avail a | Some f \<Rightarrow> f \<in> avail a \<and> avail a' = avail a - {f})"
begin

abbreviation sup :: "'a pt_state \<Rightarrow> bool" where
  "sup \<equiv> supplied act good avail"

lemma supplied_statics:
  assumes "sup s" "statics_same s s'" "good (pt_fr s')" "\<And>f. f \<in> avail (pt_fr s') \<Longrightarrow> f \<in> avail (pt_fr s)"
  shows "sup s'"
  using assms overlaps_heap_cong [of s' s] by (auto simp: supplied_def statics_same_def)

lemma supplied_set_entry [simp]: "sup (set_entry t i e s) = sup s"
  by (simp add: supplied_def set_entry_def overlaps_heap_def)

lemma alloc_table_ok:
  assumes "sup s"
  shows "\<exists>s' r. alloc_table F s = Some (s', r) \<and> sup s' \<and> statics_same s s'
    \<and> (if act then fo_alloc F (pt_fr s) else fo_alloc_below F (16 * of_nat GIGABYTE) (pt_fr s)) = Some (pt_fr s', r)
    \<and> (case r of
         None \<Rightarrow> pt_mem s' = pt_mem s \<and> avail (pt_fr s') = avail (pt_fr s)
       | Some f \<Rightarrow> f \<in> avail (pt_fr s) \<and> frame_ok f \<and> avail (pt_fr s') = avail (pt_fr s) - {f}
           \<and> pt_mem s' = (pt_mem s)(f := (\<lambda>_. 0)))"
proof -
  have g: "good (pt_fr s)" "pt_active s = act" using assms by (auto simp: supplied_def)
  obtain a' r where r: "(if act then fo_alloc F (pt_fr s) else fo_alloc_below F (16 * of_nat GIGABYTE) (pt_fr s)) = Some (a', r)"
    "good a'" "case r of None \<Rightarrow> avail a' = avail (pt_fr s) | Some f \<Rightarrow> f \<in> avail (pt_fr s) \<and> avail a' = avail (pt_fr s) - {f}"
    using takes [OF g(1)] by blast
  show ?thesis
  proof (cases r)
    case None
    have "sup (s\<lparr>pt_fr := a'\<rparr>)" using r None by (intro supplied_statics [OF assms]) auto
    then show ?thesis using r None g by (simp add: alloc_table_def)
  next
    case (Some f)
    then have f: "f \<in> avail (pt_fr s)" "avail a' = avail (pt_fr s) - {f}" using r(3) by auto
    have nh: "\<not> overlaps_heap s f" using f(1) assms by (simp add: supplied_def)
    have "sup (s\<lparr>pt_fr := a', pt_mem := (pt_mem s)(f := (\<lambda>_. 0))\<rparr>)"
      using r f by (intro supplied_statics [OF assms]) auto
    then show ?thesis using r Some f g nh avail_ok [OF g(1) f(1)] by (simp add: alloc_table_def)
  qed
qed

end

locale frame_source = frame_supply F True good avail
  for F :: "'a frame_ops" and good :: "'a \<Rightarrow> bool" and avail :: "'a \<Rightarrow> w64 set" +
  fixes refs :: "'a \<Rightarrow> w64 \<Rightarrow> nat" and cap :: nat
  assumes avail_refs: "good a \<Longrightarrow> f \<in> avail a \<Longrightarrow> refs a f = 0"
    and refs_ok: "good a \<Longrightarrow> 0 < refs a f \<Longrightarrow> frame_ok f"
    and alloc_refs: "good a \<Longrightarrow> fo_alloc F a = Some (a', r) \<Longrightarrow>
      (case r of None \<Rightarrow> avail a = {} \<and> refs a' = refs a | Some f \<Rightarrow> refs a' = (refs a)(f := 1))"
    and free: "good a \<Longrightarrow> 0 < refs a f \<Longrightarrow>
      \<exists>a'. fo_free F f a = Some a' \<and> good a' \<and> refs a' = (refs a)(f := refs a f - 1)
        \<and> avail a' = (if refs a f = 1 then insert f (avail a) else avail a)"
    and get: "good a \<Longrightarrow> 0 < refs a f \<Longrightarrow>
      fo_get F f a = (a, False) \<and> refs a f = cap
      \<or> (\<exists>a'. fo_get F f a = (a', True) \<and> good a' \<and> refs a' = (refs a)(f := refs a f + 1) \<and> avail a' = avail a)"
    and refcount: "good a \<Longrightarrow> 0 < refs a f \<Longrightarrow> fo_refcount F f a = Some (refs a f)"
    and refcount_none: "good a \<Longrightarrow> frame_ok f \<Longrightarrow> refs a f = 0 \<Longrightarrow> fo_refcount F f a = None \<or> fo_refcount F f a = Some 0"
begin

abbreviation src :: "'a pt_state \<Rightarrow> bool" where
  "src \<equiv> sourced good avail refs"

lemma sourced_set_entry [simp]: "src (set_entry t i e s) = src s"
  by (simp add: sourced_def) (simp add: set_entry_def overlaps_heap_def)

lemma sourced_good: "src s \<Longrightarrow> good (pt_fr s)"
  by (simp add: sourced_def supplied_def)

lemma sourced_statics:
  assumes "src s" "statics_same s s'" "good (pt_fr s')"
    "\<And>f. f \<in> avail (pt_fr s') \<Longrightarrow> f \<in> avail (pt_fr s) \<or> 0 < refs (pt_fr s) f"
    "\<And>f. 0 < refs (pt_fr s') f \<Longrightarrow> f \<in> avail (pt_fr s) \<or> 0 < refs (pt_fr s) f"
  shows "src s'"
proof -
  have c: "overlaps_heap s' f = overlaps_heap s f" for f
    using assms(2) by (intro overlaps_heap_cong) (simp add: statics_same_def)
  show ?thesis using assms unfolding sourced_def supplied_def c by (auto simp: statics_same_def)
qed

text \<open>The three operations on states.\<close>

lemma alloc_table_source:
  assumes "src s"
  shows "\<exists>s' r. alloc_table F s = Some (s', r) \<and> src s' \<and> statics_same s s'
    \<and> (case r of
         None \<Rightarrow> pt_mem s' = pt_mem s \<and> avail (pt_fr s) = {} \<and> avail (pt_fr s') = avail (pt_fr s) \<and> refs (pt_fr s') = refs (pt_fr s)
       | Some f \<Rightarrow> f \<in> avail (pt_fr s) \<and> frame_ok f \<and> refs (pt_fr s) f = 0
           \<and> avail (pt_fr s') = avail (pt_fr s) - {f} \<and> refs (pt_fr s') = (refs (pt_fr s))(f := 1)
           \<and> pt_mem s' = (pt_mem s)(f := (\<lambda>_. 0)))"
proof -
  have sup: "sup s" and g: "good (pt_fr s)" using assms by (auto simp: sourced_def supplied_def)
  obtain s' r where r: "alloc_table F s = Some (s', r)" "sup s'" "statics_same s s'" "fo_alloc F (pt_fr s) = Some (pt_fr s', r)"
    "case r of None \<Rightarrow> pt_mem s' = pt_mem s \<and> avail (pt_fr s') = avail (pt_fr s)
       | Some f \<Rightarrow> f \<in> avail (pt_fr s) \<and> frame_ok f \<and> avail (pt_fr s') = avail (pt_fr s) - {f}
           \<and> pt_mem s' = (pt_mem s)(f := (\<lambda>_. 0))"
    using alloc_table_ok [OF sup] by auto
  note ar = alloc_refs [OF g r(4)]
  have "src s'"
    using r(2,5) ar by (intro sourced_statics [OF assms r(3)]) (auto simp: supplied_def split: option.splits if_splits)
  then show ?thesis using r ar avail_refs [OF g] by (cases r) auto
qed

lemma free_source:
  assumes "src s" "0 < refs (pt_fr s) f"
  shows "\<exists>s'. pt_free_frame F f s = Some s' \<and> src s' \<and> statics_same s s' \<and> pt_mem s' = pt_mem s
    \<and> refs (pt_fr s') = (refs (pt_fr s))(f := refs (pt_fr s) f - 1)
    \<and> avail (pt_fr s') = (if refs (pt_fr s) f = 1 then insert f (avail (pt_fr s)) else avail (pt_fr s))"
proof -
  obtain a' where a: "fo_free F f (pt_fr s) = Some a'" "good a'" "refs a' = (refs (pt_fr s))(f := refs (pt_fr s) f - 1)"
    "avail a' = (if refs (pt_fr s) f = 1 then insert f (avail (pt_fr s)) else avail (pt_fr s))"
    using free [OF sourced_good [OF assms(1)] assms(2)] by blast
  have "src (s\<lparr>pt_fr := a'\<rparr>)"
    using a assms(2) by (intro sourced_statics [OF assms(1)]) (auto split: if_splits)
  then show ?thesis using a by (simp add: pt_free_frame_def)
qed

lemma free_set_entry:
  "pt_free_frame F f (set_entry t i e s) = map_option (set_entry t i e) (pt_free_frame F f s)"
  by (cases "fo_free F f (pt_fr s)") (simp_all add: pt_free_frame_def set_entry_def)

end

section \<open>The allocator behind it\<close>

definition alloc_frame :: "Allocator \<Rightarrow> (Allocator \<times> u64 option) option" where
  "alloc_frame al =
     map_option (\<lambda>(al, r). (al, case r of Ok f \<Rightarrow> Some f | Err _ \<Rightarrow> None)) (al_allocate al 0 0 u64_max)"

definition alloc_frame_below :: "u64 \<Rightarrow> Allocator \<Rightarrow> (Allocator \<times> u64 option) option" where
  "alloc_frame_below mx al =
     map_option (\<lambda>(al, r). (al, case r of Ok f \<Rightarrow> Some f | Err _ \<Rightarrow> None)) (al_allocate al 0 0 mx)"

definition kframes :: "Allocator frame_ops" where
  "kframes =
     \<lparr>fo_alloc = (\<lambda>al. map_option (\<lambda>(al, r). (al, map_option of_nat r)) (alloc_frame al)),
      fo_alloc_below = (\<lambda>mx al. map_option (\<lambda>(al, r). (al, map_option of_nat r)) (alloc_frame_below (unat mx) al)),
      fo_free = (\<lambda>f al. free_frame al (unat f)),
      fo_get = (\<lambda>f al. case frame_get al (unat f) of (al, r) \<Rightarrow> (al, is_ok r)),
      fo_refcount = (\<lambda>f al. frame_refcount al (unat f))\<rparr>"

definition frame_number :: "w64 \<Rightarrow> nat" where
  "frame_number f = unat f div PAGE_SIZE"

definition avail_frames :: "Allocator \<Rightarrow> w64 set" where
  "avail_frames al = {f. frame_ok f \<and> frame_number f < fs_count (al_store al) \<and> fs_state (al_store al) (frame_number f) = Free}"

definition frame_refs :: "Allocator \<Rightarrow> w64 \<Rightarrow> nat" where
  "frame_refs al f = (if frame_ok f then (case frame_refcount al (unat f) of None \<Rightarrow> 0 | Some n \<Rightarrow> n) else 0)"

lemma frame_ok_iff: "frame_ok f \<longleftrightarrow> PAGE_SIZE dvd unat f \<and> unat f < 2 ^ 52"
proof -
  have "frame_ok f \<longleftrightarrow> (\<forall>n. bit f n \<longrightarrow> 12 \<le> n \<and> n < 52)"
  proof
    assume "\<forall>n. bit f n \<longrightarrow> 12 \<le> n \<and> n < 52"
    then show "frame_ok f" unfolding frame_ok_def by (intro bit_eqI) (auto simp: bit_entry_frame)
  qed (use frame_ok_bits in blast)
  also have "\<dots> \<longleftrightarrow> take_bit 12 f = 0 \<and> take_bit 52 f = f"
  proof -
    have lt: "bit f n \<Longrightarrow> n < 64" for n using bit_imp_le_length [of f n] by simp
    have "take_bit 12 f = 0 \<longleftrightarrow> (\<forall>n < 64. 12 \<le> n \<or> \<not> bit f n)"
      by (auto simp: bit_eq_iff bit_take_bit_iff not_less)
    also have "\<dots> \<longleftrightarrow> (\<forall>n. bit f n \<longrightarrow> 12 \<le> n)" using lt by blast
    finally have "take_bit 12 f = 0 \<longleftrightarrow> (\<forall>n. bit f n \<longrightarrow> 12 \<le> n)" .
    moreover have "take_bit 52 f = f \<longleftrightarrow> (\<forall>n. bit f n \<longrightarrow> n < 52)"
      using lt by (auto simp: bit_eq_iff bit_take_bit_iff)
    ultimately show ?thesis by blast
  qed
  also have "take_bit 12 f = 0 \<longleftrightarrow> PAGE_SIZE dvd unat f"
  proof -
    have "unat (take_bit 12 f) = take_bit 12 (unat f)" by (rule unsigned_take_bit_eq)
    then have "unat (take_bit 12 f) = unat f mod PAGE_SIZE" by (simp only: take_bit_eq_mod) (simp add: PAGE_SIZE_def)
    then show ?thesis by (metis dvd_eq_mod_eq_0 unsigned_0 unsigned_word_eqI)
  qed
  also have "take_bit 52 f = f \<longleftrightarrow> unat f < 2 ^ 52"
    by (metis take_bit_nat_eq_self_iff unsigned_take_bit_eq word_eq_iff_unsigned)
  finally show ?thesis .
qed

lemma frame_number_ok: "frame_ok f \<Longrightarrow> unat f = frame_number f * PAGE_SIZE"
  by (simp add: frame_ok_iff frame_number_def)

lemma frame_number_inj: "frame_ok f \<Longrightarrow> frame_ok g \<Longrightarrow> frame_number f = frame_number g \<longleftrightarrow> f = g"
  by (metis frame_number_ok unsigned_word_eqI)

lemma frame_of_number:
  assumes "n < MAX_FRAMES"
  shows "frame_ok (of_nat (n * PAGE_SIZE))" "frame_number (of_nat (n * PAGE_SIZE)) = n" "unat (of_nat (n * PAGE_SIZE) :: w64) = n * PAGE_SIZE"
proof -
  have b: "n * PAGE_SIZE < 2 ^ 52" using assms by (simp add: MAX_FRAMES_def PAGE_SIZE_def)
  then show u: "unat (of_nat (n * PAGE_SIZE) :: w64) = n * PAGE_SIZE" by (simp add: unsigned_of_nat take_bit_nat_eq_self del: of_nat_mult)
  show "frame_ok (of_nat (n * PAGE_SIZE))" using u b by (simp add: frame_ok_iff del: of_nat_mult)
  show "frame_number (of_nat (n * PAGE_SIZE)) = n" using u by (simp add: frame_number_def PAGE_SIZE_def del: of_nat_mult)
qed

lemma set_refcounts_one: "f < length rs \<Longrightarrow> set_refcounts f 1 v (Some rs) = Some (rs[f := v])"
  by (simp add: set_refcounts_def)

lemma alloc_frame_ok:
  assumes inv: "refs_inv al"
  shows "\<exists>al' r. alloc_frame al = Some (al', r) \<and> refs_inv al' \<and> fs_count (al_store al') = fs_count (al_store al)
    \<and> (case r of
         None \<Rightarrow> (\<forall>f < fs_count (al_store al). fs_state (al_store al) f \<noteq> Free)
           \<and> fs_state (al_store al') = fs_state (al_store al) \<and> al_refs al' = al_refs al
       | Some address \<Rightarrow> \<exists>f rs. address = f * PAGE_SIZE \<and> f < fs_count (al_store al) \<and> fs_state (al_store al) f = Free
           \<and> fs_state (al_store al') = (fs_state (al_store al))(f := Allocated)
           \<and> al_refs al = Some rs \<and> al_refs al' = Some (rs[f := 1]))"
proof -
  obtain B rs where B: "buddy_inv B (sys al)" and act: "al_active al" and rs: "al_refs al = Some rs" "length rs = fs_count (al_store al)"
    "\<forall>f < length rs. 0 < rs ! f \<longleftrightarrow> fs_state (al_store al) f = Allocated" "\<forall>f < length rs. rs ! f < 2 ^ 16"
    using inv by (auto simp: refs_inv_def split: option.splits)
  have cnt: "fs_count (al_store al) \<le> MAX_FRAMES" using B by (simp add: buddy_inv_def buddy_wf_def)
  have z: "zones_for 0 u64_max = [Normal, Dma32]"
    by (simp add: zones_for_def Let_def u64_max_def DMA32_FRAMES_def PAGE_SIZE_def)
  obtain bs r where op: "allocate 0 (zones_for 0 u64_max) (sys al) = (bs, r)" by fastforce
  obtain B' where B': "buddy_inv B' bs" using allocate_inv [OF B, of 0 "zones_for 0 u64_max"] op by auto
  note ac = buddy_allocate_cases [OF B _ op]
  have bf: "block_frames (f, 0) = {f}" for f by (auto simp: block_frames_def)
  show ?thesis
  proof (cases r)
    case None
    then have bs: "bs = sys al" and none: "\<And>x. Zone_of x \<in> set (zones_for 0 u64_max) \<Longrightarrow> x \<notin> free_set (al_store al)"
      using ac by (auto simp: bf MAX_ORDER_def)
    have full: "fs_state (al_store al) f \<noteq> Free" if "f < fs_count (al_store al)" for f
      using none [of f] that by (auto simp: z free_set_def Zone_of_def split: if_splits)
    then show ?thesis using act op None bs inv
      by (simp add: alloc_frame_def al_allocate_def find_frame_def with_sys_def)
  next
    case (Some f)
    then have a: "f \<in> free_set (al_store al)" "fs_count (snd bs) = fs_count (al_store al)"
      "fs_state (snd bs) = (fs_state (al_store al))(f := Allocated)"
      using ac by (auto simp: bf MAX_ORDER_def fun_eq_iff)
    then have f: "f < fs_count (al_store al)" "fs_state (al_store al) f = Free" by (auto simp: free_set_def)
    have "(f + 1) * PAGE_SIZE \<le> u64_max" using f(1) cnt by (simp add: MAX_FRAMES_def PAGE_SIZE_def u64_max_def)
    then have fit: "fits 0 0 u64_max f" by (subst fits_iff) (simp_all add: u64_max_def)
    define al' where "al' = (with_sys al bs)\<lparr>al_refs := Some (rs[f := 1])\<rparr>"
    have "refs_inv al'" using B' act a f rs by (auto simp: refs_inv_def al'_def with_sys_def nth_list_update)
    moreover have "alloc_frame al = Some (al', Some (f * PAGE_SIZE))"
      using act op Some fit f(1) rs set_refcounts_one [of f rs 1]
      by (simp add: alloc_frame_def al_allocate_def find_frame_def al'_def with_sys_def)
    ultimately show ?thesis using a f rs by (auto simp: al'_def with_sys_def)
  qed
qed

lemma free_frame_ok:
  assumes inv: "refs_inv al" and f: "f < fs_count (al_store al)" and rs: "al_refs al = Some rs" and pos: "0 < rs ! f"
  shows "\<exists>al'. free_frame al (f * PAGE_SIZE) = Some al' \<and> refs_inv al' \<and> fs_count (al_store al') = fs_count (al_store al)
    \<and> al_refs al' = Some (rs[f := rs ! f - 1])
    \<and> fs_state (al_store al') = (if rs ! f = 1 then (fs_state (al_store al))(f := Free) else fs_state (al_store al))"
proof -
  obtain rs' where rs': "al_refs al = Some rs'" "length rs' = fs_count (al_store al)"
    "\<forall>f < length rs'. 0 < rs' ! f \<longleftrightarrow> fs_state (al_store al) f = Allocated" "\<forall>f < length rs'. rs' ! f < 2 ^ 16"
    "refcount_slot al (f * PAGE_SIZE) = Some (rs', f)" using refs_inv_slot [OF inv f] .
  then have [simp]: "rs' = rs" using rs by simp
  have fl: "f < length rs" using rs'(2) f by simp
  show ?thesis
  proof (cases "rs ! f = 1")
    case True
    have "fs_state (al_store al) f = Allocated" using rs'(3) fl pos by simp
    from drop_last [OF inv rs f this] obtain al' where d: "drop_frame (al\<lparr>al_refs := Some (rs[f := 0])\<rparr>) (f * PAGE_SIZE) = Some al'"
      "refs_inv al'" "al_refs al' = Some (rs[f := 0])" "fs_state (al_store al') = (fs_state (al_store al))(f := Free)" by blast
    have "fs_count (al_store al') = length (rs[f := 0])" using d(2,3) by (simp add: refs_inv_def)
    then show ?thesis using d True rs' by (simp add: free_frame_def)
  next
    case False
    then have "refs_inv (al\<lparr>al_refs := Some (rs[f := rs ! f - 1])\<rparr>)"
      using pos rs'(4) fl by (intro refs_inv_update [OF inv rs]) (auto intro: less_imp_diff_less)
    then show ?thesis using False pos rs' by (simp add: free_frame_def)
  qed
qed

lemma frame_get_ok:
  assumes inv: "refs_inv al" and f: "f < fs_count (al_store al)" and rs: "al_refs al = Some rs" and pos: "0 < rs ! f"
  shows "frame_get al (f * PAGE_SIZE) = (al, Err FE_NotShareable) \<and> rs ! f = 2 ^ 16 - 1
    \<or> frame_get al (f * PAGE_SIZE) = (al\<lparr>al_refs := Some (rs[f := rs ! f + 1])\<rparr>, Ok ())
      \<and> refs_inv (al\<lparr>al_refs := Some (rs[f := rs ! f + 1])\<rparr>)"
proof -
  obtain rs' where rs': "al_refs al = Some rs'" "length rs' = fs_count (al_store al)"
    "\<forall>f < length rs'. rs' ! f < 2 ^ 16" "refcount_slot al (f * PAGE_SIZE) = Some (rs', f)" using refs_inv_slot [OF inv f] .
  then have [simp]: "rs' = rs" using rs by simp
  have fl: "f < length rs" using rs'(2) f by simp
  have lt: "rs ! f < 2 ^ 16" using rs'(3) fl by simp
  show ?thesis
  proof (cases "rs ! f = 2 ^ 16 - 1")
    case False
    then have "refs_inv (al\<lparr>al_refs := Some (rs[f := rs ! f + 1])\<rparr>)"
      using pos lt fl by (intro refs_inv_update [OF inv rs]) auto
    then show ?thesis using False pos rs'(4) by (simp add: frame_get_def)
  qed (use rs'(4) in \<open>simp add: frame_get_def\<close>)
qed

lemma frame_refs_eq:
  assumes "refs_inv al" "al_refs al = Some rs"
  shows "frame_refs al f = (if frame_ok f \<and> frame_number f < length rs then rs ! frame_number f else 0)"
  using assms(2) by (auto simp: frame_refs_def frame_refcount_def refcount_slot_def frame_number_def)

lemma frame_refs_update:
  assumes "refs_inv al" "al_refs al = Some rs" "al_refs al' = Some (rs[frame_number f := n])" "refs_inv al'" "frame_ok f" "frame_number f < length rs"
  shows "frame_refs al' = (frame_refs al)(f := n)"
proof
  fix g
  show "frame_refs al' g = ((frame_refs al)(f := n)) g"
    using assms frame_number_inj [OF assms(5), of g]
    by (auto simp: frame_refs_eq [OF assms(1,2)] frame_refs_eq [OF assms(4,3)] nth_list_update)
qed

lemma avail_update:
  assumes "fs_count (al_store al') = fs_count (al_store al)" "fs_state (al_store al') = (fs_state (al_store al))(frame_number f := st)"
    "frame_ok f" "frame_number f < fs_count (al_store al)"
  shows "avail_frames al' = (if st = Free then insert f (avail_frames al) else avail_frames al - {f})"
proof (rule set_eqI)
  fix g
  show "g \<in> avail_frames al' \<longleftrightarrow> g \<in> (if st = Free then insert f (avail_frames al) else avail_frames al - {f})"
    using assms frame_number_inj [OF assms(3), of g] by (cases "frame_ok g") (auto simp: avail_frames_def)
qed

lemma refs_pos:
  assumes "refs_inv al" "0 < frame_refs al f"
  obtains rs where "al_refs al = Some rs" "frame_ok f" "frame_number f < fs_count (al_store al)" "length rs = fs_count (al_store al)"
    "frame_refs al f = rs ! frame_number f" "0 < rs ! frame_number f" "unat f = frame_number f * PAGE_SIZE"
proof -
  obtain rs where rs: "al_refs al = Some rs" "length rs = fs_count (al_store al)" using assms(1) by (auto simp: refs_inv_def split: option.splits)
  have "frame_ok f" "frame_number f < length rs" "frame_refs al f = rs ! frame_number f"
    using assms(2) frame_refs_eq [OF assms(1) rs(1), of f] by (auto split: if_splits)
  then show ?thesis using that [OF rs(1)] rs(2) assms(2) frame_number_ok by metis
qed

lemma avail_no_refs:
  assumes "refs_inv al" "f \<in> avail_frames al"
  shows "frame_refs al f = 0"
proof (rule ccontr)
  assume "frame_refs al f \<noteq> 0"
  then have "0 < frame_refs al f" by simp
  from refs_pos [OF assms(1) this] obtain rs where "al_refs al = Some rs" "frame_number f < length rs" "0 < rs ! frame_number f"
    by metis
  then have "fs_state (al_store al) (frame_number f) = Allocated" using assms(1) by (simp add: refs_inv_def)
  then show False using assms(2) by (simp add: avail_frames_def)
qed

lemma kframes_alloc:
  assumes inv: "refs_inv al"
  shows "\<exists>al' r. fo_alloc kframes al = Some (al', r) \<and> refs_inv al'
    \<and> (case r of
         None \<Rightarrow> avail_frames al' = avail_frames al \<and> avail_frames al = {} \<and> frame_refs al' = frame_refs al
       | Some f \<Rightarrow> f \<in> avail_frames al \<and> avail_frames al' = avail_frames al - {f} \<and> frame_refs al' = (frame_refs al)(f := 1))"
proof -
  obtain al' r where r: "alloc_frame al = Some (al', r)" "refs_inv al'" "fs_count (al_store al') = fs_count (al_store al)"
    "case r of None \<Rightarrow> (\<forall>f < fs_count (al_store al). fs_state (al_store al) f \<noteq> Free)
           \<and> fs_state (al_store al') = fs_state (al_store al) \<and> al_refs al' = al_refs al
       | Some address \<Rightarrow> \<exists>f rs. address = f * PAGE_SIZE \<and> f < fs_count (al_store al) \<and> fs_state (al_store al) f = Free
           \<and> fs_state (al_store al') = (fs_state (al_store al))(f := Allocated)
           \<and> al_refs al = Some rs \<and> al_refs al' = Some (rs[f := 1])"
    using alloc_frame_ok [OF inv] by blast
  have cnt: "fs_count (al_store al) \<le> MAX_FRAMES" using inv by (auto simp: refs_inv_def buddy_inv_def buddy_wf_def)
  have fo: "fo_alloc kframes al = Some (al', map_option of_nat r)" using r(1) by (simp add: kframes_def)
  show ?thesis
  proof (cases r)
    case None
    have "avail_frames al = {}" "avail_frames al' = avail_frames al" using None r(3,4) by (auto simp: avail_frames_def)
    moreover have "frame_refs al' = frame_refs al"
      using None r(4) by (simp add: frame_refs_def frame_refcount_def refcount_slot_def fun_eq_iff)
    ultimately show ?thesis using fo None r(2) by simp
  next
    case (Some address)
    then obtain f rs where f: "address = f * PAGE_SIZE" "f < fs_count (al_store al)" "fs_state (al_store al) f = Free"
      "fs_state (al_store al') = (fs_state (al_store al))(f := Allocated)" "al_refs al = Some rs" "al_refs al' = Some (rs[f := 1])"
      using r(4) by auto
    define w :: w64 where "w = of_nat address"
    have w: "frame_ok w" "frame_number w = f" using frame_of_number [of f] f(1,2) cnt by (auto simp: w_def simp del: of_nat_mult)
    have len: "length rs = fs_count (al_store al)" using inv f(5) by (simp add: refs_inv_def)
    have "w \<in> avail_frames al" using w f by (simp add: avail_frames_def)
    moreover have "avail_frames al' = avail_frames al - {w}"
      using avail_update [of al' al w Allocated] r(3) f w by simp
    moreover have "frame_refs al' = (frame_refs al)(w := 1)"
      using frame_refs_update [OF inv f(5), of al' w 1] f w r(2) len by simp
    moreover have "fo_alloc kframes al = Some (al', Some w)" using fo Some by (simp add: w_def)
    ultimately show ?thesis using r(2) by (intro exI [of _ al'] exI [of _ "Some w"]) simp
  qed
qed

lemma kframes_free:
  assumes inv: "refs_inv al" and pos: "0 < frame_refs al f"
  shows "\<exists>a'. fo_free kframes f al = Some a' \<and> refs_inv a' \<and> frame_refs a' = (frame_refs al)(f := frame_refs al f - 1)
      \<and> avail_frames a' = (if frame_refs al f = 1 then insert f (avail_frames al) else avail_frames al)"
proof -
  from refs_pos [OF inv pos] obtain rs where rs: "al_refs al = Some rs" "frame_ok f" "frame_number f < fs_count (al_store al)"
    "length rs = fs_count (al_store al)" "frame_refs al f = rs ! frame_number f" "0 < rs ! frame_number f" "unat f = frame_number f * PAGE_SIZE" .
  from free_frame_ok [OF inv rs(3,1,6)] obtain al' where al': "free_frame al (unat f) = Some al'" "refs_inv al'"
    "fs_count (al_store al') = fs_count (al_store al)" "al_refs al' = Some (rs[frame_number f := rs ! frame_number f - 1])"
    "fs_state (al_store al') = (if rs ! frame_number f = 1 then (fs_state (al_store al))(frame_number f := Free) else fs_state (al_store al))"
    unfolding rs(7) by blast
  have "frame_refs al' = (frame_refs al)(f := frame_refs al f - 1)"
    using frame_refs_update [OF inv rs(1) al'(4,2)] rs by simp
  moreover have "avail_frames al' = (if frame_refs al f = 1 then insert f (avail_frames al) else avail_frames al)"
  proof (cases "rs ! frame_number f = 1")
    case True
    then show ?thesis using avail_update [of al' al f Free] al'(3,5) rs by simp
  next
    case False
    then show ?thesis using al'(3,5) rs(5) by (simp add: avail_frames_def)
  qed
  ultimately show ?thesis using al' by (simp add: kframes_def)
qed

lemma kframes_get:
  assumes inv: "refs_inv al" and pos: "0 < frame_refs al f"
  shows "fo_get kframes f al = (al, False) \<and> frame_refs al f = 2 ^ 16 - 1 \<or> (\<exists>a'. fo_get kframes f al = (a', True) \<and> refs_inv a'
      \<and> frame_refs a' = (frame_refs al)(f := frame_refs al f + 1) \<and> avail_frames a' = avail_frames al)"
proof -
  from refs_pos [OF inv pos] obtain rs where rs: "al_refs al = Some rs" "frame_ok f" "frame_number f < fs_count (al_store al)"
    "length rs = fs_count (al_store al)" "frame_refs al f = rs ! frame_number f" "0 < rs ! frame_number f" "unat f = frame_number f * PAGE_SIZE" .
  let ?al = "al\<lparr>al_refs := Some (rs[frame_number f := rs ! frame_number f + 1])\<rparr>"
  from frame_get_ok [OF inv rs(3,1,6)] show ?thesis
  proof
    assume g: "frame_get al (frame_number f * PAGE_SIZE) = (?al, Ok ()) \<and> refs_inv ?al"
    have "frame_refs ?al = (frame_refs al)(f := rs ! frame_number f + 1)"
      using g rs by (intro frame_refs_update [OF inv rs(1)]) simp_all
    then show ?thesis using g rs(5,7) by (simp add: kframes_def avail_frames_def)
  qed (simp add: kframes_def rs(5,7))
qed

lemma kframes_refcount:
  assumes "refs_inv al" "0 < frame_refs al f"
  shows "fo_refcount kframes f al = Some (frame_refs al f)"
  using assms(2) by (auto simp: kframes_def frame_refs_def split: if_splits option.splits)

lemma kframes_refcount_none:
  assumes "frame_ok f" "frame_refs al f = 0"
  shows "fo_refcount kframes f al = None \<or> fo_refcount kframes f al = Some 0"
  using assms by (auto simp: kframes_def frame_refs_def split: option.splits)

interpretation kf: frame_source kframes refs_inv avail_frames frame_refs "2 ^ 16 - 1"
proof (unfold_locales, goal_cases)
  case (1 a f)
  then show ?case by (simp add: avail_frames_def)
next
  case (2 a)
  obtain al' r where r: "fo_alloc kframes a = Some (al', r)" "refs_inv al'"
    "case r of None \<Rightarrow> avail_frames al' = avail_frames a \<and> avail_frames a = {} \<and> frame_refs al' = frame_refs a
     | Some f \<Rightarrow> f \<in> avail_frames a \<and> avail_frames al' = avail_frames a - {f} \<and> frame_refs al' = (frame_refs a)(f := 1)"
    using kframes_alloc [OF 2] by blast
  then show ?case by (intro exI [of _ al'] exI [of _ r]) (auto split: option.splits)
next
  case (3 a f)
  then show ?case by (rule avail_no_refs)
next
  case (4 a f)
  then show ?case using refs_pos by blast
next
  case (5 a a' r)
  then show ?case using kframes_alloc [OF 5(1)] by (auto split: option.splits)
next
  case (6 a f)
  then show ?case by (rule kframes_free)
next
  case (7 a f)
  then show ?case by (rule kframes_get)
next
  case (8 a f)
  then show ?case by (rule kframes_refcount)
next
  case (9 a f)
  then show ?case by (intro kframes_refcount_none)
qed

end
