(* ===== verification/PageSpace.thy ===== *)
theory PageSpace
  imports FrameSource
begin

text \<open>
  The private half of a page-table root over any frame source: adding a table,
  undoing it, mapping and unmapping a page. The lemmas stand in the locale of
  the frame source; the properties of address spaces are built from them.
\<close>

definition user_entry_ok :: "w64 \<Rightarrow> bool" where
  "user_entry_ok e \<longleftrightarrow> e = 0 \<or> (\<exists>f. frame_ok f \<and> e = f OR USER_TABLE)"

lemma user_entry_zero [simp]: "user_entry_ok 0"
  by (simp add: user_entry_ok_def)

lemma user_entry_table: "user_entry_ok e \<Longrightarrow> is_table e \<longleftrightarrow> e \<noteq> 0"
  using user_entry(1) by (auto simp: user_entry_ok_def)

lemma user_entry_bits: "user_entry_ok e \<Longrightarrow> \<not> bit e 7" "user_entry_ok e \<Longrightarrow> bit e 0 \<longleftrightarrow> e \<noteq> 0"
  using user_entry(3,4) by (auto simp: user_entry_ok_def)

text \<open>A root whose private tables have one reference each, and only entries the mapping code writes.\<close>

definition user_tree :: "(w64 \<Rightarrow> nat) \<Rightarrow> pmem \<Rightarrow> w64 \<Rightarrow> bool" where
  "user_tree R M r \<longleftrightarrow> tree 256 M r \<and> (\<forall>p t. tm 256 M r p = Some t \<longrightarrow> R t = 1)
     \<and> (\<forall>p t i. tm 256 M r p = Some t \<longrightarrow> vpath 256 (i # p) \<longrightarrow> user_entry_ok (M t i))"

lemma user_treeD:
  assumes "user_tree R M r"
  shows "tree 256 M r" "tm 256 M r p = Some t \<Longrightarrow> R t = 1"
    "tm 256 M r p = Some t \<Longrightarrow> vpath 256 (i # p) \<Longrightarrow> user_entry_ok (M t i)"
  using assms unfolding user_tree_def by blast+

lemma user_tree_child:
  assumes "user_tree R M r" "tm 256 M r p = Some t" "vpath 256 (i # p)"
  shows "tm 256 M r (i # p) = (if M t i = 0 then None else Some (entry_frame (M t i)))"
  using assms user_entry_table [OF user_treeD(3) [OF assms]] by (simp add: tm_Cons)

lemma user_tree_cong:
  assumes "user_tree R M r" "\<And>p t. tm 256 M r p = Some t \<Longrightarrow> M' t = M t" "\<And>t. R t = 1 \<Longrightarrow> R' t = 1"
  shows "user_tree R' M' r" "tm 256 M' r = tm 256 M r"
proof -
  show "tm 256 M' r = tm 256 M r" using assms(2) by (rule tm_same)
  then show "user_tree R' M' r" using assms unfolding user_tree_def tree_def by simp
qed

text \<open>A new empty table.\<close>

lemma user_tree_link:
  assumes us: "user_tree R M r" and t: "tm 256 M r p = Some t" and v: "vpath 256 (i # p)"
    and zero: "M t i = 0" and f: "frame_ok f" "R f = 0"
  defines "M' \<equiv> put t i (f OR USER_TABLE) (M(f := (\<lambda>_. 0)))"
  shows "tm 256 M' r = (tm 256 M r)(i # p \<mapsto> f)" "user_tree (R(f := 1)) M' r"
proof -
  note u = user_treeD [OF us]
  have nf: "tm 256 M r q \<noteq> Some f" for q using u(2) [of q f] f(2) by auto
  have ft: "f \<noteq> t" using nf t by auto
  let ?M = "M(f := (\<lambda>_. 0))"
  have T0: "tm 256 ?M r = tm 256 M r" by (rule tm_same) (use nf in auto)
  have tr0: "tree 256 ?M r" using u(1) by (simp add: tree_def T0)
  have T': "tm 256 M' r = (tm 256 M r)(i # p \<mapsto> f)"
    unfolding M'_def using tm_put_link [OF tr0, of p t i "f OR USER_TABLE"] t v zero ft nf user_entry [OF f(1)]
    by (simp add: T0)
  then show "tm 256 M' r = (tm 256 M r)(i # p \<mapsto> f)" .
  have tr': "tree 256 M' r" by (rule tree_map_update [OF u(1) T']) (use nf in auto)
  have "user_entry_ok (M' a j)" if a: "tm 256 M' r q = Some a" and vq: "vpath 256 (j # q)" for q a j
  proof (cases "q = i # p")
    case True
    then have "a = f" using a T' by simp
    then show ?thesis using ft by (simp add: M'_def put_other)
  next
    case False
    then have a0: "tm 256 M r q = Some a" using a T' by simp
    then have af: "a \<noteq> f" using nf by auto
    show ?thesis
    proof (cases "a = t \<and> j = i")
      case True
      then show ?thesis using f(1) by (auto simp: M'_def put_apply user_entry_ok_def)
    next
      case False
      then have "M' a j = M a j" using af by (auto simp: M'_def put_apply)
      then show ?thesis using u(3) [OF a0 vq] by simp
    qed
  qed
  moreover have "(R(f := 1)) a = 1" if "tm 256 M' r q = Some a" for q a
    using that u(2) [of q a] by (auto simp: T' split: if_splits)
  ultimately show "user_tree (R(f := 1)) M' r" using tr' by (auto simp: user_tree_def)
qed

text \<open>An empty table taken out.\<close>

lemma user_tree_unlink:
  assumes us: "user_tree R M r" and t: "tm 256 M r p = Some t" and f: "tm 256 M r (i # p) = Some f"
    and empty: "\<And>j. j < 512 \<Longrightarrow> \<not> bit (M f j) 0"
  defines "M' \<equiv> put t i 0 M"
  shows "tm 256 M' r = (tm 256 M r)(i # p := None)" "user_tree (R(f := 0)) M' r"
proof -
  note u = user_treeD [OF us]
  have T': "tm 256 M' r = (tm 256 M r)(i # p := None)"
    unfolding M'_def by (rule tm_put_unlink [OF u(1) t f]) (use empty in \<open>auto simp: is_table_def\<close>)
  then show "tm 256 M' r = (tm 256 M r)(i # p := None)" .
  have tr': "tree 256 M' r" by (rule tree_map_delete [OF u(1) T'])
  have a0: "tm 256 M r q = Some a" "a \<noteq> f" if "tm 256 M' r q = Some a" for q a
    using that treeD [OF u(1) f, of q] by (auto simp: T' split: if_splits)
  have "user_entry_ok (M' a j)" if a: "tm 256 M' r q = Some a" and vq: "vpath 256 (j # q)" for q a j
    using u(3) [OF a0(1) [OF a] vq] by (auto simp: M'_def put_apply)
  moreover have "(R(f := 0)) a = 1" if "tm 256 M' r q = Some a" for q a
    using u(2) [OF a0(1) [OF that]] a0(2) [OF that] by simp
  ultimately show "user_tree (R(f := 0)) M' r" using tr' unfolding user_tree_def by blast
qed

text \<open>A write to a leaf.\<close>

lemma user_tree_leaf:
  assumes us: "user_tree R M r" and t: "tm 256 M r p = Some t" and l: "length p = 3"
  shows "tm 256 (put t i e M) r = tm 256 M r" "user_tree R (put t i e M) r"
    "ent 256 (put t i e M) r = (ent 256 M r)(i # p := e)"
proof -
  note u = user_treeD [OF us]
  have nv: "\<not> vpath 256 (i # p)" using l by (simp add: vpath_def)
  show T: "tm 256 (put t i e M) r = tm 256 M r" by (rule tm_put_keep [OF u(1) t]) (use nv in simp)
  show "ent 256 (put t i e M) r = (ent 256 M r)(i # p := e)" by (rule ent_put [OF u(1) t T])
  have "user_entry_ok (put t i e M a j)" if a: "tm 256 M r q = Some a" and v: "vpath 256 (j # q)" for q a j
  proof -
    have "\<not> (a = t \<and> j = i)" using treeD [OF u(1) t, of q] a v nv by auto
    then have "put t i e M a j = M a j" by (auto simp: put_apply)
    then show ?thesis using u(3) [OF a v] by simp
  qed
  then show "user_tree R (put t i e M) r" using u unfolding user_tree_def tree_def T by blast
qed

section \<open>Indices of an address\<close>

definition va_path :: "w64 \<Rightarrow> nat list" where
  "va_path va = (case table_indices va of (i4, i3, i2, i1) \<Rightarrow> [i1, i2, i3, i4])"

definition user_page :: "w64 \<Rightarrow> bool" where
  "user_page va \<longleftrightarrow> page_aligned va \<and> va < 2 ^ 47"

lemma index_lt: "unat (w AND 0x1ff) < 512" for w :: w64
proof -
  have "w AND 0x1ff \<le> 0x1ff" by (rule word_and_le1)
  then have "unat (w AND 0x1ff) \<le> unat (0x1ff :: w64)" by (simp add: word_le_nat_alt)
  then show ?thesis by simp
qed

lemma index_bits: "n < 9 \<Longrightarrow> bit (drop_bit k va AND 0x1ff) n = bit va (n + k)" for va :: w64
proof -
  have m: "(0x1ff :: w64) = mask 9" by (simp add: mask_eq_exp_minus_1)
  assume "n < 9"
  then show ?thesis unfolding m by (simp add: bit_and_iff bit_drop_bit_eq bit_mask_iff add.commute)
qed

lemma page_aligned_bits: "page_aligned va \<longleftrightarrow> (\<forall>n < 12. \<not> bit va n)"
proof -
  have m: "(of_nat PAGE_SIZE - 1 :: w64) = mask 12" by (simp add: PAGE_SIZE_def mask_eq_exp_minus_1)
  have "page_aligned va \<longleftrightarrow> take_bit 12 va = 0" unfolding page_aligned_def m by (simp add: take_bit_eq_mask)
  also have "\<dots> \<longleftrightarrow> (\<forall>n < 12. \<not> bit va n)" by (auto simp: bit_eq_iff bit_take_bit_iff)
  finally show ?thesis .
qed

lemma user_bits: "va < 2 ^ 47 \<Longrightarrow> bit va n \<Longrightarrow> n < 47" for va :: w64
proof -
  assume lt: "va < 2 ^ 47" and b: "bit va n"
  have "unat va < unat (2 ^ 47 :: w64)" using lt by (simp only: word_less_nat_alt)
  then have "unat va < 2 ^ 47" by simp
  then have "take_bit 47 (unat va) = unat va" by (simp add: take_bit_nat_eq_self)
  then have "take_bit 47 va = va" by (metis unsigned_take_bit_eq unsigned_word_eqI)
  then show ?thesis using b by (metis bit_take_bit_iff)
qed

lemma indices_lt:
  assumes "table_indices va = (i4, i3, i2, i1)"
  shows "i4 < 512" "i3 < 512" "i2 < 512" "i1 < 512"
  using assms index_lt by (auto simp: table_indices_def)

lemma indices_user:
  assumes "table_indices va = (i4, i3, i2, i1)" "va < 2 ^ 47"
  shows "i4 < 256"
proof -
  have "bit (drop_bit 39 va AND 0x1ff) n \<Longrightarrow> n < 8" for n
  proof -
    assume b: "bit (drop_bit 39 va AND 0x1ff) n"
    then have "bit va (39 + n)" by (simp add: bit_and_iff bit_drop_bit_eq)
    then show "n < 8" using user_bits [OF assms(2), of "39 + n"] by simp
  qed
  then have "take_bit 8 (drop_bit 39 va AND 0x1ff) = drop_bit 39 va AND 0x1ff" by (intro bit_eqI) (simp only: bit_take_bit_iff, blast)
  then have "take_bit 8 (unat (drop_bit 39 va AND 0x1ff)) = unat (drop_bit 39 va AND 0x1ff)" by (metis unsigned_take_bit_eq)
  then have "unat (drop_bit 39 va AND 0x1ff) < 2 ^ 8" by (simp only: take_bit_nat_eq_self_iff)
  then show ?thesis using assms(1) by (simp add: table_indices_def)
qed

lemma user_vpath:
  assumes "table_indices va = (i4, i3, i2, i1)" "va < 2 ^ 47"
  shows "vpath 256 [i4]" "vpath 256 [i3, i4]" "vpath 256 [i2, i3, i4]"
  using indices_lt [OF assms(1)] indices_user [OF assms] by (auto simp: vpath_def)

text \<open>A page has its own path.\<close>

lemma va_path_inj:
  assumes "user_page va" "user_page vb" "va_path va = va_path vb"
  shows "va = vb"
proof (rule bit_eqI)
  fix n :: nat
  have idx: "drop_bit k va AND 0x1ff = drop_bit k vb AND 0x1ff" if "k \<in> {12, 21, 30, 39}" for k
    using assms(3) that by (auto simp: va_path_def table_indices_def word_unat_eq_iff)
  have b: "bit va (m + k) = bit vb (m + k)" if "k \<in> {12, 21, 30, 39}" "m < 9" for k m
    using idx [OF that(1)] index_bits [OF that(2), of k] by metis
  consider "n < 12" | "12 \<le> n" "n < 21" | "21 \<le> n" "n < 30" | "30 \<le> n" "n < 39" | "39 \<le> n" "n < 48" | "48 \<le> n" by linarith
  then show "bit va n = bit vb n"
  proof cases
    case 1
    then show ?thesis using assms(1,2) by (simp add: user_page_def page_aligned_bits)
  next
    case 2 then show ?thesis using b [of 12 "n - 12"] by simp
  next
    case 3 then show ?thesis using b [of 21 "n - 21"] by simp
  next
    case 4 then show ?thesis using b [of 30 "n - 30"] by simp
  next
    case 5 then show ?thesis using b [of 39 "n - 39"] by simp
  next
    case 6 then show ?thesis using user_bits [of va n] user_bits [of vb n] assms(1,2) by (auto simp: user_page_def)
  qed
qed

section \<open>Adding and undoing tables\<close>

context frame_source
begin

abbreviation R :: "'a pt_state \<Rightarrow> w64 \<Rightarrow> nat" where
  "R s \<equiv> refs (pt_fr s)"

abbreviation A :: "'a pt_state \<Rightarrow> w64 set" where
  "A s \<equiv> avail (pt_fr s)"

abbreviation T :: "'a pt_state \<Rightarrow> w64 \<Rightarrow> nat list \<Rightarrow> w64 option" where
  "T s r \<equiv> tm 256 (pt_mem s) r"

abbreviation uspace :: "'a pt_state \<Rightarrow> w64 \<Rightarrow> bool" where
  "uspace s r \<equiv> src s \<and> user_tree (R s) (pt_mem s) r"

lemma table_in_use: "uspace s r \<Longrightarrow> T s r p = Some t \<Longrightarrow> t \<notin> A s"
  using user_treeD(2) avail_refs sourced_good by fastforce

lemma ensure_ok:
  assumes us: "uspace s r" and t: "T s r p = Some t" and v: "vpath 256 (i # p)"
  shows "\<exists>s' x. ensure_table F t i s = Some (s', x) \<and> uspace s' r \<and> statics_same s s'
    \<and> (case x of
         None \<Rightarrow> pt_mem s' = pt_mem s \<and> A s = {} \<and> A s' = A s \<and> R s' = R s
       | Some c \<Rightarrow> if c then T s r (i # p) = None \<and> pt_mem s t i = 0
             \<and> (\<exists>f \<in> A s. frame_ok f \<and> T s' r = (T s r)(i # p \<mapsto> f) \<and> R s' = (R s)(f := 1) \<and> A s' = A s - {f}
                  \<and> pt_mem s' = put t i (f OR USER_TABLE) ((pt_mem s)(f := (\<lambda>_. 0))))
           else s' = s \<and> T s r (i # p) = Some (entry_frame (pt_mem s t i)))"
proof (cases "bit (pt_mem s t i) 0")
  case True
  then have "pt_mem s t i \<noteq> 0" by auto
  then have "T s r (i # p) = Some (entry_frame (pt_mem s t i))"
    using user_tree_child [OF _ t v] us by auto
  then show ?thesis using True us by (simp add: ensure_table_def)
next
  case False
  have ue: "user_entry_ok (pt_mem s t i)" using us user_treeD(3) [OF _ t v] by blast
  then have zero: "pt_mem s t i = 0" using False user_entry_bits(2) by blast
  obtain s1 x where x: "alloc_table F s = Some (s1, x)" "src s1" "statics_same s s1"
    "case x of None \<Rightarrow> pt_mem s1 = pt_mem s \<and> A s = {} \<and> A s1 = A s \<and> R s1 = R s
       | Some f \<Rightarrow> f \<in> A s \<and> frame_ok f \<and> R s f = 0 \<and> A s1 = A s - {f} \<and> R s1 = (R s)(f := 1)
           \<and> pt_mem s1 = (pt_mem s)(f := (\<lambda>_. 0))"
    using alloc_table_source [of s] us by blast
  show ?thesis
  proof (cases x)
    case None
    then show ?thesis using x us False by (simp add: ensure_table_def)
  next
    case (Some f)
    then have f: "f \<in> A s" "frame_ok f" "R s f = 0" "A s1 = A s - {f}" "R s1 = (R s)(f := 1)"
      "pt_mem s1 = (pt_mem s)(f := (\<lambda>_. 0))" using x(4) by auto
    let ?s = "set_entry t i (f OR USER_TABLE) s1"
    have ut: "user_tree (R s) (pt_mem s) r" using us by blast
    note l = user_tree_link [OF ut t v zero f(2,3)]
    have mem: "pt_mem ?s = put t i (f OR USER_TABLE) ((pt_mem s)(f := (\<lambda>_. 0)))" using f(6) by simp
    have "uspace ?s r" unfolding mem using l(2) x(2) f(5) by simp
    moreover have "T s r (i # p) = None" using user_tree_child [OF ut t v] zero by simp
    moreover have "ensure_table F t i s = Some (?s, Some True)" using x(1) Some False by (simp add: ensure_table_def)
    moreover have "T ?s r = (T s r)(i # p \<mapsto> f)" unfolding mem by (rule l(1))
    moreover have "R ?s = (R s)(f := 1)" "A ?s = A s - {f}" using f by simp_all
    ultimately show ?thesis using x(3) zero f(1,2) mem
      by (intro exI [of _ ?s] exI [of _ "Some True"]) auto
  qed
qed

lemma ensure_cases:
  assumes "uspace s r" "T s r p = Some t" "vpath 256 (i # p)" "ensure_table F t i s = Some (s', Some c)"
  shows "uspace s' r \<and> statics_same s s' \<and>
    (if c then T s r (i # p) = None \<and> pt_mem s t i = 0
             \<and> (\<exists>f \<in> A s. frame_ok f \<and> T s' r = (T s r)(i # p \<mapsto> f) \<and> R s' = (R s)(f := 1) \<and> A s' = A s - {f}
                  \<and> pt_mem s' = put t i (f OR USER_TABLE) ((pt_mem s)(f := (\<lambda>_. 0))))
     else s' = s \<and> T s r (i # p) = Some (entry_frame (pt_mem s t i)))"
proof -
  obtain s2 x where x: "ensure_table F t i s = Some (s2, x)" "uspace s2 r \<and> statics_same s s2" and
    y: "case x of
         None \<Rightarrow> pt_mem s2 = pt_mem s \<and> A s = {} \<and> A s2 = A s \<and> R s2 = R s
       | Some c \<Rightarrow> if c then T s r (i # p) = None \<and> pt_mem s t i = 0
             \<and> (\<exists>f \<in> A s. frame_ok f \<and> T s2 r = (T s r)(i # p \<mapsto> f) \<and> R s2 = (R s)(f := 1) \<and> A s2 = A s - {f}
                  \<and> pt_mem s2 = put t i (f OR USER_TABLE) ((pt_mem s)(f := (\<lambda>_. 0))))
           else s2 = s \<and> T s r (i # p) = Some (entry_frame (pt_mem s t i))"
    using ensure_ok [OF assms(1-3)] by blast
  have sc: "s2 = s'" "x = Some c" using x(1) assms(4) by simp_all
  show ?thesis using x(2) y unfolding sc option.case by blast
qed

text \<open>A state in which every frame somebody holds is as before.\<close>

definition restored :: "'a pt_state \<Rightarrow> 'a pt_state \<Rightarrow> bool" where
  "restored s s' \<longleftrightarrow> src s' \<and> statics_same s s' \<and> R s' = R s \<and> A s' = A s \<and> (\<forall>u. u \<notin> A s \<longrightarrow> pt_mem s' u = pt_mem s u)"

lemma restored_refl: "src s \<Longrightarrow> restored s s"
  by (simp add: restored_def)

lemma restored_space:
  assumes "uspace s r" "restored s s'"
  shows "uspace s' r" "T s' r = T s r" "ent 256 (pt_mem s') r = ent 256 (pt_mem s) r"
proof -
  have m: "pt_mem s' t = pt_mem s t" if "T s r p = Some t" for p t
    using assms table_in_use [OF assms(1) that] by (simp add: restored_def)
  have ut: "user_tree (R s) (pt_mem s) r" using assms(1) by blast
  have R: "R s' = R s" using assms(2) by (simp add: restored_def)
  show "uspace s' r" using user_tree_cong(1) [OF ut m, where R' = "R s'"] assms(2) R by (simp add: restored_def)
  show T: "T s' r = T s r" using user_tree_cong(2) [OF ut m, where R' = "R s'"] R by simp
  show "ent 256 (pt_mem s') r = ent 256 (pt_mem s) r"
  proof
    fix q show "ent 256 (pt_mem s') r q = ent 256 (pt_mem s) r q"
      using m by (cases q) (auto simp: ent_def T split: option.splits)
  qed
qed

lemma undo:
  assumes us: "uspace s r" and t: "T s r p = Some t" and v: "vpath 256 (i # p)"
    and e: "ensure_table F t i s = Some (s', Some c)" and x: "restored s' x"
  shows "\<exists>y. (if c then pt_free_frame F (entry_frame (pt_mem x t i)) (set_entry t i 0 x) else Some x) = Some y \<and> restored s y"
proof (cases c)
  case False
  then have "s' = s" using ensure_cases [OF us t v e] by simp
  then show ?thesis using x False by simp
next
  case True
  obtain f where f: "uspace s' r" "statics_same s s'" "pt_mem s t i = 0" "f \<in> A s" "frame_ok f"
    "T s' r = (T s r)(i # p \<mapsto> f)" "R s' = (R s)(f := 1)" "A s' = A s - {f}"
    "pt_mem s' = put t i (f OR USER_TABLE) ((pt_mem s)(f := (\<lambda>_. 0)))"
    using ensure_cases [OF us t v e] unfolding if_P [OF True] by (elim conjE bexE) (rule that; (assumption | blast))
  have Rf: "R s f = 0" using avail_refs [OF sourced_good f(4)] us by blast
  have tA: "t \<notin> A s" by (rule table_in_use [OF us t])
  then have "t \<noteq> f" using f(4) by auto
  have xm: "pt_mem x u = pt_mem s' u" if "u \<notin> A s'" for u using x that by (simp add: restored_def)
  have en: "entry_frame (pt_mem x t i) = f" using xm [of t] tA f(8,9) user_entry(2) [OF f(5)] by (simp add: put_apply)
  have Rx: "R x = (R s)(f := 1)" "A x = A s - {f}" "statics_same s' x" "src x" using x f(7,8) by (simp_all add: restored_def)
  let ?x = "set_entry t i 0 x"
  have "src ?x" "0 < R ?x f" "A ?x = A x" "R ?x = R x" using Rx by simp_all
  then obtain y where y: "pt_free_frame F f ?x = Some y" "src y" "statics_same ?x y" "pt_mem y = pt_mem ?x"
    "R y = (R x)(f := R x f - 1)" "A y = (if R x f = 1 then insert f (A x) else A x)"
    using free_source [of ?x f] by auto
  have "R y = R s" using y(5) Rx(1) Rf by auto
  moreover have "A y = A s" using y(6) Rx f(4) by auto
  moreover have "pt_mem y u = pt_mem s u" if "u \<notin> A s" for u
  proof (cases "u = t")
    case True
    then show ?thesis using xm [of t] tA f(3,8,9) \<open>t \<noteq> f\<close> by (auto simp: y(4) put_apply fun_eq_iff)
  next
    case False
    moreover have "u \<noteq> f" using that f(4) by auto
    ultimately show ?thesis using xm [of u] that f(8,9) by (simp add: y(4) put_other)
  qed
  moreover have "statics_same s y"
    using statics_trans [OF statics_trans [OF f(2) Rx(3)]] y(3) by (simp add: statics_same_def set_entry_def)
  ultimately have "restored s y" using y(2) by (simp add: restored_def)
  then show ?thesis using y(1) en True by simp
qed

lemma child_frame: "T s r (i # p) = Some f \<Longrightarrow> T s r p = Some t \<Longrightarrow> f = entry_frame (pt_mem s t i)"
  by (simp add: tm_Cons_Some)

lemma ensured_T:
  assumes "uspace s r" "T s r p = Some t" "vpath 256 (i # p)" "ensure_table F t i s = Some (s', Some c)"
  shows "\<exists>f. T s' r = (T s r)(i # p \<mapsto> f) \<and> (T s r (i # p) = None \<or> T s r (i # p) = Some f)"
proof (cases c)
  case True
  then show ?thesis using ensure_cases [OF assms] by (simp only: if_True) blast
next
  case False
  then show ?thesis using ensure_cases [OF assms] by (simp only: if_False) (metis fun_upd_triv)
qed

lemma ensured_keeps:
  assumes "uspace s r" "T s r p = Some t" "vpath 256 (i # p)" "ensure_table F t i s = Some (s', Some c)" "T s r q = Some u"
  shows "T s' r q = Some u"
proof -
  obtain f where f: "T s' r = (T s r)(i # p \<mapsto> f)" "T s r (i # p) = None \<or> T s r (i # p) = Some f"
    using ensured_T [OF assms(1-4)] by blast
  show ?thesis using f(2) assms(5) unfolding f(1) by auto
qed

lemma ensured_child:
  assumes "uspace s r" "T s r p = Some t" "vpath 256 (i # p)" "ensure_table F t i s = Some (s', Some c)"
  shows "uspace s' r" "T s' r p = Some t" "T s' r (i # p) = Some (entry_frame (pt_mem s' t i))"
proof -
  show "uspace s' r" using ensure_cases [OF assms] by blast
  show t: "T s' r p = Some t" by (rule ensured_keeps [OF assms assms(2)])
  obtain f where f: "T s' r = (T s r)(i # p \<mapsto> f)" using ensured_T [OF assms] by blast
  have "T s' r (i # p) = Some f" unfolding f by simp
  then show "T s' r (i # p) = Some (entry_frame (pt_mem s' t i))" using child_frame [OF _ t] by simp
qed

subsection \<open>Rolling back\<close>

lemma rollback_one:
  assumes us: "uspace s r" and ix: "table_indices va = (i4, i3, i2, i1)" and va: "va < 2 ^ 47"
    and e: "ensure_table F r i4 s = Some (s1, Some c1)" and x: "restored s1 x"
  shows "\<exists>y. rollback_tables F r va c1 False False x = Some y \<and> restored s y"
proof -
  have "rollback_tables F r va c1 False False x
      = (if c1 then pt_free_frame F (entry_frame (pt_mem x r i4)) (set_entry r i4 0 x) else Some x)"
    by (simp add: rollback_tables_def ix free_set_entry map_option_case split: option.splits)
  then show ?thesis using undo [OF us _ user_vpath(1) [OF ix va] e x] by simp
qed

lemma rollback_two:
  assumes us: "uspace s r" and ix: "table_indices va = (i4, i3, i2, i1)" and va: "va < 2 ^ 47"
    and e1: "ensure_table F r i4 s = Some (s1, Some c1)"
    and pdpt: "pdpt = entry_frame (pt_mem s1 r i4)" and e2: "ensure_table F pdpt i3 s1 = Some (s2, Some c2)"
    and x: "restored s2 x"
  shows "\<exists>y. rollback_tables F r va c1 c2 False x = Some y \<and> restored s y"
proof -
  note v = user_vpath [OF ix va]
  have 1: "uspace s1 r" "T s1 r [i4] = Some pdpt" using ensured_child [OF us _ v(1) e1] pdpt by auto
  have 2: "uspace s2 r" "T s2 r [i4] = Some pdpt" using ensured_child [OF 1 v(2) e2] by auto
  have px: "entry_frame (pt_mem x r i4) = pdpt"
    using restored_space(2) [OF 2(1) x] 2(2) child_frame [of x r i4 "[]" pdpt r] by simp
  obtain y where y: "(if c2 then pt_free_frame F (entry_frame (pt_mem x pdpt i3)) (set_entry pdpt i3 0 x) else Some x) = Some y" "restored s1 y"
    using undo [OF 1 v(2) e2 x] by blast
  have "rollback_tables F r va c1 c2 False x = rollback_tables F r va c1 False False y"
    using y(1) by (cases c2) (simp_all add: rollback_tables_def ix px)
  then show ?thesis using rollback_one [OF us ix va e1 y(2)] by simp
qed

lemma rollback_three:
  assumes us: "uspace s r" and ix: "table_indices va = (i4, i3, i2, i1)" and va: "va < 2 ^ 47"
    and e1: "ensure_table F r i4 s = Some (s1, Some c1)"
    and pdpt: "pdpt = entry_frame (pt_mem s1 r i4)" and e2: "ensure_table F pdpt i3 s1 = Some (s2, Some c2)"
    and pd: "pd = entry_frame (pt_mem s2 pdpt i3)" and e3: "ensure_table F pd i2 s2 = Some (s3, Some c3)"
    and x: "restored s3 x"
  shows "\<exists>y. rollback_tables F r va c1 c2 c3 x = Some y \<and> restored s y"
proof -
  note v = user_vpath [OF ix va]
  have 1: "uspace s1 r" "T s1 r [i4] = Some pdpt" using ensured_child [OF us _ v(1) e1] pdpt by auto
  have 2: "uspace s2 r" "T s2 r [i4] = Some pdpt" "T s2 r [i3, i4] = Some pd" using ensured_child [OF 1 v(2) e2] pd by auto
  have 3: "uspace s3 r" "T s3 r [i3, i4] = Some pd" using ensured_child [OF 2(1,3) v(3) e3] by auto
  have T: "T x r = T s3 r" by (rule restored_space(2) [OF 3(1) x])
  have q: "T s3 r [i4] = Some pdpt" by (rule ensured_keeps [OF 2(1,3) v(3) e3 2(2)])
  then have px: "entry_frame (pt_mem x r i4) = pdpt" "entry_frame (pt_mem x pdpt i3) = pd"
    using T 3(2) child_frame [of x r i4 "[]" pdpt r] child_frame [of x r i3 "[i4]" pd pdpt] by simp_all
  obtain y where y: "(if c3 then pt_free_frame F (entry_frame (pt_mem x pd i2)) (set_entry pd i2 0 x) else Some x) = Some y" "restored s2 y"
    using undo [OF 2(1,3) v(3) e3 x] by blast
  have "rollback_tables F r va c1 c2 c3 x = rollback_tables F r va c1 c2 False y"
    using y(1) by (cases c3) (simp_all add: rollback_tables_def ix px)
  then show ?thesis using rollback_two [OF us ix va e1 pdpt e2 y(2)] by simp
qed

subsection \<open>Growing the tree\<close>

text \<open>
  What adding tables does: the tree grows by frames that were available, each
  with one reference; the leaves and the memory of everybody else stay.
\<close>

definition grown :: "'a pt_state \<Rightarrow> 'a pt_state \<Rightarrow> w64 \<Rightarrow> bool" where
  "grown s s' r \<longleftrightarrow> statics_same s s' \<and> T s r \<subseteq>\<^sub>m T s' r \<and> ran (T s' r) \<subseteq> ran (T s r) \<union> A s
     \<and> R s' = (\<lambda>t. if t \<in> ran (T s' r) then 1 else R s t) \<and> A s' = A s - ran (T s' r)
     \<and> (\<forall>u. u \<notin> A s \<longrightarrow> u \<notin> ran (T s r) \<longrightarrow> pt_mem s' u = pt_mem s u)
     \<and> (\<forall>q. length q = 4 \<longrightarrow> ent 256 (pt_mem s') r q = ent 256 (pt_mem s) r q)
     \<and> (\<forall>q. bit (ent 256 (pt_mem s) r q) 0 \<longrightarrow> bit (ent 256 (pt_mem s') r q) 0)
     \<and> (\<forall>j \<ge> 256. pt_mem s' r j = pt_mem s r j)"

lemma ran_refs: "uspace s r \<Longrightarrow> t \<in> ran (T s r) \<Longrightarrow> R s t = 1"
  using user_treeD(2) by (auto simp: ran_def)

lemma ran_in_use: "uspace s r \<Longrightarrow> t \<in> ran (T s r) \<Longrightarrow> t \<notin> A s"
  using table_in_use by (auto simp: ran_def)

lemma grown_refl: "uspace s r \<Longrightarrow> grown s s r"
  using ran_refs [of s r] ran_in_use [of s r] unfolding grown_def by (auto simp: fun_eq_iff)

lemma map_le_ran: "m \<subseteq>\<^sub>m m' \<Longrightarrow> ran m \<subseteq> ran m'"
  unfolding ran_def map_le_def by (force simp: dom_def)

lemma grown_trans:
  assumes a: "grown s s' r" and b: "grown s' s'' r"
  shows "grown s s'' r"
proof -
  have ran: "ran (T s' r) \<subseteq> ran (T s'' r)" using b by (intro map_le_ran) (simp add: grown_def)
  have "T s r \<subseteq>\<^sub>m T s'' r" using a b map_le_trans unfolding grown_def by blast
  moreover have "ran (T s'' r) \<subseteq> ran (T s r) \<union> A s" using a b unfolding grown_def by auto
  moreover have "R s'' = (\<lambda>t. if t \<in> ran (T s'' r) then 1 else R s t)"
    using a b ran unfolding grown_def by (auto simp: fun_eq_iff)
  moreover have "A s'' = A s - ran (T s'' r)" using a b ran unfolding grown_def by auto
  moreover have "pt_mem s'' u = pt_mem s u" if u: "u \<notin> A s" "u \<notin> ran (T s r)" for u
  proof -
    have "u \<notin> A s'" "u \<notin> ran (T s' r)" using u a unfolding grown_def by auto
    then show ?thesis using u a b unfolding grown_def by simp
  qed
  moreover have "statics_same s s''" using a b statics_trans unfolding grown_def by blast
  moreover have "ent 256 (pt_mem s'') r q = ent 256 (pt_mem s) r q" if "length q = 4" for q
    using a b that unfolding grown_def by simp
  moreover have "bit (ent 256 (pt_mem s'') r q) 0" if "bit (ent 256 (pt_mem s) r q) 0" for q
    using a b that unfolding grown_def by blast
  moreover have "\<forall>j \<ge> 256. pt_mem s'' r j = pt_mem s r j" using a b unfolding grown_def by simp
  ultimately show ?thesis unfolding grown_def by blast
qed

lemma grown_ensure:
  assumes us: "uspace s r" and t: "T s r p = Some t" and v: "vpath 256 (i # p)"
    and e: "ensure_table F t i s = Some (s', Some c)"
  shows "grown s s' r"
proof (cases c)
  case False
  then have "s' = s" using ensure_cases [OF us t v e] by simp
  then show ?thesis using grown_refl [OF us] by simp
next
  case True
  obtain f where f: "uspace s' r" "statics_same s s'" "T s r (i # p) = None" "pt_mem s t i = 0" "f \<in> A s" "frame_ok f"
    "T s' r = (T s r)(i # p \<mapsto> f)" "R s' = (R s)(f := 1)" "A s' = A s - {f}"
    "pt_mem s' = put t i (f OR USER_TABLE) ((pt_mem s)(f := (\<lambda>_. 0)))"
    using ensure_cases [OF us t v e] unfolding if_P [OF True] by (elim conjE bexE) (rule that; (assumption | blast))
  have tr: "tree 256 (pt_mem s) r" using us user_treeD(1) by blast
  have nf: "f \<notin> ran (T s r)" using ran_in_use [OF us] f(5) by blast
  have rn: "ran (T s' r) = insert f (ran (T s r))" unfolding f(7) using f(3) by (simp add: ran_map_upd)
  have tf: "t \<noteq> f" using nf t by (auto simp: ran_def)
  have entq: "ent 256 (pt_mem s') r (j # q) = ent 256 (pt_mem s) r (j # q)" if n: "j # q \<noteq> i # p" for j q
  proof (cases "q = i # p")
    case True
    then have "ent 256 (pt_mem s) r (j # q) = 0" using f(3) by (simp add: ent_None)
    moreover have "T s' r q = Some f" using True by (simp add: f(7))
    then have "ent 256 (pt_mem s') r (j # q) = pt_mem s' f j" by (rule ent_Some)
    ultimately show ?thesis using tf by (simp add: f(10) put_other)
  next
    case False
    then have Tq: "T s' r q = T s r q" by (simp add: f(7))
    show ?thesis
    proof (cases "T s r q")
      case None
      then show ?thesis using Tq by (simp add: ent_None)
    next
      case (Some u)
      then have "u \<noteq> f" using nf by (auto simp: ran_def)
      moreover have "\<not> (u = t \<and> j = i)" using treeD [OF tr t, of q] Some n by auto
      ultimately have "pt_mem s' u j = pt_mem s u j" by (auto simp: f(10) put_apply)
      then show ?thesis using ent_Some [of 256 "pt_mem s" r q u j] ent_Some [of 256 "pt_mem s'" r q u j] Some Tq by simp
    qed
  qed
  have "T s r \<subseteq>\<^sub>m T s' r" unfolding f(7) using f(3) by (auto simp: map_le_def)
  moreover have "R s' = (\<lambda>x. if x \<in> ran (T s' r) then 1 else R s x)"
    unfolding rn f(8) using ran_refs [OF us] by (auto simp: fun_eq_iff)
  moreover have "A s' = A s - ran (T s' r)" unfolding rn f(9) using ran_in_use [OF us] by auto
  moreover have "pt_mem s' u = pt_mem s u" if "u \<notin> A s" "u \<notin> ran (T s r)" for u
  proof -
    have "u \<noteq> f" "u \<noteq> t" using that f(5) t by (auto simp: ran_def)
    then show ?thesis by (simp add: f(10) put_other)
  qed
  moreover have "ent 256 (pt_mem s') r q = ent 256 (pt_mem s) r q" if "length q = 4" for q
  proof (cases q)
    case (Cons j q')
    have "length (i # p) \<le> 3" using v by (simp add: vpath_def)
    moreover have "length (j # q') = 4" using Cons that by simp
    ultimately have "j # q' \<noteq> i # p" by auto
    then show ?thesis using entq [of j q'] Cons by simp
  qed (use that in simp)
  moreover have "bit (ent 256 (pt_mem s') r q) 0" if b: "bit (ent 256 (pt_mem s) r q) 0" for q
  proof (cases q)
    case (Cons j q')
    have "j # q' \<noteq> i # p"
    proof
      assume "j # q' = i # p"
      then have "ent 256 (pt_mem s) r q = 0" using Cons t f(4) by (simp add: ent_Some)
      then show False using b by simp
    qed
    then show ?thesis using entq [of j q'] Cons b by simp
  qed (use b in \<open>simp add: ent_def\<close>)
  moreover have "ran (T s' r) \<subseteq> ran (T s r) \<union> A s" unfolding rn using f(5) by auto
  moreover have "pt_mem s' r j = pt_mem s r j" if "256 \<le> j" for j
  proof -
    have "T s r [] = Some r" by simp
    then have "r \<noteq> f" using nf ranI by metis
    moreover have "\<not> (r = t \<and> j = i)" using treeD [OF tr t, of "[]"] v that by (auto simp: vpath_def)
    ultimately show ?thesis by (auto simp: f(10) put_apply)
  qed
  ultimately show ?thesis using f(2) unfolding grown_def by blast
qed

subsection \<open>Mapping a page\<close>

lemma ensure_None:
  assumes "uspace s r" "T s r p = Some t" "vpath 256 (i # p)" "ensure_table F t i s = Some (s', None)"
  shows "restored s s'" "A s = {}"
proof -
  obtain s2 x where x: "ensure_table F t i s = Some (s2, x)" "uspace s2 r \<and> statics_same s s2" and
    y: "case x of
         None \<Rightarrow> pt_mem s2 = pt_mem s \<and> A s = {} \<and> A s2 = A s \<and> R s2 = R s
       | Some c \<Rightarrow> if c then T s r (i # p) = None \<and> pt_mem s t i = 0
             \<and> (\<exists>f \<in> A s. frame_ok f \<and> T s2 r = (T s r)(i # p \<mapsto> f) \<and> R s2 = (R s)(f := 1) \<and> A s2 = A s - {f}
                  \<and> pt_mem s2 = put t i (f OR USER_TABLE) ((pt_mem s)(f := (\<lambda>_. 0))))
           else s2 = s \<and> T s r (i # p) = Some (entry_frame (pt_mem s t i))"
    using ensure_ok [OF assms(1-3)] by blast
  have sc: "s2 = s'" "x = None" using x(1) assms(4) by simp_all
  show "restored s s'" "A s = {}" using x(2) y unfolding sc option.case restored_def by simp_all
qed

lemma ensure_total:
  assumes "uspace s r" "T s r p = Some t" "vpath 256 (i # p)"
  obtains s' where "ensure_table F t i s = Some (s', None)" | s' c where "ensure_table F t i s = Some (s', Some c)"
proof -
  obtain s' x where "ensure_table F t i s = Some (s', x)" using ensure_ok [OF assms] by blast
  then show thesis using that by (cases x) simp_all
qed

text \<open>The state a successful walk of \<open>map_page_in_root\<close> has reached before it writes the leaf.\<close>

definition reached :: "'a pt_state \<Rightarrow> 'a pt_state \<Rightarrow> w64 \<Rightarrow> w64 \<Rightarrow> w64 \<Rightarrow> bool" where
  "reached s s' r va pt \<longleftrightarrow> uspace s' r \<and> grown s s' r \<and> T s' r (tl (va_path va)) = Some pt
     \<and> (\<forall>q. T s' r q \<noteq> None \<longrightarrow> T s r q = None \<longrightarrow> (\<exists>k \<in> {1, 2, 3}. q = drop k (va_path va)))"

lemma ensured_avail:
  assumes "uspace s r" "T s r p = Some t" "vpath 256 (i # p)" "ensure_table F t i s = Some (s', Some c)"
  shows "\<exists>f. A s \<subseteq> insert f (A s')"
proof (cases c)
  case True
  then show ?thesis using ensure_cases [OF assms] unfolding if_P [OF True] by blast
next
  case False
  then show ?thesis using ensure_cases [OF assms] unfolding if_not_P [OF False] by blast
qed

lemma ensured_new:
  assumes "uspace s r" "T s r p = Some t" "vpath 256 (i # p)" "ensure_table F t i s = Some (s', Some c)" "T s' r q \<noteq> None"
  shows "T s r q \<noteq> None \<or> q = i # p"
proof -
  obtain f where f: "T s' r = (T s r)(i # p \<mapsto> f)" using ensured_T [OF assms(1-4)] by blast
  show ?thesis using assms(5) unfolding f by (auto split: if_splits)
qed

lemma no_huge:
  assumes "uspace x r" "T x r p = Some t" "vpath 256 (i # p)"
  shows "\<not> has (pt_mem x t i) HUGE"
proof -
  have "user_entry_ok (pt_mem x t i)" using user_treeD(3) [OF _ assms(2,3)] assms(1) by blast
  then show ?thesis using user_entry_bits(1) by simp
qed

definition map_failed :: "'a pt_state \<Rightarrow> 'a pt_state \<Rightarrow> w64 \<Rightarrow> w64 \<Rightarrow> AddressSpaceError \<Rightarrow> bool" where
  "map_failed s s' r va e \<longleftrightarrow> restored s s'
     \<and> (e = AS_OutOfFrames \<and> (\<exists>a b. A s \<subseteq> {a, b}) \<or> e = AS_AlreadyMapped \<and> bit (ent 256 (pt_mem s) r (va_path va)) 0)"

lemma map_page_in_root_ok:
  assumes us: "uspace s r" and va: "va < 2 ^ 47"
  shows "\<exists>s' x. map_page_in_root F r va physical flags s = Some (s', x)
    \<and> (case x of
         Err e \<Rightarrow> map_failed s s' r va e
       | Ok _ \<Rightarrow> \<not> bit (ent 256 (pt_mem s) r (va_path va)) 0
           \<and> (\<exists>s3 pt. reached s s3 r va pt \<and> s' = set_entry pt (hd (va_path va)) (physical OR flags) s3))"
proof -
  obtain i4 i3 i2 i1 where ix: "table_indices va = (i4, i3, i2, i1)" by (metis prod_cases4)
  note v = user_vpath [OF ix va]
  have path: "va_path va = [i1, i2, i3, i4]" by (simp add: va_path_def ix)
  have T0: "T s r [] = Some r" by simp
  show ?thesis
  proof (rule ensure_total [OF us T0 v(1)])
    fix s1
    assume e: "ensure_table F r i4 s = Some (s1, None)"
    have "map_failed s s1 r va AS_OutOfFrames" using ensure_None [OF us T0 v(1) e] by (auto simp: map_failed_def)
    then show ?thesis using e by (simp add: map_page_in_root_def ix)
  next
    fix s1 c1
    assume e1: "ensure_table F r i4 s = Some (s1, Some c1)"
    define pdpt where "pdpt = entry_frame (pt_mem s1 r i4)"
    have 1: "uspace s1 r" "T s1 r [i4] = Some pdpt" using ensured_child [OF us T0 v(1) e1] by (simp_all add: pdpt_def)
    obtain f1 where f1: "A s \<subseteq> insert f1 (A s1)" using ensured_avail [OF us T0 v(1) e1] by blast
    note h1 = no_huge [OF 1 v(2)]
    have map1: "map_page_in_root F r va physical flags s =
        do { (s, x) \<leftarrow> ensure_table F pdpt i3 s1;
             case x of None \<Rightarrow> do { s \<leftarrow> rollback_tables F r va c1 False False s; Some (s, Err AS_OutOfFrames) }
             | Some c2 \<Rightarrow>
               (let pd = entry_frame (pt_mem s pdpt i3) in
                if has (pt_mem s pd i2) HUGE then
                  do { s \<leftarrow> rollback_tables F r va c1 c2 False s; Some (s, Err AS_HugePage) }
                else
                do { (s, x) \<leftarrow> ensure_table F pd i2 s;
                     case x of None \<Rightarrow> do { s \<leftarrow> rollback_tables F r va c1 c2 False s; Some (s, Err AS_OutOfFrames) }
                     | Some c3 \<Rightarrow>
                       (let pt = entry_frame (pt_mem s pd i2) in
                        if has (pt_mem s pt i1) PRESENT then
                          do { s \<leftarrow> rollback_tables F r va c1 c2 c3 s; Some (s, Err AS_AlreadyMapped) }
                        else Some (set_entry pt i1 (physical OR flags) s, Ok ())) }) }"
      unfolding map_page_in_root_def ix e1 prod.case bind.bind_lunit option.case Let_def pdpt_def [symmetric] if_not_P [OF h1] ..
    show ?thesis
    proof (rule ensure_total [OF 1 v(2)])
      fix s2
      assume e: "ensure_table F pdpt i3 s1 = Some (s2, None)"
      obtain y where y: "rollback_tables F r va c1 False False s2 = Some y" "restored s y"
        using rollback_one [OF us ix va e1 ensure_None(1) [OF 1 v(2) e]] by blast
      have "A s \<subseteq> {f1, f1}" using f1 ensure_None(2) [OF 1 v(2) e] by simp
      then have "map_failed s y r va AS_OutOfFrames" using y(2) unfolding map_failed_def by blast
      then show ?thesis using e y(1) unfolding map1 by simp
    next
      fix s2 c2
      assume e2: "ensure_table F pdpt i3 s1 = Some (s2, Some c2)"
      define pd where "pd = entry_frame (pt_mem s2 pdpt i3)"
      have 2: "uspace s2 r" "T s2 r [i3, i4] = Some pd" using ensured_child [OF 1 v(2) e2] by (simp_all add: pd_def)
      obtain f2 where f2: "A s1 \<subseteq> insert f2 (A s2)" using ensured_avail [OF 1 v(2) e2] by blast
      note h2 = no_huge [OF 2 v(3)]
      have map2: "map_page_in_root F r va physical flags s =
        do { (s, x) \<leftarrow> ensure_table F pd i2 s2;
             case x of None \<Rightarrow> do { s \<leftarrow> rollback_tables F r va c1 c2 False s; Some (s, Err AS_OutOfFrames) }
             | Some c3 \<Rightarrow>
               (let pt = entry_frame (pt_mem s pd i2) in
                if has (pt_mem s pt i1) PRESENT then
                  do { s \<leftarrow> rollback_tables F r va c1 c2 c3 s; Some (s, Err AS_AlreadyMapped) }
                else Some (set_entry pt i1 (physical OR flags) s, Ok ())) }"
        unfolding map1 e2 prod.case bind.bind_lunit option.case Let_def pd_def [symmetric] if_not_P [OF h2] ..
      show ?thesis
      proof (rule ensure_total [OF 2 v(3)])
        fix s3
        assume e: "ensure_table F pd i2 s2 = Some (s3, None)"
        obtain y where y: "rollback_tables F r va c1 c2 False s3 = Some y" "restored s y"
          using rollback_two [OF us ix va e1 pdpt_def e2 ensure_None(1) [OF 2 v(3) e]] by blast
        have "A s \<subseteq> {f1, f2}" using f1 f2 ensure_None(2) [OF 2 v(3) e] by auto
        then have "map_failed s y r va AS_OutOfFrames" using y(2) unfolding map_failed_def by blast
        then show ?thesis using e y(1) unfolding map2 by simp
      next
        fix s3 c3
        assume e3: "ensure_table F pd i2 s2 = Some (s3, Some c3)"
        define pt where "pt = entry_frame (pt_mem s3 pd i2)"
        have 3: "uspace s3 r" "T s3 r [i2, i3, i4] = Some pt" using ensured_child [OF 2 v(3) e3] by (simp_all add: pt_def)
        have g: "grown s s3 r"
          using grown_trans [OF grown_trans [OF grown_ensure [OF us T0 v(1) e1] grown_ensure [OF 1 v(2) e2]] grown_ensure [OF 2 v(3) e3]] .
        have new: "\<exists>k \<in> {1, 2, 3}. q = drop k (va_path va)" if "T s3 r q \<noteq> None" "T s r q = None" for q
          using ensured_new [OF us T0 v(1) e1, of q] ensured_new [OF 1 v(2) e2, of q] ensured_new [OF 2 v(3) e3, of q] that
          unfolding path by auto
        have leaf: "pt_mem s3 pt i1 = ent 256 (pt_mem s) r (va_path va)"
        proof -
          have "ent 256 (pt_mem s3) r [i1, i2, i3, i4] = pt_mem s3 pt i1" using 3(2) by (rule ent_Some)
          then show ?thesis using g unfolding grown_def path by simp
        qed
        show ?thesis
        proof (cases "bit (pt_mem s3 pt i1) 0")
          case True
          obtain y where y: "rollback_tables F r va c1 c2 c3 s3 = Some y" "restored s y"
            using rollback_three [OF us ix va e1 pdpt_def e2 pd_def e3 restored_refl] 3(1) by blast
          then have "map_failed s y r va AS_AlreadyMapped" using True leaf unfolding map_failed_def by simp
          then show ?thesis using e3 y(1) True unfolding map2 by (simp add: Let_def pt_def)
        next
          case False
          have "reached s s3 r va pt" using 3 g new by (simp add: reached_def path)
          then show ?thesis using e3 False leaf unfolding map2 by (auto simp: Let_def pt_def [symmetric] path)
        qed
      qed
    qed
  qed
qed

end

end
