(* ===== verification/PageMap.thy ===== *)
theory PageMap
  imports PageSpace
begin

text \<open>
  What mapping and unmapping a page do to the leaves, the tables and the frames
  of a private half: the library behind the operations of address spaces.
\<close>

text \<open>No table below the root is empty.\<close>

definition full_but :: "nat list \<Rightarrow> pmem \<Rightarrow> w64 \<Rightarrow> bool" where
  "full_but p M r \<longleftrightarrow>
     (\<forall>q. tm 256 M r q \<noteq> None \<longrightarrow> q \<noteq> [] \<longrightarrow> q \<noteq> p \<longrightarrow> (\<exists>j < 512. bit (ent 256 M r (j # q)) 0))"

abbreviation full :: "pmem \<Rightarrow> w64 \<Rightarrow> bool" where
  "full M r \<equiv> full_but [] M r"

lemma fullD: "full_but p M r \<Longrightarrow> tm 256 M r q \<noteq> None \<Longrightarrow> q \<noteq> [] \<Longrightarrow> q \<noteq> p \<Longrightarrow> \<exists>j < 512. bit (ent 256 M r (j # q)) 0"
  unfolding full_but_def by blast

lemma table_empty_iff: "table_empty t \<longleftrightarrow> (\<forall>j < 512. \<not> bit (t j) 0)"
  by (auto simp: table_empty_def list_all_iff)

lemma va_path_parts:
  assumes "table_indices va = (i4, i3, i2, i1)"
  shows "va_path va = [i1, i2, i3, i4]" "length (va_path va) = 4" "hd (va_path va) = i1" "tl (va_path va) = [i2, i3, i4]"
  by (simp_all add: va_path_def assms)

lemma va_path_length [simp]: "length (va_path va) = 4"
  by (simp add: va_path_def split: prod.splits)

lemma va_path_Cons: "va_path va = hd (va_path va) # tl (va_path va)"
  by (simp add: va_path_def split: prod.splits)

text \<open>What a page is mapped to.\<close>

definition leaf :: "pmem \<Rightarrow> w64 \<Rightarrow> nat list \<Rightarrow> w64 option" where
  "leaf M r q = (if bit (ent 256 M r q) 0 then Some (ent 256 M r q) else None)"

definition lpath :: "nat list \<Rightarrow> bool" where
  "lpath q \<longleftrightarrow> length q = 4 \<and> hd q < 512"

lemma leaf_None: "tm 256 M r p = None \<Longrightarrow> leaf M r (i # p) = None"
  by (simp add: leaf_def ent_None)

lemma leaf_Some: "tm 256 M r p = Some t \<Longrightarrow> leaf M r (i # p) = (if bit (M t i) 0 then Some (M t i) else None)"
  by (simp add: leaf_def ent_Some)

lemma lpath_va [simp]: "lpath (va_path va)"
  using index_lt by (auto simp: lpath_def va_path_def table_indices_def)

context frame_source
begin

section \<open>Mapping\<close>

text \<open>The effect of a successful map: exactly one leaf, tables where there were none.\<close>

definition mapped :: "'a pt_state \<Rightarrow> 'a pt_state \<Rightarrow> w64 \<Rightarrow> w64 \<Rightarrow> w64 \<Rightarrow> bool" where
  "mapped s s' r va e \<longleftrightarrow> uspace s' r \<and> statics_same s s' \<and> ran (T s r) \<subseteq> ran (T s' r) \<and> ran (T s' r) \<subseteq> ran (T s r) \<union> A s
     \<and> R s' = (\<lambda>t. if t \<in> ran (T s' r) then 1 else R s t) \<and> A s' = A s - ran (T s' r)
     \<and> (\<forall>u. u \<notin> A s \<longrightarrow> u \<notin> ran (T s r) \<longrightarrow> pt_mem s' u = pt_mem s u)
     \<and> (\<forall>q. length q = 4 \<longrightarrow> ent 256 (pt_mem s') r q = (if q = va_path va then e else ent 256 (pt_mem s) r q))
     \<and> (full (pt_mem s) r \<longrightarrow> bit e 0 \<longrightarrow> full (pt_mem s') r)
     \<and> (\<forall>j \<ge> 256. pt_mem s' r j = pt_mem s r j) \<and> card (A s - A s') \<le> 3"

lemma reached_frames:
  assumes us: "uspace s r" and re: "reached s s3 r va pt"
  shows "card (A s - A s3) \<le> 3"
proof -
  let ?new = "(\<lambda>k. the (T s3 r (drop k (va_path va)))) ` {1, 2, 3 :: nat}"
  have g: "grown s s3 r" using re by (simp add: reached_def)
  have "A s - A s3 \<subseteq> ?new"
  proof
    fix t assume "t \<in> A s - A s3"
    then have t: "t \<in> A s" "t \<in> ran (T s3 r)" using g by (auto simp: grown_def)
    then obtain q where q: "T s3 r q = Some t" by (auto simp: ran_def)
    have "T s r q = None"
    proof (rule ccontr)
      assume "T s r q \<noteq> None"
      then have "T s r q = Some t" using g q by (auto simp: grown_def map_le_def dom_def)
      then show False using table_in_use [OF us] t(1) by blast
    qed
    then obtain k where "k \<in> {1, 2, 3}" "q = drop k (va_path va)" using re q unfolding reached_def by blast
    then show "t \<in> ?new" using q by force
  qed
  then have "card (A s - A s3) \<le> card ?new" by (intro card_mono) auto
  also have "\<dots> \<le> card {1, 2, 3 :: nat}" by (rule card_image_le) simp
  finally show ?thesis by simp
qed

lemma reached_full:
  assumes re: "reached s s3 r va pt" and fl: "full (pt_mem s) r" and e: "bit e 0"
    and en: "ent 256 M' r = (ent 256 (pt_mem s3) r)(va_path va := e)" and T': "tm 256 M' r = T s3 r"
  shows "full M' r"
  unfolding full_but_def
proof (intro allI impI)
  fix q
  assume q: "tm 256 M' r q \<noteq> None" "q \<noteq> []"
  obtain i4 i3 i2 i1 where ix: "table_indices va = (i4, i3, i2, i1)" by (metis prod_cases4)
  note il = indices_lt [OF ix] and path = va_path_parts(1) [OF ix]
  have us: "uspace s3 r" and g: "grown s s3 r" and pt: "T s3 r [i2, i3, i4] = Some pt" using re by (auto simp: reached_def path)
  have ut: "user_tree (R s3) (pt_mem s3) r" using us by blast
  have up: "bit (ent 256 (pt_mem s3) r (i # p)) 0" if c: "T s3 r (i # p) = Some f" for i p f
    using c by (auto simp: tm_Cons_Some ent_Some is_table_def)
  have keep: "bit (ent 256 M' r x) 0" if "bit (ent 256 (pt_mem s3) r x) 0" for x using that e by (simp add: en)
  have p3: "T s3 r [i3, i4] \<noteq> None" using pt by (auto simp: tm_Cons_Some)
  show "\<exists>j < 512. bit (ent 256 M' r (j # q)) 0"
  proof (cases "T s r q = None")
    case False
    then obtain j where "j < 512" "bit (ent 256 (pt_mem s) r (j # q)) 0" using fullD [OF fl] q(2) by blast
    then show ?thesis using g keep [of "j # q"] unfolding grown_def by blast
  next
    case True
    then obtain k where "k \<in> {1, 2, 3}" "q = drop k (va_path va)" using re q(1) unfolding reached_def T' by blast
    then have "q = [i2, i3, i4] \<or> q = [i3, i4] \<or> q = [i4]" by (auto simp: path)
    then show ?thesis
    proof (elim disjE)
      assume "q = [i2, i3, i4]"
      then show ?thesis using il e by (intro exI [of _ i1]) (simp add: en path)
    next
      assume "q = [i3, i4]"
      then show ?thesis using il keep [OF up [OF pt]] by blast
    next
      assume "q = [i4]"
      then show ?thesis using il p3 keep [OF up [of i3 "[i4]"]] by blast
    qed
  qed
qed

lemma mapped_reached:
  assumes us0: "uspace s r" and re: "reached s s3 r va pt"
  shows "mapped s (set_entry pt (hd (va_path va)) e s3) r va e"
proof -
  let ?s = "set_entry pt (hd (va_path va)) e s3"
  have us: "uspace s3 r" and g: "grown s s3 r" and pt: "T s3 r (tl (va_path va)) = Some pt" using re by (auto simp: reached_def)
  have ut: "user_tree (R s3) (pt_mem s3) r" using us by blast
  have len: "length (tl (va_path va)) = 3" by simp
  have eT: "T ?s r = T s3 r" "user_tree (R s3) (pt_mem ?s) r"
    "ent 256 (pt_mem ?s) r = (ent 256 (pt_mem s3) r)(va_path va := e)"
    using user_tree_leaf [OF ut pt len, of "hd (va_path va)" e] va_path_Cons [of va] by simp_all
  have pr: "pt \<in> ran (T s3 r)" using pt by (auto simp: ran_def)
  have mem: "pt_mem ?s u = pt_mem s u" if "u \<notin> A s" "u \<notin> ran (T s r)" for u
  proof -
    have "u \<noteq> pt" using that g pr unfolding grown_def by auto
    then show ?thesis using that g unfolding grown_def by (simp add: put_other)
  qed
  show ?thesis unfolding mapped_def eT(1)
  proof (intro conjI)
    show "ran (T s r) \<subseteq> ran (T s3 r)" using g map_le_ran unfolding grown_def by blast
    show "full (pt_mem s) r \<longrightarrow> bit e 0 \<longrightarrow> full (pt_mem ?s) r" using reached_full [OF re _ _ eT(3,1)] by blast
    show "\<forall>q. length q = 4 \<longrightarrow> ent 256 (pt_mem ?s) r q = (if q = va_path va then e else ent 256 (pt_mem s) r q)"
      using g unfolding eT(3) grown_def by simp
    have "tl (va_path va) \<noteq> []" using len by (metis list.size(3) zero_neq_numeral)
    then have "pt \<noteq> r" using treeD [OF user_treeD(1) [OF ut] pt, of "[]"] by auto
    then show "\<forall>j \<ge> 256. pt_mem ?s r j = pt_mem s r j" using g unfolding grown_def by (simp add: put_other)
    show "card (A s - A ?s) \<le> 3" using reached_frames [OF us0 re] by simp
  qed (use us eT(2) g mem in \<open>simp_all add: grown_def\<close>)
qed

lemma map_cases:
  assumes "uspace s r" "va < 2 ^ 47"
  obtains s' e where "map_page_in_root F r va physical flags s = Some (s', Err e)" "map_failed s s' r va e"
  | s' where "map_page_in_root F r va physical flags s = Some (s', Ok ())" "\<not> bit (ent 256 (pt_mem s) r (va_path va)) 0"
      "mapped s s' r va (physical OR flags)"
proof -
  obtain s' x where x: "map_page_in_root F r va physical flags s = Some (s', x)"
    "case x of Err e \<Rightarrow> map_failed s s' r va e
       | Ok _ \<Rightarrow> \<not> bit (ent 256 (pt_mem s) r (va_path va)) 0
           \<and> (\<exists>s3 pt. reached s s3 r va pt \<and> s' = set_entry pt (hd (va_path va)) (physical OR flags) s3)"
    using map_page_in_root_ok [OF assms] by blast
  show thesis
  proof (cases x)
    case (Ok u)
    then show thesis using x that(2) mapped_reached [OF assms(1)] by auto
  next
    case (Err e)
    then show thesis using x that(1) by auto
  qed
qed

section \<open>Unmapping\<close>

text \<open>The effect of taking tables out: their frames become available; leaves and other memory stay.\<close>

definition shrunk :: "'a pt_state \<Rightarrow> 'a pt_state \<Rightarrow> w64 \<Rightarrow> bool" where
  "shrunk s s' r \<longleftrightarrow> uspace s' r \<and> statics_same s s' \<and> ran (T s' r) \<subseteq> ran (T s r)
     \<and> R s' = (\<lambda>t. if t \<in> ran (T s r) - ran (T s' r) then 0 else R s t) \<and> A s' = A s \<union> (ran (T s r) - ran (T s' r))
     \<and> (\<forall>u. u \<notin> ran (T s r) \<longrightarrow> pt_mem s' u = pt_mem s u)
     \<and> (\<forall>q. lpath q \<longrightarrow> leaf (pt_mem s') r q = leaf (pt_mem s) r q)
     \<and> (\<forall>j \<ge> 256. pt_mem s' r j = pt_mem s r j)"

lemma shrunk_refl: "uspace s r \<Longrightarrow> shrunk s s r"
  unfolding shrunk_def by auto

lemma shrunk_trans:
  assumes "shrunk s s' r" "shrunk s' s'' r"
  shows "shrunk s s'' r"
proof -
  note d = assms [unfolded shrunk_def]
  have "R s'' = (\<lambda>t. if t \<in> ran (T s r) - ran (T s'' r) then 0 else R s t)" using d by (auto simp: fun_eq_iff)
  moreover have "A s'' = A s \<union> (ran (T s r) - ran (T s'' r))" using d by auto
  moreover have "statics_same s s''" using d statics_trans by blast
  moreover have "pt_mem s'' u = pt_mem s u" if "u \<notin> ran (T s r)" for u using d that by (metis subsetD)
  moreover have "ran (T s'' r) \<subseteq> ran (T s r)" using d by blast
  moreover have "leaf (pt_mem s'') r q = leaf (pt_mem s) r q" if "lpath q" for q using d that by simp
  moreover have "\<forall>j \<ge> 256. pt_mem s'' r j = pt_mem s r j" using d by simp
  ultimately show ?thesis using d unfolding shrunk_def by blast
qed

lemma prune:
  assumes us: "uspace s r" and t: "T s r p = Some t" and f: "T s r (i # p) = Some f" and empty: "table_empty (pt_mem s f)"
    and fl: "full_but (i # p) (pt_mem s) r"
  shows "\<exists>s'. pt_free_frame F f (set_entry t i 0 s) = Some s' \<and> shrunk s s' r \<and> full_but p (pt_mem s') r
    \<and> T s' r = (T s r)(i # p := None) \<and> pt_mem s' = put t i 0 (pt_mem s)"
proof -
  have ut: "user_tree (R s) (pt_mem s) r" and tr: "tree 256 (pt_mem s) r" using us user_treeD(1) by blast+
  have em: "\<And>j. j < 512 \<Longrightarrow> \<not> bit (pt_mem s f j) 0" using empty by (simp add: table_empty_iff)
  have Rf: "R s f = 1" using user_treeD(2) [OF ut f] .
  note u = user_tree_unlink [OF ut t f em]
  let ?x = "set_entry t i 0 s"
  have "src ?x" "0 < R ?x f" using us Rf by simp_all
  then obtain s' where s': "pt_free_frame F f ?x = Some s'" "src s'" "statics_same ?x s'" "pt_mem s' = put t i 0 (pt_mem s)"
    "R s' = (R s)(f := 0)" "A s' = insert f (A s)"
    using free_source [of ?x f] Rf by auto
  have us': "uspace s' r" using u(2) s'(2,4,5) by simp
  have T': "T s' r = (T s r)(i # p := None)" unfolding s'(4) by (rule u(1))
  have rn: "ran (T s' r) = ran (T s r) - {f}"
  proof -
    have "ran (T s' r) \<subseteq> ran (T s r) - {f}"
      unfolding T' using treeD [OF tr f] by (auto simp: ran_def split: if_splits)
    moreover have "x \<in> ran (T s' r)" if "x \<in> ran (T s r) - {f}" for x
    proof -
      obtain q where q: "T s r q = Some x" using \<open>x \<in> ran (T s r) - {f}\<close> by (auto simp: ran_def)
      then have "q \<noteq> i # p" using that f by auto
      then have "T s' r q = Some x" using q by (simp add: T')
      then show ?thesis by (rule ranI)
    qed
    ultimately show ?thesis by blast
  qed
  have fr: "f \<in> ran (T s r)" "t \<in> ran (T s r)" using f t by (auto simp: ran_def)
  have entq: "ent 256 (pt_mem s') r (j # q) = (if q = i # p then 0 else if j # q = i # p then 0 else ent 256 (pt_mem s) r (j # q))" for j q
  proof (cases "q = i # p")
    case False
    then have Tq: "T s' r q = T s r q" by (simp add: T')
    show ?thesis
    proof (cases "T s r q")
      case None
      then show ?thesis using Tq False by (simp add: ent_None)
    next
      case (Some w)
      have "put t i 0 (pt_mem s) w j = (if j # q = i # p then 0 else pt_mem s w j)"
        using treeD [OF tr t, of q] Some t by (auto simp: put_apply)
      then show ?thesis using Tq False Some ent_Some [of 256 "pt_mem s" r q w j] ent_Some [of 256 "pt_mem s'" r q w j] s'(4) by simp
    qed
  qed (simp add: T' ent_None)
  have "statics_same s s'" using s'(3) by (simp add: statics_same_def set_entry_def)
  moreover have "pt_mem s' w = pt_mem s w" if "w \<notin> ran (T s r)" for w
  proof -
    have "w \<noteq> t" using that fr(2) by blast
    then show ?thesis by (simp add: s'(4) put_other)
  qed
  moreover have "leaf (pt_mem s') r q = leaf (pt_mem s) r q" if lq: "lpath q" for q
  proof (cases q)
    case (Cons j q')
    have "length (i # p) \<le> 3" using tm_vpath [OF f] by (simp add: vpath_def)
    then have n: "j # q' \<noteq> i # p" using Cons lq by (auto simp: lpath_def)
    show ?thesis
    proof (cases "q' = i # p")
      case True
      have "ent 256 (pt_mem s) r q = pt_mem s f j" unfolding Cons True using f by (rule ent_Some)
      then show ?thesis using entq [of j q'] Cons True em [of j] lq by (simp add: leaf_def lpath_def)
    next
      case False
      have "ent 256 (pt_mem s') r (j # q') = ent 256 (pt_mem s) r (j # q')"
        unfolding entq if_not_P [OF False] if_not_P [OF n] ..
      then show ?thesis using Cons by (simp add: leaf_def)
    qed
  qed (use lq in \<open>simp add: lpath_def\<close>)
  moreover have "pt_mem s' r j = pt_mem s r j" if "256 \<le> j" for j
  proof -
    have "\<not> (r = t \<and> j = i)" using treeD [OF tr t, of "[]"] tm_vpath [OF f] that by (auto simp: vpath_def)
    then show ?thesis by (auto simp: s'(4) put_apply)
  qed
  ultimately have "shrunk s s' r" unfolding shrunk_def rn using us' s'(5,6) fr by auto
  moreover have "full_but p (pt_mem s') r"
    unfolding full_but_def
  proof (intro allI impI)
    fix q
    assume q: "T s' r q \<noteq> None" "q \<noteq> []" "q \<noteq> p"
    then have q': "T s r q \<noteq> None" "q \<noteq> i # p" by (auto simp: T' split: if_splits)
    obtain j where "j < 512" "bit (ent 256 (pt_mem s) r (j # q)) 0" using fullD [OF fl q'(1) q(2) q'(2)] by blast
    then show "\<exists>j < 512. bit (ent 256 (pt_mem s') r (j # q)) 0" using entq [of j q] q' q(3) by auto
  qed
  ultimately show ?thesis using s'(1,4) T' by blast
qed

lemma not_empty_full:
  assumes "T s r p = Some t" "\<not> table_empty (pt_mem s t)" "full_but p (pt_mem s) r"
  shows "full (pt_mem s) r"
  unfolding full_but_def
proof (intro allI impI)
  fix q
  assume q: "T s r q \<noteq> None" "q \<noteq> []"
  show "\<exists>j < 512. bit (ent 256 (pt_mem s) r (j # q)) 0"
  proof (cases "q = p")
    case True
    then show ?thesis using assms(1,2) by (auto simp: table_empty_iff ent_Some)
  next
    case False
    then show ?thesis using fullD [OF assms(3) q] by blast
  qed
qed

text \<open>The cascade that frees the tables a removed leaf leaves empty.\<close>

lemma prune_one:
  assumes us: "uspace s r" and t: "T s r [i4] = Some pdpt" and fl: "full_but [i4] (pt_mem s) r"
  shows "\<exists>s'. (if table_empty (pt_mem s pdpt) then do { s \<leftarrow> pt_free_frame F pdpt s; Some (set_entry r i4 0 s) } else Some s) = Some s'
    \<and> shrunk s s' r \<and> full (pt_mem s') r"
proof (cases "table_empty (pt_mem s pdpt)")
  case True
  have "do { s \<leftarrow> pt_free_frame F pdpt s; Some (set_entry r i4 0 s) } = pt_free_frame F pdpt (set_entry r i4 0 s)"
    unfolding free_set_entry by (cases "pt_free_frame F pdpt s") simp_all
  moreover obtain s' where "pt_free_frame F pdpt (set_entry r i4 0 s) = Some s'" "shrunk s s' r" "full (pt_mem s') r"
    using prune [OF us _ t True fl, of r] by auto
  ultimately show ?thesis using True by simp
next
  case False
  then show ?thesis using shrunk_refl [OF us] not_empty_full [OF t False fl] by simp
qed

lemma prune_two:
  assumes us: "uspace s r" and t: "T s r [i4] = Some pdpt" and u: "T s r [i3, i4] = Some pd" and fl: "full_but [i3, i4] (pt_mem s) r"
  shows "\<exists>s'. (if table_empty (pt_mem s pd) then
          do { s \<leftarrow> pt_free_frame F pd s;
               let s = set_entry pdpt i3 0 s in
               if table_empty (pt_mem s pdpt) then do { s \<leftarrow> pt_free_frame F pdpt s; Some (set_entry r i4 0 s) } else Some s }
        else Some s) = Some s'
    \<and> shrunk s s' r \<and> full (pt_mem s') r"
proof (cases "table_empty (pt_mem s pd)")
  case True
  obtain s1 where s1: "pt_free_frame F pd (set_entry pdpt i3 0 s) = Some s1" "shrunk s s1 r" "full_but [i4] (pt_mem s1) r"
    "T s1 r = (T s r)([i3, i4] := None)"
    using prune [OF us t u True fl] by blast
  have t1: "T s1 r [i4] = Some pdpt" using t by (simp add: s1(4))
  have us1: "uspace s1 r" using s1(2) unfolding shrunk_def by blast
  obtain s2 where s2: "(if table_empty (pt_mem s1 pdpt) then do { s \<leftarrow> pt_free_frame F pdpt s1; Some (set_entry r i4 0 s) } else Some s1) = Some s2"
    "shrunk s1 s2 r" "full (pt_mem s2) r" using prune_one [OF us1 t1 s1(3)] by blast
  obtain x where x: "pt_free_frame F pd s = Some x" "set_entry pdpt i3 0 x = s1"
    using s1(1) unfolding free_set_entry by auto
  show ?thesis unfolding if_P [OF True] x(1) bind.bind_lunit Let_def x(2)
    using s2(1) [unfolded Let_def] s2(3) shrunk_trans [OF s1(2) s2(2)] by blast
next
  case False
  then show ?thesis using shrunk_refl [OF us] not_empty_full [OF u False fl] by simp
qed

lemma prune_three:
  assumes us: "uspace s r" and t: "T s r [i4] = Some pdpt" and u: "T s r [i3, i4] = Some pd" and w: "T s r [i2, i3, i4] = Some pt"
    and fl: "full_but [i2, i3, i4] (pt_mem s) r"
  shows "\<exists>s'. (if table_empty (pt_mem s pt) then
          do { s \<leftarrow> pt_free_frame F pt s;
               let s = set_entry pd i2 0 s in
               if table_empty (pt_mem s pd) then
                 do { s \<leftarrow> pt_free_frame F pd s;
                      let s = set_entry pdpt i3 0 s in
                      if table_empty (pt_mem s pdpt) then do { s \<leftarrow> pt_free_frame F pdpt s; Some (set_entry r i4 0 s) } else Some s }
               else Some s }
        else Some s) = Some s'
    \<and> shrunk s s' r \<and> full (pt_mem s') r"
proof (cases "table_empty (pt_mem s pt)")
  case True
  obtain s1 where s1: "pt_free_frame F pt (set_entry pd i2 0 s) = Some s1" "shrunk s s1 r" "full_but [i3, i4] (pt_mem s1) r"
    "T s1 r = (T s r)([i2, i3, i4] := None)"
    using prune [OF us u w True fl] by blast
  have t1: "T s1 r [i4] = Some pdpt" "T s1 r [i3, i4] = Some pd" using t u by (simp_all add: s1(4))
  have us1: "uspace s1 r" using s1(2) unfolding shrunk_def by blast
  obtain s2 where s2: "(if table_empty (pt_mem s1 pd) then
          do { s \<leftarrow> pt_free_frame F pd s1;
               let s = set_entry pdpt i3 0 s in
               if table_empty (pt_mem s pdpt) then do { s \<leftarrow> pt_free_frame F pdpt s; Some (set_entry r i4 0 s) } else Some s }
        else Some s1) = Some s2"
    "shrunk s1 s2 r" "full (pt_mem s2) r" using prune_two [OF us1 t1 s1(3)] by blast
  obtain x where x: "pt_free_frame F pt s = Some x" "set_entry pd i2 0 x = s1"
    using s1(1) unfolding free_set_entry by auto
  show ?thesis unfolding if_P [OF True] x(1) bind.bind_lunit Let_def x(2)
    using s2(1) [unfolded Let_def] s2(3) shrunk_trans [OF s1(2) s2(2)] by blast
next
  case False
  then show ?thesis using shrunk_refl [OF us] not_empty_full [OF w False fl] by simp
qed

lemma table_from_entry_user:
  assumes us: "uspace s r" and t: "T s r p = Some t" and v: "vpath 256 (i # p)"
  shows "table_from_entry (pt_mem s t i) = (case T s r (i # p) of None \<Rightarrow> Err AS_NotMapped | Some f \<Rightarrow> Ok f)"
proof -
  have ut: "user_tree (R s) (pt_mem s) r" using us by blast
  have ue: "user_entry_ok (pt_mem s t i)" using user_treeD(3) [OF ut t v] .
  show ?thesis using user_tree_child [OF ut t v] user_entry_bits [OF ue] by (auto simp: table_from_entry_def)
qed

lemma walk_tables_user:
  assumes us: "uspace s r" and ix: "table_indices va = (i4, i3, i2, i1)" and va: "va < 2 ^ 47"
  shows "walk_tables r va s = (case T s r [i2, i3, i4] of None \<Rightarrow> Err AS_NotMapped
    | Some pt \<Rightarrow> Ok (the (T s r [i4]), the (T s r [i3, i4]), pt))"
proof -
  note v = user_vpath [OF ix va]
  have T0: "T s r [] = Some r" by simp
  show ?thesis
  proof (cases "T s r [i4]")
    case None
    then have "T s r [i3, i4] = None" "T s r [i2, i3, i4] = None" by (simp_all add: tm_Cons [of _ _ _ i3] tm_Cons [of _ _ _ i2])
    then show ?thesis using table_from_entry_user [OF us T0 v(1)] None by (simp add: walk_tables_def ix)
  next
    case p: (Some pdpt)
    show ?thesis
    proof (cases "T s r [i3, i4]")
      case None
      then have "T s r [i2, i3, i4] = None" by (simp add: tm_Cons [of _ _ _ i2])
      then show ?thesis using table_from_entry_user [OF us T0 v(1)] table_from_entry_user [OF us p v(2)] p None
        by (simp add: walk_tables_def ix)
    next
      case q: (Some pd)
      show ?thesis using table_from_entry_user [OF us T0 v(1)] table_from_entry_user [OF us p v(2)]
          table_from_entry_user [OF us q v(3)] p q by (cases "T s r [i2, i3, i4]") (simp_all add: walk_tables_def ix)
    qed
  qed
qed

text \<open>The effect of removing a leaf.\<close>

definition unmapped :: "'a pt_state \<Rightarrow> 'a pt_state \<Rightarrow> w64 \<Rightarrow> w64 \<Rightarrow> bool" where
  "unmapped s s' r va \<longleftrightarrow> uspace s' r \<and> full (pt_mem s') r \<and> statics_same s s' \<and> ran (T s' r) \<subseteq> ran (T s r)
     \<and> R s' = (\<lambda>t. if t \<in> ran (T s r) - ran (T s' r) then 0 else R s t) \<and> A s' = A s \<union> (ran (T s r) - ran (T s' r))
     \<and> (\<forall>u. u \<notin> ran (T s r) \<longrightarrow> pt_mem s' u = pt_mem s u)
     \<and> (\<forall>q. lpath q \<longrightarrow> leaf (pt_mem s') r q = (if q = va_path va then None else leaf (pt_mem s) r q))
     \<and> (\<forall>j \<ge> 256. pt_mem s' r j = pt_mem s r j)"

lemma clear_leaf:
  assumes us: "uspace s r" and fl: "full (pt_mem s) r" and t: "T s r p = Some t" and l: "length p = 3"
    and s'_def: "s' = set_entry t i 0 s"
  shows "uspace s' r" "T s' r = T s r" "full_but p (pt_mem s') r"
    "ent 256 (pt_mem s') r = (ent 256 (pt_mem s) r)(i # p := 0)"
proof -
  have ut: "user_tree (R s) (pt_mem s) r" using us by blast
  note ul = user_tree_leaf [OF ut t l, of i 0]
  show "uspace s' r" "T s' r = T s r" using us ul by (simp_all add: s'_def)
  show en: "ent 256 (pt_mem s') r = (ent 256 (pt_mem s) r)(i # p := 0)" using ul(3) by (simp add: s'_def)
  show "full_but p (pt_mem s') r"
    unfolding full_but_def
  proof (intro allI impI)
    fix q
    assume q: "T s' r q \<noteq> None" "q \<noteq> []" "q \<noteq> p"
    then obtain j where "j < 512" "bit (ent 256 (pt_mem s) r (j # q)) 0"
      using fullD [OF fl] ul(1) by (auto simp: s'_def)
    then show "\<exists>j < 512. bit (ent 256 (pt_mem s') r (j # q)) 0" using q(3) by (auto simp: en)
  qed
qed

lemma unmap_cases:
  assumes us: "uspace s r" and fl: "full (pt_mem s) r" and up: "user_page va"
  obtains "unmap_page_in_root F r va s = Some (s, Err AS_NotMapped)" "leaf (pt_mem s) r (va_path va) = None"
  | s' e where "unmap_page_in_root F r va s = Some (s', Ok (entry_frame e))" "leaf (pt_mem s) r (va_path va) = Some e" "unmapped s s' r va"
proof -
  obtain i4 i3 i2 i1 where ix: "table_indices va = (i4, i3, i2, i1)" by (metis prod_cases4)
  have va: "va < 2 ^ 47" using up by (simp add: user_page_def)
  have path: "va_path va = [i1, i2, i3, i4]" by (rule va_path_parts(1) [OF ix])
  have ok: "validate_user_mapping va 0 PF_USER_READ = Ok ()"
    using up by (auto simp: validate_user_mapping_def validate_range_def user_page_def page_aligned_def is_user_def is_writable_def
        is_executable_def PF_USER_READ_def bit_or_iff bit_flags)
  show thesis
  proof (cases "T s r [i2, i3, i4]")
    case None
    then have "walk_tables r va s = Err AS_NotMapped" using walk_tables_user [OF us ix va] by simp
    moreover have "leaf (pt_mem s) r (va_path va) = None" unfolding path using None by (simp add: leaf_def ent_None)
    ultimately show thesis using that(1) ok by (simp add: unmap_page_in_root_def ix)
  next
    case pt: (Some pt)
    then obtain pd where pd: "T s r [i3, i4] = Some pd" by (auto simp: tm_Cons_Some)
    then obtain pdpt where pdpt: "T s r [i4] = Some pdpt" by (auto simp: tm_Cons_Some [of _ _ _ i3])
    have w: "walk_tables r va s = Ok (pdpt, pd, pt)" using walk_tables_user [OF us ix va] pt pd pdpt by simp
    have e: "ent 256 (pt_mem s) r (va_path va) = pt_mem s pt i1" unfolding path by (rule ent_Some [OF pt])
    show thesis
    proof (cases "bit (pt_mem s pt i1) 0")
      case False
      then show thesis using that(1) ok w e by (simp add: unmap_page_in_root_def ix leaf_def)
    next
      case True
      have len: "length [i2, i3, i4] = 3" by simp
      let ?a = "set_entry pt i1 0 s"
      note c = clear_leaf [OF us fl pt len refl, of i1]
      obtain s' where s': "(if table_empty (pt_mem ?a pt) then
          do { s \<leftarrow> pt_free_frame F pt ?a;
               let s = set_entry pd i2 0 s in
               if table_empty (pt_mem s pd) then
                 do { s \<leftarrow> pt_free_frame F pd s;
                      let s = set_entry pdpt i3 0 s in
                      if table_empty (pt_mem s pdpt) then do { s \<leftarrow> pt_free_frame F pdpt s; Some (set_entry r i4 0 s) } else Some s }
               else Some s }
        else Some ?a) = Some s'" "shrunk ?a s' r" "full (pt_mem s') r"
        using prune_three [OF c(1), of i4 pdpt i3 pd i2 pt] pt pd pdpt c(2,3) by auto
      have "unmap_page_in_root F r va s = Some (s', Ok (entry_frame (pt_mem s pt i1)))"
        unfolding unmap_page_in_root_def ok result.case ix w prod.case Let_def
        using True s'(1) [unfolded Let_def] by simp
      moreover have "unmapped s s' r va"
      proof -
        have "leaf (pt_mem s') r q = (if q = va_path va then None else leaf (pt_mem s) r q)" if "lpath q" for q
        proof -
          have "leaf (pt_mem s') r q = leaf (pt_mem ?a) r q" using s'(2) that unfolding shrunk_def by blast
          then show ?thesis unfolding path leaf_def c(4) by simp
        qed
        moreover have "pt_mem s' u = pt_mem s u" if "u \<notin> ran (T s r)" for u
        proof -
          have "u \<noteq> pt" using that pt by (auto simp: ran_def)
          then show ?thesis using s'(2) that unfolding shrunk_def c(2) by (simp add: put_other)
        qed
        moreover have "\<forall>j \<ge> 256. pt_mem s' r j = pt_mem s r j"
        proof -
          have "pt \<noteq> r" using treeD [OF user_treeD(1) [of "R s"] pt, of "[]"] us by auto
          then show ?thesis using s'(2) unfolding shrunk_def by (simp add: put_other)
        qed
        moreover have "statics_same s s'" using s'(2) unfolding shrunk_def by (simp add: statics_same_def set_entry_def)
        ultimately show ?thesis using s'(2,3) unfolding shrunk_def unmapped_def c(2) set_entry_fr by blast
      qed
      ultimately show thesis using that(2) e True by (simp add: leaf_def)
    qed
  qed
qed

end

end
