(* ===== verification/AddressSpace.thy ===== *)
theory AddressSpace
  imports PageTable
begin

text \<open>
  Address spaces of processes (\<open>kernel/src/mm/paging.rs\<close>, \<open>AddressSpace\<close>): a root
  table whose upper half is shared with the kernel and whose lower half is
  private, with the list of the frames it owns and of the device pages it
  borrows. Each operation is one step: \<open>map_owned\<close>, \<open>map_device\<close> and
  \<open>unmap_mapping\<close> take the lock of the space several times, but the lock of the
  registry of spaces is held around them, or the space is not yet registered.
  \<open>room\<close> says whether \<open>try_reserve\<close> finds memory for a list that has to grow.
\<close>

datatype MappingOwnership = Borrowed | Owned

datatype CowResolution = NotCow | Resolved | OutOfMemory

record OwnedMapping =
  om_va :: w64
  om_frame :: w64

record UnmappedMapping =
  un_frame :: w64
  un_ownership :: MappingOwnership
  un_permissions :: w64
  un_cache_attributes :: w64

record AddressSpace =
  as_root :: w64
  as_owned :: "OwnedMapping list"
  as_devices :: "OwnedMapping list"

text \<open>\<open>Drop\<close>: the tables of the lower half, the owned frames, the root.\<close>

definition as_drop :: "'a frame_ops \<Rightarrow> w64 \<Rightarrow> AddressSpace \<Rightarrow> 'a pt_state \<Rightarrow> 'a pt_state option" where
  "as_drop F current_root sp s =
     (if current_root = as_root sp then None
      else do { s \<leftarrow> fold_opt (\<lambda>i s.
                  if has (pt_mem s (as_root sp) i) PRESENT then
                    do { s \<leftarrow> free_table_tree 3 F (entry_frame (pt_mem s (as_root sp) i)) s;
                         Some (set_entry (as_root sp) i 0 s) }
                  else Some s) [0..<256] s;
                s \<leftarrow> fold_opt (\<lambda>m. pt_free_frame F (om_frame m)) (as_owned sp) s;
                pt_free_frame F (as_root sp) s })"

definition as_new :: "'a frame_ops \<Rightarrow> 'a pt_state \<Rightarrow> ('a pt_state \<times> (AddressSpace, AddressSpaceError) result) option" where
  "as_new F s =
     do { (s, r) \<leftarrow> alloc_table F s;
          case r of
            None \<Rightarrow> Some (s, Err AS_OutOfFrames)
          | Some root \<Rightarrow>
              Some (fold (\<lambda>i s. set_entry root i (pt_mem s (pt_pml4 s) i) s) [256..<512] s,
                    Ok \<lparr>as_root = root, as_owned = [], as_devices = []\<rparr>) }"

definition as_map ::
    "'a frame_ops \<Rightarrow> AddressSpace \<Rightarrow> w64 \<Rightarrow> w64 \<Rightarrow> w64 \<Rightarrow> 'a pt_state \<Rightarrow> ('a pt_state \<times> (unit, AddressSpaceError) result) option" where
  "as_map F sp va physical flags s =
     (case validate_user_mapping va physical flags of Err e \<Rightarrow> Some (s, Err e)
      | Ok _ \<Rightarrow> map_page_in_root F (as_root sp) va physical flags s)"

definition as_map_owned ::
    "'a frame_ops \<Rightarrow> bool \<Rightarrow> AddressSpace \<Rightarrow> w64 \<Rightarrow> w64 \<Rightarrow> w64 \<Rightarrow> 'a pt_state
       \<Rightarrow> ('a pt_state \<times> AddressSpace \<times> (unit, AddressSpaceError) result) option" where
  "as_map_owned F room sp va physical flags s =
     (if \<not> room then Some (s, sp, Err AS_OutOfFrames)
      else do { (s, r) \<leftarrow> as_map F sp va physical flags s;
                case r of Err e \<Rightarrow> Some (s, sp, Err e)
                | Ok _ \<Rightarrow> Some (s, sp\<lparr>as_owned := as_owned sp @ [\<lparr>om_va = va, om_frame = physical\<rparr>]\<rparr>, Ok ()) })"

definition as_map_device ::
    "'a frame_ops \<Rightarrow> bool \<Rightarrow> AddressSpace \<Rightarrow> w64 \<Rightarrow> w64 \<Rightarrow> w64 \<Rightarrow> 'a pt_state
       \<Rightarrow> ('a pt_state \<times> AddressSpace \<times> (unit, AddressSpaceError) result) option" where
  "as_map_device F room sp va physical flags s =
     (if \<not> room then Some (s, sp, Err AS_OutOfFrames)
      else do { (s, r) \<leftarrow> as_map F sp va physical flags s;
                case r of Err e \<Rightarrow> Some (s, sp, Err e)
                | Ok _ \<Rightarrow> Some (s, sp\<lparr>as_devices := as_devices sp @ [\<lparr>om_va = va, om_frame = physical\<rparr>]\<rparr>, Ok ()) })"

definition page_entry_inner :: "AddressSpace \<Rightarrow> w64 \<Rightarrow> 'a pt_state \<Rightarrow> (w64, AddressSpaceError) result" where
  "page_entry_inner sp va s =
     (if \<not> page_aligned va then Err AS_Unaligned
      else bind_result (validate_range va) (\<lambda>_.
        bind_result (walk_tables (as_root sp) va s) (\<lambda>(pdpt, pd, pt).
          case table_indices va of (i4, i3, i2, i1) \<Rightarrow>
          if has (pt_mem s pt i1) PRESENT then Ok (pt_mem s pt i1) else Err AS_NotMapped)))"

definition as_query :: "AddressSpace \<Rightarrow> w64 \<Rightarrow> 'a pt_state \<Rightarrow> (w64, AddressSpaceError) result" where
  "as_query sp va s = page_entry_inner sp va s"

definition remove_owned :: "AddressSpace \<Rightarrow> w64 \<Rightarrow> w64 \<Rightarrow> AddressSpace \<times> MappingOwnership" where
  "remove_owned sp va frame =
     (case List.find (\<lambda>i. om_va (as_devices sp ! i) = va) [0..<length (as_devices sp)] of
        Some i \<Rightarrow> (sp\<lparr>as_devices := swap_remove (as_devices sp) i\<rparr>, Borrowed)
      | None \<Rightarrow>
        (case List.find (\<lambda>i. om_va (as_owned sp ! i) = va) [0..<length (as_owned sp)] of
           Some i \<Rightarrow> (sp\<lparr>as_owned := swap_remove (as_owned sp) i\<rparr>,
                      if om_frame (as_owned sp ! i) = frame then Owned else Borrowed)
         | None \<Rightarrow> (sp, Borrowed)))"

definition as_unmap_mapping ::
    "'a frame_ops \<Rightarrow> AddressSpace \<Rightarrow> w64 \<Rightarrow> 'a pt_state
       \<Rightarrow> ('a pt_state \<times> AddressSpace \<times> (UnmappedMapping, AddressSpaceError) result) option" where
  "as_unmap_mapping F sp va s =
     (case page_entry_inner sp va s of Err e \<Rightarrow> Some (s, sp, Err e)
      | Ok entry \<Rightarrow>
        do { (s, r) \<leftarrow> unmap_page_in_root F (as_root sp) va s;
             case r of Err e \<Rightarrow> Some (s, sp, Err e)
             | Ok frame \<Rightarrow>
                (case remove_owned sp va frame of (sp, ownership) \<Rightarrow>
                 Some (s, sp, Ok \<lparr>un_frame = frame, un_ownership = ownership,
                                 un_permissions = entry AND NOT ADDRESS_MASK,
                                 un_cache_attributes = entry AND (PWT OR PCD)\<rparr>)) })"

definition as_map_user_page ::
    "'a frame_ops \<Rightarrow> AddressSpace \<Rightarrow> w64 \<Rightarrow> w64 \<Rightarrow> byte \<Rightarrow> 'a pt_state \<Rightarrow> ('a pt_state \<times> (unit, AddressSpaceError) result) option" where
  "as_map_user_page F sp va physical flags s =
     (if \<not> upf_is_valid flags then Some (s, Err AS_InvalidFlags)
      else as_map F sp va physical (upf_hardware flags) s)"

definition as_unmap_user_page ::
    "'a frame_ops \<Rightarrow> AddressSpace \<Rightarrow> w64 \<Rightarrow> 'a pt_state \<Rightarrow> ('a pt_state \<times> AddressSpace \<times> (w64, AddressSpaceError) result) option" where
  "as_unmap_user_page F sp va s =
     map_option (\<lambda>(s, sp, r). (s, sp, case r of Ok m \<Rightarrow> Ok (un_frame m) | Err e \<Rightarrow> Err e)) (as_unmap_mapping F sp va s)"

text \<open>\<open>leaf_slot\<close>: the table and the index of the leaf entry of a page.\<close>

definition leaf_slot :: "AddressSpace \<Rightarrow> w64 \<Rightarrow> 'a pt_state \<Rightarrow> (w64 \<times> nat, AddressSpaceError) result" where
  "leaf_slot sp va s =
     (case table_indices va of (i4, i3, i2, i1) \<Rightarrow>
      let pdpt_entry = pt_mem s (as_root sp) i4 in
      if \<not> has pdpt_entry PRESENT then Err AS_NotMapped
      else let pd_entry = pt_mem s (entry_frame pdpt_entry) i3 in
      if \<not> has pd_entry PRESENT \<or> has pd_entry HUGE then
        Err (if has pd_entry HUGE then AS_HugePage else AS_NotMapped)
      else let pt_entry = pt_mem s (entry_frame pd_entry) i2 in
      if \<not> has pt_entry PRESENT \<or> has pt_entry HUGE then
        Err (if has pt_entry HUGE then AS_HugePage else AS_NotMapped)
      else if \<not> has (pt_mem s (entry_frame pt_entry) i1) PRESENT then Err AS_NotMapped
      else Ok (entry_frame pt_entry, i1))"

definition unwrap_or :: "'b option \<Rightarrow> 'b \<Rightarrow> 'b" where
  "unwrap_or r d = (case r of None \<Rightarrow> d | Some v \<Rightarrow> v)"

definition set_leaf_flags ::
    "'a frame_ops \<Rightarrow> AddressSpace \<Rightarrow> w64 \<Rightarrow> w64 \<Rightarrow> 'a pt_state \<Rightarrow> 'a pt_state \<times> (unit, AddressSpaceError) result" where
  "set_leaf_flags F sp va flags s =
     (case leaf_slot sp va s of Err e \<Rightarrow> (s, Err e)
      | Ok (t, i) \<Rightarrow>
        let slot = pt_mem s t i; frame = entry_frame slot;
            shared = unwrap_or (fo_refcount F frame (pt_fr s)) 1 > 1;
            flags = (if has flags WRITABLE \<and> shared then (flags AND NOT WRITABLE) OR COPY_ON_WRITE
                     else flags AND NOT COPY_ON_WRITE);
            cache = slot AND (PWT OR PCD OR PAT_4K) in
        (set_entry t i (frame OR flags OR cache) s, Ok ()))"

definition as_protect ::
    "'a frame_ops \<Rightarrow> AddressSpace \<Rightarrow> w64 \<Rightarrow> w64 \<Rightarrow> 'a pt_state \<Rightarrow> 'a pt_state \<times> (unit, AddressSpaceError) result" where
  "as_protect F sp va flags s =
     (case validate_user_mapping va 0 flags of Err e \<Rightarrow> (s, Err e) | Ok _ \<Rightarrow> set_leaf_flags F sp va flags s)"

definition as_protect_inaccessible ::
    "'a frame_ops \<Rightarrow> AddressSpace \<Rightarrow> w64 \<Rightarrow> 'a pt_state \<Rightarrow> 'a pt_state \<times> (unit, AddressSpaceError) result" where
  "as_protect_inaccessible F sp va s =
     (case validate_user_mapping va 0 PF_USER_READ of Err e \<Rightarrow> (s, Err e)
      | Ok _ \<Rightarrow> set_leaf_flags F sp va (PRESENT OR NO_EXECUTE) s)"

text \<open>
  \<open>fork_cow\<close>. The loops return the child's list with the error that ended them,
  and whether the error path hands that list to the child before it is dropped:
  the early returns of \<open>leaf_slot\<close> and \<open>frame_get\<close> do not.
\<close>

primrec fork_owned ::
    "'a frame_ops \<Rightarrow> AddressSpace \<Rightarrow> AddressSpace \<Rightarrow> OwnedMapping list \<Rightarrow> OwnedMapping list \<Rightarrow> 'a pt_state
       \<Rightarrow> ('a pt_state \<times> OwnedMapping list \<times> (unit, bool \<times> AddressSpaceError) result) option" where
  "fork_owned F sp child [] child_owned s = Some (s, child_owned, Ok ())"
| "fork_owned F sp child (m # ms) child_owned s =
     (case leaf_slot sp (om_va m) s of Err e \<Rightarrow> Some (s, child_owned, Err (False, e))
      | Ok (t, i) \<Rightarrow>
        let entry = pt_mem s t i; flags = entry AND NOT ADDRESS_MASK;
            cow = (flags AND NOT WRITABLE) OR COPY_ON_WRITE;
            (flags, s) = (if has flags WRITABLE then (cow, set_entry t i ((entry AND ADDRESS_MASK) OR cow) s) else (flags, s)) in
        (case fo_get F (om_frame m) (pt_fr s) of
           (a, False) \<Rightarrow> Some (s\<lparr>pt_fr := a\<rparr>, child_owned, Err (False, AS_OutOfFrames))
         | (a, True) \<Rightarrow>
           do { (s, r) \<leftarrow> map_page_in_root F (as_root child) (om_va m) (om_frame m) flags (s\<lparr>pt_fr := a\<rparr>);
                case r of
                  Err e \<Rightarrow> do { s \<leftarrow> pt_free_frame F (om_frame m) s; Some (s, child_owned, Err (True, e)) }
                | Ok _ \<Rightarrow> fork_owned F sp child ms (child_owned @ [m]) s }))"

primrec fork_devices ::
    "'a frame_ops \<Rightarrow> AddressSpace \<Rightarrow> AddressSpace \<Rightarrow> OwnedMapping list \<Rightarrow> OwnedMapping list \<Rightarrow> 'a pt_state
       \<Rightarrow> ('a pt_state \<times> OwnedMapping list \<times> (unit, bool \<times> AddressSpaceError) result) option" where
  "fork_devices F sp child [] child_devices s = Some (s, child_devices, Ok ())"
| "fork_devices F sp child (m # ms) child_devices s =
     (case leaf_slot sp (om_va m) s of Err e \<Rightarrow> Some (s, child_devices, Err (False, e))
      | Ok (t, i) \<Rightarrow>
        do { (s, r) \<leftarrow> map_page_in_root F (as_root child) (om_va m) (om_frame m) (pt_mem s t i AND NOT ADDRESS_MASK) s;
             case r of
               Err e \<Rightarrow> Some (s, child_devices, Err (True, e))
             | Ok _ \<Rightarrow> fork_devices F sp child ms (child_devices @ [m]) s })"

definition fork_fail ::
    "'a frame_ops \<Rightarrow> w64 \<Rightarrow> AddressSpace \<Rightarrow> AddressSpaceError \<Rightarrow> 'a pt_state
       \<Rightarrow> ('a pt_state \<times> (AddressSpace, AddressSpaceError) result) option" where
  "fork_fail F current_root child e s = do { s \<leftarrow> as_drop F current_root child s; Some (s, Err e) }"

definition try_reserve :: "bool \<Rightarrow> 'b list \<Rightarrow> bool" where
  "try_reserve room xs \<longleftrightarrow> room \<or> xs = []"

definition fork_cow ::
    "'a frame_ops \<Rightarrow> bool \<Rightarrow> bool \<Rightarrow> w64 \<Rightarrow> AddressSpace \<Rightarrow> 'a pt_state
       \<Rightarrow> ('a pt_state \<times> (AddressSpace, AddressSpaceError) result) option" where
  "fork_cow F room_owned room_devices current_root sp s =
     do { (s, r) \<leftarrow> as_new F s;
          case r of Err e \<Rightarrow> Some (s, Err e)
          | Ok child \<Rightarrow>
            if \<not> try_reserve room_owned (as_owned sp) then fork_fail F current_root child AS_OutOfFrames s
            else
            do { (s, child_owned, r) \<leftarrow> fork_owned F sp child (as_owned sp) [] s;
                 case r of
                   Err (False, e) \<Rightarrow> fork_fail F current_root child e s
                 | Err (True, e) \<Rightarrow> fork_fail F current_root (child\<lparr>as_owned := child_owned\<rparr>) e s
                 | Ok _ \<Rightarrow>
                   if \<not> try_reserve room_devices (as_devices sp) then fork_fail F current_root child AS_OutOfFrames s
                   else
                   do { (s, child_devices, r) \<leftarrow> fork_devices F sp child (as_devices sp) [] s;
                        case r of
                          Err (False, e) \<Rightarrow> fork_fail F current_root child e s
                        | Err (True, e) \<Rightarrow>
                            fork_fail F current_root (child\<lparr>as_owned := child_owned, as_devices := child_devices\<rparr>) e s
                        | Ok _ \<Rightarrow> Some (s, Ok (child\<lparr>as_owned := child_owned, as_devices := child_devices\<rparr>)) } } }"

text \<open>The first owned mapping of a page gets another frame.\<close>

primrec retarget :: "w64 \<Rightarrow> w64 \<Rightarrow> OwnedMapping list \<Rightarrow> OwnedMapping list" where
  "retarget page frame [] = []"
| "retarget page frame (m # ms) =
     (if om_va m = page then m\<lparr>om_frame := frame\<rparr> # ms else m # retarget page frame ms)"

definition resolve_cow ::
    "'a frame_ops \<Rightarrow> AddressSpace \<Rightarrow> w64 \<Rightarrow> 'a pt_state \<Rightarrow> ('a pt_state \<times> AddressSpace \<times> CowResolution) option" where
  "resolve_cow F sp va s =
     (let page = va AND NOT (of_nat PAGE_SIZE - 1) in
      case leaf_slot sp page s of Err _ \<Rightarrow> Some (s, sp, NotCow)
      | Ok (t, i) \<Rightarrow>
        let entry = pt_mem s t i in
        if \<not> has entry COPY_ON_WRITE then Some (s, sp, NotCow)
        else
          let old = entry_frame entry;
              flags = (entry AND NOT ADDRESS_MASK AND NOT COPY_ON_WRITE) OR WRITABLE in
          if unwrap_or (fo_refcount F old (pt_fr s)) 1 \<le> 1 then
            Some (set_entry t i (old OR flags) s, sp, Resolved)
          else
            do { (a, r) \<leftarrow> fo_alloc F (pt_fr s);
                 case r of
                   None \<Rightarrow> Some (s\<lparr>pt_fr := a\<rparr>, sp, OutOfMemory)
                 | Some copy \<Rightarrow>
                   let s = s\<lparr>pt_fr := a, pt_mem := (pt_mem s)(copy := pt_mem s old)\<rparr>;
                       s = set_entry t i (copy OR flags) s in
                   do { s \<leftarrow> pt_free_frame F old s;
                        Some (s, sp\<lparr>as_owned := retarget page copy (as_owned sp)\<rparr>, Resolved) } })"

end
