(* ===== verification/SpaceWorld.thy ===== *)
theory SpaceWorld
  imports PageMap AddressSpace "HOL-Library.Multiset"
begin

text \<open>
  All address spaces together. A space claims its tables and the frames it owns;
  the claims of all spaces never exceed the references of a frame, so a table
  belongs to one space only and a frame that is mapped writable is referenced
  once. An operation that balances the accounts of the spaces it works on and
  leaves alone what others refer to keeps every other space as it is.
\<close>

context frame_source
begin

definition claims :: "'a pt_state \<Rightarrow> AddressSpace \<Rightarrow> w64 \<Rightarrow> nat" where
  "claims s sp f = (if f \<in> ran (T s (as_root sp)) then 1 else 0) + count_list (map om_frame (as_owned sp)) f"

definition managed :: "'a pt_state \<Rightarrow> w64 set" where
  "managed s = A s \<union> {f. 0 < R s f}"

text \<open>An owned page is mapped to its frame, writable only while nobody else refers to the frame.\<close>

definition owned_ok :: "'a pt_state \<Rightarrow> AddressSpace \<Rightarrow> OwnedMapping \<Rightarrow> bool" where
  "owned_ok s sp m \<longleftrightarrow> user_page (om_va m)
     \<and> (\<exists>e. leaf (pt_mem s) (as_root sp) (va_path (om_va m)) = Some e \<and> entry_frame e = om_frame m
            \<and> (bit e 1 \<longrightarrow> R s (om_frame m) = 1))"

text \<open>A device page is mapped to memory outside the allocator and never marked for copying.\<close>

definition device_ok :: "'a pt_state \<Rightarrow> AddressSpace \<Rightarrow> OwnedMapping \<Rightarrow> bool" where
  "device_ok s sp m \<longleftrightarrow> user_page (om_va m) \<and> om_frame m \<notin> managed s
     \<and> (\<exists>e. leaf (pt_mem s) (as_root sp) (va_path (om_va m)) = Some e \<and> entry_frame e = om_frame m \<and> \<not> bit e 9)"

definition space_ok :: "'a pt_state \<Rightarrow> AddressSpace \<Rightarrow> bool" where
  "space_ok s sp \<longleftrightarrow> uspace s (as_root sp) \<and> full (pt_mem s) (as_root sp)
     \<and> distinct (map om_va (as_owned sp @ as_devices sp))
     \<and> (\<forall>m \<in> set (as_owned sp). owned_ok s sp m) \<and> (\<forall>m \<in> set (as_devices sp). device_ok s sp m)
     \<and> (\<forall>va. user_page va \<longrightarrow> leaf (pt_mem s) (as_root sp) (va_path va) \<noteq> None
             \<longrightarrow> va \<in> om_va ` set (as_owned sp @ as_devices sp))
     \<and> (\<forall>i. 256 \<le> i \<longrightarrow> i < 512 \<longrightarrow> pt_mem s (as_root sp) i = pt_mem s (pt_pml4 s) i)"

definition total :: "'a pt_state \<Rightarrow> AddressSpace list \<Rightarrow> w64 \<Rightarrow> nat" where
  "total s sps f = sum_list (map (\<lambda>sp. claims s sp f) sps)"

definition world_ok :: "'a pt_state \<Rightarrow> AddressSpace list \<Rightarrow> bool" where
  "world_ok s sps \<longleftrightarrow> src s \<and> pt_pml4 s \<notin> managed s \<and> (\<forall>sp \<in> set sps. space_ok s sp) \<and> (\<forall>f. total s sps f \<le> R s f)"

lemma total_simps [simp]:
  "total s [] f = 0" "total s (sp # sps) f = claims s sp f + total s sps f" "total s (xs @ ys) f = total s xs f + total s ys f"
  by (simp_all add: total_def)

lemma total_Nil [simp]: "total s [] = (\<lambda>_. 0)"
  by (simp add: fun_eq_iff)

lemma total_single [simp]: "total s [sp] = claims s sp"
  by (simp add: fun_eq_iff)

lemma total_mem: "sp \<in> set sps \<Longrightarrow> claims s sp f \<le> total s sps f"
  by (induction sps) auto

lemma world_perm:
  assumes "mset xs = mset ys" "world_ok s xs"
  shows "world_ok s ys"
proof -
  have "total s xs f = total s ys f" for f
    unfolding total_def using assms(1) by (metis mset_map sum_mset_sum_list)
  moreover have "set xs = set ys" using assms(1) by (metis set_mset_mset)
  ultimately show ?thesis using assms(2) by (simp add: world_ok_def)
qed

text \<open>
  An operation on spaces that held \<open>old\<close> claims and hold \<open>new\<close> ones afterwards:
  references change with the claims, new claims come from available frames, and
  memory that others refer to, or that the allocator does not manage, stays.
\<close>

definition local_step :: "'a pt_state \<Rightarrow> 'a pt_state \<Rightarrow> (w64 \<Rightarrow> nat) \<Rightarrow> (w64 \<Rightarrow> nat) \<Rightarrow> bool" where
  "local_step s s' old new \<longleftrightarrow> src s' \<and> statics_same s s' \<and> managed s' = managed s
     \<and> (\<forall>f. R s' f + old f = R s f + new f)
     \<and> (\<forall>u. u \<notin> A s \<longrightarrow> old u = 0 \<longrightarrow> new u = 0)
     \<and> (\<forall>u. u \<notin> A s \<longrightarrow> old u < R s u \<or> R s u = 0 \<longrightarrow> pt_mem s' u = pt_mem s u)"

text \<open>What a bystander sees.\<close>

definition same_view :: "'a pt_state \<Rightarrow> 'a pt_state \<Rightarrow> AddressSpace \<Rightarrow> bool" where
  "same_view s s' sp \<longleftrightarrow> T s' (as_root sp) = T s (as_root sp)
     \<and> (\<forall>q. leaf (pt_mem s') (as_root sp) q = leaf (pt_mem s) (as_root sp) q)
     \<and> (\<forall>m \<in> set (as_owned sp). pt_mem s' (om_frame m) = pt_mem s (om_frame m))"

lemma same_view_claims: "same_view s s' sp \<Longrightarrow> claims s' sp = claims s sp"
  unfolding same_view_def by (rule ext) (simp add: claims_def)

lemma tables_claimed: "T s (as_root sp) p = Some t \<Longrightarrow> 0 < claims s sp t"
  by (auto simp: claims_def ran_def)

lemma owned_claimed: "m \<in> set (as_owned sp) \<Longrightarrow> 0 < claims s sp (om_frame m)"
  by (simp add: claims_def) (metis count_list_0_iff gr0I imageI list.set_map trans_less_add2)

lemma bystander:
  assumes ok: "space_ok s sp" and loc: "local_step s s' old new" and cl: "\<And>f. old f + claims s sp f \<le> R s f"
    and pml4: "pt_pml4 s \<notin> managed s"
  shows "space_ok s' sp" "claims s' sp = claims s sp" "same_view s s' sp"
proof -
  let ?r = "as_root sp"
  note l = loc [unfolded local_step_def]
  have us: "uspace s ?r" using ok by (simp add: space_ok_def)
  have mem: "pt_mem s' f = pt_mem s f" if "0 < claims s sp f" for f
  proof -
    have lt: "old f < R s f" using cl [of f] that by linarith
    have "f \<notin> A s" using avail_refs [OF sourced_good, of s f] us lt by fastforce
    then show ?thesis using l lt by blast
  qed
  have one: "R s' f = 1" if "0 < claims s sp f" "R s f = 1" for f
  proof -
    have "old f = 0" using cl [of f] that by linarith
    moreover have "f \<notin> A s" using avail_refs [OF sourced_good, of s f] us that by fastforce
    ultimately have "new f = 0" using l by blast
    then show ?thesis using l \<open>old f = 0\<close> that(2) by (metis add.right_neutral)
  qed
  have mt: "pt_mem s' t = pt_mem s t" if "T s ?r p = Some t" for p t using mem tables_claimed [OF that] by blast
  have T: "T s' ?r = T s ?r" by (rule tm_same) (rule mt)
  have en: "ent 256 (pt_mem s') ?r q = ent 256 (pt_mem s) ?r q" for q
    using mt by (cases q) (auto simp: ent_def T split: option.splits)
  have lf: "leaf (pt_mem s') ?r q = leaf (pt_mem s) ?r q" for q by (simp add: leaf_def en)
  show cs: "claims s' sp = claims s sp" by (simp add: claims_def T fun_eq_iff)
  have us': "uspace s' ?r"
  proof -
    have "user_tree (R s') (pt_mem s') ?r"
      unfolding user_tree_def tree_def T
      using us one tables_claimed mt unfolding user_tree_def tree_def by metis
    then show ?thesis using l by blast
  qed
  have om: "pt_mem s' (om_frame m) = pt_mem s (om_frame m)" if "m \<in> set (as_owned sp)" for m
    using mem owned_claimed [OF that] by blast
  have "owned_ok s' sp m" if m: "m \<in> set (as_owned sp)" for m
    using ok m one [OF owned_claimed [OF m]] unfolding space_ok_def owned_ok_def lf by metis
  moreover have "device_ok s' sp m" if m: "m \<in> set (as_devices sp)" for m
    using ok m l unfolding space_ok_def device_ok_def lf by metis
  moreover have "full (pt_mem s') ?r" using ok unfolding space_ok_def full_but_def T en by blast
  moreover have "pt_mem s' ?r i = pt_mem s' (pt_pml4 s') i" if i: "256 \<le> i" "i < 512" for i
  proof -
    have "pt_mem s' ?r = pt_mem s ?r" by (rule mt [of "[]"]) simp
    moreover have "pt_mem s' (pt_pml4 s) = pt_mem s (pt_pml4 s)" using l pml4 unfolding managed_def by auto
    moreover have "pt_pml4 s' = pt_pml4 s" using l by (simp add: statics_same_def)
    ultimately show ?thesis using ok i by (simp add: space_ok_def)
  qed
  ultimately show "space_ok s' sp" using ok us' unfolding space_ok_def lf by blast
  show "same_view s s' sp" using om lf T by (simp add: same_view_def)
qed

text \<open>The operation takes \<open>old\<close> references out of the accounts and leaves \<open>news\<close>; the others stay.\<close>

lemma world_step:
  assumes oks: "\<And>sp. sp \<in> set rest \<Longrightarrow> space_ok s sp" and sum: "\<And>f. old f + total s rest f \<le> R s f"
    and pml4: "pt_pml4 s \<notin> managed s" and loc: "local_step s s' old (total s' news)"
    and ok: "\<And>sp. sp \<in> set news \<Longrightarrow> space_ok s' sp"
  shows "world_ok s' (news @ rest)" "\<And>sp. sp \<in> set rest \<Longrightarrow> same_view s s' sp"
proof -
  note l = loc [unfolded local_step_def]
  have cl: "old f + claims s sp f \<le> R s f" if "sp \<in> set rest" for sp f
    using sum [of f] total_mem [OF that, of s f] by linarith
  have by': "space_ok s' sp" "claims s' sp = claims s sp" "same_view s s' sp" if "sp \<in> set rest" for sp
    using bystander [OF oks [OF that] loc cl [OF that] pml4] by auto
  show "same_view s s' sp" if "sp \<in> set rest" for sp by (rule by'(3) [OF that])
  have tr: "total s' rest f = total s rest f" for f
    unfolding total_def using by'(2) by (metis (mono_tags, lifting) map_eq_conv)
  have "total s' (news @ rest) f \<le> R s' f" for f
  proof -
    have "R s' f + old f = R s f + total s' news f" using l by blast
    then show ?thesis using tr [of f] sum [of f] by simp
  qed
  moreover have "pt_pml4 s' \<notin> managed s'" using l pml4 by (simp add: statics_same_def)
  ultimately show "world_ok s' (news @ rest)" using l ok by'(1) by (auto simp: world_ok_def)
qed

lemma world_local:
  assumes w: "world_ok s (olds @ rest)" and loc: "local_step s s' (total s olds) (total s' news)"
    and ok: "\<And>sp. sp \<in> set news \<Longrightarrow> space_ok s' sp"
  shows "world_ok s' (news @ rest)" "\<And>sp. sp \<in> set rest \<Longrightarrow> same_view s s' sp"
  using w by (intro world_step [OF _ _ _ loc ok]; simp add: world_ok_def)+

end

end
