(* ===== verification/UserMemory.thy ===== *)
theory UserMemory
  imports AddressSpace Vma
begin

text \<open>
  The pages behind \<open>brk\<close>, \<open>mmap\<close>, \<open>munmap\<close> and \<open>mprotect\<close> (\<open>kernel/src/mm/user_memory.rs\<close>):
  the memory map of \<open>Vma\<close> says which spans change, the address space changes
  them page by page. \<open>room\<close> is an oracle that says for every page whether the list
  of owned or of device pages can grow.
\<close>

definition page_flags :: "Protection \<Rightarrow> w64" where
  "page_flags protection =
     (if p_execute protection then PF_USER_READ_EXECUTE
      else if p_write protection then PF_USER_READ_WRITE
      else PF_USER_READ)"

definition span_pages :: "Span \<Rightarrow> w64 list" where
  "span_pages span = map of_nat (step_by (sp_start span) (sp_end span) PAGE_SIZE)"

text \<open>The state of one process: the statics and its address space.\<close>

type_synonym 'a pages = "'a pt_state \<times> AddressSpace"

text \<open>One page of \<open>unmap_span\<close>.\<close>

definition unmap_one :: "'a frame_ops \<Rightarrow> w64 \<Rightarrow> 'a pages \<Rightarrow> 'a pages option" where
  "unmap_one F page x =
     (case x of (s, sp) \<Rightarrow>
      do { (s, sp, r) \<leftarrow> as_unmap_mapping F sp page s;
           case r of
             Ok mapping \<Rightarrow>
               if un_ownership mapping = Owned then do { s \<leftarrow> pt_free_frame F (un_frame mapping) s; Some (s, sp) }
               else Some (s, sp)
           | Err _ \<Rightarrow> Some (s, sp) })"

definition unmap_span :: "'a frame_ops \<Rightarrow> Span \<Rightarrow> 'a pages \<Rightarrow> 'a pages option" where
  "unmap_span F span = fold_opt (unmap_one F) (span_pages span)"

definition alloc_frame_zeroed :: "'a frame_ops \<Rightarrow> 'a pt_state \<Rightarrow> ('a pt_state \<times> w64 option) option" where
  "alloc_frame_zeroed F s =
     do { (a, r) \<leftarrow> fo_alloc F (pt_fr s);
          case r of
            None \<Rightarrow> Some (s\<lparr>pt_fr := a\<rparr>, None)
          | Some frame \<Rightarrow> Some (s\<lparr>pt_fr := a, pt_mem := (pt_mem s)(frame := (\<lambda>_. 0))\<rparr>, Some frame) }"

text \<open>One page of \<open>map_span\<close>: a zeroed frame, mapped and owned; inaccessible for \<open>PROT_NONE\<close>.\<close>

definition map_one :: "'a frame_ops \<Rightarrow> bool \<Rightarrow> Protection \<Rightarrow> w64 \<Rightarrow> 'a pages \<Rightarrow> ('a pages \<times> unit fs_result) option" where
  "map_one F room protection page x =
     (case x of (s, sp) \<Rightarrow>
      do { (s, r) \<leftarrow> alloc_frame_zeroed F s;
           case r of
             None \<Rightarrow> Some ((s, sp), Err ENOMEM)
           | Some new \<Rightarrow>
             do { (s, sp, r) \<leftarrow> as_map_owned F room sp page new (page_flags protection) s;
                  case r of
                    Err _ \<Rightarrow> do { s \<leftarrow> pt_free_frame F new s; Some ((s, sp), Err ENOMEM) }
                  | Ok _ \<Rightarrow>
                      if protection = prot_NONE then
                        (case as_protect_inaccessible F sp page s of
                           (s, Ok _) \<Rightarrow> Some ((s, sp), Ok ()) | (s, Err _) \<Rightarrow> Some ((s, sp), Err ENOMEM))
                      else Some ((s, sp), Ok ()) } })"

primrec map_pages_of ::
    "'a frame_ops \<Rightarrow> (w64 \<Rightarrow> bool) \<Rightarrow> Span \<Rightarrow> w64 list \<Rightarrow> 'a pages \<Rightarrow> ('a pages \<times> unit fs_result) option" where
  "map_pages_of F room span [] x = Some (x, Ok ())"
| "map_pages_of F room span (page # todo) x =
     do { (x, r) \<leftarrow> map_one F (room page) (sp_protection span) page x;
          case r of
            Err e \<Rightarrow> do { x \<leftarrow> unmap_span F (span\<lparr>sp_end := unat page + PAGE_SIZE\<rparr>) x; Some (x, Err e) }
          | Ok _ \<Rightarrow> map_pages_of F room span todo x }"

definition map_span :: "'a frame_ops \<Rightarrow> (w64 \<Rightarrow> bool) \<Rightarrow> Span \<Rightarrow> 'a pages \<Rightarrow> ('a pages \<times> unit fs_result) option" where
  "map_span F room span = map_pages_of F room span (span_pages span)"

definition protect_one :: "'a frame_ops \<Rightarrow> Protection \<Rightarrow> w64 \<Rightarrow> 'a pages \<Rightarrow> 'a pages \<times> unit fs_result" where
  "protect_one F protection page x =
     (case x of (s, sp) \<Rightarrow>
      case (if protection = prot_NONE then as_protect_inaccessible F sp page s
            else as_protect F sp page (page_flags protection) s) of
        (s, Ok _) \<Rightarrow> ((s, sp), Ok ()) | (s, Err _) \<Rightarrow> ((s, sp), Err ENOMEM))"

primrec protect_pages :: "'a frame_ops \<Rightarrow> Protection \<Rightarrow> w64 list \<Rightarrow> 'a pages \<Rightarrow> 'a pages \<times> unit fs_result" where
  "protect_pages F protection [] x = (x, Ok ())"
| "protect_pages F protection (page # todo) x =
     (case protect_one F protection page x of
        (x, Err e) \<Rightarrow> (x, Err e) | (x, Ok _) \<Rightarrow> protect_pages F protection todo x)"

definition protect_span :: "'a frame_ops \<Rightarrow> Span \<Rightarrow> 'a pages \<Rightarrow> 'a pages \<times> unit fs_result" where
  "protect_span F span = protect_pages F (sp_protection span) (span_pages span)"

section \<open>The calls\<close>

text \<open>
  \<open>with_space\<close> hands the body the \<open>OwnedSpace\<close> of the process, its space and its
  map; the bodies are modelled, each with the map it leaves.
\<close>

definition um_brk ::
    "'a frame_ops \<Rightarrow> (w64 \<Rightarrow> bool) \<Rightarrow> u64 \<Rightarrow> MemoryMap \<Rightarrow> 'a pages \<Rightarrow> (MemoryMap \<times> 'a pages \<times> u64) option" where
  "um_brk F room address m x =
     (let current = mm_brk m in
      if address = 0 then Some (m, x, current)
      else case vma_set_brk m address of
        (m', Err _) \<Rightarrow> Some (m', x, current)
      | (m', Ok change) \<Rightarrow>
          (case change of
             Unchanged \<Rightarrow> Some (m', x, mm_brk m')
           | BrkUnmap span \<Rightarrow> do { x \<leftarrow> unmap_span F span x; Some (m', x, mm_brk m') }
           | BrkMap span \<Rightarrow>
               do { (x, r) \<leftarrow> map_span F room span x;
                    if is_ok r then Some (m', x, mm_brk m') else Some (m, x, current) }))"

definition um_mmap ::
    "'a frame_ops \<Rightarrow> (w64 \<Rightarrow> bool) \<Rightarrow> u64 \<Rightarrow> u64 \<Rightarrow> Protection \<Rightarrow> bool \<Rightarrow> MemoryMap \<Rightarrow> 'a pages
       \<Rightarrow> (MemoryMap \<times> 'a pages \<times> u64 fs_result) option" where
  "um_mmap F room hint len protection fixed m x =
     (case vma_mmap m hint len protection fixed of
        (m', Err e) \<Rightarrow> Some (m', x, Err e)
      | (m', Ok change) \<Rightarrow>
          do { x \<leftarrow> fold_opt (unmap_span F) (ch_replaced change) x;
               (x, r) \<leftarrow> map_span F room (ch_new change) x;
               case r of
                 Err e \<Rightarrow>
                   Some (m\<lparr>mm_regions := fst (vma_remove (sp_start (ch_new change)) (sp_end (ch_new change)) (mm_regions m))\<rparr>,
                         x, Err e)
               | Ok _ \<Rightarrow> Some (m', x, Ok (ch_address change)) })"

text \<open>The loop of \<open>mmap_device\<close>: the end of what it mapped, with the error that ended it.\<close>

primrec map_device_pages ::
    "'a frame_ops \<Rightarrow> (w64 \<Rightarrow> bool) \<Rightarrow> Protection \<Rightarrow> u64 \<Rightarrow> u64 \<Rightarrow> w64 list \<Rightarrow> u64 \<Rightarrow> 'a pages
       \<Rightarrow> ('a pages \<times> u64 \<times> unit fs_result) option" where
  "map_device_pages F room protection physical start [] mapped x = Some (x, mapped, Ok ())"
| "map_device_pages F room protection physical start (page # todo) mapped x =
     (case x of (s, sp) \<Rightarrow>
      do { (s, sp, r) \<leftarrow> as_map_device F (room page) sp page (of_nat (physical + (unat page - start)))
                             (with_cache (page_flags protection) True False) s;
           case r of
             Err _ \<Rightarrow> Some ((s, sp), mapped, Err ENOMEM)
           | Ok _ \<Rightarrow>
               (case (if protection = prot_NONE then as_protect_inaccessible F sp page s else (s, Ok ())) of
                  (s, Err _) \<Rightarrow> Some ((s, sp), mapped, Err ENOMEM)
                | (s, Ok _) \<Rightarrow>
                    map_device_pages F room protection physical start todo (unat page + PAGE_SIZE) (s, sp)) })"

definition um_mmap_device ::
    "'a frame_ops \<Rightarrow> (w64 \<Rightarrow> bool) \<Rightarrow> u64 \<Rightarrow> u64 \<Rightarrow> Protection \<Rightarrow> u64 \<Rightarrow> bool \<Rightarrow> MemoryMap \<Rightarrow> 'a pages
       \<Rightarrow> (MemoryMap \<times> 'a pages \<times> u64 fs_result) option" where
  "um_mmap_device F room hint len protection physical fixed m x =
     (case vma_mmap_device m hint len protection physical fixed of
        (m', Err e) \<Rightarrow> Some (m', x, Err e)
      | (m', Ok change) \<Rightarrow>
          do { x \<leftarrow> fold_opt (unmap_span F) (ch_replaced change) x;
               (x, mapped, r) \<leftarrow> map_device_pages F room protection physical (sp_start (ch_new change))
                                  (span_pages (ch_new change)) (sp_start (ch_new change)) x;
               case r of
                 Err e \<Rightarrow>
                   do { x \<leftarrow> unmap_span F \<lparr>sp_start = sp_start (ch_new change), sp_end = mapped, sp_protection = protection\<rparr> x;
                        Some (m\<lparr>mm_regions := fst (vma_remove (sp_start (ch_new change)) (sp_end (ch_new change)) (mm_regions m))\<rparr>,
                              x, Err e) }
               | Ok _ \<Rightarrow> Some (m', x, Ok (ch_address change)) })"

definition um_munmap ::
    "'a frame_ops \<Rightarrow> u64 \<Rightarrow> u64 \<Rightarrow> MemoryMap \<Rightarrow> 'a pages \<Rightarrow> (MemoryMap \<times> 'a pages \<times> unit fs_result) option" where
  "um_munmap F start len m x =
     (case vma_munmap m start len of
        (m', Err e) \<Rightarrow> Some (m', x, Err e)
      | (m', Ok removed) \<Rightarrow> do { x \<leftarrow> fold_opt (unmap_span F) removed x; Some (m', x, Ok ()) })"

primrec protect_spans :: "'a frame_ops \<Rightarrow> Span list \<Rightarrow> 'a pages \<Rightarrow> 'a pages \<times> unit fs_result" where
  "protect_spans F [] x = (x, Ok ())"
| "protect_spans F (span # spans) x =
     (case protect_span F span x of (x, Err e) \<Rightarrow> (x, Err e) | (x, Ok _) \<Rightarrow> protect_spans F spans x)"

definition um_mprotect ::
    "'a frame_ops \<Rightarrow> u64 \<Rightarrow> u64 \<Rightarrow> Protection \<Rightarrow> MemoryMap \<Rightarrow> 'a pages \<Rightarrow> MemoryMap \<times> 'a pages \<times> unit fs_result" where
  "um_mprotect F start len protection m x =
     (case vma_mprotect m start len protection of
        (m', Err e) \<Rightarrow> (m', x, Err e)
      | (m', Ok changed) \<Rightarrow>
          (case protect_spans F changed x of (x, Err e) \<Rightarrow> (m, x, Err e) | (x, Ok _) \<Rightarrow> (m', x, Ok ())))"

end
