(* ===== verification/SpaceOps.thy ===== *)
theory SpaceOps
  imports SpaceWorld UserMemory
begin

text \<open>
  Every operation on an address space, page by page, as a local step of the
  world of spaces.
\<close>

lemma mset_swap_remove: "i < length xs \<Longrightarrow> mset (swap_remove xs i) = mset xs - {#xs ! i#}"
proof -
  assume i: "i < length xs"
  then obtain ys z where xs: "xs = ys @ [z]" by (cases xs rule: rev_cases) auto
  show ?thesis
  proof (cases "i < length ys")
    case True
    then have "swap_remove xs i = ys[i := z]" by (simp add: swap_remove_def xs list_update_append)
    then show ?thesis using True by (simp add: xs nth_append mset_update)
  next
    case False
    then have "i = length ys" using i xs by simp
    then show ?thesis by (simp add: swap_remove_def xs)
  qed
qed

lemma count_list_mset: "count_list xs x = count (mset xs) x"
  by (induction xs) auto

lemma find_index:
  assumes "List.find (\<lambda>i. P (xs ! i)) [0..<length xs] = Some i"
  shows "i < length xs" "P (xs ! i)"
  using assms by (auto simp: find_Some_iff)

lemma find_index_None: "List.find (\<lambda>i. P (xs ! i)) [0..<length xs] = None \<longleftrightarrow> (\<forall>x \<in> set xs. \<not> P x)"
  by (simp add: find_None_iff) (metis in_set_conv_nth)

text \<open>The permissions of a leaf are those of a protection.\<close>

definition leaf_prot :: "Protection \<Rightarrow> w64 \<Rightarrow> bool" where
  "leaf_prot prot e \<longleftrightarrow> (bit e 2 \<longleftrightarrow> prot \<noteq> prot_NONE)
     \<and> (bit e 1 \<or> bit e 9 \<longleftrightarrow> p_write prot \<and> \<not> p_execute prot) \<and> (bit e 63 \<longleftrightarrow> \<not> p_execute prot)"

context frame_source
begin

lemma restored_local: "restored s s' \<Longrightarrow> local_step s s' c c"
  by (simp add: local_step_def restored_def managed_def)

lemma world_restored:
  assumes "world_ok s sps" "restored s s'"
  shows "world_ok s' sps" "\<And>sp. sp \<in> set sps \<Longrightarrow> same_view s s' sp"
  using world_local [of s "[]" sps s' "[]"] assms restored_local [OF assms(2), of "\<lambda>_. 0"] by auto

lemma claims_le: "world_ok s (sp # rest) \<Longrightarrow> claims s sp f \<le> R s f"
  by (metis le_add1 le_trans total_simps(2) world_ok_def)

section \<open>A new space\<close>

lemma fold_copy_entries:
  assumes "root \<noteq> pt_pml4 s"
  shows "fold (\<lambda>i s. set_entry root i (pt_mem s (pt_pml4 s) i) s) ks s
    = s\<lparr>pt_mem := (pt_mem s)(root := (\<lambda>j. if j \<in> set ks then pt_mem s (pt_pml4 s) j else pt_mem s root j))\<rparr>"
proof (induction ks rule: rev_induct)
  case Nil
  then show ?case by simp
next
  case (snoc k ks)
  then show ?case using assms by (auto simp: set_entry_def fun_eq_iff)
qed

lemma as_new_ok:
  assumes w: "world_ok s sps"
  obtains s' where "as_new F s = Some (s', Err AS_OutOfFrames)" "restored s s'" "A s = {}"
  | s' sp where "as_new F s = Some (s', Ok sp)" "as_owned sp = []" "as_devices sp = []" "as_root sp \<in> A s"
      "space_ok s' sp" "local_step s s' (\<lambda>_. 0) (claims s' sp)" "\<And>va. leaf (pt_mem s') (as_root sp) (va_path va) = None"
proof -
  have src: "src s" and pml4: "pt_pml4 s \<notin> managed s" using w by (auto simp: world_ok_def)
  obtain s1 x where x: "alloc_table F s = Some (s1, x)" "src s1" "statics_same s s1"
    "case x of None \<Rightarrow> pt_mem s1 = pt_mem s \<and> A s = {} \<and> A s1 = A s \<and> R s1 = R s
       | Some f \<Rightarrow> f \<in> A s \<and> frame_ok f \<and> R s f = 0 \<and> A s1 = A s - {f} \<and> R s1 = (R s)(f := 1)
           \<and> pt_mem s1 = (pt_mem s)(f := (\<lambda>_. 0))"
    using alloc_table_source [OF src] by blast
  show thesis
  proof (cases x)
    case None
    then have "restored s s1" using x by (simp add: restored_def)
    moreover have "A s = {}" using x(4) None by simp
    moreover have "as_new F s = Some (s1, Err AS_OutOfFrames)" unfolding as_new_def x(1) None bind.bind_lunit prod.case option.case ..
    ultimately show thesis using that(1) by blast
  next
    case (Some f)
    then have f: "f \<in> A s" "R s f = 0" "A s1 = A s - {f}" "R s1 = (R s)(f := 1)" "pt_mem s1 = (pt_mem s)(f := (\<lambda>_. 0))"
      using x(4) by auto
    have k: "pt_pml4 s1 = pt_pml4 s" using x(3) by (simp add: statics_same_def)
    have fk: "f \<noteq> pt_pml4 s" using pml4 f(1) by (auto simp: managed_def)
    define sp where "sp = \<lparr>as_root = f, as_owned = [], as_devices = []\<rparr>"
    define s' where "s' = s1\<lparr>pt_mem := (pt_mem s1)(f := (\<lambda>j. if j \<in> set [256..<512] then pt_mem s1 (pt_pml4 s1) j else pt_mem s1 f j))\<rparr>"
    note upt_rec_numeral [simp del]
    have run: "as_new F s = Some (s', Ok sp)"
      unfolding as_new_def x(1) Some bind.bind_lunit prod.case option.case s'_def sp_def
      by (subst fold_copy_entries) (use fk k in simp_all)
    have fr: "pt_fr s' = pt_fr s1" by (simp add: s'_def)
    have low: "pt_mem s' f j = 0" if "j < 256" for j using that f(5) by (simp add: s'_def)
    have high: "pt_mem s' f j = pt_mem s (pt_pml4 s) j" if "256 \<le> j" "j < 512" for j
      using that f(5) fk k by (simp add: s'_def)
    have oth: "pt_mem s' u = pt_mem s u" if "u \<noteq> f" for u using that f(5) by (simp add: s'_def)
    have Tc: "T s' f (i # p) = None" for i p
    proof (induction p arbitrary: i)
      case Nil
      show ?case using low [of i] by (simp add: tm_Cons vpath_def)
    next
      case (Cons j p)
      show ?case using Cons.IH [of j] by (simp add: tm_Cons [of _ _ _ i])
    qed
    have T: "T s' f q = (if q = [] then Some f else None)" for q by (cases q) (simp_all add: Tc)
    have ran: "ran (T s' f) = {f}" by (auto simp: ran_def T)
    have src': "src s'" using x(2) by (simp add: s'_def sourced_def supplied_def overlaps_heap_def)
    have ut: "user_tree (R s') (pt_mem s') f"
      unfolding user_tree_def tree_def T using low f(4) fr by (auto simp: vpath_def split: if_splits)
    have lf: "leaf (pt_mem s') f (va_path va) = None" for va
    proof -
      obtain i4 i3 i2 i1 where "table_indices va = (i4, i3, i2, i1)" by (metis prod_cases4)
      then have "va_path va = i1 # [i2, i3, i4]" by (simp add: va_path_def)
      then show ?thesis using leaf_None [OF Tc [of i2 "[i3, i4]"]] by simp
    qed
    have st: "statics_same s s'" using x(3) by (simp add: s'_def)
    have ok: "space_ok s' sp"
    proof -
      have "full (pt_mem s') f" by (simp add: full_but_def T)
      moreover have "pt_mem s' f i = pt_mem s' (pt_pml4 s') i" if "256 \<le> i" "i < 512" for i
        using high [OF that] oth [of "pt_pml4 s"] fk st by (simp add: statics_same_def)
      ultimately show ?thesis using src' ut lf by (simp add: space_ok_def sp_def)
    qed
    have cl: "claims s' sp = (\<lambda>u. if u = f then 1 else 0)" by (auto simp: claims_def sp_def ran fun_eq_iff)
    have oth': "pt_mem s' u = pt_mem s u" if "u \<notin> A s" for u using that f(1) oth by metis
    have "local_step s s' (\<lambda>_. 0) (claims s' sp)"
      unfolding local_step_def cl using src' st f(1-4) oth' fr by (auto simp: managed_def)
    then show thesis using that(2) [OF run _ _ _ ok] lf f(1) by (simp add: sp_def)
  qed
qed

section \<open>Mapping a page\<close>

lemma flags_ok_or [simp]: "flags_ok (a OR b) \<longleftrightarrow> flags_ok a \<and> flags_ok b"
  by (auto simp: flags_ok_def bit_eq_iff bit_and_iff bit_or_iff)

text \<open>A frame that is taken from the allocator and held by nobody's space yet.\<close>

definition taken :: "'a pt_state \<Rightarrow> 'a pt_state \<Rightarrow> w64 \<Rightarrow> bool" where
  "taken s s' f \<longleftrightarrow> src s' \<and> statics_same s s' \<and> f \<in> A s \<and> frame_ok f \<and> A s' = A s - {f} \<and> R s' = (R s)(f := 1)
     \<and> (\<forall>u. u \<noteq> f \<longrightarrow> pt_mem s' u = pt_mem s u)"

lemma taken_world:
  assumes "world_ok s sps" "taken s s' f"
  shows "world_ok s' sps" "\<And>sp. sp \<in> set sps \<Longrightarrow> claims s' sp f = 0" "\<And>sp. sp \<in> set sps \<Longrightarrow> same_view s s' sp"
proof -
  have Rf: "R s f = 0" using assms avail_refs [OF sourced_good, of s f] by (simp add: world_ok_def taken_def)
  have loc: "local_step s s' (\<lambda>_. 0) (\<lambda>u. if u = f then 1 else 0)"
    using assms(2) Rf unfolding local_step_def taken_def managed_def by auto
  have b: "space_ok s' sp \<and> claims s' sp = claims s sp \<and> same_view s s' sp" if "sp \<in> set sps" for sp
  proof -
    have "claims s sp u \<le> R s u" for u using total_mem [OF that, of s u] assms(1) le_trans unfolding world_ok_def by blast
    then show ?thesis using bystander [OF _ loc] assms(1) that by (auto simp: world_ok_def)
  qed
  have tot: "total s' sps u = total s sps u" for u
    unfolding total_def using b by (metis (mono_tags, lifting) map_eq_conv)
  have "total s sps u \<le> R s u" for u using assms(1) by (simp add: world_ok_def)
  moreover have "R s u \<le> R s' u" for u using assms(2) Rf by (simp add: taken_def)
  ultimately have "total s' sps u \<le> R s' u" for u using tot le_trans by metis
  moreover have "pt_pml4 s' \<notin> managed s'" using loc assms(1) by (simp add: local_step_def statics_same_def world_ok_def)
  ultimately show "world_ok s' sps" using b assms(2) by (auto simp: world_ok_def taken_def)
  show "claims s' sp f = 0" if "sp \<in> set sps" for sp
  proof -
    have "claims s sp f \<le> total s sps f" by (rule total_mem [OF that])
    then show ?thesis using b [OF that] assms(1) Rf by (metis le_zero_eq world_ok_def)
  qed
  show "same_view s s' sp" if "sp \<in> set sps" for sp using b [OF that] by blast
qed

lemma taken_return:
  assumes "taken s s1 f" "restored s1 s2" "src s"
  shows "\<exists>s'. pt_free_frame F f s2 = Some s' \<and> restored s s'"
proof -
  have t: "statics_same s s1" "f \<in> A s" "A s1 = A s - {f}" "R s1 = (R s)(f := 1)" "\<And>u. u \<noteq> f \<Longrightarrow> pt_mem s1 u = pt_mem s u"
    using assms(1) by (auto simp: taken_def)
  have r: "src s2" "statics_same s1 s2" "R s2 = R s1" "A s2 = A s1" "\<And>u. u \<notin> A s1 \<Longrightarrow> pt_mem s2 u = pt_mem s1 u"
    using assms(2) by (auto simp: restored_def)
  have "0 < R s2 f" using r(3) t(4) by simp
  then obtain s' where s': "pt_free_frame F f s2 = Some s'" "src s'" "statics_same s2 s'" "pt_mem s' = pt_mem s2"
    "R s' = (R s2)(f := R s2 f - 1)" "A s' = (if R s2 f = 1 then insert f (A s2) else A s2)"
    using free_source [OF r(1)] by blast
  have Rf: "R s f = 0" using avail_refs [OF sourced_good [OF assms(3)] t(2)] .
  have "R s' = R s" using s'(5) r(3) t(4) Rf by auto
  moreover have "A s' = A s" using s'(6) r(3,4) t(2,3,4) by auto
  moreover have "pt_mem s' u = pt_mem s u" if "u \<notin> A s" for u
  proof -
    have "u \<noteq> f" "u \<notin> A s1" using that t(2,3) by auto
    then show ?thesis using s'(4) r(5) t(5) by simp
  qed
  moreover have "statics_same s s'" using statics_trans [OF statics_trans [OF t(1) r(2)] s'(3)] .
  ultimately show ?thesis using s'(1,2) by (auto simp: restored_def)
qed

lemma as_map_cases:
  assumes ok: "space_ok s sp"
  obtains e where "as_map F sp va physical flags s = Some (s, Err e)" "validate_user_mapping va physical flags = Err e"
  | s' e where "as_map F sp va physical flags s = Some (s', Err e)" "map_failed s s' (as_root sp) va e"
  | s' where "as_map F sp va physical flags s = Some (s', Ok ())" "user_page va" "leaf (pt_mem s) (as_root sp) (va_path va) = None"
      "mapped s s' (as_root sp) va (physical OR flags)"
proof (cases "validate_user_mapping va physical flags")
  case (Err e)
  then show thesis using that(1) by (simp add: as_map_def)
next
  case (Ok u)
  then have up: "user_page va"
    by (auto simp: validate_user_mapping_def validate_range_def user_page_def not_le split: if_splits)
  then have va: "va < 2 ^ 47" by (simp add: user_page_def)
  have us: "uspace s (as_root sp)" using ok unfolding space_ok_def by blast
  have run: "as_map F sp va physical flags s = map_page_in_root F (as_root sp) va physical flags s" using Ok by (simp add: as_map_def)
  show thesis
  proof (rule map_cases [OF us va, of physical flags])
    fix s' e
    assume "map_page_in_root F (as_root sp) va physical flags s = Some (s', Err e)" "map_failed s s' (as_root sp) va e"
    then show thesis using that(2) run by simp
  next
    fix s'
    assume "map_page_in_root F (as_root sp) va physical flags s = Some (s', Ok ())"
      "\<not> bit (ent 256 (pt_mem s) (as_root sp) (va_path va)) 0" "mapped s s' (as_root sp) va (physical OR flags)"
    then show thesis using that(3) run up by (simp add: leaf_def)
  qed
qed

text \<open>A successful map: the other mappings of the space, and the step it is.\<close>

lemma mapped_space:
  assumes ok: "space_ok s sp" and m: "mapped s s' (as_root sp) va e" and up: "user_page va"
    and none: "leaf (pt_mem s) (as_root sp) (va_path va) = None" and e: "bit e 0" and pml4: "pt_pml4 s \<notin> managed s"
  shows "uspace s' (as_root sp)" "full (pt_mem s') (as_root sp)"
    "\<And>vb. user_page vb \<Longrightarrow> leaf (pt_mem s') (as_root sp) (va_path vb)
        = (if vb = va then Some e else leaf (pt_mem s) (as_root sp) (va_path vb))"
    "\<And>i. 256 \<le> i \<Longrightarrow> i < 512 \<Longrightarrow> pt_mem s' (as_root sp) i = pt_mem s' (pt_pml4 s') i"
    "\<And>u. R s' u = R s u + (if u \<in> ran (T s' (as_root sp)) - ran (T s (as_root sp)) then 1 else 0)"
    "managed s' = managed s"
    "\<And>u. u \<notin> A s \<Longrightarrow> u \<in> ran (T s' (as_root sp)) \<Longrightarrow> u \<in> ran (T s (as_root sp))"
proof -
  let ?r = "as_root sp"
  have us: "uspace s ?r" using ok unfolding space_ok_def by blast
  show us': "uspace s' ?r" and fl: "full (pt_mem s') ?r" using ok m e unfolding mapped_def space_ok_def by blast+
  show "leaf (pt_mem s') ?r (va_path vb) = (if vb = va then Some e else leaf (pt_mem s) ?r (va_path vb))" if vb: "user_page vb" for vb
  proof -
    have "ent 256 (pt_mem s') ?r (va_path vb) = (if va_path vb = va_path va then e else ent 256 (pt_mem s) ?r (va_path vb))"
      using m va_path_length [of vb] unfolding mapped_def by blast
    then show ?thesis using va_path_inj [OF vb up] e by (auto simp: leaf_def)
  qed
  show sub: "u \<in> ran (T s ?r)" if "u \<notin> A s" "u \<in> ran (T s' ?r)" for u using that m unfolding mapped_def by blast
  show Req: "R s' u = R s u + (if u \<in> ran (T s' ?r) - ran (T s ?r) then 1 else 0)" for u
  proof -
    have "R s' u = (if u \<in> ran (T s' ?r) then 1 else R s u)" using m unfolding mapped_def by (metis (mono_tags, lifting))
    moreover have "R s u = 0" if "u \<in> ran (T s' ?r)" "u \<notin> ran (T s ?r)"
      using that sub avail_refs [OF sourced_good, of s u] us by blast
    moreover have "R s u = 1" if "u \<in> ran (T s ?r)" using ran_refs [OF us that] .
    moreover have "u \<in> ran (T s' ?r)" if "u \<in> ran (T s ?r)" using that m unfolding mapped_def by blast
    ultimately show ?thesis by auto
  qed
  have Aeq: "A s' = A s - ran (T s' ?r)" using m unfolding mapped_def by blast
  show "managed s' = managed s"
  proof (rule set_eqI)
    fix u
    show "u \<in> managed s' \<longleftrightarrow> u \<in> managed s"
    proof (cases "u \<in> ran (T s' ?r) - ran (T s ?r)")
      case True
      then have "u \<in> A s" using sub by blast
      then show ?thesis using Req [of u] True by (simp add: managed_def)
    next
      case False
      then have "R s' u = R s u" using Req [of u] by simp
      moreover have "0 < R s u" if "u \<in> ran (T s' ?r)" using that False ran_refs [OF us, of u] by simp
      ultimately show ?thesis unfolding managed_def Aeq by auto
    qed
  qed
  show "pt_mem s' ?r i = pt_mem s' (pt_pml4 s') i" if i: "256 \<le> i" "i < 512" for i
  proof -
    have "pt_mem s' ?r i = pt_mem s ?r i" using m i unfolding mapped_def by blast
    moreover have "pt_pml4 s \<notin> ran (T s ?r)" using pml4 ran_refs [OF us] by (force simp: managed_def)
    then have "pt_mem s' (pt_pml4 s) = pt_mem s (pt_pml4 s)" using m pml4 unfolding mapped_def managed_def by blast
    moreover have "pt_pml4 s' = pt_pml4 s" using m by (simp add: mapped_def statics_same_def)
    ultimately show ?thesis using ok i by (simp add: space_ok_def)
  qed
qed

section \<open>Writing a leaf\<close>

lemma leaf_slot_ok:
  assumes us: "uspace s (as_root sp)" and va: "va < 2 ^ 47"
  shows "leaf_slot sp va s = (case leaf (pt_mem s) (as_root sp) (va_path va) of
      None \<Rightarrow> Err AS_NotMapped | Some e \<Rightarrow> Ok (the (T s (as_root sp) (tl (va_path va))), hd (va_path va)))"
proof -
  let ?r = "as_root sp"
  obtain i4 i3 i2 i1 where ix: "table_indices va = (i4, i3, i2, i1)" by (metis prod_cases4)
  note v = user_vpath [OF ix va] and path = va_path_parts [OF ix]
  have ut: "user_tree (R s) (pt_mem s) ?r" using us by blast
  have T0: "T s ?r [] = Some ?r" by simp
  have lvl: "has (pt_mem s t i) PRESENT \<longleftrightarrow> T s ?r (i # p) \<noteq> None" "\<not> has (pt_mem s t i) HUGE"
      "T s ?r (i # p) \<noteq> None \<Longrightarrow> T s ?r (i # p) = Some (entry_frame (pt_mem s t i))"
    if t: "T s ?r p = Some t" and w: "vpath 256 (i # p)" for t i p
    using user_tree_child [OF ut t w] user_entry_bits [OF user_treeD(3) [OF ut t w]] by (auto split: if_splits)
  show ?thesis
  proof (cases "T s ?r [i4]")
    case None
    then have "T s ?r [i2, i3, i4] = None" by (simp add: tm_Cons [of _ _ _ i3] tm_Cons [of _ _ _ i2])
    then have "leaf (pt_mem s) ?r (va_path va) = None" unfolding path by (rule leaf_None)
    then show ?thesis using lvl(1) [OF T0 v(1)] None by (simp add: leaf_slot_def ix Let_def)
  next
    case p: (Some pdpt)
    then have pe: "entry_frame (pt_mem s ?r i4) = pdpt" using lvl(3) [OF T0 v(1)] by simp
    show ?thesis
    proof (cases "T s ?r [i3, i4]")
      case None
      then have "T s ?r [i2, i3, i4] = None" by (simp add: tm_Cons [of _ _ _ i2])
      then have "leaf (pt_mem s) ?r (va_path va) = None" unfolding path by (rule leaf_None)
      then show ?thesis using lvl(1) [OF T0 v(1)] lvl(1,2) [OF p v(2)] p None pe by (simp add: leaf_slot_def ix Let_def)
    next
      case q: (Some pd)
      then have qe: "entry_frame (pt_mem s pdpt i3) = pd" using lvl(3) [OF p v(2)] by simp
      show ?thesis
      proof (cases "T s ?r [i2, i3, i4]")
        case None
        then have "leaf (pt_mem s) ?r (va_path va) = None" unfolding path by (rule leaf_None)
        then show ?thesis using lvl(1) [OF T0 v(1)] lvl(1,2) [OF p v(2)] lvl(1,2) [OF q v(3)] p q None pe qe
          by (simp add: leaf_slot_def ix Let_def)
      next
        case w: (Some pt)
        then have we: "entry_frame (pt_mem s pd i2) = pt" using lvl(3) [OF q v(3)] by simp
        show ?thesis using lvl(1) [OF T0 v(1)] lvl(1,2) [OF p v(2)] lvl(1,2) [OF q v(3)] p q w pe qe we
            leaf_Some [OF w, of i1] by (simp add: leaf_slot_def ix Let_def path)
      qed
    qed
  qed
qed

lemma leaf_table:
  assumes "leaf (pt_mem s) r (va_path va) = Some e"
  obtains t where "T s r (tl (va_path va)) = Some t" "pt_mem s t (hd (va_path va)) = e" "bit e 0"
proof -
  have l: "leaf (pt_mem s) r (hd (va_path va) # tl (va_path va)) = Some e" using assms va_path_Cons [of va] by simp
  obtain t where t: "T s r (tl (va_path va)) = Some t" using l leaf_None [of "pt_mem s" r "tl (va_path va)"] by fastforce
  then show thesis using that l leaf_Some [OF t, of "hd (va_path va)"] by (auto split: if_splits)
qed

lemma owned_leaf:
  assumes ok: "space_ok s sp" and m: "m \<in> set (as_owned sp)"
  obtains e where "user_page (om_va m)" "leaf (pt_mem s) (as_root sp) (va_path (om_va m)) = Some e" "entry_frame e = om_frame m"
    "bit e 1 \<longrightarrow> R s (om_frame m) = 1"
  using assms unfolding space_ok_def owned_ok_def by blast

lemma device_leaf:
  assumes ok: "space_ok s sp" and m: "m \<in> set (as_devices sp)"
  obtains e where "user_page (om_va m)" "leaf (pt_mem s) (as_root sp) (va_path (om_va m)) = Some e" "entry_frame e = om_frame m"
    "om_frame m \<notin> managed s" "\<not> bit e 9"
  using assms unfolding space_ok_def device_ok_def by blast

lemma space_listed:
  "space_ok s sp \<Longrightarrow> user_page va \<Longrightarrow> leaf (pt_mem s) (as_root sp) (va_path va) = Some e
    \<Longrightarrow> \<exists>m \<in> set (as_owned sp @ as_devices sp). om_va m = va"
  unfolding space_ok_def by blast

lemma owned_no_table: "world_ok s (sp # rest) \<Longrightarrow> m \<in> set (as_owned sp) \<Longrightarrow> om_frame m \<notin> ran (T s (as_root sp))"
proof
  assume w: "world_ok s (sp # rest)" and m: "m \<in> set (as_owned sp)" and r: "om_frame m \<in> ran (T s (as_root sp))"
  have "uspace s (as_root sp)" using w unfolding world_ok_def space_ok_def by auto
  then have "R s (om_frame m) = 1" using ran_refs r by blast
  moreover have "0 < count_list (map om_frame (as_owned sp)) (om_frame m)" using m by (metis count_list_0_iff gr0I imageI list.set_map)
  ultimately show False using claims_le [OF w, of "om_frame m"] r by (simp add: claims_def)
qed

text \<open>A leaf that keeps its frame: protection changes and copy-on-write marks.\<close>

lemma leaf_write:
  assumes ok: "space_ok s sp" and up: "user_page va" and lf: "leaf (pt_mem s) (as_root sp) (va_path va) = Some e"
    and t: "T s (as_root sp) (tl (va_path va)) = Some t" and e': "bit e' 0" "entry_frame e' = entry_frame e"
    and wr: "\<And>m. m \<in> set (as_owned sp) \<Longrightarrow> om_va m = va \<Longrightarrow> bit e' 1 \<Longrightarrow> R s (om_frame m) = 1"
    and wd: "\<And>m. m \<in> set (as_devices sp) \<Longrightarrow> om_va m = va \<Longrightarrow> \<not> bit e' 9"
    and cl: "\<And>f. claims s sp f \<le> R s f" and pml4: "pt_pml4 s \<notin> managed s"
  defines "s' \<equiv> set_entry t (hd (va_path va)) e' s"
  shows "space_ok s' sp" "claims s' sp = claims s sp" "local_step s s' (claims s sp) (claims s sp)"
    "\<And>vb. user_page vb \<Longrightarrow> leaf (pt_mem s') (as_root sp) (va_path vb)
        = (if vb = va then Some e' else leaf (pt_mem s) (as_root sp) (va_path vb))"
    "T s' (as_root sp) = T s (as_root sp)"
proof -
  let ?r = "as_root sp"
  have us: "uspace s ?r" using ok unfolding space_ok_def by blast
  then have ut: "user_tree (R s) (pt_mem s) ?r" by blast
  have len: "length (tl (va_path va)) = 3" by simp
  note ul = user_tree_leaf [OF ut t len, of "hd (va_path va)" e', unfolded va_path_Cons [symmetric]]
  show T': "T s' ?r = T s ?r" using ul(1) by (simp add: s'_def)
  show cs: "claims s' sp = claims s sp" by (simp add: claims_def T' fun_eq_iff)
  have en: "ent 256 (pt_mem s') ?r = (ent 256 (pt_mem s) ?r)(va_path va := e')" using ul(3) by (simp add: s'_def)
  have us': "uspace s' ?r" using us ul(2) by (simp add: s'_def)
  have tr: "t \<in> ran (T s ?r)" using t by (rule ranI)
  have tcl: "claims s sp t = 1" "R s t = 1"
  proof -
    show "R s t = 1" by (rule ran_refs [OF us tr])
    then show "claims s sp t = 1" using cl [of t] tr by (simp add: claims_def)
  qed
  have oth: "pt_mem s' u = pt_mem s u" if "u \<noteq> t" for u using that by (simp add: s'_def put_other)
  have keep: "pt_mem s' u = pt_mem s u" if "claims s sp u < R s u \<or> R s u = 0" for u
    using that tcl by (intro oth) auto
  show "local_step s s' (claims s sp) (claims s sp)"
    unfolding local_step_def using us keep by (simp add: s'_def managed_def)
  show lf': "leaf (pt_mem s') ?r (va_path vb) = (if vb = va then Some e' else leaf (pt_mem s) ?r (va_path vb))" if vb: "user_page vb" for vb
    using va_path_inj [OF vb up] e'(1) by (auto simp: leaf_def en)
  have man: "managed s' = managed s" by (simp add: managed_def s'_def)
  have "owned_ok s' sp m" if m: "m \<in> set (as_owned sp)" for m
  proof -
    obtain e0 where e0: "user_page (om_va m)" "leaf (pt_mem s) ?r (va_path (om_va m)) = Some e0" "entry_frame e0 = om_frame m"
      "bit e0 1 \<longrightarrow> R s (om_frame m) = 1" using owned_leaf [OF ok m] .
    have "e0 = e" if "om_va m = va" using that e0(2) lf by simp
    then show ?thesis using e0 lf' [OF e0(1)] e'(2) wr [OF m] by (auto simp: owned_ok_def s'_def)
  qed
  moreover have "device_ok s' sp m" if m: "m \<in> set (as_devices sp)" for m
  proof -
    obtain e0 where e0: "user_page (om_va m)" "leaf (pt_mem s) ?r (va_path (om_va m)) = Some e0" "entry_frame e0 = om_frame m"
      "om_frame m \<notin> managed s" "\<not> bit e0 9" using device_leaf [OF ok m] .
    have "e0 = e" if "om_va m = va" using that e0(2) lf by simp
    then show ?thesis using e0 lf' [OF e0(1)] e'(2) wd [OF m] by (auto simp: device_ok_def man)
  qed
  moreover have "full (pt_mem s') ?r"
    unfolding full_but_def T'
  proof (intro allI impI)
    fix q
    assume "T s ?r q \<noteq> None" "q \<noteq> []"
    then obtain j where "j < 512" "bit (ent 256 (pt_mem s) ?r (j # q)) 0" using ok unfolding space_ok_def full_but_def by blast
    then show "\<exists>j < 512. bit (ent 256 (pt_mem s') ?r (j # q)) 0" using e'(1) by (auto simp: en)
  qed
  moreover have "pt_mem s' ?r i = pt_mem s' (pt_pml4 s') i" if i: "256 \<le> i" "i < 512" for i
  proof -
    have "tl (va_path va) \<noteq> []" using len by (metis list.size(3) zero_neq_numeral)
    then have "t \<noteq> ?r" using treeD [OF user_treeD(1) [OF ut] t, of "[]"] by auto
    moreover have "t \<noteq> pt_pml4 s" using tcl pml4 by (auto simp: managed_def)
    moreover have "pt_pml4 s' = pt_pml4 s" by (simp add: s'_def set_entry_def)
    ultimately show ?thesis using ok i oth [of ?r] oth [of "pt_pml4 s"] by (simp add: space_ok_def)
  qed
  moreover have "va' \<in> om_va ` set (as_owned sp @ as_devices sp)" if "user_page va'" "leaf (pt_mem s') ?r (va_path va') \<noteq> None" for va'
  proof -
    have "leaf (pt_mem s) ?r (va_path va') \<noteq> None" using that lf' [OF that(1)] lf by (auto split: if_splits)
    then show ?thesis using ok that(1) unfolding space_ok_def by blast
  qed
  ultimately show "space_ok s' sp" using ok us' unfolding space_ok_def by blast
qed

section \<open>Protection\<close>

text \<open>The entry \<open>set_leaf_flags\<close> writes.\<close>

definition protected_entry :: "w64 \<Rightarrow> w64 \<Rightarrow> bool \<Rightarrow> w64" where
  "protected_entry slot flags shared =
     entry_frame slot OR (if has flags WRITABLE \<and> shared then (flags AND NOT WRITABLE) OR COPY_ON_WRITE else flags AND NOT COPY_ON_WRITE)
       OR (slot AND (PWT OR PCD OR PAT_4K))"

lemma protected_entry_bits:
  assumes "flags_ok flags" "bit flags 0"
  shows "bit (protected_entry slot flags sh) 0" "entry_frame (protected_entry slot flags sh) = entry_frame slot"
    "bit (protected_entry slot flags sh) 1 \<longleftrightarrow> bit flags 1 \<and> \<not> sh" "bit (protected_entry slot flags sh) 2 \<longleftrightarrow> bit flags 2"
    "bit (protected_entry slot flags sh) 63 \<longleftrightarrow> bit flags 63" "bit (protected_entry slot flags sh) 9 \<longleftrightarrow> bit flags 1 \<and> sh"
    "bit (protected_entry slot flags sh) 3 \<longleftrightarrow> bit slot 3 \<or> bit flags 3" "bit (protected_entry slot flags sh) 4 \<longleftrightarrow> bit slot 4 \<or> bit flags 4"
proof -
  have fl: "\<not> bit flags n" if "12 \<le> n" "n < 52" for n using flags_ok_bits [OF assms(1)] that by blast
  show "entry_frame (protected_entry slot flags sh) = entry_frame slot"
  proof (rule bit_eqI)
    fix n
    show "bit (entry_frame (protected_entry slot flags sh)) n = bit (entry_frame slot) n"
      using fl [of n] by (auto simp: bit_entry_frame protected_entry_def bit_simps bit_flags)
  qed
qed (use assms in \<open>auto simp: protected_entry_def bit_simps bit_flags bit_entry_frame\<close>)

lemma set_leaf_flags_ok:
  assumes w: "world_ok s (sp # rest)" and up: "user_page va" and fl: "flags_ok flags" "bit flags 0"
  shows "case leaf (pt_mem s) (as_root sp) (va_path va) of
      None \<Rightarrow> set_leaf_flags F sp va flags s = (s, Err AS_NotMapped)
    | Some e \<Rightarrow> \<exists>s' sh. set_leaf_flags F sp va flags s = (s', Ok ()) \<and> world_ok s' (sp # rest)
        \<and> (\<forall>sp2 \<in> set rest. same_view s s' sp2) \<and> R s' = R s \<and> A s' = A s \<and> T s' (as_root sp) = T s (as_root sp)
        \<and> (\<forall>u. u \<notin> ran (T s (as_root sp)) \<longrightarrow> pt_mem s' u = pt_mem s u)
        \<and> claims s' sp = claims s sp \<and> (0 < R s (entry_frame e) \<longrightarrow> sh = (1 < R s (entry_frame e)))
        \<and> (\<forall>vb. user_page vb \<longrightarrow> leaf (pt_mem s') (as_root sp) (va_path vb)
             = (if vb = va then Some (protected_entry e flags sh) else leaf (pt_mem s) (as_root sp) (va_path vb)))"
proof -
  let ?r = "as_root sp"
  have ok: "space_ok s sp" and pml4: "pt_pml4 s \<notin> managed s" using w by (simp_all add: world_ok_def)
  have us: "uspace s ?r" using ok unfolding space_ok_def by blast
  have va: "va < 2 ^ 47" using up by (simp add: user_page_def)
  show ?thesis
  proof (cases "leaf (pt_mem s) ?r (va_path va)")
    case None
    then show ?thesis using leaf_slot_ok [OF us va] by (simp add: set_leaf_flags_def)
  next
    case (Some e)
    obtain t where t: "T s ?r (tl (va_path va)) = Some t" "pt_mem s t (hd (va_path va)) = e" "bit e 0" using leaf_table [OF Some] .
    define sh where "sh = (unwrap_or (fo_refcount F (entry_frame e) (pt_fr s)) 1 > 1)"
    let ?e = "protected_entry e flags sh"
    define s' where "s' = set_entry t (hd (va_path va)) ?e s"
    note b = protected_entry_bits [OF fl, of e sh]
    have run: "set_leaf_flags F sp va flags s = (s', Ok ())"
      using leaf_slot_ok [OF us va] Some t
      by (simp add: set_leaf_flags_def Let_def s'_def protected_entry_def sh_def)
    have shR: "sh = (1 < R s (entry_frame e))" if "0 < R s (entry_frame e)"
      using refcount [OF sourced_good that] us by (simp add: sh_def unwrap_or_def)
    have wr: "R s (om_frame m) = 1" if m: "m \<in> set (as_owned sp)" "om_va m = va" and b1: "bit ?e 1" for m
    proof -
      obtain e0 where e0: "leaf (pt_mem s) ?r (va_path (om_va m)) = Some e0" "entry_frame e0 = om_frame m" using owned_leaf [OF ok m(1)] .
      have fr: "entry_frame e = om_frame m" using e0 m(2) Some by simp
      have "0 < R s (om_frame m)" using claims_le [OF w, of "om_frame m"] owned_claimed [OF m(1), of s] by linarith
      then show ?thesis using shR fr b(3) b1 by auto
    qed
    have wd: "\<not> bit ?e 9" if m: "m \<in> set (as_devices sp)" "om_va m = va" for m
    proof -
      obtain e0 where e0: "leaf (pt_mem s) ?r (va_path (om_va m)) = Some e0" "entry_frame e0 = om_frame m" "om_frame m \<notin> managed s"
        by (rule device_leaf [OF ok m(1)])
      then have "R s (entry_frame e) = 0" using m(2) Some by (simp add: managed_def)
      then have "\<not> sh" using refcount_none [OF sourced_good, of s "entry_frame e"] us by (auto simp: sh_def unwrap_or_def)
      then show ?thesis using b(6) by simp
    qed
    note lw = leaf_write [OF ok up Some t(1) b(1,2) wr wd claims_le [OF w] pml4, folded s'_def]
    have wl: "world_ok s' (sp # rest)" "\<And>sp2. sp2 \<in> set rest \<Longrightarrow> same_view s s' sp2"
      using world_local [of s "[sp]" rest s' "[sp]"] w lw(1,2,3) by auto
    have mem: "pt_mem s' u = pt_mem s u" if "u \<notin> ran (T s ?r)" for u
    proof -
      have "u \<noteq> t" using that t(1) ranI by metis
      then show ?thesis by (simp add: s'_def put_other)
    qed
    have ra: "R s' = R s" "A s' = A s" by (simp_all add: s'_def)
    show ?thesis unfolding Some option.case
      by (intro exI [of _ s'] exI [of _ sh] conjI run wl(1) ra lw(5) ballI allI impI wl(2) mem shR lw(2) lw(4))
  qed
qed

section \<open>A new page\<close>

lemma page_flags_bits:
  "flags_ok (page_flags prot)" "bit (page_flags prot) 0" "bit (page_flags prot) 2"
  "bit (page_flags prot) 1 \<longleftrightarrow> p_write prot \<and> \<not> p_execute prot" "bit (page_flags prot) 63 \<longleftrightarrow> \<not> p_execute prot"
  "\<not> bit (page_flags prot) 9"
proof -
  show "flags_ok (page_flags prot)"
    unfolding flags_ok_def
    by (rule bit_eqI) (auto simp: page_flags_def PF_USER_READ_EXECUTE_def PF_USER_READ_WRITE_def PF_USER_READ_def bit_simps bit_flags bit_ADDRESS_MASK)
qed (auto simp: page_flags_def PF_USER_READ_EXECUTE_def PF_USER_READ_WRITE_def PF_USER_READ_def bit_simps bit_flags)

text \<open>A frame from the allocator that is filled with \<open>c\<close>.\<close>

lemma alloc_into:
  assumes "src s"
  obtains a where "fo_alloc F (pt_fr s) = Some (a, None)" "restored s (s\<lparr>pt_fr := a\<rparr>)" "A s = {}"
  | a f where "fo_alloc F (pt_fr s) = Some (a, Some f)" "\<And>c. taken s (s\<lparr>pt_fr := a, pt_mem := (pt_mem s)(f := c)\<rparr>) f"
proof -
  have g: "good (pt_fr s)" by (rule sourced_good [OF assms])
  obtain a r where r: "fo_alloc F (pt_fr s) = Some (a, r)" "good a"
    "case r of None \<Rightarrow> avail a = A s | Some f \<Rightarrow> f \<in> A s \<and> avail a = A s - {f}" using takes [OF g] by auto
  note ar = alloc_refs [OF g r(1)]
  show thesis
  proof (cases r)
    case None
    have "src (s\<lparr>pt_fr := a\<rparr>)" using r None ar by (intro sourced_statics [OF assms]) auto
    then have "restored s (s\<lparr>pt_fr := a\<rparr>)" using r(3) ar None by (simp add: restored_def)
    then show thesis using that(1) [of a] r(1) ar None by simp
  next
    case (Some f)
    have "src (s\<lparr>pt_fr := a, pt_mem := (pt_mem s)(f := c)\<rparr>)" for c
      using r Some ar by (intro sourced_statics [OF assms]) (auto split: if_splits)
    then have "taken s (s\<lparr>pt_fr := a, pt_mem := (pt_mem s)(f := c)\<rparr>) f" for c
      using r(3) Some ar avail_ok [OF g, of f] by (simp add: taken_def)
    then show thesis using that(2) [of a f] r(1) Some by simp
  qed
qed

lemma alloc_zeroed_ok:
  assumes "src s"
  obtains s' where "alloc_frame_zeroed F s = Some (s', None)" "restored s s'" "A s = {}"
  | s' f where "alloc_frame_zeroed F s = Some (s', Some f)" "taken s s' f" "pt_mem s' f = (\<lambda>_. 0)"
proof (rule alloc_into [OF assms])
  fix a
  assume "fo_alloc F (pt_fr s) = Some (a, None)" "restored s (s\<lparr>pt_fr := a\<rparr>)" "A s = {}"
  then show thesis using that(1) [of "s\<lparr>pt_fr := a\<rparr>"] by (simp add: alloc_frame_zeroed_def)
next
  fix a f
  assume "fo_alloc F (pt_fr s) = Some (a, Some f)" "\<And>c. taken s (s\<lparr>pt_fr := a, pt_mem := (pt_mem s)(f := c)\<rparr>) f"
  then show thesis using that(2) [of "s\<lparr>pt_fr := a, pt_mem := (pt_mem s)(f := (\<lambda>_. 0))\<rparr>" f] by (simp add: alloc_frame_zeroed_def)
qed

text \<open>
  A space with one more page: an owned one on a frame with a reference that no
  space accounts for, or one of a device.
\<close>

definition page_added :: "'a pt_state \<Rightarrow> AddressSpace \<Rightarrow> AddressSpace list \<Rightarrow> w64 \<Rightarrow> w64 \<Rightarrow> AddressSpace \<Rightarrow> bool" where
  "page_added s sp rest va e sp' \<longleftrightarrow>
     sp' = sp\<lparr>as_owned := as_owned sp @ [\<lparr>om_va = va, om_frame = entry_frame e\<rparr>]\<rparr>
       \<and> total s (sp # rest) (entry_frame e) < R s (entry_frame e) \<and> (bit e 1 \<longrightarrow> R s (entry_frame e) = 1)
     \<or> sp' = sp\<lparr>as_devices := as_devices sp @ [\<lparr>om_va = va, om_frame = entry_frame e\<rparr>]\<rparr>
       \<and> entry_frame e \<notin> managed s \<and> \<not> bit e 9"

lemma page_added_root: "page_added s sp rest va e sp' \<Longrightarrow> as_root sp' = as_root sp"
  by (auto simp: page_added_def)

lemma page_added_lists:
  assumes "page_added s sp rest va e sp'"
  shows "set (as_owned sp') \<subseteq> insert \<lparr>om_va = va, om_frame = entry_frame e\<rparr> (set (as_owned sp))"
    "set (as_devices sp') \<subseteq> insert \<lparr>om_va = va, om_frame = entry_frame e\<rparr> (set (as_devices sp))"
    "om_va ` set (as_owned sp' @ as_devices sp') = insert va (om_va ` set (as_owned sp @ as_devices sp))"
    "va \<notin> om_va ` set (as_owned sp @ as_devices sp) \<Longrightarrow> distinct (map om_va (as_owned sp @ as_devices sp))
       \<Longrightarrow> distinct (map om_va (as_owned sp' @ as_devices sp'))"
  using assms unfolding page_added_def
  by (elim disjE conjE; force)+

lemma page_added_cases:
  assumes "page_added s sp rest va e sp'" "m \<in> set (as_owned sp')" "m \<notin> set (as_owned sp)"
  shows "m = \<lparr>om_va = va, om_frame = entry_frame e\<rparr>" "total s (sp # rest) (entry_frame e) < R s (entry_frame e)"
    "bit e 1 \<longrightarrow> R s (entry_frame e) = 1"
  using assms by (auto simp: page_added_def)

lemma page_added_device:
  assumes "page_added s sp rest va e sp'" "m \<in> set (as_devices sp')" "m \<notin> set (as_devices sp)"
  shows "m = \<lparr>om_va = va, om_frame = entry_frame e\<rparr>" "entry_frame e \<notin> managed s" "\<not> bit e 9"
  using assms by (auto simp: page_added_def)

lemma add_page:
  assumes w: "world_ok s (sp # rest)" and up: "user_page va"
    and none: "leaf (pt_mem s) (as_root sp) (va_path va) = None" and m: "mapped s s2 (as_root sp) va e" and e: "bit e 0"
    and add: "page_added s sp rest va e sp'"
  shows "world_ok s2 (sp' # rest)" "\<And>sp2. sp2 \<in> set rest \<Longrightarrow> same_view s s2 sp2"
    "\<And>vb. user_page vb \<Longrightarrow> leaf (pt_mem s2) (as_root sp) (va_path vb)
        = (if vb = va then Some e else leaf (pt_mem s) (as_root sp) (va_path vb))"
    "\<And>g. 0 < R s g \<Longrightarrow> R s2 g = R s g" "\<And>g. 0 < R s g \<Longrightarrow> g \<notin> ran (T s (as_root sp)) \<Longrightarrow> pt_mem s2 g = pt_mem s g"
    "managed s2 = managed s"
    "\<And>u. R s2 u + claims s sp u + count_list (map om_frame (as_owned sp')) u
        = R s u + claims s2 sp' u + count_list (map om_frame (as_owned sp)) u"
proof -
  let ?r = "as_root sp"
  have ok: "space_ok s sp" and src: "src s" and pml4: "pt_pml4 s \<notin> managed s" using w by (simp_all add: world_ok_def)
  have us: "uspace s ?r" using ok unfolding space_ok_def by blast
  note ms = mapped_space [OF ok m up none e pml4]
  show lf: "leaf (pt_mem s2) ?r (va_path vb) = (if vb = va then Some e else leaf (pt_mem s) ?r (va_path vb))" if "user_page vb" for vb
    by (rule ms(3) [OF that])
  have nA: "g \<notin> A s" if "0 < R s g" for g using avail_refs [OF sourced_good [OF src], of g] that by fastforce
  show Rk: "R s2 g = R s g" if "0 < R s g" for g using ms(5) [of g] ms(7) [OF nA [OF that]] by auto
  show mk: "pt_mem s2 g = pt_mem s g" if "0 < R s g" "g \<notin> ran (T s ?r)" for g
    using m nA [OF that(1)] that(2) unfolding mapped_def by blast
  show man: "managed s2 = managed s" by (rule ms(6))
  have ne: "om_va x \<noteq> va" if "x \<in> set (as_owned sp @ as_devices sp)" for x
    using that owned_leaf [OF ok, of x] device_leaf [OF ok, of x] none by (metis Un_iff option.distinct(1) set_append)
  note al = page_added_lists [OF add] and rt = page_added_root [OF add]
  have ok2: "space_ok s2 sp'"
  proof -
    have "owned_ok s2 sp' x" if x: "x \<in> set (as_owned sp')" for x
    proof (cases "x \<in> set (as_owned sp)")
      case True
      obtain e0 where e0: "user_page (om_va x)" "leaf (pt_mem s) ?r (va_path (om_va x)) = Some e0" "entry_frame e0 = om_frame x"
        "bit e0 1 \<longrightarrow> R s (om_frame x) = 1" using owned_leaf [OF ok True] .
      then show ?thesis using lf [OF e0(1)] ne [of x] True Rk [of "om_frame x"] rt by (auto simp: owned_ok_def)
    next
      case False
      note n = page_added_cases [OF add x False]
      then show ?thesis using lf [OF up] Rk [of "entry_frame e"] up rt by (auto simp: owned_ok_def)
    qed
    moreover have "device_ok s2 sp' x" if x: "x \<in> set (as_devices sp')" for x
    proof (cases "x \<in> set (as_devices sp)")
      case True
      obtain e0 where e0: "user_page (om_va x)" "leaf (pt_mem s) ?r (va_path (om_va x)) = Some e0" "entry_frame e0 = om_frame x"
        "om_frame x \<notin> managed s" "\<not> bit e0 9" using device_leaf [OF ok True] .
      then show ?thesis using lf [OF e0(1)] ne [of x] True man rt by (simp add: device_ok_def)
    next
      case False
      show ?thesis using page_added_device [OF add x False] lf [OF up] up man rt by (simp add: device_ok_def)
    qed
    moreover have "distinct (map om_va (as_owned sp' @ as_devices sp'))" using al(4) ne ok unfolding space_ok_def by blast
    moreover have "vb \<in> om_va ` set (as_owned sp' @ as_devices sp')" if "user_page vb" "leaf (pt_mem s2) ?r (va_path vb) \<noteq> None" for vb
    proof (cases "vb = va")
      case False
      then have "leaf (pt_mem s) ?r (va_path vb) \<noteq> None" using lf [OF that(1)] that(2) by simp
      then show ?thesis using ok that(1) al(3) unfolding space_ok_def by blast
    qed (use al(3) in blast)
    ultimately show ?thesis using ms(1,2,4) unfolding space_ok_def rt by simp
  qed
  have sub: "ran (T s ?r) \<subseteq> ran (T s2 ?r)" using m unfolding mapped_def by blast
  have cl: "claims s2 sp u = claims s sp u + (if u \<in> ran (T s2 ?r) - ran (T s ?r) then 1 else 0)" for u
    using sub by (auto simp: claims_def)
  have loc: "local_step s s2 (claims s sp) (claims s2 sp)"
    unfolding local_step_def
  proof (intro conjI allI impI)
    show "src s2" using ms(1) by blast
    show "statics_same s s2" using m unfolding mapped_def by blast
    show "R s2 u + claims s sp u = R s u + claims s2 sp u" for u using ms(5) [of u] cl [of u] by auto
    show "claims s2 sp u = 0" if "u \<notin> A s" "claims s sp u = 0" for u using that cl [of u] ms(7) [of u] by auto
    show "pt_mem s2 u = pt_mem s u" if u: "u \<notin> A s" "claims s sp u < R s u \<or> R s u = 0" for u
    proof -
      have "u \<notin> ran (T s ?r)" using ran_refs [OF us, of u] u(2) by (auto simp: claims_def)
      then show ?thesis using m u(1) unfolding mapped_def by blast
    qed
  qed (rule man)
  show "R s2 u + claims s sp u + count_list (map om_frame (as_owned sp')) u
      = R s u + claims s2 sp' u + count_list (map om_frame (as_owned sp)) u" for u
  proof -
    have "R s2 u + claims s sp u = R s u + claims s2 sp u" using loc unfolding local_step_def by blast
    then show ?thesis unfolding claims_def rt by linarith
  qed
  have bs: "space_ok s2 x" "claims s2 x = claims s x" "same_view s s2 x" if "x \<in> set rest" for x
  proof -
    have "claims s sp f + claims s x f \<le> R s f" for f
    proof -
      have "claims s sp f + total s rest f \<le> R s f" using w by (simp add: world_ok_def)
      then show ?thesis using total_mem [OF that, of s f] by linarith
    qed
    then show "space_ok s2 x" "claims s2 x = claims s x" "same_view s s2 x"
      using bystander [OF _ loc _ pml4] w that by (auto simp: world_ok_def)
  qed
  show "same_view s s2 x" if "x \<in> set rest" for x by (rule bs(3) [OF that])
  have tr: "total s2 rest f = total s rest f" for f
    unfolding total_def using bs(2) by (metis (mono_tags, lifting) map_eq_conv)
  have "total s2 (sp' # rest) f \<le> R s2 f" for f
  proof -
    have sum: "claims s sp f + total s rest f \<le> R s f" using w by (simp add: world_ok_def)
    have R2: "R s2 f + claims s sp f = R s f + claims s2 sp f" using loc unfolding local_step_def by blast
    show ?thesis
    proof (cases "f = entry_frame e \<and> as_owned sp' \<noteq> as_owned sp")
      case True
      then have "claims s2 sp' f = claims s2 sp f + 1" "claims s sp f + total s rest f < R s f"
        using add by (auto simp: page_added_def claims_def)
      then show ?thesis using R2 tr [of f] by simp
    next
      case False
      then have "claims s2 sp' f = claims s2 sp f" using add by (auto simp: page_added_def claims_def)
      then show ?thesis using R2 sum tr [of f] by simp
    qed
  qed
  moreover have "pt_pml4 s2 \<notin> managed s2" using loc pml4 by (simp add: local_step_def statics_same_def)
  ultimately show "world_ok s2 (sp' # rest)" using ok2 bs(1) loc by (auto simp: world_ok_def local_step_def)
qed

lemma same_view_refl [simp]: "same_view s s sp"
  by (simp add: same_view_def)

lemma same_view_trans: "same_view s s1 sp \<Longrightarrow> same_view s1 s2 sp \<Longrightarrow> same_view s s2 sp"
  by (simp add: same_view_def)

text \<open>A frame that was just taken.\<close>

lemma own_page:
  assumes w: "world_ok s (sp # rest)" and tk: "taken s s1 f" and up: "user_page va"
    and none: "leaf (pt_mem s1) (as_root sp) (va_path va) = None" and m: "mapped s1 s2 (as_root sp) va (f OR flags)"
    and fl: "flags_ok flags" "bit flags 0"
  defines "sp' \<equiv> sp\<lparr>as_owned := as_owned sp @ [\<lparr>om_va = va, om_frame = f\<rparr>]\<rparr>"
  shows "world_ok s2 (sp' # rest)" "\<And>sp2. sp2 \<in> set rest \<Longrightarrow> same_view s s2 sp2"
    "\<And>vb. user_page vb \<Longrightarrow> leaf (pt_mem s2) (as_root sp) (va_path vb)
        = (if vb = va then Some (f OR flags) else leaf (pt_mem s) (as_root sp) (va_path vb))"
    "pt_mem s2 f = pt_mem s1 f" "R s2 f = 1" "\<And>g. 0 < R s g \<Longrightarrow> R s2 g = R s g \<and> (g \<notin> ran (T s (as_root sp)) \<longrightarrow> pt_mem s2 g = pt_mem s g)"
    "\<And>u. R s2 u + claims s sp u = R s u + claims s2 sp' u" "managed s2 = managed s"
proof -
  let ?r = "as_root sp"
  have w1: "world_ok s1 (sp # rest)" "claims s1 sp f = 0" "\<And>x. x \<in> set (sp # rest) \<Longrightarrow> same_view s s1 x"
    "\<And>x. x \<in> set (sp # rest) \<Longrightarrow> claims s1 x f = 0" using taken_world [OF w tk] by auto
  have ok: "space_ok s sp" and src: "src s" using w by (simp_all add: world_ok_def)
  have t: "f \<in> A s" "frame_ok f" "R s1 = (R s)(f := 1)" "\<And>u. u \<noteq> f \<Longrightarrow> pt_mem s1 u = pt_mem s u"
    using tk by (auto simp: taken_def)
  have Rf: "R s f = 0" using avail_refs [OF sourced_good [OF src] t(1)] .
  have ef: "entry_frame (f OR flags) = f" "bit (f OR flags) 0" using entry_frame_or [OF t(2) fl(1)] fl(2) by (simp_all add: bit_or_iff)
  have "total s1 (sp # rest) f = 0" unfolding total_def using w1(4) by (simp add: sum_list_eq_0_iff)
  then have add: "page_added s1 sp rest va (f OR flags) sp'" unfolding page_added_def ef(1) using t(3) by (simp add: sp'_def)
  note ap = add_page [OF w1(1) up none m ef(2) add]
  show "world_ok s2 (sp' # rest)" by (rule ap(1))
  show "same_view s s2 x" if "x \<in> set rest" for x using same_view_trans [OF w1(3) ap(2) [OF that]] that by simp
  show "leaf (pt_mem s2) ?r (va_path vb) = (if vb = va then Some (f OR flags) else leaf (pt_mem s) ?r (va_path vb))" if "user_page vb" for vb
    using ap(3) [OF that] w1(3) [of sp] by (simp add: same_view_def)
  have T1: "T s1 ?r = T s ?r" using w1(3) [of sp] by (simp add: same_view_def)
  have c1: "claims s1 sp = claims s sp" using same_view_claims [OF w1(3)] by simp
  have A1: "A s1 = A s - {f}" using tk by (simp add: taken_def)
  have "managed s1 = managed s" unfolding managed_def A1 t(3) using t(1) by auto
  then show "managed s2 = managed s" using ap(6) by simp
  show "R s2 u + claims s sp u = R s u + claims s2 sp' u" for u
    using ap(7) [of u] t(3) Rf unfolding c1 by (simp add: sp'_def split: if_splits)
  show "pt_mem s2 f = pt_mem s1 f" using ap(5) [of f] t(3) w1(2) by (simp add: claims_def split: if_splits)
  show "R s2 f = 1" using ap(4) [of f] t(3) by simp
  show "R s2 g = R s g \<and> (g \<notin> ran (T s ?r) \<longrightarrow> pt_mem s2 g = pt_mem s g)" if g: "0 < R s g" for g
  proof -
    have "g \<noteq> f" "0 < R s1 g" using Rf g t(3) by auto
    then show ?thesis using ap(4,5) [of g] t(3,4) T1 by simp
  qed
qed

lemma validate_page: "validate_user_mapping va 0 PF_USER_READ = Ok () \<longleftrightarrow> user_page va"
  by (auto simp: validate_user_mapping_def validate_range_def user_page_def page_aligned_def is_user_def is_writable_def
      is_executable_def PF_USER_READ_def bit_or_iff bit_flags not_le)

lemma NONE_flags: "flags_ok (PRESENT OR NO_EXECUTE)" "bit (PRESENT OR NO_EXECUTE) n \<longleftrightarrow> n = 0 \<or> n = 63"
proof -
  show b: "bit (PRESENT OR NO_EXECUTE) n \<longleftrightarrow> n = 0 \<or> n = 63" for n by (auto simp: bit_or_iff bit_flags)
  show "flags_ok (PRESENT OR NO_EXECUTE)" unfolding flags_ok_def by (rule bit_eqI) (auto simp: bit_and_iff b bit_ADDRESS_MASK)
qed

text \<open>Mapping a frame that was just taken.\<close>

lemma map_owned_taken:
  assumes w: "world_ok s (sp # rest)" and tk: "taken s s1 f" and fl: "flags_ok flags" "bit flags 0"
  obtains s2 e where "as_map_owned F room sp page f flags s1 = Some (s2, sp, Err e)" "restored s1 s2"
      "\<not> room \<or> validate_user_mapping page f flags \<noteq> Ok () \<or> card (A s) \<le> 3 \<or> leaf (pt_mem s) (as_root sp) (va_path page) \<noteq> None"
  | s2 where "as_map_owned F room sp page f flags s1 = Some (s2, sp\<lparr>as_owned := as_owned sp @ [\<lparr>om_va = page, om_frame = f\<rparr>]\<rparr>, Ok ())"
      "user_page page" "leaf (pt_mem s) (as_root sp) (va_path page) = None" "pt_mem s2 f = pt_mem s1 f" "R s2 f = 1"
      "world_ok s2 (sp\<lparr>as_owned := as_owned sp @ [\<lparr>om_va = page, om_frame = f\<rparr>]\<rparr> # rest)"
      "\<forall>sp2 \<in> set rest. same_view s s2 sp2"
      "\<forall>vb. user_page vb \<longrightarrow> leaf (pt_mem s2) (as_root sp) (va_path vb)
        = (if vb = page then Some (f OR flags) else leaf (pt_mem s) (as_root sp) (va_path vb))"
      "\<forall>m \<in> set (as_owned sp). pt_mem s2 (om_frame m) = pt_mem s (om_frame m)"
      "\<forall>u. R s2 u + claims s sp u = R s u + claims s2 (sp\<lparr>as_owned := as_owned sp @ [\<lparr>om_va = page, om_frame = f\<rparr>]\<rparr>) u"
      "managed s2 = managed s" "card (A s - A s2) \<le> 4"
proof (cases room)
  case False
  have "src s1" using tk by (simp add: taken_def)
  then show thesis using that(1) [of s1] restored_refl [of s1] False by (simp add: as_map_owned_def)
next
  case True
  let ?r = "as_root sp"
  have w1: "world_ok s1 (sp # rest)" "same_view s s1 sp" using taken_world [OF w tk] by auto
  have A1: "A s1 = A s - {f}" using tk by (simp add: taken_def)
  from w1 have ok1: "space_ok s1 sp" and src1: "src s1" by (simp_all add: world_ok_def)
  show thesis
  proof (rule as_map_cases [OF ok1, of page f flags])
    fix e
    assume "as_map F sp page f flags s1 = Some (s1, Err e)" "validate_user_mapping page f flags = Err e"
    then show thesis using that(1) [of s1 e] restored_refl [OF src1] True by (simp add: as_map_owned_def)
  next
    fix s2 e
    assume m: "as_map F sp page f flags s1 = Some (s2, Err e)" "map_failed s1 s2 ?r page e"
    have "card (A s) \<le> 3 \<or> leaf (pt_mem s) ?r (va_path page) \<noteq> None"
    proof (cases "bit (ent 256 (pt_mem s1) ?r (va_path page)) 0")
      case True
      then have "leaf (pt_mem s1) ?r (va_path page) \<noteq> None" by (simp add: leaf_def)
      then show ?thesis using w1(2) by (simp add: same_view_def)
    next
      case False
      then obtain a b where "A s1 \<subseteq> {a, b}" using m(2) unfolding map_failed_def by blast
      then have "A s \<subseteq> {f, a, b}" using A1 by auto
      then have "card (A s) \<le> card {f, a, b}" by (intro card_mono) auto
      also have "\<dots> \<le> 3" using card_insert_le_m1 [of 3 "{a, b}" f] card_insert_le_m1 [of 2 "{b}" a] by simp
      finally show ?thesis ..
    qed
    then show thesis using that(1) [of s2 e] True m by (simp add: as_map_owned_def map_failed_def)
  next
    fix s2
    assume m: "as_map F sp page f flags s1 = Some (s2, Ok ())" "user_page page"
      "leaf (pt_mem s1) ?r (va_path page) = None" "mapped s1 s2 ?r page (f OR flags)"
    define sp' where "sp' = sp\<lparr>as_owned := as_owned sp @ [\<lparr>om_va = page, om_frame = f\<rparr>]\<rparr>"
    note op = own_page [OF w tk m(2,3,4) fl, folded sp'_def]
    have none: "leaf (pt_mem s) ?r (va_path page) = None" using m(3) w1(2) by (simp add: same_view_def)
    have mo: "as_map_owned F room sp page f flags s1 = Some (s2, sp', Ok ())" using m(1) True by (simp add: as_map_owned_def sp'_def)
    have kept: "pt_mem s2 (om_frame x) = pt_mem s (om_frame x)" if x: "x \<in> set (as_owned sp)" for x
    proof -
      have "0 < R s (om_frame x)" using claims_le [OF w, of "om_frame x"] owned_claimed [OF x, of s] by simp
      then show ?thesis using op(6) owned_no_table [OF w x] by blast
    qed
    have "card (A s - A s2) \<le> 4"
    proof -
      have "card (A s - A s2) \<le> card (insert f (A s1 - A s2))" using A1 by (intro card_mono) auto
      also have "\<dots> \<le> Suc (card (A s1 - A s2))" by (rule card_insert_le_m1) auto
      finally show ?thesis using m(4) unfolding mapped_def by linarith
    qed
    then show thesis using that(2) [of s2, folded sp'_def] mo m(2) none op(1-5,7,8) kept by auto
  qed
qed

lemma map_one_ok:
  assumes w: "world_ok s (sp # rest)"
  obtains s' where "map_one F room prot page (s, sp) = Some ((s', sp), Err ENOMEM)" "restored s s'"
  | s' f e where "map_one F room prot page (s, sp) = Some ((s', sp\<lparr>as_owned := as_owned sp @ [\<lparr>om_va = page, om_frame = f\<rparr>]\<rparr>), Ok ())"
      "user_page page" "leaf (pt_mem s) (as_root sp) (va_path page) = None" "f \<in> A s" "pt_mem s' f = (\<lambda>_. 0)"
      "world_ok s' (sp\<lparr>as_owned := as_owned sp @ [\<lparr>om_va = page, om_frame = f\<rparr>]\<rparr> # rest)"
      "\<forall>sp2 \<in> set rest. same_view s s' sp2"
      "\<forall>vb. user_page vb \<longrightarrow> leaf (pt_mem s') (as_root sp) (va_path vb)
        = (if vb = page then Some e else leaf (pt_mem s) (as_root sp) (va_path vb))"
      "entry_frame e = f" "leaf_prot prot e" "\<forall>m \<in> set (as_owned sp). pt_mem s' (om_frame m) = pt_mem s (om_frame m)"
      "\<forall>u. R s' u + claims s sp u = R s u + claims s' (sp\<lparr>as_owned := as_owned sp @ [\<lparr>om_va = page, om_frame = f\<rparr>]\<rparr>) u"
      "managed s' = managed s"
proof -
  note fin = that
  let ?r = "as_root sp" and ?run = "map_one F room prot page (s, sp)"
  have src: "src s" using w by (simp add: world_ok_def)
  show thesis
  proof (rule alloc_zeroed_ok [OF src])
    fix s1
    assume a: "alloc_frame_zeroed F s = Some (s1, None)" "restored s s1"
    then have "?run = Some ((s1, sp), Err ENOMEM)" by (simp add: map_one_def)
    then show thesis using that(1) a(2) by blast
  next
    fix s1 f
    assume a: "alloc_frame_zeroed F s = Some (s1, Some f)" and tk: "taken s s1 f" and z: "pt_mem s1 f = (\<lambda>_. 0)"
    have undone: thesis if b: "as_map_owned F room sp page f (page_flags prot) s1 = Some (s2, sp, Err e)" "restored s1 s2" for s2 e
    proof -
      obtain s' where "pt_free_frame F f s2 = Some s'" "restored s s'" using taken_return [OF tk b(2) src] by blast
      then show thesis using fin(1) [of s'] a b(1) by (simp add: map_one_def)
    qed
    define sp' where "sp' = sp\<lparr>as_owned := as_owned sp @ [\<lparr>om_va = page, om_frame = f\<rparr>]\<rparr>"
    show thesis
    proof (rule map_owned_taken [OF w tk page_flags_bits(1,2), of room page prot, folded sp'_def])
      fix s2 e
      assume "as_map_owned F room sp page f (page_flags prot) s1 = Some (s2, sp, Err e)" "restored s1 s2"
      then show thesis by (rule undone)
    next
      fix s2
      assume mo: "as_map_owned F room sp page f (page_flags prot) s1 = Some (s2, sp', Ok ())"
        and up: "user_page page" and none: "leaf (pt_mem s) ?r (va_path page) = None"
        and f2: "pt_mem s2 f = pt_mem s1 f" "R s2 f = 1" and w2: "world_ok s2 (sp' # rest)"
        and sv: "\<forall>sp2 \<in> set rest. same_view s s2 sp2"
        and lf: "\<forall>vb. user_page vb \<longrightarrow> leaf (pt_mem s2) ?r (va_path vb)
          = (if vb = page then Some (f OR page_flags prot) else leaf (pt_mem s) ?r (va_path vb))"
        and kept: "\<forall>m \<in> set (as_owned sp). pt_mem s2 (om_frame m) = pt_mem s (om_frame m)"
        and acc: "\<forall>u. R s2 u + claims s sp u = R s u + claims s2 sp' u" "managed s2 = managed s"
      have fA: "f \<in> A s" "frame_ok f" using tk by (simp_all add: taken_def)
      have fb: "\<not> bit f n" if "n < 12 \<or> n = 63" for n using frame_ok_bits [OF fA(2), of n] that by auto
      have lp: "leaf (pt_mem s2) ?r (va_path page) = Some (f OR page_flags prot)" using lf up by simp
      show thesis
      proof (cases "prot = prot_NONE")
        case False
        have "leaf_prot prot (f OR page_flags prot)"
          using False fb [of 1] fb [of 2] fb [of 9] fb [of 63] page_flags_bits [of prot] by (simp add: leaf_prot_def bit_or_iff)
        moreover have "?run = Some ((s2, sp'), Ok ())" using a mo False by (simp add: map_one_def)
        moreover have "entry_frame (f OR page_flags prot) = f" by (rule entry_frame_or [OF fA(2) page_flags_bits(1)])
        ultimately show thesis using that(2) [of s2 f "f OR page_flags prot", folded sp'_def] up none fA(1) z f2(1) w2 sv lf acc kept by auto
      next
        case True
        have r': "as_root sp' = ?r" by (simp add: sp'_def)
        note sl = set_leaf_flags_ok [OF w2 up NONE_flags(1), unfolded r' lp option.case, simplified NONE_flags(2)]
        obtain s3 sh where s3: "set_leaf_flags F sp' page (PRESENT OR NO_EXECUTE) s2 = (s3, Ok ())" "world_ok s3 (sp' # rest)"
          "\<forall>sp2 \<in> set rest. same_view s2 s3 sp2" "R s3 = R s2 \<and> A s3 = A s2" "\<forall>u. u \<notin> ran (T s2 ?r) \<longrightarrow> pt_mem s3 u = pt_mem s2 u"
          "\<forall>vb. user_page vb \<longrightarrow> leaf (pt_mem s3) ?r (va_path vb)
             = (if vb = page then Some (protected_entry (f OR page_flags prot) (PRESENT OR NO_EXECUTE) sh) else leaf (pt_mem s2) ?r (va_path vb))"
          "claims s3 sp' = claims s2 sp'"
          using sl by auto
        let ?e = "protected_entry (f OR page_flags prot) (PRESENT OR NO_EXECUTE) sh"
        note pb = protected_entry_bits [OF NONE_flags(1), of "f OR page_flags prot" sh, simplified NONE_flags(2)]
        have "as_protect_inaccessible F sp' page s2 = (s3, Ok ())"
          using s3(1) up validate_page [of page] by (simp add: as_protect_inaccessible_def)
        then have run: "?run = Some ((s3, sp'), Ok ())" using a mo True by (simp add: map_one_def)
        have "\<not> p_write prot" "\<not> p_execute prot" using True by (simp_all add: prot_NONE_def)
        then have "leaf_prot prot ?e" unfolding leaf_prot_def using pb True by auto
        moreover have "entry_frame ?e = f" using pb entry_frame_or [OF fA(2) page_flags_bits(1)] by simp
        moreover have "pt_mem s3 f = (\<lambda>_. 0)"
        proof -
          have us2: "uspace s2 ?r" using w2 r' unfolding world_ok_def space_ok_def by fastforce
          have c: "claims s2 sp' f \<le> R s2 f" by (rule claims_le [OF w2])
          have "f \<notin> ran (T s2 ?r)" using c f2(2) by (auto simp: claims_def sp'_def split: if_splits)
          then show ?thesis using s3(5) f2(1) z by simp
        qed
        moreover have "same_view s s3 sp2" if "sp2 \<in> set rest" for sp2
          using sv s3(3) that by (simp add: same_view_def)
        moreover have "leaf (pt_mem s3) ?r (va_path vb) = (if vb = page then Some ?e else leaf (pt_mem s) ?r (va_path vb))" if "user_page vb" for vb
          using s3(6) lf that by simp
        moreover have "pt_mem s3 (om_frame x) = pt_mem s (om_frame x)" if x: "x \<in> set (as_owned sp)" for x
          using s3(5) owned_no_table [OF w2, of x] kept x by (simp add: sp'_def)
        moreover have "R s3 u + claims s sp u = R s u + claims s3 sp' u" for u using acc(1) s3(4,7) by simp
        moreover have "managed s3 = managed s" using s3(4) acc(2) by (simp add: managed_def)
        ultimately show thesis using that(2) [of s3 f ?e, folded sp'_def] run up none fA(1) s3(2) by auto
      qed
    qed
  qed
qed

section \<open>Removing a page\<close>

lemma page_entry_ok:
  assumes us: "uspace s (as_root sp)"
  shows "page_entry_inner sp va s = (if \<not> page_aligned va then Err AS_Unaligned
    else if \<not> va < 2 ^ 47 then Err (if va \<ge> KERNEL_BASE then AS_KernelAddress else AS_Noncanonical)
    else case leaf (pt_mem s) (as_root sp) (va_path va) of None \<Rightarrow> Err AS_NotMapped | Some e \<Rightarrow> Ok e)"
proof (cases "user_page va")
  case False
  then show ?thesis by (auto simp: page_entry_inner_def validate_range_def user_page_def)
next
  case True
  then have va: "va < 2 ^ 47" "page_aligned va" by (simp_all add: user_page_def)
  obtain i4 i3 i2 i1 where ix: "table_indices va = (i4, i3, i2, i1)" by (metis prod_cases4)
  note path = va_path_parts [OF ix] and w = walk_tables_user [OF us ix va(1)]
  show ?thesis
  proof (cases "T s (as_root sp) [i2, i3, i4]")
    case None
    then show ?thesis using w va leaf_None [OF None, of i1] by (simp add: page_entry_inner_def validate_range_def path)
  next
    case (Some pt)
    then show ?thesis using w va leaf_Some [OF Some, of i1] by (simp add: page_entry_inner_def validate_range_def path ix)
  qed
qed

lemma swap_remove_set:
  assumes "distinct (map om_va xs)" "i < length xs"
  shows "set (swap_remove xs i) = set xs - {xs ! i}" "distinct (map om_va (swap_remove xs i))"
    "om_va ` set (swap_remove xs i) = om_va ` set xs - {om_va (xs ! i)}"
    "count_list (map om_frame xs) f = count_list (map om_frame (swap_remove xs i)) f + (if f = om_frame (xs ! i) then 1 else 0)"
proof -
  have d: "distinct xs" using assms(1) by (simp add: distinct_map)
  show st: "set (swap_remove xs i) = set xs - {xs ! i}" by (rule swap_remove_ok(2) [OF d assms(2)])
  show "distinct (map om_va (swap_remove xs i))"
    using swap_remove_ok(1) [of "map om_va xs" i] assms map_swap_remove [OF assms(2), of om_va] by simp
  show "om_va ` set (swap_remove xs i) = om_va ` set xs - {om_va (xs ! i)}"
    unfolding st using assms by (auto simp: distinct_map inj_on_def)
  have "mset (map om_frame (swap_remove xs i)) = mset (map om_frame xs) - {#om_frame (xs ! i)#}"
    using mset_swap_remove [OF assms(2)] nth_mem [OF assms(2)] by (simp add: image_mset_Diff)
  moreover have "om_frame (xs ! i) \<in># mset (map om_frame xs)" using assms(2) by simp
  ultimately show "count_list (map om_frame xs) f = count_list (map om_frame (swap_remove xs i)) f + (if f = om_frame (xs ! i) then 1 else 0)"
    unfolding count_list_mset by (auto simp: count_eq_zero_iff [symmetric])
qed

text \<open>What is left of a space when the tables of a removed page are gone.\<close>

lemma unmapped_space:
  assumes w: "world_ok s (sp # rest)" and um: "unmapped s s' (as_root sp) va" and up: "user_page va"
  shows "uspace s' (as_root sp)" "full (pt_mem s') (as_root sp)" "statics_same s s'" "managed s' = managed s"
    "\<And>vb. user_page vb \<Longrightarrow> leaf (pt_mem s') (as_root sp) (va_path vb)
        = (if vb = va then None else leaf (pt_mem s) (as_root sp) (va_path vb))"
    "\<And>u. R s u = R s' u + (if u \<in> ran (T s (as_root sp)) - ran (T s' (as_root sp)) then 1 else 0)"
    "\<And>u. 0 < count_list (map om_frame (as_owned sp)) u \<Longrightarrow> u \<notin> ran (T s (as_root sp))"
    "\<And>i. 256 \<le> i \<Longrightarrow> i < 512 \<Longrightarrow> pt_mem s' (as_root sp) i = pt_mem s' (pt_pml4 s') i"
    "\<And>u. u \<notin> ran (T s (as_root sp)) \<Longrightarrow> pt_mem s' u = pt_mem s u" "ran (T s' (as_root sp)) \<subseteq> ran (T s (as_root sp))"
proof -
  let ?r = "as_root sp"
  have ok: "space_ok s sp" and pml4: "pt_pml4 s \<notin> managed s" using w by (simp_all add: world_ok_def)
  have us: "uspace s ?r" using ok unfolding space_ok_def by blast
  note u = um [unfolded unmapped_def]
  show us': "uspace s' ?r" "full (pt_mem s') ?r" "statics_same s s'" using u by blast+
  show mem: "pt_mem s' x = pt_mem s x" if "x \<notin> ran (T s ?r)" for x using u that by blast
  show "ran (T s' ?r) \<subseteq> ran (T s ?r)" using u by blast
  have Rf: "R s' = (\<lambda>x. if x \<in> ran (T s ?r) - ran (T s' ?r) then 0 else R s x)" using u by blast
  have R': "R s' x = (if x \<in> ran (T s ?r) - ran (T s' ?r) then 0 else R s x)" for x by (rule fun_cong [OF Rf])
  show Req: "R s x = R s' x + (if x \<in> ran (T s ?r) - ran (T s' ?r) then 1 else 0)" for x
    using R' [of x] ran_refs [OF us, of x] by auto
  have A': "A s' = A s \<union> (ran (T s ?r) - ran (T s' ?r))" using u by blast
  show "managed s' = managed s"
  proof (rule set_eqI)
    fix x
    show "x \<in> managed s' \<longleftrightarrow> x \<in> managed s"
      using R' [of x] ran_refs [OF us, of x] unfolding managed_def A' by (cases "x \<in> ran (T s ?r) - ran (T s' ?r)") auto
  qed
  show "leaf (pt_mem s') ?r (va_path vb) = (if vb = va then None else leaf (pt_mem s) ?r (va_path vb))" if vb: "user_page vb" for vb
  proof -
    have "leaf (pt_mem s') ?r (va_path vb) = (if va_path vb = va_path va then None else leaf (pt_mem s) ?r (va_path vb))"
      using u lpath_va [of vb] by blast
    then show ?thesis using va_path_inj [OF vb up] by auto
  qed
  show "x \<notin> ran (T s ?r)" if c: "0 < count_list (map om_frame (as_owned sp)) x" for x
  proof
    assume a: "x \<in> ran (T s ?r)"
    then have "claims s sp x = 1 + count_list (map om_frame (as_owned sp)) x" by (simp add: claims_def)
    then show False using claims_le [OF w, of x] ran_refs [OF us a] c by linarith
  qed
  show "pt_mem s' ?r i = pt_mem s' (pt_pml4 s') i" if i: "256 \<le> i" "i < 512" for i
  proof -
    have "pt_mem s' ?r i = pt_mem s ?r i" using u i by blast
    moreover have "pt_pml4 s \<notin> ran (T s ?r)" using pml4 ran_refs [OF us] by (force simp: managed_def)
    moreover have "pt_pml4 s' = pt_pml4 s" using us'(3) by (simp add: statics_same_def)
    ultimately show ?thesis using ok i mem by (simp add: space_ok_def)
  qed
qed

lemma drop_lists:
  assumes w: "world_ok s (sp # rest)" and um: "unmapped s s1 (as_root sp) va" and up: "user_page va"
    and lists: "set (as_owned sp') \<subseteq> set (as_owned sp)" "set (as_devices sp') \<subseteq> set (as_devices sp)" "as_root sp' = as_root sp"
      "distinct (map om_va (as_owned sp' @ as_devices sp'))"
      "om_va ` set (as_owned sp' @ as_devices sp') = om_va ` set (as_owned sp @ as_devices sp) - {va}"
    and s2: "src s2" "statics_same s1 s2" "pt_mem s2 = pt_mem s1" "managed s2 = managed s1"
      "\<And>u. R s1 u + count_list (map om_frame (as_owned sp')) u = R s2 u + count_list (map om_frame (as_owned sp)) u"
      "\<And>u. count_list (map om_frame (as_owned sp')) u \<le> count_list (map om_frame (as_owned sp)) u"
  shows "world_ok s2 (sp' # rest)" "\<forall>sp2 \<in> set rest. same_view s s2 sp2" "\<forall>x. R s2 x + claims s sp x = R s x + claims s2 sp' x" "managed s2 = managed s"
proof -
  let ?r = "as_root sp"
  note u = unmapped_space [OF w um up]
  have ok: "space_ok s sp" using w by (simp add: world_ok_def)
  have lf: "leaf (pt_mem s2) ?r (va_path vb) = leaf (pt_mem s1) ?r (va_path vb)" for vb by (simp add: s2(3))
  have T2: "T s2 ?r = T s1 ?r" by (simp add: s2(3))
  have ne: "om_va x \<noteq> va" if "x \<in> set (as_owned sp' @ as_devices sp')" for x
    using lists(5) that by (metis Diff_iff imageI insertCI)
  have Rown: "R s2 (om_frame x) = 1" if x: "x \<in> set (as_owned sp')" and R1: "R s (om_frame x) = 1" for x
  proof -
    let ?f = "om_frame x"
    have c: "0 < count_list (map om_frame (as_owned sp')) ?f" using x
      by (metis count_list_0_iff gr0I imageI list.set_map)
    then have c': "0 < count_list (map om_frame (as_owned sp)) ?f" using s2(6) [of ?f] by linarith
    have "claims s sp ?f \<le> 1" using claims_le [OF w, of ?f] R1 by simp
    then have "count_list (map om_frame (as_owned sp)) ?f \<le> 1" unfolding claims_def by simp
    then have "count_list (map om_frame (as_owned sp)) ?f = count_list (map om_frame (as_owned sp')) ?f"
      using c s2(6) [of ?f] by linarith
    moreover have "R s1 ?f = R s ?f" using u(6) [of ?f] u(7) [OF c'] by simp
    ultimately show ?thesis using s2(5) [of ?f] R1 by simp
  qed
  have ok2: "space_ok s2 sp'"
  proof -
    have "owned_ok s2 sp' x" if x: "x \<in> set (as_owned sp')" for x
    proof -
      obtain e0 where e0: "user_page (om_va x)" "leaf (pt_mem s) ?r (va_path (om_va x)) = Some e0" "entry_frame e0 = om_frame x"
        "bit e0 1 \<longrightarrow> R s (om_frame x) = 1" using owned_leaf [OF ok, of x] lists(1) x by blast
      then show ?thesis using u(5) [OF e0(1)] ne [of x] x Rown [OF x] lists(3) by (simp add: owned_ok_def lf)
    qed
    moreover have "device_ok s2 sp' x" if x: "x \<in> set (as_devices sp')" for x
    proof -
      obtain e0 where e0: "user_page (om_va x)" "leaf (pt_mem s) ?r (va_path (om_va x)) = Some e0" "entry_frame e0 = om_frame x"
        "om_frame x \<notin> managed s" "\<not> bit e0 9" using device_leaf [OF ok, of x] lists(2) x by blast
      then show ?thesis using u(4,5) ne [of x] x lists(3) s2(4) by (simp add: device_ok_def lf)
    qed
    moreover have "vb \<in> om_va ` set (as_owned sp' @ as_devices sp')" if "user_page vb" "leaf (pt_mem s2) ?r (va_path vb) \<noteq> None" for vb
    proof -
      have "vb \<noteq> va" "leaf (pt_mem s) ?r (va_path vb) \<noteq> None" using u(5) [OF that(1)] that(2) by (auto simp: lf split: if_splits)
      moreover from this(2) have "vb \<in> om_va ` set (as_owned sp @ as_devices sp)" using ok that(1) unfolding space_ok_def by blast
      ultimately show ?thesis unfolding lists(5) by simp
    qed
    moreover have "uspace s2 ?r"
    proof -
      have "R s2 t = 1" if "t \<in> ran (T s1 ?r)" for t
      proof -
        have "R s1 t = 1" using ran_refs [OF u(1) that] .
        moreover have "t \<in> ran (T s ?r)" using u(10) that by blast
        then have z: "count_list (map om_frame (as_owned sp)) t = 0" using u(7) [of t] by (meson gr0I)
        then have "count_list (map om_frame (as_owned sp')) t = 0" using s2(6) [of t] by simp
        ultimately show ?thesis using s2(5) [of t] z by simp
      qed
      then have "user_tree (R s2) (pt_mem s2) ?r"
        using u(1) unfolding user_tree_def s2(3) by (meson ranI)
      then show ?thesis using s2(1) by blast
    qed
    moreover have "pt_mem s2 ?r i = pt_mem s2 (pt_pml4 s2) i" if "256 \<le> i" "i < 512" for i
      using u(8) [OF that] s2(2,3) by (simp add: statics_same_def)
    ultimately show ?thesis using u(2) lists(3,4) unfolding space_ok_def s2(3) by simp
  qed
  have cl: "claims s2 sp' x = (if x \<in> ran (T s1 ?r) then 1 else 0) + count_list (map om_frame (as_owned sp')) x" for x
    by (simp add: claims_def lists(3) T2)
  have loc: "local_step s s2 (claims s sp) (claims s2 sp')"
    unfolding local_step_def
  proof (intro conjI allI impI)
    show "statics_same s s2" using statics_trans [OF u(3) s2(2)] .
    show "managed s2 = managed s" using s2(4) u(4) by simp
    show "R s2 x + claims s sp x = R s x + claims s2 sp' x" for x
      using s2(5) [of x] u(6) [of x] u(10) unfolding cl unfolding claims_def by (auto split: if_splits)
    show "claims s2 sp' x = 0" if "claims s sp x = 0" for x
      using that s2(6) [of x] u(10) unfolding cl unfolding claims_def by (auto split: if_splits)
    show "pt_mem s2 x = pt_mem s x" if x: "claims s sp x < R s x \<or> R s x = 0" for x
    proof -
      have "x \<notin> ran (T s ?r)"
      proof
        assume a: "x \<in> ran (T s ?r)"
        have "R s x = 1" using ran_refs [OF _ a] ok unfolding space_ok_def by blast
        then show False using x a by (simp add: claims_def)
      qed
      then show ?thesis using u(9) s2(3) by simp
    qed
  qed (rule s2(1))
  then show "world_ok s2 (sp' # rest)" "\<forall>sp2 \<in> set rest. same_view s s2 sp2"
    using world_local [of s "[sp]" rest s2 "[sp']"] w ok2 by auto
  show "\<forall>x. R s2 x + claims s sp x = R s x + claims s2 sp' x" "managed s2 = managed s" using loc unfolding local_step_def by blast+
qed

lemma unmap_one_ok:
  assumes w: "world_ok s (sp # rest)"
  obtains "unmap_one F va (s, sp) = Some (s, sp)" "\<not> user_page va \<or> leaf (pt_mem s) (as_root sp) (va_path va) = None"
  | s' sp' e where "unmap_one F va (s, sp) = Some (s', sp')" "user_page va" "leaf (pt_mem s) (as_root sp) (va_path va) = Some e"
      "world_ok s' (sp' # rest)" "\<forall>sp2 \<in> set rest. same_view s s' sp2" "as_root sp' = as_root sp"
      "\<forall>vb. user_page vb \<longrightarrow> leaf (pt_mem s') (as_root sp) (va_path vb)
        = (if vb = va then None else leaf (pt_mem s) (as_root sp) (va_path vb))"
      "\<forall>u. u \<notin> ran (T s (as_root sp)) \<longrightarrow> pt_mem s' u = pt_mem s u"
      "set (as_owned sp') = {m \<in> set (as_owned sp). om_va m \<noteq> va}" "set (as_devices sp') = {m \<in> set (as_devices sp). om_va m \<noteq> va}"
      "\<forall>u. R s' u + claims s sp u = R s u + claims s' sp' u" "managed s' = managed s"
proof -
  let ?r = "as_root sp"
  have ok: "space_ok s sp" using w by (simp add: world_ok_def)
  then have us: "uspace s ?r" and fl: "full (pt_mem s) ?r" and dv: "distinct (map om_va (as_owned sp @ as_devices sp))"
    unfolding space_ok_def by blast+
  show thesis
  proof (cases "user_page va \<and> leaf (pt_mem s) ?r (va_path va) \<noteq> None")
    case False
    then have "\<exists>e. page_entry_inner sp va s = Err e" using page_entry_ok [OF us, of va] by (auto simp: user_page_def)
    then show thesis using that(1) False by (auto simp: unmap_one_def as_unmap_mapping_def)
  next
    case True
    then obtain e where e: "leaf (pt_mem s) ?r (va_path va) = Some e" and up: "user_page va" by blast
    have pe: "page_entry_inner sp va s = Ok e" using page_entry_ok [OF us, of va] e up by (simp add: user_page_def)
    obtain s1 where s1: "unmap_page_in_root F ?r va s = Some (s1, Ok (entry_frame e))" "unmapped s s1 ?r va"
      using unmap_cases [OF us fl up] e by (metis option.distinct(1) option.inject)
    note u = unmapped_space [OF w s1(2) up]
    have src1: "src s1" using u(1) by blast
    have run: "unmap_one F va (s, sp) = (case remove_owned sp va (entry_frame e) of (sp', ow) \<Rightarrow>
        if ow = Owned then do { s \<leftarrow> pt_free_frame F (entry_frame e) s1; Some (s, sp') } else Some (s1, sp'))"
      using pe s1(1) by (simp add: unmap_one_def as_unmap_mapping_def split: prod.splits)
    have inj: "x = y" if "x \<in> set (as_owned sp @ as_devices sp)" "y \<in> set (as_owned sp @ as_devices sp)" "om_va x = om_va y" for x y
      using dv that unfolding distinct_map inj_on_def by blast
    show thesis
    proof (cases "\<exists>m \<in> set (as_devices sp). om_va m = va")
      case dev: True
      then obtain i where i: "List.find (\<lambda>i. om_va (as_devices sp ! i) = va) [0..<length (as_devices sp)] = Some i"
        using find_index_None [of "\<lambda>m. om_va m = va" "as_devices sp"] by (metis option.exhaust)
      note il = find_index [OF i]
      define sp' where "sp' = sp\<lparr>as_devices := swap_remove (as_devices sp) i\<rparr>"
      have rem: "remove_owned sp va (entry_frame e) = (sp', Borrowed)" using i by (simp add: remove_owned_def sp'_def)
      have dd: "distinct (map om_va (as_devices sp))" using dv by simp
      note sw = swap_remove_set [OF dd il(1)]
      have ow: "om_va x \<noteq> va" if "x \<in> set (as_owned sp)" for x
        using dv that il nth_mem [OF il(1)] by (auto simp: image_iff disjoint_iff)
      have lists: "set (as_owned sp') \<subseteq> set (as_owned sp)" "set (as_devices sp') \<subseteq> set (as_devices sp)" "as_root sp' = ?r"
        "distinct (map om_va (as_owned sp' @ as_devices sp'))"
        "om_va ` set (as_owned sp' @ as_devices sp') = om_va ` set (as_owned sp @ as_devices sp) - {va}"
      proof -
        have "om_va ` set (as_owned sp) - {va} = om_va ` set (as_owned sp)" using ow by blast
        then show "om_va ` set (as_owned sp' @ as_devices sp') = om_va ` set (as_owned sp @ as_devices sp) - {va}"
          using sw(3) il(2) by (simp add: sp'_def image_Un Un_Diff)
        show "distinct (map om_va (as_owned sp' @ as_devices sp'))" using sw(2,3) dv by (auto simp: sp'_def)
      qed (use sw(1) in \<open>auto simp: sp'_def\<close>)
      have d: "world_ok s1 (sp' # rest)" "\<forall>sp2 \<in> set rest. same_view s s1 sp2" "\<forall>u. R s1 u + claims s sp u = R s u + claims s1 sp' u"
          "managed s1 = managed s"
        by (rule drop_lists [OF w s1(2) up lists src1]; simp add: sp'_def)+
      have od: "set (as_owned sp') = {m \<in> set (as_owned sp). om_va m \<noteq> va}" "set (as_devices sp') = {m \<in> set (as_devices sp). om_va m \<noteq> va}"
        using ow sw(1) il(2) inj nth_mem [OF il(1)] by (auto simp: sp'_def)
      have "unmap_one F va (s, sp) = Some (s1, sp')" using run rem by simp
      then show thesis using that(2) [of s1 sp' e] up e d lists(3) u(5,9) od by blast
    next
      case nodev: False
      then have fd: "List.find (\<lambda>i. om_va (as_devices sp ! i) = va) [0..<length (as_devices sp)] = None"
        using find_index_None [of "\<lambda>m. om_va m = va" "as_devices sp"] by blast
      have "\<exists>m \<in> set (as_owned sp). om_va m = va" using space_listed [OF ok up e] nodev by auto
      then obtain i where i: "List.find (\<lambda>i. om_va (as_owned sp ! i) = va) [0..<length (as_owned sp)] = Some i"
        using find_index_None [of "\<lambda>m. om_va m = va" "as_owned sp"] by (metis option.exhaust)
      note il = find_index [OF i]
      let ?m = "as_owned sp ! i"
      have mm: "?m \<in> set (as_owned sp)" by (rule nth_mem [OF il(1)])
      obtain e0 where e0: "leaf (pt_mem s) ?r (va_path (om_va ?m)) = Some e0" "entry_frame e0 = om_frame ?m" using owned_leaf [OF ok mm] .
      then have fe: "om_frame ?m = entry_frame e" using il(2) e by simp
      define sp' where "sp' = sp\<lparr>as_owned := swap_remove (as_owned sp) i\<rparr>"
      have rem: "remove_owned sp va (entry_frame e) = (sp', Owned)" using i fd fe by (simp add: remove_owned_def sp'_def)
      have dd: "distinct (map om_va (as_owned sp))" using dv by simp
      note sw = swap_remove_set [OF dd il(1)]
      have lists: "set (as_owned sp') \<subseteq> set (as_owned sp)" "set (as_devices sp') \<subseteq> set (as_devices sp)" "as_root sp' = ?r"
        "distinct (map om_va (as_owned sp' @ as_devices sp'))"
        "om_va ` set (as_owned sp' @ as_devices sp') = om_va ` set (as_owned sp @ as_devices sp) - {va}"
      proof -
        have "om_va ` set (as_devices sp) - {va} = om_va ` set (as_devices sp)" using nodev by blast
        then show "om_va ` set (as_owned sp' @ as_devices sp') = om_va ` set (as_owned sp @ as_devices sp) - {va}"
          using sw(3) il(2) by (simp add: sp'_def image_Un Un_Diff)
        show "distinct (map om_va (as_owned sp' @ as_devices sp'))" using sw(2,3) dv by (auto simp: sp'_def)
      qed (use sw(1) in \<open>auto simp: sp'_def\<close>)
      have cpos: "0 < count_list (map om_frame (as_owned sp)) (entry_frame e)" using sw(4) [of "entry_frame e"] fe by simp
      then have "R s1 (entry_frame e) = R s (entry_frame e)" using u(6) u(7) by simp
      moreover have "0 < R s (entry_frame e)" using claims_le [OF w, of "entry_frame e"] cpos unfolding claims_def by linarith
      ultimately have "0 < R s1 (entry_frame e)" by simp
      then obtain s2 where s2: "pt_free_frame F (entry_frame e) s1 = Some s2" "src s2" "statics_same s1 s2" "pt_mem s2 = pt_mem s1"
        "R s2 = (R s1)(entry_frame e := R s1 (entry_frame e) - 1)"
        "A s2 = (if R s1 (entry_frame e) = 1 then insert (entry_frame e) (A s1) else A s1)"
        using free_source [OF src1] by blast
      have man: "managed s2 = managed s1" using \<open>0 < R s1 (entry_frame e)\<close> unfolding managed_def s2(5,6) by auto
      have d: "world_ok s2 (sp' # rest)" "\<forall>sp2 \<in> set rest. same_view s s2 sp2" "\<forall>u. R s2 u + claims s sp u = R s u + claims s2 sp' u"
          "managed s2 = managed s"
        by (rule drop_lists [OF w s1(2) up lists s2(2,3,4) man];
            use sw(4) fe \<open>0 < R s1 (entry_frame e)\<close> in \<open>simp add: sp'_def s2(5)\<close>)+
      have od: "set (as_owned sp') = {m \<in> set (as_owned sp). om_va m \<noteq> va}" "set (as_devices sp') = {m \<in> set (as_devices sp). om_va m \<noteq> va}"
        using nodev sw(1) il(2) inj mm by (auto simp: sp'_def)
      have "unmap_one F va (s, sp) = Some (s2, sp')" using run rem s2(1) by simp
      then show thesis using that(2) [of s2 sp' e] up e d lists(3) u(5,9) od s2(4) by simp
    qed
  qed
qed

end

end
