(* ===== verification/SpaceCow.thy ===== *)
theory SpaceCow
  imports SpaceOps
begin

text \<open>
  Resolving a write fault on a copy-on-write page: the page becomes writable,
  keeps its contents and stops sharing its frame.
\<close>

lemma retarget_lists:
  assumes "distinct (map om_va ms)" "m \<in> set ms" "om_va m = page"
  shows "map om_va (retarget page f ms) = map om_va ms"
    "set (retarget page f ms) = insert (m\<lparr>om_frame := f\<rparr>) (set ms - {m})"
    "count_list (map om_frame (retarget page f ms)) u + (if u = om_frame m then 1 else 0)
      = count_list (map om_frame ms) u + (if u = f then 1 else 0)"
proof -
  have "map om_va (retarget page f ms) = map om_va ms \<and> set (retarget page f ms) = insert (m\<lparr>om_frame := f\<rparr>) (set ms - {m})
    \<and> count_list (map om_frame (retarget page f ms)) u + (if u = om_frame m then 1 else 0)
      = count_list (map om_frame ms) u + (if u = f then 1 else 0)"
    using assms
  proof (induction ms)
    case (Cons x ms)
    show ?case
    proof (cases "om_va x = page")
      case True
      have xm: "x = m"
      proof (rule ccontr)
        assume "x \<noteq> m"
        then have "m \<in> set ms" using Cons.prems(2) by simp
        then show False using Cons.prems(1,3) True by (auto simp: image_iff)
      qed
      then have "m \<notin> set ms" using Cons.prems(1) by auto
      then show ?thesis using True xm by auto
    next
      case False
      then have "m \<in> set ms" using Cons.prems(2,3) by auto
      then show ?thesis using Cons.IH Cons.prems(1,3) False by auto
    qed
  qed simp
  then show "map om_va (retarget page f ms) = map om_va ms"
    "set (retarget page f ms) = insert (m\<lparr>om_frame := f\<rparr>) (set ms - {m})"
    "count_list (map om_frame (retarget page f ms)) u + (if u = om_frame m then 1 else 0)
      = count_list (map om_frame ms) u + (if u = f then 1 else 0)" by blast+
qed

lemma page_of_user:
  assumes "va < 2 ^ 47"
  shows "user_page (va AND NOT (of_nat PAGE_SIZE - 1))"
proof -
  have "bit (of_nat PAGE_SIZE - 1 :: w64) n \<longleftrightarrow> n < 12" if "n < 64" for n
  proof -
    have m: "(of_nat PAGE_SIZE - 1 :: w64) = mask 12" by (simp add: PAGE_SIZE_def mask_eq_exp_minus_1)
    show ?thesis unfolding m using that by (simp add: bit_mask_iff)
  qed
  then have "page_aligned (va AND NOT (of_nat PAGE_SIZE - 1))"
    by (simp add: page_aligned_bits bit_and_iff bit_not_iff)
  moreover have "va AND NOT (of_nat PAGE_SIZE - 1) \<le> va" by (rule word_and_le2)
  ultimately show ?thesis using assms by (auto simp: user_page_def)
qed

text \<open>The flags of a resolved page.\<close>

definition resolved_flags :: "w64 \<Rightarrow> w64" where
  "resolved_flags e = (e AND NOT ADDRESS_MASK AND NOT COPY_ON_WRITE) OR WRITABLE"

lemma resolved_flags_bits:
  "flags_ok (resolved_flags e)" "bit (resolved_flags e) 1" "\<not> bit (resolved_flags e) 9" "bit (resolved_flags e) 0 \<longleftrightarrow> bit e 0"
  "bit (resolved_flags e) 2 \<longleftrightarrow> bit e 2" "bit (resolved_flags e) 63 \<longleftrightarrow> bit e 63"
proof -
  show "flags_ok (resolved_flags e)"
    unfolding flags_ok_def by (rule bit_eqI) (auto simp: resolved_flags_def bit_simps bit_flags bit_ADDRESS_MASK)
qed (auto simp: resolved_flags_def bit_simps bit_flags bit_ADDRESS_MASK)

context frame_source
begin

lemma set_entry_other: "u \<noteq> t \<Longrightarrow> pt_mem (set_entry t i e s) u = pt_mem s u"
  by (simp add: put_other)

text \<open>An owned page gets another frame, which was available.\<close>

lemma swap_frame:
  assumes w: "world_ok s (sp # rest)" and up: "user_page va" and m: "m \<in> set (as_owned sp)" "om_va m = va"
    and lf: "leaf (pt_mem s) (as_root sp) (va_path va) = Some e" and t: "T s (as_root sp) (tl (va_path va)) = Some t"
    and tk: "taken s s1 f" and e': "entry_frame e' = f" "bit e' 0"
    and shared: "1 < R s (om_frame m)" and s3: "pt_free_frame F (om_frame m) (set_entry t (hd (va_path va)) e' s1) = Some s3"
  defines "sp' \<equiv> sp\<lparr>as_owned := retarget va f (as_owned sp)\<rparr>"
  shows "world_ok s3 (sp' # rest)" "\<forall>sp2 \<in> set rest. same_view s s3 sp2" "R s3 f = 1" "pt_mem s3 f = pt_mem s1 f"
    "\<And>vb. user_page vb \<Longrightarrow> leaf (pt_mem s3) (as_root sp) (va_path vb)
        = (if vb = va then Some e' else leaf (pt_mem s) (as_root sp) (va_path vb))"
    "\<And>u. u \<noteq> f \<Longrightarrow> u \<noteq> t \<Longrightarrow> pt_mem s3 u = pt_mem s u" "\<And>u. R s3 u + claims s sp u = R s u + claims s3 sp' u"
    "managed s3 = managed s"
proof -
  let ?r = "as_root sp" and ?o = "om_frame m" and ?s2 = "set_entry t (hd (va_path va)) e' s1"
  have ok: "space_ok s sp" and pml4: "pt_pml4 s \<notin> managed s" and src: "src s" using w by (simp_all add: world_ok_def)
  have us: "uspace s ?r" using ok unfolding space_ok_def by blast
  have tks: "src s1" "statics_same s s1" "f \<in> A s" "A s1 = A s - {f}" "R s1 = (R s)(f := 1)" "\<And>u. u \<noteq> f \<Longrightarrow> pt_mem s1 u = pt_mem s u"
    using tk by (auto simp: taken_def)
  have Rf: "R s f = 0" using avail_refs [OF sourced_good [OF src] tks(3)] .
  have fo: "f \<noteq> ?o" using Rf shared by auto
  have w1: "world_ok s1 (sp # rest)" "claims s1 sp f = 0" "same_view s s1 sp" using taken_world [OF w tk] by auto
  have T1: "T s1 ?r = T s ?r"
  proof (rule tm_same)
    fix p u assume "T s ?r p = Some u"
    then have "R s u = 1" using us user_treeD(2) by blast
    then show "pt_mem s1 u = pt_mem s u" using tks(6) Rf by (metis zero_neq_one)
  qed
  have us1: "uspace s1 ?r" using w1(1) unfolding world_ok_def space_ok_def by auto
  then have ut1: "user_tree (R s1) (pt_mem s1) ?r" by blast
  have len: "length (tl (va_path va)) = 3" by simp
  have t1: "T s1 ?r (tl (va_path va)) = Some t" using t T1 by simp
  note ul = user_tree_leaf [OF ut1 t1 len, of "hd (va_path va)" e', unfolded va_path_Cons [symmetric]]
  have tr: "t \<in> ran (T s ?r)" using t by (rule ranI)
  have Rt: "R s t = 1" by (rule ran_refs [OF us tr])
  have tf: "t \<noteq> f" using Rf Rt by auto
  have "src ?s2" "0 < R ?s2 ?o" using tks(1,5) shared fo by simp_all
  from free_source [OF this] s3 have s3': "src s3" "statics_same ?s2 s3" "pt_mem s3 = pt_mem ?s2"
    "R s3 = (R s1)(?o := R s1 ?o - 1)" "A s3 = A s1" using tks(5) shared fo by (auto split: if_splits)
  have mem: "pt_mem s3 u = pt_mem s u" if "u \<noteq> f" "u \<noteq> t" for u using that tks(6) by (simp add: s3'(3) put_other)
  show "pt_mem s3 u = pt_mem s u" if "u \<noteq> f" "u \<noteq> t" for u by (rule mem [OF that])
  show "pt_mem s3 f = pt_mem s1 f" using tf by (simp add: s3'(3) put_other)
  have T3: "T s3 ?r = T s ?r" using ul(1) T1 by (simp add: s3'(3))
  have R3: "R s3 u = (if u = f then 1 else if u = ?o then R s ?o - 1 else R s u)" for u using s3'(4) tks(5) fo by auto
  show "R s3 f = 1" using R3 by simp
  have lf1: "leaf (pt_mem s1) ?r q = leaf (pt_mem s) ?r q" for q using w1(3) by (simp add: same_view_def)
  have en: "ent 256 (pt_mem s3) ?r = (ent 256 (pt_mem s1) ?r)(va_path va := e')" using ul(3) by (simp add: s3'(3))
  show lf': "leaf (pt_mem s3) ?r (va_path vb) = (if vb = va then Some e' else leaf (pt_mem s) ?r (va_path vb))" if vb: "user_page vb" for vb
    using va_path_inj [OF vb up] e'(2) lf1 [of "va_path vb"] by (auto simp: leaf_def en)
  show man: "managed s3 = managed s"
    unfolding managed_def s3'(5) tks(4) R3 using shared tks(3) by auto
  have dv: "distinct (map om_va (as_owned sp))" "distinct (map om_va (as_owned sp @ as_devices sp))" using ok by (auto simp: space_ok_def)
  note rt = retarget_lists [OF dv(1) m]
  have vs: "map om_va (retarget va f (as_owned sp)) = map om_va (as_owned sp)"
    "om_va ` set (retarget va f (as_owned sp)) = om_va ` set (as_owned sp)"
    by (rule rt(1)) (metis rt(1) list.set_map)
  have oT: "?o \<notin> ran (T s ?r)" using ran_refs [OF us, of ?o] shared by auto
  have ok3: "space_ok s3 sp'"
  proof -
    have "owned_ok s3 sp' x" if x: "x \<in> set (as_owned sp')" for x
    proof (cases "x = m\<lparr>om_frame := f\<rparr>")
      case True
      then show ?thesis using lf' [OF up] up m(2) e' R3 by (simp add: owned_ok_def sp'_def)
    next
      case False
      then have xs: "x \<in> set (as_owned sp)" "x \<noteq> m" using x rt(2) by (auto simp: sp'_def)
      then have xv: "om_va x \<noteq> va" using dv(1) m by (auto simp: distinct_map inj_on_def)
      obtain e0 where e0: "user_page (om_va x)" "leaf (pt_mem s) ?r (va_path (om_va x)) = Some e0" "entry_frame e0 = om_frame x"
        "bit e0 1 \<longrightarrow> R s (om_frame x) = 1" by (rule owned_leaf [OF ok xs(1)])
      have "bit e0 1 \<longrightarrow> R s3 (om_frame x) = 1" using e0(4) R3 shared by auto
      then show ?thesis using e0 lf' [OF e0(1)] xv by (simp add: owned_ok_def sp'_def)
    qed
    moreover have "device_ok s3 sp' x" if x: "x \<in> set (as_devices sp')" for x
    proof -
      have x': "x \<in> set (as_devices sp)" using x by (simp add: sp'_def)
      then have xv: "om_va x \<noteq> va" using dv(2) m by (auto simp: image_iff disjoint_iff)
      obtain e0 where e0: "user_page (om_va x)" "leaf (pt_mem s) ?r (va_path (om_va x)) = Some e0" "entry_frame e0 = om_frame x"
        "om_frame x \<notin> managed s" "\<not> bit e0 9" by (rule device_leaf [OF ok x'])
      then show ?thesis using lf' [OF e0(1)] xv by (simp add: device_ok_def sp'_def man)
    qed
    moreover have "distinct (map om_va (as_owned sp' @ as_devices sp'))" using dv(2) unfolding sp'_def by (simp add: vs)
    moreover have "vb \<in> om_va ` set (as_owned sp' @ as_devices sp')" if "user_page vb" "leaf (pt_mem s3) ?r (va_path vb) \<noteq> None" for vb
    proof -
      have "leaf (pt_mem s) ?r (va_path vb) \<noteq> None" using that(2) lf' [OF that(1)] lf by (auto split: if_splits)
      then have "vb \<in> om_va ` set (as_owned sp @ as_devices sp)" using ok that(1) unfolding space_ok_def by blast
      then show ?thesis unfolding sp'_def by (simp add: image_Un vs)
    qed
    moreover have "uspace s3 ?r"
    proof -
      have "R s3 u = 1" if "T s ?r p = Some u" for p u
        using user_treeD(2) [OF _ that] us R3 [of u] shared Rf by (auto split: if_splits)
      then have "user_tree (R s3) (pt_mem s3) ?r"
        using ul(2) T3 unfolding user_tree_def s3'(3) set_entry_mem by metis
      then show ?thesis using s3'(1) by blast
    qed
    moreover have "full (pt_mem s3) ?r"
      unfolding full_but_def T3
    proof (intro allI impI)
      fix q
      assume q: "T s ?r q \<noteq> None" "q \<noteq> []"
      have "full (pt_mem s1) ?r" using w1(1) unfolding world_ok_def space_ok_def by auto
      then obtain j where "j < 512" "bit (ent 256 (pt_mem s1) ?r (j # q)) 0" using q T1 unfolding full_but_def by auto
      then show "\<exists>j < 512. bit (ent 256 (pt_mem s3) ?r (j # q)) 0" using e'(2) by (auto simp: en)
    qed
    moreover have "pt_mem s3 ?r i = pt_mem s3 (pt_pml4 s3) i" if i: "256 \<le> i" "i < 512" for i
    proof -
      have "tl (va_path va) \<noteq> []" using len by (metis list.size(3) zero_neq_numeral)
      then have "t \<noteq> ?r" using treeD [OF user_treeD(1) [of "R s" "pt_mem s" ?r] t, of "[]"] us by auto
      moreover have "?r \<noteq> f" using Rf us user_treeD(2) [of "R s" "pt_mem s" ?r "[]" ?r] by auto
      moreover have "pt_pml4 s \<noteq> t" "pt_pml4 s \<noteq> f" using pml4 Rt tks(3) by (auto simp: managed_def)
      moreover have "pt_pml4 s3 = pt_pml4 s" using s3'(2) tks(2) by (simp add: statics_same_def set_entry_def)
      ultimately show ?thesis using ok i mem [of ?r] mem [of "pt_pml4 s"] by (simp add: space_ok_def)
    qed
    ultimately show ?thesis unfolding space_ok_def by (simp add: sp'_def)
  qed
  have cl: "claims s3 sp' u + (if u = ?o then 1 else 0) = claims s sp u + (if u = f then 1 else 0)" for u
    using rt(3) [of f u] by (simp add: claims_def sp'_def T3)
  show bal: "R s3 u + claims s sp u = R s u + claims s3 sp' u" for u
    using cl [of u] R3 [of u] Rf shared fo by (auto split: if_splits)
  have "local_step s s3 (claims s sp) (claims s3 sp')"
    unfolding local_step_def
  proof (intro conjI allI impI)
    show "statics_same s s3" using statics_trans [OF tks(2)] s3'(2) by (simp add: statics_same_def set_entry_def)
    show "managed s3 = managed s" by (rule man)
    show "R s3 u + claims s sp u = R s u + claims s3 sp' u" for u by (rule bal)
    show "claims s3 sp' u = 0" if "u \<notin> A s" "claims s sp u = 0" for u
      using cl [of u] that tks(3) by (auto split: if_splits)
    show "pt_mem s3 u = pt_mem s u" if u: "u \<notin> A s" "claims s sp u < R s u \<or> R s u = 0" for u
    proof (rule mem)
      show "u \<noteq> f" using u(1) tks(3) by auto
      show "u \<noteq> t" using u(2) Rt tr by (auto simp: claims_def)
    qed
  qed (rule s3'(1))
  then show "world_ok s3 (sp' # rest)" "\<forall>sp2 \<in> set rest. same_view s s3 sp2"
    using world_local [of s "[sp]" rest s3 "[sp']"] w ok3 by auto
qed

text \<open>
  A write fault: the page was not shared for writing, or there is no frame for
  the copy and nothing changed, or the page has a frame of its own with the same
  contents, writable, and everything else is as before.
\<close>

definition own_copy :: "'a pt_state \<Rightarrow> 'a pt_state \<Rightarrow> AddressSpace \<Rightarrow> w64 \<Rightarrow> w64 \<Rightarrow> w64 \<Rightarrow> bool" where
  "own_copy s s' sp page e f \<longleftrightarrow> R s' f = 1 \<and> pt_mem s' f = pt_mem s (entry_frame e) \<and> entry_frame (f OR resolved_flags e) = f
     \<and> (\<forall>vb. user_page vb \<longrightarrow> leaf (pt_mem s') (as_root sp) (va_path vb)
           = (if vb = page then Some (f OR resolved_flags e) else leaf (pt_mem s) (as_root sp) (va_path vb)))
     \<and> (\<forall>u. 0 < R s u \<longrightarrow> u \<notin> ran (T s (as_root sp)) \<longrightarrow> pt_mem s' u = pt_mem s u)"

lemma resolve_cow_ok:
  assumes w: "world_ok s (sp # rest)" and va: "va < 2 ^ 47"
  defines "page \<equiv> va AND NOT (of_nat PAGE_SIZE - 1)"
  obtains "resolve_cow F sp va s = Some (s, sp, NotCow)"
      "\<forall>e. leaf (pt_mem s) (as_root sp) (va_path page) = Some e \<longrightarrow> \<not> bit e 9"
  | s' e where "resolve_cow F sp va s = Some (s', sp, OutOfMemory)" "restored s s'" "A s = {}"
      "leaf (pt_mem s) (as_root sp) (va_path page) = Some e" "bit e 9" "1 < R s (entry_frame e)"
  | s' sp' e f where "resolve_cow F sp va s = Some (s', sp', Resolved)"
      "leaf (pt_mem s) (as_root sp) (va_path page) = Some e" "bit e 9"
      "world_ok s' (sp' # rest)" "\<forall>sp2 \<in> set rest. same_view s s' sp2" "as_root sp' = as_root sp"
      "own_copy s s' sp page e f" "f = entry_frame e \<longleftrightarrow> R s (entry_frame e) = 1"
      "\<forall>u. R s' u + claims s sp u = R s u + claims s' sp' u" "f = entry_frame e \<or> f \<in> A s"
      "managed s' = managed s"
proof -
  let ?r = "as_root sp"
  have ok: "space_ok s sp" and pml4: "pt_pml4 s \<notin> managed s" and src: "src s" using w by (simp_all add: world_ok_def)
  have us: "uspace s ?r" using ok unfolding space_ok_def by blast
  have up: "user_page page" unfolding page_def by (rule page_of_user [OF va])
  then have pg: "page < 2 ^ 47" by (simp add: user_page_def)
  note run0 = resolve_cow_def [of F sp va s, folded page_def, unfolded Let_def leaf_slot_ok [OF us pg]]
  show thesis
  proof (cases "\<exists>e. leaf (pt_mem s) ?r (va_path page) = Some e \<and> bit e 9")
    case False
    have "resolve_cow F sp va s = Some (s, sp, NotCow)"
    proof (cases "leaf (pt_mem s) ?r (va_path page)")
      case (Some e)
      obtain t where t: "T s ?r (tl (va_path page)) = Some t" "pt_mem s t (hd (va_path page)) = e" using leaf_table [OF Some] .
      then show ?thesis using run0 Some False by (simp add: has_bits)
    qed (simp add: run0)
    then show thesis using that(1) False by blast
  next
    case True
    then obtain e where e: "leaf (pt_mem s) ?r (va_path page) = Some e" "bit e 9" by blast
    obtain t where t: "T s ?r (tl (va_path page)) = Some t" "pt_mem s t (hd (va_path page)) = e" "bit e 0" using leaf_table [OF e(1)] .
    obtain m where m: "m \<in> set (as_owned sp @ as_devices sp)" "om_va m = page" using space_listed [OF ok up e(1)] by blast
    have mo: "m \<in> set (as_owned sp)"
    proof (rule ccontr)
      assume "m \<notin> set (as_owned sp)"
      then have "m \<in> set (as_devices sp)" using m(1) by simp
      from device_leaf [OF ok this] show False using e m(2) by (metis option.inject)
    qed
    have fr: "om_frame m = entry_frame e" using owned_leaf [OF ok mo] e(1) m(2) by (metis option.inject)
    have pos: "0 < R s (entry_frame e)" using claims_le [OF w, of "om_frame m"] owned_claimed [OF mo, of s] fr by simp
    have rc: "unwrap_or (fo_refcount F (entry_frame e) (pt_fr s)) 1 = R s (entry_frame e)"
      using refcount [OF sourced_good [OF src] pos] by (simp add: unwrap_or_def)
    note run = run0 [unfolded e(1) option.case result.case prod.case t(1) option.sel t(2) rc, simplified has_bits e(2) not_True_eq_False if_False, folded resolved_flags_def]
    show thesis
    proof (cases "R s (entry_frame e) \<le> 1")
      case True
      then have R1: "R s (entry_frame e) = 1" using pos by simp
      let ?e = "entry_frame e OR resolved_flags e"
      define s' where "s' = set_entry t (hd (va_path page)) ?e s"
      have b: "bit ?e 0" "entry_frame ?e = entry_frame e" "\<not> bit ?e 9"
        using resolved_flags_bits [of e] t(3) entry_frame_or [OF frame_ok_entry] by (simp_all add: bit_or_iff bit_entry_frame)
      have wr: "R s (om_frame x) = 1" if "x \<in> set (as_owned sp)" "om_va x = page" for x
        using owned_leaf [OF ok that(1)] e(1) that(2) R1 by (metis option.inject)
      note lw = leaf_write [OF ok up e(1) t(1) b(1,2) wr b(3) claims_le [OF w] pml4, folded s'_def]
      have wl: "world_ok s' (sp # rest)" "\<And>sp2. sp2 \<in> set rest \<Longrightarrow> same_view s s' sp2"
        using world_local [of s "[sp]" rest s' "[sp]"] w lw(1,2,3) by auto
      have mem: "pt_mem s' u = pt_mem s u" if "u \<notin> ran (T s ?r)" for u
      proof -
        have "u \<noteq> t" using that t(1) ranI by metis
        then show ?thesis by (simp add: s'_def put_other)
      qed
      have "entry_frame e \<notin> ran (T s ?r)" using owned_no_table [OF w mo] fr by simp
      then have "own_copy s s' sp page e (entry_frame e)" unfolding own_copy_def using R1 b(2) lw(4) mem by (simp add: s'_def)
      moreover have "resolve_cow F sp va s = Some (s', sp, Resolved)" using run True by (simp add: s'_def)
      moreover have "R s' = R s" "managed s' = managed s" by (simp_all add: s'_def managed_def)
      ultimately show thesis using that(3) [of s' sp e "entry_frame e"] e wl R1 lw(2) by simp
    next
      case False
      then have sh: "1 < R s (om_frame m)" using fr by simp
      show thesis
      proof (rule alloc_into [OF src])
        fix a
        assume a: "fo_alloc F (pt_fr s) = Some (a, None)" "restored s (s\<lparr>pt_fr := a\<rparr>)" "A s = {}"
        then have "resolve_cow F sp va s = Some (s\<lparr>pt_fr := a\<rparr>, sp, OutOfMemory)" using run False by simp
        then show thesis using that(2) a e sh fr by simp
      next
        fix a f
        assume a: "fo_alloc F (pt_fr s) = Some (a, Some f)" "\<And>c. taken s (s\<lparr>pt_fr := a, pt_mem := (pt_mem s)(f := c)\<rparr>) f"
        let ?e = "f OR resolved_flags e"
        define s1 where "s1 = s\<lparr>pt_fr := a, pt_mem := (pt_mem s)(f := pt_mem s (entry_frame e))\<rparr>"
        have tk: "taken s s1 f" unfolding s1_def by (rule a(2))
        then have fok: "frame_ok f" "f \<in> A s" "src s1" "R s1 = (R s)(f := 1)" by (simp_all add: taken_def)
        have Rf: "R s f = 0" using avail_refs [OF sourced_good [OF src] fok(2)] .
        have ef: "entry_frame ?e = f" by (rule entry_frame_or [OF fok(1) resolved_flags_bits(1)])
        have b0: "bit ?e 0" using resolved_flags_bits [of e] t(3) by (simp add: bit_or_iff)
        have "src (set_entry t (hd (va_path page)) ?e s1)" "0 < R (set_entry t (hd (va_path page)) ?e s1) (om_frame m)"
          using fok(3,4) sh Rf by auto
        from free_source [OF this] obtain s3 where s3: "pt_free_frame F (om_frame m) (set_entry t (hd (va_path page)) ?e s1) = Some s3"
          by blast
        define sp' where "sp' = sp\<lparr>as_owned := retarget page f (as_owned sp)\<rparr>"
        note sw = swap_frame [OF w up mo m(2) e(1) t(1) tk ef b0 sh s3, folded sp'_def]
        have "resolve_cow F sp va s = Some (s3, sp', Resolved)"
          using run False a(1) s3 fr by (simp add: s1_def sp'_def)
        moreover have "own_copy s s3 sp page e f"
          unfolding own_copy_def
        proof (intro conjI allI impI sw(3) ef sw(5))
          show "pt_mem s3 f = pt_mem s (entry_frame e)" unfolding sw(4) by (simp add: s1_def)
          show "pt_mem s3 u = pt_mem s u" if "0 < R s u" "u \<notin> ran (T s ?r)" for u
            using sw(6) [of u] that Rf t(1) by (metis ranI less_irrefl)
        qed
        moreover have "f \<noteq> entry_frame e" using Rf pos by auto
        ultimately show thesis using that(3) [of s3 sp' e f] e sw(1,2,7,8) False fok(2) by (simp add: sp'_def)
      qed
    qed
  qed
qed

end

end
