(* ===== verification/SpaceDrop.thy ===== *)
theory SpaceDrop
  imports SpaceOps
begin

text \<open>
  Dropping an address space: its tables, its owned frames and its root go back
  to the allocator, each exactly as often as the space refers to it, and no
  other space notices.
\<close>

lemma fold_opt_append: "fold_opt g (xs @ ys) s = do { s \<leftarrow> fold_opt g xs s; fold_opt g ys s }"
  by (induction xs arbitrary: s) (auto simp: bind_assoc)

text \<open>The tables at and below a path of the tree in \<open>M\<close>.\<close>

definition below :: "pmem \<Rightarrow> w64 \<Rightarrow> nat list \<Rightarrow> w64 set" where
  "below M r p = {u. \<exists>q. tm 256 M r (q @ p) = Some u}"

lemma below_None: "tm 256 M r p = None \<Longrightarrow> below M r p = {}"
  by (simp add: below_def tm_drop_None)

lemma below_children:
  assumes t: "tm 256 M r p = Some t"
  shows "below M r p = insert t (\<Union>i<512. below M r (i # p))"
proof -
  have "u = t \<or> (\<exists>i < 512. u \<in> below M r (i # p))" if q: "tm 256 M r (q @ p) = Some u" for u q
  proof (cases q rule: rev_cases)
    case (snoc ys i)
    have "vpath 256 ((ys @ [i]) @ p)" using tm_vpath [OF q] snoc by simp
    then have "i < 512" by (simp add: vpath_def)
    moreover have "u \<in> below M r (i # p)" using q snoc by (auto simp: below_def)
    ultimately show ?thesis by blast
  qed (use q t in simp)
  moreover have "t \<in> below M r p" using t unfolding below_def by (metis (mono_tags) append_Nil mem_Collect_eq)
  moreover have "u \<in> below M r p" if u: "u \<in> below M r (i # p)" for u i
  proof -
    obtain q where "tm 256 M r ((q @ [i]) @ p) = Some u" using u by (auto simp: below_def)
    then show ?thesis unfolding below_def by blast
  qed
  moreover have "\<exists>q. tm 256 M r (q @ p) = Some u" if "u \<in> below M r p" for u using that by (simp add: below_def)
  ultimately show ?thesis by (intro equalityI subsetI) (auto, blast+)
qed

lemma below_disjoint:
  assumes tr: "tree 256 M r" and u: "u \<in> below M r (i # p)"
  shows "u \<in> below M r (j # p) \<Longrightarrow> j = i" "tm 256 M r p \<noteq> Some u"
proof -
  obtain q where q: "tm 256 M r (q @ i # p) = Some u" using u by (auto simp: below_def)
  show "tm 256 M r p \<noteq> Some u"
  proof
    assume "tm 256 M r p = Some u"
    then have "q @ i # p = p" using treeD [OF tr q] by blast
    then have "length (q @ i # p) = length p" by simp
    then show False by simp
  qed
  assume "u \<in> below M r (j # p)"
  then obtain q' where q': "tm 256 M r (q' @ j # p) = Some u" by (auto simp: below_def)
  have "(q @ [i]) @ p = (q' @ [j]) @ p" using treeD [OF tr q q'] by simp
  then show "j = i" by (metis append_same_eq last_snoc)
qed

context frame_source
begin

text \<open>The frames \<open>U\<close>, referenced once, are given back; memory outside them and \<open>W\<close> stays.\<close>

definition released :: "w64 set \<Rightarrow> w64 set \<Rightarrow> 'a pt_state \<Rightarrow> 'a pt_state \<Rightarrow> bool" where
  "released U W s s' \<longleftrightarrow> src s' \<and> statics_same s s' \<and> R s' = (\<lambda>u. if u \<in> U then 0 else R s u) \<and> A s' = A s \<union> U
     \<and> (\<forall>u. u \<notin> U \<union> W \<longrightarrow> pt_mem s' u = pt_mem s u)"

lemma released_refl: "src s \<Longrightarrow> released {} W s s"
  by (simp add: released_def)

lemma released_trans: "released U W s s' \<Longrightarrow> released V W s' s'' \<Longrightarrow> released (U \<union> V) W s s''"
  unfolding released_def using statics_trans by (auto simp: fun_eq_iff)

lemma released_entry: "released U W s s' \<Longrightarrow> t \<in> W \<Longrightarrow> released U W s (set_entry t i e s')"
  unfolding released_def by (metis Un_iff put_other set_entry_fr set_entry_mem sourced_set_entry statics_updates(1))

lemma released_managed:
  assumes "released U W s s'" "\<And>u. u \<in> U \<Longrightarrow> R s u = 1"
  shows "managed s' = managed s"
proof -
  have "R s' = (\<lambda>u. if u \<in> U then 0 else R s u)" "A s' = A s \<union> U" using assms(1) by (simp_all add: released_def)
  moreover have "0 < R s u" if "u \<in> U" for u using assms(2) [OF that] by simp
  ultimately show ?thesis by (auto simp: managed_def)
qed

text \<open>A loop over the entries of a table that frees what they lead to.\<close>

lemma fold_subtrees:
  assumes tr: "tree 256 M r" and p: "tm 256 M r p = Some t" and src: "src s"
    and mem: "\<And>u. u \<in> below M r p \<Longrightarrow> pt_mem s u = M u \<and> R s u = 1"
    and step: "\<And>i x. i < n \<Longrightarrow> src x \<Longrightarrow> pt_mem x t i = M t i \<Longrightarrow> (\<And>u. u \<in> below M r (i # p) \<Longrightarrow> pt_mem x u = M u \<and> R x u = 1)
      \<Longrightarrow> \<exists>x'. g i x = Some x' \<and> released (below M r (i # p)) {t} x x' \<and> (\<forall>j. j \<noteq> i \<longrightarrow> pt_mem x' t j = pt_mem x t j)"
    and n: "n \<le> 512"
  shows "\<exists>s'. fold_opt g [0..<n] s = Some s' \<and> released (\<Union>i<n. below M r (i # p)) {t} s s' \<and> (\<forall>j \<ge> n. pt_mem s' t j = pt_mem s t j)"
  using step n
proof (induction n)
  case 0
  then show ?case using released_refl [OF src] by simp
next
  case (Suc n)
  have "\<exists>x. fold_opt g [0..<n] s = Some x \<and> released (\<Union>i<n. below M r (i # p)) {t} s x \<and> (\<forall>j \<ge> n. pt_mem x t j = pt_mem s t j)"
  proof (rule Suc.IH)
    fix i x
    assume a: "i < n" "src x" "pt_mem x t i = M t i" "\<And>u. u \<in> below M r (i # p) \<Longrightarrow> pt_mem x u = M u \<and> R x u = 1"
    have "i < Suc n" using a(1) by simp
    from Suc.prems(1) [OF this a(2,3,4)]
    show "\<exists>x'. g i x = Some x' \<and> released (below M r (i # p)) {t} x x' \<and> (\<forall>j. j \<noteq> i \<longrightarrow> pt_mem x' t j = pt_mem x t j)" .
  qed (use Suc.prems(2) in simp)
  then obtain x where x: "fold_opt g [0..<n] s = Some x" "released (\<Union>i<n. below M r (i # p)) {t} s x" "\<forall>j \<ge> n. pt_mem x t j = pt_mem s t j"
    by blast
  note rx = x(2) [unfolded released_def]
  have tin: "t \<in> below M r p" using below_children [OF p] by simp
  have fresh: "u \<notin> (\<Union>i<n. below M r (i # p))" "u \<noteq> t" if "u \<in> below M r (n # p)" for u
    using below_disjoint [OF tr that] p by (auto simp: lessThan_iff)
  have "\<exists>x'. g n x = Some x' \<and> released (below M r (n # p)) {t} x x' \<and> (\<forall>j. j \<noteq> n \<longrightarrow> pt_mem x' t j = pt_mem x t j)"
  proof (rule Suc.prems(1))
    show "src x" using rx by blast
    show "pt_mem x t n = M t n" using x(3) mem [OF tin] by simp
    fix u assume u: "u \<in> below M r (n # p)"
    then have "u \<in> below M r p" using below_children [OF p] Suc.prems(2) by auto
    then show "pt_mem x u = M u \<and> R x u = 1" using mem [of u] rx fresh [OF u] by auto
  qed simp
  then obtain x' where x': "g n x = Some x'" "released (below M r (n # p)) {t} x x'" "\<forall>j. j \<noteq> n \<longrightarrow> pt_mem x' t j = pt_mem x t j" by blast
  have "released (\<Union>i<Suc n. below M r (i # p)) {t} s x'"
    using released_trans [OF x(2) x'(2)] by (simp add: lessThan_Suc Un_commute)
  moreover have "\<forall>j \<ge> Suc n. pt_mem x' t j = pt_mem s t j" using x(3) x'(3) by auto
  ultimately show ?case using x(1) x'(1) by (simp add: fold_opt_append)
qed

lemma free_one:
  assumes "src s" "R s f = 1"
  shows "\<exists>s'. pt_free_frame F f s = Some s' \<and> released {f} {} s s'"
  using free_source [of s f] assms by (auto simp: released_def fun_eq_iff)

lemma free_table_tree_ok:
  assumes ut: "user_tree R0 M r" and p: "tm 256 M r p = Some t" and len: "length p + n = 4" "0 < length p" "0 < n"
    and src: "src s" and mem: "\<And>u. u \<in> below M r p \<Longrightarrow> pt_mem s u = M u \<and> R s u = 1"
  shows "\<exists>s'. free_table_tree n F t s = Some s' \<and> released (below M r p) {} s s'"
  using p len src mem
proof (induction n arbitrary: p t s)
  case (Suc n)
  note tr = user_treeD(1) [OF ut]
  let ?g = "\<lambda>i s. do { s \<leftarrow> (if n > 0 \<and> has (pt_mem s t i) PRESENT \<and> \<not> has (pt_mem s t i) HUGE
                       then free_table_tree n F (entry_frame (pt_mem s t i)) s else Some s); Some (set_entry t i 0 s) }"
  have step: "\<exists>x'. ?g i x = Some x' \<and> released (below M r (i # p)) {t} x x' \<and> (\<forall>j. j \<noteq> i \<longrightarrow> pt_mem x' t j = pt_mem x t j)"
    if i: "i < 512" and x: "src x" "pt_mem x t i = M t i" "\<And>u. u \<in> below M r (i # p) \<Longrightarrow> pt_mem x u = M u \<and> R x u = 1" for i x
  proof (cases "tm 256 M r (i # p)")
    case None
    have nc: "\<not> (n > 0 \<and> has (pt_mem x t i) PRESENT \<and> \<not> has (pt_mem x t i) HUGE)"
    proof
      assume c: "n > 0 \<and> has (pt_mem x t i) PRESENT \<and> \<not> has (pt_mem x t i) HUGE"
      then have "vpath 256 (i # p)" using tm_vpath [OF Suc.prems(1)] Suc.prems(2,3) i by (auto simp: vpath_def)
      then show False using None Suc.prems(1) c x(2) by (simp add: tm_Cons is_table_def)
    qed
    have "released {} {t} x (set_entry t i 0 x)" by (rule released_entry [OF released_refl [OF x(1)]]) simp
    then show ?thesis unfolding if_not_P [OF nc] below_None [OF None] by (simp add: put_apply)
  next
    case (Some f)
    then have v: "vpath 256 (i # p)" by (rule tm_vpath)
    then have n: "0 < n" "length (i # p) + n = 4" using Suc.prems(2) by (auto simp: vpath_def)
    have e: "is_table (M t i)" "f = entry_frame (M t i)" using Some Suc.prems(1) by (auto simp: tm_Cons_Some)
    obtain x1 where x1: "free_table_tree n F f x = Some x1" "released (below M r (i # p)) {} x x1"
      using Suc.IH [OF Some n(2) _ n(1) x(1,3)] by auto
    have tn: "t \<notin> below M r (i # p)" using below_disjoint(2) [OF tr] Suc.prems(1) by blast
    have r1: "released (below M r (i # p)) {t} x x1" using x1(2) by (simp add: released_def)
    have "pt_mem x1 t = pt_mem x t" using x1(2) tn by (simp add: released_def)
    moreover have "?g i x = Some (set_entry t i 0 x1)" using n(1) e x(2) x1(1) by (simp add: is_table_def)
    ultimately show ?thesis using released_entry [OF r1, of t i 0] by (simp add: put_apply)
  qed
  obtain s1 where s1: "fold_opt ?g [0..<512] s = Some s1" "released (\<Union>i<512. below M r (i # p)) {t} s s1"
    using fold_subtrees [OF tr Suc.prems(1,5,6) step order.refl] by blast
  note r1 = s1(2) [unfolded released_def]
  have tn: "t \<notin> (\<Union>i<512. below M r (i # p))" using below_disjoint(2) [OF tr] Suc.prems(1) by blast
  have "R s t = 1" using Suc.prems(6) below_children [OF Suc.prems(1)] by simp
  then have "R s1 t = 1" using r1 tn by simp
  then obtain s2 where s2: "pt_free_frame F t s1 = Some s2" "released {t} {} s1 s2" using free_one [of s1 t] r1 by blast
  have "released ((\<Union>i<512. below M r (i # p)) \<union> {t}) {t} s s2" by (rule released_trans [OF s1(2)]) (use s2(2) in \<open>simp add: released_def\<close>)
  then have "released (below M r p) {} s s2" unfolding below_children [OF Suc.prems(1)] by (simp add: released_def)
  moreover have "free_table_tree (Suc n) F t s = Some s2"
    unfolding free_table_tree.simps s1(1) bind.bind_lunit by (rule s2(1))
  ultimately show ?case by blast
qed simp

lemma free_owned:
  assumes "src s" "\<And>u. count_list (map om_frame ms) u \<le> R s u"
  shows "\<exists>s'. fold_opt (\<lambda>m. pt_free_frame F (om_frame m)) ms s = Some s' \<and> src s' \<and> statics_same s s' \<and> pt_mem s' = pt_mem s
    \<and> (\<forall>u. R s' u = R s u - count_list (map om_frame ms) u) \<and> managed s' = managed s"
  using assms
proof (induction ms arbitrary: s)
  case (Cons m ms)
  let ?f = "om_frame m"
  have pos: "0 < R s ?f" using Cons.prems(2) [of ?f] by simp
  from free_source [OF Cons.prems(1) this] obtain s1 where s1: "pt_free_frame F ?f s = Some s1" "src s1" "statics_same s s1" "pt_mem s1 = pt_mem s"
    "R s1 = (R s)(?f := R s ?f - 1)" "A s1 = (if R s ?f = 1 then insert ?f (A s) else A s)" by blast
  have man: "managed s1 = managed s" unfolding managed_def s1(5,6) using pos by auto
  have "count_list (map om_frame ms) u \<le> R s1 u" for u using Cons.prems(2) [of u] s1(5) by (auto split: if_splits)
  from Cons.IH [OF s1(2) this] obtain s' where s': "fold_opt (\<lambda>m. pt_free_frame F (om_frame m)) ms s1 = Some s'" "src s'" "statics_same s1 s'"
    "pt_mem s' = pt_mem s1" "\<forall>u. R s' u = R s1 u - count_list (map om_frame ms) u" "managed s' = managed s1" by blast
  have "R s' u = R s u - count_list (map om_frame (m # ms)) u" for u using s'(5) s1(5) by auto
  then show ?case using s' s1 man statics_trans [OF s1(3) s'(3)] by simp
qed simp

lemma drop_tables:
  assumes us: "uspace s r"
  shows "\<exists>s'. fold_opt (\<lambda>i s. if has (pt_mem s r i) PRESENT then
                    do { s \<leftarrow> free_table_tree 3 F (entry_frame (pt_mem s r i)) s; Some (set_entry r i 0 s) }
                  else Some s) [0..<256] s = Some s' \<and> released (ran (T s r) - {r}) {r} s s'"
    (is "\<exists>s'. fold_opt ?g _ _ = _ \<and> _")
proof -
  let ?M = "pt_mem s"
  have ut: "user_tree (R s) ?M r" and src: "src s" using us by blast+
  note tr = user_treeD(1) [OF ut]
  have r: "tm 256 ?M r [] = Some r" by simp
  have ran: "below ?M r [] = ran (T s r)" by (simp add: below_def ran_def)
  have "i < 256" if "u \<in> below ?M r [i]" for i u
  proof (rule ccontr)
    assume "\<not> i < 256"
    then have "below ?M r [i] = {}" by (intro below_None) (simp add: tm_Cons vpath_def)
    then show False using that by simp
  qed
  then have "(\<Union>i<512. below ?M r [i]) = (\<Union>i<256. below ?M r [i])" by fastforce
  moreover have "r \<notin> (\<Union>i<256. below ?M r [i])" using below_disjoint(2) [OF tr] r by blast
  ultimately have U: "(\<Union>i<256. below ?M r [i]) = ran (T s r) - {r}" using below_children [OF r] unfolding ran by auto
  have one: "R s u = 1" if "u \<in> below ?M r p" for u p using that user_treeD(2) [OF ut] by (auto simp: below_def)
  have step: "\<exists>x'. ?g i x = Some x' \<and> released (below ?M r [i]) {r} x x' \<and> (\<forall>j. j \<noteq> i \<longrightarrow> pt_mem x' r j = pt_mem x r j)"
    if i: "i < 256" and x: "src x" "pt_mem x r i = ?M r i" "\<And>u. u \<in> below ?M r [i] \<Longrightarrow> pt_mem x u = ?M u \<and> R x u = 1" for i x
  proof -
    have v: "vpath 256 [i]" using i by (simp add: vpath_def)
    note c = user_tree_child [OF ut r v]
    have p: "has (?M r i) PRESENT \<longleftrightarrow> ?M r i \<noteq> 0" using user_entry_bits(2) [OF user_treeD(3) [OF ut r v]] by simp
    show ?thesis
    proof (cases "?M r i = 0")
      case True
      then show ?thesis using released_refl [OF x(1), of "{r}"] below_None [of ?M r "[i]"] c p x(2) by simp
    next
      case False
      then have f: "tm 256 ?M r [i] = Some (entry_frame (?M r i))" using c by simp
      obtain x1 where x1: "free_table_tree 3 F (entry_frame (?M r i)) x = Some x1" "released (below ?M r [i]) {} x x1"
        using free_table_tree_ok [OF ut f, of 3 x] x(1,3) by auto
      have tn: "r \<notin> below ?M r [i]" using below_disjoint(2) [OF tr] r by blast
      have r1: "released (below ?M r [i]) {r} x x1" using x1(2) by (simp add: released_def)
      have "pt_mem x1 r = pt_mem x r" using x1(2) tn by (simp add: released_def)
      moreover have "?g i x = Some (set_entry r i 0 x1)" using p False x(2) x1(1) by simp
      ultimately show ?thesis using released_entry [OF r1, of r i 0] by (simp add: put_apply)
    qed
  qed
  have "\<exists>s'. fold_opt ?g [0..<256] s = Some s' \<and> released (\<Union>i<256. below ?M r [i]) {r} s s' \<and> (\<forall>j \<ge> 256. pt_mem s' r j = pt_mem s r j)"
  proof (rule fold_subtrees [OF tr r src])
    show "pt_mem s u = ?M u \<and> R s u = 1" if "u \<in> below ?M r []" for u using one [OF that] by simp
  qed (rule step, simp_all)
  then show ?thesis unfolding U by blast
qed

text \<open>A space whose claims are covered; it need not be well formed otherwise.\<close>

lemma as_drop_step:
  assumes us: "uspace s (as_root sp)" and cl: "\<And>u. claims s sp u \<le> R s u" and cur: "current_root \<noteq> as_root sp"
  obtains s' where "as_drop F current_root sp s = Some s'" "local_step s s' (claims s sp) (\<lambda>_. 0)"
    "\<forall>u. u \<notin> ran (T s (as_root sp)) \<longrightarrow> pt_mem s' u = pt_mem s u"
proof -
  let ?r = "as_root sp" and ?c = "\<lambda>u. count_list (map om_frame (as_owned sp)) u"
  obtain s1 where s1: "fold_opt (\<lambda>i s. if has (pt_mem s ?r i) PRESENT then
                    do { s \<leftarrow> free_table_tree 3 F (entry_frame (pt_mem s ?r i)) s; Some (set_entry ?r i 0 s) }
                  else Some s) [0..<256] s = Some s1" "released (ran (T s ?r) - {?r}) {?r} s s1"
    using drop_tables [OF us] by blast
  note r1 = s1(2) [unfolded released_def]
  have rr: "?r \<in> ran (T s ?r)" by (rule ranI [of _ "[]"]) simp
  have excl: "?c u = 0" "R s u = 1" if "u \<in> ran (T s ?r)" for u
    using ran_refs [OF us that] cl [of u] that by (simp_all add: claims_def)
  have R1: "R s1 u = (if u \<in> ran (T s ?r) - {?r} then 0 else R s u)" for u using r1 by simp
  have "?c u \<le> R s1 u" for u using R1 [of u] excl(1) [of u] cl [of u] by (auto simp: claims_def)
  from free_owned [OF _ this] obtain s2 where s2: "fold_opt (\<lambda>m. pt_free_frame F (om_frame m)) (as_owned sp) s1 = Some s2" "src s2"
    "statics_same s1 s2" "pt_mem s2 = pt_mem s1" "\<forall>u. R s2 u = R s1 u - ?c u" "managed s2 = managed s1" using r1 by blast
  have "R s2 ?r = 1" using s2(5) R1 [of ?r] excl [OF rr] by simp
  then obtain s3 where s3: "pt_free_frame F ?r s2 = Some s3" "released {?r} {} s2 s3" using free_one [OF s2(2)] by blast
  note r3 = s3(2) [unfolded released_def]
  have run: "as_drop F current_root sp s = Some s3"
    unfolding as_drop_def if_not_P [OF cur] s1(1) s2(1) bind.bind_lunit by (rule s3(1))
  have Rc: "R s3 u + claims s sp u = R s u" for u
  proof -
    have "R s3 u = (if u = ?r then 0 else R s1 u - ?c u)" using r3 s2(5) by simp
    then show ?thesis using R1 [of u] excl [of u] rr cl [of u] by (auto simp: claims_def)
  qed
  have m1: "managed s1 = managed s" by (rule released_managed [OF s1(2)]) (use excl(2) in blast)
  have m3: "managed s3 = managed s2" by (rule released_managed [OF s3(2)]) (use \<open>R s2 ?r = 1\<close> in blast)
  have man: "managed s3 = managed s" using m1 s2(6) m3 by simp
  have "statics_same s s1" "statics_same s2 s3" using s1(2) s3(2) by (simp_all add: released_def)
  then have st: "statics_same s s3" using s2(3) statics_trans by blast
  have mem: "pt_mem s3 u = pt_mem s u" if "u \<notin> ran (T s ?r)" for u
  proof -
    have "u \<noteq> ?r" using that rr by blast
    then show ?thesis using r1 r3 s2(4) that by simp
  qed
  have "local_step s s3 (claims s sp) (\<lambda>_. 0)"
    unfolding local_step_def
  proof (intro conjI allI impI)
    show "src s3" using r3 by blast
    show "pt_mem s3 u = pt_mem s u" if "claims s sp u < R s u \<or> R s u = 0" for u
      using that excl(2) [of u] by (intro mem) (auto simp: claims_def)
  qed (use Rc man st in auto)
  then show thesis using that [OF run] mem by blast
qed

lemma as_drop_ok:
  assumes w: "world_ok s (sp # rest)" and cur: "current_root \<noteq> as_root sp"
  obtains s' where "as_drop F current_root sp s = Some s'" "world_ok s' rest" "\<forall>sp2 \<in> set rest. same_view s s' sp2"
    "\<forall>u. R s' u + claims s sp u = R s u" "managed s' = managed s"
    "\<forall>u. u \<notin> ran (T s (as_root sp)) \<longrightarrow> pt_mem s' u = pt_mem s u"
proof -
  have us: "uspace s (as_root sp)" using w unfolding world_ok_def space_ok_def by auto
  obtain s' where s': "as_drop F current_root sp s = Some s'" "local_step s s' (claims s sp) (\<lambda>_. 0)"
    "\<forall>u. u \<notin> ran (T s (as_root sp)) \<longrightarrow> pt_mem s' u = pt_mem s u" using as_drop_step [OF us claims_le [OF w] cur] .
  then have "\<forall>u. R s' u + claims s sp u = R s u" "managed s' = managed s" by (simp_all add: local_step_def)
  then show thesis using that [OF s'(1)] world_local [of s "[sp]" rest s' "[]"] w s'(2,3) by auto
qed

end

end
