(* ===== verification/SpaceFork.thy ===== *)
theory SpaceFork
  imports SpaceDrop SpaceCow
begin

text \<open>
  \<open>fork_cow\<close>: the child has the pages of the parent on the same frames, neither
  may write a page of its own before it has copied it, and no other space
  notices. A fork that fails gives back what it took, except on the early
  returns that drop the child without its list of frames.
\<close>

text \<open>What becomes of a leaf of the parent, and is copied to the child.\<close>

definition cow_entry :: "w64 \<Rightarrow> w64" where
  "cow_entry e = (if bit e 1 then (e AND ADDRESS_MASK) OR (((e AND NOT ADDRESS_MASK) AND NOT WRITABLE) OR COPY_ON_WRITE) else e)"

lemma cow_entry_bits:
  "entry_frame (cow_entry e) = entry_frame e" "\<not> bit (cow_entry e) 1" "bit (cow_entry e) 0 \<longleftrightarrow> bit e 0"
  "bit (cow_entry e) 2 \<longleftrightarrow> bit e 2" "bit (cow_entry e) 63 \<longleftrightarrow> bit e 63" "bit (cow_entry e) 9 \<longleftrightarrow> bit e 1 \<or> bit e 9"
proof -
  show "entry_frame (cow_entry e) = entry_frame e"
    by (rule bit_eqI) (auto simp: bit_entry_frame cow_entry_def bit_simps bit_flags bit_ADDRESS_MASK)
qed (auto simp: cow_entry_def bit_simps bit_flags bit_ADDRESS_MASK)

lemma cow_entry_idem [simp]: "cow_entry (cow_entry e) = cow_entry e"
  using cow_entry_bits(2) [of e] by (simp add: cow_entry_def [of "cow_entry e"])

lemma entry_parts: "entry_frame e OR (e AND NOT ADDRESS_MASK) = e"
  by (rule bit_eqI) (auto simp: bit_entry_frame bit_simps bit_ADDRESS_MASK)

lemma entry_flags_ok: "flags_ok (e AND NOT ADDRESS_MASK)"
  unfolding flags_ok_def by (rule bit_eqI) (auto simp: bit_simps bit_ADDRESS_MASK)

lemma count_list_two:
  assumes "m \<in> set xs" "n \<in> set xs" "n \<noteq> m" "g m = u" "g n = u"
  shows "2 \<le> count_list (map g xs) u"
proof -
  have one: "0 < count_list (map g ys) u" if "x \<in> set ys" "g x = u" for x ys
    using that by (metis count_list_0_iff gr0I imageI list.set_map)
  show ?thesis
    using assms
  proof (induction xs)
    case (Cons x xs)
    show ?case
    proof (cases "x = m \<or> x = n")
      case True
      then show ?thesis using Cons.prems one [of m xs] one [of n xs] by auto
    next
      case False
      then have "2 \<le> count_list (map g xs) u" using Cons by auto
      then show ?thesis by simp
    qed
  qed simp
qed

lemma cow_flags:
  "cow_entry e AND NOT ADDRESS_MASK = (if bit e 1 then ((e AND NOT ADDRESS_MASK) AND NOT WRITABLE) OR COPY_ON_WRITE else e AND NOT ADDRESS_MASK)"
  by (rule bit_eqI) (auto simp: cow_entry_def bit_simps bit_flags bit_ADDRESS_MASK)

context frame_source
begin

text \<open>One more reference to a frame that nobody maps writable.\<close>

lemma lend_world:
  assumes w: "world_ok s sps" and pos: "0 < R s f"
    and ro: "\<And>sp m e. sp \<in> set sps \<Longrightarrow> m \<in> set (as_owned sp) \<Longrightarrow> om_frame m = f
      \<Longrightarrow> leaf (pt_mem s) (as_root sp) (va_path (om_va m)) = Some e \<Longrightarrow> \<not> bit e 1"
    and nt: "\<And>sp. sp \<in> set sps \<Longrightarrow> f \<notin> ran (T s (as_root sp))"
    and get: "good a" "refs a = (R s)(f := R s f + 1)" "avail a = A s"
  defines "s1 \<equiv> s\<lparr>pt_fr := a\<rparr>"
  shows "world_ok s1 sps" "managed s1 = managed s" "\<And>sp. claims s1 sp = claims s sp"
proof -
  have src: "src s" using w by (simp add: world_ok_def)
  have src1: "src s1" using get pos by (intro sourced_statics [OF src]) (auto simp: s1_def split: if_splits)
  have R1: "R s1 u = (if u = f then R s f + 1 else R s u)" for u by (simp add: s1_def get)
  have M: "pt_mem s1 = pt_mem s" by (simp add: s1_def)
  show man: "managed s1 = managed s" unfolding managed_def R1 using pos by (auto simp: s1_def get)
  show cl: "claims s1 sp = claims s sp" for sp by (simp add: claims_def fun_eq_iff M)
  have "space_ok s1 sp" if sp: "sp \<in> set sps" for sp
  proof -
    let ?r = "as_root sp"
    have ok: "space_ok s sp" using w sp by (simp add: world_ok_def)
    have "R s1 t = 1" if "tm 256 (pt_mem s) ?r p = Some t" for p t
    proof -
      have "t \<in> ran (T s ?r)" using that by (rule ranI)
      then have "t \<noteq> f" using nt [OF sp] by blast
      moreover have "R s t = 1" using user_treeD(2) [OF _ that] ok unfolding space_ok_def by blast
      ultimately show ?thesis using R1 by simp
    qed
    then have "uspace s1 ?r" using ok src1 unfolding space_ok_def user_tree_def M by blast
    moreover have "owned_ok s1 sp m" if m: "m \<in> set (as_owned sp)" for m
    proof -
      obtain e0 where e0: "user_page (om_va m)" "leaf (pt_mem s) ?r (va_path (om_va m)) = Some e0" "entry_frame e0 = om_frame m"
        "bit e0 1 \<longrightarrow> R s (om_frame m) = 1" by (rule owned_leaf [OF ok m])
      have "bit e0 1 \<longrightarrow> R s1 (om_frame m) = 1" using e0(4) ro [OF sp m _ e0(2)] R1 by auto
      then show ?thesis using e0 by (simp add: owned_ok_def M)
    qed
    moreover have "device_ok s1 sp m" if m: "m \<in> set (as_devices sp)" for m
      using ok m man unfolding space_ok_def device_ok_def M by blast
    moreover have "pt_pml4 s1 = pt_pml4 s" by (simp add: s1_def)
    ultimately show ?thesis using ok unfolding space_ok_def M by simp
  qed
  moreover have "total s1 sps u \<le> R s1 u" for u
  proof -
    have "total s1 sps u = total s sps u" by (simp add: total_def cl)
    then show ?thesis using w R1 [of u] unfolding world_ok_def by (metis le_SucI Suc_eq_plus1)
  qed
  moreover have "pt_pml4 s1 \<notin> managed s1" using w man by (simp add: world_ok_def s1_def)
  ultimately show "world_ok s1 sps" using src1 by (simp add: world_ok_def)
qed

text \<open>The frame of an owned page that is not writable satisfies the conditions.\<close>

lemma owned_readonly:
  assumes w: "world_ok s (sp # rest)" and m: "m \<in> set (as_owned sp)"
    and lf: "leaf (pt_mem s) (as_root sp) (va_path (om_va m)) = Some e" "\<not> bit e 1"
  shows "0 < R s (om_frame m)" "\<And>x. x \<in> set (sp # rest) \<Longrightarrow> om_frame m \<notin> ran (T s (as_root x))"
    "\<And>x n e'. x \<in> set (sp # rest) \<Longrightarrow> n \<in> set (as_owned x) \<Longrightarrow> om_frame n = om_frame m
      \<Longrightarrow> leaf (pt_mem s) (as_root x) (va_path (om_va n)) = Some e' \<Longrightarrow> \<not> bit e' 1"
proof -
  let ?f = "om_frame m"
  have okx: "space_ok s x" if "x \<in> set (sp # rest)" for x using w that unfolding world_ok_def by blast
  show pos: "0 < R s ?f" using claims_le [OF w, of ?f] owned_claimed [OF m, of s] by simp
  have two: "claims s sp ?f + claims s x ?f \<le> R s ?f" if "x \<in> set rest" for x
  proof -
    have "claims s sp ?f + total s rest ?f \<le> R s ?f" using w by (simp add: world_ok_def)
    then show ?thesis using total_mem [OF that, of s ?f] by linarith
  qed
  show "?f \<notin> ran (T s (as_root x))" if x: "x \<in> set (sp # rest)" for x
  proof (cases "x \<in> set rest")
    case True
    show ?thesis
    proof
      assume a: "?f \<in> ran (T s (as_root x))"
      have "R s ?f = 1" using ran_refs [OF _ a] okx [OF x] unfolding space_ok_def by blast
      moreover have "0 < claims s x ?f" using a by (simp add: claims_def)
      ultimately show False using two [OF True] owned_claimed [OF m, of s] by linarith
    qed
  next
    case False
    then show ?thesis using x owned_no_table [OF w m] by simp
  qed
  show "\<not> bit e' 1" if x: "x \<in> set (sp # rest)" and n: "n \<in> set (as_owned x)" "om_frame n = ?f"
    and e': "leaf (pt_mem s) (as_root x) (va_path (om_va n)) = Some e'" for x n e'
  proof
    assume "bit e' 1"
    then have R1: "R s ?f = 1" using owned_leaf [OF okx [OF x] n(1)] e' n(2) by (metis option.inject)
    show False
    proof (cases "x \<in> set rest")
      case True
      then show False using two [OF True] owned_claimed [OF m, of s] owned_claimed [OF n(1), of s] R1 n(2) by simp
    next
      case False
      then have xs: "x = sp" using x by simp
      then have "n \<noteq> m" using e' lf \<open>bit e' 1\<close> by auto
      then have "2 \<le> count_list (map om_frame (as_owned sp)) ?f" using m n xs by (intro count_list_two [of m _ n]) auto
      then show False using claims_le [OF w, of ?f] R1 by (simp add: claims_def)
    qed
  qed
qed

lemma lent_return:
  assumes src: "src s" and pos: "0 < R s f" and a: "refs a = (R s)(f := R s f + 1)" "avail a = A s"
    and r: "restored (s\<lparr>pt_fr := a\<rparr>) s2"
  shows "\<exists>s'. pt_free_frame F f s2 = Some s' \<and> restored s s'"
proof -
  have r': "src s2" "statics_same s s2" "R s2 = (R s)(f := R s f + 1)" "A s2 = A s" "\<And>u. u \<notin> A s \<Longrightarrow> pt_mem s2 u = pt_mem s u"
    using r a by (auto simp: restored_def statics_same_def)
  have "0 < R s2 f" using r'(3) by simp
  then obtain s' where s': "pt_free_frame F f s2 = Some s'" "src s'" "statics_same s2 s'" "pt_mem s' = pt_mem s2"
    "R s' = (R s2)(f := R s2 f - 1)" "A s' = (if R s2 f = 1 then insert f (A s2) else A s2)" using free_source [OF r'(1)] by blast
  have "R s' = R s" "A s' = A s" using s'(5,6) r'(3,4) pos by auto
  then show ?thesis using s' r' statics_trans [OF r'(2) s'(3)] by (auto simp: restored_def)
qed

text \<open>The mark on the parent's page.\<close>

lemma cow_mark:
  assumes w: "world_ok s (sp # rest)" and m: "m \<in> set (as_owned sp)"
    and lf: "leaf (pt_mem s) (as_root sp) (va_path (om_va m)) = Some e"
    and t: "T s (as_root sp) (tl (va_path (om_va m))) = Some t"
  defines "s1 \<equiv> (if bit e 1 then set_entry t (hd (va_path (om_va m))) (cow_entry e) s else s)"
  shows "world_ok s1 (sp # rest)" "\<And>x. x \<in> set rest \<Longrightarrow> same_view s s1 x" "R s1 = R s" "A s1 = A s"
    "\<And>vb. user_page vb \<Longrightarrow> leaf (pt_mem s1) (as_root sp) (va_path vb)
        = (if vb = om_va m then Some (cow_entry e) else leaf (pt_mem s) (as_root sp) (va_path vb))"
    "\<And>u. u \<notin> ran (T s (as_root sp)) \<Longrightarrow> pt_mem s1 u = pt_mem s u" "\<And>x. x \<in> set (sp # rest) \<Longrightarrow> claims s1 x = claims s x"
    "managed s1 = managed s"
proof -
  have ok: "space_ok s sp" and pml4: "pt_pml4 s \<notin> managed s" using w by (simp_all add: world_ok_def)
  have up: "user_page (om_va m)" by (rule owned_leaf [OF ok m])
  have dv: "distinct (map om_va (as_owned sp @ as_devices sp))" using ok unfolding space_ok_def by blast
  have b0: "bit e 0" using lf by (simp add: leaf_def split: if_splits)
  have b: "bit (cow_entry e) 0" "entry_frame (cow_entry e) = entry_frame e" using cow_entry_bits [of e] b0 by simp_all
  have wr: "R s (om_frame n) = 1" if "n \<in> set (as_owned sp)" "om_va n = om_va m" "bit (cow_entry e) 1" for n
    using that(3) cow_entry_bits(2) [of e] by simp
  have wd: "\<not> bit (cow_entry e) 9" if "n \<in> set (as_devices sp)" "om_va n = om_va m" for n
    using dv m that by (auto simp: image_iff disjoint_iff)
  let ?s = "set_entry t (hd (va_path (om_va m))) (cow_entry e) s"
  have lw: "space_ok ?s sp" "claims ?s sp = claims s sp" "local_step s ?s (claims s sp) (claims s sp)"
    by (rule leaf_write [OF ok up lf t b wr wd claims_le [OF w] pml4]; assumption)+
  have lf': "leaf (pt_mem ?s) (as_root sp) (va_path vb)
      = (if vb = om_va m then Some (cow_entry e) else leaf (pt_mem s) (as_root sp) (va_path vb))" if "user_page vb" for vb
    by (rule leaf_write(4) [OF ok up lf t b wr wd claims_le [OF w] pml4]; (assumption | rule that))
  have cl: "claims s sp f + claims s x f \<le> R s f" if "x \<in> set rest" for x f
  proof -
    have "claims s sp f + total s rest f \<le> R s f" using w by (simp add: world_ok_def)
    then show ?thesis using total_mem [OF that, of s f] by linarith
  qed
  show "R s1 = R s" "A s1 = A s" by (simp_all add: s1_def)
  then show "managed s1 = managed s" by (simp add: managed_def)
  show "pt_mem s1 u = pt_mem s u" if u: "u \<notin> ran (T s (as_root sp))" for u
  proof -
    have "u \<noteq> t" using u t by (metis ranI)
    then show ?thesis by (simp add: s1_def put_other)
  qed
  show "leaf (pt_mem s1) (as_root sp) (va_path vb)
      = (if vb = om_va m then Some (cow_entry e) else leaf (pt_mem s) (as_root sp) (va_path vb))" if vb: "user_page vb" for vb
  proof (cases "bit e 1")
    case True
    then show ?thesis using lf' [OF vb] by (simp add: s1_def)
  next
    case False
    then show ?thesis using lf by (simp add: s1_def cow_entry_def)
  qed
  have st: "world_ok s1 (sp # rest) \<and> (\<forall>x \<in> set rest. same_view s s1 x \<and> claims s1 x = claims s x) \<and> claims s1 sp = claims s sp"
  proof (cases "bit e 1")
    case True
    have okr: "space_ok s x" if "x \<in> set rest" for x using w that by (simp add: world_ok_def)
    show ?thesis
      using True world_local [of s "[sp]" rest s1 "[sp]"] w lw(1,2,3) bystander(2,3) [OF okr lw(3) cl pml4] by (auto simp: s1_def)
  next
    case False
    then show ?thesis using w by (simp add: s1_def same_view_def)
  qed
  show "world_ok s1 (sp # rest)" using st by blast
  show "same_view s s1 x" if "x \<in> set rest" for x using st that by blast
  show "claims s1 x = claims s x" if "x \<in> set (sp # rest)" for x using st that by auto
qed

text \<open>What holds from any point of a fork to any later one.\<close>

definition forking :: "'a pt_state \<Rightarrow> 'a pt_state \<Rightarrow> AddressSpace \<Rightarrow> AddressSpace \<Rightarrow> AddressSpace \<Rightarrow> AddressSpace list \<Rightarrow> bool" where
  "forking s s' sp ch ch' rest \<longleftrightarrow> world_ok s' (sp # ch' # rest) \<and> (\<forall>x \<in> set rest. same_view s s' x) \<and> as_root ch' = as_root ch
     \<and> (\<forall>u. R s' u + claims s ch u = R s u + claims s' ch' u) \<and> managed s' = managed s \<and> claims s' sp = claims s sp
     \<and> (\<forall>m \<in> set (as_owned sp). pt_mem s' (om_frame m) = pt_mem s (om_frame m))
     \<and> (\<forall>vb. user_page vb \<longrightarrow> leaf (pt_mem s') (as_root sp) (va_path vb) = leaf (pt_mem s) (as_root sp) (va_path vb)
           \<or> leaf (pt_mem s') (as_root sp) (va_path vb) = map_option cow_entry (leaf (pt_mem s) (as_root sp) (va_path vb)))"

lemma forking_refl: "world_ok s (sp # ch # rest) \<Longrightarrow> forking s s sp ch ch rest"
  by (simp add: forking_def same_view_def)

lemma forking_trans:
  assumes a: "forking s s1 sp ch ch1 rest" and b: "forking s1 s2 sp ch1 ch2 rest"
  shows "forking s s2 sp ch ch2 rest"
proof -
  have "R s2 u + claims s ch u = R s u + claims s2 ch2 u" for u
  proof -
    have "R s1 u + claims s ch u = R s u + claims s1 ch1 u" "R s2 u + claims s1 ch1 u = R s1 u + claims s2 ch2 u"
      using a b unfolding forking_def by blast+
    then show ?thesis by linarith
  qed
  moreover have "leaf (pt_mem s2) (as_root sp) (va_path vb) = leaf (pt_mem s) (as_root sp) (va_path vb)
      \<or> leaf (pt_mem s2) (as_root sp) (va_path vb) = map_option cow_entry (leaf (pt_mem s) (as_root sp) (va_path vb))" if vb: "user_page vb" for vb
  proof -
    let ?l = "\<lambda>s. leaf (pt_mem s) (as_root sp) (va_path vb)"
    have "?l s1 = ?l s \<or> ?l s1 = map_option cow_entry (?l s)" "?l s2 = ?l s1 \<or> ?l s2 = map_option cow_entry (?l s1)"
      using a b vb unfolding forking_def by blast+
    moreover have "map_option cow_entry (map_option cow_entry x) = map_option cow_entry x" for x by (cases x) simp_all
    ultimately show ?thesis by metis
  qed
  moreover have "same_view s s2 x" if "x \<in> set rest" for x using a b that same_view_trans unfolding forking_def by blast
  ultimately show ?thesis using a b unfolding forking_def by simp
qed

lemma forking_restored:
  assumes w: "world_ok s (sp # ch # rest)" and r: "restored s s'"
  shows "forking s s' sp ch ch rest"
proof -
  have ok: "space_ok s ch" and pml4: "pt_pml4 s \<notin> managed s" using w by (simp_all add: world_ok_def)
  have "claims s ch u \<le> R s u" for u
  proof -
    have "claims s sp u + (claims s ch u + total s rest u) \<le> R s u" using w by (simp add: world_ok_def)
    then show ?thesis by linarith
  qed
  then have "claims s' ch = claims s ch" using bystander(2) [OF ok restored_local [OF r, of "\<lambda>_. 0"] _ pml4] by simp
  moreover have "R s' = R s" "managed s' = managed s" using r by (simp_all add: restored_def managed_def)
  moreover have "world_ok s' (sp # ch # rest)" "same_view s s' sp" "\<And>x. x \<in> set rest \<Longrightarrow> same_view s s' x"
    using world_restored [OF w r] by auto
  moreover from this have "claims s' sp = claims s sp" by (intro same_view_claims)
  ultimately show ?thesis unfolding forking_def by (simp add: same_view_def [of s s' sp])
qed

text \<open>One page.\<close>

lemma fork_step:
  assumes w: "world_ok s (sp # ch # rest)" and m: "m \<in> set (as_owned sp)" and root: "as_root child = as_root ch"
    and none: "leaf (pt_mem s) (as_root ch) (va_path (om_va m)) = None"
  obtains s1 where "\<And>ms co. fork_owned F sp child (m # ms) co s = Some (s1, co, Err (False, AS_OutOfFrames))" "forking s s1 sp ch ch rest"
      "R s1 (om_frame m) = cap" "om_frame m \<notin> ran (T s1 (as_root ch))"
  | s1 e where "\<And>ms co. fork_owned F sp child (m # ms) co s = Some (s1, co, Err (True, e))" "forking s s1 sp ch ch rest"
  | s1 e where "\<And>ms co. fork_owned F sp child (m # ms) co s = fork_owned F sp child ms (co @ [m]) s1"
      "forking s s1 sp ch (ch\<lparr>as_owned := as_owned ch @ [m]\<rparr>) rest" "leaf (pt_mem s) (as_root sp) (va_path (om_va m)) = Some e"
      "\<And>vb. user_page vb \<Longrightarrow> leaf (pt_mem s1) (as_root sp) (va_path vb)
         = (if vb = om_va m then Some (cow_entry e) else leaf (pt_mem s) (as_root sp) (va_path vb))"
      "\<And>vb. user_page vb \<Longrightarrow> leaf (pt_mem s1) (as_root ch) (va_path vb)
         = (if vb = om_va m then Some (cow_entry e) else leaf (pt_mem s) (as_root ch) (va_path vb))"
proof -
  let ?r = "as_root sp" and ?va = "om_va m" and ?f = "om_frame m"
  have ok: "space_ok s sp" using w by (simp add: world_ok_def)
  obtain e where e: "user_page ?va" "leaf (pt_mem s) ?r (va_path ?va) = Some e" "entry_frame e = ?f" by (rule owned_leaf [OF ok m])
  have va: "?va < 2 ^ 47" using e(1) by (simp add: user_page_def)
  obtain t where t: "T s ?r (tl (va_path ?va)) = Some t" "pt_mem s t (hd (va_path ?va)) = e" "bit e 0" using leaf_table [OF e(2)] .
  have us: "uspace s ?r" using ok unfolding space_ok_def by blast
  define s1 where "s1 = (if bit e 1 then set_entry t (hd (va_path ?va)) (cow_entry e) s else s)"
  define fl where "fl = cow_entry e AND NOT ADDRESS_MASK"
  note cm = cow_mark [OF w m e(2) t(1), folded s1_def]
  have fe: "?f OR fl = cow_entry e" using entry_parts [of "cow_entry e"] cow_entry_bits(1) [of e] e(3) by (simp add: fl_def)
  have lf1: "leaf (pt_mem s1) ?r (va_path ?va) = Some (cow_entry e)" "\<not> bit (cow_entry e) 1" using cm(5) [OF e(1)] cow_entry_bits(2) by auto
  note ro = owned_readonly [OF cm(1) m lf1]
  have nT: "om_frame n \<notin> ran (T s ?r)" if "n \<in> set (as_owned sp)" for n by (rule owned_no_table [OF w that])
  have f1: "forking s s1 sp ch ch rest"
    unfolding forking_def using cm(1,2,3,5,7,8) e(2) cm(6) nT by (auto simp: same_view_def)
  have slot: "leaf_slot sp ?va s = Ok (t, hd (va_path ?va))" using leaf_slot_ok [OF us va] e(2) t(1) by simp
  have eqs: "(if has (e AND NOT ADDRESS_MASK) WRITABLE
      then (((e AND NOT ADDRESS_MASK) AND NOT WRITABLE) OR COPY_ON_WRITE,
            set_entry t (hd (va_path ?va)) ((e AND ADDRESS_MASK) OR (((e AND NOT ADDRESS_MASK) AND NOT WRITABLE) OR COPY_ON_WRITE)) s)
      else (e AND NOT ADDRESS_MASK, s)) = (fl, s1)"
    unfolding fl_def cow_flags by (simp add: s1_def cow_entry_def bit_simps bit_ADDRESS_MASK)
  note run = fork_owned.simps(2) [of F sp child m _ _ s, unfolded slot result.case prod.case Let_def t(2) eqs]
  show thesis
  proof (cases "fo_get F ?f (pt_fr s1)")
    case (Pair a okay)
    have g: "fo_get F ?f (pt_fr s1) = (pt_fr s1, False) \<and> R s1 ?f = cap \<or> (\<exists>a'. fo_get F ?f (pt_fr s1) = (a', True) \<and> good a'
        \<and> refs a' = (R s1)(?f := R s1 ?f + 1) \<and> avail a' = A s1)"
      using get [OF sourced_good ro(1)] cm(1) by (simp add: world_ok_def)
    show thesis
    proof (cases okay)
      case False
      then have a: "a = pt_fr s1" "R s1 ?f = cap" using g Pair by auto
      then have "\<And>ms co. fork_owned F sp child (m # ms) co s = Some (s1, co, Err (False, AS_OutOfFrames))"
        using run Pair False by simp
      then show thesis using that(1) f1 a(2) ro(2) [of ch] by simp
    next
      case True
      then have a: "good a" "refs a = (R s1)(?f := R s1 ?f + 1)" "avail a = A s1" using g Pair by auto
      define s2 where "s2 = s1\<lparr>pt_fr := a\<rparr>"
      note run2 = run [unfolded Pair prod.case, folded s2_def]
      have lw: "world_ok s2 (sp # ch # rest)" "managed s2 = managed s1" "\<And>x. claims s2 x = claims s1 x"
        by (rule lend_world [OF cm(1) ro(1) ro(3) ro(2) a, folded s2_def]; assumption)+
      have us2: "uspace s2 (as_root ch)" using lw(1) unfolding world_ok_def space_ok_def by auto
      have M2: "pt_mem s2 = pt_mem s1" by (simp add: s2_def)
      show thesis
      proof (rule map_cases [OF us2 va, of ?f fl])
        fix s3 er
        assume x: "map_page_in_root F (as_root ch) ?va ?f fl s2 = Some (s3, Err er)" "map_failed s2 s3 (as_root ch) ?va er"
        have "restored s2 s3" using x(2) by (simp add: map_failed_def)
        moreover have "src s1" using cm(1) by (simp add: world_ok_def)
        ultimately obtain s4 where s4: "pt_free_frame F ?f s3 = Some s4" "restored s1 s4"
          using lent_return [of s1 ?f a s3] ro(1) a by (auto simp: s2_def)
        have "\<And>ms co. fork_owned F sp child (m # ms) co s = Some (s4, co, Err (True, er))" using run2 root x(1) s4(1) True by simp
        then show thesis using that(2) forking_trans [OF f1 forking_restored [OF cm(1) s4(2)]] by blast
      next
        fix s3
        assume x: "map_page_in_root F (as_root ch) ?va ?f fl s2 = Some (s3, Ok ())" "\<not> bit (ent 256 (pt_mem s2) (as_root ch) (va_path ?va)) 0"
          "mapped s2 s3 (as_root ch) ?va (?f OR fl)"
        define ch' where "ch' = ch\<lparr>as_owned := as_owned ch @ [m]\<rparr>"
        have w2: "world_ok s2 (ch # sp # rest)" by (rule world_perm [OF _ lw(1)]) simp
        have none2: "leaf (pt_mem s2) (as_root ch) (va_path ?va) = None" using x(2) by (simp add: leaf_def)
        have "total s2 (ch # sp # rest) ?f < R s2 ?f"
        proof -
          have "total s1 (ch # sp # rest) ?f \<le> R s1 ?f" using world_perm [OF _ cm(1), of "ch # sp # rest"] by (simp add: world_ok_def)
          moreover have "R s2 ?f = R s1 ?f + 1" using a(2) by (simp add: s2_def)
          ultimately show ?thesis unfolding total_def lw(3) by simp
        qed
        then have add: "page_added s2 ch (sp # rest) ?va (cow_entry e) ch'"
          unfolding page_added_def ch'_def cow_entry_bits(1) e(3) using cow_entry_bits(2) [of e] by (cases m) simp
        have b0: "bit (cow_entry e) 0" using t(3) cow_entry_bits(3) by simp
        note ap = add_page [OF w2 e(1) none2 x(3) [unfolded fe] b0 add]
        have svsp: "same_view s2 s3 sp" using ap(2) by simp
        have lsp: "leaf (pt_mem s3) ?r (va_path vb) = leaf (pt_mem s1) ?r (va_path vb)" for vb using svsp by (simp add: same_view_def M2)
        have lch: "leaf (pt_mem s2) (as_root ch) q = leaf (pt_mem s) (as_root ch) q" for q using cm(2) [of ch] by (simp add: same_view_def M2)
        have "forking s1 s3 sp ch ch' rest"
          unfolding forking_def
        proof (intro conjI ballI allI impI)
          show "world_ok s3 (sp # ch' # rest)" by (rule world_perm [OF _ ap(1)]) simp
          show "same_view s1 s3 x" if "x \<in> set rest" for x using ap(2) [of x] that by (simp add: same_view_def M2)
          show "as_root ch' = as_root ch" by (simp add: ch'_def)
          show "R s3 u + claims s1 ch u = R s1 u + claims s3 ch' u" for u
            using ap(7) [of u] a(2) lw(3) by (simp add: ch'_def s2_def split: if_splits)
          show "managed s3 = managed s1" using ap(6) lw(2) by simp
          show "claims s3 sp = claims s1 sp" using same_view_claims [OF svsp] lw(3) by simp
          show "pt_mem s3 (om_frame n) = pt_mem s1 (om_frame n)" if "n \<in> set (as_owned sp)" for n
            using svsp that by (simp add: same_view_def M2)
        qed (simp add: lsp)
        note fk = forking_trans [OF f1 this]
        have "\<And>ms co. fork_owned F sp child (m # ms) co s = fork_owned F sp child ms (co @ [m]) s3" using run2 root x(1) True by simp
        then show thesis
          using that(3) [of s3 e] fk e(2) cm(5) lsp ap(3) lch unfolding ch'_def by simp
      qed
    qed
  qed
qed

text \<open>Pages of the list \<open>ms\<close> are in the child as they are, marked by \<open>g\<close>, in the parent.\<close>

definition copied :: "(w64 \<Rightarrow> w64) \<Rightarrow> 'a pt_state \<Rightarrow> 'a pt_state \<Rightarrow> AddressSpace \<Rightarrow> w64 \<Rightarrow> OwnedMapping list \<Rightarrow> bool" where
  "copied g s s' sp root ms \<longleftrightarrow> (\<forall>vb. user_page vb \<longrightarrow>
     leaf (pt_mem s') (as_root sp) (va_path vb)
       = (if vb \<in> om_va ` set ms then map_option g (leaf (pt_mem s) (as_root sp) (va_path vb)) else leaf (pt_mem s) (as_root sp) (va_path vb))
     \<and> leaf (pt_mem s') root (va_path vb)
       = (if vb \<in> om_va ` set ms then map_option g (leaf (pt_mem s) (as_root sp) (va_path vb)) else leaf (pt_mem s) root (va_path vb)))"

lemma copied_Cons:
  assumes one: "leaf (pt_mem s) (as_root sp) (va_path (om_va m)) = Some e"
      "\<And>vb. user_page vb \<Longrightarrow> leaf (pt_mem s1) (as_root sp) (va_path vb)
         = (if vb = om_va m then Some (g e) else leaf (pt_mem s) (as_root sp) (va_path vb))"
      "\<And>vb. user_page vb \<Longrightarrow> leaf (pt_mem s1) root (va_path vb)
         = (if vb = om_va m then Some (g e) else leaf (pt_mem s) root (va_path vb))"
    and more: "copied g s1 s' sp root ms" and new: "om_va m \<notin> om_va ` set ms"
  shows "copied g s s' sp root (m # ms)"
proof -
  have c: "leaf (pt_mem s') (as_root sp) (va_path vb)
       = (if vb \<in> om_va ` set ms then map_option g (leaf (pt_mem s1) (as_root sp) (va_path vb)) else leaf (pt_mem s1) (as_root sp) (va_path vb))"
     "leaf (pt_mem s') root (va_path vb)
       = (if vb \<in> om_va ` set ms then map_option g (leaf (pt_mem s1) (as_root sp) (va_path vb)) else leaf (pt_mem s1) root (va_path vb))"
    if "user_page vb" for vb using more that unfolding copied_def by blast+
  show ?thesis
    unfolding copied_def
  proof (intro allI impI)
    fix vb assume vb: "user_page vb"
    show "leaf (pt_mem s') (as_root sp) (va_path vb)
       = (if vb \<in> om_va ` set (m # ms) then map_option g (leaf (pt_mem s) (as_root sp) (va_path vb)) else leaf (pt_mem s) (as_root sp) (va_path vb))
     \<and> leaf (pt_mem s') root (va_path vb)
       = (if vb \<in> om_va ` set (m # ms) then map_option g (leaf (pt_mem s) (as_root sp) (va_path vb)) else leaf (pt_mem s) root (va_path vb))"
    proof (cases "vb = om_va m")
      case True
      then show ?thesis using c [OF vb] one(1) one(2,3) [OF vb] new by simp
    next
      case False
      then show ?thesis using c [OF vb] one(2,3) [OF vb] by simp
    qed
  qed
qed

text \<open>
  Both loops: a page fails and the loop ends, or the page is in the child and
  the loop goes on. \<open>add\<close> extends the list of the child the loop is about, \<open>B\<close> tells
  in which states it fails and how.
\<close>

definition page_done ::
    "(w64 \<Rightarrow> w64) \<Rightarrow> (OwnedMapping list \<Rightarrow> AddressSpace \<Rightarrow> AddressSpace) \<Rightarrow> (bool \<Rightarrow> 'a pt_state \<Rightarrow> bool)
      \<Rightarrow> AddressSpace \<Rightarrow> AddressSpace list
      \<Rightarrow> (OwnedMapping list \<Rightarrow> OwnedMapping list \<Rightarrow> 'a pt_state \<Rightarrow> ('a pt_state \<times> OwnedMapping list \<times> (unit, bool \<times> AddressSpaceError) result) option)
      \<Rightarrow> OwnedMapping \<Rightarrow> AddressSpace \<Rightarrow> 'a pt_state \<Rightarrow> bool" where
  "page_done g add B sp rest loop m ch s \<longleftrightarrow>
     (\<exists>s1 b e. B b s1 \<and> (\<forall>ms co. loop (m # ms) co s = Some (s1, co, Err (b, e))) \<and> forking s s1 sp ch ch rest)
     \<or> (\<exists>s1 e. (\<forall>ms co. loop (m # ms) co s = loop ms (co @ [m]) s1) \<and> forking s s1 sp ch (add [m] ch) rest
          \<and> leaf (pt_mem s) (as_root sp) (va_path (om_va m)) = Some e
          \<and> (\<forall>vb. user_page vb \<longrightarrow> leaf (pt_mem s1) (as_root sp) (va_path vb)
               = (if vb = om_va m then Some (g e) else leaf (pt_mem s) (as_root sp) (va_path vb)))
          \<and> (\<forall>vb. user_page vb \<longrightarrow> leaf (pt_mem s1) (as_root ch) (va_path vb)
               = (if vb = om_va m then Some (g e) else leaf (pt_mem s) (as_root ch) (va_path vb))))"

lemma fork_loop:
  assumes nil: "\<And>co s. loop [] co s = Some (s, co, Ok ())"
    and add: "\<And>ch. add [] ch = ch" "\<And>xs ys ch. add ys (add xs ch) = add (xs @ ys) ch" "\<And>xs ch. as_root (add xs ch) = as_root ch"
    and step: "\<And>m s ch. m \<in> L \<Longrightarrow> world_ok s (sp # ch # rest) \<Longrightarrow> as_root ch = root
      \<Longrightarrow> leaf (pt_mem s) root (va_path (om_va m)) = None \<Longrightarrow> page_done g add B sp rest loop m ch s"
    and L: "\<And>m. m \<in> L \<Longrightarrow> user_page (om_va m)"
    and prems: "world_ok s (sp # ch # rest)" "set ms \<subseteq> L" "distinct (map om_va ms)" "as_root ch = root"
      "\<And>m. m \<in> set ms \<Longrightarrow> leaf (pt_mem s) root (va_path (om_va m)) = None"
  shows "\<exists>s' r n. loop ms co s = Some (s', co @ take n ms, r) \<and> forking s s' sp ch (add (take n ms) ch) rest
    \<and> (case r of Ok _ \<Rightarrow> take n ms = ms \<and> copied g s s' sp root ms | Err (b, e) \<Rightarrow> B b s')"
  using prems
proof (induction ms arbitrary: s ch co)
  case Nil
  then show ?case using forking_refl [OF Nil.prems(1)] nil add(1) by (simp add: copied_def)
next
  case (Cons m ms)
  have m: "m \<in> L" using Cons.prems(2) by simp
  from step [OF m Cons.prems(1,4)] Cons.prems(5) [of m] have "page_done g add B sp rest loop m ch s" by simp
  then consider s1 b e where "B b s1" "\<forall>ms co. loop (m # ms) co s = Some (s1, co, Err (b, e))" "forking s s1 sp ch ch rest"
    | s1 e where "\<forall>ms co. loop (m # ms) co s = loop ms (co @ [m]) s1" "forking s s1 sp ch (add [m] ch) rest"
          "leaf (pt_mem s) (as_root sp) (va_path (om_va m)) = Some e"
          "\<forall>vb. user_page vb \<longrightarrow> leaf (pt_mem s1) (as_root sp) (va_path vb)
               = (if vb = om_va m then Some (g e) else leaf (pt_mem s) (as_root sp) (va_path vb))"
          "\<forall>vb. user_page vb \<longrightarrow> leaf (pt_mem s1) (as_root ch) (va_path vb)
               = (if vb = om_va m then Some (g e) else leaf (pt_mem s) (as_root ch) (va_path vb))"
    unfolding page_done_def by blast
  then show ?case
  proof cases
    case 1
    then show ?thesis using add(1) by (intro exI [of _ s1] exI [of _ "Err (b, e)"] exI [of _ 0]) simp
  next
    case 2
    let ?ch = "add [m] ch"
    have w1: "world_ok s1 (sp # ?ch # rest)" using 2(2) by (simp add: forking_def)
    have new: "om_va m \<notin> om_va ` set ms" using Cons.prems(3) by simp
    have n1: "leaf (pt_mem s1) root (va_path (om_va x)) = None" if x: "x \<in> set ms" for x
    proof -
      have "om_va x \<noteq> om_va m" using new x by (metis imageI)
      moreover have "user_page (om_va x)" using L Cons.prems(2) x by auto
      ultimately show ?thesis using 2(5) Cons.prems(4) Cons.prems(5) [of x] x by simp
    qed
    have "\<exists>s' r n. loop ms (co @ [m]) s1 = Some (s', (co @ [m]) @ take n ms, r) \<and> forking s1 s' sp ?ch (add (take n ms) ?ch) rest
      \<and> (case r of Ok _ \<Rightarrow> take n ms = ms \<and> copied g s1 s' sp root ms | Err (b, e) \<Rightarrow> B b s')"
      by (rule Cons.IH [OF w1]) (use Cons.prems(2,3,4) n1 add(3) in simp_all)
    then obtain s' r n where r: "loop ms (co @ [m]) s1 = Some (s', (co @ [m]) @ take n ms, r)"
      "forking s1 s' sp ?ch (add (take n ms) ?ch) rest"
      "case r of Ok _ \<Rightarrow> take n ms = ms \<and> copied g s1 s' sp root ms | Err (b, e) \<Rightarrow> B b s'" by blast
    have "forking s s' sp ch (add (take (Suc n) (m # ms)) ch) rest" using forking_trans [OF 2(2) r(2)] add(2) by simp
    moreover have "case r of Ok _ \<Rightarrow> take (Suc n) (m # ms) = m # ms \<and> copied g s s' sp root (m # ms) | Err (b, e) \<Rightarrow> B b s'"
    proof (cases r)
      case (Ok x)
      then have c: "copied g s1 s' sp root ms" "take n ms = ms" using r(3) by simp_all
      have "copied g s s' sp root (m # ms)"
        by (rule copied_Cons [OF 2(3) _ _ c(1) new]) (use 2(4,5) Cons.prems(4) in simp_all)
      then show ?thesis using Ok c(2) by simp
    next
      case (Err x)
      then show ?thesis using r(3) by simp
    qed
    ultimately show ?thesis using 2(1) r(1) by (intro exI [of _ s'] exI [of _ r] exI [of _ "Suc n"]) simp
  qed
qed

lemma fork_device_step:
  assumes w: "world_ok s (sp # ch # rest)" and m: "m \<in> set (as_devices sp)" and root: "as_root child = as_root ch"
    and none: "leaf (pt_mem s) (as_root ch) (va_path (om_va m)) = None"
  obtains s1 e where "\<And>ms co. fork_devices F sp child (m # ms) co s = Some (s1, co, Err (True, e))" "forking s s1 sp ch ch rest"
  | s1 e where "\<And>ms co. fork_devices F sp child (m # ms) co s = fork_devices F sp child ms (co @ [m]) s1"
      "forking s s1 sp ch (ch\<lparr>as_devices := as_devices ch @ [m]\<rparr>) rest" "leaf (pt_mem s) (as_root sp) (va_path (om_va m)) = Some e"
      "\<And>vb. user_page vb \<Longrightarrow> leaf (pt_mem s1) (as_root sp) (va_path vb) = (if vb = om_va m then Some (id e) else leaf (pt_mem s) (as_root sp) (va_path vb))"
      "\<And>vb. user_page vb \<Longrightarrow> leaf (pt_mem s1) (as_root ch) (va_path vb)
         = (if vb = om_va m then Some (id e) else leaf (pt_mem s) (as_root ch) (va_path vb))"
proof -
  let ?r = "as_root sp" and ?va = "om_va m" and ?f = "om_frame m"
  have ok: "space_ok s sp" using w by (simp add: world_ok_def)
  obtain e where e: "user_page ?va" "leaf (pt_mem s) ?r (va_path ?va) = Some e" "entry_frame e = ?f" "?f \<notin> managed s" "\<not> bit e 9"
    by (rule device_leaf [OF ok m])
  have va: "?va < 2 ^ 47" using e(1) by (simp add: user_page_def)
  obtain t where t: "T s ?r (tl (va_path ?va)) = Some t" "pt_mem s t (hd (va_path ?va)) = e" "bit e 0" using leaf_table [OF e(2)] .
  have us: "uspace s ?r" using ok unfolding space_ok_def by blast
  have usc: "uspace s (as_root ch)" using w unfolding world_ok_def space_ok_def by auto
  have slot: "leaf_slot sp ?va s = Ok (t, hd (va_path ?va))" using leaf_slot_ok [OF us va] e(2) t(1) by simp
  note run = fork_devices.simps(2) [of F sp child m _ _ s, unfolded slot result.case prod.case t(2) root]
  have fe: "?f OR (e AND NOT ADDRESS_MASK) = e" using entry_parts [of e] e(3) by simp
  show thesis
  proof (rule map_cases [OF usc va, of ?f "e AND NOT ADDRESS_MASK"])
    fix s1 er
    assume x: "map_page_in_root F (as_root ch) ?va ?f (e AND NOT ADDRESS_MASK) s = Some (s1, Err er)" "map_failed s s1 (as_root ch) ?va er"
    have "\<And>ms co. fork_devices F sp child (m # ms) co s = Some (s1, co, Err (True, er))" using run x(1) by simp
    then show thesis using that(1) forking_restored [OF w] x(2) unfolding map_failed_def by blast
  next
    fix s1
    assume x: "map_page_in_root F (as_root ch) ?va ?f (e AND NOT ADDRESS_MASK) s = Some (s1, Ok ())"
      "mapped s s1 (as_root ch) ?va (?f OR (e AND NOT ADDRESS_MASK))"
    define ch' where "ch' = ch\<lparr>as_devices := as_devices ch @ [m]\<rparr>"
    have w': "world_ok s (ch # sp # rest)" by (rule world_perm [OF _ w]) simp
    have add: "page_added s ch (sp # rest) ?va e ch'" unfolding page_added_def ch'_def e(3) using e(4,5) by (cases m) simp
    note ap = add_page [OF w' e(1) none x(2) [unfolded fe] t(3) add]
    have sv: "same_view s s1 sp" using ap(2) by simp
    have lsp: "leaf (pt_mem s1) ?r q = leaf (pt_mem s) ?r q" for q using sv by (simp add: same_view_def)
    have "forking s s1 sp ch ch' rest"
      unfolding forking_def
    proof (intro conjI ballI allI impI)
      show "world_ok s1 (sp # ch' # rest)" by (rule world_perm [OF _ ap(1)]) simp
      show "same_view s s1 x" if "x \<in> set rest" for x using ap(2) [of x] that by simp
      show "as_root ch' = as_root ch" by (simp add: ch'_def)
      show "R s1 u + claims s ch u = R s u + claims s1 ch' u" for u using ap(7) [of u] by (simp add: ch'_def)
      show "pt_mem s1 (om_frame n) = pt_mem s (om_frame n)" if "n \<in> set (as_owned sp)" for n using sv that by (simp add: same_view_def)
    qed (simp_all add: lsp ap(6) same_view_claims [OF sv])
    moreover have "\<And>ms co. fork_devices F sp child (m # ms) co s = fork_devices F sp child ms (co @ [m]) s1" using run x(1) by simp
    ultimately show thesis using that(2) [of s1 e] e(2) lsp ap(3) unfolding ch'_def by simp
  qed
qed

text \<open>The reference counter of a frame of the parent is at its limit.\<close>

definition saturated :: "'a pt_state \<Rightarrow> AddressSpace \<Rightarrow> w64 \<Rightarrow> bool" where
  "saturated s sp root \<longleftrightarrow> (\<exists>m \<in> set (as_owned sp). R s (om_frame m) = cap \<and> om_frame m \<notin> ran (T s root))"

lemma fork_owned_ok:
  assumes w: "world_ok s (sp # ch # rest)" and root: "as_root child = as_root ch"
    and none: "\<And>m. m \<in> set (as_owned sp) \<Longrightarrow> leaf (pt_mem s) (as_root ch) (va_path (om_va m)) = None"
  shows "\<exists>s' r n. fork_owned F sp child (as_owned sp) [] s = Some (s', take n (as_owned sp), r)
    \<and> forking s s' sp ch (ch\<lparr>as_owned := as_owned ch @ take n (as_owned sp)\<rparr>) rest
    \<and> (case r of Ok _ \<Rightarrow> take n (as_owned sp) = as_owned sp \<and> copied cow_entry s s' sp (as_root ch) (as_owned sp) | Err (b, e) \<Rightarrow> b \<or> saturated s' sp (as_root ch))"
proof -
  let ?add = "\<lambda>xs ch. ch\<lparr>as_owned := as_owned ch @ xs\<rparr>"
  have ok: "space_ok s sp" using w by (simp add: world_ok_def)
  have dv: "distinct (map om_va (as_owned sp))" using ok by (simp add: space_ok_def)
  have pd: "page_done cow_entry ?add (\<lambda>b s. b \<or> saturated s sp (as_root ch)) sp rest (fork_owned F sp child) m ch' s'"
    if m: "m \<in> set (as_owned sp)" and w': "world_ok s' (sp # ch' # rest)" and r: "as_root ch' = as_root ch"
      and n: "leaf (pt_mem s') (as_root ch) (va_path (om_va m)) = None" for m s' ch'
  proof -
    have cr: "as_root child = as_root ch'" using root r by simp
    show ?thesis
      unfolding page_done_def
      by (rule fork_step [OF w' m cr n [folded r]]; use m in \<open>unfold saturated_def r; blast\<close>)
  qed
  have up: "user_page (om_va m)" if "m \<in> set (as_owned sp)" for m by (rule owned_leaf [OF ok that])
  have "\<exists>s' r n. fork_owned F sp child (as_owned sp) [] s = Some (s', [] @ take n (as_owned sp), r)
    \<and> forking s s' sp ch (?add (take n (as_owned sp)) ch) rest
    \<and> (case r of Ok _ \<Rightarrow> take n (as_owned sp) = as_owned sp \<and> copied cow_entry s s' sp (as_root ch) (as_owned sp) | Err (b, e) \<Rightarrow> b \<or> saturated s' sp (as_root ch))"
    by (rule fork_loop [where add = ?add, OF _ _ _ _ pd up w order.refl dv refl none]; (assumption | simp))
  then show ?thesis by simp
qed

lemma fork_devices_ok:
  assumes w: "world_ok s (sp # ch # rest)" and root: "as_root child = as_root ch"
    and none: "\<And>m. m \<in> set (as_devices sp) \<Longrightarrow> leaf (pt_mem s) (as_root ch) (va_path (om_va m)) = None"
  shows "\<exists>s' r n. fork_devices F sp child (as_devices sp) [] s = Some (s', take n (as_devices sp), r)
    \<and> forking s s' sp ch (ch\<lparr>as_devices := as_devices ch @ take n (as_devices sp)\<rparr>) rest
    \<and> (case r of Ok _ \<Rightarrow> take n (as_devices sp) = as_devices sp \<and> copied id s s' sp (as_root ch) (as_devices sp) | Err (b, e) \<Rightarrow> b)"
proof -
  let ?add = "\<lambda>xs ch. ch\<lparr>as_devices := as_devices ch @ xs\<rparr>"
  have ok: "space_ok s sp" using w by (simp add: world_ok_def)
  have dv: "distinct (map om_va (as_devices sp))" using ok by (simp add: space_ok_def)
  have pd: "page_done id ?add (\<lambda>b s. b) sp rest (fork_devices F sp child) m ch' s'"
    if m: "m \<in> set (as_devices sp)" and w': "world_ok s' (sp # ch' # rest)" and r: "as_root ch' = as_root ch"
      and n: "leaf (pt_mem s') (as_root ch) (va_path (om_va m)) = None" for m s' ch'
  proof -
    have cr: "as_root child = as_root ch'" using root r by simp
    show ?thesis
      unfolding page_done_def
      by (rule fork_device_step [OF w' m cr n [folded r]]; blast)
  qed
  have up: "user_page (om_va m)" if "m \<in> set (as_devices sp)" for m by (rule device_leaf [OF ok that])
  have "\<exists>s' r n. fork_devices F sp child (as_devices sp) [] s = Some (s', [] @ take n (as_devices sp), r)
    \<and> forking s s' sp ch (?add (take n (as_devices sp)) ch) rest
    \<and> (case r of Ok _ \<Rightarrow> take n (as_devices sp) = as_devices sp \<and> copied id s s' sp (as_root ch) (as_devices sp) | Err (b, e) \<Rightarrow> b)"
    by (rule fork_loop [where add = ?add, OF _ _ _ _ pd up w order.refl dv refl none]; (assumption | simp))
  then show ?thesis by simp
qed

text \<open>The child of a failed fork is dropped, with the list of its frames or without.\<close>

lemma drop_child:
  assumes fk: "forking s0 s sp ch0 chv rest" and c: "as_root c = as_root chv" "as_owned c = as_owned chv \<or> as_owned c = []"
    and cur: "current_root \<noteq> as_root chv"
  obtains s' where "fork_fail F current_root c e s = Some (s', Err e)" "world_ok s' (sp # rest)" "\<forall>x \<in> set (sp # rest). same_view s s' x"
    "\<forall>u. R s' u + claims s0 ch0 u + count_list (map om_frame (as_owned c)) u = R s0 u + count_list (map om_frame (as_owned chv)) u"
    "managed s' = managed s"
proof -
  have w: "world_ok s (sp # chv # rest)" and bal: "\<And>u. R s u + claims s0 ch0 u = R s0 u + claims s chv u" using fk by (simp_all add: forking_def)
  have us: "uspace s (as_root c)" using w c(1) unfolding world_ok_def space_ok_def by auto
  have cc: "claims s c u + count_list (map om_frame (as_owned chv)) u = claims s chv u + count_list (map om_frame (as_owned c)) u" for u
    by (simp add: claims_def c(1))
  have cle: "claims s c u \<le> claims s chv u" for u using c by (auto simp: claims_def)
  have sum: "claims s c u + total s (sp # rest) u \<le> R s u" for u
  proof -
    have "claims s sp u + (claims s chv u + total s rest u) \<le> R s u" using w by (simp add: world_ok_def)
    then show ?thesis using cle [of u] by simp
  qed
  have cl: "claims s c u \<le> R s u" for u using sum [of u] by linarith
  have cur': "current_root \<noteq> as_root c" using cur c(1) by simp
  obtain s' where s': "as_drop F current_root c s = Some s'" "local_step s s' (claims s c) (\<lambda>_. 0)" using as_drop_step [OF us cl cur'] .
  have oks: "space_ok s x" if "x \<in> set (sp # rest)" for x using w that by (auto simp: world_ok_def)
  have pml4: "pt_pml4 s \<notin> managed s" using w by (simp add: world_ok_def)
  have "local_step s s' (claims s c) (total s' [])" using s'(2) by simp
  from world_step [OF oks sum pml4 this] have st: "world_ok s' (sp # rest)" "\<And>x. x \<in> set (sp # rest) \<Longrightarrow> same_view s s' x" by auto
  have "R s' u + claims s0 ch0 u + count_list (map om_frame (as_owned c)) u = R s0 u + count_list (map om_frame (as_owned chv)) u" for u
  proof -
    have "R s' u + claims s c u = R s u" using s'(2) by (simp add: local_step_def)
    then show ?thesis using bal [of u] cc [of u] by simp
  qed
  moreover have "fork_fail F current_root c e s = Some (s', Err e)" using s'(1) by (simp add: fork_fail_def)
  moreover have "managed s' = managed s" using s'(2) by (simp add: local_step_def)
  ultimately show thesis using that st by simp
qed

text \<open>The pages of the parent: the same frames with the same contents, perhaps marked.\<close>

definition parent_kept :: "'a pt_state \<Rightarrow> 'a pt_state \<Rightarrow> AddressSpace \<Rightarrow> bool" where
  "parent_kept s s' sp \<longleftrightarrow> claims s' sp = claims s sp \<and> (\<forall>m \<in> set (as_owned sp). pt_mem s' (om_frame m) = pt_mem s (om_frame m))
     \<and> (\<forall>vb. user_page vb \<longrightarrow> leaf (pt_mem s') (as_root sp) (va_path vb) = leaf (pt_mem s) (as_root sp) (va_path vb)
           \<or> leaf (pt_mem s') (as_root sp) (va_path vb) = map_option cow_entry (leaf (pt_mem s) (as_root sp) (va_path vb)))"

lemma forking_kept:
  assumes "same_view s s0 sp" "forking s0 s1 sp ch ch' rest" "same_view s1 s2 sp"
  shows "parent_kept s s2 sp"
  using assms same_view_claims [OF assms(1)] same_view_claims [OF assms(3)] unfolding parent_kept_def forking_def same_view_def by simp

text \<open>A fork that ran to its end.\<close>

lemma fork_done:
  assumes ok: "space_ok s sp" and sv: "\<And>x. x \<in> set (sp # rest) \<Longrightarrow> same_view s s0 x" and fk: "forking s0 s2 sp ch0 ch rest"
    and c1: "copied cow_entry s0 s1 sp (as_root ch) (as_owned sp)" and c2: "copied id s1 s2 sp (as_root ch) (as_devices sp)"
    and none: "\<And>va. leaf (pt_mem s0) (as_root ch) (va_path va) = None" and R0: "\<And>u. R s0 u = R s u + claims s0 ch0 u"
  shows "world_ok s2 (sp # ch # rest)" "\<forall>x \<in> set rest. same_view s s2 x" "parent_kept s s2 sp"
    "\<forall>vb. user_page vb \<longrightarrow> leaf (pt_mem s2) (as_root ch) (va_path vb) = leaf (pt_mem s2) (as_root sp) (va_path vb)"
    "\<forall>m \<in> set (as_owned sp). \<forall>e. leaf (pt_mem s2) (as_root sp) (va_path (om_va m)) = Some e \<longrightarrow> \<not> bit e 1"
    "\<forall>u. R s2 u = R s u + claims s2 ch u" "managed s2 = managed s0"
proof -
  have svsp: "same_view s s0 sp" by (rule sv) simp
  show "world_ok s2 (sp # ch # rest)" "managed s2 = managed s0" using fk by (simp_all add: forking_def)
  show "\<forall>x \<in> set rest. same_view s s2 x"
  proof
    fix x assume x: "x \<in> set rest"
    then have "same_view s0 s2 x" using fk by (simp add: forking_def)
    then show "same_view s s2 x" using same_view_trans sv [of x] x by simp
  qed
  show "parent_kept s s2 sp" by (rule forking_kept [OF svsp fk]) (simp add: same_view_def)
  show "\<forall>u. R s2 u = R s u + claims s2 ch u"
  proof
    fix u
    have "R s2 u + claims s0 ch0 u = R s0 u + claims s2 ch u" using fk by (simp add: forking_def)
    then show "R s2 u = R s u + claims s2 ch u" using R0 [of u] by linarith
  qed
  have l2: "leaf (pt_mem s2) (as_root sp) (va_path vb) = leaf (pt_mem s1) (as_root sp) (va_path vb)" if "user_page vb" for vb
    using c2 that by (simp add: copied_def option.map_id)
  show "\<forall>vb. user_page vb \<longrightarrow> leaf (pt_mem s2) (as_root ch) (va_path vb) = leaf (pt_mem s2) (as_root sp) (va_path vb)"
  proof (intro allI impI)
    fix vb assume vb: "user_page vb"
    show "leaf (pt_mem s2) (as_root ch) (va_path vb) = leaf (pt_mem s2) (as_root sp) (va_path vb)"
    proof (cases "vb \<in> om_va ` set (as_devices sp)")
      case True
      then show ?thesis using c2 vb by (simp add: copied_def)
    next
      case False
      then have eq: "leaf (pt_mem s2) (as_root ch) (va_path vb) = leaf (pt_mem s1) (as_root ch) (va_path vb)" using c2 vb by (simp add: copied_def)
      show ?thesis
      proof (cases "vb \<in> om_va ` set (as_owned sp)")
        case True
        then show ?thesis using c1 vb eq l2 [OF vb] by (simp add: copied_def)
      next
        case ow: False
        have "leaf (pt_mem s0) (as_root sp) (va_path vb) = leaf (pt_mem s) (as_root sp) (va_path vb)" using svsp by (simp add: same_view_def)
        moreover have "leaf (pt_mem s) (as_root sp) (va_path vb) = None"
          using space_listed [OF ok vb] False ow by (metis Un_iff image_eqI not_Some_eq set_append)
        ultimately show ?thesis using c1 vb eq l2 [OF vb] ow none by (simp add: copied_def)
      qed
    qed
  qed
  show "\<forall>m \<in> set (as_owned sp). \<forall>e. leaf (pt_mem s2) (as_root sp) (va_path (om_va m)) = Some e \<longrightarrow> \<not> bit e 1"
  proof (intro ballI allI impI)
    fix m e assume m: "m \<in> set (as_owned sp)" and e: "leaf (pt_mem s2) (as_root sp) (va_path (om_va m)) = Some e"
    have up: "user_page (om_va m)" by (rule owned_leaf [OF ok m])
    have "map_option cow_entry (leaf (pt_mem s0) (as_root sp) (va_path (om_va m))) = Some e"
      using e l2 [OF up] c1 up m by (simp add: copied_def)
    then show "\<not> bit e 1" using cow_entry_bits(2) by auto
  qed
qed

lemma fork_cow_ok:
  assumes w: "world_ok s (sp # rest)" and cur: "current_root \<notin> A s"
  obtains s' e n where "fork_cow F ro rd current_root sp s = Some (s', Err e)" "world_ok s' (sp # rest)"
      "\<forall>x \<in> set rest. same_view s s' x" "parent_kept s s' sp"
      "\<forall>u. R s' u = R s u + count_list (map om_frame (take n (as_owned sp))) u"
      "n = 0 \<or> \<not> try_reserve rd (as_devices sp) \<or> (\<exists>m \<in> set (as_owned sp). R s' (om_frame m) = cap)"
      "managed s' = managed s"
  | s' ch where "fork_cow F ro rd current_root sp s = Some (s', Ok ch)" "world_ok s' (sp # ch # rest)"
      "\<forall>x \<in> set rest. same_view s s' x" "parent_kept s s' sp" "as_owned ch = as_owned sp" "as_devices ch = as_devices sp"
      "\<forall>vb. user_page vb \<longrightarrow> leaf (pt_mem s') (as_root ch) (va_path vb) = leaf (pt_mem s') (as_root sp) (va_path vb)"
      "\<forall>m \<in> set (as_owned sp). \<forall>e. leaf (pt_mem s') (as_root sp) (va_path (om_va m)) = Some e \<longrightarrow> \<not> bit e 1"
      "\<forall>u. R s' u = R s u + claims s' ch u" "managed s' = managed s"
proof -
  note fin = that
  have ok: "space_ok s sp" using w by (simp add: world_ok_def)
  have bal0: "R s' u = R s u + count_list (map om_frame ms) u"
    if "R s' u + claims s0 ch0 u + c = R s0 u + count_list (map om_frame (as_owned chv)) u" "R s0 u = R s u + claims s0 ch0 u"
      "count_list (map om_frame (as_owned chv)) u = c + count_list (map om_frame ms) u" for s' s0 :: "'a pt_state" and u ch0 chv ms c
    using that by linarith
  show thesis
  proof (rule as_new_ok [OF w])
    fix s'
    assume n: "as_new F s = Some (s', Err AS_OutOfFrames)" "restored s s'" "A s = {}"
    have "fork_cow F ro rd current_root sp s = Some (s', Err AS_OutOfFrames)" using n(1) by (simp add: fork_cow_def)
    moreover have "world_ok s' (sp # rest)" "same_view s s' sp" "\<forall>x \<in> set rest. same_view s s' x" using world_restored [OF w n(2)] by auto
    moreover have "R s' = R s" "managed s' = managed s" using n(2) by (simp_all add: restored_def managed_def)
    ultimately show thesis using that(1) [of s' AS_OutOfFrames 0] same_view_claims [of s s' sp] by (simp add: parent_kept_def same_view_def)
  next
    fix s0 ch
    assume n: "as_new F s = Some (s0, Ok ch)" "as_owned ch = []" "as_devices ch = []" "as_root ch \<in> A s" "space_ok s0 ch"
      "local_step s s0 (\<lambda>_. 0) (claims s0 ch)" "\<And>va. leaf (pt_mem s0) (as_root ch) (va_path va) = None"
    have cr: "current_root \<noteq> as_root ch" using cur n(4) by auto
    have w0: "world_ok s0 (ch # sp # rest)" and sv0: "same_view s s0 x" if "x \<in> set (sp # rest)" for x
      using world_local [of s "[]" "sp # rest" s0 "[ch]"] w n(5,6) that by auto
    have w1: "world_ok s0 (sp # ch # rest)" by (rule world_perm [OF _ w0 [of sp]]) simp_all
    have svsp: "same_view s s0 sp" by (rule sv0) simp
    have R0: "R s0 u = R s u + claims s0 ch u" for u using n(6) by (simp add: local_step_def)
    have man0: "managed s0 = managed s" using n(6) by (simp add: local_step_def)
    have fail: thesis
      if fk: "forking s0 s1 sp ch chv rest" and c: "as_root c = as_root ch" "as_owned c = as_owned chv \<or> as_owned c = []"
        and run: "fork_cow F ro rd current_root sp s = fork_fail F current_root c e s1"
        and ns: "as_owned c = as_owned chv \<and> k = 0 \<or> as_owned c = [] \<and> as_owned chv = take k (as_owned sp)"
        and why: "k = 0 \<or> \<not> try_reserve rd (as_devices sp) \<or> saturated s1 sp (as_root ch) \<and> as_owned c = []" for s1 c chv e k
    proof -
      have rt: "as_root chv = as_root ch" using fk by (simp add: forking_def)
      have c1: "as_root c = as_root chv" and cr1: "current_root \<noteq> as_root chv" using rt c(1) cr by simp_all
      obtain s' where s': "fork_fail F current_root c e s1 = Some (s', Err e)" "world_ok s' (sp # rest)" "\<forall>x \<in> set (sp # rest). same_view s1 s' x"
        "\<forall>u. R s' u + claims s0 ch u + count_list (map om_frame (as_owned c)) u = R s0 u + count_list (map om_frame (as_owned chv)) u"
        "managed s' = managed s1"
        using drop_child [OF fk c1 c(2) cr1, of e] .
      have "R s' u = R s u + count_list (map om_frame (take k (as_owned sp))) u" for u
        by (rule bal0 [OF s'(4) [rule_format] R0]) (use ns in auto)
      moreover have "same_view s s' x" if "x \<in> set rest" for x
      proof -
        have "same_view s0 s1 x" using fk that by (simp add: forking_def)
        then show ?thesis using same_view_trans [OF same_view_trans [OF sv0 [of x]], of s1 s'] s'(3) that by simp
      qed
      moreover have "parent_kept s s' sp" using forking_kept [OF svsp fk] s'(3) by simp
      moreover have "k = 0 \<or> \<not> try_reserve rd (as_devices sp) \<or> (\<exists>m \<in> set (as_owned sp). R s' (om_frame m) = cap)"
      proof -
        have "R s' f = R s1 f" if "f \<notin> ran (T s1 (as_root ch))" "as_owned c = []" for f
        proof -
          have "R s1 f + claims s0 ch f = R s0 f + claims s1 chv f" using fk by (simp add: forking_def)
          moreover have "claims s1 chv f = count_list (map om_frame (as_owned chv)) f" using that(1) rt by (simp add: claims_def)
          ultimately show ?thesis using s'(4) [rule_format, of f] that(2) by simp
        qed
        then show ?thesis using why unfolding saturated_def by metis
      qed
      moreover have "managed s' = managed s" using s'(5) man0 fk by (simp add: forking_def)
      ultimately show thesis using fin(1) [of s' e k] run s'(1,2) by simp
    qed
    show thesis
    proof (cases "try_reserve ro (as_owned sp)")
      case False
      have "fork_cow F ro rd current_root sp s = fork_fail F current_root ch AS_OutOfFrames s0" using n(1) False by (simp add: fork_cow_def)
      then show thesis using fail [OF forking_refl [OF w1], of ch AS_OutOfFrames 0] by simp
    next
      case tro: True
      note run0 = fork_cow_def [of F ro rd current_root sp s, unfolded n(1) bind.bind_lunit prod.case result.case]
      obtain s1 r k where f1: "fork_owned F sp ch (as_owned sp) [] s0 = Some (s1, take k (as_owned sp), r)"
        "forking s0 s1 sp ch (ch\<lparr>as_owned := as_owned ch @ take k (as_owned sp)\<rparr>) rest"
        "case r of Ok _ \<Rightarrow> take k (as_owned sp) = as_owned sp \<and> copied cow_entry s0 s1 sp (as_root ch) (as_owned sp)
          | Err (b, e) \<Rightarrow> b \<or> saturated s1 sp (as_root ch)"
        using fork_owned_ok [OF w1 refl n(7)] by blast
      show thesis
      proof (cases r)
        case (Err x)
        obtain b e where x: "x = (b, e)" by (cases x)
        show thesis
        proof (cases b)
          case True
          have "fork_cow F ro rd current_root sp s = fork_fail F current_root (ch\<lparr>as_owned := take k (as_owned sp)\<rparr>) e s1"
            using run0 tro f1(1) Err x True by simp
          then show thesis using fail [OF f1(2), of "ch\<lparr>as_owned := take k (as_owned sp)\<rparr>" e 0] n(2) by simp
        next
          case False
          have "fork_cow F ro rd current_root sp s = fork_fail F current_root ch e s1" using run0 tro f1(1) Err x False by simp
          then show thesis using fail [OF f1(2), of ch e k] n(2) f1(3) Err x False by simp
        qed
      next
        case (Ok x)
        then have all: "take k (as_owned sp) = as_owned sp" "copied cow_entry s0 s1 sp (as_root ch) (as_owned sp)" using f1(3) by simp_all
        let ?ch1 = "ch\<lparr>as_owned := as_owned sp\<rparr>"
        have fk1: "forking s0 s1 sp ch ?ch1 rest" using f1(2) all(1) n(2) by simp
        show thesis
        proof (cases "try_reserve rd (as_devices sp)")
          case False
          have "fork_cow F ro rd current_root sp s = fork_fail F current_root ch AS_OutOfFrames s1" using run0 tro f1(1) Ok False by simp
          then show thesis using fail [OF fk1, of ch AS_OutOfFrames "length (as_owned sp)"] n(2) False by simp
        next
          case True
          have w2: "world_ok s1 (sp # ?ch1 # rest)" using fk1 by (simp add: forking_def)
          have none: "leaf (pt_mem s1) (as_root ?ch1) (va_path (om_va m)) = None" if m: "m \<in> set (as_devices sp)" for m
          proof -
            have "user_page (om_va m)" by (rule device_leaf [OF ok m])
            moreover have "om_va m \<notin> om_va ` set (as_owned sp)" using ok m by (auto simp: space_ok_def)
            ultimately show ?thesis using all(2) n(7) by (simp add: copied_def)
          qed
          obtain s2 r2 k2 where f2: "fork_devices F sp ch (as_devices sp) [] s1 = Some (s2, take k2 (as_devices sp), r2)"
            "forking s1 s2 sp ?ch1 (?ch1\<lparr>as_devices := as_devices ?ch1 @ take k2 (as_devices sp)\<rparr>) rest"
            "case r2 of Ok _ \<Rightarrow> take k2 (as_devices sp) = as_devices sp \<and> copied id s1 s2 sp (as_root ?ch1) (as_devices sp) | Err (b, e) \<Rightarrow> b"
            using fork_devices_ok [OF w2 _ none, of ch] by auto
          note fk2 = forking_trans [OF fk1 f2(2)]
          show thesis
          proof (cases r2)
            case (Err x)
            then obtain e where x: "x = (True, e)" using f2(3) by (cases x) auto
            let ?c = "ch\<lparr>as_owned := as_owned sp, as_devices := take k2 (as_devices sp)\<rparr>"
            have "fork_cow F ro rd current_root sp s = fork_fail F current_root ?c e s2" using run0 tro f1(1) f2(1) Ok True Err x all(1) by simp
            then show thesis using fail [OF fk2, of ?c e 0] by simp
          next
            case r2: (Ok y)
            then have all2: "take k2 (as_devices sp) = as_devices sp" "copied id s1 s2 sp (as_root ch) (as_devices sp)" using f2(3) by simp_all
            define ch2 where "ch2 = ch\<lparr>as_owned := as_owned sp, as_devices := as_devices sp\<rparr>"
            have fk: "forking s0 s2 sp ch ch2 rest" using fk2 all2(1) n(3) by (simp add: ch2_def)
            have run: "fork_cow F ro rd current_root sp s = Some (s2, Ok ch2)"
              using run0 tro f1(1) f2(1) Ok True r2 all(1) all2(1) by (simp add: ch2_def)
            have r2: "as_root ch2 = as_root ch" by (simp add: ch2_def)
            note fd = fork_done [OF ok sv0 fk, of s1, unfolded r2, OF _ all(2) all2(2) n(7) R0]
            show thesis
            proof (rule fin(2) [OF run])
              show "as_owned ch2 = as_owned sp" "as_devices ch2 = as_devices sp" by (simp_all add: ch2_def)
              show "managed s2 = managed s" using fk man0 by (simp add: forking_def)
            qed (unfold r2, (rule fd; assumption)+)
          qed
        qed
      qed
    qed
  qed
qed

end

end
