(* ===== verification/SpaceSteps.thy ===== *)
theory SpaceSteps
  imports SpaceFork
begin

text \<open>
  The remaining operations on a space: device pages, protection changes and the
  writes of a user program, and what \<open>query\<close> reads of a space.
\<close>

context frame_source
begin

lemma query_ok:
  assumes "space_ok s sp"
  shows "as_query sp va s = Ok e \<longleftrightarrow> user_page va \<and> leaf (pt_mem s) (as_root sp) (va_path va) = Some e"
proof -
  have us: "uspace s (as_root sp)" using assms unfolding space_ok_def by blast
  show ?thesis unfolding as_query_def page_entry_ok [OF us] by (auto simp: user_page_def split: option.splits)
qed

text \<open>All that \<open>query\<close> can read is determined by the leaves.\<close>

lemma query_same:
  assumes "space_ok s sp" "space_ok s' sp'" "\<And>vb. user_page vb \<Longrightarrow> leaf (pt_mem s') (as_root sp') (va_path vb) = leaf (pt_mem s) (as_root sp) (va_path vb)"
  shows "as_query sp' va s' = as_query sp va s"
proof -
  have us: "uspace s (as_root sp)" "uspace s' (as_root sp')" using assms(1,2) unfolding space_ok_def by blast+
  show ?thesis unfolding as_query_def page_entry_ok [OF us(1)] page_entry_ok [OF us(2)] using assms(3) [of va] by (auto simp: user_page_def)
qed

lemma world_mem: "world_ok s sps \<Longrightarrow> sp \<in> set sps \<Longrightarrow> space_ok s sp"
  by (simp add: world_ok_def)

text \<open>A page of a device.\<close>

lemma map_device_ok:
  assumes w: "world_ok s (sp # rest)" and dev: "physical \<notin> managed s" "frame_ok physical" and fl: "flags_ok flags" "bit flags 0" "\<not> bit flags 9"
  obtains s' e where "as_map_device F room sp va physical flags s = Some (s', sp, Err e)" "restored s s'"
  | s' where "as_map_device F room sp va physical flags s
        = Some (s', sp\<lparr>as_devices := as_devices sp @ [\<lparr>om_va = va, om_frame = physical\<rparr>]\<rparr>, Ok ())"
      "user_page va" "leaf (pt_mem s) (as_root sp) (va_path va) = None"
      "world_ok s' (sp\<lparr>as_devices := as_devices sp @ [\<lparr>om_va = va, om_frame = physical\<rparr>]\<rparr> # rest)"
      "\<forall>x \<in> set rest. same_view s s' x"
      "\<forall>vb. user_page vb \<longrightarrow> leaf (pt_mem s') (as_root sp) (va_path vb)
         = (if vb = va then Some (physical OR flags) else leaf (pt_mem s) (as_root sp) (va_path vb))"
      "\<forall>u. R s' u + claims s sp u = R s u + claims s' (sp\<lparr>as_devices := as_devices sp @ [\<lparr>om_va = va, om_frame = physical\<rparr>]\<rparr>) u" "managed s' = managed s"
proof (cases room)
  case False
  have "restored s s" using w restored_refl by (simp add: world_ok_def)
  then show thesis using that(1) [of s AS_OutOfFrames] False by (simp add: as_map_device_def)
next
  case True
  note fin = that
  have ok: "space_ok s sp" using w by (simp add: world_ok_def)
  show thesis
  proof (rule as_map_cases [OF ok, of va physical flags])
    fix e assume e: "as_map F sp va physical flags s = Some (s, Err e)"
    have "restored s s" using w restored_refl by (simp add: world_ok_def)
    then show thesis using fin(1) [of s e] True e by (simp add: as_map_device_def)
  next
    fix s' e assume e: "as_map F sp va physical flags s = Some (s', Err e)" "map_failed s s' (as_root sp) va e"
    then show thesis using fin(1) [of s' e] True by (simp add: as_map_device_def map_failed_def)
  next
    fix s' assume m: "as_map F sp va physical flags s = Some (s', Ok ())" "user_page va" "leaf (pt_mem s) (as_root sp) (va_path va) = None"
      "mapped s s' (as_root sp) va (physical OR flags)"
    let ?sp = "sp\<lparr>as_devices := as_devices sp @ [\<lparr>om_va = va, om_frame = physical\<rparr>]\<rparr>" and ?e = "physical OR flags"
    have ef: "entry_frame ?e = physical" by (rule entry_frame_or [OF dev(2) fl(1)])
    have b: "bit ?e 0" "\<not> bit ?e 9" using fl frame_ok_bits [OF dev(2), of 9] by (auto simp: bit_or_iff)
    have "page_added s sp rest va ?e ?sp" using dev(1) b(2) by (simp add: page_added_def ef)
    note ap = add_page [OF w m(2,3,4) b(1) this]
    show thesis using fin(2) [of s'] True m(1,2,3) ap(1,2,3,6,7) by (simp add: as_map_device_def)
  qed
qed

text \<open>\<open>mprotect\<close> on one page.\<close>

lemma protect_one_ok:
  assumes w: "world_ok s (sp # rest)"
  obtains "protect_one F prot page (s, sp) = ((s, sp), Err ENOMEM)" "\<not> user_page page \<or> leaf (pt_mem s) (as_root sp) (va_path page) = None"
  | s' e e' where "protect_one F prot page (s, sp) = ((s', sp), Ok ())" "user_page page"
      "leaf (pt_mem s) (as_root sp) (va_path page) = Some e" "world_ok s' (sp # rest)" "\<forall>x \<in> set rest. same_view s s' x"
      "\<forall>vb. user_page vb \<longrightarrow> leaf (pt_mem s') (as_root sp) (va_path vb)
         = (if vb = page then Some e' else leaf (pt_mem s) (as_root sp) (va_path vb))"
      "entry_frame e' = entry_frame e" "leaf_prot prot e'" "R s' = R s" "A s' = A s" "claims s' sp = claims s sp"
      "\<forall>u. u \<notin> ran (T s (as_root sp)) \<longrightarrow> pt_mem s' u = pt_mem s u"
proof -
  define fl where "fl = (if prot = prot_NONE then PRESENT OR NO_EXECUTE else page_flags prot)"
  have fl: "flags_ok fl" "bit fl 0" using page_flags_bits NONE_flags by (auto simp: fl_def)
  have valid: "validate_user_mapping page 0 (page_flags prot) = Ok () \<longleftrightarrow> user_page page"
    using page_flags_bits [of prot]
    by (auto simp: validate_user_mapping_def validate_range_def user_page_def page_aligned_def is_user_def is_writable_def is_executable_def not_le)
  have run: "protect_one F prot page (s, sp) = (if user_page page
      then (case set_leaf_flags F sp page fl s of (s', Ok _) \<Rightarrow> ((s', sp), Ok ()) | (s', Err _) \<Rightarrow> ((s', sp), Err ENOMEM))
      else ((s, sp), Err ENOMEM))"
  proof (cases "user_page page")
    case True
    then show ?thesis using valid validate_page [of page]
      by (auto simp: protect_one_def as_protect_def as_protect_inaccessible_def fl_def)
  next
    case False
    then show ?thesis using valid validate_page [of page]
      by (auto simp: protect_one_def as_protect_def as_protect_inaccessible_def fl_def split: result.splits)
  qed
  show thesis
  proof (cases "user_page page \<and> leaf (pt_mem s) (as_root sp) (va_path page) \<noteq> None")
    case False
    then have "protect_one F prot page (s, sp) = ((s, sp), Err ENOMEM)"
      using run set_leaf_flags_ok [OF w _ fl, of page] by (auto split: option.splits)
    then show thesis using that(1) False by blast
  next
    case True
    then obtain e where e: "user_page page" "leaf (pt_mem s) (as_root sp) (va_path page) = Some e" by blast
    obtain s' sh where sl: "set_leaf_flags F sp page fl s = (s', Ok ())" "world_ok s' (sp # rest)" "\<forall>x \<in> set rest. same_view s s' x"
      "R s' = R s" "A s' = A s" "claims s' sp = claims s sp" "\<forall>u. u \<notin> ran (T s (as_root sp)) \<longrightarrow> pt_mem s' u = pt_mem s u"
      "\<forall>vb. user_page vb \<longrightarrow> leaf (pt_mem s') (as_root sp) (va_path vb)
         = (if vb = page then Some (protected_entry e fl sh) else leaf (pt_mem s) (as_root sp) (va_path vb))"
      using set_leaf_flags_ok [OF w e(1) fl] unfolding e(2) option.case by blast
    note b = protected_entry_bits [OF fl, of e sh]
    have "leaf_prot prot (protected_entry e fl sh)"
      unfolding leaf_prot_def b(3,4,5,6) using page_flags_bits [of prot] NONE_flags by (auto simp: fl_def prot_NONE_def)
    moreover have "protect_one F prot page (s, sp) = ((s', sp), Ok ())" using run e(1) sl(1) by simp
    ultimately show thesis using that(2) [of s' e "protected_entry e fl sh"] e sl b(2) by blast
  qed
qed

text \<open>A user program writes to a page it may write.\<close>

lemma user_write_ok:
  assumes w: "world_ok s (sp # rest)" and up: "user_page va" and lf: "leaf (pt_mem s) (as_root sp) (va_path va) = Some e" "bit e 1"
    and pos: "0 < R s (entry_frame e)" and s'_def: "s' = s\<lparr>pt_mem := (pt_mem s)(entry_frame e := c)\<rparr>"
  shows "world_ok s' (sp # rest)" "\<And>x. x \<in> set rest \<Longrightarrow> same_view s s' x"
    "\<And>vb. leaf (pt_mem s') (as_root sp) (va_path vb) = leaf (pt_mem s) (as_root sp) (va_path vb)" "claims s' sp = claims s sp"
proof -
  let ?r = "as_root sp" and ?f = "entry_frame e"
  have ok: "space_ok s sp" and pml4: "pt_pml4 s \<notin> managed s" and src: "src s" using w by (simp_all add: world_ok_def)
  obtain m where m: "m \<in> set (as_owned sp @ as_devices sp)" "om_va m = va" using space_listed [OF ok up lf(1)] by blast
  have mo: "m \<in> set (as_owned sp)"
  proof (rule ccontr)
    assume "m \<notin> set (as_owned sp)"
    then have "m \<in> set (as_devices sp)" using m(1) by simp
    then obtain e0 where "leaf (pt_mem s) ?r (va_path (om_va m)) = Some e0" "entry_frame e0 = om_frame m" "om_frame m \<notin> managed s"
      using device_leaf [OF ok] by blast
    then show False using lf(1) m(2) pos by (simp add: managed_def)
  qed
  obtain e0 where "leaf (pt_mem s) ?r (va_path (om_va m)) = Some e0" "entry_frame e0 = om_frame m" "bit e0 1 \<longrightarrow> R s (om_frame m) = 1"
    using owned_leaf [OF ok mo] by blast
  then have fr: "om_frame m = ?f" "R s ?f = 1" using lf m(2) by auto
  have fT: "?f \<notin> ran (T s ?r)" using owned_no_table [OF w mo] fr(1) by simp
  have mem: "pt_mem s' u = pt_mem s u" if "u \<noteq> ?f" for u using that by (simp add: s'_def)
  have mt: "pt_mem s' t = pt_mem s t" if "T s ?r p = Some t" for p t
    using that fT by (intro mem) (metis ranI)
  have T: "T s' ?r = T s ?r" by (rule tm_same) (rule mt)
  have en: "ent 256 (pt_mem s') ?r q = ent 256 (pt_mem s) ?r q" for q
    using mt by (cases q) (auto simp: ent_def T split: option.splits)
  show lf': "leaf (pt_mem s') ?r (va_path vb) = leaf (pt_mem s) ?r (va_path vb)" for vb by (simp add: leaf_def en)
  have fr': "pt_fr s' = pt_fr s" "pt_pml4 s' = pt_pml4 s" by (simp_all add: s'_def)
  have src': "src s'" by (rule sourced_statics [OF src]) (use sourced_good [OF src] in \<open>auto simp: s'_def\<close>)
  have man: "managed s' = managed s" by (simp add: managed_def fr')
  show cl: "claims s' sp = claims s sp" by (simp add: claims_def T fun_eq_iff)
  have cf: "claims s sp ?f = 1" using claims_le [OF w, of ?f] owned_claimed [OF mo, of s] fr by simp
  have ok': "space_ok s' sp"
  proof -
    have "user_tree (R s') (pt_mem s') ?r"
      using ok mt unfolding space_ok_def user_tree_def tree_def T fr' by metis
    moreover have "pt_mem s' ?r = pt_mem s ?r" by (rule mt [of "[]"]) simp
    moreover have "pt_mem s' (pt_pml4 s) = pt_mem s (pt_pml4 s)" using pml4 pos by (intro mem) (auto simp: managed_def)
    moreover have "full (pt_mem s') ?r" using ok unfolding space_ok_def full_but_def T en by blast
    ultimately show ?thesis using ok src' unfolding space_ok_def owned_ok_def device_ok_def lf' man fr' by simp
  qed
  have loc: "local_step s s' (claims s sp) (claims s sp)"
    unfolding local_step_def using src' man cf fr(2) mem by (auto simp: s'_def)
  then show "world_ok s' (sp # rest)" "\<And>x. x \<in> set rest \<Longrightarrow> same_view s s' x"
    using world_local [of s "[sp]" rest s' "[sp]"] w ok' cl by auto
qed

end

end
