(* ===== verification/SpaceProps.thy ===== *)
theory SpaceProps
  imports SpaceSteps
begin

text \<open>
  The address spaces of all processes as a transition system on the kernel's
  frame allocator: every reachable world is well formed, and each operation has
  its contract there.
\<close>

section \<open>The transition system\<close>

type_synonym world = "Allocator pt_state \<times> AddressSpace list"

text \<open>
  The world when paging is set up: no space yet, the allocator counts, and
  neither the static heap nor the kernel's top table are frames it hands out.
\<close>

definition world_boot :: "world \<Rightarrow> bool" where
  "world_boot w \<longleftrightarrow> snd w = [] \<and> refs_inv (pt_fr (fst w)) \<and> pt_active (fst w)
     \<and> (\<forall>f. f \<in> avail_frames (pt_fr (fst w)) \<or> 0 < frame_refs (pt_fr (fst w)) f
            \<longrightarrow> \<not> overlaps_heap (fst w) f \<and> f \<noteq> pt_pml4 (fst w))"

text \<open>Memory of a device: a frame the allocator knows nothing of. The root a processor runs on.\<close>

definition device_memory :: "Allocator pt_state \<Rightarrow> w64 \<Rightarrow> bool" where
  "device_memory s f \<longleftrightarrow> f AND ADDRESS_MASK = f \<and> f \<notin> avail_frames (pt_fr s) \<and> frame_refs (pt_fr s) f = 0"

definition runs_on :: "Allocator pt_state \<Rightarrow> AddressSpace list \<Rightarrow> w64 \<Rightarrow> bool" where
  "runs_on s sps root \<longleftrightarrow> root = pt_pml4 s \<or> root \<in> as_root ` set sps"

text \<open>
  A fork that fails may leave references behind: when the list of the child's
  device pages cannot grow, or the counter of a frame is at its limit.
  \<open>tidy\<close> runs have no such fork.
\<close>

definition leaky_fork :: "bool \<Rightarrow> AddressSpace \<Rightarrow> Allocator pt_state \<Rightarrow> bool" where
  "leaky_fork rd sp s' \<longleftrightarrow> \<not> try_reserve rd (as_devices sp)
     \<or> (\<exists>m \<in> set (as_owned sp). frame_refs (pt_fr s') (om_frame m) = 2 ^ 16 - 1)"

inductive space_step :: "bool \<Rightarrow> world \<Rightarrow> world \<Rightarrow> bool" for tidy where
  create: "as_new kframes s = Some (s', Ok sp) \<Longrightarrow> space_step tidy (s, sps) (s', sp # sps)"
| create_failed: "as_new kframes s = Some (s', Err e) \<Longrightarrow> space_step tidy (s, sps) (s', sps)"
| map: "map_one kframes room prot page (s, sp) = Some ((s', sp'), r) \<Longrightarrow> space_step tidy (s, xs @ sp # ys) (s', xs @ sp' # ys)"
| map_device: "as_map_device kframes room sp page physical (with_cache (page_flags prot) True False) s = Some (s', sp', r)
    \<Longrightarrow> device_memory s physical \<Longrightarrow> space_step tidy (s, xs @ sp # ys) (s', xs @ sp' # ys)"
| unmap: "unmap_one kframes page (s, sp) = Some (s', sp') \<Longrightarrow> space_step tidy (s, xs @ sp # ys) (s', xs @ sp' # ys)"
| protect: "protect_one kframes prot page (s, sp) = ((s', sp'), r) \<Longrightarrow> space_step tidy (s, xs @ sp # ys) (s', xs @ sp' # ys)"
| fault: "resolve_cow kframes sp va s = Some (s', sp', r) \<Longrightarrow> va < 2 ^ 47 \<Longrightarrow> space_step tidy (s, xs @ sp # ys) (s', xs @ sp' # ys)"
| fork: "fork_cow kframes ro rd root sp s = Some (s', Ok child) \<Longrightarrow> runs_on s (xs @ sp # ys) root
    \<Longrightarrow> space_step tidy (s, xs @ sp # ys) (s', child # xs @ sp # ys)"
| fork_failed: "fork_cow kframes ro rd root sp s = Some (s', Err e) \<Longrightarrow> runs_on s (xs @ sp # ys) root
    \<Longrightarrow> (tidy \<longrightarrow> \<not> leaky_fork rd sp s') \<Longrightarrow> space_step tidy (s, xs @ sp # ys) (s', xs @ sp # ys)"
| destroy: "as_drop kframes root sp s = Some s' \<Longrightarrow> root \<noteq> as_root sp \<Longrightarrow> space_step tidy (s, xs @ sp # ys) (s', xs @ ys)"
| store: "as_query sp va s = Ok e \<Longrightarrow> has e WRITABLE \<Longrightarrow> 0 < frame_refs (pt_fr s) (entry_frame e)
    \<Longrightarrow> space_step tidy (s, xs @ sp # ys) (s\<lparr>pt_mem := (pt_mem s)(entry_frame e := c)\<rparr>, xs @ sp # ys)"

inductive_cases space_stepE: "space_step tidy w w'"

text \<open>A leaf is present and never both writable, or to be made writable, and executable.\<close>

definition leaf_typed :: "w64 \<Rightarrow> bool" where
  "leaf_typed e \<longleftrightarrow> has e PRESENT \<and> (has e WRITABLE \<or> has e COPY_ON_WRITE \<longrightarrow> has e NO_EXECUTE)"

definition leaves_typed :: "Allocator pt_state \<Rightarrow> AddressSpace \<Rightarrow> bool" where
  "leaves_typed s sp \<longleftrightarrow> (\<forall>vb e. user_page vb \<longrightarrow> leaf (pt_mem s) (as_root sp) (va_path vb) = Some e \<longrightarrow> leaf_typed e)"

definition world_inv :: "world \<Rightarrow> bool" where
  "world_inv w \<longleftrightarrow> kf.world_ok (fst w) (snd w) \<and> (\<forall>sp \<in> set (snd w). leaves_typed (fst w) sp)"

lemma leaf_typed_cow: "leaf_typed e \<Longrightarrow> leaf_typed (cow_entry e)"
  using cow_entry_bits [of e] by (auto simp: leaf_typed_def)

lemma leaf_typed_prot: "leaf_prot prot e \<Longrightarrow> bit e 0 \<Longrightarrow> leaf_typed e"
  by (auto simp: leaf_typed_def leaf_prot_def)

lemma leaf_present: "leaf M r q = Some e \<Longrightarrow> bit e 0"
  by (simp add: leaf_def split: if_splits)

lemma leaves_typed_view: "leaves_typed s sp \<Longrightarrow> kf.same_view s s' sp \<Longrightarrow> leaves_typed s' sp"
  by (simp add: leaves_typed_def kf.same_view_def)

lemma leaves_typed_update:
  assumes "leaves_typed s sp" "as_root sp' = as_root sp"
    "\<And>vb. user_page vb \<Longrightarrow> leaf (pt_mem s') (as_root sp) (va_path vb) = (if vb = va then x else leaf (pt_mem s) (as_root sp) (va_path vb))"
    "\<And>e. x = Some e \<Longrightarrow> leaf_typed e"
  shows "leaves_typed s' sp'"
  using assms unfolding leaves_typed_def by (auto split: if_splits)

lemma leaves_typed_kept:
  assumes "leaves_typed s sp" "kf.parent_kept s s' sp"
  shows "leaves_typed s' sp"
  unfolding leaves_typed_def
proof (intro allI impI)
  fix vb e assume vb: "user_page vb" and e: "leaf (pt_mem s') (as_root sp) (va_path vb) = Some e"
  have "leaf (pt_mem s') (as_root sp) (va_path vb) = leaf (pt_mem s) (as_root sp) (va_path vb)
      \<or> leaf (pt_mem s') (as_root sp) (va_path vb) = map_option cow_entry (leaf (pt_mem s) (as_root sp) (va_path vb))"
    using assms(2) vb unfolding kf.parent_kept_def by blast
  then show "leaf_typed e" using e assms(1) vb leaf_typed_cow unfolding leaves_typed_def
    by (cases "leaf (pt_mem s) (as_root sp) (va_path vb)") auto
qed

text \<open>The space an operation is about, put first.\<close>

lemma world_front: "kf.world_ok s (xs @ sp # ys) \<longleftrightarrow> kf.world_ok s (sp # xs @ ys)"
  by (intro iffI; erule kf.world_perm [rotated]; simp)

lemma inv_front: "world_inv (s, xs @ sp # ys) \<longleftrightarrow> world_inv (s, sp # xs @ ys)"
  by (auto simp: world_inv_def world_front)

text \<open>
  The accounts: what the allocator counts for a frame beyond the references of
  the spaces never changes, and neither does the set of frames it manages.
\<close>

definition balanced :: "world \<Rightarrow> world \<Rightarrow> bool" where
  "balanced w w' \<longleftrightarrow> kf.managed (fst w') = kf.managed (fst w)
     \<and> (\<forall>u. frame_refs (pt_fr (fst w')) u + kf.total (fst w) (snd w) u = frame_refs (pt_fr (fst w)) u + kf.total (fst w') (snd w') u)"

lemma balanced_trans: "balanced a b \<Longrightarrow> balanced b c \<Longrightarrow> balanced a c"
  unfolding balanced_def
proof (intro conjI allI)
  fix u
  assume ab: "kf.managed (fst b) = kf.managed (fst a)
     \<and> (\<forall>u. frame_refs (pt_fr (fst b)) u + kf.total (fst a) (snd a) u = frame_refs (pt_fr (fst a)) u + kf.total (fst b) (snd b) u)"
    and bc: "kf.managed (fst c) = kf.managed (fst b)
     \<and> (\<forall>u. frame_refs (pt_fr (fst c)) u + kf.total (fst b) (snd b) u = frame_refs (pt_fr (fst b)) u + kf.total (fst c) (snd c) u)"
  have "frame_refs (pt_fr (fst b)) u + kf.total (fst a) (snd a) u = frame_refs (pt_fr (fst a)) u + kf.total (fst b) (snd b) u"
    "frame_refs (pt_fr (fst c)) u + kf.total (fst b) (snd b) u = frame_refs (pt_fr (fst b)) u + kf.total (fst c) (snd c) u" using ab bc by blast+
  then show "frame_refs (pt_fr (fst c)) u + kf.total (fst a) (snd a) u = frame_refs (pt_fr (fst a)) u + kf.total (fst c) (snd c) u" by linarith
  show "kf.managed (fst c) = kf.managed (fst a)" using ab bc by simp
qed

lemma views_total: "\<forall>x \<in> set rest. kf.same_view s s' x \<Longrightarrow> kf.total s' rest u = kf.total s rest u"
proof -
  assume v: "\<forall>x \<in> set rest. kf.same_view s s' x"
  have "kf.claims s' x u = kf.claims s x u" if "x \<in> set rest" for x using kf.same_view_claims [of s s' x] v that by simp
  then have "map (\<lambda>sp. kf.claims s' sp u) rest = map (\<lambda>sp. kf.claims s sp u) rest" by simp
  then show ?thesis by (simp only: kf.total_def)
qed

text \<open>A change of the spaces \<open>olds\<close> to \<open>news\<close> with everybody else as before.\<close>

lemma balancedI:
  assumes "\<forall>x \<in> set rest. kf.same_view s s' x" "kf.managed s' = kf.managed s"
    "\<And>u. frame_refs (pt_fr s') u + kf.total s olds u = frame_refs (pt_fr s) u + kf.total s' news u"
  shows "balanced (s, olds @ rest) (s', news @ rest)"
  using assms(2,3) views_total [OF assms(1)] unfolding balanced_def by simp

lemma total_front: "kf.total s (xs @ sp # ys) = kf.total s (sp # xs @ ys)"
proof
  fix u show "kf.total s (xs @ sp # ys) u = kf.total s (sp # xs @ ys) u" unfolding kf.total_simps by (rule add.left_commute)
qed

text \<open>A step that keeps the invariant and the accounts.\<close>

definition kept :: "world \<Rightarrow> world \<Rightarrow> bool" where
  "kept w w' \<longleftrightarrow> world_inv w' \<and> balanced w w'"

lemma kept_front: "kept (s, xs @ sp # ys) (s', xs @ sp' # ys) \<longleftrightarrow> kept (s, sp # xs @ ys) (s', sp' # xs @ ys)"
  unfolding kept_def balanced_def inv_front fst_conv snd_conv total_front ..

lemma inv_change:
  assumes inv: "world_inv (s, olds @ rest)" and w: "kf.world_ok s' (news @ rest)" and sv: "\<forall>x \<in> set rest. kf.same_view s s' x"
    and new: "\<And>x. x \<in> set news \<Longrightarrow> leaves_typed s' x"
  shows "world_inv (s', news @ rest)"
proof -
  have "leaves_typed s' x" if "x \<in> set rest" for x using inv sv that leaves_typed_view [of s x s'] by (simp add: world_inv_def)
  then show ?thesis using w new by (auto simp: world_inv_def)
qed

lemma kept_change:
  assumes inv: "world_inv (s, olds @ rest)" and w: "kf.world_ok s' (news @ rest)" and sv: "\<forall>x \<in> set rest. kf.same_view s s' x"
    and new: "\<And>x. x \<in> set news \<Longrightarrow> leaves_typed s' x" and man: "kf.managed s' = kf.managed s"
    and bal: "\<And>u. frame_refs (pt_fr s') u + kf.total s olds u = frame_refs (pt_fr s) u + kf.total s' news u"
  shows "kept (s, olds @ rest) (s', news @ rest)"
  unfolding kept_def using inv_change [OF inv w sv new] balancedI [OF sv man bal] by blast

lemma kept_one:
  assumes "world_inv (s, sp # rest)" "kf.world_ok s' (sp' # rest)" "\<forall>x \<in> set rest. kf.same_view s s' x" "leaves_typed s' sp'"
    "kf.managed s' = kf.managed s" "\<forall>u. frame_refs (pt_fr s') u + kf.claims s sp u = frame_refs (pt_fr s) u + kf.claims s' sp' u"
  shows "kept (s, sp # rest) (s', sp' # rest)"
  using kept_change [of s "[sp]" rest s' "[sp']"] assms by simp

lemma kept_refl: "world_inv w \<Longrightarrow> kept w w"
  by (simp add: kept_def balanced_def)

lemma kept_restored:
  assumes inv: "world_inv (s, sps)" and r: "kf.restored s s'"
  shows "kept (s, sps) (s', sps)"
proof -
  have "kf.world_ok s sps" using inv by (simp add: world_inv_def)
  note wr = kf.world_restored [OF this r]
  have "frame_refs (pt_fr s') = frame_refs (pt_fr s)" "kf.managed s' = kf.managed s" using r by (simp_all add: kf.restored_def kf.managed_def)
  then show ?thesis using kept_change [of s "[]" sps s' "[]"] inv wr by simp
qed

subsection \<open>Every step keeps the invariant\<close>

lemma invD:
  assumes "world_inv (s, sp # rest)"
  shows "kf.world_ok s (sp # rest)" "leaves_typed s sp"
  using assms by (simp_all add: world_inv_def)

lemma runs_on_used:
  assumes w: "kf.world_ok s sps" and r: "runs_on s sps root"
  shows "root \<notin> avail_frames (pt_fr s)"
proof (cases "root = pt_pml4 s")
  case True
  then show ?thesis using w by (simp add: kf.world_ok_def kf.managed_def)
next
  case False
  then obtain sp where sp: "sp \<in> set sps" "root = as_root sp" using r by (auto simp: runs_on_def)
  have us: "user_tree (frame_refs (pt_fr s)) (pt_mem s) (as_root sp)" "sourced refs_inv avail_frames frame_refs s"
    using kf.world_mem [OF w sp(1)] unfolding kf.space_ok_def by blast+
  then show ?thesis using kf.table_in_use [of s "as_root sp" "[]"] sp(2) by simp
qed

lemma inv_create:
  assumes inv: "world_inv (s, sps)" and n: "as_new kframes s = Some (s', r)"
  shows "case r of Ok sp \<Rightarrow> kept (s, sps) (s', sp # sps) | Err _ \<Rightarrow> kept (s, sps) (s', sps)"
proof -
  have w: "kf.world_ok s sps" using inv by (simp add: world_inv_def)
  show ?thesis
  proof (rule kf.as_new_ok [OF w])
    fix s1 assume "as_new kframes s = Some (s1, Err AS_OutOfFrames)" "kf.restored s s1"
    then show ?thesis using n kept_restored [OF inv] by simp
  next
    fix s1 sp
    assume a: "as_new kframes s = Some (s1, Ok sp)" "kf.space_ok s1 sp" "kf.local_step s s1 (\<lambda>_. 0) (kf.claims s1 sp)"
      "\<And>va. leaf (pt_mem s1) (as_root sp) (va_path va) = None"
    have "kf.world_ok s1 ([sp] @ sps)" "\<And>x. x \<in> set sps \<Longrightarrow> kf.same_view s s1 x"
      using kf.world_local [of s "[]" sps s1 "[sp]"] w a(2,3) by auto
    moreover have "leaves_typed s1 sp" using a(4) by (simp add: leaves_typed_def)
    moreover have "frame_refs (pt_fr s1) u = frame_refs (pt_fr s) u + kf.claims s1 sp u" "kf.managed s1 = kf.managed s" for u
      using a(3) by (simp_all add: kf.local_step_def)
    ultimately show ?thesis using a(1) n inv kept_change [of s "[]" sps s1 "[sp]"] by simp
  qed
qed

lemma inv_map:
  assumes inv: "world_inv (s, sp # rest)" and m: "map_one kframes room prot page (s, sp) = Some ((s', sp'), r)"
  shows "kept (s, sp # rest) (s', sp' # rest)"
proof (rule kf.map_one_ok [OF invD(1) [OF inv], of room prot page])
  fix s1 assume "map_one kframes room prot page (s, sp) = Some ((s1, sp), Err ENOMEM)" "kf.restored s s1"
  then show ?thesis using m kept_restored [OF inv] by simp
next
  fix s1 f e
  let ?sp = "sp\<lparr>as_owned := as_owned sp @ [\<lparr>om_va = page, om_frame = f\<rparr>]\<rparr>"
  assume a: "map_one kframes room prot page (s, sp) = Some ((s1, ?sp), Ok ())" "user_page page" "kf.world_ok s1 (?sp # rest)"
    "\<forall>x \<in> set rest. kf.same_view s s1 x"
    "\<forall>vb. user_page vb \<longrightarrow> leaf (pt_mem s1) (as_root sp) (va_path vb) = (if vb = page then Some e else leaf (pt_mem s) (as_root sp) (va_path vb))"
    "leaf_prot prot e" "\<forall>u. frame_refs (pt_fr s1) u + kf.claims s sp u = frame_refs (pt_fr s) u + kf.claims s1 ?sp u"
    "kf.managed s1 = kf.managed s"
  have "leaf (pt_mem s1) (as_root sp) (va_path page) = Some e" using a(2,5) by simp
  then have "leaf_typed e" using leaf_typed_prot [OF a(6)] leaf_present by blast
  then have "leaves_typed s1 ?sp" using a(5) by (intro leaves_typed_update [OF invD(2) [OF inv], of _ _ page "Some e"]) simp_all
  then show ?thesis using kept_one [OF inv a(3,4) _ a(8,7)] a(1) m by simp
qed

lemma inv_map_device:
  assumes inv: "world_inv (s, sp # rest)" and dev: "device_memory s physical"
    and m: "as_map_device kframes room sp page physical (with_cache (page_flags prot) True False) s = Some (s', sp', r)"
  shows "kept (s, sp # rest) (s', sp' # rest)"
proof -
  let ?fl = "with_cache (page_flags prot) True False"
  have fl: "?fl = page_flags prot OR PWT" by (simp add: with_cache_def)
  have fb: "flags_ok ?fl" "bit ?fl 0" "\<not> bit ?fl 9" "bit ?fl 1 \<longleftrightarrow> bit (page_flags prot) 1" "bit ?fl 63 \<longleftrightarrow> bit (page_flags prot) 63"
  proof -
    have "flags_ok PWT" unfolding flags_ok_def by (rule bit_eqI) (auto simp: bit_and_iff bit_flags bit_ADDRESS_MASK)
    then show "flags_ok ?fl" unfolding fl using kf.page_flags_bits(1) [of prot] by simp
  qed (use kf.page_flags_bits [of prot] in \<open>auto simp: fl bit_or_iff bit_flags\<close>)
  have d: "physical \<notin> kf.managed s" "frame_ok physical" using dev by (auto simp: device_memory_def kf.managed_def frame_ok_def entry_frame_def)
  show ?thesis
  proof (rule kf.map_device_ok [OF invD(1) [OF inv] d fb(1,2,3), of room page])
    fix s1 e assume "as_map_device kframes room sp page physical ?fl s = Some (s1, sp, Err e)" "kf.restored s s1"
    then show ?thesis using m kept_restored [OF inv] by simp
  next
    fix s1
    let ?sp = "sp\<lparr>as_devices := as_devices sp @ [\<lparr>om_va = page, om_frame = physical\<rparr>]\<rparr>"
    assume a: "as_map_device kframes room sp page physical ?fl s = Some (s1, ?sp, Ok ())" "kf.world_ok s1 (?sp # rest)"
      "\<forall>x \<in> set rest. kf.same_view s s1 x"
      "\<forall>vb. user_page vb \<longrightarrow> leaf (pt_mem s1) (as_root sp) (va_path vb)
         = (if vb = page then Some (physical OR ?fl) else leaf (pt_mem s) (as_root sp) (va_path vb))"
      "\<forall>u. frame_refs (pt_fr s1) u + kf.claims s sp u = frame_refs (pt_fr s) u + kf.claims s1 ?sp u" "kf.managed s1 = kf.managed s"
    have "leaf_typed (physical OR ?fl)"
      using fb kf.page_flags_bits [of prot] frame_ok_bits [OF d(2), of 1] frame_ok_bits [OF d(2), of 9] by (auto simp: leaf_typed_def bit_or_iff)
    then have "leaves_typed s1 ?sp" using a(4) by (intro leaves_typed_update [OF invD(2) [OF inv], of _ _ page "Some (physical OR ?fl)"]) simp_all
    then show ?thesis using kept_one [OF inv a(2,3) _ a(6,5)] a(1) m by simp
  qed
qed

lemma inv_unmap:
  assumes inv: "world_inv (s, sp # rest)" and m: "unmap_one kframes page (s, sp) = Some (s', sp')"
  shows "kept (s, sp # rest) (s', sp' # rest)"
proof (rule kf.unmap_one_ok [OF invD(1) [OF inv], of page])
  assume "unmap_one kframes page (s, sp) = Some (s, sp)"
  then show ?thesis using m kept_refl [OF inv] by simp
next
  fix s1 sp1 e
  assume a: "unmap_one kframes page (s, sp) = Some (s1, sp1)" "kf.world_ok s1 (sp1 # rest)" "\<forall>x \<in> set rest. kf.same_view s s1 x"
    "as_root sp1 = as_root sp"
    "\<forall>vb. user_page vb \<longrightarrow> leaf (pt_mem s1) (as_root sp) (va_path vb) = (if vb = page then None else leaf (pt_mem s) (as_root sp) (va_path vb))"
    "\<forall>u. frame_refs (pt_fr s1) u + kf.claims s sp u = frame_refs (pt_fr s) u + kf.claims s1 sp1 u" "kf.managed s1 = kf.managed s"
  then have "leaves_typed s1 sp1" by (intro leaves_typed_update [OF invD(2) [OF inv], of _ _ page None]) simp_all
  then show ?thesis using kept_one [OF inv a(2,3) _ a(7,6)] a(1) m by simp
qed

lemma inv_protect:
  assumes inv: "world_inv (s, sp # rest)" and m: "protect_one kframes prot page (s, sp) = ((s', sp'), r)"
  shows "kept (s, sp # rest) (s', sp' # rest)"
proof (rule kf.protect_one_ok [OF invD(1) [OF inv], of prot page])
  assume "protect_one kframes prot page (s, sp) = ((s, sp), Err ENOMEM)"
  then show ?thesis using m kept_refl [OF inv] by simp
next
  fix s1 e e'
  assume a: "protect_one kframes prot page (s, sp) = ((s1, sp), Ok ())" "user_page page" "kf.world_ok s1 (sp # rest)"
    "\<forall>x \<in> set rest. kf.same_view s s1 x"
    "\<forall>vb. user_page vb \<longrightarrow> leaf (pt_mem s1) (as_root sp) (va_path vb) = (if vb = page then Some e' else leaf (pt_mem s) (as_root sp) (va_path vb))"
    "leaf_prot prot e'" "frame_refs (pt_fr s1) = frame_refs (pt_fr s)" "avail_frames (pt_fr s1) = avail_frames (pt_fr s)"
    "kf.claims s1 sp = kf.claims s sp"
  have "leaf (pt_mem s1) (as_root sp) (va_path page) = Some e'" using a(2,5) by simp
  then have "leaf_typed e'" using leaf_typed_prot [OF a(6)] leaf_present by blast
  then have "leaves_typed s1 sp" using a(5) by (intro leaves_typed_update [OF invD(2) [OF inv], of _ _ page "Some e'"]) simp_all
  moreover have "kf.managed s1 = kf.managed s" using a(7,8) by (simp add: kf.managed_def)
  ultimately show ?thesis using kept_one [OF inv a(3,4)] a(1,7,9) m by simp
qed

lemma inv_fault:
  assumes inv: "world_inv (s, sp # rest)" and va: "va < 2 ^ 47" and m: "resolve_cow kframes sp va s = Some (s', sp', r)"
  shows "kept (s, sp # rest) (s', sp' # rest)"
proof (rule kf.resolve_cow_ok [OF invD(1) [OF inv] va])
  assume "resolve_cow kframes sp va s = Some (s, sp, NotCow)"
  then show ?thesis using m kept_refl [OF inv] by simp
next
  fix s1 assume "resolve_cow kframes sp va s = Some (s1, sp, OutOfMemory)" "kf.restored s s1"
  then show ?thesis using m kept_restored [OF inv] by simp
next
  fix s1 sp1 e f
  let ?page = "va AND NOT (of_nat PAGE_SIZE - 1)"
  assume a: "resolve_cow kframes sp va s = Some (s1, sp1, Resolved)" "leaf (pt_mem s) (as_root sp) (va_path ?page) = Some e" "bit e 9"
    "kf.world_ok s1 (sp1 # rest)" "\<forall>x \<in> set rest. kf.same_view s s1 x" "as_root sp1 = as_root sp" "kf.own_copy s s1 sp ?page e f"
    "\<forall>u. frame_refs (pt_fr s1) u + kf.claims s sp u = frame_refs (pt_fr s) u + kf.claims s1 sp1 u" "kf.managed s1 = kf.managed s"
  have lf: "leaf (pt_mem s1) (as_root sp) (va_path vb)
      = (if vb = ?page then Some (f OR resolved_flags e) else leaf (pt_mem s) (as_root sp) (va_path vb))" if "user_page vb" for vb
    using a(7) that unfolding kf.own_copy_def by blast
  have up: "user_page ?page" by (rule page_of_user [OF va])
  have "leaf_typed e" using invD(2) [OF inv] up a(2) by (simp add: leaves_typed_def)
  moreover have "bit (f OR resolved_flags e) 0" using lf [OF up] leaf_present [of _ _ _ "f OR resolved_flags e"] by simp
  ultimately have "leaf_typed (f OR resolved_flags e)" using a(3) resolved_flags_bits [of e] by (simp add: leaf_typed_def bit_or_iff)
  then have "leaves_typed s1 sp1"
    by (intro leaves_typed_update [OF invD(2) [OF inv] a(6) lf]) simp_all
  then show ?thesis using kept_one [OF inv a(4,5) _ a(9,8)] a(1) m by simp
qed

lemma inv_fork:
  assumes inv: "world_inv (s, sp # rest)" and root: "root \<notin> avail_frames (pt_fr s)" and m: "fork_cow kframes ro rd root sp s = Some (s', r)"
  shows "case r of Ok ch \<Rightarrow> kept (s, sp # rest) (s', sp # ch # rest)
    | Err _ \<Rightarrow> world_inv (s', sp # rest) \<and> (\<not> leaky_fork rd sp s' \<longrightarrow> balanced (s, sp # rest) (s', sp # rest))"
proof (rule kf.fork_cow_ok [OF invD(1) [OF inv] root, of ro rd])
  fix s1 e n
  assume a: "fork_cow kframes ro rd root sp s = Some (s1, Err e)" "kf.world_ok s1 (sp # rest)" "\<forall>x \<in> set rest. kf.same_view s s1 x"
    "kf.parent_kept s s1 sp" "\<forall>u. frame_refs (pt_fr s1) u = frame_refs (pt_fr s) u + count_list (map om_frame (take n (as_owned sp))) u"
    "n = 0 \<or> \<not> try_reserve rd (as_devices sp) \<or> (\<exists>m \<in> set (as_owned sp). frame_refs (pt_fr s1) (om_frame m) = 2 ^ 16 - 1)"
    "kf.managed s1 = kf.managed s"
  have c: "kf.claims s1 sp = kf.claims s sp" using a(4) by (simp add: kf.parent_kept_def)
  have "balanced (s, [sp] @ rest) (s1, [sp] @ rest)" if "\<not> leaky_fork rd sp s1"
  proof -
    have "n = 0" using that a(6) by (auto simp: leaky_fork_def)
    then show ?thesis by (intro balancedI [OF a(3,7)]) (simp add: a(5) c)
  qed
  then show ?thesis using inv_change [of s "[sp]" rest s1 "[sp]"] leaves_typed_kept [OF invD(2) [OF inv] a(4)] inv a(1,2,3) m by simp
next
  fix s1 ch
  assume a: "fork_cow kframes ro rd root sp s = Some (s1, Ok ch)" "kf.world_ok s1 (sp # ch # rest)" "\<forall>x \<in> set rest. kf.same_view s s1 x"
    "kf.parent_kept s s1 sp"
    "\<forall>vb. user_page vb \<longrightarrow> leaf (pt_mem s1) (as_root ch) (va_path vb) = leaf (pt_mem s1) (as_root sp) (va_path vb)"
    "\<forall>u. frame_refs (pt_fr s1) u = frame_refs (pt_fr s) u + kf.claims s1 ch u" "kf.managed s1 = kf.managed s"
  have sp: "leaves_typed s1 sp" by (rule leaves_typed_kept [OF invD(2) [OF inv] a(4)])
  then have "leaves_typed s1 ch" using a(5) by (simp add: leaves_typed_def)
  moreover have c: "kf.claims s1 sp = kf.claims s sp" using a(4) by (simp add: kf.parent_kept_def)
  ultimately have "kept (s, [sp] @ rest) (s1, [sp, ch] @ rest)"
    using inv a(2,3,7) sp by (intro kept_change) (auto simp: a(6) c)
  then show ?thesis using a(1) m by simp
qed

lemma inv_destroy:
  assumes inv: "world_inv (s, sp # rest)" and root: "root \<noteq> as_root sp" and m: "as_drop kframes root sp s = Some s'"
  shows "kept (s, sp # rest) (s', rest)"
proof (rule kf.as_drop_ok [OF invD(1) [OF inv] root])
  fix s1
  assume "as_drop kframes root sp s = Some s1" "kf.world_ok s1 rest" "\<forall>x \<in> set rest. kf.same_view s s1 x"
    "\<forall>u. frame_refs (pt_fr s1) u + kf.claims s sp u = frame_refs (pt_fr s) u" "kf.managed s1 = kf.managed s"
  then show ?thesis using kept_change [of s "[sp]" rest s1 "[]"] inv m by simp
qed

lemma inv_store:
  assumes inv: "world_inv (s, sp # rest)" and q: "as_query sp va s = Ok e" "bit e 1" "0 < frame_refs (pt_fr s) (entry_frame e)"
  shows "kept (s, sp # rest) (s\<lparr>pt_mem := (pt_mem s)(entry_frame e := c)\<rparr>, sp # rest)"
proof -
  have lf: "user_page va" "leaf (pt_mem s) (as_root sp) (va_path va) = Some e"
    using q(1) kf.query_ok [OF kf.world_mem [OF invD(1) [OF inv]], of sp va e] by simp_all
  note uw = kf.user_write_ok [OF invD(1) [OF inv] lf q(2,3) refl, where c = c]
  have "leaves_typed (s\<lparr>pt_mem := (pt_mem s)(entry_frame e := c)\<rparr>) sp" using invD(2) [OF inv] uw(3) unfolding leaves_typed_def by metis
  then show ?thesis using uw(1,2,4) by (intro kept_one [OF inv]) (simp_all add: kf.managed_def)
qed

lemma inv_boot: "world_boot w \<Longrightarrow> world_inv w"
  by (auto simp: world_boot_def world_inv_def kf.world_ok_def sourced_def supplied_def kf.managed_def)

lemma space_step_kept: "space_step tidy w w' \<Longrightarrow> world_inv w \<Longrightarrow> world_inv w' \<and> (tidy \<longrightarrow> balanced w w')"
proof (induction rule: space_step.induct)
  case (create s s' sp sps)
  then show ?case using inv_create [of s sps s' "Ok sp"] by (simp add: kept_def)
next
  case (create_failed s s' e sps)
  then show ?case using inv_create [of s sps s' "Err e"] by (simp add: kept_def)
next
  case (map room prot page s sp s' sp' r xs ys)
  then have "kept (s, xs @ sp # ys) (s', xs @ sp' # ys)" unfolding inv_front kept_front using inv_map by blast
  then show ?case by (simp add: kept_def)
next
  case (map_device room sp page physical prot s s' sp' r xs ys)
  then have "kept (s, xs @ sp # ys) (s', xs @ sp' # ys)" unfolding inv_front kept_front using inv_map_device by blast
  then show ?case by (simp add: kept_def)
next
  case (unmap page s sp s' sp' xs ys)
  then have "kept (s, xs @ sp # ys) (s', xs @ sp' # ys)" unfolding inv_front kept_front using inv_unmap by blast
  then show ?case by (simp add: kept_def)
next
  case (protect prot page s sp s' sp' r xs ys)
  then have "kept (s, xs @ sp # ys) (s', xs @ sp' # ys)" unfolding inv_front kept_front using inv_protect by blast
  then show ?case by (simp add: kept_def)
next
  case (fault sp va s s' sp' r xs ys)
  then have "kept (s, xs @ sp # ys) (s', xs @ sp' # ys)" unfolding inv_front kept_front using inv_fault by blast
  then show ?case by (simp add: kept_def)
next
  case (fork ro rd root sp s s' child xs ys)
  have w: "kf.world_ok s (xs @ sp # ys)" using fork.prems by (simp add: world_inv_def)
  have k: "kept (s, sp # xs @ ys) (s', sp # child # xs @ ys)"
    using inv_fork [of s sp "xs @ ys" root ro rd s' "Ok child"] fork runs_on_used [OF w fork.hyps(2)] by (simp add: inv_front)
  then have "world_inv (s', child # xs @ sp # ys)"
    using inv_front [of s' "[child]" sp "xs @ ys"] inv_front [of s' "child # xs" sp ys] by (simp add: kept_def)
  moreover have "balanced (s, xs @ sp # ys) (s', child # xs @ sp # ys)"
    using k total_front [of s' "[child]" sp "xs @ ys"] total_front [of s' "child # xs" sp ys]
    unfolding kept_def balanced_def by (simp add: total_front)
  ultimately show ?case by blast
next
  case (fork_failed ro rd root sp s s' e xs ys)
  have w: "kf.world_ok s (xs @ sp # ys)" using fork_failed.prems by (simp add: world_inv_def)
  have "world_inv (s', sp # xs @ ys) \<and> (\<not> leaky_fork rd sp s' \<longrightarrow> balanced (s, sp # xs @ ys) (s', sp # xs @ ys))"
    using inv_fork [of s sp "xs @ ys" root ro rd s' "Err e"] fork_failed runs_on_used [OF w fork_failed.hyps(2)] by (simp add: inv_front)
  then show ?case using fork_failed.hyps(3) unfolding inv_front balanced_def fst_conv snd_conv total_front by blast
next
  case (destroy root sp s s' xs ys)
  then have "kept (s, sp # xs @ ys) (s', xs @ ys)" unfolding inv_front using inv_destroy by blast
  then show ?case unfolding kept_def balanced_def fst_conv snd_conv total_front by blast
next
  case (store sp va s e xs ys c)
  then have "kept (s, xs @ sp # ys) (s\<lparr>pt_mem := (pt_mem s)(entry_frame e := c)\<rparr>, xs @ sp # ys)"
    unfolding inv_front kept_front using inv_store by simp
  then show ?case by (simp add: kept_def)
qed

interpretation sw: safe_system world_boot "space_step tidy" world_inv for tidy
  by unfold_locales (use inv_boot space_step_kept in blast)+

section \<open>Isolation\<close>

text \<open>
  The page \<open>va\<close> of a space is device memory: it is on the list of the space's
  device mappings and its frame is neither free nor ever counted by the
  allocator.
\<close>

definition device_page :: "Allocator pt_state \<Rightarrow> AddressSpace \<Rightarrow> w64 \<Rightarrow> w64 \<Rightarrow> bool" where
  "device_page s sp va frame \<longleftrightarrow> \<lparr>om_va = va, om_frame = frame\<rparr> \<in> set (as_devices sp)
     \<and> frame \<notin> avail_frames (pt_fr s) \<and> frame_refs (pt_fr s) frame = 0"

text \<open>A frame that two spaces map is writable in neither, or it is device memory in both.\<close>

definition isolated :: "Allocator pt_state \<Rightarrow> AddressSpace list \<Rightarrow> bool" where
  "isolated s sps \<longleftrightarrow> (\<forall>i j va vb e e'. i < length sps \<longrightarrow> j < length sps \<longrightarrow> i \<noteq> j
     \<longrightarrow> as_query (sps ! i) va s = Ok e \<longrightarrow> as_query (sps ! j) vb s = Ok e' \<longrightarrow> entry_frame e = entry_frame e'
     \<longrightarrow> \<not> has e WRITABLE \<and> \<not> has e' WRITABLE
       \<or> device_page s (sps ! i) va (entry_frame e) \<and> device_page s (sps ! j) vb (entry_frame e))"

lemma total_two:
  assumes "i < length sps" "j < length sps" "i \<noteq> j"
  shows "kf.claims s (sps ! i) f + kf.claims s (sps ! j) f \<le> kf.total s sps f"
proof -
  let ?c = "\<lambda>k. kf.claims s (sps ! k) f"
  have "sum ?c {i, j} \<le> sum ?c {..<length sps}" by (rule sum_mono2) (use assms in auto)
  moreover have "kf.total s sps f = sum ?c {..<length sps}"
    by (simp add: kf.total_def sum_list_sum_nth atLeast0LessThan)
  ultimately show ?thesis using assms(3) by simp
qed

text \<open>A page that a space translates is one it owns or one of its device pages.\<close>

lemma query_listed:
  assumes ok: "kf.space_ok s sp" and q: "as_query sp va s = Ok e"
  obtains (owned) m where "m \<in> set (as_owned sp)" "om_va m = va" "om_frame m = entry_frame e"
      "bit e 1 \<longrightarrow> frame_refs (pt_fr s) (entry_frame e) = 1"
  | (device) "device_page s sp va (entry_frame e)"
proof -
  have lf: "user_page va" "leaf (pt_mem s) (as_root sp) (va_path va) = Some e" using q kf.query_ok [OF ok] by simp_all
  obtain m where m: "m \<in> set (as_owned sp @ as_devices sp)" "om_va m = va" using kf.space_listed [OF ok lf] by blast
  show thesis
  proof (cases "m \<in> set (as_owned sp)")
    case True
    then show thesis using owned [OF True m(2)] kf.owned_leaf [OF ok True] lf(2) m(2) by (metis option.inject)
  next
    case False
    then have d: "m \<in> set (as_devices sp)" using m(1) by simp
    have f: "om_frame m = entry_frame e" "entry_frame e \<notin> kf.managed s"
      using kf.device_leaf [OF ok d] lf(2) m(2) by (metis option.inject)+
    have "m = \<lparr>om_va = va, om_frame = entry_frame e\<rparr>" using m(2) f(1) by (simp add: OwnedMapping.equality)
    then show thesis using device d f(2) by (simp add: device_page_def kf.managed_def)
  qed
qed

lemma owned_managed:
  assumes "kf.world_ok s sps" "sp \<in> set sps" "m \<in> set (as_owned sp)"
  shows "0 < frame_refs (pt_fr s) (om_frame m)"
proof -
  have "kf.total s sps (om_frame m) \<le> frame_refs (pt_fr s) (om_frame m)" using assms(1) by (simp add: kf.world_ok_def)
  then show ?thesis using kf.owned_claimed [OF assms(3), of s] kf.total_mem [OF assms(2), of s "om_frame m"] by linarith
qed

lemma inv_isolated: "world_inv (s, sps) \<Longrightarrow> isolated s sps"
  unfolding isolated_def
proof (intro allI impI)
  fix i j va vb e e'
  assume inv: "world_inv (s, sps)" and ij: "i < length sps" "j < length sps" "i \<noteq> j"
    and q: "as_query (sps ! i) va s = Ok e" "as_query (sps ! j) vb s = Ok e'" and ee: "entry_frame e = entry_frame e'"
  have w: "kf.world_ok s sps" using inv by (simp add: world_inv_def)
  have ok: "kf.space_ok s (sps ! i)" "kf.space_ok s (sps ! j)" using kf.world_mem [OF w] ij by simp_all
  have pos: "0 < frame_refs (pt_fr s) (om_frame m)" if "m \<in> set (as_owned (sps ! k))" "k < length sps" for m k
    using owned_managed [OF w _ that(1)] that(2) by simp
  show "\<not> has e WRITABLE \<and> \<not> has e' WRITABLE
       \<or> device_page s (sps ! i) va (entry_frame e) \<and> device_page s (sps ! j) vb (entry_frame e)"
  proof (cases rule: query_listed [OF ok(1) q(1)])
    case (1 m)
    show ?thesis
    proof (cases rule: query_listed [OF ok(2) q(2)])
      case (1 n)
      have "2 \<le> kf.total s sps (entry_frame e)"
        using total_two [OF ij, of s "entry_frame e"] kf.owned_claimed [OF \<open>m \<in> _\<close>, of s] kf.owned_claimed [OF 1(1), of s]
          \<open>om_frame m = _\<close> 1(3) ee by simp
      moreover have "kf.total s sps (entry_frame e) \<le> frame_refs (pt_fr s) (entry_frame e)" using w by (simp add: kf.world_ok_def)
      ultimately show ?thesis using \<open>bit e 1 \<longrightarrow> _\<close> 1(4) ee by auto
    next
      case 2
      then show ?thesis using pos [OF 1(1) ij(1)] 1(3) ee by (simp add: device_page_def)
    qed
  next
    case 2
    then show ?thesis
    proof (cases rule: query_listed [OF ok(2) q(2)])
      case (1 n)
      then show ?thesis using pos [OF 1(1) ij(2)] 2 ee by (simp add: device_page_def)
    next
      case 2
      then show ?thesis using \<open>device_page s (sps ! i) va (entry_frame e)\<close> ee by simp
    qed
  qed
qed

text \<open>
  C1. Isolation: whatever sequence of maps, unmaps, protection changes, device
  maps, forks, write faults, stores and exits the processes run, a frame that
  two address spaces map is writable in neither of them, with the one exception
  the kernel intends: device memory, which fork shares with the child as it is.
  In the exception both pages are on the device lists of their spaces, and the
  frame is no memory of the allocator: it is not free and nothing ever counts it.
\<close>

theorem spaces_isolated:
  assumes "reaches world_boot (space_step tidy) (s, sps)"
  shows "isolated s sps"
  by (rule inv_isolated [OF sw.reaches_inv [OF assms]])

text \<open>
  C8. Well-formed translations: in every reachable world each page an address
  space translates has a present entry that is never both writable (or waiting
  to become writable after a copy) and executable, and whose frame is page
  aligned; the upper half of every root is the kernel's.
\<close>

theorem translations_typed:
  assumes "reaches world_boot (space_step tidy) (s, sps)" "sp \<in> set sps"
  shows "(case as_query sp va s of Ok e \<Rightarrow> leaf_typed e \<and> page_aligned (entry_frame e) \<and> va < 2 ^ 47 | Err _ \<Rightarrow> True)
    \<and> (\<forall>i \<in> {256..<512}. pt_mem s (as_root sp) i = pt_mem s (pt_pml4 s) i)"
proof -
  have inv: "world_inv (s, sps)" by (rule sw.reaches_inv [OF assms(1)])
  then have ok: "kf.space_ok s sp" and ty: "leaves_typed s sp" using assms(2) kf.world_mem by (auto simp: world_inv_def)
  have "page_aligned (entry_frame e)" for e by (simp add: page_aligned_bits bit_entry_frame)
  moreover have "leaf_typed e \<and> va < 2 ^ 47" if "as_query sp va s = Ok e" for e
    using that kf.query_ok [OF ok, of va e] ty by (auto simp: leaves_typed_def user_page_def)
  ultimately show ?thesis using ok by (auto simp: kf.space_ok_def split: result.splits)
qed

section \<open>Frames come back\<close>

lemma steps_balanced:
  assumes "(space_step True)\<^sup>*\<^sup>* w w'" "world_inv w"
  shows "world_inv w' \<and> balanced w w'"
  using assms
proof (induction rule: rtranclp_induct)
  case base
  then show ?case by (simp add: balanced_def)
next
  case (step x y)
  then have "world_inv y \<and> balanced x y" using space_step_kept [of True x y] by simp
  then show ?case using step balanced_trans by blast
qed

text \<open>
  C2. No frame is lost: after any run of the processes that ends with every
  address space destroyed, each frame has as many references as when the run
  began, and the frames that were available are available again; the run may
  hold any failures but a fork that leaves references behind.
\<close>

theorem frames_come_back:
  assumes "world_boot (s, [])" "(space_step True)\<^sup>*\<^sup>* (s, []) (s', [])"
  shows "frame_refs (pt_fr s') = frame_refs (pt_fr s) \<and> avail_frames (pt_fr s') = avail_frames (pt_fr s)"
proof -
  have inv: "world_inv (s, [])" by (rule inv_boot [OF assms(1)])
  have b: "balanced (s, []) (s', [])" "world_inv (s', [])" using steps_balanced [OF assms(2) inv] by simp_all
  then have R: "frame_refs (pt_fr s') = frame_refs (pt_fr s)" by (simp add: balanced_def fun_eq_iff)
  have avail: "avail_frames (pt_fr x) = kf.managed x - {f. 0 < frame_refs (pt_fr x) f}" if "world_inv (x, [])" for x
  proof -
    have "sourced refs_inv avail_frames frame_refs x" using that by (simp add: world_inv_def kf.world_ok_def)
    then have "frame_refs (pt_fr x) f = 0" if "f \<in> avail_frames (pt_fr x)" for f
      using kf.avail_refs [OF kf.sourced_good that] by simp
    then show ?thesis by (auto simp: kf.managed_def)
  qed
  have "kf.managed s' = kf.managed s" using b(1) by (simp add: balanced_def)
  then show ?thesis using R avail [OF inv] avail [OF b(2)] by simp
qed

section \<open>The operations\<close>

text \<open>What the spaces \<open>xs\<close> translate and what their pages hold is unchanged.\<close>

definition others_same :: "Allocator pt_state \<Rightarrow> Allocator pt_state \<Rightarrow> AddressSpace list \<Rightarrow> bool" where
  "others_same s s' xs \<longleftrightarrow> (\<forall>x \<in> set xs. (\<forall>va. as_query x va s' = as_query x va s)
     \<and> (\<forall>m \<in> set (as_owned x). pt_mem s' (om_frame m) = pt_mem s (om_frame m)))"

lemma others_sameI:
  assumes "kf.world_ok s sps" "kf.world_ok s' sps'" "set xs \<subseteq> set sps" "set xs \<subseteq> set sps'" "\<forall>x \<in> set xs. kf.same_view s s' x"
  shows "others_same s s' xs"
  unfolding others_same_def
proof (intro ballI conjI allI)
  fix x va assume x: "x \<in> set xs"
  have v: "kf.same_view s s' x" using assms(5) x by blast
  have "kf.space_ok s x" "kf.space_ok s' x" using kf.world_mem assms(1-4) x by blast+
  then show "as_query x va s' = as_query x va s" by (rule kf.query_same) (use v in \<open>simp add: kf.same_view_def\<close>)
  show "pt_mem s' (om_frame m) = pt_mem s (om_frame m)" if "m \<in> set (as_owned x)" for m using v that by (simp add: kf.same_view_def)
qed

lemma others_restored:
  assumes "kf.world_ok s sps" "kf.restored s s'"
  shows "others_same s s' sps"
  using kf.world_restored [OF assms] by (intro others_sameI [OF assms(1)]) auto

text \<open>The leaves determine what a space translates.\<close>

lemma query_changed:
  assumes ok: "kf.space_ok s sp" "kf.space_ok s' sp'" and root: "as_root sp' = as_root sp"
    and lf: "\<And>vb. user_page vb \<Longrightarrow> leaf (pt_mem s') (as_root sp) (va_path vb) = (if vb = page then x else leaf (pt_mem s) (as_root sp) (va_path vb))"
  shows "va \<noteq> page \<Longrightarrow> as_query sp' va s' = as_query sp va s"
    "user_page page \<Longrightarrow> as_query sp' page s' = (case x of None \<Rightarrow> Err AS_NotMapped | Some e \<Rightarrow> Ok e)"
proof -
  have us: "user_tree (frame_refs (pt_fr s)) (pt_mem s) (as_root sp)" "sourced refs_inv avail_frames frame_refs s"
    "user_tree (frame_refs (pt_fr s')) (pt_mem s') (as_root sp')" "sourced refs_inv avail_frames frame_refs s'"
    using ok unfolding kf.space_ok_def by blast+
  note q = kf.page_entry_ok [of s sp, OF conjI [OF us(2,1)]] kf.page_entry_ok [of s' sp', OF conjI [OF us(4,3)]]
  show "va \<noteq> page \<Longrightarrow> as_query sp' va s' = as_query sp va s"
    using lf [of va] root unfolding as_query_def q by (auto simp: user_page_def)
  show "user_page page \<Longrightarrow> as_query sp' page s' = (case x of None \<Rightarrow> Err AS_NotMapped | Some e \<Rightarrow> Ok e)"
    using lf [of page] root unfolding as_query_def q by (auto simp: user_page_def)
qed

lemma reach_front:
  assumes "reaches world_boot (space_step tidy) (s, xs @ sp # ys)"
  shows "kf.world_ok s (sp # xs @ ys)" "kf.world_ok s (xs @ sp # ys)" "kf.space_ok s sp"
  using sw.reaches_inv [OF assms] kf.world_mem [of s "xs @ sp # ys" sp] by (simp_all add: world_inv_def world_front)

text \<open>
  C7. One page of \<open>mmap\<close> or \<open>brk\<close> in any reachable world: it never panics; when it
  fails no translation, page or reference of any process has changed and no
  frame is lost, the tables it had made included; when it succeeds the page was
  unmapped, now translates to a zeroed frame that was free, with the requested
  permissions, and every other translation and page of every process is as before.
\<close>

theorem map_one_contract:
  assumes "reaches world_boot (space_step tidy) (s, xs @ sp # ys)"
  shows "case map_one kframes room prot page (s, sp) of
      None \<Rightarrow> False
    | Some ((s', sp'), Err e) \<Rightarrow> e = ENOMEM \<and> sp' = sp \<and> others_same s s' (xs @ sp # ys)
        \<and> avail_frames (pt_fr s') = avail_frames (pt_fr s) \<and> frame_refs (pt_fr s') = frame_refs (pt_fr s)
    | Some ((s', sp'), Ok _) \<Rightarrow> others_same s s' (xs @ ys) \<and> as_query sp page s = Err AS_NotMapped
        \<and> (\<forall>va. va \<noteq> page \<longrightarrow> as_query sp' va s' = as_query sp va s)
        \<and> (\<forall>m \<in> set (as_owned sp). pt_mem s' (om_frame m) = pt_mem s (om_frame m))
        \<and> (\<exists>e. as_query sp' page s' = Ok e \<and> leaf_prot prot e
             \<and> entry_frame e \<in> avail_frames (pt_fr s) \<and> pt_mem s' (entry_frame e) = (\<lambda>_. 0))"
proof -
  note w = reach_front [OF assms]
  show ?thesis
  proof (rule kf.map_one_ok [OF w(1), of room prot page])
    fix s1 assume a: "map_one kframes room prot page (s, sp) = Some ((s1, sp), Err ENOMEM)" "kf.restored s s1"
    then have "avail_frames (pt_fr s1) = avail_frames (pt_fr s)" "frame_refs (pt_fr s1) = frame_refs (pt_fr s)" by (simp_all add: kf.restored_def)
    then show ?thesis using a(1) others_restored [OF w(2) a(2)] by simp
  next
    fix s1 f e
    let ?sp = "sp\<lparr>as_owned := as_owned sp @ [\<lparr>om_va = page, om_frame = f\<rparr>]\<rparr>"
    assume a: "map_one kframes room prot page (s, sp) = Some ((s1, ?sp), Ok ())" "user_page page"
      "leaf (pt_mem s) (as_root sp) (va_path page) = None" "f \<in> avail_frames (pt_fr s)" "pt_mem s1 f = (\<lambda>_. 0)"
      "kf.world_ok s1 (?sp # xs @ ys)" "\<forall>x \<in> set (xs @ ys). kf.same_view s s1 x"
      "\<forall>vb. user_page vb \<longrightarrow> leaf (pt_mem s1) (as_root sp) (va_path vb) = (if vb = page then Some e else leaf (pt_mem s) (as_root sp) (va_path vb))"
      "entry_frame e = f" "leaf_prot prot e" "\<forall>m \<in> set (as_owned sp). pt_mem s1 (om_frame m) = pt_mem s (om_frame m)"
    have ok1: "kf.space_ok s1 ?sp" using kf.world_mem [OF a(6)] by simp
    have "others_same s s1 (xs @ ys)" by (rule others_sameI [OF w(1) a(6) _ _ a(7)]) auto
    moreover have "as_query sp page s = Err AS_NotMapped" using query_changed(2) [OF w(3) w(3), of page None] a(2,3) by simp
    moreover have "as_query ?sp va s1 = as_query sp va s" if "va \<noteq> page" for va
      by (rule query_changed(1) [OF w(3) ok1 _ _ that, of "Some e"]) (use a(8) in simp_all)
    moreover have "as_query ?sp page s1 = Ok e" using query_changed(2) [OF w(3) ok1, of page "Some e"] a(2,8) by simp
    ultimately show ?thesis using a(1,4,5,9,10,11) by simp
  qed
qed

text \<open>
  C9. One page of \<open>munmap\<close> in any reachable world: it never panics, the page
  translates to nothing afterwards, no other translation of any process and no
  page of another process changes, and the pages the process keeps hold what
  they held.
\<close>

theorem unmap_one_contract:
  assumes "reaches world_boot (space_step tidy) (s, xs @ sp # ys)"
  shows "case unmap_one kframes page (s, sp) of
      None \<Rightarrow> False
    | Some (s', sp') \<Rightarrow> others_same s s' (xs @ ys)
        \<and> (\<forall>va. as_query sp' va s' = (if va = page \<and> is_ok (as_query sp page s) then Err AS_NotMapped else as_query sp va s))
        \<and> set (as_owned sp') \<subseteq> set (as_owned sp)
        \<and> (\<forall>m \<in> set (as_owned sp'). pt_mem s' (om_frame m) = pt_mem s (om_frame m))"
proof -
  note w = reach_front [OF assms]
  show ?thesis
  proof (rule kf.unmap_one_ok [OF w(1), of page])
    assume a: "unmap_one kframes page (s, sp) = Some (s, sp)" "\<not> user_page page \<or> leaf (pt_mem s) (as_root sp) (va_path page) = None"
    have "as_query sp page s \<noteq> Ok e" for e using kf.query_ok [OF w(3), of page e] a(2) by auto
    then have "\<not> is_ok (as_query sp page s)" by (cases "as_query sp page s") auto
    then show ?thesis using a(1) by (simp add: others_same_def)
  next
    fix s1 sp1 e
    assume a: "unmap_one kframes page (s, sp) = Some (s1, sp1)" "user_page page" "leaf (pt_mem s) (as_root sp) (va_path page) = Some e"
      "kf.world_ok s1 (sp1 # xs @ ys)" "\<forall>x \<in> set (xs @ ys). kf.same_view s s1 x" "as_root sp1 = as_root sp"
      "\<forall>vb. user_page vb \<longrightarrow> leaf (pt_mem s1) (as_root sp) (va_path vb) = (if vb = page then None else leaf (pt_mem s) (as_root sp) (va_path vb))"
      "\<forall>u. u \<notin> ran (tm 256 (pt_mem s) (as_root sp)) \<longrightarrow> pt_mem s1 u = pt_mem s u"
      "set (as_owned sp1) = {m \<in> set (as_owned sp). om_va m \<noteq> page}"
    have ok1: "kf.space_ok s1 sp1" using kf.world_mem [OF a(4)] by simp
    have "others_same s s1 (xs @ ys)" by (rule others_sameI [OF w(1) a(4) _ _ a(5)]) auto
    moreover have "as_query sp1 va s1 = (if va = page \<and> is_ok (as_query sp page s) then Err AS_NotMapped else as_query sp va s)" for va
    proof (cases "va = page")
      case True
      have "as_query sp page s = Ok e" using kf.query_ok [OF w(3), of page e] a(2,3) by simp
      then show ?thesis using True query_changed(2) [OF w(3) ok1 a(6), of page None] a(2,7) by simp
    next
      case False
      then show ?thesis using query_changed(1) [OF w(3) ok1 a(6), of page None] a(7) by simp
    qed
    moreover have "pt_mem s1 (om_frame m) = pt_mem s (om_frame m)" if "m \<in> set (as_owned sp1)" for m
      using a(8,9) kf.owned_no_table [OF w(1), of m] that by simp
    ultimately show ?thesis using a(1,9) by auto
  qed
qed

text \<open>
  C4. A write fault in any reachable world: it never panics. A page that is not
  marked is left alone; with no memory for the copy nothing changes; otherwise
  the page is writable and no longer marked, holds what it held, lies in a frame
  nobody else refers to, and nothing else changed for anybody.
\<close>

theorem resolve_cow_contract:
  assumes "reaches world_boot (space_step tidy) (s, xs @ sp # ys)" "va < 2 ^ 47" "page = va AND NOT (of_nat PAGE_SIZE - 1)"
  shows "case resolve_cow kframes sp va s of
      None \<Rightarrow> False
    | Some (s', sp', NotCow) \<Rightarrow> s' = s \<and> sp' = sp \<and> (\<forall>e. as_query sp page s = Ok e \<longrightarrow> \<not> has e COPY_ON_WRITE)
    | Some (s', sp', OutOfMemory) \<Rightarrow> sp' = sp \<and> avail_frames (pt_fr s) = {} \<and> others_same s s' (xs @ sp # ys)
    | Some (s', sp', Resolved) \<Rightarrow> others_same s s' (xs @ ys) \<and> (\<forall>vb. vb \<noteq> page \<longrightarrow> as_query sp' vb s' = as_query sp vb s)
        \<and> (\<exists>e e'. as_query sp page s = Ok e \<and> has e COPY_ON_WRITE \<and> as_query sp' page s' = Ok e'
             \<and> has e' WRITABLE \<and> \<not> has e' COPY_ON_WRITE \<and> pt_mem s' (entry_frame e') = pt_mem s (entry_frame e)
             \<and> frame_refs (pt_fr s') (entry_frame e') = 1
             \<and> (entry_frame e' = entry_frame e \<or> entry_frame e' \<in> avail_frames (pt_fr s)))"
proof -
  note w = reach_front [OF assms(1)]
  have up: "user_page page" unfolding assms(3) by (rule page_of_user [OF assms(2)])
  show ?thesis
  proof (rule kf.resolve_cow_ok [OF w(1) assms(2), folded assms(3)])
    assume "resolve_cow kframes sp va s = Some (s, sp, NotCow)" "\<forall>e. leaf (pt_mem s) (as_root sp) (va_path page) = Some e \<longrightarrow> \<not> bit e 9"
    then show ?thesis using kf.query_ok [OF w(3)] by simp
  next
    fix s1 assume "resolve_cow kframes sp va s = Some (s1, sp, OutOfMemory)" "kf.restored s s1" "avail_frames (pt_fr s) = {}"
    then show ?thesis using others_restored [OF w(2)] by simp
  next
    fix s1 sp1 e f
    let ?e = "f OR resolved_flags e"
    assume a: "resolve_cow kframes sp va s = Some (s1, sp1, Resolved)" "leaf (pt_mem s) (as_root sp) (va_path page) = Some e" "bit e 9"
      "kf.world_ok s1 (sp1 # xs @ ys)" "\<forall>x \<in> set (xs @ ys). kf.same_view s s1 x" "as_root sp1 = as_root sp"
      "kf.own_copy s s1 sp page e f" "f = entry_frame e \<or> f \<in> avail_frames (pt_fr s)"
    note oc = a(7) [unfolded kf.own_copy_def]
    have ok1: "kf.space_ok s1 sp1" using kf.world_mem [OF a(4)] by simp
    have ef: "entry_frame ?e = f" using oc by blast
    have "others_same s s1 (xs @ ys)" by (rule others_sameI [OF w(1) a(4) _ _ a(5)]) auto
    moreover have "as_query sp1 vb s1 = as_query sp vb s" if "vb \<noteq> page" for vb
      by (rule query_changed(1) [OF w(3) ok1 a(6) _ that]) (use oc in blast)
    moreover have "as_query sp1 page s1 = Ok ?e"
      using query_changed(2) [OF w(3) ok1 a(6), of page "Some ?e"] oc up by simp
    moreover have "as_query sp page s = Ok e" using kf.query_ok [OF w(3), of page e] up a(2) by simp
    moreover have "has ?e WRITABLE" "\<not> has ?e COPY_ON_WRITE"
    proof -
      have "\<not> bit f 9" using ef bit_entry_frame [of ?e 9] by auto
      then show "has ?e WRITABLE" "\<not> has ?e COPY_ON_WRITE" using resolved_flags_bits [of e] by (simp_all add: bit_or_iff)
    qed
    moreover have "frame_refs (pt_fr s1) f = 1" "pt_mem s1 f = pt_mem s (entry_frame e)" using oc by blast+
    ultimately show ?thesis using a(1,3,8) ef by auto
  qed
qed

text \<open>
  C3. \<open>fork\<close> in any reachable world: it never panics. The child translates every
  address as the parent does, to the same frames with the same contents; no
  owned page is writable in either, so the first write of either side copies;
  other processes notice nothing. A fork that fails leaves the parent's frames
  and contents, and gives back every reference it took unless it is one of the
  early returns, which leave those of a prefix of the parent's pages behind.
\<close>

theorem fork_cow_contract:
  assumes "reaches world_boot (space_step tidy) (s, xs @ sp # ys)" "runs_on s (xs @ sp # ys) root"
  shows "case fork_cow kframes ro rd root sp s of
      None \<Rightarrow> False
    | Some (s', Err e) \<Rightarrow> others_same s s' (xs @ ys)
        \<and> (\<forall>m \<in> set (as_owned sp). pt_mem s' (om_frame m) = pt_mem s (om_frame m))
        \<and> (\<exists>n. (\<forall>f. frame_refs (pt_fr s') f = frame_refs (pt_fr s) f + count_list (map om_frame (take n (as_owned sp))) f)
             \<and> (n = 0 \<or> leaky_fork rd sp s'))
    | Some (s', Ok child) \<Rightarrow> others_same s s' (xs @ ys) \<and> (\<forall>va. as_query child va s' = as_query sp va s')
        \<and> (\<forall>m \<in> set (as_owned sp). pt_mem s' (om_frame m) = pt_mem s (om_frame m)
             \<and> (\<exists>e. as_query child (om_va m) s' = Ok e \<and> entry_frame e = om_frame m \<and> \<not> has e WRITABLE))"
proof -
  note w = reach_front [OF assms(1)]
  have root: "root \<notin> avail_frames (pt_fr s)" by (rule runs_on_used [OF w(2) assms(2)])
  show ?thesis
  proof (rule kf.fork_cow_ok [OF w(1) root, of ro rd])
    fix s1 e n
    assume a: "fork_cow kframes ro rd root sp s = Some (s1, Err e)" "kf.world_ok s1 (sp # xs @ ys)" "\<forall>x \<in> set (xs @ ys). kf.same_view s s1 x"
      "kf.parent_kept s s1 sp" "\<forall>u. frame_refs (pt_fr s1) u = frame_refs (pt_fr s) u + count_list (map om_frame (take n (as_owned sp))) u"
      "n = 0 \<or> \<not> try_reserve rd (as_devices sp) \<or> (\<exists>m \<in> set (as_owned sp). frame_refs (pt_fr s1) (om_frame m) = 2 ^ 16 - 1)"
    have "others_same s s1 (xs @ ys)" by (rule others_sameI [OF w(1) a(2) _ _ a(3)]) auto
    moreover have "n = 0 \<or> leaky_fork rd sp s1" using a(6) unfolding leaky_fork_def by blast
    moreover have "\<forall>m \<in> set (as_owned sp). pt_mem s1 (om_frame m) = pt_mem s (om_frame m)" using a(4) unfolding kf.parent_kept_def by blast
    ultimately show ?thesis using a(1,5) by auto
  next
    fix s1 ch
    assume a: "fork_cow kframes ro rd root sp s = Some (s1, Ok ch)" "kf.world_ok s1 (sp # ch # xs @ ys)" "\<forall>x \<in> set (xs @ ys). kf.same_view s s1 x"
      "kf.parent_kept s s1 sp"
      "\<forall>vb. user_page vb \<longrightarrow> leaf (pt_mem s1) (as_root ch) (va_path vb) = leaf (pt_mem s1) (as_root sp) (va_path vb)"
      "\<forall>m \<in> set (as_owned sp). \<forall>e. leaf (pt_mem s1) (as_root sp) (va_path (om_va m)) = Some e \<longrightarrow> \<not> bit e 1"
    have ok: "kf.space_ok s1 sp" "kf.space_ok s1 ch" using kf.world_mem [OF a(2)] by simp_all
    have same: "as_query ch va s1 = as_query sp va s1" for va by (rule kf.query_same [OF ok]) (use a(5) in simp)
    have "others_same s s1 (xs @ ys)" by (rule others_sameI [OF w(1) a(2) _ _ a(3)]) auto
    moreover have "pt_mem s1 (om_frame m) = pt_mem s (om_frame m)
        \<and> (\<exists>e. as_query ch (om_va m) s1 = Ok e \<and> entry_frame e = om_frame m \<and> \<not> has e WRITABLE)" if m: "m \<in> set (as_owned sp)" for m
    proof -
      obtain e where e: "user_page (om_va m)" "leaf (pt_mem s1) (as_root sp) (va_path (om_va m)) = Some e" "entry_frame e = om_frame m"
        using kf.owned_leaf [OF ok(1) m] by blast
      then have "as_query ch (om_va m) s1 = Ok e" using kf.query_ok [OF ok(1), of "om_va m" e] same by simp
      moreover have "\<not> has e WRITABLE" using a(6) m e(2) by simp
      ultimately show ?thesis using a(4) m e(3) unfolding kf.parent_kept_def by blast
    qed
    ultimately show ?thesis using a(1) same by simp
  qed
qed

section \<open>A world\<close>

text \<open>Some free frames at the bottom of memory, the kernel's top table and the static heap above them.\<close>

definition clean_world :: "nat \<Rightarrow> Allocator pt_state" where
  "clean_world n = \<lparr>pt_mem = (\<lambda>_ _. 0), pt_fr = clean_allocator n, pt_active = True, pt_frozen = True, pt_dropped = True,
     pt_pml4 = 0x100000, pt_heap = 0x200000\<rparr>"

abbreviation boot_world :: "Allocator pt_state" where
  "boot_world \<equiv> clean_world 8"

lemma clean_world_boot:
  assumes "n \<le> 256"
  shows "world_boot (clean_world n, [])"
proof -
  have n: "n \<le> MAX_FRAMES" using assms by (simp add: MAX_FRAMES_def)
  have refs: "al_refs (clean_allocator n) = Some (replicate n 0)" by (simp add: clean_allocator_def)
  have none: "frame_refs (clean_allocator n) f = 0" for f
    using frame_refs_eq [OF clean_refs [OF n] refs, of f] by simp
  have low: "unat f < 0x100000" if "f \<in> avail_frames (clean_allocator n)" for f
  proof -
    have "frame_number f < 256" using that clean_allocator_inv(3) [OF n] assms by (simp add: avail_frames_def)
    then show ?thesis by (simp add: frame_number_def PAGE_SIZE_def)
  qed
  have "\<not> overlaps_heap (clean_world n) f \<and> f \<noteq> pt_pml4 (clean_world n)" if "f \<in> avail_frames (clean_allocator n)" for f
    using low [OF that] by (auto simp: overlaps_heap_def clean_world_def PAGE_SIZE_def)
  then show ?thesis using none clean_refs [OF n] by (auto simp: world_boot_def clean_world_def)
qed

lemma boot_world_boot: "world_boot (boot_world, [])"
  by (rule clean_world_boot) simp

lemma one_space:
  obtains s sp where "as_new kframes boot_world = Some (s, Ok sp)" "reaches world_boot (space_step tidy) (s, [sp])"
proof -
  have r0: "reaches world_boot (space_step tidy) (boot_world, [])" by (rule reaches.start) (rule boot_world_boot)
  have w: "kf.world_ok boot_world []" using sw.reaches_inv [OF r0] by (simp add: world_inv_def)
  have ne: "0 \<in> avail_frames (pt_fr boot_world)"
    using boot_allocator_inv(2,3) by (simp add: avail_frames_def clean_world_def frame_number_def frame_ok_def)
  show thesis
  proof (rule kf.as_new_ok [OF w])
    fix s' assume "avail_frames (pt_fr boot_world) = {}"
    then show thesis using ne by simp
  next
    fix s sp assume n: "as_new kframes boot_world = Some (s, Ok sp)"
    have "reaches world_boot (space_step tidy) (s, [sp])" by (rule reaches.step [OF r0]) (rule space_step.create [OF n])
    then show thesis using that n by blast
  qed
qed

text \<open>A space that maps a writable page and forks; the list holds the child when the fork succeeds.\<close>

lemma forked_space:
  obtains s sp s1 sp1 r s2 q where "as_new kframes boot_world = Some (s, Ok sp)"
    "map_one kframes True prot_READ_WRITE 0x400000 (s, sp) = Some ((s1, sp1), r)"
    "fork_cow kframes True True (pt_pml4 s1) sp1 s1 = Some (s2, q)"
    "reaches world_boot (space_step False) (s2, (case q of Ok ch \<Rightarrow> [ch] | Err _ \<Rightarrow> []) @ [sp1])"
proof (rule one_space)
  fix s sp assume n: "as_new kframes boot_world = Some (s, Ok sp)" and r: "reaches world_boot (space_step False) (s, [sp])"
  have w: "kf.world_ok s [sp]" using sw.reaches_inv [OF r] by (simp add: world_inv_def)
  obtain s1 sp1 x where m: "map_one kframes True prot_READ_WRITE 0x400000 (s, sp) = Some ((s1, sp1), x)"
    by (rule kf.map_one_ok [OF w, of True prot_READ_WRITE "0x400000"])
  have "reaches world_boot (space_step False) (s1, [] @ sp1 # [])"
    by (rule reaches.step [of _ _ "(s, [] @ sp # [])"]) (use r in simp, rule space_step.map [OF m])
  then have r1: "reaches world_boot (space_step False) (s1, [] @ sp1 # [])" .
  have w1: "kf.world_ok s1 [sp1]" using sw.reaches_inv [OF r1] by (simp add: world_inv_def)
  have on: "runs_on s1 ([] @ sp1 # []) (pt_pml4 s1)" by (simp add: runs_on_def)
  have "pt_pml4 s1 \<notin> avail_frames (pt_fr s1)" using w1 by (simp add: kf.world_ok_def kf.managed_def)
  then obtain s2 q where f: "fork_cow kframes True True (pt_pml4 s1) sp1 s1 = Some (s2, q)" by (rule kf.fork_cow_ok [OF w1])
  have "space_step False (s1, [] @ sp1 # []) (s2, (case q of Ok ch \<Rightarrow> [ch] | Err _ \<Rightarrow> []) @ [sp1])"
    using space_step.fork [of True True _ sp1 s1 s2 _ "[]" "[]"] space_step.fork_failed [of True True _ sp1 s1 s2 _ "[]" "[]" False] f on
    by (cases q) simp_all
  then show thesis using that [OF n m f] reaches.step [OF r1] by blast
qed

theorem spaces_isolated_witness:
  "\<exists>s sp s1 sp1 r s2 q. as_new kframes boot_world = Some (s, Ok sp)
     \<and> map_one kframes True prot_READ_WRITE 0x400000 (s, sp) = Some ((s1, sp1), r)
     \<and> fork_cow kframes True True (pt_pml4 s1) sp1 s1 = Some (s2, q)
     \<and> isolated s2 ((case q of Ok ch \<Rightarrow> [ch] | Err _ \<Rightarrow> []) @ [sp1])"
  by (rule forked_space) (use spaces_isolated in blast)

theorem translations_typed_witness:
  "\<exists>s sp. as_new kframes boot_world = Some (s, Ok sp) \<and> (\<forall>i \<in> {256..<512}. pt_mem s (as_root sp) i = pt_mem s (pt_pml4 s) i)"
proof (rule one_space)
  fix s sp assume n: "as_new kframes boot_world = Some (s, Ok sp)" and r: "reaches world_boot (space_step True) (s, [sp])"
  show ?thesis using translations_typed [OF r, of sp] n by auto
qed

theorem frames_come_back_witness:
  "\<exists>s sp s'. as_new kframes boot_world = Some (s, Ok sp) \<and> as_drop kframes 0x100000 sp s = Some s'
     \<and> frame_refs (pt_fr s') = frame_refs boot_allocator \<and> avail_frames (pt_fr s') = avail_frames boot_allocator"
proof (rule one_space)
  fix s sp assume n: "as_new kframes boot_world = Some (s, Ok sp)" and r: "reaches world_boot (space_step True) (s, [sp])"
  have w: "kf.world_ok s [sp]" using sw.reaches_inv [OF r] by (simp add: world_inv_def)
  have b: "reaches world_boot (space_step True) (boot_world, [])" by (rule reaches.start) (rule boot_world_boot)
  have wb: "kf.world_ok boot_world []" using sw.reaches_inv [OF b] by (simp add: world_inv_def)
  have "as_root sp \<in> avail_frames (pt_fr boot_world)"
    by (rule kf.as_new_ok [OF wb]) (use n in auto)
  moreover have "pt_pml4 boot_world \<notin> kf.managed boot_world" using wb by (simp add: kf.world_ok_def)
  ultimately have root: "0x100000 \<noteq> as_root sp" by (auto simp: kf.managed_def clean_world_def)
  obtain s' where d: "as_drop kframes 0x100000 sp s = Some s'" by (rule kf.as_drop_ok [OF w root])
  have "space_step True (boot_world, []) (s, [] @ sp # [])" using space_step.create [OF n, of True "[]"] by simp
  moreover have "space_step True (s, [] @ sp # []) (s', [] @ [])" by (rule space_step.destroy [OF d root])
  ultimately have "(space_step True)\<^sup>*\<^sup>* (boot_world, []) (s', [])" by (metis append_Nil converse_rtranclp_into_rtranclp rtranclp.rtrancl_refl)
  from frames_come_back [OF boot_world_boot this] show ?thesis using n d by (auto simp: clean_world_def)
qed

theorem map_one_contract_witness:
  "\<exists>s sp. as_new kframes boot_world = Some (s, Ok sp) \<and> map_one kframes True prot_NONE 0x400000 (s, sp) \<noteq> None"
proof (rule one_space)
  fix s sp assume n: "as_new kframes boot_world = Some (s, Ok sp)" and r: "reaches world_boot (space_step True) (s, [sp])"
  have "reaches world_boot (space_step True) (s, [] @ sp # [])" using r by simp
  from map_one_contract [OF this, where room = True and prot = prot_NONE and page = "0x400000"]
  show ?thesis using n by (auto split: option.splits)
qed

theorem unmap_one_contract_witness:
  "\<exists>s sp. as_new kframes boot_world = Some (s, Ok sp) \<and> unmap_one kframes 0x400000 (s, sp) \<noteq> None"
proof (rule one_space)
  fix s sp assume n: "as_new kframes boot_world = Some (s, Ok sp)" and r: "reaches world_boot (space_step True) (s, [sp])"
  have "reaches world_boot (space_step True) (s, [] @ sp # [])" using r by simp
  from unmap_one_contract [OF this, where page = "0x400000"] show ?thesis using n by (auto split: option.splits)
qed

theorem resolve_cow_contract_witness:
  "\<exists>s sp s1 sp1 r s2 q. as_new kframes boot_world = Some (s, Ok sp)
     \<and> map_one kframes True prot_READ_WRITE 0x400000 (s, sp) = Some ((s1, sp1), r)
     \<and> fork_cow kframes True True (pt_pml4 s1) sp1 s1 = Some (s2, q)
     \<and> resolve_cow kframes sp1 0x400123 s2 \<noteq> None"
proof (rule forked_space)
  fix s sp s1 sp1 r s2 q
  assume a: "as_new kframes boot_world = Some (s, Ok sp)"
    "map_one kframes True prot_READ_WRITE 0x400000 (s, sp) = Some ((s1, sp1), r)"
    "fork_cow kframes True True (pt_pml4 s1) sp1 s1 = Some (s2, q)"
    "reaches world_boot (space_step False) (s2, (case q of Ok ch \<Rightarrow> [ch] | Err _ \<Rightarrow> []) @ [sp1])"
  have "(0x400123 :: w64) < 2 ^ 47" by simp
  from resolve_cow_contract [OF a(4) this refl] have "resolve_cow kframes sp1 0x400123 s2 \<noteq> None" by (auto split: option.splits)
  then show ?thesis using a(1-3) by blast
qed

theorem fork_cow_contract_witness:
  "\<exists>s sp. as_new kframes boot_world = Some (s, Ok sp) \<and> fork_cow kframes True True (pt_pml4 s) sp s \<noteq> None"
proof (rule one_space)
  fix s sp assume n: "as_new kframes boot_world = Some (s, Ok sp)" and r: "reaches world_boot (space_step True) (s, [sp])"
  have "reaches world_boot (space_step True) (s, [] @ sp # [])" "runs_on s ([] @ sp # []) (pt_pml4 s)" using r by (simp_all add: runs_on_def)
  from fork_cow_contract [OF this, where ro = True and rd = True] show ?thesis using n by (auto split: option.splits)
qed

end
