(* ===== verification/Task.thy ===== *)
theory Task
  imports Prelude "HOL-Library.Signed_Division"
begin

text \<open>
  The records the scheduler works on (\<open>kernel/src/task/types.rs\<close>,
  \<open>entity.rs\<close>, \<open>record.rs\<close>, \<open>wait_queue.rs\<close>) and the addresses of the guarded
  kernel stacks (\<open>kernel/src/mm/kvm.rs\<close>).

  Virtual time is an \<open>i128\<close> of the source; the model uses \<^typ>\<open>int\<close>, since no
  quantity below comes near \<open>2 ^ 127\<close> in any uptime a \<open>u64\<close> clock can count.
  The division of the source rounds towards zero: it is \<open>sdiv\<close>. Ticks,
  nanoseconds and addresses are \<open>u64\<close>; a subtraction that saturates in the
  source is the subtraction of \<^typ>\<open>nat\<close>. A pointer to a function is its address.
\<close>

section \<open>Identifiers, states and contexts\<close>

type_synonym Tick = nat
type_synonym Nanos = nat
type_synonym VirtualTime = int
type_synonym TaskId = nat
type_synonym ProcessId = nat
type_synonym AddressSpaceId = nat
type_synonym ExitStatus = int
type_synonym TaskEntry = nat

definition killed :: "int \<Rightarrow> ExitStatus" where
  "killed signal = - signal"

definition exit_signal :: "ExitStatus \<Rightarrow> int option" where
  "exit_signal st = (if st < 0 then Some (- st) else None)"

datatype BlockReason =
    SleepUntil Tick | WaitOnQueue nat | WaitingForIo nat | WaitingForChild ProcessId

datatype TaskState = New | Ready | Running | Blocked | Exited

datatype ResumeKind = Voluntary | Interrupt

fun is_runnable :: "TaskState \<Rightarrow> bool" where
  "is_runnable Ready = True"
| "is_runnable Running = True"
| "is_runnable _ = False"

fun is_terminal :: "TaskState \<Rightarrow> bool" where
  "is_terminal Exited = True"
| "is_terminal _ = False"

fun can_transition :: "TaskState \<Rightarrow> TaskState \<Rightarrow> bool" where
  "can_transition New Ready = True"
| "can_transition Ready Running = True"
| "can_transition Running Ready = True"
| "can_transition Running Blocked = True"
| "can_transition Running Exited = True"
| "can_transition Blocked Ready = True"
| "can_transition _ _ = False"

record VoluntaryContext =
  stack_pointer :: nat
  instruction_pointer :: nat
  rbx :: nat
  rbp :: nat
  r12 :: nat
  r13 :: nat
  r14 :: nat
  r15 :: nat
  rflags :: nat

definition context_ZERO :: VoluntaryContext where
  "context_ZERO = \<lparr> stack_pointer = 0, instruction_pointer = 0, rbx = 0, rbp = 0,
     r12 = 0, r13 = 0, r14 = 0, r15 = 0, rflags = 2 \<rparr>"

datatype ResumeContext = ResumeVoluntary VoluntaryContext | ResumeInterrupt nat

record DispatchDecision =
  dd_task_id :: TaskId
  resume_context :: ResumeContext
  dd_address_space :: "AddressSpaceId option"

type_synonym FpuState = "byte list"

definition fpu_INITIAL :: FpuState where
  "fpu_INITIAL =
     (replicate 512 0)[0 := 0x7f, 1 := 0x03, 24 := 0x80, 25 := 0x1f, 26 := 0, 27 := 0]"

record KernelStack =
  stack_base :: nat
  stack_top :: nat

record SwitchTarget =
  st_address_space :: "AddressSpaceId option"
  kernel_stack_top :: nat
  st_fpu :: FpuState
  st_fs_base :: nat

section \<open>The stack arena\<close>

definition STACK_ARENA_BASE :: nat where
  "STACK_ARENA_BASE = 0xffffc00000000000 + 2 ^ 30"

definition STACK_SIZE :: nat where "STACK_SIZE = 64 * 1024"

definition GUARD_SIZE :: nat where "GUARD_SIZE = 64 * 1024"

definition SLOT_SIZE :: nat where "SLOT_SIZE = STACK_SIZE + GUARD_SIZE"

definition MAX_STACKS :: nat where "MAX_STACKS = 512 * 2 ^ 20 div SLOT_SIZE"

definition slot_base :: "nat \<Rightarrow> nat" where
  "slot_base slot = STACK_ARENA_BASE + slot * SLOT_SIZE"

definition stack_bounds :: "nat \<Rightarrow> KernelStack" where
  "stack_bounds slot =
     (let base = slot_base slot + GUARD_SIZE in
      \<lparr> stack_base = base, stack_top = base + STACK_SIZE \<rparr>)"

text \<open>
  A \<open>KernelStackAllocation\<close> owns the slot it names; mapping and unmapping its
  pages is the business of the page tables.
\<close>

record StackStorage =
  storage_slot :: nat

definition stack_storage_bounds :: "StackStorage \<Rightarrow> KernelStack" where
  "stack_storage_bounds storage = stack_bounds (storage_slot storage)"

text \<open>The bitmap of slots: one bit per slot, 64 to a word.\<close>

type_synonym slot_words = "64 word list"

definition first_clear :: "64 word \<Rightarrow> nat" where
  "first_clear w = length (takeWhile (\<lambda>i. bit w i) [0..<64])"

fun take_slot_from :: "nat \<Rightarrow> slot_words \<Rightarrow> (nat \<times> slot_words) option" where
  "take_slot_from word_index [] = None"
| "take_slot_from word_index (w # ws) =
     (if w \<noteq> - 1
      then (let b = first_clear w in Some (word_index * 64 + b, (w OR push_bit b 1) # ws))
      else map_option (\<lambda>(slot, ws'). (slot, w # ws')) (take_slot_from (Suc word_index) ws))"

definition take_slot :: "slot_words \<Rightarrow> (nat \<times> slot_words) option" where
  "take_slot slots = take_slot_from 0 slots"

text \<open>Releasing a slot that is not in use is a panic.\<close>

definition release_slot :: "slot_words \<Rightarrow> nat \<Rightarrow> slot_words option" where
  "release_slot slots slot =
     (let mask = push_bit (slot mod 64) (1 :: 64 word) in
      if slot div 64 < length slots \<and> slots ! (slot div 64) AND mask \<noteq> 0
      then Some (slots[slot div 64 := slots ! (slot div 64) AND NOT mask])
      else None)"

definition classify_fault :: "nat \<Rightarrow> (nat \<times> KernelStack) option" where
  "classify_fault address =
     (case checked_sub address STACK_ARENA_BASE of
        None \<Rightarrow> None
      | Some offset \<Rightarrow>
          let slot = offset div SLOT_SIZE in
          if slot < MAX_STACKS \<and> offset mod SLOT_SIZE < GUARD_SIZE
          then Some (slot, stack_bounds slot) else None)"

section \<open>EEVDF entities\<close>

record EevdfEntity =
  virtual_runtime :: VirtualTime
  virtual_deadline :: VirtualTime
  weight :: nat
  nice :: int
  exec_runtime :: Nanos
  lag :: VirtualTime
  enqueue_time :: Nanos

definition NICE_0_WEIGHT :: nat where "NICE_0_WEIGHT = 1024"

definition BASE_SLICE_NS :: Nanos where "BASE_SLICE_NS = 3000000"

definition LAG_LIMIT :: VirtualTime where "LAG_LIMIT = 2 * int BASE_SLICE_NS"

definition MIN_NICE :: int where "MIN_NICE = - 20"

definition MAX_NICE :: int where "MAX_NICE = 19"

definition entity_default :: EevdfEntity where
  "entity_default = \<lparr> virtual_runtime = 0, virtual_deadline = 0, weight = NICE_0_WEIGHT,
     nice = 0, exec_runtime = 0, lag = 0, enqueue_time = 0 \<rparr>"

definition NICE_TO_WEIGHT :: "nat list" where
  "NICE_TO_WEIGHT =
     [88761, 71755, 56483, 46273, 36291, 29154, 23254, 18705, 14949, 11916, 9548, 7620, 6100,
      4904, 3906, 3121, 2501, 1991, 1586, 1277, 1024, 820, 655, 526, 423, 335, 272, 215, 172,
      137, 110, 87, 70, 56, 45, 36, 29, 23, 18, 15]"

definition clamp_int :: "int \<Rightarrow> int \<Rightarrow> int \<Rightarrow> int" where
  "clamp_int x lo hi = (if x < lo then lo else if hi < x then hi else x)"

definition nice_to_weight :: "int \<Rightarrow> nat" where
  "nice_to_weight n =
     (let clamped = (if n < MIN_NICE then MIN_NICE else if MAX_NICE < n then MAX_NICE else n) in
      NICE_TO_WEIGHT ! nat (clamped - MIN_NICE))"

definition weighted_slice :: "EevdfEntity \<Rightarrow> VirtualTime" where
  "weighted_slice e = (int BASE_SLICE_NS * int NICE_0_WEIGHT) sdiv int (max (weight e) 1)"

definition virtual_delta :: "EevdfEntity \<Rightarrow> Nanos \<Rightarrow> VirtualTime" where
  "virtual_delta e elapsed = (int elapsed * int NICE_0_WEIGHT) sdiv int (max (weight e) 1)"

definition account :: "EevdfEntity \<Rightarrow> Nanos \<Rightarrow> bool \<times> EevdfEntity" where
  "account e elapsed =
     (let e1 = e\<lparr> exec_runtime := saturating_add (exec_runtime e) elapsed,
                  virtual_runtime := virtual_runtime e + virtual_delta e elapsed \<rparr> in
      if virtual_deadline e1 \<le> virtual_runtime e1
      then (True, e1\<lparr> virtual_deadline := virtual_runtime e1 + weighted_slice e1 \<rparr>)
      else (False, e1))"

definition is_eligible :: "EevdfEntity \<Rightarrow> VirtualTime \<Rightarrow> bool" where
  "is_eligible e avg \<longleftrightarrow> virtual_runtime e \<le> avg"

section \<open>Task control blocks\<close>

datatype SchedulerError =
    UnknownTask | InvalidTransition | AlreadyQueued | NotBlocked | CannotReapCurrent
  | InvalidAddressSpace

record SchedulerStats =
  context_switches :: nat
  timer_preemptions :: nat
  voluntary_yields :: nat
  tasks_woken :: nat
  tasks_reaped :: nat
  idle_ticks :: nat

record TaskControlBlock =
  task_id :: TaskId
  process_id :: "ProcessId option"
  t_state :: TaskState
  block_reason :: "BlockReason option"
  exit_status :: "ExitStatus option"
  wait_link :: "nat option"
  cpu_context :: VoluntaryContext
  interrupt_stack_pointer :: nat
  resume_kind :: ResumeKind
  kernel_stack :: KernelStack
  stack_storage :: "StackStorage option"
  entry :: "TaskEntry option"
  address_space :: "AddressSpaceId option"
  scheduler_entity :: EevdfEntity
  dispatched_at :: Nanos
  slice_start :: Nanos
  is_idle :: bool
  t_name :: string
  fpu :: FpuState
  fs_base :: nat

definition tcb_new :: "TaskId \<Rightarrow> KernelStack \<Rightarrow> string \<Rightarrow> TaskControlBlock" where
  "tcb_new tid stack nm =
     \<lparr> task_id = tid, process_id = None, t_state = New, block_reason = None,
       exit_status = None, wait_link = None, cpu_context = context_ZERO,
       interrupt_stack_pointer = 0, resume_kind = Voluntary, kernel_stack = stack,
       stack_storage = None, entry = None, address_space = None,
       scheduler_entity = entity_default, dispatched_at = 0, slice_start = 0,
       is_idle = False, t_name = nm, fpu = fpu_INITIAL, fs_base = 0 \<rparr>"

definition switch_target :: "TaskControlBlock \<Rightarrow> SwitchTarget" where
  "switch_target t = \<lparr> st_address_space = address_space t,
     kernel_stack_top = stack_top (kernel_stack t), st_fpu = fpu t, st_fs_base = fs_base t \<rparr>"

definition transition ::
    "TaskControlBlock \<Rightarrow> TaskState \<Rightarrow> (TaskControlBlock, SchedulerError) result" where
  "transition t new_state =
     (if can_transition (t_state t) new_state then Ok (t\<lparr> t_state := new_state \<rparr>)
      else Err InvalidTransition)"

record WaitQueue =
  wq_id :: nat
  wq_tasks :: "TaskId list"

definition wq_new :: "nat \<Rightarrow> WaitQueue" where
  "wq_new k = \<lparr> wq_id = k, wq_tasks = [] \<rparr>"

fun position :: "('a \<Rightarrow> bool) \<Rightarrow> 'a list \<Rightarrow> nat option" where
  "position p [] = None"
| "position p (x # xs) = (if p x then Some 0 else map_option Suc (position p xs))"

definition remove_at :: "'a list \<Rightarrow> nat \<Rightarrow> 'a list" where
  "remove_at xs i = take i xs @ drop (Suc i) xs"

definition wq_remove :: "WaitQueue \<Rightarrow> TaskId \<Rightarrow> bool \<times> WaitQueue" where
  "wq_remove q tid =
     (case position (\<lambda>queued. queued = tid) (wq_tasks q) of
        Some i \<Rightarrow> (True, q\<lparr> wq_tasks := remove_at (wq_tasks q) i \<rparr>)
      | None \<Rightarrow> (False, q))"

section \<open>Facts on the records\<close>

lemma nice_to_weight_pos: "0 < nice_to_weight n"
proof -
  have "\<forall>i < 40. 0 < NICE_TO_WEIGHT ! i"
    by (simp add: NICE_TO_WEIGHT_def nth_Cons split: nat.splits)
  moreover have "nat ((if n < MIN_NICE then MIN_NICE else if MAX_NICE < n then MAX_NICE else n)
      - MIN_NICE) < 40"
    by (auto simp: MIN_NICE_def MAX_NICE_def)
  ultimately show ?thesis by (simp add: nice_to_weight_def Let_def)
qed

lemma position_Some_iff:
  "position p xs = Some i \<longleftrightarrow> i < length xs \<and> p (xs ! i) \<and> (\<forall>j < i. \<not> p (xs ! j))"
  by (induction xs arbitrary: i) (auto simp: nth_Cons less_Suc_eq_0_disj split: nat.splits)

lemma position_None_iff: "position p xs = None \<longleftrightarrow> (\<forall>x \<in> set xs. \<not> p x)"
  by (induction xs) auto

lemma set_remove_at_distinct:
  assumes "distinct xs" "i < length xs"
  shows "set (remove_at xs i) = set xs - {xs ! i}"
proof -
  have "xs = take i xs @ xs ! i # drop (Suc i) xs"
    using assms(2) by (rule id_take_nth_drop)
  then have "distinct (take i xs @ xs ! i # drop (Suc i) xs)"
      and "set xs = set (take i xs @ xs ! i # drop (Suc i) xs)"
    using assms(1) by auto
  then show ?thesis unfolding remove_at_def by auto
qed

lemma set_remove_at: "set (remove_at xs i) \<subseteq> set xs"
  by (auto simp: remove_at_def dest: in_set_takeD in_set_dropD)

lemma remove_at_keeps:
  assumes "x \<in> set xs" "i < length xs" "x \<noteq> xs ! i"
  shows "x \<in> set (remove_at xs i)"
proof -
  have "xs = take i xs @ xs ! i # drop (Suc i) xs"
    using assms(2) by (rule id_take_nth_drop)
  then have "x \<in> set (take i xs @ xs ! i # drop (Suc i) xs)" using assms(1) by simp
  then show ?thesis using assms(3) by (simp add: remove_at_def)
qed

lemma transition_Ok_iff [simp]:
  "transition t new_state = Ok t' \<longleftrightarrow>
     can_transition (t_state t) new_state \<and> t' = t\<lparr> t_state := new_state \<rparr>"
  by (auto simp: transition_def)

lemma account_snd:
  "virtual_runtime (snd (account e elapsed)) = virtual_runtime e + virtual_delta e elapsed"
  "weight (snd (account e elapsed)) = weight e" "nice (snd (account e elapsed)) = nice e"
  "lag (snd (account e elapsed)) = lag e"
  by (simp_all add: account_def Let_def)

end
