(* ===== verification/Scheduler.thy ===== *)
theory Scheduler
  imports Task
begin

text \<open>
  The scheduler (\<open>kernel/src/task/scheduler.rs\<close>): its state, and every
  operation as a function from the state to its result and the new state. An
  operation of the source that fails keeps what it changed before the failure,
  so the state is returned with an error as well. The tables of the source are
  kept: a vector of slots with a list of free slots and an index from task ids
  to slots. Reserving capacity for the run queue is not state of the model; that
  the queue never outgrows what is reserved is a theorem.
\<close>

section \<open>State\<close>

datatype PolicyKind = Eevdf | Fifo | RoundRobin

record Scheduler =
  tasks :: "TaskControlBlock option list"
  free_slots :: "nat list"
  slot_of :: "TaskId \<rightharpoonup> nat"
  run_queue :: "TaskId list"
  exit_queue :: "TaskId list"
  next_task_id :: nat
  current :: "TaskId option"
  idle :: "TaskId option"
  sleepers :: "(Tick \<times> TaskId) list"
  sum_weight :: VirtualTime
  sum_weighted_runtime :: VirtualTime
  average :: VirtualTime
  wakeup_preempt :: bool
  clock :: Nanos
  policy :: PolicyKind
  stats :: SchedulerStats

definition scheduler_new :: Scheduler where
  "scheduler_new =
     \<lparr> tasks = [], free_slots = [], slot_of = Map.empty, run_queue = [], exit_queue = [],
       next_task_id = 1, current = None, idle = None, sleepers = [], sum_weight = 0,
       sum_weighted_runtime = 0, average = 0, wakeup_preempt = False, clock = 0,
       policy = Eevdf,
       stats = \<lparr> context_switches = 0, timer_preemptions = 0, voluntary_yields = 0,
         tasks_woken = 0, tasks_reaped = 0, idle_ticks = 0 \<rparr> \<rparr>"

definition with_policy :: "PolicyKind \<Rightarrow> Scheduler" where
  "with_policy p = scheduler_new\<lparr> policy := p \<rparr>"

section \<open>Lookup and update of a task\<close>

text \<open>
  Indexing the vector past its end would panic; no reachable index points there
  (\<open>slots_ok\<close>).
\<close>

definition task :: "Scheduler \<Rightarrow> TaskId \<Rightarrow> TaskControlBlock option" where
  "task s tid = (case slot_of s tid of
     None \<Rightarrow> None
   | Some slot \<Rightarrow> if slot < length (tasks s) then tasks s ! slot else None)"

definition task_mut ::
    "Scheduler \<Rightarrow> TaskId \<Rightarrow> (TaskControlBlock \<Rightarrow> TaskControlBlock) \<Rightarrow> Scheduler" where
  "task_mut s tid f = (case slot_of s tid of
     None \<Rightarrow> s
   | Some slot \<Rightarrow> s\<lparr> tasks := (tasks s)[slot := map_option f (tasks s ! slot)] \<rparr>)"

definition entity_mut ::
    "Scheduler \<Rightarrow> TaskId \<Rightarrow> (EevdfEntity \<Rightarrow> EevdfEntity) \<Rightarrow> Scheduler" where
  "entity_mut s tid f =
     task_mut s tid (\<lambda>t. t\<lparr> scheduler_entity := f (scheduler_entity t) \<rparr>)"

definition runnable_count :: "Scheduler \<Rightarrow> nat" where
  "runnable_count s =
     length (run_queue s) + (if current s \<noteq> None \<and> current s \<noteq> idle s then 1 else 0)"

definition has_exited_tasks :: "Scheduler \<Rightarrow> bool" where
  "has_exited_tasks s \<longleftrightarrow> exit_queue s \<noteq> []"

definition task_on_stack :: "Scheduler \<Rightarrow> nat \<Rightarrow> (TaskId \<times> string) option" where
  "task_on_stack s base =
     map_option (\<lambda>t. (task_id t, t_name t))
       (List.find (\<lambda>t. stack_base (kernel_stack t) = base) (List.map_filter (\<lambda>t. t) (tasks s)))"

section \<open>The weighted average\<close>

definition refresh_average :: "Scheduler \<Rightarrow> Scheduler" where
  "refresh_average s =
     (if 0 < sum_weight s then s\<lparr> average := sum_weighted_runtime s sdiv sum_weight s \<rparr> else s)"

definition add_sums :: "Scheduler \<Rightarrow> int \<Rightarrow> int \<Rightarrow> Scheduler" where
  "add_sums s dw dwr = refresh_average
     (s\<lparr> sum_weight := sum_weight s + dw,
         sum_weighted_runtime := sum_weighted_runtime s + dwr \<rparr>)"

definition is_in_runnable_set :: "Scheduler \<Rightarrow> TaskId \<Rightarrow> bool" where
  "is_in_runnable_set s tid =
     (case task s tid of None \<Rightarrow> False | Some t \<Rightarrow> \<not> is_idle t \<and> is_runnable (t_state t))"

text \<open>\<open>join\<close>: the entity a task joins with, then the queue and the sums.\<close>

definition place_entity :: "VirtualTime \<Rightarrow> VirtualTime \<Rightarrow> Nanos \<Rightarrow> EevdfEntity \<Rightarrow> EevdfEntity" where
  "place_entity avg others now e =
     (let w = int (weight e);
          placed_lag = (if 0 < others then (lag e * (others + w)) sdiv others else lag e);
          v = avg - placed_lag in
      e\<lparr> virtual_runtime := v, lag := 0, virtual_deadline := v + weighted_slice e,
         enqueue_time := now \<rparr>)"

definition join :: "Scheduler \<Rightarrow> TaskId \<Rightarrow> Scheduler" where
  "join s tid =
     (case task s tid of
        None \<Rightarrow> s
      | Some t \<Rightarrow>
          let e = place_entity (average s) (sum_weight s) (clock s) (scheduler_entity t);
              w = int (weight e); v = virtual_runtime e;
              s1 = task_mut s tid (\<lambda>t. t\<lparr> scheduler_entity := e \<rparr>);
              s2 = add_sums s1 w (w * v);
              s3 = s2\<lparr> run_queue := run_queue s2 @ [tid] \<rparr> in
          case current s3 of
            None \<Rightarrow> s3
          | Some cur \<Rightarrow>
              if Some cur \<noteq> idle s3 \<and> v \<le> average s3 \<and>
                 (case task s3 cur of None \<Rightarrow> False
                  | Some ct \<Rightarrow> virtual_deadline e < virtual_deadline (scheduler_entity ct))
              then s3\<lparr> wakeup_preempt := True \<rparr> else s3)"

definition leave :: "Scheduler \<Rightarrow> TaskId \<Rightarrow> Scheduler" where
  "leave s tid =
     (case task s tid of
        None \<Rightarrow> s
      | Some t \<Rightarrow>
          let e = scheduler_entity t;
              w = int (weight e); v = virtual_runtime e;
              s1 = entity_mut s tid
                (\<lambda>e. e\<lparr> lag := clamp_int (average s - v) (- LAG_LIMIT) LAG_LIMIT \<rparr>) in
          add_sums s1 (- w) (- (w * v)))"

definition charge :: "Scheduler \<Rightarrow> TaskId \<Rightarrow> Nanos \<Rightarrow> bool \<times> Scheduler" where
  "charge s tid now =
     (case task s tid of
        None \<Rightarrow> (False, s)
      | Some t \<Rightarrow>
          let elapsed = now - dispatched_at t;
              s1 = task_mut s tid (\<lambda>t. t\<lparr> dispatched_at := now \<rparr>) in
          if is_idle t then (False, s1)
          else
            let before = virtual_runtime (scheduler_entity t);
                (completed, e) = account (scheduler_entity t) elapsed;
                s2 = task_mut s1 tid (\<lambda>t. t\<lparr> scheduler_entity := e \<rparr>);
                weighted_delta = int (weight e) * (virtual_runtime e - before) in
            (completed, add_sums s2 0 weighted_delta))"

section \<open>Choosing the next task\<close>

type_synonym pick_key = "VirtualTime \<times> TaskId"

definition key_less :: "pick_key \<Rightarrow> pick_key \<Rightarrow> bool" where
  "key_less a b \<longleftrightarrow> fst a < fst b \<or> (fst a = fst b \<and> snd a < snd b)"

definition pick_key :: "PolicyKind \<Rightarrow> EevdfEntity \<Rightarrow> TaskId \<Rightarrow> pick_key" where
  "pick_key p e tid =
     (case p of Eevdf \<Rightarrow> (virtual_deadline e, tid)
      | Fifo \<Rightarrow> (int (enqueue_time e), tid)
      | RoundRobin \<Rightarrow> (int (enqueue_time e), tid))"

definition better :: "pick_key \<Rightarrow> (nat \<times> pick_key) option \<Rightarrow> bool" where
  "better k b = (case b of None \<Rightarrow> True | Some (_, bk) \<Rightarrow> key_less k bk)"

fun pick_scan ::
    "Scheduler \<Rightarrow> nat \<Rightarrow> TaskId list \<Rightarrow> (nat \<times> pick_key) option \<Rightarrow> (nat \<times> pick_key) option
       \<Rightarrow> (nat \<times> pick_key) option \<times> (nat \<times> pick_key) option" where
  "pick_scan s i [] best fallback = (best, fallback)"
| "pick_scan s i (tid # tids) best fallback =
     (case task s tid of
        None \<Rightarrow> pick_scan s (Suc i) tids best fallback
      | Some t \<Rightarrow>
          let e = scheduler_entity t;
              k = pick_key (policy s) e tid;
              eligible = (policy s \<noteq> Eevdf \<or> is_eligible e (average s));
              best' = (if eligible \<and> better k best then Some (i, k) else best);
              rk = (virtual_runtime e, tid);
              fallback' = (if better rk fallback then Some (i, rk) else fallback) in
          pick_scan s (Suc i) tids best' fallback')"

definition pick_next :: "Scheduler \<Rightarrow> TaskId option \<times> Scheduler" where
  "pick_next s =
     (if run_queue s = [] then (idle s, s)
      else
        let (best, fallback) = pick_scan s 0 (run_queue s) None None in
        case (case best of Some b \<Rightarrow> Some b | None \<Rightarrow> fallback) of
          None \<Rightarrow> (None, s)
        | Some (i, _) \<Rightarrow>
            (Some (run_queue s ! i), s\<lparr> run_queue := swap_remove (run_queue s) i \<rparr>))"

definition bump_switches :: "Scheduler \<Rightarrow> Scheduler" where
  "bump_switches s = s\<lparr> stats := (stats s)\<lparr> context_switches :=
     saturating_add (context_switches (stats s)) 1 \<rparr> \<rparr>"

definition finish_switch ::
    "Scheduler \<Rightarrow> TaskId option \<Rightarrow> TaskId option \<Rightarrow> Scheduler" where
  "finish_switch s previous chosen =
     (let s1 = s\<lparr> current := chosen \<rparr> in if chosen \<noteq> previous then bump_switches s1 else s1)"

definition switch_to_next ::
    "Scheduler \<Rightarrow> TaskId option \<Rightarrow> Nanos \<Rightarrow> (TaskId option, SchedulerError) result \<times> Scheduler" where
  "switch_to_next s0 previous now =
     (let (chosen, s) = pick_next (s0\<lparr> wakeup_preempt := False \<rparr>) in
      case chosen of
        None \<Rightarrow> (Ok None, finish_switch s previous None)
      | Some tid \<Rightarrow>
          (case task s tid of
             None \<Rightarrow> (Err UnknownTask, s)
           | Some t \<Rightarrow>
               (case transition t Running of
                  Err e \<Rightarrow> (Err e, s)
                | Ok _ \<Rightarrow>
                    (Ok (Some tid), finish_switch
                      (task_mut s tid (\<lambda>t. t\<lparr> t_state := Running, dispatched_at := now,
                         slice_start := now \<rparr>)) previous (Some tid)))))"

section \<open>Public operations\<close>

definition allocate_id :: "Scheduler \<Rightarrow> TaskId \<times> Scheduler" where
  "allocate_id s =
     (next_task_id s, s\<lparr> next_task_id := saturating_add (next_task_id s) 1 \<rparr>)"

definition insert_task :: "Scheduler \<Rightarrow> TaskControlBlock \<Rightarrow> Scheduler" where
  "insert_task s t =
     (let (slot, s1) =
        (if free_slots s \<noteq> []
         then (last (free_slots s), s\<lparr> free_slots := butlast (free_slots s) \<rparr>)
         else (length (tasks s), s\<lparr> tasks := tasks s @ [None] \<rparr>)) in
      s1\<lparr> tasks := (tasks s1)[slot := Some t], slot_of := (slot_of s1)(task_id t \<mapsto> slot) \<rparr>)"

definition spawn :: "Scheduler \<Rightarrow> KernelStack \<Rightarrow> string \<Rightarrow> TaskId \<times> Scheduler" where
  "spawn s stack nm =
     (let (tid, s1) = allocate_id s;
          t = (tcb_new tid stack nm)\<lparr> t_state := Ready \<rparr> in
      (tid, join (insert_task s1 t) tid))"

text \<open>\<open>bootstrap_ip\<close> is the address of the assembly entry of new tasks.\<close>

definition spawn_kernel_task ::
    "nat \<Rightarrow> Scheduler \<Rightarrow> TaskEntry \<Rightarrow> string \<Rightarrow> bool \<Rightarrow> StackStorage \<Rightarrow> TaskId \<times> Scheduler" where
  "spawn_kernel_task bootstrap_ip s ent nm idl storage =
     (let (tid, s1) = allocate_id s;
          stack = stack_storage_bounds storage;
          t = (tcb_new tid stack nm)
            \<lparr> t_state := Ready,
              cpu_context := context_ZERO\<lparr> stack_pointer := stack_top stack - 8,
                instruction_pointer := bootstrap_ip, r12 := ent \<rparr>,
              resume_kind := Voluntary, stack_storage := Some storage, entry := Some ent,
              is_idle := idl \<rparr>;
          s2 = insert_task s1 t in
      if idl then (tid, s2\<lparr> idle := Some tid \<rparr>) else (tid, join s2 tid))"

definition dispatch_decision ::
    "Scheduler \<Rightarrow> TaskId \<Rightarrow> (DispatchDecision, SchedulerError) result" where
  "dispatch_decision s tid =
     (case task s tid of
        None \<Rightarrow> Err UnknownTask
      | Some t \<Rightarrow> Ok \<lparr> dd_task_id = tid,
          resume_context = (case resume_kind t of Voluntary \<Rightarrow> ResumeVoluntary (cpu_context t)
            | Interrupt \<Rightarrow> ResumeInterrupt (interrupt_stack_pointer t)),
          dd_address_space = address_space t \<rparr>)"

definition set_address_space ::
    "Scheduler \<Rightarrow> TaskId \<Rightarrow> AddressSpaceId option \<Rightarrow> (unit, SchedulerError) result \<times> Scheduler" where
  "set_address_space s tid space =
     (case task s tid of
        None \<Rightarrow> (Err UnknownTask, s)
      | Some t \<Rightarrow>
          if is_terminal (t_state t) then (Err InvalidAddressSpace, s)
          else (Ok (), task_mut s tid (\<lambda>t. t\<lparr> address_space := space \<rparr>)))"

definition renice :: "int \<Rightarrow> EevdfEntity \<Rightarrow> EevdfEntity" where
  "renice n e =
     (let n' = clamp_int n MIN_NICE MAX_NICE;
          e1 = e\<lparr> nice := n', weight := nice_to_weight n' \<rparr> in
      e1\<lparr> virtual_deadline := virtual_runtime e1 + weighted_slice e1 \<rparr>)"

definition set_nice ::
    "Scheduler \<Rightarrow> TaskId \<Rightarrow> int \<Rightarrow> (unit, SchedulerError) result \<times> Scheduler" where
  "set_nice s tid n =
     (let runnable = is_in_runnable_set s tid in
      case task s tid of
        None \<Rightarrow> (Err UnknownTask, s)
      | Some t \<Rightarrow>
          if is_terminal (t_state t) then (Err InvalidTransition, s)
          else
            let e = renice n (scheduler_entity t);
                old_weight = int (weight (scheduler_entity t));
                s1 = task_mut s tid (\<lambda>t. t\<lparr> scheduler_entity := e \<rparr>);
                dw = int (weight e) - old_weight in
            (Ok (), if runnable then add_sums s1 dw (dw * virtual_runtime e) else s1))"

definition tick :: "Scheduler \<Rightarrow> Nanos \<Rightarrow> bool \<times> Scheduler" where
  "tick s0 now =
     (let s = s0\<lparr> clock := now \<rparr>;
          queued = (run_queue s \<noteq> []) in
      case current s of
        Some cur \<Rightarrow>
          if Some cur = idle s
          then (queued, s\<lparr> stats := (stats s)\<lparr> idle_ticks :=
                  saturating_add (idle_ticks (stats s)) 1 \<rparr> \<rparr>)
          else
            let (request_completed, s1) = charge s cur now;
                wakeup = wakeup_preempt s1;
                s2 = s1\<lparr> wakeup_preempt := False \<rparr> in
            (queued \<and>
               (case policy s2 of
                  Fifo \<Rightarrow> False
                | RoundRobin \<Rightarrow> (case task s2 cur of None \<Rightarrow> False
                    | Some t \<Rightarrow> BASE_SLICE_NS \<le> now - slice_start t)
                | Eevdf \<Rightarrow> request_completed \<or> wakeup), s2)
      | None \<Rightarrow> (queued, s\<lparr> stats := (stats s)\<lparr> idle_ticks :=
                  saturating_add (idle_ticks (stats s)) 1 \<rparr> \<rparr>))"

text \<open>The first half of \<open>schedule\<close>: the running task goes back to the queue.\<close>

definition requeue_current :: "Scheduler \<Rightarrow> Nanos \<Rightarrow> (unit, SchedulerError) result \<times> Scheduler" where
  "requeue_current s now =
     (case current s of
        None \<Rightarrow> (Ok (), s)
      | Some cur \<Rightarrow>
          (case task s cur of
             None \<Rightarrow> (Err UnknownTask, s)
           | Some t \<Rightarrow>
               if t_state t = Running then
                 let s1 = snd (charge s cur now) in
                 (case task s1 cur of
                    None \<Rightarrow> (Err UnknownTask, s1)
                  | Some t1 \<Rightarrow>
                      (case transition t1 Ready of
                         Err e \<Rightarrow> (Err e, s1)
                       | Ok t2 \<Rightarrow>
                           let s2 = task_mut s1 cur (\<lambda>t. t\<lparr> t_state := Ready \<rparr>) in
                           if is_idle t2 then (Ok (), s2)
                           else
                             let s3 = entity_mut s2 cur (\<lambda>e. e\<lparr> enqueue_time := clock s1 \<rparr>) in
                             (Ok (), s3\<lparr> run_queue := run_queue s3 @ [cur] \<rparr>)))
               else (Ok (), s)))"

definition schedule ::
    "Scheduler \<Rightarrow> Nanos \<Rightarrow> (TaskId option, SchedulerError) result \<times> Scheduler" where
  "schedule s0 now =
     (let s = s0\<lparr> clock := now \<rparr>; previous = current s in
      case requeue_current s now of
        (Err e, s1) \<Rightarrow> (Err e, s1)
      | (Ok _, s1) \<Rightarrow> switch_to_next (s1\<lparr> current := None \<rparr>) previous now)"

text \<open>A preemption with neither a current nor an idle task panics.\<close>

definition preempt :: "Scheduler \<Rightarrow> nat \<Rightarrow> Nanos \<Rightarrow> (TaskId \<times> Scheduler) option" where
  "preempt s sp now =
     (let previous = current s;
          s1 = (case previous of None \<Rightarrow> s
            | Some cur \<Rightarrow> task_mut s cur
                (\<lambda>t. t\<lparr> interrupt_stack_pointer := sp, resume_kind := Interrupt \<rparr>));
          s2 = snd (schedule s1 now) in
      case (case current s2 of Some c \<Rightarrow> Some c | None \<Rightarrow> idle s2) of
        None \<Rightarrow> None
      | Some chosen \<Rightarrow>
          Some (chosen,
            if Some chosen \<noteq> previous
            then s2\<lparr> stats := (stats s2)\<lparr> timer_preemptions :=
                   saturating_add (timer_preemptions (stats s2)) 1 \<rparr> \<rparr>
            else s2))"

definition yield_current ::
    "Scheduler \<Rightarrow> Nanos \<Rightarrow> (TaskId option, SchedulerError) result \<times> Scheduler" where
  "yield_current s now = schedule s now"

definition prepare_voluntary_yield ::
    "Scheduler \<Rightarrow> Nanos \<Rightarrow> (TaskId \<times> TaskId, SchedulerError) result \<times> Scheduler" where
  "prepare_voluntary_yield s now =
     (case current s of
        None \<Rightarrow> (Err UnknownTask, s)
      | Some cur \<Rightarrow>
          (case task s cur of
             None \<Rightarrow> (Err UnknownTask, s)
           | Some t \<Rightarrow>
               if t_state t \<noteq> Running then (Err InvalidTransition, s)
               else
                 (case schedule (task_mut s cur (\<lambda>t. t\<lparr> resume_kind := Voluntary \<rparr>)) now of
                    (Err e, s1) \<Rightarrow> (Err e, s1)
                  | (Ok None, s1) \<Rightarrow> (Err UnknownTask, s1)
                  | (Ok (Some chosen), s1) \<Rightarrow>
                      (Ok (cur, chosen), s1\<lparr> stats := (stats s1)\<lparr> voluntary_yields :=
                         saturating_add (voluntary_yields (stats s1)) 1 \<rparr> \<rparr>))))"

definition stop_current ::
    "Scheduler \<Rightarrow> TaskState \<Rightarrow> Nanos \<Rightarrow> (TaskId, SchedulerError) result \<times> Scheduler" where
  "stop_current s0 st now =
     (let s = s0\<lparr> clock := now \<rparr> in
      case current s of
        None \<Rightarrow> (Err UnknownTask, s)
      | Some cur \<Rightarrow>
          (case task s cur of
             None \<Rightarrow> (Err UnknownTask, s)
           | Some t \<Rightarrow>
               if t_state t \<noteq> Running then (Err InvalidTransition, s)
               else
                 let s1 = leave (snd (charge s cur now)) cur;
                     s2 = task_mut s1 cur (\<lambda>t. t\<lparr> resume_kind := Voluntary \<rparr>) in
                 (case task s2 cur of
                    None \<Rightarrow> (Err UnknownTask, s2)
                  | Some t2 \<Rightarrow>
                      (case transition t2 st of
                         Err e \<Rightarrow> (Err e, s2)
                       | Ok _ \<Rightarrow>
                           (Ok cur, (task_mut s2 cur (\<lambda>t. t\<lparr> t_state := st \<rparr>))
                              \<lparr> current := None \<rparr>)))))"

definition make_ready :: "Scheduler \<Rightarrow> TaskId \<Rightarrow> Scheduler" where
  "make_ready s tid =
     (let s1 = task_mut s tid (\<lambda>t.
            (case transition t Ready of Ok t' \<Rightarrow> t' | Err _ \<Rightarrow> t)
              \<lparr> block_reason := None, wait_link := None \<rparr>);
          s2 = join s1 tid in
      s2\<lparr> stats := (stats s2)\<lparr> tasks_woken := saturating_add (tasks_woken (stats s2)) 1 \<rparr> \<rparr>)"

text \<open>What the building blocks leave alone.\<close>

lemma task_mut_fields [simp]:
  "free_slots (task_mut s tid f) = free_slots s"
  "slot_of (task_mut s tid f) = slot_of s"
  "run_queue (task_mut s tid f) = run_queue s"
  "exit_queue (task_mut s tid f) = exit_queue s"
  "next_task_id (task_mut s tid f) = next_task_id s"
  "current (task_mut s tid f) = current s"
  "idle (task_mut s tid f) = idle s"
  "sleepers (task_mut s tid f) = sleepers s"
  "sum_weight (task_mut s tid f) = sum_weight s"
  "sum_weighted_runtime (task_mut s tid f) = sum_weighted_runtime s"
  "average (task_mut s tid f) = average s"
  "wakeup_preempt (task_mut s tid f) = wakeup_preempt s"
  "clock (task_mut s tid f) = clock s"
  "policy (task_mut s tid f) = policy s"
  "stats (task_mut s tid f) = stats s"
  by (simp_all add: task_mut_def split: option.splits)

lemma add_sums_fields [simp]:
  "tasks (add_sums s dw dwr) = tasks s"
  "free_slots (add_sums s dw dwr) = free_slots s"
  "slot_of (add_sums s dw dwr) = slot_of s"
  "run_queue (add_sums s dw dwr) = run_queue s"
  "exit_queue (add_sums s dw dwr) = exit_queue s"
  "next_task_id (add_sums s dw dwr) = next_task_id s"
  "current (add_sums s dw dwr) = current s"
  "idle (add_sums s dw dwr) = idle s"
  "sleepers (add_sums s dw dwr) = sleepers s"
  "wakeup_preempt (add_sums s dw dwr) = wakeup_preempt s"
  "clock (add_sums s dw dwr) = clock s"
  "policy (add_sums s dw dwr) = policy s"
  "stats (add_sums s dw dwr) = stats s"
  by (simp_all add: add_sums_def refresh_average_def)

lemma join_fields [simp]:
  "free_slots (join s tid) = free_slots s"
  "slot_of (join s tid) = slot_of s"
  "exit_queue (join s tid) = exit_queue s"
  "next_task_id (join s tid) = next_task_id s"
  "current (join s tid) = current s"
  "idle (join s tid) = idle s"
  "sleepers (join s tid) = sleepers s"
  "clock (join s tid) = clock s"
  "policy (join s tid) = policy s"
  "stats (join s tid) = stats s"
  by (simp_all add: join_def Let_def split: option.splits)

lemma make_ready_fields [simp]:
  "free_slots (make_ready s tid) = free_slots s"
  "slot_of (make_ready s tid) = slot_of s"
  "exit_queue (make_ready s tid) = exit_queue s"
  "next_task_id (make_ready s tid) = next_task_id s"
  "current (make_ready s tid) = current s"
  "idle (make_ready s tid) = idle s"
  "sleepers (make_ready s tid) = sleepers s"
  "clock (make_ready s tid) = clock s"
  "policy (make_ready s tid) = policy s"
  by (simp_all add: make_ready_def Let_def)

text \<open>Sleepers are sorted by descending \<open>(deadline, id)\<close>.\<close>

definition sleep_greater :: "Tick \<times> TaskId \<Rightarrow> Tick \<times> TaskId \<Rightarrow> bool" where
  "sleep_greater a b \<longleftrightarrow> fst b < fst a \<or> (fst a = fst b \<and> snd b < snd a)"

definition insert_sleeper ::
    "(Tick \<times> TaskId) list \<Rightarrow> Tick \<times> TaskId \<Rightarrow> (Tick \<times> TaskId) list" where
  "insert_sleeper xs k =
     (let p = length (takeWhile (\<lambda>x. sleep_greater x k) xs) in take p xs @ k # drop p xs)"

definition sleep_current_until ::
    "Scheduler \<Rightarrow> Tick \<Rightarrow> Nanos \<Rightarrow> (TaskId option, SchedulerError) result \<times> Scheduler" where
  "sleep_current_until s deadline now =
     (case stop_current s Blocked now of
        (Err e, s1) \<Rightarrow> (Err e, s1)
      | (Ok cur, s1) \<Rightarrow>
          (case task s1 cur of
             None \<Rightarrow> (Err UnknownTask, s1)
           | Some _ \<Rightarrow>
               let s2 = task_mut s1 cur (\<lambda>t. t\<lparr> block_reason := Some (SleepUntil deadline) \<rparr>);
                   s3 = s2\<lparr> sleepers := insert_sleeper (sleepers s2) (deadline, cur) \<rparr> in
               switch_to_next s3 (Some cur) now))"

function wake_expired_loop :: "Scheduler \<Rightarrow> Tick \<Rightarrow> nat \<Rightarrow> nat \<times> Scheduler" where
  "wake_expired_loop s now woken =
     (if sleepers s = [] then (woken, s)
      else
        let (deadline, tid) = last (sleepers s) in
        if now < deadline then (woken, s)
        else
          let s1 = s\<lparr> sleepers := butlast (sleepers s) \<rparr>;
              still_sleeping = (case task s1 tid of None \<Rightarrow> False
                | Some t \<Rightarrow> t_state t = Blocked \<and> block_reason t = Some (SleepUntil deadline)) in
          if still_sleeping then wake_expired_loop (make_ready s1 tid) now (woken + 1)
          else wake_expired_loop s1 now woken)"
  by pat_completeness auto
termination
  by (relation "measure (\<lambda>(s, now, woken). length (sleepers s))") auto

declare wake_expired_loop.simps [simp del]

definition wake_expired :: "Scheduler \<Rightarrow> Tick \<Rightarrow> nat \<times> Scheduler" where
  "wake_expired s now = wake_expired_loop s now 0"

definition wq_pop :: "WaitQueue \<Rightarrow> WaitQueue" where
  "wq_pop q = q\<lparr> wq_tasks := tl (wq_tasks q) \<rparr>"

definition block_current ::
    "Scheduler \<Rightarrow> BlockReason \<Rightarrow> WaitQueue \<Rightarrow> Nanos
       \<Rightarrow> (TaskId option, SchedulerError) result \<times> WaitQueue \<times> Scheduler" where
  "block_current s reason q now =
     (case stop_current s Blocked now of
        (Err e, s1) \<Rightarrow> (Err e, q, s1)
      | (Ok cur, s1) \<Rightarrow>
          (case task s1 cur of
             None \<Rightarrow> (Err UnknownTask, q, s1)
           | Some _ \<Rightarrow>
               let s2 = task_mut s1 cur
                     (\<lambda>t. t\<lparr> block_reason := Some reason, wait_link := Some (wq_id q) \<rparr>);
                   q' = q\<lparr> wq_tasks := wq_tasks q @ [cur] \<rparr>;
                   (r, s3) = switch_to_next s2 (Some cur) now in
               (r, q', s3)))"

definition wake_one ::
    "Scheduler \<Rightarrow> WaitQueue \<Rightarrow> (TaskId option, SchedulerError) result \<times> WaitQueue \<times> Scheduler" where
  "wake_one s q =
     (case wq_tasks q of
        [] \<Rightarrow> (Ok None, q, s)
      | tid # _ \<Rightarrow>
          (case task s tid of
             None \<Rightarrow> (Err UnknownTask, wq_pop q, s)
           | Some t \<Rightarrow>
               if t_state t \<noteq> Blocked then (Err NotBlocked, wq_pop q, s)
               else (Ok (Some tid), wq_pop q, make_ready s tid)))"

lemma wake_one_shrinks:
  "wake_one s q = (Ok (Some tid), q', s') \<Longrightarrow> length (wq_tasks q') < length (wq_tasks q)"
  by (auto simp: wake_one_def wq_pop_def split: list.splits option.splits if_splits)

function wake_all_loop ::
    "Scheduler \<Rightarrow> WaitQueue \<Rightarrow> nat \<Rightarrow> (nat, SchedulerError) result \<times> WaitQueue \<times> Scheduler" where
  "wake_all_loop s q count =
     (case wake_one s q of
        (Err e, q', s') \<Rightarrow> (Err e, q', s')
      | (Ok None, q', s') \<Rightarrow> (Ok count, q', s')
      | (Ok (Some _), q', s') \<Rightarrow> wake_all_loop s' q' (count + 1))"
  by pat_completeness auto
termination
  by (relation "measure (\<lambda>(s, q, count). length (wq_tasks q))")
     (auto dest: wake_one_shrinks [OF sym])

definition wake_all ::
    "Scheduler \<Rightarrow> WaitQueue \<Rightarrow> (nat, SchedulerError) result \<times> WaitQueue \<times> Scheduler" where
  "wake_all s q = wake_all_loop s q 0"

definition wake_task :: "Scheduler \<Rightarrow> TaskId \<Rightarrow> (unit, SchedulerError) result \<times> Scheduler" where
  "wake_task s tid =
     (case task s tid of
        None \<Rightarrow> (Err UnknownTask, s)
      | Some t \<Rightarrow>
          if t_state t \<noteq> Blocked then (Err NotBlocked, s) else (Ok (), make_ready s tid))"

definition cancel_wait ::
    "Scheduler \<Rightarrow> TaskId \<Rightarrow> WaitQueue \<Rightarrow> (unit, SchedulerError) result \<times> WaitQueue \<times> Scheduler" where
  "cancel_wait s tid q =
     (case task s tid of
        None \<Rightarrow> (Err UnknownTask, q, s)
      | Some t \<Rightarrow>
          if t_state t \<noteq> Blocked \<or> wait_link t \<noteq> Some (wq_id q) then (Err NotBlocked, q, s)
          else
            let (removed, q') = wq_remove q tid in
            if \<not> removed then (Err NotBlocked, q', s) else (Ok (), q', make_ready s tid))"

definition exit_current ::
    "Scheduler \<Rightarrow> ExitStatus \<Rightarrow> Nanos \<Rightarrow> (TaskId option, SchedulerError) result \<times> Scheduler" where
  "exit_current s status now =
     (case stop_current s Exited now of
        (Err e, s1) \<Rightarrow> (Err e, s1)
      | (Ok cur, s1) \<Rightarrow>
          (case task s1 cur of
             None \<Rightarrow> (Err UnknownTask, s1)
           | Some _ \<Rightarrow>
               let s2 = task_mut s1 cur
                     (\<lambda>t. t\<lparr> exit_status := Some status, block_reason := None \<rparr>);
                   s3 = s2\<lparr> exit_queue := exit_queue s2 @ [cur] \<rparr> in
               switch_to_next s3 (Some cur) now))"

definition reap_one ::
    "Scheduler \<Rightarrow> (TaskControlBlock option, SchedulerError) result \<times> Scheduler" where
  "reap_one s =
     (case exit_queue s of
        [] \<Rightarrow> (Ok None, s)
      | tid # rest \<Rightarrow>
          if current s = Some tid then (Err CannotReapCurrent, s)
          else
            let s1 = s\<lparr> exit_queue := rest \<rparr> in
            (case slot_of s1 tid of
               None \<Rightarrow> (Err UnknownTask, s1)
             | Some slot \<Rightarrow>
                 let s2 = s1\<lparr> slot_of := (slot_of s1)(tid := None) \<rparr> in
                 (case tasks s2 ! slot of
                    None \<Rightarrow> (Err UnknownTask, s2)
                  | Some t \<Rightarrow>
                      (Ok (Some t), s2\<lparr> tasks := (tasks s2)[slot := None],
                         free_slots := free_slots s2 @ [slot],
                         stats := (stats s2)\<lparr> tasks_reaped :=
                           saturating_add (tasks_reaped (stats s2)) 1 \<rparr> \<rparr>))))"

end
