(* ===== verification/SchedulerInv.thy ===== *)
theory SchedulerInv
  imports Scheduler
begin

text \<open>
  The invariant of the scheduler and its preservation by the building blocks
  of \<open>Scheduler\<close>: the slot table, the queues against the states of the tasks,
  the sums against the runnable set, and the links of blocked and exited tasks.
\<close>

section \<open>Views of the task table\<close>

text \<open>The state and idle flag of a task; its links; its weight and virtual runtime.\<close>

definition kd :: "Scheduler \<Rightarrow> TaskId \<rightharpoonup> TaskState \<times> bool" where
  "kd s tid = map_option (\<lambda>t. (t_state t, is_idle t)) (task s tid)"

definition lk :: "Scheduler \<Rightarrow> TaskId \<rightharpoonup>
    TaskState \<times> BlockReason option \<times> nat option \<times> ExitStatus option" where
  "lk s tid = map_option (\<lambda>t. (t_state t, block_reason t, wait_link t, exit_status t)) (task s tid)"

definition wt :: "Scheduler \<Rightarrow> TaskId \<Rightarrow> int" where
  "wt s tid = (case task s tid of None \<Rightarrow> 0 | Some t \<Rightarrow> int (weight (scheduler_entity t)))"

definition vt :: "Scheduler \<Rightarrow> TaskId \<Rightarrow> int" where
  "vt s tid = (case task s tid of None \<Rightarrow> 0 | Some t \<Rightarrow> virtual_runtime (scheduler_entity t))"

definition rset :: "Scheduler \<Rightarrow> TaskId set" where
  "rset s = {tid. is_in_runnable_set s tid}"

lemma is_runnable_iff: "is_runnable st \<longleftrightarrow> st = Ready \<or> st = Running"
  by (cases st) auto

lemma rset_kd: "rset s = {tid. kd s tid = Some (Ready, False) \<or> kd s tid = Some (Running, False)}"
  by (auto simp: rset_def is_in_runnable_set_def kd_def is_runnable_iff split: option.splits)

section \<open>The invariant\<close>

definition slots_ok :: "Scheduler \<Rightarrow> bool" where
  "slots_ok s \<longleftrightarrow>
     (\<forall>tid slot. slot_of s tid = Some slot \<longrightarrow>
        slot < length (tasks s) \<and> (\<exists>t. tasks s ! slot = Some t \<and> task_id t = tid)) \<and>
     (\<forall>slot t. slot < length (tasks s) \<longrightarrow> tasks s ! slot = Some t \<longrightarrow>
        slot_of s (task_id t) = Some slot) \<and>
     distinct (free_slots s) \<and>
     (\<forall>slot. slot \<in> set (free_slots s) \<longleftrightarrow> slot < length (tasks s) \<and> tasks s ! slot = None) \<and>
     (\<forall>tid. slot_of s tid \<noteq> None \<longrightarrow> tid < next_task_id s)"

definition struct_ok ::
    "(TaskId \<rightharpoonup> TaskState \<times> bool) \<Rightarrow> TaskId list \<Rightarrow> TaskId option \<Rightarrow> TaskId option \<Rightarrow> bool" where
  "struct_ok k rq cur idl \<longleftrightarrow>
     distinct rq \<and>
     (\<forall>tid. tid \<in> set rq \<longleftrightarrow> k tid = Some (Ready, False)) \<and>
     (\<forall>tid. cur = Some tid \<longleftrightarrow> (\<exists>b. k tid = Some (Running, b))) \<and>
     (\<forall>tid. idl = Some tid \<longleftrightarrow> (\<exists>st. k tid = Some (st, True))) \<and>
     (\<forall>tid st b. k tid = Some (st, b) \<longrightarrow> st \<noteq> New \<and> (b \<longrightarrow> st = Ready \<or> st = Running))"

text \<open>The sums are those of a set of tasks; between operations, of the runnable set.\<close>

definition sums_for :: "Scheduler \<Rightarrow> TaskId set \<Rightarrow> bool" where
  "sums_for s A \<longleftrightarrow>
     (\<forall>tid t. task s tid = Some t \<longrightarrow> 0 < weight (scheduler_entity t)) \<and>
     sum_weight s = (\<Sum>i \<in> A. wt s i) \<and>
     sum_weighted_runtime s = (\<Sum>i \<in> A. wt s i * vt s i) \<and>
     (0 < sum_weight s \<longrightarrow> average s = sum_weighted_runtime s sdiv sum_weight s)"

definition sums_ok :: "Scheduler \<Rightarrow> bool" where
  "sums_ok s \<longleftrightarrow> sums_for s (rset s)"

text \<open>The links of one task: a reason exactly when blocked, a queue or an entry to wake it.\<close>

type_synonym link = "TaskState \<times> BlockReason option \<times> nat option \<times> ExitStatus option"

definition link_ok :: "(Tick \<times> TaskId) list \<Rightarrow> TaskId \<Rightarrow> link \<Rightarrow> bool" where
  "link_ok sl tid = (\<lambda>(st, br, wl, es).
     (st = Blocked \<longleftrightarrow> br \<noteq> None) \<and> (wl \<noteq> None \<longrightarrow> st = Blocked) \<and>
     (es \<noteq> None \<longleftrightarrow> st = Exited) \<and>
     (\<forall>d. br = Some (SleepUntil d) \<longrightarrow> (d, tid) \<in> set sl) \<and>
     (st = Blocked \<and> (\<forall>d. br \<noteq> Some (SleepUntil d)) \<longrightarrow> wl \<noteq> None))"

definition links_ok :: "(TaskId \<rightharpoonup> link) \<Rightarrow> TaskId list \<Rightarrow> (Tick \<times> TaskId) list \<Rightarrow> bool" where
  "links_ok l eq sl \<longleftrightarrow>
     distinct eq \<and>
     (\<forall>tid. tid \<in> set eq \<longleftrightarrow> (\<exists>r. l tid = Some (Exited, r))) \<and>
     (\<forall>tid e. l tid = Some e \<longrightarrow> link_ok sl tid e) \<and>
     sorted_wrt (\<lambda>a b. \<not> sleep_greater b a) sl"

definition sched_inv :: "Scheduler \<Rightarrow> bool" where
  "sched_inv s \<longleftrightarrow> slots_ok s \<and> struct_ok (kd s) (run_queue s) (current s) (idle s) \<and>
     sums_ok s \<and> links_ok (lk s) (exit_queue s) (sleepers s)"

section \<open>Looking up after an update\<close>

lemma task_congI: "tasks s' = tasks s \<Longrightarrow> slot_of s' = slot_of s \<Longrightarrow> task s' = task s"
  by (rule ext) (simp add: task_def split: option.splits)

lemma task_fields [simp]:
  "task (s\<lparr> free_slots := a \<rparr>) = task s" "task (s\<lparr> run_queue := b \<rparr>) = task s"
  "task (s\<lparr> exit_queue := b \<rparr>) = task s" "task (s\<lparr> next_task_id := c \<rparr>) = task s"
  "task (s\<lparr> current := d \<rparr>) = task s" "task (s\<lparr> idle := d \<rparr>) = task s"
  "task (s\<lparr> sleepers := e \<rparr>) = task s" "task (s\<lparr> wakeup_preempt := f \<rparr>) = task s"
  "task (s\<lparr> clock := c \<rparr>) = task s" "task (s\<lparr> stats := g \<rparr>) = task s"
  "task (add_sums s dw dwr) = task s"
  by (rule task_congI; simp)+

lemma view_congI: "task s' = task s \<Longrightarrow> kd s' = kd s \<and> lk s' = lk s \<and> wt s' = wt s \<and> vt s' = vt s"
  by (auto simp: kd_def lk_def wt_def vt_def fun_eq_iff)

lemma positive_iff:
  "(\<forall>tid t. task s tid = Some t \<longrightarrow> 0 < weight (scheduler_entity t)) \<longleftrightarrow>
   (\<forall>tid \<in> dom (task s). 0 < wt s tid)"
  by (auto simp: wt_def dom_def split: option.splits)

lemma slots_congI:
  "tasks s' = tasks s \<Longrightarrow> slot_of s' = slot_of s \<Longrightarrow> free_slots s' = free_slots s \<Longrightarrow>
   next_task_id s' = next_task_id s \<Longrightarrow> slots_ok s' = slots_ok s"
  by (simp add: slots_ok_def)

lemma rset_congI: "kd s' = kd s \<Longrightarrow> rset s' = rset s"
  by (simp add: rset_kd)

lemma sums_congI:
  "wt s' = wt s \<Longrightarrow> vt s' = vt s \<Longrightarrow> dom (task s') = dom (task s) \<Longrightarrow>
   sum_weight s' = sum_weight s \<Longrightarrow>
   sum_weighted_runtime s' = sum_weighted_runtime s \<Longrightarrow> average s' = average s \<Longrightarrow>
   sums_for s' A = sums_for s A"
  unfolding sums_for_def positive_iff by simp

lemma slot_of_Some:
  assumes "slots_ok s" "slot_of s tid = Some slot"
  obtains t where "slot < length (tasks s)" "tasks s ! slot = Some t" "task_id t = tid"
      "task s tid = Some t"
  using assms by (auto simp: slots_ok_def task_def)

lemma task_SomeD:
  assumes "slots_ok s" "task s tid = Some t"
  shows "\<exists>slot. slot_of s tid = Some slot \<and> slot < length (tasks s) \<and> tasks s ! slot = Some t"
    and "task_id t = tid"
proof -
  obtain slot where sl: "slot_of s tid = Some slot"
    using assms(2) by (auto simp: task_def split: option.splits)
  then show "\<exists>slot. slot_of s tid = Some slot \<and> slot < length (tasks s) \<and> tasks s ! slot = Some t"
      and "task_id t = tid"
    using assms by (auto elim!: slot_of_Some)
qed

lemma dom_task: "slots_ok s \<Longrightarrow> dom (task s) = dom (slot_of s)"
proof (rule set_eqI)
  fix tid
  assume ok: "slots_ok s"
  show "tid \<in> dom (task s) \<longleftrightarrow> tid \<in> dom (slot_of s)"
  proof (cases "slot_of s tid")
    case None
    then show ?thesis by (simp add: task_def dom_def)
  next
    case (Some slot)
    then show ?thesis using slot_of_Some [OF ok Some] by blast
  qed
qed

lemma finite_dom_task: "slots_ok s \<Longrightarrow> finite (dom (task s))"
  by (rule finite_subset [of _ "{..<next_task_id s}"])
     (auto simp: dom_task, auto simp: slots_ok_def)

lemma rset_dom: "rset s \<subseteq> dom (task s)"
  by (auto simp: rset_def is_in_runnable_set_def split: option.splits)

lemma finite_rset: "slots_ok s \<Longrightarrow> finite (rset s)"
  by (rule finite_subset [OF rset_dom finite_dom_task])

lemma slot_of_inj:
  assumes "slots_ok s" "slot_of s i = Some slot" "slot_of s j = Some slot"
  shows "i = j"
  using assms by (metis slot_of_Some option.inject)

lemma task_task_mut:
  assumes ok: "slots_ok s"
  shows "task (task_mut s tid f) = (task s)(tid := map_option f (task s tid))"
proof (rule ext)
  fix j
  show "task (task_mut s tid f) j = ((task s)(tid := map_option f (task s tid))) j"
  proof (cases "slot_of s tid")
    case None
    then show ?thesis by (simp add: task_mut_def task_def)
  next
    case (Some slot)
    then have "slot < length (tasks s)" using ok by (auto elim: slot_of_Some)
    moreover have "j \<noteq> tid \<Longrightarrow> slot_of s j \<noteq> Some slot"
      using slot_of_inj [OF ok Some] by blast
    ultimately show ?thesis using Some
      by (auto simp: task_mut_def task_def nth_list_update split: option.splits)
  qed
qed

lemma slots_task_mut:
  assumes ok: "slots_ok s" and f: "\<And>t. task_id (f t) = task_id t"
  shows "slots_ok (task_mut s tid f)"
proof (cases "slot_of s tid")
  case None
  then show ?thesis using ok by (simp add: task_mut_def)
next
  case (Some slot)
  then obtain t where t: "slot < length (tasks s)" "tasks s ! slot = Some t" "task_id t = tid"
    using ok by (auto elim: slot_of_Some)
  define ts where "ts = (tasks s)[slot := Some (f t)]"
  have ts: "length ts = length (tasks s)"
    "\<And>i. i < length (tasks s) \<Longrightarrow> ts ! i = (if i = slot then Some (f t) else tasks s ! i)"
    by (simp_all add: ts_def nth_list_update)
  have eq: "task_mut s tid f = s\<lparr> tasks := ts \<rparr>" using Some t by (simp add: task_mut_def ts_def)
  have "\<exists>u. ts ! sl = Some u \<and> task_id u = tid'" if a: "slot_of s tid' = Some sl" for tid' sl
  proof (cases "sl = slot")
    case True
    then show ?thesis using slot_of_inj [OF ok a] Some t f ts(2) [OF t(1)] by simp
  next
    case False
    then show ?thesis using slot_of_Some [OF ok a] ts(2) by metis
  qed
  moreover have "slot_of s (task_id u) = Some sl" if "sl < length ts" "ts ! sl = Some u" for sl u
  proof (cases "sl = slot")
    case True
    then have "u = f t" using that ts(2) [OF t(1)] by simp
    then show ?thesis using True Some t(3) f by simp
  next
    case False
    then show ?thesis using that ts ok by (simp add: slots_ok_def)
  qed
  moreover have "ts ! sl = None \<longleftrightarrow> tasks s ! sl = None" if "sl < length ts" for sl
    using that ts t by simp
  ultimately show ?thesis unfolding eq using ok ts(1) by (simp add: slots_ok_def) blast
qed

lemmas task_mut_ok = task_task_mut slots_task_mut

text \<open>Updates of one task, seen by the views.\<close>

lemma kd_upd:
  "task s' = (task s)(tid \<mapsto> t') \<Longrightarrow> kd s' = (kd s)(tid \<mapsto> (t_state t', is_idle t'))"
  by (auto simp: kd_def fun_eq_iff)

lemma lk_upd:
  "task s' = (task s)(tid \<mapsto> t') \<Longrightarrow>
   lk s' = (lk s)(tid \<mapsto> (t_state t', block_reason t', wait_link t', exit_status t'))"
  by (auto simp: lk_def fun_eq_iff)

lemma kd_same:
  "task s' = (task s)(tid \<mapsto> t') \<Longrightarrow> task s tid = Some t \<Longrightarrow>
   t_state t' = t_state t \<Longrightarrow> is_idle t' = is_idle t \<Longrightarrow> kd s' = kd s"
  by (auto simp: kd_def fun_eq_iff)

lemma lk_same:
  "task s' = (task s)(tid \<mapsto> t') \<Longrightarrow> task s tid = Some t \<Longrightarrow>
   t_state t' = t_state t \<Longrightarrow> block_reason t' = block_reason t \<Longrightarrow> wait_link t' = wait_link t \<Longrightarrow>
   exit_status t' = exit_status t \<Longrightarrow> lk s' = lk s"
  by (auto simp: lk_def fun_eq_iff)

lemma wt_upd:
  "task s' = (task s)(tid \<mapsto> t') \<Longrightarrow> wt s' = (wt s)(tid := int (weight (scheduler_entity t')))"
  by (auto simp: wt_def fun_eq_iff)

lemma vt_upd:
  "task s' = (task s)(tid \<mapsto> t') \<Longrightarrow> vt s' = (vt s)(tid := virtual_runtime (scheduler_entity t'))"
  by (auto simp: vt_def fun_eq_iff)

section \<open>The sums\<close>

lemma sum_upd:
  fixes f :: "'a \<Rightarrow> int"
  assumes "finite A" "x \<in> A"
  shows "(\<Sum>i \<in> A. if i = x then y else f i) = sum f A - f x + y"
proof -
  have "(\<Sum>i \<in> A - {x}. if i = x then y else f i) = sum f (A - {x})" by (rule sum.cong) auto
  then show ?thesis
    using sum.remove [OF assms, of "\<lambda>i. if i = x then y else f i"] sum.remove [OF assms, of f]
    by simp
qed

lemma sum_upd_notin: "x \<notin> A \<Longrightarrow> (\<Sum>i \<in> A. if i = x then y else f i) = sum f A"
  by (rule sum.cong) auto

lemma add_sums_values [simp]:
  "sum_weight (add_sums s dw dwr) = sum_weight s + dw"
  "sum_weighted_runtime (add_sums s dw dwr) = sum_weighted_runtime s + dwr"
  "0 < sum_weight s + dw \<Longrightarrow>
   average (add_sums s dw dwr) = (sum_weighted_runtime s + dwr) sdiv (sum_weight s + dw)"
  by (simp_all add: add_sums_def refresh_average_def)

text \<open>
  After an update of the tasks, correct the sums by the difference and they
  are right again.
\<close>

lemma sums_add_sums:
  assumes "\<And>tid t. task s tid = Some t \<Longrightarrow> 0 < weight (scheduler_entity t)"
    and "sum_weight s + dw = (\<Sum>i \<in> A. wt s i)"
    and "sum_weighted_runtime s + dwr = (\<Sum>i \<in> A. wt s i * vt s i)"
  shows "sums_for (add_sums s dw dwr) A"
proof -
  have "task (add_sums s dw dwr) = task s" by simp
  from view_congI [OF this] show ?thesis using assms by (simp add: sums_for_def)
qed

lemma wt_times_vt_upd:
  "(\<lambda>i. (f(x := a)) i * (g(x := b)) i) = (\<lambda>i. f i * g i)(x := a * b)" for f g :: "'a \<Rightarrow> int"
  by auto

lemma sums_task_upd:
  assumes ok: "sums_for s A" "finite A" and t: "task s tid = Some t"
    and s': "task s' = (task s)(tid \<mapsto> t')"
    and w: "0 < weight (scheduler_entity t')"
    and same: "sum_weight s' = sum_weight s" "sum_weighted_runtime s' = sum_weighted_runtime s"
    and d: "dw = (if tid \<in> A then int (weight (scheduler_entity t'))
              - int (weight (scheduler_entity t)) else 0)"
      "dwr = (if tid \<in> A then
         int (weight (scheduler_entity t')) * virtual_runtime (scheduler_entity t')
           - int (weight (scheduler_entity t)) * virtual_runtime (scheduler_entity t) else 0)"
  shows "sums_for (add_sums s' dw dwr) A"
proof (rule sums_add_sums)
  have old: "wt s tid = int (weight (scheduler_entity t))"
      "vt s tid = virtual_runtime (scheduler_entity t)"
    using t by (simp_all add: wt_def vt_def)
  have w': "wt s' = (wt s)(tid := int (weight (scheduler_entity t')))" by (rule wt_upd [OF s'])
  have wv: "(\<lambda>i. wt s' i * vt s' i) = (\<lambda>i. wt s i * vt s i)
      (tid := int (weight (scheduler_entity t')) * virtual_runtime (scheduler_entity t'))"
    unfolding w' vt_upd [OF s'] by (rule wt_times_vt_upd)
  show "0 < weight (scheduler_entity u)" if "task s' i = Some u" for i u
    using that ok(1) w unfolding s' sums_for_def by (cases "i = tid") auto
  show "sum_weight s' + dw = (\<Sum>i \<in> A. wt s' i)"
    unfolding w' using ok(1) old d(1) same(1)
    by (cases "tid \<in> A") (simp_all add: sums_for_def sum_upd [OF ok(2)] sum_upd_notin)
  show "sum_weighted_runtime s' + dwr = (\<Sum>i \<in> A. wt s' i * vt s' i)"
    unfolding wv using ok(1) old d(2) same(2)
    by (cases "tid \<in> A") (simp_all add: sums_for_def sum_upd [OF ok(2)] sum_upd_notin)
qed

lemma sums_pos: "sums_for s A \<Longrightarrow> task s tid = Some t \<Longrightarrow> 0 < weight (scheduler_entity t)"
  unfolding sums_for_def by blast

lemma sums_remove:
  assumes ok: "sums_for s A" "finite A" "tid \<in> A"
  shows "sums_for (add_sums s (- wt s tid) (- (wt s tid * vt s tid))) (A - {tid})"
  using ok by (intro sums_add_sums) (auto simp: sums_for_def sum_diff1)

lemma sums_insert:
  assumes ok: "sums_for s A" "finite A" "tid \<notin> A"
  shows "sums_for (add_sums s (wt s tid) (wt s tid * vt s tid)) (insert tid A)"
  using ok by (intro sums_add_sums) (auto simp: sums_for_def)

text \<open>A task outside the set may change at will.\<close>

lemma sums_outside:
  assumes "sums_for s A" "tid \<notin> A" and s': "task s' = (task s)(tid \<mapsto> t')"
    and "0 < weight (scheduler_entity t')"
    and "sum_weight s' = sum_weight s" "sum_weighted_runtime s' = sum_weighted_runtime s"
      "average s' = average s"
  shows "sums_for s' A"
  using assms unfolding sums_for_def wt_upd [OF s'] vt_upd [OF s']
  by (auto simp: sum_upd_notin wt_times_vt_upd intro!: sum.cong)

end
