(* ===== verification/SchedulerOps.thy ===== *)
theory SchedulerOps
  imports SchedulerInv
begin

text \<open>
  What the building blocks of the scheduler do to the task table and to the
  sums: charging the running task, leaving and joining the runnable set, the
  choice of the next task and the switch to it.
\<close>

section \<open>Charging and leaving\<close>

definition charged :: "TaskControlBlock \<Rightarrow> Nanos \<Rightarrow> TaskControlBlock" where
  "charged t now = (if is_idle t then t\<lparr> dispatched_at := now \<rparr>
     else t\<lparr> dispatched_at := now,
       scheduler_entity := snd (account (scheduler_entity t) (now - dispatched_at t)) \<rparr>)"

lemma charged_fields [simp]:
  "t_state (charged t now) = t_state t" "is_idle (charged t now) = is_idle t"
  "block_reason (charged t now) = block_reason t" "wait_link (charged t now) = wait_link t"
  "exit_status (charged t now) = exit_status t" "task_id (charged t now) = task_id t"
  "weight (scheduler_entity (charged t now)) = weight (scheduler_entity t)"
  by (simp_all add: charged_def account_snd)

lemma charge_fields [simp]:
  "free_slots (snd (charge s tid now)) = free_slots s"
  "slot_of (snd (charge s tid now)) = slot_of s"
  "run_queue (snd (charge s tid now)) = run_queue s"
  "exit_queue (snd (charge s tid now)) = exit_queue s"
  "next_task_id (snd (charge s tid now)) = next_task_id s"
  "current (snd (charge s tid now)) = current s"
  "idle (snd (charge s tid now)) = idle s"
  "sleepers (snd (charge s tid now)) = sleepers s"
  "clock (snd (charge s tid now)) = clock s"
  "policy (snd (charge s tid now)) = policy s"
  "wakeup_preempt (snd (charge s tid now)) = wakeup_preempt s"
  by (simp_all add: charge_def Let_def split: option.splits prod.splits)

lemma slots_add_sums [simp]: "slots_ok (add_sums s dw dwr) = slots_ok s"
  by (rule slots_congI) simp_all

lemma charge_eq:
  assumes "task s tid = Some t"
  shows "snd (charge s tid now) =
    (if is_idle t then task_mut s tid (\<lambda>t. t\<lparr> dispatched_at := now \<rparr>)
     else add_sums (task_mut (task_mut s tid (\<lambda>t. t\<lparr> dispatched_at := now \<rparr>)) tid
         (\<lambda>u. u\<lparr> scheduler_entity := snd (account (scheduler_entity t) (now - dispatched_at t)) \<rparr>)) 0
       (int (weight (scheduler_entity t)) *
         (virtual_runtime (scheduler_entity (charged t now))
           - virtual_runtime (scheduler_entity t))))"
  using assms account_snd(2) [of "scheduler_entity t" "now - dispatched_at t"]
  by (auto simp: charge_def Let_def charged_def split: prod.splits)

lemma charge_ok:
  assumes ok: "slots_ok s" and t: "task s tid = Some t"
  shows task_charge: "task (snd (charge s tid now)) = (task s)(tid \<mapsto> charged t now)"
    and slots_charge: "slots_ok (snd (charge s tid now))"
    and kd_charge: "kd (snd (charge s tid now)) = kd s"
    and lk_charge: "lk (snd (charge s tid now)) = lk s"
proof -
  let ?s1 = "task_mut s tid (\<lambda>t. t\<lparr> dispatched_at := now \<rparr>)"
  have s1: "slots_ok ?s1" by (rule slots_task_mut [OF ok]) simp
  show tk: "task (snd (charge s tid now)) = (task s)(tid \<mapsto> charged t now)"
    using t by (simp add: charge_eq [OF t] task_task_mut [OF ok] task_task_mut [OF s1] charged_def)
  show "slots_ok (snd (charge s tid now))"
    using s1 by (simp add: charge_eq [OF t] slots_task_mut)
  show "kd (snd (charge s tid now)) = kd s" by (rule kd_same [OF tk t]) simp_all
  show "lk (snd (charge s tid now)) = lk s" by (rule lk_same [OF tk t]) simp_all
qed

lemma sums_charge:
  assumes ok: "slots_ok s" and t: "task s tid = Some t" and sums: "sums_for s A" "finite A"
    and mem: "tid \<in> A \<longleftrightarrow> \<not> is_idle t"
  shows "sums_for (snd (charge s tid now)) A"
proof -
  have tk: "task (snd (charge s tid now)) = (task s)(tid \<mapsto> charged t now)"
    by (rule task_charge [OF ok t])
  have pos: "0 < weight (scheduler_entity t)" using sums(1) t by (auto simp: sums_for_def)
  show ?thesis
  proof (cases "is_idle t")
    case True
    have "sum_weight (snd (charge s tid now)) = sum_weight s"
      "sum_weighted_runtime (snd (charge s tid now)) = sum_weighted_runtime s"
      "average (snd (charge s tid now)) = average s"
      using True by (simp_all add: charge_eq [OF t])
    then show ?thesis using True mem pos sums(1) by (intro sums_outside [OF _ _ tk]) simp_all
  next
    case False
    let ?s2 = "task_mut (task_mut s tid (\<lambda>t. t\<lparr> dispatched_at := now \<rparr>)) tid
         (\<lambda>u. u\<lparr> scheduler_entity := snd (account (scheduler_entity t) (now - dispatched_at t)) \<rparr>)"
    have "task ?s2 = (task s)(tid \<mapsto> charged t now)"
      using tk False by (simp add: charge_eq [OF t])
    then show ?thesis unfolding charge_eq [OF t] using False mem pos
      by (auto intro!: sums_task_upd [OF sums t] simp: algebra_simps)
  qed
qed

lemma leave_fields [simp]:
  "free_slots (leave s tid) = free_slots s" "slot_of (leave s tid) = slot_of s"
  "run_queue (leave s tid) = run_queue s" "exit_queue (leave s tid) = exit_queue s"
  "next_task_id (leave s tid) = next_task_id s" "current (leave s tid) = current s"
  "idle (leave s tid) = idle s" "sleepers (leave s tid) = sleepers s"
  "clock (leave s tid) = clock s" "policy (leave s tid) = policy s"
  by (simp_all add: leave_def entity_mut_def Let_def split: option.splits)

definition left_task :: "VirtualTime \<Rightarrow> TaskControlBlock \<Rightarrow> TaskControlBlock" where
  "left_task avg t = t\<lparr> scheduler_entity := (scheduler_entity t)
     \<lparr> lag := clamp_int (avg - virtual_runtime (scheduler_entity t)) (- LAG_LIMIT) LAG_LIMIT \<rparr> \<rparr>"

lemma left_task_fields [simp]:
  "t_state (left_task a t) = t_state t" "is_idle (left_task a t) = is_idle t"
  "block_reason (left_task a t) = block_reason t" "wait_link (left_task a t) = wait_link t"
  "exit_status (left_task a t) = exit_status t" "task_id (left_task a t) = task_id t"
  "weight (scheduler_entity (left_task a t)) = weight (scheduler_entity t)"
  "virtual_runtime (scheduler_entity (left_task a t)) = virtual_runtime (scheduler_entity t)"
  by (simp_all add: left_task_def)

lemma leave_ok:
  assumes ok: "slots_ok s" and t: "task s tid = Some t"
  shows task_leave: "task (leave s tid) = (task s)(tid \<mapsto> left_task (average s) t)"
    and slots_leave: "slots_ok (leave s tid)"
  using t slots_task_mut [OF ok]
  by (simp_all add: leave_def entity_mut_def Let_def task_task_mut [OF ok] left_task_def)

lemma sums_leave:
  assumes ok: "slots_ok s" and t: "task s tid = Some t" and sums: "sums_for s A" "finite A" "tid \<in> A"
  shows "sums_for (leave s tid) (A - {tid})"
proof -
  let ?s1 = "entity_mut s tid
    (\<lambda>e. e\<lparr> lag := clamp_int (average s - virtual_runtime (scheduler_entity t))
       (- LAG_LIMIT) LAG_LIMIT \<rparr>)"
  have tk: "task ?s1 = (task s)(tid \<mapsto> left_task (average s) t)"
    using t by (simp add: entity_mut_def task_task_mut [OF ok] left_task_def)
  have wv: "wt ?s1 = wt s" "vt ?s1 = vt s"
    unfolding wt_upd [OF tk] vt_upd [OF tk] using t by (auto simp: wt_def vt_def fun_eq_iff)
  have "dom (task ?s1) = dom (task s)" unfolding tk using t by auto
  then have "sums_for ?s1 A"
    using sums(1) wv by (subst sums_congI [of _ s]) (simp_all add: entity_mut_def)
  from sums_remove [OF this sums(2,3)]
  show ?thesis using t wv by (simp add: leave_def Let_def) (simp add: wt_def vt_def)
qed

section \<open>Joining\<close>

definition joined :: "Scheduler \<Rightarrow> TaskControlBlock \<Rightarrow> TaskControlBlock" where
  "joined s t = t\<lparr> scheduler_entity :=
     place_entity (average s) (sum_weight s) (clock s) (scheduler_entity t) \<rparr>"

lemma place_entity_weight [simp]:
  "weight (place_entity a o' n e) = weight e" "nice (place_entity a o' n e) = nice e"
  by (simp_all add: place_entity_def Let_def)

lemma joined_fields [simp]:
  "t_state (joined s t) = t_state t" "is_idle (joined s t) = is_idle t"
  "block_reason (joined s t) = block_reason t" "wait_link (joined s t) = wait_link t"
  "exit_status (joined s t) = exit_status t" "task_id (joined s t) = task_id t"
  "weight (scheduler_entity (joined s t)) = weight (scheduler_entity t)"
  by (simp_all add: joined_def)

lemma join_shape:
  assumes t: "task s tid = Some t"
  obtains b where "join s tid =
    (add_sums (task_mut s tid (\<lambda>u. u\<lparr> scheduler_entity := scheduler_entity (joined s t) \<rparr>))
        (int (weight (scheduler_entity t)))
        (int (weight (scheduler_entity t)) * virtual_runtime (scheduler_entity (joined s t))))
      \<lparr> run_queue := run_queue s @ [tid], wakeup_preempt := b \<rparr>"
proof -
  let ?s2 = "add_sums (task_mut s tid (\<lambda>u. u\<lparr> scheduler_entity := scheduler_entity (joined s t) \<rparr>))
        (int (weight (scheduler_entity t)))
        (int (weight (scheduler_entity t)) * virtual_runtime (scheduler_entity (joined s t)))"
  have "join s tid = ?s2\<lparr> run_queue := run_queue s @ [tid] \<rparr> \<or>
      join s tid = ?s2\<lparr> run_queue := run_queue s @ [tid], wakeup_preempt := True \<rparr>"
    using t by (auto simp: join_def Let_def joined_def split: option.splits)
  moreover have "?s2\<lparr> run_queue := run_queue s @ [tid] \<rparr>
      = ?s2\<lparr> run_queue := run_queue s @ [tid], wakeup_preempt := wakeup_preempt ?s2 \<rparr>" by simp
  ultimately show ?thesis using that by metis
qed

lemma join_ok:
  assumes ok: "slots_ok s" and t: "task s tid = Some t"
  shows task_join: "task (join s tid) = (task s)(tid \<mapsto> joined s t)"
    and slots_join: "slots_ok (join s tid)"
    and kd_join: "kd (join s tid) = kd s"
    and lk_join: "lk (join s tid) = lk s"
    and rq_join: "run_queue (join s tid) = run_queue s @ [tid]"
proof -
  obtain b where j: "join s tid =
    (add_sums (task_mut s tid (\<lambda>u. u\<lparr> scheduler_entity := scheduler_entity (joined s t) \<rparr>))
        (int (weight (scheduler_entity t)))
        (int (weight (scheduler_entity t)) * virtual_runtime (scheduler_entity (joined s t))))
      \<lparr> run_queue := run_queue s @ [tid], wakeup_preempt := b \<rparr>"
    using join_shape [OF t] .
  show tk: "task (join s tid) = (task s)(tid \<mapsto> joined s t)"
    unfolding j using t by (simp add: task_task_mut [OF ok]) (simp add: joined_def)
  show "slots_ok (join s tid)"
    using slots_task_mut [OF ok, of "\<lambda>u. u\<lparr> scheduler_entity := scheduler_entity (joined s t) \<rparr>" tid]
    unfolding j by (subst slots_congI) simp_all
  show "kd (join s tid) = kd s" by (rule kd_same [OF tk t]) simp_all
  show "lk (join s tid) = lk s" by (rule lk_same [OF tk t]) simp_all
  show "run_queue (join s tid) = run_queue s @ [tid]" unfolding j by simp
qed

lemma sums_join:
  assumes ok: "slots_ok s" and t: "task s tid = Some t" and sums: "sums_for s A" "finite A" "tid \<notin> A"
  shows "sums_for (join s tid) (insert tid A)"
proof -
  let ?s1 = "task_mut s tid (\<lambda>u. u\<lparr> scheduler_entity := scheduler_entity (joined s t) \<rparr>)"
  have pos: "0 < weight (scheduler_entity t)" using sums(1) t by (auto simp: sums_for_def)
  have tk: "task ?s1 = (task s)(tid \<mapsto> joined s t)"
    using t by (simp add: task_task_mut [OF ok]) (simp add: joined_def)
  have "sums_for ?s1 A" using sums pos by (intro sums_outside [OF _ _ tk]) simp_all
  from sums_insert [OF this sums(2,3)]
  have "sums_for (add_sums ?s1 (int (weight (scheduler_entity t)))
      (int (weight (scheduler_entity t)) * virtual_runtime (scheduler_entity (joined s t)))) (insert tid A)"
    by (simp add: wt_upd [OF tk] vt_upd [OF tk])
  moreover obtain b where j: "join s tid = (add_sums ?s1 (int (weight (scheduler_entity t)))
      (int (weight (scheduler_entity t)) * virtual_runtime (scheduler_entity (joined s t))))
      \<lparr> run_queue := run_queue s @ [tid], wakeup_preempt := b \<rparr>"
    using join_shape [OF t] .
  moreover have "sums_for (S\<lparr> run_queue := q, wakeup_preempt := b \<rparr>) A' = sums_for S A'" for S q A'
    using view_congI [of "S\<lparr> run_queue := q, wakeup_preempt := b \<rparr>" S]
    by (intro sums_congI) simp_all
  ultimately show ?thesis by simp
qed

section \<open>The choice of the next task\<close>

text \<open>The scan keeps two minima; each is this one.\<close>

fun scan_min ::
    "(TaskId \<Rightarrow> bool) \<Rightarrow> (TaskId \<Rightarrow> pick_key) \<Rightarrow> nat \<Rightarrow> TaskId list \<Rightarrow> (nat \<times> pick_key) option
       \<Rightarrow> (nat \<times> pick_key) option" where
  "scan_min p k i [] b = b"
| "scan_min p k i (x # xs) b =
     scan_min p k (Suc i) xs (if p x \<and> better (k x) b then Some (i, k x) else b)"

definition entity_of :: "Scheduler \<Rightarrow> TaskId \<Rightarrow> EevdfEntity" where
  "entity_of s tid = scheduler_entity (the (task s tid))"

definition eligible :: "Scheduler \<Rightarrow> TaskId \<Rightarrow> bool" where
  "eligible s tid \<longleftrightarrow> policy s \<noteq> Eevdf \<or> is_eligible (entity_of s tid) (average s)"

definition key_of :: "Scheduler \<Rightarrow> TaskId \<Rightarrow> pick_key" where
  "key_of s tid = pick_key (policy s) (entity_of s tid) tid"

lemma pick_scan_eq:
  "set xs \<subseteq> dom (task s) \<Longrightarrow>
   pick_scan s i xs b f =
     (scan_min (eligible s) (key_of s) i xs b,
      scan_min (\<lambda>_. True) (\<lambda>tid. (virtual_runtime (entity_of s tid), tid)) i xs f)"
  by (induction xs arbitrary: i b f)
     (auto simp: eligible_def key_of_def entity_of_def Let_def dom_def split: option.splits)

lemma key_less_trans: "\<not> key_less a b \<Longrightarrow> key_less a c \<Longrightarrow> \<not> key_less c b"
  by (auto simp: key_less_def)

lemma key_less_irrefl [simp]: "\<not> key_less a a"
  by (simp add: key_less_def)

definition min_of ::
    "(TaskId \<Rightarrow> bool) \<Rightarrow> (TaskId \<Rightarrow> pick_key) \<Rightarrow> TaskId list \<Rightarrow> (nat \<times> pick_key) option \<Rightarrow> bool" where
  "min_of p k xs b = (case b of
     None \<Rightarrow> \<forall>x \<in> set xs. \<not> p x
   | Some (i, ky) \<Rightarrow> i < length xs \<and> p (xs ! i) \<and> ky = k (xs ! i) \<and>
       (\<forall>x \<in> set xs. p x \<longrightarrow> \<not> key_less (k x) ky))"

lemma min_of_snoc:
  assumes "min_of p k xs b"
  shows "min_of p k (xs @ [x]) (if p x \<and> better (k x) b then Some (length xs, k x) else b)"
proof (cases b)
  case None
  then show ?thesis using assms by (auto simp: min_of_def better_def)
next
  case (Some c)
  obtain i ky where c: "c = (i, ky)" by (cases c)
  show ?thesis
  proof (cases "p x \<and> key_less (k x) ky")
    case True
    have "\<not> key_less (k y) (k x)" if "y \<in> set xs" "p y" for y
    proof -
      have "\<not> key_less (k y) ky" using that assms Some c by (auto simp: min_of_def)
      then show ?thesis using True by (auto simp: key_less_def)
    qed
    then show ?thesis using True Some c by (auto simp: min_of_def better_def)
  next
    case False
    then show ?thesis using assms Some c by (auto simp: min_of_def better_def nth_append)
  qed
qed

lemma scan_min_ok:
  "min_of p k ys b \<Longrightarrow> i = length ys \<Longrightarrow> min_of p k (ys @ xs) (scan_min p k i xs b)"
proof (induction xs arbitrary: ys i b)
  case Nil
  then show ?case by simp
next
  case (Cons x xs)
  from Cons.IH [OF min_of_snoc [OF Cons.prems(1), of x]] Cons.prems(2)
  show ?case by simp
qed

lemma sdiv_ge:
  fixes w x k :: int
  assumes "0 < w" "w * k \<le> x"
  shows "k \<le> x sdiv w"
proof (cases "0 \<le> x")
  case True
  then have "x sdiv w = x div w" using assms(1) by (cases "x = 0") (auto simp: signed_divide_int_def)
  moreover have "k = (w * k) div w" using assms(1) by simp
  moreover have "(w * k) div w \<le> x div w" using assms by (intro zdiv_mono1) auto
  ultimately show ?thesis by simp
next
  case False
  then have x: "x sdiv w = - ((- x) div w)" using assms(1) by (simp add: signed_divide_int_def)
  have "(- x) div w \<le> (w * (- k)) div w" using assms by (intro zdiv_mono1) auto
  moreover have "(w * (- k)) div w = - k"
    using assms(1) by (intro nonzero_mult_div_cancel_left) simp
  ultimately have "(- x) div w \<le> - k" by simp
  then show ?thesis using x by simp
qed

text \<open>
  Someone is always eligible: the least virtual runtime of the runnable set is
  not above the average, however the division rounds.
\<close>

lemma someone_eligible:
  assumes "sums_for s A" "finite A" "A \<noteq> {}" "A \<subseteq> dom (task s)"
  shows "\<exists>i \<in> A. vt s i \<le> average s"
proof (rule ccontr)
  assume no: "\<not> (\<exists>i \<in> A. vt s i \<le> average s)"
  have w: "0 < wt s i" if "i \<in> A" for i
    using that assms(1,4) unfolding sums_for_def positive_iff by blast
  have sw: "sum_weight s = (\<Sum>i \<in> A. wt s i)" "sum_weighted_runtime s = (\<Sum>i \<in> A. wt s i * vt s i)"
    using assms(1) by (simp_all add: sums_for_def)
  have pos: "0 < sum_weight s" unfolding sw by (rule sum_pos) (use assms w in auto)
  have "(\<Sum>i \<in> A. wt s i * (average s + 1)) \<le> (\<Sum>i \<in> A. wt s i * vt s i)"
    using no w by (intro sum_mono mult_left_mono) (auto simp: not_le less_imp_le)
  then have "sum_weight s * (average s + 1) \<le> sum_weighted_runtime s"
    unfolding sw by (simp add: sum_distrib_right)
  from sdiv_ge [OF pos this] show False using pos assms(1) by (simp add: sums_for_def)
qed

text \<open>The task a dispatch must choose.\<close>

definition picks :: "Scheduler \<Rightarrow> TaskId \<Rightarrow> bool" where
  "picks s tid \<longleftrightarrow> tid \<in> set (run_queue s) \<and> eligible s tid \<and>
     (\<forall>i \<in> set (run_queue s). eligible s i \<longrightarrow> \<not> key_less (key_of s i) (key_of s tid))"

lemma rset_idle_cpu:
  "struct_ok (kd s) (run_queue s) None idl \<Longrightarrow> rset s = set (run_queue s)"
  by (auto simp: rset_kd struct_ok_def)

lemma pick_next_ok:
  assumes ok: "slots_ok s" "struct_ok (kd s) (run_queue s) None idl" "sums_ok s"
    and ne: "run_queue s \<noteq> []"
  obtains tid rq where "pick_next s = (Some tid, s\<lparr> run_queue := rq \<rparr>)" "picks s tid"
    "distinct rq" "set rq = set (run_queue s) - {tid}"
proof -
  let ?q = "run_queue s"
  have rs: "rset s = set ?q" by (rule rset_idle_cpu [OF ok(2)])
  have dom: "set ?q \<subseteq> dom (task s)" using rset_dom rs by blast
  define b where "b = scan_min (eligible s) (key_of s) 0 ?q None"
  have m: "min_of (eligible s) (key_of s) ?q b"
    using scan_min_ok [of "eligible s" "key_of s" "[]" None 0 ?q] by (simp add: b_def min_of_def)
  have "\<exists>i \<in> set ?q. vt s i \<le> average s"
    using someone_eligible [of s "set ?q"] ok(3) rs dom ne by (simp add: sums_ok_def)
  moreover have "eligible s i" if "i \<in> set ?q" "vt s i \<le> average s" for i
    using that dom by (auto simp: eligible_def is_eligible_def entity_of_def vt_def)
  ultimately have "\<exists>i \<in> set ?q. eligible s i" by blast
  then obtain i ky where b: "b = Some (i, ky)" using m by (cases b) (auto simp: min_of_def)
  have i: "i < length ?q" "eligible s (?q ! i)" "ky = key_of s (?q ! i)"
      "\<forall>x \<in> set ?q. eligible s x \<longrightarrow> \<not> key_less (key_of s x) ky"
    using m b by (auto simp: min_of_def)
  have d: "distinct ?q" using ok(2) by (simp add: struct_ok_def)
  have "pick_next s = (Some (?q ! i), s\<lparr> run_queue := swap_remove ?q i \<rparr>)"
    using ne b by (simp add: pick_next_def pick_scan_eq [OF dom] b_def)
  moreover have "picks s (?q ! i)" using i nth_mem [OF i(1)] by (simp add: picks_def)
  ultimately show ?thesis using that swap_remove_ok [OF d i(1)] by blast
qed

end
