(* ===== verification/SchedulerSwitch.thy ===== *)
theory SchedulerSwitch
  imports SchedulerOps
begin

text \<open>
  The moves of a task between the states, seen by the invariant, and the
  operations built from them: the switch to the next task, stopping the running
  one, waking a blocked one, storing a new one and reaping an exited one.
\<close>

section \<open>Moves of one task\<close>

named_theorems moves \<open>one task changes state\<close>

lemma struct_dispatch [moves]:
  "struct_ok k rq None idl \<Longrightarrow> k tid = Some (Ready, b) \<Longrightarrow> distinct rq' \<Longrightarrow>
   set rq' = set rq - {tid} \<Longrightarrow> struct_ok (k(tid \<mapsto> (Running, b))) rq' (Some tid) idl"
  unfolding struct_ok_def by auto

lemma struct_stop [moves]:
  "struct_ok k rq (Some cur) idl \<Longrightarrow> k cur = Some (Running, False) \<Longrightarrow>
   st = Blocked \<or> st = Exited \<Longrightarrow> struct_ok (k(cur \<mapsto> (st, False))) rq None idl"
  unfolding struct_ok_def by (auto split: if_splits)

lemma struct_requeue [moves]:
  "struct_ok k rq (Some cur) idl \<Longrightarrow> k cur = Some (Running, b) \<Longrightarrow>
   struct_ok (k(cur \<mapsto> (Ready, b))) (if b then rq else rq @ [cur]) None idl"
  unfolding struct_ok_def by (auto split: if_splits)

lemma struct_ready [moves]:
  "struct_ok k rq cur idl \<Longrightarrow> k tid = None \<or> k tid = Some (Blocked, False) \<Longrightarrow>
   struct_ok (k(tid \<mapsto> (Ready, False))) (rq @ [tid]) cur idl"
  unfolding struct_ok_def by (auto split: if_splits)

lemma struct_new_idle [moves]:
  "struct_ok k rq cur None \<Longrightarrow> k tid = None \<Longrightarrow>
   struct_ok (k(tid \<mapsto> (Ready, True))) rq cur (Some tid)"
  unfolding struct_ok_def by (auto split: if_splits)

lemma struct_reap [moves]:
  "struct_ok k rq cur idl \<Longrightarrow> k tid = Some (Exited, False) \<Longrightarrow> struct_ok (k(tid := None)) rq cur idl"
  unfolding struct_ok_def by (auto split: if_splits)

lemma links_parts:
  assumes "links_ok l eq sl" "l tid = Some (st, br, wl, es)"
  shows "st = Blocked \<longleftrightarrow> br \<noteq> None" "wl \<noteq> None \<longrightarrow> st = Blocked" "es \<noteq> None \<longleftrightarrow> st = Exited"
    "\<forall>d. br = Some (SleepUntil d) \<longrightarrow> (d, tid) \<in> set sl"
    "st = Blocked \<and> (\<forall>d. br \<noteq> Some (SleepUntil d)) \<longrightarrow> wl \<noteq> None"
  using assms unfolding links_ok_def link_ok_def by blast+

text \<open>A task that has not exited gets new links, or appears.\<close>

lemma links_set:
  assumes ok: "links_ok l eq sl" and old: "\<forall>r. l tid \<noteq> Some (Exited, r)"
    and "fst e \<noteq> Exited" "link_ok sl tid e"
  shows "links_ok (l(tid \<mapsto> e)) eq sl"
proof -
  have "i \<in> set eq \<longleftrightarrow> (\<exists>r. (l(tid \<mapsto> e)) i = Some (Exited, r))" for i
    using ok old assms(3) unfolding links_ok_def by (cases e) auto
  moreover have "link_ok sl i f" if "(l(tid \<mapsto> e)) i = Some f" for i f
  proof (cases "i = tid")
    case True
    then show ?thesis using that assms(4) by simp
  next
    case False
    then have "l i = Some f" using that by simp
    then show ?thesis using ok unfolding links_ok_def by blast
  qed
  ultimately show ?thesis using ok unfolding links_ok_def by blast
qed

lemma links_run [moves]:
  assumes "links_ok l eq sl" "l tid = Some (st, r)" "st = Ready \<or> st = Running"
    "st' = Ready \<or> st' = Running"
  shows "links_ok (l(tid \<mapsto> (st', r))) eq sl"
proof -
  have "link_ok sl tid (st, r)" using assms(1,2) unfolding links_ok_def by blast
  then have "link_ok sl tid (st', r)" using assms(3,4) by (cases r) (auto simp: link_ok_def)
  then show ?thesis using assms by (intro links_set) auto
qed

lemma links_exit [moves]:
  assumes ok: "links_ok l eq sl" and old: "l tid = Some (Running, r)"
  shows "links_ok (l(tid \<mapsto> (Exited, None, None, Some status))) (eq @ [tid]) sl"
proof -
  have "tid \<notin> set eq" using ok old unfolding links_ok_def by auto
  moreover have "link_ok sl tid (Exited, None, None, Some status)" by (simp add: link_ok_def)
  ultimately show ?thesis using ok unfolding links_ok_def by auto
qed

lemma links_reap [moves]:
  assumes "links_ok l (tid # rest) sl"
  shows "links_ok (l(tid := None)) rest sl"
proof -
  have d: "distinct (tid # rest)" using assms by (simp add: links_ok_def)
  have "i \<in> set (tid # rest) \<longleftrightarrow> (\<exists>r. l i = Some (Exited, r))" for i
    using assms by (simp add: links_ok_def)
  then have "i \<in> set rest \<longleftrightarrow> (\<exists>r. (l(tid := None)) i = Some (Exited, r))" for i
    using d by (cases "i = tid") auto
  then show ?thesis using assms d unfolding links_ok_def by simp
qed

lemma sleep_greater_trans: "sleep_greater a b \<Longrightarrow> sleep_greater b c \<Longrightarrow> sleep_greater a c"
  by (auto simp: sleep_greater_def)

lemma not_greater_trans: "\<not> sleep_greater b a \<Longrightarrow> \<not> sleep_greater c b \<Longrightarrow> \<not> sleep_greater c a"
  by (cases a; cases b; cases c) (auto simp: sleep_greater_def)

lemma insert_sleeper_ok:
  assumes "sorted_wrt (\<lambda>a b. \<not> sleep_greater b a) xs"
  shows "sorted_wrt (\<lambda>a b. \<not> sleep_greater b a) (insert_sleeper xs k)"
    and "set (insert_sleeper xs k) = insert k (set xs)"
proof -
  define tw where "tw = takeWhile (\<lambda>x. sleep_greater x k) xs"
  define dw where "dw = dropWhile (\<lambda>x. sleep_greater x k) xs"
  have xs: "xs = tw @ dw" by (simp add: tw_def dw_def)
  have eq: "insert_sleeper xs k = tw @ k # dw"
    by (simp add: insert_sleeper_def Let_def takeWhile_eq_take [symmetric] dropWhile_eq_drop [symmetric]
        tw_def dw_def)
  have tw: "sleep_greater x k" if "x \<in> set tw" for x
    using that set_takeWhileD unfolding tw_def by fast
  have s: "sorted_wrt (\<lambda>a b. \<not> sleep_greater b a) (tw @ dw)" using assms xs by simp
  have dw: "\<not> sleep_greater x k" if x: "x \<in> set dw" for x
  proof -
    obtain y ys where yl: "dw = y # ys" using x by (cases dw) auto
    have "\<not> sleep_greater y k" using hd_dropWhile [of _ xs] yl unfolding dw_def
      by (metis list.sel(1) list.distinct(1))
    moreover have "x = y \<or> \<not> sleep_greater x y" using x yl s by (auto simp: sorted_wrt_append)
    ultimately show ?thesis using not_greater_trans by blast
  qed
  have "\<not> sleep_greater k x" if "x \<in> set tw" for x
    using tw [OF that] by (auto simp: sleep_greater_def)
  then show "sorted_wrt (\<lambda>a b. \<not> sleep_greater b a) (insert_sleeper xs k)"
    using s dw unfolding eq by (auto simp: sorted_wrt_append)
  show "set (insert_sleeper xs k) = insert k (set xs)"
    unfolding eq using arg_cong [OF xs, of set] by auto
qed

lemma links_insert_sleeper:
  assumes "links_ok l eq sl"
  shows "links_ok l eq (insert_sleeper sl k)"
proof -
  have s: "sorted_wrt (\<lambda>a b. \<not> sleep_greater b a) sl" using assms by (simp add: links_ok_def)
  have "link_ok (insert_sleeper sl k) tid e" if "link_ok sl tid e" for tid e
    using that insert_sleeper_ok(2) [OF s, of k] unfolding link_ok_def by (cases e) auto
  then show ?thesis using assms insert_sleeper_ok(1) [OF s, of k] by (simp add: links_ok_def)
qed

section \<open>The switch to the next task\<close>

definition dispatch_ok :: "Scheduler \<Rightarrow> TaskId option \<Rightarrow> Nanos \<Rightarrow> Scheduler \<Rightarrow> bool" where
  "dispatch_ok s r now s' \<longleftrightarrow>
     slots_ok s' \<and> struct_ok (kd s') (run_queue s') (current s') (idle s') \<and> sums_ok s' \<and>
     current s' = r \<and> idle s' = idle s \<and> exit_queue s' = exit_queue s \<and> sleepers s' = sleepers s \<and>
     policy s' = policy s \<and> next_task_id s' = next_task_id s \<and>
     (case r of
        None \<Rightarrow> task s' = task s \<and> run_queue s = [] \<and> idle s = None
      | Some tid \<Rightarrow> (\<exists>t. task s tid = Some t \<and> t_state t = Ready \<and>
          task s' = (task s)(tid \<mapsto> t\<lparr> t_state := Running, dispatched_at := now,
            slice_start := now \<rparr>)) \<and>
          (if run_queue s = [] then idle s = Some tid else picks s tid))"

lemma finish_switch_fields [simp]:
  "tasks (finish_switch s p c) = tasks s" "free_slots (finish_switch s p c) = free_slots s"
  "slot_of (finish_switch s p c) = slot_of s" "run_queue (finish_switch s p c) = run_queue s"
  "exit_queue (finish_switch s p c) = exit_queue s" "idle (finish_switch s p c) = idle s"
  "next_task_id (finish_switch s p c) = next_task_id s" "current (finish_switch s p c) = c"
  "sleepers (finish_switch s p c) = sleepers s" "sum_weight (finish_switch s p c) = sum_weight s"
  "sum_weighted_runtime (finish_switch s p c) = sum_weighted_runtime s"
  "average (finish_switch s p c) = average s" "policy (finish_switch s p c) = policy s"
  "clock (finish_switch s p c) = clock s"
  by (simp_all add: finish_switch_def bump_switches_def Let_def)

lemma task_finish_switch [simp]: "task (finish_switch s p c) = task s"
  by (rule task_congI) simp_all

text \<open>Dispatching a ready task, whatever the queue becomes.\<close>

lemma dispatch_one:
  assumes ok: "slots_ok s" "struct_ok (kd s) (run_queue s) None (idle s)" "sums_ok s"
    and t: "task s tid = Some t" "t_state t = Ready"
    and q: "distinct rq" "set rq = set (run_queue s) - {tid}"
    and pick: "if run_queue s = [] then idle s = Some tid else picks s tid"
  shows "dispatch_ok s (Some tid) now (finish_switch (task_mut (s\<lparr> wakeup_preempt := False,
      run_queue := rq \<rparr>) tid (\<lambda>t. t\<lparr> t_state := Running, dispatched_at := now, slice_start := now \<rparr>))
      p (Some tid))"
proof -
  let ?s1 = "s\<lparr> wakeup_preempt := False, run_queue := rq \<rparr>"
  let ?f = "\<lambda>t. t\<lparr> t_state := Running, dispatched_at := now, slice_start := now \<rparr>"
  let ?s' = "finish_switch (task_mut ?s1 tid ?f) p (Some tid)"
  have s1: "slots_ok ?s1" using ok(1) by (subst slots_congI) simp_all
  have tk: "task ?s' = (task s)(tid \<mapsto> ?f t)" using t by (simp add: task_task_mut [OF s1])
  have sl: "slots_ok ?s'" using slots_task_mut [OF s1, of ?f tid] by (subst slots_congI) simp_all
  have kd': "kd ?s' = (kd s)(tid \<mapsto> (Running, is_idle t))" using kd_upd [OF tk] by simp
  have "kd s tid = Some (Ready, is_idle t)" using t by (simp add: kd_def)
  note st = struct_dispatch [OF ok(2) this q]
  have rs: "rset ?s' = rset s" using t by (auto simp: rset_kd kd' kd_def)
  have "wt ?s' = wt s" "vt ?s' = vt s"
    unfolding wt_upd [OF tk] vt_upd [OF tk] using t by (auto simp: wt_def vt_def)
  then have "sums_ok ?s'" unfolding sums_ok_def rs
    using ok(3) t tk by (subst sums_congI [of _ s]) (auto simp: sums_ok_def)
  then show ?thesis unfolding dispatch_ok_def using st sl t pick tk kd' by simp
qed

lemma switch_to_next_ok:
  assumes ok: "slots_ok s" "struct_ok (kd s) (run_queue s) None (idle s)" "sums_ok s"
  shows "\<exists>r s'. switch_to_next s previous now = (Ok r, s') \<and> dispatch_ok s r now s'"
proof (cases "run_queue s = []")
  case True
  show ?thesis
  proof (cases "idle s")
    case None
    let ?s' = "finish_switch (s\<lparr> wakeup_preempt := False \<rparr>) previous None"
    have "switch_to_next s previous now = (Ok None, ?s')"
      using True None by (simp add: switch_to_next_def pick_next_def)
    moreover have tk: "task ?s' = task s" by simp
    moreover have "slots_ok ?s'" using ok(1) by (subst slots_congI) simp_all
    moreover note view_congI [OF tk]
    moreover have "sums_ok ?s'" using ok(3) view_congI [OF tk] rset_congI [of ?s' s]
      unfolding sums_ok_def by (subst sums_congI [of _ s]) auto
    ultimately show ?thesis using ok(2) True None by (simp add: dispatch_ok_def)
  next
    case (Some tid)
    then have "\<exists>st. kd s tid = Some (st, True)" using ok(2) unfolding struct_ok_def by metis
    then obtain st where "kd s tid = Some (st, True)" ..
    moreover from this have "st = Ready" using ok(2) unfolding struct_ok_def by blast
    ultimately obtain t where t: "task s tid = Some t" "t_state t = Ready" by (auto simp: kd_def)
    have eq: "s\<lparr> wakeup_preempt := False, run_queue := [] \<rparr> = s\<lparr> wakeup_preempt := False \<rparr>"
      using True by (cases s) simp
    have "switch_to_next s previous now = (Ok (Some tid), finish_switch (task_mut
        (s\<lparr> wakeup_preempt := False, run_queue := [] \<rparr>) tid
        (\<lambda>t. t\<lparr> t_state := Running, dispatched_at := now, slice_start := now \<rparr>)) previous (Some tid))"
      unfolding eq using True Some t by (simp add: switch_to_next_def pick_next_def transition_def)
    then show ?thesis using dispatch_one [OF ok t, of "[]" now previous] True Some by auto
  qed
next
  case False
  let ?s0 = "s\<lparr> wakeup_preempt := False \<rparr>"
  have tk0: "task ?s0 = task s" by simp
  have ok0: "slots_ok ?s0" "struct_ok (kd ?s0) (run_queue ?s0) None (idle s)" "sums_ok ?s0"
    using ok view_congI [OF tk0] rset_congI [of ?s0 s]
    by (simp_all add: slots_congI [of ?s0 s] sums_ok_def sums_congI [of ?s0 s])
  have pk: "picks ?s0 i = picks s i" for i
    by (simp add: picks_def eligible_def key_of_def entity_of_def)
  obtain tid rq where p: "pick_next ?s0 = (Some tid, ?s0\<lparr> run_queue := rq \<rparr>)" "picks ?s0 tid"
      "distinct rq" "set rq = set (run_queue ?s0) - {tid}"
    using pick_next_ok [OF ok0] False by auto
  have "tid \<in> set (run_queue s)" using p(2) by (simp add: picks_def)
  then have "kd s tid = Some (Ready, False)" using ok(2) by (simp add: struct_ok_def)
  then obtain t where t: "task s tid = Some t" "t_state t = Ready" by (auto simp: kd_def)
  have "switch_to_next s previous now = (Ok (Some tid), finish_switch (task_mut
        (s\<lparr> wakeup_preempt := False, run_queue := rq \<rparr>) tid
        (\<lambda>t. t\<lparr> t_state := Running, dispatched_at := now, slice_start := now \<rparr>)) previous (Some tid))"
    using p(1) t by (simp add: switch_to_next_def transition_def)
  then show ?thesis
    using dispatch_one [OF ok t, of rq now previous] p False unfolding pk by auto
qed

end
