(* ===== verification/SchedulerSpec.thy ===== *)
theory SchedulerSpec
  imports SchedulerSwitch
begin

text \<open>
  The operations of the scheduler keep its invariant, and what each promises:
  who is dispatched, who is woken, what a sleeper or a waiter can rely on.
\<close>

section \<open>Stopping and requeueing the running task\<close>

lemma sched_invD:
  assumes "sched_inv s"
  shows "slots_ok s" "struct_ok (kd s) (run_queue s) (current s) (idle s)" "sums_ok s"
    "links_ok (lk s) (exit_queue s) (sleepers s)"
  using assms by (simp_all add: sched_inv_def)

lemma current_running:
  assumes "struct_ok (kd s) rq (Some cur) idl"
  obtains t where "task s cur = Some t" "t_state t = Running" "kd s cur = Some (Running, is_idle t)"
    "is_idle t \<longleftrightarrow> idl = Some cur"
proof -
  have "\<exists>b. kd s cur = Some (Running, b)" using assms unfolding struct_ok_def by metis
  then obtain b where b: "kd s cur = Some (Running, b)" ..
  then obtain t where t: "task s cur = Some t" "t_state t = Running" "is_idle t = b"
    by (auto simp: kd_def)
  have "idl = Some cur \<longleftrightarrow> (\<exists>st. kd s cur = Some (st, True))"
    using assms unfolding struct_ok_def by blast
  then have "idl = Some cur \<longleftrightarrow> b" using b by auto
  then show ?thesis by (intro that [OF t(1,2)]) (use t(3) b in simp_all)
qed

lemma clock_ok: "sched_inv (s\<lparr> clock := now \<rparr>) = sched_inv s"
proof -
  have tk: "task (s\<lparr> clock := now \<rparr>) = task s" by simp
  note v = view_congI [OF tk]
  have "sums_ok (s\<lparr> clock := now \<rparr>) = sums_ok s"
    using v rset_congI [of "s\<lparr> clock := now \<rparr>" s] unfolding sums_ok_def
    by (simp add: sums_congI [of "s\<lparr> clock := now \<rparr>" s])
  then show ?thesis using v by (simp add: sched_inv_def slots_congI [of "s\<lparr> clock := now \<rparr>" s])
qed

text \<open>The running task leaves; its successor is not chosen yet.\<close>

definition stopped ::
    "Scheduler \<Rightarrow> TaskId \<Rightarrow> TaskState \<Rightarrow> Scheduler \<Rightarrow> bool" where
  "stopped s cur st s' \<longleftrightarrow>
     slots_ok s' \<and> struct_ok (kd s') (run_queue s') None (idle s') \<and> sums_ok s' \<and>
     current s' = None \<and> idle s' = idle s \<and> run_queue s' = run_queue s \<and>
     exit_queue s' = exit_queue s \<and> sleepers s' = sleepers s \<and> policy s' = policy s \<and>
     next_task_id s' = next_task_id s \<and>
     (\<exists>t t'. task s cur = Some t \<and> task s' = (task s)(cur \<mapsto> t') \<and> t_state t' = st \<and>
        is_idle t' = False \<and> block_reason t' = None \<and> wait_link t' = None \<and> exit_status t' = None)"

lemma stop_current_ok:
  assumes inv: "sched_inv s" and cur: "current s = Some cur" "idle s \<noteq> Some cur"
    and st: "st = Blocked \<or> st = Exited"
  shows "\<exists>s'. stop_current s st now = (Ok cur, s') \<and> stopped s cur st s'"
proof -
  let ?s = "s\<lparr> clock := now \<rparr>"
  have inv0: "sched_inv ?s" using inv by (simp add: clock_ok)
  note ok = sched_invD [OF inv0]
  have so: "struct_ok (kd ?s) (run_queue s) (Some cur) (idle s)" using ok(2) cur by simp
  obtain t where t0: "task ?s cur = Some t" and t: "t_state t = Running"
      "kd ?s cur = Some (Running, is_idle t)" "is_idle t \<longleftrightarrow> idle s = Some cur"
    by (rule current_running [OF so])
  then have ni: "\<not> is_idle t" using cur by simp
  let ?s1 = "snd (charge ?s cur now)"
  have c: "slots_ok ?s1" "task ?s1 = (task s)(cur \<mapsto> charged t now)"
    using slots_charge [OF ok(1) t0] task_charge [OF ok(1) t0] by simp_all
  have mem: "cur \<in> rset ?s" using t ni by (simp add: rset_kd)
  have fin: "finite (rset ?s)" by (rule finite_rset [OF ok(1)])
  have sum1: "sums_for ?s1 (rset ?s)"
    using sums_charge [OF ok(1) t0 _ fin] ok(3) mem ni by (simp add: sums_ok_def)
  have t1: "task ?s1 cur = Some (charged t now)" using c by simp
  let ?s2 = "leave ?s1 cur"
  have sum2: "sums_for ?s2 (rset ?s - {cur})" by (rule sums_leave [OF c(1) t1 sum1 fin mem])
  define u where "u = left_task (average ?s1) (charged t now)"
  have l: "slots_ok ?s2" "task ?s2 = (task s)(cur \<mapsto> u)"
    using slots_leave [OF c(1) t1] task_leave [OF c(1) t1] c(2) by (simp_all add: u_def)
  let ?s3 = "task_mut ?s2 cur (\<lambda>t. t\<lparr> resume_kind := Voluntary \<rparr>)"
  have s3: "slots_ok ?s3" "task ?s3 = (task s)(cur \<mapsto> u\<lparr> resume_kind := Voluntary \<rparr>)"
    using slots_task_mut [OF l(1)] l(2) by (simp_all add: task_task_mut [OF l(1)])
  let ?s4 = "task_mut ?s3 cur (\<lambda>t. t\<lparr> t_state := st \<rparr>)"
  let ?s' = "?s4\<lparr> current := None \<rparr>"
  let ?t' = "u\<lparr> resume_kind := Voluntary, t_state := st \<rparr>"
  have s4: "slots_ok ?s4" "task ?s4 = (task s)(cur \<mapsto> ?t')"
    using slots_task_mut [OF s3(1)] s3(2) by (simp_all add: task_task_mut [OF s3(1)])
  have tk': "task ?s' = (task s)(cur \<mapsto> ?t')" using s4(2) by simp
  have tk2: "task ?s' = (task ?s2)(cur \<mapsto> ?t')" using tk' l(2) by simp
  have pos: "0 < weight (scheduler_entity t)" using sums_pos [OF sum1 t1] by simp
  have "slots_ok ?s'" using s4(1) by (subst slots_congI) simp_all
  moreover have kd': "kd ?s' = (kd ?s)(cur \<mapsto> (st, False))"
    using kd_upd [OF tk'] ni view_congI [of ?s s] by (simp add: u_def)
  moreover have "struct_ok (kd ?s') (run_queue s) None (idle s)"
    unfolding kd' using struct_stop [OF so _ st] t(2) ni by simp
  moreover have "rset ?s' = rset ?s - {cur}" using st by (auto simp: rset_kd kd')
  moreover have "sums_for ?s' (rset ?s - {cur})"
    by (rule sums_outside [OF sum2 _ tk2]) (use pos in \<open>simp_all add: u_def\<close>)
  moreover have "block_reason ?t' = None \<and> wait_link ?t' = None \<and> exit_status ?t' = None"
    using t0 t links_parts(1-3) [OF ok(4), of cur "t_state t"] by (simp add: u_def lk_def)
  then have "\<exists>t t'. task s cur = Some t \<and> task ?s' = (task s)(cur \<mapsto> t') \<and> t_state t' = st \<and>
      is_idle t' = False \<and> block_reason t' = None \<and> wait_link t' = None \<and> exit_status t' = None"
    using t0 ni tk' by (intro exI [of _ t] exI [of _ ?t']) (simp add: u_def)
  ultimately have "stopped s cur st ?s'" by (simp add: stopped_def sums_ok_def)
  moreover have "stop_current s st now = (Ok cur, ?s')"
    using cur t0 t st s3 by (auto simp: stop_current_def transition_def Let_def u_def)
  ultimately show ?thesis by blast
qed

text \<open>Who waits on which queue.\<close>

definition waiting :: "Scheduler \<Rightarrow> TaskId \<Rightarrow> nat \<Rightarrow> bool" where
  "waiting s tid k \<longleftrightarrow> (\<exists>t. task s tid = Some t \<and> wait_link t = Some k)"

lemma waiting_upd:
  "task s' = (task s)(tid \<mapsto> t') \<Longrightarrow> task s tid = Some t \<Longrightarrow> wait_link t' = wait_link t \<Longrightarrow>
   waiting s' = waiting s"
  by (auto simp: waiting_def fun_eq_iff)

lemma waiting_off:
  "task s' = (task s)(tid \<mapsto> t') \<Longrightarrow> wait_link t' = None \<Longrightarrow> waiting s' i k \<Longrightarrow> waiting s i k \<and> i \<noteq> tid"
  by (auto simp: waiting_def split: if_splits)

text \<open>The processor is free: a dispatch may follow.\<close>

definition between :: "Scheduler \<Rightarrow> bool" where
  "between s \<longleftrightarrow> current s = None \<and> sched_inv s"

lemma current_congI:
  assumes "sched_inv s" "struct_ok (kd s) (run_queue s) c (idle s)"
  shows "sched_inv (s\<lparr> current := c \<rparr>)"
proof -
  have tk: "task (s\<lparr> current := c \<rparr>) = task s" by simp
  note v = view_congI [OF tk]
  show ?thesis using assms v rset_congI [of "s\<lparr> current := c \<rparr>" s]
    by (simp add: sched_inv_def sums_ok_def slots_congI [of "s\<lparr> current := c \<rparr>" s]
        sums_congI [of "s\<lparr> current := c \<rparr>" s])
qed

lemma dispatch_inv:
  assumes d: "dispatch_ok s r now s'" and l: "links_ok (lk s) (exit_queue s) (sleepers s)"
  shows "sched_inv s'" "waiting s' = waiting s"
proof -
  have "links_ok (lk s') (exit_queue s) (sleepers s) \<and> waiting s' = waiting s"
  proof (cases r)
    case None
    then have tk: "task s' = task s" using d by (simp add: dispatch_ok_def)
    then have "waiting s' = waiting s" by (intro ext) (simp add: waiting_def)
    then show ?thesis using l view_congI [OF tk] by simp
  next
    case (Some tid)
    then obtain t where t: "task s tid = Some t" "t_state t = Ready"
        and tk: "task s' = (task s)(tid \<mapsto> t\<lparr> t_state := Running, dispatched_at := now, slice_start := now \<rparr>)"
      using d by (auto simp: dispatch_ok_def)
    have "lk s tid = Some (Ready, block_reason t, wait_link t, exit_status t)"
      using t by (simp add: lk_def)
    from links_run [OF l this, of Running] show ?thesis
      using lk_upd [OF tk] waiting_upd [OF tk t(1)] by simp
  qed
  then show "sched_inv s'" "waiting s' = waiting s"
    using d by (auto simp: sched_inv_def dispatch_ok_def)
qed

section \<open>Rescheduling\<close>

definition requeued :: "Scheduler \<Rightarrow> Nanos \<Rightarrow> Scheduler" where
  "requeued s now = (snd (requeue_current (s\<lparr> clock := now \<rparr>) now))\<lparr> current := None \<rparr>"

lemma requeue_ok:
  assumes inv: "sched_inv s"
  shows "\<exists>s1. requeue_current s now = (Ok (), s1) \<and> between (s1\<lparr> current := None \<rparr>) \<and>
    idle s1 = idle s \<and> waiting s1 = waiting s \<and> policy s1 = policy s \<and>
    next_task_id s1 = next_task_id s \<and>
    set (run_queue s1) = set (run_queue s) \<union> (if current s = idle s then {} else set_option (current s))"
proof (cases "current s")
  case None
  then show ?thesis using inv current_congI [OF inv, of None] sched_invD(2) [OF inv]
    by (simp add: requeue_current_def between_def)
next
  case (Some cur)
  note ok = sched_invD [OF inv]
  have so: "struct_ok (kd s) (run_queue s) (Some cur) (idle s)" using ok(2) Some by simp
  obtain t where t: "task s cur = Some t" "t_state t = Running" "kd s cur = Some (Running, is_idle t)"
      "is_idle t \<longleftrightarrow> idle s = Some cur"
    by (rule current_running [OF so])
  let ?s1 = "snd (charge s cur now)"
  have c: "slots_ok ?s1" "task ?s1 = (task s)(cur \<mapsto> charged t now)" "kd ?s1 = kd s" "lk ?s1 = lk s"
    using charge_ok [OF ok(1) t(1)] by simp_all
  have mem: "cur \<in> rset s \<longleftrightarrow> \<not> is_idle t" using t by (simp add: rset_kd)
  have sum1: "sums_for ?s1 (rset s)"
    using sums_charge [OF ok(1) t(1) _ finite_rset [OF ok(1)] mem] ok(3) by (simp add: sums_ok_def)
  let ?s2 = "task_mut ?s1 cur (\<lambda>t. t\<lparr> t_state := Ready \<rparr>)"
  have s2: "slots_ok ?s2" "task ?s2 = (task s)(cur \<mapsto> (charged t now)\<lparr> t_state := Ready \<rparr>)"
    using slots_task_mut [OF c(1)] c(2) by (simp_all add: task_task_mut [OF c(1)])
  define q where "q = (if is_idle t then run_queue s else run_queue s @ [cur])"
  define s3 where "s3 = (if is_idle t then ?s2 else
      (entity_mut ?s2 cur (\<lambda>e. e\<lparr> enqueue_time := clock ?s1 \<rparr>))\<lparr> run_queue := q \<rparr>)"
  define t' where "t' = (if is_idle t then (charged t now)\<lparr> t_state := Ready \<rparr> else
      (charged t now)\<lparr> t_state := Ready, scheduler_entity :=
        (scheduler_entity (charged t now))\<lparr> enqueue_time := clock ?s1 \<rparr> \<rparr>)"
  have run: "requeue_current s now = (Ok (), s3)"
    using Some t c(2) by (simp add: requeue_current_def transition_def Let_def s3_def q_def entity_mut_def)
  have f3: "run_queue s3 = q" "idle s3 = idle s" "exit_queue s3 = exit_queue s"
      "sleepers s3 = sleepers s" "policy s3 = policy s" "next_task_id s3 = next_task_id s"
      "sum_weight s3 = sum_weight ?s1" "sum_weighted_runtime s3 = sum_weighted_runtime ?s1"
      "average s3 = average ?s1"
    by (simp_all add: s3_def q_def entity_mut_def)
  have tk: "task s3 = (task s)(cur \<mapsto> t')"
    using s2(2) by (simp add: s3_def t'_def entity_mut_def task_task_mut [OF s2(1)])
  have sl: "slots_ok s3"
  proof (cases "is_idle t")
    case True
    then show ?thesis using s2(1) by (simp add: s3_def)
  next
    case False
    have "slots_ok (entity_mut ?s2 cur (\<lambda>e. e\<lparr> enqueue_time := clock ?s1 \<rparr>))"
      unfolding entity_mut_def by (rule slots_task_mut [OF s2(1)]) simp
    then show ?thesis using False by (subst slots_congI) (simp_all add: s3_def)
  qed
  have t'f: "t_state t' = Ready" "is_idle t' = is_idle t" "block_reason t' = block_reason t"
      "wait_link t' = wait_link t" "exit_status t' = exit_status t"
      "weight (scheduler_entity t') = weight (scheduler_entity t)"
      "virtual_runtime (scheduler_entity t') = virtual_runtime (scheduler_entity (charged t now))"
    by (simp_all add: t'_def)
  have kd': "kd s3 = (kd s)(cur \<mapsto> (Ready, is_idle t))" using kd_upd [OF tk] t'f by simp
  have st: "struct_ok (kd s3) q None (idle s)"
    unfolding kd' q_def using struct_requeue [OF so t(3)] .
  have rs: "rset s3 = rset s" using t(3) by (auto simp: rset_kd kd')
  have tk1: "task s3 = (task ?s1)(cur \<mapsto> t')" using tk c(2) by simp
  have "wt s3 = wt ?s1" "vt s3 = vt ?s1"
    unfolding wt_upd [OF tk1] vt_upd [OF tk1] using c(2) t'f by (auto simp: wt_def vt_def fun_eq_iff)
  moreover have "dom (task s3) = dom (task ?s1)" using tk1 c(2) by auto
  ultimately have "sums_for s3 (rset s)" using sum1 f3 by (subst sums_congI [of _ ?s1]) simp_all
  moreover have "lk s cur = Some (Running, block_reason t, wait_link t, exit_status t)"
    using t by (simp add: lk_def)
  note links_run [OF ok(4) this, of Ready]
  then have "links_ok (lk s3) (exit_queue s) (sleepers s)" using lk_upd [OF tk] t'f by simp
  moreover have "kd (s3\<lparr> current := None \<rparr>) = kd s3 \<and> lk (s3\<lparr> current := None \<rparr>) = lk s3 \<and>
      wt (s3\<lparr> current := None \<rparr>) = wt s3 \<and> vt (s3\<lparr> current := None \<rparr>) = vt s3"
    by (rule view_congI) simp
  ultimately have "between (s3\<lparr> current := None \<rparr>)"
    using st sl f3 rs rset_congI [of "s3\<lparr> current := None \<rparr>" s3]
    by (simp add: between_def sched_inv_def sums_ok_def slots_congI [of "s3\<lparr> current := None \<rparr>" s3]
        sums_congI [of "s3\<lparr> current := None \<rparr>" s3])
  moreover have "waiting s3 = waiting s" by (rule waiting_upd [OF tk t(1)]) (simp add: t'f)
  ultimately show ?thesis using run f3 t(4) Some by (auto simp: q_def)
qed

lemma schedule_ok:
  assumes inv: "sched_inv s"
  shows "\<exists>r s'. schedule s now = (Ok r, s') \<and> sched_inv s' \<and> current s' = r \<and> idle s' = idle s \<and>
    waiting s' = waiting s \<and> dispatch_ok (requeued s now) r now s' \<and>
    set (run_queue (requeued s now)) =
      set (run_queue s) \<union> (if current s = idle s then {} else set_option (current s))"
proof -
  have inv0: "sched_inv (s\<lparr> clock := now \<rparr>)" using inv by (simp add: clock_ok)
  obtain s1 where s1: "requeue_current (s\<lparr> clock := now \<rparr>) now = (Ok (), s1)"
      "between (s1\<lparr> current := None \<rparr>)" "idle s1 = idle s" "waiting s1 = waiting (s\<lparr> clock := now \<rparr>)"
      "set (run_queue s1) = set (run_queue s) \<union> (if current s = idle s then {} else set_option (current s))"
    using requeue_ok [OF inv0, of now] by auto
  let ?m = "s1\<lparr> current := None \<rparr>"
  have m: "requeued s now = ?m" by (simp add: requeued_def s1(1))
  have ok: "sched_inv ?m" using s1(2) by (simp add: between_def)
  have "struct_ok (kd ?m) (run_queue ?m) None (idle ?m)" using sched_invD(2) [OF ok] by simp
  from switch_to_next_ok [OF sched_invD(1) [OF ok] this sched_invD(3) [OF ok], of "current s" now]
  obtain r s' where r: "switch_to_next ?m (current s) now = (Ok r, s')" "dispatch_ok ?m r now s'"
    by blast
  have "schedule s now = (Ok r, s')" using s1(1) r(1) by (simp add: schedule_def)
  moreover have "sched_inv s'" "waiting s' = waiting ?m"
    using dispatch_inv [OF r(2) sched_invD(4) [OF ok]] by simp_all
  moreover have "waiting ?m = waiting s1" "waiting (s\<lparr> clock := now \<rparr>) = waiting s"
    by (intro ext, simp add: waiting_def)+
  moreover have "current s' = r" "idle s' = idle s" using r(2) s1(3) by (simp_all add: dispatch_ok_def)
  ultimately show ?thesis using s1 r(2) m by auto
qed

lemma schedule_Some:
  assumes inv: "sched_inv s" and "current s \<noteq> None \<or> idle s \<noteq> None"
  shows "\<exists>tid s'. schedule s now = (Ok (Some tid), s') \<and> sched_inv s' \<and> current s' = Some tid \<and>
    idle s' = idle s \<and> waiting s' = waiting s"
proof -
  obtain r s2 where r: "schedule s now = (Ok r, s2)" "sched_inv s2" "current s2 = r" "idle s2 = idle s"
      "waiting s2 = waiting s" and d: "dispatch_ok (requeued s now) r now s2"
      and q: "set (run_queue (requeued s now)) =
        set (run_queue s) \<union> (if current s = idle s then {} else set_option (current s))"
    using schedule_ok [OF inv, of now] by blast
  have "r \<noteq> None"
  proof
    assume n: "r = None"
    then have "run_queue (requeued s now) = []" "idle (requeued s now) = None"
        "idle s2 = idle (requeued s now)"
      using d by (simp_all add: dispatch_ok_def)
    then show False using r(4) q assms(2) by (auto split: if_splits)
  qed
  then show ?thesis using r by auto
qed

text \<open>Edits that no part of the invariant sees.\<close>

definition quiet :: "(TaskControlBlock \<Rightarrow> TaskControlBlock) \<Rightarrow> bool" where
  "quiet f \<longleftrightarrow> (\<forall>t. task_id (f t) = task_id t \<and> t_state (f t) = t_state t \<and>
     is_idle (f t) = is_idle t \<and> block_reason (f t) = block_reason t \<and>
     wait_link (f t) = wait_link t \<and> exit_status (f t) = exit_status t \<and>
     weight (scheduler_entity (f t)) = weight (scheduler_entity t) \<and>
     virtual_runtime (scheduler_entity (f t)) = virtual_runtime (scheduler_entity t))"

lemma quiet_ok:
  assumes inv: "sched_inv s" and f: "quiet f"
  shows "sched_inv (task_mut s tid f)" "waiting (task_mut s tid f) = waiting s"
proof -
  note ok = sched_invD [OF inv]
  let ?s' = "task_mut s tid f"
  have tk: "task ?s' = (task s)(tid := map_option f (task s tid))" by (rule task_task_mut [OF ok(1)])
  have v: "kd ?s' = kd s" "lk ?s' = lk s" "wt ?s' = wt s" "vt ?s' = vt s"
    using f unfolding kd_def lk_def wt_def vt_def tk quiet_def
    by (auto simp: fun_eq_iff option.map_comp comp_def split: option.splits)
  have d: "dom (task ?s') = dom (task s)" unfolding tk by (auto simp: dom_def)
  have "slots_ok ?s'" using f by (intro slots_task_mut [OF ok(1)]) (simp add: quiet_def)
  then show "sched_inv ?s'" using ok v d rset_congI [OF v(1)]
    by (simp add: sched_inv_def sums_ok_def sums_congI [of ?s' s])
  show "waiting ?s' = waiting s" using f unfolding waiting_def tk quiet_def
    by (auto simp: fun_eq_iff)
qed

text \<open>Fields the invariant does not read.\<close>

lemma stats_ok [simp]: "sched_inv (s\<lparr> stats := x \<rparr>) = sched_inv s" "waiting (s\<lparr> stats := x \<rparr>) = waiting s"
  and preempt_flag_ok [simp]: "sched_inv (s\<lparr> wakeup_preempt := b \<rparr>) = sched_inv s"
    "waiting (s\<lparr> wakeup_preempt := b \<rparr>) = waiting s"
  and waiting_fields [simp]: "waiting (s\<lparr> clock := c \<rparr>) = waiting s"
    "waiting (s\<lparr> sleepers := sl \<rparr>) = waiting s" "waiting (s\<lparr> exit_queue := eq \<rparr>) = waiting s"
    "waiting (s\<lparr> idle := i \<rparr>) = waiting s" "waiting (s\<lparr> current := i \<rparr>) = waiting s"
proof -
  show "waiting (s\<lparr> stats := x \<rparr>) = waiting s" "waiting (s\<lparr> wakeup_preempt := b \<rparr>) = waiting s"
    "waiting (s\<lparr> clock := c \<rparr>) = waiting s" "waiting (s\<lparr> sleepers := sl \<rparr>) = waiting s"
    "waiting (s\<lparr> exit_queue := eq \<rparr>) = waiting s" "waiting (s\<lparr> idle := i \<rparr>) = waiting s"
    "waiting (s\<lparr> current := i \<rparr>) = waiting s"
    by (intro ext, simp add: waiting_def)+
  have e: "sched_inv s' = sched_inv s"
    if "task s' = task s" "slots_ok s' = slots_ok s" "run_queue s' = run_queue s"
      "current s' = current s" "idle s' = idle s" "exit_queue s' = exit_queue s"
      "sleepers s' = sleepers s" "sum_weight s' = sum_weight s"
      "sum_weighted_runtime s' = sum_weighted_runtime s" "average s' = average s" for s'
    using view_congI [OF that(1)] rset_congI [of s' s] that
    by (simp add: sched_inv_def sums_ok_def sums_congI [of s' s])
  show "sched_inv (s\<lparr> stats := x \<rparr>) = sched_inv s" "sched_inv (s\<lparr> wakeup_preempt := b \<rparr>) = sched_inv s"
    by (rule e; (rule slots_congI)?; simp)+
qed

lemma preempt_ok:
  assumes inv: "sched_inv s" and "current s \<noteq> None \<or> idle s \<noteq> None"
  shows "\<exists>tid s'. preempt s sp now = Some (tid, s') \<and> sched_inv s' \<and> current s' = Some tid \<and>
    idle s' = idle s \<and> waiting s' = waiting s"
proof -
  define s1 where "s1 = (case current s of None \<Rightarrow> s | Some cur \<Rightarrow> task_mut s cur
      (\<lambda>t. t\<lparr> interrupt_stack_pointer := sp, resume_kind := Interrupt \<rparr>))"
  have q: "quiet (\<lambda>t. t\<lparr> interrupt_stack_pointer := sp, resume_kind := Interrupt \<rparr>)"
    by (simp add: quiet_def)
  have s1: "sched_inv s1" "waiting s1 = waiting s" "idle s1 = idle s" "current s1 = current s"
      "run_queue s1 = run_queue s"
    using inv quiet_ok [OF inv q] by (auto simp: s1_def split: option.splits)
  obtain tid s2 where r: "schedule s1 now = (Ok (Some tid), s2)" "sched_inv s2"
      "current s2 = Some tid" "idle s2 = idle s1" "waiting s2 = waiting s1"
    using schedule_Some [OF s1(1), of now] assms(2) s1(3,4) by auto
  have "preempt s sp now = Some (tid, if Some tid \<noteq> current s
      then s2\<lparr> stats := (stats s2)\<lparr> timer_preemptions :=
         saturating_add (timer_preemptions (stats s2)) 1 \<rparr> \<rparr> else s2)"
    using r(1,3) by (simp add: preempt_def s1_def [symmetric])
  then show ?thesis using r s1 by auto
qed

lemma yield_ok:
  assumes inv: "sched_inv s" and cur: "current s = Some cur"
  shows "\<exists>tid s'. prepare_voluntary_yield s now = (Ok (cur, tid), s') \<and> sched_inv s' \<and>
    current s' = Some tid \<and> idle s' = idle s \<and> waiting s' = waiting s"
proof -
  have q: "quiet (\<lambda>t. t\<lparr> resume_kind := Voluntary \<rparr>)" by (simp add: quiet_def)
  let ?s1 = "task_mut s cur (\<lambda>t. t\<lparr> resume_kind := Voluntary \<rparr>)"
  have so: "struct_ok (kd s) (run_queue s) (Some cur) (idle s)" using sched_invD(2) [OF inv] cur by simp
  obtain t where t: "task s cur = Some t" "t_state t = Running" by (rule current_running [OF so])
  obtain tid s2 where r: "schedule ?s1 now = (Ok (Some tid), s2)" "sched_inv s2"
      "current s2 = Some tid" "idle s2 = idle ?s1" "waiting s2 = waiting ?s1"
    using schedule_Some [OF quiet_ok(1) [OF inv q], of cur now] cur by auto
  show ?thesis using cur t r quiet_ok(2) [OF inv q, of cur]
    by (simp add: prepare_voluntary_yield_def)
qed

section \<open>Blocking, sleeping and exiting\<close>

lemma stop_then_switch:
  assumes inv: "sched_inv s" and stop: "stopped s cur st s1"
    and f: "\<forall>t. task_id (f t) = task_id t \<and> t_state (f t) = t_state t \<and> is_idle (f t) = is_idle t \<and>
      scheduler_entity (f t) = scheduler_entity t"
    and new: "\<forall>t. block_reason t = None \<longrightarrow> wait_link t = None \<longrightarrow> exit_status t = None \<longrightarrow>
      (block_reason (f t), wait_link (f t), exit_status (f t)) = (br, wl, es)"
    and links: "links_ok ((lk s)(cur \<mapsto> (st, br, wl, es))) eq sl" and st: "st \<noteq> Ready"
  shows "\<exists>r s'. switch_to_next ((task_mut s1 cur f)\<lparr> sleepers := sl, exit_queue := eq \<rparr>) previous now
      = (Ok r, s') \<and> sched_inv s' \<and> idle s' = idle s \<and> current s' = r \<and> sleepers s' = sl \<and>
    exit_queue s' = eq \<and> (idle s \<noteq> None \<longrightarrow> r \<noteq> None) \<and> lk s' cur = Some (st, br, wl, es) \<and>
    (\<forall>i k. waiting s' i k \<longrightarrow> waiting s i k \<or> (i = cur \<and> wl = Some k))"
proof -
  let ?m = "(task_mut s1 cur f)\<lparr> sleepers := sl, exit_queue := eq \<rparr>"
  obtain t t' where t: "task s cur = Some t" "task s1 = (task s)(cur \<mapsto> t')" "t_state t' = st"
      "is_idle t' = False" "block_reason t' = None" "wait_link t' = None" "exit_status t' = None"
    using stop by (auto simp: stopped_def)
  have ok: "slots_ok s1" "struct_ok (kd s1) (run_queue s1) None (idle s1)" "sums_ok s1" "idle s1 = idle s"
    using stop unfolding stopped_def by blast+
  have tk: "task ?m = (task s)(cur \<mapsto> f t')" using t(2) by (simp add: task_task_mut [OF ok(1)])
  have tk1: "task ?m = (task s1)(cur \<mapsto> f t')" using tk t(2) by simp
  have t1: "task s1 cur = Some t'" using t(2) by simp
  have "slots_ok (task_mut s1 cur f)" using f by (intro slots_task_mut [OF ok(1)]) blast
  then have sl: "slots_ok ?m" by (subst slots_congI) simp_all
  have kd': "kd ?m = kd s1" by (rule kd_same [OF tk1 t1]) (simp_all add: f)
  have lk': "lk ?m = (lk s)(cur \<mapsto> (st, br, wl, es))" using lk_upd [OF tk] f new t by simp
  have "wt ?m = wt s1" "vt ?m = vt s1"
    unfolding wt_upd [OF tk1] vt_upd [OF tk1] using f t1 by (auto simp: wt_def vt_def fun_eq_iff)
  moreover have "dom (task ?m) = dom (task s1)" using tk1 t1 by auto
  ultimately have "sums_ok ?m" using ok(3) rset_congI [OF kd']
    by (simp add: sums_ok_def sums_congI [of ?m s1])
  from switch_to_next_ok [OF sl _ this, of previous now]
  obtain r s' where r: "switch_to_next ?m previous now = (Ok r, s')" "dispatch_ok ?m r now s'"
    using ok(2) kd' by auto
  have "sched_inv s'" "waiting s' = waiting ?m"
    using dispatch_inv [OF r(2)] lk' links by simp_all
  moreover have "waiting s i k \<or> (i = cur \<and> wl = Some k)" if "waiting ?m i k" for i k
    using that new t unfolding waiting_def tk by (auto split: if_splits)
  moreover have "idle s \<noteq> None \<longrightarrow> r \<noteq> None"
    using r(2) ok(4) by (cases r) (simp_all add: dispatch_ok_def)
  moreover have "lk s' cur = Some (st, br, wl, es)"
  proof (cases r)
    case None
    then have "lk s' = lk ?m" using r(2) view_congI [of s' ?m] by (simp add: dispatch_ok_def)
    then show ?thesis using lk' by simp
  next
    case (Some tid)
    obtain u where u: "task ?m tid = Some u" "t_state u = Ready"
      and tk3: "task s' = (task ?m)(tid \<mapsto> u\<lparr> t_state := Running, dispatched_at := now, slice_start := now \<rparr>)"
      using r(2) Some by (auto simp: dispatch_ok_def)
    have "task ?m cur = Some (f t')" "t_state (f t') \<noteq> Ready" using tk f t(3) st by simp_all
    then have "tid \<noteq> cur" using u by force
    then show ?thesis using lk_upd [OF tk3] lk' by simp
  qed
  ultimately show ?thesis using r ok(4) by (simp add: dispatch_ok_def)
qed

lemma running_link:
  assumes inv: "sched_inv s" and cur: "current s = Some cur"
  shows "\<exists>r. lk s cur = Some (Running, r)" "\<forall>r. lk s cur \<noteq> Some (Exited, r)"
proof -
  have so: "struct_ok (kd s) (run_queue s) (Some cur) (idle s)" using sched_invD(2) [OF inv] cur by simp
  obtain t where "task s cur = Some t" "t_state t = Running" by (rule current_running [OF so])
  then show "\<exists>r. lk s cur = Some (Running, r)" "\<forall>r. lk s cur \<noteq> Some (Exited, r)"
    by (auto simp: lk_def)
qed

lemma sleep_ok:
  assumes inv: "sched_inv s" and cur: "current s = Some cur" "idle s \<noteq> Some cur"
  shows "\<exists>r s'. sleep_current_until s d now = (Ok r, s') \<and> sched_inv s' \<and> idle s' = idle s \<and>
    current s' = r \<and> (idle s \<noteq> None \<longrightarrow> r \<noteq> None) \<and>
    lk s' cur = Some (Blocked, Some (SleepUntil d), None, None) \<and>
    (d, cur) \<in> set (sleepers s') \<and> (\<forall>i k. waiting s' i k \<longrightarrow> waiting s i k)"
proof -
  obtain s1 where s1: "stop_current s Blocked now = (Ok cur, s1)" "stopped s cur Blocked s1"
    using stop_current_ok [OF inv cur] by blast
  let ?f = "\<lambda>t. t\<lparr> block_reason := Some (SleepUntil d) \<rparr>"
  have e: "sleepers s1 = sleepers s" "exit_queue s1 = exit_queue s" "\<exists>t. task s1 cur = Some t"
    using s1(2) by (auto simp: stopped_def)
  have sorted: "sorted_wrt (\<lambda>a b. \<not> sleep_greater b a) (sleepers s)"
    using sched_invD(4) [OF inv] by (simp add: links_ok_def)
  note ins = insert_sleeper_ok(2) [OF sorted, of "(d, cur)"]
  have "links_ok ((lk s)(cur \<mapsto> (Blocked, Some (SleepUntil d), None, None))) (exit_queue s)
      (insert_sleeper (sleepers s) (d, cur))"
    by (rule links_set [OF links_insert_sleeper [OF sched_invD(4) [OF inv]] running_link(2) [OF inv cur(1)]])
       (simp_all add: link_ok_def ins)
  from stop_then_switch [OF inv s1(2) _ _ this, of ?f "Some cur" now]
  obtain r s' where r: "switch_to_next ((task_mut s1 cur ?f)\<lparr> sleepers :=
        insert_sleeper (sleepers s) (d, cur), exit_queue := exit_queue s \<rparr>) (Some cur) now = (Ok r, s')"
      "sched_inv s' \<and> idle s' = idle s \<and> current s' = r \<and>
        sleepers s' = insert_sleeper (sleepers s) (d, cur) \<and> (idle s \<noteq> None \<longrightarrow> r \<noteq> None) \<and>
        lk s' cur = Some (Blocked, Some (SleepUntil d), None, None) \<and>
        (\<forall>i k. waiting s' i k \<longrightarrow> waiting s i k)"
    by auto
  have "(task_mut s1 cur ?f)\<lparr> sleepers := insert_sleeper (sleepers s) (d, cur),
      exit_queue := exit_queue s \<rparr> = (task_mut s1 cur ?f)\<lparr> sleepers := insert_sleeper (sleepers s) (d, cur) \<rparr>"
    using e(2) [symmetric] by simp
  from r(1) [unfolded this] have "sleep_current_until s d now = (Ok r, s')"
    using s1(1) e by (auto simp: sleep_current_until_def Let_def)
  then show ?thesis using r(2) ins by simp
qed

lemma exit_ok:
  assumes inv: "sched_inv s" and cur: "current s = Some cur" "idle s \<noteq> Some cur"
  shows "\<exists>r s'. exit_current s status now = (Ok r, s') \<and> sched_inv s' \<and> idle s' = idle s \<and>
    current s' = r \<and> (idle s \<noteq> None \<longrightarrow> r \<noteq> None) \<and>
    lk s' cur = Some (Exited, None, None, Some status) \<and> exit_queue s' = exit_queue s @ [cur] \<and>
    (\<forall>i k. waiting s' i k \<longrightarrow> waiting s i k)"
proof -
  obtain s1 where s1: "stop_current s Exited now = (Ok cur, s1)" "stopped s cur Exited s1"
    using stop_current_ok [OF inv cur] by blast
  let ?f = "\<lambda>t. t\<lparr> exit_status := Some status, block_reason := None \<rparr>"
  have e: "sleepers s1 = sleepers s" "exit_queue s1 = exit_queue s" "\<exists>t. task s1 cur = Some t"
    using s1(2) by (auto simp: stopped_def)
  obtain rr where rr: "lk s cur = Some (Running, rr)" using running_link(1) [OF inv cur(1)] ..
  have "links_ok ((lk s)(cur \<mapsto> (Exited, None, None, Some status))) (exit_queue s @ [cur]) (sleepers s)"
    by (rule links_exit [OF sched_invD(4) [OF inv] rr])
  from stop_then_switch [OF inv s1(2) _ _ this, of ?f "Some cur" now]
  obtain r s' where r: "switch_to_next ((task_mut s1 cur ?f)\<lparr> sleepers := sleepers s,
        exit_queue := exit_queue s @ [cur] \<rparr>) (Some cur) now = (Ok r, s')"
      "sched_inv s' \<and> idle s' = idle s \<and> current s' = r \<and> exit_queue s' = exit_queue s @ [cur] \<and>
        (idle s \<noteq> None \<longrightarrow> r \<noteq> None) \<and> lk s' cur = Some (Exited, None, None, Some status) \<and>
        (\<forall>i k. waiting s' i k \<longrightarrow> waiting s i k)"
    by auto
  have "(task_mut s1 cur ?f)\<lparr> sleepers := sleepers s, exit_queue := exit_queue s @ [cur] \<rparr>
      = (task_mut s1 cur ?f)\<lparr> exit_queue := exit_queue s @ [cur] \<rparr>"
    using e(1) [symmetric] by simp
  from r(1) [unfolded this] have "exit_current s status now = (Ok r, s')"
    using s1(1) e by (auto simp: exit_current_def Let_def)
  then show ?thesis using r(2) by simp
qed

lemma block_ok:
  assumes inv: "sched_inv s" and cur: "current s = Some cur" "idle s \<noteq> Some cur"
    and reason: "\<forall>d. reason \<noteq> SleepUntil d"
  shows "\<exists>r s'. block_current s reason q now = (Ok r, q\<lparr> wq_tasks := wq_tasks q @ [cur] \<rparr>, s') \<and>
    sched_inv s' \<and> idle s' = idle s \<and> current s' = r \<and> (idle s \<noteq> None \<longrightarrow> r \<noteq> None) \<and>
    lk s' cur = Some (Blocked, Some reason, Some (wq_id q), None) \<and>
    (\<forall>i k. waiting s' i k \<longrightarrow> waiting s i k \<or> (i = cur \<and> k = wq_id q))"
proof -
  obtain s1 where s1: "stop_current s Blocked now = (Ok cur, s1)" "stopped s cur Blocked s1"
    using stop_current_ok [OF inv cur] by blast
  let ?f = "\<lambda>t. t\<lparr> block_reason := Some reason, wait_link := Some (wq_id q) \<rparr>"
  have e: "sleepers s1 = sleepers s" "exit_queue s1 = exit_queue s" "\<exists>t. task s1 cur = Some t"
    using s1(2) by (auto simp: stopped_def)
  have "links_ok ((lk s)(cur \<mapsto> (Blocked, Some reason, Some (wq_id q), None))) (exit_queue s) (sleepers s)"
    by (rule links_set [OF sched_invD(4) [OF inv] running_link(2) [OF inv cur(1)]])
       (simp_all add: link_ok_def reason)
  from stop_then_switch [OF inv s1(2) _ _ this, of ?f "Some cur" now]
  obtain r s' where r: "switch_to_next ((task_mut s1 cur ?f)\<lparr> sleepers := sleepers s,
        exit_queue := exit_queue s \<rparr>) (Some cur) now = (Ok r, s')"
      "sched_inv s' \<and> idle s' = idle s \<and> current s' = r \<and> (idle s \<noteq> None \<longrightarrow> r \<noteq> None) \<and>
        lk s' cur = Some (Blocked, Some reason, Some (wq_id q), None) \<and>
        (\<forall>i k. waiting s' i k \<longrightarrow> waiting s i k \<or> (i = cur \<and> k = wq_id q))"
    by auto
  have "(task_mut s1 cur ?f)\<lparr> sleepers := sleepers s, exit_queue := exit_queue s \<rparr> = task_mut s1 cur ?f"
    using e(1,2) [symmetric] by simp
  then have "block_current s reason q now = (Ok r, q\<lparr> wq_tasks := wq_tasks q @ [cur] \<rparr>, s')"
    using s1(1) r(1) e(3) by (auto simp: block_current_def Let_def)
  then show ?thesis using r(2) by simp
qed

end
