(* ===== verification/SchedulerWake.thy ===== *)
theory SchedulerWake
  imports SchedulerSpec
begin

text \<open>
  Waking, creating, reaping and tuning tasks: each keeps the invariant of the
  scheduler, with what it does to the links of the tasks.
\<close>

section \<open>Waking a blocked task\<close>

lemma blocked_not_idle:
  assumes "struct_ok (kd s) rq cur idl" "task s tid = Some t" "t_state t = Blocked"
  shows "\<not> is_idle t" "kd s tid = Some (Blocked, False)" "tid \<notin> rset s"
proof -
  have k: "kd s tid = Some (Blocked, is_idle t)" using assms(2,3) by (simp add: kd_def)
  moreover have "\<forall>st b. kd s tid = Some (st, b) \<longrightarrow> (b \<longrightarrow> st = Ready \<or> st = Running)"
    using assms(1) unfolding struct_ok_def by blast
  ultimately show "\<not> is_idle t" by auto
  with k show "kd s tid = Some (Blocked, False)" "tid \<notin> rset s" by (auto simp: rset_kd)
qed

lemma make_ready_ok:
  assumes inv: "sched_inv s" and t: "task s tid = Some t" "t_state t = Blocked"
  shows "sched_inv (make_ready s tid)"
    "lk (make_ready s tid) = (lk s)(tid \<mapsto> (Ready, None, None, None))"
    "waiting (make_ready s tid) i k \<Longrightarrow> waiting s i k \<and> i \<noteq> tid"
proof -
  note ok = sched_invD [OF inv]
  let ?f = "\<lambda>t. (case transition t Ready of Ok t' \<Rightarrow> t' | Err _ \<Rightarrow> t)
      \<lparr> block_reason := None, wait_link := None \<rparr>"
  let ?s1 = "task_mut s tid ?f"
  let ?t1 = "t\<lparr> t_state := Ready, block_reason := None, wait_link := None \<rparr>"
  have f: "?f t = ?t1" "\<And>t. task_id (?f t) = task_id t" using t(2) by (auto simp: transition_def)
  have s1: "slots_ok ?s1" by (rule slots_task_mut [OF ok(1) f(2)])
  have tk1: "task ?s1 = (task s)(tid \<mapsto> ?t1)" using t f(1) by (simp add: task_task_mut [OF ok(1)])
  have t1: "task ?s1 tid = Some ?t1" using tk1 by simp
  note b = blocked_not_idle [OF ok(2) t]
  have pos: "0 < weight (scheduler_entity t)" using ok(3) t(1) unfolding sums_ok_def by (rule sums_pos)
  have "sums_for ?s1 (rset s)"
    using ok(3) b(3) pos by (intro sums_outside [OF _ _ tk1]) (simp_all add: sums_ok_def)
  then have sums: "sums_for (join ?s1 tid) (insert tid (rset s))"
    using sums_join [OF s1 t1 _ finite_rset [OF ok(1)] b(3)] by simp
  let ?s2 = "join ?s1 tid"
  have kd2: "kd ?s2 = (kd s)(tid \<mapsto> (Ready, False))" using kd_join [OF s1 t1] kd_upd [OF tk1] b(1) by simp
  have es: "exit_status t = None"
    using links_parts(3) [OF ok(4), of tid Blocked "block_reason t" "wait_link t"] t by (simp add: lk_def)
  have lk2: "lk ?s2 = (lk s)(tid \<mapsto> (Ready, None, None, None))"
    using lk_join [OF s1 t1] lk_upd [OF tk1] es by simp
  have "rset ?s2 = insert tid (rset s)" by (auto simp: rset_kd kd2)
  moreover have "struct_ok (kd ?s2) (run_queue ?s2) (current ?s2) (idle ?s2)"
    unfolding kd2 rq_join [OF s1 t1] using struct_ready [OF ok(2), of tid] b(2) by simp
  moreover have "links_ok (lk ?s2) (exit_queue ?s2) (sleepers ?s2)"
    unfolding lk2 using links_set [OF ok(4), of tid "(Ready, None, None, None)"] t
    by (simp add: link_ok_def lk_def)
  ultimately have "sched_inv ?s2" using sums slots_join [OF s1 t1] by (simp add: sched_inv_def sums_ok_def)
  then show "sched_inv (make_ready s tid)" by (simp add: make_ready_def Let_def)
  have tk: "task (make_ready s tid) = task ?s2" by (simp add: make_ready_def Let_def)
  show "lk (make_ready s tid) = (lk s)(tid \<mapsto> (Ready, None, None, None))"
    using view_congI [OF tk] lk2 by simp
  have "task (make_ready s tid) = (task s)(tid \<mapsto> joined ?s1 ?t1)"
    using tk task_join [OF s1 t1] tk1 by simp
  from waiting_off [OF this] show "waiting (make_ready s tid) i k \<Longrightarrow> waiting s i k \<and> i \<noteq> tid" by simp
qed

section \<open>Expired sleepers\<close>

definition sleeping :: "Scheduler \<Rightarrow> TaskId \<Rightarrow> Tick \<Rightarrow> bool" where
  "sleeping s tid d \<longleftrightarrow> (\<exists>t. task s tid = Some t \<and> t_state t = Blocked \<and>
     block_reason t = Some (SleepUntil d))"

lemma sleeping_lk: "sleeping s tid d \<longleftrightarrow> (\<exists>r. lk s tid = Some (Blocked, Some (SleepUntil d), r))"
  by (auto simp: sleeping_def lk_def)

lemma sleeping_fun: "sleeping s tid d \<Longrightarrow> sleeping s tid d' \<Longrightarrow> d = d'"
  by (auto simp: sleeping_def)

lemma task_mut_sleepers:
  "task_mut (s\<lparr> sleepers := x \<rparr>) tid f = (task_mut s tid f)\<lparr> sleepers := x \<rparr>"
  by (simp add: task_mut_def split: option.splits)

lemma add_sums_sleepers: "add_sums (s\<lparr> sleepers := x \<rparr>) a b = (add_sums s a b)\<lparr> sleepers := x \<rparr>"
  by (simp add: add_sums_def refresh_average_def)

lemma join_sleepers: "join (s\<lparr> sleepers := x \<rparr>) tid = (join s tid)\<lparr> sleepers := x \<rparr>"
proof (cases "task s tid")
  case None
  then show ?thesis by (simp add: join_def)
next
  case (Some t)
  then show ?thesis
    by (cases "current s") (simp_all add: join_def task_mut_sleepers add_sums_sleepers Let_def)
qed

lemma make_ready_sleepers:
  "make_ready (s\<lparr> sleepers := x \<rparr>) tid = (make_ready s tid)\<lparr> sleepers := x \<rparr>"
  by (simp add: make_ready_def task_mut_sleepers join_sleepers Let_def)

lemma drop_sleeper_ok:
  assumes inv: "sched_inv s" and sl: "sleepers s = xs @ [(d, tid)]" and no: "\<not> sleeping s tid d"
  shows "sched_inv (s\<lparr> sleepers := xs \<rparr>)"
proof -
  let ?s' = "s\<lparr> sleepers := xs \<rparr>"
  note ok = sched_invD [OF inv]
  have tk: "task ?s' = task s" by simp
  note v = view_congI [OF tk]
  have "link_ok xs i e" if e: "lk s i = Some e" for i e
  proof -
    have "link_ok (xs @ [(d, tid)]) i e" using ok(4) e sl unfolding links_ok_def by metis
    moreover have "fst (snd e) \<noteq> Some (SleepUntil d)" if "i = tid"
      using no e that links_parts(1) [OF ok(4), of tid] by (cases e) (auto simp: sleeping_lk)
    ultimately show ?thesis by (cases e) (auto simp: link_ok_def)
  qed
  then have "links_ok (lk s) (exit_queue s) xs"
    using ok(4) sl unfolding links_ok_def by (auto simp: sorted_wrt_append)
  then show ?thesis using ok v rset_congI [of ?s' s]
    by (simp add: sched_inv_def sums_ok_def slots_congI [of ?s' s] sums_congI [of ?s' s])
qed

definition expired :: "Scheduler \<Rightarrow> Tick \<Rightarrow> TaskId set" where
  "expired s now = {tid. \<exists>d \<le> now. sleeping s tid d}"

lemma expired_lk: "lk s' = lk s \<Longrightarrow> expired s' now = expired s now"
  by (simp add: expired_def sleeping_lk)

lemma finite_expired: "slots_ok s \<Longrightarrow> finite (expired s now)"
  by (rule finite_subset [OF _ finite_dom_task]) (auto simp: expired_def sleeping_def)

lemma last_not_expired:
  assumes "links_ok (lk s) eq (xs @ [(d, tid)])" "now < d"
  shows "expired s now = {}"
proof -
  have "now < d'" if "sleeping s i d'" for i d'
  proof -
    have "link_ok (xs @ [(d, tid)]) i (the (lk s i))" using that assms(1)
      unfolding links_ok_def sleeping_lk by (metis option.sel)
    then have m: "(d', i) \<in> set (xs @ [(d, tid)])" using that by (auto simp: link_ok_def sleeping_lk)
    have "\<not> sleep_greater (d, tid) (d', i) \<or> d' = d"
      using m assms(1) unfolding links_ok_def by (auto simp: sorted_wrt_append)
    then show ?thesis using assms(2) by (auto simp: sleep_greater_def)
  qed
  then show ?thesis by (auto simp: expired_def not_less [symmetric])
qed

lemma loop_nil: "sleepers s = [] \<Longrightarrow> wake_expired_loop s now n = (n, s)"
  by (subst wake_expired_loop.simps) simp

lemma loop_stop: "sleepers s = xs @ [(d, tid)] \<Longrightarrow> now < d \<Longrightarrow> wake_expired_loop s now n = (n, s)"
  by (subst wake_expired_loop.simps) simp

lemma loop_step:
  "sleepers s = xs @ [(d, tid)] \<Longrightarrow> d \<le> now \<Longrightarrow> wake_expired_loop s now n =
     (if sleeping s tid d then wake_expired_loop (make_ready (s\<lparr> sleepers := xs \<rparr>) tid) now (n + 1)
      else wake_expired_loop (s\<lparr> sleepers := xs \<rparr>) now n)"
  by (subst wake_expired_loop.simps) (auto simp: sleeping_def split: option.splits)

definition woken :: "Scheduler \<Rightarrow> Tick \<Rightarrow> nat \<Rightarrow> Scheduler \<Rightarrow> bool" where
  "woken s now m s' \<longleftrightarrow> sched_inv s' \<and> m = card (expired s now) \<and>
     (\<forall>tid. lk s' tid = (if tid \<in> expired s now then Some (Ready, None, None, None) else lk s tid)) \<and>
     (\<forall>i k. waiting s' i k \<longrightarrow> waiting s i k) \<and> current s' = current s \<and> idle s' = idle s"

lemma no_sleepers_expired:
  assumes "links_ok (lk s) eq []"
  shows "expired s now = {}"
proof -
  have "\<not> sleeping s i d" for i d
  proof
    assume "sleeping s i d"
    then obtain r where "lk s i = Some (Blocked, Some (SleepUntil d), r)" by (auto simp: sleeping_lk)
    then have "link_ok [] i (Blocked, Some (SleepUntil d), r)" using assms unfolding links_ok_def by blast
    then show False by (simp add: link_ok_def split: prod.splits)
  qed
  then show ?thesis by (simp add: expired_def)
qed

lemma wake_first:
  assumes inv: "sched_inv s" and sl: "sleepers s = xs @ [(d, tid)]" and d: "d \<le> now"
    and s: "sleeping s tid d"
    and IH: "woken (make_ready (s\<lparr> sleepers := xs \<rparr>) tid) now m s'"
  shows "woken s now (Suc m) s'"
proof -
  note ok = sched_invD [OF inv]
  obtain t where t: "task s tid = Some t" "t_state t = Blocked" using s by (auto simp: sleeping_def)
  let ?r = "make_ready s tid"
  let ?r' = "?r\<lparr> sleepers := xs \<rparr>"
  have eq: "make_ready (s\<lparr> sleepers := xs \<rparr>) tid = ?r'" by (rule make_ready_sleepers)
  have lkr: "lk ?r' = (lk s)(tid \<mapsto> (Ready, None, None, None))"
    using make_ready_ok(2) [OF inv t] view_congI [of ?r' ?r] by simp
  have ex: "expired ?r' now = expired s now - {tid}" by (auto simp: expired_def sleeping_lk lkr)
  have mem: "tid \<in> expired s now" using s d by (auto simp: expired_def)
  have card: "card (expired s now) = Suc (card (expired s now - {tid}))"
    by (rule card.remove [OF finite_expired [OF ok(1)] mem])
  have "waiting ?r' i k \<Longrightarrow> waiting s i k" for i k using make_ready_ok(3) [OF inv t] by simp
  then show ?thesis using IH mem unfolding eq woken_def ex card lkr by auto
qed

lemma wake_expired_loop_ok:
  assumes "sched_inv s"
  shows "\<exists>m s'. wake_expired_loop s now n = (n + m, s') \<and> woken s now m s'"
  using assms
proof (induction "length (sleepers s)" arbitrary: s n rule: less_induct)
  case less
  note inv = less.prems
  note ok = sched_invD [OF inv]
  have same: "woken s now 0 s" if "expired s now = {}" using inv that by (simp add: woken_def)
  show ?case
  proof (cases "sleepers s" rule: rev_cases)
    case Nil
    then have "expired s now = {}" using no_sleepers_expired ok(4) by simp
    then show ?thesis using loop_nil [OF Nil] same by simp
  next
    case (snoc xs e)
    obtain d tid where sl: "sleepers s = xs @ [(d, tid)]" using snoc by (cases e) simp
    let ?s1 = "s\<lparr> sleepers := xs \<rparr>"
    show ?thesis
    proof (cases "now < d")
      case True
      then have "expired s now = {}" using last_not_expired ok(4) sl by simp
      then show ?thesis using loop_stop [OF sl True] same by simp
    next
      case False
      then have le: "d \<le> now" by simp
      show ?thesis
      proof (cases "sleeping s tid d")
        case True
        let ?r = "make_ready ?s1 tid"
        obtain t where t: "task s tid = Some t" "t_state t = Blocked"
          using True by (auto simp: sleeping_def)
        have "\<not> sleeping (make_ready s tid) tid d"
          using make_ready_ok(2) [OF inv t] by (simp add: sleeping_lk)
        then have "sched_inv ?r"
          using drop_sleeper_ok [OF make_ready_ok(1) [OF inv t], of xs d tid] sl
          by (simp add: make_ready_sleepers)
        then obtain m s' where "wake_expired_loop ?r now (n + 1) = (n + 1 + m, s')" "woken ?r now m s'"
          using less.hyps [of ?r "n + 1"] sl by auto
        then show ?thesis using loop_step [OF sl le, of n] True wake_first [OF inv sl le True] by auto
      next
        case no: False
        have "sched_inv ?s1" by (rule drop_sleeper_ok [OF inv sl no])
        then obtain m s' where w: "wake_expired_loop ?s1 now n = (n + m, s')" "woken ?s1 now m s'"
          using less.hyps [of ?s1 n] sl by auto
        have lk1: "lk ?s1 = lk s" using view_congI [of ?s1 s] by simp
        then have "woken s now m s'" using w(2) expired_lk [OF lk1, of now] by (simp add: woken_def)
        then show ?thesis using loop_step [OF sl le, of n] no w(1) by auto
      qed
    qed
  qed
qed

end
