(* ===== verification/SchedulerSafety.thy ===== *)
theory SchedulerSafety
  imports SchedulerWake
begin

text \<open>
  The scheduler as a transition system together with the wait queues of its
  clients, and the properties of every state it reaches.
\<close>

section \<open>Creating and reaping tasks\<close>

lemma insert_task_ok:
  assumes ok: "slots_ok s" and fresh: "slot_of s (task_id t) = None" "task_id t < next_task_id s"
  shows "task (insert_task s t) = (task s)(task_id t \<mapsto> t)" "slots_ok (insert_task s t)"
proof -
  define slot where "slot = (if free_slots s \<noteq> [] then last (free_slots s) else length (tasks s))"
  define ts where "ts = (if free_slots s \<noteq> [] then (tasks s)[slot := Some t] else tasks s @ [Some t])"
  define fs where "fs = (if free_slots s \<noteq> [] then butlast (free_slots s) else [])"
  define s' where "s' = s\<lparr> tasks := ts, free_slots := fs, slot_of := (slot_of s)(task_id t \<mapsto> slot) \<rparr>"
  have eq: "insert_task s t = s'"
    by (cases s) (simp add: insert_task_def Let_def s'_def ts_def fs_def slot_def)
  have free: "slot \<in> set (free_slots s) \<and> slot < length (tasks s) \<and> tasks s ! slot = None"
    if "free_slots s \<noteq> []"
  proof -
    have "slot \<in> set (free_slots s)" using that by (simp add: slot_def)
    then show ?thesis using ok unfolding slots_ok_def by blast
  qed
  have len: "slot < length ts" using free by (auto simp: ts_def slot_def)
  have nth: "ts ! i = (if i = slot then Some t else tasks s ! i)" if "i < length ts" for i
    using that by (auto simp: ts_def slot_def nth_append)
  have old: "i < length ts \<longleftrightarrow> i < length (tasks s) \<or> i = slot" for i
    using free by (auto simp: ts_def slot_def)
  have ne: "sl \<noteq> slot" if a: "slot_of s j = Some sl" for j sl
  proof
    assume "sl = slot"
    moreover obtain u where "sl < length (tasks s)" "tasks s ! sl = Some u"
      by (rule slot_of_Some [OF ok a])
    ultimately show False using free by (cases "free_slots s = []") (auto simp: slot_def)
  qed
  show "task (insert_task s t) = (task s)(task_id t \<mapsto> t)"
  proof (rule ext)
    fix j
    show "task (insert_task s t) j = ((task s)(task_id t \<mapsto> t)) j"
    proof (cases "j = task_id t")
      case True
      then show ?thesis using len nth by (simp add: eq s'_def task_def)
    next
      case False
      show ?thesis
      proof (cases "slot_of s j")
        case None
        then show ?thesis using False by (simp add: eq s'_def task_def)
      next
        case (Some sl)
        then have "sl < length (tasks s)" using ok unfolding slots_ok_def by blast
        then show ?thesis using False Some ne [OF Some] old nth by (simp add: eq s'_def task_def)
      qed
    qed
  qed
  have d: "distinct (free_slots s)" using ok by (simp add: slots_ok_def)
  have fset: "set fs = set (free_slots s) - {slot}"
  proof (cases "free_slots s" rule: rev_cases)
    case Nil
    then show ?thesis by (simp add: fs_def)
  next
    case (snoc ys y)
    then show ?thesis using d by (auto simp: fs_def slot_def)
  qed
  have "distinct fs" using d by (simp add: fs_def distinct_butlast)
  moreover have "sl \<in> set fs \<longleftrightarrow> sl < length ts \<and> ts ! sl = None" for sl
  proof (cases "sl = slot")
    case True
    then show ?thesis using fset nth [OF len] by simp
  next
    case False
    have "sl \<in> set (free_slots s) \<longleftrightarrow> sl < length (tasks s) \<and> tasks s ! sl = None"
      using ok unfolding slots_ok_def by blast
    moreover have "sl < length (tasks s) \<Longrightarrow> ts ! sl = tasks s ! sl" using nth old False by simp
    moreover have "sl < length ts \<longleftrightarrow> sl < length (tasks s)" using old False by simp
    moreover have "sl \<in> set fs \<longleftrightarrow> sl \<in> set (free_slots s)" unfolding fset using False by simp
    ultimately show ?thesis by metis
  qed
  moreover have "sl < length ts \<and> (\<exists>u. ts ! sl = Some u \<and> task_id u = j)"
    if "((slot_of s)(task_id t \<mapsto> slot)) j = Some sl" for j sl
  proof (cases "j = task_id t")
    case True
    then show ?thesis using that len nth by simp
  next
    case False
    then have j: "slot_of s j = Some sl" using that by simp
    then obtain u where "sl < length (tasks s)" "tasks s ! sl = Some u" "task_id u = j"
      by (rule slot_of_Some [OF ok])
    then show ?thesis using ne [OF j] old [of sl] nth [of sl] by simp
  qed
  moreover have "((slot_of s)(task_id t \<mapsto> slot)) (task_id u) = Some sl"
    if "sl < length ts" "ts ! sl = Some u" for sl u
  proof (cases "sl = slot")
    case True
    then show ?thesis using that nth by simp
  next
    case False
    then have "slot_of s (task_id u) = Some sl"
      using that ok old [of sl] nth [of sl] unfolding slots_ok_def by auto
    then show ?thesis using fresh by auto
  qed
  moreover have "j < next_task_id s" if "((slot_of s)(task_id t \<mapsto> slot)) j \<noteq> None" for j
    using that ok fresh unfolding slots_ok_def by (cases "j = task_id t") auto
  ultimately show "slots_ok (insert_task s t)"
    unfolding eq slots_ok_def s'_def by simp
qed

lemma insert_task_fields [simp]:
  "run_queue (insert_task s t) = run_queue s" "exit_queue (insert_task s t) = exit_queue s"
  "next_task_id (insert_task s t) = next_task_id s" "current (insert_task s t) = current s"
  "idle (insert_task s t) = idle s" "sleepers (insert_task s t) = sleepers s"
  "sum_weight (insert_task s t) = sum_weight s" "average (insert_task s t) = average s"
  "sum_weighted_runtime (insert_task s t) = sum_weighted_runtime s"
  by (simp_all add: insert_task_def Let_def)

text \<open>Storing a new task: everything but the queue and the sums is in place.\<close>

lemma new_task_ok:
  assumes inv: "sched_inv s" and lim: "next_task_id s < 2 ^ 64 - 1"
    and t: "task_id t = next_task_id s" "t_state t = Ready" "block_reason t = None"
      "wait_link t = None" "exit_status t = None" "0 < weight (scheduler_entity t)"
  defines "s' \<equiv> insert_task (snd (allocate_id s)) t"
  shows "task s' = (task s)(task_id t \<mapsto> t)" "slots_ok s'" "task s (task_id t) = None"
    "sums_for s' (rset s)" "links_ok (lk s') (exit_queue s) (sleepers s)"
    "\<And>i k. waiting s' i k \<Longrightarrow> waiting s i k" "task_id t \<notin> rset s"
proof -
  note ok = sched_invD [OF inv]
  let ?s1 = "s\<lparr> next_task_id := Suc (next_task_id s) \<rparr>"
  have s1: "snd (allocate_id s) = ?s1" using lim by (simp add: allocate_id_def saturating_add_def)
  have so1: "slots_ok ?s1" using ok(1) unfolding slots_ok_def by (auto intro: less_SucI)
  have fr: "slot_of s (task_id t) = None" using ok(1) t(1) unfolding slots_ok_def by auto
  then show none: "task s (task_id t) = None" by (simp add: task_def)
  show tk: "task s' = (task s)(task_id t \<mapsto> t)" "slots_ok s'"
    using insert_task_ok [OF so1, of t] fr t(1) by (simp_all add: s'_def s1)
  show nr: "task_id t \<notin> rset s" using none by (simp add: rset_kd kd_def)
  have "average s' = average s" "sum_weight s' = sum_weight s"
      "sum_weighted_runtime s' = sum_weighted_runtime s" by (simp_all add: s'_def s1)
  then show "sums_for s' (rset s)"
    using ok(3) nr t(6) by (intro sums_outside [OF _ _ tk(1)]) (simp_all add: sums_ok_def)
  have "lk s (task_id t) = None" using none by (simp add: lk_def)
  then show "links_ok (lk s') (exit_queue s) (sleepers s)"
    unfolding lk_upd [OF tk(1)] t(2-5) by (intro links_set [OF ok(4)]) (simp_all add: link_ok_def)
  show "\<And>i k. waiting s' i k \<Longrightarrow> waiting s i k" using waiting_off [OF tk(1) t(4)] by blast
qed

lemma spawned_ok:
  assumes inv: "sched_inv s" and lim: "next_task_id s < 2 ^ 64 - 1"
    and t: "task_id t = next_task_id s" "t_state t = Ready" "block_reason t = None"
      "wait_link t = None" "exit_status t = None" "0 < weight (scheduler_entity t)" "\<not> is_idle t"
  defines "s' \<equiv> join (insert_task (snd (allocate_id s)) t) (task_id t)"
  shows "sched_inv s'" "waiting s' i k \<Longrightarrow> waiting s i k" "idle s' = idle s"
proof -
  let ?s1 = "insert_task (snd (allocate_id s)) t"
  note ok = sched_invD [OF inv]
  note n = new_task_ok [OF inv lim t(1-6)]
  have t1: "task ?s1 (task_id t) = Some t" using n(1) by simp
  note j = join_ok [OF n(2) t1]
  have kd': "kd s' = (kd s)(task_id t \<mapsto> (Ready, False))"
    using j(3) kd_upd [OF n(1)] t(2,7) by (simp add: s'_def)
  have none: "kd s (task_id t) = None" using n(3) by (simp add: kd_def)
  have rs: "rset s' = insert (task_id t) (rset s)" by (auto simp: rset_kd kd')
  have "sums_for s' (rset s')"
    unfolding rs using sums_join [OF n(2) t1 n(4) finite_rset [OF ok(1)] n(7)] by (simp add: s'_def)
  moreover have "struct_ok (kd s') (run_queue s') (current s') (idle s')"
    unfolding kd' using struct_ready [OF ok(2), of "task_id t"] none j(5)
    by (simp add: s'_def allocate_id_def)
  moreover have "links_ok (lk s') (exit_queue s') (sleepers s')"
    using n(5) j(4) by (simp add: s'_def allocate_id_def)
  ultimately show "sched_inv s'" using j(2) by (simp add: sched_inv_def sums_ok_def s'_def)
  have "waiting s' = waiting ?s1" unfolding s'_def by (rule waiting_upd [OF j(1) t1]) simp
  then show "waiting s' i k \<Longrightarrow> waiting s i k" using n(6) by simp
  show "idle s' = idle s" by (simp add: s'_def allocate_id_def)
qed

lemma spawned_idle_ok:
  assumes inv: "sched_inv s" and lim: "next_task_id s < 2 ^ 64 - 1" and none: "idle s = None"
    and t: "task_id t = next_task_id s" "t_state t = Ready" "block_reason t = None"
      "wait_link t = None" "exit_status t = None" "0 < weight (scheduler_entity t)" "is_idle t"
  defines "s' \<equiv> (insert_task (snd (allocate_id s)) t)\<lparr> idle := Some (task_id t) \<rparr>"
  shows "sched_inv s'" "waiting s' i k \<Longrightarrow> waiting s i k"
proof -
  let ?s1 = "insert_task (snd (allocate_id s)) t"
  note ok = sched_invD [OF inv]
  note n = new_task_ok [OF inv lim t(1-6)]
  have tk: "task s' = task ?s1" by (simp add: s'_def)
  note v = view_congI [OF tk]
  have kd': "kd s' = (kd s)(task_id t \<mapsto> (Ready, True))" using v kd_upd [OF n(1)] t(2,7) by simp
  have kn: "kd s (task_id t) = None" using n(3) by (simp add: kd_def)
  have rs: "rset s' = rset s" using kn by (auto simp: rset_kd kd')
  have "sums_for s' (rset s)" using n(4) v by (subst sums_congI [of _ ?s1]) (simp_all add: s'_def)
  moreover have "struct_ok (kd s') (run_queue s') (current s') (idle s')"
    unfolding kd' using struct_new_idle [of "kd s" _ _ "task_id t"] ok(2) none kn
    by (simp add: s'_def allocate_id_def)
  moreover have "links_ok (lk s') (exit_queue s') (sleepers s')"
    using n(5) v by (simp add: s'_def allocate_id_def)
  moreover have "slots_ok s'" using n(2) by (subst slots_congI [of _ ?s1]) (simp_all add: s'_def)
  ultimately show "sched_inv s'" using rs by (simp add: sched_inv_def sums_ok_def)
  have "waiting s' = waiting ?s1" by (simp add: s'_def)
  then show "waiting s' i k \<Longrightarrow> waiting s i k" using n(6) by simp
qed

lemma slots_reap:
  assumes ok: "slots_ok s" and sl: "slot_of s tid = Some slot"
    and s': "tasks s' = (tasks s)[slot := None]" "free_slots s' = free_slots s @ [slot]"
      "slot_of s' = (slot_of s)(tid := None)" "next_task_id s' = next_task_id s"
  shows "slots_ok s'" "task s' = (task s)(tid := None)"
proof -
  obtain t where t: "slot < length (tasks s)" "tasks s ! slot = Some t" "task_id t = tid"
    by (rule slot_of_Some [OF ok sl])
  have nth: "tasks s' ! i = (if i = slot then None else tasks s ! i)" if "i < length (tasks s)" for i
    using that by (simp add: s' nth_list_update)
  have len: "length (tasks s') = length (tasks s)" by (simp add: s')
  have ne: "sl' \<noteq> slot" if "slot_of s j = Some sl'" "j \<noteq> tid" for j sl'
    using that slot_of_inj [OF ok sl] by blast
  have free: "i \<in> set (free_slots s) \<longleftrightarrow> i < length (tasks s) \<and> tasks s ! i = None" for i
    using ok unfolding slots_ok_def by blast
  have "\<exists>u. tasks s' ! sl' = Some u \<and> task_id u = j" "sl' < length (tasks s')"
    if a: "slot_of s' j = Some sl'" for j sl'
  proof -
    have j: "slot_of s j = Some sl'" "j \<noteq> tid" using a by (auto simp: s' split: if_splits)
    obtain u where u: "sl' < length (tasks s)" "tasks s ! sl' = Some u" "task_id u = j"
      by (rule slot_of_Some [OF ok j(1)])
    then show "\<exists>u. tasks s' ! sl' = Some u \<and> task_id u = j" "sl' < length (tasks s')"
      using nth len ne [OF j] by simp_all
  qed
  moreover have "slot_of s' (task_id u) = Some i" if "i < length (tasks s')" "tasks s' ! i = Some u" for i u
  proof -
    have i: "i \<noteq> slot" "i < length (tasks s)" "tasks s ! i = Some u"
      using that nth [of i] len by (auto split: if_splits)
    then have "slot_of s (task_id u) = Some i" using ok unfolding slots_ok_def by blast
    then show ?thesis using i(1) sl by (auto simp: s')
  qed
  moreover have "i \<in> set (free_slots s') \<longleftrightarrow> i < length (tasks s') \<and> tasks s' ! i = None" for i
  proof (cases "i = slot")
    case True
    then show ?thesis using t(1) nth len by (simp add: s')
  next
    case False
    then have "i \<in> set (free_slots s') \<longleftrightarrow> i \<in> set (free_slots s)" by (simp add: s')
    also have "\<dots> \<longleftrightarrow> i < length (tasks s') \<and> tasks s' ! i = None"
      using free [of i] nth [of i] len False by metis
    finally show ?thesis .
  qed
  moreover have "distinct (free_slots s')" using ok free [of slot] t(2) by (simp add: s' slots_ok_def)
  moreover have "j < next_task_id s'" if "slot_of s' j \<noteq> None" for j
    using that ok unfolding s' slots_ok_def by (auto split: if_splits)
  ultimately show "slots_ok s'" unfolding slots_ok_def by blast
  show "task s' = (task s)(tid := None)"
  proof (rule ext)
    fix j
    show "task s' j = ((task s)(tid := None)) j"
    proof (cases "j = tid \<or> slot_of s j = None")
      case True
      then show ?thesis by (auto simp: task_def s')
    next
      case False
      then obtain sl' where j: "slot_of s j = Some sl'" "j \<noteq> tid" by auto
      then show ?thesis using ne [OF j] nth [of sl'] len by (simp add: task_def s'(3))
    qed
  qed
qed

lemma reap_ok:
  assumes inv: "sched_inv s"
  shows "case exit_queue s of
      [] \<Rightarrow> reap_one s = (Ok None, s)
    | tid # rest \<Rightarrow> \<exists>t s'. reap_one s = (Ok (Some t), s') \<and> task s tid = Some t \<and> t_state t = Exited \<and>
        sched_inv s' \<and> exit_queue s' = rest \<and> task s' = (task s)(tid := None) \<and> idle s' = idle s"
proof (cases "exit_queue s")
  case Nil
  then show ?thesis by (simp add: reap_one_def)
next
  case (Cons tid rest)
  note ok = sched_invD [OF inv]
  have "\<exists>r. lk s tid = Some (Exited, r)" using ok(4) Cons by (auto simp: links_ok_def)
  then obtain t where t: "task s tid = Some t" "t_state t = Exited" by (auto simp: lk_def)
  obtain slot where sl: "slot_of s tid = Some slot" "slot < length (tasks s)" "tasks s ! slot = Some t"
    using task_SomeD [OF ok(1) t(1)] by blast
  have kd: "kd s tid = Some (Exited, is_idle t)" using t by (simp add: kd_def)
  have ni: "\<not> is_idle t"
  proof
    assume "is_idle t"
    then show False using ok(2) kd unfolding struct_ok_def by blast
  qed
  have cur: "current s \<noteq> Some tid"
  proof
    assume "current s = Some tid"
    then have "\<exists>b. kd s tid = Some (Running, b)" using ok(2) unfolding struct_ok_def by blast
    then show False using kd by simp
  qed
  define s' where "s' = s\<lparr> exit_queue := rest, slot_of := (slot_of s)(tid := None),
      tasks := (tasks s)[slot := None], free_slots := free_slots s @ [slot],
      stats := (stats s)\<lparr> tasks_reaped := saturating_add (tasks_reaped (stats s)) 1 \<rparr> \<rparr>"
  have run: "reap_one s = (Ok (Some t), s')"
    using Cons cur sl by (simp add: reap_one_def s'_def Let_def)
  have r: "slots_ok s'" "task s' = (task s)(tid := None)"
    using slots_reap [OF ok(1) sl(1), of s'] by (simp_all add: s'_def)
  have v: "kd s' = (kd s)(tid := None)" "lk s' = (lk s)(tid := None)"
    using r(2) by (auto simp: kd_def lk_def fun_eq_iff)
  have rs: "rset s' = rset s" using kd by (auto simp: rset_kd v)
  have nr: "tid \<notin> rset s" using kd by (simp add: rset_kd)
  have "\<forall>i. i \<noteq> tid \<longrightarrow> wt s' i = wt s i \<and> vt s' i = vt s i" by (simp add: wt_def vt_def r(2))
  then have "(\<Sum>i \<in> rset s. wt s' i) = (\<Sum>i \<in> rset s. wt s i)"
      "(\<Sum>i \<in> rset s. wt s' i * vt s' i) = (\<Sum>i \<in> rset s. wt s i * vt s i)"
    using nr by (auto intro!: sum.cong)
  then have "sums_for s' (rset s)" using ok(3) unfolding sums_ok_def sums_for_def r(2)
    by (auto simp: s'_def split: if_splits)
  moreover have "struct_ok (kd s') (run_queue s) (current s) (idle s)"
    unfolding v using struct_reap [OF ok(2)] kd ni by simp
  moreover have "links_ok (lk s') rest (sleepers s)" unfolding v using links_reap ok(4) Cons by metis
  ultimately have "sched_inv s'" using r(1) rs by (simp add: sched_inv_def sums_ok_def s'_def)
  then show ?thesis using run Cons t r(2) by (simp add: s'_def)
qed

section \<open>Tuning and ticking\<close>

lemma renice_fields [simp]:
  "weight (renice n e) = nice_to_weight (clamp_int n MIN_NICE MAX_NICE)"
  "virtual_runtime (renice n e) = virtual_runtime e"
  by (simp_all add: renice_def Let_def)

lemma set_nice_ok:
  assumes inv: "sched_inv s"
  shows "sched_inv (snd (set_nice s tid n))" "waiting (snd (set_nice s tid n)) = waiting s"
    "idle (snd (set_nice s tid n)) = idle s"
proof -
  note ok = sched_invD [OF inv]
  show "idle (snd (set_nice s tid n)) = idle s"
    by (simp add: set_nice_def Let_def split: option.splits)
  have "sched_inv (snd (set_nice s tid n)) \<and> waiting (snd (set_nice s tid n)) = waiting s"
  proof (cases "task s tid")
    case None
    then show ?thesis using inv by (simp add: set_nice_def)
  next
    case (Some t)
    let ?e = "renice n (scheduler_entity t)"
    let ?s1 = "task_mut s tid (\<lambda>t. t\<lparr> scheduler_entity := ?e \<rparr>)"
    let ?dw = "int (weight ?e) - int (weight (scheduler_entity t))"
    let ?s2 = "add_sums ?s1 ?dw (?dw * virtual_runtime ?e)"
    have tk: "task ?s1 = (task s)(tid \<mapsto> t\<lparr> scheduler_entity := ?e \<rparr>)"
      using Some by (simp add: task_task_mut [OF ok(1)])
    have s1: "slots_ok ?s1" by (rule slots_task_mut [OF ok(1)]) simp
    have v: "kd ?s1 = kd s" "lk ?s1 = lk s" "waiting ?s1 = waiting s"
      by (rule kd_same [OF tk Some] lk_same [OF tk Some] waiting_upd [OF tk Some]; simp)+
    have pos: "0 < weight ?e" by (simp add: nice_to_weight_pos)
    show ?thesis
    proof (cases "is_terminal (t_state t)")
      case True
      then show ?thesis using inv Some by (simp add: set_nice_def Let_def)
    next
      case nt: False
      have mem: "is_in_runnable_set s tid \<longleftrightarrow> tid \<in> rset s" by (simp add: rset_def)
      show ?thesis
      proof (cases "tid \<in> rset s")
        case True
        have "sums_for ?s2 (rset s)"
          using sums_task_upd [OF _ finite_rset [OF ok(1)] Some tk, of ?dw "?dw * virtual_runtime ?e"]
            ok(3) True pos by (simp add: sums_ok_def algebra_simps)
        moreover have tk2: "task ?s2 = task ?s1" by simp
        moreover have "waiting ?s2 = waiting ?s1" by (intro ext) (simp add: waiting_def)
        ultimately have "sched_inv ?s2 \<and> waiting ?s2 = waiting s"
          using ok s1 v view_congI [OF tk2] rset_congI [of ?s2 s]
          by (simp add: sched_inv_def sums_ok_def)
        then show ?thesis using Some nt True mem by (simp add: set_nice_def Let_def)
      next
        case False
        have "sums_for ?s1 (rset s)"
          using ok(3) False pos by (intro sums_outside [OF _ _ tk]) (simp_all add: sums_ok_def)
        then have "sched_inv ?s1" using ok s1 v rset_congI [of ?s1 s]
          by (simp add: sched_inv_def sums_ok_def)
        then show ?thesis using Some nt False mem v by (simp add: set_nice_def Let_def)
      qed
    qed
  qed
  then show "sched_inv (snd (set_nice s tid n))" "waiting (snd (set_nice s tid n)) = waiting s" by simp_all
qed

lemma set_address_space_ok:
  assumes "sched_inv s"
  shows "sched_inv (snd (set_address_space s tid a))" "waiting (snd (set_address_space s tid a)) = waiting s"
  using assms quiet_ok [OF assms, of "\<lambda>t. t\<lparr> address_space := a \<rparr>" tid]
  by (auto simp: set_address_space_def quiet_def split: option.splits)

lemma charge_inv:
  assumes inv: "sched_inv s" and cur: "current s = Some cur"
  shows "sched_inv (snd (charge s cur now))" "waiting (snd (charge s cur now)) = waiting s"
proof -
  note ok = sched_invD [OF inv]
  have so: "struct_ok (kd s) (run_queue s) (Some cur) (idle s)" using ok(2) cur by simp
  obtain t where t: "task s cur = Some t" "t_state t = Running" "kd s cur = Some (Running, is_idle t)"
    by (rule current_running [OF so])
  note c = charge_ok [OF ok(1) t(1), of now]
  have "cur \<in> rset s \<longleftrightarrow> \<not> is_idle t" using t by (simp add: rset_kd)
  from sums_charge [OF ok(1) t(1) _ finite_rset [OF ok(1)] this, of now]
  show "sched_inv (snd (charge s cur now))"
    using ok c rset_congI [OF c(3)] by (simp add: sched_inv_def sums_ok_def)
  show "waiting (snd (charge s cur now)) = waiting s" by (rule waiting_upd [OF c(1) t(1)]) simp
qed

lemma tick_ok:
  assumes inv: "sched_inv s"
  shows "sched_inv (snd (tick s now))" "waiting (snd (tick s now)) = waiting s"
proof -
  have inv0: "sched_inv (s\<lparr> clock := now \<rparr>)" using inv by (simp add: clock_ok)
  have "sched_inv (snd (tick s now)) \<and> waiting (snd (tick s now)) = waiting s"
  proof (cases "current s")
    case None
    then show ?thesis using inv0 by (simp add: tick_def Let_def)
  next
    case (Some cur)
    have "current (s\<lparr> clock := now \<rparr>) = Some cur" using Some by simp
    from charge_inv [OF inv0 this, of now] show ?thesis
      using Some inv0 by (auto simp: tick_def Let_def split: prod.splits)
  qed
  then show "sched_inv (snd (tick s now))" "waiting (snd (tick s now)) = waiting s" by simp_all
qed

section \<open>The transition system\<close>

type_synonym sys = "Scheduler \<times> (nat \<Rightarrow> TaskId list)"

definition queue_at :: "(nat \<Rightarrow> TaskId list) \<Rightarrow> nat \<Rightarrow> WaitQueue" where
  "queue_at qs k = \<lparr> wq_id = k, wq_tasks = qs k \<rparr>"

definition sys_init :: "sys \<Rightarrow> bool" where
  "sys_init x \<longleftrightarrow> (\<exists>p. x = (with_policy p, \<lambda>_. []))"

text \<open>
  The calls of the kernel. The idle task is created once and never blocks, sleeps
  or exits; a waiter on a queue does not give the reason of a sleeper; the id of a
  new task is below the last \<open>u64\<close>. A client may edit a task where no part of the
  scheduler looks (its process, address space, registers).
\<close>

inductive sched_step :: "sys \<Rightarrow> sys \<Rightarrow> bool" where
  st_spawn: "next_task_id s < 2 ^ 64 - 1 \<Longrightarrow> sched_step (s, qs) (snd (spawn s stack nm), qs)"
| st_spawn_kernel: "next_task_id s < 2 ^ 64 - 1 \<Longrightarrow> idl \<longrightarrow> idle s = None \<Longrightarrow>
    sched_step (s, qs) (snd (spawn_kernel_task ip s ent nm idl storage), qs)"
| st_nice: "sched_step (s, qs) (snd (set_nice s tid n), qs)"
| st_space: "sched_step (s, qs) (snd (set_address_space s tid a), qs)"
| st_edit: "quiet f \<Longrightarrow> sched_step (s, qs) (task_mut s tid f, qs)"
| st_tick: "sched_step (s, qs) (snd (tick s now), qs)"
| st_schedule: "sched_step (s, qs) (snd (schedule s now), qs)"
| st_preempt: "preempt s sp now = Some (tid, s') \<Longrightarrow> sched_step (s, qs) (s', qs)"
| st_yield: "sched_step (s, qs) (snd (prepare_voluntary_yield s now), qs)"
| st_sleep: "current s = Some cur \<Longrightarrow> idle s \<noteq> Some cur \<Longrightarrow>
    sched_step (s, qs) (snd (sleep_current_until s d now), qs)"
| st_expired: "sched_step (s, qs) (snd (wake_expired s now), qs)"
| st_block: "current s = Some cur \<Longrightarrow> idle s \<noteq> Some cur \<Longrightarrow> \<forall>d. reason \<noteq> SleepUntil d \<Longrightarrow>
    block_current s reason (queue_at qs k) now = (r, q, s') \<Longrightarrow>
    sched_step (s, qs) (s', qs(k := wq_tasks q))"
| st_wake_one: "wake_one s (queue_at qs k) = (r, q, s') \<Longrightarrow>
    sched_step (s, qs) (s', qs(k := wq_tasks q))"
| st_wake_all: "wake_all s (queue_at qs k) = (r, q, s') \<Longrightarrow>
    sched_step (s, qs) (s', qs(k := wq_tasks q))"
| st_wake_task: "sched_step (s, qs) (snd (wake_task s tid), qs)"
| st_cancel: "cancel_wait s tid (queue_at qs k) = (r, q, s') \<Longrightarrow>
    sched_step (s, qs) (s', qs(k := wq_tasks q))"
| st_exit: "current s = Some cur \<Longrightarrow> idle s \<noteq> Some cur \<Longrightarrow>
    sched_step (s, qs) (snd (exit_current s status now), qs)"
| st_reap: "sched_step (s, qs) (snd (reap_one s), qs)"

definition sys_inv :: "sys \<Rightarrow> bool" where
  "sys_inv x \<longleftrightarrow> sched_inv (fst x) \<and> (\<forall>tid k. waiting (fst x) tid k \<longrightarrow> tid \<in> set (snd x k))"

text \<open>A step that leaves the queues alone and adds no waiter.\<close>

lemma sys_inv_same:
  "sys_inv (s, qs) \<Longrightarrow> sched_inv s' \<Longrightarrow> (\<And>i k. waiting s' i k \<Longrightarrow> waiting s i k) \<Longrightarrow> sys_inv (s', qs)"
  by (auto simp: sys_inv_def)

lemma sys_inv_init: "sys_init x \<Longrightarrow> sys_inv x"
  by (auto simp: sys_init_def sys_inv_def with_policy_def scheduler_new_def sched_inv_def slots_ok_def
      struct_ok_def sums_ok_def sums_for_def links_ok_def kd_def lk_def task_def rset_kd waiting_def)

lemma wake_blocked:
  assumes inv: "sys_inv (s, qs)" and "task s tid = Some t" "t_state t = Blocked"
    and qs': "\<And>i k. i \<in> set (qs k) \<Longrightarrow> i \<noteq> tid \<Longrightarrow> i \<in> set (qs' k)"
  shows "sys_inv (make_ready s tid, qs')"
proof -
  have si: "sched_inv s" using inv by (simp add: sys_inv_def)
  note m = make_ready_ok [OF si assms(2,3)]
  have "i \<in> set (qs' k)" if "waiting (make_ready s tid) i k" for i k
    using m(3) [OF that] inv qs' by (simp add: sys_inv_def)
  then show ?thesis using m(1) by (simp add: sys_inv_def)
qed

lemma unlinked_not_waiting:
  assumes "sched_inv s" "\<And>t. task s tid = Some t \<Longrightarrow> t_state t \<noteq> Blocked"
  shows "\<not> waiting s tid k"
proof
  assume "waiting s tid k"
  then obtain t where t: "task s tid = Some t" "wait_link t = Some k" by (auto simp: waiting_def)
  then have "t_state t = Blocked"
    using links_parts(2) [OF sched_invD(4) [OF assms(1)], of tid "t_state t" "block_reason t"
        "wait_link t" "exit_status t"] by (simp add: lk_def)
  then show False using assms(2) [OF t(1)] by simp
qed

lemma wake_one_ok:
  assumes inv: "sys_inv (s, qs)" and w: "wake_one s (queue_at qs k) = (r, q, s')"
  shows "sys_inv (s', qs(k := wq_tasks q))" "wq_id q = k"
proof -
  have si: "sched_inv s" using inv by (simp add: sys_inv_def)
  show "wq_id q = k"
    using w by (auto simp: wake_one_def queue_at_def wq_pop_def split: list.splits option.splits if_splits)
  show "sys_inv (s', qs(k := wq_tasks q))"
  proof (cases "qs k")
    case Nil
    then have "s' = s" "qs(k := wq_tasks q) = qs"
      using w by (auto simp: wake_one_def queue_at_def fun_upd_idem)
    then show ?thesis using inv by simp
  next
    case (Cons tid rest)
    have keep: "i \<in> set ((qs(k := rest)) j)" if "i \<in> set (qs j)" "i \<noteq> tid" for i j
      using that Cons by (auto split: if_splits)
    show ?thesis
    proof (cases "\<exists>t. task s tid = Some t \<and> t_state t = Blocked")
      case True
      then obtain t where t: "task s tid = Some t" "t_state t = Blocked" by blast
      then have "s' = make_ready s tid" "wq_tasks q = rest"
        using w Cons by (auto simp: wake_one_def queue_at_def wq_pop_def)
      then show ?thesis using wake_blocked [OF inv t, of "qs(k := rest)"] keep by metis
    next
      case False
      then have e: "s' = s" "wq_tasks q = rest"
        using w Cons by (auto simp: wake_one_def queue_at_def wq_pop_def split: option.splits if_splits)
      have "\<not> waiting s tid j" for j using unlinked_not_waiting [OF si] False by blast
      then have "i \<noteq> tid \<and> i \<in> set (qs j)" if "waiting s i j" for i j
        using that inv unfolding sys_inv_def by auto
      then have "i \<in> set ((qs(k := rest)) j)" if "waiting s i j" for i j
        using that keep by blast
      then show ?thesis unfolding e using si by (simp add: sys_inv_def)
    qed
  qed
qed

lemma wake_all_loop_ok:
  assumes "sys_inv (s, qs)" "wake_all_loop s (queue_at qs k) n = (r, q, s')"
  shows "sys_inv (s', qs(k := wq_tasks q))"
  using assms
proof (induction "length (qs k)" arbitrary: s qs n rule: less_induct)
  case less
  obtain r1 q1 s1 where w: "wake_one s (queue_at qs k) = (r1, q1, s1)" by (cases "wake_one s (queue_at qs k)") auto
  note one = wake_one_ok [OF less.prems(1) w]
  show ?case
  proof (cases "\<exists>tid. r1 = Ok (Some tid)")
    case True
    then have len: "length (wq_tasks q1) < length (qs k)"
      using wake_one_shrinks w by (fastforce simp: queue_at_def)
    have q1: "queue_at (qs(k := wq_tasks q1)) k = q1" using one(2) by (cases q1) (simp add: queue_at_def)
    have "wake_all_loop s1 (queue_at (qs(k := wq_tasks q1)) k) (n + 1) = (r, q, s')"
      using less.prems(2) w True q1 by (auto simp: wake_all_loop.simps [of s])
    from less.hyps [OF _ one(1) this] len show ?thesis by simp
  next
    case False
    then have "s' = s1" "q = q1"
      using less.prems(2) w
      by (auto simp: wake_all_loop.simps [of s] split: result.splits option.splits)
    then show ?thesis using one(1) by simp
  qed
qed

lemma cancel_ok:
  assumes inv: "sys_inv (s, qs)" and c: "cancel_wait s tid (queue_at qs k) = (r, q, s')"
  shows "sys_inv (s', qs(k := wq_tasks q))"
proof (cases "s' = s \<and> wq_tasks q = qs k")
  case True
  then show ?thesis using inv by simp
next
  case False
  then obtain t i where t: "task s tid = Some t" "t_state t = Blocked"
      and i: "position (\<lambda>queued. queued = tid) (qs k) = Some i"
      and e: "s' = make_ready s tid" "wq_tasks q = remove_at (qs k) i"
    using c by (auto simp: cancel_wait_def wq_remove_def queue_at_def Let_def
        split: option.splits if_splits)
  have "i < length (qs k)" "qs k ! i = tid" using i by (auto simp: position_Some_iff)
  then have "j \<in> set ((qs(k := remove_at (qs k) i)) m)" if "j \<in> set (qs m)" "j \<noteq> tid" for j m
    using that remove_at_keeps [of j "qs k" i] by (cases "m = k") auto
  then show ?thesis unfolding e by (rule wake_blocked [OF inv t])
qed

lemma spawn_inv:
  assumes inv: "sched_inv s" and lim: "next_task_id s < 2 ^ 64 - 1"
  shows "sched_inv (snd (spawn s stack nm))" "waiting (snd (spawn s stack nm)) i k \<Longrightarrow> waiting s i k"
    "idle (snd (spawn s stack nm)) = idle s"
proof -
  let ?t = "(tcb_new (next_task_id s) stack nm)\<lparr> t_state := Ready \<rparr>"
  have "snd (spawn s stack nm) = join (insert_task (snd (allocate_id s)) ?t) (task_id ?t)"
    by (simp add: spawn_def allocate_id_def tcb_new_def)
  then show "sched_inv (snd (spawn s stack nm))" "idle (snd (spawn s stack nm)) = idle s"
      "waiting (snd (spawn s stack nm)) i k \<Longrightarrow> waiting s i k"
    using spawned_ok [OF inv lim, of ?t] by (simp_all add: tcb_new_def entity_default_def NICE_0_WEIGHT_def)
qed

lemma spawn_kernel_inv:
  assumes inv: "sched_inv s" and lim: "next_task_id s < 2 ^ 64 - 1" and idl: "idl \<longrightarrow> idle s = None"
  shows "sched_inv (snd (spawn_kernel_task ip s ent nm idl storage))"
    "waiting (snd (spawn_kernel_task ip s ent nm idl storage)) i k \<Longrightarrow> waiting s i k"
proof -
  define t where "t = (tcb_new (next_task_id s) (stack_storage_bounds storage) nm)
      \<lparr> t_state := Ready,
        cpu_context := context_ZERO\<lparr> stack_pointer := stack_top (stack_storage_bounds storage) - 8,
          instruction_pointer := ip, r12 := ent \<rparr>,
        resume_kind := Voluntary, stack_storage := Some storage, entry := Some ent, is_idle := idl \<rparr>"
  let ?s1 = "insert_task (snd (allocate_id s)) t"
  have t: "task_id t = next_task_id s" "t_state t = Ready" "block_reason t = None"
      "wait_link t = None" "exit_status t = None" "0 < weight (scheduler_entity t)" "is_idle t = idl"
    by (simp_all add: t_def tcb_new_def entity_default_def NICE_0_WEIGHT_def)
  have eq: "snd (spawn_kernel_task ip s ent nm idl storage) =
      (if idl then ?s1\<lparr> idle := Some (task_id t) \<rparr> else join ?s1 (task_id t))"
    using t(1) by (simp add: spawn_kernel_task_def allocate_id_def Let_def t_def)
  show "sched_inv (snd (spawn_kernel_task ip s ent nm idl storage))"
    "waiting (snd (spawn_kernel_task ip s ent nm idl storage)) i k \<Longrightarrow> waiting s i k"
    unfolding eq using spawned_ok [OF inv lim t(1-6)] spawned_idle_ok [OF inv lim _ t(1-6)] t(7) idl
    by (auto split: if_splits)
qed

lemma preempt_inv:
  assumes inv: "sched_inv s" and p: "preempt s sp now = Some (tid, s')"
  shows "sched_inv s'" "waiting s' = waiting s"
proof -
  define s1 where "s1 = (case current s of None \<Rightarrow> s | Some cur \<Rightarrow> task_mut s cur
      (\<lambda>t. t\<lparr> interrupt_stack_pointer := sp, resume_kind := Interrupt \<rparr>))"
  have q: "quiet (\<lambda>t. t\<lparr> interrupt_stack_pointer := sp, resume_kind := Interrupt \<rparr>)"
    by (simp add: quiet_def)
  have s1: "sched_inv s1" "waiting s1 = waiting s"
    using inv quiet_ok [OF inv q] by (auto simp: s1_def split: option.splits)
  obtain r s2 where r: "schedule s1 now = (Ok r, s2)" "sched_inv s2" "waiting s2 = waiting s1"
    using schedule_ok [OF s1(1), of now] by blast
  have "(case (case current s2 of Some c \<Rightarrow> Some c | None \<Rightarrow> idle s2) of
        None \<Rightarrow> None
      | Some chosen \<Rightarrow> Some (chosen, if Some chosen \<noteq> current s
            then s2\<lparr> stats := (stats s2)\<lparr> timer_preemptions :=
                   saturating_add (timer_preemptions (stats s2)) 1 \<rparr> \<rparr>
            else s2)) = Some (tid, s')"
    using p unfolding preempt_def Let_def s1_def [symmetric] r(1) snd_conv .
  then have "s' = s2 \<or> (\<exists>x. s' = s2\<lparr> stats := x \<rparr>)" by (auto split: option.splits if_splits)
  then show "sched_inv s'" "waiting s' = waiting s" using r s1 by auto
qed

lemma yield_inv:
  assumes inv: "sched_inv s"
  shows "sched_inv (snd (prepare_voluntary_yield s now))"
    "waiting (snd (prepare_voluntary_yield s now)) = waiting s"
proof -
  have "sched_inv (snd (prepare_voluntary_yield s now)) \<and>
      waiting (snd (prepare_voluntary_yield s now)) = waiting s"
  proof (cases "current s")
    case None
    then show ?thesis using inv by (simp add: prepare_voluntary_yield_def)
  next
    case (Some cur)
    then show ?thesis using yield_ok [OF inv Some, of now] by auto
  qed
  then show "sched_inv (snd (prepare_voluntary_yield s now))"
    "waiting (snd (prepare_voluntary_yield s now)) = waiting s" by simp_all
qed

lemma wake_task_inv:
  assumes inv: "sys_inv (s, qs)"
  shows "sys_inv (snd (wake_task s tid), qs)"
  using inv wake_blocked [OF inv, of tid] by (auto simp: wake_task_def split: option.splits)

lemma reap_inv:
  assumes inv: "sys_inv (s, qs)"
  shows "sys_inv (snd (reap_one s), qs)"
proof (cases "exit_queue s")
  case Nil
  then show ?thesis using inv by (simp add: reap_one_def)
next
  case (Cons tid rest)
  have si: "sched_inv s" using inv by (simp add: sys_inv_def)
  obtain t s' where r: "reap_one s = (Ok (Some t), s')" "sched_inv s'" "task s' = (task s)(tid := None)"
    using reap_ok [OF si] Cons by auto
  have "waiting s i k" if "waiting s' i k" for i k
    using that r(3) by (auto simp: waiting_def split: if_splits)
  then show ?thesis using sys_inv_same [OF inv r(2)] r(1) by simp
qed

lemma sys_inv_step: "sched_step x y \<Longrightarrow> sys_inv x \<Longrightarrow> sys_inv y"
proof (induction rule: sched_step.induct)
  case (st_spawn s qs stack nm)
  then show ?case using spawn_inv [of s stack nm] by (auto simp: sys_inv_def)
next
  case (st_spawn_kernel s idl qs ip ent nm storage)
  then show ?case using spawn_kernel_inv [of s idl ip ent nm storage] by (auto simp: sys_inv_def)
next
  case (st_nice s qs tid n)
  then show ?case using set_nice_ok [of s tid n] by (simp add: sys_inv_def)
next
  case (st_space s qs tid a)
  then show ?case using set_address_space_ok [of s tid a] by (simp add: sys_inv_def)
next
  case (st_edit f s qs tid)
  then show ?case using quiet_ok [of s f tid] by (simp add: sys_inv_def)
next
  case (st_tick s qs now)
  then show ?case using tick_ok [of s now] by (simp add: sys_inv_def)
next
  case (st_schedule s qs now)
  then show ?case using schedule_ok [of s now] by (auto simp: sys_inv_def)
next
  case (st_preempt s sp now tid s' qs)
  then show ?case using preempt_inv [of s sp now tid s'] by (simp add: sys_inv_def)
next
  case (st_yield s qs now)
  then show ?case using yield_inv [of s now] by (simp add: sys_inv_def)
next
  case (st_sleep s cur qs d now)
  then show ?case using sleep_ok [of s cur d now] by (auto simp: sys_inv_def)
next
  case (st_expired s qs now)
  then show ?case using wake_expired_loop_ok [of s now 0]
    by (auto simp: sys_inv_def wake_expired_def woken_def)
next
  case (st_block s cur reason qs k now r q s')
  have si: "sched_inv s" using st_block by (simp add: sys_inv_def)
  from block_ok [OF si st_block(1-3), of "queue_at qs k" now] st_block(4)
  have b: "sched_inv s'" "wq_tasks q = qs k @ [cur]"
      "\<forall>i j. waiting s' i j \<longrightarrow> waiting s i j \<or> (i = cur \<and> j = k)"
    by (auto simp: queue_at_def)
  have "i \<in> set ((qs(k := wq_tasks q)) j)" if "waiting s' i j" for i j
    using that b(2,3) st_block(5) by (auto simp: sys_inv_def)
  then show ?case using b(1) by (simp add: sys_inv_def)
next
  case (st_wake_one s qs k r q s')
  then show ?case using wake_one_ok(1) by simp
next
  case (st_wake_all s qs k r q s')
  then show ?case using wake_all_loop_ok by (simp add: wake_all_def)
next
  case (st_wake_task s qs tid)
  then show ?case by (rule wake_task_inv)
next
  case (st_cancel s tid qs k r q s')
  then show ?case using cancel_ok by simp
next
  case (st_exit s cur qs status now)
  then show ?case using exit_ok [of s cur status now] by (auto simp: sys_inv_def)
next
  case (st_reap s qs)
  then show ?case by (rule reap_inv)
qed

interpretation scheduler: safe_system sys_init sched_step sys_inv
  by unfold_locales (auto intro: sys_inv_init sys_inv_step)

end
