(* ===== verification/SchedulerProps.thy ===== *)
theory SchedulerProps
  imports SchedulerSafety
begin

text \<open>
  The properties of the scheduler, over every state its calls reach: the
  queues and sums agree with the tasks, no blocked task is lost, a dispatch
  takes the eligible task with the earliest deadline, an expired sleeper wakes,
  and a task rejoins with the lag it left with.
\<close>

section \<open>Reachable states\<close>

lemma reached_inv: "reaches sys_init sched_step (s, qs) \<Longrightarrow> sched_inv s"
  using scheduler.reaches_inv by (force simp: sys_inv_def)

lemma queue_fits:
  assumes "sched_inv s"
  shows "length (run_queue s) \<le> card (dom (slot_of s))"
proof -
  note ok = sched_invD [OF assms]
  have "set (run_queue s) \<subseteq> dom (task s)"
    using ok(2) by (auto simp: struct_ok_def kd_def)
  then have "card (set (run_queue s)) \<le> card (dom (task s))"
    by (rule card_mono [OF finite_dom_task [OF ok(1)]])
  moreover have "card (set (run_queue s)) = length (run_queue s)"
    using ok(2) by (simp add: struct_ok_def distinct_card)
  ultimately show ?thesis using dom_task [OF ok(1)] by simp
qed

lemma sums_explicit:
  "sums_ok s \<Longrightarrow> sum_weight s =
     (\<Sum>i | is_in_runnable_set s i. int (weight (entity_of s i))) \<and>
   sum_weighted_runtime s =
     (\<Sum>i | is_in_runnable_set s i. int (weight (entity_of s i)) * virtual_runtime (entity_of s i))"
  unfolding sums_ok_def sums_for_def rset_def
  by (auto intro!: sum.cong simp: wt_def vt_def entity_of_def is_in_runnable_set_def split: option.splits)

text \<open>
  C11. In every state the scheduler reaches, the run queue lists exactly the ready
  tasks other than the idle task, each once, and never more than the tasks its
  capacity was reserved for; exactly the current task is running; the exit queue
  lists exactly the exited tasks; and the two sums behind the average virtual
  time are those of the tasks that are ready or running.
\<close>

theorem sched_reachable_inv:
  assumes "reaches sys_init sched_step (s, qs)"
  shows "distinct (run_queue s) \<and> length (run_queue s) \<le> card (dom (slot_of s)) \<and>
    (\<forall>tid. tid \<in> set (run_queue s) \<longleftrightarrow>
       (\<exists>t. task s tid = Some t \<and> t_state t = Ready \<and> \<not> is_idle t)) \<and>
    (\<forall>tid. current s = Some tid \<longleftrightarrow> (\<exists>t. task s tid = Some t \<and> t_state t = Running)) \<and>
    (\<forall>tid. tid \<in> set (exit_queue s) \<longleftrightarrow> (\<exists>t. task s tid = Some t \<and> t_state t = Exited)) \<and>
    sum_weight s = (\<Sum>i | is_in_runnable_set s i. int (weight (entity_of s i))) \<and>
    sum_weighted_runtime s =
      (\<Sum>i | is_in_runnable_set s i. int (weight (entity_of s i)) * virtual_runtime (entity_of s i))"
proof -
  have inv: "sched_inv s" by (rule reached_inv [OF assms])
  note ok = sched_invD [OF inv]
  have "distinct (run_queue s)" using ok(2) by (simp add: struct_ok_def)
  moreover have "tid \<in> set (run_queue s) \<longleftrightarrow> (\<exists>t. task s tid = Some t \<and> t_state t = Ready \<and> \<not> is_idle t)" for tid
  proof -
    have "tid \<in> set (run_queue s) \<longleftrightarrow> kd s tid = Some (Ready, False)" using ok(2) unfolding struct_ok_def by blast
    then show ?thesis by (auto simp: kd_def)
  qed
  moreover have "current s = Some tid \<longleftrightarrow> (\<exists>t. task s tid = Some t \<and> t_state t = Running)" for tid
  proof -
    have "current s = Some tid \<longleftrightarrow> (\<exists>b. kd s tid = Some (Running, b))" using ok(2) unfolding struct_ok_def by blast
    then show ?thesis by (auto simp: kd_def)
  qed
  moreover have "tid \<in> set (exit_queue s) \<longleftrightarrow> (\<exists>t. task s tid = Some t \<and> t_state t = Exited)" for tid
  proof -
    have "tid \<in> set (exit_queue s) \<longleftrightarrow> (\<exists>r. lk s tid = Some (Exited, r))" using ok(4) unfolding links_ok_def by blast
    then show ?thesis by (auto simp: lk_def)
  qed
  ultimately show ?thesis using queue_fits [OF inv] sums_explicit [OF ok(3)] by blast
qed

text \<open>A concrete run: two tasks, the first runs, sleeps until tick 5, the second runs.\<close>

definition demo_stack :: KernelStack where
  "demo_stack = \<lparr> stack_base = 4096, stack_top = 8192 \<rparr>"

definition demo2 :: Scheduler where
  "demo2 = snd (spawn (snd (spawn (with_policy Eevdf) demo_stack ''a'')) demo_stack ''b'')"

definition demo_run :: Scheduler where
  "demo_run = snd (schedule demo2 0)"

definition demo_sleep :: Scheduler where
  "demo_sleep = snd (sleep_current_until demo_run 5 1000000)"

lemmas demo_eval = demo2_def spawn_def allocate_id_def insert_task_def join_def with_policy_def
  scheduler_new_def tcb_new_def task_def task_mut_def add_sums_def refresh_average_def
  place_entity_def entity_default_def NICE_0_WEIGHT_def weighted_slice_def BASE_SLICE_NS_def
  saturating_add_def Let_def signed_divide_int_def

lemma demo2_run: "next_task_id demo2 = 3 \<and> run_queue demo2 = [1, 2] \<and> current demo2 = None"
  by (simp add: demo_eval)

lemmas dispatch_eval = demo_eval schedule_def requeue_current_def switch_to_next_def pick_next_def
  swap_remove_def key_less_def better_def pick_key_def is_eligible_def finish_switch_def
  bump_switches_def transition_def

lemmas sleep_eval = dispatch_eval demo_run_def sleep_current_until_def stop_current_def charge_def
  leave_def entity_mut_def account_def virtual_delta_def clamp_int_def insert_sleeper_def
  LAG_LIMIT_def sleep_greater_def

lemma demo_run_at: "current demo_run = Some 1 \<and> idle demo_run = None"
  by (simp add: demo_run_def dispatch_eval)

lemma demo_sleep_at: "current demo_sleep = Some 2 \<and> sum_weight demo_sleep = 1024"
  by (simp add: demo_sleep_def sleep_eval)

lemma demo_reached:
  "reaches sys_init sched_step (demo2, \<lambda>_. [])" "reaches sys_init sched_step (demo_run, \<lambda>_. [])"
  "reaches sys_init sched_step (demo_sleep, \<lambda>_. [])"
proof -
  let ?q = "\<lambda>_. [] :: TaskId list"
  have 0: "reaches sys_init sched_step (with_policy Eevdf, ?q)"
    by (rule reaches.start) (auto simp: sys_init_def)
  let ?s1 = "snd (spawn (with_policy Eevdf) demo_stack ''a'')"
  have 1: "reaches sys_init sched_step (?s1, ?q)"
    by (rule reaches.step [OF 0 st_spawn]) (simp add: with_policy_def scheduler_new_def)
  show 2: "reaches sys_init sched_step (demo2, ?q)"
    unfolding demo2_def by (rule reaches.step [OF 1 st_spawn]) (simp add: demo_eval)
  show 3: "reaches sys_init sched_step (demo_run, ?q)"
    unfolding demo_run_def by (rule reaches.step [OF 2 st_schedule])
  show "reaches sys_init sched_step (demo_sleep, ?q)"
    unfolding demo_sleep_def by (rule reaches.step [OF 3 st_sleep]) (use demo_run_at in simp_all)
qed

theorem sched_reachable_inv_witness:
  "run_queue demo2 = [1, 2] \<and> length (run_queue demo2) \<le> card (dom (slot_of demo2))"
  using sched_reachable_inv [OF demo_reached(1)] demo2_run by blast

section \<open>No task is lost\<close>

text \<open>
  C12. In every state the scheduler and the wait queues of its clients reach, a
  blocked task can still be woken: it sleeps and has its entry among the
  sleepers, or it is linked to a wait queue that still lists it. This holds
  whatever was woken, cancelled, timed out or exited in between.
\<close>

theorem no_task_lost:
  assumes "reaches sys_init sched_step (s, qs)" "task s tid = Some t" "t_state t = Blocked"
  shows "(\<exists>d. block_reason t = Some (SleepUntil d) \<and> (d, tid) \<in> set (sleepers s)) \<or>
    (\<exists>k. wait_link t = Some k \<and> tid \<in> set (qs k))"
proof -
  have inv: "sys_inv (s, qs)" by (rule scheduler.reaches_inv [OF assms(1)])
  then have si: "sched_inv s" by (simp add: sys_inv_def)
  have l: "lk s tid = Some (t_state t, block_reason t, wait_link t, exit_status t)"
    using assms(2) by (simp add: lk_def)
  note p = links_parts [OF sched_invD(4) [OF si] l]
  have "waiting s tid k \<longrightarrow> tid \<in> set (qs k)" for k using inv by (simp add: sys_inv_def)
  then show ?thesis using p(4,5) assms(2,3) unfolding waiting_def by blast
qed

theorem no_task_lost_witness:
  "\<exists>t. task demo_sleep 1 = Some t \<and> t_state t = Blocked \<and>
     ((\<exists>d. block_reason t = Some (SleepUntil d) \<and> (d, 1) \<in> set (sleepers demo_sleep)) \<or>
      (\<exists>k. wait_link t = Some k \<and> 1 \<in> set (([] :: TaskId list))))"
proof -
  obtain t where t: "task demo_sleep 1 = Some t" "t_state t = Blocked"
    by (simp add: demo_sleep_def sleep_eval)
  show ?thesis using t no_task_lost [OF demo_reached(3) t] by simp
qed

section \<open>The dispatched task\<close>

text \<open>
  C13. Rescheduling never fails. With the running task charged and back in the
  queue, it dispatches the idle task only when no task is ready, and otherwise a
  ready task: under EEVDF one that has not run ahead of the average virtual time
  (there always is one, so the fallback by least virtual runtime is never
  needed) and whose deadline, ties broken by id, is the earliest among those;
  under the other policies one that has waited longest.
\<close>

theorem schedule_dispatches:
  assumes "reaches sys_init sched_step (s, qs)"
  shows "\<exists>r s'. schedule s now = (Ok r, s') \<and> current s' = r \<and>
    (let m = requeued s now in
     if run_queue m = [] then r = idle s
     else \<exists>tid t. r = Some tid \<and> tid \<in> set (run_queue m) \<and> task m tid = Some t \<and>
       (policy m = Eevdf \<longrightarrow> virtual_runtime (scheduler_entity t) \<le> average m) \<and>
       (\<forall>tid' \<in> set (run_queue m). \<forall>t'. task m tid' = Some t' \<longrightarrow>
          (policy m = Eevdf \<longrightarrow> virtual_runtime (scheduler_entity t') \<le> average m) \<longrightarrow>
          \<not> key_less (pick_key (policy m) (scheduler_entity t') tid')
              (pick_key (policy m) (scheduler_entity t) tid)))"
proof -
  let ?m = "requeued s now"
  obtain r s' where r: "schedule s now = (Ok r, s')" "current s' = r" "idle s' = idle s"
      and d: "dispatch_ok ?m r now s'"
    using schedule_ok [OF reached_inv [OF assms], of now] by blast
  show ?thesis
  proof (cases "run_queue ?m = []")
    case True
    then have "r = idle ?m" using d by (cases r) (simp_all add: dispatch_ok_def)
    then show ?thesis using r d True by (simp add: dispatch_ok_def Let_def)
  next
    case False
    then obtain tid t where tid: "r = Some tid" "task ?m tid = Some t" "picks ?m tid"
      using d by (cases r) (auto simp: dispatch_ok_def)
    then have "tid \<in> set (run_queue ?m)"
        "policy ?m = Eevdf \<longrightarrow> virtual_runtime (scheduler_entity t) \<le> average ?m"
      by (auto simp: picks_def eligible_def is_eligible_def entity_of_def)
    moreover have "\<not> key_less (pick_key (policy ?m) (scheduler_entity t') tid')
        (pick_key (policy ?m) (scheduler_entity t) tid)"
      if "tid' \<in> set (run_queue ?m)" "task ?m tid' = Some t'"
        "policy ?m = Eevdf \<longrightarrow> virtual_runtime (scheduler_entity t') \<le> average ?m" for tid' t'
      using tid that unfolding picks_def eligible_def is_eligible_def key_of_def entity_of_def by auto
    ultimately show ?thesis using r(1,2) tid False unfolding Let_def by auto
  qed
qed

theorem schedule_dispatches_witness: "\<exists>r s'. schedule demo2 0 = (Ok r, s') \<and> current s' = r"
  using schedule_dispatches [OF demo_reached(1), of 0] by blast

section \<open>Expired sleepers\<close>

text \<open>
  Waking the expired sleepers at a tick makes every task that sleeps until
  that tick or earlier ready, returns how many there were, and changes the state
  and the links of no other task.
\<close>

theorem wake_expired_wakes:
  assumes "reaches sys_init sched_step (s, qs)" "wake_expired s now = (n, s')"
  shows "n = card {tid. \<exists>d \<le> now. sleeping s tid d} \<and>
    (\<forall>tid t. task s tid = Some t \<longrightarrow> (\<exists>t'. task s' tid = Some t' \<and>
       (if \<exists>d \<le> now. sleeping s tid d then t_state t' = Ready \<and> block_reason t' = None
        else t_state t' = t_state t \<and> block_reason t' = block_reason t \<and> wait_link t' = wait_link t)))"
proof -
  obtain m where m: "wake_expired s now = (m, s')" "woken s now m s'"
    using wake_expired_loop_ok [OF reached_inv [OF assms(1)], of now 0] assms(2)
    by (auto simp: wake_expired_def)
  have n: "n = card (expired s now)" using m assms(2) by (simp add: woken_def)
  have "\<exists>t'. task s' tid = Some t' \<and>
       (if tid \<in> expired s now then t_state t' = Ready \<and> block_reason t' = None
        else t_state t' = t_state t \<and> block_reason t' = block_reason t \<and> wait_link t' = wait_link t)"
    if "task s tid = Some t" for tid t
  proof -
    have "lk s' tid = (if tid \<in> expired s now then Some (Ready, None, None, None) else lk s tid)"
      using m(2) by (simp add: woken_def)
    then show ?thesis using that by (auto simp: lk_def split: if_splits)
  qed
  then show ?thesis using n by (simp add: expired_def)
qed

theorem wake_expired_wakes_witness:
  "fst (wake_expired demo_sleep 5) = card {tid. \<exists>d \<le> 5. sleeping demo_sleep tid d}"
  using wake_expired_wakes [OF demo_reached(3), of 5 "fst (wake_expired demo_sleep 5)"
      "snd (wake_expired demo_sleep 5)"] by simp

section \<open>Lag\<close>

lemma sdiv_rem: "0 < w \<Longrightarrow> \<bar>x - w * (x sdiv w)\<bar> < w" for x w :: int
proof -
  assume w: "0 < w"
  have a: "0 \<le> y - w * (y div w)" "y - w * (y div w) < w" for y
    using w by (simp_all add: minus_mult_div_eq_mod)
  show ?thesis
  proof (cases "0 \<le> x")
    case True
    then have "x sdiv w = x div w" using w by (cases "x = 0") (auto simp: signed_divide_int_def)
    then show ?thesis using a [of x] by simp
  next
    case False
    then have "x sdiv w = - ((- x) div w)" using w by (simp add: signed_divide_int_def)
    then show ?thesis using a [of "- x"] by simp
  qed
qed

lemma join_lag:
  fixes S W w l :: int
  assumes "0 < W" "0 < w" and a: "a = S sdiv W" and p: "p = (l * (W + w)) sdiv W" and v: "v = a - p"
  shows "\<bar>(S + w * v) sdiv (W + w) - v - l\<bar> \<le> 2"
proof -
  define V where "V = (S + w * v) sdiv (W + w)"
  have 1: "\<bar>S - W * a\<bar> < W" using sdiv_rem [OF assms(1)] a by simp
  have 2: "\<bar>l * (W + w) - W * p\<bar> < W" using sdiv_rem [OF assms(1)] p by simp
  have "0 < W + w" using assms by simp
  from sdiv_rem [OF this, of "S + w * v"] have 3: "\<bar>(S + w * v) - (W + w) * V\<bar> < W + w" by (simp add: V_def)
  have "(W + w) * (V - v - l) =
      ((W + w) * V - (S + w * v)) + (S - W * a) + (W * p - l * (W + w))"
    unfolding v by (simp add: algebra_simps)
  moreover have "\<bar>z + x + y\<bar> < (W + w) * 3"
    if "\<bar>x\<bar> < W" "\<bar>- y\<bar> < W" "\<bar>- z\<bar> < W + w" for x y z :: int
    using that assms(2) unfolding abs_less_iff by (simp add: distrib_right)
  note this [of "S - W * a" "W * p - l * (W + w)" "(W + w) * V - (S + w * v)"]
  ultimately have "\<bar>(W + w) * (V - v - l)\<bar> < (W + w) * 3" using 1 2 3 by simp
  then have "(W + w) * \<bar>V - v - l\<bar> < (W + w) * 3" using \<open>0 < W + w\<close> by (simp add: abs_mult)
  then have "\<bar>V - v - l\<bar> < 3" using \<open>0 < W + w\<close> by (simp only: mult_less_cancel_left_pos)
  then show ?thesis by (simp add: V_def)
qed

text \<open>
  C33. A task that is woken while others are runnable rejoins with the lag it left
  with: after it is placed, the average virtual time is ahead of its virtual
  runtime by the saved lag, up to two units of rounding, although inserting it
  moves the average itself.
\<close>

theorem wake_keeps_lag:
  assumes "reaches sys_init sched_step (s, qs)" "task s tid = Some t" "t_state t = Blocked"
    "0 < sum_weight s"
  shows "\<exists>t'. task (make_ready s tid) tid = Some t' \<and>
    \<bar>average (make_ready s tid) - virtual_runtime (scheduler_entity t') - lag (scheduler_entity t)\<bar> \<le> 2"
proof -
  have inv: "sched_inv s" by (rule reached_inv [OF assms(1)])
  note ok = sched_invD [OF inv]
  let ?f = "\<lambda>t. (case transition t Ready of Ok t' \<Rightarrow> t' | Err _ \<Rightarrow> t)
      \<lparr> block_reason := None, wait_link := None \<rparr>"
  let ?s1 = "task_mut s tid ?f"
  let ?t1 = "t\<lparr> t_state := Ready, block_reason := None, wait_link := None \<rparr>"
  let ?e = "scheduler_entity t"
  have f: "?f t = ?t1" "\<And>t. task_id (?f t) = task_id t" using assms(3) by (auto simp: transition_def)
  have s1: "slots_ok ?s1" by (rule slots_task_mut [OF ok(1) f(2)])
  have t1: "task ?s1 tid = Some ?t1" using assms(2) f(1) by (simp add: task_task_mut [OF ok(1)])
  obtain b where j: "join ?s1 tid = (add_sums (task_mut ?s1 tid
        (\<lambda>u. u\<lparr> scheduler_entity := scheduler_entity (joined ?s1 ?t1) \<rparr>)) (int (weight ?e))
        (int (weight ?e) * virtual_runtime (scheduler_entity (joined ?s1 ?t1))))
      \<lparr> run_queue := run_queue ?s1 @ [tid], wakeup_preempt := b \<rparr>"
    using join_shape [OF t1] by auto
  define v where "v = virtual_runtime (scheduler_entity (joined ?s1 ?t1))"
  have w: "0 < int (weight ?e)" using ok(3) assms(2) sums_pos unfolding sums_ok_def by fastforce
  have avg: "average s = sum_weighted_runtime s sdiv sum_weight s"
    using ok(3) assms(4) by (simp add: sums_ok_def sums_for_def)
  have v: "v = average s - (lag ?e * (sum_weight s + int (weight ?e))) sdiv sum_weight s"
    using assms(4) by (simp add: v_def joined_def place_entity_def Let_def)
  have "average (make_ready s tid) =
      (sum_weighted_runtime s + int (weight ?e) * v) sdiv (sum_weight s + int (weight ?e))"
    using j w assms(4) by (simp add: make_ready_def Let_def v_def)
  moreover have "task (make_ready s tid) tid = Some (joined ?s1 ?t1)"
    using task_join [OF s1 t1] by (simp add: make_ready_def Let_def)
  ultimately show ?thesis using join_lag [OF assms(4) w avg refl v] v_def by auto
qed

theorem wake_keeps_lag_witness:
  "\<exists>t t'. task demo_sleep 1 = Some t \<and> task (make_ready demo_sleep 1) 1 = Some t' \<and>
    \<bar>average (make_ready demo_sleep 1) - virtual_runtime (scheduler_entity t')
       - lag (scheduler_entity t)\<bar> \<le> 2"
proof -
  obtain t where t: "task demo_sleep 1 = Some t" "t_state t = Blocked"
    by (simp add: demo_sleep_def sleep_eval)
  show ?thesis using t wake_keeps_lag [OF demo_reached(3) t] demo_sleep_at by simp
qed

end
