(* ===== verification/Process.thy ===== *)
theory Process
  imports Task Scheduler
begin

text \<open>
  The process table (\<open>kernel/src/process.rs\<close>): processes with their parents,
  children, threads, waiters and references, and the address spaces of reaped
  processes waiting to be freed. The table of open files of a process is a
  parameter type; a new process gets the given empty table.
\<close>

section \<open>State\<close>

definition INIT_PID :: ProcessId where "INIT_PID = 1"

datatype ProcessError =
    UnknownProcess | DuplicateThread | AlreadyExited | NotExited | DuplicateWaiter | UnknownWaiter

record 'f ProcessControlBlock =
  pid :: ProcessId
  parent :: "ProcessId option"
  p_space :: "AddressSpaceId option"
  children :: "ProcessId list"
  p_exit_status :: "ExitStatus option"
  threads :: "TaskId list"
  child_waiters :: "TaskId list"
  references :: nat
  files :: 'f
  cwd :: string

definition pcb_new ::
    "'f \<Rightarrow> ProcessId \<Rightarrow> ProcessId option \<Rightarrow> AddressSpaceId option \<Rightarrow> TaskId \<Rightarrow> 'f ProcessControlBlock" where
  "pcb_new ft p par space thread =
     \<lparr> pid = p, parent = par, p_space = space, children = [], p_exit_status = None,
       threads = [thread], child_waiters = [], references = 0, files = ft, cwd = ''/'' \<rparr>"

record 'f ProcessTable =
  processes :: "'f ProcessControlBlock list"
  next_id :: nat
  released_spaces :: "AddressSpaceId list"

definition table_new :: "'f ProcessTable" where
  "table_new = \<lparr> processes = [], next_id = 2, released_spaces = [] \<rparr>"

definition process :: "'f ProcessTable \<Rightarrow> ProcessId \<Rightarrow> 'f ProcessControlBlock option" where
  "process T p = List.find (\<lambda>q. pid q = p) (processes T)"

fun update_first ::
    "('a \<Rightarrow> bool) \<Rightarrow> ('a \<Rightarrow> 'a) \<Rightarrow> 'a list \<Rightarrow> 'a list" where
  "update_first c f [] = []"
| "update_first c f (x # xs) = (if c x then f x # xs else x # update_first c f xs)"

definition process_mut ::
    "'f ProcessTable \<Rightarrow> ProcessId \<Rightarrow> ('f ProcessControlBlock \<Rightarrow> 'f ProcessControlBlock)
       \<Rightarrow> 'f ProcessTable" where
  "process_mut T p f = T\<lparr> processes := update_first (\<lambda>q. pid q = p) f (processes T) \<rparr>"

section \<open>Creation\<close>

definition create ::
    "'f \<Rightarrow> 'f ProcessTable \<Rightarrow> AddressSpaceId option \<Rightarrow> TaskId \<Rightarrow> ProcessId \<times> 'f ProcessTable" where
  "create ft T space thread =
     (let p = next_id T in
      (p, T\<lparr> next_id := saturating_add (next_id T) 1,
             processes := processes T @ [pcb_new ft p None space thread] \<rparr>))"

definition create_init ::
    "'f \<Rightarrow> 'f ProcessTable \<Rightarrow> TaskId \<Rightarrow> (ProcessId, ProcessError) result \<times> 'f ProcessTable" where
  "create_init ft T thread =
     (if process T INIT_PID \<noteq> None then (Err DuplicateThread, T)
      else (Ok INIT_PID,
            T\<lparr> processes := processes T @ [pcb_new ft INIT_PID None None thread] \<rparr>))"

definition create_child ::
    "'f \<Rightarrow> 'f ProcessTable \<Rightarrow> ProcessId \<Rightarrow> AddressSpaceId option \<Rightarrow> TaskId
       \<Rightarrow> (ProcessId, ProcessError) result \<times> 'f ProcessTable" where
  "create_child ft T par space thread =
     (if process T par = None then (Err UnknownProcess, T)
      else
        let (child, T1) = create ft T space thread;
            T2 = process_mut T1 child (\<lambda>q. q\<lparr> parent := Some par \<rparr>) in
        if process T2 par = None then (Err UnknownProcess, T2)
        else (Ok child, process_mut T2 par (\<lambda>q. q\<lparr> children := children q @ [child] \<rparr>)))"

section \<open>Changes of one process\<close>

definition add_child ::
    "'f ProcessTable \<Rightarrow> ProcessId \<Rightarrow> ProcessId \<Rightarrow> (unit, ProcessError) result \<times> 'f ProcessTable" where
  "add_child T par child =
     (if process T par = None then (Err UnknownProcess, T)
      else (Ok (), process_mut T par (\<lambda>q. q\<lparr> children := children q @ [child] \<rparr>)))"

definition set_process_space ::
    "'f ProcessTable \<Rightarrow> ProcessId \<Rightarrow> AddressSpaceId option
       \<Rightarrow> (unit, ProcessError) result \<times> 'f ProcessTable" where
  "set_process_space T p space =
     (if process T p = None then (Err UnknownProcess, T)
      else (Ok (), process_mut T p (\<lambda>q. q\<lparr> p_space := space \<rparr>)))"

definition add_thread ::
    "'f ProcessTable \<Rightarrow> ProcessId \<Rightarrow> TaskId \<Rightarrow> (unit, ProcessError) result \<times> 'f ProcessTable" where
  "add_thread T p thread =
     (case process T p of
        None \<Rightarrow> (Err UnknownProcess, T)
      | Some q \<Rightarrow>
          if thread \<in> set (threads q) then (Err DuplicateThread, T)
          else (Ok (), process_mut T p (\<lambda>q. q\<lparr> threads := threads q @ [thread] \<rparr>)))"

definition process_exit ::
    "'f ProcessTable \<Rightarrow> ProcessId \<Rightarrow> ExitStatus \<Rightarrow> (unit, ProcessError) result \<times> 'f ProcessTable" where
  "process_exit T p status =
     (case process T p of
        None \<Rightarrow> (Err UnknownProcess, T)
      | Some q \<Rightarrow>
          if p_exit_status q \<noteq> None then (Err AlreadyExited, T)
          else (Ok (), process_mut T p (\<lambda>q. q\<lparr> p_exit_status := Some status \<rparr>)))"

definition remove_thread ::
    "'f ProcessTable \<Rightarrow> ProcessId \<Rightarrow> TaskId \<Rightarrow> (bool, ProcessError) result \<times> 'f ProcessTable" where
  "remove_thread T p thread =
     (case process T p of
        None \<Rightarrow> (Err UnknownProcess, T)
      | Some q \<Rightarrow>
          (case position (\<lambda>x. x = thread) (threads q) of
             None \<Rightarrow> (Err UnknownProcess, T)
           | Some i \<Rightarrow>
               (Ok (swap_remove (threads q) i = []),
                process_mut T p (\<lambda>q. q\<lparr> threads := swap_remove (threads q) i \<rparr>))))"

definition retain ::
    "'f ProcessTable \<Rightarrow> ProcessId \<Rightarrow> (unit, ProcessError) result \<times> 'f ProcessTable" where
  "retain T p =
     (if process T p = None then (Err UnknownProcess, T)
      else (Ok (), process_mut T p (\<lambda>q. q\<lparr> references := saturating_add (references q) 1 \<rparr>)))"

definition process_release ::
    "'f ProcessTable \<Rightarrow> ProcessId \<Rightarrow> (unit, ProcessError) result \<times> 'f ProcessTable" where
  "process_release T p =
     (case process T p of
        None \<Rightarrow> (Err UnknownProcess, T)
      | Some q \<Rightarrow>
          if references q = 0 then (Err UnknownProcess, T)
          else (Ok (), process_mut T p (\<lambda>q. q\<lparr> references := references q - 1 \<rparr>)))"

definition add_child_waiter ::
    "'f ProcessTable \<Rightarrow> ProcessId \<Rightarrow> TaskId \<Rightarrow> (unit, ProcessError) result \<times> 'f ProcessTable" where
  "add_child_waiter T child waiter =
     (case process T child of
        None \<Rightarrow> (Err UnknownProcess, T)
      | Some q \<Rightarrow>
          if waiter \<in> set (child_waiters q) then (Err DuplicateWaiter, T)
          else (Ok (), process_mut T child (\<lambda>q. q\<lparr> child_waiters := child_waiters q @ [waiter] \<rparr>)))"

definition remove_child_waiter ::
    "'f ProcessTable \<Rightarrow> ProcessId \<Rightarrow> TaskId \<Rightarrow> (unit, ProcessError) result \<times> 'f ProcessTable" where
  "remove_child_waiter T child waiter =
     (case process T child of
        None \<Rightarrow> (Err UnknownProcess, T)
      | Some q \<Rightarrow>
          (case position (\<lambda>x. x = waiter) (child_waiters q) of
             None \<Rightarrow> (Err UnknownWaiter, T)
           | Some i \<Rightarrow>
               (Ok (), process_mut T child
                  (\<lambda>q. q\<lparr> child_waiters := swap_remove (child_waiters q) i \<rparr>))))"

section \<open>Collecting\<close>

definition can_reap :: "'f ProcessControlBlock \<Rightarrow> bool" where
  "can_reap q \<longleftrightarrow> parent q = None \<and> threads q = [] \<and> p_exit_status q \<noteq> None \<and>
     references q = 0 \<and> child_waiters q = []"

definition forget_child :: "ProcessId \<Rightarrow> 'f ProcessControlBlock \<Rightarrow> 'f ProcessControlBlock" where
  "forget_child p q = q\<lparr> children := filter (\<lambda>c. c \<noteq> p) (children q) \<rparr>"

definition reap_if_empty :: "'f ProcessTable \<Rightarrow> ProcessId \<Rightarrow> bool \<times> 'f ProcessTable" where
  "reap_if_empty T p =
     (case process T p of
        None \<Rightarrow> (False, T)
      | Some q \<Rightarrow>
          if \<not> can_reap q then (False, T)
          else
            (case position (\<lambda>r. pid r = p) (processes T) of
               None \<Rightarrow> (False, T)
             | Some i \<Rightarrow>
                 let record = processes T ! i;
                     released = (case p_space record of
                        Some space \<Rightarrow> released_spaces T @ [space]
                      | None \<Rightarrow> released_spaces T) in
                 (True, T\<lparr> processes := map (forget_child p) (swap_remove (processes T) i),
                           released_spaces := released \<rparr>)))"

definition wait_child ::
    "'f ProcessTable \<Rightarrow> ProcessId \<Rightarrow> ProcessId \<Rightarrow> (ExitStatus, ProcessError) result \<times> 'f ProcessTable" where
  "wait_child T par child =
     (case process T child of
        None \<Rightarrow> (Err UnknownProcess, T)
      | Some q \<Rightarrow>
          if parent q \<noteq> Some par \<or> threads q \<noteq> [] then (Err UnknownProcess, T)
          else
            (case p_exit_status q of
               None \<Rightarrow> (Err NotExited, T)
             | Some status \<Rightarrow>
                 if process T par = None then (Err UnknownProcess, T)
                 else
                   let T1 = process_mut T par (forget_child child) in
                   if process T1 child = None then (Err UnknownProcess, T1)
                   else
                     let T2 = process_mut T1 child (\<lambda>q. q\<lparr> parent := None \<rparr>) in
                     (Ok status, snd (reap_if_empty T2 child))))"

definition ready_to_wait :: "'f ProcessTable \<Rightarrow> ProcessId \<Rightarrow> bool" where
  "ready_to_wait T child =
     (case process T child of None \<Rightarrow> False
      | Some q \<Rightarrow> p_exit_status q \<noteq> None \<and> threads q = [])"

definition exited_child :: "'f ProcessTable \<Rightarrow> ProcessId \<Rightarrow> ProcessId option" where
  "exited_child T par =
     (case process T par of None \<Rightarrow> None
      | Some q \<Rightarrow> List.find (ready_to_wait T) (children q))"

definition has_children :: "'f ProcessTable \<Rightarrow> ProcessId \<Rightarrow> bool" where
  "has_children T par =
     (case process T par of None \<Rightarrow> False | Some q \<Rightarrow> children q \<noteq> [])"

definition adopt :: "ProcessId \<Rightarrow> 'f ProcessTable \<Rightarrow> ProcessId list \<Rightarrow> 'f ProcessTable" where
  "adopt new_parent T cs =
     foldl (\<lambda>T c. process_mut T c (\<lambda>q. q\<lparr> parent := Some new_parent \<rparr>)) T cs"

definition reparent_children :: "'f ProcessTable \<Rightarrow> ProcessId \<Rightarrow> ProcessId \<Rightarrow> 'f ProcessTable" where
  "reparent_children T p new_parent =
     (if p = new_parent then T
      else
        (case process T p of
           None \<Rightarrow> T
         | Some q \<Rightarrow>
             let cs = children q;
                 T1 = process_mut T p (\<lambda>q. q\<lparr> children := [] \<rparr>);
                 T2 = adopt new_parent T1 cs in
             process_mut T2 new_parent (\<lambda>q. q\<lparr> children := children q @ cs \<rparr>)))"

definition take_released_spaces :: "'f ProcessTable \<Rightarrow> AddressSpaceId list \<times> 'f ProcessTable" where
  "take_released_spaces T = (released_spaces T, T\<lparr> released_spaces := [] \<rparr>)"

end
