(* ===== verification/ProcessSpec.thy ===== *)
theory ProcessSpec
  imports Process SchedulerOps
begin

text \<open>
  The process table keeps a family tree: every child is listed exactly by its
  parent, the children of an exiting process go to init, an exited child is
  found by its parent's wait, and every address space is handed back exactly
  once.
\<close>

section \<open>Lookup\<close>

definition ids_ok :: "'f ProcessTable \<Rightarrow> bool" where
  "ids_ok T \<longleftrightarrow> distinct (map pid (processes T)) \<and> 2 \<le> next_id T \<and>
     (\<forall>q \<in> set (processes T). pid q < next_id T)"

lemma find_pid:
  "distinct (map pid qs) \<Longrightarrow> List.find (\<lambda>q. pid q = p) qs = Some q \<longleftrightarrow> q \<in> set qs \<and> pid q = p"
  by (induction qs) (auto simp: image_iff)

lemma process_Some_iff:
  "ids_ok T \<Longrightarrow> process T p = Some q \<longleftrightarrow> q \<in> set (processes T) \<and> pid q = p"
  by (simp add: process_def ids_ok_def find_pid)

lemma process_None_iff: "process T p = None \<longleftrightarrow> p \<notin> pid ` set (processes T)"
  by (auto simp: process_def find_None_mem)

lemma process_pid: "process T p = Some q \<Longrightarrow> pid q = p"
  using find_Some_mem by (fastforce simp: process_def)

lemma update_first_find:
  "(\<And>q. pid (f q) = pid q) \<Longrightarrow>
   List.find (\<lambda>q. pid q = x) (update_first (\<lambda>q. pid q = p) f qs) =
     (if x = p then map_option f (List.find (\<lambda>q. pid q = x) qs) else List.find (\<lambda>q. pid q = x) qs)"
  by (induction qs) auto

lemma process_process_mut:
  "(\<And>q. pid (f q) = pid q) \<Longrightarrow>
   process (process_mut T p f) = (process T)(p := map_option f (process T p))"
  by (auto simp: process_def process_mut_def update_first_find fun_eq_iff)

lemma update_first_pids: "(\<And>q. pid (f q) = pid q) \<Longrightarrow> map pid (update_first c f qs) = map pid qs"
  by (induction qs) auto

lemma process_mut_fields [simp]:
  "next_id (process_mut T p f) = next_id T" "released_spaces (process_mut T p f) = released_spaces T"
  by (simp_all add: process_mut_def)

lemma ids_ok_pids:
  "ids_ok T \<longleftrightarrow> distinct (map pid (processes T)) \<and> 2 \<le> next_id T \<and>
     (\<forall>p \<in> set (map pid (processes T)). p < next_id T)"
  by (auto simp: ids_ok_def)

lemma ids_process_mut: "(\<And>q. pid (f q) = pid q) \<Longrightarrow> ids_ok (process_mut T p f) = ids_ok T"
  by (simp add: ids_ok_pids process_mut_def update_first_pids)

section \<open>The family tree\<close>

type_synonym 'f procs = "ProcessId \<rightharpoonup> 'f ProcessControlBlock"

definition lists_child :: "'f procs \<Rightarrow> ProcessId \<Rightarrow> ProcessId \<Rightarrow> bool" where
  "lists_child P p c \<longleftrightarrow> (\<exists>q. P p = Some q \<and> c \<in> set (children q))"

definition has_parent :: "'f procs \<Rightarrow> ProcessId \<Rightarrow> ProcessId \<Rightarrow> bool" where
  "has_parent P c p \<longleftrightarrow> (\<exists>r. P c = Some r \<and> parent r = Some p)"

definition tree_ok :: "'f procs \<Rightarrow> bool" where
  "tree_ok P \<longleftrightarrow>
     (\<forall>p c. lists_child P p c \<longleftrightarrow> has_parent P c p) \<and>
     (\<forall>p q. P p = Some q \<longrightarrow> distinct (children q) \<and> (p_exit_status q \<noteq> None \<longrightarrow> children q = []))"

definition owns :: "'f procs \<Rightarrow> ProcessId \<Rightarrow> AddressSpaceId \<Rightarrow> bool" where
  "owns P p sp \<longleftrightarrow> (\<exists>q. P p = Some q \<and> p_space q = Some sp)"

definition spaces_ok :: "'f procs \<Rightarrow> AddressSpaceId list \<Rightarrow> bool" where
  "spaces_ok P freed \<longleftrightarrow> distinct freed \<and> (\<forall>p sp. owns P p sp \<longrightarrow> sp \<notin> set freed) \<and>
     (\<forall>p p' sp. owns P p sp \<longrightarrow> owns P p' sp \<longrightarrow> p' = p)"

definition space_in_use :: "'f procs \<Rightarrow> AddressSpaceId list \<Rightarrow> AddressSpaceId \<Rightarrow> bool" where
  "space_in_use P freed sp \<longleftrightarrow> sp \<in> set freed \<or> (\<exists>p. owns P p sp)"

definition proc_inv :: "'f ProcessTable \<times> AddressSpaceId list \<Rightarrow> bool" where
  "proc_inv x \<longleftrightarrow> ids_ok (fst x) \<and> tree_ok (process (fst x)) \<and>
     spaces_ok (process (fst x)) (snd x @ released_spaces (fst x))"

text \<open>A change of one process that the tree does not see.\<close>

lemma tree_upd:
  assumes "tree_ok P" "P p = Some q" "parent q' = parent q" "children q' = children q"
    "p_exit_status q' \<noteq> None \<longrightarrow> children q = []"
  shows "tree_ok (P(p \<mapsto> q'))"
proof -
  have "lists_child (P(p \<mapsto> q')) = lists_child P" "has_parent (P(p \<mapsto> q')) = has_parent P"
    using assms(2-4) by (auto simp: lists_child_def has_parent_def fun_eq_iff)
  then show ?thesis using assms unfolding tree_ok_def by auto
qed

lemma spaces_sub:
  "spaces_ok P freed \<Longrightarrow> (\<And>p sp. owns P' p sp \<Longrightarrow> owns P p sp) \<Longrightarrow> spaces_ok P' freed"
  unfolding spaces_ok_def by blast

lemma spaces_add:
  assumes ok: "spaces_ok P freed"
    and o: "\<And>p sp. owns P' p sp \<Longrightarrow> owns P p sp \<or> (p = n \<and> \<not> space_in_use P freed sp)"
  shows "spaces_ok P' freed"
  unfolding spaces_ok_def
proof (intro conjI allI impI)
  show "distinct freed" using ok by (simp add: spaces_ok_def)
next
  fix p sp assume "owns P' p sp"
  then show "sp \<notin> set freed" using o ok unfolding spaces_ok_def space_in_use_def by blast
next
  fix p p' sp assume a: "owns P' p sp" "owns P' p' sp"
  then show "p' = p" using o [OF a(1)] o [OF a(2)] ok unfolding spaces_ok_def space_in_use_def by blast
qed

lemma spaces_reap:
  assumes ok: "spaces_ok P freed" and q: "P p = Some q"
    and o: "\<And>x sp. owns P' x sp \<Longrightarrow> owns P x sp \<and> x \<noteq> p"
  shows "spaces_ok P' (freed @ (case p_space q of Some sp \<Rightarrow> [sp] | None \<Rightarrow> []))"
proof (cases "p_space q")
  case None
  then show ?thesis using spaces_sub [OF ok, of P'] o by auto
next
  case (Some sp)
  then have w: "owns P p sp" using q by (simp add: owns_def)
  then have "sp \<notin> set freed" using ok by (simp add: spaces_ok_def)
  moreover have "sp \<noteq> sp'" if "owns P' x sp'" for x sp'
    using o [OF that] w ok unfolding spaces_ok_def by blast
  moreover have "spaces_ok P' freed" by (rule spaces_sub [OF ok]) (use o in blast)
  ultimately show ?thesis using Some unfolding spaces_ok_def by auto
qed

lemma tree_new:
  assumes t: "tree_ok P" "P n = None" and q: "parent q = None" "children q = []"
  shows "tree_ok (P(n \<mapsto> q))"
proof -
  have no: "\<not> lists_child P p n" "\<not> has_parent P n p" for p
    using t unfolding tree_ok_def has_parent_def by auto
  have "lists_child (P(n \<mapsto> q)) p c = lists_child P p c" "has_parent (P(n \<mapsto> q)) c p = has_parent P c p" for p c
    using no t(2) q by (auto simp: lists_child_def has_parent_def)
  then show ?thesis using t(1) q unfolding tree_ok_def by auto
qed

lemma tree_new_child:
  assumes t: "tree_ok P" "P n = None" "P par = Some r" and "p_exit_status r = None"
    and q: "parent q = Some par" "children q = []"
  shows "tree_ok (P(n \<mapsto> q, par \<mapsto> r\<lparr> children := children r @ [n] \<rparr>))"
proof -
  let ?P = "P(n \<mapsto> q, par \<mapsto> r\<lparr> children := children r @ [n] \<rparr>)"
  have ne: "n \<noteq> par" using t by auto
  have no: "\<not> lists_child P p n" "\<not> has_parent P n p" for p
    using t unfolding tree_ok_def has_parent_def by auto
  have "lists_child ?P p c \<longleftrightarrow> lists_child P p c \<or> (p = par \<and> c = n)"
      "has_parent ?P c p \<longleftrightarrow> has_parent P c p \<or> (p = par \<and> c = n)" for p c
    using no t(2,3) q ne by (auto simp: lists_child_def has_parent_def)
  moreover have "n \<notin> set (children r)" using no(1) [of par] t(3) by (auto simp: lists_child_def)
  moreover have "distinct (children r)" using t(1,3) by (simp add: tree_ok_def)
  ultimately show ?thesis using t(1) q assms(4) unfolding tree_ok_def by auto
qed

lemma tree_remove:
  assumes t: "tree_ok P" "P p = Some q" and q: "parent q = None" "children q = []"
  shows "tree_ok (P(p := None))"
proof -
  have no: "\<not> lists_child P p' p" for p'
    using t q unfolding tree_ok_def has_parent_def by auto
  have "lists_child (P(p := None)) p' c = lists_child P p' c" "has_parent (P(p := None)) c p' = has_parent P c p'" for p' c
    using no t(2) q by (auto simp: lists_child_def has_parent_def)
  then show ?thesis using t(1) unfolding tree_ok_def by auto
qed

lemma tree_cut:
  assumes t: "tree_ok P" "P c = Some r" "parent r = Some par" "P par = Some q"
  defines "P1 \<equiv> P(par \<mapsto> forget_child c q)"
  shows "tree_ok (P1(c := map_option (\<lambda>r. r\<lparr> parent := None \<rparr>) (P1 c)))"
proof -
  let ?P = "P1(c := map_option (\<lambda>r. r\<lparr> parent := None \<rparr>) (P1 c))"
  have l: "lists_child ?P p x \<longleftrightarrow> lists_child P p x \<and> x \<noteq> c" for p x
  proof -
    have "lists_child P p c \<Longrightarrow> p = par" using t unfolding tree_ok_def has_parent_def by auto
    then show ?thesis using t(2,4)
      by (auto simp: lists_child_def P1_def forget_child_def)
  qed
  have h: "has_parent ?P x p \<longleftrightarrow> has_parent P x p \<and> x \<noteq> c" for p x
    using t(2,4) by (auto simp: has_parent_def P1_def forget_child_def)
  have "distinct (children q') \<and> (p_exit_status q' \<noteq> None \<longrightarrow> children q' = [])" if "?P p = Some q'" for p q'
    using that t(1,2,4) unfolding tree_ok_def P1_def forget_child_def
    by (auto split: if_splits)
  then show ?thesis using t(1) l h unfolding tree_ok_def by blast
qed

section \<open>Operations\<close>

lemma find_snoc:
  "List.find c (xs @ [x]) = (case List.find c xs of Some y \<Rightarrow> Some y | None \<Rightarrow> if c x then Some x else None)"
  by (induction xs) auto

lemma process_snoc:
  assumes "process T (pid q) = None" "processes T' = processes T @ [q]"
  shows "process T' = (process T)(pid q \<mapsto> q)"
  using assms by (auto simp: process_def find_snoc fun_eq_iff split: option.splits)

lemma next_fresh: "ids_ok T \<Longrightarrow> next_id T \<le> p \<Longrightarrow> process T p = None"
  by (auto simp: process_None_iff ids_ok_def)

lemma create_ok:
  fixes ft :: 'f and space thread
  assumes ok: "ids_ok T" "next_id T < 2 ^ 64 - 1"
  defines "T' \<equiv> snd (create ft T space thread)"
  shows "process T' = (process T)(next_id T \<mapsto> pcb_new ft (next_id T) None space thread)"
    "ids_ok T'" "released_spaces T' = released_spaces T" "process T (next_id T) = None"
proof -
  show none: "process T (next_id T) = None" by (rule next_fresh [OF ok(1)]) simp
  show "released_spaces T' = released_spaces T" by (simp add: T'_def create_def Let_def)
  show "process T' = (process T)(next_id T \<mapsto> pcb_new ft (next_id T) None space thread)"
    using process_snoc [of T "pcb_new ft (next_id T) None space thread" T'] none
    by (simp add: T'_def create_def pcb_new_def Let_def)
  show "ids_ok T'" using ok
    by (auto simp: T'_def create_def Let_def ids_ok_def pcb_new_def saturating_add_def)
qed

lemma create_init_ok:
  assumes ok: "ids_ok T"
  shows "create_init ft T thread = (Err DuplicateThread, T) \<or>
    (\<exists>T'. create_init ft T thread = (Ok INIT_PID, T') \<and> process T INIT_PID = None \<and> ids_ok T' \<and>
       released_spaces T' = released_spaces T \<and>
       process T' = (process T)(INIT_PID \<mapsto> pcb_new ft INIT_PID None None thread))"
proof (cases "process T INIT_PID")
  case None
  let ?q = "pcb_new ft INIT_PID None None thread"
  let ?T' = "T\<lparr> processes := processes T @ [?q] \<rparr>"
  have p: "pid ?q = INIT_PID" by (simp add: pcb_new_def)
  have "process ?T' = (process T)(INIT_PID \<mapsto> ?q)" using process_snoc [of T ?q ?T'] None p by simp
  moreover have "ids_ok ?T'" using ok None p by (auto simp: ids_ok_def process_None_iff INIT_PID_def)
  ultimately show ?thesis using None by (simp add: create_init_def)
next
  case (Some q)
  then show ?thesis by (simp add: create_init_def)
qed

lemma create_child_ok:
  assumes ok: "ids_ok T" "next_id T < 2 ^ 64 - 1" and par: "process T par = Some r"
  shows "\<exists>T'. create_child ft T par space thread = (Ok (next_id T), T') \<and> ids_ok T' \<and>
    released_spaces T' = released_spaces T \<and>
    process T' = (process T)(next_id T \<mapsto> (pcb_new ft (next_id T) None space thread)\<lparr> parent := Some par \<rparr>,
      par \<mapsto> r\<lparr> children := children r @ [next_id T] \<rparr>)"
proof -
  let ?n = "next_id T" and ?q = "pcb_new ft (next_id T) None space thread"
  define T1 where "T1 = snd (create ft T space thread)"
  have c: "process T1 = (process T)(?n \<mapsto> ?q)" "ids_ok T1" "released_spaces T1 = released_spaces T"
      "process T ?n = None"
    unfolding T1_def by (rule create_ok [OF ok])+
  have n: "create ft T space thread = (?n, T1)" by (simp add: T1_def create_def Let_def)
  have ne: "par \<noteq> ?n" using c(4) par by auto
  define T2 where "T2 = process_mut T1 ?n (\<lambda>q. q\<lparr> parent := Some par \<rparr>)"
  have t2: "process T2 = (process T)(?n \<mapsto> ?q\<lparr> parent := Some par \<rparr>)" "ids_ok T2"
    using c by (simp_all add: T2_def process_process_mut ids_process_mut)
  define T3 where "T3 = process_mut T2 par (\<lambda>q. q\<lparr> children := children q @ [?n] \<rparr>)"
  have "process T3 = (process T2)(par \<mapsto> r\<lparr> children := children r @ [?n] \<rparr>)" "ids_ok T3"
    using t2 par ne by (simp_all add: T3_def process_process_mut ids_process_mut)
  moreover have "create_child ft T par space thread = (Ok ?n, T3)"
    using par n t2 ne by (simp add: create_child_def T2_def [symmetric] T3_def)
  moreover have "released_spaces T3 = released_spaces T" using c(3) by (simp add: T3_def T2_def)
  ultimately show ?thesis using t2 by simp
qed

lemma reap_shape:
  assumes ok: "ids_ok T" and tree: "tree_ok (process T)" and q: "process T p = Some q" "can_reap q"
  shows "\<exists>T'. reap_if_empty T p = (True, T') \<and> ids_ok T' \<and> process T' = (process T)(p := None) \<and>
    released_spaces T' = released_spaces T @ (case p_space q of Some sp \<Rightarrow> [sp] | None \<Rightarrow> [])"
proof -
  let ?ps = "processes T"
  have d: "distinct (map pid ?ps)" using ok by (simp add: ids_ok_def)
  have qm: "q \<in> set ?ps" "pid q = p" using q(1) process_Some_iff [OF ok] by auto
  obtain i where i: "position (\<lambda>r. pid r = p) ?ps = Some i"
    using qm position_None_iff [of "\<lambda>r. pid r = p" ?ps] by (cases "position (\<lambda>r. pid r = p) ?ps") auto
  then have il: "i < length ?ps" "pid (?ps ! i) = p" by (auto simp: position_Some_iff)
  then have qi: "?ps ! i = q" using process_Some_iff [OF ok, of p "?ps ! i"] q(1) by auto
  define T' where "T' = T\<lparr> processes := map (forget_child p) (swap_remove ?ps i),
      released_spaces := released_spaces T @ (case p_space q of Some sp \<Rightarrow> [sp] | None \<Rightarrow> []) \<rparr>"
  have run: "reap_if_empty T p = (True, T')"
    using q i qi by (simp add: reap_if_empty_def T'_def Let_def split: option.splits)
  have dps: "distinct ?ps" using d by (simp add: distinct_map)
  have set: "set (swap_remove ?ps i) = set ?ps - {q}" using swap_remove_ok(2) [OF dps il(1)] qi by simp
  have pids: "map pid (processes T') = swap_remove (map pid ?ps) i"
    using il(1) by (simp add: T'_def map_swap_remove [symmetric] comp_def forget_child_def)
  have ids': "ids_ok T'"
    using swap_remove_ok [OF d, of i] il ok unfolding ids_ok_pids pids
    by (auto simp: T'_def)
  have same: "forget_child p r = r" if "r \<in> set ?ps" for r
  proof -
    have r: "process T (pid r) = Some r" using that process_Some_iff [OF ok] by blast
    have "\<not> has_parent (process T) p (pid r)" using q by (simp add: has_parent_def can_reap_def)
    then have "\<not> lists_child (process T) (pid r) p" using tree by (simp add: tree_ok_def)
    then have "p \<notin> set (children r)" using r by (simp add: lists_child_def)
    then have "filter (\<lambda>c. c \<noteq> p) (children r) = children r" by (intro filter_True) auto
    then show ?thesis by (simp add: forget_child_def)
  qed
  have "set (processes T') = set ?ps - {q}" using set same by (auto simp: T'_def image_iff)
  then have "process T' x = ((process T)(p := None)) x" for x
  proof (cases "((process T)(p := None)) x")
    case None
    then have "x = p \<or> process T x = None" by (auto split: if_splits)
    then have "x \<notin> pid ` (set ?ps - {q})"
      using d qm process_None_iff [of T x] by (auto simp: distinct_map inj_on_def)
    then show ?thesis using None \<open>set (processes T') = set ?ps - {q}\<close> by (simp add: process_None_iff)
  next
    case (Some r)
    then have "r \<in> set ?ps" "pid r = x" "x \<noteq> p" using process_Some_iff [OF ok] by (auto split: if_splits)
    then have "process T' x = Some r"
      using process_Some_iff [OF ids'] \<open>set (processes T') = set ?ps - {q}\<close> qm by auto
    then show ?thesis using Some by simp
  qed
  then show ?thesis using run ids' by (auto simp: T'_def fun_eq_iff)
qed

lemma adopt_process:
  "process (adopt np T cs) x =
     (if x \<in> set cs then map_option (\<lambda>q. q\<lparr> parent := Some np \<rparr>) (process T x) else process T x)"
proof (induction cs arbitrary: T)
  case Nil
  then show ?case by (simp add: adopt_def)
next
  case (Cons c cs)
  have "adopt np T (c # cs) = adopt np (process_mut T c (\<lambda>q. q\<lparr> parent := Some np \<rparr>)) cs"
    by (simp add: adopt_def)
  then show ?case using Cons
    by (auto simp: process_process_mut option.map_comp comp_def)
qed

lemma adopt_fields: "ids_ok T \<Longrightarrow> ids_ok (adopt np T cs)" "released_spaces (adopt np T cs) = released_spaces T"
  by (induction cs arbitrary: T) (simp_all add: adopt_def ids_process_mut)

text \<open>What \<open>reparent_children\<close> makes of each process.\<close>

definition reparented ::
    "ProcessId \<Rightarrow> ProcessId \<Rightarrow> ProcessId list \<Rightarrow> ProcessId \<Rightarrow> 'f ProcessControlBlock \<Rightarrow> 'f ProcessControlBlock" where
  "reparented p np cs x q =
     q\<lparr> parent := (if x \<in> set cs then Some np else parent q),
        children := (if x = p then [] else if x = np then children q @ cs else children q) \<rparr>"

lemma reparent_shape:
  assumes ok: "ids_ok T" and q: "process T p = Some q" and ne: "p \<noteq> np"
  defines "T' \<equiv> reparent_children T p np"
  shows "process T' x = map_option (reparented p np (children q) x) (process T x)" "ids_ok T'"
    "released_spaces T' = released_spaces T"
proof -
  let ?cs = "children q"
  define T1 where "T1 = process_mut T p (\<lambda>q. q\<lparr> children := [] \<rparr>)"
  define T2 where "T2 = adopt np T1 ?cs"
  have t': "T' = process_mut T2 np (\<lambda>q. q\<lparr> children := children q @ ?cs \<rparr>)"
    using q ne by (simp add: T'_def reparent_children_def T1_def T2_def Let_def)
  have t1: "process T1 = (process T)(p \<mapsto> q\<lparr> children := [] \<rparr>)" "ids_ok T1"
    using ok q by (simp_all add: T1_def process_process_mut ids_process_mut)
  show "ids_ok T'" using t1(2) by (simp add: t' ids_process_mut T2_def adopt_fields)
  show "released_spaces T' = released_spaces T" by (simp add: t' T2_def adopt_fields T1_def)
  have t2: "process T2 x = (if x \<in> set ?cs then map_option (\<lambda>q. q\<lparr> parent := Some np \<rparr>) (process T1 x)
      else process T1 x)" for x by (simp add: T2_def adopt_process)
  show "process T' x = map_option (reparented p np (children q) x) (process T x)"
    using q ne by (cases "process T x")
      (auto simp: t' process_process_mut t2 t1(1) reparented_def option.map_comp)
qed

lemma tree_reparent:
  assumes t: "tree_ok P" and q: "P p = Some q" and r: "P np = Some r" "p_exit_status r = None" and ne: "p \<noteq> np"
    and P': "\<And>x. P' x = map_option (reparented p np (children q) x) (P x)"
  shows "tree_ok P'"
proof -
  have cs: "c \<in> set (children q) \<longleftrightarrow> has_parent P c p" for c
  proof -
    have "lists_child P p c \<longleftrightarrow> has_parent P c p" using t by (simp add: tree_ok_def)
    then show ?thesis using q by (simp add: lists_child_def)
  qed
  have u: "has_parent P c a \<Longrightarrow> has_parent P c b \<Longrightarrow> a = b" for a b c by (auto simp: has_parent_def)
  have l: "lists_child P' a c \<longleftrightarrow> (if a = p then False else if a = np then lists_child P np c \<or> has_parent P c p
      else lists_child P a c)" for a c
    using r by (cases "P a") (auto simp: lists_child_def P' reparented_def cs)
  have h: "has_parent P' c a \<longleftrightarrow> (if has_parent P c p then a = np else has_parent P c a)" for a c
    by (cases "P c") (auto simp: has_parent_def P' reparented_def cs)
  have "lists_child P' a c \<longleftrightarrow> has_parent P' c a" for a c
    using l [of a c] h [of c a] t u ne unfolding tree_ok_def by (auto split: if_splits)
  moreover have "distinct (children x') \<and> (p_exit_status x' \<noteq> None \<longrightarrow> children x' = [])"
    if a: "P' y = Some x'" for y x'
  proof -
    obtain x where x: "P y = Some x" "x' = reparented p np (children q) y x" using a P' by auto
    have dx: "distinct (children x)" "p_exit_status x \<noteq> None \<longrightarrow> children x = []" "distinct (children q)"
      using t q x(1) unfolding tree_ok_def by auto
    have "set (children r) \<inter> set (children q) = {}"
      using t q r(1) ne u unfolding tree_ok_def lists_child_def by blast
    then show ?thesis using dx x r by (auto simp: reparented_def split: if_splits)
  qed
  ultimately show ?thesis unfolding tree_ok_def by blast
qed

lemma proc_reap_inv:
  assumes inv: "proc_inv (T, tk)"
  shows "proc_inv (snd (reap_if_empty T p), tk)"
proof (cases "\<exists>q. process T p = Some q \<and> can_reap q")
  case True
  then obtain q where q: "process T p = Some q" "can_reap q" by blast
  have ok: "ids_ok T" "tree_ok (process T)" "spaces_ok (process T) (tk @ released_spaces T)"
    using inv by (simp_all add: proc_inv_def)
  obtain T' where r: "reap_if_empty T p = (True, T')" "ids_ok T'" "process T' = (process T)(p := None)"
      "released_spaces T' = released_spaces T @ (case p_space q of Some sp \<Rightarrow> [sp] | None \<Rightarrow> [])"
    using reap_shape [OF ok(1,2) q] by blast
  have "children q = []" using ok(2) q unfolding tree_ok_def can_reap_def by blast
  then have "tree_ok (process T')" unfolding r(3) using tree_remove [OF ok(2) q(1)] q(2) by (simp add: can_reap_def)
  moreover have "owns (process T) x sp \<and> x \<noteq> p" if "owns (process T') x sp" for x sp
    using that by (auto simp: owns_def r(3) split: if_splits)
  then have "spaces_ok (process T') (tk @ released_spaces T')"
    using spaces_reap [OF ok(3) q(1), of "process T'"] r(4) by simp
  ultimately show ?thesis using r by (simp add: proc_inv_def)
next
  case False
  then have "snd (reap_if_empty T p) = T" by (auto simp: reap_if_empty_def split: option.splits)
  then show ?thesis using inv by simp
qed

lemma wait_shape:
  assumes inv: "proc_inv (T, tk)" and c: "process T c = Some r" "parent r = Some par" "threads r = []"
    "p_exit_status r = Some st"
  shows "\<exists>T2. wait_child T par c = (Ok st, snd (reap_if_empty T2 c)) \<and> proc_inv (T2, tk) \<and>
    released_spaces T2 = released_spaces T \<and> process T2 c = Some (r\<lparr> parent := None \<rparr>) \<and>
    (\<forall>x. x \<noteq> c \<longrightarrow> process T2 x = map_option (\<lambda>q. if x = par then forget_child c q else q) (process T x))"
proof -
  have ok: "ids_ok T" "tree_ok (process T)" "spaces_ok (process T) (tk @ released_spaces T)"
    using inv by (simp_all add: proc_inv_def)
  have "has_parent (process T) c par" using c by (simp add: has_parent_def)
  then have "lists_child (process T) par c" using ok(2) by (simp add: tree_ok_def)
  then obtain q where q: "process T par = Some q" by (auto simp: lists_child_def)
  have re: "children r = []" using ok(2) c unfolding tree_ok_def by blast
  define T1 where "T1 = process_mut T par (forget_child c)"
  define T2 where "T2 = process_mut T1 c (\<lambda>q. q\<lparr> parent := None \<rparr>)"
  have f: "pid (forget_child c x) = pid x" "p_space (forget_child c x) = p_space x" for x :: "'a ProcessControlBlock"
    by (simp_all add: forget_child_def)
  have t1: "process T1 = (process T)(par \<mapsto> forget_child c q)" "ids_ok T1"
    using ok(1) q f by (simp_all add: T1_def process_process_mut ids_process_mut)
  have rc: "forget_child c r = r" using re by (simp add: forget_child_def)
  have t1c: "process T1 c = Some r" using t1 c q rc by auto
  have t2: "process T2 = (process T1)(c := map_option (\<lambda>r. r\<lparr> parent := None \<rparr>) (process T1 c))" "ids_ok T2"
    using t1 by (simp_all add: T2_def process_process_mut ids_process_mut)
  have "tree_ok (process T2)"
    using tree_cut [OF ok(2) c(1,2) q] unfolding t2 t1(1) .
  moreover have "spaces_ok (process T2) (tk @ released_spaces T)"
  proof (rule spaces_sub [OF ok(3)])
    fix x sp assume "owns (process T2) x sp"
    then show "owns (process T) x sp" using c q f by (auto simp: owns_def t2 t1 split: if_splits)
  qed
  ultimately have "proc_inv (T2, tk)" using t2(2) by (simp add: proc_inv_def T2_def T1_def)
  moreover have "wait_child T par c = (Ok st, snd (reap_if_empty T2 c))"
    using c q t1c by (simp add: wait_child_def Let_def T1_def [symmetric] T2_def [symmetric])
  moreover have "process T2 c = Some (r\<lparr> parent := None \<rparr>)" using t2(1) t1c by simp
  moreover have "released_spaces T2 = released_spaces T" by (simp add: T2_def T1_def)
  moreover have "process T2 x = map_option (\<lambda>q. if x = par then forget_child c q else q) (process T x)"
    if "x \<noteq> c" for x
    using that q by (cases "process T x") (auto simp: t2(1) t1(1))
  ultimately show ?thesis by blast
qed

section \<open>The transition system\<close>

type_synonym 'f proc_sys = "'f ProcessTable \<times> AddressSpaceId list"

definition proc_init :: "'f proc_sys \<Rightarrow> bool" where
  "proc_init x \<longleftrightarrow> x = (table_new, [])"

definition fresh_space :: "'f proc_sys \<Rightarrow> AddressSpaceId option \<Rightarrow> bool" where
  "fresh_space x space \<longleftrightarrow> (\<forall>sp. space = Some sp \<longrightarrow>
     \<not> space_in_use (process (fst x)) (snd x @ released_spaces (fst x)) sp)"

text \<open>Edits that touch neither the family nor the address space.\<close>

definition calm :: "('f ProcessControlBlock \<Rightarrow> 'f ProcessControlBlock) \<Rightarrow> bool" where
  "calm f \<longleftrightarrow> (\<forall>q. pid (f q) = pid q \<and> parent (f q) = parent q \<and> children (f q) = children q \<and>
     p_exit_status (f q) = p_exit_status q \<and> p_space (f q) = p_space q)"

text \<open>
  The calls of the kernel, with the address spaces handed back so far. A new
  process gets a fresh address space (they are numbered as they are
  registered); only a process that has not exited creates children or loads a
  program; when a process other than init exits, its children go to init first,
  as \<open>scheduler::exit_current\<close> does, and init is there and has not exited.
\<close>

inductive proc_step :: "'f proc_sys \<Rightarrow> 'f proc_sys \<Rightarrow> bool" where
  pr_create: "next_id T < 2 ^ 64 - 1 \<Longrightarrow> fresh_space (T, tk) space \<Longrightarrow>
    proc_step (T, tk) (snd (create ft T space thread), tk)"
| pr_init: "proc_step (T, tk) (snd (create_init ft T thread), tk)"
| pr_child: "next_id T < 2 ^ 64 - 1 \<Longrightarrow> fresh_space (T, tk) space \<Longrightarrow>
    process T par = Some r \<Longrightarrow> p_exit_status r = None \<Longrightarrow>
    proc_step (T, tk) (snd (create_child ft T par space thread), tk)"
| pr_space: "fresh_space (T, tk) space \<Longrightarrow> proc_step (T, tk) (snd (set_process_space T p space), tk)"
| pr_exit: "p \<noteq> INIT_PID \<Longrightarrow> process T INIT_PID = Some r \<Longrightarrow> p_exit_status r = None \<Longrightarrow>
    proc_step (T, tk) (snd (process_exit (reparent_children T p INIT_PID) p st), tk)"
| pr_calm: "calm f \<Longrightarrow> proc_step (T, tk) (process_mut T p f, tk)"
| pr_reap: "proc_step (T, tk) (snd (reap_if_empty T p), tk)"
| pr_wait: "proc_step (T, tk) (snd (wait_child T par c), tk)"
| pr_take: "proc_step (T, tk) (snd (take_released_spaces T), tk @ fst (take_released_spaces T))"

text \<open>The operations on threads, references and waiters are such edits.\<close>

lemma calm_operations:
  "\<exists>f. calm f \<and> snd (add_thread T p x) = process_mut T p f"
  "\<exists>f. calm f \<and> snd (remove_thread T p x) = process_mut T p f"
  "\<exists>f. calm f \<and> snd (retain T p) = process_mut T p f"
  "\<exists>f. calm f \<and> snd (process_release T p) = process_mut T p f"
  "\<exists>f. calm f \<and> snd (add_child_waiter T p x) = process_mut T p f"
  "\<exists>f. calm f \<and> snd (remove_child_waiter T p x) = process_mut T p f"
proof -
  have upd: "update_first c (\<lambda>q. q) qs = qs" for c and qs :: "'a ProcessControlBlock list"
    by (induction qs) auto
  have idm: "calm (\<lambda>q. q)" "process_mut T p (\<lambda>q. q) = T" by (simp_all add: calm_def process_mut_def upd)
  have w: "\<exists>f. calm f \<and> T = process_mut T p f" "\<And>g. calm g \<Longrightarrow> \<exists>f. calm f \<and> process_mut T p g = process_mut T p f"
    using idm by (intro exI [of _ "\<lambda>q. q"], simp, blast)
  have c: "calm (\<lambda>q. q\<lparr> threads := g q \<rparr>)" "calm (\<lambda>q. q\<lparr> child_waiters := g q \<rparr>)"
      "calm (\<lambda>q. q\<lparr> references := h q \<rparr>)" for g h
    by (simp_all add: calm_def)
  show "\<exists>f. calm f \<and> snd (add_thread T p x) = process_mut T p f"
    by (simp add: add_thread_def w c split: option.splits)
  show "\<exists>f. calm f \<and> snd (remove_thread T p x) = process_mut T p f"
    by (simp add: remove_thread_def w c split: option.splits)
  show "\<exists>f. calm f \<and> snd (retain T p) = process_mut T p f"
    by (simp add: retain_def w c split: option.splits)
  show "\<exists>f. calm f \<and> snd (process_release T p) = process_mut T p f"
    by (simp add: process_release_def w c split: option.splits)
  show "\<exists>f. calm f \<and> snd (add_child_waiter T p x) = process_mut T p f"
    by (simp add: add_child_waiter_def w c split: option.splits)
  show "\<exists>f. calm f \<and> snd (remove_child_waiter T p x) = process_mut T p f"
    by (simp add: remove_child_waiter_def w c split: option.splits)
qed

lemma proc_upd:
  assumes inv: "proc_inv (T, tk)" and f: "\<And>q. pid (f q) = pid q"
    and q: "\<And>q. process T p = Some q \<Longrightarrow> parent (f q) = parent q \<and> children (f q) = children q \<and>
      (p_exit_status (f q) \<noteq> None \<longrightarrow> children q = []) \<and>
      (p_space (f q) = p_space q \<or> fresh_space (T, tk) (p_space (f q)))"
  shows "proc_inv (process_mut T p f, tk)"
proof (cases "process T p")
  case None
  then have "process (process_mut T p f) = process T" by (simp add: process_process_mut [OF f] fun_upd_idem)
  then show ?thesis using inv by (simp add: proc_inv_def ids_process_mut [OF f])
next
  case (Some r)
  have ok: "ids_ok T" "tree_ok (process T)" "spaces_ok (process T) (tk @ released_spaces T)"
    using inv by (simp_all add: proc_inv_def)
  have e: "process (process_mut T p f) = (process T)(p \<mapsto> f r)" using process_process_mut [OF f] Some by simp
  have "tree_ok ((process T)(p \<mapsto> f r))" using q [OF Some] by (intro tree_upd [OF ok(2) Some]) auto
  moreover have "spaces_ok ((process T)(p \<mapsto> f r)) (tk @ released_spaces T)"
  proof (rule spaces_add [OF ok(3), of _ p])
    fix x sp assume "owns ((process T)(p \<mapsto> f r)) x sp"
    then show "owns (process T) x sp \<or> (x = p \<and> \<not> space_in_use (process T) (tk @ released_spaces T) sp)"
      using q [OF Some] Some by (auto simp: owns_def fresh_space_def split: if_splits)
  qed
  ultimately show ?thesis using ok(1) e by (simp add: proc_inv_def ids_process_mut [OF f])
qed

lemma exit_inv:
  assumes inv: "proc_inv (T, tk)" and ne: "p \<noteq> np" and r: "process T np = Some r" "p_exit_status r = None"
  shows "proc_inv (snd (process_exit (reparent_children T p np) p st), tk)"
proof (cases "process T p")
  case None
  then show ?thesis using inv ne by (simp add: reparent_children_def process_exit_def)
next
  case (Some q)
  have ok: "ids_ok T" "tree_ok (process T)" "spaces_ok (process T) (tk @ released_spaces T)"
    using inv by (simp_all add: proc_inv_def)
  let ?T' = "reparent_children T p np"
  note sh = reparent_shape [OF ok(1) Some ne]
  have "tree_ok (process ?T')" by (rule tree_reparent [OF ok(2) Some r ne sh(1)])
  moreover have "spaces_ok (process ?T') (tk @ released_spaces T)"
  proof (rule spaces_sub [OF ok(3)])
    fix x sp assume "owns (process ?T') x sp"
    then show "owns (process T) x sp" by (auto simp: owns_def sh(1) reparented_def)
  qed
  ultimately have inv': "proc_inv (?T', tk)" using sh(2,3) by (simp add: proc_inv_def)
  have "process ?T' p = Some (reparented p np (children q) p q)" using Some sh(1) by simp
  moreover have "children (reparented p np (children q) p q) = []" by (simp add: reparented_def)
  ultimately show ?thesis
    using inv' proc_upd [OF inv', of "\<lambda>q. q\<lparr> p_exit_status := Some st \<rparr>" p]
    by (auto simp: process_exit_def)
qed

lemma proc_inv_step: "proc_step x y \<Longrightarrow> proc_inv x \<Longrightarrow> proc_inv y"
proof (induction rule: proc_step.induct)
  case (pr_create T tk space ft thread)
  have ok: "ids_ok T" "tree_ok (process T)" "spaces_ok (process T) (tk @ released_spaces T)"
    using pr_create.prems by (simp_all add: proc_inv_def)
  note c = create_ok [OF ok(1) pr_create.hyps(1)]
  have "spaces_ok ((process T)(next_id T \<mapsto> pcb_new ft (next_id T) None space thread)) (tk @ released_spaces T)"
    using pr_create.hyps(2) c(4) by (intro spaces_add [OF ok(3)])
      (auto simp: owns_def fresh_space_def pcb_new_def split: if_splits)
  moreover have "tree_ok ((process T)(next_id T \<mapsto> pcb_new ft (next_id T) None space thread))"
    by (rule tree_new [OF ok(2) c(4)]) (simp_all add: pcb_new_def)
  ultimately show ?case using c by (simp add: proc_inv_def)
next
  case (pr_init T tk ft thread)
  have ok: "ids_ok T" "tree_ok (process T)" "spaces_ok (process T) (tk @ released_spaces T)"
    using pr_init.prems by (simp_all add: proc_inv_def)
  from create_init_ok [OF ok(1), of ft thread] show ?case
  proof (elim disjE exE conjE)
    assume "create_init ft T thread = (Err DuplicateThread, T)"
    then show ?thesis using pr_init.prems by simp
  next
    fix T' assume c: "create_init ft T thread = (Ok INIT_PID, T')" "process T INIT_PID = None" "ids_ok T'"
      "released_spaces T' = released_spaces T"
      "process T' = (process T)(INIT_PID \<mapsto> pcb_new ft INIT_PID None None thread)"
    have "tree_ok (process T')" unfolding c(5) by (rule tree_new [OF ok(2) c(2)]) (simp_all add: pcb_new_def)
    moreover have "spaces_ok (process T') (tk @ released_spaces T)"
      by (rule spaces_sub [OF ok(3)]) (auto simp: owns_def c(5) pcb_new_def split: if_splits)
    ultimately show ?thesis using c by (simp add: proc_inv_def)
  qed
next
  case (pr_child T tk space par r ft thread)
  have ok: "ids_ok T" "tree_ok (process T)" "spaces_ok (process T) (tk @ released_spaces T)"
    using pr_child.prems by (simp_all add: proc_inv_def)
  let ?q = "(pcb_new ft (next_id T) None space thread)\<lparr> parent := Some par \<rparr>"
  obtain T' where c: "create_child ft T par space thread = (Ok (next_id T), T')" "ids_ok T'"
      "released_spaces T' = released_spaces T"
      "process T' = (process T)(next_id T \<mapsto> ?q, par \<mapsto> r\<lparr> children := children r @ [next_id T] \<rparr>)"
    using create_child_ok [OF ok(1) pr_child.hyps(1,3)] by blast
  have n: "process T (next_id T) = None" by (rule next_fresh [OF ok(1)]) simp
  have "tree_ok (process T')" unfolding c(4)
    by (rule tree_new_child [OF ok(2) n pr_child.hyps(3,4)]) (simp_all add: pcb_new_def)
  moreover have "spaces_ok (process T') (tk @ released_spaces T)"
    using pr_child.hyps(2,3) by (intro spaces_add [OF ok(3), of _ "next_id T"])
      (auto simp: owns_def fresh_space_def c(4) pcb_new_def split: if_splits)
  ultimately show ?case using c by (simp add: proc_inv_def)
next
  case (pr_space T tk space p)
  then show ?case using proc_upd [of T tk "\<lambda>q. q\<lparr> p_space := space \<rparr>" p]
    by (auto simp: set_process_space_def proc_inv_def tree_ok_def)
next
  case (pr_exit p T r tk st)
  then show ?case using exit_inv by blast
next
  case (pr_calm f T tk p)
  then show ?case by (intro proc_upd) (auto simp: calm_def proc_inv_def tree_ok_def)
next
  case (pr_reap T tk p)
  then show ?case by (rule proc_reap_inv)
next
  case (pr_wait T tk par c)
  show ?case
  proof (cases "fst (wait_child T par c)")
    case (Ok st)
    then obtain r where "process T c = Some r" "parent r = Some par" "threads r = []" "p_exit_status r = Some st"
      by (auto simp: wait_child_def Let_def split: option.splits if_splits)
    then obtain T2 where "wait_child T par c = (Ok st, snd (reap_if_empty T2 c))" "proc_inv (T2, tk)"
      using wait_shape [OF pr_wait] by blast
    then show ?thesis using proc_reap_inv by simp
  next
    case (Err e)
    show ?thesis
    proof (cases "snd (wait_child T par c) = T")
      case True
      then show ?thesis using pr_wait by simp
    next
      case False
      then obtain r st where c: "process T c = Some r" "parent r = Some par" "threads r = []"
          "p_exit_status r = Some st"
        by (auto simp: wait_child_def Let_def split: option.splits if_splits)
      then show ?thesis using wait_shape [OF pr_wait c] Err by auto
    qed
  qed
next
  case (pr_take T tk)
  have "process (T\<lparr> released_spaces := [] \<rparr>) = process T" by (simp add: process_def fun_eq_iff)
  then show ?case using pr_take by (simp add: take_released_spaces_def proc_inv_def ids_ok_def)
qed

lemma proc_inv_init: "proc_init x \<Longrightarrow> proc_inv x"
  by (simp add: proc_init_def proc_inv_def table_new_def ids_ok_def tree_ok_def spaces_ok_def process_def
      lists_child_def has_parent_def owns_def)

interpretation family: safe_system proc_init proc_step proc_inv
  by unfold_locales (auto intro: proc_inv_init proc_inv_step)

section \<open>Properties\<close>

text \<open>
  C15. In every state the process table reaches, process ids are unique; a process
  lists exactly the processes whose parent it is, each once, and every parent is
  in the table; and no address space is handed back twice or while a process
  still owns it.
\<close>

theorem family_tree:
  assumes "reaches proc_init proc_step (T, tk)"
  shows "distinct (map pid (processes T)) \<and>
    (\<forall>p q. process T p = Some q \<longrightarrow> distinct (children q) \<and>
       (\<forall>c. c \<in> set (children q) \<longleftrightarrow> (\<exists>r. process T c = Some r \<and> parent r = Some p)) \<and>
       (\<forall>pp. parent q = Some pp \<longrightarrow> process T pp \<noteq> None)) \<and>
    distinct (tk @ released_spaces T) \<and>
    (\<forall>p q sp. process T p = Some q \<longrightarrow> p_space q = Some sp \<longrightarrow> sp \<notin> set (tk @ released_spaces T))"
proof -
  have inv: "proc_inv (T, tk)" by (rule family.reaches_inv [OF assms])
  then have ok: "ids_ok T" "tree_ok (process T)" "spaces_ok (process T) (tk @ released_spaces T)"
    by (simp_all add: proc_inv_def)
  have t: "lists_child (process T) p c \<longleftrightarrow> has_parent (process T) c p" for p c
    using ok(2) by (simp add: tree_ok_def)
  have "distinct (children q) \<and>
       (\<forall>c. c \<in> set (children q) \<longleftrightarrow> (\<exists>r. process T c = Some r \<and> parent r = Some p)) \<and>
       (\<forall>pp. parent q = Some pp \<longrightarrow> process T pp \<noteq> None)" if q: "process T p = Some q" for p q
  proof (intro conjI allI impI)
    show "distinct (children q)" using ok(2) q unfolding tree_ok_def by blast
    show "c \<in> set (children q) \<longleftrightarrow> (\<exists>r. process T c = Some r \<and> parent r = Some p)" for c
      using t [of p c] q by (simp add: lists_child_def has_parent_def)
    show "process T pp \<noteq> None" if "parent q = Some pp" for pp
      using t [of pp p] q that by (auto simp: lists_child_def has_parent_def)
  qed
  moreover have "distinct (map pid (processes T))" using ok(1) by (simp add: ids_ok_def)
  moreover have "distinct (tk @ released_spaces T)" using ok(3) unfolding spaces_ok_def by blast
  moreover have "sp \<notin> set (tk @ released_spaces T)"
    if "process T p = Some q" "p_space q = Some sp" for p q sp
    using ok(3) that unfolding spaces_ok_def owns_def by blast
  ultimately show ?thesis by blast
qed

text \<open>A run: init, a child of it with an address space, and the child's exit.\<close>

definition demo_family :: "unit ProcessTable" where
  "demo_family = snd (create_child () (snd (create_init () table_new 10)) 1 (Some 7) 11)"

definition demo_exited :: "unit ProcessTable" where
  "demo_exited = snd (remove_thread
     (snd (process_exit (reparent_children demo_family 2 INIT_PID) 2 5)) 2 11)"

lemmas proc_eval = demo_family_def demo_exited_def create_child_def create_init_def create_def table_new_def
  process_def process_mut_def pcb_new_def INIT_PID_def saturating_add_def reparent_children_def
  process_exit_def remove_thread_def adopt_def swap_remove_def Let_def

lemma demo_family_reached:
  "reaches proc_init proc_step (demo_family, [])" "reaches proc_init proc_step (demo_exited, [])"
proof -
  let ?T1 = "snd (create_init () table_new 10)"
  have 0: "reaches proc_init proc_step (table_new :: unit ProcessTable, [])"
    by (rule reaches.start) (simp add: proc_init_def)
  have 1: "reaches proc_init proc_step (?T1, [])" by (rule reaches.step [OF 0 pr_init])
  have r: "process ?T1 1 = Some (pcb_new () 1 None None 10)" by (simp add: proc_eval)
  show 2: "reaches proc_init proc_step (demo_family, [])"
    unfolding demo_family_def
  proof (rule reaches.step [OF 1 pr_child [OF _ _ r]])
    show "p_exit_status (pcb_new () 1 None None 10) = None" by (simp add: pcb_new_def)
    show "fresh_space (?T1, []) (Some 7)"
      by (simp add: proc_eval fresh_space_def space_in_use_def owns_def)
    show "next_id ?T1 < 2 ^ 64 - 1" by (simp add: proc_eval)
  qed
  have i: "process demo_family INIT_PID = Some ((pcb_new () 1 None None 10)\<lparr> children := [2] \<rparr>)"
    by (simp add: proc_eval)
  have 3: "reaches proc_init proc_step (snd (process_exit (reparent_children demo_family 2 INIT_PID) 2 5), [])"
    by (rule reaches.step [OF 2 pr_exit [OF _ i]]) (simp_all add: INIT_PID_def pcb_new_def)
  obtain f where f: "calm f" "demo_exited =
      process_mut (snd (process_exit (reparent_children demo_family 2 INIT_PID) 2 5)) 2 f"
    unfolding demo_exited_def using calm_operations(2) by blast
  show "reaches proc_init proc_step (demo_exited, [])"
    unfolding f(2) by (rule reaches.step [OF 3 pr_calm [OF f(1)]])
qed

theorem family_tree_witness:
  "map pid (processes demo_family) = [1, 2] \<and> distinct (map pid (processes demo_family))"
proof -
  have "map pid (processes demo_family) = [1, 2]" by (simp add: proc_eval)
  then show ?thesis using family_tree [OF demo_family_reached(1)] by blast
qed

text \<open>
  C34. When a child has exited and its last thread is retired, its parent's wait
  finds an exited child, collects it and returns its status; the child leaves the
  parent's list, and unless somebody still holds a reference to it or waits for
  it, it leaves the table and its address space is released.
\<close>

theorem wait_collects:
  assumes "reaches proc_init proc_step (T, tk)" "process T c = Some r" "parent r = Some p"
    "p_exit_status r \<noteq> None" "threads r = []"
  shows "\<exists>c' r' st T'. exited_child T p = Some c' \<and> process T c' = Some r' \<and>
    p_exit_status r' = Some st \<and> wait_child T p c' = (Ok st, T') \<and>
    (\<forall>q. process T' p = Some q \<longrightarrow> c' \<notin> set (children q)) \<and>
    (references r' = 0 \<and> child_waiters r' = [] \<longrightarrow> process T' c' = None \<and>
       released_spaces T' = released_spaces T @ (case p_space r' of Some sp \<Rightarrow> [sp] | None \<Rightarrow> []))"
proof -
  have inv: "proc_inv (T, tk)" by (rule family.reaches_inv [OF assms(1)])
  then have ok: "ids_ok T" "tree_ok (process T)" by (simp_all add: proc_inv_def)
  have t: "lists_child (process T) x y \<longleftrightarrow> has_parent (process T) y x" for x y
    using ok(2) by (simp add: tree_ok_def)
  have "lists_child (process T) p c" using t assms(2,3) by (simp add: has_parent_def)
  then obtain q where q: "process T p = Some q" "c \<in> set (children q)" by (auto simp: lists_child_def)
  have "ready_to_wait T c" using assms(2,4,5) by (simp add: ready_to_wait_def)
  then obtain c' where c': "List.find (ready_to_wait T) (children q) = Some c'"
    using q(2) by (cases "List.find (ready_to_wait T) (children q)") (auto simp: find_None_mem)
  then have m: "c' \<in> set (children q)" "ready_to_wait T c'" using find_Some_mem by fast+
  then obtain r' st where r': "process T c' = Some r'" "threads r' = []" "p_exit_status r' = Some st"
    by (auto simp: ready_to_wait_def split: option.splits)
  have "has_parent (process T) c' p" using t m(1) q(1) by (auto simp: lists_child_def)
  then have par: "parent r' = Some p" using r'(1) by (simp add: has_parent_def)
  obtain T2 where w: "wait_child T p c' = (Ok st, snd (reap_if_empty T2 c'))" "proc_inv (T2, tk)"
      "released_spaces T2 = released_spaces T" "process T2 c' = Some (r'\<lparr> parent := None \<rparr>)"
      "\<forall>x. x \<noteq> c' \<longrightarrow> process T2 x = map_option (\<lambda>q. if x = p then forget_child c' q else q) (process T x)"
    using wait_shape [OF inv r'(1) par r'(2,3)] by blast
  have ok2: "ids_ok T2" "tree_ok (process T2)" using w(2) by (simp_all add: proc_inv_def)
  define T' where "T' = snd (reap_if_empty T2 c')"
  have cr: "can_reap (r'\<lparr> parent := None \<rparr>) \<longleftrightarrow> references r' = 0 \<and> child_waiters r' = []"
    using r' by (auto simp: can_reap_def)
  have "T' = T2 \<or> process T' = (process T2)(c' := None)"
  proof (cases "can_reap (r'\<lparr> parent := None \<rparr>)")
    case True
    then show ?thesis using reap_shape [OF ok2 w(4)] by (auto simp: T'_def)
  next
    case False
    then show ?thesis using w(4) by (simp add: T'_def reap_if_empty_def)
  qed
  moreover have "c' \<notin> set (children x)" if x: "process T2 p = Some x" for x
  proof
    assume "c' \<in> set (children x)"
    then have "lists_child (process T2) p c'" using x by (simp add: lists_child_def)
    then have "has_parent (process T2) c' p" using ok2(2) by (simp add: tree_ok_def)
    then show False using w(4) by (simp add: has_parent_def)
  qed
  ultimately have "\<forall>q. process T' p = Some q \<longrightarrow> c' \<notin> set (children q)" by (auto split: if_splits)
  moreover have "process T' c' = None \<and> released_spaces T' =
      released_spaces T @ (case p_space r' of Some sp \<Rightarrow> [sp] | None \<Rightarrow> [])"
    if "references r' = 0 \<and> child_waiters r' = []"
    using reap_shape [OF ok2 w(4)] cr that w(3) by (auto simp: T'_def)
  moreover have "exited_child T p = Some c'" using q c' by (simp add: exited_child_def)
  ultimately show ?thesis using r' w(1) T'_def by blast
qed

theorem wait_collects_witness:
  "\<exists>c' T'. exited_child demo_exited 1 = Some c' \<and> wait_child demo_exited 1 c' = (Ok 5, T')"
proof -
  have p: "process demo_exited 2 = Some ((pcb_new () 2 (Some 1) (Some 7) 11)
      \<lparr> p_exit_status := Some 5, threads := [] \<rparr>)"
    by (simp add: proc_eval)
  have e: "exited_child demo_exited 1 = Some 2"
    by (simp add: exited_child_def ready_to_wait_def proc_eval)
  from wait_collects [OF demo_family_reached(2) p, of 1] e p show ?thesis
    by (auto simp: pcb_new_def)
qed

end
