(* ===== verification/Inode.thy ===== *)
theory Inode
  imports Errno "HOL-Library.List_Lexorder" "HOL-Library.Char_ord"
begin

text \<open>
  What every file system shares (\<open>kernel/src/fs/inode.rs\<close>): kinds of inodes,
  the records \<open>stat\<close> and a directory listing return, the check of new names,
  and paths (\<open>kernel/src/fs/path.rs\<close>). A Rust string is the list of its UTF-8
  bytes, so that \<open>len()\<close> is the length and the order of names is the
  lexicographic one. The sorted map of a directory (\<open>BTreeMap\<close>) is an
  association list in ascending order of its keys.
\<close>

section \<open>Inodes\<close>

datatype InodeKind = KFile | KDirectory | KCharDevice

record Stat =
  st_ino :: u64
  st_fs_id :: u64
  st_kind :: InodeKind
  st_size :: u64
  st_nlink :: nat

record DirEntry =
  de_name :: string
  de_ino :: u64
  de_kind :: InodeKind

definition NAME_MAX :: nat where "NAME_MAX = 255"

definition check_name :: "string \<Rightarrow> unit fs_result" where
  "check_name name =
     (if name = [] \<or> CHR ''/'' \<in> set name then Err ENOENT
      else if NAME_MAX < length name then Err ENAMETOOLONG
      else if name = ''.'' \<or> name = ''..'' then Err EINVAL
      else Ok ())"

text \<open>A name an entry may have: one component of a path, neither empty nor a dot name.\<close>

definition component :: "string \<Rightarrow> bool" where
  "component n \<longleftrightarrow> n \<noteq> [] \<and> CHR ''/'' \<notin> set n \<and> n \<noteq> ''.'' \<and> n \<noteq> ''..''"

lemma check_name_Ok: "check_name n = Ok u \<longleftrightarrow> component n \<and> length n \<le> NAME_MAX"
  by (auto simp: check_name_def component_def)

section \<open>Sorted maps\<close>

fun bt_insert :: "'k::linorder \<Rightarrow> 'v \<Rightarrow> ('k \<times> 'v) list \<Rightarrow> ('k \<times> 'v) list" where
  "bt_insert k v [] = [(k, v)]"
| "bt_insert k v ((k', v') # xs) =
     (if k < k' then (k, v) # (k', v') # xs
      else if k = k' then (k, v) # xs
      else (k', v') # bt_insert k v xs)"

definition bt_remove :: "'k \<Rightarrow> ('k \<times> 'v) list \<Rightarrow> ('k \<times> 'v) list" where
  "bt_remove k xs = filter (\<lambda>(k', _). k' \<noteq> k) xs"

definition bt_sorted :: "('k::linorder \<times> 'v) list \<Rightarrow> bool" where
  "bt_sorted xs \<longleftrightarrow> sorted_wrt (<) (map fst xs)"

lemma bt_insert_keys: "fst ` set (bt_insert k v xs) = insert k (fst ` set xs)"
  by (induction k v xs rule: bt_insert.induct) auto

lemma bt_insert_sorted: "bt_sorted xs \<Longrightarrow> bt_sorted (bt_insert k v xs)"
proof (induction k v xs rule: bt_insert.induct)
  case (2 k v k' v' xs)
  have "\<forall>x \<in> set (bt_insert k v xs). k' < fst x" if "k' < k"
    using 2(2) that bt_insert_keys [of k v xs] by (fastforce simp: bt_sorted_def)
  with 2 show ?case by (auto simp: bt_sorted_def)
qed (simp add: bt_sorted_def)

lemma bt_remove_sorted: "bt_sorted xs \<Longrightarrow> bt_sorted (bt_remove k xs)"
  by (induction xs) (auto simp: bt_sorted_def bt_remove_def)

lemma map_of_sorted_less: "bt_sorted ((k', v') # xs) \<Longrightarrow> k \<le> k' \<Longrightarrow> map_of xs k = None"
  by (fastforce simp: bt_sorted_def map_of_eq_None_iff)

lemma map_of_bt_insert [simp]:
  "bt_sorted xs \<Longrightarrow> map_of (bt_insert k v xs) = (map_of xs)(k \<mapsto> v)"
proof (induction k v xs rule: bt_insert.induct)
  case (2 k v k' v' xs)
  moreover have "bt_sorted xs" using 2(2) by (simp add: bt_sorted_def)
  ultimately show ?case by (auto simp: fun_eq_iff)
qed simp

lemma map_of_bt_remove [simp]: "map_of (bt_remove k xs) = (map_of xs)(k := None)"
  by (induction xs) (auto simp: bt_remove_def)

lemma bt_remove_keys: "fst ` set (bt_remove k xs) \<subseteq> fst ` set xs"
  by (auto simp: bt_remove_def)

lemma bt_sorted_distinct: "bt_sorted xs \<Longrightarrow> distinct (map fst xs)"
  by (simp add: bt_sorted_def strict_sorted_iff)

lemma bt_sorted_Nil [simp]: "bt_sorted []"
  by (simp add: bt_sorted_def)

section \<open>Paths\<close>

text \<open>\<open>str::split\<close>: the pieces between the separators, at least one.\<close>

fun split_on :: "char \<Rightarrow> string \<Rightarrow> string list" where
  "split_on c [] = [[]]"
| "split_on c (x # xs) =
     (if x = c then [] # split_on c xs
      else (case split_on c xs of p # ps \<Rightarrow> (x # p) # ps | [] \<Rightarrow> [[x]]))"

text \<open>\<open>[&str]::join\<close>.\<close>

fun join_with :: "string \<Rightarrow> string list \<Rightarrow> string" where
  "join_with sep [] = []"
| "join_with sep [p] = p"
| "join_with sep (p # q # ps) = p @ sep @ join_with sep (q # ps)"

definition resolve_component :: "string list \<Rightarrow> string \<Rightarrow> string list" where
  "resolve_component components c =
     (if c = [] \<or> c = ''.'' then components
      else if c = ''..'' then butlast components
      else components @ [c])"

definition resolve :: "string \<Rightarrow> string \<Rightarrow> string" where
  "resolve cwd path =
     (let start = (if take 1 path = ''/'' then '''' else cwd) in
      ''/'' @ join_with ''/''
        (foldl resolve_component [] (split_on (CHR ''/'') start @ split_on (CHR ''/'') path)))"

lemma split_on_not_Nil [simp]: "split_on c xs \<noteq> []"
  by (induction xs) (auto split: list.split)

lemma split_on_no_sep: "p \<in> set (split_on c xs) \<Longrightarrow> c \<notin> set p"
  by (induction xs arbitrary: p) (auto split: list.splits if_splits)

lemma split_on_single: "c \<notin> set xs \<Longrightarrow> split_on c xs = [xs]"
  by (induction xs) auto

lemma split_on_append:
  "c \<notin> set p \<Longrightarrow> split_on c (p @ c # xs) = p # split_on c xs"
  by (induction p) auto

lemma join_with_Cons: "ps \<noteq> [] \<Longrightarrow> join_with sep (p # ps) = p @ sep @ join_with sep ps"
  by (cases ps) auto

text \<open>Joining and splitting are inverse on lists of components.\<close>

lemma split_join:
  "ps \<noteq> [] \<Longrightarrow> (\<forall>p \<in> set ps. c \<notin> set p) \<Longrightarrow> split_on c (join_with [c] ps) = ps"
  by (induction "[c]" ps rule: join_with.induct) (auto simp: split_on_single split_on_append)

lemma join_split: "join_with [c] (split_on c xs) = xs"
proof (induction xs)
  case (Cons x xs)
  obtain p ps where "split_on c xs = p # ps" by (cases "split_on c xs") auto
  with Cons show ?case by (cases ps) auto
qed simp

abbreviation components_of :: "string list \<Rightarrow> string list \<Rightarrow> string list" where
  "components_of \<equiv> foldl resolve_component"

lemma components_of_component:
  assumes "\<forall>p \<in> set acc. component p" "\<forall>p \<in> set ps. CHR ''/'' \<notin> set p"
  shows "\<forall>p \<in> set (components_of acc ps). component p"
  using assms
proof (induction ps arbitrary: acc)
  case (Cons p ps)
  have "\<forall>q \<in> set (resolve_component acc p). component q"
    using Cons.prems by (auto simp: resolve_component_def component_def dest: in_set_butlastD)
  with Cons show ?case by simp
qed simp

lemma components_of_id:
  "\<forall>p \<in> set ps. component p \<Longrightarrow> components_of acc ps = acc @ ps"
  by (induction ps arbitrary: acc) (auto simp: resolve_component_def component_def)

text \<open>
  The components of a resolved path: those of the current directory, unless
  the path is absolute, then those of the path.
\<close>

definition resolved :: "string \<Rightarrow> string \<Rightarrow> string list" where
  "resolved cwd path =
     components_of []
       (split_on (CHR ''/'') (if take 1 path = ''/'' then '''' else cwd) @ split_on (CHR ''/'') path)"

lemma resolve_resolved: "resolve cwd path = ''/'' @ join_with ''/'' (resolved cwd path)"
  by (simp add: resolve_def resolved_def)

lemma resolved_component: "p \<in> set (resolved cwd path) \<Longrightarrow> component p"
  unfolding resolved_def
  using components_of_component [of "[]"] split_on_no_sep by (metis Un_iff empty_iff list.set(1) set_append)

lemma split_normal:
  assumes "\<forall>p \<in> set ps. component p"
  shows "components_of [] (split_on (CHR ''/'') (''/'' @ join_with ''/'' ps)) = ps"
proof (cases "ps = []")
  case False
  then have "split_on (CHR ''/'') (join_with ''/'' ps) = ps"
    using assms by (intro split_join) (auto simp: component_def)
  then show ?thesis using components_of_id [OF assms, of "[]"] by (simp add: resolve_component_def)
qed (simp add: resolve_component_def)

lemma resolve_split:
  "components_of [] (split_on (CHR ''/'') (resolve cwd path)) = resolved cwd path"
  unfolding resolve_resolved by (rule split_normal) (use resolved_component in blast)

lemma split_root: "components_of [] (split_on (CHR ''/'') ''/'') = []"
  by (simp add: resolve_component_def)

text \<open>
  What \<open>resolve\<close> returns is a normalised absolute path: splitting it at the
  slashes gives, after the leading empty piece, exactly components that are
  neither empty nor dots, nor contain a slash. Resolving it again changes
  nothing, whatever the current directory, and resolving a relative path
  against a directory is resolving the two joined by a slash.
\<close>

theorem resolve_normal:
  "(\<exists>ps. resolve cwd path = ''/'' @ join_with ''/'' ps \<and> (\<forall>p. p \<in> set ps \<longrightarrow> component p)) \<and>
   resolve dir (resolve cwd path) = resolve cwd path \<and>
   (take 1 path \<noteq> ''/'' \<longrightarrow> take 1 cwd = ''/'' \<longrightarrow>
      resolve cwd path = resolve dir (cwd @ ''/'' @ path))"
proof (intro conjI impI)
  show "\<exists>ps. resolve cwd path = ''/'' @ join_with ''/'' ps \<and> (\<forall>p. p \<in> set ps \<longrightarrow> component p)"
    using resolve_resolved resolved_component by blast
next
  have "resolved dir (resolve cwd path) = resolved cwd path"
    using resolve_split [of cwd path]
    by (simp add: resolved_def resolve_resolved resolve_component_def)
  then show "resolve dir (resolve cwd path) = resolve cwd path" by (simp add: resolve_resolved)
next
  assume rel: "take 1 path \<noteq> ''/''" and ab: "take 1 cwd = ''/''"
  have "split_on (CHR ''/'') (cwd @ CHR ''/'' # path) = split_on (CHR ''/'') cwd @ split_on (CHR ''/'') path"
    by (induction cwd) (auto split: list.split)
  moreover have "take 1 (cwd @ ''/'' @ path) = ''/''" using ab by (cases cwd) auto
  ultimately show "resolve cwd path = resolve dir (cwd @ ''/'' @ path)"
    using rel by (simp add: resolve_resolved resolved_def resolve_component_def)
qed

theorem resolve_normal_witness:
  "resolve ''/usr'' ''../etc/./hello'' = resolve ''/'' (''/usr'' @ ''/'' @ ''../etc/./hello'') \<and>
   resolve ''/usr'' ''../etc/./hello'' = ''/etc/hello''"
  using resolve_normal [of "''/usr''" "''../etc/./hello''" "''/''"]
  by (simp add: resolve_def resolve_component_def)

end
