(* ===== verification/DirTree.thy ===== *)
theory DirTree
  imports Inode
begin

text \<open>
  The abstract specification of a hierarchical file system: which entry of
  which directory names which inode, what kind each inode has, the parent link
  of each directory and which directories have been removed. The laws of a
  directory tree are \<open>tree_ok\<close>; every elementary change of the tree keeps them
  under the conditions the operations of a file system have to check.
\<close>

record dtree =
  tE :: "nat \<Rightarrow> string \<Rightarrow> nat option"
  tK :: "nat \<Rightarrow> InodeKind option"
  tP :: "nat \<Rightarrow> nat option"
  tD :: "nat \<Rightarrow> bool"

definition parent_rel :: "dtree \<Rightarrow> (nat \<times> nat) set" where
  "parent_rel T = {(p, c). tP T c = Some p}"

definition tree_new :: "nat \<Rightarrow> InodeKind \<Rightarrow> nat option \<Rightarrow> dtree \<Rightarrow> dtree" where
  "tree_new i k par T = T\<lparr> tK := (tK T)(i \<mapsto> k), tP := (tP T)(i := par) \<rparr>"

definition tree_link :: "nat \<Rightarrow> string \<Rightarrow> nat \<Rightarrow> dtree \<Rightarrow> dtree" where
  "tree_link d n i T = T\<lparr> tE := (tE T)(d := (tE T d)(n \<mapsto> i)) \<rparr>"

definition tree_unlink :: "nat \<Rightarrow> string \<Rightarrow> dtree \<Rightarrow> dtree" where
  "tree_unlink d n T = T\<lparr> tE := (tE T)(d := (tE T d)(n := None)) \<rparr>"

definition tree_kill :: "nat \<Rightarrow> dtree \<Rightarrow> dtree" where
  "tree_kill i T = T\<lparr> tD := (tD T)(i := True) \<rparr>"

definition tree_parent :: "nat \<Rightarrow> nat \<Rightarrow> dtree \<Rightarrow> dtree" where
  "tree_parent i t T = T\<lparr> tP := (tP T)(i \<mapsto> t) \<rparr>"

definition tree_drop :: "nat \<Rightarrow> dtree \<Rightarrow> dtree" where
  "tree_drop i T =
     T\<lparr> tE := (tE T)(i := Map.empty), tK := (tK T)(i := None), tP := (tP T)(i := None),
        tD := (tD T)(i := False) \<rparr>"

lemmas tree_ops = tree_new_def tree_link_def tree_unlink_def tree_kill_def tree_parent_def tree_drop_def

text \<open>
  The laws, for the root \<open>r\<close> and the next free inode number \<open>N\<close>: an entry is in
  a directory that has not been removed and names an inode that exists; no
  inode has two names; a named directory knows its parent; a directory without
  a name has been removed; no directory lies below itself.
\<close>

definition links_ok :: "nat \<Rightarrow> dtree \<Rightarrow> bool" where
  "links_ok r T \<longleftrightarrow>
     (\<forall>d n i. tE T d n = Some i \<longrightarrow>
        tK T d = Some KDirectory \<and> \<not> tD T d \<and> tK T i \<noteq> None \<and> i \<noteq> r \<and> component n)"

definition single_ok :: "dtree \<Rightarrow> bool" where
  "single_ok T \<longleftrightarrow>
     (\<forall>d n d' n' i. tE T d n = Some i \<longrightarrow> tE T d' n' = Some i \<longrightarrow> d = d' \<and> n = n')"

definition child_ok :: "dtree \<Rightarrow> bool" where
  "child_ok T \<longleftrightarrow>
     (\<forall>d n i. tE T d n = Some i \<longrightarrow> tK T i = Some KDirectory \<longrightarrow> tP T i = Some d \<and> \<not> tD T i)"

definition live_ok :: "nat \<Rightarrow> dtree \<Rightarrow> bool" where
  "live_ok r T \<longleftrightarrow>
     (\<forall>i. tK T i = Some KDirectory \<longrightarrow> \<not> tD T i \<longrightarrow> i \<noteq> r \<longrightarrow> (\<exists>d n. tE T d n = Some i))"

definition ids_ok :: "nat \<Rightarrow> dtree \<Rightarrow> bool" where
  "ids_ok N T \<longleftrightarrow>
     (\<forall>i. tK T i \<noteq> None \<longrightarrow> i < N) \<and>
     (\<forall>c p. tP T c = Some p \<longrightarrow> tK T c = Some KDirectory \<and> p < N)"

definition root_ok :: "nat \<Rightarrow> dtree \<Rightarrow> bool" where
  "root_ok r T \<longleftrightarrow> tK T r = Some KDirectory \<and> tP T r = None \<and> \<not> tD T r"

definition tree_ok :: "nat \<Rightarrow> nat \<Rightarrow> dtree \<Rightarrow> bool" where
  "tree_ok r N T \<longleftrightarrow>
     root_ok r T \<and> ids_ok N T \<and> links_ok r T \<and> single_ok T \<and> child_ok T \<and> live_ok r T \<and>
     acyclic (parent_rel T)"

lemmas tree_laws = root_ok_def ids_ok_def links_ok_def single_ok_def child_ok_def live_ok_def

lemma tree_okI:
  assumes "root_ok r T" "ids_ok N T" "links_ok r T" "single_ok T" "child_ok T" "live_ok r T"
    "acyclic (parent_rel T)"
  shows "tree_ok r N T"
  using assms by (simp add: tree_ok_def)

lemma tree_okD:
  assumes "tree_ok r N T"
  shows "root_ok r T" "ids_ok N T" "links_ok r T" "single_ok T" "child_ok T" "live_ok r T"
    "acyclic (parent_rel T)"
  using assms by (simp_all add: tree_ok_def)

lemma links_okD:
  assumes "tree_ok r N T" "tE T d n = Some i"
  shows "tK T d = Some KDirectory" "\<not> tD T d" "tK T i \<noteq> None" "i \<noteq> r" "component n" "i < N" "d < N"
  using assms by (auto simp: tree_ok_def links_ok_def ids_ok_def)

lemma single_okD:
  assumes "tree_ok r N T" "tE T d n = Some i" "tE T d' n' = Some i"
  shows "d = d'" "n = n'"
  using assms unfolding tree_ok_def single_ok_def by blast+

lemma parent_rel_finite:
  assumes "ids_ok N T"
  shows "finite (parent_rel T)"
  by (rule finite_subset [of _ "{..<N} \<times> {..<N}"]) (use assms in \<open>auto simp: ids_ok_def parent_rel_def\<close>)

text \<open>A path of parent links from a directory that exists only passes directories that exist.\<close>

lemma parent_path_exists:
  assumes "ids_ok N T" "(i, j) \<in> (parent_rel T)\<^sup>*" "tK T i = Some KDirectory"
  shows "(i, j) \<in> {(p, c). tP T c = Some p \<and> tK T p = Some KDirectory}\<^sup>* \<and> tK T j = Some KDirectory"
  using assms(2)
proof (induction rule: rtrancl_induct)
  case base
  then show ?case using assms(3) by simp
next
  case (step y z)
  then have "(y, z) \<in> {(p, c). tP T c = Some p \<and> tK T p = Some KDirectory}" "tK T z = Some KDirectory"
    using assms(1) by (auto simp: parent_rel_def ids_ok_def)
  then show ?case using step.IH by (blast intro: rtrancl_into_rtrancl)
qed

text \<open>A directory is never its own child.\<close>

lemma not_own_child:
  assumes "tree_ok r N T" "tE T d n = Some i" "tK T i = Some KDirectory"
  shows "i \<noteq> d"
proof
  assume "i = d"
  then have "(d, d) \<in> parent_rel T"
    using tree_okD(5) [OF assms(1)] assms(2,3) by (auto simp: child_ok_def parent_rel_def)
  then show False using tree_okD(7) [OF assms(1)] by (auto simp: acyclic_def)
qed

section \<open>Elementary changes\<close>

lemma parent_rel_same: "tP T' = tP T \<Longrightarrow> parent_rel T' = parent_rel T"
  by (simp add: parent_rel_def)

text \<open>A new inode with the next number, named in a live directory.\<close>

lemma tree_ok_create:
  assumes ok: "tree_ok r N T" and d: "tK T d = Some KDirectory" "\<not> tD T d"
    and n: "tE T d n = None" "component n" and dead: "\<not> tD T N"
  shows "tree_ok r (Suc N) (tree_link d n N (tree_new N k (if k = KDirectory then Some d else None) T))"
    (is "tree_ok r _ ?T")
proof (rule tree_okI)
  note laws = tree_okD [OF ok]
  have N: "tK T N = None" using laws(2) unfolding ids_ok_def by (metis less_irrefl)
  have fresh: "tK T N = None" "\<And>x m. tE T x m \<noteq> Some N" "N \<noteq> r" "d \<noteq> N" "d < N"
    using laws(1,2) d N links_okD(3) [OF ok] unfolding root_ok_def ids_ok_def
    by (blast, blast, fastforce, fastforce, blast)
  show "root_ok r ?T" using laws(1) fresh by (auto simp: tree_ops root_ok_def)
  show "ids_ok (Suc N) ?T"
    using laws(2) fresh by (auto simp: tree_ops ids_ok_def less_Suc_eq split: if_splits)
  show "links_ok r ?T"
    using laws(3) fresh d n by (auto simp: tree_ops links_ok_def split: if_splits)
  show "single_ok ?T"
    using laws(4) fresh(2) by (simp add: tree_ops single_ok_def) blast
  show "child_ok ?T"
    using laws(5) fresh dead by (simp add: tree_ops child_ok_def)
  have E: "tE ?T x m = (if x = d \<and> m = n then Some N else tE T x m)" for x m
    by (simp add: tree_ops)
  show "live_ok r ?T"
    unfolding live_ok_def
  proof (intro allI impI)
    fix j assume j: "tK ?T j = Some KDirectory" "\<not> tD ?T j" "j \<noteq> r"
    show "\<exists>x m. tE ?T x m = Some j"
    proof (cases "j = N")
      case True
      then have "tE ?T d n = Some j" unfolding E by simp
      then show ?thesis by blast
    next
      case False
      then obtain x m where "tE T x m = Some j"
        using j laws(6) unfolding live_ok_def by (auto simp: tree_ops)
      then have "tE ?T x m = Some j" using n unfolding E by auto
      then show ?thesis by blast
    qed
  qed
  have "(N, x) \<notin> parent_rel T" for x using laws(2) by (auto simp: parent_rel_def ids_ok_def)
  then have "(N, d) \<notin> (parent_rel T)\<^sup>*" using fresh(4) by (blast elim: converse_rtranclE)
  then have "acyclic (insert (d, N) (parent_rel T))" using laws(7) unfolding acyclic_insert by blast
  then show "acyclic (parent_rel ?T)"
    by (rule acyclic_subset) (auto simp: parent_rel_def tree_ops split: if_splits)
qed

text \<open>Removing the name of a file.\<close>

lemma tree_ok_unlink:
  assumes ok: "tree_ok r N T" and e: "tE T d n = Some i" "tK T i \<noteq> Some KDirectory"
  shows "tree_ok r N (tree_unlink d n T)" (is "tree_ok r _ ?T")
proof (rule tree_okI)
  note laws = tree_okD [OF ok]
  show "root_ok r ?T" "ids_ok N ?T" using laws by (simp_all add: tree_ops root_ok_def ids_ok_def)
  show "links_ok r ?T" using laws(3) by (simp add: tree_ops links_ok_def)
  show "single_ok ?T" using laws(4) unfolding single_ok_def tree_ops by simp blast
  show "child_ok ?T" using laws(5) by (simp add: tree_ops child_ok_def)
  show "live_ok r ?T"
    using laws(6) e unfolding tree_ops live_ok_def by simp (metis option.inject)
  show "acyclic (parent_rel ?T)" using laws(7) by (simp add: tree_ops parent_rel_def)
qed

text \<open>Removing the name of an empty directory, which is marked as removed.\<close>

lemma tree_ok_rmdir:
  assumes ok: "tree_ok r N T" and e: "tE T d n = Some i" "\<And>m. tE T i m = None"
  shows "tree_ok r N (tree_unlink d n (tree_kill i T))" (is "tree_ok r _ ?T")
proof (rule tree_okI)
  note laws = tree_okD [OF ok]
  have i: "i \<noteq> r" using links_okD [OF ok e(1)] by simp
  show "root_ok r ?T" "ids_ok N ?T" using laws i by (simp_all add: tree_ops root_ok_def ids_ok_def)
  show "links_ok r ?T" using laws(3) e(2) by (auto simp: tree_ops links_ok_def)
  show "single_ok ?T" using laws(4) unfolding single_ok_def tree_ops by simp blast
  show "child_ok ?T"
    using laws(4,5) e(1) unfolding tree_ops child_ok_def single_ok_def by simp blast
  show "live_ok r ?T"
    using laws(6) e unfolding tree_ops live_ok_def by simp (metis option.inject)
  show "acyclic (parent_rel ?T)" using laws(7) by (simp add: tree_ops parent_rel_def)
qed

text \<open>Forgetting an inode without a name: a file or a removed directory.\<close>

lemma tree_ok_drop:
  assumes ok: "tree_ok r N T" and i: "\<And>d n. tE T d n \<noteq> Some i" "\<And>m. tE T i m = None" "i \<noteq> r"
  shows "tree_ok r N (tree_drop i T)" (is "tree_ok r _ ?T")
proof (rule tree_okI)
  note laws = tree_okD [OF ok]
  show "root_ok r ?T" using laws(1) i(3) by (simp add: tree_ops root_ok_def)
  show "ids_ok N ?T" using laws(2) by (simp add: tree_ops ids_ok_def)
  show "links_ok r ?T" using laws(3) i(1) by (auto simp: tree_ops links_ok_def)
  show "single_ok ?T" using laws(4) unfolding single_ok_def tree_ops by simp
  show "child_ok ?T" using laws(5) i by (simp add: tree_ops child_ok_def)
  show "live_ok r ?T"
    using laws(6) i unfolding tree_ops live_ok_def by simp (metis option.distinct(1))
  show "acyclic (parent_rel ?T)"
    by (rule acyclic_subset [OF laws(7)]) (auto simp: parent_rel_def tree_ops)
qed

text \<open>Moving an inode to a free name; a directory not below itself.\<close>

lemma tree_ok_move:
  assumes ok: "tree_ok r N T" and e: "tE T d old = Some i" and t: "tK T t = Some KDirectory" "\<not> tD T t"
    and new: "tE T t new = None" "component new"
    and below: "tK T i = Some KDirectory \<Longrightarrow> (i, t) \<notin> (parent_rel T)\<^sup>*"
  shows "tree_ok r N
    (let T1 = tree_unlink d old (tree_link t new i T) in
     if tK T i = Some KDirectory then tree_parent i t T1 else T1)" (is "tree_ok r _ ?T")
proof (rule tree_okI)
  note laws = tree_okD [OF ok] and link = links_okD [OF ok e]
  have E: "tE ?T x m = (if x = t \<and> m = new then Some i else if x = d \<and> m = old then None else tE T x m)" for x m
    using e new by (auto simp: tree_ops Let_def)
  have K: "tK ?T = tK T" "tD ?T = tD T" by (simp_all add: tree_ops Let_def)
  have P: "tP ?T = (if tK T i = Some KDirectory then (tP T)(i \<mapsto> t) else tP T)"
    by (simp add: tree_ops Let_def)
  show "root_ok r ?T" using laws(1) link(4) by (simp add: root_ok_def K P)
  show "ids_ok N ?T" using laws(2) t by (auto simp: ids_ok_def K P split: if_splits)
  show "links_ok r ?T"
    using laws(3) t new(2) link by (auto simp: links_ok_def E K split: if_splits)
  show "single_ok ?T"
    unfolding single_ok_def
  proof (intro allI impI)
    fix x m x' m' j assume "tE ?T x m = Some j" "tE ?T x' m' = Some j"
    then show "x = x' \<and> m = m'"
      using single_okD [OF ok] e unfolding E by (metis option.distinct(1) option.inject)
  qed
  show "child_ok ?T"
    unfolding child_ok_def K
  proof (intro allI impI)
    fix x m j assume j: "tE ?T x m = Some j" "tK T j = Some KDirectory"
    show "tP ?T j = Some x \<and> \<not> tD T j"
    proof (cases "j = i")
      case True
      have "x = t"
        using j(1) single_okD [OF ok e] True unfolding E by (metis option.distinct(1))
      then show ?thesis using True j(2) laws(5) e unfolding P child_ok_def by simp
    next
      case False
      then have "tE T x m = Some j" using j(1) unfolding E by (auto split: if_splits)
      then show ?thesis using False j(2) laws(5) unfolding P child_ok_def by simp
    qed
  qed
  show "live_ok r ?T"
    unfolding live_ok_def K
  proof (intro allI impI)
    fix j assume "tK T j = Some KDirectory" "\<not> tD T j" "j \<noteq> r"
    then obtain x m where x: "tE T x m = Some j" using laws(6) unfolding live_ok_def by blast
    show "\<exists>x m. tE ?T x m = Some j"
    proof (cases "j = i")
      case True
      then have "tE ?T t new = Some j" unfolding E by simp
      then show ?thesis by blast
    next
      case False
      then have "tE ?T x m = Some j" using x e new(1) unfolding E by auto
      then show ?thesis by blast
    qed
  qed
  have "acyclic (insert (t, i) (parent_rel T))" if "tK T i = Some KDirectory"
    using laws(7) below that by (simp add: acyclic_insert)
  moreover have "parent_rel ?T \<subseteq> (if tK T i = Some KDirectory then insert (t, i) (parent_rel T) else parent_rel T)"
    by (auto simp: parent_rel_def P split: if_splits)
  ultimately show "acyclic (parent_rel ?T)"
    using laws(7) by (cases "tK T i = Some KDirectory") (auto intro: acyclic_subset)
qed

end
