(* ===== verification/RamFs.thy ===== *)
theory RamFs
  imports Inode
begin

text \<open>
  The in-memory file system (\<open>kernel/src/fs/ramfs.rs\<close>). The shared objects of
  one mount are a store from inode numbers to files and directories. An
  \<open>Arc\<close> to an inode is its number; the references outside the directory maps
  (open files, running calls, working directories) are the list \<open>held\<close>, and
  an inode no reference is left to is dropped, as the last \<open>Arc\<close> does. A
  parent link is weak: upgrading it fails when the parent has been dropped.

  Every operation runs under the locks of the directories it touches and is
  one step; \<open>rename\<close> is split where it takes the locks of the entry maps, since
  other calls can run between its checks and its changes.
\<close>

section \<open>State\<close>

type_synonym ino = nat

record RamDir =
  d_parent :: "ino option"
  d_entries :: "(string \<times> ino) list"
  d_dead :: bool

datatype ram_inode = RamFile "byte list" | Dir RamDir

record ramfs =
  fs_id :: u64
  next_ino :: u64
  used :: u64
  limit :: u64
  inodes :: "ino \<Rightarrow> ram_inode option"
  root_ino :: ino
  held :: "ino list"

definition DEFAULT_LIMIT :: u64 where "DEFAULT_LIMIT = 64 * 2 ^ 20"

definition root_limit :: "u64 \<Rightarrow> u64" where
  "root_limit usable = max (usable div 2) DEFAULT_LIMIT"

definition allocate_ino :: "ramfs \<Rightarrow> ino \<times> ramfs" where
  "allocate_ino s = (next_ino s, s\<lparr> next_ino := (next_ino s + 1) mod 2 ^ 64 \<rparr>)"

definition reserve :: "ramfs \<Rightarrow> u64 \<Rightarrow> unit fs_result \<times> ramfs" where
  "reserve s bytes =
     (case checked_add (used s) bytes of
        Some tot \<Rightarrow> if tot \<le> limit s then (Ok (), s\<lparr> used := tot \<rparr>) else (Err ENOSPC, s)
      | None \<Rightarrow> (Err ENOSPC, s))"

definition ram_release :: "ramfs \<Rightarrow> u64 \<Rightarrow> ramfs" where
  "ram_release s bytes = s\<lparr> used := wrapping_sub (used s) bytes \<rparr>"

definition put_inode :: "ramfs \<Rightarrow> ino \<Rightarrow> ram_inode \<Rightarrow> ramfs" where
  "put_inode s i n = s\<lparr> inodes := (inodes s)(i \<mapsto> n) \<rparr>"

definition ramdir_new :: "ramfs \<Rightarrow> ino option \<Rightarrow> ino \<times> ramfs" where
  "ramdir_new s par =
     (let (i, s1) = allocate_ino s in
      (i, put_inode s1 i (Dir \<lparr> d_parent = par, d_entries = [], d_dead = False \<rparr>)))"

definition with_limit :: "u64 \<Rightarrow> u64 \<Rightarrow> ramfs" where
  "with_limit fsid lim =
     (let (r, s) = ramdir_new
        \<lparr> fs_id = fsid, next_ino = 1, used = 0, limit = lim, inodes = (\<lambda>_. None),
          root_ino = 0, held = [] \<rparr> None in
      s\<lparr> root_ino := r \<rparr>)"

section \<open>Views\<close>

definition dir_of :: "ramfs \<Rightarrow> ino \<Rightarrow> RamDir option" where
  "dir_of s i = (case inodes s i of Some (Dir d) \<Rightarrow> Some d | _ \<Rightarrow> None)"

definition file_of :: "ramfs \<Rightarrow> ino \<Rightarrow> byte list option" where
  "file_of s i = (case inodes s i of Some (RamFile b) \<Rightarrow> Some b | _ \<Rightarrow> None)"

definition kind_of :: "ramfs \<Rightarrow> ino \<Rightarrow> InodeKind option" where
  "kind_of s i =
     (case inodes s i of
        None \<Rightarrow> None | Some (RamFile _) \<Rightarrow> Some KFile | Some (Dir _) \<Rightarrow> Some KDirectory)"

definition ents :: "ramfs \<Rightarrow> ino \<Rightarrow> (string \<times> ino) list" where
  "ents s d = (case dir_of s d of Some r \<Rightarrow> d_entries r | None \<Rightarrow> [])"

definition entry :: "ramfs \<Rightarrow> ino \<Rightarrow> string \<Rightarrow> ino option" where
  "entry s d n = map_of (ents s d) n"

definition is_dead :: "ramfs \<Rightarrow> ino \<Rightarrow> bool" where
  "is_dead s d = (case dir_of s d of Some r \<Rightarrow> d_dead r | None \<Rightarrow> False)"

definition set_dir :: "ramfs \<Rightarrow> ino \<Rightarrow> (RamDir \<Rightarrow> RamDir) \<Rightarrow> ramfs" where
  "set_dir s i f = (case dir_of s i of Some d \<Rightarrow> put_inode s i (Dir (f d)) | None \<Rightarrow> s)"

definition set_entries :: "ramfs \<Rightarrow> ino \<Rightarrow> (string \<times> ino) list \<Rightarrow> ramfs" where
  "set_entries s i es = set_dir s i (\<lambda>d. d\<lparr> d_entries := es \<rparr>)"

section \<open>References\<close>

text \<open>
  Whether some \<open>Arc\<close> to the inode is left: an entry of a directory, a
  reference held outside, or the root kept by the file system itself.
\<close>

definition named :: "ramfs \<Rightarrow> ino \<Rightarrow> bool" where
  "named s i = list_ex (\<lambda>d. i \<in> snd ` set (ents s d)) [0..<next_ino s]"

definition referenced :: "ramfs \<Rightarrow> ino \<Rightarrow> bool" where
  "referenced s i \<longleftrightarrow> i = root_ino s \<or> i \<in> set (held s) \<or> named s i"

text \<open>
  Dropping a reference: with the last one the object goes, a file gives its
  bytes back (\<open>Drop for RamFile\<close>), and a directory drops its entries. Every
  level removes an inode, so \<open>next_ino\<close> bounds the depth.
\<close>

fun drop_ref :: "nat \<Rightarrow> ramfs \<Rightarrow> ino \<Rightarrow> ramfs" where
  "drop_ref 0 s i = s"
| "drop_ref (Suc k) s i =
     (if referenced s i then s
      else
        (case inodes s i of
           None \<Rightarrow> s
         | Some (RamFile b) \<Rightarrow> ram_release (s\<lparr> inodes := (inodes s)(i := None) \<rparr>) (length b)
         | Some (Dir d) \<Rightarrow>
             foldl (\<lambda>s j. drop_ref k s j) (s\<lparr> inodes := (inodes s)(i := None) \<rparr>)
               (map snd (d_entries d))))"

definition dropped :: "ramfs \<Rightarrow> ino \<Rightarrow> ramfs" where
  "dropped s i = drop_ref (Suc (next_ino s)) s i"

definition acquire :: "ramfs \<Rightarrow> ino \<Rightarrow> ramfs" where
  "acquire s i = s\<lparr> held := i # held s \<rparr>"

definition put_back :: "ramfs \<Rightarrow> ino \<Rightarrow> ramfs" where
  "put_back s i = dropped (s\<lparr> held := remove1 i (held s) \<rparr>) i"

section \<open>Files\<close>

text \<open>\<open>oom\<close> is whether \<open>try_reserve\<close> fails for lack of memory.\<close>

definition resize :: "bool \<Rightarrow> ramfs \<Rightarrow> ino \<Rightarrow> byte list \<Rightarrow> usize \<Rightarrow> unit fs_result \<times> ramfs" where
  "resize oom s i b new_length =
     (let old_length = length b in
      if old_length < new_length then
        (let grow = new_length - old_length in
         case reserve s grow of
           (Err e, s1) \<Rightarrow> (Err e, s1)
         | (Ok _, s1) \<Rightarrow>
             if oom then (Err ENOSPC, ram_release s1 grow)
             else (Ok (), put_inode s1 i (RamFile (b @ replicate grow 0))))
      else (Ok (), ram_release (put_inode s i (RamFile (take new_length b))) (old_length - new_length)))"

definition file_read_at :: "byte list \<Rightarrow> u64 \<Rightarrow> usize \<Rightarrow> byte list" where
  "file_read_at b offset n =
     (if length b \<le> offset then [] else take (min n (length b - offset)) (drop offset b))"

definition ram_read_at :: "ramfs \<Rightarrow> ino \<Rightarrow> u64 \<Rightarrow> usize \<Rightarrow> byte list fs_result" where
  "ram_read_at s i offset n =
     (case file_of s i of Some b \<Rightarrow> Ok (file_read_at b offset n) | None \<Rightarrow> Err EISDIR)"

text \<open>\<open>data[start..end].copy_from_slice(buf)\<close>.\<close>

definition overwrite :: "byte list \<Rightarrow> nat \<Rightarrow> byte list \<Rightarrow> byte list" where
  "overwrite b start buf = take start b @ buf @ drop (start + length buf) b"

definition ram_write_at ::
    "bool \<Rightarrow> ramfs \<Rightarrow> ino \<Rightarrow> u64 \<Rightarrow> byte list \<Rightarrow> usize fs_result \<times> ramfs" where
  "ram_write_at oom s i offset buf =
     (case file_of s i of
        None \<Rightarrow> (Err EISDIR, s)
      | Some b \<Rightarrow>
          (case checked_add offset (length buf) of
             None \<Rightarrow> (Err EINVAL, s)
           | Some stop \<Rightarrow>
               (case (if length b < stop then resize oom s i b stop else (Ok (), s)) of
                  (Err e, s1) \<Rightarrow> (Err e, s1)
                | (Ok _, s1) \<Rightarrow>
                    (case file_of s1 i of
                       None \<Rightarrow> (Err EISDIR, s1)
                     | Some b1 \<Rightarrow>
                         (Ok (length buf), put_inode s1 i (RamFile (overwrite b1 offset buf)))))))"

definition ram_truncate :: "bool \<Rightarrow> ramfs \<Rightarrow> ino \<Rightarrow> u64 \<Rightarrow> unit fs_result \<times> ramfs" where
  "ram_truncate oom s i n =
     (case file_of s i of Some b \<Rightarrow> resize oom s i b n | None \<Rightarrow> (Err EINVAL, s))"

definition subdirectories :: "ramfs \<Rightarrow> ino \<Rightarrow> nat" where
  "subdirectories s d = length (filter (\<lambda>(_, i). kind_of s i = Some KDirectory) (ents s d))"

definition ram_stat :: "ramfs \<Rightarrow> ino \<Rightarrow> Stat option" where
  "ram_stat s i =
     (case inodes s i of
        None \<Rightarrow> None
      | Some (RamFile b) \<Rightarrow>
          Some \<lparr> st_ino = i, st_fs_id = fs_id s, st_kind = KFile, st_size = length b, st_nlink = 1 \<rparr>
      | Some (Dir d) \<Rightarrow>
          Some \<lparr> st_ino = i, st_fs_id = fs_id s, st_kind = KDirectory, st_size = 0,
                 st_nlink = 2 + subdirectories s i \<rparr>)"

section \<open>Directories\<close>

definition ram_lookup :: "ramfs \<Rightarrow> ino \<Rightarrow> string \<Rightarrow> ino fs_result" where
  "ram_lookup s d n =
     (case dir_of s d of None \<Rightarrow> Err ENOTDIR | Some _ \<Rightarrow> ok_or (entry s d n) ENOENT)"

definition ram_create :: "ramfs \<Rightarrow> ino \<Rightarrow> string \<Rightarrow> InodeKind \<Rightarrow> ino fs_result \<times> ramfs" where
  "ram_create s d n k =
     (case dir_of s d of
        None \<Rightarrow> (Err ENOTDIR, s)
      | Some r \<Rightarrow>
          (case check_name n of
             Err e \<Rightarrow> (Err e, s)
           | Ok _ \<Rightarrow>
               if d_dead r then (Err ENOENT, s)
               else if map_of (d_entries r) n \<noteq> None then (Err EEXIST, s)
               else
                 (case k of
                    KFile \<Rightarrow>
                      (let (i, s1) = allocate_ino s in
                       (Ok i, set_entries (put_inode s1 i (RamFile [])) d
                                (bt_insert n i (d_entries r))))
                  | KDirectory \<Rightarrow>
                      (let (i, s1) = ramdir_new s (Some d) in
                       (Ok i, set_entries s1 d (bt_insert n i (d_entries r))))
                  | KCharDevice \<Rightarrow> (Err EINVAL, s))))"

definition ram_unlink :: "ramfs \<Rightarrow> ino \<Rightarrow> string \<Rightarrow> unit fs_result \<times> ramfs" where
  "ram_unlink s d n =
     (case dir_of s d of
        None \<Rightarrow> (Err ENOTDIR, s)
      | Some r \<Rightarrow>
          (case map_of (d_entries r) n of
             None \<Rightarrow> (Err ENOENT, s)
           | Some i \<Rightarrow>
               if kind_of s i = Some KDirectory then (Err EISDIR, s)
               else (Ok (), dropped (set_entries s d (bt_remove n (d_entries r))) i)))"

definition ram_rmdir :: "ramfs \<Rightarrow> ino \<Rightarrow> string \<Rightarrow> unit fs_result \<times> ramfs" where
  "ram_rmdir s d n =
     (case dir_of s d of
        None \<Rightarrow> (Err ENOTDIR, s)
      | Some r \<Rightarrow>
          (case map_of (d_entries r) n of
             None \<Rightarrow> (Err ENOENT, s)
           | Some i \<Rightarrow>
               (case dir_of s i of
                  None \<Rightarrow> (Err ENOTDIR, s)
                | Some c \<Rightarrow>
                    if d_entries c \<noteq> [] then (Err ENOTEMPTY, s)
                    else
                      let s1 = set_dir s i (\<lambda>c. c\<lparr> d_dead := True \<rparr>) in
                      (Ok (), dropped (set_entries s1 d (bt_remove n (ents s1 d))) i))))"

definition ram_entries :: "ramfs \<Rightarrow> ino \<Rightarrow> DirEntry list fs_result" where
  "ram_entries s d =
     (case dir_of s d of
        None \<Rightarrow> Err ENOTDIR
      | Some r \<Rightarrow>
          Ok (map (\<lambda>(n, i). \<lparr> de_name = n, de_ino = i,
                              de_kind = (case kind_of s i of Some k \<Rightarrow> k | None \<Rightarrow> KFile) \<rparr>)
                (d_entries r)))"

section \<open>Renaming\<close>

definition upgrade_parent :: "ramfs \<Rightarrow> ino \<Rightarrow> ino option" where
  "upgrade_parent s d =
     (case dir_of s d of
        None \<Rightarrow> None
      | Some r \<Rightarrow>
          (case d_parent r of None \<Rightarrow> None | Some p \<Rightarrow> if dir_of s p \<noteq> None then Some p else None))"

text \<open>The walk up the parent links; \<^term>\<open>None\<close> when it never ends.\<close>

partial_function (option) is_within_loop :: "ramfs \<Rightarrow> ino option \<Rightarrow> ino \<Rightarrow> bool option" where
  "is_within_loop s current ancestor =
     (case current of
        None \<Rightarrow> Some False
      | Some d \<Rightarrow>
          if d = ancestor then Some True else is_within_loop s (upgrade_parent s d) ancestor)"

definition is_within :: "ramfs \<Rightarrow> ino \<Rightarrow> ino \<Rightarrow> bool option" where
  "is_within s d ancestor = is_within_loop s (Some d) ancestor"

text \<open>
  Which of the two directories is locked first. The outcome matters only for
  the order of the locks; computing it walks the tree twice more.
\<close>

definition source_first :: "ramfs \<Rightarrow> ino \<Rightarrow> ino \<Rightarrow> bool option" where
  "source_first s d t =
     Option.bind (is_within s t d) (\<lambda>below.
       if below then Some True
       else Option.bind (is_within s d t) (\<lambda>above. Some (if above then False else d < t)))"

text \<open>
  The part of \<open>rename\<close> before the entry maps are locked: \<open>Err\<close> and \<open>Ok True\<close>
  (nothing to do) return, \<open>Ok False\<close> goes on.
\<close>

definition rename_check ::
    "ramfs \<Rightarrow> ino \<Rightarrow> string \<Rightarrow> u64 \<times> ino \<Rightarrow> string \<Rightarrow> bool fs_result option" where
  "rename_check s d old target new =
     (case check_name new of
        Err e \<Rightarrow> Some (Err e)
      | Ok _ \<Rightarrow>
          let t = snd target in
          if fst target \<noteq> fs_id s \<or> dir_of s t = None then Some (Err EXDEV)
          else if t = d \<and> old = new then Some (bind_result (ram_lookup s d old) (\<lambda>_. Ok True))
          else if is_dead s t then Some (Err ENOENT)
          else
            (case ram_lookup s d old of
               Err e \<Rightarrow> Some (Err e)
             | Ok source \<Rightarrow>
                 Option.bind
                   (if dir_of s source \<noteq> None then is_within s t source else Some False)
                   (\<lambda>below.
                      if below then Some (Err EINVAL)
                      else Option.bind (source_first s d t) (\<lambda>_. Some (Ok False)))))"

text \<open>
  The part with the entry maps of the two directories locked. Locking the
  map of a directory that is locked already never returns (\<^term>\<open>None\<close>).
\<close>

definition rename_replace :: "ramfs \<Rightarrow> ino \<Rightarrow> ino \<Rightarrow> ino \<Rightarrow> ino \<Rightarrow> (unit fs_result \<times> ramfs) option" where
  "rename_replace s d t source existing =
     (case (kind_of s source, kind_of s existing) of
        (Some KDirectory, Some KDirectory) \<Rightarrow>
          if existing = d then Some (Err ENOTEMPTY, s)
          else if existing = t then None
          else if ents s existing \<noteq> [] then Some (Err ENOTEMPTY, s)
          else Some (Ok (), set_dir s existing (\<lambda>c. c\<lparr> d_dead := True \<rparr>))
      | (Some KDirectory, _) \<Rightarrow> Some (Err ENOTDIR, s)
      | (_, Some KDirectory) \<Rightarrow> Some (Err EISDIR, s)
      | _ \<Rightarrow> Some (Ok (), s))"

definition rename_commit ::
    "ramfs \<Rightarrow> ino \<Rightarrow> string \<Rightarrow> ino \<Rightarrow> string \<Rightarrow> (unit fs_result \<times> ramfs) option" where
  "rename_commit s d old t new =
     (case entry s d old of
        None \<Rightarrow> Some (Err ENOENT, s)
      | Some source \<Rightarrow>
          Option.bind
            (case entry s t new of
               None \<Rightarrow> Some (Ok (), s)
             | Some existing \<Rightarrow> rename_replace s d t source existing)
            (\<lambda>(r, s1).
               (case r of
                  Err e \<Rightarrow> Some (Err e, s1)
                | Ok _ \<Rightarrow>
                    let s2 = set_entries s1 t (bt_insert new source (ents s1 t));
                        s3 = (case entry s t new of Some x \<Rightarrow> dropped s2 x | None \<Rightarrow> s2);
                        s4 = set_entries s3 d (bt_remove old (ents s3 d)) in
                    Some (Ok (), set_dir s4 source (\<lambda>c. c\<lparr> d_parent := Some t \<rparr>)))))"

definition ram_rename ::
    "ramfs \<Rightarrow> ino \<Rightarrow> string \<Rightarrow> u64 \<times> ino \<Rightarrow> string \<Rightarrow> (unit fs_result \<times> ramfs) option" where
  "ram_rename s d old target new =
     (if dir_of s d = None then Some (Err ENOTDIR, s)
      else
        Option.bind (rename_check s d old target new)
          (\<lambda>r. case r of
             Err e \<Rightarrow> Some (Err e, s)
           | Ok True \<Rightarrow> Some (Ok (), s)
           | Ok False \<Rightarrow> rename_commit s d old (snd target) new))"

end
