(* ===== verification/RamFsInv.thy ===== *)
theory RamFsInv
  imports RamFs DirTree
begin

text \<open>
  The invariant of the in-memory file system. \<open>tree_of\<close> abstracts a state to its
  directory tree; each elementary change of the state is the corresponding
  change of the tree, so that the tree laws carry over. Beside them the
  invariant has the exact accounting of file bytes and that nothing lives
  without a reference.
\<close>

section \<open>The directory tree of a state\<close>

definition parent_of :: "ramfs \<Rightarrow> ino \<Rightarrow> ino option" where
  "parent_of s i = (case dir_of s i of Some d \<Rightarrow> d_parent d | None \<Rightarrow> None)"

definition tree_of :: "ramfs \<Rightarrow> dtree" where
  "tree_of s = \<lparr> tE = entry s, tK = kind_of s, tP = parent_of s, tD = is_dead s \<rparr>"

lemmas view_defs = dir_of_def file_of_def kind_of_def ents_def entry_def is_dead_def parent_of_def

lemma tree_of_sel [simp]:
  "tE (tree_of s) = entry s" "tK (tree_of s) = kind_of s" "tP (tree_of s) = parent_of s"
  "tD (tree_of s) = is_dead s"
  by (simp_all add: tree_of_def)

lemma tree_of_cong: "inodes s = inodes s' \<Longrightarrow> tree_of s = tree_of s'"
  by (simp add: tree_of_def fun_eq_iff view_defs)

lemma views_cong:
  assumes "inodes s = inodes s'"
  shows "dir_of s = dir_of s'" "file_of s = file_of s'" "ents s = ents s'" "entry s = entry s'"
    "kind_of s = kind_of s'" "is_dead s = is_dead s'" "parent_of s = parent_of s'"
  using assms by (simp_all add: fun_eq_iff view_defs)

lemma kind_dir: "kind_of s i = Some KDirectory \<longleftrightarrow> dir_of s i \<noteq> None"
  by (auto simp: view_defs split: option.splits ram_inode.splits)

lemma kind_file: "kind_of s i = Some KFile \<longleftrightarrow> file_of s i \<noteq> None"
  by (auto simp: view_defs split: option.splits ram_inode.splits)

lemma kind_none: "kind_of s i = None \<longleftrightarrow> inodes s i = None"
  by (auto simp: view_defs split: option.splits ram_inode.splits)

lemma kind_cases: "kind_of s i \<in> {None, Some KFile, Some KDirectory}"
  by (auto simp: view_defs split: option.splits ram_inode.splits)

lemma dir_of_iff: "dir_of s i = Some d \<longleftrightarrow> inodes s i = Some (Dir d)"
  by (auto simp: dir_of_def split: option.splits ram_inode.splits)

lemma file_of_iff: "file_of s i = Some b \<longleftrightarrow> inodes s i = Some (RamFile b)"
  by (auto simp: file_of_def split: option.splits ram_inode.splits)

lemma entry_dir: "dir_of s d = Some r \<Longrightarrow> entry s d = map_of (d_entries r)"
  by (simp add: fun_eq_iff entry_def ents_def)

lemma tree_of_entries:
  assumes "dir_of s d \<noteq> None"
  shows "tree_of (set_entries s d es) = (tree_of s)\<lparr> tE := (entry s)(d := map_of es) \<rparr>"
  using assms by (auto simp: tree_of_def fun_eq_iff view_defs set_entries_def set_dir_def put_inode_def
      split: option.splits ram_inode.splits)

lemma tree_of_link:
  assumes "dir_of s d \<noteq> None" "bt_sorted (ents s d)"
  shows "tree_of (set_entries s d (bt_insert n i (ents s d))) = tree_link d n i (tree_of s)"
  using assms by (simp add: tree_of_entries tree_link_def entry_def fun_eq_iff)

lemma tree_of_unlink:
  assumes "dir_of s d \<noteq> None"
  shows "tree_of (set_entries s d (bt_remove n (ents s d))) = tree_unlink d n (tree_of s)"
  using assms by (simp add: tree_of_entries tree_unlink_def entry_def fun_eq_iff)

lemma tree_of_kill:
  assumes "dir_of s i \<noteq> None"
  shows "tree_of (set_dir s i (\<lambda>c. c\<lparr> d_dead := True \<rparr>)) = tree_kill i (tree_of s)"
  using assms by (auto simp: tree_of_def tree_kill_def fun_eq_iff view_defs set_dir_def put_inode_def
      split: option.splits ram_inode.splits)

lemma tree_of_parent:
  "tree_of (set_dir s i (\<lambda>c. c\<lparr> d_parent := Some t \<rparr>)) =
     (if kind_of s i = Some KDirectory then tree_parent i t (tree_of s) else tree_of s)"
  by (auto simp: tree_of_def tree_parent_def fun_eq_iff view_defs set_dir_def put_inode_def
      split: option.splits ram_inode.splits)

lemma tree_of_drop:
  "tree_of (s\<lparr> inodes := (inodes s)(i := None), used := u \<rparr>) = tree_drop i (tree_of s)"
  by (auto simp: tree_of_def tree_drop_def fun_eq_iff view_defs)

lemma tree_of_file:
  assumes "file_of s i \<noteq> None"
  shows "tree_of (put_inode s i (RamFile b)) = tree_of s"
  using assms by (auto simp: tree_of_def fun_eq_iff view_defs put_inode_def
      split: option.splits ram_inode.splits)

lemma tree_of_new:
  assumes "inodes s i = None"
  shows "tree_of (put_inode s i (RamFile b)) = tree_new i KFile None (tree_of s)"
    and "tree_of (put_inode s i (Dir \<lparr> d_parent = p, d_entries = [], d_dead = False \<rparr>)) =
           tree_new i KDirectory p (tree_of s)"
  using assms by (auto simp: tree_of_def tree_new_def fun_eq_iff view_defs put_inode_def)

lemma inodes_set_dir:
  "inodes (set_dir s i f) = (case dir_of s i of Some d \<Rightarrow> (inodes s)(i \<mapsto> Dir (f d)) | None \<Rightarrow> inodes s)"
  by (simp add: set_dir_def put_inode_def split: option.split)

lemma set_dir_rest [simp]:
  "fs_id (set_dir s i f) = fs_id s" "next_ino (set_dir s i f) = next_ino s" "used (set_dir s i f) = used s"
  "limit (set_dir s i f) = limit s" "root_ino (set_dir s i f) = root_ino s" "held (set_dir s i f) = held s"
  "fs_id (set_entries s i es) = fs_id s" "next_ino (set_entries s i es) = next_ino s"
  "used (set_entries s i es) = used s" "limit (set_entries s i es) = limit s"
  "root_ino (set_entries s i es) = root_ino s" "held (set_entries s i es) = held s"
  by (simp_all add: set_entries_def set_dir_def put_inode_def split: option.splits)

section \<open>The invariant\<close>

definition file_len :: "ramfs \<Rightarrow> ino \<Rightarrow> nat" where
  "file_len s i = (case file_of s i of Some b \<Rightarrow> length b | None \<Rightarrow> 0)"

definition bytes_ok :: "ramfs \<Rightarrow> bool" where
  "bytes_ok s \<longleftrightarrow>
     used s = (\<Sum>i < next_ino s. file_len s i) \<and> used s \<le> limit s \<and> limit s < 2 ^ 64"

definition sorted_ok :: "ramfs \<Rightarrow> bool" where
  "sorted_ok s \<longleftrightarrow> (\<forall>d. bt_sorted (ents s d))"

definition held_ok :: "ramfs \<Rightarrow> bool" where
  "held_ok s \<longleftrightarrow> (\<forall>i \<in> set (held s). inodes s i \<noteq> None)"

definition kept :: "ramfs \<Rightarrow> ino \<Rightarrow> bool" where
  "kept s i \<longleftrightarrow> i = root_ino s \<or> i \<in> set (held s) \<or> (\<exists>d n. entry s d n = Some i)"

text \<open>The invariant, in which the inodes of \<open>X\<close> may have lost their last reference.\<close>

definition ram_inv_but :: "ino set \<Rightarrow> ramfs \<Rightarrow> bool" where
  "ram_inv_but X s \<longleftrightarrow>
     tree_ok (root_ino s) (next_ino s) (tree_of s) \<and> sorted_ok s \<and> bytes_ok s \<and> held_ok s \<and>
     (\<forall>i. inodes s i \<noteq> None \<longrightarrow> i \<notin> X \<longrightarrow> kept s i)"

abbreviation ram_inv :: "ramfs \<Rightarrow> bool" where
  "ram_inv \<equiv> ram_inv_but {}"

lemma ram_inv_butI:
  assumes "tree_ok (root_ino s) (next_ino s) (tree_of s)" "sorted_ok s" "bytes_ok s" "held_ok s"
    "\<And>i. inodes s i \<noteq> None \<Longrightarrow> i \<notin> X \<Longrightarrow> kept s i"
  shows "ram_inv_but X s"
  using assms by (simp add: ram_inv_but_def)

lemma ram_invD:
  assumes "ram_inv_but X s"
  shows "tree_ok (root_ino s) (next_ino s) (tree_of s)" "sorted_ok s" "bytes_ok s" "held_ok s"
    "\<And>i. inodes s i \<noteq> None \<Longrightarrow> i \<notin> X \<Longrightarrow> kept s i"
  using assms by (auto simp: ram_inv_but_def)

lemma sorted_okD: "sorted_ok s \<Longrightarrow> bt_sorted (ents s d)"
  by (simp add: sorted_ok_def)

lemma inode_bound:
  assumes "ram_inv_but X s" "inodes s i \<noteq> None"
  shows "i < next_ino s"
  using ram_invD(1) [OF assms(1)] assms(2) kind_none [of s i] by (auto simp: tree_ok_def ids_ok_def)

lemma entry_mem:
  assumes "sorted_ok s"
  shows "i \<in> snd ` set (ents s d) \<longleftrightarrow> (\<exists>n. entry s d n = Some i)"
proof -
  have d: "distinct (map fst (ents s d))" using assms bt_sorted_distinct sorted_okD by blast
  then show ?thesis by (auto simp: entry_def dest: map_of_SomeD) (metis imageI map_of_is_SomeI snd_conv)
qed

text \<open>The search for a name of an inode is right, since directories have numbers below \<open>next_ino\<close>.\<close>

lemma referenced_kept:
  assumes "ram_inv_but X s"
  shows "referenced s i \<longleftrightarrow> kept s i"
proof -
  have "named s i \<longleftrightarrow> (\<exists>d < next_ino s. \<exists>n. entry s d n = Some i)"
    using entry_mem [OF ram_invD(2) [OF assms]] by (auto simp: named_def list_ex_iff)
  also have "\<dots> \<longleftrightarrow> (\<exists>d n. entry s d n = Some i)"
    using links_okD(7) [OF ram_invD(1) [OF assms]] by auto
  finally show ?thesis by (simp add: referenced_def kept_def)
qed

lemma file_len_dir [simp]: "dir_of s i \<noteq> None \<Longrightarrow> file_len s i = 0"
  by (auto simp: file_len_def view_defs split: option.splits ram_inode.splits)

lemma file_len_cong: "inodes s i = inodes s' i \<Longrightarrow> file_len s i = file_len s' i"
  by (simp add: file_len_def file_of_def)

text \<open>Changing the contents of one inode changes the sum by the difference.\<close>

lemma sum_file_len:
  assumes "i < N" "\<And>j. j \<noteq> i \<Longrightarrow> inodes s' j = inodes s j"
  shows "(\<Sum>j < N. file_len s' j) + file_len s i = (\<Sum>j < N. file_len s j) + file_len s' i"
proof -
  have "(\<Sum>j < N. file_len u j) = file_len u i + (\<Sum>j \<in> {..<N} - {i}. file_len u j)" for u
    using assms(1) by (intro sum.remove) auto
  moreover have "(\<Sum>j \<in> {..<N} - {i}. file_len s' j) = (\<Sum>j \<in> {..<N} - {i}. file_len s j)"
    using assms(2) by (intro sum.cong) (auto intro: file_len_cong)
  ultimately show ?thesis by simp
qed

lemma sum_file_len_le: "i < N \<Longrightarrow> file_len s i \<le> (\<Sum>j < N. file_len s j)"
  by (rule member_le_sum) auto

lemma sum_file_len_same:
  assumes "\<And>i. file_len s' i = file_len s i"
  shows "(\<Sum>j < N. file_len s' j) = (\<Sum>j < N. file_len s j)"
  using assms by simp

lemma file_len_set_dir [simp]: "file_len (set_dir s i f) j = file_len s j"
  by (auto simp: file_len_def file_of_def inodes_set_dir dir_of_def split: option.splits ram_inode.splits)

lemma file_len_set_entries [simp]: "file_len (set_entries s i es) j = file_len s j"
  by (simp add: set_entries_def)

lemma inodes_set_dir_None: "inodes (set_dir s i f) j = None \<longleftrightarrow> inodes s j = None"
  by (auto simp: inodes_set_dir dir_of_def split: option.splits ram_inode.splits)

lemma inodes_set_entries_None: "inodes (set_entries s i es) j = None \<longleftrightarrow> inodes s j = None"
  by (simp add: set_entries_def inodes_set_dir_None)

lemma ents_set_entries:
  "ents (set_entries s d es) x = (if x = d \<and> dir_of s d \<noteq> None then es else ents s x)"
  by (auto simp: ents_def dir_of_def set_entries_def inodes_set_dir split: option.splits ram_inode.splits)

lemma ents_set_dir:
  assumes "\<And>c. d_entries (f c) = d_entries c"
  shows "ents (set_dir s d f) x = ents s x"
  using assms by (auto simp: ents_def dir_of_def inodes_set_dir split: option.splits ram_inode.splits)

lemmas set_none = inodes_set_dir_None inodes_set_entries_None

section \<open>Dropping references\<close>

definition forget :: "ramfs \<Rightarrow> ino \<Rightarrow> ramfs" where
  "forget s i = s\<lparr> inodes := (inodes s)(i := None), used := wrapping_sub (used s) (file_len s i) \<rparr>"

lemma wrapping_sub_le: "a < 2 ^ 64 \<Longrightarrow> b \<le> a \<Longrightarrow> wrapping_sub a b = a - b"
  by (metis Nat.add_diff_assoc2 less_imp_diff_less mod_add_self2 mod_less wrapping_sub_def)

lemma bytes_le:
  assumes "bytes_ok s" "i < next_ino s"
  shows "file_len s i \<le> used s" "used s < 2 ^ 64"
  using assms sum_file_len_le [of i "next_ino s" s] by (simp_all add: bytes_ok_def)

lemma dropped_eq:
  assumes "ram_inv_but X s" "ents s i = []"
  shows "dropped s i = (if referenced s i \<or> inodes s i = None then s else forget s i)"
proof (cases "referenced s i \<or> inodes s i = None")
  case False
  then obtain n where n: "inodes s i = Some n" by blast
  have u: "wrapping_sub (used s) 0 = used s"
    using ram_invD(3) [OF assms(1)] by (simp add: bytes_ok_def wrapping_sub_def)
  show ?thesis
  proof (cases n)
    case (RamFile b)
    then show ?thesis
      using False n by (simp add: dropped_def forget_def ram_release_def file_len_def file_of_def)
  next
    case (Dir d)
    then have "d_entries d = []" using assms(2) n by (simp add: ents_def dir_of_def)
    then show ?thesis
      using False n Dir u by (simp add: dropped_def forget_def file_len_def file_of_def)
  qed
qed (auto simp: dropped_def)

lemma forget_inv:
  assumes inv: "ram_inv_but X s" and i: "\<not> kept s i" "ents s i = []" "inodes s i \<noteq> None"
  shows "ram_inv_but (X - {i}) (forget s i)"
proof (rule ram_inv_butI)
  note I = ram_invD [OF inv] and lt = inode_bound [OF inv i(3)]
  have E: "entry (forget s i) d n = entry s d n" for d n
    using i(2) by (auto simp: forget_def view_defs split: option.splits ram_inode.splits)
  have empty: "entry s i m = None" for m using i(2) by (simp add: entry_def)
  show "tree_ok (root_ino (forget s i)) (next_ino (forget s i)) (tree_of (forget s i))"
    using i(1) empty unfolding forget_def tree_of_drop by (auto simp: kept_def intro!: tree_ok_drop [OF I(1)])
  show "sorted_ok (forget s i)"
    using I(2) unfolding sorted_ok_def by (simp add: forget_def ents_def dir_of_def)
  have "file_len (forget s i) i = 0" by (simp add: forget_def file_len_def file_of_def)
  then have "(\<Sum>j < next_ino s. file_len (forget s i) j) + file_len s i = (\<Sum>j < next_ino s. file_len s j)"
    using sum_file_len [OF lt, of "forget s i" s] by (simp add: forget_def)
  moreover have "used (forget s i) = used s - file_len s i"
    unfolding forget_def using wrapping_sub_le [OF bytes_le(2,1) [OF I(3) lt]] by simp
  moreover have "next_ino (forget s i) = next_ino s" "limit (forget s i) = limit s"
    by (simp_all add: forget_def)
  ultimately show "bytes_ok (forget s i)" using I(3) unfolding bytes_ok_def by auto
  show "held_ok (forget s i)" using I(4) i(1) by (auto simp: held_ok_def forget_def kept_def)
  show "kept (forget s i) j" if "inodes (forget s i) j \<noteq> None" "j \<notin> X - {i}" for j
  proof -
    have "j \<noteq> i" "inodes s j \<noteq> None" using that by (auto simp: forget_def split: if_splits)
    then have "kept s j" using I(5) that by simp
    then show ?thesis unfolding kept_def E by (simp add: forget_def)
  qed
qed

lemma dropped_inv:
  assumes inv: "ram_inv_but {i} s" and e: "ents s i = []"
  shows "ram_inv (dropped s i)"
proof (cases "kept s i \<or> inodes s i = None")
  case True
  then have "dropped s i = s"
    using dropped_eq [OF inv e] referenced_kept [OF inv] by auto
  moreover have "ram_inv s" using inv True unfolding ram_inv_but_def by auto
  ultimately show ?thesis by simp
next
  case False
  then have "dropped s i = forget s i"
    using dropped_eq [OF inv e] referenced_kept [OF inv] by auto
  then show ?thesis using forget_inv [OF inv _ e] False by auto
qed

lemma file_no_ents: "dir_of s i = None \<Longrightarrow> ents s i = []"
  by (simp add: ents_def)

end
