(* ===== verification/RamFsOps.thy ===== *)
theory RamFsOps
  imports RamFsInv
begin

text \<open>
  Every operation of the in-memory file system keeps the invariant, with what
  it does to the tree and to the contents of files.
\<close>

section \<open>Start and references\<close>

lemma with_limit_inv:
  assumes "lim < 2 ^ 64"
  shows "ram_inv (with_limit fsid lim)"
proof -
  let ?d = "\<lparr> d_parent = None, d_entries = [], d_dead = False \<rparr>"
  have s: "with_limit fsid lim =
      \<lparr> fs_id = fsid, next_ino = 2, used = 0, limit = lim, inodes = [1 \<mapsto> Dir ?d], root_ino = 1, held = [] \<rparr>"
    by (simp add: with_limit_def ramdir_new_def allocate_ino_def put_inode_def)
  have E: "entry (with_limit fsid lim) d n = None" for d n by (simp add: s view_defs)
  have K: "kind_of (with_limit fsid lim) i = (if i = 1 then Some KDirectory else None)"
    "parent_of (with_limit fsid lim) i = None" "is_dead (with_limit fsid lim) i = False" for i
    by (simp_all add: s view_defs)
  have "tree_ok (root_ino (with_limit fsid lim)) (next_ino (with_limit fsid lim)) (tree_of (with_limit fsid lim))"
    by (rule tree_okI) (simp_all add: tree_laws E K parent_rel_def acyclic_def s [THEN arg_cong [where f = root_ino]]
        s [THEN arg_cong [where f = next_ino]])
  moreover have "sorted_ok (with_limit fsid lim)" by (simp add: sorted_ok_def s view_defs)
  moreover have "bytes_ok (with_limit fsid lim)"
    using assms by (simp add: bytes_ok_def s file_len_def file_of_def)
  ultimately show ?thesis
    by (auto simp: ram_inv_but_def held_ok_def kept_def s split: if_splits)
qed

lemma tree_of_held [simp]: "tree_of (s\<lparr> held := h \<rparr>) = tree_of s"
  by (rule tree_of_cong) simp

lemma file_bytes:
  assumes "ram_inv s" "file_of s i = Some b"
  shows "length b \<le> used s" "used s \<le> limit s" "limit s < 2 ^ 64"
proof -
  have "i < next_ino s" using inode_bound assms by (simp add: file_of_iff)
  moreover have "file_len s i = length b" using assms(2) by (simp add: file_len_def)
  ultimately show "length b \<le> used s" using bytes_le(1) [OF ram_invD(3) [OF assms(1)], of i] by simp
  show "used s \<le> limit s" "limit s < 2 ^ 64" using ram_invD(3) [OF assms(1)] by (simp_all add: bytes_ok_def)
qed

lemma acquire_inv:
  assumes "ram_inv s" "inodes s i \<noteq> None"
  shows "ram_inv (acquire s i)"
proof -
  have v: "inodes (acquire s i) = inodes s" by (simp add: acquire_def)
  show ?thesis
    using assms views_cong [OF v] tree_of_cong [OF v]
    by (auto simp: ram_inv_but_def sorted_ok_def bytes_ok_def held_ok_def kept_def file_len_def acquire_def)
qed

lemma put_back_inv:
  assumes inv: "ram_inv s" and i: "ents s i = []"
  shows "ram_inv (put_back s i)"
proof -
  let ?s = "s\<lparr> held := remove1 i (held s) \<rparr>"
  have v: "inodes ?s = inodes s" by simp
  have "kept ?s j" if "j \<noteq> i" "kept s j" for j
    using that views_cong [OF v] by (simp add: kept_def)
  then have "ram_inv_but {i} ?s"
    using inv views_cong [OF v] tree_of_cong [OF v]
    by (auto simp: ram_inv_but_def sorted_ok_def bytes_ok_def held_ok_def file_len_def dest: notin_set_remove1)
  moreover have "ents ?s i = []" using i views_cong [OF v] by simp
  ultimately show ?thesis unfolding put_back_def by (rule dropped_inv)
qed

text \<open>
  A directory with a name, or with entries, is never dropped: giving a
  reference back changes nothing else.
\<close>

lemma put_back_kept:
  assumes inv: "ram_inv s" and i: "ents s i \<noteq> []"
  shows "put_back s i = s\<lparr> held := remove1 i (held s) \<rparr>" and "ram_inv (put_back s i)"
proof -
  let ?s = "s\<lparr> held := remove1 i (held s) \<rparr>"
  have v: "inodes ?s = inodes s" by simp
  note tree = ram_invD(1) [OF inv]
  have "(ents s i) = (fst (hd (ents s i)), snd (hd (ents s i))) # tl (ents s i)" using i by simp
  then obtain n j where "entry s i n = Some j"
    unfolding entry_def by (metis map_of_Cons_code(2))
  then have "kind_of s i = Some KDirectory" "\<not> is_dead s i" using links_okD [OF tree, of i n j] by simp_all
  then have k: "kept ?s i"
    using tree_okD(6) [OF tree] views_cong [OF v] by (simp add: live_ok_def kept_def) blast
  have "sorted_ok ?s" using ram_invD(2) [OF inv] views_cong [OF v] by (simp add: sorted_ok_def)
  moreover have "d < next_ino s" if "entry s d n = Some i" for d n
    using that links_okD(7) [OF tree] by simp
  ultimately have "referenced ?s i"
    using k views_cong [OF v] entry_mem [of ?s i]
    unfolding referenced_def kept_def named_def list_ex_iff by fastforce
  then show eq: "put_back s i = ?s" by (simp add: put_back_def dropped_def)
  have "kept ?s j" if "j \<noteq> i" "kept s j" for j
    using that views_cong [OF v] by (simp add: kept_def)
  then have "\<And>j. kept s j \<Longrightarrow> kept ?s j" using k by metis
  then show "ram_inv (put_back s i)"
    unfolding eq using inv views_cong [OF v]
    by (auto simp: ram_inv_but_def sorted_ok_def bytes_ok_def held_ok_def file_len_def dest: notin_set_remove1)
qed

section \<open>File contents\<close>

lemma put_file_inv:
  assumes inv: "ram_inv s" and b: "file_of s i = Some b"
    and u: "u + length b = used s + length b'" "u \<le> limit s"
  shows "ram_inv (put_inode (s\<lparr> used := u \<rparr>) i (RamFile b'))" (is "ram_inv ?s")
proof (rule ram_inv_butI)
  note I = ram_invD [OF inv]
  have i: "inodes s i = Some (RamFile b)" using b by (simp add: file_of_iff)
  have t: "tree_of ?s = tree_of s"
    using tree_of_file [of "s\<lparr> used := u \<rparr>" i b'] b tree_of_cong [of "s\<lparr> used := u \<rparr>" s] views_cong(2) [of "s\<lparr> used := u \<rparr>" s]
    by simp
  have f: "root_ino ?s = root_ino s" "next_ino ?s = next_ino s" "held ?s = held s" "limit ?s = limit s" "used ?s = u"
    "\<And>j. inodes ?s j = None \<longleftrightarrow> inodes s j = None" "\<And>j. j \<noteq> i \<Longrightarrow> inodes ?s j = inodes s j"
    "file_len ?s i = length b'" "file_len s i = length b"
    using i b by (auto simp: put_inode_def file_len_def file_of_def)
  have E: "entry ?s = entry s" using t by (metis tree_of_sel(1))
  show "tree_ok (root_ino ?s) (next_ino ?s) (tree_of ?s)" using I(1) by (simp add: t f)
  have "ents ?s d = ents s d" for d using i by (auto simp: ents_def dir_of_def put_inode_def)
  then show "sorted_ok ?s" using I(2) by (simp add: sorted_ok_def)
  have "i < next_ino s" using inode_bound [OF inv] i by simp
  then have "(\<Sum>j < next_ino s. file_len ?s j) + length b = (\<Sum>j < next_ino s. file_len s j) + length b'"
    using sum_file_len [of i "next_ino s" ?s s] f by simp
  then show "bytes_ok ?s" using I(3) u unfolding bytes_ok_def f by auto
  show "held_ok ?s" using I(4) by (simp add: held_ok_def f)
  show "kept ?s j" if "inodes ?s j \<noteq> None" for j
    using I(5) [of j] that by (simp add: kept_def E f)
qed

definition resized :: "byte list \<Rightarrow> nat \<Rightarrow> byte list" where
  "resized b n = take n b @ replicate (n - length b) 0"

text \<open>
  Resizing succeeds exactly when the growth fits below the limit and there is
  memory for it; a failure changes nothing.
\<close>

lemma resize_spec:
  assumes inv: "ram_inv s" and b: "file_of s i = Some b"
  shows "resize oom s i b n =
     (if length b < n \<and> (limit s < used s + (n - length b) \<or> oom) then (Err ENOSPC, s)
      else (Ok (), put_inode (s\<lparr> used := used s + n - length b \<rparr>) i (RamFile (resized b n))))"
proof (cases "length b < n")
  case True
  have lim: "used s \<le> limit s" "limit s < 2 ^ 64" using ram_invD(3) [OF inv] by (simp_all add: bytes_ok_def)
  show ?thesis
  proof (cases "limit s < used s + (n - length b)")
    case True
    then show ?thesis
      using \<open>length b < n\<close> by (auto simp: resize_def reserve_def checked_add_def Let_def)
  next
    case False
    then have r: "reserve s (n - length b) = (Ok (), s\<lparr> used := used s + (n - length b) \<rparr>)"
      using lim by (auto simp: reserve_def checked_add_def)
    have "wrapping_sub (used s + (n - length b)) (n - length b) = used s"
      using False lim by (subst wrapping_sub_le) auto
    then have "ram_release (s\<lparr> used := used s + (n - length b) \<rparr>) (n - length b) = s"
      by (simp add: ram_release_def)
    then show ?thesis
      using False \<open>length b < n\<close> r by (simp add: resize_def Let_def resized_def)
  qed
next
  case False
  have "wrapping_sub (used s) (length b - n) = used s + n - length b"
    using False file_bytes [OF inv b] by (subst wrapping_sub_le) auto
  then show ?thesis
    using False by (simp add: resize_def resized_def ram_release_def put_inode_def)
qed

lemma length_resized [simp]: "length (resized b n) = n"
  by (simp add: resized_def)

lemma resize_inv:
  assumes inv: "ram_inv s" and b: "file_of s i = Some b"
  shows "ram_inv (snd (resize oom s i b n))"
proof (cases "length b < n \<and> (limit s < used s + (n - length b) \<or> oom)")
  case True
  show ?thesis unfolding resize_spec [OF inv b] if_P [OF True] using inv by simp
next
  case False
  have "used s + n - length b + length b = used s + length (resized b n)" "used s + n - length b \<le> limit s"
    using False file_bytes [OF inv b] by auto
  then show ?thesis
    unfolding resize_spec [OF inv b] if_not_P [OF False] using put_file_inv [OF inv b] by simp
qed

lemma truncate_inv:
  assumes "ram_inv s"
  shows "ram_inv (snd (ram_truncate oom s i n))"
  using assms resize_inv by (auto simp: ram_truncate_def split: option.split)

lemma length_overwrite: "start + length buf \<le> length b \<Longrightarrow> length (overwrite b start buf) = length b"
  by (simp add: overwrite_def)

text \<open>
  Writing returns the whole length or fails without a change: \<open>EINVAL\<close> when the
  end would overflow, \<open>ENOSPC\<close> when the file would have to grow beyond the limit
  or the memory.
\<close>

lemma write_spec:
  assumes inv: "ram_inv s" and b: "file_of s i = Some b"
  shows "ram_write_at oom s i offset buf =
     (let stop = offset + length buf in
      if 2 ^ 64 \<le> stop then (Err EINVAL, s)
      else if length b < stop \<and> (limit s < used s + (stop - length b) \<or> oom) then (Err ENOSPC, s)
      else (Ok (length buf),
            put_inode (s\<lparr> used := used s + max stop (length b) - length b \<rparr>) i
              (RamFile (overwrite (resized b (max stop (length b))) offset buf))))"
proof -
  let ?stop = "offset + length buf"
  have same: "put_inode (put_inode u i x) i y = put_inode u i y" "file_of (put_inode u i (RamFile c)) i = Some c"
    for u x y c by (simp_all add: put_inode_def file_of_def)
  have c: "ram_write_at oom s i offset buf =
     (if 2 ^ 64 \<le> ?stop then (Err EINVAL, s)
      else
        (case (if length b < ?stop then resize oom s i b ?stop else (Ok (), s)) of
           (Err e, s1) \<Rightarrow> (Err e, s1)
         | (Ok _, s1) \<Rightarrow>
             (case file_of s1 i of
                None \<Rightarrow> (Err EISDIR, s1)
              | Some b1 \<Rightarrow> (Ok (length buf), put_inode s1 i (RamFile (overwrite b1 offset buf))))))"
    using b by (simp add: ram_write_at_def checked_add_def)
  show ?thesis
  proof (cases "length b < ?stop")
    case True
    then show ?thesis
      unfolding c using resize_spec [OF inv b, of oom ?stop] by (simp add: same Let_def)
  next
    case False
    then have "max ?stop (length b) = length b" "resized b (length b) = b" by (auto simp: resized_def)
    then show ?thesis unfolding c using False b by (simp add: Let_def)
  qed
qed

lemma write_inv:
  assumes inv: "ram_inv s"
  shows "ram_inv (snd (ram_write_at oom s i offset buf))"
proof (cases "file_of s i")
  case None
  then show ?thesis using inv by (simp add: ram_write_at_def)
next
  case (Some b)
  let ?stop = "offset + length buf"
  let ?n = "max ?stop (length b)"
  note u = file_bytes [OF inv Some]
  have len: "length (overwrite (resized b ?n) offset buf) = ?n"
    using length_overwrite [of offset buf "resized b ?n"] by simp
  have "ram_inv (put_inode (s\<lparr> used := used s + ?n - length b \<rparr>) i (RamFile (overwrite (resized b ?n) offset buf)))"
    if "\<not> (length b < ?stop \<and> (limit s < used s + (?stop - length b) \<or> oom))"
  proof (rule put_file_inv [OF inv Some])
    show "used s + ?n - length b + length b = used s + length (overwrite (resized b ?n) offset buf)"
      unfolding len using u by simp
    show "used s + ?n - length b \<le> limit s" using that u by (auto simp: max_def)
  qed
  then show ?thesis
    using inv unfolding write_spec [OF inv Some] Let_def by simp
qed

section \<open>Directories\<close>

text \<open>Changes of directories only: files, their bytes and the references stay.\<close>

definition same_files :: "ramfs \<Rightarrow> ramfs \<Rightarrow> bool" where
  "same_files s s' \<longleftrightarrow>
     root_ino s' = root_ino s \<and> next_ino s' = next_ino s \<and> held s' = held s \<and> limit s' = limit s \<and>
     used s' = used s \<and> fs_id s' = fs_id s \<and> (\<forall>j. inodes s' j = None \<longleftrightarrow> inodes s j = None) \<and>
     (\<forall>j. file_len s' j = file_len s j)"

lemma same_files_refl [simp]: "same_files s s"
  by (simp add: same_files_def)

lemma same_files_set [simp]:
  "same_files s (set_dir s' i f) \<longleftrightarrow> same_files s s'"
  "same_files s (set_entries s' i es) \<longleftrightarrow> same_files s s'"
  by (simp_all add: same_files_def set_none)

lemma same_files_inv:
  assumes inv: "ram_inv_but X s" and same: "same_files s s'"
    and tree: "tree_ok (root_ino s) (next_ino s) (tree_of s')" and sorted: "sorted_ok s'"
    and k: "\<And>j. kept s j \<Longrightarrow> j \<notin> Y \<Longrightarrow> kept s' j" and XY: "X \<subseteq> Y"
  shows "ram_inv_but Y s'"
proof (rule ram_inv_butI)
  note I = ram_invD [OF inv]
  show "tree_ok (root_ino s') (next_ino s') (tree_of s')" using tree same by (simp add: same_files_def)
  show "sorted_ok s'" by (rule sorted)
  show "bytes_ok s'" using I(3) same by (simp add: same_files_def bytes_ok_def)
  show "held_ok s'" using I(4) same by (simp add: same_files_def held_ok_def)
  show "kept s' i" if "inodes s' i \<noteq> None" "i \<notin> Y" for i
  proof -
    have "inodes s i \<noteq> None" using that(1) same unfolding same_files_def by metis
    then show ?thesis using k I(5) that XY by blast
  qed
qed

lemma sorted_set_entries:
  assumes "sorted_ok s" "bt_sorted es"
  shows "sorted_ok (set_entries s d es)"
  using assms by (simp add: sorted_ok_def ents_set_entries)

lemma sorted_set_dir:
  assumes "sorted_ok s" "\<And>c. d_entries (f c) = d_entries c"
  shows "sorted_ok (set_dir s d f)"
  using assms by (simp add: sorted_ok_def ents_set_dir)

lemma entry_set_dir:
  assumes "\<And>c. d_entries (f c) = d_entries c"
  shows "entry (set_dir s d f) = entry s"
  using ents_set_dir [of f, OF assms] by (simp add: fun_eq_iff entry_def)

lemma entry_set_entries:
  "entry (set_entries s d es) = (if dir_of s d \<noteq> None then (entry s)(d := map_of es) else entry s)"
  by (auto simp: fun_eq_iff entry_def ents_set_entries)

lemma kept_entry: "entry s d n = Some i \<Longrightarrow> kept s i"
  by (auto simp: kept_def)

lemma kept_mono:
  assumes "kept s j" "root_ino s' = root_ino s" "held s' = held s"
    and "\<And>x m. entry s x m = Some j \<Longrightarrow> entry s' x m = Some j"
  shows "kept s' j"
  using assms unfolding kept_def by metis

subsection \<open>Creating\<close>

lemma create_tree_of:
  assumes inv: "ram_inv s" and d: "dir_of s d = Some r" and room: "next_ino s + 1 < 2 ^ 64"
    and node: "node = RamFile [] \<and> k = KFile \<or>
      node = Dir \<lparr> d_parent = Some d, d_entries = [], d_dead = False \<rparr> \<and> k = KDirectory"
  shows "tree_of (set_entries (put_inode (s\<lparr> next_ino := next_ino s + 1 \<rparr>) (next_ino s) node) d
                  (bt_insert n (next_ino s) (d_entries r))) = tree_link d n (next_ino s)
           (tree_new (next_ino s) k (if k = KDirectory then Some d else None) (tree_of s))"
proof -
  let ?s1 = "s\<lparr> next_ino := next_ino s + 1 \<rparr>"
  let ?s2 = "put_inode ?s1 (next_ino s) node"
  have free: "inodes s (next_ino s) = None" using inode_bound [OF inv, of "next_ino s"] by blast
  have dN: "d \<noteq> next_ino s" using d free by (auto simp: dir_of_iff)
  have t1: "tree_of ?s1 = tree_of s" by (rule tree_of_cong) simp
  have t2: "tree_of ?s2 = tree_new (next_ino s) k (if k = KDirectory then Some d else None) (tree_of s)"
    using node free tree_of_new [of ?s1 "next_ino s"] t1 by auto
  have d2: "dir_of ?s2 d = Some r" using d dN by (simp add: put_inode_def dir_of_def)
  then have e2: "ents ?s2 d = d_entries r" by (simp add: ents_def)
  have "bt_sorted (d_entries r)" using sorted_okD [OF ram_invD(2) [OF inv], of d] d by (simp add: ents_def)
  then show ?thesis
    using tree_of_link [of ?s2 d n "next_ino s"] d2 e2 t2 by simp
qed

lemma create_state_inv:
  assumes inv: "ram_inv s" and d: "dir_of s d = Some r" "\<not> d_dead r" and room: "next_ino s + 1 < 2 ^ 64"
    and n: "map_of (d_entries r) n = None" "component n"
    and node: "node = RamFile [] \<and> k = KFile \<or>
      node = Dir \<lparr> d_parent = Some d, d_entries = [], d_dead = False \<rparr> \<and> k = KDirectory"
  shows "ram_inv (set_entries (put_inode (s\<lparr> next_ino := next_ino s + 1 \<rparr>) (next_ino s) node) d
                  (bt_insert n (next_ino s) (d_entries r)))" (is "ram_inv ?s")
proof (rule ram_inv_butI)
  note I = ram_invD [OF inv]
  let ?N = "next_ino s"
  let ?s2 = "put_inode (s\<lparr> next_ino := ?N + 1 \<rparr>) ?N node"
  note tree = create_tree_of [OF inv d(1) room node, of n]
  have free: "inodes s ?N = None" using inode_bound [OF inv, of ?N] by blast
  have f: "root_ino ?s = root_ino s" "next_ino ?s = Suc ?N" "held ?s = held s" "limit ?s = limit s" "used ?s = used s"
    by (simp_all add: put_inode_def)
  have nn: "inodes ?s j = None \<longleftrightarrow> inodes s j = None \<and> j \<noteq> ?N" for j
    using free by (auto simp: set_none put_inode_def)
  have "file_len ?s2 j = file_len s j" for j
    using node free by (auto simp: put_inode_def file_len_def file_of_def)
  then have len: "file_len ?s j = file_len s j" for j by simp
  have E: "entry ?s x m = (if x = d \<and> m = n then Some ?N else entry s x m)" for x m
    unfolding tree_of_sel(1) [symmetric] tree by (simp add: tree_link_def tree_new_def)
  show "tree_ok (root_ino ?s) (next_ino ?s) (tree_of ?s)"
    unfolding tree f
    by (rule tree_ok_create [OF I(1)])
      (use d n free in \<open>simp_all add: kind_dir entry_dir is_dead_def dir_of_def\<close>)
  have "bt_sorted (d_entries r)" using sorted_okD [OF I(2), of d] d by (simp add: ents_def)
  moreover have "sorted_ok ?s2"
    using I(2) node free unfolding sorted_ok_def by (auto simp: ents_def dir_of_def put_inode_def)
  ultimately show "sorted_ok ?s" by (simp add: sorted_set_entries bt_insert_sorted)
  have "file_len s ?N = 0" using free by (simp add: file_len_def file_of_def)
  then show "bytes_ok ?s" using I(3) unfolding bytes_ok_def f len by (simp add: lessThan_Suc)
  have "\<forall>j \<in> set (held s). inodes ?s j \<noteq> None" using I(4) nn unfolding held_ok_def by blast
  then show "held_ok ?s" unfolding held_ok_def f(3) .
  show "kept ?s j" if "inodes ?s j \<noteq> None" for j
  proof (cases "j = ?N")
    case True
    then show ?thesis using E [of d n] by (auto intro: kept_entry)
  next
    case False
    then have "kept s j" using I(5) [of j] that nn [of j] by (metis empty_iff)
    then show ?thesis
    proof (rule kept_mono [OF _ f(1,3)])
      show "entry ?s x m = Some j" if "entry s x m = Some j" for x m
        using that n(1) d(1) unfolding E by (auto simp: entry_dir)
    qed
  qed
qed

lemma create_inv:
  assumes inv: "ram_inv s" and room: "next_ino s + 1 < 2 ^ 64"
  shows "ram_inv (snd (ram_create s d n k))"
proof (cases "dir_of s d")
  case None
  then show ?thesis using inv by (simp add: ram_create_def)
next
  case (Some r)
  show ?thesis
  proof (cases "check_name n = Ok () \<and> \<not> d_dead r \<and> map_of (d_entries r) n = None")
    case False
    then have "snd (ram_create s d n k) = s"
      using Some by (auto simp: ram_create_def split: result.split)
    then show ?thesis using inv by simp
  next
    case True
    then have n: "component n" by (simp add: check_name_Ok)
    note st = create_state_inv [OF inv Some _ room _ n]
    show ?thesis
      using True Some st [of "RamFile []" KFile]
        st [of "Dir \<lparr> d_parent = Some d, d_entries = [], d_dead = False \<rparr>" KDirectory] inv room
      by (cases k) (simp_all add: ram_create_def allocate_ino_def ramdir_new_def Let_def)
  qed
qed

subsection \<open>Removing\<close>

lemma kept_unlink:
  assumes E: "\<And>x m. entry s' x m = (if x = d \<and> m = n then None else entry s x m)"
    and e: "entry s d n = Some i" and same: "same_files s s'" and j: "kept s j" "j \<notin> {i}"
  shows "kept s' j"
  by (rule kept_mono [OF j(1)]) (use same e j(2) in \<open>auto simp: E same_files_def\<close>)

text \<open>An entry taken out of its directory; what it named may have lost its last reference.\<close>

lemma taken_inv:
  assumes inv: "ram_inv s" and e: "entry s d n = Some i" and same: "same_files s s1"
    and E1: "\<And>x. ents s1 x = ents s x" and d1: "dir_of s1 d \<noteq> None"
    and tree: "tree_ok (root_ino s) (next_ino s) (tree_unlink d n (tree_of s1))"
  shows "ram_inv_but {i} (set_entries s1 d (bt_remove n (ents s1 d)))" (is "ram_inv_but _ ?s")
proof (rule same_files_inv [OF inv])
  have E: "entry ?s x m = (if x = d \<and> m = n then None else entry s x m)" for x m
    using d1 E1 by (simp add: entry_set_entries) (simp add: entry_def)
  have "sorted_ok s1" using ram_invD(2) [OF inv] E1 by (simp add: sorted_ok_def)
  then show "sorted_ok ?s" by (intro sorted_set_entries bt_remove_sorted sorted_okD)
  show same': "same_files s ?s" using same by simp
  show "tree_ok (root_ino s) (next_ino s) (tree_of ?s)" using tree by (subst tree_of_unlink [OF d1])
  show "kept ?s j" if "kept s j" "j \<notin> {i}" for j by (rule kept_unlink [OF E e same' that])
qed simp

lemma entry_dir_of: "entry s d n = Some i \<Longrightarrow> dir_of s d \<noteq> None"
  by (auto simp: entry_def ents_def split: option.splits)

lemma unlinked_inv:
  assumes inv: "ram_inv s" and e: "entry s d n = Some i" "kind_of s i \<noteq> Some KDirectory"
  shows "ram_inv_but {i} (set_entries s d (bt_remove n (ents s d)))"
  using taken_inv [OF inv e(1), of s] tree_ok_unlink [OF ram_invD(1) [OF inv], of d n i] e entry_dir_of
  by simp

definition buried :: "ramfs \<Rightarrow> ino \<Rightarrow> ramfs" where
  "buried s i = set_dir s i (\<lambda>c. c\<lparr> d_dead := True \<rparr>)"

lemma buried_ents [simp]: "ents (buried s i) x = ents s x"
  unfolding buried_def by (rule ents_set_dir) simp

lemma buried_dir: "dir_of (buried s i) d = None \<longleftrightarrow> dir_of s d = None"
  by (auto simp: buried_def dir_of_def inodes_set_dir split: option.splits ram_inode.splits)

lemma removed_inv:
  assumes inv: "ram_inv s" and e: "entry s d n = Some i" "dir_of s i \<noteq> None" "ents s i = []"
  shows "ram_inv_but {i} (set_entries (buried s i) d (bt_remove n (ents (buried s i) d)))"
proof (rule taken_inv [OF inv e(1)])
  show "same_files s (buried s i)" by (simp add: buried_def)
  show "dir_of (buried s i) d \<noteq> None" using entry_dir_of [OF e(1)] buried_dir by metis
  show "tree_ok (root_ino s) (next_ino s) (tree_unlink d n (tree_of (buried s i)))"
    using tree_ok_rmdir [OF ram_invD(1) [OF inv], of d n i] e
    by (simp add: buried_def tree_of_kill) (simp add: entry_def)
qed simp

lemma unlink_inv:
  assumes inv: "ram_inv s"
  shows "ram_inv (snd (ram_unlink s d n))"
proof (cases "\<exists>r i. dir_of s d = Some r \<and> map_of (d_entries r) n = Some i \<and> kind_of s i \<noteq> Some KDirectory")
  case False
  then have "snd (ram_unlink s d n) = s"
    by (auto simp: ram_unlink_def split: option.splits)
  then show ?thesis using inv by simp
next
  case True
  then obtain r i where r: "dir_of s d = Some r" "map_of (d_entries r) n = Some i" "kind_of s i \<noteq> Some KDirectory"
    by blast
  let ?s = "set_entries s d (bt_remove n (ents s d))"
  have e: "entry s d n = Some i" "ents s d = d_entries r" using r by (simp_all add: entry_dir ents_def)
  have "ents ?s i = []"
    using r(1,3) file_no_ents [of s i] unfolding ents_set_entries kind_dir by auto
  then have "ram_inv (dropped ?s i)" by (rule dropped_inv [OF unlinked_inv [OF inv e(1) r(3)]])
  then show ?thesis using r e by (simp add: ram_unlink_def)
qed

lemma rmdir_inv:
  assumes inv: "ram_inv s"
  shows "ram_inv (snd (ram_rmdir s d n))"
proof (cases "\<exists>r i c. dir_of s d = Some r \<and> map_of (d_entries r) n = Some i \<and> dir_of s i = Some c \<and> d_entries c = []")
  case False
  then have "snd (ram_rmdir s d n) = s"
    by (auto simp: ram_rmdir_def split: option.splits)
  then show ?thesis using inv by simp
next
  case True
  then obtain r i c where r: "dir_of s d = Some r" "map_of (d_entries r) n = Some i" "dir_of s i = Some c" "d_entries c = []"
    by blast
  let ?s = "set_entries (buried s i) d (bt_remove n (ents (buried s i) d))"
  have e: "entry s d n = Some i" "ents s i = []" "dir_of s i \<noteq> None" using r by (simp_all add: entry_dir ents_def)
  have "ents ?s i = []" using e(2) by (auto simp: ents_set_entries bt_remove_def)
  then have "ram_inv (dropped ?s i)" by (rule dropped_inv [OF removed_inv [OF inv e(1,3,2)]])
  then show ?thesis using r by (simp add: ram_rmdir_def Let_def buried_def)
qed

end
