(* ===== verification/RamFsRename.thy ===== *)
theory RamFsRename
  imports RamFsOps
begin

text \<open>
  Renaming: the walk up the parent links ends and decides ancestry, and the
  change under the locks of the two entry maps keeps the invariant.
\<close>

section \<open>Ancestry\<close>

lemma upgrade_parent_iff:
  "upgrade_parent s c = Some p \<longleftrightarrow> parent_of s c = Some p \<and> kind_of s p = Some KDirectory"
  by (auto simp: upgrade_parent_def parent_of_def kind_dir split: option.splits)

definition up_rel :: "ramfs \<Rightarrow> (ino \<times> ino) set" where
  "up_rel s = {(p, c). upgrade_parent s c = Some p}"

lemma up_rel_tree:
  "up_rel s = {(p, c). tP (tree_of s) c = Some p \<and> tK (tree_of s) p = Some KDirectory}"
  by (simp add: up_rel_def upgrade_parent_iff)

lemma is_within_loop_spec:
  assumes tree: "tree_ok r N (tree_of s)"
  shows "is_within_loop s (Some d) a = Some ((a, d) \<in> (up_rel s)\<^sup>*)"
proof -
  have "wf (parent_rel (tree_of s))"
    using finite_acyclic_wf parent_rel_finite [OF tree_okD(2) [OF tree]] tree_okD(7) [OF tree] by blast
  then show ?thesis
  proof (induction d rule: wf_induct_rule)
    case (less d)
    show ?case
    proof (cases "d = a")
      case True
      then show ?thesis by (subst is_within_loop.simps) simp
    next
      case False
      show ?thesis
      proof (cases "upgrade_parent s d")
        case None
        then have "(a, d) \<notin> (up_rel s)\<^sup>*"
          using False by (auto simp: up_rel_def elim: rtranclE)
        then show ?thesis using None False is_within_loop.simps [of s None a]
          by (subst is_within_loop.simps) simp
      next
        case (Some p)
        then have "(p, d) \<in> parent_rel (tree_of s)" by (simp add: upgrade_parent_iff parent_rel_def)
        then have "is_within_loop s (Some p) a = Some ((a, p) \<in> (up_rel s)\<^sup>*)" by (rule less)
        moreover have "(p, d) \<in> up_rel s" using Some by (simp add: up_rel_def)
        then have "(a, d) \<in> (up_rel s)\<^sup>* \<longleftrightarrow> (a, p) \<in> (up_rel s)\<^sup>*"
          using False Some by (auto simp: up_rel_def elim: rtranclE intro: rtrancl_into_rtrancl)
        ultimately show ?thesis using Some False by (subst is_within_loop.simps) simp
      qed
    qed
  qed
qed

lemma is_within_spec:
  assumes "ram_inv_but X s"
  shows "is_within s d a = Some ((a, d) \<in> (up_rel s)\<^sup>*)"
  using is_within_loop_spec [OF ram_invD(1) [OF assms]] by (simp add: is_within_def)

lemma not_within_parent:
  assumes inv: "ram_inv_but X s" and i: "kind_of s i = Some KDirectory" and n: "(i, t) \<notin> (up_rel s)\<^sup>*"
  shows "(i, t) \<notin> (parent_rel (tree_of s))\<^sup>*"
  using parent_path_exists [OF tree_okD(2) [OF ram_invD(1) [OF inv]], of i t] i n
  unfolding up_rel_tree by auto

lemma source_first_returns:
  assumes "ram_inv_but X s"
  shows "\<exists>b. source_first s d t = Some b"
  using assms by (cases "(d, t) \<in> (up_rel s)\<^sup>*") (auto simp: source_first_def is_within_spec)

section \<open>Moving an entry\<close>

definition moved :: "ramfs \<Rightarrow> ino \<Rightarrow> string \<Rightarrow> ino \<Rightarrow> string \<Rightarrow> ino \<Rightarrow> ramfs" where
  "moved s d old t new i =
     (let s2 = set_entries s t (bt_insert new i (ents s t));
          s4 = set_entries s2 d (bt_remove old (ents s2 d)) in
      set_dir s4 i (\<lambda>c. c\<lparr> d_parent := Some t \<rparr>))"

lemma set_entries_twice [simp]: "set_entries (set_entries s i es) i es' = set_entries s i es'"
  by (cases "dir_of s i") (auto simp: set_entries_def set_dir_def dir_of_def put_inode_def)

lemma bt_insert_remove: "bt_sorted xs \<Longrightarrow> bt_insert k v (bt_remove k xs) = bt_insert k v xs"
proof (induction k v xs rule: bt_insert.induct)
  case (2 k v k' v' xs)
  have xs: "bt_sorted xs" using 2(2) by (simp add: bt_sorted_def)
  have "bt_remove k xs = xs" if "k \<le> k'"
    using 2(2) that by (fastforce simp: bt_sorted_def bt_remove_def filter_id_conv)
  moreover have "bt_insert k v xs = (k, v) # xs" if "k \<le> k'"
    using 2(2) that by (cases xs) (auto simp: bt_sorted_def)
  ultimately show ?case using 2(1) xs by (auto simp: bt_remove_def)
qed (simp add: bt_remove_def)

lemma dir_set_entries: "dir_of (set_entries s i es) j = None \<longleftrightarrow> dir_of s j = None"
  by (auto simp: set_entries_def dir_of_def inodes_set_dir split: option.splits ram_inode.splits)

lemma kind_set_entries [simp]: "kind_of (set_entries s i es) j = kind_of s j"
  by (auto simp: set_entries_def kind_of_def dir_of_def inodes_set_dir split: option.splits ram_inode.splits)

lemma kind_kill [simp]: "kind_of (set_dir s i f) j = kind_of s j"
  by (auto simp: kind_of_def dir_of_def inodes_set_dir split: option.splits ram_inode.splits)

lemma moved_tree:
  assumes "dir_of s t \<noteq> None" "dir_of s d \<noteq> None" "sorted_ok s"
  shows "tree_of (moved s d old t new i) =
    (let T1 = tree_unlink d old (tree_link t new i (tree_of s)) in
     if tK (tree_of s) i = Some KDirectory then tree_parent i t T1 else T1)"
proof -
  let ?s2 = "set_entries s t (bt_insert new i (ents s t))"
  have "tree_of ?s2 = tree_link t new i (tree_of s)"
    by (rule tree_of_link) (use assms sorted_okD in auto)
  moreover have "dir_of ?s2 d \<noteq> None" using assms(2) dir_set_entries by metis
  ultimately show ?thesis
    by (simp add: moved_def Let_def tree_of_parent tree_of_unlink)
qed

lemma moved_sorted:
  assumes "sorted_ok s"
  shows "sorted_ok (moved s d old t new i)"
  unfolding moved_def Let_def
  by (intro sorted_set_dir sorted_set_entries bt_remove_sorted bt_insert_sorted sorted_okD assms) simp_all

lemma moved_same: "same_files s' s \<Longrightarrow> same_files s' (moved s d old t new i)"
  by (simp add: moved_def Let_def)

lemma moved_entry:
  assumes "dir_of s t \<noteq> None" "dir_of s d \<noteq> None" "sorted_ok s"
    and "entry s d old = Some i" "\<not> (d = t \<and> old = new)"
  shows "entry (moved s d old t new i) x m =
    (if x = t \<and> m = new then Some i else if x = d \<and> m = old then None else entry s x m)"
  unfolding tree_of_sel(1) [symmetric] moved_tree [OF assms(1-3)] using assms(4,5)
  by (auto simp: Let_def tree_unlink_def tree_link_def tree_parent_def)

lemma moved_inv:
  assumes inv: "ram_inv_but X s" and d: "dir_of s t \<noteq> None" "dir_of s d \<noteq> None"
    and e: "entry s d old = Some i" "entry s t new = None" and t: "\<not> is_dead s t" "component new"
    and below: "kind_of s i = Some KDirectory \<Longrightarrow> (i, t) \<notin> (parent_rel (tree_of s))\<^sup>*"
  shows "ram_inv_but X (moved s d old t new i)"
proof (rule same_files_inv [OF inv])
  have ne: "\<not> (d = t \<and> old = new)" using e by auto
  note E = moved_entry [OF d ram_invD(2) [OF inv] e(1) ne]
  show "same_files s (moved s d old t new i)" by (rule moved_same) simp
  show "tree_ok (root_ino s) (next_ino s) (tree_of (moved s d old t new i))"
    unfolding moved_tree [OF d ram_invD(2) [OF inv]]
    by (rule tree_ok_move [OF ram_invD(1) [OF inv]]) (use d e t below in \<open>simp_all add: kind_dir\<close>)
  show "sorted_ok (moved s d old t new i)" by (rule moved_sorted [OF ram_invD(2) [OF inv]])
  show "kept (moved s d old t new i) j" if "kept s j" "j \<notin> X" for j
  proof (cases "j = i")
    case True
    then show ?thesis using E [of t new] by (auto intro: kept_entry)
  next
    case False
    show ?thesis
    proof (rule kept_mono [OF that(1)])
      show "entry (moved s d old t new i) x m = Some j" if "entry s x m = Some j" for x m
        using that False e unfolding E by auto
    qed (simp_all add: moved_def Let_def)
  qed
qed simp

section \<open>Dropping what was replaced\<close>

lemma dropped_forget:
  assumes "used s < 2 ^ 64" "ents s i = []"
  shows "dropped s i = (if referenced s i \<or> inodes s i = None then s else forget s i)"
proof (cases "referenced s i \<or> inodes s i = None")
  case False
  then obtain n where "inodes s i = Some n" by blast
  then show ?thesis
    using assms False
    by (cases n) (auto simp: dropped_def forget_def ram_release_def file_len_def view_defs wrapping_sub_def)
qed (auto simp: dropped_def)

lemma forget_set_dir: "i \<noteq> x \<Longrightarrow> set_dir (forget s x) i f = forget (set_dir s i f) x"
  by (cases "dir_of s i")
    (simp_all add: set_dir_def dir_of_def forget_def put_inode_def fun_upd_twist file_len_def file_of_def)

lemma forget_set_entries: "i \<noteq> x \<Longrightarrow> set_entries (forget s x) i es = forget (set_entries s i es) x"
  by (simp add: set_entries_def forget_set_dir)

lemma ents_forget: "i \<noteq> x \<Longrightarrow> ents (forget s x) i = ents s i"
  by (simp add: ents_def dir_of_def forget_def)

lemma named_unlink:
  assumes "sorted_ok s" "entry s d old = Some i" "x \<noteq> i"
  shows "named (set_entries s d (bt_remove old (ents s d))) x = named s x"
proof -
  let ?s = "set_entries s d (bt_remove old (ents s d))"
  have so: "sorted_ok ?s" by (intro sorted_set_entries bt_remove_sorted sorted_okD assms)
  have d: "dir_of s d \<noteq> None" using assms(2) by (auto simp: entry_def ents_def split: option.splits)
  have "entry ?s y m = (if y = d \<and> m = old then None else entry s y m)" for y m
    using d by (simp add: entry_set_entries) (simp add: entry_def)
  then have "(\<exists>m. entry ?s y m = Some x) \<longleftrightarrow> (\<exists>m. entry s y m = Some x)" for y
    using assms(2,3) by (metis option.distinct(1) option.inject)
  then show ?thesis
    unfolding named_def using entry_mem [OF so] entry_mem [OF assms(1)] by simp
qed

text \<open>Dropping the replaced inode at once or after the whole change is the same.\<close>

lemma dropped_commute:
  assumes so: "sorted_ok s" and x: "x \<noteq> d" "x \<noteq> i" "ents s x = []" and e: "entry s d old = Some i"
    and u: "used s < 2 ^ 64" and that: "\<And>c. d_entries (f c) = d_entries c"
  shows "set_dir (set_entries (dropped s x) d (bt_remove old (ents (dropped s x) d))) i f =
         dropped (set_dir (set_entries s d (bt_remove old (ents s d))) i f) x"
proof -
  let ?s = "set_dir (set_entries s d (bt_remove old (ents s d))) i f"
  have "ents ?s x = []" using x by (simp add: ents_set_dir [OF that] ents_set_entries)
  then have r: "dropped ?s x = (if referenced ?s x \<or> inodes ?s x = None then ?s else forget ?s x)"
    using u by (intro dropped_forget) simp_all
  have "referenced ?s x = referenced s x"
    using named_unlink [OF so e x(2)] by (simp add: referenced_def named_def ents_set_dir [OF that])
  moreover have "inodes ?s x = None \<longleftrightarrow> inodes s x = None" by (simp add: set_none)
  ultimately show ?thesis
    using r dropped_forget [OF u x(3)] x(1,2)
    by (auto simp: forget_set_entries forget_set_dir ents_forget)
qed

lemma entry_dropped:
  assumes "used s < 2 ^ 64" "ents s x = []"
  shows "entry (dropped s x) = entry s"
  using assms by (auto simp: dropped_forget fun_eq_iff entry_def ents_def dir_of_def forget_def)

text \<open>
  Replacing an entry: \<open>s1\<close> is the state with the replaced directory marked as
  removed (or unchanged for a file). The outcome is the move in the state
  without the replaced entry, with the replaced inode dropped at the end.
\<close>

lemma replace_moved:
  assumes inv: "ram_inv s" and d: "dir_of s t \<noteq> None" "dir_of s d \<noteq> None" "\<not> is_dead s t" "component new"
    and e: "entry s d old = Some i" "entry s t new = Some x" "x \<noteq> i" "x \<noteq> d" "x \<noteq> t" "ents s x = []"
    and same: "same_files s s1" and E1: "\<And>y. ents s1 y = ents s y"
    and D1: "\<And>y. dir_of s1 y = None \<longleftrightarrow> dir_of s y = None" "is_dead s1 t = is_dead s t" "tP (tree_of s1) = parent_of s"
    and taken: "ram_inv_but {x} (set_entries s1 t (bt_remove new (ents s1 t)))"
    and below: "kind_of s i = Some KDirectory \<Longrightarrow> (i, t) \<notin> (parent_rel (tree_of s))\<^sup>*"
  shows "ram_inv (dropped (moved s1 d old t new i) x)"
    and "entry (dropped (moved s1 d old t new i) x) y m =
      (if y = t \<and> m = new then Some i else if y = d \<and> m = old then None else entry s y m)"
proof -
  let ?s0 = "set_entries s1 t (bt_remove new (ents s1 t))"
  let ?m = "moved s1 d old t new i"
  have ne: "\<not> (d = t \<and> old = new)" using e by auto
  have entry1: "entry s1 = entry s" using E1 by (simp add: fun_eq_iff entry_def)
  have so: "sorted_ok s1" using ram_invD(2) [OF inv] E1 by (simp add: sorted_ok_def)
  have dir1: "dir_of s1 t \<noteq> None" "dir_of s1 d \<noteq> None" using d D1(1) by metis+
  have mv: "moved ?s0 d old t new i = ?m"
    using dir1 sorted_okD [OF so, of t]
    by (simp add: moved_def ents_set_entries bt_insert_remove Let_def)
  have E0: "entry ?s0 y m = (if y = t \<and> m = new then None else entry s y m)" for y m
    using dir1(1) entry1 by (simp add: entry_set_entries) (simp add: entry_def E1)
  have dir0: "dir_of ?s0 t \<noteq> None" "dir_of ?s0 d \<noteq> None" using dir1 dir_set_entries by metis+
  have tree0: "tree_of ?s0 = tree_unlink t new (tree_of s1)" by (rule tree_of_unlink [OF dir1(1)])
  have "ram_inv_but {x} (moved ?s0 d old t new i)"
  proof (rule moved_inv [OF taken dir0])
    show "entry ?s0 d old = Some i" "entry ?s0 t new = None" using e ne unfolding E0 by auto
    show "\<not> is_dead ?s0 t" using d(3) D1(2) tree0 by (metis tree_of_sel(4) tree_unlink_def dtree.select_convs(4)
          dtree.update_convs(1) dtree.surjective)
    show "component new" by (rule d(4))
    have "parent_rel (tree_of ?s0) = parent_rel (tree_of s)"
      using D1(3) by (simp add: tree0 tree_unlink_def parent_rel_def)
    moreover have "kind_of ?s0 i = Some KDirectory \<longleftrightarrow> kind_of s i = Some KDirectory"
      using D1(1) [of i] by (simp add: kind_dir)
    ultimately show "(i, t) \<notin> (parent_rel (tree_of ?s0))\<^sup>*" if "kind_of ?s0 i = Some KDirectory"
      using below that by simp
  qed
  then have inv1: "ram_inv_but {x} ?m" by (simp only: mv)
  have empty: "ents ?m x = []"
    using e(4-6) E1 unfolding moved_def Let_def by (simp add: ents_set_dir ents_set_entries)
  then show "ram_inv (dropped ?m x)" by (rule dropped_inv [OF inv1])
  have "used ?m < 2 ^ 64" using ram_invD(3) [OF inv1] by (simp add: bytes_ok_def)
  then show "entry (dropped ?m x) y m =
      (if y = t \<and> m = new then Some i else if y = d \<and> m = old then None else entry s y m)"
    using moved_entry [OF dir1 so _ ne, of i y m] e(1) by (simp add: entry_dropped [OF _ empty] entry1)
qed

section \<open>The whole call\<close>

text \<open>What a successful rename does to the entries of all directories.\<close>

definition entry_moved :: "ramfs \<Rightarrow> ramfs \<Rightarrow> ino \<Rightarrow> string \<Rightarrow> ino \<Rightarrow> string \<Rightarrow> bool" where
  "entry_moved s s' d old t new \<longleftrightarrow>
     (\<exists>i. entry s d old = Some i \<and>
        (\<forall>x m. entry s' x m =
           (if x = t \<and> m = new then Some i else if x = d \<and> m = old then None else entry s x m)))"

definition rename_outcome ::
    "ramfs \<Rightarrow> ino \<Rightarrow> string \<Rightarrow> ino \<Rightarrow> string \<Rightarrow> (unit fs_result \<times> ramfs) option \<Rightarrow> bool" where
  "rename_outcome s d old t new res \<longleftrightarrow>
     (\<exists>r s'. res = Some (r, s') \<and> ram_inv s' \<and>
        (case r of Err _ \<Rightarrow> s' = s
         | Ok _ \<Rightarrow> s' = s \<and> d = t \<and> old = new \<or> entry_moved s s' d old t new))"

lemma outcome_err [simp]: "ram_inv s \<Longrightarrow> rename_outcome s d old t new (Some (Err e, s))"
  by (simp add: rename_outcome_def)

lemma outcome_same [simp]: "ram_inv s \<Longrightarrow> rename_outcome s d old d old (Some (Ok u, s))"
  by (simp add: rename_outcome_def)

lemma outcome_moved:
  assumes "ram_inv s'" "entry s d old = Some i"
    "\<And>x m. entry s' x m = (if x = t \<and> m = new then Some i else if x = d \<and> m = old then None else entry s x m)"
  shows "rename_outcome s d old t new (Some (Ok u, s'))"
  using assms unfolding rename_outcome_def entry_moved_def by auto

text \<open>The state in which the changes of \<open>rename_commit\<close> after the checks end.\<close>

lemma commit_tail:
  assumes s1: "sorted_ok s1" "used s1 < 2 ^ 64" "ents s1 x = []" "entry s1 d old = Some i"
    and ne: "\<not> (d = t \<and> old = new)" and x: "x \<noteq> d" "x \<noteq> i" "x \<noteq> t" and t: "dir_of s1 t \<noteq> None"
  shows "(let s2 = set_entries s1 t (bt_insert new i (ents s1 t));
              s3 = dropped s2 x;
              s4 = set_entries s3 d (bt_remove old (ents s3 d)) in
          set_dir s4 i (\<lambda>c. c\<lparr> d_parent := Some t \<rparr>)) = dropped (moved s1 d old t new i) x"
proof -
  let ?s2 = "set_entries s1 t (bt_insert new i (ents s1 t))"
  have "sorted_ok ?s2" by (intro sorted_set_entries bt_insert_sorted sorted_okD s1)
  moreover have "ents ?s2 x = []" using s1(3) x(3) by (simp add: ents_set_entries)
  moreover have "entry ?s2 d old = Some i"
    using t s1(4) ne map_of_bt_insert [OF sorted_okD [OF s1(1), of t]]
    by (auto simp: entry_set_entries) (simp add: entry_def)
  ultimately show ?thesis
    unfolding moved_def Let_def using x s1(2) by (intro dropped_commute) simp_all
qed

text \<open>An entry that is replaced: \<open>s1\<close> is the state after the checks of what is replaced.\<close>

lemma commit_replace:
  assumes inv: "ram_inv s" and d: "dir_of s t \<noteq> None" "dir_of s d \<noteq> None" "\<not> is_dead s t" "component new"
    and e: "entry s d old = Some i" "entry s t new = Some x" and ne: "x \<noteq> i" "\<not> (d = t \<and> old = new)"
    and rep: "rename_replace s d t i x = Some (Ok (), s1)" and x: "x \<noteq> d" "x \<noteq> t" "ents s x = []"
    and same: "same_files s s1" and E1: "\<And>y. ents s1 y = ents s y"
    and D1: "\<And>y. dir_of s1 y = None \<longleftrightarrow> dir_of s y = None" "is_dead s1 t = is_dead s t" "tP (tree_of s1) = parent_of s"
    and taken: "ram_inv_but {x} (set_entries s1 t (bt_remove new (ents s1 t)))"
    and below: "kind_of s i = Some KDirectory \<Longrightarrow> (i, t) \<notin> (parent_rel (tree_of s))\<^sup>*"
  shows "rename_outcome s d old t new (rename_commit s d old t new)"
proof -
  have "sorted_ok s1" using ram_invD(2) [OF inv] E1 by (simp add: sorted_ok_def)
  moreover have "used s1 < 2 ^ 64"
    using ram_invD(3) [OF inv] same by (simp add: same_files_def bytes_ok_def)
  moreover have "ents s1 x = []" "entry s1 d old = Some i" using x e E1 by (simp_all add: entry_def)
  moreover have "dir_of s1 t \<noteq> None" using d D1(1) by metis
  ultimately have "rename_commit s d old t new = Some (Ok (), dropped (moved s1 d old t new i) x)"
    using e rep commit_tail [of s1 x d old i t new] x ne
    by (simp add: rename_commit_def Let_def)
  then show ?thesis
    using outcome_moved [OF _ e(1)] replace_moved [OF inv d e ne(1) x same E1 D1 taken below]
    by simp
qed

lemma commit_replace_dir:
  assumes inv: "ram_inv s" and d: "dir_of s t \<noteq> None" "dir_of s d \<noteq> None" "\<not> is_dead s t" "component new"
    and e: "entry s d old = Some i" "entry s t new = Some x" and ne: "x \<noteq> i" "\<not> (d = t \<and> old = new)"
    and k: "kind_of s i = Some KDirectory" "kind_of s x = Some KDirectory"
    and below: "(i, t) \<notin> (parent_rel (tree_of s))\<^sup>*"
  shows "rename_outcome s d old t new (rename_commit s d old t new)"
proof -
  have xt: "x \<noteq> t" using not_own_child [OF ram_invD(1) [OF inv], of t new x] e k by auto
  show ?thesis
  proof (cases "x = d \<or> ents s x \<noteq> []")
    case True
    have "rename_replace s d t i x = Some (Err ENOTEMPTY, s)"
      using True k xt by (auto simp: rename_replace_def)
    then show ?thesis using e inv by (simp add: rename_commit_def)
  next
    case False
    then have x: "x \<noteq> d" "x \<noteq> t" "ents s x = []" using xt by auto
    show ?thesis
    proof (rule commit_replace [OF inv d e ne, of "buried s x"])
      show "rename_replace s d t i x = Some (Ok (), buried s x)"
        using x k by (simp add: rename_replace_def buried_def)
      show "same_files s (buried s x)" by (simp add: buried_def)
      show "is_dead (buried s x) t = is_dead s t"
        using x(2) by (cases "dir_of s x") (simp_all add: buried_def is_dead_def dir_of_def set_dir_def put_inode_def)
      show "tP (tree_of (buried s x)) = parent_of s"
        using k by (simp add: buried_def tree_of_kill kind_dir tree_kill_def del: tree_of_sel(3)) simp
      show "ram_inv_but {x} (set_entries (buried s x) t (bt_remove new (ents (buried s x) t)))"
        using removed_inv [OF inv e(2)] x k by (simp add: kind_dir)
    qed (use x below in \<open>simp_all add: buried_dir\<close>)
  qed
qed

lemma commit_outcome:
  assumes inv: "ram_inv s" and d: "dir_of s t \<noteq> None" "dir_of s d \<noteq> None" "\<not> is_dead s t" "component new"
    and ne: "\<not> (d = t \<and> old = new)"
    and below: "\<And>i. entry s d old = Some i \<Longrightarrow> kind_of s i = Some KDirectory \<Longrightarrow> (i, t) \<notin> (parent_rel (tree_of s))\<^sup>*"
  shows "rename_outcome s d old t new (rename_commit s d old t new)"
proof (cases "entry s d old")
  case None
  then show ?thesis using inv by (simp add: rename_commit_def)
next
  case (Some i)
  note tree = ram_invD(1) [OF inv] and below = below [OF Some]
  show ?thesis
  proof (cases "entry s t new")
    case None
    have "rename_commit s d old t new = Some (Ok (), moved s d old t new i)"
      using Some None by (simp add: rename_commit_def moved_def Let_def)
    then show ?thesis
      using outcome_moved [OF moved_inv [OF inv d(1,2) Some None d(3,4) below] Some
          moved_entry [OF d(1,2) ram_invD(2) [OF inv] Some ne]] by simp
  next
    case (Some x)
    note e = \<open>entry s d old = Some i\<close> Some
    have xi: "x \<noteq> i" using single_okD [OF tree, of d old i t new] e ne by auto
    have alive: "kind_of s i \<noteq> None" "kind_of s x \<noteq> None"
      using links_okD(3) [OF tree, of d old i] links_okD(3) [OF tree, of t new x] e by simp_all
    consider (both) "kind_of s i = Some KDirectory" "kind_of s x = Some KDirectory"
      | (plain) "kind_of s i = Some KFile" "kind_of s x = Some KFile"
      | (mixed) "(kind_of s i = Some KDirectory) \<noteq> (kind_of s x = Some KDirectory)"
      using alive kind_cases [of s i] kind_cases [of s x] by auto
    then show ?thesis
    proof cases
      case both
      show ?thesis by (rule commit_replace_dir [OF inv d e xi ne both below [OF both(1)]])
    next
      case plain
      have x: "x \<noteq> d" "x \<noteq> t" "ents s x = []"
        using plain d by (auto simp: ents_def dir_of_def kind_of_def split: option.splits ram_inode.splits)
      show ?thesis
      proof (rule commit_replace [OF inv d e xi ne, of s])
        show "rename_replace s d t i x = Some (Ok (), s)" using plain by (simp add: rename_replace_def)
        show "ram_inv_but {x} (set_entries s t (bt_remove new (ents s t)))"
          using plain by (intro unlinked_inv [OF inv e(2)]) simp
      qed (use x below in simp_all)
    next
      case mixed
      have "\<exists>er. rename_replace s d t i x = Some (Err er, s)"
        using mixed alive kind_cases [of s i] kind_cases [of s x] by (auto simp: rename_replace_def)
      then show ?thesis using e inv by (auto simp: rename_commit_def)
    qed
  qed
qed

lemma rename_outcome_holds:
  assumes inv: "ram_inv s"
  shows "rename_outcome s d old (snd target) new (ram_rename s d old target new)"
proof (cases "dir_of s d = None \<or> check_name new \<noteq> Ok () \<or> fst target \<noteq> fs_id s \<or> dir_of s (snd target) = None")
  case True
  then show ?thesis
    using inv by (auto simp: ram_rename_def rename_check_def split: result.splits)
next
  case False
  let ?t = "snd target"
  have d: "dir_of s d \<noteq> None" "dir_of s ?t \<noteq> None" "check_name new = Ok ()" "fst target = fs_id s"
    using False by auto
  then have new: "component new" by (simp add: check_name_Ok)
  note within = is_within_spec [OF inv]
  show ?thesis
  proof (cases "?t = d \<and> old = new")
    case True
    then have "ram_rename s d old target new = Some (case ram_lookup s d old of Ok _ \<Rightarrow> Ok () | Err e \<Rightarrow> Err e, s)"
      using d by (auto simp: ram_rename_def rename_check_def split: result.split)
    then show ?thesis using True inv by (auto split: result.split)
  next
    case ne: False
    obtain b where b: "source_first s d ?t = Some b" using source_first_returns [OF inv] by blast
    show ?thesis
    proof (cases "entry s d old")
      case None
      then have "ram_lookup s d old = Err ENOENT" using d(1) by (auto simp: ram_lookup_def split: option.split)
      then show ?thesis using d ne inv by (auto simp: ram_rename_def rename_check_def Let_def)
    next
      case (Some i)
      then have l: "ram_lookup s d old = Ok i" using d(1) by (auto simp: ram_lookup_def split: option.split)
      let ?below = "dir_of s i \<noteq> None \<and> (i, ?t) \<in> (up_rel s)\<^sup>*"
      have res: "ram_rename s d old target new =
          (if is_dead s ?t then Some (Err ENOENT, s) else if ?below then Some (Err EINVAL, s)
           else rename_commit s d old ?t new)"
        using d ne l b by (auto simp: ram_rename_def rename_check_def within Let_def)
      have "rename_outcome s d old ?t new (rename_commit s d old ?t new)" if "\<not> is_dead s ?t" "\<not> ?below"
        using that Some not_within_parent [OF inv] ne
        by (intro commit_outcome [OF inv d(2,1) _ new]) (auto simp: kind_dir)
      then show ?thesis unfolding res using inv by simp
    qed
  qed
qed

end
