(* ===== verification/RamFsProps.thy ===== *)
theory RamFsProps
  imports RamFsRename
begin

text \<open>
  The in-memory file system as a transition system: callers look inodes up,
  hold and give back references, create, write, truncate, unlink, remove and
  rename, in any order and with any arguments; whether memory runs out is
  arbitrary. Fewer than \<open>2 ^ 64\<close> inodes are ever created. A rename is two
  steps, as it takes the locks of the entry maps only after its checks: other
  calls run between \<open>rename_check\<close> and \<open>rename_commit\<close>.
\<close>

section \<open>Calls that move no directory\<close>

text \<open>
  What such a call does to the names and the parent links: what was there
  stays or goes, and only the inode with the next number is new.
\<close>

definition fixed_shape :: "ramfs \<Rightarrow> ramfs \<Rightarrow> bool" where
  "fixed_shape s s' \<longleftrightarrow>
     (\<forall>i p. parent_of s' i = Some p \<longrightarrow> parent_of s i = Some p \<or> i = next_ino s \<and> p \<noteq> next_ino s) \<and>
     (\<forall>i k. kind_of s' i = Some k \<longrightarrow> kind_of s i = Some k \<or> i = next_ino s) \<and>
     (\<forall>d n i. entry s' d n = Some i \<longrightarrow> entry s d n = Some i \<or> i = next_ino s)"

text \<open>Inodes only go.\<close>

definition fewer_inodes :: "ramfs \<Rightarrow> ramfs \<Rightarrow> bool" where
  "fewer_inodes s s' \<longleftrightarrow> next_ino s' = next_ino s \<and> (\<forall>i. inodes s' i = inodes s i \<or> inodes s' i = None)"

lemma fewer_inodes_trans: "fewer_inodes s s1 \<Longrightarrow> fewer_inodes s1 s2 \<Longrightarrow> fewer_inodes s s2"
  unfolding fewer_inodes_def by metis

lemma drop_ref_fewer: "fewer_inodes s (drop_ref k s i)"
proof (induction k arbitrary: s i)
  case (Suc k)
  have fold: "fewer_inodes s (foldl (\<lambda>s j. drop_ref k s j) s' js)" if "fewer_inodes s s'" for s s' js
    using that
  proof (induction js arbitrary: s')
    case (Cons j js)
    have "fewer_inodes s (drop_ref k s' j)" by (rule fewer_inodes_trans [OF Cons.prems Suc])
    then show ?case using Cons.IH by simp
  qed simp
  have one: "fewer_inodes s (s\<lparr> inodes := (inodes s)(i := None) \<rparr>)"
    "fewer_inodes s (ram_release (s\<lparr> inodes := (inodes s)(i := None) \<rparr>) u)" "fewer_inodes s s" for u
    by (simp_all add: fewer_inodes_def ram_release_def)
  show ?case using one fold [OF one(1)] by (simp split: option.split ram_inode.split)
qed (simp add: fewer_inodes_def)

lemma fewer_shape:
  assumes "fixed_shape s s1" "fewer_inodes s1 s2"
  shows "fixed_shape s s2"
proof -
  have i: "inodes s2 i = inodes s1 i \<or> inodes s2 i = None" for i using assms(2) by (simp add: fewer_inodes_def)
  have "parent_of s2 i = Some p \<Longrightarrow> parent_of s1 i = Some p" "kind_of s2 i = Some k \<Longrightarrow> kind_of s1 i = Some k"
    "entry s2 i n = Some j \<Longrightarrow> entry s1 i n = Some j" for i p k n j
    using i [of i] by (auto simp: view_defs)
  then show ?thesis using assms(1) unfolding fixed_shape_def by blast
qed

lemma fixed_shape_same:
  assumes "tree_of s' = tree_of s"
  shows "fixed_shape s s'"
proof -
  have "entry s' = entry s" "kind_of s' = kind_of s" "parent_of s' = parent_of s"
    using assms tree_of_sel [of s] tree_of_sel [of s'] by simp_all
  then show ?thesis by (simp add: fixed_shape_def)
qed

lemma fixed_shape_refl [simp]: "fixed_shape s s"
  by (simp add: fixed_shape_same)

lemma dropped_shape: "fixed_shape s s1 \<Longrightarrow> fixed_shape s (dropped s1 i)"
  unfolding dropped_def using fewer_shape drop_ref_fewer by blast

lemma put_back_shape: "fixed_shape s (put_back s i)"
  unfolding put_back_def by (rule dropped_shape) (simp add: fixed_shape_same)

lemma unlink_entry_shape:
  assumes "entry s1 = entry s" "kind_of s1 = kind_of s" "parent_of s1 = parent_of s" "dir_of s1 d \<noteq> None"
  shows "fixed_shape s (set_entries s1 d (bt_remove n (ents s1 d)))" (is "fixed_shape s ?s")
proof -
  have t: "tree_of ?s = tree_unlink d n (tree_of s1)" by (rule tree_of_unlink [OF assms(4)])
  have "entry ?s = (entry s)(d := (entry s d)(n := None))" "kind_of ?s = kind_of s" "parent_of ?s = parent_of s"
    using arg_cong [OF t, of tE] arg_cong [OF t, of tK] arg_cong [OF t, of tP] assms(1-3) by (simp_all add: tree_unlink_def)
  then show ?thesis by (auto simp: fixed_shape_def split: if_splits)
qed

lemma unlink_shape: "fixed_shape s (snd (ram_unlink s d n))"
proof -
  have "fixed_shape s (set_entries s d (bt_remove n (d_entries r)))" if "dir_of s d = Some r" for r
    using unlink_entry_shape [of s s d n] that by (simp add: ents_def)
  then show ?thesis by (auto simp: ram_unlink_def dropped_shape split: option.split)
qed

lemma buried_views: "entry (buried s i) = entry s" "kind_of (buried s i) = kind_of s" "parent_of (buried s i) = parent_of s"
  by (auto simp: fun_eq_iff buried_def view_defs inodes_set_dir split: option.split ram_inode.split)

lemma rmdir_shape: "fixed_shape s (snd (ram_rmdir s d n))"
proof -
  have "fixed_shape s (set_entries (buried s i) d (bt_remove n (ents (buried s i) d)))" if "dir_of s d \<noteq> None" for i
  proof (rule unlink_entry_shape [OF buried_views])
    show "dir_of (buried s i) d \<noteq> None" using that by (simp only: buried_dir not_False_eq_True)
  qed
  then show ?thesis by (auto simp: ram_rmdir_def buried_def Let_def dropped_shape split: option.split)
qed

lemma file_tree:
  assumes "file_of s i \<noteq> None"
  shows "tree_of (put_inode (s\<lparr> used := u \<rparr>) i (RamFile b)) = tree_of s"
proof -
  have "file_of (s\<lparr> used := u \<rparr>) i \<noteq> None" using assms by (simp add: file_of_def)
  then have "tree_of (put_inode (s\<lparr> used := u \<rparr>) i (RamFile b)) = tree_of (s\<lparr> used := u \<rparr>)" by (rule tree_of_file)
  also have "\<dots> = tree_of s" by (rule tree_of_cong) simp
  finally show ?thesis .
qed

lemma truncate_shape:
  assumes "ram_inv s"
  shows "fixed_shape s (snd (ram_truncate oom s i n))"
  using file_tree [of s i]
  by (auto simp: ram_truncate_def resize_spec [OF assms] intro!: fixed_shape_same split: option.split)

lemma write_shape:
  assumes "ram_inv s"
  shows "fixed_shape s (snd (ram_write_at oom s i offset buf))"
proof (cases "file_of s i")
  case (Some b)
  then show ?thesis using file_tree [of s i] unfolding write_spec [OF assms Some] by (auto simp: Let_def intro!: fixed_shape_same)
qed (simp add: ram_write_at_def)

lemma create_shape:
  assumes inv: "ram_inv s" and room: "next_ino s + 1 < 2 ^ 64"
  shows "fixed_shape s (snd (ram_create s d n k))"
proof -
  have new: "fixed_shape s (set_entries (put_inode (s\<lparr> next_ino := next_ino s + 1 \<rparr>) (next_ino s) node) d
      (bt_insert n (next_ino s) (d_entries r)))" (is "fixed_shape s ?s")
    if r: "dir_of s d = Some r" and node: "node = RamFile [] \<and> k = KFile \<or>
      node = Dir \<lparr> d_parent = Some d, d_entries = [], d_dead = False \<rparr> \<and> k = KDirectory" for r node k
  proof -
    have dN: "d < next_ino s" using inode_bound [OF inv, of d] r by (simp add: dir_of_iff)
    note t = create_tree_of [OF inv r room node, of n]
    have "entry ?s = (entry s)(d := (entry s d)(n \<mapsto> next_ino s))" "kind_of ?s = (kind_of s)(next_ino s \<mapsto> k)"
      "parent_of ?s = (parent_of s)(next_ino s := (if k = KDirectory then Some d else None))"
      using arg_cong [OF t, of tE] arg_cong [OF t, of tK] arg_cong [OF t, of tP] by (simp_all add: tree_ops)
    then show ?thesis using dN by (auto simp: fixed_shape_def split: if_splits)
  qed
  show ?thesis
    using new room by (auto simp: ram_create_def allocate_ino_def ramdir_new_def Let_def split: option.split result.split InodeKind.split)
qed

text \<open>Nothing new leads from a directory to one that was there before.\<close>

lemma fixed_shape_path:
  assumes inv: "ram_inv s" and sh: "fixed_shape s s'" and i: "i \<noteq> next_ino s" and t: "t < next_ino s"
    and p: "(i, t) \<in> (parent_rel (tree_of s'))\<^sup>*"
  shows "(i, t) \<in> (parent_rel (tree_of s))\<^sup>*"
proof -
  have edge: "(x, y) \<in> parent_rel (tree_of s)" if "(x, y) \<in> parent_rel (tree_of s')" "y \<noteq> next_ino s" for x y
    using that sh by (auto simp: parent_rel_def fixed_shape_def)
  have lt: "x < next_ino s" if "(x, y) \<in> parent_rel (tree_of s)" for x y
    using that tree_okD(2) [OF ram_invD(1) [OF inv]] by (auto simp: ids_ok_def parent_rel_def)
  from p t show ?thesis
  proof (induction rule: rtrancl_induct)
    case (step y z)
    have e: "(y, z) \<in> parent_rel (tree_of s)" using edge [OF step.hyps(2)] step.prems by simp
    then show ?case using step.IH [OF lt [OF e]] by (rule rtrancl_into_rtrancl [rotated])
  qed simp
qed

section \<open>The transition system\<close>

inductive ram_init :: "ramfs \<Rightarrow> bool" where
  "lim < 2 ^ 64 \<Longrightarrow> ram_init (with_limit fsid lim)"

text \<open>Every call but rename.\<close>

inductive ram_call :: "ramfs \<Rightarrow> ramfs \<Rightarrow> bool" where
  lookup: "ram_lookup s d n = Ok i \<Longrightarrow> ram_call s (acquire s i)"
| clone: "i \<in> set (held s) \<or> i = root_ino s \<Longrightarrow> ram_call s (acquire s i)"
| put_back: "i \<in> set (held s) \<Longrightarrow> ram_call s (put_back s i)"
| create: "next_ino s + 1 < 2 ^ 64 \<Longrightarrow> ram_call s (snd (ram_create s d n k))"
| write_at: "ram_call s (snd (ram_write_at oom s i offset buf))"
| truncate: "ram_call s (snd (ram_truncate oom s i n))"
| unlink: "ram_call s (snd (ram_unlink s d n))"
| rmdir: "ram_call s (snd (ram_rmdir s d n))"

inductive_cases ram_callE: "ram_call s t"

text \<open>
  A rename between its checks and its changes: the directory and the name it
  takes, and the directory and the name it gives. The rename lock lets one
  rename at a time get this far.
\<close>

record pending =
  pr_from :: ino
  pr_old :: string
  pr_to :: ino
  pr_new :: string

text \<open>
  What the other calls leave alone meanwhile. The two directories exist, since
  the renaming caller holds references to both. That the target is not removed
  is an assumption: the code does not see to it.
\<close>

definition target_left :: "pending option \<Rightarrow> ramfs \<Rightarrow> bool" where
  "target_left p s = (case p of None \<Rightarrow> True
     | Some r \<Rightarrow> dir_of s (pr_from r) \<noteq> None \<and> dir_of s (pr_to r) \<noteq> None \<and> \<not> is_dead s (pr_to r))"

inductive ram_step :: "ramfs \<times> pending option \<Rightarrow> ramfs \<times> pending option \<Rightarrow> bool" where
  call: "ram_call s s' \<Longrightarrow> target_left p s' \<Longrightarrow> ram_step (s, p) (s', p)"
| rename_refused: "rename_check s d old target new = Some r \<Longrightarrow> r \<noteq> Ok False \<Longrightarrow> ram_step (s, None) (s, None)"
| rename_checked: "dir_of s d \<noteq> None \<Longrightarrow> rename_check s d old (fsid, t) new = Some (Ok False)
    \<Longrightarrow> ram_step (s, None) (s, Some \<lparr> pr_from = d, pr_old = old, pr_to = t, pr_new = new \<rparr>)"
| rename_done: "rename_commit s (pr_from r) (pr_old r) (pr_to r) (pr_new r) = Some (res, s') \<Longrightarrow> ram_step (s, Some r) (s', None)"

lemma ram_call_inv:
  assumes inv: "ram_inv s" and step: "ram_call s t"
  shows "ram_inv t"
  using step
proof cases
  case (lookup d n i)
  then have "entry s d n = Some i" by (auto simp: ram_lookup_def split: option.splits)
  then have "inodes s i \<noteq> None"
    using links_okD(3) [OF ram_invD(1) [OF inv]] by (auto simp: kind_none)
  then show ?thesis using acquire_inv [OF inv] lookup by simp
next
  case (clone i)
  then have "inodes s i \<noteq> None"
    using ram_invD(4) [OF inv] tree_okD(1) [OF ram_invD(1) [OF inv]]
    by (auto simp: held_ok_def root_ok_def kind_dir dir_of_iff)
  then show ?thesis using acquire_inv [OF inv] clone by simp
next
  case (put_back i)
  then show ?thesis
    using put_back_inv [OF inv, of i] put_back_kept(2) [OF inv, of i] by (cases "ents s i = []") simp_all
qed (use create_inv [OF inv] write_inv [OF inv] truncate_inv [OF inv] unlink_inv [OF inv] rmdir_inv [OF inv] in auto)

lemma ram_call_shape:
  assumes "ram_inv s" "ram_call s t"
  shows "fixed_shape s t"
  using assms(2)
  by cases (auto simp: acquire_def put_back_shape create_shape [OF assms(1)] write_shape [OF assms(1)]
      truncate_shape [OF assms(1)] unlink_shape rmdir_shape intro: fixed_shape_same)

text \<open>A rename under way will not put a directory below itself.\<close>

definition pending_ok :: "ramfs \<Rightarrow> pending option \<Rightarrow> bool" where
  "pending_ok s p \<longleftrightarrow> target_left p s \<and> (\<forall>r. p = Some r \<longrightarrow> component (pr_new r)
     \<and> \<not> (pr_from r = pr_to r \<and> pr_old r = pr_new r)
     \<and> (\<forall>i. entry s (pr_from r) (pr_old r) = Some i \<longrightarrow> kind_of s i = Some KDirectory
          \<longrightarrow> (i, pr_to r) \<notin> (parent_rel (tree_of s))\<^sup>*))"

lemma pending_call:
  assumes inv: "ram_inv s" and ok: "pending_ok s p" and call: "ram_call s s'" "target_left p s'"
  shows "pending_ok s' p"
  unfolding pending_ok_def
proof (intro conjI allI impI)
  fix r assume p: "p = Some r"
  note R = ok [unfolded pending_ok_def, THEN conjunct2, rule_format, OF p]
  show "component (pr_new r)" "\<not> (pr_from r = pr_to r \<and> pr_old r = pr_new r)" using R by blast+
  fix i assume e: "entry s' (pr_from r) (pr_old r) = Some i" and k: "kind_of s' i = Some KDirectory"
  have "dir_of s (pr_to r) \<noteq> None" using ok p by (simp add: pending_ok_def target_left_def)
  then have t: "pr_to r < next_ino s" using inode_bound [OF inv, of "pr_to r"] by (auto simp: dir_of_iff)
  note sh = ram_call_shape [OF inv call(1)]
  show "(i, pr_to r) \<notin> (parent_rel (tree_of s'))\<^sup>*"
  proof (cases "i = next_ino s")
    case True
    have "(next_ino s, y) \<notin> parent_rel (tree_of s')" for y
    proof
      assume "(next_ino s, y) \<in> parent_rel (tree_of s')"
      then have "parent_of s y = Some (next_ino s)" using sh by (auto simp: fixed_shape_def parent_rel_def)
      then show False using tree_okD(2) [OF ram_invD(1) [OF inv]] by (auto simp: ids_ok_def)
    qed
    then show ?thesis using True t by (auto elim: converse_rtranclE)
  next
    case False
    then have "entry s (pr_from r) (pr_old r) = Some i" "kind_of s i = Some KDirectory"
      using sh e k unfolding fixed_shape_def by blast+
    then have "(i, pr_to r) \<notin> (parent_rel (tree_of s))\<^sup>*" using R by blast
    then show ?thesis using fixed_shape_path [OF inv sh False t] by blast
  qed
qed (use call in simp)

lemma rename_checked_ok:
  assumes inv: "ram_inv s" and d: "dir_of s d \<noteq> None" and ck: "rename_check s d old (fsid, t) new = Some (Ok False)"
  shows "pending_ok s (Some \<lparr> pr_from = d, pr_old = old, pr_to = t, pr_new = new \<rparr>)"
proof -
  note within = is_within_spec [OF inv]
  have new: "component new" using ck by (auto simp: rename_check_def check_name_Ok split: result.splits)
  have "dir_of s t \<noteq> None \<and> \<not> (t = d \<and> old = new) \<and> \<not> is_dead s t
      \<and> (\<exists>i. ram_lookup s d old = Ok i \<and> \<not> (dir_of s i \<noteq> None \<and> (i, t) \<in> (up_rel s)\<^sup>*))"
    using ck by (auto simp: rename_check_def Let_def within split: result.splits if_splits option.splits)
  then obtain i where i: "dir_of s t \<noteq> None" "\<not> (t = d \<and> old = new)" "\<not> is_dead s t" "ram_lookup s d old = Ok i"
    "\<not> (dir_of s i \<noteq> None \<and> (i, t) \<in> (up_rel s)\<^sup>*)" by blast
  have "entry s d old = Some i" using i(4) by (auto simp: ram_lookup_def split: option.splits)
  moreover have "(i, t) \<notin> (parent_rel (tree_of s))\<^sup>*" if "kind_of s i = Some KDirectory"
    using not_within_parent [OF inv that, of t] i(5) that unfolding kind_dir by blast
  ultimately show ?thesis using d new i(1-3) by (auto simp: pending_ok_def target_left_def)
qed

lemma rename_done_ok:
  assumes inv: "ram_inv s" and ok: "pending_ok s (Some r)"
  shows "rename_outcome s (pr_from r) (pr_old r) (pr_to r) (pr_new r)
    (rename_commit s (pr_from r) (pr_old r) (pr_to r) (pr_new r))"
  using ok by (intro commit_outcome [OF inv]) (auto simp: pending_ok_def target_left_def)

definition ram_sys_inv :: "ramfs \<times> pending option \<Rightarrow> bool" where
  "ram_sys_inv w \<longleftrightarrow> ram_inv (fst w) \<and> pending_ok (fst w) (snd w)"

lemma ram_step_inv: "ram_step w w' \<Longrightarrow> ram_sys_inv w \<Longrightarrow> ram_sys_inv w'"
proof (induction rule: ram_step.induct)
  case (call s s' p)
  then show ?case using ram_call_inv pending_call by (auto simp: ram_sys_inv_def)
next
  case (rename_checked s d old fsid t new)
  then show ?case using rename_checked_ok by (simp add: ram_sys_inv_def)
next
  case (rename_done s r res s')
  then show ?case
    using rename_done_ok [of s r] by (auto simp: ram_sys_inv_def rename_outcome_def pending_ok_def target_left_def)
qed simp

interpretation ram: safe_system "\<lambda>w. ram_init (fst w) \<and> snd w = None" ram_step ram_sys_inv
proof
  show "ram_sys_inv w" if "ram_init (fst w) \<and> snd w = None" for w
    using that by (cases w) (auto simp: ram_sys_inv_def pending_ok_def target_left_def with_limit_inv elim: ram_init.cases)
  show "ram_sys_inv w'" if "ram_sys_inv w" "ram_step w w'" for w w' using ram_step_inv that by blast
qed

text \<open>The system can be in the state \<open>s\<close> with the rename \<open>p\<close> under way.\<close>

abbreviation ram_running :: "ramfs \<Rightarrow> pending option \<Rightarrow> bool" where
  "ram_running s p \<equiv> reaches (\<lambda>w. ram_init (fst w) \<and> snd w = None) ram_step (s, p)"

definition ram_reachable :: "ramfs \<Rightarrow> bool" where
  "ram_reachable s \<longleftrightarrow> (\<exists>p. ram_running s p)"

lemma ram_reachable_inv: "ram_reachable s \<Longrightarrow> ram_inv s"
  using ram.reaches_inv by (force simp: ram_reachable_def ram_sys_inv_def)

lemma ram_running_call: "ram_running s None \<Longrightarrow> ram_call s s' \<Longrightarrow> ram_running s' None"
  by (erule reaches.step) (rule ram_step.call, simp_all add: target_left_def)

text \<open>
  C16. In every state the file system can reach, the directories form a tree:
  every entry lies in a live directory and names an inode that exists under one
  name only, a named directory knows its parent, removed directories are empty,
  and no directory lies below itself. The byte counter is exactly the sum of
  the lengths of all files, deleted but open ones included, and never above the
  limit. An inode exists exactly as long as something refers to it. Other calls
  may run between the checks of a rename and its changes; the one thing they
  must not do there, and the code does not prevent, is to remove the directory
  the rename moves into (the race shown at the end of this theory).
\<close>

theorem ram_reachable_tree:
  assumes "ram_reachable s"
  shows "tree_ok (root_ino s) (next_ino s) (tree_of s)
    \<and> used s = (\<Sum>i < next_ino s. file_len s i) \<and> used s \<le> limit s
    \<and> (inodes s i \<noteq> None \<longleftrightarrow>
         i = root_ino s \<or> i \<in> set (held s) \<or> (\<exists>d n. entry s d n = Some i))"
proof -
  have inv: "ram_inv s" using assms by (rule ram_reachable_inv)
  note I = ram_invD [OF inv]
  have "inodes s i \<noteq> None" if "kept s i"
    using that I(4) links_okD(3) [OF I(1)] tree_okD(1) [OF I(1)]
    unfolding kept_def held_ok_def root_ok_def by (auto simp: kind_none kind_dir dir_of_iff)
  then have "inodes s i \<noteq> None \<longleftrightarrow> kept s i" using I(5) by blast
  then show ?thesis using I(1,3) unfolding bytes_ok_def kept_def by blast
qed

section \<open>A small file system\<close>

text \<open>
  A directory \<open>/d\<close> (inode 2), which some caller has resolved, and a file \<open>/f\<close>
  (inode 3) of one byte.
\<close>

definition ram_demo :: ramfs where
  "ram_demo =
     (let s1 = snd (ram_create (with_limit 1 64) 1 ''d'' KDirectory);
          s2 = snd (ram_create s1 1 ''f'' KFile);
          s3 = snd (ram_write_at False s2 3 0 [65]) in
      acquire s3 2)"

abbreviation demo_root :: RamDir where
  "demo_root \<equiv> \<lparr> d_parent = None, d_entries = [(''d'', 2), (''f'', 3)], d_dead = False \<rparr>"

abbreviation demo_sub :: RamDir where
  "demo_sub \<equiv> \<lparr> d_parent = Some 1, d_entries = [], d_dead = False \<rparr>"

lemmas ram_eval = with_limit_def ramdir_new_def allocate_ino_def put_inode_def ram_create_def
  ram_write_at_def resize_def reserve_def ram_release_def checked_add_def overwrite_def acquire_def
  set_entries_def set_dir_def check_name_def NAME_MAX_def dir_of_def file_of_def kind_of_def ents_def
  entry_def is_dead_def bt_remove_def Let_def

lemma names_less [simp]: "''f'' < ''d'' \<longleftrightarrow> False" "''d'' < ''f''"
  by (simp_all add: less_char_def)

lemma ram_demo_eq:
  "ram_demo =
     \<lparr> fs_id = 1, next_ino = 4, used = 1, limit = 64,
       inodes = [1 \<mapsto> Dir demo_root, 2 \<mapsto> Dir demo_sub, 3 \<mapsto> RamFile [65]],
       root_ino = 1, held = [2] \<rparr>"
  by (simp add: ram_demo_def ram_eval fun_eq_iff)

lemma ram_demo_running: "ram_running ram_demo None"
proof -
  let ?s0 = "with_limit 1 64"
  let ?s1 = "snd (ram_create ?s0 1 ''d'' KDirectory)"
  let ?s2 = "snd (ram_create ?s1 1 ''f'' KFile)"
  let ?s3 = "snd (ram_write_at False ?s2 3 0 [65])"
  have "ram_running ?s0 None" by (rule reaches.start) (simp add: ram_init.intros)
  then have "ram_running ?s1 None" by (rule ram_running_call) (rule ram_call.create, simp add: ram_eval)
  then have "ram_running ?s2 None" by (rule ram_running_call) (rule ram_call.create, simp add: ram_eval)
  then have "ram_running ?s3 None" by (rule ram_running_call) (rule ram_call.write_at)
  moreover have "ram_call ?s3 (acquire ?s3 2)"
    by (rule ram_call.lookup [of _ 1 "''d''"]) (simp add: ram_eval ram_lookup_def)
  ultimately show ?thesis unfolding ram_demo_def Let_def by (rule ram_running_call)
qed

lemma ram_demo_reachable: "ram_reachable ram_demo"
  using ram_demo_running ram_reachable_def by blast

theorem ram_reachable_tree_witness:
  "tree_ok 1 4 (tree_of ram_demo) \<and> (\<Sum>i < 4. file_len ram_demo i) = 1 \<and> entry ram_demo 1 ''f'' = Some 3"
  using ram_reachable_tree [OF ram_demo_reachable, of 3] by (simp add: ram_demo_eq ram_eval)

lemma demo_up: "up_rel ram_demo = {(1, 2)}"
  by (auto simp: up_rel_def upgrade_parent_iff parent_of_def ram_demo_eq ram_eval split: if_splits)

lemma demo_check: "rename_check ram_demo 1 ''f'' (1, 2) ''g'' = Some (Ok False)"
proof -
  have inv: "ram_inv ram_demo" using ram_demo_reachable by (rule ram_reachable_inv)
  have "(2, 1) \<notin> (up_rel ram_demo)\<^sup>*" using demo_up by (auto elim: rtranclE)
  then show ?thesis
    using is_within_spec [OF inv] demo_up
    by (simp add: rename_check_def source_first_def ram_lookup_def ram_demo_eq ram_eval)
qed

text \<open>
  C17. Renames run among other calls. The checks of a rename come to an end in
  every reachable state: the walks up the parent links meet no cycle. The
  changes of a rename that passed its checks, whatever calls ran since then
  (but the removal of its target directory), never lock an entry map that the
  rename itself holds; they fail and change nothing, or move exactly the one
  entry, replacing what had the new name, and leave a tree: no directory ends
  up below itself. Waiting for a lock that another caller holds is not part of
  this: the order in which renames take the locks is the next property.
\<close>

theorem rename_moves_one_entry:
  assumes "ram_running s p"
  shows "(\<exists>r. rename_check s d old target new = Some r)
    \<and> (\<forall>r. p = Some r \<longrightarrow> (\<exists>res s'. rename_commit s (pr_from r) (pr_old r) (pr_to r) (pr_new r) = Some (res, s') \<and>
       (case res of
          Err _ \<Rightarrow> s' = s
        | Ok _ \<Rightarrow>
            (\<exists>i. entry s (pr_from r) (pr_old r) = Some i \<and>
               (\<forall>x m. entry s' x m = (if x = pr_to r \<and> m = pr_new r then Some i
                                    else if x = pr_from r \<and> m = pr_old r then None else entry s x m))) \<and>
            acyclic (parent_rel (tree_of s')))))"
proof (intro conjI allI impI)
  have ok: "ram_inv s" "pending_ok s p" using ram.reaches_inv [OF assms] by (simp_all add: ram_sys_inv_def)
  obtain b where "source_first s d (snd target) = Some b" using source_first_returns [OF ok(1)] by blast
  then show "\<exists>r. rename_check s d old target new = Some r"
    by (auto simp: rename_check_def Let_def is_within_spec [OF ok(1)] split: result.split)
  fix r assume p: "p = Some r"
  then have ne: "\<not> (pr_from r = pr_to r \<and> pr_old r = pr_new r)" using ok(2) by (simp add: pending_ok_def)
  have "rename_outcome s (pr_from r) (pr_old r) (pr_to r) (pr_new r)
      (rename_commit s (pr_from r) (pr_old r) (pr_to r) (pr_new r))" using rename_done_ok [OF ok(1)] ok(2) p by simp
  then obtain res s' where r: "rename_commit s (pr_from r) (pr_old r) (pr_to r) (pr_new r) = Some (res, s')" "ram_inv s'"
    "case res of Err _ \<Rightarrow> s' = s
     | Ok _ \<Rightarrow> s' = s \<and> pr_from r = pr_to r \<and> pr_old r = pr_new r \<or> entry_moved s s' (pr_from r) (pr_old r) (pr_to r) (pr_new r)"
    unfolding rename_outcome_def by blast
  have "acyclic (parent_rel (tree_of s'))" using tree_okD(7) [OF ram_invD(1) [OF r(2)]] .
  then show "\<exists>res s'. rename_commit s (pr_from r) (pr_old r) (pr_to r) (pr_new r) = Some (res, s') \<and>
       (case res of
          Err _ \<Rightarrow> s' = s
        | Ok _ \<Rightarrow>
            (\<exists>i. entry s (pr_from r) (pr_old r) = Some i \<and>
               (\<forall>x m. entry s' x m = (if x = pr_to r \<and> m = pr_new r then Some i
                                    else if x = pr_from r \<and> m = pr_old r then None else entry s x m))) \<and>
            acyclic (parent_rel (tree_of s')))"
    using r ne by (cases res) (auto simp: entry_moved_def)
qed

text \<open>Another file \<open>/h\<close> is created between the checks and the changes of \<open>rename /f /d/g\<close>.\<close>

theorem rename_moves_one_entry_witness:
  "\<exists>res s'. rename_commit (snd (ram_create ram_demo 1 ''h'' KFile)) 1 ''f'' 2 ''g'' = Some (res, s')"
proof -
  let ?r = "\<lparr> pr_from = 1, pr_old = ''f'', pr_to = 2, pr_new = ''g'' \<rparr>"
  let ?s = "snd (ram_create ram_demo 1 ''h'' KFile)"
  have "ram_step (ram_demo, None) (ram_demo, Some ?r)"
    by (rule ram_step.rename_checked [OF _ demo_check]) (simp add: ram_demo_eq ram_eval)
  moreover have "ram_step (ram_demo, Some ?r) (?s, Some ?r)"
    by (rule ram_step.call, rule ram_call.create) (simp_all add: target_left_def ram_demo_eq ram_eval)
  ultimately have "ram_running ?s (Some ?r)" using reaches.step [OF reaches.step [OF ram_demo_running]] by blast
  from rename_moves_one_entry [OF this, THEN conjunct2, rule_format, OF refl] show ?thesis unfolding pending.select_convs by blast
qed

section \<open>The order of the locks\<close>

text \<open>The entry maps that the second part of a rename locks, in the order in which it locks them.\<close>

definition rename_locks :: "ramfs \<Rightarrow> ino \<Rightarrow> string \<Rightarrow> ino \<Rightarrow> string \<Rightarrow> ino list option" where
  "rename_locks s d old t new =
     Option.bind (source_first s d t) (\<lambda>source_first.
       Some ((if t = d then [d] else if source_first then [d, t] else [t, d]) @
         (case (entry s d old, entry s t new) of
            (Some source, Some existing) \<Rightarrow>
              if kind_of s source = Some KDirectory \<and> kind_of s existing = Some KDirectory \<and> existing \<noteq> d
              then [existing] else []
          | _ \<Rightarrow> [])))"

text \<open>
  The entry maps that listing a directory holds at the same time: its own, and
  while it asks for the status of a directory in it, that one's.
\<close>

definition entries_locks :: "ramfs \<Rightarrow> ino \<Rightarrow> ino list list" where
  "entries_locks s d = map (\<lambda>(_, i). [d, i]) (filter (\<lambda>(_, i). kind_of s i = Some KDirectory) (ents s d))"

text \<open>Directories \<open>/a\<close>, \<open>/a/b\<close> and \<open>/a/b/c\<close> with the inodes 2, 3 and 4.\<close>

definition lock_demo :: ramfs where
  "lock_demo =
     (let s1 = snd (ram_create (with_limit 1 64) 1 ''a'' KDirectory);
          s2 = snd (ram_create s1 2 ''b'' KDirectory) in
      snd (ram_create s2 3 ''c'' KDirectory))"

lemma lock_demo_eq:
  "lock_demo =
     \<lparr> fs_id = 1, next_ino = 5, used = 0, limit = 64,
       inodes = [1 \<mapsto> Dir \<lparr> d_parent = None, d_entries = [(''a'', 2)], d_dead = False \<rparr>,
         2 \<mapsto> Dir \<lparr> d_parent = Some 1, d_entries = [(''b'', 3)], d_dead = False \<rparr>,
         3 \<mapsto> Dir \<lparr> d_parent = Some 2, d_entries = [(''c'', 4)], d_dead = False \<rparr>,
         4 \<mapsto> Dir \<lparr> d_parent = Some 3, d_entries = [], d_dead = False \<rparr>],
       root_ino = 1, held = [] \<rparr>"
  by (simp add: lock_demo_def ram_eval fun_eq_iff)

lemma lock_demo_reachable: "ram_reachable lock_demo"
proof -
  let ?s0 = "with_limit 1 64"
  let ?s1 = "snd (ram_create ?s0 1 ''a'' KDirectory)"
  let ?s2 = "snd (ram_create ?s1 2 ''b'' KDirectory)"
  have "ram_running ?s0 None" by (rule reaches.start) (simp add: ram_init.intros)
  then have "ram_running ?s1 None" by (rule ram_running_call) (rule ram_call.create, simp add: ram_eval)
  then have "ram_running ?s2 None" by (rule ram_running_call) (rule ram_call.create, simp add: ram_eval)
  then have "ram_running lock_demo None"
    unfolding lock_demo_def Let_def by (rule ram_running_call) (rule ram_call.create, simp add: ram_eval)
  then show ?thesis using ram_reachable_def by blast
qed

lemma lock_demo_up: "up_rel lock_demo = {(1, 2), (2, 3), (3, 4)}"
  by (auto simp: up_rel_def upgrade_parent_iff parent_of_def lock_demo_eq ram_eval split: if_splits)

text \<open>
  C26. The stated lock order, a directory's entry map before those of its
  descendants, is not kept. Renaming \<open>/a/b/c\<close> onto \<open>/a\<close> passes its checks, and
  locks the maps of the root, of \<open>/a/b\<close> and then, to see that it is empty, of its
  parent \<open>/a\<close>. Listing \<open>/a\<close> holds the map of \<open>/a\<close> while it locks that of \<open>/a/b\<close>: the
  two calls can wait for each other for ever.
\<close>

theorem rename_locks_upwards:
  "ram_reachable lock_demo \<and> rename_check lock_demo 3 ''c'' (1, 1) ''a'' = Some (Ok False)
   \<and> rename_locks lock_demo 3 ''c'' 1 ''a'' = Some [1, 3, 2]
   \<and> upgrade_parent lock_demo 3 = Some 2 \<and> entries_locks lock_demo 2 = [[2, 3]]"
proof (intro conjI)
  show r: "ram_reachable lock_demo" by (rule lock_demo_reachable)
  note within = is_within_spec [OF ram_reachable_inv [OF r]]
  have no: "(x, 1) \<notin> (up_rel lock_demo)\<^sup>*" if "x \<noteq> 1" for x
    using that unfolding lock_demo_up by (auto elim: rtranclE)
  have "(1, 2) \<in> up_rel lock_demo" "(2, 3) \<in> up_rel lock_demo" by (simp_all add: lock_demo_up)
  then have yes: "(1, 3) \<in> (up_rel lock_demo)\<^sup>*" by (meson r_into_rtrancl rtrancl_into_rtrancl)
  have sf: "source_first lock_demo 3 1 = Some False" using no [of 3] yes by (simp add: source_first_def within)
  show "rename_check lock_demo 3 ''c'' (1, 1) ''a'' = Some (Ok False)"
  proof -
    have "is_within lock_demo 1 4 = Some False" using no [of 4] by (simp add: within)
    moreover have "ram_lookup lock_demo 3 ''c'' = Ok 4" "check_name ''a'' = Ok ()" "fs_id lock_demo = 1"
      "dir_of lock_demo 1 \<noteq> None" "dir_of lock_demo 4 \<noteq> None" "\<not> is_dead lock_demo 1"
      by (simp_all add: lock_demo_eq ram_eval ram_lookup_def)
    ultimately show ?thesis using sf by (simp add: rename_check_def Let_def)
  qed
  show "rename_locks lock_demo 3 ''c'' 1 ''a'' = Some [1, 3, 2]"
    unfolding rename_locks_def sf by (simp add: lock_demo_eq ram_eval)
  show "upgrade_parent lock_demo 3 = Some 2" "entries_locks lock_demo 2 = [[2, 3]]"
    by (simp_all add: upgrade_parent_def entries_locks_def lock_demo_eq ram_eval)
qed

text \<open>
  C21. A successful write takes the whole buffer, and reading the same range gives
  it back; every other byte of the file is as before, a gap beyond the old end
  reads as zeros, and no other inode changes. A write fails only when the end
  would overflow, or with \<open>ENOSPC\<close> when the file would have to grow beyond the
  limit or the memory, and then changes nothing.
\<close>

theorem write_then_read:
  assumes reach: "ram_reachable s" and b: "file_of s i = Some b"
  shows "case ram_write_at oom s i offset buf of
     (Ok n, s') \<Rightarrow>
       n = length buf \<and> ram_read_at s' i offset n = Ok buf \<and>
       (\<exists>b'. file_of s' i = Some b' \<and> length b' = max (length b) (offset + length buf) \<and>
          (\<forall>j < length b'. j < offset \<or> offset + length buf \<le> j \<longrightarrow>
             b' ! j = (if j < length b then b ! j else 0))) \<and>
       (\<forall>j. j \<noteq> i \<longrightarrow> inodes s' j = inodes s j)
   | (Err e, s') \<Rightarrow>
       s' = s \<and>
       (e = EINVAL \<and> 2 ^ 64 \<le> offset + length buf \<or>
        e = ENOSPC \<and> length b < offset + length buf \<and>
          (limit s < used s + (offset + length buf - length b) \<or> oom))"
proof -
  have inv: "ram_inv s" using reach by (rule ram_reachable_inv)
  let ?stop = "offset + length buf"
  let ?n = "max ?stop (length b)"
  let ?b = "overwrite (resized b ?n) offset buf"
  let ?s = "put_inode (s\<lparr> used := used s + ?n - length b \<rparr>) i (RamFile ?b)"
  have len: "length ?b = ?n" using length_overwrite [of offset buf "resized b ?n"] by simp
  have f: "file_of ?s i = Some ?b" by (simp add: put_inode_def file_of_def)
  have "take (length buf) (drop offset ?b) = buf"
    using length_resized [of b ?n] by (simp add: overwrite_def)
  moreover have "?b = [] \<Longrightarrow> buf = []" by (simp add: overwrite_def)
  moreover have "buf = []" if "length ?b \<le> offset" using that len by simp
  ultimately have read: "ram_read_at ?s i offset (length buf) = Ok buf"
    using len by (auto simp: ram_read_at_def f file_read_at_def min_def)
  have rest: "?b ! j = (if j < length b then b ! j else 0)" if "j < ?n" "j < offset \<or> ?stop \<le> j" for j
    using that by (auto simp: overwrite_def nth_append resized_def)
  have others: "inodes ?s j = inodes s j" if "j \<noteq> i" for j using that by (simp add: put_inode_def)
  have ok: "\<exists>b'. file_of ?s i = Some b' \<and> length b' = max (length b) ?stop \<and>
      (\<forall>j < length b'. j < offset \<or> ?stop \<le> j \<longrightarrow> b' ! j = (if j < length b then b ! j else 0))"
    using f len rest by (intro exI [of _ ?b] conjI) (auto simp: max.commute)
  consider (overflow) "2 ^ 64 \<le> ?stop"
    | (full) "\<not> 2 ^ 64 \<le> ?stop" "length b < ?stop \<and> (limit s < used s + (?stop - length b) \<or> oom)"
    | (fits) "\<not> 2 ^ 64 \<le> ?stop" "\<not> (length b < ?stop \<and> (limit s < used s + (?stop - length b) \<or> oom))"
    by blast
  then show ?thesis
  proof cases
    case overflow
    then show ?thesis unfolding write_spec [OF inv b] Let_def by simp
  next
    case full
    show ?thesis
      unfolding write_spec [OF inv b] Let_def if_not_P [OF full(1)] if_P [OF full(2)] prod.case result.case
      using full(2) by blast
  next
    case fits
    show ?thesis
      unfolding write_spec [OF inv b] Let_def if_not_P [OF fits(1)] if_not_P [OF fits(2)] prod.case result.case
      using read ok others by blast
  qed
qed

theorem write_then_read_witness:
  "ram_read_at (snd (ram_write_at False ram_demo 3 2 [66])) 3 2 1 = Ok [66]"
proof -
  have "file_of ram_demo 3 = Some [65]" by (simp add: ram_demo_eq file_of_def)
  then show ?thesis
    using write_then_read [OF ram_demo_reachable, where i = 3 and b = "[65]" and oom = False and offset = 2 and buf = "[66]"]
    by (simp add: ram_demo_eq ram_eval)
qed

text \<open>
  C25. The check that the target directory is alive and the insertion into it are
  not under one lock. When another call removes the empty target directory in
  between, the rename still succeeds and puts the file into the removed
  directory: the file is no longer reachable from the root, and it is gone with
  its bytes once the caller's reference to the directory is given back.
\<close>

theorem rename_race_loses_file:
  "rename_check ram_demo 1 ''f'' (1, 2) ''g'' = Some (Ok False) \<and>
   (\<exists>removed renamed.
      ram_rmdir ram_demo 1 ''d'' = (Ok (), removed) \<and>
      rename_commit removed 1 ''f'' 2 ''g'' = Some (Ok (), renamed) \<and>
      ents renamed 1 = [] \<and> is_dead renamed 2 \<and> entry renamed 2 ''g'' = Some 3 \<and>
      file_of renamed 3 = Some [65] \<and> inodes (put_back renamed 2) 3 = None)"
proof (intro conjI exI)
  show "rename_check ram_demo 1 ''f'' (1, 2) ''g'' = Some (Ok False)" by (rule demo_check)
  let ?removed = "snd (ram_rmdir ram_demo 1 ''d'')"
  have removed: "?removed = ram_demo\<lparr> inodes := [1 \<mapsto> Dir (demo_root\<lparr> d_entries := [(''f'', 3)] \<rparr>),
       2 \<mapsto> Dir (demo_sub\<lparr> d_dead := True \<rparr>), 3 \<mapsto> RamFile [65]] \<rparr>"
    by (simp add: ram_rmdir_def dropped_def referenced_def ram_demo_eq ram_eval fun_eq_iff)
  show "ram_rmdir ram_demo 1 ''d'' = (Ok (), ?removed)"
    by (simp add: ram_rmdir_def ram_demo_eq ram_eval)
  let ?renamed = "ram_demo\<lparr> inodes := [1 \<mapsto> Dir (demo_root\<lparr> d_entries := [] \<rparr>),
       2 \<mapsto> Dir (demo_sub\<lparr> d_dead := True, d_entries := [(''g'', 3)] \<rparr>), 3 \<mapsto> RamFile [65]] \<rparr>"
  show "rename_commit ?removed 1 ''f'' 2 ''g'' = Some (Ok (), ?renamed)"
    unfolding removed by (simp add: rename_commit_def ram_demo_eq ram_eval fun_eq_iff)
  show "ents ?renamed 1 = []" "is_dead ?renamed 2" "entry ?renamed 2 ''g'' = Some 3"
    "file_of ?renamed 3 = Some [65]"
    by (simp_all add: ram_demo_eq ram_eval)
  show "inodes (put_back ?renamed 2) 3 = None"
    by (simp add: put_back_def dropped_def referenced_def named_def ram_demo_eq ram_eval upt_rec eval_nat_numeral)
qed

end
