(* ===== verification/FileTable.thy ===== *)
theory FileTable
  imports Inode
begin

text \<open>
  Open files and descriptor tables (\<open>kernel/src/fs/file.rs\<close>). Open file
  descriptions are shared by the descriptors that refer to them, after \<open>dup\<close> and
  \<open>fork\<close> by several; an \<open>Arc<OpenFile>\<close> is the number of the description in a
  store that the virtual file system keeps. A table is the vector of its slots.

  The abstract specification is a finite map from descriptors to descriptions;
  every operation of the table implements the corresponding one of the map.
\<close>

section \<open>Flags\<close>

unbundle bit_operations_syntax

type_synonym open_flags = "32 word"

definition READ :: open_flags where "READ = 1"
definition WRITE :: open_flags where "WRITE = 2"
definition READ_WRITE :: open_flags where "READ_WRITE = READ OR WRITE"
definition CREATE :: open_flags where "CREATE = 4"
definition EXCL :: open_flags where "EXCL = 8"
definition TRUNC :: open_flags where "TRUNC = 16"
definition APPEND :: open_flags where "APPEND = 32"
definition DIRECTORY :: open_flags where "DIRECTORY = 64"

definition flags_contain :: "open_flags \<Rightarrow> open_flags \<Rightarrow> bool" where
  "flags_contain a b \<longleftrightarrow> a AND b = b"

lemmas flag_defs = READ_def WRITE_def READ_WRITE_def CREATE_def EXCL_def TRUNC_def APPEND_def
  DIRECTORY_def flags_contain_def

lemma flags_contain_or:
  "flags_contain a (b OR c) \<longleftrightarrow> flags_contain a b \<and> flags_contain a c"
  unfolding flags_contain_def by (auto simp: bit_eq_iff bit_simps)

datatype Whence = SeekSet | SeekCurrent | SeekEnd

section \<open>Tables\<close>

type_synonym fd = nat
type_synonym 'f file_table = "'f option list"

definition MAX_FDS :: nat where "MAX_FDS = 256"

definition ft_new :: "'f file_table" where "ft_new = []"

text \<open>\<open>Iterator::position\<close> of the first free slot.\<close>

fun free_slot :: "'f file_table \<Rightarrow> nat option" where
  "free_slot [] = None"
| "free_slot (None # xs) = Some 0"
| "free_slot (Some _ # xs) = map_option Suc (free_slot xs)"

definition ft_insert :: "'f file_table \<Rightarrow> 'f \<Rightarrow> fd fs_result \<times> 'f file_table" where
  "ft_insert slots f =
     (case free_slot slots of
        Some i \<Rightarrow> (Ok i, slots[i := Some f])
      | None \<Rightarrow>
          if MAX_FDS \<le> length slots then (Err EMFILE, slots)
          else (Ok (length slots), slots @ [Some f]))"

definition ft_get :: "'f file_table \<Rightarrow> fd \<Rightarrow> 'f fs_result" where
  "ft_get slots fd = ok_or (if fd < length slots then slots ! fd else None) EBADF"

fun pop_none :: "'f file_table \<Rightarrow> 'f file_table" where
  "pop_none xs =
     (if xs \<noteq> [] \<and> last xs = None then pop_none (butlast xs) else xs)"

declare pop_none.simps [simp del]

definition ft_remove :: "'f file_table \<Rightarrow> fd \<Rightarrow> 'f fs_result \<times> 'f file_table" where
  "ft_remove slots fd =
     (case (if fd < length slots then slots ! fd else None) of
        None \<Rightarrow> (Err EBADF, slots)
      | Some f \<Rightarrow> (Ok f, pop_none (slots[fd := None])))"

definition ft_open_count :: "'f file_table \<Rightarrow> nat" where
  "ft_open_count slots = length (filter (\<lambda>x. x \<noteq> None) slots)"

definition ft_dup :: "'f file_table \<Rightarrow> fd \<Rightarrow> fd fs_result \<times> 'f file_table" where
  "ft_dup slots fd =
     (case ft_get slots fd of Err e \<Rightarrow> (Err e, slots) | Ok f \<Rightarrow> ft_insert slots f)"

definition ft_dup2 :: "'f file_table \<Rightarrow> fd \<Rightarrow> fd \<Rightarrow> fd fs_result \<times> 'f file_table" where
  "ft_dup2 slots old new =
     (case ft_get slots old of
        Err e \<Rightarrow> (Err e, slots)
      | Ok f \<Rightarrow>
          if old = new then (Ok new, slots)
          else if MAX_FDS \<le> new then (Err EBADF, slots)
          else
            let grown = (if length slots \<le> new
                         then slots @ replicate (new + 1 - length slots) None else slots) in
            (Ok new, grown[new := Some f]))"

definition ft_fork :: "'f file_table \<Rightarrow> 'f file_table" where
  "ft_fork slots = slots"

section \<open>Tables as maps\<close>

definition fd_map :: "'f file_table \<Rightarrow> fd \<Rightarrow> 'f option" where
  "fd_map slots fd = (if fd < length slots then slots ! fd else None)"

lemma fd_map_append_none [simp]: "fd_map (xs @ replicate n None) = fd_map xs"
  by (auto simp: fd_map_def fun_eq_iff nth_append)

lemma fd_map_update: "i < length xs \<Longrightarrow> fd_map (xs[i := v]) = (fd_map xs)(i := v)"
  by (auto simp: fd_map_def fun_eq_iff)

lemma fd_map_push: "fd_map (xs @ [v]) = (fd_map xs)(length xs := v)"
  by (auto simp: fd_map_def fun_eq_iff nth_append)

lemma pop_none_map: "fd_map (pop_none xs) = fd_map xs"
proof (induction xs rule: pop_none.induct)
  case (1 xs)
  show ?case
  proof (cases "xs \<noteq> [] \<and> last xs = None")
    case True
    have "fd_map xs = fd_map (butlast xs @ replicate 1 None)"
      using True append_butlast_last_id [of xs] by simp
    also have "\<dots> = fd_map (butlast xs)" by (rule fd_map_append_none)
    finally show ?thesis using 1 True by (subst pop_none.simps) simp
  next
    case False
    then show ?thesis by (subst pop_none.simps) auto
  qed
qed

lemma pop_none_length: "length (pop_none xs) \<le> length xs"
proof (induction xs rule: pop_none.induct)
  case (1 xs)
  then show ?case by (subst pop_none.simps) (auto intro: order_trans)
qed

lemma free_slot_Some:
  "free_slot xs = Some i \<Longrightarrow> i < length xs \<and> xs ! i = None \<and> (\<forall>j < i. xs ! j \<noteq> None)"
proof (induction xs arbitrary: i rule: free_slot.induct)
  case (3 x xs)
  then obtain k where k: "i = Suc k" "free_slot xs = Some k" by auto
  from 3(1) [OF k(2)] show ?case unfolding k(1) by (auto simp: less_Suc_eq_0_disj)
qed simp_all

lemma free_slot_None: "free_slot xs = None \<Longrightarrow> j < length xs \<Longrightarrow> xs ! j \<noteq> None"
proof (induction xs arbitrary: j rule: free_slot.induct)
  case (3 x xs)
  then show ?case by (cases j) auto
qed simp_all

text \<open>The lowest descriptor that is not in use.\<close>

definition lowest_free :: "(fd \<Rightarrow> 'f option) \<Rightarrow> fd \<Rightarrow> bool" where
  "lowest_free m fd \<longleftrightarrow> m fd = None \<and> (\<forall>j < fd. m j \<noteq> None)"

lemma ft_insert_map:
  assumes "length slots \<le> MAX_FDS"
  shows "case ft_insert slots f of
     (Ok fd, slots') \<Rightarrow> lowest_free (fd_map slots) fd \<and> fd < MAX_FDS \<and>
        fd_map slots' = (fd_map slots)(fd \<mapsto> f) \<and> length slots' \<le> MAX_FDS
   | (Err e, slots') \<Rightarrow> e = EMFILE \<and> slots' = slots \<and> (\<forall>fd < MAX_FDS. fd_map slots fd \<noteq> None)"
proof (cases "free_slot slots")
  case (Some i)
  then show ?thesis
    using free_slot_Some [OF Some] assms
    by (auto simp: ft_insert_def lowest_free_def fd_map_update) (auto simp: fd_map_def)
next
  case None
  then show ?thesis
    using free_slot_None [OF None] assms
    by (auto simp: ft_insert_def lowest_free_def fd_map_push) (auto simp: fd_map_def)
qed

lemma ft_remove_map:
  "case ft_remove slots fd of
     (Ok f, slots') \<Rightarrow> fd_map slots fd = Some f \<and> fd_map slots' = (fd_map slots)(fd := None) \<and>
        length slots' \<le> length slots
   | (Err e, slots') \<Rightarrow> e = EBADF \<and> slots' = slots \<and> fd_map slots fd = None"
proof (cases "fd_map slots fd")
  case None
  then show ?thesis by (simp add: ft_remove_def fd_map_def)
next
  case (Some f)
  then have "fd < length slots" by (auto simp: fd_map_def split: if_splits)
  moreover from this have "ft_remove slots fd = (Ok f, pop_none (slots[fd := None]))"
    using Some by (simp add: ft_remove_def fd_map_def)
  ultimately show ?thesis
    using Some pop_none_length [of "slots[fd := None]"] by (simp add: pop_none_map fd_map_update)
qed

lemma ft_get_map: "ft_get slots fd = ok_or (fd_map slots fd) EBADF"
  by (simp add: ft_get_def fd_map_def)

lemma ft_dup2_map:
  assumes len: "length slots \<le> MAX_FDS"
  shows "case ft_dup2 slots old new of
     (Ok fd, slots') \<Rightarrow> fd = new \<and> fd_map slots old \<noteq> None \<and> \<not> (MAX_FDS \<le> new \<and> old \<noteq> new) \<and>
        fd_map slots' = (fd_map slots)(new := fd_map slots old) \<and> length slots' \<le> MAX_FDS
   | (Err e, slots') \<Rightarrow> e = EBADF \<and> slots' = slots \<and>
        (fd_map slots old = None \<or> MAX_FDS \<le> new \<and> old \<noteq> new)"
proof (cases "fd_map slots old")
  case None
  then show ?thesis by (simp add: ft_dup2_def ft_get_map)
next
  case (Some f)
  show ?thesis
  proof (cases "old = new \<or> MAX_FDS \<le> new")
    case True
    then show ?thesis using Some len by (auto simp: ft_dup2_def ft_get_map fun_eq_iff)
  next
    case False
    let ?grown = "if length slots \<le> new then slots @ replicate (new + 1 - length slots) None else slots"
    have "new < length ?grown" "fd_map ?grown = fd_map slots" "length ?grown \<le> MAX_FDS"
      using False len by auto
    moreover have "ft_dup2 slots old new = (Ok new, ?grown[new := Some f])"
      using False Some by (simp add: ft_dup2_def ft_get_map Let_def)
    ultimately show ?thesis using Some by (simp add: fd_map_update)
  qed
qed

section \<open>Refinement of the descriptor map\<close>

text \<open>The operations on the abstract map.\<close>

definition spec_insert :: "(fd \<Rightarrow> 'f option) \<Rightarrow> 'f \<Rightarrow> fd fs_result \<times> (fd \<Rightarrow> 'f option)" where
  "spec_insert m f =
     (if \<exists>fd < MAX_FDS. m fd = None
      then let fd = (LEAST fd. m fd = None) in (Ok fd, m(fd \<mapsto> f))
      else (Err EMFILE, m))"

definition spec_remove :: "(fd \<Rightarrow> 'f option) \<Rightarrow> fd \<Rightarrow> 'f fs_result \<times> (fd \<Rightarrow> 'f option)" where
  "spec_remove m fd = (ok_or (m fd) EBADF, m(fd := None))"

definition spec_dup :: "(fd \<Rightarrow> 'f option) \<Rightarrow> fd \<Rightarrow> fd fs_result \<times> (fd \<Rightarrow> 'f option)" where
  "spec_dup m fd = (case m fd of None \<Rightarrow> (Err EBADF, m) | Some f \<Rightarrow> spec_insert m f)"

definition spec_dup2 :: "(fd \<Rightarrow> 'f option) \<Rightarrow> fd \<Rightarrow> fd \<Rightarrow> fd fs_result \<times> (fd \<Rightarrow> 'f option)" where
  "spec_dup2 m old new =
     (if m old = None \<or> MAX_FDS \<le> new \<and> old \<noteq> new then (Err EBADF, m)
      else (Ok new, m(new := m old)))"

text \<open>
  What a client of descriptors relies on: the table behaves as the map it
  stands for. The laws of descriptors follow from the contract alone.
\<close>

locale descriptors =
  fixes as_map :: "'t \<Rightarrow> fd \<Rightarrow> 'f option" and ok :: "'t \<Rightarrow> bool"
    and get :: "'t \<Rightarrow> fd \<Rightarrow> 'f fs_result"
    and insrt :: "'t \<Rightarrow> 'f \<Rightarrow> fd fs_result \<times> 't"
    and remv :: "'t \<Rightarrow> fd \<Rightarrow> 'f fs_result \<times> 't"
    and dup :: "'t \<Rightarrow> fd \<Rightarrow> fd fs_result \<times> 't"
    and dup2 :: "'t \<Rightarrow> fd \<Rightarrow> fd \<Rightarrow> fd fs_result \<times> 't"
  assumes get_map: "get t fd = ok_or (as_map t fd) EBADF"
    and insert_map: "ok t \<Longrightarrow> map_prod id as_map (insrt t f) = spec_insert (as_map t) f"
    and remove_map: "ok t \<Longrightarrow> map_prod id as_map (remv t fd) = spec_remove (as_map t) fd"
    and dup_map: "ok t \<Longrightarrow> map_prod id as_map (dup t fd) = spec_dup (as_map t) fd"
    and dup2_map: "ok t \<Longrightarrow> map_prod id as_map (dup2 t fd new) = spec_dup2 (as_map t) fd new"
    and keeps: "ok t \<Longrightarrow> ok (snd (insrt t f))" "ok t \<Longrightarrow> ok (snd (remv t fd))"
      "ok t \<Longrightarrow> ok (snd (dup t fd))" "ok t \<Longrightarrow> ok (snd (dup2 t fd new))"
begin

lemma map_of_pair: "map_prod id as_map (p t) = (r, m) \<Longrightarrow> fst (p t) = r \<and> as_map (snd (p t)) = m"
  by (metis fst_map_prod snd_map_prod fst_conv id_apply snd_conv)

lemma insert_gets:
  assumes "ok t" "insrt t f = (Ok fd, t')"
  shows "get t' fd = Ok f" and "\<And>other. other \<noteq> fd \<Longrightarrow> get t' other = get t other"
proof -
  have "spec_insert (as_map t) f = (Ok fd, as_map t')" using insert_map [OF assms(1), of f] assms(2) by simp
  then have "as_map t' = (as_map t)(fd \<mapsto> f)" by (auto simp: spec_insert_def Let_def split: if_splits)
  then show "get t' fd = Ok f" "\<And>other. other \<noteq> fd \<Longrightarrow> get t' other = get t other"
    by (simp_all add: get_map)
qed

text \<open>Closing a descriptor and opening again gives the same number when all lower ones are in use.\<close>

lemma reopen_same:
  assumes "ok t" "remv t fd = (Ok f, t1)" "fd < MAX_FDS" "\<And>j. j < fd \<Longrightarrow> as_map t j \<noteq> None"
  shows "fst (insrt t1 g) = Ok fd"
proof -
  have m: "as_map t1 = (as_map t)(fd := None)" using remove_map [OF assms(1), of fd] assms(2) by (simp add: spec_remove_def)
  have "(LEAST j. as_map t1 j = None) = fd"
    unfolding m
  proof (rule Least_equality)
    show "fd \<le> j" if "((as_map t)(fd := None)) j = None" for j
      using that assms(4) [of j] by (cases "j < fd") simp_all
  qed simp
  then have "fst (spec_insert (as_map t1) g) = Ok fd"
    using assms(3) unfolding spec_insert_def m by (auto simp: Let_def)
  moreover have "ok t1" using keeps(2) [OF assms(1), of fd] assms(2) by simp
  ultimately show ?thesis using insert_map [of t1 g] by (metis fst_map_prod id_apply)
qed

text \<open>After \<open>dup2\<close> both descriptors refer to one description; the others are as before.\<close>

lemma dup2_shares:
  assumes "ok t" "dup2 t old new = (Ok fd, t')"
  shows "get t' new = get t old" "get t' old = get t old" "\<And>j. j \<noteq> new \<Longrightarrow> get t' j = get t j"
proof -
  have "spec_dup2 (as_map t) old new = (Ok fd, as_map t')" using dup2_map [OF assms(1), of old new] assms(2) by simp
  then have "as_map t' = (as_map t)(new := as_map t old)" by (auto simp: spec_dup2_def split: if_splits)
  then show "get t' new = get t old" "get t' old = get t old" "\<And>j. j \<noteq> new \<Longrightarrow> get t' j = get t j"
    by (simp_all add: get_map)
qed

end

abbreviation ft_ok :: "'f file_table \<Rightarrow> bool" where
  "ft_ok slots \<equiv> length slots \<le> MAX_FDS"

lemma ft_insert_spec:
  assumes "ft_ok slots"
  shows "map_prod id fd_map (ft_insert slots f) = spec_insert (fd_map slots) f \<and> ft_ok (snd (ft_insert slots f))"
proof (cases "ft_insert slots f")
  case (Pair r slots')
  show ?thesis
  proof (cases r)
    case (Ok fd)
    then have l: "lowest_free (fd_map slots) fd" "fd < MAX_FDS" "fd_map slots' = (fd_map slots)(fd \<mapsto> f)"
      "length slots' \<le> MAX_FDS"
      using ft_insert_map [OF assms, of f] Pair by auto
    have "(LEAST fd. fd_map slots fd = None) = fd"
      by (rule Least_equality) (use l(1) in \<open>auto simp: lowest_free_def not_le [symmetric]\<close>)
    then show ?thesis using Ok Pair l by (auto simp: spec_insert_def lowest_free_def Let_def)
  next
    case (Err e)
    then show ?thesis using ft_insert_map [OF assms, of f] Pair assms by (auto simp: spec_insert_def)
  qed
qed

lemma ft_remove_spec:
  assumes "ft_ok slots"
  shows "map_prod id fd_map (ft_remove slots fd) = spec_remove (fd_map slots) fd \<and> ft_ok (snd (ft_remove slots fd))"
  using ft_remove_map [of slots fd] assms
  by (cases "ft_remove slots fd"; cases "fst (ft_remove slots fd)")
    (auto simp: spec_remove_def fun_eq_iff)

lemma ft_dup_spec:
  assumes "ft_ok slots"
  shows "map_prod id fd_map (ft_dup slots fd) = spec_dup (fd_map slots) fd \<and> ft_ok (snd (ft_dup slots fd))"
  using ft_insert_spec [OF assms] assms
  by (cases "fd_map slots fd") (simp_all add: ft_dup_def spec_dup_def ft_get_map)

lemma ft_dup2_spec:
  assumes "ft_ok slots"
  shows "map_prod id fd_map (ft_dup2 slots old new) = spec_dup2 (fd_map slots) old new \<and> ft_ok (snd (ft_dup2 slots old new))"
  using ft_dup2_map [OF assms, where old = old and new = new] assms
  by (cases "ft_dup2 slots old new"; cases "fst (ft_dup2 slots old new)")
    (auto simp: spec_dup2_def)

interpretation ft: descriptors fd_map ft_ok ft_get ft_insert ft_remove ft_dup ft_dup2
  by unfold_locales (simp_all add: ft_get_map ft_insert_spec ft_remove_spec ft_dup_spec ft_dup2_spec)

text \<open>Sequences of calls, with what each returns.\<close>

datatype 'f fd_op = Insert 'f | Get fd | Remove fd | Dup fd | Dup2 fd fd

datatype 'f fd_result = Number "fd fs_result" | File "'f fs_result"

fun ft_exec :: "'f fd_op \<Rightarrow> 'f file_table \<Rightarrow> 'f fd_result \<times> 'f file_table" where
  "ft_exec (Insert f) t = map_prod Number id (ft_insert t f)"
| "ft_exec (Get fd) t = (File (ft_get t fd), t)"
| "ft_exec (Remove fd) t = map_prod File id (ft_remove t fd)"
| "ft_exec (Dup fd) t = map_prod Number id (ft_dup t fd)"
| "ft_exec (Dup2 fd new) t = map_prod Number id (ft_dup2 t fd new)"

fun spec_exec :: "'f fd_op \<Rightarrow> (fd \<Rightarrow> 'f option) \<Rightarrow> 'f fd_result \<times> (fd \<Rightarrow> 'f option)" where
  "spec_exec (Insert f) m = map_prod Number id (spec_insert m f)"
| "spec_exec (Get fd) m = (File (ok_or (m fd) EBADF), m)"
| "spec_exec (Remove fd) m = map_prod File id (spec_remove m fd)"
| "spec_exec (Dup fd) m = map_prod Number id (spec_dup m fd)"
| "spec_exec (Dup2 fd new) m = map_prod Number id (spec_dup2 m fd new)"

fun run_ops :: "('o \<Rightarrow> 't \<Rightarrow> 'r \<times> 't) \<Rightarrow> 'o list \<Rightarrow> 't \<Rightarrow> 'r list \<times> 't" where
  "run_ops exec [] t = ([], t)"
| "run_ops exec (op # ops) t =
     (let (r, t1) = exec op t; (rs, t2) = run_ops exec ops t1 in (r # rs, t2))"

lemma ft_exec_spec:
  assumes "ft_ok t"
  shows "map_prod id fd_map (ft_exec op t) = spec_exec op (fd_map t) \<and> ft_ok (snd (ft_exec op t))"
proof (cases op)
  case (Insert f)
  then show ?thesis using ft_insert_spec [OF assms, of f] by (cases "ft_insert t f") (auto simp: prod_eq_iff)
next
  case (Remove fd)
  then show ?thesis using ft_remove_spec [OF assms, of fd] by (cases "ft_remove t fd") (auto simp: prod_eq_iff)
next
  case (Dup fd)
  then show ?thesis using ft_dup_spec [OF assms, of fd] by (cases "ft_dup t fd") (auto simp: prod_eq_iff)
next
  case (Dup2 fd new)
  then show ?thesis using ft_dup2_spec [OF assms, of fd new] by (cases "ft_dup2 t fd new") (auto simp: prod_eq_iff)
qed (use assms in \<open>simp add: ft_get_map\<close>)

lemma ft_run_spec:
  assumes "ft_ok t"
  shows "map_prod id fd_map (run_ops ft_exec ops t) = run_ops spec_exec ops (fd_map t) \<and>
         ft_ok (snd (run_ops ft_exec ops t))"
  using assms
proof (induction ops arbitrary: t)
  case (Cons op ops)
  obtain r t1 where e: "ft_exec op t = (r, t1)" by force
  then have s: "spec_exec op (fd_map t) = (r, fd_map t1)" "ft_ok t1"
    using ft_exec_spec [OF Cons.prems, of op] by auto
  obtain rs t2 where r: "run_ops ft_exec ops t1 = (rs, t2)" by force
  then have "run_ops spec_exec ops (fd_map t1) = (rs, fd_map t2)" "ft_ok t2"
    using Cons.IH [OF s(2)] by auto
  then show ?case using e s r by simp
qed simp

text \<open>
  C22. A descriptor table behaves as a finite map from numbers to open files:
  for every sequence of calls from the empty table each call returns what it
  returns on the map, where a new file gets the lowest number not in use and
  256 files are the limit; and the table never has more than 256 slots.
\<close>

theorem fd_table_refines_map:
  fixes ops :: "'f fd_op list"
  shows "map_prod id fd_map (run_ops ft_exec ops ft_new) = run_ops spec_exec ops Map.empty \<and>
   length (snd (run_ops ft_exec ops ft_new)) \<le> MAX_FDS"
proof -
  have "fd_map (ft_new :: 'f file_table) = Map.empty" by (simp add: fd_map_def ft_new_def fun_eq_iff)
  then show ?thesis using ft_run_spec [of ft_new ops] by (simp add: ft_new_def del: run_ops.simps)
qed

text \<open>Standard output redirected as a shell does it: close 1, open, and the file has number 1.\<close>

lemma redirect_stdout:
  assumes "length slots \<le> MAX_FDS" "fd_map slots 0 \<noteq> None" "ft_remove slots 1 = (Ok f, slots1)"
  shows "fst (ft_insert slots1 g) = Ok 1"
  by (rule ft.reopen_same [OF assms(1,3)]) (use assms(2) in \<open>auto simp: MAX_FDS_def less_Suc_eq\<close>)

end
