(* ===== verification/Vfs.thy ===== *)
theory Vfs
  imports FileTable
begin

text \<open>
  The virtual file system (\<open>kernel/src/fs/vfs.rs\<close>): mounts, the walk of paths and
  the file calls. A file system is the table of its operations (the methods
  of the trait \<open>Inode\<close>), over a state of type \<open>'s\<close> and inodes of type \<open>'i\<close>;
  each method that can change the file system returns the new state. The open
  file descriptions are a store from numbers to descriptions.

  The stack of the walk is a pair of its top and the entries below it, so that
  it is never empty, which is what the two \<open>expect\<close>s of the source rely on.
\<close>

section \<open>Interfaces\<close>

record ('s, 'i) inode_ops =
  io_stat :: "'s \<Rightarrow> 'i \<Rightarrow> Stat"
  io_kind :: "'s \<Rightarrow> 'i \<Rightarrow> InodeKind"
  io_read_at :: "'s \<Rightarrow> 'i \<Rightarrow> u64 \<Rightarrow> usize \<Rightarrow> byte list fs_result \<times> 's"
  io_write_at :: "'s \<Rightarrow> 'i \<Rightarrow> u64 \<Rightarrow> byte list \<Rightarrow> usize fs_result \<times> 's"
  io_truncate :: "'s \<Rightarrow> 'i \<Rightarrow> u64 \<Rightarrow> unit fs_result \<times> 's"
  io_lookup :: "'s \<Rightarrow> 'i \<Rightarrow> string \<Rightarrow> 'i fs_result"
  io_create :: "'s \<Rightarrow> 'i \<Rightarrow> string \<Rightarrow> InodeKind \<Rightarrow> 'i fs_result \<times> 's"
  io_unlink :: "'s \<Rightarrow> 'i \<Rightarrow> string \<Rightarrow> unit fs_result \<times> 's"
  io_rmdir :: "'s \<Rightarrow> 'i \<Rightarrow> string \<Rightarrow> unit fs_result \<times> 's"
  io_rename :: "'s \<Rightarrow> 'i \<Rightarrow> string \<Rightarrow> 'i \<Rightarrow> string \<Rightarrow> (unit fs_result \<times> 's) option"
  io_entries :: "'s \<Rightarrow> 'i \<Rightarrow> DirEntry list fs_result"
  io_seekable :: "'s \<Rightarrow> 'i \<Rightarrow> bool"
  io_open :: "'s \<Rightarrow> 'i \<Rightarrow> open_flags \<Rightarrow> 'i option fs_result \<times> 's"

record 'i Mount =
  m_path :: string
  m_root :: 'i
  m_filesystem :: string

record 'i OpenFile =
  of_inode :: 'i
  of_flags :: open_flags
  of_offset :: u64

record ('s, 'i) fs_world =
  w_fs :: 's
  w_mounts :: "'i Mount list"
  w_files :: "nat \<Rightarrow> 'i OpenFile option"
  w_next :: nat

record 'i Parent =
  pa_directory :: 'i
  pa_name :: string
  pa_path :: string

section \<open>Walking\<close>

definition join_path :: "string \<Rightarrow> string \<Rightarrow> string" where
  "join_path par name = (if par = ''/'' then ''/'' @ name else par @ ''/'' @ name)"

definition mounted_root :: "'i Mount list \<Rightarrow> string \<Rightarrow> 'i option" where
  "mounted_root ms path = map_option m_root (List.find (\<lambda>m. m_path m = path) ms)"

definition is_mount_point :: "'i Mount list \<Rightarrow> string \<Rightarrow> bool" where
  "is_mount_point ms path = list_ex (\<lambda>m. m_path m = path) ms"

type_synonym 'i walk_stack = "(string \<times> 'i) \<times> (string \<times> 'i) list"

definition walk_child ::
    "('s, 'i) inode_ops \<Rightarrow> 's \<Rightarrow> 'i Mount list \<Rightarrow> string \<Rightarrow> 'i \<Rightarrow> string \<Rightarrow> 'i fs_result" where
  "walk_child V s ms current_path current name =
     (case mounted_root ms (join_path current_path name) of
        Some mounted \<Rightarrow> bind_result (io_lookup V s current name) (\<lambda>_. Ok mounted)
      | None \<Rightarrow> io_lookup V s current name)"

fun walk_component ::
    "('s, 'i) inode_ops \<Rightarrow> 's \<Rightarrow> 'i Mount list \<Rightarrow> 'i walk_stack \<Rightarrow> string \<Rightarrow> 'i walk_stack fs_result" where
  "walk_component V s ms (tp, below) name =
     (if name = [] \<or> name = ''.'' then Ok (tp, below)
      else if name = ''..'' then
        Ok (case below of [] \<Rightarrow> (tp, below) | t # ts \<Rightarrow> (t, ts))
      else if NAME_MAX < length name then Err ENAMETOOLONG
      else if io_kind V s (snd tp) \<noteq> KDirectory then Err ENOTDIR
      else
        bind_result (walk_child V s ms (fst tp) (snd tp) name)
          (\<lambda>child. Ok ((join_path (fst tp) name, child), tp # below)))"

fun walk_components ::
    "('s, 'i) inode_ops \<Rightarrow> 's \<Rightarrow> 'i Mount list \<Rightarrow> 'i walk_stack \<Rightarrow> string list \<Rightarrow> 'i walk_stack fs_result" where
  "walk_components V s ms stack [] = Ok stack"
| "walk_components V s ms stack (c # cs) =
     bind_result (walk_component V s ms stack c) (\<lambda>stack. walk_components V s ms stack cs)"

definition ends_with_slash :: "string \<Rightarrow> bool" where
  "ends_with_slash path \<longleftrightarrow> path \<noteq> [] \<and> last path = CHR ''/''"

definition walk_from_root ::
    "('s, 'i) inode_ops \<Rightarrow> 's \<Rightarrow> 'i Mount list \<Rightarrow> string \<Rightarrow> ('i \<times> string) fs_result" where
  "walk_from_root V s ms path =
     bind_result (ok_or (mounted_root ms ''/'') ENOENT) (\<lambda>root.
       bind_result (walk_components V s ms ((''/'', root), []) (split_on (CHR ''/'') path))
         (\<lambda>((normalized, inode), _).
            if ends_with_slash path \<and> io_kind V s inode \<noteq> KDirectory then Err ENOTDIR
            else Ok (inode, normalized)))"

definition walk ::
    "('s, 'i) inode_ops \<Rightarrow> 's \<Rightarrow> 'i Mount list \<Rightarrow> string \<Rightarrow> ('i \<times> string) fs_result" where
  "walk V s ms path = (if path = [] then Err ENOENT else walk_from_root V s ms path)"

text \<open>\<open>trim_end_matches\<close> and the split at the last slash (\<open>rfind\<close>).\<close>

definition trim_slashes :: "string \<Rightarrow> string" where
  "trim_slashes path = rev (dropWhile (\<lambda>c. c = CHR ''/'') (rev path))"

definition last_component :: "string \<Rightarrow> string" where
  "last_component path = rev (takeWhile (\<lambda>c. c \<noteq> CHR ''/'') (rev path))"

definition before_last :: "string \<Rightarrow> string" where
  "before_last path = take (length path - length (last_component path) - 1) path"

definition vfs_parent ::
    "('s, 'i) inode_ops \<Rightarrow> 's \<Rightarrow> 'i Mount list \<Rightarrow> string \<Rightarrow> 'i Parent fs_result" where
  "vfs_parent V s ms path =
     (if path = [] then Err ENOENT
      else
        let trimmed = trim_slashes path;
            directory_path = before_last trimmed;
            name = last_component trimmed in
        if name = [] then Err EBUSY
        else if name = ''.'' \<or> name = ''..'' then Err EINVAL
        else if NAME_MAX < length name then Err ENAMETOOLONG
        else
          bind_result (walk_from_root V s ms directory_path) (\<lambda>(directory, normalized).
            if io_kind V s directory \<noteq> KDirectory then Err ENOTDIR
            else Ok \<lparr> pa_directory = directory, pa_name = name, pa_path = join_path normalized name \<rparr>))"

definition vfs_mount ::
    "('s, 'i) inode_ops \<Rightarrow> ('s, 'i) fs_world \<Rightarrow> string \<Rightarrow> 'i \<Rightarrow> string
       \<Rightarrow> unit fs_result \<times> ('s, 'i) fs_world" where
  "vfs_mount V w path root fs_name =
     (case (if w_mounts w = [] then (if path \<noteq> ''/'' then Err ENOENT else Ok ''/'')
            else bind_result (walk V (w_fs w) (w_mounts w) path) (\<lambda>(inode, normalized).
              if io_kind V (w_fs w) inode \<noteq> KDirectory then Err ENOTDIR else Ok normalized)) of
        Err e \<Rightarrow> (Err e, w)
      | Ok normalized \<Rightarrow>
          if is_mount_point (w_mounts w) normalized then (Err EBUSY, w)
          else (Ok (), w\<lparr> w_mounts := w_mounts w @
                 [\<lparr> m_path = normalized, m_root = root, m_filesystem = fs_name \<rparr>] \<rparr>))"

section \<open>Calls on paths\<close>

definition vfs_stat :: "('s, 'i) inode_ops \<Rightarrow> ('s, 'i) fs_world \<Rightarrow> string \<Rightarrow> Stat fs_result" where
  "vfs_stat V w path =
     bind_result (walk V (w_fs w) (w_mounts w) path) (\<lambda>(inode, _). Ok (io_stat V (w_fs w) inode))"

definition vfs_lookup :: "('s, 'i) inode_ops \<Rightarrow> ('s, 'i) fs_world \<Rightarrow> string \<Rightarrow> 'i fs_result" where
  "vfs_lookup V w path =
     bind_result (walk V (w_fs w) (w_mounts w) path) (\<lambda>(inode, _). Ok inode)"

definition vfs_mkdir ::
    "('s, 'i) inode_ops \<Rightarrow> ('s, 'i) fs_world \<Rightarrow> string \<Rightarrow> unit fs_result \<times> ('s, 'i) fs_world" where
  "vfs_mkdir V w path =
     (case vfs_parent V (w_fs w) (w_mounts w) path of
        Err e \<Rightarrow> (Err (if e = EBUSY \<or> e = EINVAL then EEXIST else e), w)
      | Ok p \<Rightarrow>
          let (r, s') = io_create V (w_fs w) (pa_directory p) (pa_name p) KDirectory in
          (bind_result r (\<lambda>_. Ok ()), w\<lparr> w_fs := s' \<rparr>))"

definition vfs_unlink ::
    "('s, 'i) inode_ops \<Rightarrow> ('s, 'i) fs_world \<Rightarrow> string \<Rightarrow> unit fs_result \<times> ('s, 'i) fs_world" where
  "vfs_unlink V w path =
     (case vfs_parent V (w_fs w) (w_mounts w) path of
        Err e \<Rightarrow> (Err (if e = EBUSY then EISDIR else e), w)
      | Ok p \<Rightarrow>
          if is_mount_point (w_mounts w) (pa_path p) then (Err EBUSY, w)
          else let (r, s') = io_unlink V (w_fs w) (pa_directory p) (pa_name p) in (r, w\<lparr> w_fs := s' \<rparr>))"

definition vfs_rmdir ::
    "('s, 'i) inode_ops \<Rightarrow> ('s, 'i) fs_world \<Rightarrow> string \<Rightarrow> unit fs_result \<times> ('s, 'i) fs_world" where
  "vfs_rmdir V w path =
     (case vfs_parent V (w_fs w) (w_mounts w) path of
        Err e \<Rightarrow> (Err e, w)
      | Ok p \<Rightarrow>
          if is_mount_point (w_mounts w) (pa_path p) then (Err EBUSY, w)
          else let (r, s') = io_rmdir V (w_fs w) (pa_directory p) (pa_name p) in (r, w\<lparr> w_fs := s' \<rparr>))"

definition vfs_rename ::
    "('s, 'i) inode_ops \<Rightarrow> ('s, 'i) fs_world \<Rightarrow> string \<Rightarrow> string
       \<Rightarrow> (unit fs_result \<times> ('s, 'i) fs_world) option" where
  "vfs_rename V w old new =
     (case vfs_parent V (w_fs w) (w_mounts w) old of
        Err e \<Rightarrow> Some (Err e, w)
      | Ok source \<Rightarrow>
          (case vfs_parent V (w_fs w) (w_mounts w) new of
             Err e \<Rightarrow> Some (Err e, w)
           | Ok target \<Rightarrow>
               if is_mount_point (w_mounts w) (pa_path source) \<or> is_mount_point (w_mounts w) (pa_path target)
               then Some (Err EBUSY, w)
               else if st_fs_id (io_stat V (w_fs w) (pa_directory source))
                       \<noteq> st_fs_id (io_stat V (w_fs w) (pa_directory target))
               then Some (Err EXDEV, w)
               else
                 map_option (\<lambda>(r, s'). (r, w\<lparr> w_fs := s' \<rparr>))
                   (io_rename V (w_fs w) (pa_directory source) (pa_name source)
                      (pa_directory target) (pa_name target))))"

section \<open>Opening\<close>

text \<open>The inode \<open>open\<close> settles on: the one the path names, or a new file.\<close>

definition open_inode ::
    "('s, 'i) inode_ops \<Rightarrow> ('s, 'i) fs_world \<Rightarrow> string \<Rightarrow> open_flags \<Rightarrow> 'i fs_result \<times> 's" where
  "open_inode V w path flags =
     (case walk V (w_fs w) (w_mounts w) path of
        Ok (inode, _) \<Rightarrow>
          (if flags_contain flags (CREATE OR EXCL) then Err EEXIST else Ok inode, w_fs w)
      | Err e \<Rightarrow>
          if e = ENOENT \<and> flags_contain flags CREATE then
            (case vfs_parent V (w_fs w) (w_mounts w) path of
               Err e \<Rightarrow> (Err e, w_fs w)
             | Ok p \<Rightarrow>
                 let (r, s') = io_create V (w_fs w) (pa_directory p) (pa_name p) KFile in
                 (case r of
                    Ok inode \<Rightarrow> (Ok inode, s')
                  | Err e \<Rightarrow>
                      if e = EEXIST \<and> \<not> flags_contain flags EXCL
                      then (io_lookup V s' (pa_directory p) (pa_name p), s')
                      else (Err e, s')))
          else (Err e, w_fs w))"

text \<open>What \<open>open\<close> checks and does by the kind of the inode.\<close>

definition open_kind ::
    "('s, 'i) inode_ops \<Rightarrow> 's \<Rightarrow> 'i \<Rightarrow> open_flags \<Rightarrow> unit fs_result \<times> 's" where
  "open_kind V s inode flags =
     (case io_kind V s inode of
        KDirectory \<Rightarrow>
          (if flags_contain flags WRITE \<or> flags_contain flags TRUNC then Err EISDIR else Ok (), s)
      | k \<Rightarrow>
          if flags_contain flags DIRECTORY then (Err ENOTDIR, s)
          else if k = KFile \<and> flags_contain flags TRUNC \<and> flags_contain flags WRITE
          then io_truncate V s inode 0
          else (Ok (), s))"

definition vfs_open ::
    "('s, 'i) inode_ops \<Rightarrow> ('s, 'i) fs_world \<Rightarrow> nat file_table \<Rightarrow> string \<Rightarrow> open_flags
       \<Rightarrow> fd fs_result \<times> ('s, 'i) fs_world \<times> nat file_table" where
  "vfs_open V w files path flags =
     (if \<not> flags_contain flags READ \<and> \<not> flags_contain flags WRITE then (Err EINVAL, w, files)
      else
        (case open_inode V w path flags of
           (Err e, s1) \<Rightarrow> (Err e, w\<lparr> w_fs := s1 \<rparr>, files)
         | (Ok inode, s1) \<Rightarrow>
             (case open_kind V s1 inode flags of
                (Err e, s2) \<Rightarrow> (Err e, w\<lparr> w_fs := s2 \<rparr>, files)
              | (Ok _, s2) \<Rightarrow>
                  (case io_open V s2 inode flags of
                     (Err e, s3) \<Rightarrow> (Err e, w\<lparr> w_fs := s3 \<rparr>, files)
                   | (Ok fresh, s3) \<Rightarrow>
                       let opened = (case fresh of Some i \<Rightarrow> i | None \<Rightarrow> inode);
                           f = \<lparr> of_inode = opened, of_flags = flags, of_offset = 0 \<rparr>;
                           (r, files') = ft_insert files (w_next w) in
                       (case r of
                          Err e \<Rightarrow> (Err e, w\<lparr> w_fs := s3 \<rparr>, files')
                        | Ok fd \<Rightarrow>
                            (Ok fd, w\<lparr> w_fs := s3, w_files := (w_files w)(w_next w \<mapsto> f),
                                      w_next := w_next w + 1 \<rparr>, files'))))))"

definition vfs_close :: "nat file_table \<Rightarrow> fd \<Rightarrow> unit fs_result \<times> nat file_table" where
  "vfs_close files fd =
     (let (r, files') = ft_remove files fd in (bind_result r (\<lambda>_. Ok ()), files'))"

section \<open>Calls on descriptors\<close>

text \<open>\<open>FileTable::get\<close>, through the store of descriptions.\<close>

definition open_file :: "('s, 'i) fs_world \<Rightarrow> nat file_table \<Rightarrow> fd \<Rightarrow> (nat \<times> 'i OpenFile) fs_result" where
  "open_file w files fd =
     bind_result (ft_get files fd) (\<lambda>n. bind_result (ok_or (w_files w n) EBADF) (\<lambda>f. Ok (n, f)))"

definition set_offset :: "('s, 'i) fs_world \<Rightarrow> nat \<Rightarrow> 'i OpenFile \<Rightarrow> u64 \<Rightarrow> ('s, 'i) fs_world" where
  "set_offset w n f offset = w\<lparr> w_files := (w_files w)(n \<mapsto> f\<lparr> of_offset := offset \<rparr>) \<rparr>"

definition vfs_read ::
    "('s, 'i) inode_ops \<Rightarrow> ('s, 'i) fs_world \<Rightarrow> nat file_table \<Rightarrow> fd \<Rightarrow> usize
       \<Rightarrow> byte list fs_result \<times> ('s, 'i) fs_world" where
  "vfs_read V w files fd len =
     (case open_file w files fd of
        Err e \<Rightarrow> (Err e, w)
      | Ok (n, f) \<Rightarrow>
          if \<not> flags_contain (of_flags f) READ then (Err EBADF, w)
          else if io_kind V (w_fs w) (of_inode f) = KDirectory then (Err EISDIR, w)
          else
            (case io_read_at V (w_fs w) (of_inode f) (of_offset f) len of
               (Err e, s') \<Rightarrow> (Err e, w\<lparr> w_fs := s' \<rparr>)
             | (Ok bytes, s') \<Rightarrow>
                 (Ok bytes, set_offset (w\<lparr> w_fs := s' \<rparr>) n f (wrapping_add (of_offset f) (length bytes)))))"

text \<open>
  \<open>write\<close> takes the lock of the inode's data twice, once for the size and once
  for the write, so it is two steps, between which calls on other open files
  run; the lock of the open file's offset is held throughout. The first step
  returns the open file and the offset to write at.
\<close>

definition vfs_write_start ::
    "('s, 'i) inode_ops \<Rightarrow> ('s, 'i) fs_world \<Rightarrow> nat file_table \<Rightarrow> fd
       \<Rightarrow> (nat \<times> 'i OpenFile \<times> u64) fs_result \<times> ('s, 'i) fs_world" where
  "vfs_write_start V w files fd =
     (case open_file w files fd of
        Err e \<Rightarrow> (Err e, w)
      | Ok (n, f) \<Rightarrow>
          if \<not> flags_contain (of_flags f) WRITE then (Err EBADF, w)
          else
            let offset = (if flags_contain (of_flags f) APPEND
                          then st_size (io_stat V (w_fs w) (of_inode f)) else of_offset f) in
            (Ok (n, f, offset), set_offset w n f offset))"

definition vfs_write_end ::
    "('s, 'i) inode_ops \<Rightarrow> ('s, 'i) fs_world \<Rightarrow> nat \<Rightarrow> 'i OpenFile \<Rightarrow> u64 \<Rightarrow> byte list
       \<Rightarrow> usize fs_result \<times> ('s, 'i) fs_world" where
  "vfs_write_end V w n f offset buf =
     (case io_write_at V (w_fs w) (of_inode f) offset buf of
        (Err e, s') \<Rightarrow> (Err e, w\<lparr> w_fs := s' \<rparr>)
      | (Ok count, s') \<Rightarrow> (Ok count, set_offset (w\<lparr> w_fs := s' \<rparr>) n f (wrapping_add offset count)))"

text \<open>A write that no other call interrupts.\<close>

definition vfs_write ::
    "('s, 'i) inode_ops \<Rightarrow> ('s, 'i) fs_world \<Rightarrow> nat file_table \<Rightarrow> fd \<Rightarrow> byte list
       \<Rightarrow> usize fs_result \<times> ('s, 'i) fs_world" where
  "vfs_write V w files fd buf =
     (case vfs_write_start V w files fd of
        (Err e, w1) \<Rightarrow> (Err e, w1)
      | (Ok (n, f, offset), w1) \<Rightarrow> vfs_write_end V w1 n f offset buf)"

lemma set_offset_fs [simp]: "w_fs (set_offset w n f offset) = w_fs w"
  by (simp add: set_offset_def)

lemma vfs_write_unfold:
  "vfs_write V w files fd buf =
     (case open_file w files fd of
        Err e \<Rightarrow> (Err e, w)
      | Ok (n, f) \<Rightarrow>
          if \<not> flags_contain (of_flags f) WRITE then (Err EBADF, w)
          else
            let offset = (if flags_contain (of_flags f) APPEND
                          then st_size (io_stat V (w_fs w) (of_inode f)) else of_offset f);
                w1 = set_offset w n f offset in
            (case io_write_at V (w_fs w) (of_inode f) offset buf of
               (Err e, s') \<Rightarrow> (Err e, w1\<lparr> w_fs := s' \<rparr>)
             | (Ok count, s') \<Rightarrow>
                 (Ok count, set_offset (w1\<lparr> w_fs := s' \<rparr>) n f (wrapping_add offset count))))"
  by (cases "open_file w files fd") (auto simp: vfs_write_def vfs_write_start_def vfs_write_end_def Let_def)

definition vfs_read_at ::
    "('s, 'i) inode_ops \<Rightarrow> ('s, 'i) fs_world \<Rightarrow> nat file_table \<Rightarrow> fd \<Rightarrow> u64 \<Rightarrow> usize
       \<Rightarrow> byte list fs_result \<times> ('s, 'i) fs_world" where
  "vfs_read_at V w files fd offset len =
     (case open_file w files fd of
        Err e \<Rightarrow> (Err e, w)
      | Ok (n, f) \<Rightarrow>
          if \<not> flags_contain (of_flags f) READ then (Err EBADF, w)
          else
            (case io_kind V (w_fs w) (of_inode f) of
               KDirectory \<Rightarrow> (Err EISDIR, w)
             | KCharDevice \<Rightarrow> (Err ESPIPE, w)
             | KFile \<Rightarrow>
                 let (r, s') = io_read_at V (w_fs w) (of_inode f) offset len in (r, w\<lparr> w_fs := s' \<rparr>)))"

text \<open>\<open>as i64\<close> and \<open>i64::checked_add\<close>.\<close>

definition as_i64 :: "u64 \<Rightarrow> int" where
  "as_i64 n = (if n < 2 ^ 63 then int n else int n - 2 ^ 64)"

definition i64_checked_add :: "int \<Rightarrow> int \<Rightarrow> int option" where
  "i64_checked_add a b = (if - (2 ^ 63) \<le> a + b \<and> a + b < 2 ^ 63 then Some (a + b) else None)"

definition vfs_lseek ::
    "('s, 'i) inode_ops \<Rightarrow> ('s, 'i) fs_world \<Rightarrow> nat file_table \<Rightarrow> fd \<Rightarrow> int \<Rightarrow> Whence
       \<Rightarrow> u64 fs_result \<times> ('s, 'i) fs_world" where
  "vfs_lseek V w files fd offset whence =
     (case open_file w files fd of
        Err e \<Rightarrow> (Err e, w)
      | Ok (n, f) \<Rightarrow>
          if \<not> io_seekable V (w_fs w) (of_inode f) then (Err ESPIPE, w)
          else
            let base = (case whence of
                 SeekSet \<Rightarrow> 0
               | SeekCurrent \<Rightarrow> as_i64 (of_offset f)
               | SeekEnd \<Rightarrow> as_i64 (st_size (io_stat V (w_fs w) (of_inode f)))) in
            (case i64_checked_add base offset of
               None \<Rightarrow> (Err EINVAL, w)
             | Some target \<Rightarrow>
                 if target < 0 then (Err EINVAL, w)
                 else (Ok (nat target), set_offset w n f (nat target))))"

definition vfs_fstat ::
    "('s, 'i) inode_ops \<Rightarrow> ('s, 'i) fs_world \<Rightarrow> nat file_table \<Rightarrow> fd \<Rightarrow> Stat fs_result" where
  "vfs_fstat V w files fd =
     bind_result (open_file w files fd) (\<lambda>(_, f). Ok (io_stat V (w_fs w) (of_inode f)))"

definition vfs_ftruncate ::
    "('s, 'i) inode_ops \<Rightarrow> ('s, 'i) fs_world \<Rightarrow> nat file_table \<Rightarrow> fd \<Rightarrow> u64
       \<Rightarrow> unit fs_result \<times> ('s, 'i) fs_world" where
  "vfs_ftruncate V w files fd len =
     (case open_file w files fd of
        Err e \<Rightarrow> (Err e, w)
      | Ok (n, f) \<Rightarrow>
          if \<not> flags_contain (of_flags f) WRITE then (Err EBADF, w)
          else
            (case io_kind V (w_fs w) (of_inode f) of
               KDirectory \<Rightarrow> (Err EISDIR, w)
             | KCharDevice \<Rightarrow> (Err EINVAL, w)
             | KFile \<Rightarrow>
                 let (r, s') = io_truncate V (w_fs w) (of_inode f) len in (r, w\<lparr> w_fs := s' \<rparr>)))"

definition vfs_readdir ::
    "('s, 'i) inode_ops \<Rightarrow> ('s, 'i) fs_world \<Rightarrow> nat file_table \<Rightarrow> fd
       \<Rightarrow> DirEntry list fs_result \<times> ('s, 'i) fs_world" where
  "vfs_readdir V w files fd =
     (case open_file w files fd of
        Err e \<Rightarrow> (Err e, w)
      | Ok (n, f) \<Rightarrow>
          if io_kind V (w_fs w) (of_inode f) \<noteq> KDirectory then (Err ENOTDIR, w)
          else
            (case io_entries V (w_fs w) (of_inode f) of
               Err e \<Rightarrow> (Err e, w)
             | Ok es \<Rightarrow>
                 let remaining = drop (of_offset f) es in
                 (Ok remaining, set_offset w n f (wrapping_add (of_offset f) (length remaining)))))"

text \<open>
  \<open>readdir_with\<close>: \<open>take\<close> is a closure with state \<open>'a\<close> that refuses an entry with
  \<^term>\<open>None\<close>.
\<close>

fun offer_entries :: "('a \<Rightarrow> u64 \<Rightarrow> DirEntry \<Rightarrow> 'a option) \<Rightarrow> 'a \<Rightarrow> u64 \<Rightarrow> DirEntry list \<Rightarrow> 'a \<times> u64" where
  "offer_entries tk a position [] = (a, position)"
| "offer_entries tk a position (e # es) =
     (case tk a position e of
        None \<Rightarrow> (a, position)
      | Some a' \<Rightarrow> offer_entries tk a' (wrapping_add position 1) es)"

definition vfs_readdir_with ::
    "('s, 'i) inode_ops \<Rightarrow> ('s, 'i) fs_world \<Rightarrow> nat file_table \<Rightarrow> fd
       \<Rightarrow> ('a \<Rightarrow> u64 \<Rightarrow> DirEntry \<Rightarrow> 'a option) \<Rightarrow> 'a \<Rightarrow> unit fs_result \<times> 'a \<times> ('s, 'i) fs_world" where
  "vfs_readdir_with V w files fd tk a =
     (case open_file w files fd of
        Err e \<Rightarrow> (Err e, a, w)
      | Ok (n, f) \<Rightarrow>
          if io_kind V (w_fs w) (of_inode f) \<noteq> KDirectory then (Err ENOTDIR, a, w)
          else
            (case io_entries V (w_fs w) (of_inode f) of
               Err e \<Rightarrow> (Err e, a, w)
             | Ok es \<Rightarrow>
                 let (a', position) = offer_entries tk a (of_offset f) (drop (of_offset f) es) in
                 (Ok (), a', set_offset w n f position)))"

section \<open>The walk and lexical resolution\<close>

text \<open>
  The stacks a walk builds: below the root, each entry is the child of the one
  under it, and the names on the way are the components \<open>ns\<close>.
\<close>

inductive stack_for ::
    "('s, 'i) inode_ops \<Rightarrow> 's \<Rightarrow> 'i Mount list \<Rightarrow> 'i \<Rightarrow> string list \<Rightarrow> 'i walk_stack \<Rightarrow> bool"
  for V s ms root where
  base: "stack_for V s ms root [] ((''/'', root), [])"
| push: "stack_for V s ms root ns ((q, j), below) \<Longrightarrow> component n \<Longrightarrow> length n \<le> NAME_MAX \<Longrightarrow>
    io_kind V s j = KDirectory \<Longrightarrow> walk_child V s ms q j n = Ok i \<Longrightarrow>
    stack_for V s ms root (ns @ [n]) ((join_path q n, i), (q, j) # below)"

lemma stack_for_pop:
  assumes "stack_for V s ms root ns (tp, t # ts)"
  shows "stack_for V s ms root (butlast ns) (t, ts)"
  using assms by cases simp_all

lemma stack_for_bottom: "stack_for V s ms root ns (tp, []) \<Longrightarrow> ns = []"
  by (erule stack_for.cases) simp_all

lemma stack_for_component: "stack_for V s ms root ns st \<Longrightarrow> \<forall>n \<in> set ns. component n"
  by (induction rule: stack_for.induct) auto

lemma join_snoc:
  "join_with sep (ns @ [n]) = (if ns = [] then n else join_with sep ns @ sep @ n)"
  by (induction sep ns rule: join_with.induct) auto

lemma join_not_Nil: "\<forall>n \<in> set ns. component n \<Longrightarrow> ns \<noteq> [] \<Longrightarrow> join_with sep ns \<noteq> []"
  by (cases ns; cases "tl ns") (auto simp: component_def)

text \<open>The path of the top of the stack is the components joined.\<close>

lemma stack_for_path:
  "stack_for V s ms root ns st \<Longrightarrow> fst (fst st) = ''/'' @ join_with ''/'' ns"
proof (induction rule: stack_for.induct)
  case (push ns q j below n i)
  then show ?case
    using join_not_Nil [OF stack_for_component [OF push(1)], of "''/''"]
    by (auto simp: join_path_def join_snoc)
qed simp

lemma walk_component_stack:
  assumes st: "stack_for V s ms root ns st" and c: "CHR ''/'' \<notin> set c"
    and w: "walk_component V s ms st c = Ok st'"
  shows "stack_for V s ms root (resolve_component ns c) st'"
proof -
  obtain q j below where st': "st = ((q, j), below)" by (metis surj_pair)
  show ?thesis
  proof (cases "component c")
    case True
    then have "c \<noteq> [] \<and> c \<noteq> ''.'' \<and> c \<noteq> ''..''" by (simp add: component_def)
    then obtain i where "length c \<le> NAME_MAX" "io_kind V s j = KDirectory" "walk_child V s ms q j c = Ok i"
      "st' = ((join_path q c, i), (q, j) # below)"
      using w st' by (auto split: if_splits)
    then show ?thesis
      using stack_for.push [OF st [unfolded st'] True] \<open>c \<noteq> [] \<and> _\<close> by (simp add: resolve_component_def)
  next
    case False
    then consider "c = [] \<or> c = ''.''" | "c = ''..''" using c by (auto simp: component_def)
    then show ?thesis
    proof cases
      case 1
      then show ?thesis using w st st' by (auto simp: resolve_component_def)
    next
      case 2
      then show ?thesis
        using w st st' stack_for_pop stack_for_bottom
        by (cases below) (fastforce simp: resolve_component_def)+
    qed
  qed
qed

lemma walk_components_stack:
  assumes "stack_for V s ms root ns st" "\<forall>c \<in> set cs. CHR ''/'' \<notin> set c" "walk_components V s ms st cs = Ok st'"
  shows "stack_for V s ms root (components_of ns cs) st'"
  using assms
proof (induction cs arbitrary: ns st)
  case (Cons c cs)
  then obtain st1 where "walk_component V s ms st c = Ok st1" "walk_components V s ms st1 cs = Ok st'" by auto
  moreover from this have "stack_for V s ms root (resolve_component ns c) st1"
    using walk_component_stack [OF Cons.prems(1)] Cons.prems(2) by simp
  ultimately show ?case using Cons.IH Cons.prems(2) by simp
qed simp

lemma walk_components_append:
  "walk_components V s ms st (cs @ ds) =
     bind_result (walk_components V s ms st cs) (\<lambda>st. walk_components V s ms st ds)"
proof (induction cs arbitrary: st)
  case (Cons c cs)
  then show ?case by (cases "walk_component V s ms st c") simp_all
qed simp

text \<open>Walking the components of a stack builds the stack again.\<close>

lemma walk_stack_again:
  "stack_for V s ms root ns st \<Longrightarrow> walk_components V s ms ((''/'', root), []) ns = Ok st"
proof (induction rule: stack_for.induct)
  case (push ns q j below n i)
  have "n \<noteq> [] \<and> n \<noteq> ''.'' \<and> n \<noteq> ''..''" using push by (simp add: component_def)
  then show ?case using push by (simp add: walk_components_append)
qed simp

lemma walk_empty: "walk_components V s ms st ([] # cs) = walk_components V s ms st cs"
  by (cases st) simp

lemma walk_rendered:
  assumes st: "stack_for V s ms root ns st"
  shows "walk_components V s ms ((''/'', root), []) (split_on (CHR ''/'') (''/'' @ join_with ''/'' ns)) = Ok st"
proof (cases "ns = []")
  case True
  then show ?thesis using walk_stack_again [OF st] by auto
next
  case False
  then have "split_on (CHR ''/'') (join_with ''/'' ns) = ns"
    using stack_for_component [OF st] by (intro split_join) (auto simp: component_def)
  then show ?thesis using walk_stack_again [OF st] by (simp add: walk_empty)
qed

lemma ends_with_slash_join:
  assumes "\<forall>n \<in> set ns. component n" "ns \<noteq> []"
  shows "\<not> ends_with_slash (''/'' @ join_with ''/'' ns)"
proof -
  obtain ms n where ns: "ns = ms @ [n]" using assms(2) by (metis rev_exhaust)
  then have "n \<noteq> []" "CHR ''/'' \<notin> set n" using assms(1) by (auto simp: component_def)
  then have "last n \<noteq> CHR ''/''" using last_in_set by metis
  then show ?thesis
    using \<open>n \<noteq> []\<close> unfolding ns ends_with_slash_def join_snoc by (auto simp: last_append)
qed

lemma components_root: "components_of [] (split_on (CHR ''/'') path) = resolved ''/'' path"
  by (simp add: resolved_def resolve_component_def)

end
