(* ===== verification/RamVfs.thy ===== *)
theory RamVfs
  imports Vfs RamFsProps
begin

text \<open>
  The virtual file system over the in-memory one: the table of its inode
  operations, and what holds of the calls of both together. The contract the
  virtual file system relies on for files is a locale, interpreted on the
  in-memory file system.
\<close>

section \<open>The operations of the in-memory file system\<close>

text \<open>
  Directories have no file operations and the other way round: the errors are
  the defaults of the trait. Memory does not run out (\<open>oom\<close> is the argument).
\<close>

definition ram_stat_of :: "ramfs \<Rightarrow> ino \<Rightarrow> Stat" where
  "ram_stat_of s i =
     (case ram_stat s i of
        Some st \<Rightarrow> st
      | None \<Rightarrow> \<lparr> st_ino = i, st_fs_id = fs_id s, st_kind = KFile, st_size = 0, st_nlink = 0 \<rparr>)"

definition ram_kind :: "ramfs \<Rightarrow> ino \<Rightarrow> InodeKind" where
  "ram_kind s i = st_kind (ram_stat_of s i)"

definition ram_ops :: "bool \<Rightarrow> (ramfs, ino) inode_ops" where
  "ram_ops oom =
     \<lparr> io_stat = ram_stat_of,
       io_kind = ram_kind,
       io_read_at = (\<lambda>s i offset n. (ram_read_at s i offset n, s)),
       io_write_at = ram_write_at oom,
       io_truncate = ram_truncate oom,
       io_lookup = ram_lookup,
       io_create = ram_create,
       io_unlink = ram_unlink,
       io_rmdir = ram_rmdir,
       io_rename = (\<lambda>s d old t new. ram_rename s d old (fs_id s, t) new),
       io_entries = ram_entries,
       io_seekable = (\<lambda>s i. ram_kind s i \<noteq> KCharDevice),
       io_open = (\<lambda>s i flags. (Ok None, s)) \<rparr>"

lemma ram_ops_sel [simp]:
  "io_stat (ram_ops oom) = ram_stat_of" "io_kind (ram_ops oom) = ram_kind"
  "io_read_at (ram_ops oom) s i offset n = (ram_read_at s i offset n, s)"
  "io_write_at (ram_ops oom) = ram_write_at oom" "io_lookup (ram_ops oom) = ram_lookup"
  "io_create (ram_ops oom) = ram_create" "io_truncate (ram_ops oom) = ram_truncate oom"
  "io_seekable (ram_ops oom) s i = (ram_kind s i \<noteq> KCharDevice)"
  "io_open (ram_ops oom) s i flags = (Ok None, s)"
  by (simp_all add: ram_ops_def)

lemma ram_kind_eq: "kind_of s i = Some k \<Longrightarrow> ram_kind s i = k"
  by (auto simp: kind_of_def ram_kind_def ram_stat_of_def ram_stat_def split: option.splits ram_inode.splits)

text \<open>
  C18. When a walk finds an inode, the normalised path it returns is exactly what
  the lexical resolution of \<open>path.rs\<close> makes of the path, mounts and all, and
  walking that path again finds the same inode, so that a program can come back
  to where \<open>getcwd\<close> says it is.
\<close>

theorem walk_is_resolve:
  assumes root: "\<And>r. mounted_root ms ''/'' = Some r \<Longrightarrow> io_kind V s r = KDirectory"
    and w: "walk V s ms path = Ok (i, p)"
  shows "p = resolve ''/'' path \<and> walk V s ms p = Ok (i, p)"
proof -
  obtain r below where r: "mounted_root ms ''/'' = Some r"
    and st: "walk_components V s ms ((''/'', r), []) (split_on (CHR ''/'') path) = Ok ((p, i), below)"
    using w by (auto simp: walk_def walk_from_root_def split: if_splits)
  let ?ns = "resolved ''/'' path"
  have S: "stack_for V s ms r ?ns ((p, i), below)"
    using walk_components_stack [OF stack_for.base _ st] split_on_no_sep [of _ "CHR ''/''" path]
    unfolding components_root by blast
  then have p: "p = ''/'' @ join_with ''/'' ?ns" using stack_for_path by fastforce
  moreover have "walk_components V s ms ((''/'', r), []) (split_on (CHR ''/'') p) = Ok ((p, i), below)"
    using walk_rendered [OF S] unfolding p .
  moreover have "\<not> (ends_with_slash p \<and> io_kind V s i \<noteq> KDirectory)"
  proof (cases "?ns = []")
    case True
    have "i = r" using S unfolding True by cases simp_all
    then show ?thesis using root [OF r] by simp
  next
    case False
    then show ?thesis using ends_with_slash_join [OF stack_for_component [OF S]] p by simp
  qed
  ultimately show ?thesis using r by (simp add: walk_def walk_from_root_def resolve_resolved)
qed

text \<open>The demonstration file system mounted on \<open>/\<close>.\<close>

definition demo_mounts :: "ino Mount list" where
  "demo_mounts = [\<lparr> m_path = ''/'', m_root = 1, m_filesystem = ''ramfs'' \<rparr>]"

lemma demo_root_kind: "mounted_root demo_mounts ''/'' = Some r \<Longrightarrow> ram_kind ram_demo r = KDirectory"
  by (simp add: mounted_root_def demo_mounts_def ram_demo_eq ram_kind_def ram_stat_of_def ram_stat_def)

theorem walk_is_resolve_witness:
  "walk (ram_ops False) ram_demo demo_mounts ''/d/../f'' = Ok (3, ''/f'') \<and>
   resolve ''/'' ''/d/../f'' = ''/f'' \<and>
   walk (ram_ops False) ram_demo demo_mounts ''/f'' = Ok (3, ''/f'')"
proof -
  have w: "walk (ram_ops False) ram_demo demo_mounts ''/d/../f'' = Ok (3, ''/f'')"
    by (simp add: walk_def walk_from_root_def walk_child_def mounted_root_def demo_mounts_def join_path_def
        ends_with_slash_def ram_lookup_def ram_demo_eq ram_kind_def ram_stat_of_def ram_stat_def ram_eval)
  have "io_kind (ram_ops False) ram_demo r = KDirectory" if "mounted_root demo_mounts ''/'' = Some r" for r
    using demo_root_kind that by simp
  from walk_is_resolve [OF this w] w show ?thesis by simp
qed

section \<open>Files through descriptors\<close>

text \<open>
  The contract of a file for the calls on descriptors: its contents are a list
  of bytes, reading returns the slice at the offset, and a write that succeeds
  takes the whole buffer and puts it at the offset, with zeros in between when
  the offset lies beyond the end.
\<close>

definition written :: "byte list \<Rightarrow> u64 \<Rightarrow> byte list \<Rightarrow> byte list" where
  "written b offset buf = overwrite (resized b (max (offset + length buf) (length b))) offset buf"

lemma written_length: "length (written b offset buf) = max (offset + length buf) (length b)"
  unfolding written_def by (subst length_overwrite) simp_all

lemma written_read: "file_read_at (written b offset buf) offset (length buf) = buf"
  using written_length [of b offset buf]
  by (auto simp: file_read_at_def written_def overwrite_def)

lemma written_end: "written b (length b) buf = b @ buf"
  by (simp add: written_def overwrite_def resized_def)

locale file_contents =
  fixes V :: "('s, 'i) inode_ops" and good :: "'s \<Rightarrow> bool" and contents :: "'s \<Rightarrow> 'i \<Rightarrow> byte list option"
  assumes reads: "contents s i = Some b \<Longrightarrow> io_read_at V s i offset n = (Ok (file_read_at b offset n), s)"
    and writes: "good s \<Longrightarrow> contents s i = Some b \<Longrightarrow> io_write_at V s i offset buf = (Ok c, s') \<Longrightarrow>
      c = length buf \<and> good s' \<and> contents s' i = Some (written b offset buf)"
    and is_file: "contents s i = Some b \<Longrightarrow>
      io_kind V s i = KFile \<and> io_seekable V s i \<and> st_size (io_stat V s i) = length b"
begin

lemma open_file_again:
  assumes "open_file w files fd = Ok (n, f)"
  shows "open_file (set_offset (w\<lparr> w_fs := s \<rparr>) n f offset) files fd = Ok (n, f\<lparr> of_offset := offset \<rparr>)"
  using assms by (auto simp: open_file_def set_offset_def)

lemma write_effect:
  assumes "good (w_fs w)" "open_file w files fd = Ok (n, f)" "contents (w_fs w) (of_inode f) = Some b"
    and "flags_contain (of_flags f) WRITE" and w: "vfs_write V w files fd buf = (Ok c, w')"
  defines "start \<equiv> if flags_contain (of_flags f) APPEND then length b else of_offset f"
  shows "c = length buf" "good (w_fs w')" "contents (w_fs w') (of_inode f) = Some (written b start buf)"
    "w' = set_offset (w\<lparr> w_fs := w_fs w' \<rparr>) n f (wrapping_add start c)"
proof -
  have start: "start = (if flags_contain (of_flags f) APPEND
       then st_size (io_stat V (w_fs w) (of_inode f)) else of_offset f)"
    using is_file [OF assms(3)] by (simp add: start_def)
  obtain s' where s': "io_write_at V (w_fs w) (of_inode f) start buf = (Ok c, s')"
    "w' = set_offset ((set_offset w n f start)\<lparr> w_fs := s' \<rparr>) n f (wrapping_add start c)"
    using w assms(2,4) unfolding vfs_write_unfold start
    by (auto simp: Let_def split: prod.splits result.splits)
  have fs: "w_fs w' = s'" unfolding s'(2) by (simp add: set_offset_def)
  show "c = length buf" "good (w_fs w')" "contents (w_fs w') (of_inode f) = Some (written b start buf)"
    unfolding fs using writes [OF assms(1,3) s'(1)] by simp_all
  show "w' = set_offset (w\<lparr> w_fs := w_fs w' \<rparr>) n f (wrapping_add start c)"
    unfolding fs unfolding s'(2) by (simp add: set_offset_def)
qed

lemma read_effect:
  assumes "open_file w files fd = Ok (n, f)" "contents (w_fs w) (of_inode f) = Some b"
    and "flags_contain (of_flags f) READ"
  shows "vfs_read V w files fd len =
    (let bytes = file_read_at b (of_offset f) len in
     (Ok bytes, set_offset w n f (wrapping_add (of_offset f) (length bytes))))"
  using assms is_file [OF assms(2)] reads [OF assms(2)] by (simp add: vfs_read_def Let_def)

text \<open>What was written through a descriptor is what is read after seeking back.\<close>

lemma write_seek_read:
  assumes good: "good (w_fs w)" and f: "open_file w files fd = Ok (n, f)"
    and b: "contents (w_fs w) (of_inode f) = Some b"
    and fl: "flags_contain (of_flags f) READ" "flags_contain (of_flags f) WRITE" "\<not> flags_contain (of_flags f) APPEND"
    and off: "of_offset f < 2 ^ 63" and w: "vfs_write V w files fd buf = (Ok c, w1)"
  shows "\<exists>w2. vfs_lseek V w1 files fd (int (of_offset f)) SeekSet = (Ok (of_offset f), w2) \<and>
    fst (vfs_read V w2 files fd c) = Ok buf"
proof -
  note e = write_effect [OF good f b fl(2) w, unfolded if_not_P [OF fl(3)]]
  let ?f = "f\<lparr> of_offset := wrapping_add (of_offset f) c \<rparr>"
  let ?w2 = "set_offset w1 n ?f (of_offset f)"
  have f1: "open_file w1 files fd = Ok (n, ?f)" by (subst e(4)) (rule open_file_again [OF f])
  have "vfs_lseek V w1 files fd (int (of_offset f)) SeekSet = (Ok (of_offset f), ?w2)"
    using f1 is_file [of "w_fs w1" "of_inode f"] e(3) off
    by (simp add: vfs_lseek_def i64_checked_add_def)
  moreover have "open_file ?w2 files fd = Ok (n, ?f\<lparr> of_offset := of_offset f \<rparr>)"
    using open_file_again [OF f1, of "w_fs w1" "of_offset f"] by simp
  then have "fst (vfs_read V ?w2 files fd c) = Ok (file_read_at (written b (of_offset f) buf) (of_offset f) c)"
    using read_effect [of ?w2 files fd n] e(3) fl(1) by (simp add: set_offset_def Let_def)
  ultimately show ?thesis using e(1) written_read by auto
qed

text \<open>A write with \<open>APPEND\<close> goes to the end of the file, wherever the offset was.\<close>

lemma append_effect:
  assumes "good (w_fs w)" "open_file w files fd = Ok (n, f)" "contents (w_fs w) (of_inode f) = Some b"
    and "flags_contain (of_flags f) WRITE" "flags_contain (of_flags f) APPEND"
    and w: "vfs_write V w files fd buf = (Ok c, w')"
  shows "contents (w_fs w') (of_inode f) = Some (b @ buf)" "good (w_fs w')"
    "\<And>fd' n' f'. n' \<noteq> n \<Longrightarrow> open_file w files fd' = Ok (n', f') \<Longrightarrow> open_file w' files fd' = Ok (n', f')"
proof -
  note e = write_effect [OF assms(1-4) w, unfolded if_P [OF assms(5)]]
  show "contents (w_fs w') (of_inode f) = Some (b @ buf)" "good (w_fs w')"
    using e(2,3) by (simp_all add: written_end)
  show "open_file w' files fd' = Ok (n', f')" if "n' \<noteq> n" "open_file w files fd' = Ok (n', f')" for fd' n' f'
    using that by (subst e(4)) (auto simp: open_file_def set_offset_def)
qed

end

lemma ram_file_kind: "file_of s i = Some b \<Longrightarrow> ram_kind s i = KFile"
  using kind_file [of s i] ram_kind_eq by auto

lemma ram_file_size: "file_of s i = Some b \<Longrightarrow> st_size (ram_stat_of s i) = length b"
  by (simp add: file_of_iff ram_stat_of_def ram_stat_def)

lemma ram_write_written:
  assumes "ram_inv s" "file_of s i = Some b" "ram_write_at oom s i offset buf = (Ok c, s')"
  shows "c = length buf \<and> ram_inv s' \<and> file_of s' i = Some (written b offset buf)"
proof -
  have "ram_inv s'" using write_inv [OF assms(1), of oom i offset buf] assms(3) by simp
  moreover have "c = length buf \<and>
      s' = put_inode (s\<lparr> used := used s + max (offset + length buf) (length b) - length b \<rparr>) i
             (RamFile (written b offset buf))"
    using assms(3) unfolding write_spec [OF assms(1,2)] Let_def written_def
    by (simp only: prod.inject result.inject result.distinct split: if_splits) blast+
  ultimately show ?thesis by (simp add: put_inode_def file_of_def)
qed

interpretation ram_files: file_contents "ram_ops oom" ram_inv file_of
proof
  show "io_read_at (ram_ops oom) s i offset n = (Ok (file_read_at b offset n), s)"
    if "file_of s i = Some b" for s i b offset n
    using that by (simp add: ram_read_at_def)
  show "c = length buf \<and> ram_inv s' \<and> file_of s' i = Some (written b offset buf)"
    if "ram_inv s" "file_of s i = Some b" "io_write_at (ram_ops oom) s i offset buf = (Ok c, s')"
    for s i b offset buf c s'
    by (rule ram_write_written [OF that(1,2) that(3) [unfolded ram_ops_sel]])
  show "io_kind (ram_ops oom) s i = KFile \<and> io_seekable (ram_ops oom) s i \<and>
      st_size (io_stat (ram_ops oom) s i) = length b" if "file_of s i = Some b" for s i b
    using that by (simp add: ram_file_kind ram_file_size)
qed

text \<open>
  C23. What a program writes through a descriptor it reads back after seeking to
  where it wrote: for a file open for reading and writing in a file system any
  sequence of calls has led to, after a write that returned a count the seek
  succeeds and the read returns the bytes of the buffer.
\<close>

theorem fd_write_seek_read:
  assumes "ram_reachable (w_fs w)" "open_file w files fd = Ok (n, f)"
    and "file_of (w_fs w) (of_inode f) = Some b"
    and "flags_contain (of_flags f) READ_WRITE" "\<not> flags_contain (of_flags f) APPEND"
    and "of_offset f < 2 ^ 63" "vfs_write (ram_ops oom) w files fd buf = (Ok c, w1)"
  shows "c = length buf \<and>
    (\<exists>w2. vfs_lseek (ram_ops oom) w1 files fd (int (of_offset f)) SeekSet = (Ok (of_offset f), w2) \<and>
       fst (vfs_read (ram_ops oom) w2 files fd c) = Ok buf)"
proof -
  have good: "ram_inv (w_fs w)" using assms(1) by (rule ram_reachable_inv)
  have fl: "flags_contain (of_flags f) READ" "flags_contain (of_flags f) WRITE"
    using assms(4) by (simp_all add: READ_WRITE_def flags_contain_or)
  show ?thesis
    using ram_files.write_effect(1) [OF good assms(2,3) fl(2) assms(7)]
      ram_files.write_seek_read [OF good assms(2,3) fl assms(5-7)] by blast
qed

definition demo_world :: "(ramfs, ino) fs_world" where
  "demo_world = \<lparr> w_fs = ram_demo, w_mounts = demo_mounts,
     w_files = [7 \<mapsto> \<lparr> of_inode = 3, of_flags = 3, of_offset = 0 \<rparr>], w_next = 8 \<rparr>"

theorem fd_write_seek_read_witness:
  "\<exists>w1 w2. vfs_write (ram_ops False) demo_world [Some 7] 0 [66, 67] = (Ok 2, w1) \<and>
     vfs_lseek (ram_ops False) w1 [Some 7] 0 0 SeekSet = (Ok 0, w2) \<and>
     fst (vfs_read (ram_ops False) w2 [Some 7] 0 2) = Ok [66, 67]"
proof -
  let ?f = "\<lparr> of_inode = 3, of_flags = 3, of_offset = 0 \<rparr> :: ino OpenFile"
  have o: "open_file demo_world [Some 7] 0 = Ok (7, ?f)"
    by (simp add: open_file_def ft_get_def demo_world_def)
  have w: "vfs_write (ram_ops False) demo_world [Some 7] 0 [66, 67] =
      (Ok 2, snd (vfs_write (ram_ops False) demo_world [Some 7] 0 [66, 67]))"
    using o by (simp add: vfs_write_unfold flag_defs demo_world_def ram_demo_eq ram_eval)
  have "file_of (w_fs demo_world) (of_inode ?f) = Some [65]" "ram_reachable (w_fs demo_world)"
    using ram_demo_reachable by (simp_all add: demo_world_def ram_demo_eq file_of_def)
  from fd_write_seek_read [OF this(2) o this(1) _ _ _ w] show ?thesis
    using w by (auto simp: flag_defs)
qed

text \<open>
  Appending writes that run one after the other lose nothing: two writes
  through two open files with \<open>APPEND\<close> on the same file, of which the second
  starts after the first has returned, leave the old contents followed by both
  buffers in the order of the writes, whatever the offsets of the two open
  files were. For writes that overlap this fails, as the next property shows.
\<close>

theorem append_keeps_both:
  assumes "ram_reachable (w_fs w)"
    and "open_file w files fd1 = Ok (n1, f1)" "open_file w files fd2 = Ok (n2, f2)" "n1 \<noteq> n2"
    and "of_inode f1 = i" "of_inode f2 = i" "file_of (w_fs w) i = Some b"
    and "flags_contain (of_flags f1) (WRITE OR APPEND)" "flags_contain (of_flags f2) (WRITE OR APPEND)"
    and "vfs_write (ram_ops oom) w files fd1 buf1 = (Ok c1, w1)"
    and "vfs_write (ram_ops oom') w1 files fd2 buf2 = (Ok c2, w2)"
  shows "file_of (w_fs w2) i = Some (b @ buf1 @ buf2)"
proof -
  have good: "ram_inv (w_fs w)" using assms(1) by (rule ram_reachable_inv)
  have fl: "flags_contain (of_flags f1) WRITE" "flags_contain (of_flags f1) APPEND"
    "flags_contain (of_flags f2) WRITE" "flags_contain (of_flags f2) APPEND"
    using assms(8,9) by (simp_all add: flags_contain_or)
  have b: "file_of (w_fs w) (of_inode f1) = Some b" using assms(5,7) by simp
  note a = ram_files.append_effect [OF good assms(2) b fl(1,2) assms(10)]
  have "open_file w1 files fd2 = Ok (n2, f2)" using a(3) [of n2 fd2 f2] assms(3,4) by simp
  moreover have "file_of (w_fs w1) (of_inode f2) = Some (b @ buf1)" using a(1) assms(5,6) by simp
  ultimately show ?thesis
    using ram_files.append_effect(1) [OF a(2) _ _ fl(3,4) assms(11)] assms(6) by simp
qed

definition append_world :: "(ramfs, ino) fs_world" where
  "append_world = demo_world\<lparr> w_files :=
     [7 \<mapsto> \<lparr> of_inode = 3, of_flags = 34, of_offset = 0 \<rparr>, 8 \<mapsto> \<lparr> of_inode = 3, of_flags = 34, of_offset = 0 \<rparr>] \<rparr>"

theorem append_keeps_both_witness:
  "file_of (w_fs (snd (vfs_write (ram_ops False)
     (snd (vfs_write (ram_ops False) append_world [Some 7, Some 8] 0 [66])) [Some 7, Some 8] 1 [67]))) 3
   = Some [65, 66, 67]"
proof -
  let ?f = "\<lparr> of_inode = 3, of_flags = 34, of_offset = 0 \<rparr> :: ino OpenFile"
  let ?w1 = "snd (vfs_write (ram_ops False) append_world [Some 7, Some 8] 0 [66])"
  have o: "open_file append_world [Some 7, Some 8] 0 = Ok (7, ?f)"
    "open_file append_world [Some 7, Some 8] 1 = Ok (8, ?f)"
    by (simp_all add: open_file_def ft_get_def append_world_def)
  note ev = vfs_write_unfold open_file_def ft_get_def flag_defs append_world_def demo_world_def set_offset_def
    ram_stat_of_def ram_stat_def ram_demo_eq ram_eval
  have w1: "vfs_write (ram_ops False) append_world [Some 7, Some 8] 0 [66] = (Ok 1, ?w1)"
    by (simp add: ev)
  have w2: "vfs_write (ram_ops False) ?w1 [Some 7, Some 8] 1 [67] =
      (Ok 1, snd (vfs_write (ram_ops False) ?w1 [Some 7, Some 8] 1 [67]))"
    by (simp add: ev)
  have "ram_reachable (w_fs append_world)" "file_of (w_fs append_world) 3 = Some [65]"
    using ram_demo_reachable by (simp_all add: append_world_def demo_world_def ram_demo_eq file_of_def)
  from append_keeps_both [OF this(1) o _ _ _ this(2) _ _ w1 w2] show ?thesis
    by (simp add: flag_defs)
qed

text \<open>
  C24. Appending writes that overlap lose data. Two open files with \<open>APPEND\<close> on
  the same file: each write asks for the size, then writes there, under two
  separate acquisitions of the data lock. When both ask before either writes,
  both report their byte as written, and the second overwrites the first.
\<close>

theorem append_race_loses_data:
  "\<exists>f w1 w2 w3 w4. ram_reachable (w_fs append_world) \<and> file_of (w_fs append_world) 3 = Some [65]
     \<and> vfs_write_start (ram_ops False) append_world [Some 7, Some 8] 0 = (Ok (7, f, 1), w1)
     \<and> vfs_write_start (ram_ops False) w1 [Some 7, Some 8] 1 = (Ok (8, f, 1), w2)
     \<and> vfs_write_end (ram_ops False) w2 7 f 1 [66] = (Ok 1, w3)
     \<and> vfs_write_end (ram_ops False) w3 8 f 1 [67] = (Ok 1, w4)
     \<and> file_of (w_fs w4) 3 = Some [65, 67]"
proof (intro exI conjI)
  let ?f = "\<lparr> of_inode = 3, of_flags = 34, of_offset = 0 \<rparr> :: ino OpenFile"
  let ?w1 = "snd (vfs_write_start (ram_ops False) append_world [Some 7, Some 8] 0)"
  let ?w2 = "snd (vfs_write_start (ram_ops False) ?w1 [Some 7, Some 8] 1)"
  let ?w3 = "snd (vfs_write_end (ram_ops False) ?w2 7 ?f 1 [66])"
  let ?w4 = "snd (vfs_write_end (ram_ops False) ?w3 8 ?f 1 [67])"
  note ev = vfs_write_start_def vfs_write_end_def open_file_def ft_get_def flag_defs append_world_def demo_world_def
    set_offset_def ram_stat_of_def ram_stat_def ram_demo_eq ram_eval
  show "ram_reachable (w_fs append_world)" "file_of (w_fs append_world) 3 = Some [65]"
    using ram_demo_reachable by (simp_all add: append_world_def demo_world_def ram_demo_eq file_of_def)
  show "vfs_write_start (ram_ops False) append_world [Some 7, Some 8] 0 = (Ok (7, ?f, 1), ?w1)" by (simp add: ev)
  show "vfs_write_start (ram_ops False) ?w1 [Some 7, Some 8] 1 = (Ok (8, ?f, 1), ?w2)" by (simp add: ev)
  show "vfs_write_end (ram_ops False) ?w2 7 ?f 1 [66] = (Ok 1, ?w3)" by (simp add: ev)
  show "vfs_write_end (ram_ops False) ?w3 8 ?f 1 [67] = (Ok 1, ?w4)" by (simp add: ev)
  show "file_of (w_fs ?w4) 3 = Some [65, 67]" by (simp add: ev)
qed

end
