(* ===== verification/Cpio.thy ===== *)
theory Cpio
  imports Inode
begin

text \<open>
  The cpio "newc" format of the initial RAM file system: the kernel's parser
  (\<open>kernel/src/fs/initramfs.rs\<close>) and the writer of the build tool
  (\<open>tools/mkinitramfs/src/cpio.rs\<close>). A path is the list of its UTF-8 bytes as
  characters; \<open>str::from_utf8\<close> is the check of the encoding. Sizes and offsets
  stay far below \<open>2 ^ 64\<close>: a field is at most \<open>2 ^ 32 - 1\<close>.
\<close>

section \<open>Bytes and text\<close>

definition bytes_of :: "string \<Rightarrow> byte list" where
  "bytes_of cs = map (\<lambda>c. of_char c) cs"

definition text_of :: "byte list \<Rightarrow> string" where
  "text_of bs = map (\<lambda>b. char_of (unat b)) bs"

text \<open>The validation of \<open>core::str::from_utf8\<close>.\<close>

definition cont :: "byte \<Rightarrow> bool" where
  "cont b \<longleftrightarrow> 128 \<le> b \<and> b < 192"

fun utf8_ok :: "byte list \<Rightarrow> bool" where
  "utf8_ok [] = True"
| "utf8_ok (a # bs) =
     (if a < 128 then utf8_ok bs
      else if 194 \<le> a \<and> a < 224 then
        (case bs of b # r \<Rightarrow> cont b \<and> utf8_ok r | _ \<Rightarrow> False)
      else if 224 \<le> a \<and> a < 240 then
        (case bs of b # c # r \<Rightarrow>
           cont b \<and> (a = 224 \<longrightarrow> 160 \<le> b) \<and> (a = 237 \<longrightarrow> b < 160) \<and> cont c \<and> utf8_ok r | _ \<Rightarrow> False)
      else if 240 \<le> a \<and> a < 245 then
        (case bs of b # c # d # r \<Rightarrow>
           cont b \<and> (a = 240 \<longrightarrow> 144 \<le> b) \<and> (a = 244 \<longrightarrow> b < 144) \<and> cont c \<and> cont d \<and> utf8_ok r | _ \<Rightarrow> False)
      else False)"

definition from_utf8 :: "byte list \<Rightarrow> string option" where
  "from_utf8 bs = (if utf8_ok bs then Some (text_of bs) else None)"

section \<open>Parsing\<close>

definition MAGIC :: "byte list" where "MAGIC = bytes_of ''070701''"
definition HEADER_LEN :: nat where "HEADER_LEN = 110"
definition TRAILER :: string where "TRAILER = ''TRAILER!!!''"
definition S_IFMT :: "32 word" where "S_IFMT = 0xF000"
definition S_IFREG :: "32 word" where "S_IFREG = 0x8000"
definition S_IFDIR :: "32 word" where "S_IFDIR = 0x4000"

datatype CpioError =
    Truncated | BadMagic | BadNumber | BadPath | UnsupportedType "32 word" | Filesystem Errno

datatype EntryKind = EFile | EDirectory

record Entry =
  en_path :: string
  en_kind :: EntryKind
  en_data :: "byte list"

text \<open>\<open>char::to_digit(16)\<close>.\<close>

definition to_digit16 :: "byte \<Rightarrow> nat option" where
  "to_digit16 b =
     (if 48 \<le> b \<and> b \<le> 57 then Some (unat b - 48)
      else if 97 \<le> b \<and> b \<le> 102 then Some (unat b - 87)
      else if 65 \<le> b \<and> b \<le> 70 then Some (unat b - 55)
      else None)"

fun hex_fold :: "nat \<Rightarrow> byte list \<Rightarrow> (nat, CpioError) result" where
  "hex_fold value [] = Ok value"
| "hex_fold value (b # bs) =
     (case to_digit16 b of
        None \<Rightarrow> Err BadNumber
      | Some digit \<Rightarrow> hex_fold (push_bit 4 value OR digit) bs)"

definition hex :: "byte list \<Rightarrow> (nat, CpioError) result" where
  "hex field = hex_fold 0 field"

definition clean_component :: "(string, CpioError) result \<Rightarrow> string \<Rightarrow> (string, CpioError) result" where
  "clean_component path c =
     bind_result path (\<lambda>path.
       if c = [] \<or> c = ''.'' then Ok path
       else if c = ''..'' then Err BadPath
       else Ok (if path = [] then c else path @ ''/'' @ c))"

definition clean_path :: "string \<Rightarrow> (string, CpioError) result" where
  "clean_path name = foldl clean_component (Ok []) (split_on (CHR ''/'') name)"

definition slice :: "byte list \<Rightarrow> nat \<Rightarrow> nat \<Rightarrow> (byte list, CpioError) result" where
  "slice archive start len =
     (case checked_add start len of
        None \<Rightarrow> Err Truncated
      | Some stop \<Rightarrow>
          if stop \<le> length archive then Ok (take len (drop start archive)) else Err Truncated)"

fun hex_fields :: "byte list \<Rightarrow> nat list \<Rightarrow> (nat list, CpioError) result" where
  "hex_fields header [] = Ok []"
| "hex_fields header (index # indices) =
     bind_result (hex (take 8 (drop (6 + index * 8) header))) (\<lambda>v.
       bind_result (hex_fields header indices) (\<lambda>vs. Ok (v # vs)))"

text \<open>\<open>name.split_last()\<close> with the NUL, and the check of the name.\<close>

definition member_name :: "byte list \<Rightarrow> (string, CpioError) result" where
  "member_name raw =
     (if raw = [] \<or> last raw \<noteq> 0 then Err BadPath
      else
        let name = butlast raw in
        if name = [] \<or> 0 \<in> set name then Err BadPath
        else ok_or (from_utf8 name) BadPath)"

text \<open>One header with its name and data: the mode, the name, the data and the offset behind.\<close>

definition parse_member ::
    "byte list \<Rightarrow> nat \<Rightarrow> (32 word \<times> string \<times> byte list \<times> nat, CpioError) result" where
  "parse_member archive offset =
     bind_result (slice archive offset HEADER_LEN) (\<lambda>header.
       if take 6 header \<noteq> MAGIC then Err BadMagic
       else
         bind_result (hex_fields header [0..<13]) (\<lambda>fields.
           let mode = of_nat (fields ! 1); size = fields ! 6; name_size = fields ! 11 in
           bind_result (slice archive (offset + HEADER_LEN) name_size) (\<lambda>raw.
             bind_result (member_name raw) (\<lambda>name.
               let data_start = offset + next_multiple_of (HEADER_LEN + name_size) 4 in
               bind_result (ok_or (checked_next_multiple_of size 4) Truncated) (\<lambda>padded_size.
                 bind_result (slice archive data_start padded_size) (\<lambda>_.
                   Ok (mode, name, take size (drop data_start archive), data_start + padded_size)))))))"

definition skip_zeros :: "byte list \<Rightarrow> nat \<Rightarrow> nat" where
  "skip_zeros archive offset = offset + length (takeWhile (\<lambda>b. b = 0) (drop offset archive))"

text \<open>The entry of a member; \<^term>\<open>None\<close> for the root directory itself.\<close>

definition member_entry ::
    "32 word \<Rightarrow> string \<Rightarrow> byte list \<Rightarrow> (Entry option, CpioError) result" where
  "member_entry mode name bytes =
     bind_result (clean_path name) (\<lambda>path.
       if mode AND S_IFMT = S_IFREG then
         (if path \<noteq> [] then Ok (Some \<lparr> en_path = path, en_kind = EFile, en_data = bytes \<rparr>) else Err BadPath)
       else if mode AND S_IFMT = S_IFDIR then
         (if bytes \<noteq> [] then Err BadNumber
          else if path = [] then Ok None
          else Ok (Some \<lparr> en_path = path, en_kind = EDirectory, en_data = bytes \<rparr>))
       else Err (UnsupportedType mode))"

lemma slice_Ok: "slice archive start len = Ok xs \<Longrightarrow> start + len \<le> length archive \<and> length xs = len"
  by (auto simp: slice_def checked_add_def split: if_splits)

lemma parse_member_advances:
  assumes "parse_member archive offset = Ok (mode, name, bytes, next_offset)"
  shows "offset < next_offset \<and> next_offset \<le> length archive"
proof -
  obtain size name_size padded xs where
    "slice archive (offset + next_multiple_of (HEADER_LEN + name_size) 4) padded = Ok xs"
    "next_offset = offset + next_multiple_of (HEADER_LEN + name_size) 4 + padded"
    using assms by (auto simp: parse_member_def Let_def split: if_splits)
  moreover have "0 < next_multiple_of (HEADER_LEN + name_size) 4"
    using next_multiple_of_ge [of "HEADER_LEN + name_size" 4] by (simp add: HEADER_LEN_def)
  ultimately show ?thesis using slice_Ok by fastforce
qed

function parse_from :: "byte list \<Rightarrow> nat \<Rightarrow> Entry list \<Rightarrow> (Entry list, CpioError) result" where
  "parse_from archive offset entries =
     (case parse_member archive offset of
        Err e \<Rightarrow> Err e
      | Ok (mode, name, bytes, next_offset) \<Rightarrow>
          if name = TRAILER then
            (let offset' = skip_zeros archive next_offset in
             if offset' = length archive then Ok entries
             else parse_from archive offset' entries)
          else
            (case member_entry mode name bytes of
               Err e \<Rightarrow> Err e
             | Ok None \<Rightarrow> parse_from archive next_offset entries
             | Ok (Some e) \<Rightarrow> parse_from archive next_offset (entries @ [e])))"
  by pat_completeness auto
termination
  by (relation "measure (\<lambda>(archive, offset, _). length archive - offset)")
    (auto dest!: parse_member_advances simp: skip_zeros_def)

declare parse_from.simps [simp del]

definition parse :: "byte list \<Rightarrow> (Entry list, CpioError) result" where
  "parse archive = parse_from archive 0 []"

section \<open>Writing\<close>

record Member =
  mb_path :: string
  mb_mode :: "32 word"
  mb_data :: "byte list"

definition hex_digit :: "nat \<Rightarrow> byte" where
  "hex_digit d = (if d < 10 then of_nat (48 + d) else of_nat (87 + d))"

text \<open>\<open>format!("{field:08x}")\<close> of a 32-bit field: its low digits, the highest first.\<close>

fun to_hex :: "nat \<Rightarrow> nat \<Rightarrow> byte list" where
  "to_hex 0 n = []"
| "to_hex (Suc k) n = to_hex k (n div 16) @ [hex_digit (n mod 16)]"

definition pad :: "byte list \<Rightarrow> nat \<Rightarrow> byte list" where
  "pad archive start =
     (let len = length archive - start in
      archive @ replicate (next_multiple_of len 4 - len) 0)"

text \<open>The thirteen fields; \<^term>\<open>None\<close> where \<open>u32::try_from\<close> fails and the tool panics.\<close>

definition entry_fields :: "nat \<Rightarrow> 32 word \<Rightarrow> string \<Rightarrow> byte list \<Rightarrow> nat list option" where
  "entry_fields ino mode path bytes =
     (if 2 ^ 32 \<le> length bytes \<or> 2 ^ 32 \<le> length path + 1 then None
      else Some [ino, unat mode, 0, 0, (if mode AND S_IFMT = S_IFDIR then 2 else 1), 0, length bytes,
                 0, 0, 0, 0, length path + 1, 0])"

definition push_entry ::
    "byte list \<Rightarrow> nat \<Rightarrow> 32 word \<Rightarrow> string \<Rightarrow> byte list \<Rightarrow> byte list option" where
  "push_entry archive ino mode path bytes =
     map_option (\<lambda>fields.
        let start = length archive;
            a1 = archive @ MAGIC @ concat (map (to_hex 8) fields) @ bytes_of path @ [0];
            a2 = pad a1 start in
        pad (a2 @ bytes) start)
       (entry_fields ino mode path bytes)"

fun write_members :: "byte list \<Rightarrow> nat \<Rightarrow> Member list \<Rightarrow> byte list option" where
  "write_members archive ino [] = push_entry archive 0 0 TRAILER []"
| "write_members archive ino (m # ms) =
     Option.bind (push_entry archive ino (mb_mode m) (mb_path m) (mb_data m))
       (\<lambda>archive. write_members archive (ino + 1) ms)"

definition cpio_write :: "Member list \<Rightarrow> byte list option" where
  "cpio_write members = write_members [] 1 members"

end
