(* ===== verification/CpioSpec.thy ===== *)
theory CpioSpec
  imports Cpio
begin

text \<open>
  The round trip of the archive format: the kernel's parser reads what the
  build tool writes, field by field, member by member.
\<close>

section \<open>Text and numbers\<close>

lemma unat_of_char [simp]: "unat (of_char c :: byte) = of_char c"
proof -
  have "(of_char c :: byte) = of_nat (of_char c)" by (rule of_nat_of_char [symmetric])
  moreover have "of_char c mod 2 ^ 8 = (of_char c :: nat)" using of_char_mod_256 [of c] by simp
  ultimately show ?thesis by (simp add: unat_of_nat)
qed

lemma text_of_bytes [simp]: "text_of (bytes_of s) = s"
  by (induction s) (simp_all add: text_of_def bytes_of_def)

lemma length_bytes_of [simp]: "length (bytes_of s) = length s"
  by (simp add: bytes_of_def)

lemma to_digit_hex_digit:
  assumes "d < 16"
  shows "to_digit16 (hex_digit d) = Some d"
proof -
  have "list_all (\<lambda>d. to_digit16 (hex_digit d) = Some d) [0..<16]"
    by code_simp
  then show ?thesis using assms by (simp add: list_all_iff)
qed

lemma shift_or: "d < 16 \<Longrightarrow> push_bit 4 v OR d = 16 * v + d" for v d :: nat
proof -
  assume d: "d < 16"
  then have t: "take_bit 4 d = d" by (simp add: take_bit_nat_eq_self)
  have "push_bit 4 v AND take_bit 4 d = 0" by (auto simp: bit_eq_iff bit_simps)
  then have "push_bit 4 v + d = push_bit 4 v OR d" unfolding t by (rule disjunctive_add_eq_or)
  then show ?thesis by (simp add: push_bit_eq_mult)
qed

lemma length_to_hex [simp]: "length (to_hex k n) = k"
  by (induction k arbitrary: n) simp_all

lemma hex_fold_to_hex: "hex_fold v (to_hex k n @ rest) = hex_fold (v * 16 ^ k + n mod 16 ^ k) rest"
proof (induction k arbitrary: n rest)
  case (Suc k)
  have "16 * (v * 16 ^ k + n div 16 mod 16 ^ k) + n mod 16 = v * 16 ^ Suc k + n mod 16 ^ Suc k"
    by (simp add: mod_mult2_eq algebra_simps)
  moreover have "hex_fold v (to_hex (Suc k) n @ rest) =
      hex_fold (push_bit 4 (v * 16 ^ k + n div 16 mod 16 ^ k) OR n mod 16) rest"
    by (simp add: Suc to_digit_hex_digit)
  moreover have "push_bit 4 (v * 16 ^ k + n div 16 mod 16 ^ k) OR n mod 16 =
      16 * (v * 16 ^ k + n div 16 mod 16 ^ k) + n mod 16"
    by (rule shift_or) simp
  ultimately show ?case by (simp only:)
qed simp

lemma hex_to_hex: "n < 2 ^ 32 \<Longrightarrow> hex (to_hex 8 n) = Ok n"
  using hex_fold_to_hex [of 0 8 n "[]"] by (simp add: hex_def)

section \<open>One member\<close>

lemma hex_field_at:
  "i < length fs \<Longrightarrow> take 8 (drop (i * 8) (concat (map (to_hex 8) fs))) = to_hex 8 (fs ! i)"
proof (induction fs arbitrary: i)
  case (Cons f fs)
  then show ?case by (cases i) simp_all
qed simp

lemma hex_fields_written:
  assumes "\<forall>f \<in> set fs. f < 2 ^ 32" "\<forall>i \<in> set indices. i < length fs" "length magic = 6"
  shows "hex_fields (magic @ concat (map (to_hex 8) fs)) indices = Ok (map (\<lambda>i. fs ! i) indices)"
  using assms(2)
proof (induction indices)
  case (Cons i indices)
  have "take 8 (drop (6 + i * 8) (magic @ concat (map (to_hex 8) fs))) = to_hex 8 (fs ! i)"
    using hex_field_at [of i fs] Cons.prems assms(3) by simp
  moreover have "fs ! i < 2 ^ 32" using assms(1) Cons.prems by simp
  ultimately show ?case using Cons by (simp add: hex_to_hex)
qed simp

definition next4 :: "nat \<Rightarrow> nat" where
  "next4 n = next_multiple_of n 4"

lemma next4_add: "4 dvd a \<Longrightarrow> next4 (a + n) = a + next4 n"
proof -
  assume "4 dvd a"
  then have "(a + n) mod 4 = n mod 4" by presburger
  then show ?thesis by (simp add: next4_def next_multiple_of_def add.assoc)
qed

lemma next4_dvd: "4 dvd next4 n" and next4_ge: "n \<le> next4 n"
  by (simp_all add: next4_def next_multiple_of_ge)

definition member_fields :: "nat \<Rightarrow> 32 word \<Rightarrow> string \<Rightarrow> byte list \<Rightarrow> nat list" where
  "member_fields ino mode path bytes =
     [ino, unat mode, 0, 0, (if mode AND S_IFMT = S_IFDIR then 2 else 1), 0, length bytes,
      0, 0, 0, 0, length path + 1, 0]"

text \<open>The bytes of one entry: header and name, padded, then the data, padded.\<close>

definition head_bytes :: "nat \<Rightarrow> 32 word \<Rightarrow> string \<Rightarrow> byte list \<Rightarrow> byte list" where
  "head_bytes ino mode path bytes =
     MAGIC @ concat (map (to_hex 8) (member_fields ino mode path bytes)) @ bytes_of path @ [0]"

definition entry_bytes :: "nat \<Rightarrow> 32 word \<Rightarrow> string \<Rightarrow> byte list \<Rightarrow> byte list" where
  "entry_bytes ino mode path bytes =
     head_bytes ino mode path bytes @ replicate (next4 (111 + length path) - (111 + length path)) 0
     @ bytes @ replicate (next4 (length bytes) - length bytes) 0"

lemma length_MAGIC [simp]: "length MAGIC = 6"
  by (simp add: MAGIC_def)

lemma length_head [simp]: "length (head_bytes ino mode path bytes) = 111 + length path"
  by (simp add: head_bytes_def member_fields_def)

lemma length_entry: "length (entry_bytes ino mode path bytes) = next4 (111 + length path) + next4 (length bytes)"
  using next4_ge [of "111 + length path"] next4_ge [of "length bytes"] by (simp add: entry_bytes_def)

lemma push_entry_bytes:
  assumes "push_entry archive ino mode path bytes = Some archive'"
  shows "archive' = archive @ entry_bytes ino mode path bytes \<and>
    length bytes < 2 ^ 32 \<and> length path + 1 < 2 ^ 32"
proof -
  have len: "length bytes < 2 ^ 32" "length path + 1 < 2 ^ 32"
    using assms by (auto simp: push_entry_def entry_fields_def split: if_splits)
  let ?h = "head_bytes ino mode path bytes"
  let ?p = "replicate (next4 (111 + length path) - (111 + length path)) (0 :: byte)"
  have p1: "pad (archive @ ?h) (length archive) = archive @ ?h @ ?p"
    by (simp add: pad_def Let_def next4_def)
  have n: "length (?h @ ?p) = next4 (111 + length path)"
    using next4_ge [of "111 + length path"] by simp
  have "next4 (length (?h @ ?p) + length bytes) - (length (?h @ ?p) + length bytes) = next4 (length bytes) - length bytes"
    unfolding n by (simp add: next4_add next4_dvd)
  then have "pad ((archive @ ?h @ ?p) @ bytes) (length archive) = archive @ entry_bytes ino mode path bytes"
    by (simp add: pad_def Let_def next4_def [symmetric] entry_bytes_def add.assoc)
  moreover have "archive' = pad (pad (archive @ ?h) (length archive) @ bytes) (length archive)"
    using assms len by (simp add: push_entry_def entry_fields_def head_bytes_def member_fields_def Let_def)
  ultimately show ?thesis using len p1 by simp
qed

lemma slice_at:
  assumes "length (pre @ xs @ post) < 2 ^ 64"
  shows "slice (pre @ xs @ post) (length pre) (length xs) = Ok xs"
  using assms by (simp add: slice_def checked_add_def)

definition name_ok :: "string \<Rightarrow> bool" where
  "name_ok path \<longleftrightarrow> path \<noteq> [] \<and> 0 \<notin> set (bytes_of path) \<and> utf8_ok (bytes_of path)"

lemma member_name_written:
  assumes "name_ok path"
  shows "member_name (bytes_of path @ [0]) = Ok path"
proof -
  have "bytes_of path \<noteq> []" using assms by (simp add: name_ok_def bytes_of_def)
  then show ?thesis using assms by (simp add: member_name_def name_ok_def from_utf8_def)
qed

lemma parse_member_written:
  assumes len: "length (pre @ entry_bytes ino mode path bytes @ post) < 2 ^ 64"
    and small: "ino < 2 ^ 32" "length bytes < 2 ^ 32" "length path + 1 < 2 ^ 32" and name: "name_ok path"
  shows "parse_member (pre @ entry_bytes ino mode path bytes @ post) (length pre) =
    Ok (mode, path, bytes, length pre + length (entry_bytes ino mode path bytes))"
proof -
  let ?fs = "member_fields ino mode path bytes"
  let ?a = "pre @ entry_bytes ino mode path bytes @ post"
  let ?hdr = "MAGIC @ concat (map (to_hex 8) ?fs)"
  let ?name = "bytes_of path @ [0 :: byte]"
  let ?p1 = "replicate (next4 (111 + length path) - (111 + length path)) (0 :: byte)"
  let ?p2 = "replicate (next4 (length bytes) - length bytes) (0 :: byte)"
  have a: "?a = pre @ ?hdr @ (?name @ ?p1 @ bytes @ ?p2 @ post)"
    by (simp add: entry_bytes_def head_bytes_def)
  have lh: "length ?hdr = HEADER_LEN" by (simp add: member_fields_def HEADER_LEN_def)
  have s1: "slice ?a (length pre) HEADER_LEN = Ok ?hdr"
    using slice_at [of pre ?hdr] len unfolding a lh by simp
  have a2: "?a = (pre @ ?hdr) @ ?name @ (?p1 @ bytes @ ?p2 @ post)" by (simp add: a)
  have s2: "slice ?a (length pre + HEADER_LEN) (length path + 1) = Ok ?name"
    using slice_at [of "pre @ ?hdr" ?name] len lh unfolding a2 by simp
  have a3: "?a = (pre @ ?hdr @ ?name @ ?p1) @ (bytes @ ?p2) @ post" by (simp add: a)
  have l3: "length (pre @ ?hdr @ ?name @ ?p1) = length pre + next4 (HEADER_LEN + (length path + 1))"
    using next4_ge [of "111 + length path"] lh by (simp add: HEADER_LEN_def)
  have l4: "length (bytes @ ?p2) = next4 (length bytes)" using next4_ge [of "length bytes"] by simp
  have s3: "slice ?a (length pre + next4 (HEADER_LEN + (length path + 1))) (next4 (length bytes)) = Ok (bytes @ ?p2)"
    using slice_at [of "pre @ ?hdr @ ?name @ ?p1" "bytes @ ?p2" post] len unfolding l3 l4 a3 [symmetric] by simp
  have d: "take (length bytes) (drop (length pre + next4 (HEADER_LEN + (length path + 1))) ?a) = bytes"
    unfolding l3 [symmetric] a3 by simp
  have "unat mode < 2 ^ 32" using unsigned_less [of mode] by simp
  then have "\<forall>f \<in> set ?fs. f < 2 ^ 32" using small by (simp add: member_fields_def)
  moreover have l13: "length ?fs = 13" by (simp add: member_fields_def)
  ultimately have "hex_fields ?hdr [0..<13] = Ok (map (\<lambda>i. ?fs ! i) [0..<13])"
    by (intro hex_fields_written) simp_all
  then have f: "hex_fields ?hdr [0..<13] = Ok ?fs" using map_nth [of ?fs] unfolding l13 by simp
  have n: "?fs ! 1 = unat mode" "?fs ! 6 = length bytes" "?fs ! 11 = length path + 1"
    by (simp_all add: member_fields_def)
  have "next4 (length bytes) < length bytes + 4" unfolding next4_def by (rule next_multiple_of_less) simp
  then have "checked_next_multiple_of (length bytes) 4 = Some (next4 (length bytes))"
    using small(2) by (simp add: checked_next_multiple_of_def next4_def)
  then show ?thesis
    using s1 s2 s3 d f n member_name_written [OF name]
    by (simp add: parse_member_def Let_def next4_def [symmetric] length_entry HEADER_LEN_def)
qed

section \<open>The archive\<close>

text \<open>What the kernel makes of a member, and which members an archive may have.\<close>

definition entry_of :: "Member \<Rightarrow> Entry" where
  "entry_of m =
     \<lparr> en_path = mb_path m, en_kind = (if mb_mode m AND S_IFMT = S_IFDIR then EDirectory else EFile),
       en_data = mb_data m \<rparr>"

definition member_ok :: "Member \<Rightarrow> bool" where
  "member_ok m \<longleftrightarrow>
     name_ok (mb_path m) \<and> mb_path m \<noteq> TRAILER \<and> clean_path (mb_path m) = Ok (mb_path m) \<and>
     (mb_mode m AND S_IFMT = S_IFREG \<or> mb_mode m AND S_IFMT = S_IFDIR \<and> mb_data m = [])"

lemma member_entry_written:
  assumes "member_ok m"
  shows "member_entry (mb_mode m) (mb_path m) (mb_data m) = Ok (Some (entry_of m))"
proof -
  have "S_IFREG \<noteq> S_IFDIR" by (simp add: S_IFREG_def S_IFDIR_def)
  then show ?thesis
    using assms by (auto simp: member_ok_def member_entry_def entry_of_def name_ok_def)
qed

lemma trailer_ok: "name_ok TRAILER"
  by (simp add: name_ok_def TRAILER_def bytes_of_def)

lemma write_members_prefix:
  "write_members pre ino ms = Some archive \<Longrightarrow> \<exists>post. archive = pre @ post"
proof (induction ms arbitrary: pre ino)
  case Nil
  then show ?case using push_entry_bytes by fastforce
next
  case (Cons m ms)
  then show ?case using push_entry_bytes by (fastforce simp: bind_eq_Some_conv)
qed

lemma parse_written:
  assumes "write_members pre ino ms = Some archive" "\<forall>m \<in> set ms. member_ok m"
    and "ino + length ms < 2 ^ 32" "length archive < 2 ^ 64"
  shows "parse_from archive (length pre) entries = Ok (entries @ map entry_of ms)"
  using assms
proof (induction ms arbitrary: pre ino entries)
  case Nil
  then have a: "archive = pre @ entry_bytes 0 0 TRAILER []"
    using push_entry_bytes by fastforce
  then have "parse_member archive (length pre) = Ok (0, TRAILER, [], length archive)"
    using parse_member_written [of pre 0 0 TRAILER "[]" "[]"] Nil(4) trailer_ok
    by (simp add: TRAILER_def)
  then show ?case by (subst parse_from.simps) (simp add: skip_zeros_def)
next
  case (Cons m ms)
  obtain a1 where a1: "push_entry pre ino (mb_mode m) (mb_path m) (mb_data m) = Some a1"
    "write_members a1 (ino + 1) ms = Some archive"
    using Cons.prems(1) by (auto simp: bind_eq_Some_conv)
  let ?e = "entry_bytes ino (mb_mode m) (mb_path m) (mb_data m)"
  have e: "a1 = pre @ ?e" "length (mb_data m) < 2 ^ 32" "length (mb_path m) + 1 < 2 ^ 32"
    using push_entry_bytes [OF a1(1)] by auto
  obtain post where post: "archive = a1 @ post" using write_members_prefix [OF a1(2)] by blast
  have ok: "member_ok m" using Cons.prems(2) by simp
  have "parse_member archive (length pre) = Ok (mb_mode m, mb_path m, mb_data m, length a1)"
    using parse_member_written [of pre ino "mb_mode m" "mb_path m" "mb_data m" post] e ok Cons.prems(3,4) post
    by (simp add: member_ok_def)
  then have "parse_from archive (length pre) entries = parse_from archive (length a1) (entries @ [entry_of m])"
    using ok member_entry_written [OF ok] by (subst parse_from.simps) (simp add: member_ok_def)
  then show ?case using Cons.IH [OF a1(2)] Cons.prems by simp
qed

text \<open>
  C19. The kernel reads the archives the build tool writes: when the tool writes
  an archive for members with clean relative UTF-8 paths, regular files or empty
  directories, the parser accepts it and returns exactly these members, in
  order, with their contents.
\<close>

theorem cpio_round_trip:
  assumes "cpio_write ms = Some archive" "\<forall>m \<in> set ms. member_ok m"
    and "length ms < 2 ^ 32 - 1" "length archive < 2 ^ 64"
  shows "parse archive = Ok (map entry_of ms)"
  using parse_written [of "[]" 1 ms archive "[]"] assms by (simp add: cpio_write_def parse_def)

definition demo_members :: "Member list" where
  "demo_members =
     [\<lparr> mb_path = ''bin'', mb_mode = 0x41ED, mb_data = [] \<rparr>,
      \<lparr> mb_path = ''bin/init'', mb_mode = 0x81ED, mb_data = [1, 2, 3, 0, 5] \<rparr>]"

theorem cpio_round_trip_witness:
  "\<exists>archive. cpio_write demo_members = Some archive \<and> parse archive =
     Ok [\<lparr> en_path = ''bin'', en_kind = EDirectory, en_data = [] \<rparr>,
         \<lparr> en_path = ''bin/init'', en_kind = EFile, en_data = [1, 2, 3, 0, 5] \<rparr>]"
proof -
  have ok: "\<forall>m \<in> set demo_members. member_ok m"
    by (simp add: demo_members_def member_ok_def name_ok_def bytes_of_def TRAILER_def S_IFMT_def S_IFREG_def
        S_IFDIR_def clean_path_def clean_component_def)
  let ?a = "entry_bytes 1 0x41ED ''bin'' [] @ entry_bytes 2 0x81ED ''bin/init'' [1, 2, 3, 0, 5]
      @ entry_bytes 0 0 TRAILER []"
  obtain a where a: "cpio_write demo_members = Some a"
    by (simp add: cpio_write_def demo_members_def push_entry_def entry_fields_def TRAILER_def)
  have "a = ?a"
    using a by (auto simp: cpio_write_def demo_members_def bind_eq_Some_conv numeral_2_eq_2 dest!: push_entry_bytes)
  then have "length a < 2 ^ 64"
    by (simp add: length_entry TRAILER_def next4_def next_multiple_of_def)
  from cpio_round_trip [OF a ok _ this] a show ?thesis
    by (simp add: demo_members_def entry_of_def S_IFMT_def S_IFREG_def S_IFDIR_def)
qed

end
