(* ===== verification/Elf.thy ===== *)
theory Elf
  imports Vma
begin

text \<open>
  Executables (\<open>kernel/src/exec/elf.rs\<close>): the validation of an ELF64 file and
  the load plan it gives, and the contents of a page of the loaded image. A
  file is its list of bytes. The header fields are read little endian as
  natural numbers below their width; the one place where an addition may leave
  64 bits is checked in the source and here. \<open>PAGE_SIZE\<close> is the constant of the
  same value in \<open>mapping_model.rs\<close>. The second half states, without the
  loop and its early returns, which files are loadable and what their plan is.
\<close>

section \<open>Data\<close>

definition PT_LOAD :: nat where "PT_LOAD = 1"
definition PT_DYNAMIC :: nat where "PT_DYNAMIC = 2"
definition PT_INTERP :: nat where "PT_INTERP = 3"
definition PT_PHDR :: nat where "PT_PHDR = 6"
definition PF_X :: nat where "PF_X = 1"
definition PF_W :: nat where "PF_W = 2"
definition PF_R :: nat where "PF_R = 4"
definition ET_EXEC :: nat where "ET_EXEC = 2"
definition EM_X86_64 :: nat where "EM_X86_64 = 62"
definition HEADER_SIZE :: nat where "HEADER_SIZE = 64"
definition PROGRAM_HEADER_SIZE :: nat where "PROGRAM_HEADER_SIZE = 56"
definition MAX_PROGRAM_HEADERS :: nat where "MAX_PROGRAM_HEADERS = 64"

named_theorems elf_consts \<open>the constants of the file format\<close>

declare PT_LOAD_def [elf_consts] PT_DYNAMIC_def [elf_consts] PT_INTERP_def [elf_consts]
  PT_PHDR_def [elf_consts] PF_X_def [elf_consts] PF_W_def [elf_consts] PF_R_def [elf_consts]
  ET_EXEC_def [elf_consts] EM_X86_64_def [elf_consts] HEADER_SIZE_def [elf_consts]
  PROGRAM_HEADER_SIZE_def [elf_consts] MAX_PROGRAM_HEADERS_def [elf_consts]

record SegmentFlags =
  sf_read :: bool
  sf_write :: bool
  sf_execute :: bool

record Segment =
  sg_start :: u64
  sg_end :: u64
  sg_flags :: SegmentFlags
  sg_vaddr :: u64
  sg_file_offset :: u64
  sg_file_size :: u64
  sg_mem_size :: u64

record LoadPlan =
  lp_entry :: u64
  lp_phdr_vaddr :: u64
  lp_phnum :: u64
  lp_segments :: "Segment list"

text \<open>The fields of a program header that the loop of \<open>plan\<close> reads into its local variables.\<close>

record ProgramHeader =
  ph_kind :: nat
  ph_flags :: nat
  ph_offset :: u64
  ph_vaddr :: u64
  ph_file_size :: u64
  ph_mem_size :: u64

section \<open>Operations\<close>

text \<open>\<open>from_le_bytes\<close> at every width, and the slice \<open>file.get(offset..offset + n)\<close>.\<close>

fun from_le :: "byte list \<Rightarrow> nat" where
  "from_le [] = 0"
| "from_le (b # bs) = unat b + 256 * from_le bs"

definition get_range :: "byte list \<Rightarrow> nat \<Rightarrow> nat \<Rightarrow> byte list option" where
  "get_range file start n = (if start + n \<le> length file then Some (take n (drop start file)) else None)"

definition u16_at :: "byte list \<Rightarrow> usize \<Rightarrow> nat fs_result" where
  "u16_at file offset = ok_or (map_option from_le (get_range file offset 2)) ENOEXEC"

definition u32_at :: "byte list \<Rightarrow> usize \<Rightarrow> nat fs_result" where
  "u32_at file offset = ok_or (map_option from_le (get_range file offset 4)) ENOEXEC"

definition u64_at :: "byte list \<Rightarrow> usize \<Rightarrow> nat fs_result" where
  "u64_at file offset = ok_or (map_option from_le (get_range file offset 8)) ENOEXEC"

definition read_header :: "byte list \<Rightarrow> usize \<Rightarrow> ProgramHeader fs_result" where
  "read_header file base =
     bind_result (u32_at file base) (\<lambda>kind.
     bind_result (u32_at file (base + 4)) (\<lambda>flags.
     bind_result (u64_at file (base + 8)) (\<lambda>offset.
     bind_result (u64_at file (base + 16)) (\<lambda>vaddr.
     bind_result (u64_at file (base + 32)) (\<lambda>file_size.
     bind_result (u64_at file (base + 40)) (\<lambda>mem_size.
       Ok \<lparr>ph_kind = kind, ph_flags = flags, ph_offset = offset, ph_vaddr = vaddr,
           ph_file_size = file_size, ph_mem_size = mem_size\<rparr>))))))"

definition segment_flags :: "nat \<Rightarrow> SegmentFlags" where
  "segment_flags flags =
     \<lparr>sf_read = (flags AND PF_R \<noteq> 0), sf_write = (flags AND PF_W \<noteq> 0), sf_execute = (flags AND PF_X \<noteq> 0)\<rparr>"

text \<open>The part of the loop that turns a loadable header into a segment. The mask of the source
  rounds down to the page.\<close>

definition plan_segment :: "usize \<Rightarrow> u64 \<Rightarrow> Segment list \<Rightarrow> ProgramHeader \<Rightarrow> Segment fs_result" where
  "plan_segment len user_top segments h =
     (let flags = segment_flags (ph_flags h); vaddr = ph_vaddr h in
      bind_result (ok_or (checked_add (ph_offset h) (ph_file_size h)) ENOEXEC) (\<lambda>file_end.
      bind_result (ok_or (checked_add vaddr (ph_mem_size h)) ENOEXEC) (\<lambda>mem_end.
        if ph_file_size h > ph_mem_size h \<or> file_end > len \<or> vaddr mod PAGE_SIZE \<noteq> ph_offset h mod PAGE_SIZE
           \<or> (sf_write flags \<and> sf_execute flags) \<or> vaddr < PAGE_SIZE
        then Err ENOEXEC
        else
          let start = vaddr - vaddr mod PAGE_SIZE in
          bind_result (ok_or (checked_next_multiple_of mem_end PAGE_SIZE) ENOEXEC) (\<lambda>fin.
            if fin > user_top \<or> list_ex (\<lambda>other. start < sg_end other \<and> sg_start other < fin) segments
            then Err ENOEXEC
            else Ok \<lparr>sg_start = start, sg_end = fin, sg_flags = flags, sg_vaddr = vaddr,
                     sg_file_offset = ph_offset h, sg_file_size = ph_file_size h,
                     sg_mem_size = ph_mem_size h\<rparr>))))"

text \<open>One round of the loop over the program headers; its state is \<open>phdr_vaddr\<close> and the segments so far.\<close>

definition plan_header :: "byte list \<Rightarrow> u64 \<Rightarrow> ProgramHeader \<Rightarrow> u64 option \<times> Segment list
    \<Rightarrow> (u64 option \<times> Segment list) fs_result" where
  "plan_header file user_top h st =
     (let (phdr_vaddr, segments) = st in
      if ph_kind h = PT_INTERP \<or> ph_kind h = PT_DYNAMIC then Err ENOEXEC
      else
        let phdr_vaddr = (if ph_kind h = PT_PHDR then Some (ph_vaddr h) else phdr_vaddr) in
        if ph_kind h \<noteq> PT_LOAD \<or> ph_mem_size h = 0 then Ok (phdr_vaddr, segments)
        else bind_result (plan_segment (length file) user_top segments h) (\<lambda>s.
               Ok (phdr_vaddr, segments @ [s])))"

fun plan_loop :: "byte list \<Rightarrow> u64 \<Rightarrow> usize \<Rightarrow> nat \<Rightarrow> u64 option \<times> Segment list
    \<Rightarrow> (u64 option \<times> Segment list) fs_result" where
  "plan_loop file user_top base 0 st = Ok st"
| "plan_loop file user_top base (Suc n) st =
     bind_result (read_header file base) (\<lambda>h.
     bind_result (plan_header file user_top h st)
       (plan_loop file user_top (base + PROGRAM_HEADER_SIZE) n))"

definition executable_at :: "Segment list \<Rightarrow> u64 \<Rightarrow> bool" where
  "executable_at segments address =
     list_ex (\<lambda>s. sf_execute (sg_flags s) \<and> sg_vaddr s \<le> address \<and> address < sg_vaddr s + sg_mem_size s) segments"

text \<open>Where the program headers are in the image when no header says so.\<close>

definition visible_phdr :: "Segment list \<Rightarrow> u64 \<Rightarrow> usize \<Rightarrow> u64 option" where
  "visible_phdr segments phoff phnum =
     map_option (\<lambda>s. sg_vaddr s + (phoff - sg_file_offset s))
       (List.find (\<lambda>s. sg_file_offset s \<le> phoff
                       \<and> phoff + phnum * PROGRAM_HEADER_SIZE \<le> sg_file_offset s + sg_file_size s) segments)"

definition plan_image :: "byte list \<Rightarrow> u64 \<Rightarrow> u64 \<Rightarrow> u64 \<Rightarrow> usize \<Rightarrow> LoadPlan fs_result" where
  "plan_image file user_top entry phoff phnum =
     bind_result (plan_loop file user_top phoff phnum (None, [])) (\<lambda>(phdr_vaddr, segments).
       if segments = [] then Err ENOEXEC
       else if \<not> executable_at segments entry then Err ENOEXEC
       else Ok \<lparr>lp_entry = entry,
                lp_phdr_vaddr = (case phdr_vaddr of Some v \<Rightarrow> v
                   | None \<Rightarrow> (case visible_phdr segments phoff phnum of Some v \<Rightarrow> v | None \<Rightarrow> 0)),
                lp_phnum = phnum, lp_segments = segments\<rparr>)"

definition plan :: "byte list \<Rightarrow> u64 \<Rightarrow> LoadPlan fs_result" where
  "plan file user_top =
     (case get_range file 0 HEADER_SIZE of
        None \<Rightarrow> Err ENOEXEC
      | Some header \<Rightarrow>
        if take 4 header \<noteq> [0x7f, 0x45, 0x4c, 0x46] \<or> header ! 4 \<noteq> 2 \<or> header ! 5 \<noteq> 1 \<or> header ! 6 \<noteq> 1
        then Err ENOEXEC
        else
          bind_result (u16_at file 16) (\<lambda>e_type. if e_type \<noteq> ET_EXEC then Err ENOEXEC else
          bind_result (u16_at file 18) (\<lambda>machine. if machine \<noteq> EM_X86_64 then Err ENOEXEC else
          bind_result (u32_at file 20) (\<lambda>version. if version \<noteq> 1 then Err ENOEXEC else
          bind_result (u64_at file 24) (\<lambda>entry.
          bind_result (u64_at file 32) (\<lambda>phoff.
          bind_result (u16_at file 54) (\<lambda>phentsize.
          bind_result (u16_at file 56) (\<lambda>phnum.
            if phentsize \<noteq> PROGRAM_HEADER_SIZE \<or> phnum = 0 \<or> phnum > MAX_PROGRAM_HEADERS then Err ENOEXEC
            else bind_result (ok_or (checked_add phoff (phnum * PROGRAM_HEADER_SIZE)) ENOEXEC) (\<lambda>table_end.
              if table_end > length file then Err ENOEXEC
              else plan_image file user_top entry phoff phnum)))))))))"

text \<open>The bytes of a page of a segment. The two slices of the source panic when they are out of
  range; \<open>None\<close> is that panic.\<close>

definition page_contents :: "Segment \<Rightarrow> byte list \<Rightarrow> u64 \<Rightarrow> byte list option" where
  "page_contents s file page =
     (let data_end = sg_vaddr s + sg_file_size s;
          from = max page (sg_vaddr s);
          upto = min (page + PAGE_SIZE) data_end in
      if from < upto then
        let source = sg_file_offset s + (from - sg_vaddr s);
            destination = from - page;
            len = upto - from in
        if destination + len \<le> 4096 then
          map_option (\<lambda>bytes. replicate destination 0 @ bytes @ replicate (4096 - (destination + len)) 0)
            (get_range file source len)
        else None
      else Some (replicate 4096 0))"

section \<open>Loadable files\<close>

definition elf_word :: "byte list \<Rightarrow> nat \<Rightarrow> nat \<Rightarrow> nat" where
  "elf_word file offset n = from_le (take n (drop offset file))"

definition header_at :: "byte list \<Rightarrow> nat \<Rightarrow> ProgramHeader" where
  "header_at file base =
     \<lparr>ph_kind = elf_word file base 4, ph_flags = elf_word file (base + 4) 4,
      ph_offset = elf_word file (base + 8) 8, ph_vaddr = elf_word file (base + 16) 8,
      ph_file_size = elf_word file (base + 32) 8, ph_mem_size = elf_word file (base + 40) 8\<rparr>"

fun headers_from :: "byte list \<Rightarrow> nat \<Rightarrow> nat \<Rightarrow> ProgramHeader list" where
  "headers_from file base 0 = []"
| "headers_from file base (Suc n) = header_at file base # headers_from file (base + PROGRAM_HEADER_SIZE) n"

abbreviation elf_headers :: "byte list \<Rightarrow> ProgramHeader list" where
  "elf_headers file \<equiv> headers_from file (elf_word file 32 8) (elf_word file 56 2)"

definition loads :: "ProgramHeader \<Rightarrow> bool" where
  "loads h \<longleftrightarrow> ph_kind h = PT_LOAD \<and> ph_mem_size h \<noteq> 0"

definition segment_of :: "ProgramHeader \<Rightarrow> Segment" where
  "segment_of h =
     \<lparr>sg_start = ph_vaddr h - ph_vaddr h mod PAGE_SIZE,
      sg_end = next_multiple_of (ph_vaddr h + ph_mem_size h) PAGE_SIZE,
      sg_flags = segment_flags (ph_flags h), sg_vaddr = ph_vaddr h, sg_file_offset = ph_offset h,
      sg_file_size = ph_file_size h, sg_mem_size = ph_mem_size h\<rparr>"

abbreviation load_segments :: "ProgramHeader list \<Rightarrow> Segment list" where
  "load_segments hs \<equiv> map segment_of (filter loads hs)"

text \<open>A segment's file bytes are in the file and fit its memory, its memory is between the first
  page and the limit, address and offset agree within the page, and it is not writable and executable.\<close>

definition header_fits :: "nat \<Rightarrow> u64 \<Rightarrow> ProgramHeader \<Rightarrow> bool" where
  "header_fits len user_top h \<longleftrightarrow>
     ph_file_size h \<le> ph_mem_size h \<and> ph_offset h + ph_file_size h \<le> len
     \<and> ph_vaddr h mod PAGE_SIZE = ph_offset h mod PAGE_SIZE
     \<and> \<not> (sf_write (segment_flags (ph_flags h)) \<and> sf_execute (segment_flags (ph_flags h)))
     \<and> PAGE_SIZE \<le> ph_vaddr h \<and> ph_vaddr h + ph_mem_size h \<le> user_top"

definition static_header :: "nat \<Rightarrow> u64 \<Rightarrow> ProgramHeader \<Rightarrow> bool" where
  "static_header len user_top h \<longleftrightarrow>
     ph_kind h \<noteq> PT_INTERP \<and> ph_kind h \<noteq> PT_DYNAMIC \<and> (loads h \<longrightarrow> header_fits len user_top h)"

definition apart :: "Segment \<Rightarrow> Segment \<Rightarrow> bool" where
  "apart s t \<longleftrightarrow> sg_end s \<le> sg_start t \<or> sg_end t \<le> sg_start s"

definition elf_header_ok :: "byte list \<Rightarrow> bool" where
  "elf_header_ok file \<longleftrightarrow>
     HEADER_SIZE \<le> length file \<and> take 7 file = [0x7f, 0x45, 0x4c, 0x46, 2, 1, 1]
     \<and> elf_word file 16 2 = ET_EXEC \<and> elf_word file 18 2 = EM_X86_64 \<and> elf_word file 20 4 = 1
     \<and> elf_word file 54 2 = PROGRAM_HEADER_SIZE \<and> 0 < elf_word file 56 2
     \<and> elf_word file 56 2 \<le> MAX_PROGRAM_HEADERS
     \<and> elf_word file 32 8 + elf_word file 56 2 * PROGRAM_HEADER_SIZE \<le> length file"

definition loadable :: "byte list \<Rightarrow> u64 \<Rightarrow> bool" where
  "loadable file user_top \<longleftrightarrow>
     elf_header_ok file \<and> list_all (static_header (length file) user_top) (elf_headers file)
     \<and> sorted_wrt apart (load_segments (elf_headers file))
     \<and> executable_at (load_segments (elf_headers file)) (elf_word file 24 8)"

text \<open>The address the last \<open>PT_PHDR\<close> header gives for the program headers.\<close>

definition phdr_of :: "ProgramHeader list \<Rightarrow> u64 option \<Rightarrow> u64 option" where
  "phdr_of hs p = fold (\<lambda>h p. if ph_kind h = PT_PHDR then Some (ph_vaddr h) else p) hs p"

definition plan_of :: "byte list \<Rightarrow> LoadPlan" where
  "plan_of file =
     (let hs = elf_headers file; segments = load_segments hs; phoff = elf_word file 32 8;
          phnum = elf_word file 56 2 in
      \<lparr>lp_entry = elf_word file 24 8,
       lp_phdr_vaddr = (case phdr_of hs None of Some v \<Rightarrow> v
          | None \<Rightarrow> (case visible_phdr segments phoff phnum of Some v \<Rightarrow> v | None \<Rightarrow> 0)),
       lp_phnum = phnum, lp_segments = segments\<rparr>)"

section \<open>The plan is exact\<close>

lemma bind_result_Err_iff: "bind_result r f = Err e \<longleftrightarrow> r = Err e \<or> (\<exists>a. r = Ok a \<and> f a = Err e)"
  by (cases r) auto

lemma field_at:
  "u16_at file i = (if i + 2 \<le> length file then Ok (elf_word file i 2) else Err ENOEXEC)"
  "u32_at file i = (if i + 4 \<le> length file then Ok (elf_word file i 4) else Err ENOEXEC)"
  "u64_at file i = (if i + 8 \<le> length file then Ok (elf_word file i 8) else Err ENOEXEC)"
  by (simp_all add: u16_at_def u32_at_def u64_at_def get_range_def elf_word_def)

lemma read_header_ok: "base + PROGRAM_HEADER_SIZE \<le> length file \<Longrightarrow> read_header file base = Ok (header_at file base)"
  by (simp add: read_header_def header_at_def field_at elf_consts)

lemma checked_page_end: "checked_next_multiple_of n PAGE_SIZE = Some fin \<Longrightarrow> n \<le> fin"
  using next_multiple_of_ge [of n PAGE_SIZE] by (auto simp: checked_next_multiple_of_def split: if_splits)

lemma plan_segment_fits: "plan_segment len user_top segments h = Ok s \<Longrightarrow> header_fits len user_top h"
  by (auto simp: plan_segment_def Let_def header_fits_def checked_add_Some_iff not_less dest!: checked_page_end split: if_splits)

lemma plan_segment_error: "plan_segment len user_top segments h = Err e \<Longrightarrow> e = ENOEXEC"
  by (auto simp: plan_segment_def Let_def bind_result_Err_iff split: if_splits)

lemma plan_segment_eq:
  assumes top: "aligned user_top" "user_top < 2 ^ 64" and len: "len < 2 ^ 64"
  shows "plan_segment len user_top segments h =
    (if header_fits len user_top h \<and> list_all (apart (segment_of h)) segments then Ok (segment_of h) else Err ENOEXEC)"
proof (cases "header_fits len user_top h")
  case True
  let ?m = "ph_vaddr h + ph_mem_size h"
  have m: "checked_add (ph_vaddr h) (ph_mem_size h) = Some ?m"
    "checked_add (ph_offset h) (ph_file_size h) = Some (ph_offset h + ph_file_size h)"
    using True top len by (auto simp: header_fits_def checked_add_def)
  have e: "next_multiple_of ?m PAGE_SIZE \<le> user_top"
    using True next_multiple_of_le [of PAGE_SIZE user_top ?m] top(1) by (auto simp: header_fits_def aligned_dvd)
  then have c: "checked_next_multiple_of ?m PAGE_SIZE = Some (next_multiple_of ?m PAGE_SIZE)"
    using top by (simp add: checked_next_multiple_of_def PAGE_SIZE_def)
  have a: "list_ex (\<lambda>other. sg_start (segment_of h) < sg_end other \<and> sg_start other < sg_end (segment_of h)) segments
      \<longleftrightarrow> \<not> list_all (apart (segment_of h)) segments"
    by (auto simp: list_ex_iff list_all_iff apart_def not_le)
  show ?thesis
    using True e a
    by (simp add: plan_segment_def Let_def m c header_fits_def) (auto simp: segment_of_def)
next
  case False
  then have "plan_segment len user_top segments h \<noteq> Ok s" for s
    using plan_segment_fits by blast
  then show ?thesis using False plan_segment_error by (metis (full_types) result.exhaust)
qed

text \<open>One round, and the rounds over a list of headers.\<close>

lemma plan_header_eq:
  assumes "aligned user_top" "user_top < 2 ^ 64" "length file < 2 ^ 64"
  shows "plan_header file user_top h (p, segments) =
    (if static_header (length file) user_top h \<and> (loads h \<longrightarrow> list_all (apart (segment_of h)) segments)
     then Ok (phdr_of [h] p, segments @ load_segments [h]) else Err ENOEXEC)"
  using plan_segment_eq [OF assms]
  by (auto simp: plan_header_def static_header_def loads_def phdr_of_def elf_consts)

lemma apart_sym: "apart s t \<longleftrightarrow> apart t s"
  by (auto simp: apart_def)

lemma plan_loop_eq:
  assumes "aligned user_top" "user_top < 2 ^ 64" "length file < 2 ^ 64"
    "base + n * PROGRAM_HEADER_SIZE \<le> length file" "sorted_wrt apart segments"
  shows "plan_loop file user_top base n (p, segments) =
    (let hs = headers_from file base n in
     if list_all (static_header (length file) user_top) hs \<and> sorted_wrt apart (segments @ load_segments hs)
     then Ok (phdr_of hs p, segments @ load_segments hs) else Err ENOEXEC)"
  using assms(4,5)
proof (induction n arbitrary: base p segments)
  case 0
  then show ?case by (simp add: phdr_of_def)
next
  case (Suc n)
  let ?h = "header_at file base"
  have r: "read_header file base = Ok ?h" using Suc.prems(1) by (intro read_header_ok) simp
  show ?case
  proof (cases "static_header (length file) user_top ?h \<and> (loads ?h \<longrightarrow> list_all (apart (segment_of ?h)) segments)")
    case True
    then have "sorted_wrt apart (segments @ load_segments [?h])"
      using Suc.prems(2) by (auto simp: sorted_wrt_append list_all_iff apart_sym)
    moreover have "phdr_of (headers_from file (base + PROGRAM_HEADER_SIZE) n) (phdr_of [?h] p)
        = phdr_of (headers_from file base (Suc n)) p"
      by (simp add: phdr_of_def)
    ultimately show ?thesis
      using True Suc.IH [of "base + PROGRAM_HEADER_SIZE" "segments @ load_segments [?h]" "phdr_of [?h] p"] Suc.prems(1)
      by (auto simp: r plan_header_eq [OF assms(1-3)] Let_def algebra_simps)
  next
    case False
    then have "\<not> (static_header (length file) user_top ?h \<and> sorted_wrt apart (segments @ load_segments (?h # hs)))" for hs
      by (auto simp: sorted_wrt_append list_all_iff apart_sym)
    then show ?thesis using False by (auto simp: r plan_header_eq [OF assms(1-3)] Let_def)
  qed
qed

lemma plan_image_eq:
  assumes "aligned user_top" "user_top < 2 ^ 64" "length file < 2 ^ 64" "phoff + phnum * PROGRAM_HEADER_SIZE \<le> length file"
  defines "hs \<equiv> headers_from file phoff phnum"
  shows "plan_image file user_top entry phoff phnum =
    (if list_all (static_header (length file) user_top) hs \<and> sorted_wrt apart (load_segments hs)
        \<and> executable_at (load_segments hs) entry
     then Ok \<lparr>lp_entry = entry,
              lp_phdr_vaddr = (case phdr_of hs None of Some v \<Rightarrow> v
                 | None \<Rightarrow> (case visible_phdr (load_segments hs) phoff phnum of Some v \<Rightarrow> v | None \<Rightarrow> 0)),
              lp_phnum = phnum, lp_segments = load_segments hs\<rparr>
     else Err ENOEXEC)"
  using plan_loop_eq [OF assms(1-4), of "[]" None] unfolding hs_def
  by (auto simp: plan_image_def Let_def executable_at_def)

lemma magic_eq:
  assumes "HEADER_SIZE \<le> length file"
  shows "take 7 file = [a, b, c, d, e, f, g] \<longleftrightarrow>
    take 4 (take HEADER_SIZE file) = [a, b, c, d] \<and> take HEADER_SIZE file ! 4 = e \<and> take HEADER_SIZE file ! 5 = f
    \<and> take HEADER_SIZE file ! 6 = g"
proof -
  have "take 7 file = take 4 file @ [file ! 4, file ! 5, file ! 6]"
    using assms take_Suc_conv_app_nth [of "4" "file"] take_Suc_conv_app_nth [of "5" "file"] take_Suc_conv_app_nth [of "6" "file"]
    by (simp add: elf_consts)
  moreover have "xs @ [x, y, z] = [a, b, c, d, e, f, g] \<longleftrightarrow> xs = [a, b, c, d] \<and> x = e \<and> y = f \<and> z = g"
    for xs and x y z
    using append_eq_append_conv [of "[x, y, z]" "[e, f, g]" xs "[a, b, c, d]"] by simp
  ultimately show ?thesis using assms by (simp add: elf_consts)
qed

lemma plan_accepts:
  assumes "aligned user_top" "user_top < 2 ^ 64" "length file < 2 ^ 64"
  shows "plan file user_top = (if loadable file user_top then Ok (plan_of file) else Err ENOEXEC)"
proof (cases "HEADER_SIZE \<le> length file")
  case True
  then have f: "u16_at file 16 = Ok (elf_word file 16 2)" "u16_at file 18 = Ok (elf_word file 18 2)"
    "u32_at file 20 = Ok (elf_word file 20 4)" "u64_at file 24 = Ok (elf_word file 24 8)"
    "u64_at file 32 = Ok (elf_word file 32 8)" "u16_at file 54 = Ok (elf_word file 54 2)"
    "u16_at file 56 = Ok (elf_word file 56 2)"
    by (simp_all add: field_at elf_consts)
  let ?off = "elf_word file 32 8" and ?n = "elf_word file 56 2"
  show ?thesis
  proof (cases "?off + ?n * PROGRAM_HEADER_SIZE \<le> length file")
    case in_file: True
    then have c: "checked_add ?off (?n * PROGRAM_HEADER_SIZE) = Some (?off + ?n * PROGRAM_HEADER_SIZE)"
      using assms(3) by (simp add: checked_add_def)
    show ?thesis
      using True in_file
      by (auto simp: plan_def get_range_def f c plan_image_eq [OF assms in_file] loadable_def elf_header_ok_def
          plan_of_def Let_def magic_eq [OF True])
  next
    case False
    then show ?thesis
      using True
      by (auto simp: plan_def get_range_def f loadable_def elf_header_ok_def checked_add_def)
  qed
next
  case False
  then show ?thesis by (simp add: plan_def get_range_def loadable_def elf_header_ok_def)
qed

text \<open>
  C20. The loader accepts exactly the loadable files, and with the plan they describe: for a file of
  any bytes, \<open>plan\<close> is \<open>ENOEXEC\<close> unless the ELF header is that of a static x86_64 executable whose
  program headers are inside the file, no header asks for a dynamic linker, every loadable segment
  keeps its bytes inside the file and its memory between the first page and the limit, is never
  writable and executable, no two segments share a page, and the entry point is in an executable
  one; the plan then holds the loadable segments in the order of the file, rounded out to pages.
\<close>
theorem plan_exact:
  assumes "aligned user_top" "user_top < 2 ^ 64" "length file < 2 ^ 64"
  shows "plan file user_top = (if loadable file user_top then Ok (plan_of file) else Err ENOEXEC)"
  using assms by (rule plan_accepts)

text \<open>A smallest executable: one segment that maps its own headers and four bytes of code.\<close>

definition tiny_elf :: "byte list" where
  "tiny_elf =
    [127, 69, 76, 70, 2, 1, 1, 0, 0, 0, 0, 0, 0, 0, 0, 0, 2, 0, 62, 0, 1, 0, 0, 0, 120, 16, 0, 0, 0, 0,
     0, 0, 64, 0, 0, 0, 0, 0, 0, 0, 0, 0, 0, 0, 0, 0, 0, 0, 0, 0, 0, 0, 64, 0, 56, 0, 1, 0, 0, 0, 0, 0,
     0, 0, 1, 0, 0, 0, 5, 0, 0, 0, 0, 0, 0, 0, 0, 0, 0, 0, 0, 16, 0, 0, 0, 0, 0, 0, 0, 16, 0, 0, 0, 0, 0,
     0, 124, 0, 0, 0, 0, 0, 0, 0, 200, 0, 0, 0, 0, 0, 0, 0, 0, 16, 0, 0, 0, 0, 0, 0, 49, 192, 235, 254]"

lemma tiny_elf_length [simp]: "length tiny_elf = 124"
  by (simp add: tiny_elf_def)

lemma tiny_elf_headers:
  "header_at tiny_elf 64 = \<lparr>ph_kind = 1, ph_flags = 5, ph_offset = 0, ph_vaddr = 0x1000, ph_file_size = 124, ph_mem_size = 200\<rparr>"
  "elf_word tiny_elf 24 8 = 0x1078" "elf_word tiny_elf 32 8 = 64" "elf_word tiny_elf 56 2 = 1" "elf_header_ok tiny_elf"
  by (simp_all add: tiny_elf_def elf_word_def header_at_def elf_header_ok_def elf_consts)

lemma tiny_elf_loadable: "loadable tiny_elf 0x400000"
  unfolding loadable_def tiny_elf_headers(3,4)
  by (simp add: static_header_def loads_def header_fits_def segment_flags_def executable_at_def segment_of_def
      elf_consts PAGE_SIZE_def tiny_elf_headers)

lemma tiny_elf_plan:
  "plan_of tiny_elf =
     \<lparr>lp_entry = 0x1078, lp_phdr_vaddr = 0x1040, lp_phnum = 1,
      lp_segments = [\<lparr>sg_start = 0x1000, sg_end = 0x2000,
        sg_flags = \<lparr>sf_read = True, sf_write = False, sf_execute = True\<rparr>, sg_vaddr = 0x1000, sg_file_offset = 0,
        sg_file_size = 124, sg_mem_size = 200\<rparr>]\<rparr>"
  unfolding plan_of_def tiny_elf_headers(3,4)
  by (simp add: tiny_elf_headers loads_def segment_of_def segment_flags_def phdr_of_def visible_phdr_def elf_consts PAGE_SIZE_def
      next_multiple_of_def)

theorem plan_exact_witness:
  "aligned 0x400000 \<and> (0x400000 :: u64) < 2 ^ 64 \<and> length tiny_elf < 2 ^ 64
   \<and> plan tiny_elf 0x400000 = Ok
     \<lparr>lp_entry = 0x1078, lp_phdr_vaddr = 0x1040, lp_phnum = 1,
      lp_segments = [\<lparr>sg_start = 0x1000, sg_end = 0x2000,
        sg_flags = \<lparr>sf_read = True, sf_write = False, sf_execute = True\<rparr>, sg_vaddr = 0x1000, sg_file_offset = 0,
        sg_file_size = 124, sg_mem_size = 200\<rparr>]\<rparr>"
proof -
  have a: "aligned 0x400000" by (simp add: aligned_def is_multiple_of_def PAGE_SIZE_def)
  show ?thesis
    using a plan_exact [of "0x400000" tiny_elf] by (simp add: tiny_elf_loadable tiny_elf_plan)
qed

section \<open>Pages of the image\<close>

text \<open>What a plan says of its segments, for the clients that load it.\<close>

definition segment_ok :: "nat \<Rightarrow> u64 \<Rightarrow> Segment \<Rightarrow> bool" where
  "segment_ok len user_top s \<longleftrightarrow>
     aligned (sg_start s) \<and> aligned (sg_end s) \<and> PAGE_SIZE \<le> sg_start s \<and> sg_start s < sg_end s
     \<and> sg_end s \<le> user_top \<and> sg_start s \<le> sg_vaddr s \<and> sg_vaddr s + sg_mem_size s \<le> sg_end s
     \<and> sg_file_size s \<le> sg_mem_size s \<and> sg_file_offset s + sg_file_size s \<le> len
     \<and> \<not> (sf_write (sg_flags s) \<and> sf_execute (sg_flags s))"

lemma segment_of_ok:
  assumes "loads h" "header_fits len user_top h" "aligned user_top"
  shows "segment_ok len user_top (segment_of h)"
proof -
  let ?v = "ph_vaddr h" and ?m = "ph_vaddr h + ph_mem_size h"
  have v: "PAGE_SIZE \<le> ?v" "?m \<le> user_top" "?v < ?m" using assms by (auto simp: header_fits_def loads_def)
  have d: "aligned (?v - ?v mod PAGE_SIZE)" by (simp add: aligned_dvd minus_mod_eq_mult_div)
  have p: "PAGE_SIZE \<le> ?v - ?v mod PAGE_SIZE"
  proof -
    have "1 \<le> ?v div PAGE_SIZE" using v(1) by (simp add: PAGE_SIZE_def)
    then have "PAGE_SIZE * 1 \<le> PAGE_SIZE * (?v div PAGE_SIZE)" by (rule mult_le_mono2)
    then show ?thesis by (simp add: minus_mod_eq_mult_div)
  qed
  have e: "?m \<le> next_multiple_of ?m PAGE_SIZE" "next_multiple_of ?m PAGE_SIZE \<le> user_top" "aligned (next_multiple_of ?m PAGE_SIZE)"
    using v assms(3) next_multiple_of_ge [of ?m PAGE_SIZE] next_multiple_of_le [of PAGE_SIZE user_top ?m]
    by (auto simp: aligned_dvd PAGE_SIZE_def)
  show ?thesis
    unfolding segment_ok_def using assms v d p e by (auto simp: segment_of_def header_fits_def)
qed

lemma plan_segments_ok:
  assumes "plan file user_top = Ok p" "aligned user_top" "user_top < 2 ^ 64" "length file < 2 ^ 64"
  shows "list_all (segment_ok (length file) user_top) (lp_segments p)" "sorted_wrt apart (lp_segments p)"
    "executable_at (lp_segments p) (lp_entry p)"
proof -
  have l: "loadable file user_top" "p = plan_of file"
    using assms(1) plan_accepts [OF assms(2-4)] by (auto split: if_splits)
  then show "list_all (segment_ok (length file) user_top) (lp_segments p)"
    using segment_of_ok [OF _ _ assms(2)]
    by (auto simp: loadable_def plan_of_def Let_def list_all_iff static_header_def)
  show "sorted_wrt apart (lp_segments p)" "executable_at (lp_segments p) (lp_entry p)"
    using l by (auto simp: loadable_def plan_of_def Let_def)
qed

lemma from_le_less: "from_le bs < 256 ^ length bs"
proof (induction bs)
  case (Cons b bs)
  have "unat b < 256" using unsigned_less [of b, where 'a = nat] by simp
  then show ?case using Cons by simp
qed simp

lemma elf_word_less: "elf_word file offset n < 256 ^ n"
proof -
  have "(256 :: nat) ^ length (take n (drop offset file)) \<le> 256 ^ n" by (intro power_increasing) auto
  then show ?thesis unfolding elf_word_def using from_le_less less_le_trans by blast
qed

lemma plan_fields:
  assumes p: "plan file user_top = Ok p" and top: "aligned user_top" "user_top < 2 ^ 64" and len: "length file < 2 ^ 64"
  shows "lp_entry p < 2 ^ 64" "lp_phnum p < 2 ^ 64" "lp_phdr_vaddr p < 2 ^ 64"
proof -
  have w: "elf_word file i 8 < 2 ^ 64" "elf_word file i 2 < 2 ^ 64" for i
    using elf_word_less [of "file" i 8] elf_word_less [of "file" i 2] by simp_all
  have pl: "p = plan_of file" using p plan_accepts [OF top len] by (auto split: if_splits)
  show "lp_entry p < 2 ^ 64" "lp_phnum p < 2 ^ 64" using w unfolding pl plan_of_def Let_def by simp_all
  have hs: "\<forall>h \<in> set (headers_from file b n). ph_vaddr h < 2 ^ 64" for b n
    by (induction n arbitrary: b) (use w in \<open>auto simp: header_at_def\<close>)
  have ph: "phdr_of hs q = Some v \<Longrightarrow> q = Some v \<or> (\<exists>h \<in> set hs. v = ph_vaddr h)" for hs q v
    by (induction hs arbitrary: q) (auto simp: phdr_of_def split: if_splits)
  have vis: "v < 2 ^ 64" if v: "visible_phdr (lp_segments p) a n = Some v" for a n v
  proof -
    obtain sg where sg: "sg \<in> set (lp_segments p)" "sg_file_offset sg \<le> a"
      "a + n * PROGRAM_HEADER_SIZE \<le> sg_file_offset sg + sg_file_size sg" "v = sg_vaddr sg + (a - sg_file_offset sg)"
      using v find_Some_mem unfolding visible_phdr_def by fastforce
    have "segment_ok (length file) user_top sg" using plan_segments_ok(1) [OF p top len] sg(1) by (simp add: list_all_iff)
    then show ?thesis using sg top(2) unfolding segment_ok_def by linarith
  qed
  show "lp_phdr_vaddr p < 2 ^ 64"
    using ph [of "elf_headers file" None] hs vis unfolding pl plan_of_def Let_def by (auto split: option.splits)
qed

text \<open>What a program finds at an address of a segment: a byte of the file or zero.\<close>

definition image_byte :: "Segment \<Rightarrow> byte list \<Rightarrow> u64 \<Rightarrow> byte" where
  "image_byte s file a =
     (if sg_vaddr s \<le> a \<and> a < sg_vaddr s + sg_file_size s then file ! (sg_file_offset s + (a - sg_vaddr s)) else 0)"

lemma page_contents_ok:
  assumes "sg_file_offset s + sg_file_size s \<le> length file"
  shows "page_contents s file page = Some (map (\<lambda>i. image_byte s file (page + i)) [0..<4096])"
proof (cases "max page (sg_vaddr s) < min (page + PAGE_SIZE) (sg_vaddr s + sg_file_size s)")
  case True
  define lo hi where d: "lo = max page (sg_vaddr s)" "hi = min (page + 4096) (sg_vaddr s + sg_file_size s)"
  let ?src = "sg_file_offset s + (lo - sg_vaddr s)"
  have b: "page \<le> lo" "lo < hi" "hi \<le> page + 4096" "sg_vaddr s \<le> lo" "hi \<le> sg_vaddr s + sg_file_size s"
    using True by (auto simp: d PAGE_SIZE_def)
  have r: "?src + (hi - lo) \<le> length file" using b assms by linarith
  let ?bytes = "replicate (lo - page) 0 @ take (hi - lo) (drop ?src file) @ replicate (4096 - (hi - page)) 0"
  have "page_contents s file page = Some ?bytes"
    using b r by (simp add: page_contents_def Let_def get_range_def PAGE_SIZE_def d [symmetric])
  moreover have "?bytes = map (\<lambda>i. image_byte s file (page + i)) [0..<4096]"
  proof (rule nth_equalityI)
    fix i assume "i < length ?bytes"
    then have i: "i < 4096" using b r by simp
    consider "page + i < lo" | "lo \<le> page + i" "page + i < hi" | "hi \<le> page + i" by linarith
    then show "?bytes ! i = map (\<lambda>i. image_byte s file (page + i)) [0..<4096] ! i"
    proof cases
      case 2
      then have n: "\<not> i < lo - page" "i - (lo - page) < hi - lo" "?src + (i - (lo - page)) = sg_file_offset s + (page + i - sg_vaddr s)"
        using b by linarith+
      then have "i - (lo - page) < length (take (hi - lo) (drop ?src file))"
        using r unfolding length_take length_drop min_less_iff_conj by linarith
      then have "?bytes ! i = take (hi - lo) (drop ?src file) ! (i - (lo - page))" using n(1) by (simp only: nth_append length_replicate if_False if_True)
      also have "\<dots> = file ! (?src + (i - (lo - page)))" using n(2) r by simp
      finally have "?bytes ! i = file ! (sg_file_offset s + (page + i - sg_vaddr s))" unfolding n(3) .
      then show ?thesis using 2 b i by (simp add: image_byte_def)
    next
      case 3
      have l: "length (take (hi - lo) (drop ?src file)) = hi - lo" using r by simp
      have n: "\<not> i < lo - page" "\<not> i - (lo - page) < hi - lo" "i - (lo - page) - (hi - lo) < 4096 - (hi - page)"
        using 3 b i by linarith+
      then have "?bytes ! i = 0"
        unfolding nth_append l length_replicate if_not_P [OF n(1)] if_not_P [OF n(2)] by simp
      then show ?thesis using 3 b i by (auto simp: image_byte_def d)
    qed (use b r i in \<open>auto simp: nth_append image_byte_def d\<close>)
  qed (use b r in simp)
  ultimately show ?thesis by simp
next
  case False
  then have "image_byte s file (page + i) = 0" if "i < 4096" for i
    using that by (auto simp: image_byte_def PAGE_SIZE_def)
  then show ?thesis
    using False by (auto simp: page_contents_def Let_def intro!: nth_equalityI)
qed

end
