(* ===== verification/InitialStack.thy ===== *)
theory InitialStack
  imports Elf Cpio "HOL-Library.Monad_Syntax"
begin

text \<open>
  The initial stack of a program from both sides: the kernel writes it
  (\<open>kernel/src/exec/stack.rs\<close>) and the start-up code of the program reads it
  (\<open>userspace/libsaeos/src/startinfo.rs\<close>, \<open>env.rs\<close>). Strings are their bytes. The
  program reads a memory that may fault, so its loops are partial: \<^term>\<open>None\<close> is a
  fault or a loop that does not end.
\<close>

section \<open>The builder\<close>

definition AT_NULL :: u64 where "AT_NULL = 0"
definition AT_PHDR :: u64 where "AT_PHDR = 3"
definition AT_PHENT :: u64 where "AT_PHENT = 4"
definition AT_PHNUM :: u64 where "AT_PHNUM = 5"
definition AT_PAGESZ :: u64 where "AT_PAGESZ = 6"
definition AT_ENTRY :: u64 where "AT_ENTRY = 9"
definition AT_RANDOM :: u64 where "AT_RANDOM = 25"

record InitialStack =
  ini_bytes :: "byte list"
  ini_stack_pointer :: u64

text \<open>The closure \<open>offsets\<close>: append the strings with their terminators, return where each starts.\<close>

fun stack_offsets :: "byte list list \<Rightarrow> byte list \<Rightarrow> usize list \<times> byte list" where
  "stack_offsets [] strings = ([], strings)"
| "stack_offsets (v # vs) strings =
     (let (offsets, out) = stack_offsets vs (strings @ v @ [0]) in (length strings # offsets, out))"

text \<open>\<open>to_le_bytes\<close> of a \<open>u64\<close>, and \<open>Vec::resize\<close> with zeros.\<close>

fun le_bytes :: "nat \<Rightarrow> nat \<Rightarrow> byte list" where
  "le_bytes 0 v = []"
| "le_bytes (Suc n) v = of_nat v # le_bytes n (v div 256)"

definition resize_zero :: "byte list \<Rightarrow> nat \<Rightarrow> byte list" where
  "resize_zero xs n = take n xs @ replicate (n - length xs) 0"

definition stack_words :: "u64 list \<Rightarrow> u64 list \<Rightarrow> (u64 \<times> u64) list \<Rightarrow> u64 list" where
  "stack_words argv_addresses envp_addresses auxv =
     length argv_addresses # argv_addresses @ 0 # envp_addresses @ 0 # concat (map (\<lambda>(kind, v). [kind, v]) auxv)"

definition stack_build :: "u64 \<Rightarrow> byte list list \<Rightarrow> byte list list \<Rightarrow> (u64 \<times> u64) list \<Rightarrow> byte list \<Rightarrow> usize
    \<Rightarrow> InitialStack fs_result" where
  "stack_build top_address argv envp auxv random limit =
     (let (argv_offsets, strings) = stack_offsets argv [];
          (envp_offsets, strings) = stack_offsets envp strings;
          random_offset = length strings;
          strings = strings @ random in
      bind_result (ok_or (checked_sub top_address (length strings)) E2BIG) (\<lambda>strings_start.
        let address = (\<lambda>offset. strings_start + offset);
            random_address = address random_offset;
            argv_addresses = map address argv_offsets;
            envp_addresses = map address envp_offsets;
            auxv = auxv @ [(AT_RANDOM, random_address), (AT_NULL, 0)];
            words = 1 + length argv + 1 + length envp + 1 + length auxv * 2 in
        bind_result (ok_or (checked_sub strings_start (words * 8)) E2BIG) (\<lambda>below.
          let stack_pointer = below - below mod 16;
              total = top_address - stack_pointer in
          if total > limit then Err E2BIG
          else
            let bytes = concat (map (le_bytes 8) (stack_words argv_addresses envp_addresses auxv)) in
            Ok \<lparr>ini_bytes = resize_zero bytes (total - length strings) @ strings,
                ini_stack_pointer = stack_pointer\<rparr>)))"

section \<open>The reader\<close>

type_synonym user_bytes = "u64 \<rightharpoonup> byte"

record StartInfo =
  si_argc :: usize
  si_argv :: u64
  si_envp :: u64
  si_auxv :: u64

definition load_word :: "user_bytes \<Rightarrow> u64 \<Rightarrow> u64 option" where
  "load_word m a = map_option from_le (those (map (\<lambda>i. m (a + i)) [0..<8]))"

text \<open>\<open>entry\<close>: an element of a pointer array.\<close>

definition ptr_entry :: "user_bytes \<Rightarrow> u64 \<Rightarrow> usize \<Rightarrow> u64 option" where
  "ptr_entry m array index = load_word m (array + index * 8)"

partial_function (option) count_entries :: "user_bytes \<Rightarrow> u64 \<Rightarrow> usize \<Rightarrow> usize option" where
  "count_entries m envp n =
     do { p \<leftarrow> ptr_entry m envp n; if p = 0 then Some n else count_entries m envp (n + 1) }"

definition from_stack :: "user_bytes \<Rightarrow> u64 \<Rightarrow> StartInfo option" where
  "from_stack m stack =
     do { argc \<leftarrow> load_word m stack;
          let argv = stack + 8;
          let envp = argv + (argc + 1) * 8;
          n \<leftarrow> count_entries m envp 0;
          Some \<lparr>si_argc = argc, si_argv = argv, si_envp = envp, si_auxv = envp + (n + 1) * 8\<rparr> }"

partial_function (option) aux_from :: "user_bytes \<Rightarrow> u64 \<Rightarrow> u64 \<Rightarrow> u64 option option" where
  "aux_from m entry kind =
     do { entry_kind \<leftarrow> load_word m entry;
          v \<leftarrow> load_word m (entry + 8);
          if entry_kind = AT_NULL then Some None
          else if entry_kind = kind then Some (Some v)
          else aux_from m (entry + 16) kind }"

definition si_aux :: "user_bytes \<Rightarrow> StartInfo \<Rightarrow> u64 \<Rightarrow> u64 option option" where
  "si_aux m info kind = aux_from m (si_auxv info) kind"

partial_function (option) c_length :: "user_bytes \<Rightarrow> u64 \<Rightarrow> usize \<Rightarrow> usize option" where
  "c_length m pointer n = do { b \<leftarrow> m (pointer + n); if b \<noteq> 0 then c_length m pointer (n + 1) else Some n }"

definition c_string :: "user_bytes \<Rightarrow> u64 \<Rightarrow> byte list option" where
  "c_string m pointer = do { n \<leftarrow> c_length m pointer 0; those (map (\<lambda>i. m (pointer + i)) [0..<n]) }"

text \<open>\<open>env.rs\<close>: the strings of the arguments, and the environment split at the first \<open>=\<close>.\<close>

definition env_text :: "byte list \<Rightarrow> byte list" where
  "env_text bytes = (if utf8_ok bytes then bytes else [])"

definition arg_at :: "user_bytes \<Rightarrow> StartInfo \<Rightarrow> usize \<Rightarrow> byte list option" where
  "arg_at m info index = do { p \<leftarrow> ptr_entry m (si_argv info) index; bs \<leftarrow> c_string m p; Some (env_text bs) }"

definition env_args :: "user_bytes \<Rightarrow> StartInfo \<Rightarrow> byte list list option" where
  "env_args m info = those (map (arg_at m info) [0..<si_argc info])"

definition split_eq :: "byte list \<Rightarrow> byte list \<times> byte list" where
  "split_eq bs =
     (case dropWhile (\<lambda>b. b \<noteq> 0x3d) bs of [] \<Rightarrow> (bs, []) | _ # v \<Rightarrow> (takeWhile (\<lambda>b. b \<noteq> 0x3d) bs, v))"

text \<open>The iterator \<open>vars\<close> from an index on.\<close>

partial_function (option) env_vars_from :: "user_bytes \<Rightarrow> u64 \<Rightarrow> usize \<Rightarrow> (byte list \<times> byte list) list option" where
  "env_vars_from m environment index =
     do { pointer \<leftarrow> ptr_entry m environment index;
          if pointer = 0 then Some []
          else
            do { bs \<leftarrow> c_string m pointer;
                 rest \<leftarrow> env_vars_from m environment (index + 1);
                 Some (split_eq (env_text bs) # rest) } }"

definition env_vars :: "user_bytes \<Rightarrow> StartInfo \<Rightarrow> (byte list \<times> byte list) list option" where
  "env_vars m info = (if si_envp info = 0 then Some [] else env_vars_from m (si_envp info) 0)"

text \<open>\<open>var\<close> stops at the first name that fits.\<close>

partial_function (option) env_find :: "user_bytes \<Rightarrow> u64 \<Rightarrow> usize \<Rightarrow> byte list \<Rightarrow> byte list option option" where
  "env_find m environment index name =
     do { pointer \<leftarrow> ptr_entry m environment index;
          if pointer = 0 then Some None
          else
            do { bs \<leftarrow> c_string m pointer;
                 if fst (split_eq (env_text bs)) = name then Some (Some (snd (split_eq (env_text bs))))
                 else env_find m environment (index + 1) name } }"

definition env_var :: "user_bytes \<Rightarrow> StartInfo \<Rightarrow> byte list \<Rightarrow> byte list option option" where
  "env_var m info name = (if si_envp info = 0 then Some None else env_find m (si_envp info) 0 name)"

section \<open>What the memory holds\<close>

lemma length_le_bytes [simp]: "length (le_bytes n v) = n"
  by (induction n arbitrary: v) auto

lemma from_le_bytes: "from_le (le_bytes n v) = v mod 256 ^ n"
proof (induction n arbitrary: v)
  case (Suc n)
  have "unat (of_nat v :: byte) = v mod 256" by (simp add: unat_of_nat)
  then show ?case using Suc by (simp add: mod_mult2_eq)
qed simp

definition stored :: "user_bytes \<Rightarrow> u64 \<Rightarrow> byte list \<Rightarrow> bool" where
  "stored m a bs \<longleftrightarrow> (\<forall>i < length bs. m (a + i) = Some (bs ! i))"

definition words_at :: "user_bytes \<Rightarrow> u64 \<Rightarrow> u64 list \<Rightarrow> bool" where
  "words_at m a ws \<longleftrightarrow> (\<forall>i < length ws. load_word m (a + i * 8) = Some (ws ! i))"

lemma all_less_Suc_iff: "(\<forall>i < Suc n. P i) \<longleftrightarrow> P 0 \<and> (\<forall>i < n. P (Suc i))"
  using less_Suc_eq_0_disj by auto

lemma stored_Nil [simp]: "stored m a []"
  by (simp add: stored_def)

lemma stored_Cons [simp]: "stored m a (b # bs) \<longleftrightarrow> m a = Some b \<and> stored m (a + 1) bs"
  by (simp add: stored_def all_less_Suc_iff)

lemma stored_append [simp]: "stored m a (xs @ ys) \<longleftrightarrow> stored m a xs \<and> stored m (a + length xs) ys"
  by (induction xs arbitrary: a) auto

lemma words_at_Nil [simp]: "words_at m a []"
  by (simp add: words_at_def)

lemma words_at_Cons [simp]: "words_at m a (w # ws) \<longleftrightarrow> load_word m a = Some w \<and> words_at m (a + 8) ws"
  by (simp add: words_at_def all_less_Suc_iff add.assoc)

lemma words_at_append [simp]: "words_at m a (xs @ ys) \<longleftrightarrow> words_at m a xs \<and> words_at m (a + length xs * 8) ys"
  by (induction xs arbitrary: a) (auto simp: add.assoc)

lemma those_map_Some:
  assumes "\<And>i. i < length vs \<Longrightarrow> f i = Some (vs ! i)"
  shows "those (map f [0..<length vs]) = Some vs"
proof -
  have "map f [0..<length vs] = map Some vs" using assms by (auto intro: nth_equalityI)
  moreover have "those (map Some vs) = Some vs" by (induction vs) auto
  ultimately show ?thesis by simp
qed

lemma stored_those: "stored m a bs \<Longrightarrow> those (map (\<lambda>i. m (a + i)) [0..<length bs]) = Some bs"
  by (rule those_map_Some) (simp add: stored_def)

lemma load_word_stored: "stored m a (le_bytes 8 v) \<Longrightarrow> v < 2 ^ 64 \<Longrightarrow> load_word m a = Some v"
  using stored_those [of m a "le_bytes 8 v"] by (simp add: load_word_def from_le_bytes)

lemma words_at_stored:
  "stored m a (concat (map (le_bytes 8) ws)) \<Longrightarrow> \<forall>w \<in> set ws. w < 2 ^ 64 \<Longrightarrow> words_at m a ws"
  by (induction ws arbitrary: a) (auto intro: load_word_stored)

lemma c_length_stored:
  "stored m (p + n) (bs @ [0]) \<Longrightarrow> 0 \<notin> set bs \<Longrightarrow> c_length m p n = Some (n + length bs)"
  by (induction bs arbitrary: n) (subst c_length.simps; auto)+

lemma c_string_stored: "stored m p (bs @ [0]) \<Longrightarrow> 0 \<notin> set bs \<Longrightarrow> c_string m p = Some bs"
  using c_length_stored [of m p 0 bs] by (simp add: c_string_def stored_those)

lemma count_entries_words:
  "words_at m (a + n * 8) (ps @ [0]) \<Longrightarrow> 0 \<notin> set ps \<Longrightarrow> count_entries m a n = Some (n + length ps)"
  by (induction ps arbitrary: n) (subst count_entries.simps; auto simp: ptr_entry_def algebra_simps)+

lemma aux_from_words:
  assumes "words_at m a (concat (map (\<lambda>(kind, v). [kind, v]) (auxv @ [(AT_NULL, 0)])))" "AT_NULL \<notin> fst ` set auxv"
  shows "aux_from m a kind = Some (map_of auxv kind)"
  using assms
  by (induction auxv arbitrary: a) (subst aux_from.simps; auto simp: add.assoc)+

section \<open>The layout\<close>

abbreviation packed :: "byte list list \<Rightarrow> byte list" where
  "packed vs \<equiv> concat (map (\<lambda>v. v @ [0]) vs)"

fun packed_at :: "nat \<Rightarrow> byte list list \<Rightarrow> nat list" where
  "packed_at n [] = []"
| "packed_at n (v # vs) = n # packed_at (n + length v + 1) vs"

lemma stack_offsets_eq: "stack_offsets vs strings = (packed_at (length strings) vs, strings @ packed vs)"
  by (induction vs arbitrary: strings) (auto simp: Let_def add.assoc)

lemma length_packed_at [simp]: "length (packed_at n vs) = length vs"
  by (induction vs arbitrary: n) auto

lemma packed_at_bounds: "a \<in> set (packed_at n vs) \<Longrightarrow> n \<le> a \<and> a < n + length (packed vs)"
proof (induction vs arbitrary: n)
  case (Cons v vs)
  show ?case
  proof (cases "a = n")
    case False
    then have "a \<in> set (packed_at (n + length v + 1) vs)" using Cons.prems by simp
    then have "n + length v + 1 \<le> a \<and> a < n + length v + 1 + length (packed vs)" by (rule Cons.IH)
    then show ?thesis by auto
  qed simp
qed simp

lemma packed_at_stored:
  "stored m (a + n) (packed vs) \<Longrightarrow> list_all2 (\<lambda>q v. stored m (a + q) (v @ [0])) (packed_at n vs) vs"
  by (induction vs arbitrary: n) (auto simp: add.assoc)

lemma length_words_bytes [simp]: "length (concat (map (le_bytes n) ws)) = n * length ws"
  by (induction ws) auto

text \<open>The size of the stack before it is rounded, and the contents once it fits.\<close>

definition stack_need :: "byte list list \<Rightarrow> byte list list \<Rightarrow> (u64 \<times> u64) list \<Rightarrow> byte list \<Rightarrow> nat" where
  "stack_need argv envp auxv random =
     length (packed argv) + length (packed envp) + length random
     + 8 * (length argv + length envp + 2 * length auxv + 7)"

definition stack_layout :: "u64 \<Rightarrow> byte list list \<Rightarrow> byte list list \<Rightarrow> (u64 \<times> u64) list \<Rightarrow> byte list \<Rightarrow> byte list" where
  "stack_layout top_address argv envp auxv random =
     (let start = top_address - (length (packed argv) + length (packed envp) + length random);
          envs = length (packed argv); rand = envs + length (packed envp) in
      concat (map (le_bytes 8) (stack_words (map ((+) start) (packed_at 0 argv)) (map ((+) start) (packed_at envs envp))
                                  (auxv @ [(AT_RANDOM, start + rand), (AT_NULL, 0)])))
      @ replicate ((top_address - stack_need argv envp auxv random) mod 16) 0
      @ packed argv @ packed envp @ random)"

lemma length_stack_words: "length (stack_words as es auxv) = 3 + length as + length es + 2 * length auxv"
proof -
  have "length (concat (map (\<lambda>(kind, v). [kind, v]) auxv)) = 2 * length auxv" by (induction auxv) auto
  then show ?thesis by (simp add: stack_words_def)
qed

lemma stack_build_eq:
  "stack_build top_address argv envp auxv random limit =
     (let need = stack_need argv envp auxv random; sp = (top_address - need) - (top_address - need) mod 16 in
      if need \<le> top_address \<and> top_address - sp \<le> limit
      then Ok \<lparr>ini_bytes = stack_layout top_address argv envp auxv random, ini_stack_pointer = sp\<rparr>
      else Err E2BIG)"
proof -
  define ss where ss: "ss = packed argv @ packed envp @ random"
  define w where w: "w = 1 + length argv + 1 + length envp + 1 + length (auxv @ [(AT_RANDOM, 0), (AT_NULL, 0)]) * 2"
  define below where b: "below = top_address - length ss - w * 8"
  define words where ws: "words = stack_words (map ((+) (top_address - length ss)) (packed_at 0 argv))
     (map ((+) (top_address - length ss)) (packed_at (length (packed argv)) envp))
     (auxv @ [(AT_RANDOM, top_address - length ss + length (packed argv @ packed envp)), (AT_NULL, 0)])"
  have n: "stack_need argv envp auxv random = length ss + w * 8" by (simp add: stack_need_def ss w)
  have lw: "length words = w" by (simp add: ws length_stack_words w)
  have build: "stack_build top_address argv envp auxv random limit =
    (if length ss + w * 8 \<le> top_address then
       if top_address - (below - below mod 16) > limit then Err E2BIG
       else Ok \<lparr>ini_bytes = resize_zero (concat (map (le_bytes 8) words)) (top_address - (below - below mod 16) - length ss) @ ss,
                ini_stack_pointer = below - below mod 16\<rparr>
     else Err E2BIG)"
    unfolding stack_build_def stack_offsets_eq Let_def prod.case b ws
    by (auto simp: checked_sub_def w ss)
  have layout: "stack_layout top_address argv envp auxv random =
      concat (map (le_bytes 8) words) @ replicate (below mod 16) 0 @ ss"
    unfolding stack_layout_def Let_def n b ws ss by (simp add: add.assoc)
  have "top_address - (below - below mod 16) - length ss = w * 8 + below mod 16" if "length ss + w * 8 \<le> top_address"
  proof -
    have "below mod 16 \<le> below" "below + length ss + w * 8 = top_address" using that by (auto simp: b)
    then show ?thesis by linarith
  qed
  then show ?thesis
    unfolding build n Let_def layout using lw by (auto simp: resize_zero_def b)
qed

section \<open>The program reads what the kernel wrote\<close>

text \<open>A memory that holds the stack: the words from the stack pointer on, the strings below the top.\<close>

lemma stack_holds:
  assumes built: "stack_build top_address argv envp auxv random limit = Ok st"
    and mem: "stored m (ini_stack_pointer st) (ini_bytes st)" and size: "top_address < 2 ^ 64"
    and aux: "\<forall>(k, v) \<in> set auxv. k < 2 ^ 64 \<and> v < 2 ^ 64"
  defines "start \<equiv> top_address - (length (packed argv) + length (packed envp) + length random)"
  shows "words_at m (ini_stack_pointer st) (stack_words (map ((+) start) (packed_at 0 argv))
      (map ((+) start) (packed_at (length (packed argv)) envp)) (auxv @ [(AT_RANDOM, top_address - length random), (AT_NULL, 0)]))"
    "stored m start (packed argv)" "stored m (start + length (packed argv)) (packed envp)"
    "stored m (top_address - length random) random" "0 < start" "ini_stack_pointer st mod 16 = 0"
    "ini_stack_pointer st + length (ini_bytes st) = top_address" "length (ini_bytes st) \<le> limit"
proof -
  let ?need = "stack_need argv envp auxv random" and ?p = "length (packed argv)"
  let ?words = "stack_words (map ((+) start) (packed_at 0 argv)) (map ((+) start) (packed_at ?p envp))
     (auxv @ [(AT_RANDOM, top_address - length random), (AT_NULL, 0)])"
  define below where b: "below = top_address - ?need"
  have st: "?need \<le> top_address" "top_address - (below - below mod 16) \<le> limit"
    "ini_bytes st = stack_layout top_address argv envp auxv random" "ini_stack_pointer st = below - below mod 16"
    using built unfolding stack_build_eq Let_def b by (auto split: if_splits)
  have r: "start + (?p + length (packed envp)) = top_address - length random"
    "start = below + 8 * (length argv + length envp + 2 * length auxv + 7)" "below mod 16 \<le> below"
    using st(1) by (auto simp: start_def stack_need_def b)
  have bytes: "ini_bytes st = concat (map (le_bytes 8) ?words) @ replicate (below mod 16) 0 @ packed argv @ packed envp @ random"
    unfolding st(3) stack_layout_def Let_def start_def [symmetric] r(1) b ..
  have pos: "ini_stack_pointer st + 8 * length ?words + below mod 16 = start"
    unfolding st(4) length_stack_words using r(2,3) by simp
  have mem': "stored m (ini_stack_pointer st) (concat (map (le_bytes 8) ?words))" "stored m start (packed argv)"
      "stored m (start + ?p) (packed envp)" "stored m (start + (?p + length (packed envp))) random"
    using mem unfolding bytes stored_append length_words_bytes length_replicate pos by (simp_all add: add.assoc)
  have lim: "length argv < 2 ^ 64" "start + a < 2 ^ 64" if "a < ?p + length (packed envp) + length random \<or> a = 0" for a
    using that size st(1) r(1) by (auto simp: stack_need_def start_def)
  have "\<forall>w \<in> set ?words. w < 2 ^ 64"
  proof -
    have "\<forall>a \<in> set (packed_at 0 argv). start + a < 2 ^ 64" "\<forall>a \<in> set (packed_at ?p envp). start + a < 2 ^ 64"
      using packed_at_bounds [of _ 0 argv] packed_at_bounds [of _ ?p envp] lim(2) by fastforce+
    moreover have "length argv < 2 ^ 64" using lim(1) [of 0] by simp
    ultimately show ?thesis using aux size by (auto simp: stack_words_def AT_RANDOM_def AT_NULL_def)
  qed
  then show "words_at m (ini_stack_pointer st) ?words" by (rule words_at_stored [OF mem'(1)])
  show "stored m start (packed argv)" "stored m (start + ?p) (packed envp)" "stored m (top_address - length random) random"
    using mem'(2-4) unfolding r(1) by simp_all
  show "0 < start" using r(2) by simp
  show "ini_stack_pointer st mod 16 = 0" unfolding st(4) by (simp add: minus_mod_eq_mult_div)
  have l: "length (ini_bytes st) = 8 * length ?words + below mod 16 + (?p + length (packed envp) + length random)"
    unfolding bytes by simp
  have top: "start + (?p + length (packed envp) + length random) = top_address"
    using st(1) by (simp add: start_def stack_need_def)
  show t: "ini_stack_pointer st + length (ini_bytes st) = top_address" unfolding l using pos top by linarith
  show "length (ini_bytes st) \<le> limit" using st(2) t unfolding st(4) by linarith
qed

text \<open>The strings behind an array of pointers.\<close>

lemma pointers_nth:
  assumes "stored m (a + n) (packed vs)" "i < length vs" "0 \<notin> set (vs ! i)"
  shows "c_string m (a + packed_at n vs ! i) = Some (vs ! i)"
  using list_all2_nthD2 [OF packed_at_stored [OF assms(1)] assms(2)] assms(3) by (rule c_string_stored)

lemma env_vars_words:
  assumes "words_at m (e + n * 8) (map ((+) a) (packed_at k vs) @ [0])" "stored m (a + k) (packed vs)"
    "0 < a" "\<forall>v \<in> set vs. 0 \<notin> set v \<and> utf8_ok v"
  shows "env_vars_from m e n = Some (map split_eq vs)" "env_find m e n name = Some (map_of (map split_eq vs) name)"
proof -
  have "env_vars_from m e n = Some (map split_eq vs) \<and> env_find m e n name = Some (map_of (map split_eq vs) name)"
    using assms
  proof (induction vs arbitrary: n k)
    case Nil
    then show ?case
      by (subst env_vars_from.simps, subst env_find.simps) (simp add: ptr_entry_def)
  next
    case (Cons v vs)
    have p: "ptr_entry m e n = Some (a + k)" using Cons.prems(1) by (simp add: ptr_entry_def)
    have c: "c_string m (a + k) = Some v" using Cons.prems(2,4) by (intro c_string_stored) auto
    have "env_vars_from m e (n + 1) = Some (map split_eq vs) \<and> env_find m e (n + 1) name = Some (map_of (map split_eq vs) name)"
      using Cons.prems by (intro Cons.IH [of "n + 1" "k + length v + 1"]) (auto simp: algebra_simps)
    then show ?case
      using p c Cons.prems(3,4)
      by (subst env_vars_from.simps, subst env_find.simps) (auto simp: env_text_def map_of_Cons_code)
  qed
  then show "env_vars_from m e n = Some (map split_eq vs)" "env_find m e n name = Some (map_of (map split_eq vs) name)" by auto
qed

lemma stack_reads_back:
  assumes "stack_build top_address argv envp auxv random limit = Ok st"
    "stored m (ini_stack_pointer st) (ini_bytes st)" "top_address < 2 ^ 64"
    "\<forall>(k, v) \<in> set auxv. 0 < k \<and> k < 2 ^ 64 \<and> v < 2 ^ 64"
    "\<forall>v \<in> set argv \<union> set envp. 0 \<notin> set v \<and> utf8_ok v"
  shows "ini_stack_pointer st mod 16 = 0 \<and> ini_stack_pointer st + length (ini_bytes st) = top_address
    \<and> length (ini_bytes st) \<le> limit
    \<and> (\<exists>info. from_stack m (ini_stack_pointer st) = Some info
        \<and> env_args m info = Some argv
        \<and> env_vars m info = Some (map split_eq envp)
        \<and> (\<forall>name. env_var m info name = Some (map_of (map split_eq envp) name))
        \<and> (\<forall>kind. si_aux m info kind = Some (map_of (auxv @ [(AT_RANDOM, top_address - length random)]) kind))
        \<and> stored m (top_address - length random) random)"
proof -
  have a: "\<forall>(k, v) \<in> set auxv. k < 2 ^ 64 \<and> v < 2 ^ 64" using assms(4) by auto
  note h = stack_holds [OF assms(1-3) a]
  define start where s: "start = top_address - (length (packed argv) + length (packed envp) + length random)"
  let ?sp = "ini_stack_pointer st" and ?as = "map ((+) start) (packed_at 0 argv)"
  let ?es = "map ((+) start) (packed_at (length (packed argv)) envp)"
  let ?envp = "?sp + 8 + (length argv + 1) * 8" and ?aux = "auxv @ [(AT_RANDOM, top_address - length random)]"
  note h = h [folded s]
  have w: "load_word m ?sp = Some (length argv)" "words_at m (?sp + 8) ?as" "words_at m ?envp (?es @ [0])"
    "words_at m (?envp + (length envp + 1) * 8) (concat (map (\<lambda>(kind, v). [kind, v]) (?aux @ [(AT_NULL, 0)])))"
    using h(1) by (simp_all add: stack_words_def algebra_simps)
  define info where i: "info = \<lparr>si_argc = length argv, si_argv = ?sp + 8, si_envp = ?envp, si_auxv = ?envp + (length envp + 1) * 8\<rparr>"
  have nonzero: "0 \<notin> set ?es" using h(5) by auto
  have "count_entries m ?envp 0 = Some (length envp)"
    using count_entries_words [of m ?envp 0 ?es] w(3) nonzero by simp
  then have "from_stack m ?sp = Some info" by (simp add: from_stack_def w(1) i Let_def)
  moreover have "env_args m info = Some argv"
  proof -
    have "arg_at m info j = Some (argv ! j)" if "j < length argv" for j
    proof -
      have "ptr_entry m (?sp + 8) j = Some (start + packed_at 0 argv ! j)"
        using w(2) that by (simp add: words_at_def ptr_entry_def)
      moreover have "0 \<notin> set (argv ! j)" "utf8_ok (argv ! j)" using assms(5) that by auto
      ultimately show ?thesis
        using pointers_nth [of m start 0 argv j] h(2) that by (simp add: arg_at_def i env_text_def)
    qed
    then show ?thesis unfolding env_args_def i StartInfo.simps by (intro those_map_Some) (simp add: i)
  qed
  moreover have "env_vars m info = Some (map split_eq envp)" "env_var m info name = Some (map_of (map split_eq envp) name)" for name
    using env_vars_words [of m ?envp 0 start "length (packed argv)" envp] w(3) h(3,5) assms(5)
    by (auto simp: env_vars_def env_var_def i)
  moreover have "si_aux m info kind = Some (map_of ?aux kind)" for kind
    unfolding si_aux_def i StartInfo.simps
    by (rule aux_from_words [OF w(4)]) (use assms(4) in \<open>auto simp: AT_NULL_def AT_RANDOM_def\<close>)
  ultimately show ?thesis using h(4,6,7,8) by blast
qed

text \<open>
  A program finds what the kernel put on its stack: when the builder returns a stack and the
  bytes are in memory at its stack pointer, the start-up code of the user library, whose loops all
  return, reads back the arguments, the environment, split at the first equals sign, each variable
  by its first definition, every auxiliary value, with the address of the random bytes; the stack
  pointer is a multiple of 16, the bytes end at the top and stay within the limit.
\<close>
theorem stack_round_trip:
  assumes "stack_build top_address argv envp auxv random limit = Ok st"
    "stored m (ini_stack_pointer st) (ini_bytes st)" "top_address < 2 ^ 64"
    "\<forall>(k, v) \<in> set auxv. 0 < k \<and> k < 2 ^ 64 \<and> v < 2 ^ 64"
    "\<forall>v \<in> set argv \<union> set envp. 0 \<notin> set v \<and> utf8_ok v"
  shows "ini_stack_pointer st mod 16 = 0 \<and> ini_stack_pointer st + length (ini_bytes st) = top_address
    \<and> length (ini_bytes st) \<le> limit
    \<and> (\<exists>info. from_stack m (ini_stack_pointer st) = Some info
        \<and> env_args m info = Some argv
        \<and> env_vars m info = Some (map split_eq envp)
        \<and> (\<forall>name. env_var m info name = Some (map_of (map split_eq envp) name))
        \<and> (\<forall>kind. si_aux m info kind = Some (map_of (auxv @ [(AT_RANDOM, top_address - length random)]) kind))
        \<and> stored m (top_address - length random) random)"
  using assms by (rule stack_reads_back)

text \<open>The memory of a program that has only its stack.\<close>

definition only_stack :: "InitialStack \<Rightarrow> user_bytes" where
  "only_stack st = (\<lambda>a. if ini_stack_pointer st \<le> a \<and> a < ini_stack_pointer st + length (ini_bytes st)
     then Some (ini_bytes st ! (a - ini_stack_pointer st)) else None)"

lemma only_stack_stored: "stored (only_stack st) (ini_stack_pointer st) (ini_bytes st)"
  by (simp add: stored_def only_stack_def)

theorem stack_round_trip_witness:
  "\<exists>st. stack_build 0x10000 [[0x6c, 0x73]] [[0x41, 0x3d, 0x62]] [(AT_PAGESZ, 4096)] (replicate 16 7) 4096 = Ok st
    \<and> ini_stack_pointer st = 0xff90 \<and> length (ini_bytes st) = 112
    \<and> (\<exists>info. from_stack (only_stack st) 0xff90 = Some info
        \<and> env_args (only_stack st) info = Some [[0x6c, 0x73]]
        \<and> env_var (only_stack st) info [0x41] = Some (Some [0x62])
        \<and> si_aux (only_stack st) info AT_PAGESZ = Some (Some 4096)
        \<and> si_aux (only_stack st) info AT_RANDOM = Some (Some 0xfff0))"
proof -
  let ?argv = "[[0x6c, 0x73]] :: byte list list" and ?envp = "[[0x41, 0x3d, 0x62]] :: byte list list"
  have sp: "ini_stack_pointer st = 0xff90" if "stack_build 0x10000 ?argv ?envp [(AT_PAGESZ, 4096)] (replicate 16 7) 4096 = Ok st" for st
    using that by (simp add: stack_build_eq stack_need_def Let_def) auto
  have "is_ok (stack_build 0x10000 ?argv ?envp [(AT_PAGESZ, 4096)] (replicate 16 7) 4096)"
    by (simp add: stack_build_eq stack_need_def Let_def)
  then obtain st where st: "stack_build 0x10000 ?argv ?envp [(AT_PAGESZ, 4096)] (replicate 16 7) 4096 = Ok st"
    by (auto elim: is_ok.elims)
  have aux: "\<forall>(k, v) \<in> set [(AT_PAGESZ, 4096)]. 0 < k \<and> k < 2 ^ 64 \<and> (v :: nat) < 2 ^ 64" by (simp add: AT_PAGESZ_def)
  have txts: "\<forall>v \<in> set ?argv \<union> set ?envp. 0 \<notin> set v \<and> utf8_ok v" by simp
  have size: "(0x10000 :: nat) < 2 ^ 64" by simp
  note t = stack_round_trip [OF st only_stack_stored size aux txts]
  have "length (ini_bytes st) = 112" using t sp [OF st] by simp
  moreover have "map_of (map split_eq ?envp) [0x41] = Some [0x62]" by (simp add: split_eq_def)
  ultimately show ?thesis using st sp [OF st] t by (auto simp: AT_PAGESZ_def AT_RANDOM_def)
qed

end
