(* ===== verification/Exec.thy ===== *)
theory Exec
  imports InitialStack SpaceProps RamVfs
begin

text \<open>
  Turning a program file into an image that is ready to run
  (\<open>kernel/src/exec/mod.rs\<close>): the file is read and planned, its pages and its
  stack are written to fresh frames through the direct map, and the frames are
  mapped into a new address space. Dropping the space on an early return is
  written out. The bytes of a frame are its 512 words, little endian. \<open>tsc\<close> is
  the counter the random bytes come from, \<open>room\<close> says for every page whether the
  list of owned frames can grow, \<open>root\<close> is the table the processor runs on.
\<close>

section \<open>Data and constants\<close>

definition USER_TOP :: u64 where "USER_TOP = 0x7ffffffff000"
definition USER_STACK_TOP :: u64 where "USER_STACK_TOP = USER_TOP - PAGE_SIZE"
definition USER_STACK_PAGES :: u64 where "USER_STACK_PAGES = 32"
definition USER_STACK_GUARD :: u64 where "USER_STACK_GUARD = USER_STACK_TOP - (USER_STACK_PAGES + 1) * PAGE_SIZE"
definition ARGUMENT_LIMIT :: usize where "ARGUMENT_LIMIT = USER_STACK_PAGES * PAGE_SIZE div 4"
definition MAX_PROGRAM_SIZE :: u64 where "MAX_PROGRAM_SIZE = 64 * 1024 * 1024"

named_theorems exec_consts \<open>the layout of the user half\<close>

declare USER_TOP_def [exec_consts] USER_STACK_TOP_def [exec_consts] USER_STACK_PAGES_def [exec_consts]
  USER_STACK_GUARD_def [exec_consts] ARGUMENT_LIMIT_def [exec_consts] PAGE_SIZE_def [exec_consts]

record PreparedImage =
  im_space :: AddressSpace
  im_map :: MemoryMap
  im_entry :: u64
  im_stack_pointer :: u64

section \<open>Operations\<close>

definition image_region :: "Segment \<Rightarrow> Region" where
  "image_region s =
     \<lparr>rg_start = sg_start s, rg_end = sg_end s,
      rg_protection = \<lparr>p_read = True, p_write = sf_write (sg_flags s), p_execute = sf_execute (sg_flags s)\<rparr>,
      rg_kind = Image\<rparr>"

definition stack_region :: Region where
  "stack_region =
     \<lparr>rg_start = USER_STACK_TOP - USER_STACK_PAGES * PAGE_SIZE, rg_end = USER_STACK_TOP,
      rg_protection = prot_READ_WRITE, rg_kind = Stack\<rparr>"

definition exec_memory_map :: "LoadPlan \<Rightarrow> MemoryMap fs_result" where
  "exec_memory_map p =
     (let regions = map image_region (lp_segments p) @ [stack_region];
          ends = map sg_end (lp_segments p);
          brk_start = (if ends = [] then MIN_ADDRESS else Max (set ends)) in
      case vma_new regions brk_start USER_STACK_GUARD of Ok m \<Rightarrow> Ok m | Err _ \<Rightarrow> Err ENOEXEC)"

text \<open>The loop of \<open>read_program\<close>; a file system whose reads never end a file makes it run on.\<close>

partial_function (option) read_all ::
    "('s, 'i) inode_ops \<Rightarrow> 'i \<Rightarrow> usize \<Rightarrow> byte list \<Rightarrow> 's \<Rightarrow> (byte list fs_result \<times> 's) option" where
  "read_all V inode len file s =
     (if length file < len then
        case io_read_at V s inode (length file) (len - length file) of
          (Err e, s) \<Rightarrow> Some (Err e, s)
        | (Ok bytes, s) \<Rightarrow> if bytes = [] then Some (Ok file, s) else read_all V inode len (file @ bytes) s
      else Some (Ok file, s))"

definition read_program ::
    "('s, 'i) inode_ops \<Rightarrow> ('s, 'i) fs_world \<Rightarrow> string \<Rightarrow> (byte list fs_result \<times> 's) option" where
  "read_program V w path =
     (case vfs_lookup V w path of
        Err e \<Rightarrow> Some (Err e, w_fs w)
      | Ok inode \<Rightarrow>
        if io_kind V (w_fs w) inode \<noteq> KFile then Some (Err EACCES, w_fs w)
        else
          let len = st_size (io_stat V (w_fs w) inode) in
          if len > MAX_PROGRAM_SIZE then Some (Err ENOEXEC, w_fs w)
          else read_all V inode len [] (w_fs w))"

definition exec_page_flags :: "SegmentFlags \<Rightarrow> w64" where
  "exec_page_flags flags =
     (if sf_execute flags then PF_USER_READ_EXECUTE
      else if sf_write flags then PF_USER_READ_WRITE
      else PF_USER_READ)"

text \<open>The frame a page of bytes is copied to, and \<open>new_page\<close>, \<open>map_page\<close> around the copy.\<close>

definition page_words :: "byte list \<Rightarrow> nat \<Rightarrow> w64" where
  "page_words bytes i = of_nat (from_le (take 8 (drop (8 * i) bytes)))"

definition load_page ::
    "'a frame_ops \<Rightarrow> bool \<Rightarrow> u64 \<Rightarrow> byte list option \<Rightarrow> w64 \<Rightarrow> 'a pages \<Rightarrow> ('a pages \<times> unit fs_result) option" where
  "load_page F room address contents flags x =
     (case x of (s, sp) \<Rightarrow>
      do { (s, r) \<leftarrow> alloc_frame_zeroed F s;
           case r of
             None \<Rightarrow> Some ((s, sp), Err ENOMEM)
           | Some frame \<Rightarrow>
             do { bytes \<leftarrow> contents;
                  let s = s\<lparr>pt_mem := (pt_mem s)(frame := page_words bytes)\<rparr>;
                  (s, sp, r) \<leftarrow> as_map_owned F room sp (of_nat address) frame flags s;
                  case r of
                    Err _ \<Rightarrow> do { s \<leftarrow> pt_free_frame F frame s; Some ((s, sp), Err ENOMEM) }
                  | Ok _ \<Rightarrow> Some ((s, sp), Ok ()) } })"

text \<open>A run of pages, each with what it holds, up to the first error.\<close>

primrec load_pages ::
    "'a frame_ops \<Rightarrow> (u64 \<Rightarrow> bool) \<Rightarrow> (u64 \<times> byte list option \<times> w64) list \<Rightarrow> 'a pages \<Rightarrow> ('a pages \<times> unit fs_result) option" where
  "load_pages F room [] x = Some (x, Ok ())"
| "load_pages F room (p # todo) x =
     do { (x, r) \<leftarrow> (case p of (address, contents, flags) \<Rightarrow> load_page F (room address) address contents flags x);
          case r of Err e \<Rightarrow> Some (x, Err e) | Ok _ \<Rightarrow> load_pages F room todo x }"

text \<open>The pages of the image, segment by segment.\<close>

definition segment_pages :: "byte list \<Rightarrow> Segment \<Rightarrow> (u64 \<times> byte list option \<times> w64) list" where
  "segment_pages file s =
     map (\<lambda>address. (address, page_contents s file address, exec_page_flags (sg_flags s)))
       (step_by (sg_start s) (sg_end s) PAGE_SIZE)"

text \<open>The pages of the stack, each with its share of the bytes that end at the top.\<close>

definition stack_page_contents :: "byte list \<Rightarrow> u64 \<Rightarrow> byte list option" where
  "stack_page_contents bytes address =
     (let bytes_start = USER_STACK_TOP - length bytes;
          lo = max address bytes_start;
          hi = min (address + PAGE_SIZE) USER_STACK_TOP in
      if lo < hi then
        if hi - address \<le> 4096 then
          map_option (\<lambda>piece. replicate (lo - address) 0 @ piece @ replicate (4096 - (hi - address)) 0)
            (get_range bytes (lo - bytes_start) (hi - lo))
        else None
      else Some (replicate 4096 0))"

definition stack_pages :: "byte list \<Rightarrow> (u64 \<times> byte list option \<times> w64) list" where
  "stack_pages bytes =
     map (\<lambda>address. (address, stack_page_contents bytes address, PF_USER_READ_WRITE))
       (step_by (USER_STACK_TOP - USER_STACK_PAGES * PAGE_SIZE) USER_STACK_TOP PAGE_SIZE)"

text \<open>\<open>random_bytes\<close>: two rounds of a shift register.\<close>

definition xorshift :: "w64 \<Rightarrow> w64" where
  "xorshift state =
     (let state = state XOR push_bit 13 state;
          state = state XOR drop_bit 7 state in
      state XOR push_bit 17 state)"

definition random_bytes :: "w64 \<Rightarrow> byte list" where
  "random_bytes tsc =
     (let a = xorshift (tsc XOR 0x9e3779b97f4a7c15); b = xorshift a in le_bytes 8 (unat a) @ le_bytes 8 (unat b))"

definition exec_auxv :: "LoadPlan \<Rightarrow> (u64 \<times> u64) list" where
  "exec_auxv p =
     [(AT_PHDR, lp_phdr_vaddr p), (AT_PHENT, 56), (AT_PHNUM, lp_phnum p), (AT_PAGESZ, PAGE_SIZE), (AT_ENTRY, lp_entry p)]"

text \<open>The second half of \<open>prepare\<close>: the stack. An early return drops the space.\<close>

definition prepare_stack ::
    "'a frame_ops \<Rightarrow> (u64 \<Rightarrow> bool) \<Rightarrow> w64 \<Rightarrow> w64 \<Rightarrow> LoadPlan \<Rightarrow> MemoryMap \<Rightarrow> byte list list \<Rightarrow> byte list list \<Rightarrow> 'a pages
       \<Rightarrow> ('a pt_state \<times> PreparedImage fs_result) option" where
  "prepare_stack F room root tsc p m argv envp x =
     (case x of (s, sp) \<Rightarrow>
      case stack_build USER_STACK_TOP argv envp (exec_auxv p) (random_bytes tsc) ARGUMENT_LIMIT of
        Err e \<Rightarrow> do { s \<leftarrow> as_drop F root sp s; Some (s, Err e) }
      | Ok st \<Rightarrow>
        do { ((s, sp), r) \<leftarrow> load_pages F room (stack_pages (ini_bytes st)) (s, sp);
             case r of
               Err e \<Rightarrow> do { s \<leftarrow> as_drop F root sp s; Some (s, Err e) }
             | Ok _ \<Rightarrow>
                 Some (s, Ok \<lparr>im_space = sp, im_map = m, im_entry = lp_entry p,
                              im_stack_pointer = ini_stack_pointer st\<rparr>) })"

text \<open>The body of \<open>prepare\<close> once the file is read.\<close>

definition prepare_file ::
    "'a frame_ops \<Rightarrow> (u64 \<Rightarrow> bool) \<Rightarrow> w64 \<Rightarrow> w64 \<Rightarrow> byte list \<Rightarrow> byte list list \<Rightarrow> byte list list \<Rightarrow> 'a pt_state
       \<Rightarrow> ('a pt_state \<times> PreparedImage fs_result) option" where
  "prepare_file F room root tsc file argv envp s =
     (case plan file USER_STACK_GUARD of Err e \<Rightarrow> Some (s, Err e)
      | Ok p \<Rightarrow>
        case exec_memory_map p of Err e \<Rightarrow> Some (s, Err e)
      | Ok m \<Rightarrow>
        do { (s, r) \<leftarrow> as_new F s;
             case r of
               Err _ \<Rightarrow> Some (s, Err ENOMEM)
             | Ok sp \<Rightarrow>
               do { ((s, sp), r) \<leftarrow> load_pages F room (concat (map (segment_pages file) (lp_segments p))) (s, sp);
                    case r of
                      Err e \<Rightarrow> do { s \<leftarrow> as_drop F root sp s; Some (s, Err e) }
                    | Ok _ \<Rightarrow> prepare_stack F room root tsc p m argv envp (s, sp) } })"

definition prepare ::
    "'a frame_ops \<Rightarrow> (u64 \<Rightarrow> bool) \<Rightarrow> w64 \<Rightarrow> w64 \<Rightarrow> ('s, 'i) inode_ops \<Rightarrow> ('s, 'i) fs_world \<Rightarrow> string
       \<Rightarrow> byte list list \<Rightarrow> byte list list \<Rightarrow> 'a pt_state \<Rightarrow> ('s \<times> 'a pt_state \<times> PreparedImage fs_result) option" where
  "prepare F room root tsc V w path argv envp s =
     do { (program, fs) \<leftarrow> read_program V w path;
          case program of
            Err e \<Rightarrow> Some (fs, s, Err e)
          | Ok file \<Rightarrow> do { (s, r) \<leftarrow> prepare_file F room root tsc file argv envp s; Some (fs, s, r) } }"

section \<open>The memory map of the image\<close>

lemma guard_consts: "aligned USER_STACK_GUARD" "USER_STACK_GUARD < 2 ^ 64" "aligned USER_STACK_TOP"
  by (simp_all add: aligned_dvd exec_consts)

lemma option_else_None: "(case x of Some r \<Rightarrow> Some r | None \<Rightarrow> None) = x"
  by (cases x) simp_all

text \<open>Regions that do not overlap are all inserted.\<close>

lemma insert_all_ok:
  assumes "regions_from 0 rs" "list_all (\<lambda>r. rg_start r < rg_end r \<and> aligned (rg_start r) \<and> aligned (rg_end r)) todo"
    "sorted_wrt (\<lambda>r t. rg_end r \<le> rg_start t \<or> rg_end t \<le> rg_start r) todo"
    "\<forall>r \<in> set todo. \<not> overlaps rs (rg_start r) (rg_end r)"
  shows "\<exists>out. insert_all rs todo = Ok out \<and> regions_from 0 out \<and> set out = set rs \<union> set todo
    \<and> (\<forall>a. region_at out a = (case region_at todo a of Some r \<Rightarrow> Some r | None \<Rightarrow> region_at rs a))"
  using assms
proof (induction todo arbitrary: rs)
  case (Cons r todo)
  let ?rs = "insert_sorted rs r"
  have r: "regions_from 0 rs" "rg_start r < rg_end r" "aligned (rg_start r)" "aligned (rg_end r)"
    "\<not> overlaps rs (rg_start r) (rg_end r)" using Cons.prems by auto
  note ok = vma_insert_ok [OF r]
  have "\<not> overlaps ?rs (rg_start t) (rg_end t)" if t: "t \<in> set todo" for t
  proof -
    have "rg_end r \<le> rg_start t \<or> rg_end t \<le> rg_start r" "\<not> overlaps rs (rg_start t) (rg_end t)" using Cons.prems t by auto
    then show ?thesis by (auto simp: overlaps_def list_ex_iff insert_sorted_set)
  qed
  then obtain out where out: "insert_all ?rs todo = Ok out" "regions_from 0 out" "set out = set ?rs \<union> set todo"
    "\<And>a. region_at out a = (case region_at todo a of Some r \<Rightarrow> Some r | None \<Rightarrow> region_at ?rs a)"
    using Cons.IH [OF ok(2)] Cons.prems by auto
  have no: "region_at todo a = None" if "covers r a" for a
    using that Cons.prems(3) by (fastforce simp: region_at_None_iff covers_def)
  have "region_at out a = (case region_at (r # todo) a of Some r \<Rightarrow> Some r | None \<Rightarrow> region_at rs a)" for a
    using out(4) [of a] ok(3) [of a] no [of a] by (auto split: option.splits)
  then show ?case using out(1-3) ok(1) by (auto simp: insert_sorted_set)
qed auto

lemma exec_map_exists:
  assumes "plan file USER_STACK_GUARD = Ok p" "length file < 2 ^ 64"
  shows "\<exists>m. exec_memory_map p = Ok m \<and> vma_inv m \<and> mm_mmap_top m = USER_STACK_GUARD
    \<and> mm_brk m = mm_brk_start m \<and> mm_brk m \<in> sg_end ` set (lp_segments p) \<and> (\<forall>s \<in> set (lp_segments p). sg_end s \<le> mm_brk m)
    \<and> (\<forall>a. view (mm_regions m) a =
        (case List.find (\<lambda>s. sg_start s \<le> a \<and> a < sg_end s) (lp_segments p) of
           Some s \<Rightarrow> Some (\<lparr>p_read = True, p_write = sf_write (sg_flags s), p_execute = sf_execute (sg_flags s)\<rparr>, Image)
         | None \<Rightarrow> if USER_STACK_TOP - USER_STACK_PAGES * PAGE_SIZE \<le> a \<and> a < USER_STACK_TOP
                   then Some (prot_READ_WRITE, Stack) else None))"
proof -
  note ok = plan_segments_ok [OF assms(1) guard_consts(1,2) assms(2)]
  let ?segs = "lp_segments p"
  let ?rs = "map image_region ?segs @ [stack_region]"
  have seg: "segment_ok (length file) USER_STACK_GUARD s" if "s \<in> set ?segs" for s using ok(1) that by (simp add: list_all_iff)
  have below: "sg_end s \<le> USER_STACK_TOP - USER_STACK_PAGES * PAGE_SIZE" if "s \<in> set ?segs" for s
    using seg [OF that] by (simp add: segment_ok_def exec_consts)
  have "list_all (\<lambda>r. rg_start r < rg_end r \<and> aligned (rg_start r) \<and> aligned (rg_end r)) ?rs"
    using seg by (auto simp: list_all_iff image_region_def segment_ok_def stack_region_def aligned_dvd exec_consts)
  moreover have "sorted_wrt (\<lambda>r t. rg_end r \<le> rg_start t \<or> rg_end t \<le> rg_start r) ?rs"
    using ok(2) below by (auto simp: sorted_wrt_append sorted_wrt_map apart_def [abs_def] image_region_def stack_region_def)
  ultimately obtain out where out: "insert_all [] ?rs = Ok out" "regions_from 0 out" "set out = set ?rs"
    "\<And>a. region_at out a = region_at ?rs a"
    using insert_all_ok [of "[]" ?rs] unfolding region_at_Nil option_else_None by auto
  have ne: "?segs \<noteq> []" using ok(3) by (auto simp: executable_at_def)
  let ?b = "Max (sg_end ` set ?segs)"
  let ?m = "\<lparr>mm_regions = out, mm_brk_start = ?b, mm_brk = ?b, mm_mmap_top = USER_STACK_GUARD\<rparr>"
  have m: "exec_memory_map p = Ok ?m"
    using out(1) ne by (simp add: exec_memory_map_def vma_new_def Let_def)
  have b: "?b \<in> sg_end ` set ?segs" using ne by (intro Max_in) auto
  then have "aligned ?b" using seg by (auto simp: segment_ok_def)
  moreover have "list_all region_safe out"
    using seg unfolding list_all_iff out(3)
    by (auto simp: region_safe_def is_device_def image_region_def stack_region_def segment_ok_def prot_READ_WRITE_def)
  ultimately have "vma_inv ?m" using out(2) by (simp add: vma_inv_def)
  moreover have "view out a = (case List.find (\<lambda>s. sg_start s \<le> a \<and> a < sg_end s) ?segs of
           Some s \<Rightarrow> Some (\<lparr>p_read = True, p_write = sf_write (sg_flags s), p_execute = sf_execute (sg_flags s)\<rparr>, Image)
         | None \<Rightarrow> if USER_STACK_TOP - USER_STACK_PAGES * PAGE_SIZE \<le> a \<and> a < USER_STACK_TOP
                   then Some (prot_READ_WRITE, Stack) else None)" for a
  proof -
    have "region_at (map image_region xs @ [stack_region]) a =
        (case List.find (\<lambda>s. sg_start s \<le> a \<and> a < sg_end s) xs of Some s \<Rightarrow> Some (image_region s)
         | None \<Rightarrow> if covers stack_region a then Some stack_region else None)" for xs
      by (induction xs) (auto simp: covers_def image_region_def)
    then show ?thesis
      unfolding view_def out(4) by (auto simp: page_view_def piece_kind_def image_region_def stack_region_def covers_def split: option.splits)
  qed
  ultimately show ?thesis using m b by (intro exI [of _ ?m]) auto
qed

text \<open>
  C40. An accepted executable always gets a memory map, and the right one: sorted disjoint regions,
  none writable and executable; an address has the protection of the segment it is in, the stack is
  readable and writable, the guard page and everything else is free, and the heap starts on the page
  after the highest segment.
\<close>
theorem memory_map_of_image:
  assumes "plan file USER_STACK_GUARD = Ok p" "length file < 2 ^ 64"
  shows "\<exists>m. exec_memory_map p = Ok m \<and> vma_inv m \<and> mm_mmap_top m = USER_STACK_GUARD
    \<and> mm_brk m = mm_brk_start m \<and> mm_brk m \<in> sg_end ` set (lp_segments p) \<and> (\<forall>s \<in> set (lp_segments p). sg_end s \<le> mm_brk m)
    \<and> (\<forall>a. view (mm_regions m) a =
        (case List.find (\<lambda>s. sg_start s \<le> a \<and> a < sg_end s) (lp_segments p) of
           Some s \<Rightarrow> Some (\<lparr>p_read = True, p_write = sf_write (sg_flags s), p_execute = sf_execute (sg_flags s)\<rparr>, Image)
         | None \<Rightarrow> if USER_STACK_TOP - USER_STACK_PAGES * PAGE_SIZE \<le> a \<and> a < USER_STACK_TOP
                   then Some (prot_READ_WRITE, Stack) else None))"
  by (rule exec_map_exists [OF assms])

theorem memory_map_of_image_witness:
  "plan tiny_elf USER_STACK_GUARD = Ok (plan_of tiny_elf) \<and> length tiny_elf < 2 ^ 64
   \<and> (\<exists>m. exec_memory_map (plan_of tiny_elf) = Ok m \<and> vma_inv m \<and> mm_brk m = 0x2000
        \<and> view (mm_regions m) 0x1078 = Some (prot_READ_EXECUTE, Image) \<and> view (mm_regions m) 0x2000 = None)"
proof -
  have "loadable tiny_elf USER_STACK_GUARD"
    unfolding loadable_def tiny_elf_headers(3,4)
    by (simp add: static_header_def loads_def header_fits_def segment_flags_def executable_at_def segment_of_def
        elf_consts exec_consts tiny_elf_headers)
  moreover have "plan tiny_elf USER_STACK_GUARD = (if loadable tiny_elf USER_STACK_GUARD then Ok (plan_of tiny_elf) else Err ENOEXEC)"
    by (rule plan_accepts [OF guard_consts(1,2)]) simp
  ultimately have p: "plan tiny_elf USER_STACK_GUARD = Ok (plan_of tiny_elf)" by simp
  show ?thesis
    using p memory_map_of_image [OF p] by (auto simp: tiny_elf_plan prot_READ_EXECUTE_def exec_consts)
qed

section \<open>Loading pages\<close>

text \<open>A byte of a frame, and of the memory of a program: what a user page lets it read.\<close>

definition frame_byte :: "(nat \<Rightarrow> w64) \<Rightarrow> nat \<Rightarrow> byte" where
  "frame_byte ws k = ucast (drop_bit (8 * (k mod 8)) (ws (k div 8)))"

definition user_byte :: "'a pt_state \<Rightarrow> AddressSpace \<Rightarrow> u64 \<Rightarrow> byte option" where
  "user_byte s sp a =
     (case as_query sp (of_nat (a - a mod PAGE_SIZE)) s of
        Ok e \<Rightarrow> if has e USER then Some (frame_byte (pt_mem s (entry_frame e)) (a mod PAGE_SIZE)) else None
      | Err _ \<Rightarrow> None)"

lemma from_le_nth: "j < length bs \<Longrightarrow> from_le bs div 256 ^ j mod 256 = unat (bs ! j)"
proof (induction bs arbitrary: j)
  case (Cons b bs)
  have b: "unat b < 256" using unsigned_less [of b, where 'a = nat] by simp
  show ?case
  proof (cases j)
    case 0
    then show ?thesis using b by simp
  next
    case (Suc k)
    have "from_le (b # bs) div 256 ^ j = from_le bs div 256 ^ k"
      using b by (simp add: Suc div_mult2_eq)
    then show ?thesis using Cons Suc by simp
  qed
qed simp

lemma page_words_byte:
  assumes "length bytes = 4096" "k < 4096"
  shows "frame_byte (page_words bytes) k = bytes ! k"
proof -
  let ?bs = "take 8 (drop (8 * (k div 8)) bytes)" and ?j = "k mod 8"
  have "k div 8 < 512" using assms(2) by simp
  then have l: "length ?bs = 8" "?j < 8" using assms(1) by auto
  have n: "from_le ?bs < 2 ^ 64" using from_le_less [of ?bs] l by simp
  have "unat (drop_bit (8 * ?j) (of_nat (from_le ?bs) :: w64)) = from_le ?bs div 256 ^ ?j"
  proof -
    have "unat (of_nat (from_le ?bs) :: w64) = from_le ?bs" using n by (simp add: unat_of_nat)
    then show ?thesis unfolding unat_drop_bit_eq by (simp add: drop_bit_eq_div power_mult)
  qed
  then have "unat (frame_byte (page_words bytes) k) = from_le ?bs div 256 ^ ?j mod 256"
    by (simp add: frame_byte_def page_words_def unsigned_ucast_eq take_bit_eq_mod)
  also have "\<dots> = unat (?bs ! ?j)" using l by (intro from_le_nth) simp
  also have "?bs ! ?j = bytes ! k" using l assms by simp
  finally show ?thesis by (simp add: word_unat_eq_iff)
qed

end
