(* ===== verification/ExecLoad.thy ===== *)
theory ExecLoad
  imports Exec
begin

text \<open>
  Loading pages into an address space, over any frame source: each page holds
  the bytes it was given, the pages before it stay as they are, and no other
  space notices.
\<close>

text \<open>A page of a space that was loaded with bytes.\<close>

definition page_loaded :: "'a pt_state \<Rightarrow> AddressSpace \<Rightarrow> u64 \<Rightarrow> byte list \<Rightarrow> w64 \<Rightarrow> bool" where
  "page_loaded s sp address bytes flags \<longleftrightarrow> user_page (of_nat address)
     \<and> (\<exists>f. leaf (pt_mem s) (as_root sp) (va_path (of_nat address)) = Some (f OR flags) \<and> frame_ok f
            \<and> \<lparr>om_va = of_nat address, om_frame = f\<rparr> \<in> set (as_owned sp) \<and> pt_mem s f = page_words bytes)"

definition loadable_entry :: "w64 \<Rightarrow> bool" where
  "loadable_entry e \<longleftrightarrow> (\<exists>f prot. frame_ok f \<and> e = f OR page_flags prot)"

text \<open>Pages of the user half that nothing is mapped at.\<close>

definition unmapped_pages :: "'a pt_state \<Rightarrow> w64 \<Rightarrow> w64 list \<Rightarrow> bool" where
  "unmapped_pages s root vas \<longleftrightarrow> distinct vas \<and> (\<forall>va \<in> set vas. user_page va \<and> leaf (pt_mem s) root (va_path va) = None)"

text \<open>The only leaves that changed are those of the given pages.\<close>

definition leaves_beside :: "'a pt_state \<Rightarrow> 'a pt_state \<Rightarrow> w64 \<Rightarrow> w64 set \<Rightarrow> bool" where
  "leaves_beside s s' root vas \<longleftrightarrow>
     (\<forall>vb. user_page vb \<longrightarrow> vb \<notin> vas \<longrightarrow> leaf (pt_mem s') root (va_path vb) = leaf (pt_mem s) root (va_path vb))"

lemma card_diff_bound: "card (X - Y) \<le> n \<Longrightarrow> card X \<le> card Y + n" for X Y :: "w64 set"
proof -
  assume n: "card (X - Y) \<le> n"
  have "card X \<le> card ((X - Y) \<union> Y)" by (intro card_mono) auto
  also have "\<dots> \<le> card (X - Y) + card Y" by (rule card_Un_le)
  finally show ?thesis using n by simp
qed

context frame_source
begin

text \<open>What loading does to the world: pages are added, and nothing else changes.\<close>

definition extended :: "'a pt_state \<Rightarrow> AddressSpace \<Rightarrow> AddressSpace list \<Rightarrow> 'a pt_state \<Rightarrow> AddressSpace \<Rightarrow> bool" where
  "extended s sp rest s' sp' \<longleftrightarrow> world_ok s' (sp' # rest) \<and> (\<forall>x \<in> set rest. same_view s s' x) \<and> as_root sp' = as_root sp
     \<and> set (as_owned sp) \<subseteq> set (as_owned sp')
     \<and> (\<forall>m \<in> set (as_owned sp). pt_mem s' (om_frame m) = pt_mem s (om_frame m))
     \<and> (\<forall>vb e. user_page vb \<longrightarrow> leaf (pt_mem s) (as_root sp) (va_path vb) = Some e
          \<longrightarrow> leaf (pt_mem s') (as_root sp) (va_path vb) = Some e)
     \<and> (\<forall>vb e. user_page vb \<longrightarrow> leaf (pt_mem s') (as_root sp) (va_path vb) = Some e
          \<longrightarrow> leaf (pt_mem s) (as_root sp) (va_path vb) = Some e \<or> loadable_entry e)
     \<and> (\<forall>u. R s' u + claims s sp u = R s u + claims s' sp' u) \<and> managed s' = managed s"

lemma extended_refl: "world_ok s (sp # rest) \<Longrightarrow> extended s sp rest s sp"
  by (simp add: extended_def same_view_def)

lemma extendedD:
  assumes "extended s sp rest s' sp'"
  shows "world_ok s' (sp' # rest)" "\<And>x. x \<in> set rest \<Longrightarrow> same_view s s' x" "as_root sp' = as_root sp"
    "set (as_owned sp) \<subseteq> set (as_owned sp')" "\<And>m. m \<in> set (as_owned sp) \<Longrightarrow> pt_mem s' (om_frame m) = pt_mem s (om_frame m)"
    "\<And>vb e. user_page vb \<Longrightarrow> leaf (pt_mem s) (as_root sp) (va_path vb) = Some e \<Longrightarrow> leaf (pt_mem s') (as_root sp) (va_path vb) = Some e"
    "\<And>vb e. user_page vb \<Longrightarrow> leaf (pt_mem s') (as_root sp) (va_path vb) = Some e
       \<Longrightarrow> leaf (pt_mem s) (as_root sp) (va_path vb) = Some e \<or> loadable_entry e"
    "\<And>u. R s' u + claims s sp u = R s u + claims s' sp' u" "managed s' = managed s"
  using assms unfolding extended_def by blast+

lemma extended_trans:
  assumes "extended s sp rest s1 sp1" "extended s1 sp1 rest s2 sp2"
  shows "extended s sp rest s2 sp2"
  unfolding extended_def
proof (intro conjI ballI allI impI)
  note a = extendedD [OF assms(1)] and b = extendedD [OF assms(2)]
  note b6 = b(6) [unfolded a(3)] and b7 = b(7) [unfolded a(3)]
  show "world_ok s2 (sp2 # rest)" by (rule b(1))
  show "same_view s s2 x" if "x \<in> set rest" for x by (rule same_view_trans [OF a(2) [OF that] b(2) [OF that]])
  show "as_root sp2 = as_root sp" using a(3) b(3) by simp
  show "set (as_owned sp) \<subseteq> set (as_owned sp2)" using a(4) b(4) by (rule subset_trans)
  show "pt_mem s2 (om_frame m) = pt_mem s (om_frame m)" if "m \<in> set (as_owned sp)" for m
    using a(5) [OF that] b(5) [of m] a(4) that by auto
  show "leaf (pt_mem s2) (as_root sp) (va_path vb) = Some e" if "user_page vb" "leaf (pt_mem s) (as_root sp) (va_path vb) = Some e" for vb e
    using b6 [OF that(1) a(6) [OF that]] .
  show "leaf (pt_mem s) (as_root sp) (va_path vb) = Some e \<or> loadable_entry e"
    if "user_page vb" "leaf (pt_mem s2) (as_root sp) (va_path vb) = Some e" for vb e
    using b7 [OF that] a(7) [OF that(1)] by (elim disjE) auto
  show "R s2 u + claims s sp u = R s u + claims s2 sp2 u" for u using a(8) [of u] b(8) [of u] by linarith
  show "managed s2 = managed s" using a(9) b(9) by simp
qed

lemma extended_restored:
  assumes w: "world_ok s (sp # rest)" and r: "restored s s'"
  shows "extended s sp rest s' sp"
proof -
  note wr = world_restored [OF w r]
  then have sv: "same_view s s' sp" by auto
  have "R s' = R s" "managed s' = managed s" using r by (simp_all add: restored_def managed_def)
  then show ?thesis using wr same_view_claims [OF sv] sv unfolding extended_def same_view_def by auto
qed

lemma extended_loaded: "extended s sp rest s' sp' \<Longrightarrow> page_loaded s sp address bytes flags \<Longrightarrow> page_loaded s' sp' address bytes flags"
proof -
  assume g: "extended s sp rest s' sp'" and l: "page_loaded s sp address bytes flags"
  obtain f where f: "user_page (of_nat address)" "leaf (pt_mem s) (as_root sp) (va_path (of_nat address)) = Some (f OR flags)" "frame_ok f"
    "\<lparr>om_va = of_nat address, om_frame = f\<rparr> \<in> set (as_owned sp)" "pt_mem s f = page_words bytes"
    using l unfolding page_loaded_def by blast
  note g = g [unfolded extended_def]
  have "leaf (pt_mem s') (as_root sp') (va_path (of_nat address)) = Some (f OR flags)" using g f(1,2) by metis
  moreover have "\<lparr>om_va = of_nat address, om_frame = f\<rparr> \<in> set (as_owned sp')" using g f(4) by blast
  moreover have "pt_mem s' f = page_words bytes"
  proof -
    have "pt_mem s' (om_frame \<lparr>om_va = of_nat address, om_frame = f\<rparr>) = pt_mem s (om_frame \<lparr>om_va = of_nat address, om_frame = f\<rparr>)"
      using g f(4) by blast
    then show ?thesis using f(5) by simp
  qed
  ultimately show "page_loaded s' sp' address bytes flags" unfolding page_loaded_def using f(1,3) by blast
qed

lemma validate_loadable: "user_page va \<Longrightarrow> frame_ok f \<Longrightarrow> validate_user_mapping va f (page_flags prot) = Ok ()"
  using page_flags_bits [of prot]
  by (auto simp: validate_user_mapping_def validate_range_def user_page_def is_user_def is_writable_def is_executable_def has_bits
      not_le page_aligned_bits dest: frame_ok_bits)

lemma as_new_avail:
  assumes "src s" "as_new F s = Some (s', Ok sp)"
  shows "A s' = A s - {as_root sp}"
proof -
  obtain s1 x where x: "alloc_table F s = Some (s1, x)"
    "case x of None \<Rightarrow> True | Some f \<Rightarrow> A s1 = A s - {f}"
    using alloc_table_source [OF assms(1)] by (auto split: option.splits)
  have fr: "pt_fr (fold (\<lambda>i s. set_entry root i (pt_mem s (pt_pml4 s) i) s) ks s1) = pt_fr s1" for root ks s1
    by (induction ks arbitrary: s1) (simp_all add: set_entry_def)
  show ?thesis
  proof (cases x)
    case None
    then show ?thesis using assms(2) unfolding as_new_def x(1) None bind.bind_lunit prod.case option.case by simp
  next
    case (Some f)
    note upt_rec_numeral [simp del]
    have s': "s' = fold (\<lambda>i s. set_entry f i (pt_mem s (pt_pml4 s) i) s) [256..<512] s1" and root: "as_root sp = f"
      using assms(2) unfolding as_new_def x(1) Some bind.bind_lunit prod.case option.case by auto
    have "pt_fr s' = pt_fr s1" unfolding s' by (rule fr)
    then show ?thesis using x(2) Some root by simp
  qed
qed

lemma load_page_ok:
  assumes w: "world_ok s (sp # rest)"
  obtains s' where "load_page F room address (Some bytes) (page_flags prot) (s, sp) = Some ((s', sp), Err ENOMEM)" "extended s sp rest s' sp"
      "room \<longrightarrow> unmapped_pages s (as_root sp) [of_nat address] \<longrightarrow> card (A s) < 4"
  | s' sp' where "load_page F room address (Some bytes) (page_flags prot) (s, sp) = Some ((s', sp'), Ok ())" "extended s sp rest s' sp'"
      "page_loaded s' sp' address bytes (page_flags prot)" "card (A s) \<le> card (A s') + 4"
      "leaves_beside s s' (as_root sp) {of_nat address}"
proof -
  note fin = that
  have src: "src s" using w by (simp add: world_ok_def)
  show thesis
  proof (rule alloc_zeroed_ok [OF src])
    fix s1
    assume a: "alloc_frame_zeroed F s = Some (s1, None)" "restored s s1" "A s = {}"
    then show thesis using fin(1) [of s1] extended_restored [OF w] by (simp add: load_page_def)
  next
    fix s0 f
    assume a: "alloc_frame_zeroed F s = Some (s0, Some f)" and tk0: "taken s s0 f"
    define s1 where s1: "s1 = s0\<lparr>pt_mem := (pt_mem s0)(f := page_words bytes)\<rparr>"
    have src0: "src s0" and st0: "statics_same s s0" using tk0 by (simp_all add: taken_def)
    have "src s1" unfolding s1 by (rule sourced_statics [OF src0]) (use sourced_good [OF src0] in \<open>simp_all add: statics_same_def\<close>)
    moreover have "statics_same s s1" using st0 unfolding s1 statics_same_def by simp
    ultimately have tk: "taken s s1 f" using tk0 unfolding taken_def s1 by simp
    show thesis
    proof (rule map_owned_taken [OF w tk page_flags_bits(1,2), of room "of_nat address" prot])
      fix s2 e
      assume m: "as_map_owned F room sp (of_nat address) f (page_flags prot) s1 = Some (s2, sp, Err e)" "restored s1 s2"
        and why: "\<not> room \<or> validate_user_mapping (of_nat address) f (page_flags prot) \<noteq> Ok () \<or> card (A s) \<le> 3
          \<or> leaf (pt_mem s) (as_root sp) (va_path (of_nat address)) \<noteq> None"
      have "frame_ok f" using tk by (simp add: taken_def)
      then have few: "room \<longrightarrow> unmapped_pages s (as_root sp) [of_nat address] \<longrightarrow> card (A s) < 4"
        using why validate_loadable [of "of_nat address" f prot] by (auto simp: unmapped_pages_def)
      obtain s' where "pt_free_frame F f s2 = Some s'" "restored s s'" using taken_return [OF tk m(2) src] by blast
      then show thesis using fin(1) [of s'] a m(1) extended_restored [OF w] few by (simp add: load_page_def s1 Let_def)
    next
      fix s2
      let ?sp = "sp\<lparr>as_owned := as_owned sp @ [\<lparr>om_va = of_nat address, om_frame = f\<rparr>]\<rparr>"
      assume mo: "as_map_owned F room sp (of_nat address) f (page_flags prot) s1 = Some (s2, ?sp, Ok ())"
        and up: "user_page (of_nat address)" and none: "leaf (pt_mem s) (as_root sp) (va_path (of_nat address)) = None"
        and f2: "pt_mem s2 f = pt_mem s1 f" and w2: "world_ok s2 (?sp # rest)"
        and sv: "\<forall>sp2 \<in> set rest. same_view s s2 sp2"
        and lf: "\<forall>vb. user_page vb \<longrightarrow> leaf (pt_mem s2) (as_root sp) (va_path vb)
          = (if vb = of_nat address then Some (f OR page_flags prot) else leaf (pt_mem s) (as_root sp) (va_path vb))"
        and kept: "\<forall>m \<in> set (as_owned sp). pt_mem s2 (om_frame m) = pt_mem s (om_frame m)"
        and acc: "\<forall>u. R s2 u + claims s sp u = R s u + claims s2 ?sp u" "managed s2 = managed s" "card (A s - A s2) \<le> 4"
      have fo: "frame_ok f" using tk by (simp add: taken_def)
      then have "loadable_entry (f OR page_flags prot)" unfolding loadable_entry_def by blast
      then have "extended s sp rest s2 ?sp" unfolding extended_def using w2 sv lf kept acc(1,2) none by auto
      moreover have "page_loaded s2 ?sp address bytes (page_flags prot)"
        unfolding page_loaded_def using up lf fo f2 by (auto simp: s1)
      moreover have "load_page F room address (Some bytes) (page_flags prot) (s, sp) = Some ((s2, ?sp), Ok ())"
        using a mo by (simp add: load_page_def s1 Let_def)
      moreover have "leaves_beside s s2 (as_root sp) {of_nat address}" using lf by (simp add: leaves_beside_def)
      ultimately show thesis using fin(2) card_diff_bound [OF acc(3)] by blast
    qed
  qed
qed

lemma load_pages_ok:
  assumes "world_ok s (sp # rest)" "\<forall>(a, c, fl) \<in> set items. c \<noteq> None \<and> fl \<in> range page_flags"
  shows "\<exists>s' sp' r. load_pages F room items (s, sp) = Some ((s', sp'), r) \<and> extended s sp rest s' sp'
    \<and> (case r of
         Ok _ \<Rightarrow> (\<forall>(a, c, fl) \<in> set items. page_loaded s' sp' a (the c) fl) \<and> card (A s) \<le> card (A s') + 4 * length items
           \<and> leaves_beside s s' (as_root sp) (of_nat ` fst ` set items)
       | Err e \<Rightarrow> e = ENOMEM \<and> ((\<forall>a. room a) \<longrightarrow> unmapped_pages s (as_root sp) (map (of_nat \<circ> fst) items) \<longrightarrow> card (A s) < 4 * length items))"
  using assms
proof (induction items arbitrary: s sp)
  case Nil
  then show ?case using extended_refl by (simp add: leaves_beside_def)
next
  case (Cons item items)
  obtain a bytes prot where item: "item = (a, Some bytes, page_flags prot)" using Cons.prems(2) by (cases item) auto
  show ?case
  proof (rule load_page_ok [OF Cons.prems(1), of "room a" a bytes prot])
    fix s1
    assume p: "load_page F (room a) a (Some bytes) (page_flags prot) (s, sp) = Some ((s1, sp), Err ENOMEM)" "extended s sp rest s1 sp"
      and few: "room a \<longrightarrow> unmapped_pages s (as_root sp) [of_nat a] \<longrightarrow> card (A s) < 4"
    have "(\<forall>a. room a) \<longrightarrow> unmapped_pages s (as_root sp) (map (of_nat \<circ> fst) (item # items)) \<longrightarrow> card (A s) < 4 * length (item # items)"
      using few by (auto simp: unmapped_pages_def item)
    then show ?case using p by (simp add: item)
  next
    fix s1 sp1
    assume p: "load_page F (room a) a (Some bytes) (page_flags prot) (s, sp) = Some ((s1, sp1), Ok ())" "extended s sp rest s1 sp1"
      "page_loaded s1 sp1 a bytes (page_flags prot)" and cd: "card (A s) \<le> card (A s1) + 4"
      and lb: "leaves_beside s s1 (as_root sp) {of_nat a}"
    have root: "as_root sp1 = as_root sp" by (rule extendedD(3) [OF p(2)])
    have "world_ok s1 (sp1 # rest)" using p(2) by (simp add: extended_def)
    then obtain s2 sp2 r where q: "load_pages F room items (s1, sp1) = Some ((s2, sp2), r)" "extended s1 sp1 rest s2 sp2"
      and qr: "case r of
         Ok _ \<Rightarrow> (\<forall>(a, c, fl) \<in> set items. page_loaded s2 sp2 a (the c) fl) \<and> card (A s1) \<le> card (A s2) + 4 * length items
           \<and> leaves_beside s1 s2 (as_root sp1) (of_nat ` fst ` set items)
       | Err e \<Rightarrow> e = ENOMEM \<and> ((\<forall>a. room a) \<longrightarrow> unmapped_pages s1 (as_root sp1) (map (of_nat \<circ> fst) items) \<longrightarrow> card (A s1) < 4 * length items)"
      using Cons.IH [of s1 sp1] Cons.prems(2) by auto
    have "load_pages F room (item # items) (s, sp) = Some ((s2, sp2), r)" using p(1) q(1) by (simp add: item)
    moreover have "extended s sp rest s2 sp2" by (rule extended_trans [OF p(2) q(2)])
    moreover have "case r of
         Ok _ \<Rightarrow> (\<forall>(a, c, fl) \<in> set (item # items). page_loaded s2 sp2 a (the c) fl) \<and> card (A s) \<le> card (A s2) + 4 * length (item # items)
           \<and> leaves_beside s s2 (as_root sp) (of_nat ` fst ` set (item # items))
       | Err e \<Rightarrow> e = ENOMEM \<and> ((\<forall>a. room a) \<longrightarrow> unmapped_pages s (as_root sp) (map (of_nat \<circ> fst) (item # items))
           \<longrightarrow> card (A s) < 4 * length (item # items))"
    proof (cases r)
      case (Ok u)
      have "page_loaded s2 sp2 a bytes (page_flags prot)" by (rule extended_loaded [OF q(2) p(3)])
      moreover have "leaves_beside s s2 (as_root sp) (of_nat ` fst ` set (item # items))"
        using lb qr Ok unfolding leaves_beside_def root by (auto simp: item)
      ultimately show ?thesis using qr Ok cd by (auto simp: item)
    next
      case (Err e)
      have "unmapped_pages s1 (as_root sp1) (map (of_nat \<circ> fst) items)"
        if u: "unmapped_pages s (as_root sp) (map (of_nat \<circ> fst) (item # items))"
      proof -
        have new: "leaf (pt_mem s1) (as_root sp) (va_path va) = None"
          if "va \<in> set (map (of_nat \<circ> fst) items)" for va
        proof -
          have "va \<noteq> of_nat a" "user_page va" "leaf (pt_mem s) (as_root sp) (va_path va) = None"
            using u that unfolding unmapped_pages_def item list.map o_apply fst_conv distinct.simps list.set by blast+
          then show ?thesis using lb by (simp add: leaves_beside_def)
        qed
        show ?thesis unfolding unmapped_pages_def root using u new by (simp add: unmapped_pages_def item)
      qed
      then show ?thesis using qr Err cd by (auto simp: item)
    qed
    ultimately show ?case by blast
  qed
qed

end

end
