(* ===== verification/ExecProps.thy ===== *)
theory ExecProps
  imports ExecLoad
begin

text \<open>
  A prepared image on the kernel's own allocator and address spaces: what the
  program finds in its memory when it starts, and that a failed attempt gives
  everything back.
\<close>

section \<open>What a program reads\<close>

lemma has_USER_flags: "has (f OR page_flags prot) USER"
  unfolding has_bits bit_or_iff
  by (simp add: page_flags_def PF_USER_READ_EXECUTE_def PF_USER_READ_WRITE_def PF_USER_READ_def bit_or_iff bit_flags)

lemma loaded_query:
  assumes "kf.space_ok s sp" "page_loaded s sp address bytes (page_flags prot)"
  obtains f where "as_query sp (of_nat address) s = Ok (f OR page_flags prot)" "frame_ok f" "pt_mem s f = page_words bytes"
proof -
  obtain f where f: "user_page (of_nat address)" "leaf (pt_mem s) (as_root sp) (va_path (of_nat address)) = Some (f OR page_flags prot)"
    "frame_ok f" "pt_mem s f = page_words bytes"
    using assms(2) unfolding page_loaded_def by blast
  have "as_query sp (of_nat address) s = Ok (f OR page_flags prot)"
    by (rule kf.query_ok [OF assms(1), THEN iffD2]) (use f(1,2) in simp)
  then show thesis using that f(3,4) by blast
qed

lemma loaded_byte:
  assumes ok: "kf.space_ok s sp" and l: "page_loaded s sp address bytes (page_flags prot)"
    and a: "aligned address" "address \<le> a" "a < address + 4096" and len: "length bytes = 4096"
  shows "user_byte s sp a = Some (bytes ! (a - address))"
proof (rule loaded_query [OF ok l])
  fix f
  assume f: "as_query sp (of_nat address) s = Ok (f OR page_flags prot)" "frame_ok f" "pt_mem s f = page_words bytes"
  obtain k where k: "address = 4096 * k" using a(1) by (auto simp: aligned_dvd PAGE_SIZE_def)
  then obtain j where j: "a = 4096 * k + j" "j < 4096" using a(2,3) le_Suc_ex by fastforce
  then have m: "a mod PAGE_SIZE = j" "a - j = address" "a - address = j" by (simp_all add: PAGE_SIZE_def k)
  have "entry_frame (f OR page_flags prot) = f" by (rule entry_frame_or [OF f(2) kf.page_flags_bits(1)])
  then show ?thesis unfolding user_byte_def m using f(1,3) has_USER_flags page_words_byte [OF len j(2)] by simp
qed

lemma page_of_range:
  assumes "aligned lo" "aligned hi" "lo \<le> a" "a < hi"
  shows "a - a mod PAGE_SIZE \<in> set (step_by lo hi PAGE_SIZE)" "aligned (a - a mod PAGE_SIZE)"
    "a - a mod PAGE_SIZE \<le> a" "a < a - a mod PAGE_SIZE + 4096"
proof -
  obtain k where k: "lo = 4096 * k" using assms(1) by (auto simp: aligned_dvd PAGE_SIZE_def)
  obtain l where l: "hi = 4096 * l" using assms(2) by (auto simp: aligned_dvd PAGE_SIZE_def)
  let ?i = "a div 4096 - k"
  have d: "k \<le> a div 4096" "a div 4096 < l" using assms(3,4) by (simp_all add: k l div_le_mono less_mult_imp_div_less mult.commute)
  have "a - a mod PAGE_SIZE = lo + ?i * PAGE_SIZE" using d(1) by (simp add: k PAGE_SIZE_def minus_mod_eq_mult_div algebra_simps)
  moreover have "?i < div_ceil (hi - lo) PAGE_SIZE"
  proof -
    have "hi - lo = 4096 * (l - k)" by (simp add: k l diff_mult_distrib2)
    then show ?thesis using d by (simp add: div_ceil_def PAGE_SIZE_def)
  qed
  ultimately show "a - a mod PAGE_SIZE \<in> set (step_by lo hi PAGE_SIZE)" unfolding step_by_def by auto
  show "aligned (a - a mod PAGE_SIZE)" by (simp add: aligned_dvd minus_mod_eq_mult_div)
  have "a mod PAGE_SIZE < 4096" by (simp add: PAGE_SIZE_def)
  then show "a - a mod PAGE_SIZE \<le> a" "a < a - a mod PAGE_SIZE + 4096" by auto
qed

text \<open>The flags of a segment are those of its protection.\<close>

definition segment_prot :: "Segment \<Rightarrow> Protection" where
  "segment_prot sg = \<lparr>p_read = True, p_write = sf_write (sg_flags sg), p_execute = sf_execute (sg_flags sg)\<rparr>"

lemma exec_flags_prot: "exec_page_flags (sg_flags sg) = page_flags (segment_prot sg)"
  by (simp add: exec_page_flags_def page_flags_def segment_prot_def)

lemma stack_flags_prot: "PF_USER_READ_WRITE = page_flags prot_READ_WRITE"
  by (simp add: page_flags_def prot_READ_WRITE_def)

lemma leaf_prot_flags:
  assumes "frame_ok f" "prot \<noteq> prot_NONE"
  shows "leaf_prot prot (f OR page_flags prot)"
proof -
  have "\<not> bit f n" if "n < 12 \<or> n = 63" for n using frame_ok_bits [OF assms(1), of n] that by auto
  then show ?thesis
    using assms(2) has_USER_flags [of 0 prot] kf.page_flags_bits [of prot] by (simp add: leaf_prot_def bit_or_iff)
qed

text \<open>A page of the stack is a page of an image whose one segment is the bytes of the stack.\<close>

definition stack_segment :: "byte list \<Rightarrow> Segment" where
  "stack_segment bytes =
     \<lparr>sg_start = 0, sg_end = 0, sg_flags = \<lparr>sf_read = True, sf_write = True, sf_execute = False\<rparr>,
      sg_vaddr = USER_STACK_TOP - length bytes, sg_file_offset = 0, sg_file_size = length bytes, sg_mem_size = length bytes\<rparr>"

lemma stack_page_is_page:
  assumes "length bytes \<le> USER_STACK_TOP"
  shows "stack_page_contents bytes address = page_contents (stack_segment bytes) bytes address"
  using assms unfolding stack_page_contents_def page_contents_def stack_segment_def Let_def
  by (auto simp: min_def max_def)

section \<open>The pages of an image\<close>

definition image_page_count :: "LoadPlan \<Rightarrow> nat" where
  "image_page_count p = sum_list (map (\<lambda>sg. (sg_end sg - sg_start sg) div PAGE_SIZE) (lp_segments p))"

text \<open>Frames that are enough for an image: a page may need its own and three tables, and the space its root.\<close>

definition frames_wanted :: "LoadPlan \<Rightarrow> nat" where
  "frames_wanted p = 4 * (image_page_count p + USER_STACK_PAGES) + 1"

lemma unat_small: "a < 2 ^ 64 \<Longrightarrow> unat (of_nat a :: w64) = a"
  by (simp add: unat_of_nat)

lemma page_of_nat:
  assumes "aligned a" "a < 2 ^ 47"
  shows "user_page (of_nat a)"
proof -
  have u: "unat (of_nat a :: w64) = a" using assms(2) by (intro unat_small) simp
  obtain k where k: "a = push_bit 12 k" using assms(1) by (auto simp: aligned_dvd PAGE_SIZE_def push_bit_eq_mult mult.commute elim: dvdE)
  have "page_aligned (of_nat a)" unfolding k push_bit_of_nat [symmetric] page_aligned_bits by (simp add: bit_push_bit_iff)
  then show ?thesis using u assms(2) by (simp add: user_page_def word_less_nat_alt)
qed

lemma pages_of_range: "aligned lo \<Longrightarrow> a \<in> set (step_by lo hi PAGE_SIZE) \<Longrightarrow> aligned a \<and> lo \<le> a \<and> a < hi"
proof -
  assume lo: "aligned lo" and "a \<in> set (step_by lo hi PAGE_SIZE)"
  then have a: "lo \<le> a" "a < hi" "PAGE_SIZE dvd a - lo" using step_by_set [of PAGE_SIZE a lo hi] by (simp_all add: PAGE_SIZE_def)
  then show ?thesis using lo dvd_diffD [OF a(3) _ a(1)] by (simp add: aligned_dvd)
qed

lemma distinct_pages: "distinct (step_by lo hi PAGE_SIZE)"
  by (auto simp: step_by_def distinct_map inj_on_def PAGE_SIZE_def)

definition image_addresses :: "LoadPlan \<Rightarrow> u64 list" where
  "image_addresses p = concat (map (\<lambda>sg. step_by (sg_start sg) (sg_end sg) PAGE_SIZE) (lp_segments p))"

definition stack_addresses :: "u64 list" where
  "stack_addresses = step_by (USER_STACK_TOP - USER_STACK_PAGES * PAGE_SIZE) USER_STACK_TOP PAGE_SIZE"

lemma image_addresses_of: "map fst (concat (map (segment_pages file) (lp_segments p))) = image_addresses p"
  by (simp add: image_addresses_def segment_pages_def map_concat comp_def)

lemma stack_addresses_of: "map fst (stack_pages bytes) = stack_addresses"
  by (simp add: stack_addresses_def stack_pages_def comp_def)

lemma image_addresses_ok:
  assumes "list_all (segment_ok len USER_STACK_GUARD) (lp_segments p)" "sorted_wrt apart (lp_segments p)"
  shows "distinct (image_addresses p)" "\<forall>a \<in> set (image_addresses p). aligned a \<and> a < USER_STACK_GUARD"
    "length (image_addresses p) = image_page_count p"
proof -
  have "distinct (concat (map (\<lambda>sg. step_by (sg_start sg) (sg_end sg) PAGE_SIZE) segs))
      \<and> (\<forall>a \<in> set (concat (map (\<lambda>sg. step_by (sg_start sg) (sg_end sg) PAGE_SIZE) segs)). aligned a \<and> a < USER_STACK_GUARD
           \<and> (\<exists>sg \<in> set segs. sg_start sg \<le> a \<and> a < sg_end sg))
      \<and> length (concat (map (\<lambda>sg. step_by (sg_start sg) (sg_end sg) PAGE_SIZE) segs))
         = sum_list (map (\<lambda>sg. (sg_end sg - sg_start sg) div PAGE_SIZE) segs)"
    if "list_all (segment_ok len USER_STACK_GUARD) segs" "sorted_wrt apart segs" for segs
    using that
  proof (induction segs)
    case (Cons sg segs)
    let ?pg = "step_by (sg_start sg) (sg_end sg) PAGE_SIZE"
    have ok: "aligned (sg_start sg)" "aligned (sg_end sg)" "sg_end sg \<le> USER_STACK_GUARD" using Cons.prems(1) by (simp_all add: segment_ok_def)
    have pg: "aligned a \<and> sg_start sg \<le> a \<and> a < sg_end sg" if "a \<in> set ?pg" for a using pages_of_range [OF ok(1) that] .
    have "length ?pg = (sg_end sg - sg_start sg) div PAGE_SIZE"
      using ok(1,2) by (simp add: step_by_def div_ceil_def aligned_dvd dvd_diff_nat flip: dvd_eq_mod_eq_0)
    moreover have "a \<notin> set ?pg" if "sgb \<in> set segs" "sg_start sgb \<le> a" "a < sg_end sgb" for a sgb
      using pg [of a] that Cons.prems(2) by (auto simp: apart_def)
    ultimately show ?case using Cons pg ok(3) distinct_pages [of "sg_start sg" "sg_end sg"] by fastforce
  qed simp
  from this [OF assms] show "distinct (image_addresses p)" "\<forall>a \<in> set (image_addresses p). aligned a \<and> a < USER_STACK_GUARD"
    "length (image_addresses p) = image_page_count p" unfolding image_addresses_def image_page_count_def by blast+
qed

lemma stack_addresses_ok:
  "distinct stack_addresses" "\<forall>a \<in> set stack_addresses. aligned a \<and> USER_STACK_GUARD < a \<and> a < 2 ^ 47"
  "length stack_addresses = USER_STACK_PAGES"
proof -
  show "distinct stack_addresses" unfolding stack_addresses_def by (rule distinct_pages)
  have "aligned (USER_STACK_TOP - USER_STACK_PAGES * PAGE_SIZE)" by (simp add: aligned_dvd exec_consts)
  from pages_of_range [OF this] show "\<forall>a \<in> set stack_addresses. aligned a \<and> USER_STACK_GUARD < a \<and> a < 2 ^ 47"
    unfolding stack_addresses_def by (force simp: exec_consts)
  show "length stack_addresses = USER_STACK_PAGES" by (simp add: stack_addresses_def step_by_def div_ceil_def exec_consts)
qed

lemma distinct_of_nat: "distinct as \<Longrightarrow> \<forall>a \<in> set as. a < 2 ^ 47 \<Longrightarrow> distinct (map of_nat as :: w64 list)"
proof -
  assume "distinct as" "\<forall>a \<in> set as. a < 2 ^ 47"
  moreover have "inj_on (of_nat :: nat \<Rightarrow> w64) (set as)"
    by (rule inj_on_inverseI [where g = unat]) (use \<open>\<forall>a \<in> set as. a < 2 ^ 47\<close> in \<open>auto intro!: unat_small\<close>)
  ultimately show ?thesis by (simp add: distinct_map)
qed

section \<open>The steps of preparing an image\<close>

lemma kept_trans: "SpaceProps.kept a b \<Longrightarrow> SpaceProps.kept b c \<Longrightarrow> SpaceProps.kept a c"
  unfolding SpaceProps.kept_def using balanced_trans by blast

lemma loadable_typed: "loadable_entry e \<Longrightarrow> leaf_typed e"
proof -
  assume "loadable_entry e"
  then obtain f prot where f: "frame_ok f" "e = f OR page_flags prot" unfolding loadable_entry_def by blast
  have "\<not> bit f n" if "n < 12" for n using frame_ok_bits [OF f(1), of n] that by auto
  then show ?thesis unfolding leaf_typed_def has_bits f(2) using kf.page_flags_bits [of prot] by (auto simp: bit_or_iff)
qed

lemma kept_extended:
  assumes "world_inv (s, sp # rest)" "kf.extended s sp rest s' sp'"
  shows "SpaceProps.kept (s, sp # rest) (s', sp' # rest)"
proof -
  note x = kf.extendedD [OF assms(2)]
  have "leaves_typed s' sp'"
    unfolding leaves_typed_def x(3)
  proof (intro allI impI)
    fix vb e assume e: "user_page vb" "leaf (pt_mem s') (as_root sp) (va_path vb) = Some e"
    show "leaf_typed e" using x(7) [OF e] loadable_typed invD(2) [OF assms(1)] e(1) unfolding leaves_typed_def by blast
  qed
  moreover have "\<forall>y \<in> set rest. kf.same_view s s' y" using x(2) by blast
  moreover have "\<forall>u. frame_refs (pt_fr s') u + kf.claims s sp u = frame_refs (pt_fr s) u + kf.claims s' sp' u" using x(8) by blast
  ultimately show ?thesis using kept_one [OF assms(1) x(1) _ _ x(9)] by blast
qed

text \<open>The attempt so far: a space of its own beside the others, which notice nothing.\<close>

definition building :: "Allocator pt_state \<Rightarrow> AddressSpace list \<Rightarrow> w64 \<Rightarrow> Allocator pt_state \<Rightarrow> AddressSpace \<Rightarrow> bool" where
  "building s sps root s' sp \<longleftrightarrow> SpaceProps.kept (s, sps) (s', sp # sps) \<and> (\<forall>x \<in> set sps. kf.same_view s s' x) \<and> root \<noteq> as_root sp"

definition undone :: "Allocator pt_state \<Rightarrow> AddressSpace list \<Rightarrow> Allocator pt_state \<Rightarrow> bool" where
  "undone s sps s' \<longleftrightarrow> SpaceProps.kept (s, sps) (s', sps) \<and> (\<forall>x \<in> set sps. kf.same_view s s' x)"

lemma building_new:
  assumes inv: "world_inv (s, sps)" and root: "runs_on s sps root"
  obtains s' e where "as_new kframes s = Some (s', Err e)" "undone s sps s'" "avail_frames (pt_fr s) = {}"
  | s' sp where "as_new kframes s = Some (s', Ok sp)" "building s sps root s' sp"
      "card (avail_frames (pt_fr s)) \<le> card (avail_frames (pt_fr s')) + 1" "\<And>va. leaf (pt_mem s') (as_root sp) (va_path va) = None"
proof -
  note fin = that
  have w: "kf.world_ok s sps" using inv by (simp add: world_inv_def)
  show thesis
  proof (rule kf.as_new_ok [OF w])
    fix s1 assume a: "as_new kframes s = Some (s1, Err AS_OutOfFrames)" "kf.restored s s1" "avail_frames (pt_fr s) = {}"
    have "undone s sps s1" unfolding undone_def using kept_restored [OF inv a(2)] kf.world_restored [OF w a(2)] by blast
    then show thesis using fin(1) a(1,3) by blast
  next
    fix s1 sp
    assume a: "as_new kframes s = Some (s1, Ok sp)" "as_root sp \<in> avail_frames (pt_fr s)" "kf.space_ok s1 sp"
      "kf.local_step s s1 (\<lambda>_. 0) (kf.claims s1 sp)" "\<And>va. leaf (pt_mem s1) (as_root sp) (va_path va) = None"
    have "sourced refs_inv avail_frames frame_refs s" using w by (simp add: kf.world_ok_def)
    then have "avail_frames (pt_fr s1) = avail_frames (pt_fr s) - {as_root sp}" by (rule kf.as_new_avail [OF _ a(1)])
    then have "avail_frames (pt_fr s) - avail_frames (pt_fr s1) \<subseteq> {as_root sp}" by blast
    then have "card (avail_frames (pt_fr s) - avail_frames (pt_fr s1)) \<le> 1" using card_mono [of "{as_root sp}"] by fastforce
    then have cd: "card (avail_frames (pt_fr s)) \<le> card (avail_frames (pt_fr s1)) + 1" by (rule card_diff_bound)
    have "kf.same_view s s1 x" if "x \<in> set sps" for x
      using kf.world_local [of s "[]" sps s1 "[sp]"] w a(3,4) that by auto
    moreover have "SpaceProps.kept (s, sps) (s1, sp # sps)" using inv_create [OF inv a(1)] by simp
    moreover have "root \<noteq> as_root sp" using runs_on_used [OF w root] a(2) by auto
    ultimately have "building s sps root s1 sp" unfolding building_def by blast
    then show thesis using fin(2) [OF a(1) _ cd a(5)] by blast
  qed
qed

lemma building_load:
  assumes b: "building s sps root s1 sp1" and items: "\<forall>(a, c, fl) \<in> set items. c \<noteq> None \<and> fl \<in> range page_flags"
  obtains s2 sp2 r where "load_pages kframes room items (s1, sp1) = Some ((s2, sp2), r)" "building s sps root s2 sp2"
    "kf.extended s1 sp1 sps s2 sp2"
    "case r of
       Ok _ \<Rightarrow> (\<forall>(a, c, fl) \<in> set items. page_loaded s2 sp2 a (the c) fl)
         \<and> card (avail_frames (pt_fr s1)) \<le> card (avail_frames (pt_fr s2)) + 4 * length items
         \<and> leaves_beside s1 s2 (as_root sp1) (of_nat ` fst ` set items)
     | Err e \<Rightarrow> e = ENOMEM \<and> ((\<forall>a. room a) \<longrightarrow> unmapped_pages s1 (as_root sp1) (map (of_nat \<circ> fst) items)
         \<longrightarrow> card (avail_frames (pt_fr s1)) < 4 * length items)"
proof -
  have k: "SpaceProps.kept (s, sps) (s1, sp1 # sps)" and sv: "\<forall>x \<in> set sps. kf.same_view s s1 x" and root: "root \<noteq> as_root sp1"
    using b unfolding building_def by blast+
  have inv: "world_inv (s1, sp1 # sps)" using k by (simp add: SpaceProps.kept_def)
  obtain s2 sp2 r where l: "load_pages kframes room items (s1, sp1) = Some ((s2, sp2), r)" "kf.extended s1 sp1 sps s2 sp2"
    "case r of
       Ok _ \<Rightarrow> (\<forall>(a, c, fl) \<in> set items. page_loaded s2 sp2 a (the c) fl)
         \<and> card (avail_frames (pt_fr s1)) \<le> card (avail_frames (pt_fr s2)) + 4 * length items
         \<and> leaves_beside s1 s2 (as_root sp1) (of_nat ` fst ` set items)
     | Err e \<Rightarrow> e = ENOMEM \<and> ((\<forall>a. room a) \<longrightarrow> unmapped_pages s1 (as_root sp1) (map (of_nat \<circ> fst) items)
         \<longrightarrow> card (avail_frames (pt_fr s1)) < 4 * length items)"
    using kf.load_pages_ok [OF invD(1) [OF inv] items, of room] by blast
  note x = kf.extendedD [OF l(2)]
  have "kf.same_view s s2 y" if "y \<in> set sps" for y by (rule kf.same_view_trans [OF _ x(2) [OF that]]) (use sv that in blast)
  moreover have "SpaceProps.kept (s, sps) (s2, sp2 # sps)" by (rule kept_trans [OF k kept_extended [OF inv l(2)]])
  ultimately have "building s sps root s2 sp2" unfolding building_def using root x(3) by simp
  then show thesis using that l by blast
qed

lemma building_drop:
  assumes "building s sps root s1 sp1"
  obtains s2 where "as_drop kframes root sp1 s1 = Some s2" "undone s sps s2"
proof -
  have k: "SpaceProps.kept (s, sps) (s1, sp1 # sps)" and sv: "\<forall>x \<in> set sps. kf.same_view s s1 x" and root: "root \<noteq> as_root sp1"
    using assms unfolding building_def by blast+
  have inv: "world_inv (s1, sp1 # sps)" using k by (simp add: SpaceProps.kept_def)
  show thesis
  proof (rule kf.as_drop_ok [OF invD(1) [OF inv] root])
    fix s2 assume d: "as_drop kframes root sp1 s1 = Some s2" "\<forall>x \<in> set sps. kf.same_view s1 s2 x"
    have "SpaceProps.kept (s, sps) (s2, sps)" by (rule kept_trans [OF k inv_destroy [OF inv root d(1)]])
    moreover have "kf.same_view s s2 x" if "x \<in> set sps" for x
      by (rule kf.same_view_trans [of s s1]) (use sv d(2) that in blast)+
    ultimately show thesis using that d(1) unfolding undone_def by blast
  qed
qed

lemma undone_refl: "world_inv (s, sps) \<Longrightarrow> undone s sps s"
  unfolding undone_def using kept_refl by (simp add: kf.same_view_def)

lemma segment_items:
  assumes "segment_ok (length file) user_top sg" "(a, c, fl) \<in> set (segment_pages file sg)"
  shows "c = Some (map (\<lambda>i. image_byte sg file (a + i)) [0..<4096])" "fl = page_flags (segment_prot sg)"
  using assms by (auto simp: segment_pages_def exec_flags_prot segment_ok_def intro: page_contents_ok)

lemma stack_items:
  assumes "length bytes \<le> USER_STACK_TOP" "(a, c, fl) \<in> set (stack_pages bytes)"
  shows "c = Some (map (\<lambda>i. image_byte (stack_segment bytes) bytes (a + i)) [0..<4096])" "fl = page_flags prot_READ_WRITE"
  using assms
  by (auto simp: stack_pages_def stack_flags_prot stack_page_is_page stack_segment_def intro: page_contents_ok)

lemma stack_build_fits:
  assumes "stack_build USER_STACK_TOP argv envp auxv random ARGUMENT_LIMIT = Ok st"
  shows "length (ini_bytes st) \<le> ARGUMENT_LIMIT" "ini_stack_pointer st + length (ini_bytes st) = USER_STACK_TOP"
proof -
  let ?need = "stack_need argv envp auxv random" and ?below = "USER_STACK_TOP - stack_need argv envp auxv random"
  have st: "?need \<le> USER_STACK_TOP" "USER_STACK_TOP - (?below - ?below mod 16) \<le> ARGUMENT_LIMIT"
    "ini_bytes st = stack_layout USER_STACK_TOP argv envp auxv random" "ini_stack_pointer st = ?below - ?below mod 16"
    using assms unfolding stack_build_eq Let_def by (auto split: if_splits)
  have "length (ini_bytes st) = ?need + ?below mod 16"
    unfolding st(3) stack_layout_def Let_def by (simp add: length_stack_words stack_need_def)
  moreover have "?below mod 16 \<le> ?below" by simp
  ultimately show "ini_stack_pointer st + length (ini_bytes st) = USER_STACK_TOP" "length (ini_bytes st) \<le> ARGUMENT_LIMIT"
    using st(1,2,4) by linarith+
qed

text \<open>Why an attempt may fail, and an image that is ready.\<close>

definition exec_failure ::
    "(u64 \<Rightarrow> bool) \<Rightarrow> w64 \<Rightarrow> byte list \<Rightarrow> byte list list \<Rightarrow> byte list list \<Rightarrow> Allocator pt_state \<Rightarrow> Errno \<Rightarrow> bool" where
  "exec_failure room tsc file argv envp s e \<longleftrightarrow>
     e = ENOEXEC \<and> plan file USER_STACK_GUARD = Err ENOEXEC
     \<or> (\<exists>p. plan file USER_STACK_GUARD = Ok p
          \<and> (e = E2BIG \<and> stack_build USER_STACK_TOP argv envp (exec_auxv p) (random_bytes tsc) ARGUMENT_LIMIT = Err E2BIG
             \<or> e = ENOMEM \<and> (\<not> (\<forall>a. room a) \<or> card (avail_frames (pt_fr s)) < frames_wanted p)))"

definition image_loaded :: "Allocator pt_state \<Rightarrow> AddressSpace \<Rightarrow> byte list \<Rightarrow> LoadPlan \<Rightarrow> bool" where
  "image_loaded s sp file p \<longleftrightarrow>
     (\<forall>sg \<in> set (lp_segments p). \<forall>(a, c, fl) \<in> set (segment_pages file sg). page_loaded s sp a (the c) fl)"

lemma prepare_stack_ok:
  assumes b: "building s sps root s1 sp1" and il: "image_loaded s1 sp1 file p"
  obtains s' e where "prepare_stack kframes room root tsc p m argv envp (s1, sp1) = Some (s', Err e)" "undone s sps s'"
      "e = E2BIG \<and> stack_build USER_STACK_TOP argv envp (exec_auxv p) (random_bytes tsc) ARGUMENT_LIMIT = Err E2BIG
       \<or> e = ENOMEM \<and> ((\<forall>a. room a) \<longrightarrow> unmapped_pages s1 (as_root sp1) (map of_nat stack_addresses)
            \<longrightarrow> card (avail_frames (pt_fr s1)) < 4 * USER_STACK_PAGES)"
  | s' sp st where "stack_build USER_STACK_TOP argv envp (exec_auxv p) (random_bytes tsc) ARGUMENT_LIMIT = Ok st"
      "prepare_stack kframes room root tsc p m argv envp (s1, sp1) =
         Some (s', Ok \<lparr>im_space = sp, im_map = m, im_entry = lp_entry p, im_stack_pointer = ini_stack_pointer st\<rparr>)"
      "building s sps root s' sp" "image_loaded s' sp file p"
      "\<forall>(a, c, fl) \<in> set (stack_pages (ini_bytes st)). page_loaded s' sp a (the c) fl"
proof (cases "stack_build USER_STACK_TOP argv envp (exec_auxv p) (random_bytes tsc) ARGUMENT_LIMIT")
  case (Err e)
  then have e: "e = E2BIG" unfolding stack_build_eq Let_def by (simp split: if_splits)
  note fin = that
  show thesis
  proof (rule building_drop [OF b])
    fix s' assume "as_drop kframes root sp1 s1 = Some s'" "undone s sps s'"
    then show thesis using fin(1) [of s' e] Err e by (simp add: prepare_stack_def)
  qed
next
  case st: (Ok st)
  let ?items = "stack_pages (ini_bytes st)"
  have fit: "length (ini_bytes st) \<le> USER_STACK_TOP" using stack_build_fits(2) [OF st] by simp
  then have items: "\<forall>(a, c, fl) \<in> set ?items. c \<noteq> None \<and> fl \<in> range page_flags"
    using stack_items by fastforce
  have vas: "map (of_nat \<circ> fst) ?items = map of_nat stack_addresses" "length ?items = USER_STACK_PAGES"
    using stack_addresses_of [of "ini_bytes st"] stack_addresses_ok(3) by (metis map_map, metis length_map)
  note fin = that
  show thesis
  proof (rule building_load [OF b items, of room, unfolded vas])
    fix s2 sp2 r
    assume l: "load_pages kframes room ?items (s1, sp1) = Some ((s2, sp2), r)"
      and b2: "building s sps root s2 sp2" and x: "kf.extended s1 sp1 sps s2 sp2"
      and q: "case r of
         Ok _ \<Rightarrow> (\<forall>(a, c, fl) \<in> set ?items. page_loaded s2 sp2 a (the c) fl)
           \<and> card (avail_frames (pt_fr s1)) \<le> card (avail_frames (pt_fr s2)) + 4 * USER_STACK_PAGES
           \<and> leaves_beside s1 s2 (as_root sp1) (of_nat ` fst ` set ?items)
       | Err e \<Rightarrow> e = ENOMEM \<and> ((\<forall>a. room a) \<longrightarrow> unmapped_pages s1 (as_root sp1) (map of_nat stack_addresses)
           \<longrightarrow> card (avail_frames (pt_fr s1)) < 4 * USER_STACK_PAGES)"
    show thesis
    proof (cases r)
      case (Err e)
      show thesis
      proof (rule building_drop [OF b2])
        fix s' assume "as_drop kframes root sp2 s2 = Some s'" "undone s sps s'"
        then show thesis using fin(1) [of s' e] Err q l st by (simp add: prepare_stack_def)
      qed
    next
      case (Ok u)
      have "image_loaded s2 sp2 file p" unfolding image_loaded_def
        using il [unfolded image_loaded_def] kf.extended_loaded [OF x] by fastforce
      then show thesis using fin(2) [OF st] Ok b2 q l st by (simp add: prepare_stack_def)
    qed
  qed
qed

text \<open>The pages of the image, and then those of the stack, are free to map.\<close>

lemma fresh_pages:
  assumes p: "plan file USER_STACK_GUARD = Ok p" and len: "length file < 2 ^ 64" and none: "\<And>va. leaf (pt_mem s) root (va_path va) = None"
  shows "unmapped_pages s root (map of_nat (image_addresses p))"
    "leaves_beside s s' root (of_nat ` set (image_addresses p)) \<Longrightarrow> unmapped_pages s' root (map of_nat stack_addresses)"
proof -
  note im = image_addresses_ok [OF plan_segments_ok(1,2) [OF p guard_consts(1,2) len]] and sa = stack_addresses_ok
  have g: "USER_STACK_GUARD < 2 ^ 47" by (simp add: exec_consts)
  have lt: "\<forall>a \<in> set (image_addresses p). a < 2 ^ 47" using im(2) g by fastforce
  have up: "user_page (of_nat a)" if "a \<in> set (image_addresses p) \<union> set stack_addresses" for a
    using that im(2) lt sa(2) by (intro page_of_nat) auto
  show "unmapped_pages s root (map of_nat (image_addresses p))"
    unfolding unmapped_pages_def using distinct_of_nat [OF im(1) lt] up none by auto
  assume lb: "leaves_beside s s' root (of_nat ` set (image_addresses p))"
  have "leaf (pt_mem s') root (va_path (of_nat a)) = None" if a: "a \<in> set stack_addresses" for a
  proof -
    have "of_nat a \<noteq> (of_nat b :: w64)" if b: "b \<in> set (image_addresses p)" for b
    proof -
      have "b < a" "a < 2 ^ 64" using a b im(2) sa(2) by fastforce+
      then show ?thesis using unat_small [of a] unat_small [of b] by auto
    qed
    then show ?thesis using lb up [of a] a none unfolding leaves_beside_def by auto
  qed
  then show "unmapped_pages s' root (map of_nat stack_addresses)"
    unfolding unmapped_pages_def using distinct_of_nat [OF sa(1)] sa(2) up by auto
qed

lemma prepare_file_ok:
  assumes inv: "world_inv (s, sps)" and root: "runs_on s sps root" and len: "length file < 2 ^ 64"
  obtains s' e where "prepare_file kframes room root tsc file argv envp s = Some (s', Err e)" "undone s sps s'"
      "exec_failure room tsc file argv envp s e"
  | s' sp p m st where "plan file USER_STACK_GUARD = Ok p" "exec_memory_map p = Ok m"
      "stack_build USER_STACK_TOP argv envp (exec_auxv p) (random_bytes tsc) ARGUMENT_LIMIT = Ok st"
      "prepare_file kframes room root tsc file argv envp s =
         Some (s', Ok \<lparr>im_space = sp, im_map = m, im_entry = lp_entry p, im_stack_pointer = ini_stack_pointer st\<rparr>)"
      "building s sps root s' sp" "image_loaded s' sp file p"
      "\<forall>(a, c, fl) \<in> set (stack_pages (ini_bytes st)). page_loaded s' sp a (the c) fl"
proof (cases "plan file USER_STACK_GUARD")
  case (Err e)
  then have "e = ENOEXEC" using plan_accepts [OF guard_consts(1,2) len] by (simp split: if_splits)
  then show thesis using that(1) [OF _ undone_refl [OF inv]] Err by (simp add: prepare_file_def exec_failure_def)
next
  case p: (Ok p)
  note fin = that
  let ?run = "prepare_file kframes room root tsc file argv envp s"
  let ?items = "concat (map (segment_pages file) (lp_segments p))"
  note im = image_addresses_ok [OF plan_segments_ok(1,2) [OF p guard_consts(1,2) len]]
  obtain m where m: "exec_memory_map p = Ok m" using exec_map_exists [OF p len] by blast
  have items: "\<forall>(a, c, fl) \<in> set ?items. c \<noteq> None \<and> fl \<in> range page_flags"
    using segment_items plan_segments_ok(1) [OF p guard_consts(1,2) len] by (fastforce simp: list_all_iff)
  have vas: "map (of_nat \<circ> fst) ?items = map of_nat (image_addresses p)" "length ?items = image_page_count p"
    "of_nat ` fst ` set ?items = of_nat ` set (image_addresses p)"
    using image_addresses_of [of "file" p] im(3) by (metis map_map, metis length_map, metis list.set_map)
  have nomem: "exec_failure room tsc file argv envp s ENOMEM"
    if "(\<forall>a. room a) \<longrightarrow> card (avail_frames (pt_fr s)) < frames_wanted p" unfolding exec_failure_def using p that by blast
  show thesis
  proof (rule building_new [OF inv root])
    fix s1 e assume "as_new kframes s = Some (s1, Err e)" "undone s sps s1" "avail_frames (pt_fr s) = {}"
    then show thesis using fin(1) [of s1 ENOMEM] nomem p m by (simp add: prepare_file_def frames_wanted_def)
  next
    fix s1 sp1
    assume n: "as_new kframes s = Some (s1, Ok sp1)" and b1: "building s sps root s1 sp1"
      and c1: "card (avail_frames (pt_fr s)) \<le> card (avail_frames (pt_fr s1)) + 1" and none: "\<And>va. leaf (pt_mem s1) (as_root sp1) (va_path va) = None"
    note fresh = fresh_pages [OF p len none]
    show thesis
    proof (rule building_load [OF b1 items, of room, unfolded vas])
      fix s2 sp2 r
      assume l: "load_pages kframes room ?items (s1, sp1) = Some ((s2, sp2), r)" and b2: "building s sps root s2 sp2"
        and x: "kf.extended s1 sp1 sps s2 sp2"
        and q: "case r of
           Ok _ \<Rightarrow> (\<forall>(a, c, fl) \<in> set ?items. page_loaded s2 sp2 a (the c) fl)
             \<and> card (avail_frames (pt_fr s1)) \<le> card (avail_frames (pt_fr s2)) + 4 * image_page_count p
             \<and> leaves_beside s1 s2 (as_root sp1) (of_nat ` set (image_addresses p))
         | Err e \<Rightarrow> e = ENOMEM \<and> ((\<forall>a. room a) \<longrightarrow> unmapped_pages s1 (as_root sp1) (map of_nat (image_addresses p))
             \<longrightarrow> card (avail_frames (pt_fr s1)) < 4 * image_page_count p)"
      show thesis
      proof (cases r)
        case (Err e)
        then have e: "e = ENOMEM" and few: "(\<forall>a. room a) \<longrightarrow> card (avail_frames (pt_fr s)) < frames_wanted p"
          using q fresh(1) c1 by (auto simp: frames_wanted_def)
        show thesis
        proof (rule building_drop [OF b2])
          fix s' assume "as_drop kframes root sp2 s2 = Some s'" "undone s sps s'"
          then show thesis using fin(1) [of s' e] Err e p m n l nomem [OF few] by (simp add: prepare_file_def)
        qed
      next
        case r: (Ok u)
        have il: "image_loaded s2 sp2 file p" unfolding image_loaded_def using q r by simp
        have run: "?run = prepare_stack kframes room root tsc p m argv envp (s2, sp2)"
          using r p m n l by (simp add: prepare_file_def)
        show thesis
        proof (rule prepare_stack_ok [OF b2 il, of room tsc m argv envp])
          fix s' e
          assume run2: "prepare_stack kframes room root tsc p m argv envp (s2, sp2) = Some (s', Err e)" and un: "undone s sps s'"
            and why: "e = E2BIG \<and> stack_build USER_STACK_TOP argv envp (exec_auxv p) (random_bytes tsc) ARGUMENT_LIMIT = Err E2BIG
               \<or> e = ENOMEM \<and> ((\<forall>a. room a) \<longrightarrow> unmapped_pages s2 (as_root sp2) (map of_nat stack_addresses)
                    \<longrightarrow> card (avail_frames (pt_fr s2)) < 4 * USER_STACK_PAGES)"
          have "leaves_beside s1 s2 (as_root sp1) (of_nat ` set (image_addresses p))"
            and c2: "card (avail_frames (pt_fr s1)) \<le> card (avail_frames (pt_fr s2)) + 4 * image_page_count p" using q r by simp_all
          then have "unmapped_pages s2 (as_root sp2) (map of_nat stack_addresses)" using fresh(2) kf.extendedD(3) [OF x] by simp
          then have "exec_failure room tsc file argv envp s e"
            using why c1 c2 p nomem by (auto simp: exec_failure_def frames_wanted_def)
          then show thesis using fin(1) run run2 un by simp
        qed (use fin(2) [OF p m] in \<open>simp add: run\<close>)
      qed
    qed
  qed
qed

section \<open>Properties\<close>

lemma world_frames: "world_inv (s, sps) \<Longrightarrow> avail_frames (pt_fr s) = kf.managed s - {f. 0 < frame_refs (pt_fr s) f}"
proof -
  assume "world_inv (s, sps)"
  then have "kf.world_ok s sps" by (simp add: world_inv_def)
  then have src: "sourced refs_inv avail_frames frame_refs s" by (simp add: kf.world_ok_def)
  have "frame_refs (pt_fr s) f = 0" if "f \<in> avail_frames (pt_fr s)" for f
    by (rule kf.avail_refs [OF kf.sourced_good [OF src] that])
  then show ?thesis unfolding kf.managed_def by auto
qed

lemma undone_frames:
  assumes "world_inv (s, sps)" "undone s sps s'"
  shows "world_inv (s', sps)" "frame_refs (pt_fr s') = frame_refs (pt_fr s)" "avail_frames (pt_fr s') = avail_frames (pt_fr s)"
    "others_same s s' sps"
proof -
  have k: "SpaceProps.kept (s, sps) (s', sps)" and sv: "\<forall>x \<in> set sps. kf.same_view s s' x" using assms(2) unfolding undone_def by blast+
  then show inv: "world_inv (s', sps)" by (simp add: SpaceProps.kept_def)
  have b: "balanced (s, sps) (s', sps)" using k by (simp add: SpaceProps.kept_def)
  show refs: "frame_refs (pt_fr s') = frame_refs (pt_fr s)"
  proof
    fix u
    have "frame_refs (pt_fr s') u + kf.total s sps u = frame_refs (pt_fr s) u + kf.total s' sps u" using b by (simp add: balanced_def)
    then show "frame_refs (pt_fr s') u = frame_refs (pt_fr s) u" unfolding views_total [OF sv] by simp
  qed
  have "kf.managed s' = kf.managed s" using b by (simp add: balanced_def)
  then show "avail_frames (pt_fr s') = avail_frames (pt_fr s)"
    unfolding world_frames [OF inv] world_frames [OF assms(1)] refs by simp
  have "kf.world_ok s sps" "kf.world_ok s' sps" using assms(1) inv by (simp_all add: world_inv_def)
  then show "others_same s s' sps" by (rule others_sameI) (use sv in auto)
qed

lemma building_same:
  assumes "world_inv (s, sps)" "building s sps root s' sp"
  shows "world_inv (s', sp # sps)" "kf.space_ok s' sp" "others_same s s' sps"
proof -
  have sv: "\<forall>x \<in> set sps. kf.same_view s s' x" using assms(2) unfolding building_def by blast
  show inv: "world_inv (s', sp # sps)" using assms(2) by (simp add: building_def SpaceProps.kept_def)
  then have w: "kf.world_ok s' (sp # sps)" by (simp add: world_inv_def)
  then show "kf.space_ok s' sp" by (simp add: kf.world_ok_def)
  have "kf.world_ok s sps" using assms(1) by (simp add: world_inv_def)
  then show "others_same s s' sps" by (rule others_sameI [OF _ w]) (use sv in auto)
qed

text \<open>The program reads its segments, with their protection.\<close>

lemma image_reads:
  assumes ok: "kf.space_ok s sp" and il: "image_loaded s sp file p" and seg: "segment_ok (length file) user_top sg" "sg \<in> set (lp_segments p)"
    and a: "sg_start sg \<le> a" "a < sg_end sg"
  shows "user_byte s sp a = Some (image_byte sg file a)"
    "\<exists>e. as_query sp (of_nat (a - a mod PAGE_SIZE)) s = Ok e \<and> leaf_prot (segment_prot sg) e"
proof -
  let ?pg = "a - a mod PAGE_SIZE"
  let ?bytes = "map (\<lambda>i. image_byte sg file (?pg + i)) [0..<4096]"
  have al: "aligned (sg_start sg)" "aligned (sg_end sg)" using seg(1) by (simp_all add: segment_ok_def)
  note pg = page_of_range [OF al a]
  have item: "(?pg, page_contents sg file ?pg, exec_page_flags (sg_flags sg)) \<in> set (segment_pages file sg)"
    unfolding segment_pages_def using pg(1) by simp
  note it = segment_items [OF seg(1) item]
  have l: "page_loaded s sp ?pg ?bytes (page_flags (segment_prot sg))"
    using il seg(2) item unfolding image_loaded_def it by fastforce
  have "user_byte s sp a = Some (?bytes ! (a - ?pg))" by (rule loaded_byte [OF ok l pg(2-4)]) simp
  then show "user_byte s sp a = Some (image_byte sg file a)" using pg(3,4) by simp
  have "segment_prot sg \<noteq> prot_NONE" by (simp add: segment_prot_def prot_NONE_def)
  then show "\<exists>e. as_query sp (of_nat ?pg) s = Ok e \<and> leaf_prot (segment_prot sg) e"
    using loaded_query [OF ok l] leaf_prot_flags by metis
qed

text \<open>
  C5. Preparing a program never panics and either gives the program its image or changes nothing.
  It fails only with a reason: the file is not an executable the loader accepts, the arguments do not
  fit, the list of a space's frames cannot grow, or fewer frames are free than four for every page and
  one for the root. On every error (wherever memory runs out) every frame is as free and as referenced
  as before. On success there is one more well-formed address space, in which every address of every
  segment reads the byte of the file, or zero beyond it, on a page with the protection of the segment.
  No other space notices either way.
\<close>

theorem prepare_image:
  assumes "world_inv (s, sps)" "runs_on s sps root" "length file < 2 ^ 64"
  shows "\<exists>s' r. prepare_file kframes room root tsc file argv envp s = Some (s', r) \<and> others_same s s' sps
    \<and> (case r of
         Err e \<Rightarrow> exec_failure room tsc file argv envp s e \<and> world_inv (s', sps)
           \<and> frame_refs (pt_fr s') = frame_refs (pt_fr s) \<and> avail_frames (pt_fr s') = avail_frames (pt_fr s)
       | Ok im \<Rightarrow> world_inv (s', im_space im # sps)
           \<and> (\<exists>p. plan file USER_STACK_GUARD = Ok p \<and> im_entry im = lp_entry p \<and> exec_memory_map p = Ok (im_map im)
                \<and> (\<forall>sg \<in> set (lp_segments p). \<forall>a. sg_start sg \<le> a \<and> a < sg_end sg \<longrightarrow>
                     user_byte s' (im_space im) a = Some (image_byte sg file a)
                     \<and> (\<exists>e. as_query (im_space im) (of_nat (a - a mod PAGE_SIZE)) s' = Ok e \<and> leaf_prot (segment_prot sg) e))))"
proof (rule prepare_file_ok [OF assms, of room tsc argv envp])
  fix s' e
  assume "prepare_file kframes room root tsc file argv envp s = Some (s', Err e)" "undone s sps s'"
    "exec_failure room tsc file argv envp s e"
  then show ?thesis using undone_frames [OF assms(1)] by auto
next
  fix s' sp p m st
  assume p: "plan file USER_STACK_GUARD = Ok p" and m: "exec_memory_map p = Ok m"
    and run: "prepare_file kframes room root tsc file argv envp s =
       Some (s', Ok \<lparr>im_space = sp, im_map = m, im_entry = lp_entry p, im_stack_pointer = ini_stack_pointer st\<rparr>)"
    and b: "building s sps root s' sp" and il: "image_loaded s' sp file p"
  note bs = building_same [OF assms(1) b]
  have seg: "segment_ok (length file) USER_STACK_GUARD sg" if "sg \<in> set (lp_segments p)" for sg
    using plan_segments_ok(1) [OF p guard_consts(1,2) assms(3)] that by (simp add: list_all_iff)
  show ?thesis
    using run bs p m image_reads [OF bs(2) il seg] by auto
qed

text \<open>The program reads its stack.\<close>

lemma stack_reads:
  assumes ok: "kf.space_ok s sp" and st: "stack_build USER_STACK_TOP argv envp auxv random ARGUMENT_LIMIT = Ok st"
    and sl: "\<forall>(a, c, fl) \<in> set (stack_pages (ini_bytes st)). page_loaded s sp a (the c) fl"
  shows "stored (user_byte s sp) (ini_stack_pointer st) (ini_bytes st)"
  unfolding stored_def
proof (intro allI impI)
  fix i assume i: "i < length (ini_bytes st)"
  define a where a: "a = ini_stack_pointer st + i"
  let ?bytes = "ini_bytes st" and ?pg = "a - a mod PAGE_SIZE" and ?lo = "USER_STACK_TOP - USER_STACK_PAGES * PAGE_SIZE"
  note fit = stack_build_fits [OF st]
  have len: "length ?bytes \<le> USER_STACK_TOP" using fit(2) by simp
  have sp: "ini_stack_pointer st = USER_STACK_TOP - length ?bytes" using fit(2) by simp
  have r: "?lo \<le> a" "a < USER_STACK_TOP" using i fit unfolding a sp by (simp_all add: exec_consts)
  have "aligned ?lo" by (simp add: aligned_dvd exec_consts)
  note pg = page_of_range [OF this guard_consts(3) r]
  have item: "(?pg, stack_page_contents ?bytes ?pg, PF_USER_READ_WRITE) \<in> set (stack_pages ?bytes)"
    unfolding stack_pages_def using pg(1) by simp
  note it = stack_items [OF len item]
  let ?page = "map (\<lambda>i. image_byte (stack_segment ?bytes) ?bytes (?pg + i)) [0..<4096]"
  have l: "page_loaded s sp ?pg ?page (page_flags prot_READ_WRITE)" using sl item unfolding it by fastforce
  have "user_byte s sp a = Some (?page ! (a - ?pg))" by (rule loaded_byte [OF ok l pg(2-4)]) simp
  also have "?page ! (a - ?pg) = image_byte (stack_segment ?bytes) ?bytes a" using pg(3,4) by simp
  also have "\<dots> = ?bytes ! i"
  proof -
    have "USER_STACK_TOP - length ?bytes \<le> a" "a < USER_STACK_TOP - length ?bytes + length ?bytes" "a - (USER_STACK_TOP - length ?bytes) = i"
      using i len unfolding a sp by linarith+
    then show ?thesis unfolding image_byte_def stack_segment_def by simp
  qed
  finally show "user_byte s sp (ini_stack_pointer st + i) = Some (?bytes ! i)" unfolding a .
qed

text \<open>
  C6. A program starts with the arguments it was given: preparing an image succeeds unless one of the
  reasons to fail holds, and then the start-up code of the user library, run on the memory of the new address space from the stack
  pointer of the image, returns and finds exactly the arguments and the environment that were passed,
  and in the auxiliary vector the entry point, the page size and the place of the program headers.
\<close>

theorem prepare_arguments:
  assumes "world_inv (s, sps)" "runs_on s sps root" "length file < 2 ^ 64"
    "\<forall>v \<in> set argv \<union> set envp. 0 \<notin> set v \<and> utf8_ok v"
  shows "\<exists>s' r. prepare_file kframes room root tsc file argv envp s = Some (s', r)
    \<and> (case r of Err e \<Rightarrow> exec_failure room tsc file argv envp s e
       | Ok im \<Rightarrow>
          let m = user_byte s' (im_space im) in
          im_stack_pointer im mod 16 = 0
          \<and> (\<exists>p info. plan file USER_STACK_GUARD = Ok p \<and> from_stack m (im_stack_pointer im) = Some info
               \<and> env_args m info = Some argv \<and> env_vars m info = Some (map split_eq envp)
               \<and> si_aux m info AT_ENTRY = Some (Some (im_entry im)) \<and> si_aux m info AT_PAGESZ = Some (Some 4096)
               \<and> si_aux m info AT_PHDR = Some (Some (lp_phdr_vaddr p)) \<and> si_aux m info AT_PHNUM = Some (Some (lp_phnum p))))"
proof (rule prepare_file_ok [OF assms(1-3), of room tsc argv envp])
  fix s' e
  assume "prepare_file kframes room root tsc file argv envp s = Some (s', Err e)" "exec_failure room tsc file argv envp s e"
  then show ?thesis by simp
next
  fix s' sp p m st
  assume p: "plan file USER_STACK_GUARD = Ok p"
    and st: "stack_build USER_STACK_TOP argv envp (exec_auxv p) (random_bytes tsc) ARGUMENT_LIMIT = Ok st"
    and run: "prepare_file kframes room root tsc file argv envp s =
       Some (s', Ok \<lparr>im_space = sp, im_map = m, im_entry = lp_entry p, im_stack_pointer = ini_stack_pointer st\<rparr>)"
    and b: "building s sps root s' sp"
    and sl: "\<forall>(a, c, fl) \<in> set (stack_pages (ini_bytes st)). page_loaded s' sp a (the c) fl"
  note bs = building_same [OF assms(1) b] and pf = plan_fields [OF p guard_consts(1,2) assms(3)]
  have top: "USER_STACK_TOP < 2 ^ 64" by (simp add: exec_consts)
  have aux: "\<forall>(k, v) \<in> set (exec_auxv p). 0 < k \<and> k < 2 ^ 64 \<and> v < 2 ^ 64"
    using pf by (simp add: exec_auxv_def AT_PHDR_def AT_PHENT_def AT_PHNUM_def AT_PAGESZ_def AT_ENTRY_def PAGE_SIZE_def)
  note t = stack_reads_back [OF st stack_reads [OF bs(2) st sl] top aux assms(4)]
  show ?thesis using run t p
    by (auto simp: Let_def exec_auxv_def AT_PHDR_def AT_PHENT_def AT_PHNUM_def AT_PAGESZ_def AT_ENTRY_def AT_RANDOM_def PAGE_SIZE_def)
qed

section \<open>Programs in the in-memory file system\<close>

text \<open>Reading a program from the in-memory file system ends, and gives the whole file.\<close>

lemma read_program_file:
  assumes "vfs_lookup (ram_ops oom) w path = Ok i" "file_of (w_fs w) i = Some file" "length file \<le> MAX_PROGRAM_SIZE"
  shows "read_program (ram_ops oom) w path = Some (Ok file, w_fs w)"
proof -
  have sz: "io_kind (ram_ops oom) (w_fs w) i = KFile" "st_size (io_stat (ram_ops oom) (w_fs w) i) = length file"
    using assms(2) by (simp_all add: ram_file_kind ram_file_size)
  have "file_read_at file 0 (length file) = file" by (simp add: file_read_at_def)
  then have rd: "io_read_at (ram_ops oom) (w_fs w) i 0 (length file) = (Ok file, w_fs w)"
    using assms(2) by (simp add: ram_read_at_def)
  have full: "read_all (ram_ops oom) i (length file) file (w_fs w) = Some (Ok file, w_fs w)"
    by (subst read_all.simps) simp
  have "read_all (ram_ops oom) i (length file) [] (w_fs w) = Some (Ok file, w_fs w)"
  proof (cases "file = []")
    case False
    then show ?thesis using rd full by (subst read_all.simps) simp
  qed (use full in simp)
  then show ?thesis using assms(1,3) sz by (simp add: read_program_def Let_def)
qed

lemma prepare_from_file:
  assumes "vfs_lookup (ram_ops oom) w path = Ok i" "file_of (w_fs w) i = Some file" "length file \<le> MAX_PROGRAM_SIZE"
  shows "prepare F room root tsc (ram_ops oom) w path argv envp s =
    map_option (\<lambda>(s', r). (w_fs w, s', r)) (prepare_file F room root tsc file argv envp s)"
  unfolding prepare_def read_program_file [OF assms]
  by (cases "prepare_file F room root tsc file argv envp s") auto

section \<open>A program that starts\<close>

text \<open>A machine with 256 free frames.\<close>

lemma exec_world: "world_inv (clean_world 256, [])" "runs_on (clean_world 256) [] 0x100000" "length tiny_elf < 2 ^ 64"
proof -
  have "reaches world_boot (space_step True) (clean_world 256, [])" by (rule reaches.start) (rule clean_world_boot, simp)
  then show "world_inv (clean_world 256, [])" by (rule sw.reaches_inv)
  show "runs_on (clean_world 256) [] 0x100000" by (simp add: runs_on_def clean_world_def)
qed simp

lemma clean_frames: "n \<le> 256 \<Longrightarrow> n \<le> card (avail_frames (pt_fr (clean_world n)))"
proof -
  assume n: "n \<le> 256"
  let ?f = "\<lambda>i. of_nat (i * 4096) :: w64"
  have u: "unat (?f i) = i * 4096" if "i < n" for i using that n by (intro unat_small) simp
  have "inj_on ?f {..<n}" by (rule inj_on_inverseI [where g = "\<lambda>w. unat w div 4096"]) (use u in simp)
  then have "n = card (?f ` {..<n})" by (simp add: card_image)
  also have "\<dots> \<le> card (avail_frames (clean_allocator n))"
  proof (rule card_mono)
    have "n \<le> MAX_FRAMES" using n by (simp add: MAX_FRAMES_def)
    note inv = clean_allocator_inv(2,3) [OF this]
    have "?f i \<in> avail_frames (clean_allocator n)" if "i < n" for i
      unfolding avail_frames_def frame_number_def frame_ok_iff mem_Collect_eq u [OF that] inv using that n by (simp add: PAGE_SIZE_def)
    then show "?f ` {..<n} \<subseteq> avail_frames (clean_allocator n)" by blast
  qed simp
  finally show ?thesis by (simp add: clean_world_def)
qed

lemma tiny_plan: "plan tiny_elf USER_STACK_GUARD = Ok (plan_of tiny_elf)"
proof -
  have "loadable tiny_elf USER_STACK_GUARD"
    unfolding loadable_def tiny_elf_headers(3,4)
    by (simp add: static_header_def loads_def header_fits_def segment_flags_def executable_at_def segment_of_def
        elf_consts exec_consts tiny_elf_headers)
  then show ?thesis using plan_accepts [OF guard_consts(1,2) exec_world(3)] by simp
qed

text \<open>None of the reasons to fail holds there for \<open>tiny_elf\<close> with the argument \<open>ls\<close>.\<close>

lemma tiny_starts: "\<not> exec_failure (\<lambda>_. True) 7 tiny_elf [[0x6c, 0x73]] [] (clean_world 256) e"
proof -
  have "frames_wanted (plan_of tiny_elf) = 133"
    unfolding frames_wanted_def image_page_count_def tiny_elf_plan by (simp add: exec_consts)
  then have "\<not> card (avail_frames (pt_fr (clean_world 256))) < frames_wanted (plan_of tiny_elf)" using clean_frames [of 256] by simp
  moreover have "length (random_bytes 7) = 16" by (simp add: random_bytes_def Let_def)
  then have "stack_need [[0x6c, 0x73]] [] (exec_auxv (plan_of tiny_elf)) (random_bytes 7) \<le> 200"
    by (simp add: stack_need_def exec_auxv_def)
  then have "is_ok (stack_build USER_STACK_TOP [[0x6c, 0x73]] [] (exec_auxv (plan_of tiny_elf)) (random_bytes 7) ARGUMENT_LIMIT)"
    unfolding stack_build_eq Let_def by (simp add: exec_consts)
  ultimately show ?thesis by (auto simp: exec_failure_def tiny_plan)
qed

theorem prepare_image_witness:
  "\<exists>s' im. prepare_file kframes (\<lambda>_. True) 0x100000 7 tiny_elf [[0x6c, 0x73]] [] (clean_world 256) = Some (s', Ok im)
    \<and> world_inv (s', [im_space im]) \<and> im_entry im = 0x1078"
proof -
  note t = prepare_image [OF exec_world, of "\<lambda>_. True" 7 "[[0x6c, 0x73]]" "[]"]
  show ?thesis
    using t
  proof (elim exE conjE, goal_cases)
    case (1 s' r)
    then show ?case using tiny_starts by (cases r) (auto simp: tiny_plan tiny_elf_plan)
  qed
qed

theorem prepare_arguments_witness:
  "\<exists>s' im info. prepare_file kframes (\<lambda>_. True) 0x100000 7 tiny_elf [[0x6c, 0x73]] [] (clean_world 256) = Some (s', Ok im)
    \<and> from_stack (user_byte s' (im_space im)) (im_stack_pointer im) = Some info
    \<and> env_args (user_byte s' (im_space im)) info = Some [[0x6c, 0x73]]"
proof -
  have "\<forall>v \<in> set [[0x6c, 0x73]] \<union> set []. (0 :: byte) \<notin> set v \<and> utf8_ok v" by simp
  note t = prepare_arguments [OF exec_world this, of "\<lambda>_. True" 7]
  show ?thesis
    using t
  proof (elim exE conjE, goal_cases)
    case (1 s' r)
    then show ?case using tiny_starts by (cases r) (auto simp: Let_def)
  qed
qed

end
