(* ===== verification/Spec2Isabelle.thy ===== *)
theory Spec2Isabelle
  imports KlogRing SoundRing Holds StaticMap ChainedMap OpenAddressMap HashSet BootInfo MappingModel
    Errno Vma Buddy BuddySpec Frame PageTable PageTree FrameSource PageSpace PageMap AddressSpace SpaceWorld
    UserMemory SpaceOps SpaceCow SpaceDrop SpaceFork SpaceSteps SpaceProps Task Scheduler SchedulerProps Process ProcessSpec
    Inode DirTree RamFs RamFsProps FileTable Vfs RamVfs Cpio CpioSpec Elf InitialStack Exec ExecLoad ExecProps
begin

text \<open>
  A verification library for SaeOS, an x86-64 operating system kernel with its
  user space, written in Rust (\<open>src/kernel\<close>, \<open>src/userspace\<close>, \<open>src/tools\<close>).

  \<^bold>\<open>The program.\<close> The boot code collects a physical memory map. Frames of it
  are owned by a bitmap with buddy lists; page tables, kernel stacks and files
  take their frames there. A process has a memory map of regions, a
  descriptor table and a place in the process table; its threads are tasks of a
  scheduler with virtual deadlines. Paths are resolved by a virtual file system
  over an in-memory file system, which is filled from an archive the build tool
  writes. A program is read from there, checked, and loaded with its stack into an
  address space of its own. A sound driver and the kernel log keep rings of their own, and the
  kernel has its own collections.

  \<^bold>\<open>Conventions\<close> (\<open>Prelude\<close>). A definition has the name of the function it
  models, with a prefix where two modules use the same name. Structures are
  records, enumerations datatypes. A \<open>usize\<close> or \<open>u64\<close> is a \<^typ>\<open>nat\<close> with the
  bound \<open>2 ^ 64\<close> written out wherever the code can reach it (\<open>checked_add\<close> and its
  relatives); values that are combined bitwise are words. A panic, a failed
  assertion or a loop that does not end is \<^term>\<open>None\<close>; a \<open>Result\<close> is a \<open>result\<close>.
  A function that changes state returns the state it leaves beside its result,
  on errors too. Fallible allocation (\<open>try_reserve\<close>) is a parameter, so that the
  theorems hold whether or not memory runs out. A critical section is one step.
  Where the code gives up a lock inside an operation and other callers matter,
  the operation is split there: \<open>rename_check\<close> and \<open>rename_commit\<close>,
  \<open>vfs_write_start\<close> and \<open>vfs_write_end\<close>. The operations of an address space take the
  lock of the space several times; they are one step each since the lock of the
  registry is held around them, or the space is not yet registered. Waiting for a lock is not modelled.

  \<^bold>\<open>Memory.\<close>
  \<^item> \<open>BootInfo\<close>: \<open>boot/boot_info.rs\<close>, the list of regions with \<open>push\<close> and
    \<open>push_merged\<close>: disjoint regions stay disjoint, no byte is lost or invented.
  \<^item> \<open>MappingModel\<close>: \<open>mm/mapping_model.rs\<close>, the plan of leaf pages of a range. A
    plan tiles its range with pages the tables can hold; every error is
    characterised, and every page is the largest that fits; the walk without tables agrees with the planner.
  \<^item> \<open>Holds\<close>: \<open>mm/holds.rs\<close>, the table of ranges pinned during boot.
  \<^item> \<open>Buddy\<close>, \<open>BuddySpec\<close>: \<open>mm/buddy.rs\<close>, intrusive doubly linked free lists over a
    memory of nodes. The invariant is the code's own \<open>validate\<close>; reachability is
    over all operations interleaved with arbitrary writes of the owners of
    frames, with one restriction: \<open>isolate\<close> runs only while no frame but the listed
    heads carries a head tag (\<open>no_stale_tags\<close>), which the code does not see to; a
    concrete run shows it hand out a reserved frame otherwise. Allocation and
    release have exact contracts.
  \<^item> \<open>Frame\<close>: \<open>mm/frame.rs\<close>, the two-bit bitmap, the allocator with its scan before
    the lists exist, reservations, holds, reference counts. Bounded allocation uses \<open>isolate\<close>, so its
    contract assumes the same of the tags; the page tables, which do not use it,
    rest on the lists alone. Interfaces: the
    locale \<open>frame_states\<close> for the bitmap, interpreted twice.
  \<^item> \<open>Vma\<close>: \<open>mm/vma.rs\<close>, the regions of a process and the calls \<open>mmap\<close>, \<open>munmap\<close>,
    \<open>mprotect\<close>, \<open>set_brk\<close>: sorted disjoint regions, none writable and executable, and
    each call reports exactly the page-table changes it needs; for \<open>set_brk\<close> as long
    as the heap is in one readable and writable piece, and two runs show what it
    reports after \<open>munmap\<close> or \<open>mprotect\<close> inside the heap.

  \<^bold>\<open>Tasks and processes.\<close>
  \<^item> \<open>Task\<close>: \<open>task/types.rs\<close>, \<open>entity.rs\<close>, \<open>record.rs\<close>, \<open>wait_queue.rs\<close>, \<open>mm/kvm.rs\<close>.
  \<^item> \<open>Scheduler\<close> with \<open>SchedulerInv\<close>, \<open>SchedulerOps\<close>, \<open>SchedulerSwitch\<close>,
    \<open>SchedulerSpec\<close>, \<open>SchedulerWake\<close>, \<open>SchedulerSafety\<close>, \<open>SchedulerProps\<close>:
    \<open>task/scheduler.rs\<close>. The calls of the kernel are a transition system together
    with the wait queues; in every reachable state the queues list exactly the
    tasks in their states and the weighted sums are exact; no blocked task is
    lost; a dispatch takes the eligible task with the earliest deadline; expired
    sleepers wake; lag survives a sleep.
  \<^item> \<open>Process\<close>, \<open>ProcessSpec\<close>: \<open>process.rs\<close>, the table of processes: a family tree,
    adoption by init, \<open>wait\<close>, and every address space handed back once.

  \<^bold>\<open>Files.\<close>
  \<^item> \<open>Errno\<close>, \<open>Inode\<close>: \<open>fs/errno.rs\<close>, \<open>fs/inode.rs\<close>, \<open>fs/path.rs\<close>.
  \<^item> \<open>DirTree\<close>: an abstract directory tree, its laws and its elementary changes.
  \<^item> \<open>RamFs\<close> with \<open>RamFsInv\<close>, \<open>RamFsOps\<close>, \<open>RamFsRename\<close>, \<open>RamFsProps\<close>:
    \<open>fs/ramfs.rs\<close>. Inodes are a store with reference counts. Every reachable state
    abstracts to a directory tree, with exact byte accounting, while other calls
    run between the two steps of a rename; assumed is that they do not remove the
    directory it moves into, and a run shows the file lost when they do. The walks
    of a rename end and it never makes a cycle; writes are read back. The order in
    which rename locks entry maps is shown to break the order the module states.
  \<^item> \<open>FileTable\<close>: \<open>fs/file.rs\<close>, the descriptor table refines a finite map.
  \<^item> \<open>Vfs\<close>: \<open>fs/vfs.rs\<close>, mounts, walks and every call, over a record of inode
    operations (the trait \<open>Inode\<close>); \<open>RamVfs\<close> instantiates it with the in-memory file
    system through the locale \<open>file_contents\<close>. A write is exact when it runs alone; two
    appending writes that overlap lose data, shown on a run.
  \<^item> \<open>Cpio\<close>, \<open>CpioSpec\<close>: \<open>fs/initramfs.rs\<close> and \<open>tools/mkinitramfs/src/cpio.rs\<close>, the
    parser of the kernel reads what the build tool writes.

  \<^bold>\<open>Containers and rings.\<close>
  \<^item> \<open>MapSpec\<close> states the contract of the trait \<open>Map\<close> as a locale over arbitrary
    sequences of operations; \<open>StaticMap\<close>, \<open>ChainedMap\<close>, \<open>OpenAddressMap\<close> interpret
    it, \<open>HashSet\<close> builds on the last (\<open>collections/\<close>). Hash functions are parameters.
  \<^item> \<open>KlogRing\<close>, \<open>SoundRing\<close>: \<open>klog_ring.rs\<close>, \<open>sound/ring.rs\<close>.

  \<^bold>\<open>Page tables and address spaces.\<close> \<open>mm/paging.rs\<close> (the tables below a root and
  \<open>AddressSpace\<close>) and \<open>mm/user_memory.rs\<close>.
  \<^item> \<open>PageTable\<close>: entries, table frames and the walks \<open>map_page_in_root\<close>,
    \<open>unmap_page_in_root\<close>, \<open>rollback_tables\<close>, \<open>free_table_tree\<close>. The state is physical
    memory (512 words for every frame), the statics and the frame allocator.
  \<^item> \<open>PageTree\<close>: the tree of tables in that memory, by paths of indices.
  \<^item> \<open>FrameSource\<close>: what the tables need of the allocator, as the locales
    \<open>frame_supply\<close> and \<open>frame_source\<close>, interpreted on the allocator of \<open>Frame\<close>.
    \<open>PageSpace\<close> and \<open>PageMap\<close> hold the lemmas on walks inside them.
  \<^item> \<open>AddressSpace\<close>: \<open>map\<close>, \<open>map_owned\<close>, \<open>map_device\<close>, \<open>unmap_mapping\<close>, \<open>protect\<close>,
    \<open>query\<close>, \<open>resolve_cow\<close>, \<open>fork_cow\<close>, \<open>drop\<close>; \<open>UserMemory\<close>: the pages behind \<open>brk\<close>,
    \<open>mmap\<close>, \<open>munmap\<close>, \<open>mprotect\<close>.
  \<^item> \<open>SpaceWorld\<close>: all spaces together and the accounts of their frames;
    \<open>SpaceOps\<close>, \<open>SpaceCow\<close>, \<open>SpaceDrop\<close>, \<open>SpaceFork\<close>, \<open>SpaceSteps\<close>: each operation keeps
    the accounts and every other space as it was.
  \<^item> \<open>SpaceProps\<close>: the transition system of all operations and writes of user
    programs. In every reachable world spaces are isolated (a frame two spaces map is
    writable in neither, but for device memory, which fork shares), translations are typed
    (never writable and executable), frames come back when the spaces are gone, and
    the operations have exact contracts. The references a fork loses on its early
    returns are counted exactly; the theorem on the return of frames excludes those.

  \<^bold>\<open>Programs.\<close> \<open>exec/elf.rs\<close>, \<open>exec/stack.rs\<close>, \<open>exec/mod.rs\<close> and the start-up code
  of the user library, \<open>libsaeos/src/startinfo.rs\<close> and \<open>env.rs\<close>.
  \<^item> \<open>Elf\<close>: the checks of an executable. \<open>plan\<close> accepts exactly the files that meet a
    declarative specification, and the bytes of a page are those of the file.
  \<^item> \<open>InitialStack\<close>: the stack with arguments, environment and auxiliary vector, and
    the code of the new program that reads it: it reads back what was put there.
  \<^item> \<open>Exec\<close>: the memory map of an image, and \<open>prepare\<close> with its clean-up; \<open>ExecLoad\<close>:
    loading pages over any frame source, with the frames it may use and the reasons
    it may fail; \<open>ExecProps\<close>: on the kernel's allocator a program finds its segments
    and its arguments in its memory, and a failed attempt changes nothing.

  \<^bold>\<open>Loops.\<close> Loops over data are structural recursion or folds; the probe loops
  of the open addressing map, the walk up the parents in a rename, the loop that
  reads a program and the loops of a program over its stack are
  \<open>partial_function (option)\<close>, and that they return is proved (reading a program:
  for the in-memory file system). One definition has a bound on its depth:
  \<open>drop_ref\<close>, the drop of a directory and of what only it refers to, gets
  \<open>next_ino + 1\<close>. That is enough: every level removes an inode and all have numbers
  below \<open>next_ino\<close>; and in reachable states a directory that loses its last reference
  is empty, so that the first level is the last.

  \<^bold>\<open>Not modelled.\<close> Assembly, descriptor tables, interrupt entry and the context
  switch; the kernel's own half of the page tables (huge pages and their splits,
  \<open>map_range\<close>) and the registry that hands out address spaces by number; the two
  heaps; handing a prepared image to the processor (\<open>install_current\<close>); the glue between system call numbers and the modelled operations; device registers (interrupt
  controllers, PCI, display, sound and serial devices) and firmware calls, which are input and output with the machine;
  translation lookaside buffers and the atomics inside locks; text output for
  people; test programs. The manifest lists these parts one by one.
\<close>

end
